(* ===== verification/Prelude.thy ===== *)
theory Prelude
  imports Complex_Main "HOL-Library.Sublist" "HOL-Library.AList"
begin

text \<open>
  The base of the library: the result type the fallible Go functions return, the loops over
  it, 64-bit arithmetic with its wrap-around, and the few functions of Go's packages
  \<^verbatim>\<open>strings\<close> and \<^verbatim>\<open>strconv\<close> the modelled code calls. Strings are lists of
  bytes (\<^typ>\<open>char\<close>), as Go's are; the case and white-space functions are those of ASCII.
\<close>

named_theorems result_simps \<open>how the result operations compute\<close>
named_theorems result_splits \<open>splitting an assumption that a result operation succeeded\<close>

section \<open>Results\<close>

text \<open>
  A Go function returning \<^verbatim>\<open>(T, error)\<close> is a function into \<^typ>\<open>'e + 'a\<close>: \<open>Inl\<close> is the
  error, \<open>Inr\<close> the value. \<open>bindR\<close> is the early return
  \<^verbatim>\<open>if err != nil { return err }\<close>, \<open>mapR\<close> the loop that builds a slice and stops at the first
  error, \<open>foldR\<close> the loop that carries a state.
\<close>

definition bindR :: "'e + 'a \<Rightarrow> ('a \<Rightarrow> 'e + 'b) \<Rightarrow> 'e + 'b" where
  "bindR m f = (case m of Inl e \<Rightarrow> Inl e | Inr x \<Rightarrow> f x)"

lemma bindR_simps [simp, result_simps]:
  "bindR (Inl e) f = Inl e" "bindR (Inr x) f = f x"
  by (simp_all add: bindR_def)

lemma bindR_eq_Inr [result_splits]:
  "bindR m f = Inr y \<longleftrightarrow> (\<exists>x. m = Inr x \<and> f x = Inr y)"
  by (cases m) auto

lemma bindR_eq_Inl:
  "bindR m f = Inl e \<longleftrightarrow> m = Inl e \<or> (\<exists>x. m = Inr x \<and> f x = Inl e)"
  by (cases m) auto

lemma bindR_assoc: "bindR (bindR m f) g = bindR m (\<lambda>x. bindR (f x) g)"
  by (cases m) auto

lemma bindR_cong [fundef_cong]:
  "m = m' \<Longrightarrow> (\<And>x. m' = Inr x \<Longrightarrow> f x = f' x) \<Longrightarrow> bindR m f = bindR m' f'"
  by (cases m') auto

fun mapR :: "('a \<Rightarrow> 'e + 'b) \<Rightarrow> 'a list \<Rightarrow> 'e + 'b list" where
  "mapR f [] = Inr []"
| "mapR f (x # xs) = bindR (f x) (\<lambda>y. bindR (mapR f xs) (\<lambda>ys. Inr (y # ys)))"

lemma mapR_cong [fundef_cong]:
  "xs = ys \<Longrightarrow> (\<And>x. x \<in> set ys \<Longrightarrow> f x = g x) \<Longrightarrow> mapR f xs = mapR g ys"
  by (induction ys arbitrary: xs) (auto intro!: bindR_cong)

lemma mapR_eq_Inr:
  "mapR f xs = Inr ys \<longleftrightarrow> list_all2 (\<lambda>x y. f x = Inr y) xs ys"
  by (induction xs arbitrary: ys) (auto simp: result_splits list_all2_Cons1)

lemma mapR_length: "mapR f xs = Inr ys \<Longrightarrow> length ys = length xs"
  by (auto simp: mapR_eq_Inr dest: list_all2_lengthD)

lemma mapR_Inr_set:
  "mapR f xs = Inr ys \<Longrightarrow> y \<in> set ys \<Longrightarrow> \<exists>x\<in>set xs. f x = Inr y"
  by (auto simp: mapR_eq_Inr in_set_conv_nth list_all2_conv_all_nth) (metis nth_mem)

lemma mapR_Inr_ok: "mapR f xs = Inr ys \<Longrightarrow> x \<in> set xs \<Longrightarrow> \<exists>y. f x = Inr y"
  by (auto simp: mapR_eq_Inr in_set_conv_nth list_all2_conv_all_nth)

lemma mapR_map: "mapR f (map g xs) = mapR (\<lambda>x. f (g x)) xs"
  by (induction xs) auto

lemma mapR_Inr_all:
  assumes "mapR f xs = Inr ys" and "\<And>x y. x \<in> set xs \<Longrightarrow> f x = Inr y \<Longrightarrow> P y"
  shows "\<forall>y\<in>set ys. P y"
  using mapR_Inr_set [OF assms(1)] assms(2) by blast

lemma mapR_Inr_nth:
  "mapR f xs = Inr ys \<Longrightarrow> i < length xs \<Longrightarrow> f (xs ! i) = Inr (ys ! i)"
  by (auto simp: mapR_eq_Inr list_all2_conv_all_nth)

fun foldR :: "('a \<Rightarrow> 's \<Rightarrow> 'e + 's) \<Rightarrow> 'a list \<Rightarrow> 's \<Rightarrow> 'e + 's" where
  "foldR f [] s = Inr s"
| "foldR f (x # xs) s = bindR (f x s) (foldR f xs)"

lemma foldR_cong [fundef_cong]:
  "xs = ys \<Longrightarrow> s = t \<Longrightarrow> (\<And>x s. x \<in> set ys \<Longrightarrow> f x s = g x s) \<Longrightarrow> foldR f xs s = foldR g ys t"
  by (induction ys arbitrary: xs s t) (auto intro!: bindR_cong)

lemma foldR_append: "foldR f (xs @ ys) s = bindR (foldR f xs s) (foldR f ys)"
  by (induction xs arbitrary: s) (auto simp: bindR_assoc intro!: bindR_cong)

lemma foldR_invariant:
  assumes "foldR f xs s = Inr t" and "P s"
    and "\<And>x s s'. x \<in> set xs \<Longrightarrow> P s \<Longrightarrow> f x s = Inr s' \<Longrightarrow> P s'"
  shows "P t"
  using assms by (induction xs arbitrary: s) (auto simp: result_splits)

text \<open>\<open>filterR\<close> is the loop that keeps the elements a fallible test accepts.\<close>

fun filterR :: "('a \<Rightarrow> 'e + bool) \<Rightarrow> 'a list \<Rightarrow> 'e + 'a list" where
  "filterR f [] = Inr []"
| "filterR f (x # xs) =
     bindR (f x) (\<lambda>b. bindR (filterR f xs) (\<lambda>ys. Inr (if b then x # ys else ys)))"

lemma filterR_eq_Inr:
  "filterR f xs = Inr ys \<longleftrightarrow>
     (\<forall>x\<in>set xs. \<exists>b. f x = Inr b) \<and> ys = filter (\<lambda>x. f x = Inr True) xs"
proof (induction xs arbitrary: ys)
  case Nil
  show ?case by auto
next
  case (Cons a xs)
  show ?case
  proof (cases "f a")
    case (Inl e)
    then show ?thesis by simp
  next
    case (Inr b)
    then show ?thesis
      using Cons.IH by (cases "filterR f xs") auto
  qed
qed

lemma filterR_Inr_filter:
  "filterR f xs = Inr ys \<Longrightarrow> ys = filter (\<lambda>x. f x = Inr True) xs"
  by (simp add: filterR_eq_Inr)

section \<open>Lookups\<close>

lemma find_SomeD: "find P xs = Some x \<Longrightarrow> x \<in> set xs \<and> P x"
  by (induction xs) (auto split: if_splits)

lemma map_of_update: "map_of (AList.update k v xs) = (map_of xs)(k \<mapsto> v)"
  by (rule ext) (simp add: update_conv)

section \<open>Step relations\<close>

text \<open>
  A component whose operations interleave is a step relation; what it keeps is an invariant that holds at the start
  and that every step keeps.
\<close>

locale transition_system =
  fixes starts :: "'s \<Rightarrow> bool" and moves :: "'s \<Rightarrow> 's \<Rightarrow> bool" and keeps_to :: "'s \<Rightarrow> bool"
  assumes starts_ok: "starts s \<Longrightarrow> keeps_to s"
    and moves_ok: "moves s s' \<Longrightarrow> keeps_to s \<Longrightarrow> keeps_to s'"
begin

lemma runs_ok: "moves\<^sup>*\<^sup>* s s' \<Longrightarrow> keeps_to s \<Longrightarrow> keeps_to s'"
  by (induction rule: rtranclp_induct) (auto intro: moves_ok)

lemma reached_ok: "starts s \<Longrightarrow> moves\<^sup>*\<^sup>* s s' \<Longrightarrow> keeps_to s'"
  by (blast intro: runs_ok starts_ok)

end

section \<open>64-bit integers\<close>

text \<open>Go's \<^verbatim>\<open>int64\<close> (and \<^verbatim>\<open>int\<close> on 64-bit platforms): two's complement, wrapping around.\<close>

definition wrap64 :: "int \<Rightarrow> int" where
  "wrap64 x = (x + 2 ^ 63) mod 2 ^ 64 - 2 ^ 63"

definition is_int64 :: "int \<Rightarrow> bool" where
  "is_int64 x \<longleftrightarrow> - (2 ^ 63) \<le> x \<and> x < 2 ^ 63"

lemma wrap64_id: "is_int64 x \<Longrightarrow> wrap64 x = x"
  by (simp add: is_int64_def wrap64_def)

lemma wrap64_is_int64 [simp]: "is_int64 (wrap64 x)"
  by (simp add: is_int64_def wrap64_def)

lemma wrap64_idem [simp]: "wrap64 (wrap64 x) = wrap64 x"
  by (simp add: wrap64_id)

lemma wrap64_add: "wrap64 (wrap64 x + y) = wrap64 (x + y)"
proof -
  have "(x + 2 ^ 63) mod 2 ^ 64 - 2 ^ 63 + y + 2 ^ 63 = (x + 2 ^ 63) mod 2 ^ 64 + y" by simp
  moreover have "((x + 2 ^ 63) mod 2 ^ 64 + y) mod 2 ^ 64 = (x + y + 2 ^ 63) mod 2 ^ 64"
    by (simp only: mod_add_left_eq) (simp add: algebra_simps)
  ultimately show ?thesis by (simp only: wrap64_def)
qed

section \<open>Decimal text\<close>

definition digit :: "nat \<Rightarrow> char" where
  "digit d = ''0123456789'' ! d"

text \<open>\<open>show_nat\<close> and \<open>show_int\<close> are \<^verbatim>\<open>strconv.Itoa\<close> and \<^verbatim>\<open>strconv.FormatInt(_, 10)\<close>.\<close>

fun show_nat :: "nat \<Rightarrow> string" where
  "show_nat n = (if n < 10 then [digit n] else show_nat (n div 10) @ [digit (n mod 10)])"

declare show_nat.simps [simp del]

definition show_int :: "int \<Rightarrow> string" where
  "show_int i = (if i < 0 then CHR ''-'' # show_nat (nat (- i)) else show_nat (nat i))"

definition is_digit :: "char \<Rightarrow> bool" where
  "is_digit c \<longleftrightarrow> c \<in> set ''0123456789''"

definition digit_val :: "char \<Rightarrow> nat" where
  "digit_val c = of_char c - 48"

definition read_nat :: "string \<Rightarrow> nat" where
  "read_nat = foldl (\<lambda>a c. 10 * a + digit_val c) 0"

lemma less_10_cases:
  "d < (10::nat) \<Longrightarrow> d = 0 \<or> d = 1 \<or> d = 2 \<or> d = 3 \<or> d = 4 \<or> d = 5 \<or> d = 6 \<or> d = 7 \<or> d = 8 \<or> d = 9"
  by arith

lemma digit_val_digit: "d < 10 \<Longrightarrow> digit_val (digit d) = d"
  by (drule less_10_cases) (auto simp: digit_def digit_val_def)

lemma is_digit_digit: "d < 10 \<Longrightarrow> is_digit (digit d)"
  by (drule less_10_cases) (auto simp: digit_def is_digit_def)

lemma read_show_nat: "read_nat (show_nat n) = n"
proof (induction n rule: show_nat.induct)
  case (1 n)
  show ?case
  proof (cases "n < 10")
    case True
    then show ?thesis
      by (subst show_nat.simps) (simp add: read_nat_def digit_val_digit)
  next
    case False
    with 1 have "read_nat (show_nat (n div 10)) = n div 10" by simp
    then have "foldl (\<lambda>a c. 10 * a + digit_val c) 0 (show_nat (n div 10)) = n div 10"
      by (simp add: read_nat_def)
    with False show ?thesis
      by (subst show_nat.simps) (simp add: read_nat_def digit_val_digit)
  qed
qed

lemma show_nat_digits: "c \<in> set (show_nat n) \<Longrightarrow> is_digit c"
proof (induction n rule: show_nat.induct)
  case (1 n)
  show ?case
  proof (cases "n < 10")
    case True
    with 1 show ?thesis by (subst (asm) (2) show_nat.simps) (simp add: is_digit_digit)
  next
    case False
    with 1 show ?thesis
      by (subst (asm) (2) show_nat.simps) (auto simp: is_digit_digit)
  qed
qed

lemma show_nat_nonempty [simp]: "show_nat n \<noteq> []"
  by (subst show_nat.simps) simp

lemma show_nat_inj: "show_nat m = show_nat n \<longleftrightarrow> m = n"
  by (metis read_show_nat)

lemma is_digit_cases:
  "is_digit c \<Longrightarrow> c \<noteq> CHR ''-'' \<and> c \<noteq> CHR ''/'' \<and> c \<noteq> CHR 0x00"
  by (auto simp: is_digit_def)

lemma show_int_inj: "show_int i = show_int j \<longleftrightarrow> i = j"
proof -
  have hd_digit: "hd (show_nat n) \<noteq> CHR ''-''" for n
    using show_nat_digits [of "hd (show_nat n)" n] is_digit_cases by (metis hd_in_set show_nat_nonempty)
  have ne: "CHR ''-'' # show_nat m \<noteq> show_nat n" for m n
    using hd_digit [of n] by (metis list.sel(1))
  show ?thesis
    by (simp add: show_int_def show_nat_inj ne ne [symmetric] nat_eq_iff)
qed

lemma show_int_chars: "c \<in> set (show_int i) \<Longrightarrow> c \<noteq> CHR ''/'' \<and> c \<noteq> CHR 0x00"
  by (auto simp: show_int_def dest: show_nat_digits is_digit_cases split: if_splits)

section \<open>Strings\<close>

fun join_strs :: "string \<Rightarrow> string list \<Rightarrow> string" where
  "join_strs sep [] = []"
| "join_strs sep [s] = s"
| "join_strs sep (s # ss) = s @ sep @ join_strs sep ss"

lemma append_sep_inj:
  "c \<notin> set s \<Longrightarrow> c \<notin> set t \<Longrightarrow> s @ c # xs = t @ c # ys \<longleftrightarrow> s = t \<and> xs = ys"
proof (induction s arbitrary: t)
  case Nil
  then show ?case by (cases t) auto
next
  case (Cons a s)
  then show ?case by (cases t) auto
qed

lemma append_sep_notin: "c \<notin> set t \<Longrightarrow> s @ c # xs \<noteq> t"
  by auto

lemma join_strs_inj:
  assumes "length ss = length ts" and "\<forall>s\<in>set ss. c \<notin> set s" and "\<forall>t\<in>set ts. c \<notin> set t"
  shows "join_strs [c] ss = join_strs [c] ts \<longleftrightarrow> ss = ts"
  using assms
proof (induction ss ts rule: list_induct2)
  case (Cons s ss t ts)
  then show ?case by (cases ss; cases ts) (auto simp: append_sep_inj)
qed simp

text \<open>\<open>cut\<close> is \<^verbatim>\<open>strings.Cut(s, sep)\<close> for a separator of one byte: \<open>None\<close> when it does not occur.\<close>

fun cut :: "char \<Rightarrow> string \<Rightarrow> (string \<times> string) option" where
  "cut c [] = None"
| "cut c (x # xs) =
     (if x = c then Some ([], xs)
      else map_option (\<lambda>(before, after). (x # before, after)) (cut c xs))"

definition to_lower_char :: "char \<Rightarrow> char" where
  "to_lower_char c =
     (let n = (of_char c :: nat) in if 65 \<le> n \<and> n \<le> 90 then char_of (n + 32) else c)"

definition to_lower :: "string \<Rightarrow> string" where
  "to_lower = map to_lower_char"

definition to_upper_char :: "char \<Rightarrow> char" where
  "to_upper_char c =
     (let n = (of_char c :: nat) in if 97 \<le> n \<and> n \<le> 122 then char_of (n - 32) else c)"

definition to_upper :: "string \<Rightarrow> string" where
  "to_upper = map to_upper_char"

text \<open>The white space of \<^verbatim>\<open>strings.TrimSpace\<close>: tab, newline, vertical tab, form feed, return, space.\<close>

definition is_space :: "char \<Rightarrow> bool" where
  "is_space c \<longleftrightarrow> (let n = (of_char c :: nat) in n = 32 \<or> 9 \<le> n \<and> n \<le> 13)"

definition trim_space :: "string \<Rightarrow> string" where
  "trim_space s = rev (dropWhile is_space (rev (dropWhile is_space s)))"

definition equal_fold :: "string \<Rightarrow> string \<Rightarrow> bool" where
  "equal_fold s t \<longleftrightarrow> to_lower s = to_lower t"

lemma of_char_char_of_small [simp]: "n < 256 \<Longrightarrow> (of_char (char_of (n::nat)) :: nat) = n"
  by (simp only: of_char_of mod_less)

lemma to_lower_char_idem [simp]: "to_lower_char (to_lower_char c) = to_lower_char c"
  by (simp add: to_lower_char_def Let_def)

lemma to_lower_idem [simp]: "to_lower (to_lower s) = to_lower s"
  by (simp add: to_lower_def)

lemma is_space_to_lower [simp]: "is_space (to_lower_char c) = is_space c"
  by (auto simp: is_space_def to_lower_char_def Let_def)

lemma dropWhile_dropWhile [simp]: "dropWhile P (dropWhile P s) = dropWhile P s"
  by (induction s) auto

lemma dropWhile_rev_drop [simp]:
  "dropWhile P (rev (dropWhile P (rev (dropWhile P s)))) = rev (dropWhile P (rev (dropWhile P s)))"
proof (cases "rev (dropWhile P (rev (dropWhile P s)))")
  case Nil
  then show ?thesis by (simp only: dropWhile.simps)
next
  case (Cons x xs)
  have "\<exists>ys. dropWhile P s = rev (dropWhile P (rev (dropWhile P s))) @ ys"
    by (metis rev_append rev_rev_ident takeWhile_dropWhile_id)
  with Cons obtain ys where "dropWhile P s = x # xs @ ys" by auto
  then have "\<not> P x" by (metis hd_dropWhile list.distinct(1) list.sel(1))
  with Cons show ?thesis by simp
qed

lemma trim_space_idem [simp]: "trim_space (trim_space s) = trim_space s"
  by (simp add: trim_space_def)

lemma dropWhile_space_lower:
  "dropWhile is_space (map to_lower_char s) = map to_lower_char (dropWhile is_space s)"
  by (simp add: dropWhile_map comp_def)

lemma to_lower_trim: "to_lower (trim_space s) = trim_space (to_lower s)"
  by (simp add: trim_space_def to_lower_def dropWhile_space_lower rev_map)

end
