(* ===== verification/Relalg.thy ===== *)
theory Relalg
  imports Prelude
begin

text \<open>
  The intermediate representation of \<^verbatim>\<open>src/core/relalg\<close>: the operators, predicates and
  expressions (\<^verbatim>\<open>relalg.go\<close>), the validation of a predicate (\<^verbatim>\<open>validate.go\<close>) and the two walks
  over it (\<^verbatim>\<open>walk.go\<close>). The lemmas show which predicates the validation accepts, that it
  depends on the list lengths of a predicate only and never on its values, and how the walks
  compose.
\<close>

section \<open>Values\<close>

text \<open>
  The dynamic values (Go's \<^verbatim>\<open>any\<close>) the representation carries. The integer types are one
  constructor. A \<^verbatim>\<open>float64\<close> is carried as the number its shortest decimal text denotes, which is
  all the code reads of it (\<open>None\<close>: a NaN or an infinity); \<open>VRat\<close> is a \<^verbatim>\<open>*big.Rat\<close>, \<open>VList\<close> an
  \<^verbatim>\<open>[]any\<close>, and \<open>VOther\<close> a value of any other type.
\<close>

datatype val =
    VNull
  | VInt int
  | VFloat "rat option"
  | VRat rat
  | VStr string
  | VBool bool
  | VList "val list"
  | VOther nat

section \<open>Operators and aggregate functions\<close>

text \<open>
  An operator is a string in the source; \<open>OtherOp\<close> is any string that is not one of the
  constants, which \<open>op_Valid\<close> refuses. The same goes for the aggregate functions.
\<close>

datatype op =
    OpEq | OpNe | OpGt | OpGte | OpLt | OpLte | OpIn | OpNotIn | OpLike | OpIsNull | OpIsNotNull
  | OtherOp string

fun op_Valid :: "op \<Rightarrow> bool" where
  "op_Valid (OtherOp s) = False"
| "op_Valid _ = True"

datatype agg_func = AggCount | AggSum | AggAvg | AggMin | AggMax | OtherAgg string

fun agg_Valid :: "agg_func \<Rightarrow> bool" where
  "agg_Valid (OtherAgg s) = False"
| "agg_Valid _ = True"

text \<open>The text of a function, which is its value in the source.\<close>

fun agg_string :: "agg_func \<Rightarrow> string" where
  "agg_string AggCount = ''count''"
| "agg_string AggSum = ''sum''"
| "agg_string AggAvg = ''avg''"
| "agg_string AggMin = ''min''"
| "agg_string AggMax = ''max''"
| "agg_string (OtherAgg s) = s"

section \<open>Expressions\<close>

record relation_ref =
  rr_Schema :: string
  rr_Name :: string

record project_item =
  pi_Field :: string
  pi_Alias :: string

definition ProjectFields :: "string list \<Rightarrow> project_item list" where
  "ProjectFields fs = map (\<lambda>f. \<lparr>pi_Field = f, pi_Alias = []\<rparr>) fs"

record agg_call =
  ag_Func :: agg_func
  ag_Field :: string
  ag_Distinct :: bool
  ag_Name :: string

record order_term =
  ot_Field :: string
  ot_Dir :: string
  ot_Nullable :: bool

record set_item =
  si_Field :: string
  si_Value :: val

record join_pair =
  jp_Left :: string
  jp_Right :: string

record condition =
  c_Field :: string
  c_Op :: op
  c_Value :: val

text \<open>
  A predicate and an expression are interface values in the source, so both may be nil
  (\<open>NilPred\<close>, \<open>NilExpr\<close>); \<open>NotP\<close> is the source's \<^verbatim>\<open>Not\<close>.
\<close>

datatype predicate =
    NilPred
  | Condition condition
  | And "predicate list"
  | Or "predicate list"
  | NotP predicate
  | Exists relation_ref "join_pair list" predicate

datatype expr =
    NilExpr
  | Scan relation_ref string
  | Select expr predicate
  | Project expr "project_item list"
  | Aggregate expr "string list" "agg_call list"
  | Sort expr "order_term list"
  | Limit expr int int
  | Join expr relation_ref string "join_pair list" predicate
  | Having expr predicate
  | Distinct expr
  | Insert relation_ref "string list" "val list list"
  | Update relation_ref predicate "set_item list"
  | Delete relation_ref predicate
  | Call relation_ref "val list"

fun Input :: "expr \<Rightarrow> expr option" where
  "Input (Select e p) = Some e"
| "Input (Project e items) = Some e"
| "Input (Aggregate e gs as) = Some e"
| "Input (Sort e ts) = Some e"
| "Input (Limit e n off) = Some e"
| "Input (Distinct e) = Some e"
| "Input (Having e p) = Some e"
| "Input (Join e r a on p) = Some e"
| "Input _ = None"

lemma Input_size: "Input e = Some e' \<Longrightarrow> size e' < size e"
  by (cases e) auto

section \<open>Validation\<close>

datatype relalg_error =
    ErrInvalidOp
  | ErrInvalidAggFunc
  | ErrUnknownPredicate
  | ErrInvalidPredicate
  | ErrINCardinality

definition DefaultMaxINCardinality :: int where
  "DefaultMaxINCardinality = 1000"

text \<open>\<open>HasExists\<close> reports an EXISTS anywhere in a predicate.\<close>

fun HasExists :: "predicate \<Rightarrow> bool" where
  "HasExists (Exists r on p) = True"
| "HasExists (And ps) = list_ex HasExists ps"
| "HasExists (Or ps) = list_ex HasExists ps"
| "HasExists (NotP p) = HasExists p"
| "HasExists NilPred = False"
| "HasExists (Condition c) = False"

definition validateCondition :: "condition \<Rightarrow> int \<Rightarrow> relalg_error + unit" where
  "validateCondition c maxIN =
     (if c_Field c = [] then Inl ErrInvalidPredicate
      else if \<not> op_Valid (c_Op c) then Inl ErrInvalidOp
      else if (c_Op c = OpIsNull \<or> c_Op c = OpIsNotNull) \<and> c_Value c \<noteq> VNull then Inl ErrInvalidPredicate
      else if c_Op c \<noteq> OpIn \<and> c_Op c \<noteq> OpNotIn then Inr ()
      else (case c_Value c of
              VList vs \<Rightarrow>
                if vs = [] \<or> int (length vs) > maxIN then Inl ErrINCardinality else Inr ()
            | _ \<Rightarrow> Inl ErrINCardinality))"

text \<open>
  The validation, the check of the operands of an AND or an OR, and the loop over them; the
  three recurse through each other as in the source.
\<close>

function (sequential) ValidatePredicateWithMaxINCardinality :: "predicate \<Rightarrow> int \<Rightarrow> relalg_error + unit"
  and validatePredicateList :: "predicate list \<Rightarrow> int \<Rightarrow> relalg_error + unit"
  and validatePredicateList_loop :: "predicate list \<Rightarrow> int \<Rightarrow> relalg_error + unit" where
  "ValidatePredicateWithMaxINCardinality p maxIN =
     (if maxIN \<le> 0 then Inl ErrINCardinality
      else (case p of
          NilPred \<Rightarrow> Inr ()
        | Condition c \<Rightarrow> validateCondition c maxIN
        | And ps \<Rightarrow> validatePredicateList ps maxIN
        | Or ps \<Rightarrow> validatePredicateList ps maxIN
        | NotP q \<Rightarrow>
            if q = NilPred then Inl ErrInvalidPredicate
            else ValidatePredicateWithMaxINCardinality q maxIN
        | Exists r on q \<Rightarrow>
            if rr_Name r = [] \<or> on = [] then Inl ErrInvalidPredicate
            else if HasExists q then Inl ErrInvalidPredicate
            else ValidatePredicateWithMaxINCardinality q maxIN))"
| "validatePredicateList ps maxIN =
     (if ps = [] then Inl ErrInvalidPredicate else validatePredicateList_loop ps maxIN)"
| "validatePredicateList_loop [] maxIN = Inr ()"
| "validatePredicateList_loop (p # ps) maxIN =
     (if p = NilPred then Inl ErrInvalidPredicate
      else bindR (ValidatePredicateWithMaxINCardinality p maxIN)
             (\<lambda>_. validatePredicateList_loop ps maxIN))"
  by pat_completeness auto

termination
  by (relation "measure (\<lambda>x. case x of
        Inl (p, _) \<Rightarrow> 2 * size p
      | Inr (Inl (ps, _)) \<Rightarrow> 2 * size_list size ps + 1
      | Inr (Inr (ps, _)) \<Rightarrow> 2 * size_list size ps)") auto

declare ValidatePredicateWithMaxINCardinality.simps [simp del] validatePredicateList.simps [simp del]

definition ValidatePredicate :: "predicate \<Rightarrow> relalg_error + unit" where
  "ValidatePredicate p = ValidatePredicateWithMaxINCardinality p DefaultMaxINCardinality"

section \<open>Walks\<close>

fun MapConditions :: "predicate \<Rightarrow> (condition \<Rightarrow> condition) \<Rightarrow> predicate" where
  "MapConditions (Condition c) f = Condition (f c)"
| "MapConditions (And ps) f = And (map (\<lambda>p. MapConditions p f) ps)"
| "MapConditions (Or ps) f = Or (map (\<lambda>p. MapConditions p f) ps)"
| "MapConditions (NotP p) f = NotP (MapConditions p f)"
| "MapConditions p f = p"

text \<open>\<open>Fields\<close> accumulates the fields in the order they are first seen.\<close>

fun Fields_walk :: "predicate \<Rightarrow> string list \<Rightarrow> string list"
  and Fields_walks :: "predicate list \<Rightarrow> string list \<Rightarrow> string list" where
  "Fields_walk (Condition c) out = (if c_Field c \<in> set out then out else out @ [c_Field c])"
| "Fields_walk (And ps) out = Fields_walks ps out"
| "Fields_walk (Or ps) out = Fields_walks ps out"
| "Fields_walk (NotP p) out = Fields_walk p out"
| "Fields_walk NilPred out = out"
| "Fields_walk (Exists r on p) out = out"
| "Fields_walks [] out = out"
| "Fields_walks (p # ps) out = Fields_walks ps (Fields_walk p out)"

definition Fields :: "predicate \<Rightarrow> string list" where
  "Fields p = Fields_walk p []"

section \<open>What the validation accepts\<close>

text \<open>
  The specification is independent of the recursion of the validation: the nodes of a predicate,
  what each node must satisfy on its own, and the depth to which EXISTS nests.
\<close>

fun nodes :: "predicate \<Rightarrow> predicate set" where
  "nodes (And ps) = insert (And ps) (\<Union>p\<in>set ps. nodes p)"
| "nodes (Or ps) = insert (Or ps) (\<Union>p\<in>set ps. nodes p)"
| "nodes (NotP p) = insert (NotP p) (nodes p)"
| "nodes (Exists r on p) = insert (Exists r on p) (nodes p)"
| "nodes p = {p}"

fun exists_depth :: "predicate \<Rightarrow> nat" where
  "exists_depth (And ps) = Max (insert 0 (exists_depth ` set ps))"
| "exists_depth (Or ps) = Max (insert 0 (exists_depth ` set ps))"
| "exists_depth (NotP p) = exists_depth p"
| "exists_depth (Exists r on p) = Suc (exists_depth p)"
| "exists_depth p = 0"

definition condition_ok :: "int \<Rightarrow> condition \<Rightarrow> bool" where
  "condition_ok maxIN c \<longleftrightarrow>
     c_Field c \<noteq> [] \<and> op_Valid (c_Op c) \<and>
     (c_Op c \<in> {OpIsNull, OpIsNotNull} \<longrightarrow> c_Value c = VNull) \<and>
     (c_Op c \<in> {OpIn, OpNotIn} \<longrightarrow>
        (\<exists>vs. c_Value c = VList vs \<and> 0 < length vs \<and> int (length vs) \<le> maxIN))"

fun node_ok :: "int \<Rightarrow> predicate \<Rightarrow> bool" where
  "node_ok maxIN (Condition c) = condition_ok maxIN c"
| "node_ok maxIN (And ps) = (ps \<noteq> [] \<and> NilPred \<notin> set ps)"
| "node_ok maxIN (Or ps) = (ps \<noteq> [] \<and> NilPred \<notin> set ps)"
| "node_ok maxIN (NotP p) = (p \<noteq> NilPred)"
| "node_ok maxIN (Exists r on p) = (rr_Name r \<noteq> [] \<and> on \<noteq> [])"
| "node_ok maxIN NilPred = True"

lemma HasExists_depth: "HasExists p \<longleftrightarrow> 0 < exists_depth p"
proof -
  have "HasExists p \<longleftrightarrow> \<not> exists_depth p = 0"
    by (induction p) (auto simp: list_ex_iff Max_eq_iff)
  then show ?thesis by simp
qed

lemma validateCondition_ok: "validateCondition c maxIN = Inr () \<longleftrightarrow> condition_ok maxIN c"
  by (auto simp: validateCondition_def condition_ok_def split: val.splits)

lemma validate_nodes:
  "0 < maxIN \<Longrightarrow> ValidatePredicateWithMaxINCardinality p maxIN = Inr () \<longleftrightarrow>
     (\<forall>q\<in>nodes p. node_ok maxIN q) \<and> exists_depth p \<le> 1"
  "0 < maxIN \<Longrightarrow> validatePredicateList ps maxIN = Inr () \<longleftrightarrow>
     ps \<noteq> [] \<and> NilPred \<notin> set ps \<and> (\<forall>p\<in>set ps. (\<forall>q\<in>nodes p. node_ok maxIN q) \<and> exists_depth p \<le> 1)"
  "0 < maxIN \<Longrightarrow> validatePredicateList_loop ps maxIN = Inr () \<longleftrightarrow>
     NilPred \<notin> set ps \<and> (\<forall>p\<in>set ps. (\<forall>q\<in>nodes p. node_ok maxIN q) \<and> exists_depth p \<le> 1)"
proof (induction p maxIN and ps maxIN and ps maxIN
    rule: ValidatePredicateWithMaxINCardinality_validatePredicateList_validatePredicateList_loop.induct)
  case (1 p maxIN)
  then show ?case
    by (cases p) (auto simp: ValidatePredicateWithMaxINCardinality.simps validateCondition_ok HasExists_depth)
next
  case (4 p ps maxIN)
  then show ?case by (auto simp: bindR_eq_Inr)
qed (auto simp: validatePredicateList.simps)

section \<open>What the walks see\<close>

text \<open>
  \<open>top_conditions\<close> lists the conditions on the row itself in order, the ones inside an EXISTS left
  out: those name columns of another relation.
\<close>

fun top_conditions :: "predicate \<Rightarrow> condition list" where
  "top_conditions (Condition c) = [c]"
| "top_conditions (And ps) = concat (map top_conditions ps)"
| "top_conditions (Or ps) = concat (map top_conditions ps)"
| "top_conditions (NotP p) = top_conditions p"
| "top_conditions NilPred = []"
| "top_conditions (Exists r on p) = []"

definition add_field :: "string list \<Rightarrow> condition \<Rightarrow> string list" where
  "add_field out c = (if c_Field c \<in> set out then out else out @ [c_Field c])"

lemma Fields_walk_fold:
  "Fields_walk p out = foldl add_field out (top_conditions p)"
  "Fields_walks ps out = foldl add_field out (concat (map top_conditions ps))"
  by (induction p out and ps out rule: Fields_walk_Fields_walks.induct) (auto simp: add_field_def)

lemma foldl_add_field:
  assumes "distinct out"
  shows "distinct (foldl add_field out cs)"
    and "set (foldl add_field out cs) = set out \<union> c_Field ` set cs"
  using assms by (induction cs arbitrary: out) (auto simp: add_field_def)

lemma Fields_distinct: "distinct (Fields p)"
  by (simp add: Fields_def Fields_walk_fold foldl_add_field)

lemma Fields_set: "set (Fields p) = c_Field ` set (top_conditions p)"
  by (simp add: Fields_def Fields_walk_fold foldl_add_field)

lemma top_conditions_Map:
  "top_conditions (MapConditions p f) = map f (top_conditions p)"
  by (induction p) (auto simp: map_concat o_def intro!: arg_cong [where f = concat] map_cong)

lemma MapConditions_compose:
  "MapConditions (MapConditions p f) g = MapConditions p (\<lambda>c. g (f c))"
  by (induction p) auto

lemma MapConditions_cong:
  "(\<And>c. c \<in> set (top_conditions p) \<Longrightarrow> f c = g c) \<Longrightarrow> MapConditions p f = MapConditions p g"
  by (induction p) auto

lemma MapConditions_Nil [simp]:
  "MapConditions p f = NilPred \<longleftrightarrow> p = NilPred"
  "NilPred = MapConditions p f \<longleftrightarrow> p = NilPred"
  by (cases p; auto)+

lemma exists_depth_Map [simp]: "exists_depth (MapConditions p f) = exists_depth p"
  by (induction p) (auto simp: image_image intro!: arg_cong [where f = Max] arg_cong2 [where f = insert])

lemma nodes_Map_ok:
  assumes "\<And>c. condition_ok m c \<Longrightarrow> condition_ok m (f c)"
  shows "(\<forall>q\<in>nodes p. node_ok m q) \<Longrightarrow> (\<forall>q\<in>nodes (MapConditions p f). node_ok m q)"
  by (induction p) (auto simp: assms)

text \<open>The fields a predicate names are those of its image when a rewriting keeps them.\<close>

lemma Fields_Map:
  assumes "\<And>c. c_Field (f c) = c_Field c"
  shows "Fields (MapConditions p f) = Fields p"
proof -
  have "foldl add_field out (map f cs) = foldl add_field out cs" for out cs
    by (induction cs arbitrary: out) (auto simp: add_field_def assms)
  then show ?thesis by (simp add: Fields_def Fields_walk_fold top_conditions_Map)
qed

end
