(* ===== verification/Interp.thy ===== *)
theory Interp
  imports Relalg "HOL-Library.Char_ord" "HOL-Library.List_Lexorder"
begin

text \<open>
  The reference interpreter of \<^verbatim>\<open>src/core/relalg/interp\<close>: the comparison and the keys of values
  (\<^verbatim>\<open>value.go\<close>), the three-valued evaluation of predicates (\<^verbatim>\<open>predicate.go\<close>), joins and EXISTS
  (\<^verbatim>\<open>join.go\<close>), aggregation (\<^verbatim>\<open>aggregate.go\<close>), the evaluation of a read (\<^verbatim>\<open>interp.go\<close>) and the
  check of a predicate against a partly known row (\<^verbatim>\<open>check.go\<close>).

  An out-of-range slice access is the error \<open>IndexPanic\<close>. A database is a map from names to tables.
  Characters are bytes, so \<^verbatim>\<open>_\<close> in a LIKE pattern matches one byte, which is one character on
  ASCII text. The sort is the insertion sort \<^verbatim>\<open>sort.SliceStable\<close> runs on up to twenty rows; on
  more rows the result is the same whenever no comparison fails.
\<close>

section \<open>Values\<close>

datatype interp_error =
    ErrUnsupported
  | ErrUnknownColumn
  | ErrUnknownRelation
  | ErrIncomparable
  | ErrJoinCardinality
  | ErrLimit
  | ErrMixed
  | RelalgError relalg_error
  | IndexPanic

fun toRat :: "val \<Rightarrow> rat option" where
  "toRat (VInt n) = Some (of_int n)"
| "toRat (VFloat q) = q"
| "toRat (VRat q) = Some q"
| "toRat _ = None"

definition three_way :: "'a::linorder \<Rightarrow> 'a \<Rightarrow> int" where
  "three_way a b = (if a < b then - 1 else if a = b then 0 else 1)"

definition boolCmp :: "bool \<Rightarrow> bool \<Rightarrow> int" where
  "boolCmp a b = (if a = b then 0 else if \<not> a then - 1 else 1)"

definition compareValues :: "val \<Rightarrow> val \<Rightarrow> interp_error + int" where
  "compareValues a b =
     (case toRat a of
        Some ra \<Rightarrow>
          (case toRat b of
             None \<Rightarrow> Inl ErrIncomparable
           | Some rb \<Rightarrow> Inr (three_way ra rb))
      | None \<Rightarrow>
          (case a of
             VStr sa \<Rightarrow> (case b of VStr sb \<Rightarrow> Inr (three_way sa sb) | _ \<Rightarrow> Inl ErrIncomparable)
           | VBool ba \<Rightarrow> (case b of VBool bb \<Rightarrow> Inr (boolCmp ba bb) | _ \<Rightarrow> Inl ErrIncomparable)
           | _ \<Rightarrow> Inl ErrIncomparable))"

definition compareForSort :: "val \<Rightarrow> val \<Rightarrow> interp_error + int" where
  "compareForSort a b = (if a = VNull \<and> b = VNull then Inr 0 else compareValues a b)"

text \<open>\<open>RatString\<close> is the text of \<^verbatim>\<open>big.Rat\<close>: the numerator alone when the denominator is one.\<close>

definition RatString :: "rat \<Rightarrow> string" where
  "RatString r =
     (let (n, d) = quotient_of r in if d = 1 then show_int n else show_int n @ ''/'' @ show_int d)"

definition valueKey :: "val \<Rightarrow> interp_error + string" where
  "valueKey v =
     (if v = VNull then Inr ''n''
      else (case toRat v of
              Some r \<Rightarrow> Inr (''r:'' @ RatString r)
            | None \<Rightarrow>
                (case v of
                   VStr s \<Rightarrow> Inr (''s:'' @ s)
                 | VBool b \<Rightarrow> Inr (if b then ''b:1'' else ''b:0'')
                 | _ \<Rightarrow> Inl ErrIncomparable)))"

definition rowKey :: "val list \<Rightarrow> interp_error + string" where
  "rowKey row = bindR (mapR valueKey row) (\<lambda>parts. Inr (join_strs [CHR 0x00] parts))"

section \<open>Relations\<close>

record table =
  t_Cols :: "string list"
  t_Rows :: "val list list"

type_synonym db = "string \<Rightarrow> table option"

record result =
  res_Cols :: "string list"
  res_Rows :: "val list list"

record relation =
  r_Cols :: "string list"
  r_Rows :: "val list list"
  r_db :: db
  r_hidden :: nat

text \<open>A slice access, which panics out of range.\<close>

definition cell :: "val list \<Rightarrow> nat \<Rightarrow> interp_error + val" where
  "cell row i = (if i < length row then Inr (row ! i) else Inl IndexPanic)"

definition slice_to :: "nat \<Rightarrow> val list \<Rightarrow> interp_error + val list" where
  "slice_to n row = (if n \<le> length row then Inr (take n row) else Inl IndexPanic)"

definition visible :: "relation \<Rightarrow> interp_error + relation" where
  "visible r =
     (if r_hidden r = 0 then Inr r
      else if r_hidden r > length (r_Cols r) then Inl IndexPanic
      else let n = length (r_Cols r) - r_hidden r in
        bindR (mapR (slice_to n) (r_Rows r))
          (\<lambda>rs. Inr \<lparr>r_Cols = take n (r_Cols r), r_Rows = rs, r_db = Map.empty, r_hidden = 0\<rparr>))"

fun index_of :: "string list \<Rightarrow> string \<Rightarrow> nat option" where
  "index_of [] name = None"
| "index_of (c # cs) name = (if c = name then Some 0 else map_option Suc (index_of cs name))"

definition colIndex :: "relation \<Rightarrow> string \<Rightarrow> interp_error + nat" where
  "colIndex r name = (case index_of (r_Cols r) name of Some i \<Rightarrow> Inr i | None \<Rightarrow> Inl ErrUnknownColumn)"

definition evalScan :: "db \<Rightarrow> relation_ref \<Rightarrow> interp_error + relation" where
  "evalScan db r =
     (case db (rr_Name r) of
        None \<Rightarrow> Inl ErrUnknownRelation
      | Some t \<Rightarrow> Inr \<lparr>r_Cols = t_Cols t, r_Rows = t_Rows t, r_db = Map.empty, r_hidden = 0\<rparr>)"

section \<open>Three-valued logic\<close>

datatype tri = triFalse | triUnknown | triTrue

fun triNot :: "tri \<Rightarrow> tri" where
  "triNot triTrue = triFalse"
| "triNot triFalse = triTrue"
| "triNot triUnknown = triUnknown"

definition boolTri :: "bool \<Rightarrow> tri" where
  "boolTri b = (if b then triTrue else triFalse)"

definition evalComparison :: "val \<Rightarrow> op \<Rightarrow> val \<Rightarrow> interp_error + tri" where
  "evalComparison left oper right =
     (if left = VNull \<or> right = VNull then Inr triUnknown
      else bindR (compareValues left right) (\<lambda>c.
        case oper of
          OpEq \<Rightarrow> Inr (boolTri (c = 0))
        | OpNe \<Rightarrow> Inr (boolTri (c \<noteq> 0))
        | OpGt \<Rightarrow> Inr (boolTri (c > 0))
        | OpGte \<Rightarrow> Inr (boolTri (c \<ge> 0))
        | OpLt \<Rightarrow> Inr (boolTri (c < 0))
        | OpLte \<Rightarrow> Inr (boolTri (c \<le> 0))
        | _ \<Rightarrow> Inl ErrUnsupported))"

text \<open>The loop of \<^verbatim>\<open>evalIn\<close> over the listed values, \<open>result\<close> being the outcome so far.\<close>

fun evalIn_loop :: "val \<Rightarrow> val list \<Rightarrow> tri \<Rightarrow> interp_error + tri" where
  "evalIn_loop left [] res = Inr res"
| "evalIn_loop left (v # vs) res =
     bindR (evalComparison left OpEq v) (\<lambda>eq.
       if eq = triTrue then Inr triTrue
       else evalIn_loop left vs (if eq = triUnknown then triUnknown else res))"

definition evalIn :: "val \<Rightarrow> val \<Rightarrow> interp_error + tri" where
  "evalIn left value =
     (case value of
        VList vs \<Rightarrow> evalIn_loop left vs triFalse
      | _ \<Rightarrow> Inl ErrUnsupported)"

text \<open>
  \<open>likeRegexp\<close> gives the regular expression of a LIKE pattern as the sequence of its pieces:
  \<^verbatim>\<open>.*\<close>, \<^verbatim>\<open>.\<close> and a quoted character. \<open>MatchString\<close> matches the pieces against a whole string, which
  is what the anchors \<^verbatim>\<open>\A\<close> and \<^verbatim>\<open>\z\<close> around them ask.
\<close>

datatype piece = AnySeq | AnyChar | Quoted char

fun likeRegexp :: "bool \<Rightarrow> string \<Rightarrow> piece list" where
  "likeRegexp escaped [] = (if escaped then [Quoted (CHR 0x5C)] else [])"
| "likeRegexp escaped (r # rs) =
     (if escaped then Quoted r # likeRegexp False rs
      else if r = CHR 0x5C then likeRegexp True rs
      else if r = CHR ''%'' then AnySeq # likeRegexp False rs
      else if r = CHR ''_'' then AnyChar # likeRegexp False rs
      else Quoted r # likeRegexp False rs)"

fun MatchString :: "piece list \<Rightarrow> string \<Rightarrow> bool" where
  "MatchString [] s = (s = [])"
| "MatchString (Quoted c # ps) s = (case s of [] \<Rightarrow> False | x # xs \<Rightarrow> x = c \<and> MatchString ps xs)"
| "MatchString (AnyChar # ps) s = (case s of [] \<Rightarrow> False | x # xs \<Rightarrow> MatchString ps xs)"
| "MatchString (AnySeq # ps) s =
     (MatchString ps s \<or> (case s of [] \<Rightarrow> False | x # xs \<Rightarrow> MatchString (AnySeq # ps) xs))"

definition evalLike :: "val \<Rightarrow> val \<Rightarrow> interp_error + tri" where
  "evalLike left pattern =
     (if left = VNull \<or> pattern = VNull then Inr triUnknown
      else (case left of
              VStr s \<Rightarrow>
                (case pattern of
                   VStr p \<Rightarrow> Inr (boolTri (MatchString (likeRegexp False p) s))
                 | _ \<Rightarrow> Inl ErrIncomparable)
            | _ \<Rightarrow> Inl ErrIncomparable))"

definition evalOp :: "val \<Rightarrow> condition \<Rightarrow> interp_error + tri" where
  "evalOp left c =
     (case c_Op c of
        OpIsNull \<Rightarrow> Inr (boolTri (left = VNull))
      | OpIsNotNull \<Rightarrow> Inr (boolTri (left \<noteq> VNull))
      | OpIn \<Rightarrow> evalIn left (c_Value c)
      | OpNotIn \<Rightarrow> bindR (evalIn left (c_Value c)) (\<lambda>v. Inr (triNot v))
      | OpLike \<Rightarrow> evalLike left (c_Value c)
      | _ \<Rightarrow> evalComparison left (c_Op c) (c_Value c))"

definition evalCondition :: "relation \<Rightarrow> val list \<Rightarrow> condition \<Rightarrow> interp_error + tri" where
  "evalCondition rel row c =
     bindR (colIndex rel (c_Field c)) (\<lambda>i. bindR (cell row i) (\<lambda>left. evalOp left c))"

section \<open>Predicates, joins and EXISTS\<close>

text \<open>
  \<open>joinOn\<close> is the loop of \<^verbatim>\<open>matching\<close> over the join pairs for one candidate row: it goes through
  all of them, so that an error in a later pair shows although an earlier pair differs.
\<close>

fun joinOn :: "relation \<Rightarrow> val list \<Rightarrow> relation \<Rightarrow> val list \<Rightarrow> join_pair list \<Rightarrow> bool \<Rightarrow> interp_error + bool" where
  "joinOn left row right candidate [] ok = Inr ok"
| "joinOn left row right candidate (p # ps) ok =
     bindR (colIndex left (jp_Left p)) (\<lambda>l.
     bindR (colIndex right (jp_Right p)) (\<lambda>r.
     bindR (cell row l) (\<lambda>x.
     bindR (cell candidate r) (\<lambda>y.
     bindR (evalComparison x OpEq y) (\<lambda>eq.
       joinOn left row right candidate ps (ok \<and> eq = triTrue))))))"

text \<open>
  The evaluation of predicates; \<open>matching_loop\<close> is the loop of \<^verbatim>\<open>matching\<close> over the candidate rows,
  and the loops of \<^verbatim>\<open>evalAnd\<close> and \<^verbatim>\<open>evalOr\<close> carry the outcome so far.
\<close>

function (sequential) evalPredicate :: "relation \<Rightarrow> val list \<Rightarrow> predicate \<Rightarrow> interp_error + tri"
  and evalAnd_loop :: "relation \<Rightarrow> val list \<Rightarrow> predicate list \<Rightarrow> tri \<Rightarrow> interp_error + tri"
  and evalOr_loop :: "relation \<Rightarrow> val list \<Rightarrow> predicate list \<Rightarrow> tri \<Rightarrow> interp_error + tri"
  and matching_loop ::
    "relation \<Rightarrow> val list \<Rightarrow> relation \<Rightarrow> join_pair list \<Rightarrow> predicate \<Rightarrow> val list list \<Rightarrow> interp_error + val list list" where
  "evalPredicate rel row NilPred = Inr triTrue"
| "evalPredicate rel row (Condition c) = evalCondition rel row c"
| "evalPredicate rel row (And ps) = evalAnd_loop rel row ps triTrue"
| "evalPredicate rel row (Or ps) = evalOr_loop rel row ps triFalse"
| "evalPredicate rel row (Exists r on p) =
     bindR (evalScan (r_db rel) r) (\<lambda>scanned.
       let inner = scanned\<lparr>r_db := r_db rel\<rparr> in
       bindR (matching_loop rel row inner on p (r_Rows inner)) (\<lambda>ms. Inr (boolTri (ms \<noteq> []))))"
| "evalPredicate rel row (NotP p) = bindR (evalPredicate rel row p) (\<lambda>v. Inr (triNot v))"
| "evalAnd_loop rel row [] res = Inr res"
| "evalAnd_loop rel row (p # ps) res =
     bindR (evalPredicate rel row p) (\<lambda>v.
       if v = triFalse then Inr triFalse
       else evalAnd_loop rel row ps (if v = triUnknown then triUnknown else res))"
| "evalOr_loop rel row [] res = Inr res"
| "evalOr_loop rel row (p # ps) res =
     bindR (evalPredicate rel row p) (\<lambda>v.
       if v = triTrue then Inr triTrue
       else evalOr_loop rel row ps (if v = triUnknown then triUnknown else res))"
| "matching_loop left row right on pred [] = Inr []"
| "matching_loop left row right on pred (candidate # rest) =
     bindR (joinOn left row right candidate on True) (\<lambda>ok.
       if \<not> ok then matching_loop left row right on pred rest
       else bindR (evalPredicate right candidate pred) (\<lambda>v.
         bindR (matching_loop left row right on pred rest) (\<lambda>out.
           Inr (if v = triTrue then candidate # out else out))))"
  by pat_completeness auto

termination
  by (relation "measures [\<lambda>x. case x of
        Inl (Inl (_, _, p)) \<Rightarrow> size p
      | Inl (Inr (_, _, ps, _)) \<Rightarrow> size_list size ps
      | Inr (Inl (_, _, ps, _)) \<Rightarrow> size_list size ps
      | Inr (Inr (_, _, _, _, p, _)) \<Rightarrow> size p,
      \<lambda>x. case x of Inr (Inr (_, _, _, _, p, rs)) \<Rightarrow> Suc (length rs) | _ \<Rightarrow> 0]") auto

definition evalAnd :: "relation \<Rightarrow> val list \<Rightarrow> predicate list \<Rightarrow> interp_error + tri" where
  "evalAnd rel row ps = evalAnd_loop rel row ps triTrue"

definition evalOr :: "relation \<Rightarrow> val list \<Rightarrow> predicate list \<Rightarrow> interp_error + tri" where
  "evalOr rel row ps = evalOr_loop rel row ps triFalse"

definition matching ::
  "relation \<Rightarrow> val list \<Rightarrow> relation \<Rightarrow> join_pair list \<Rightarrow> predicate \<Rightarrow> interp_error + val list list" where
  "matching left row right on pred = matching_loop left row right on pred (r_Rows right)"

definition evalExists :: "relation \<Rightarrow> val list \<Rightarrow> relation_ref \<Rightarrow> join_pair list \<Rightarrow> predicate \<Rightarrow> interp_error + tri" where
  "evalExists outer row r on p =
     bindR (evalScan (r_db outer) r) (\<lambda>scanned.
       let inner = scanned\<lparr>r_db := r_db outer\<rparr> in
       bindR (matching outer row inner on p) (\<lambda>ms. Inr (boolTri (ms \<noteq> []))))"

lemma evalPredicate_folded:
  "evalPredicate rel row (And ps) = evalAnd rel row ps"
  "evalPredicate rel row (Or ps) = evalOr rel row ps"
  "evalPredicate rel row (Exists r on p) = evalExists rel row r on p"
  by (simp_all add: evalAnd_def evalOr_def evalExists_def matching_def)

section \<open>Relational operators\<close>

text \<open>
  Each operator is given the relation its input evaluates to; \<open>eval\<close> below evaluates the input
  first, as every operator of the source begins.
\<close>

definition evalSelect :: "db \<Rightarrow> predicate \<Rightarrow> relation \<Rightarrow> interp_error + relation" where
  "evalSelect db p inp =
     (case ValidatePredicate p of
        Inl e \<Rightarrow> Inl (RelalgError e)
      | Inr _ \<Rightarrow>
          bindR (filterR (\<lambda>row. bindR (evalPredicate (inp\<lparr>r_db := db\<rparr>) row p) (\<lambda>v. Inr (v = triTrue))) (r_Rows inp))
            (\<lambda>rs. Inr \<lparr>r_Cols = r_Cols inp, r_Rows = rs, r_db = Map.empty, r_hidden = r_hidden inp\<rparr>))"

definition project_col :: "project_item \<Rightarrow> string" where
  "project_col item = (if pi_Alias item \<noteq> [] then pi_Alias item else pi_Field item)"

definition evalProject :: "project_item list \<Rightarrow> relation \<Rightarrow> interp_error + relation" where
  "evalProject items inp =
     bindR (mapR (\<lambda>item. colIndex inp (pi_Field item)) items) (\<lambda>idx.
     bindR (mapR (\<lambda>row. mapR (cell row) idx) (r_Rows inp)) (\<lambda>rs.
       Inr \<lparr>r_Cols = map project_col items, r_Rows = rs, r_db = Map.empty, r_hidden = 0\<rparr>))"

text \<open>
  The comparison of two rows under the order terms gives the answer of the source's function and
  the errors of the comparisons it made. An access out of range is among them, and it wins over
  the first comparison error because it ends the program.
\<close>

fun sort_less :: "(order_term \<times> nat) list \<Rightarrow> val list \<Rightarrow> val list \<Rightarrow> bool \<times> interp_error list" where
  "sort_less [] x y = (False, [])"
| "sort_less ((t, i) # ts) x y =
     (if i \<ge> length x \<or> i \<ge> length y then (False, [IndexPanic])
      else if (x ! i = VNull) \<noteq> (y ! i = VNull) then (y ! i = VNull, [])
      else
        let cmp = compareForSort (x ! i) (y ! i);
            errs = (case cmp of Inl e \<Rightarrow> [e] | Inr _ \<Rightarrow> []);
            c0 = (case cmp of Inl _ \<Rightarrow> 0 | Inr n \<Rightarrow> n);
            c = (if equal_fold (ot_Dir t) ''desc'' then - c0 else c0)
        in if c \<noteq> 0 then (c < 0, errs)
           else let (r, es) = sort_less ts x y in (r, errs @ es))"

text \<open>
  \<open>insert_back\<close> moves a row back over the sorted rows before it (held in reverse) while it is less
  than its predecessor.
\<close>

fun insert_back :: "('a \<Rightarrow> 'a \<Rightarrow> bool \<times> 'e list) \<Rightarrow> 'a \<Rightarrow> 'a list \<Rightarrow> 'a list \<times> 'e list" where
  "insert_back lt x [] = ([x], [])"
| "insert_back lt x (y # ys) =
     (let (is_less, es) = lt x y in
      if is_less then let (zs, es') = insert_back lt x ys in (y # zs, es @ es')
      else (x # y # ys, es))"

fun SliceStable_loop :: "('a \<Rightarrow> 'a \<Rightarrow> bool \<times> 'e list) \<Rightarrow> 'a list \<Rightarrow> 'a list \<Rightarrow> 'a list \<times> 'e list" where
  "SliceStable_loop lt acc [] = (rev acc, [])"
| "SliceStable_loop lt acc (x # xs) =
     (let (acc', es) = insert_back lt x acc; (out, es') = SliceStable_loop lt acc' xs
      in (out, es @ es'))"

definition SliceStable :: "('a \<Rightarrow> 'a \<Rightarrow> bool \<times> 'e list) \<Rightarrow> 'a list \<Rightarrow> 'a list \<times> 'e list" where
  "SliceStable lt xs = SliceStable_loop lt [] xs"

definition sort_outcome :: "interp_error list \<Rightarrow> relation \<Rightarrow> interp_error + relation" where
  "sort_outcome errs r =
     (if IndexPanic \<in> set errs then Inl IndexPanic
      else (case errs of e # _ \<Rightarrow> Inl e | [] \<Rightarrow> Inr r))"

definition evalSort :: "order_term list \<Rightarrow> relation \<Rightarrow> interp_error + relation" where
  "evalSort orderBy inp =
     bindR (mapR (\<lambda>t. colIndex inp (ot_Field t)) orderBy) (\<lambda>idx.
       let sorted = SliceStable (sort_less (zip orderBy idx)) (r_Rows inp) in
       sort_outcome (snd sorted)
         \<lparr>r_Cols = r_Cols inp, r_Rows = fst sorted, r_db = Map.empty, r_hidden = r_hidden inp\<rparr>)"

definition evalLimit :: "int \<Rightarrow> int \<Rightarrow> relation \<Rightarrow> interp_error + relation" where
  "evalLimit cnt offset inp =
     (if cnt < 1 \<or> offset < 0 then Inl ErrLimit
      else
        let n = int (length (r_Rows inp));
            start = (if offset > n then n else offset);
            stop = (if cnt < wrap64 (n - start) then wrap64 (start + cnt) else n)
        in if 0 \<le> start \<and> start \<le> stop \<and> stop \<le> n then
             Inr \<lparr>r_Cols = r_Cols inp, r_Rows = drop (nat start) (take (nat stop) (r_Rows inp)),
                  r_db = Map.empty, r_hidden = r_hidden inp\<rparr>
           else Inl IndexPanic)"

text \<open>\<open>distinct_loop\<close> keeps the first row of each key.\<close>

fun distinct_loop :: "string set \<Rightarrow> val list list \<Rightarrow> interp_error + val list list" where
  "distinct_loop seen [] = Inr []"
| "distinct_loop seen (row # rs) =
     bindR (rowKey row) (\<lambda>key.
       if key \<in> seen then distinct_loop seen rs
       else bindR (distinct_loop (insert key seen) rs) (\<lambda>out. Inr (row # out)))"

definition evalDistinct :: "relation \<Rightarrow> interp_error + relation" where
  "evalDistinct inp0 =
     bindR (visible inp0) (\<lambda>inp.
     bindR (distinct_loop {} (r_Rows inp)) (\<lambda>rs.
       Inr \<lparr>r_Cols = r_Cols inp, r_Rows = rs, r_db = Map.empty, r_hidden = 0\<rparr>))"

definition join_row ::
  "relation \<Rightarrow> relation \<Rightarrow> join_pair list \<Rightarrow> predicate \<Rightarrow> val list \<Rightarrow> interp_error + val list" where
  "join_row inp right on pred row =
     bindR (matching inp row right on pred) (\<lambda>ms.
       case ms of
         [] \<Rightarrow> Inr (row @ replicate (length (r_Cols right)) VNull)
       | [m] \<Rightarrow> Inr (row @ m)
       | _ \<Rightarrow> Inl ErrJoinCardinality)"

definition evalJoin ::
  "db \<Rightarrow> relation_ref \<Rightarrow> string \<Rightarrow> join_pair list \<Rightarrow> predicate \<Rightarrow> relation \<Rightarrow> interp_error + relation" where
  "evalJoin db rref alias on pred inp =
     bindR (evalScan db rref) (\<lambda>right.
     bindR (mapR (join_row inp right on pred) (r_Rows inp)) (\<lambda>rs.
       Inr \<lparr>r_Cols = r_Cols inp @ map (\<lambda>c. alias @ ''.'' @ c) (r_Cols right), r_Rows = rs,
            r_db = Map.empty, r_hidden = r_hidden inp + length (r_Cols right)\<rparr>))"

section \<open>Aggregation\<close>

definition aggregateCols :: "string list \<Rightarrow> agg_call list \<Rightarrow> string list" where
  "aggregateCols groupBy aggs =
     groupBy @ map (\<lambda>a. if ag_Name a \<noteq> [] then ag_Name a else agg_string (ag_Func a)) aggs"

text \<open>
  The groups as a map from keys to the rows of the group, in input order, and the keys in the
  order they are first seen.
\<close>

type_synonym groups = "(string \<Rightarrow> val list list option) \<times> string list"

definition groupRow :: "nat list \<Rightarrow> val list \<Rightarrow> groups \<Rightarrow> interp_error + groups" where
  "groupRow groupIdx row st =
     bindR (mapR (cell row) groupIdx) (\<lambda>keyVals.
     bindR (rowKey keyVals) (\<lambda>key.
       case fst st key of
         None \<Rightarrow> Inr ((fst st)(key \<mapsto> [row]), snd st @ [key])
       | Some rs \<Rightarrow> Inr ((fst st)(key \<mapsto> rs @ [row]), snd st)))"

definition groupRows :: "relation \<Rightarrow> nat list \<Rightarrow> interp_error + groups" where
  "groupRows inp groupIdx = foldR (groupRow groupIdx) (r_Rows inp) (Map.empty, [])"

text \<open>The loop of \<^verbatim>\<open>aggregateInput\<close>: the non-NULL values of a column, once each when DISTINCT.\<close>

fun aggregateInput_loop :: "nat \<Rightarrow> bool \<Rightarrow> string set \<Rightarrow> val list list \<Rightarrow> interp_error + val list" where
  "aggregateInput_loop i uniq seen [] = Inr []"
| "aggregateInput_loop i uniq seen (row # rs) =
     bindR (cell row i) (\<lambda>v.
       if v = VNull then aggregateInput_loop i uniq seen rs
       else if uniq then
         bindR (valueKey v) (\<lambda>key.
           if key \<in> seen then aggregateInput_loop i uniq seen rs
           else bindR (aggregateInput_loop i uniq (insert key seen) rs) (\<lambda>vs. Inr (v # vs)))
       else bindR (aggregateInput_loop i uniq seen rs) (\<lambda>vs. Inr (v # vs)))"

definition aggregateInput :: "relation \<Rightarrow> val list list \<Rightarrow> agg_call \<Rightarrow> interp_error + val list" where
  "aggregateInput inp rs call =
     bindR (colIndex inp (ag_Field call)) (\<lambda>i. aggregateInput_loop i (ag_Distinct call) {} rs)"

definition sum_step :: "val \<Rightarrow> rat \<Rightarrow> interp_error + rat" where
  "sum_step v acc = (case toRat v of None \<Rightarrow> Inl ErrIncomparable | Some r \<Rightarrow> Inr (acc + r))"

definition sumValues :: "val list \<Rightarrow> interp_error + val" where
  "sumValues values =
     (if values = [] then Inr VNull
      else bindR (foldR sum_step values 0) (\<lambda>r. Inr (VRat r)))"

definition avgValues :: "val list \<Rightarrow> interp_error + val" where
  "avgValues values =
     (if values = [] then Inr VNull
      else bindR (sumValues values) (\<lambda>s.
        case s of
          VRat t \<Rightarrow> Inr (VRat (t / of_int (int (length values))))
        | _ \<Rightarrow> Inl IndexPanic))"

definition minMax_step :: "bool \<Rightarrow> val \<Rightarrow> val \<Rightarrow> interp_error + val" where
  "minMax_step is_min v best =
     bindR (compareValues v best) (\<lambda>c. Inr (if is_min \<and> c < 0 \<or> \<not> is_min \<and> c > 0 then v else best))"

definition minMaxValues :: "val list \<Rightarrow> bool \<Rightarrow> interp_error + val" where
  "minMaxValues values is_min =
     (case values of
        [] \<Rightarrow> Inr VNull
      | best # vs \<Rightarrow> foldR (minMax_step is_min) vs best)"

definition aggregateCall :: "relation \<Rightarrow> val list list \<Rightarrow> agg_call \<Rightarrow> interp_error + val" where
  "aggregateCall inp rs call =
     (if \<not> agg_Valid (ag_Func call) then Inl (RelalgError ErrInvalidAggFunc)
      else if ag_Func call = AggCount \<and> ag_Field call = [] then Inr (VInt (int (length rs)))
      else bindR (aggregateInput inp rs call) (\<lambda>values.
        case ag_Func call of
          AggCount \<Rightarrow> Inr (VInt (int (length values)))
        | AggSum \<Rightarrow> sumValues values
        | AggAvg \<Rightarrow> avgValues values
        | _ \<Rightarrow> minMaxValues values (ag_Func call = AggMin)))"

definition aggregateRow :: "relation \<Rightarrow> val list list \<Rightarrow> agg_call list \<Rightarrow> nat list \<Rightarrow> interp_error + val list" where
  "aggregateRow inp rs aggs groupIdx =
     bindR (case rs of [] \<Rightarrow> Inr [] | row # _ \<Rightarrow> mapR (cell row) groupIdx) (\<lambda>keys.
     bindR (mapR (aggregateCall inp rs) aggs) (\<lambda>vs. Inr (keys @ vs)))"

definition evalAggregate :: "string list \<Rightarrow> agg_call list \<Rightarrow> relation \<Rightarrow> interp_error + relation" where
  "evalAggregate groupBy aggs inp =
     bindR (mapR (colIndex inp) groupBy) (\<lambda>groupIdx.
     bindR (groupRows inp groupIdx) (\<lambda>gs.
       let (groups, order) =
             (if groupBy = [] \<and> snd gs = [] then ((fst gs)([] \<mapsto> []), [[]]) else gs) in
       bindR (mapR (\<lambda>key. aggregateRow inp (case groups key of Some rs \<Rightarrow> rs | None \<Rightarrow> []) aggs groupIdx) order)
         (\<lambda>rs. Inr \<lparr>r_Cols = aggregateCols groupBy aggs, r_Rows = rs, r_db = Map.empty, r_hidden = 0\<rparr>)))"

section \<open>Evaluation of a read\<close>

fun eval :: "db \<Rightarrow> expr \<Rightarrow> interp_error + relation" where
  "eval db (Scan r a) = evalScan db r"
| "eval db (Select e p) = bindR (eval db e) (evalSelect db p)"
| "eval db (Project e items) = bindR (eval db e) (evalProject items)"
| "eval db (Aggregate e groupBy aggs) = bindR (eval db e) (evalAggregate groupBy aggs)"
| "eval db (Sort e orderBy) = bindR (eval db e) (evalSort orderBy)"
| "eval db (Limit e cnt offset) = bindR (eval db e) (evalLimit cnt offset)"
| "eval db (Distinct e) = bindR (eval db e) evalDistinct"
| "eval db (Join e r a on p) = bindR (eval db e) (evalJoin db r a on p)"
| "eval db (Having e p) =
     (case e of
        Aggregate _ _ _ \<Rightarrow> bindR (eval db e) (evalSelect db p)
      | _ \<Rightarrow> Inl ErrUnsupported)"
| "eval db _ = Inl ErrUnsupported"

definition Eval :: "db \<Rightarrow> expr \<Rightarrow> interp_error + result" where
  "Eval db e =
     bindR (eval db e) (\<lambda>r0. bindR (visible r0) (\<lambda>r. Inr \<lparr>res_Cols = r_Cols r, res_Rows = r_Rows r\<rparr>))"

section \<open>Checking a partly known row\<close>

datatype verdict = Fails | Holds | Depends

text \<open>A decided value (\<open>pt_pred\<close> nil) or a residual predicate.\<close>

record partial =
  pt_v :: tri
  pt_pred :: predicate

definition decided :: "tri \<Rightarrow> partial" where
  "decided v = \<lparr>pt_v = v, pt_pred = NilPred\<rparr>"

definition residual :: "predicate \<Rightarrow> partial" where
  "residual p = \<lparr>pt_v = triFalse, pt_pred = p\<rparr>"

text \<open>What \<^verbatim>\<open>partialList\<close> returns after its loop, from the residuals it kept and the flag.\<close>

definition partialList_end ::
  "tri \<Rightarrow> (predicate list \<Rightarrow> predicate) \<Rightarrow> predicate list \<Rightarrow> bool \<Rightarrow> interp_error + partial" where
  "partialList_end dominant join res unknown =
     (if res = [] \<and> unknown then Inr (decided triUnknown)
      else if res = [] then Inr (decided (triNot dominant))
      else if unknown then Inl ErrMixed
      else if length res = 1 then Inr (residual (hd res))
      else Inr (residual (join res)))"

fun partialEval :: "predicate \<Rightarrow> (string \<Rightarrow> val option) \<Rightarrow> interp_error + partial"
  and partialList ::
    "predicate list \<Rightarrow> (string \<Rightarrow> val option) \<Rightarrow> tri \<Rightarrow> (predicate list \<Rightarrow> predicate) \<Rightarrow>
     predicate list \<Rightarrow> bool \<Rightarrow> interp_error + partial" where
  "partialEval NilPred known = Inr (decided triTrue)"
| "partialEval (Condition c) known =
     (case known (c_Field c) of
        None \<Rightarrow> Inr (residual (Condition c))
      | Some left \<Rightarrow> bindR (evalOp left c) (\<lambda>v. Inr (decided v)))"
| "partialEval (And ps) known = partialList ps known triFalse And [] False"
| "partialEval (Or ps) known = partialList ps known triTrue Or [] False"
| "partialEval (NotP p) known =
     bindR (partialEval p known) (\<lambda>r.
       Inr (if pt_pred r = NilPred then decided (triNot (pt_v r)) else residual (NotP (pt_pred r))))"
| "partialEval (Exists r on p) known = Inl ErrUnsupported"
| "partialList [] known dominant join res unknown = partialList_end dominant join res unknown"
| "partialList (p # ps) known dominant join res unknown =
     bindR (partialEval p known) (\<lambda>r.
       if pt_pred r \<noteq> NilPred then partialList ps known dominant join (res @ [pt_pred r]) unknown
       else if pt_v r = dominant then Inr (decided dominant)
       else partialList ps known dominant join res (unknown \<or> pt_v r = triUnknown))"

definition Check :: "predicate \<Rightarrow> (string \<Rightarrow> val option) \<Rightarrow> predicate \<times> verdict \<times> interp_error option" where
  "Check p known =
     (case partialEval p known of
        Inl e \<Rightarrow> (NilPred, Fails, Some e)
      | Inr r \<Rightarrow>
          if pt_pred r \<noteq> NilPred then (pt_pred r, Depends, None)
          else if pt_v r = triTrue then (NilPred, Holds, None)
          else (NilPred, Fails, None))"

end
