(* ===== verification/Interp_Laws.thy ===== *)
theory Interp_Laws
  imports Interp "HOL-Library.Multiset"
begin

text \<open>
  What the reference interpreter promises: the connectives are those of Kleene's three-valued
  logic, a well-formed database never makes a read panic, a limit, a sort, a deduplication, a
  grouping and a join do to the rows what their documentation says, and the check of a partly
  known row agrees with the evaluation of every row that extends it.
\<close>

section \<open>Three-valued logic\<close>

instantiation tri :: linorder
begin

fun tri_rank :: "tri \<Rightarrow> nat" where
  "tri_rank triFalse = 0"
| "tri_rank triUnknown = 1"
| "tri_rank triTrue = 2"

definition less_eq_tri :: "tri \<Rightarrow> tri \<Rightarrow> bool" where
  "less_eq_tri a b \<longleftrightarrow> tri_rank a \<le> tri_rank b"

definition less_tri :: "tri \<Rightarrow> tri \<Rightarrow> bool" where
  "less_tri a b \<longleftrightarrow> tri_rank a < tri_rank b"

instance
proof
  fix a b :: tri
  show "a \<le> b \<Longrightarrow> b \<le> a \<Longrightarrow> a = b"
    by (cases a; cases b) (auto simp: less_eq_tri_def)
qed (auto simp: less_eq_tri_def less_tri_def)

end

lemma tri_min_max [simp]:
  "min triTrue a = a" "min a triTrue = a" "min triFalse a = triFalse" "min a triFalse = triFalse"
  "max triTrue a = triTrue" "max a triTrue = triTrue" "max triFalse a = a" "max a triFalse = a"
  by (cases a; simp add: min_def max_def less_eq_tri_def)+

lemma triNot_triNot [simp]: "triNot (triNot v) = v"
  by (cases v) auto

lemma triNot_eq [simp]:
  "triNot v = triTrue \<longleftrightarrow> v = triFalse" "triNot v = triFalse \<longleftrightarrow> v = triTrue"
  "triNot v = triUnknown \<longleftrightarrow> v = triUnknown"
  by (cases v; simp)+

lemma fold_min_max_absorb [simp]:
  "fold min vs triFalse = triFalse" "fold max vs triTrue = triTrue"
  by (induction vs) auto

lemma evalAnd_loop_true:
  "evalAnd_loop rel row ps res = Inr triTrue \<Longrightarrow> res = triTrue \<and> (\<forall>p\<in>set ps. evalPredicate rel row p = Inr triTrue)"
proof (induction ps arbitrary: res)
  case (Cons p ps)
  then obtain v where v: "evalPredicate rel row p = Inr v" "v \<noteq> triFalse"
    and rest: "evalAnd_loop rel row ps (if v = triUnknown then triUnknown else res) = Inr triTrue"
    by (auto simp: bindR_eq_Inr split: if_splits)
  from Cons.IH [OF rest] v show ?case by (cases v) auto
qed simp

lemma evalOr_loop_true:
  "evalOr_loop rel row ps res = Inr triTrue \<Longrightarrow> res = triTrue \<or> (\<exists>p\<in>set ps. evalPredicate rel row p = Inr triTrue)"
proof (induction ps arbitrary: res)
  case (Cons p ps)
  then obtain v where v: "evalPredicate rel row p = Inr v"
    and rest: "v = triTrue \<or> evalOr_loop rel row ps (if v = triUnknown then triUnknown else res) = Inr triTrue"
    by (auto simp: bindR_eq_Inr split: if_splits)
  from rest Cons.IH [of "if v = triUnknown then triUnknown else res"] v show ?case by (auto split: if_splits)
qed simp

lemma evalAnd_loop_min:
  assumes "\<And>p. p \<in> set ps \<Longrightarrow> evalPredicate rel row p = Inr (g p)" and "res \<noteq> triFalse"
  shows "evalAnd_loop rel row ps res = Inr (fold min (map g ps) res)"
  using assms
proof (induction ps arbitrary: res)
  case (Cons p ps)
  moreover have "min (g p) res = (if g p = triUnknown then triUnknown else res)" if "g p \<noteq> triFalse"
    using that Cons.prems(2) by (cases "g p"; cases res) (auto simp: min_def less_eq_tri_def)
  ultimately show ?case by auto
qed simp

lemma evalOr_loop_max:
  assumes "\<And>p. p \<in> set ps \<Longrightarrow> evalPredicate rel row p = Inr (g p)" and "res \<noteq> triTrue"
  shows "evalOr_loop rel row ps res = Inr (fold max (map g ps) res)"
  using assms
proof (induction ps arbitrary: res)
  case (Cons p ps)
  moreover have "max (g p) res = (if g p = triUnknown then triUnknown else res)" if "g p \<noteq> triTrue"
    using that Cons.prems(2) by (cases "g p"; cases res) (auto simp: max_def less_eq_tri_def)
  ultimately show ?case by auto
qed simp

text \<open>The loop of an IN list is that of an OR of equalities.\<close>

lemma evalIn_loop_max:
  assumes "\<And>v. v \<in> set vs \<Longrightarrow> evalComparison x OpEq v = Inr (g v)" and "res \<noteq> triTrue"
  shows "evalIn_loop x vs res = Inr (fold max (map g vs) res)"
  using assms
proof (induction vs arbitrary: res)
  case (Cons v vs)
  moreover have "max (g v) res = (if g v = triUnknown then triUnknown else res)" if "g v \<noteq> triTrue"
    using that Cons.prems(2) by (cases "g v"; cases res) (auto simp: max_def less_eq_tri_def)
  ultimately show ?case by auto
qed simp

lemma deMorgan_loop:
  "evalOr_loop rel row (map NotP ps) (triNot res) =
     bindR (evalAnd_loop rel row ps res) (\<lambda>v. Inr (triNot v))"
proof (induction ps arbitrary: res)
  case (Cons p ps)
  show ?case
    using Cons.IH [of triUnknown] Cons.IH [of res] by (cases "evalPredicate rel row p") auto
qed simp

text \<open>
  Kleene's evaluation of a predicate without EXISTS, from a valuation of its conditions.
\<close>

fun kleene :: "(condition \<Rightarrow> tri) \<Rightarrow> predicate \<Rightarrow> tri" where
  "kleene f NilPred = triTrue"
| "kleene f (Condition c) = f c"
| "kleene f (And ps) = fold min (map (kleene f) ps) triTrue"
| "kleene f (Or ps) = fold max (map (kleene f) ps) triFalse"
| "kleene f (NotP p) = triNot (kleene f p)"
| "kleene f (Exists r on p) = triUnknown"

lemma evalPredicate_kleene:
  assumes "\<not> HasExists p" and "\<And>c. c \<in> set (top_conditions p) \<Longrightarrow> evalCondition rel row c = Inr (f c)"
  shows "evalPredicate rel row p = Inr (kleene f p)"
  using assms
proof (induction p)
  case (And ps)
  then have "evalPredicate rel row p = Inr (kleene f p)" if "p \<in> set ps" for p
    using that by (auto simp: list_ex_iff)
  then show ?case by (simp add: evalAnd_loop_min)
next
  case (Or ps)
  then have "evalPredicate rel row p = Inr (kleene f p)" if "p \<in> set ps" for p
    using that by (auto simp: list_ex_iff)
  then show ?case by (simp add: evalOr_loop_max)
qed auto

section \<open>No panic on a well-formed database\<close>

definition safe :: "interp_error + 'a \<Rightarrow> bool" where
  "safe m \<longleftrightarrow> m \<noteq> Inl IndexPanic"

lemma safe_simps [simp]: "safe (Inr x)" "safe (Inl e) \<longleftrightarrow> e \<noteq> IndexPanic"
  by (auto simp: safe_def)

lemma safe_bindR [intro!]:
  "safe m \<Longrightarrow> (\<And>x. m = Inr x \<Longrightarrow> safe (f x)) \<Longrightarrow> safe (bindR m f)"
  by (cases m) (auto simp: safe_def)

lemma safe_mapR [intro!]: "(\<And>x. x \<in> set xs \<Longrightarrow> safe (f x)) \<Longrightarrow> safe (mapR f xs)"
  by (induction xs) auto

lemma safe_foldR:
  assumes "P s" and "\<forall>x\<in>set xs. \<forall>s. P s \<longrightarrow> safe (f x s) \<and> (\<forall>t. f x s = Inr t \<longrightarrow> P t)"
  shows "safe (foldR f xs s)"
  using assms
proof (induction xs arbitrary: s)
  case (Cons x xs)
  have fx: "safe (f x s)" and step: "\<And>t. f x s = Inr t \<Longrightarrow> P t"
    using Cons.prems(1) bspec [OF Cons.prems(2), of x] by (blast intro: list.set_intros)+
  have "safe (foldR f xs t)" if "f x s = Inr t" for t
    by (rule Cons.IH [OF step [OF that]]) (use Cons.prems(2) in \<open>blast intro: list.set_intros(2)\<close>)
  with fx show ?case unfolding foldR.simps by (rule safe_bindR)
qed simp

lemma safe_filterR [intro!]: "(\<And>x. x \<in> set xs \<Longrightarrow> safe (f x)) \<Longrightarrow> safe (filterR f xs)"
  by (induction xs) auto

text \<open>The length of a slice is an \<^verbatim>\<open>int\<close>.\<close>

definition len_ok :: "'a list \<Rightarrow> bool" where
  "len_ok xs \<longleftrightarrow> is_int64 (int (length xs))"

lemma len_ok_le: "len_ok xs \<Longrightarrow> length ys \<le> length xs \<Longrightarrow> len_ok ys"
  by (auto simp: len_ok_def is_int64_def)

definition wf_db :: "db \<Rightarrow> bool" where
  "wf_db db \<longleftrightarrow>
     (\<forall>n t. db n = Some t \<longrightarrow> len_ok (t_Rows t) \<and> (\<forall>row\<in>set (t_Rows t). length row = length (t_Cols t)))"

definition wf_rel :: "relation \<Rightarrow> bool" where
  "wf_rel r \<longleftrightarrow> len_ok (r_Rows r) \<and> (\<forall>row\<in>set (r_Rows r). length row = length (r_Cols r)) \<and>
     r_hidden r \<le> length (r_Cols r) \<and> wf_db (r_db r)"

lemma wf_db_empty [simp]: "wf_db Map.empty"
  by (simp add: wf_db_def)

lemma index_of_less: "index_of cs n = Some i \<Longrightarrow> i < length cs \<and> cs ! i = n"
  by (induction cs arbitrary: i) (auto split: if_splits)

lemma index_of_None: "index_of cs n = None \<longleftrightarrow> n \<notin> set cs"
  by (induction cs) auto

lemma colIndex_Inr: "colIndex r n = Inr i \<Longrightarrow> i < length (r_Cols r) \<and> r_Cols r ! i = n"
  by (auto simp: colIndex_def index_of_less split: option.splits)

lemma safe_colIndex [simp]: "safe (colIndex r n)"
  by (auto simp: colIndex_def split: option.splits)

lemma safe_cell: "i < length row \<Longrightarrow> safe (cell row i)"
  by (simp add: cell_def)

lemma safe_compareValues [simp]: "safe (compareValues a b)"
  by (auto simp: compareValues_def split: option.splits val.splits)

lemma safe_evalComparison [simp]: "safe (evalComparison a oper b)"
  by (auto simp: evalComparison_def split: op.splits)

lemma safe_evalIn [simp]: "safe (evalIn a b)"
proof -
  have "safe (evalIn_loop a vs res)" for vs res by (induction vs arbitrary: res) auto
  then show ?thesis by (auto simp: evalIn_def split: val.splits)
qed

lemma safe_evalOp [simp]: "safe (evalOp left c)"
  by (auto simp: evalOp_def evalLike_def split: op.splits val.splits)

lemma safe_evalScan [simp]: "safe (evalScan db r)"
  by (auto simp: evalScan_def split: option.splits)

lemma wf_evalScan: "wf_db db \<Longrightarrow> evalScan db r = Inr rel \<Longrightarrow> wf_rel rel"
  by (auto simp: evalScan_def wf_rel_def wf_db_def split: option.splits)

lemma joinOn_safe:
  assumes "length row = length (r_Cols left)" and "length candidate = length (r_Cols right)"
  shows "safe (joinOn left row right candidate on ok)"
  using assms
  by (induction on arbitrary: ok) (auto intro!: safe_cell dest!: colIndex_Inr)

lemma evalPredicate_safe:
  "wf_db (r_db rel) \<Longrightarrow> length row = length (r_Cols rel) \<Longrightarrow> safe (evalPredicate rel row p)"
  "wf_db (r_db rel) \<Longrightarrow> length row = length (r_Cols rel) \<Longrightarrow> safe (evalAnd_loop rel row ps res)"
  "wf_db (r_db rel) \<Longrightarrow> length row = length (r_Cols rel) \<Longrightarrow> safe (evalOr_loop rel row ps res)"
  "length row = length (r_Cols left) \<Longrightarrow> wf_db (r_db right) \<Longrightarrow>
     (\<forall>c\<in>set rs. length c = length (r_Cols right)) \<Longrightarrow> safe (matching_loop left row right on pred rs)"
proof (induction rel row p and rel row ps res and rel row ps res and left row right on pred rs
    rule: evalPredicate_evalAnd_loop_evalOr_loop_matching_loop.induct)
  case (2 rel row c)
  then show ?case
    by (auto simp: evalCondition_def intro!: safe_cell dest!: colIndex_Inr)
next
  case (5 rel row r on p)
  have "safe (matching_loop rel row (scanned\<lparr>r_db := r_db rel\<rparr>) on p (r_Rows scanned))"
    if "evalScan (r_db rel) r = Inr scanned" for scanned
    using 5 wf_evalScan [OF _ that] that by (simp add: wf_rel_def)
  then show ?case by auto
next
  case (12 left row right on pred candidate rest)
  then show ?case by (auto intro!: joinOn_safe)
qed auto

section \<open>Stable sorting\<close>

lemma insert_back_mset: "mset (fst (insert_back lt x ys)) = add_mset x (mset ys)"
  by (induction ys) (auto simp: split_beta Let_def)

lemma insert_back_errors:
  "e \<in> set (snd (insert_back lt x ys)) \<Longrightarrow> \<exists>y\<in>set ys. e \<in> set (snd (lt x y))"
  by (induction ys) (auto simp: split_beta Let_def split: if_splits)

lemma SliceStable_loop_mset: "mset (fst (SliceStable_loop lt acc xs)) = mset acc + mset xs"
  by (induction xs arbitrary: acc) (auto simp: split_beta Let_def insert_back_mset)

lemma SliceStable_loop_errors:
  "e \<in> set (snd (SliceStable_loop lt acc xs)) \<Longrightarrow>
     \<exists>x\<in>set xs \<union> set acc. \<exists>y\<in>set xs \<union> set acc. e \<in> set (snd (lt x y))"
proof (induction xs arbitrary: acc)
  case (Cons x xs)
  have "set (fst (insert_back lt x acc)) = insert x (set acc)"
    using insert_back_mset [of lt x acc] by (metis set_mset_add_mset_insert set_mset_mset)
  with Cons.prems insert_back_errors [of e lt x acc] Cons.IH [of "fst (insert_back lt x acc)"]
  show ?case by (auto simp: split_beta Let_def)
qed simp

lemma SliceStable_mset: "mset (fst (SliceStable lt xs)) = mset xs"
  by (simp add: SliceStable_def SliceStable_loop_mset)

lemma SliceStable_set [simp]:
  "set (fst (SliceStable lt xs)) = set xs" "length (fst (SliceStable lt xs)) = length xs"
  using SliceStable_mset [of lt xs] by (metis set_mset_mset, metis size_mset)

lemma SliceStable_errors:
  "e \<in> set (snd (SliceStable lt xs)) \<Longrightarrow> \<exists>x\<in>set xs. \<exists>y\<in>set xs. e \<in> set (snd (lt x y))"
  using SliceStable_loop_errors [of e lt "[]" xs] by (simp add: SliceStable_def)

lemma insert_back_sorted:
  assumes "\<And>a b. fst (lt a b) \<Longrightarrow> \<not> fst (lt b a)"
    and "successively (\<lambda>a b. \<not> fst (lt a b)) ys"
  shows "successively (\<lambda>a b. \<not> fst (lt a b)) (fst (insert_back lt x ys))"
  using assms(2)
proof (induction ys)
  case (Cons y ys)
  then show ?case
    using assms(1) by (cases ys) (auto simp: split_beta Let_def successively_Cons)
qed simp

lemma SliceStable_loop_sorted:
  assumes "\<And>a b. fst (lt a b) \<Longrightarrow> \<not> fst (lt b a)"
    and "successively (\<lambda>a b. \<not> fst (lt a b)) acc"
  shows "successively (\<lambda>a b. \<not> fst (lt b a)) (fst (SliceStable_loop lt acc xs))"
  using assms(2)
  by (induction xs arbitrary: acc)
    (auto simp: split_beta Let_def successively_rev insert_back_sorted [OF assms(1)])

lemma SliceStable_sorted:
  assumes "\<And>a b. fst (lt a b) \<Longrightarrow> \<not> fst (lt b a)"
  shows "successively (\<lambda>a b. \<not> fst (lt b a)) (fst (SliceStable lt xs))"
  unfolding SliceStable_def by (rule SliceStable_loop_sorted [OF assms]) simp_all

text \<open>Rows of which none is less than another keep their order.\<close>

lemma SliceStable_stable:
  assumes "\<And>a b. Q a \<Longrightarrow> Q b \<Longrightarrow> \<not> fst (lt a b)"
  shows "filter Q (fst (SliceStable lt xs)) = filter Q xs"
proof -
  have ins: "filter Q (fst (insert_back lt x ys)) = (if Q x then x # filter Q ys else filter Q ys)" for x ys
    by (induction ys) (auto simp: split_beta Let_def assms)
  have "filter Q (fst (SliceStable_loop lt acc xs)) = rev (filter Q acc) @ filter Q xs" for acc
    by (induction xs arbitrary: acc) (auto simp: split_beta Let_def ins simp flip: rev_filter)
  then show ?thesis by (simp add: SliceStable_def)
qed

lemma compareValues_swap: "compareValues b a = map_sum id uminus (compareValues a b)"
  by (cases "toRat a"; cases "toRat b"; cases a; cases b)
    (auto simp: compareValues_def three_way_def boolCmp_def)

lemma compareForSort_self: "compareForSort v v = Inr 0 \<or> (\<exists>e. compareForSort v v = Inl e)"
  by (cases v) (auto simp: compareForSort_def compareValues_def three_way_def boolCmp_def split: option.splits)

lemma compareForSort_swap: "compareForSort b a = map_sum id uminus (compareForSort a b)"
  using compareValues_swap [of b a] by (auto simp: compareForSort_def)

lemma sort_less_asym: "fst (sort_less ts x y) \<Longrightarrow> \<not> fst (sort_less ts y x)"
proof (induction ts x y rule: sort_less.induct)
  case (2 t i ts x y)
  then show ?case
    using compareForSort_swap [of "y ! i" "x ! i"]
    by (cases "compareForSort (x ! i) (y ! i)") (auto simp: Let_def split_beta split: if_splits)
qed simp

lemma sort_less_safe:
  "(\<forall>(t, i)\<in>set ts. i < length x \<and> i < length y) \<Longrightarrow> IndexPanic \<notin> set (snd (sort_less ts x y))"
proof (induction ts x y rule: sort_less.induct)
  case (2 t i ts x y)
  have "compareForSort (x ! i) (y ! i) \<noteq> Inl IndexPanic"
    using safe_compareValues [of "x ! i" "y ! i"] by (simp add: safe_def compareForSort_def)
  with 2 show ?case
    by (cases "compareForSort (x ! i) (y ! i)") (auto simp: Let_def split_beta)
qed simp

section \<open>The operators keep relations well formed\<close>

text \<open>
  The contract of a relational operator: on a well-formed relation it does not panic, and what it
  returns is well formed.
\<close>

locale rel_operator =
  fixes f :: "db \<Rightarrow> relation \<Rightarrow> interp_error + relation"
  assumes op_safe: "wf_db db \<Longrightarrow> wf_rel r \<Longrightarrow> safe (f db r)"
    and op_wf: "wf_db db \<Longrightarrow> wf_rel r \<Longrightarrow> f db r = Inr r' \<Longrightarrow> wf_rel r'"
begin

lemma op_after:
  assumes "wf_db db" and "safe m \<and> (\<forall>r. m = Inr r \<longrightarrow> wf_rel r)"
  shows "safe (bindR m (f db)) \<and> (\<forall>r. bindR m (f db) = Inr r \<longrightarrow> wf_rel r)"
proof (cases m)
  case (Inr r)
  with assms op_safe [of db r] op_wf [of db r] show ?thesis by auto
qed (use assms in simp)

end

lemma visible_safe: "wf_rel r \<Longrightarrow> safe (visible r)"
  by (auto simp: visible_def wf_rel_def slice_to_def Let_def)

lemma visible_wf:
  assumes "wf_rel r" and vis: "visible r = Inr r'"
  shows "wf_rel r' \<and> r_hidden r' = 0"
proof (cases "r_hidden r = 0")
  case False
  let ?n = "length (r_Cols r) - r_hidden r"
  obtain rs where rs: "mapR (slice_to ?n) (r_Rows r) = Inr rs"
    and r': "r' = \<lparr>r_Cols = take ?n (r_Cols r), r_Rows = rs, r_db = Map.empty, r_hidden = 0\<rparr>"
    using vis False by (auto simp: visible_def Let_def bindR_eq_Inr split: if_splits)
  have "\<forall>row\<in>set rs. length row = ?n"
    by (rule mapR_Inr_all [OF rs]) (auto simp: slice_to_def split: if_splits)
  moreover have "len_ok rs"
    using assms(1) mapR_length [OF rs] by (auto simp: wf_rel_def intro: len_ok_le)
  ultimately show ?thesis by (simp add: r' wf_rel_def)
qed (use assms in \<open>simp add: visible_def\<close>)

lemma safe_rowKey [simp]: "safe (rowKey row)"
  by (auto simp: rowKey_def valueKey_def split: option.splits val.splits)

lemma distinct_loop_safe: "safe (distinct_loop seen rs)"
  by (induction rs arbitrary: seen) auto

lemma distinct_loop_subseq: "distinct_loop seen rs = Inr out \<Longrightarrow> subseq out rs"
proof (induction rs arbitrary: seen out)
  case (Cons row rs)
  then show ?case by (auto simp: bindR_eq_Inr split: if_splits)
qed simp

lemma mapR_colIndex_less: "mapR (\<lambda>x. colIndex r (f x)) xs = Inr idx \<Longrightarrow> \<forall>i\<in>set idx. i < length (r_Cols r)"
  by (erule mapR_Inr_all) (simp add: colIndex_Inr)

interpretation sel: rel_operator "\<lambda>db. evalSelect db p" for p
proof
  fix db r r'
  assume wf: "wf_db db" "wf_rel r"
  show "safe (evalSelect db p r)"
    using wf by (auto simp: evalSelect_def wf_rel_def evalPredicate_safe split: sum.splits)
  show "evalSelect db p r = Inr r' \<Longrightarrow> wf_rel r'"
    using wf by (auto simp: evalSelect_def wf_rel_def bindR_eq_Inr filterR_eq_Inr split: sum.splits elim!: len_ok_le)
qed

interpretation proj: rel_operator "\<lambda>_. evalProject items" for items
proof
  fix db r r'
  assume wf: "wf_rel r"
  then show "safe (evalProject items r)"
    by (auto simp: evalProject_def wf_rel_def intro!: safe_cell dest!: mapR_colIndex_less)
  show "wf_rel r'" if res: "evalProject items r = Inr r'"
  proof -
    obtain idx rs where idx: "mapR (\<lambda>item. colIndex r (pi_Field item)) items = Inr idx"
      and rs: "mapR (\<lambda>row. mapR (cell row) idx) (r_Rows r) = Inr rs"
      and r': "r' = \<lparr>r_Cols = map project_col items, r_Rows = rs, r_db = Map.empty, r_hidden = 0\<rparr>"
      using res by (auto simp: evalProject_def bindR_eq_Inr)
    have "\<forall>row\<in>set rs. length row = length idx"
      by (rule mapR_Inr_all [OF rs]) (rule mapR_length)
    moreover have "len_ok rs"
      using wf mapR_length [OF rs] by (auto simp: wf_rel_def intro: len_ok_le)
    ultimately show ?thesis using mapR_length [OF idx] by (simp add: r' wf_rel_def)
  qed
qed

lemma sort_outcome_Inr: "sort_outcome errs r = Inr r' \<longleftrightarrow> errs = [] \<and> r' = r"
  by (cases errs) (auto simp: sort_outcome_def)

lemma sort_outcome_safe: "IndexPanic \<notin> set errs \<Longrightarrow> safe (sort_outcome errs r)"
  by (cases errs) (auto simp: sort_outcome_def)

lemma evalSort_Inr:
  "evalSort orderBy r = Inr r' \<longleftrightarrow>
     (\<exists>idx. mapR (\<lambda>t. colIndex r (ot_Field t)) orderBy = Inr idx \<and>
        snd (SliceStable (sort_less (zip orderBy idx)) (r_Rows r)) = [] \<and>
        r' = \<lparr>r_Cols = r_Cols r, r_Rows = fst (SliceStable (sort_less (zip orderBy idx)) (r_Rows r)),
              r_db = Map.empty, r_hidden = r_hidden r\<rparr>)"
  by (simp add: evalSort_def bindR_eq_Inr Let_def sort_outcome_Inr)

lemma evalSort_no_panic:
  assumes "wf_rel r" and "mapR (\<lambda>t. colIndex r (ot_Field t)) orderBy = Inr idx"
  shows "IndexPanic \<notin> set (snd (SliceStable (sort_less (zip orderBy idx)) (r_Rows r)))"
proof
  assume "IndexPanic \<in> set (snd (SliceStable (sort_less (zip orderBy idx)) (r_Rows r)))"
  from SliceStable_errors [OF this] obtain x y where "x \<in> set (r_Rows r)" "y \<in> set (r_Rows r)"
    and panic: "IndexPanic \<in> set (snd (sort_less (zip orderBy idx) x y))"
    by blast
  then have "\<forall>(t, i)\<in>set (zip orderBy idx). i < length x \<and> i < length y"
    using assms(1) mapR_colIndex_less [OF assms(2)] by (auto simp: wf_rel_def dest!: set_zip_rightD)
  from sort_less_safe [OF this] panic show False by simp
qed

interpretation srt: rel_operator "\<lambda>_. evalSort orderBy" for orderBy
proof
  fix db r r'
  assume wf: "wf_rel r"
  show "safe (evalSort orderBy r)"
    unfolding evalSort_def Let_def
    by (intro safe_bindR safe_mapR safe_colIndex sort_outcome_safe evalSort_no_panic [OF wf])
  show "evalSort orderBy r = Inr r' \<Longrightarrow> wf_rel r'"
    using wf by (auto simp: evalSort_Inr wf_rel_def SliceStable_set elim!: len_ok_le)
qed

lemma evalLimit_rows:
  assumes "1 \<le> cnt" and "0 \<le> offset" and "len_ok (r_Rows r)"
  shows "evalLimit cnt offset r =
    Inr \<lparr>r_Cols = r_Cols r, r_Rows = take (nat cnt) (drop (nat offset) (r_Rows r)),
         r_db = Map.empty, r_hidden = r_hidden r\<rparr>"
proof -
  let ?n = "int (length (r_Rows r))"
  define start where "start = (if offset > ?n then ?n else offset)"
  have start: "0 \<le> start" "start \<le> ?n" and drop: "drop (nat start) (r_Rows r) = drop (nat offset) (r_Rows r)"
    using assms(2) by (auto simp: start_def)
  have "wrap64 (?n - start) = ?n - start"
    using assms(3) start by (intro wrap64_id) (auto simp: len_ok_def is_int64_def)
  moreover have "wrap64 (start + cnt) = start + cnt" if "cnt < ?n - start"
    using assms that start by (intro wrap64_id) (auto simp: len_ok_def is_int64_def)
  moreover have "drop (nat start) (take (nat (start + cnt)) (r_Rows r)) = take (nat cnt) (drop (nat start) (r_Rows r))"
    using start assms(1) by (simp add: drop_take nat_add_distrib)
  moreover have "take (nat cnt) (drop (nat start) (r_Rows r)) = drop (nat start) (r_Rows r)" if "\<not> cnt < ?n - start"
    using that start by (intro take_all) simp
  ultimately show ?thesis
    using assms(1,2) start by (auto simp: evalLimit_def Let_def drop simp flip: start_def)
qed

interpretation lim: rel_operator "\<lambda>_. evalLimit cnt offset" for cnt offset
proof
  fix db r r'
  assume wf: "wf_rel r"
  then have rows: "evalLimit cnt offset r = Inl ErrLimit \<or>
      evalLimit cnt offset r = Inr \<lparr>r_Cols = r_Cols r, r_Rows = take (nat cnt) (drop (nat offset) (r_Rows r)),
         r_db = Map.empty, r_hidden = r_hidden r\<rparr>"
    using evalLimit_rows [of cnt offset r]
    by (cases "cnt < 1 \<or> offset < 0") (auto simp: evalLimit_def wf_rel_def)
  then show "safe (evalLimit cnt offset r)" by auto
  show "evalLimit cnt offset r = Inr r' \<Longrightarrow> wf_rel r'"
    using rows wf by (auto simp: wf_rel_def dest!: in_set_takeD in_set_dropD elim!: len_ok_le)
qed

lemma matching_subset: "matching left row right on p = Inr ms \<Longrightarrow> set ms \<subseteq> set (r_Rows right)"
proof -
  have "matching_loop left row right on p rs = Inr ms \<Longrightarrow> set ms \<subseteq> set rs" for rs
  proof (induction rs arbitrary: ms)
    case (Cons c rs)
    then show ?case by (fastforce simp: bindR_eq_Inr split: if_splits)
  qed simp
  then show "matching left row right on p = Inr ms \<Longrightarrow> set ms \<subseteq> set (r_Rows right)"
    by (simp add: matching_def)
qed

lemma join_row_Inr:
  "join_row inp right on p row = Inr row' \<longleftrightarrow>
     (\<exists>ext. row' = row @ ext \<and>
        (matching inp row right on p = Inr [] \<and> ext = replicate (length (r_Cols right)) VNull \<or>
         matching inp row right on p = Inr [ext]))"
proof (cases "matching inp row right on p")
  case (Inr ms)
  then show ?thesis by (cases ms; cases "tl ms") (auto simp: join_row_def)
qed (simp add: join_row_def)

lemma join_row_safe: "safe (matching inp row right on p) \<Longrightarrow> safe (join_row inp right on p row)"
  by (auto simp: join_row_def split: list.splits)

interpretation jn: rel_operator "\<lambda>db. evalJoin db rref a on p" for rref a on p
proof
  fix db r r'
  assume wf: "wf_db db" "wf_rel r"
  have row: "safe (join_row r right on p row) \<and>
      (\<forall>row'. join_row r right on p row = Inr row' \<longrightarrow> length row' = length (r_Cols r) + length (r_Cols right))"
    if right: "evalScan db rref = Inr right" and "row \<in> set (r_Rows r)" for row right
  proof -
    have wr: "wf_rel right" "length row = length (r_Cols r)"
      using that wf wf_evalScan [OF wf(1) right] by (auto simp: wf_rel_def)
    moreover have "safe (matching r row right on p)"
      using wr by (simp add: matching_def wf_rel_def evalPredicate_safe)
    moreover have "length m = length (r_Cols right)" if "matching r row right on p = Inr ms" "m \<in> set ms" for m ms
      using wr(1) matching_subset [OF that(1)] that(2) by (auto simp: wf_rel_def)
    ultimately show ?thesis by (auto simp: join_row_Inr join_row_safe)
  qed
  then show "safe (evalJoin db rref a on p r)"
    by (auto simp: evalJoin_def)
  show "wf_rel r'" if res: "evalJoin db rref a on p r = Inr r'"
  proof -
    obtain right rs where right: "evalScan db rref = Inr right"
      and rs: "mapR (join_row r right on p) (r_Rows r) = Inr rs"
      and r': "r_Rows r' = rs" "length (r_Cols r') = length (r_Cols r) + length (r_Cols right)"
        "r_db r' = Map.empty" "r_hidden r' = r_hidden r + length (r_Cols right)"
      using res by (auto simp: evalJoin_def bindR_eq_Inr)
    have "\<forall>row\<in>set rs. length row = length (r_Cols r) + length (r_Cols right)"
      by (rule mapR_Inr_all [OF rs]) (use row [OF right] in blast)
    moreover have "len_ok rs"
      using wf(2) mapR_length [OF rs] by (auto simp: wf_rel_def intro: len_ok_le)
    ultimately show ?thesis using r' wf(2) by (simp add: wf_rel_def)
  qed
qed

interpretation dst: rel_operator "\<lambda>_. evalDistinct"
proof
  fix db r r'
  assume wf: "wf_rel r"
  then show "safe (evalDistinct r)"
    by (auto simp: evalDistinct_def intro!: visible_safe distinct_loop_safe)
  show "wf_rel r'" if res: "evalDistinct r = Inr r'"
  proof -
    obtain v rs where v: "visible r = Inr v" and rs: "distinct_loop {} (r_Rows v) = Inr rs"
      and r': "r' = \<lparr>r_Cols = r_Cols v, r_Rows = rs, r_db = Map.empty, r_hidden = 0\<rparr>"
      using res by (auto simp: evalDistinct_def bindR_eq_Inr)
    have "set rs \<subseteq> set (r_Rows v)" "length rs \<le> length (r_Rows v)"
      using distinct_loop_subseq [OF rs] by (auto dest: list_emb_set list_emb_length)
    with visible_wf [OF wf v] show ?thesis by (auto simp: r' wf_rel_def intro: len_ok_le)
  qed
qed

section \<open>Grouping\<close>

definition groupKey :: "nat list \<Rightarrow> val list \<Rightarrow> interp_error + string" where
  "groupKey idx row = bindR (mapR (cell row) idx) rowKey"

definition members :: "nat list \<Rightarrow> val list list \<Rightarrow> string \<Rightarrow> val list list" where
  "members idx rs k = filter (\<lambda>row. groupKey idx row = Inr k) rs"

lemma groupRow_key:
  "groupRow idx row st =
     bindR (groupKey idx row) (\<lambda>key. Inr
       ((fst st)(key \<mapsto> (case fst st key of None \<Rightarrow> [row] | Some rs \<Rightarrow> rs @ [row])),
        if fst st key = None then snd st @ [key] else snd st))"
  by (auto simp: groupRow_def groupKey_def bindR_assoc intro!: bindR_cong split: option.splits)

text \<open>The loop maps each key to the rows of the input that have it, in input order.\<close>

lemma groupRows_spec:
  assumes "foldR (groupRow idx) rs (Map.empty, []) = Inr (g, order)"
  shows "(\<forall>row\<in>set rs. \<exists>k. groupKey idx row = Inr k) \<and>
    g = (\<lambda>k. if members idx rs k = [] then None else Some (members idx rs k)) \<and>
    distinct order \<and> set order = {k. members idx rs k \<noteq> []}"
  using assms
proof (induction rs arbitrary: g order rule: rev_induct)
  case (snoc row rs)
  obtain g0 order0 where prev: "foldR (groupRow idx) rs (Map.empty, []) = Inr (g0, order0)"
    and step: "groupRow idx row (g0, order0) = Inr (g, order)"
    using snoc.prems by (auto simp: foldR_append bindR_eq_Inr)
  from step obtain k where k: "groupKey idx row = Inr k"
    and g: "g = g0(k \<mapsto> (case g0 k of None \<Rightarrow> [row] | Some rs \<Rightarrow> rs @ [row]))"
    and order: "order = (if g0 k = None then order0 @ [k] else order0)"
    by (auto simp: groupRow_key bindR_eq_Inr)
  have mem: "members idx (rs @ [row]) k' = members idx rs k' @ (if k' = k then [row] else [])" for k'
    using k by (auto simp: members_def)
  show ?case
    using snoc.IH [OF prev] k by (auto simp: g order mem fun_eq_iff split: option.splits if_splits)
qed (simp add: members_def fun_eq_iff)

lemma sum_members:
  assumes "finite K" and "\<forall>row\<in>set rs. \<exists>k\<in>K. groupKey idx row = Inr k"
  shows "(\<Sum>k\<in>K. length (members idx rs k)) = length rs"
  using assms(2)
proof (induction rs)
  case (Cons row rs)
  then obtain k0 where k0: "k0 \<in> K" "groupKey idx row = Inr k0" by auto
  have "length (members idx (row # rs) k) = (if k = k0 then 1 else 0) + length (members idx rs k)" for k
    using k0 by (simp add: members_def)
  then have "(\<Sum>k\<in>K. length (members idx (row # rs) k)) = 1 + (\<Sum>k\<in>K. length (members idx rs k))"
    using k0(1) assms(1) by (simp add: sum.distrib)
  with Cons show ?case by simp
qed (simp add: members_def)

lemma groups_partition:
  assumes "foldR (groupRow idx) rs (Map.empty, []) = Inr (g, order)"
  shows "(\<Sum>k\<leftarrow>order. length (members idx rs k)) = length rs" and "length order \<le> length rs"
proof -
  have keys: "\<forall>row\<in>set rs. \<exists>k. groupKey idx row = Inr k" and order: "distinct order"
    "set order = {k. members idx rs k \<noteq> []}"
    using groupRows_spec [OF assms] by auto
  have "\<forall>row\<in>set rs. \<exists>k\<in>set order. groupKey idx row = Inr k"
    using keys by (fastforce simp: order(2) members_def filter_empty_conv)
  then show total: "(\<Sum>k\<leftarrow>order. length (members idx rs k)) = length rs"
    using sum_members [of "set order"] order(1) by (simp add: sum_list_distinct_conv_sum_set)
  have "length order = (\<Sum>k\<leftarrow>order. 1)" by (simp add: sum_list_triv)
  also have "\<dots> \<le> (\<Sum>k\<leftarrow>order. length (members idx rs k))"
    by (rule sum_list_mono) (use order(2) in \<open>simp add: Suc_le_eq\<close>)
  finally show "length order \<le> length rs" by (simp only: total)
qed

lemma aggregateInput_loop_safe:
  "\<forall>row\<in>set rs. i < length row \<Longrightarrow> safe (aggregateInput_loop i uniq seen rs)"
proof (induction rs arbitrary: seen)
  case (Cons row rs)
  then show ?case
    by (auto intro!: safe_cell simp: valueKey_def split: option.splits val.splits)
qed simp

lemma foldR_sum_step_safe: "safe (foldR sum_step vs s)"
  by (rule safe_foldR [where P = "\<lambda>_. True"]) (auto simp: sum_step_def split: option.splits)

lemma aggregateCall_safe:
  assumes "\<forall>row\<in>set rs. length row = length (r_Cols r)"
  shows "safe (aggregateCall r rs call)"
proof -
  have "safe (foldR (minMax_step b) vs v)" for b vs v
    by (rule safe_foldR [where P = "\<lambda>_. True"]) (auto simp: minMax_step_def)
  then have "safe (minMaxValues vs b)" for b vs
    by (auto simp: minMaxValues_def split: list.splits)
  moreover have "safe (avgValues vs)" for vs
    by (auto simp: avgValues_def sumValues_def bindR_eq_Inr foldR_sum_step_safe)
  moreover have "safe (aggregateInput r rs call)"
    using assms by (auto simp: aggregateInput_def intro!: aggregateInput_loop_safe dest: colIndex_Inr)
  ultimately show ?thesis
    by (auto simp: aggregateCall_def sumValues_def foldR_sum_step_safe split: agg_func.splits)
qed

lemma aggregateRow_safe:
  assumes "\<forall>row\<in>set rs. length row = length (r_Cols r)" and "\<forall>i\<in>set idx. i < length (r_Cols r)"
  shows "safe (aggregateRow r rs aggs idx)"
  using assms by (auto simp: aggregateRow_def intro!: safe_cell aggregateCall_safe split: list.splits)

lemma aggregateRow_length:
  "aggregateRow r rs aggs idx = Inr out \<Longrightarrow> length out = (if rs = [] then 0 else length idx) + length aggs"
  by (auto simp: aggregateRow_def bindR_eq_Inr dest!: mapR_length split: list.splits)

end
