(* ===== verification/Interp_Reads.thy ===== *)
theory Interp_Reads
  imports Interp_Laws
begin

text \<open>
  The laws of whole reads: what an aggregation returns in terms of its groups, the type safety of
  \<open>eval\<close>, and the properties of the interpreter.
\<close>

section \<open>Aggregation\<close>

text \<open>The groups an aggregation computes its rows from: without GROUP BY an empty input is one group.\<close>

definition aggregate_groups :: "string list \<Rightarrow> nat list \<Rightarrow> val list list \<Rightarrow> string list \<Rightarrow> val list list list" where
  "aggregate_groups groupBy idx rs order =
     (if groupBy = [] \<and> rs = [] then [[]] else map (members idx rs) order)"

lemma order_empty:
  assumes "foldR (groupRow idx) rs (Map.empty, []) = Inr (g, order)"
  shows "order = [] \<longleftrightarrow> rs = []"
  using groups_partition [OF assms] by auto

lemma evalAggregate_groups:
  assumes idx: "mapR (colIndex r) groupBy = Inr idx"
    and fold: "foldR (groupRow idx) (r_Rows r) (Map.empty, []) = Inr (g, order)"
  shows "evalAggregate groupBy aggs r =
    bindR (mapR (\<lambda>grp. aggregateRow r grp aggs idx) (aggregate_groups groupBy idx (r_Rows r) order)) (\<lambda>rs.
      Inr \<lparr>r_Cols = aggregateCols groupBy aggs, r_Rows = rs, r_db = Map.empty, r_hidden = 0\<rparr>)"
proof (cases "groupBy = [] \<and> r_Rows r = []")
  case True
  then show ?thesis
    using assms order_empty [OF fold] by (simp add: evalAggregate_def groupRows_def aggregate_groups_def)
next
  case False
  have "mapR (\<lambda>k. aggregateRow r (case g k of Some rs \<Rightarrow> rs | None \<Rightarrow> []) aggs idx) order =
      mapR (\<lambda>k. aggregateRow r (members idx (r_Rows r) k) aggs idx) order"
    using groupRows_spec [OF fold] by (intro mapR_cong) auto
  with False show ?thesis
    using assms order_empty [OF fold]
    by (auto simp: evalAggregate_def groupRows_def aggregate_groups_def mapR_map)
qed

lemma members_wf:
  assumes "grp \<in> set (aggregate_groups groupBy idx rs order)"
  shows "set grp \<subseteq> set rs" and "grp = [] \<Longrightarrow> set order = {k. members idx rs k \<noteq> []} \<Longrightarrow> groupBy = []"
  using assms by (auto simp: aggregate_groups_def members_def split: if_splits)

lemma groupRows_safe:
  assumes "\<forall>row\<in>set rs. \<forall>i\<in>set idx. i < length row"
  shows "safe (foldR (groupRow idx) rs st)"
  by (rule safe_foldR [where P = "\<lambda>_. True"])
    (use assms in \<open>auto simp: groupRow_def intro!: safe_cell split: option.splits\<close>)

interpretation agg: rel_operator "\<lambda>_. evalAggregate groupBy aggs" for groupBy aggs
proof
  fix db r r'
  assume wf: "wf_rel r"
  let ?fold = "\<lambda>idx. foldR (groupRow idx) (r_Rows r) (Map.empty, [])"
  have idx_less: "\<forall>i\<in>set idx. i < length (r_Cols r)" if "mapR (colIndex r) groupBy = Inr idx" for idx
    using mapR_colIndex_less [of r "\<lambda>x. x"] that by simp
  show "safe (evalAggregate groupBy aggs r)"
  proof (cases "mapR (colIndex r) groupBy")
    case (Inl e)
    moreover have "safe (mapR (colIndex r) groupBy)" by auto
    ultimately show ?thesis by (simp add: evalAggregate_def)
  next
    case idx: (Inr idx)
    have safe: "safe (?fold idx)"
      using wf idx_less [OF idx] by (intro groupRows_safe) (auto simp: wf_rel_def)
    show ?thesis
    proof (cases "?fold idx")
      case (Inl e)
      with safe show ?thesis by (simp add: evalAggregate_def idx groupRows_def)
    next
      case (Inr gs)
      obtain g order where "gs = (g, order)" by (cases gs)
      with Inr have fold: "?fold idx = Inr (g, order)" by simp
      have "safe (aggregateRow r grp aggs idx)"
        if "grp \<in> set (aggregate_groups groupBy idx (r_Rows r) order)" for grp
        using wf members_wf(1) [OF that] idx_less [OF idx]
        by (intro aggregateRow_safe) (auto simp: wf_rel_def)
      then show ?thesis
        unfolding evalAggregate_groups [OF idx fold] by (intro safe_bindR safe_mapR) simp_all
    qed
  qed
  show "wf_rel r'" if res: "evalAggregate groupBy aggs r = Inr r'"
  proof -
    obtain idx where idx: "mapR (colIndex r) groupBy = Inr idx"
      using res by (auto simp: evalAggregate_def bindR_eq_Inr)
    obtain g order where fold: "?fold idx = Inr (g, order)"
      using res idx by (auto simp: evalAggregate_def groupRows_def bindR_eq_Inr)
    obtain rs where rs: "mapR (\<lambda>grp. aggregateRow r grp aggs idx) (aggregate_groups groupBy idx (r_Rows r) order) = Inr rs"
      and r': "r' = \<lparr>r_Cols = aggregateCols groupBy aggs, r_Rows = rs, r_db = Map.empty, r_hidden = 0\<rparr>"
      using res by (auto simp: evalAggregate_groups [OF idx fold] bindR_eq_Inr)
    have "\<forall>row\<in>set rs. length row = length groupBy + length aggs"
      by (rule mapR_Inr_all [OF rs])
        (use members_wf(2) groupRows_spec [OF fold] mapR_length [OF idx] aggregateRow_length in fastforce)
    moreover have "len_ok rs"
    proof -
      have "length rs \<le> length (r_Rows r) \<or> length rs = 1"
        using mapR_length [OF rs] groups_partition(2) [OF fold] by (auto simp: aggregate_groups_def)
      then show ?thesis using wf by (auto simp: wf_rel_def len_ok_def is_int64_def)
    qed
    ultimately show ?thesis by (simp add: r' wf_rel_def aggregateCols_def)
  qed
qed

section \<open>Type safety\<close>

lemma eval_Having: "eval db (Having e p) \<in> {bindR (eval db e) (evalSelect db p), Inl ErrUnsupported}"
  by (cases e) auto

lemma eval_safe_wf:
  assumes "wf_db db"
  shows "safe (eval db e) \<and> (\<forall>r. eval db e = Inr r \<longrightarrow> wf_rel r)"
proof (induction e)
  case (Scan r a)
  then show ?case using assms by (simp add: wf_evalScan)
next
  case (Select e p)
  show ?case unfolding eval.simps by (rule sel.op_after [OF assms Select])
next
  case (Project e items)
  show ?case unfolding eval.simps by (rule proj.op_after [OF assms Project])
next
  case (Aggregate e gs aggs)
  show ?case unfolding eval.simps by (rule agg.op_after [OF assms Aggregate])
next
  case (Sort e ts)
  show ?case unfolding eval.simps by (rule srt.op_after [OF assms Sort])
next
  case (Limit e cnt off)
  show ?case unfolding eval.simps by (rule lim.op_after [OF assms Limit])
next
  case (Distinct e)
  show ?case unfolding eval.simps by (rule dst.op_after [OF assms Distinct])
next
  case (Join e r a on p)
  show ?case unfolding eval.simps by (rule jn.op_after [OF assms Join])
next
  case (Having e p)
  from sel.op_after [OF assms this] eval_Having [of db e p] show ?case
    by (elim insertE) (simp_all only: safe_simps, simp_all)
qed simp_all

section \<open>Keys\<close>

text \<open>The equality a key stands for: NULL equals NULL, and numbers are equal by value.\<close>

definition same_value :: "val \<Rightarrow> val \<Rightarrow> bool" where
  "same_value a b \<longleftrightarrow> a = b \<or> (toRat a \<noteq> None \<and> toRat a = toRat b)"

fun nul_free :: "val \<Rightarrow> bool" where
  "nul_free (VStr s) = (CHR 0x00 \<notin> set s)"
| "nul_free _ = True"

lemma RatString_inj: "RatString p = RatString q \<longleftrightarrow> p = q"
proof -
  obtain n d where p: "quotient_of p = (n, d)" by (cases "quotient_of p")
  obtain m e where q: "quotient_of q = (m, e)" by (cases "quotient_of q")
  have "CHR ''/'' \<notin> set (show_int i)" for i using show_int_chars by blast
  then have "show_int n @ ''/'' @ show_int d = show_int m @ ''/'' @ show_int e \<longleftrightarrow> n = m \<and> d = e"
    and "show_int n @ ''/'' @ show_int d \<noteq> show_int m" and "show_int m @ ''/'' @ show_int e \<noteq> show_int n"
    by (auto simp: append_sep_inj append_sep_notin show_int_inj)
  moreover have "n = m \<and> d = e \<Longrightarrow> p = q" using p q by (metis quotient_of_inject)
  ultimately show ?thesis using p q by (auto simp: RatString_def show_int_inj)
qed

lemma RatString_nul: "CHR 0x00 \<notin> set (RatString r)"
  using show_int_chars by (auto simp: RatString_def split_beta Let_def)

lemma valueKey_cases:
  assumes "valueKey a = Inr k"
  obtains "a = VNull" "k = ''n''"
  | r where "a \<noteq> VNull" "toRat a = Some r" "k = ''r:'' @ RatString r"
  | s where "a = VStr s" "k = ''s:'' @ s"
  | b where "a = VBool b" "k = ''b:'' @ (if b then ''1'' else ''0'')"
  using assms by (cases a) (auto simp: valueKey_def split: option.splits if_splits)

lemma valueKey_inj:
  assumes "valueKey a = Inr k" and "valueKey b = Inr l"
  shows "k = l \<longleftrightarrow> same_value a b"
  using assms(1)
proof (cases rule: valueKey_cases)
  case 1
  from assms(2) show ?thesis by (cases rule: valueKey_cases) (auto simp: 1 same_value_def)
next
  case (2 r)
  from assms(2) show ?thesis
    by (cases rule: valueKey_cases) (use 2 in \<open>auto simp: same_value_def RatString_inj\<close>)
next
  case (3 s)
  from assms(2) show ?thesis by (cases rule: valueKey_cases) (auto simp: 3 same_value_def)
next
  case (4 b)
  from assms(2) show ?thesis by (cases rule: valueKey_cases) (auto simp: 4 same_value_def)
qed

lemma valueKey_nul: "valueKey a = Inr k \<Longrightarrow> nul_free a \<Longrightarrow> CHR 0x00 \<notin> set k"
  by (erule valueKey_cases) (auto simp: RatString_nul)

lemma rowKey_inj:
  assumes "rowKey x = Inr k" and "rowKey y = Inr l" and "list_all nul_free x" and "list_all nul_free y"
    and "length x = length y"
  shows "k = l \<longleftrightarrow> list_all2 same_value x y"
proof -
  obtain ks ls where ks: "mapR valueKey x = Inr ks" "k = join_strs [CHR 0x00] ks"
    and ls: "mapR valueKey y = Inr ls" "l = join_strs [CHR 0x00] ls"
    using assms(1,2) by (auto simp: rowKey_def bindR_eq_Inr)
  have nul: "\<forall>s\<in>set ks. CHR 0x00 \<notin> set s" "\<forall>s\<in>set ls. CHR 0x00 \<notin> set s"
    by (rule mapR_Inr_all [OF ks(1)], use assms(3) in \<open>simp add: list_all_iff valueKey_nul\<close>)
      (rule mapR_Inr_all [OF ls(1)], use assms(4) in \<open>simp add: list_all_iff valueKey_nul\<close>)
  have len: "length ks = length x" "length ls = length x"
    using mapR_length [OF ks(1)] mapR_length [OF ls(1)] assms(5) by auto
  have "ks = ls \<longleftrightarrow> (\<forall>i<length x. ks ! i = ls ! i)"
    by (simp add: list_eq_iff_nth_eq len)
  also have "\<dots> \<longleftrightarrow> (\<forall>i<length x. same_value (x ! i) (y ! i))"
    using valueKey_inj [OF mapR_Inr_nth [OF ks(1)] mapR_Inr_nth [OF ls(1)]] assms(5) by auto
  finally show ?thesis
    using nul len by (simp add: ks(2) ls(2) join_strs_inj list_all2_conv_all_nth assms(5))
qed

section \<open>Properties\<close>

lemma visible_eq:
  assumes "wf_rel r"
  shows "\<exists>db. visible r = Inr \<lparr>r_Cols = take (length (r_Cols r) - r_hidden r) (r_Cols r),
    r_Rows = map (take (length (r_Cols r) - r_hidden r)) (r_Rows r), r_db = db, r_hidden = 0\<rparr>"
proof (cases "r_hidden r = 0")
  case True
  then have "map (take (length (r_Cols r) - r_hidden r)) (r_Rows r) = r_Rows r"
    using assms by (intro map_idI) (simp add: wf_rel_def)
  with True show ?thesis by (auto simp: visible_def intro!: exI [of _ "r_db r"])
next
  case False
  have "mapR (slice_to n) rs = Inr (map (take n) rs)" if "\<forall>row\<in>set rs. n \<le> length row" for n rs
    using that by (induction rs) (auto simp: slice_to_def)
  with False assms show ?thesis by (simp add: visible_def wf_rel_def Let_def)
qed

lemma Eval_eq:
  assumes "wf_db db" and "eval db e = Inr r"
  shows "Eval db e = Inr \<lparr>res_Cols = take (length (r_Cols r) - r_hidden r) (r_Cols r),
    res_Rows = map (take (length (r_Cols r) - r_hidden r)) (r_Rows r)\<rparr>"
proof -
  have "wf_rel r" using eval_safe_wf [OF assms(1)] assms(2) by blast
  from visible_eq [OF this] show ?thesis using assms(2) by (auto simp: Eval_def)
qed

lemma Eval_Inr: "wf_db db \<Longrightarrow> Eval db e = Inr res \<Longrightarrow> \<exists>r. eval db e = Inr r \<and> wf_rel r"
  using eval_safe_wf by (auto simp: Eval_def bindR_eq_Inr)

text \<open>
  C11: on a database whose rows have one cell per column, no read panics: the outcome is a documented
  error or a result whose rows have one cell per column again.
\<close>

theorem Eval_type_safe:
  assumes "wf_db db"
  shows "Eval db e \<noteq> Inl IndexPanic \<and>
    (\<forall>res. Eval db e = Inr res \<longrightarrow> (\<forall>row\<in>set (res_Rows res). length row = length (res_Cols res)))"
proof (cases "eval db e")
  case (Inl err)
  then show ?thesis using eval_safe_wf [OF assms, of e] by (simp add: Eval_def)
next
  case (Inr r)
  then have "wf_rel r" using eval_safe_wf [OF assms, of e] by simp
  with Eval_eq [OF assms Inr] show ?thesis by (simp add: wf_rel_def)
qed

text \<open>
  A limit returns the rows from the offset on, as many as its count: what the loop bounds of
  \<^verbatim>\<open>evalLimit\<close> compute in 64-bit arithmetic is \<open>take\<close> after \<open>drop\<close>, for every count and offset.
\<close>

theorem Eval_Limit:
  assumes "wf_db db" and "Eval db e = Inr res" and "1 \<le> cnt" and "0 \<le> offset"
  shows "Eval db (Limit e cnt offset) =
    Inr \<lparr>res_Cols = res_Cols res, res_Rows = take (nat cnt) (drop (nat offset) (res_Rows res))\<rparr>"
proof -
  obtain r where r: "eval db e = Inr r" "wf_rel r" using Eval_Inr [OF assms(1,2)] by blast
  have "evalLimit cnt offset r = Inr \<lparr>r_Cols = r_Cols r, r_Rows = take (nat cnt) (drop (nat offset) (r_Rows r)),
         r_db = Map.empty, r_hidden = r_hidden r\<rparr>"
    using r(2) assms(3,4) by (simp add: evalLimit_rows wf_rel_def)
  with r have "eval db (Limit e cnt offset) = Inr \<lparr>r_Cols = r_Cols r,
      r_Rows = take (nat cnt) (drop (nat offset) (r_Rows r)), r_db = Map.empty, r_hidden = r_hidden r\<rparr>"
    by simp
  from Eval_eq [OF assms(1) this] Eval_eq [OF assms(1) r(1)] assms(2) show ?thesis
    by (auto simp: take_map drop_map)
qed

text \<open>
  A join adds no row and no column to a read's output: when the joined read evaluates, its
  result is that of the read below it.
\<close>

theorem Eval_Join:
  assumes "wf_db db" and "Eval db (Join e rref a on p) = Inr res"
  shows "Eval db e = Inr res"
proof -
  obtain r right rs where r: "eval db e = Inr r" and right: "evalScan db rref = Inr right"
    and rs: "mapR (join_row r right on p) (r_Rows r) = Inr rs"
    and joined: "eval db (Join e rref a on p) =
      Inr \<lparr>r_Cols = r_Cols r @ map (\<lambda>c. a @ ''.'' @ c) (r_Cols right), r_Rows = rs, r_db = Map.empty,
           r_hidden = r_hidden r + length (r_Cols right)\<rparr>"
    using assms(2) by (auto simp: Eval_def evalJoin_def bindR_eq_Inr)
  have wf: "wf_rel r" using eval_safe_wf [OF assms(1)] r by blast
  let ?n = "length (r_Cols r) - r_hidden r"
  have "take ?n (rs ! i) = take ?n (r_Rows r ! i)" if "i < length (r_Rows r)" for i
  proof -
    have "length (r_Rows r ! i) = length (r_Cols r)" using wf that by (simp add: wf_rel_def)
    with mapR_Inr_nth [OF rs that] show ?thesis by (auto simp: join_row_Inr)
  qed
  then have "map (take ?n) rs = map (take ?n) (r_Rows r)"
    using mapR_length [OF rs] by (intro nth_equalityI) auto
  with Eval_eq [OF assms(1) joined] Eval_eq [OF assms(1) r] assms(2) show ?thesis by simp
qed

lemma same_key_not_less:
  assumes "\<forall>(t, i)\<in>set ts. x ! i = y ! i"
  shows "\<not> fst (sort_less ts x y)"
  using assms
proof (induction ts x y rule: sort_less.induct)
  case (2 t i ts x y)
  then have "x ! i = y ! i" and "\<forall>(t, i)\<in>set ts. x ! i = y ! i" by auto
  with 2 compareForSort_self [of "y ! i"] show ?case by (auto simp: Let_def split_beta)
qed simp

lemma sort_less_first:
  assumes "\<not> fst (sort_less ((t, i) # ts) y x)" and "i < length x" and "i < length y"
  shows "x ! i = VNull \<longrightarrow> y ! i = VNull"
    and "x ! i \<noteq> VNull \<and> y ! i \<noteq> VNull \<longrightarrow> (\<forall>c. compareValues (x ! i) (y ! i) = Inr c \<longrightarrow>
      (if equal_fold (ot_Dir t) ''desc'' then c \<ge> 0 else c \<le> 0))"
proof -
  show "x ! i = VNull \<longrightarrow> y ! i = VNull"
    using assms by (auto split: if_splits)
  show "x ! i \<noteq> VNull \<and> y ! i \<noteq> VNull \<longrightarrow> (\<forall>c. compareValues (x ! i) (y ! i) = Inr c \<longrightarrow>
      (if equal_fold (ot_Dir t) ''desc'' then c \<ge> 0 else c \<le> 0))"
    using assms compareValues_swap [of "y ! i" "x ! i"]
    by (cases "compareValues (x ! i) (y ! i)")
      (auto simp: Let_def split_beta compareForSort_def split: if_splits)
qed

text \<open>
  A sort permutes the rows, puts the NULLs of the first term last whatever its direction, leaves
  no two neighbours in the wrong order of the first term, and keeps the input order of rows that
  agree on all terms.
\<close>

theorem evalSort_sorts:
  assumes "wf_rel r" and "evalSort (t # ts) r = Inr r'"
  shows "\<exists>i idx. colIndex r (ot_Field t) = Inr i \<and> mapR (\<lambda>t. colIndex r (ot_Field t)) ts = Inr idx \<and>
    mset (r_Rows r') = mset (r_Rows r) \<and>
    sorted_wrt (\<lambda>x y. x ! i = VNull \<longrightarrow> y ! i = VNull) (r_Rows r') \<and>
    successively (\<lambda>x y. x ! i \<noteq> VNull \<and> y ! i \<noteq> VNull \<longrightarrow>
      (\<forall>c. compareValues (x ! i) (y ! i) = Inr c \<longrightarrow>
         (if equal_fold (ot_Dir t) ''desc'' then c \<ge> 0 else c \<le> 0))) (r_Rows r') \<and>
    (\<forall>key. filter (\<lambda>row. map ((!) row) (i # idx) = key) (r_Rows r') =
           filter (\<lambda>row. map ((!) row) (i # idx) = key) (r_Rows r))"
proof -
  obtain i idx where i: "colIndex r (ot_Field t) = Inr i"
    and idx: "mapR (\<lambda>t. colIndex r (ot_Field t)) ts = Inr idx"
    and rows: "r_Rows r' = fst (SliceStable (sort_less ((t, i) # zip ts idx)) (r_Rows r))"
    using assms(2) by (auto simp: evalSort_Inr bindR_eq_Inr)
  let ?lt = "sort_less ((t, i) # zip ts idx)"
  have len: "\<forall>row\<in>set (r_Rows r'). i < length row"
    using assms(1) colIndex_Inr [OF i] by (auto simp: rows wf_rel_def)
  have "successively (\<lambda>x y. \<not> fst (?lt y x)) (r_Rows r')"
    unfolding rows by (rule SliceStable_sorted) (rule sort_less_asym)
  then have step: "successively (\<lambda>x y. \<not> fst (?lt y x) \<and> i < length x \<and> i < length y) (r_Rows r')"
    by (rule successively_mono [where P = "\<lambda>x y. \<not> fst (?lt y x)"]) (use len in auto)
  have "successively (\<lambda>x y. x ! i = VNull \<longrightarrow> y ! i = VNull) (r_Rows r')"
    using step by (rule successively_mono) (use sort_less_first(1) in blast)
  then have "sorted_wrt (\<lambda>x y. x ! i = VNull \<longrightarrow> y ! i = VNull) (r_Rows r')"
    by (subst (asm) successively_conv_sorted_wrt) (auto simp: transp_def)
  moreover have "successively (\<lambda>x y. x ! i \<noteq> VNull \<and> y ! i \<noteq> VNull \<longrightarrow>
      (\<forall>c. compareValues (x ! i) (y ! i) = Inr c \<longrightarrow>
         (if equal_fold (ot_Dir t) ''desc'' then c \<ge> 0 else c \<le> 0))) (r_Rows r')"
    using step by (rule successively_mono) (use sort_less_first(2) in blast)
  moreover have "filter (\<lambda>row. map ((!) row) (i # idx) = key) (r_Rows r') =
      filter (\<lambda>row. map ((!) row) (i # idx) = key) (r_Rows r)" for key
    unfolding rows by (rule SliceStable_stable, rule same_key_not_less) (auto dest!: set_zip_rightD)
  ultimately show ?thesis using i idx SliceStable_mset [of ?lt "r_Rows r"] unfolding rows by blast
qed

lemma distinct_loop_keys:
  assumes "distinct_loop seen rs = Inr out"
  shows "(\<forall>row\<in>set rs. \<exists>k. rowKey row = Inr k) \<and> distinct (map rowKey out) \<and>
    rowKey ` set out = rowKey ` set rs - Inr ` seen"
  using assms
proof (induction rs arbitrary: seen out)
  case (Cons row rs)
  then obtain k where k: "rowKey row = Inr k" by (auto simp: bindR_eq_Inr)
  show ?case
  proof (cases "k \<in> seen")
    case True
    with Cons k show ?thesis by (auto simp: bindR_eq_Inr)
  next
    case False
    then obtain out' where out': "out = row # out'" "distinct_loop (insert k seen) rs = Inr out'"
      using Cons.prems k by (auto simp: bindR_eq_Inr)
    from Cons.IH [OF out'(2)] have IH: "\<forall>row\<in>set rs. \<exists>k. rowKey row = Inr k" "distinct (map rowKey out')"
      "rowKey ` set out' = rowKey ` set rs - Inr ` insert k seen" by auto
    then have "Inr k \<notin> rowKey ` set out'" by auto
    with IH False k show ?thesis unfolding out'(1) by (auto simp: image_iff)
  qed
qed simp

text \<open>
  A deduplication keeps a subsequence of the visible rows in which no two rows are equal cell by
  cell (NULL equals NULL, numbers by value) and in which every row of the input has its equal,
  provided no text in the rows contains the NUL byte the keys are joined with.
\<close>

theorem evalDistinct_distinct:
  assumes "wf_rel r" and "visible r = Inr v" and "evalDistinct r = Inr r'"
    and "list_all (list_all nul_free) (r_Rows v)"
  shows "subseq (r_Rows r') (r_Rows v) \<and>
    sorted_wrt (\<lambda>x y. \<not> list_all2 same_value x y) (r_Rows r') \<and>
    (\<forall>x\<in>set (r_Rows v). \<exists>y\<in>set (r_Rows r'). list_all2 same_value x y)"
proof -
  have rs: "distinct_loop {} (r_Rows v) = Inr (r_Rows r')"
    using assms(2,3) by (auto simp: evalDistinct_def bindR_eq_Inr)
  note sub = distinct_loop_subseq [OF rs]
  then have mem: "set (r_Rows r') \<subseteq> set (r_Rows v)" by (auto dest: list_emb_set)
  from distinct_loop_keys [OF rs] have keys: "\<forall>row\<in>set (r_Rows v). \<exists>k. rowKey row = Inr k"
    and dis: "distinct (map rowKey (r_Rows r'))" and img: "rowKey ` set (r_Rows r') = rowKey ` set (r_Rows v)"
    by auto
  have same: "rowKey x = rowKey y \<longleftrightarrow> list_all2 same_value x y"
    if xy: "x \<in> set (r_Rows v)" "y \<in> set (r_Rows v)" for x y
  proof -
    have "length x = length y" using visible_wf [OF assms(1,2)] xy by (simp add: wf_rel_def)
    moreover obtain k l where "rowKey x = Inr k" "rowKey y = Inr l" using keys xy by blast
    ultimately show ?thesis using rowKey_inj [of x k y l] assms(4) xy by (simp add: list_all_iff)
  qed
  have "sorted_wrt (\<lambda>x y. rowKey x \<noteq> rowKey y) (r_Rows r')"
    using dis by (simp add: sorted_wrt_map distinct_conv_nth sorted_wrt_iff_nth_less)
  then have "sorted_wrt (\<lambda>x y. \<not> list_all2 same_value x y) (r_Rows r')"
    by (rule sorted_wrt_mono_rel [rotated]) (use same mem in blast)
  moreover have "\<exists>y\<in>set (r_Rows r'). list_all2 same_value x y" if x: "x \<in> set (r_Rows v)" for x
  proof -
    have "rowKey x \<in> rowKey ` set (r_Rows r')" using x by (simp add: img)
    then obtain y where "y \<in> set (r_Rows r')" "rowKey x = rowKey y" by blast
    with same [OF x] mem show ?thesis by blast
  qed
  ultimately show ?thesis using sub by simp
qed

lemma single_group:
  assumes "foldR (groupRow []) rs (Map.empty, []) = Inr (g, order)" and "rs \<noteq> []"
  shows "length order = 1"
proof -
  have "members [] rs k = (if k = [] then rs else [])" for k
    by (simp add: members_def groupKey_def rowKey_def)
  with groupRows_spec [OF assms(1)] assms(2) have "distinct order" "set order = {[]}" by auto
  then show ?thesis by (metis distinct_card card.empty card_insert_disjoint empty_iff finite.emptyI One_nat_def)
qed

definition int_of :: "val \<Rightarrow> int" where
  "int_of v = (case v of VInt n \<Rightarrow> n | _ \<Rightarrow> 0)"

text \<open>
  Grouping neither loses nor duplicates a row: the counts of the groups add up to the number of
  input rows, and without GROUP BY there is exactly one output row, on empty input too.
\<close>

theorem evalAggregate_counts:
  assumes "evalAggregate groupBy [call] r = Inr r'" and "ag_Func call = AggCount" and "ag_Field call = []"
  shows "(\<Sum>row\<leftarrow>r_Rows r'. int_of (last row)) = int (length (r_Rows r)) \<and>
    (groupBy = [] \<longrightarrow> length (r_Rows r') = 1)"
proof -
  obtain idx where idx: "mapR (colIndex r) groupBy = Inr idx"
    using assms(1) by (auto simp: evalAggregate_def bindR_eq_Inr)
  obtain g order where fold: "foldR (groupRow idx) (r_Rows r) (Map.empty, []) = Inr (g, order)"
    using assms(1) idx by (auto simp: evalAggregate_def groupRows_def bindR_eq_Inr)
  let ?groups = "aggregate_groups groupBy idx (r_Rows r) order"
  have rs: "mapR (\<lambda>grp. aggregateRow r grp [call] idx) ?groups = Inr (r_Rows r')"
    using assms(1) by (auto simp: evalAggregate_groups [OF idx fold] bindR_eq_Inr)
  have last: "aggregateRow r grp [call] idx = Inr row \<Longrightarrow> int_of (last row) = int (length grp)" for grp row
    using assms(2,3) by (auto simp: aggregateRow_def aggregateCall_def bindR_eq_Inr int_of_def)
  have "map (\<lambda>row. int_of (last row)) (r_Rows r') = map (\<lambda>grp. int (length grp)) ?groups"
    using mapR_length [OF rs] last [OF mapR_Inr_nth [OF rs]] by (intro nth_equalityI) auto
  then have "(\<Sum>row\<leftarrow>r_Rows r'. int_of (last row)) = (\<Sum>grp\<leftarrow>?groups. int (length grp))" by simp
  also have "\<dots> = int (length (r_Rows r))"
    using groups_partition(1) [OF fold]
    by (simp add: aggregate_groups_def o_def sum_list_of_nat [of "map _ _", simplified o_def map_map])
  finally have "(\<Sum>row\<leftarrow>r_Rows r'. int_of (last row)) = int (length (r_Rows r))" .
  moreover have "length (r_Rows r') = 1" if "groupBy = []"
    using mapR_length [OF rs] single_group [of "r_Rows r" g order] fold idx that
    by (auto simp: aggregate_groups_def)
  ultimately show ?thesis by simp
qed

section \<open>Witnesses\<close>

definition ex_db :: db where
  "ex_db = [''t'' \<mapsto> \<lparr>t_Cols = [''id'', ''name''],
     t_Rows = [[VInt 1, VNull], [VInt 2, VStr ''b''], [VInt 1, VNull]]\<rparr>]"

definition ex_ref :: relation_ref where
  "ex_ref = \<lparr>rr_Schema = [], rr_Name = ''t''\<rparr>"

definition ex_table :: relation where
  "ex_table = \<lparr>r_Cols = [''id'', ''name''],
     r_Rows = [[VInt 1, VNull], [VInt 2, VStr ''b''], [VInt 1, VNull]], r_db = Map.empty, r_hidden = 0\<rparr>"

lemma ex_wf: "wf_db ex_db" "wf_rel ex_table" "evalScan ex_db ex_ref = Inr ex_table"
  by (auto simp: ex_db_def ex_table_def ex_ref_def wf_db_def wf_rel_def len_ok_def is_int64_def evalScan_def)

lemma ex_Eval: "Eval ex_db (Scan ex_ref []) = Inr \<lparr>res_Cols = [''id'', ''name''],
    res_Rows = [[VInt 1, VNull], [VInt 2, VStr ''b''], [VInt 1, VNull]]\<rparr>"
  by (simp add: Eval_def ex_wf visible_def) (simp add: ex_table_def)

lemmas value_simps = compareForSort_def compareValues_def three_way_def boolTri_def evalComparison_def
  evalOp_def evalCondition_def colIndex_def cell_def

theorem Eval_type_safe_witness: "Eval ex_db (Scan ex_ref []) \<noteq> Inl IndexPanic"
  using Eval_type_safe [OF ex_wf(1)] by blast

theorem Eval_Limit_witness:
  "Eval ex_db (Limit (Scan ex_ref []) 1 1) = Inr \<lparr>res_Cols = [''id'', ''name''], res_Rows = [[VInt 2, VStr ''b'']]\<rparr>"
  using Eval_Limit [OF ex_wf(1) ex_Eval, of 1 1] by simp

lemma ex_Join:
  "Eval ex_db (Join (Scan ex_ref []) ex_ref ''o'' [\<lparr>jp_Left = ''name'', jp_Right = ''name''\<rparr>] NilPred) =
     Inr \<lparr>res_Cols = [''id'', ''name''], res_Rows = [[VInt 1, VNull], [VInt 2, VStr ''b''], [VInt 1, VNull]]\<rparr>"
  by (simp add: Eval_def ex_wf evalJoin_def)
    (simp add: ex_table_def join_row_def matching_def value_simps visible_def slice_to_def)

theorem Eval_Join_witness: "Eval ex_db (Scan ex_ref []) = Inr \<lparr>res_Cols = [''id'', ''name''],
    res_Rows = [[VInt 1, VNull], [VInt 2, VStr ''b''], [VInt 1, VNull]]\<rparr>"
  using Eval_Join [OF ex_wf(1) ex_Join] .

definition ex_order :: order_term where
  "ex_order = \<lparr>ot_Field = ''name'', ot_Dir = ''asc'', ot_Nullable = True\<rparr>"

lemma ex_sort:
  "evalSort [ex_order] ex_table = Inr \<lparr>r_Cols = [''id'', ''name''],
     r_Rows = [[VInt 2, VStr ''b''], [VInt 1, VNull], [VInt 1, VNull]], r_db = Map.empty, r_hidden = 0\<rparr>"
  by (simp add: evalSort_def ex_table_def ex_order_def SliceStable_def value_simps equal_fold_def to_lower_def
      to_lower_char_def sort_outcome_def)

theorem evalSort_sorts_witness:
  "mset [[VInt 2, VStr ''b''], [VInt 1, VNull], [VInt 1, VNull]] = mset (r_Rows ex_table)"
  using evalSort_sorts [OF ex_wf(2) ex_sort] by auto

lemma ex_distinct:
  "evalDistinct ex_table = Inr \<lparr>r_Cols = [''id'', ''name''],
     r_Rows = [[VInt 1, VNull], [VInt 2, VStr ''b'']], r_db = Map.empty, r_hidden = 0\<rparr>"
  by (simp add: evalDistinct_def visible_def ex_table_def rowKey_def valueKey_def RatString_def
      quotient_of_int [of 1, simplified] show_int_def show_nat.simps digit_def)

theorem evalDistinct_distinct_witness:
  "subseq [[VInt 1, VNull], [VInt 2, VStr ''b'']] (r_Rows ex_table)"
  using evalDistinct_distinct [OF ex_wf(2) _ ex_distinct, of ex_table] by (simp add: visible_def ex_table_def)

definition ex_count :: agg_call where
  "ex_count = \<lparr>ag_Func = AggCount, ag_Field = [], ag_Distinct = False, ag_Name = ''n''\<rparr>"

lemma ex_aggregate:
  "evalAggregate [''name''] [ex_count] ex_table = Inr \<lparr>r_Cols = [''name'', ''n''],
     r_Rows = [[VNull, VInt 2], [VStr ''b'', VInt 1]], r_db = Map.empty, r_hidden = 0\<rparr>"
  by (simp add: evalAggregate_def ex_table_def ex_count_def groupRows_def groupRow_def rowKey_def valueKey_def
      aggregateRow_def aggregateCall_def aggregateCols_def value_simps)

theorem evalAggregate_counts_witness:
  "(\<Sum>row\<leftarrow>[[VNull, VInt 2], [VStr ''b'', VInt 1]]. int_of (last row)) = int (length (r_Rows ex_table))"
  using evalAggregate_counts [OF ex_aggregate] by (simp add: ex_count_def)

end
