(* ===== verification/Interp_Check.thy ===== *)
theory Interp_Check
  imports Interp_Reads
begin

text \<open>
  The soundness of \<^verbatim>\<open>Check\<close> (\<^verbatim>\<open>src/core/relalg/interp/check.go\<close>): what it decides about a partly known
  row is what the evaluation gives on every row that extends it, and the residual it returns
  evaluates like the predicate. The loops of AND and OR are one loop with a dominant value, so the
  argument is made once.
\<close>

fun conn_loop :: "tri \<Rightarrow> relation \<Rightarrow> val list \<Rightarrow> predicate list \<Rightarrow> tri \<Rightarrow> interp_error + tri" where
  "conn_loop d rel row [] res = Inr res"
| "conn_loop d rel row (p # ps) res =
     bindR (evalPredicate rel row p) (\<lambda>v.
       if v = d then Inr d
       else conn_loop d rel row ps (if v = triUnknown then triUnknown else res))"

lemma evalAnd_loop_conn: "evalAnd_loop rel row ps res = conn_loop triFalse rel row ps res"
  by (induction ps arbitrary: res) (auto intro!: bindR_cong)

lemma evalOr_loop_conn: "evalOr_loop rel row ps res = conn_loop triTrue rel row ps res"
  by (induction ps arbitrary: res) (auto intro!: bindR_cong)

lemma conn_loop_append:
  assumes "d \<noteq> triUnknown" and "res \<noteq> d"
  shows "conn_loop d rel row (ps @ qs) res =
    bindR (conn_loop d rel row ps res) (\<lambda>v. if v = d then Inr d else conn_loop d rel row qs v)"
  using assms(2)
proof (induction ps arbitrary: res)
  case (Cons p ps)
  then show ?case using assms(1) by (cases "evalPredicate rel row p") auto
qed simp

lemma conn_loop_unknown:
  assumes "d \<noteq> triUnknown" and "res \<noteq> d"
  shows "conn_loop d rel row ps triUnknown =
    bindR (conn_loop d rel row ps res) (\<lambda>v. Inr (if v = d then d else triUnknown))"
  using assms(2)
proof (induction ps arbitrary: res)
  case (Cons p ps)
  show ?case
  proof (cases "evalPredicate rel row p")
    case (Inr v)
    consider "v = d" | "v \<noteq> d" "v = triUnknown" | "v \<noteq> d" "v \<noteq> triUnknown" by blast
    then show ?thesis
    proof cases
      case 2
      with Inr Cons.IH [of triUnknown] assms(1) show ?thesis by simp
    next
      case 3
      with Inr Cons.IH [OF Cons.prems] show ?thesis by simp
    qed (simp add: Inr)
  qed simp
qed simp

text \<open>A row extends the known columns when it holds the known values.\<close>

definition agrees :: "relation \<Rightarrow> val list \<Rightarrow> (string \<Rightarrow> val option) \<Rightarrow> bool" where
  "agrees rel row known \<longleftrightarrow>
     (\<forall>f v. known f = Some v \<longrightarrow> (\<exists>i. colIndex rel f = Inr i \<and> cell row i = Inr v))"

definition evalPartial :: "relation \<Rightarrow> val list \<Rightarrow> partial \<Rightarrow> interp_error + tri" where
  "evalPartial rel row pt = (if pt_pred pt = NilPred then Inr (pt_v pt) else evalPredicate rel row (pt_pred pt))"

lemma evalPartial_simps [simp]:
  "evalPartial rel row (decided v) = Inr v"
  "q \<noteq> NilPred \<Longrightarrow> evalPartial rel row (residual q) = evalPredicate rel row q"
  by (auto simp: evalPartial_def decided_def residual_def)

definition is_conn :: "tri \<Rightarrow> (predicate list \<Rightarrow> predicate) \<Rightarrow> bool" where
  "is_conn d conn \<longleftrightarrow> d = triFalse \<and> conn = And \<or> d = triTrue \<and> conn = Or"

lemma is_conn_eval:
  "is_conn d conn \<Longrightarrow> evalPredicate rel row (conn ps) = conn_loop d rel row ps (triNot d)"
  by (auto simp: is_conn_def evalAnd_loop_conn evalOr_loop_conn)

lemma partialList_end_sound:
  assumes "is_conn d conn" and "NilPred \<notin> set res" and "partialList_end d conn res unknown = Inr pt"
    and "conn_loop d rel row res (if unknown then triUnknown else triNot d) = Inr v"
  shows "evalPartial rel row pt = Inr v"
proof (cases res)
  case Nil
  with assms show ?thesis by (auto simp: partialList_end_def split: if_splits)
next
  case (Cons q qs)
  with assms(3) have unk: "\<not> unknown" and pt: "pt = residual (if qs = [] then q else conn res)"
    by (auto simp: partialList_end_def split: if_splits)
  have "conn res \<noteq> NilPred" "q \<noteq> NilPred" using assms(1,2) Cons by (auto simp: is_conn_def)
  moreover have "evalPredicate rel row q = Inr v" if "qs = []"
    using assms(1,4) Cons that unk
    by (cases "evalPredicate rel row q"; cases "projr (evalPredicate rel row q)") (auto simp: is_conn_def)
  ultimately show ?thesis
    using assms(4) unk pt Cons by (auto simp: is_conn_eval [OF assms(1)])
qed

lemma conn_step_sound:
  assumes d: "d \<noteq> triUnknown" "s \<noteq> d"
    and p: "\<forall>w. evalPredicate rel row p = Inr w \<longrightarrow> evalPartial rel row r = Inr w"
    and whole: "conn_loop d rel row (res @ p # ps) s = Inr v"
  shows "pt_pred r \<noteq> NilPred \<Longrightarrow> conn_loop d rel row (res @ pt_pred r # ps) s = Inr v"
    and "pt_pred r = NilPred \<Longrightarrow> pt_v r = d \<Longrightarrow> v = d"
    and "pt_pred r = NilPred \<Longrightarrow> pt_v r \<noteq> d \<Longrightarrow>
      conn_loop d rel row (res @ ps) (if pt_v r = triUnknown then triUnknown else s) = Inr v"
proof -
  from whole obtain w where w: "conn_loop d rel row res s = Inr w"
    and rest: "(if w = d then Inr d else conn_loop d rel row (p # ps) w) = Inr v"
    by (auto simp: conn_loop_append [OF d] bindR_eq_Inr)
  show "pt_pred r \<noteq> NilPred \<Longrightarrow> conn_loop d rel row (res @ pt_pred r # ps) s = Inr v"
    using p rest w by (auto simp: conn_loop_append [OF d] evalPartial_def bindR_eq_Inr split: if_splits)
  show "pt_pred r = NilPred \<Longrightarrow> pt_v r = d \<Longrightarrow> v = d"
    using p rest by (auto simp: evalPartial_def bindR_eq_Inr split: if_splits)
  show "conn_loop d rel row (res @ ps) (if pt_v r = triUnknown then triUnknown else s) = Inr v"
    if "pt_pred r = NilPred" "pt_v r \<noteq> d"
    using that p rest w d
    by (auto simp: conn_loop_append conn_loop_unknown [OF d] evalPartial_def bindR_eq_Inr split: if_splits)
qed

lemma partialEval_sound:
  "partialEval p known = Inr pt \<Longrightarrow> agrees rel row known \<Longrightarrow> evalPredicate rel row p = Inr v \<Longrightarrow>
     evalPartial rel row pt = Inr v"
  "partialList ps known d conn res unknown = Inr pt \<Longrightarrow> agrees rel row known \<Longrightarrow> is_conn d conn \<Longrightarrow>
     NilPred \<notin> set res \<Longrightarrow>
     conn_loop d rel row (res @ ps) (if unknown then triUnknown else triNot d) = Inr v \<Longrightarrow>
     evalPartial rel row pt = Inr v"
proof (induction p known and ps known d conn res unknown arbitrary: pt v and pt v
    rule: partialEval_partialList.induct)
  case (2 c known)
  then show ?case
    by (cases "known (c_Field c)")
      (fastforce simp: agrees_def evalCondition_def bindR_eq_Inr)+
next
  case (3 ps known)
  then show ?case by (simp add: is_conn_def evalAnd_loop_conn)
next
  case (4 ps known)
  then show ?case by (simp add: is_conn_def evalOr_loop_conn)
next
  case (5 p known)
  obtain r where r: "partialEval p known = Inr r"
    and pt: "pt = (if pt_pred r = NilPred then decided (triNot (pt_v r)) else residual (NotP (pt_pred r)))"
    using "5.prems"(1) by (auto simp: bindR_eq_Inr)
  obtain w where w: "evalPredicate rel row p = Inr w" "v = triNot w"
    using "5.prems"(3) by (auto simp: bindR_eq_Inr)
  from "5.IH" [OF r "5.prems"(2) w(1)] show ?case
    by (cases "pt_pred r = NilPred") (auto simp: pt w(2) evalPartial_def [of rel row r])
next
  case (7 known d conn res unknown)
  then show ?case using partialList_end_sound by simp
next
  case (8 p ps known d conn res unknown)
  let ?s = "if unknown then triUnknown else triNot d"
  have d: "d \<noteq> triUnknown" "?s \<noteq> d" using "8.prems"(3) by (auto simp: is_conn_def)
  obtain r where r: "partialEval p known = Inr r" using "8.prems"(1) by (auto simp: bindR_eq_Inr)
  have p: "\<forall>w. evalPredicate rel row p = Inr w \<longrightarrow> evalPartial rel row r = Inr w"
    using "8.IH"(1) [OF r "8.prems"(2)] by blast
  note step = conn_step_sound [OF d p "8.prems"(5)]
  consider "pt_pred r \<noteq> NilPred" | "pt_pred r = NilPred" "pt_v r = d" | "pt_pred r = NilPred" "pt_v r \<noteq> d"
    by blast
  then show ?case
  proof cases
    case 1
    with "8.IH"(2) [OF r 1] "8.prems" r step(1) [OF 1] show ?thesis by simp
  next
    case 2
    with "8.prems"(1) r step(2) [OF 2] show ?thesis by auto
  next
    case 3
    with "8.IH"(3) [OF r _ 3(2), of pt v] "8.prems" r step(3) [OF 3] show ?thesis by (simp split: if_splits)
  qed
qed auto

section \<open>Properties\<close>

text \<open>
  C10: the verdict of \<^verbatim>\<open>Check\<close> on a partly known row is right for every row that extends it and on
  which the predicate evaluates: \<open>Holds\<close> means TRUE, \<open>Fails\<close> means FALSE or UNKNOWN, and under
  \<open>Depends\<close> the residual predicate evaluates to the same value as the predicate.
\<close>

theorem Check_sound:
  assumes "agrees rel row known" and "evalPredicate rel row p = Inr v"
  shows "case Check p known of
      (_, Holds, _) \<Rightarrow> v = triTrue
    | (_, Fails, None) \<Rightarrow> v \<noteq> triTrue
    | (_, Fails, Some _) \<Rightarrow> True
    | (q, Depends, _) \<Rightarrow> evalPredicate rel row q = Inr v"
proof (cases "partialEval p known")
  case (Inr r)
  from partialEval_sound(1) [OF Inr assms] show ?thesis
    by (auto simp: Check_def Inr evalPartial_def split: if_splits)
qed (simp add: Check_def)

text \<open>The witness: a row of tenant 7 whose status is not known yet.\<close>

definition ex_rel :: relation where
  "ex_rel = \<lparr>r_Cols = [''tenant'', ''status''], r_Rows = [], r_db = Map.empty, r_hidden = 0\<rparr>"

definition ex_pred :: predicate where
  "ex_pred = And [Condition \<lparr>c_Field = ''tenant'', c_Op = OpEq, c_Value = VInt 7\<rparr>,
                  Condition \<lparr>c_Field = ''status'', c_Op = OpNe, c_Value = VStr ''gone''\<rparr>]"

lemma ex_Check:
  "Check ex_pred [''tenant'' \<mapsto> VInt 7] =
     (Condition \<lparr>c_Field = ''status'', c_Op = OpNe, c_Value = VStr ''gone''\<rparr>, Depends, None)"
  by (simp add: Check_def ex_pred_def evalOp_def evalComparison_def compareValues_def three_way_def
      boolTri_def decided_def residual_def partialList_end_def)

theorem Check_sound_witness:
  "evalPredicate ex_rel [VInt 7, VStr ''new'']
     (Condition \<lparr>c_Field = ''status'', c_Op = OpNe, c_Value = VStr ''gone''\<rparr>) = Inr triTrue"
proof -
  have "agrees ex_rel [VInt 7, VStr ''new''] [''tenant'' \<mapsto> VInt 7]"
    by (simp add: agrees_def ex_rel_def colIndex_def cell_def)
  moreover have "evalPredicate ex_rel [VInt 7, VStr ''new''] ex_pred = Inr triTrue"
    by (simp add: ex_pred_def ex_rel_def evalCondition_def colIndex_def cell_def evalOp_def
        evalComparison_def compareValues_def three_way_def boolTri_def)
  ultimately show ?thesis
    using Check_sound [of ex_rel "[VInt 7, VStr ''new'']" "[''tenant'' \<mapsto> VInt 7]" ex_pred triTrue]
    by (simp add: ex_Check)
qed

end
