(* ===== verification/Dialects.thy ===== *)
theory Dialects
  imports Prelude
begin

text \<open>
  The dialects of \<^verbatim>\<open>src/core/dialect\<close> and its implementations in \<^verbatim>\<open>src/x/providers\<close>: the interface
  code generation needs (quoting, placeholders, capabilities) as a record, the capability profile
  (\<^verbatim>\<open>profile.go\<close>), and the PostgreSQL, MySQL and OceanBase dialects. The explanatory reason of a
  claim is text for the console and is left out. The lemmas show that a quoted identifier reads back
  as the identifier whatever it contains, so no name can end its own quotation, and that the
  positional placeholders are distinct.
\<close>

section \<open>Capabilities\<close>

datatype strength = Unsupported | BestEffort | Enforced

datatype evidence = DBVerified | CoreVerified | Declared | External

datatype cap_key =
    Returning | Explain | ExplainAccurate | ExplainAnalyze | TimeoutRead | TimeoutWrite | UnkeyedWrite

record claim =
  cl_Strength :: strength
  cl_Evidence :: evidence

type_synonym profile = "cap_key \<Rightarrow> claim option"

definition profile_Claim :: "profile \<Rightarrow> cap_key \<Rightarrow> claim" where
  "profile_Claim p k =
     (case p k of Some c \<Rightarrow> c | None \<Rightarrow> \<lparr>cl_Strength = Unsupported, cl_Evidence = Declared\<rparr>)"

definition profile_Has :: "profile \<Rightarrow> cap_key \<Rightarrow> bool" where
  "profile_Has p k \<longleftrightarrow> cl_Strength (profile_Claim p k) \<noteq> Unsupported"

definition profile_Enforced :: "profile \<Rightarrow> cap_key \<Rightarrow> bool" where
  "profile_Enforced p k \<longleftrightarrow> cl_Strength (profile_Claim p k) = Enforced"

definition profile_With :: "profile \<Rightarrow> profile \<Rightarrow> profile" where
  "profile_With p others = p ++ others"

lemma profile_Enforced_Has: "profile_Enforced p k \<Longrightarrow> profile_Has p k"
  by (simp add: profile_Enforced_def profile_Has_def)

lemma profile_With_Claim:
  "profile_Claim (profile_With p others) k = (if others k = None then profile_Claim p k else profile_Claim others k)"
  by (auto simp: profile_Claim_def profile_With_def map_add_def split: option.splits)

section \<open>Dialects\<close>

text \<open>
  The interface, and whether the dialect orders NULLs last itself (it implements \<^verbatim>\<open>NullsLast\<close>).
\<close>

record dialect =
  d_Name :: string
  d_QuoteIdent :: "string \<Rightarrow> string"
  d_Placeholder :: "nat \<Rightarrow> string"
  d_Capabilities :: profile
  d_NullsLast :: bool

text \<open>\<^verbatim>\<open>strings.ReplaceAll(name, q, qq)\<close> for a quote character.\<close>

definition double_quote :: "char \<Rightarrow> string \<Rightarrow> string" where
  "double_quote q name = concat (map (\<lambda>c. if c = q then [q, q] else [c]) name)"

definition postgres_QuoteIdent :: "string \<Rightarrow> string" where
  "postgres_QuoteIdent name = [CHR 0x22] @ double_quote (CHR 0x22) name @ [CHR 0x22]"

definition postgres_Placeholder :: "nat \<Rightarrow> string" where
  "postgres_Placeholder i = ''$'' @ show_nat (i + 1)"

definition enforced :: "evidence \<Rightarrow> claim option" where
  "enforced e = Some \<lparr>cl_Strength = Enforced, cl_Evidence = e\<rparr>"

fun postgres_Capabilities :: profile where
  "postgres_Capabilities Returning = enforced CoreVerified"
| "postgres_Capabilities Explain = enforced DBVerified"
| "postgres_Capabilities ExplainAccurate = enforced DBVerified"
| "postgres_Capabilities ExplainAnalyze = enforced DBVerified"
| "postgres_Capabilities _ = None"

definition postgres :: dialect where
  "postgres = \<lparr>d_Name = ''postgres'', d_QuoteIdent = postgres_QuoteIdent,
     d_Placeholder = postgres_Placeholder, d_Capabilities = postgres_Capabilities, d_NullsLast = True\<rparr>"

definition mysql_QuoteIdent :: "string \<Rightarrow> string" where
  "mysql_QuoteIdent name = [CHR 0x60] @ double_quote (CHR 0x60) name @ [CHR 0x60]"

definition mysql_Placeholder :: "nat \<Rightarrow> string" where
  "mysql_Placeholder _ = ''?''"

fun mysql_Capabilities :: profile where
  "mysql_Capabilities Returning = Some \<lparr>cl_Strength = Unsupported, cl_Evidence = CoreVerified\<rparr>"
| "mysql_Capabilities Explain = enforced DBVerified"
| "mysql_Capabilities ExplainAccurate = Some \<lparr>cl_Strength = BestEffort, cl_Evidence = DBVerified\<rparr>"
| "mysql_Capabilities ExplainAnalyze = Some \<lparr>cl_Strength = Unsupported, cl_Evidence = CoreVerified\<rparr>"
| "mysql_Capabilities _ = None"

definition mysql :: dialect where
  "mysql = \<lparr>d_Name = ''mysql'', d_QuoteIdent = mysql_QuoteIdent,
     d_Placeholder = mysql_Placeholder, d_Capabilities = mysql_Capabilities, d_NullsLast = False\<rparr>"

definition oceanbase :: dialect where
  "oceanbase = \<lparr>d_Name = ''oceanbase'', d_QuoteIdent = d_QuoteIdent mysql,
     d_Placeholder = d_Placeholder mysql, d_Capabilities = d_Capabilities mysql, d_NullsLast = False\<rparr>"

section \<open>Quoting\<close>

text \<open>
  How a database reads a quoted identifier: after the opening quote, a doubled quote is one quote
  of the name and a single one ends it.
\<close>

fun scan_body :: "char \<Rightarrow> string \<Rightarrow> (string \<times> string) option" where
  "scan_body q [] = None"
| "scan_body q (c # cs) =
     (if c \<noteq> q then map_option (apfst ((#) c)) (scan_body q cs)
      else (case cs of
              c' # cs' \<Rightarrow> if c' = q then map_option (apfst ((#) q)) (scan_body q cs') else Some ([], cs)
            | [] \<Rightarrow> Some ([], [])))"

fun scan_ident :: "char \<Rightarrow> string \<Rightarrow> (string \<times> string) option" where
  "scan_ident q [] = None"
| "scan_ident q (c # cs) = (if c = q then scan_body q cs else None)"

lemma double_quote_simps [simp]:
  "double_quote q [] = []"
  "double_quote q (c # cs) = (if c = q then [q, q] else [c]) @ double_quote q cs"
  by (simp_all add: double_quote_def)

lemma scan_body_double_quote:
  assumes "rest = [] \<or> hd rest \<noteq> q"
  shows "scan_body q (double_quote q name @ q # rest) = Some (name, rest)"
proof (induction name)
  case Nil
  then show ?case using assms by (cases rest) auto
qed auto

text \<open>
  The contract of a dialect: some character quotes identifiers so that they read back exactly.
\<close>

locale quoting_dialect =
  fixes d :: dialect and q :: char
  assumes quote_shape: "d_QuoteIdent d name = [q] @ double_quote q name @ [q]"
begin

lemma quote_reads_back:
  "rest = [] \<or> hd rest \<noteq> q \<Longrightarrow> scan_ident q (d_QuoteIdent d name @ rest) = Some (name, rest)"
  by (simp add: quote_shape scan_body_double_quote)

lemma quote_inj: "d_QuoteIdent d m = d_QuoteIdent d n \<longleftrightarrow> m = n"
  by (metis append_Nil2 option.inject prod.inject quote_reads_back)

end

interpretation pg: quoting_dialect postgres "CHR 0x22"
  by unfold_locales (simp add: postgres_def postgres_QuoteIdent_def)

interpretation my: quoting_dialect mysql "CHR 0x60"
  by unfold_locales (simp add: mysql_def mysql_QuoteIdent_def)

interpretation ob: quoting_dialect oceanbase "CHR 0x60"
  by unfold_locales (simp add: oceanbase_def mysql_def mysql_QuoteIdent_def)

lemma postgres_Placeholder_inj: "postgres_Placeholder i = postgres_Placeholder j \<longleftrightarrow> i = j"
  by (simp add: postgres_Placeholder_def show_nat_inj)

section \<open>Properties\<close>

text \<open>
  Whatever an identifier contains, a database that reads the quoted identifier reads exactly the
  identifier and stops at its end, in every dialect: a name cannot break out of its quotation.
\<close>

theorem QuoteIdent_contained:
  assumes "rest = [] \<or> hd rest \<notin> {CHR 0x22, CHR 0x60}"
  shows "scan_ident (CHR 0x22) (d_QuoteIdent postgres name @ rest) = Some (name, rest) \<and>
    scan_ident (CHR 0x60) (d_QuoteIdent mysql name @ rest) = Some (name, rest) \<and>
    scan_ident (CHR 0x60) (d_QuoteIdent oceanbase name @ rest) = Some (name, rest)"
  using assms pg.quote_reads_back [of rest name] my.quote_reads_back [of rest name]
    ob.quote_reads_back [of rest name] by auto

theorem QuoteIdent_contained_witness:
  "scan_ident (CHR 0x60) (d_QuoteIdent mysql [CHR ''a'', CHR 0x60, CHR '';''] @ '' WHERE'') =
     Some ([CHR ''a'', CHR 0x60, CHR '';''], '' WHERE'')"
  using QuoteIdent_contained [of "'' WHERE''" "[CHR ''a'', CHR 0x60, CHR '';'']"] by simp

end
