(* ===== verification/Codegen.thy ===== *)
theory Codegen
  imports Relalg Dialects
begin

text \<open>
  The SQL generator of \<^verbatim>\<open>src/core/codegen\<close>: the builder and the compiled statement
  (\<^verbatim>\<open>codegen.go\<close>), the flattening of a read chain into one SELECT and the rendering of every clause
  (\<^verbatim>\<open>render.go\<close>), joins and EXISTS (\<^verbatim>\<open>join.go\<close>). The builder is passed as state; what the source
  writes to \<^verbatim>\<open>b.sql\<close> is appended to \<open>b_sql\<close>. A nil map is the empty map.
\<close>

datatype codegen_error =
    ErrUnsupportedExpr
  | ErrUnboundedWrite
  | ErrINNil
  | ErrINType
  | ErrEmptyIN
  | ErrInsertShape
  | ErrInsertTuple
  | ErrLimitShape
  | CgRelalg relalg_error

datatype kind = KindUnset | KindRead | KindAggregate | KindWrite | KindCall

record compiled =
  co_Expr :: expr
  co_Kind :: kind
  co_SQL :: string
  co_Args :: "val list"
  co_IsKeyPoint :: bool
  co_PrimaryKey :: "string list"
  co_ReadOnly :: bool
  co_capBase :: string
  co_capLimit :: int
  co_capOffset :: int

record builder =
  b_dialect :: dialect
  b_sql :: string
  b_args :: "val list"
  b_ph :: nat
  b_readOnly :: bool
  b_returningCols :: "string list"
  b_maxINCardinality :: int
  b_capBase :: string
  b_capLimit :: int
  b_capOffset :: int
  b_outputs :: "string \<Rightarrow> string option"
  b_root :: string
  b_joins :: "string set"
  b_scope :: string
  b_exists :: nat

section \<open>Writing\<close>

definition emit :: "string \<Rightarrow> builder \<Rightarrow> builder" where
  "emit s b = b\<lparr>b_sql := b_sql b @ s\<rparr>"

definition placeholder :: "builder \<Rightarrow> string \<times> builder" where
  "placeholder b = (d_Placeholder (b_dialect b) (b_ph b), b\<lparr>b_ph := b_ph b + 1\<rparr>)"

text \<open>\<open>bind_arg\<close> writes a placeholder and appends the value it stands for.\<close>

definition bind_arg :: "val \<Rightarrow> builder \<Rightarrow> builder" where
  "bind_arg v b = (let (s, b') = placeholder b in let b'' = emit s b' in b''\<lparr>b_args := b_args b'' @ [v]\<rparr>)"

text \<open>The loop over values that separates the placeholders by a comma.\<close>

fun bind_args :: "bool \<Rightarrow> val list \<Rightarrow> builder \<Rightarrow> builder" where
  "bind_args first [] b = b"
| "bind_args first (v # vs) b = bind_args False vs (bind_arg v (if first then b else emit '', '' b))"

definition qident :: "builder \<Rightarrow> string \<Rightarrow> string" where
  "qident b name = d_QuoteIdent (b_dialect b) name"

definition qtable :: "builder \<Rightarrow> relation_ref \<Rightarrow> string" where
  "qtable b r =
     (if rr_Schema r \<noteq> [] then qident b (rr_Schema r) @ ''.'' @ qident b (rr_Name r)
      else qident b (rr_Name r))"

definition col :: "builder \<Rightarrow> string \<Rightarrow> string" where
  "col b name =
     (if b_scope b \<noteq> [] then qident b (b_scope b) @ ''.'' @ qident b name
      else (case cut (CHR ''.'') name of
              Some (alias, column) \<Rightarrow>
                if alias \<in> b_joins b then qident b alias @ ''.'' @ qident b column
                else if b_root b \<noteq> [] then qident b (b_root b) @ ''.'' @ qident b name
                else qident b name
            | None \<Rightarrow>
                if b_root b \<noteq> [] then qident b (b_root b) @ ''.'' @ qident b name
                else qident b name))"

definition column :: "builder \<Rightarrow> string \<Rightarrow> string" where
  "column b name =
     (case b_outputs b name of
        Some e \<Rightarrow> if b_scope b = [] then e else col b name
      | None \<Rightarrow> col b name)"

fun opSQL :: "op \<Rightarrow> string" where
  "opSQL OpEq = ''=''"
| "opSQL OpNe = ''<>''"
| "opSQL OpGt = ''>''"
| "opSQL OpGte = ''>=''"
| "opSQL OpLt = ''<''"
| "opSQL OpLte = ''<=''"
| "opSQL OpLike = ''LIKE''"
| "opSQL _ = []"

definition toValues :: "val \<Rightarrow> codegen_error + val list" where
  "toValues v = (case v of VList vals \<Rightarrow> Inr vals | VNull \<Rightarrow> Inl ErrINNil | _ \<Rightarrow> Inl ErrINType)"

section \<open>Predicates\<close>

definition renderCondition :: "condition \<Rightarrow> builder \<Rightarrow> codegen_error + builder" where
  "renderCondition c b0 =
     (let b = emit (column b0 (c_Field c)) b0 in
      case c_Op c of
        OpIsNull \<Rightarrow> Inr (emit '' IS NULL'' b)
      | OpIsNotNull \<Rightarrow> Inr (emit '' IS NOT NULL'' b)
      | _ \<Rightarrow>
        (if c_Op c = OpIn \<or> c_Op c = OpNotIn then
           bindR (toValues (c_Value c)) (\<lambda>vals.
             if vals = [] then Inl ErrEmptyIN
             else if int (length vals) > b_maxINCardinality b then Inl (CgRelalg ErrINCardinality)
             else
               let b1 = (if c_Op c = OpNotIn then emit '' NOT'' b else b);
                   b2 = bind_args True vals (emit '' IN ('' b1)
               in Inr (emit '')'' b2))
         else Inr (bind_arg (c_Value c) (emit '' '' (emit (opSQL (c_Op c)) (emit '' '' b))))))"

text \<open>
  \<open>renderList\<close> is the loop over the operands of an AND or an OR, \<open>sep\<close> the text between them.
  \<open>renderOn\<close> and \<open>renderExists\<close> recurse into the predicate of the relation they render.
\<close>

definition onText :: "builder \<Rightarrow> string \<Rightarrow> join_pair list \<Rightarrow> string" where
  "onText b alias on =
     join_strs '' AND '' (map (\<lambda>p. qident b alias @ ''.'' @ qident b (jp_Right p) @ '' = '' @ col b (jp_Left p)) on)"

function (sequential) renderPredicate :: "predicate \<Rightarrow> builder \<Rightarrow> codegen_error + builder"
  and renderList :: "string \<Rightarrow> bool \<Rightarrow> predicate list \<Rightarrow> builder \<Rightarrow> codegen_error + builder"
  and renderOn :: "string \<Rightarrow> join_pair list \<Rightarrow> predicate \<Rightarrow> builder \<Rightarrow> codegen_error + builder"
  and renderExists :: "relation_ref \<Rightarrow> join_pair list \<Rightarrow> predicate \<Rightarrow> builder \<Rightarrow> codegen_error + builder" where
  "renderPredicate NilPred b = Inr b"
| "renderPredicate (Condition c) b = renderCondition c b"
| "renderPredicate (And ps) b =
     bindR (renderList '' AND '' True ps (emit ''('' b)) (\<lambda>b'. Inr (emit '')'' b'))"
| "renderPredicate (Or ps) b =
     bindR (renderList '' OR '' True ps (emit ''('' b)) (\<lambda>b'. Inr (emit '')'' b'))"
| "renderPredicate (NotP p) b = renderPredicate p (emit ''NOT '' b)"
| "renderPredicate (Exists r on p) b = renderExists r on p b"
| "renderList sep first [] b = Inr b"
| "renderList sep first (p # ps) b =
     bindR (renderPredicate p (if first then b else emit sep b)) (renderList sep False ps)"
| "renderOn alias on p b0 =
     (let b = emit (onText b0 alias on) b0 in
      if p = NilPred then Inr b
      else bindR (renderPredicate p ((emit '' AND '' b)\<lparr>b_scope := alias\<rparr>))
             (\<lambda>b'. Inr (b'\<lparr>b_scope := b_scope b\<rparr>)))"
| "renderExists r on p b0 =
     (if b_scope b0 \<noteq> [] then Inl ErrUnsupportedExpr
      else
        let b = b0\<lparr>b_exists := b_exists b0 + 1\<rparr>;
            alias = ''x'' @ show_nat (b_exists b);
            b1 = emit (''EXISTS (SELECT 1 FROM '' @ qtable b r @ '' AS '' @ qident b alias @ '' WHERE '') b
        in bindR (renderOn alias on p b1) (\<lambda>b2. Inr (emit '')'' b2)))"
  by pat_completeness auto

termination
  by (relation "measure (\<lambda>x. case x of
        Inl (Inl (p, _)) \<Rightarrow> 3 * size p
      | Inl (Inr (_, _, ps, _)) \<Rightarrow> 3 * size_list size ps
      | Inr (Inl (_, _, p, _)) \<Rightarrow> 3 * size p + 1
      | Inr (Inr (_, _, p, _)) \<Rightarrow> 3 * size p + 2)") auto

definition cg_validate :: "predicate \<Rightarrow> builder \<Rightarrow> codegen_error + unit" where
  "cg_validate p b =
     (case ValidatePredicateWithMaxINCardinality p (b_maxINCardinality b) of
        Inl e \<Rightarrow> Inl (CgRelalg e)
      | Inr u \<Rightarrow> Inr u)"

section \<open>Flattening a read chain\<close>

record selectCtx =
  s_from :: string
  s_scanAlias :: string
  s_joins :: "(relation_ref \<times> string \<times> join_pair list \<times> predicate) list"
  s_wherePreds :: "predicate list"
  s_cols :: "project_item list"
  s_order :: "order_term list"
  s_groupBy :: "string list"
  s_aggregates :: "agg_call list"
  s_having :: predicate
  s_limit :: int
  s_offset :: int
  s_hasLimit :: bool
  s_distinct :: bool
  s_rank :: nat

definition emptyCtx :: selectCtx where
  "emptyCtx = \<lparr>s_from = [], s_scanAlias = [], s_joins = [], s_wherePreds = [], s_cols = [], s_order = [],
     s_groupBy = [], s_aggregates = [], s_having = NilPred, s_limit = - 1, s_offset = 0, s_hasLimit = False,
     s_distinct = False, s_rank = 0\<rparr>"

definition rootAlias :: string where
  "rootAlias = ''_''"

fun rankOf :: "expr \<Rightarrow> nat \<times> bool" where
  "rankOf (Join e r a on p) = (1, True)"
| "rankOf (Select e p) = (2, True)"
| "rankOf (Aggregate e gs as) = (3, False)"
| "rankOf (Having e p) = (4, False)"
| "rankOf (Sort e ts) = (5, False)"
| "rankOf (Project e items) = (6, False)"
| "rankOf (Distinct e) = (7, False)"
| "rankOf (Limit e n off) = (8, False)"
| "rankOf _ = (0, False)"

definition checkLimit :: "int \<Rightarrow> int \<Rightarrow> codegen_error + unit" where
  "checkLimit cnt offset = (if cnt < 1 \<or> offset < 0 then Inl ErrLimitShape else Inr ())"

definition is_Scan :: "expr \<Rightarrow> bool" where
  "is_Scan e = (case e of Scan _ _ \<Rightarrow> True | _ \<Rightarrow> False)"

definition is_Aggregate :: "expr \<Rightarrow> bool" where
  "is_Aggregate e = (case e of Aggregate _ _ _ \<Rightarrow> True | _ \<Rightarrow> False)"

text \<open>
  The recursion carries the builder, whose join aliases \<^verbatim>\<open>flattenJoin\<close> adds to, and the context.
  \<open>checkRank\<close> is the end of \<^verbatim>\<open>flatten\<close>.
\<close>

definition checkRank :: "expr \<Rightarrow> builder \<times> selectCtx \<Rightarrow> codegen_error + builder \<times> selectCtx" where
  "checkRank e st =
     (let (b, ctx) = st; (rank, repeats) = rankOf e in
      if \<not> is_Scan e \<and> (s_rank ctx > rank \<or> s_rank ctx = rank \<and> \<not> repeats) then Inl ErrUnsupportedExpr
      else Inr (b, ctx\<lparr>s_rank := rank\<rparr>))"

function (sequential) flatten :: "expr \<Rightarrow> builder \<times> selectCtx \<Rightarrow> codegen_error + builder \<times> selectCtx"
  and flattenNode :: "expr \<Rightarrow> builder \<times> selectCtx \<Rightarrow> codegen_error + builder \<times> selectCtx"
  and flattenHaving :: "expr \<Rightarrow> predicate \<Rightarrow> builder \<times> selectCtx \<Rightarrow> codegen_error + builder \<times> selectCtx"
  and flattenJoin ::
    "expr \<Rightarrow> relation_ref \<times> string \<times> join_pair list \<times> predicate \<Rightarrow> builder \<times> selectCtx \<Rightarrow>
     codegen_error + builder \<times> selectCtx" where
  "flatten e st =
     (if (case e of Select _ p \<Rightarrow> p = NilPred | _ \<Rightarrow> False) then Inl ErrUnsupportedExpr
      else bindR (flattenNode e st) (checkRank e))"
| "flattenNode (Scan r a) (b, ctx) = Inr (b, ctx\<lparr>s_from := qtable b r, s_scanAlias := a\<rparr>)"
| "flattenNode (Select e p) st =
     bindR (flatten e st) (\<lambda>(b, ctx). Inr (b, ctx\<lparr>s_wherePreds := s_wherePreds ctx @ [p]\<rparr>))"
| "flattenNode (Project e items) st =
     bindR (flatten e st) (\<lambda>(b, ctx).
       if s_aggregates ctx \<noteq> [] \<or> s_groupBy ctx \<noteq> [] then Inl ErrUnsupportedExpr
       else Inr (b, ctx\<lparr>s_cols := items\<rparr>))"
| "flattenNode (Sort e ts) st = bindR (flatten e st) (\<lambda>(b, ctx). Inr (b, ctx\<lparr>s_order := ts\<rparr>))"
| "flattenNode (Limit e cnt offset) st =
     bindR (checkLimit cnt offset) (\<lambda>_.
     bindR (flatten e st) (\<lambda>(b, ctx).
       Inr (b, ctx\<lparr>s_limit := cnt, s_offset := offset, s_hasLimit := True\<rparr>)))"
| "flattenNode (Distinct e) st = bindR (flatten e st) (\<lambda>(b, ctx). Inr (b, ctx\<lparr>s_distinct := True\<rparr>))"
| "flattenNode (Aggregate e gs as) st =
     bindR (flatten e st) (\<lambda>(b, ctx). Inr (b, ctx\<lparr>s_groupBy := gs, s_aggregates := as\<rparr>))"
| "flattenNode (Having e p) st = flattenHaving e p st"
| "flattenNode (Join e r a on p) st = flattenJoin e (r, a, on, p) st"
| "flattenNode _ st = Inl ErrUnsupportedExpr"
| "flattenHaving e p st =
     (if \<not> is_Aggregate e \<or> p = NilPred then Inl ErrUnsupportedExpr
      else bindR (flatten e st) (\<lambda>(b, ctx). Inr (b, ctx\<lparr>s_having := p\<rparr>)))"
| "flattenJoin e (r, a, on, p) st =
     (if a = [] \<or> a = rootAlias \<or> on = [] then Inl ErrUnsupportedExpr
      else bindR (flatten e st) (\<lambda>(b, ctx).
        if a \<in> b_joins b then Inl ErrUnsupportedExpr
        else Inr (b\<lparr>b_joins := insert a (b_joins b)\<rparr>, ctx\<lparr>s_joins := s_joins ctx @ [(r, a, on, p)]\<rparr>)))"
  by pat_completeness auto

termination
  by (relation "measure (\<lambda>x. case x of
        Inl (Inl (e, _)) \<Rightarrow> 3 * size e + 2
      | Inl (Inr (e, _)) \<Rightarrow> 3 * size e + 1
      | Inr (Inl (e, _, _)) \<Rightarrow> 3 * size e + 3
      | Inr (Inr (e, _, _)) \<Rightarrow> 3 * size e + 3)") auto

declare flatten.simps [simp del]

section \<open>The clauses of a SELECT\<close>

definition qualify :: "selectCtx \<Rightarrow> builder \<Rightarrow> builder" where
  "qualify ctx b =
     (let nested = s_joins ctx \<noteq> [] \<or> HasExists (s_having ctx) \<or> list_ex HasExists (s_wherePreds ctx) in
      if \<not> nested then b
      else if s_scanAlias ctx \<noteq> [] then b\<lparr>b_root := s_scanAlias ctx\<rparr>
      else b\<lparr>b_root := rootAlias\<rparr>)"

definition limitClause :: "int \<Rightarrow> int \<Rightarrow> string" where
  "limitClause limit offset =
     (if limit < 1 then []
      else '' LIMIT '' @ show_int limit @ (if offset > 0 then '' OFFSET '' @ show_int offset else []))"

definition renderCols :: "builder \<Rightarrow> project_item list \<Rightarrow> string" where
  "renderCols b items =
     join_strs '', '' (map (\<lambda>it. col b (pi_Field it) @
       (if pi_Alias it \<noteq> [] then '' AS '' @ qident b (pi_Alias it) else [])) items)"

definition renderFieldList :: "builder \<Rightarrow> string list \<Rightarrow> string" where
  "renderFieldList b fs = join_strs '', '' (map (qident b) fs)"

definition renderColumns :: "builder \<Rightarrow> string list \<Rightarrow> string" where
  "renderColumns b fs = join_strs '', '' (map (col b) fs)"

definition cg_aggregateCall :: "builder \<Rightarrow> agg_call \<Rightarrow> codegen_error + string" where
  "cg_aggregateCall b a =
     (if \<not> agg_Valid (ag_Func a) then Inl (CgRelalg ErrInvalidAggFunc)
      else if ag_Field a = [] \<and> ag_Func a \<noteq> AggCount then Inl (CgRelalg ErrInvalidAggFunc)
      else
        let field = (if ag_Field a \<noteq> [] then col b (ag_Field a) else ''*'');
            field' = (if ag_Distinct a then ''DISTINCT '' @ field else field)
        in Inr (to_upper (agg_string (ag_Func a)) @ ''('' @ field' @ '')''))"

definition renderAggregateCols :: "builder \<Rightarrow> selectCtx \<Rightarrow> codegen_error + string" where
  "renderAggregateCols b ctx =
     bindR (mapR (cg_aggregateCall b) (s_aggregates ctx)) (\<lambda>calls.
       Inr (join_strs '', '' (map (col b) (s_groupBy ctx) @ calls)))"

definition writeSelectClause :: "selectCtx \<Rightarrow> builder \<Rightarrow> codegen_error + builder" where
  "writeSelectClause ctx b0 =
     (let b1 = emit ''SELECT '' b0; b = (if s_distinct ctx then emit ''DISTINCT '' b1 else b1) in
      if s_aggregates ctx \<noteq> [] \<or> s_groupBy ctx \<noteq> [] then
        bindR (renderAggregateCols b ctx) (\<lambda>cols. Inr (emit cols b))
      else if s_cols ctx \<noteq> [] then Inr (emit (renderCols b (s_cols ctx)) b)
      else if s_joins ctx \<noteq> [] then Inr (emit (qident b (b_root b) @ ''.*'') b)
      else Inr (emit ''*'' b))"

definition renderJoin ::
  "relation_ref \<times> string \<times> join_pair list \<times> predicate \<Rightarrow> builder \<Rightarrow> codegen_error + builder" where
  "renderJoin j b =
     (let (r, a, on, p) = j in
      bindR (cg_validate p b) (\<lambda>_.
        renderOn a on p (emit ('' LEFT JOIN '' @ qtable b r @ '' AS '' @ qident b a @ '' ON '') b)))"

definition writeFromClause :: "selectCtx \<Rightarrow> builder \<Rightarrow> codegen_error + builder" where
  "writeFromClause ctx b0 =
     (let b1 = emit ('' FROM '' @ s_from ctx) b0;
          alias = (if s_scanAlias ctx \<noteq> [] then s_scanAlias ctx else b_root b1);
          b2 = (if alias \<noteq> [] then emit ('' AS '' @ qident b1 alias) b1 else b1)
      in foldR renderJoin (s_joins ctx) b2)"

definition writeWhereClause :: "selectCtx \<Rightarrow> builder \<Rightarrow> codegen_error + builder" where
  "writeWhereClause ctx b =
     (case s_wherePreds ctx of
        [] \<Rightarrow> Inr b
      | [p] \<Rightarrow> renderPredicate p (emit '' WHERE '' b)
      | ps \<Rightarrow> renderPredicate (And ps) (emit '' WHERE '' b))"

definition writeGroupByClause :: "selectCtx \<Rightarrow> builder \<Rightarrow> builder" where
  "writeGroupByClause ctx b =
     (if s_groupBy ctx = [] then b else emit (renderColumns b (s_groupBy ctx)) (emit '' GROUP BY '' b))"

definition writeHavingClause :: "selectCtx \<Rightarrow> builder \<Rightarrow> codegen_error + builder" where
  "writeHavingClause ctx b =
     (if s_having ctx = NilPred then Inr b else renderPredicate (s_having ctx) (emit '' HAVING '' b))"

definition orderTermText :: "builder \<Rightarrow> order_term \<Rightarrow> string" where
  "orderTermText b t =
     (let c = column b (ot_Field t); nullsLast = d_NullsLast (b_dialect b) in
      (if ot_Nullable t \<and> \<not> nullsLast then ''CASE WHEN '' @ c @ '' IS NULL THEN 1 ELSE 0 END, '' else []) @
      c @ (if equal_fold (ot_Dir t) ''desc'' then '' DESC'' else '' ASC'') @
      (if ot_Nullable t \<and> nullsLast then '' NULLS LAST'' else []))"

definition writeOrderByClause :: "selectCtx \<Rightarrow> builder \<Rightarrow> builder" where
  "writeOrderByClause ctx b =
     (if s_order ctx = [] then b
      else emit ('' ORDER BY '' @ join_strs '', '' (map (orderTermText b) (s_order ctx))) b)"

text \<open>\<open>outputs_of\<close> is the loop of \<^verbatim>\<open>withOutputs\<close>: the named calls, a later one replacing an earlier.\<close>

definition outputs_of :: "builder \<Rightarrow> agg_call list \<Rightarrow> codegen_error + (string \<Rightarrow> string option)" where
  "outputs_of b as =
     foldR (\<lambda>a m. if ag_Name a = [] then Inr m
       else bindR (cg_aggregateCall b a) (\<lambda>e. Inr (m(ag_Name a \<mapsto> e)))) as Map.empty"

definition withOutputs ::
  "selectCtx \<Rightarrow> (builder \<Rightarrow> codegen_error + builder) \<Rightarrow> builder \<Rightarrow> codegen_error + builder" where
  "withOutputs ctx fn b =
     (if s_aggregates ctx = [] then fn b
      else bindR (outputs_of b (s_aggregates ctx)) (\<lambda>m.
        bindR (fn (b\<lparr>b_outputs := m\<rparr>)) (\<lambda>b'. Inr (b'\<lparr>b_outputs := Map.empty\<rparr>))))"

text \<open>The end of \<^verbatim>\<open>renderSelect\<close>: the SQL so far is what a cap is added to, and the LIMIT clause is last.\<close>

definition writeLimit :: "selectCtx \<Rightarrow> builder \<Rightarrow> builder" where
  "writeLimit ctx b =
     (let b1 = b\<lparr>b_capBase := b_sql b\<rparr>;
          b2 = (if s_hasLimit ctx then b1\<lparr>b_capLimit := s_limit ctx, b_capOffset := s_offset ctx\<rparr> else b1)
      in emit (limitClause (b_capLimit b2) (b_capOffset b2)) b2)"

definition renderSelect :: "expr \<Rightarrow> builder \<Rightarrow> codegen_error + builder" where
  "renderSelect e b0 =
     bindR (flatten e (b0, emptyCtx)) (\<lambda>(b1, ctx).
     bindR (mapR (\<lambda>p. cg_validate p b1) (s_wherePreds ctx @ [s_having ctx])) (\<lambda>_.
     bindR (writeSelectClause ctx (qualify ctx b1)) (\<lambda>b2.
     bindR (writeFromClause ctx b2) (\<lambda>b3.
     bindR (writeWhereClause ctx b3) (\<lambda>b4.
     bindR (withOutputs ctx (\<lambda>b. bindR (writeHavingClause ctx b) (\<lambda>b'. Inr (writeOrderByClause ctx b')))
             (writeGroupByClause ctx b4)) (\<lambda>b5.
       Inr (writeLimit ctx b5)))))))"

section \<open>Writes and calls\<close>

fun bind_tuples :: "bool \<Rightarrow> val list list \<Rightarrow> builder \<Rightarrow> builder" where
  "bind_tuples first [] b = b"
| "bind_tuples first (tup # tups) b =
     bind_tuples False tups
       (emit '')'' (bind_args True tup (emit ''('' (if first then b else emit '', '' b))))"

definition writeReturning :: "builder \<Rightarrow> builder" where
  "writeReturning b =
     (if b_returningCols b \<noteq> [] then emit (renderFieldList b (b_returningCols b)) (emit '' RETURNING '' b) else b)"

definition renderInsert :: "relation_ref \<Rightarrow> string list \<Rightarrow> val list list \<Rightarrow> builder \<Rightarrow> codegen_error + builder" where
  "renderInsert target columns tuples b0 =
     (if columns = [] \<or> tuples = [] then Inl ErrInsertShape
      else if \<not> list_all (\<lambda>tup. length tup = length columns) tuples then Inl ErrInsertTuple
      else
        let b1 = emit (qtable b0 target) (emit ''INSERT INTO '' b0);
            b2 = (if columns \<noteq> [] then emit '')'' (emit (renderFieldList b1 columns) (emit '' ('' b1)) else b1);
            b3 = bind_tuples True tuples (emit '' VALUES '' b2)
        in Inr (writeReturning b3))"

definition renderWhere :: "predicate \<Rightarrow> builder \<Rightarrow> codegen_error + builder" where
  "renderWhere p b = bindR (cg_validate p b) (\<lambda>_. renderPredicate p (emit '' WHERE '' b))"

fun bind_sets :: "bool \<Rightarrow> set_item list \<Rightarrow> builder \<Rightarrow> builder" where
  "bind_sets first [] b = b"
| "bind_sets first (s # ss) b =
     (let b1 = (if first then b else emit '', '' b) in
      bind_sets False ss (bind_arg (si_Value s) (emit '' = '' (emit (qident b1 (si_Field s)) b1))))"

definition renderUpdate :: "relation_ref \<Rightarrow> predicate \<Rightarrow> set_item list \<Rightarrow> builder \<Rightarrow> codegen_error + builder" where
  "renderUpdate target p items b =
     (if items = [] \<or> p = NilPred then Inl ErrUnboundedWrite
      else renderWhere p
        (bind_sets True items (emit '' SET '' (emit (qtable b target) (emit ''UPDATE '' b)))))"

definition renderDelete :: "relation_ref \<Rightarrow> predicate \<Rightarrow> builder \<Rightarrow> codegen_error + builder" where
  "renderDelete target p b =
     (if p = NilPred then Inl ErrUnboundedWrite
      else renderWhere p (emit (qtable b target) (emit ''DELETE FROM '' b)))"

definition renderCall :: "relation_ref \<Rightarrow> val list \<Rightarrow> builder \<Rightarrow> codegen_error + builder" where
  "renderCall proc args b =
     Inr (emit '')'' (bind_args True args (emit ''('' (emit (qtable b proc) (emit ''CALL '' b)))))"

fun render :: "expr \<Rightarrow> builder \<Rightarrow> codegen_error + builder" where
  "render (Insert t cs tups) b = renderInsert t cs tups b"
| "render (Update t p items) b = renderUpdate t p items b"
| "render (Delete t p) b = renderDelete t p b"
| "render (Call proc args) b = renderCall proc args b"
| "render NilExpr b = Inl ErrUnsupportedExpr"
| "render e b = renderSelect e (b\<lparr>b_readOnly := True\<rparr>)"

section \<open>Compilation\<close>

record compileConfig =
  cc_pkCols :: "string list"
  cc_identityKeys :: "string list list"
  cc_identitySet :: bool
  cc_maxINCardinality :: int

definition WithPrimaryKey :: "string list \<Rightarrow> compileConfig \<Rightarrow> compileConfig" where
  "WithPrimaryKey cols c = c\<lparr>cc_pkCols := cols\<rparr>"

definition WithIdentityKeys :: "string list list \<Rightarrow> compileConfig \<Rightarrow> compileConfig" where
  "WithIdentityKeys keys c = c\<lparr>cc_identityKeys := keys, cc_identitySet := True\<rparr>"

definition WithMaxINCardinality :: "int \<Rightarrow> compileConfig \<Rightarrow> compileConfig" where
  "WithMaxINCardinality m c = c\<lparr>cc_maxINCardinality := m\<rparr>"

text \<open>A nil option is \<open>None\<close>.\<close>

definition applyOptions :: "(compileConfig \<Rightarrow> compileConfig) option list \<Rightarrow> compileConfig" where
  "applyOptions opts =
     fold (\<lambda>opt c. case opt of None \<Rightarrow> c | Some f \<Rightarrow> f c) opts
       \<lparr>cc_pkCols = [], cc_identityKeys = [], cc_identitySet = False,
        cc_maxINCardinality = DefaultMaxINCardinality\<rparr>"

function kindOf_loop :: "kind \<Rightarrow> expr \<Rightarrow> kind \<times> expr" where
  "kindOf_loop k e =
     (let k' = (if is_Aggregate e then KindAggregate else k) in
      case Input e of None \<Rightarrow> (k', e) | Some e' \<Rightarrow> kindOf_loop k' e')"
  by auto

termination
  by (relation "measure (\<lambda>(k, e). size e)") (auto dest: Input_size)

declare kindOf_loop.simps [simp del]

definition kindOf :: "expr \<Rightarrow> kind" where
  "kindOf e =
     (case e of
        Insert _ _ _ \<Rightarrow> KindWrite
      | Update _ _ _ \<Rightarrow> KindWrite
      | Delete _ _ \<Rightarrow> KindWrite
      | Call _ _ \<Rightarrow> KindCall
      | _ \<Rightarrow> (let (k, base) = kindOf_loop KindRead e in if \<not> is_Scan base then KindWrite else k))"

text \<open>The predicates \<^verbatim>\<open>PredicateOf\<close> collects, outermost first.\<close>

function PredicateOf_loop :: "expr \<Rightarrow> predicate list" where
  "PredicateOf_loop e =
     (case e of Select _ p \<Rightarrow> [p] | Update _ p _ \<Rightarrow> [p] | Delete _ p \<Rightarrow> [p] | _ \<Rightarrow> []) @
     (case Input e of None \<Rightarrow> [] | Some e' \<Rightarrow> PredicateOf_loop e')"
  by auto

termination
  by (relation "measure size") (auto dest: Input_size)

declare PredicateOf_loop.simps [simp del]

definition PredicateOf :: "expr \<Rightarrow> predicate" where
  "PredicateOf e =
     (case PredicateOf_loop e of
        [] \<Rightarrow> NilPred
      | [p] \<Rightarrow> p
      | ps \<Rightarrow> And (rev ps))"

fun flattenAnd :: "predicate \<Rightarrow> condition list option"
  and flattenAnd_loop :: "predicate list \<Rightarrow> condition list option" where
  "flattenAnd NilPred = Some []"
| "flattenAnd (Condition c) = Some [c]"
| "flattenAnd (And ps) = flattenAnd_loop ps"
| "flattenAnd _ = None"
| "flattenAnd_loop [] = Some []"
| "flattenAnd_loop (p # ps) =
     (case flattenAnd p of
        None \<Rightarrow> None
      | Some cs \<Rightarrow> (case flattenAnd_loop ps of None \<Rightarrow> None | Some out \<Rightarrow> Some (cs @ out)))"

text \<open>The loop of \<^verbatim>\<open>isKeyPoint\<close> over the conditions: \<open>None\<close> when a key column is not matched by equality.\<close>

fun keyPoint_seen :: "string set \<Rightarrow> condition list \<Rightarrow> string set \<Rightarrow> string set option" where
  "keyPoint_seen pk [] seen = Some seen"
| "keyPoint_seen pk (c # cs) seen =
     (if c_Field c \<notin> pk then keyPoint_seen pk cs seen
      else if c_Op c \<noteq> OpEq then None
      else keyPoint_seen pk cs (insert (c_Field c) seen))"

definition isKeyPoint :: "predicate \<Rightarrow> string list \<Rightarrow> bool" where
  "isKeyPoint p pkCols =
     (if pkCols = [] then False
      else (case flattenAnd p of
              None \<Rightarrow> False
            | Some conds \<Rightarrow>
                if length conds < length pkCols then False
                else (case keyPoint_seen (set pkCols) conds {} of
                        None \<Rightarrow> False
                      | Some seen \<Rightarrow> card seen = length pkCols)))"

definition new_builder :: "dialect \<Rightarrow> compileConfig \<Rightarrow> builder" where
  "new_builder d cfg =
     \<lparr>b_dialect = d, b_sql = [], b_args = [], b_ph = 0, b_readOnly = False,
      b_returningCols =
        (if profile_Enforced (d_Capabilities d) Returning \<and> cc_pkCols cfg \<noteq> [] then cc_pkCols cfg else []),
      b_maxINCardinality = cc_maxINCardinality cfg, b_capBase = [], b_capLimit = 0, b_capOffset = 0,
      b_outputs = Map.empty, b_root = [], b_joins = {}, b_scope = [], b_exists = 0\<rparr>"

definition Compile ::
  "dialect \<Rightarrow> expr \<Rightarrow> (compileConfig \<Rightarrow> compileConfig) option list \<Rightarrow> codegen_error + compiled" where
  "Compile d e opts =
     (let cfg = applyOptions opts in
      if cc_maxINCardinality cfg \<le> 0 then Inl (CgRelalg ErrINCardinality)
      else bindR (render e (new_builder d cfg)) (\<lambda>b.
        let keys = (if \<not> cc_identitySet cfg \<and> cc_pkCols cfg \<noteq> [] then [cc_pkCols cfg] else cc_identityKeys cfg)
        in Inr \<lparr>co_Expr = e, co_Kind = kindOf e, co_SQL = b_sql b, co_Args = b_args b,
                co_IsKeyPoint = list_ex (isKeyPoint (PredicateOf e)) keys,
                co_PrimaryKey = cc_pkCols cfg, co_ReadOnly = b_readOnly b,
                co_capBase = b_capBase b, co_capLimit = b_capLimit b, co_capOffset = b_capOffset b\<rparr>))"

definition CapRows :: "compiled \<Rightarrow> int \<Rightarrow> compiled \<times> bool" where
  "CapRows c n =
     (if co_capBase c = [] \<or> n < 1 \<or> co_SQL c \<noteq> co_capBase c @ limitClause (co_capLimit c) (co_capOffset c)
      then (c, False)
      else if co_capLimit c \<ge> 1 \<and> co_capLimit c \<le> n then (c, True)
      else (c\<lparr>co_capLimit := n, co_SQL := co_capBase c @ limitClause n (co_capOffset c)\<rparr>, True))"

end
