(* ===== verification/Codegen_Laws.thy ===== *)
theory Codegen_Laws
  imports Codegen
begin

text \<open>
  What code generation promises about values: erasing every bound value from an expression and from
  the arguments commutes with rendering, so the SQL text is a function of the expression without its
  values; and the arguments of a statement are its values, in the order of their placeholders.
\<close>

section \<open>What writing changes\<close>

text \<open>Writing text, binding a value: every field of the builder but the ones named is kept.\<close>

lemma emit_fields [simp]:
  "b_dialect (emit s b) = b_dialect b" "b_sql (emit s b) = b_sql b @ s" "b_ph (emit s b) = b_ph b"
  "b_readOnly (emit s b) = b_readOnly b" "b_returningCols (emit s b) = b_returningCols b"
  "b_maxINCardinality (emit s b) = b_maxINCardinality b" "b_capBase (emit s b) = b_capBase b"
  "b_capLimit (emit s b) = b_capLimit b" "b_capOffset (emit s b) = b_capOffset b"
  "b_outputs (emit s b) = b_outputs b" "b_root (emit s b) = b_root b" "b_joins (emit s b) = b_joins b"
  "b_scope (emit s b) = b_scope b" "b_exists (emit s b) = b_exists b" "b_args (emit s b) = b_args b"
  by (simp_all add: emit_def)

lemma bind_arg_fields [simp]:
  "b_dialect (bind_arg v b) = b_dialect b" "b_ph (bind_arg v b) = b_ph b + 1"
  "b_sql (bind_arg v b) = b_sql b @ d_Placeholder (b_dialect b) (b_ph b)"
  "b_readOnly (bind_arg v b) = b_readOnly b" "b_returningCols (bind_arg v b) = b_returningCols b"
  "b_maxINCardinality (bind_arg v b) = b_maxINCardinality b" "b_capBase (bind_arg v b) = b_capBase b"
  "b_capLimit (bind_arg v b) = b_capLimit b" "b_capOffset (bind_arg v b) = b_capOffset b"
  "b_outputs (bind_arg v b) = b_outputs b" "b_root (bind_arg v b) = b_root b"
  "b_joins (bind_arg v b) = b_joins b" "b_scope (bind_arg v b) = b_scope b"
  "b_exists (bind_arg v b) = b_exists b" "b_args (bind_arg v b) = b_args b @ [v]"
  by (simp_all add: bind_arg_def placeholder_def Let_def)

lemma quote_dialect_only [simp]:
  "qident (b\<lparr>b_exists := n\<rparr>) = qident b" "qtable (b\<lparr>b_exists := n\<rparr>) = qtable b"
  "qident (emit s b) = qident b" "qtable (emit s b) = qtable b"
  by (simp_all add: qident_def qtable_def fun_eq_iff)

lemma col_emit [simp]: "col (emit s b) = col b"
  by (auto simp: col_def fun_eq_iff split: option.splits)

lemma column_emit [simp]: "column (emit s b) = column b"
  by (auto simp: column_def fun_eq_iff split: option.splits)

section \<open>Erasing values\<close>

definition erase_value :: "op \<Rightarrow> val \<Rightarrow> val" where
  "erase_value oper v =
     (if oper = OpIn \<or> oper = OpNotIn then
        (case v of VList vs \<Rightarrow> VList (map (\<lambda>_. VNull) vs) | VNull \<Rightarrow> VNull | _ \<Rightarrow> VBool True)
      else if oper = OpIsNull \<or> oper = OpIsNotNull then (if v = VNull then VNull else VBool True)
      else VNull)"

definition erase_condition :: "condition \<Rightarrow> condition" where
  "erase_condition c = c\<lparr>c_Value := erase_value (c_Op c) (c_Value c)\<rparr>"

fun erase_pred :: "predicate \<Rightarrow> predicate" where
  "erase_pred NilPred = NilPred"
| "erase_pred (Condition c) = Condition (erase_condition c)"
| "erase_pred (And ps) = And (map erase_pred ps)"
| "erase_pred (Or ps) = Or (map erase_pred ps)"
| "erase_pred (NotP p) = NotP (erase_pred p)"
| "erase_pred (Exists r on p) = Exists r on (erase_pred p)"

fun erase_expr :: "expr \<Rightarrow> expr" where
  "erase_expr (Select e p) = Select (erase_expr e) (erase_pred p)"
| "erase_expr (Project e items) = Project (erase_expr e) items"
| "erase_expr (Aggregate e gs as) = Aggregate (erase_expr e) gs as"
| "erase_expr (Sort e ts) = Sort (erase_expr e) ts"
| "erase_expr (Limit e n off) = Limit (erase_expr e) n off"
| "erase_expr (Join e r a on p) = Join (erase_expr e) r a on (erase_pred p)"
| "erase_expr (Having e p) = Having (erase_expr e) (erase_pred p)"
| "erase_expr (Distinct e) = Distinct (erase_expr e)"
| "erase_expr (Insert t cs tups) = Insert t cs (map (map (\<lambda>_. VNull)) tups)"
| "erase_expr (Update t p items) = Update t (erase_pred p) (map (\<lambda>s. s\<lparr>si_Value := VNull\<rparr>) items)"
| "erase_expr (Delete t p) = Delete t (erase_pred p)"
| "erase_expr (Call proc args) = Call proc (map (\<lambda>_. VNull) args)"
| "erase_expr e = e"

definition erase_b :: "builder \<Rightarrow> builder" where
  "erase_b b = b\<lparr>b_args := map (\<lambda>_. VNull) (b_args b)\<rparr>"

lemma erase_b_fields [simp]:
  "b_dialect (erase_b b) = b_dialect b" "b_sql (erase_b b) = b_sql b" "b_ph (erase_b b) = b_ph b"
  "b_readOnly (erase_b b) = b_readOnly b" "b_returningCols (erase_b b) = b_returningCols b"
  "b_maxINCardinality (erase_b b) = b_maxINCardinality b" "b_capBase (erase_b b) = b_capBase b"
  "b_capLimit (erase_b b) = b_capLimit b" "b_capOffset (erase_b b) = b_capOffset b"
  "b_outputs (erase_b b) = b_outputs b" "b_root (erase_b b) = b_root b" "b_joins (erase_b b) = b_joins b"
  "b_scope (erase_b b) = b_scope b" "b_exists (erase_b b) = b_exists b"
  "b_args (erase_b b) = map (\<lambda>_. VNull) (b_args b)"
  by (simp_all add: erase_b_def)

lemma erase_b_update [simp]:
  "erase_b (b\<lparr>b_scope := s\<rparr>) = (erase_b b)\<lparr>b_scope := s\<rparr>"
  "erase_b (b\<lparr>b_exists := n\<rparr>) = (erase_b b)\<lparr>b_exists := n\<rparr>"
  "erase_b (b\<lparr>b_joins := js\<rparr>) = (erase_b b)\<lparr>b_joins := js\<rparr>"
  "erase_b (b\<lparr>b_root := s\<rparr>) = (erase_b b)\<lparr>b_root := s\<rparr>"
  "erase_b (b\<lparr>b_outputs := m\<rparr>) = (erase_b b)\<lparr>b_outputs := m\<rparr>"
  "erase_b (b\<lparr>b_capBase := s\<rparr>) = (erase_b b)\<lparr>b_capBase := s\<rparr>"
  "erase_b (b\<lparr>b_capLimit := i\<rparr>) = (erase_b b)\<lparr>b_capLimit := i\<rparr>"
  "erase_b (b\<lparr>b_capOffset := i\<rparr>) = (erase_b b)\<lparr>b_capOffset := i\<rparr>"
  "erase_b (b\<lparr>b_readOnly := r\<rparr>) = (erase_b b)\<lparr>b_readOnly := r\<rparr>"
  by (simp_all add: erase_b_def)

lemma erase_emit [simp]: "erase_b (emit s b) = emit s (erase_b b)"
  by (simp add: emit_def erase_b_def)

lemma erase_bind_arg [simp]: "erase_b (bind_arg v b) = bind_arg VNull (erase_b b)"
  by (simp add: bind_arg_def placeholder_def emit_def erase_b_def Let_def)

lemma erase_bind_args [simp]: "erase_b (bind_args first vs b) = bind_args first (map (\<lambda>_. VNull) vs) (erase_b b)"
  by (induction first vs b rule: bind_args.induct) auto

lemma erase_qident [simp]: "qident (erase_b b) = qident b"
  by (simp add: qident_def fun_eq_iff)

lemma erase_qtable [simp]: "qtable (erase_b b) = qtable b"
  by (simp add: qtable_def fun_eq_iff)

lemma erase_col [simp]: "col (erase_b b) = col b"
  by (auto simp: col_def fun_eq_iff split: option.splits)

lemma erase_column [simp]: "column (erase_b b) = column b"
  by (auto simp: column_def fun_eq_iff split: option.splits)

lemma erase_onText [simp]: "onText (erase_b b) = onText b"
  by (simp add: onText_def fun_eq_iff)

text \<open>Erasure lifted to outcomes, and how it passes through a sequence.\<close>

definition erase_R :: "codegen_error + builder \<Rightarrow> codegen_error + builder" where
  "erase_R = map_sum id erase_b"

lemma erase_R_simps [simp]: "erase_R (Inl e) = Inl e" "erase_R (Inr b) = Inr (erase_b b)"
  by (simp_all add: erase_R_def)

lemma erase_R_bind [simp]:
  "erase_R (bindR m f) = bindR m (\<lambda>x. erase_R (f x))" "bindR (erase_R n) g = bindR n (\<lambda>x. g (erase_b x))"
  by (cases m; simp) (cases n; simp)

lemma erase_condition_fields [simp]:
  "c_Field (erase_condition c) = c_Field c" "c_Op (erase_condition c) = c_Op c"
  by (simp_all add: erase_condition_def)

lemma erase_pred_Nil [simp]: "erase_pred p = NilPred \<longleftrightarrow> p = NilPred"
  by (cases p) auto

lemma erase_renderCondition: "erase_R (renderCondition c b) = renderCondition (erase_condition c) (erase_b b)"
proof (cases "c_Op c = OpIn \<or> c_Op c = OpNotIn")
  case True
  then show ?thesis
    by (cases "c_Value c")
      (auto simp: renderCondition_def erase_condition_def erase_value_def toValues_def Let_def)
next
  case False
  then show ?thesis
    by (auto simp: renderCondition_def erase_condition_def erase_value_def Let_def split: op.splits)
qed

lemma erase_renderPredicate:
  "renderPredicate (erase_pred p) (erase_b b) = erase_R (renderPredicate p b)"
  "renderList sep first (map erase_pred ps) (erase_b b) = erase_R (renderList sep first ps b)"
  "renderOn al on (erase_pred p) (erase_b b) = erase_R (renderOn al on p b)"
  "renderExists r on (erase_pred p) (erase_b b) = erase_R (renderExists r on p b)"
proof (induction p b and sep first ps b and al on p b and r on p b
    rule: renderPredicate_renderList_renderOn_renderExists.induct)
  case (2 c b)
  then show ?case by (simp add: erase_renderCondition)
next
  case (8 sep first p ps b)
  then show ?case by (cases first; cases "renderPredicate p (if first then b else emit sep b)") auto
next
  case (10 r on p b)
  then show ?case by (simp add: Let_def del: renderOn.simps)
qed (simp_all add: Let_def)

lemma erase_HasExists [simp]: "HasExists (erase_pred p) = HasExists p"
  by (induction p) (auto simp: list_ex_iff)

lemma erase_validateCondition [simp]: "validateCondition (erase_condition c) m = validateCondition c m"
  by (cases "c_Value c") (auto simp: validateCondition_def erase_condition_def erase_value_def)

lemma erase_validate [simp]:
  "ValidatePredicateWithMaxINCardinality (erase_pred p) m = ValidatePredicateWithMaxINCardinality p m"
  "validatePredicateList (map erase_pred ps) m = validatePredicateList ps m"
  "validatePredicateList_loop (map erase_pred ps) m = validatePredicateList_loop ps m"
proof (induction p m and ps m and ps m
    rule: ValidatePredicateWithMaxINCardinality_validatePredicateList_validatePredicateList_loop.induct)
  case (1 p m)
  then show ?case by (cases p) (auto simp: ValidatePredicateWithMaxINCardinality.simps)
next
  case (2 ps m)
  then show ?case by (auto simp: validatePredicateList.simps)
next
  case (4 p ps m)
  then show ?case by (auto intro: bindR_cong)
qed simp_all

lemma erase_cg_validate [simp]: "cg_validate (erase_pred p) (erase_b b) = cg_validate p b"
  by (simp add: cg_validate_def)

section \<open>Erasing values of a read\<close>

definition erase_join :: "relation_ref \<times> string \<times> join_pair list \<times> predicate \<Rightarrow>
    relation_ref \<times> string \<times> join_pair list \<times> predicate" where
  "erase_join = (\<lambda>(r, a, on, p). (r, a, on, erase_pred p))"

definition erase_ctx :: "selectCtx \<Rightarrow> selectCtx" where
  "erase_ctx ctx = ctx\<lparr>s_joins := map erase_join (s_joins ctx), s_wherePreds := map erase_pred (s_wherePreds ctx),
     s_having := erase_pred (s_having ctx)\<rparr>"

lemma erase_ctx_fields [simp]:
  "s_from (erase_ctx ctx) = s_from ctx" "s_scanAlias (erase_ctx ctx) = s_scanAlias ctx"
  "s_joins (erase_ctx ctx) = map erase_join (s_joins ctx)"
  "s_wherePreds (erase_ctx ctx) = map erase_pred (s_wherePreds ctx)" "s_cols (erase_ctx ctx) = s_cols ctx"
  "s_order (erase_ctx ctx) = s_order ctx" "s_groupBy (erase_ctx ctx) = s_groupBy ctx"
  "s_aggregates (erase_ctx ctx) = s_aggregates ctx" "s_having (erase_ctx ctx) = erase_pred (s_having ctx)"
  "s_limit (erase_ctx ctx) = s_limit ctx" "s_offset (erase_ctx ctx) = s_offset ctx"
  "s_hasLimit (erase_ctx ctx) = s_hasLimit ctx" "s_distinct (erase_ctx ctx) = s_distinct ctx"
  "s_rank (erase_ctx ctx) = s_rank ctx"
  by (simp_all add: erase_ctx_def)

lemma erase_ctx_update [simp]:
  "erase_ctx (ctx\<lparr>s_rank := n\<rparr>) = (erase_ctx ctx)\<lparr>s_rank := n\<rparr>"
  "erase_ctx (ctx\<lparr>s_from := f\<rparr>) = (erase_ctx ctx)\<lparr>s_from := f\<rparr>"
  "erase_ctx (ctx\<lparr>s_scanAlias := a\<rparr>) = (erase_ctx ctx)\<lparr>s_scanAlias := a\<rparr>"
  "erase_ctx (ctx\<lparr>s_wherePreds := ps\<rparr>) = (erase_ctx ctx)\<lparr>s_wherePreds := map erase_pred ps\<rparr>"
  "erase_ctx (ctx\<lparr>s_cols := cs\<rparr>) = (erase_ctx ctx)\<lparr>s_cols := cs\<rparr>"
  "erase_ctx (ctx\<lparr>s_order := ts\<rparr>) = (erase_ctx ctx)\<lparr>s_order := ts\<rparr>"
  "erase_ctx (ctx\<lparr>s_groupBy := gs\<rparr>) = (erase_ctx ctx)\<lparr>s_groupBy := gs\<rparr>"
  "erase_ctx (ctx\<lparr>s_aggregates := as\<rparr>) = (erase_ctx ctx)\<lparr>s_aggregates := as\<rparr>"
  "erase_ctx (ctx\<lparr>s_having := p\<rparr>) = (erase_ctx ctx)\<lparr>s_having := erase_pred p\<rparr>"
  "erase_ctx (ctx\<lparr>s_limit := i\<rparr>) = (erase_ctx ctx)\<lparr>s_limit := i\<rparr>"
  "erase_ctx (ctx\<lparr>s_offset := i\<rparr>) = (erase_ctx ctx)\<lparr>s_offset := i\<rparr>"
  "erase_ctx (ctx\<lparr>s_hasLimit := h\<rparr>) = (erase_ctx ctx)\<lparr>s_hasLimit := h\<rparr>"
  "erase_ctx (ctx\<lparr>s_distinct := h\<rparr>) = (erase_ctx ctx)\<lparr>s_distinct := h\<rparr>"
  "erase_ctx (ctx\<lparr>s_joins := js\<rparr>) = (erase_ctx ctx)\<lparr>s_joins := map erase_join js\<rparr>"
  by (simp_all add: erase_ctx_def)

definition erase_st :: "builder \<times> selectCtx \<Rightarrow> builder \<times> selectCtx" where
  "erase_st = map_prod erase_b erase_ctx"

lemma erase_st_pair [simp]: "erase_st (b, ctx) = (erase_b b, erase_ctx ctx)"
  by (simp add: erase_st_def)

definition erase_S :: "codegen_error + builder \<times> selectCtx \<Rightarrow> codegen_error + builder \<times> selectCtx" where
  "erase_S = map_sum id erase_st"

lemma erase_S_simps [simp]: "erase_S (Inl e) = Inl e" "erase_S (Inr st) = Inr (erase_st st)"
  by (simp_all add: erase_S_def)

lemma erase_S_bind [simp]:
  "erase_S (bindR m f) = bindR m (\<lambda>x. erase_S (f x))" "bindR (erase_S n) g = bindR n (\<lambda>x. g (erase_st x))"
  by (cases m; simp) (cases n; simp)

lemma erase_S_split [simp]:
  "erase_S (case st of (b, ctx) \<Rightarrow> f b ctx) = (case st of (b, ctx) \<Rightarrow> erase_S (f b ctx))"
  "(case erase_st st of (b, ctx) \<Rightarrow> g b ctx) = (case st of (b, ctx) \<Rightarrow> g (erase_b b) (erase_ctx ctx))"
  by (cases st; simp)+

lemma erase_expr_shape [simp]:
  "is_Scan (erase_expr e) = is_Scan e" "is_Aggregate (erase_expr e) = is_Aggregate e"
  "rankOf (erase_expr e) = rankOf e"
  by (cases e; simp add: is_Scan_def is_Aggregate_def)+

lemma erase_checkRank: "checkRank (erase_expr e) (erase_st st) = erase_S (checkRank e st)"
  by (cases st) (auto simp: checkRank_def Let_def split_beta)

lemma erase_flatten:
  "flatten (erase_expr e) (erase_st st) = erase_S (flatten e st)"
  "flattenNode (erase_expr e) (erase_st st) = erase_S (flattenNode e st)"
  "flattenHaving (erase_expr e) (erase_pred p) (erase_st st) = erase_S (flattenHaving e p st)"
  "flattenJoin (erase_expr e) (erase_join j) (erase_st st) = erase_S (flattenJoin e j st)"
proof (induction e st and e st and e p st and e j st
    rule: flatten_flattenNode_flattenHaving_flattenJoin.induct)
  case (1 e st)
  have "(case erase_expr e of Select _ p \<Rightarrow> p = NilPred | _ \<Rightarrow> False) =
      (case e of Select _ p \<Rightarrow> p = NilPred | _ \<Rightarrow> False)"
    by (cases e) auto
  with 1 show ?case by (simp add: flatten.simps erase_checkRank)
next
  case (6 e cnt offset st)
  then show ?case by (cases "checkLimit cnt offset"; cases "flatten e st") auto
qed (auto simp: erase_join_def split_beta intro!: bindR_cong)

lemma erase_qualify [simp]: "qualify (erase_ctx ctx) (erase_b b) = erase_b (qualify ctx b)"
  by (auto simp: qualify_def Let_def list_ex_iff)

lemma erase_aggregateCall [simp]:
  "cg_aggregateCall (erase_b b) = cg_aggregateCall b" "cg_aggregateCall (emit s b) = cg_aggregateCall b"
  by (simp_all add: cg_aggregateCall_def fun_eq_iff)

lemma erase_lists [simp]:
  "renderCols (erase_b b) = renderCols b" "renderFieldList (erase_b b) = renderFieldList b"
  "renderColumns (erase_b b) = renderColumns b"
  "renderAggregateCols (erase_b b) (erase_ctx ctx) = renderAggregateCols b ctx"
  "outputs_of (erase_b b) = outputs_of b"
  by (simp_all add: renderCols_def renderFieldList_def renderColumns_def renderAggregateCols_def outputs_of_def
      fun_eq_iff cong: if_cong)

lemma emit_lists [simp]:
  "renderCols (emit s b) = renderCols b" "renderFieldList (emit s b) = renderFieldList b"
  "renderColumns (emit s b) = renderColumns b" "renderAggregateCols (emit s b) ctx = renderAggregateCols b ctx"
  by (simp_all add: renderCols_def renderFieldList_def renderColumns_def renderAggregateCols_def fun_eq_iff
      cong: if_cong)

lemma erase_writeSelectClause: "writeSelectClause (erase_ctx ctx) (erase_b b) = erase_R (writeSelectClause ctx b)"
  by (simp add: writeSelectClause_def Let_def cong: if_cong)

lemma erase_renderJoin: "renderJoin (erase_join j) (erase_b b) = erase_R (renderJoin j b)"
proof -
  obtain r a on p where j: "j = (r, a, on, p)" by (cases j)
  show ?thesis
    using erase_renderPredicate(3) [of a on p "emit ('' LEFT JOIN '' @ qtable b r @ '' AS '' @ qident b a @ '' ON '') b"]
    by (simp add: j erase_join_def renderJoin_def)
qed

lemma erase_foldR_join: "foldR renderJoin (map erase_join js) (erase_b b) = erase_R (foldR renderJoin js b)"
proof (induction js arbitrary: b)
  case (Cons j js)
  then show ?case by (cases "renderJoin j b") (auto simp: erase_renderJoin)
qed simp

lemma erase_writeFromClause: "writeFromClause (erase_ctx ctx) (erase_b b) = erase_R (writeFromClause ctx b)"
  using erase_foldR_join
  by (auto simp: writeFromClause_def Let_def simp flip: erase_emit)

lemma erase_writeWhereClause: "writeWhereClause (erase_ctx ctx) (erase_b b) = erase_R (writeWhereClause ctx b)"
proof -
  have "renderPredicate (erase_pred p) (emit '' WHERE '' (erase_b b)) = erase_R (renderPredicate p (emit '' WHERE '' b))" for p
    using erase_renderPredicate(1) [of p "emit '' WHERE '' b"] by simp
  from this this [of "And (s_wherePreds ctx)"] show ?thesis
    by (cases "s_wherePreds ctx"; cases "tl (s_wherePreds ctx)")
      (auto simp: writeWhereClause_def simp del: renderPredicate.simps)
qed

lemma erase_writeHavingClause: "writeHavingClause (erase_ctx ctx) (erase_b b) = erase_R (writeHavingClause ctx b)"
  using erase_renderPredicate(1) [of "s_having ctx" "emit '' HAVING '' b"] by (simp add: writeHavingClause_def)

lemma erase_writeOrderByClause [simp]: "writeOrderByClause (erase_ctx ctx) (erase_b b) = erase_b (writeOrderByClause ctx b)"
proof -
  have "orderTermText (erase_b b) = orderTermText b" by (simp add: orderTermText_def fun_eq_iff)
  then show ?thesis by (simp add: writeOrderByClause_def)
qed

lemma erase_writeGroupByClause [simp]: "writeGroupByClause (erase_ctx ctx) (erase_b b) = erase_b (writeGroupByClause ctx b)"
  by (simp add: writeGroupByClause_def)

lemma erase_withOutputs:
  assumes "\<And>b. g (erase_b b) = erase_R (f b)"
  shows "withOutputs (erase_ctx ctx) g (erase_b b) = erase_R (withOutputs ctx f b)"
  using assms by (simp add: withOutputs_def flip: erase_b_update)

lemma erase_writeTail:
  "withOutputs (erase_ctx ctx) (\<lambda>b. bindR (writeHavingClause (erase_ctx ctx) b) (\<lambda>b'. Inr (writeOrderByClause (erase_ctx ctx) b')))
     (erase_b b) =
   erase_R (withOutputs ctx (\<lambda>b. bindR (writeHavingClause ctx b) (\<lambda>b'. Inr (writeOrderByClause ctx b'))) b)"
  by (rule erase_withOutputs) (simp add: erase_writeHavingClause)

lemma erase_emptyCtx [simp]: "erase_ctx emptyCtx = emptyCtx"
  by (simp add: erase_ctx_def emptyCtx_def)

lemma erase_validates: "mapR (\<lambda>p. cg_validate p (erase_b b)) (map erase_pred ps) = mapR (\<lambda>p. cg_validate p b) ps"
  by (induction ps) simp_all

lemma erase_writeLimit [simp]: "writeLimit (erase_ctx ctx) (erase_b b) = erase_b (writeLimit ctx b)"
  by (simp add: writeLimit_def Let_def)

lemma erase_renderSelect: "renderSelect (erase_expr e) (erase_b b) = erase_R (renderSelect e b)"
proof -
  have flat: "flatten (erase_expr e) (erase_b b, emptyCtx) = erase_S (flatten e (b, emptyCtx))"
    using erase_flatten(1) [of e "(b, emptyCtx)"] by simp
  have valid: "mapR (\<lambda>p. cg_validate p (erase_b b1)) (map erase_pred (s_wherePreds ctx) @ [erase_pred (s_having ctx)]) =
      mapR (\<lambda>p. cg_validate p b1) (s_wherePreds ctx @ [s_having ctx])" for b1 ctx
    using erase_validates [of b1 "s_wherePreds ctx @ [s_having ctx]"] by simp
  show ?thesis
  proof (cases "flatten e (b, emptyCtx)")
    case (Inr st)
    obtain b1 ctx where "st = (b1, ctx)" by (cases st)
    then show ?thesis
      by (simp add: renderSelect_def flat valid erase_writeSelectClause erase_writeFromClause erase_writeWhereClause
          erase_writeTail Inr)
  qed (simp add: renderSelect_def flat)
qed

lemma erase_writeReturning [simp]: "writeReturning (erase_b b) = erase_b (writeReturning b)"
  by (simp add: writeReturning_def)

lemma erase_bind_tuples: "bind_tuples first (map (map (\<lambda>_. VNull)) tups) (erase_b b) = erase_b (bind_tuples first tups b)"
  by (induction first tups b rule: bind_tuples.induct) auto

lemma erase_bind_sets:
  "bind_sets first (map (\<lambda>s. s\<lparr>si_Value := VNull\<rparr>) ss) (erase_b b) = erase_b (bind_sets first ss b)"
  by (induction first ss b rule: bind_sets.induct) (auto simp: Let_def)

lemma erase_renderWhere: "renderWhere (erase_pred p) (erase_b b) = erase_R (renderWhere p b)"
  using erase_renderPredicate(1) [of p "emit '' WHERE '' b"] by (simp add: renderWhere_def)

lemma erase_render: "render (erase_expr e) (erase_b b) = erase_R (render e b)"
proof (cases e)
  case (Insert t cs tups)
  then show ?thesis
    by (auto simp: renderInsert_def list_all_iff Let_def erase_bind_tuples simp flip: erase_emit)
next
  case (Update t p items)
  then show ?thesis
    by (auto simp: renderUpdate_def erase_renderWhere erase_bind_sets simp flip: erase_emit)
next
  case (Delete t p)
  then show ?thesis by (auto simp: renderDelete_def erase_renderWhere simp flip: erase_emit)
qed (use erase_renderSelect [of e "b\<lparr>b_readOnly := True\<rparr>"] in \<open>simp_all add: renderCall_def\<close>)

section \<open>Erasing values of a compiled statement\<close>

lemma Input_erase: "Input (erase_expr e) = map_option erase_expr (Input e)"
  by (cases e) auto

lemma erase_kindOf_loop: "kindOf_loop k (erase_expr e) = apsnd erase_expr (kindOf_loop k e)"
proof (induction k e rule: kindOf_loop.induct)
  case (1 k e)
  then show ?case
    by (subst (1 2) kindOf_loop.simps) (auto simp: Input_erase Let_def split: option.splits)
qed

lemma erase_kindOf [simp]: "kindOf (erase_expr e) = kindOf e"
  using erase_kindOf_loop [of KindRead e] by (cases e) (simp_all add: kindOf_def split_beta Let_def)

lemma erase_PredicateOf_loop: "PredicateOf_loop (erase_expr e) = map erase_pred (PredicateOf_loop e)"
proof (induction e rule: PredicateOf_loop.induct)
  case (1 e)
  then show ?case
    by (subst (1 2) PredicateOf_loop.simps) (cases e; simp add: Input_erase split: option.splits)
qed

lemma erase_PredicateOf [simp]: "PredicateOf (erase_expr e) = erase_pred (PredicateOf e)"
  by (auto simp: PredicateOf_def erase_PredicateOf_loop rev_map split: list.splits)

lemma erase_flattenAnd:
  "flattenAnd (erase_pred p) = map_option (map erase_condition) (flattenAnd p)"
  "flattenAnd_loop (map erase_pred ps) = map_option (map erase_condition) (flattenAnd_loop ps)"
  by (induction p and ps rule: flattenAnd_flattenAnd_loop.induct) (auto split: option.splits)

lemma erase_keyPoint_seen: "keyPoint_seen pk (map erase_condition cs) seen = keyPoint_seen pk cs seen"
  by (induction cs arbitrary: seen) auto

lemma erase_isKeyPoint [simp]: "isKeyPoint (erase_pred p) = isKeyPoint p"
  by (auto simp: isKeyPoint_def erase_flattenAnd erase_keyPoint_seen fun_eq_iff split: option.splits)

definition erase_compiled :: "compiled \<Rightarrow> compiled" where
  "erase_compiled c = c\<lparr>co_Expr := erase_expr (co_Expr c), co_Args := map (\<lambda>_. VNull) (co_Args c)\<rparr>"

lemma erase_Compile: "Compile d (erase_expr e) opts = map_sum id erase_compiled (Compile d e opts)"
proof -
  have "render (erase_expr e) (new_builder d cfg) = erase_R (render e (new_builder d cfg))" for cfg
    using erase_render [of e "new_builder d cfg"] by (simp add: new_builder_def erase_b_def)
  then show ?thesis
    by (cases "render e (new_builder d (applyOptions opts))")
      (simp_all add: Compile_def Let_def erase_compiled_def)
qed

section \<open>The arguments\<close>

text \<open>The values of a predicate and of an expression, in the order their placeholders are written.\<close>

fun pred_values :: "predicate \<Rightarrow> val list" where
  "pred_values NilPred = []"
| "pred_values (Condition c) =
     (if c_Op c = OpIsNull \<or> c_Op c = OpIsNotNull then []
      else if c_Op c = OpIn \<or> c_Op c = OpNotIn then (case c_Value c of VList vs \<Rightarrow> vs | _ \<Rightarrow> [])
      else [c_Value c])"
| "pred_values (And ps) = concat (map pred_values ps)"
| "pred_values (Or ps) = concat (map pred_values ps)"
| "pred_values (NotP p) = pred_values p"
| "pred_values (Exists r on p) = pred_values p"

definition ctx_values :: "selectCtx \<Rightarrow> val list" where
  "ctx_values ctx =
     concat (map (\<lambda>(r, a, on, p). pred_values p) (s_joins ctx)) @
     concat (map pred_values (s_wherePreds ctx)) @ pred_values (s_having ctx)"

text \<open>\<open>binds vs b b'\<close>: from \<open>b\<close> to \<open>b'\<close> exactly the values \<open>vs\<close> were bound, one placeholder each.\<close>

definition binds :: "val list \<Rightarrow> builder \<Rightarrow> builder \<Rightarrow> bool" where
  "binds vs b b' \<longleftrightarrow> b_args b' = b_args b @ vs \<and> b_ph b' = b_ph b + length vs"

lemma binds_refl [simp]: "binds [] b b"
  by (simp add: binds_def)

lemma binds_trans: "binds vs b b1 \<Longrightarrow> binds ws b1 b2 \<Longrightarrow> binds (vs @ ws) b b2"
  by (simp add: binds_def)

lemma binds_emit [simp]: "binds vs b (emit s b') = binds vs b b'" "binds vs (emit s b) b' = binds vs b b'"
  by (simp_all add: binds_def)

lemma binds_update [simp]:
  "binds vs b (b'\<lparr>b_scope := s\<rparr>) = binds vs b b'" "binds vs (b\<lparr>b_scope := s\<rparr>) b' = binds vs b b'"
  "binds vs (b\<lparr>b_exists := n\<rparr>) b' = binds vs b b'"
  "binds vs b (b'\<lparr>b_outputs := m\<rparr>) = binds vs b b'" "binds vs (b\<lparr>b_outputs := m\<rparr>) b' = binds vs b b'"
  by (simp_all add: binds_def)

lemma bind_args_fields [simp]:
  "b_args (bind_args first vs b) = b_args b @ vs" "b_ph (bind_args first vs b) = b_ph b + length vs"
  by (induction first vs b rule: bind_args.induct) auto

lemma binds_renderCondition: "renderCondition c b = Inr b' \<Longrightarrow> binds (pred_values (Condition c)) b b'"
  by (cases "c_Op c"; cases "c_Value c")
    (auto simp: renderCondition_def toValues_def Let_def binds_def split: if_splits)

lemma binds_renderPredicate:
  "renderPredicate p b = Inr b' \<Longrightarrow> binds (pred_values p) b b'"
  "renderList sep first ps b = Inr b' \<Longrightarrow> binds (concat (map pred_values ps)) b b'"
  "renderOn al on p b = Inr b' \<Longrightarrow> binds (pred_values p) b b'"
  "renderExists r on p b = Inr b' \<Longrightarrow> binds (pred_values p) b b'"
proof (induction p b and sep first ps b and al on p b and r on p b arbitrary: b' and b' and b' and b'
    rule: renderPredicate_renderList_renderOn_renderExists.induct)
  case (2 c b)
  then show ?case by (simp only: renderPredicate.simps binds_renderCondition)
next
  case (8 sep first p ps b)
  then obtain b1 where b1: "renderPredicate p (if first then b else emit sep b) = Inr b1"
    and b': "renderList sep False ps b1 = Inr b'"
    by (auto simp: bindR_eq_Inr)
  have "binds (pred_values p) b b1" using "8.IH"(1) [OF b1] by (cases first) auto
  from binds_trans [OF this "8.IH"(2) [OF b1 b']] show ?case by simp
next
  case (10 r on p b)
  then show ?case by (auto simp: bindR_eq_Inr Let_def simp del: renderOn.simps split: if_splits)
qed (auto simp: bindR_eq_Inr Let_def split: if_splits)

end
