(* ===== verification/Codegen_Chain.thy ===== *)
theory Codegen_Chain
  imports Codegen_Laws
begin

text \<open>
  What flattening promises: the clauses of the SELECT hold exactly the nodes of the read chain that have content, in
  the one order a SELECT applies them, so that rebuilding the chain from the clauses gives the
  expression back without its empty nodes. The arguments of a whole statement follow.
\<close>

section \<open>The chain a context stands for\<close>

text \<open>
  \<open>unflatten\<close> rebuilds the chain from the clauses, innermost first: scan, joins, selections,
  aggregation, HAVING, order, projection, DISTINCT, limit.
\<close>

definition add_joins :: "(relation_ref \<times> string \<times> join_pair list \<times> predicate) list \<Rightarrow> expr \<Rightarrow> expr" where
  "add_joins js e = fold (\<lambda>(r, a, on, p) e. Join e r a on p) js e"

definition add_selects :: "predicate list \<Rightarrow> expr \<Rightarrow> expr" where
  "add_selects ps e = fold (\<lambda>p e. Select e p) ps e"

definition unflatten :: "relation_ref \<Rightarrow> selectCtx \<Rightarrow> expr" where
  "unflatten rel ctx =
     (let e0 = Scan rel (s_scanAlias ctx);
          e1 = add_joins (s_joins ctx) e0;
          e2 = add_selects (s_wherePreds ctx) e1;
          e3 = (if s_groupBy ctx = [] \<and> s_aggregates ctx = [] then e2 else Aggregate e2 (s_groupBy ctx) (s_aggregates ctx));
          e4 = (if s_having ctx = NilPred then e3 else Having e3 (s_having ctx));
          e5 = (if s_order ctx = [] then e4 else Sort e4 (s_order ctx));
          e6 = (if s_cols ctx = [] then e5 else Project e5 (s_cols ctx));
          e7 = (if s_distinct ctx then Distinct e6 else e6)
      in if s_hasLimit ctx then Limit e7 (s_limit ctx) (s_offset ctx) else e7)"

text \<open>
  A SELECT has no clause for an operator with nothing in it: an aggregation without keys and calls, an order without
  terms, a projection without items (which is rendered as all columns). \<open>without_empty\<close> drops these, and these only.
\<close>

fun without_empty :: "expr \<Rightarrow> expr" where
  "without_empty (Select e p) = Select (without_empty e) p"
| "without_empty (Project e items) = (if items = [] then without_empty e else Project (without_empty e) items)"
| "without_empty (Aggregate e gs as) =
     (if gs = [] \<and> as = [] then without_empty e else Aggregate (without_empty e) gs as)"
| "without_empty (Sort e ts) = (if ts = [] then without_empty e else Sort (without_empty e) ts)"
| "without_empty (Limit e n off) = Limit (without_empty e) n off"
| "without_empty (Join e r a on p) = Join (without_empty e) r a on p"
| "without_empty (Having e p) = Having (without_empty e) p"
| "without_empty (Distinct e) = Distinct (without_empty e)"
| "without_empty e = e"

text \<open>
  The clauses that are still unset at a rank: those of the nodes that come after it. This is the
  invariant of the flattening.
\<close>

definition unset_after :: "nat \<Rightarrow> selectCtx \<Rightarrow> bool" where
  "unset_after n ctx \<longleftrightarrow>
     (n < 1 \<longrightarrow> s_joins ctx = []) \<and> (n < 2 \<longrightarrow> s_wherePreds ctx = []) \<and>
     (n < 3 \<longrightarrow> s_groupBy ctx = [] \<and> s_aggregates ctx = []) \<and> (n < 4 \<longrightarrow> s_having ctx = NilPred) \<and>
     (n < 5 \<longrightarrow> s_order ctx = []) \<and> (n < 6 \<longrightarrow> s_cols ctx = []) \<and> (n < 7 \<longrightarrow> \<not> s_distinct ctx) \<and>
     (n < 8 \<longrightarrow> \<not> s_hasLimit ctx)"

lemma unset_after_empty: "unset_after 0 emptyCtx"
  by (simp add: unset_after_def emptyCtx_def)

lemma flatten_cases:
  assumes "flatten e st = Inr (b', ctx')"
  shows "\<exists>ctx1. flattenNode e st = Inr (b', ctx1) \<and> ctx' = ctx1\<lparr>s_rank := fst (rankOf e)\<rparr> \<and>
    (is_Scan e \<or> s_rank ctx1 < fst (rankOf e) \<or> s_rank ctx1 = fst (rankOf e) \<and> snd (rankOf e)) \<and>
    (case e of Select _ p \<Rightarrow> p \<noteq> NilPred | _ \<Rightarrow> True)"
proof -
  have "\<not> (case e of Select _ p \<Rightarrow> p = NilPred | _ \<Rightarrow> False)" and "bindR (flattenNode e st) (checkRank e) = Inr (b', ctx')"
    using assms by (cases "case e of Select _ p \<Rightarrow> p = NilPred | _ \<Rightarrow> False"; simp add: flatten.simps)+
  then obtain b1 ctx1 where node: "flattenNode e st = Inr (b1, ctx1)" and rank: "checkRank e (b1, ctx1) = Inr (b', ctx')"
    and nil: "case e of Select _ p \<Rightarrow> p \<noteq> NilPred | _ \<Rightarrow> True"
    by (cases "flattenNode e st"; cases e) auto
  from rank have "b1 = b'" "ctx' = ctx1\<lparr>s_rank := fst (rankOf e)\<rparr>"
    "is_Scan e \<or> s_rank ctx1 < fst (rankOf e) \<or> s_rank ctx1 = fst (rankOf e) \<and> snd (rankOf e)"
    by (auto simp: checkRank_def Let_def split_beta split: if_splits)
  with node nil show ?thesis by blast
qed

lemma flattenNode_inv:
  assumes "flattenNode e (b, emptyCtx) = Inr (b', ctx)"
  shows "case e of
      Scan r a \<Rightarrow> b' = b \<and> ctx = emptyCtx\<lparr>s_from := qtable b r, s_scanAlias := a\<rparr>
    | Select e1 p \<Rightarrow> \<exists>c1. flatten e1 (b, emptyCtx) = Inr (b', c1) \<and> ctx = c1\<lparr>s_wherePreds := s_wherePreds c1 @ [p]\<rparr>
    | Project e1 items \<Rightarrow> \<exists>c1. flatten e1 (b, emptyCtx) = Inr (b', c1) \<and> s_aggregates c1 = [] \<and> s_groupBy c1 = [] \<and>
        ctx = c1\<lparr>s_cols := items\<rparr>
    | Aggregate e1 gs as \<Rightarrow> \<exists>c1. flatten e1 (b, emptyCtx) = Inr (b', c1) \<and> ctx = c1\<lparr>s_groupBy := gs, s_aggregates := as\<rparr>
    | Sort e1 ts \<Rightarrow> \<exists>c1. flatten e1 (b, emptyCtx) = Inr (b', c1) \<and> ctx = c1\<lparr>s_order := ts\<rparr>
    | Limit e1 n off \<Rightarrow> \<exists>c1. flatten e1 (b, emptyCtx) = Inr (b', c1) \<and> 1 \<le> n \<and> 0 \<le> off \<and>
        ctx = c1\<lparr>s_limit := n, s_offset := off, s_hasLimit := True\<rparr>
    | Distinct e1 \<Rightarrow> \<exists>c1. flatten e1 (b, emptyCtx) = Inr (b', c1) \<and> ctx = c1\<lparr>s_distinct := True\<rparr>
    | Having e1 p \<Rightarrow> \<exists>c1. flatten e1 (b, emptyCtx) = Inr (b', c1) \<and> is_Aggregate e1 \<and> p \<noteq> NilPred \<and>
        ctx = c1\<lparr>s_having := p\<rparr>
    | Join e1 r a on p \<Rightarrow> \<exists>b1 c1. flatten e1 (b, emptyCtx) = Inr (b1, c1) \<and>
        ctx = c1\<lparr>s_joins := s_joins c1 @ [(r, a, on, p)]\<rparr> \<and> b' = b1\<lparr>b_joins := insert a (b_joins b1)\<rparr>
    | _ \<Rightarrow> False"
  using assms
  by (cases e) (auto simp: bindR_eq_Inr checkLimit_def split: if_splits)

lemma add_joins_snoc: "add_joins (js @ [(r, a, on, p)]) e = Join (add_joins js e) r a on p"
  by (simp add: add_joins_def)

lemma add_selects_snoc: "add_selects (ps @ [p]) e = Select (add_selects ps e) p"
  by (simp add: add_selects_def)

lemma add_Nil [simp]: "add_joins [] e = e" "add_selects [] e = e"
  by (simp_all add: add_joins_def add_selects_def)

lemma unset_mono: "unset_after m ctx \<Longrightarrow> m \<le> n \<Longrightarrow> unset_after n ctx"
  by (simp add: unset_after_def)

lemma unflatten_update:
  "unset_after (Suc 0) c \<Longrightarrow> unflatten rel (c\<lparr>s_joins := s_joins c @ [(r, a, on, p)], s_rank := k\<rparr>) = Join (unflatten rel c) r a on p"
  "unset_after 2 c \<Longrightarrow> unflatten rel (c\<lparr>s_wherePreds := s_wherePreds c @ [p], s_rank := k\<rparr>) = Select (unflatten rel c) p"
  "unset_after 2 c \<Longrightarrow> gs \<noteq> [] \<or> as \<noteq> [] \<Longrightarrow>
     unflatten rel (c\<lparr>s_groupBy := gs, s_aggregates := as, s_rank := k\<rparr>) = Aggregate (unflatten rel c) gs as"
  "unset_after 3 c \<Longrightarrow> p \<noteq> NilPred \<Longrightarrow> unflatten rel (c\<lparr>s_having := p, s_rank := k\<rparr>) = Having (unflatten rel c) p"
  "unset_after 4 c \<Longrightarrow> ts \<noteq> [] \<Longrightarrow> unflatten rel (c\<lparr>s_order := ts, s_rank := k\<rparr>) = Sort (unflatten rel c) ts"
  "unset_after 5 c \<Longrightarrow> items \<noteq> [] \<Longrightarrow> unflatten rel (c\<lparr>s_cols := items, s_rank := k\<rparr>) = Project (unflatten rel c) items"
  "unset_after 6 c \<Longrightarrow> unflatten rel (c\<lparr>s_distinct := True, s_rank := k\<rparr>) = Distinct (unflatten rel c)"
  "unset_after 7 c \<Longrightarrow> unflatten rel (c\<lparr>s_limit := n, s_offset := off, s_hasLimit := True, s_rank := k\<rparr>) =
     Limit (unflatten rel c) n off"
  by (simp_all add: unflatten_def unset_after_def add_joins_snoc add_selects_snoc Let_def cong: if_cong split del: if_split) auto

lemma unflatten_update_empty:
  "unset_after 2 c \<Longrightarrow> unflatten rel (c\<lparr>s_groupBy := [], s_aggregates := [], s_rank := k\<rparr>) = unflatten rel c"
  "unset_after 4 c \<Longrightarrow> unflatten rel (c\<lparr>s_order := [], s_rank := k\<rparr>) = unflatten rel c"
  "unset_after 5 c \<Longrightarrow> unflatten rel (c\<lparr>s_cols := [], s_rank := k\<rparr>) = unflatten rel c"
  by (simp_all add: unflatten_def unset_after_def Let_def cong: if_cong)

lemma unset_update:
  "unset_after (Suc 0) c \<Longrightarrow> unset_after (Suc 0) (c\<lparr>s_joins := js, s_rank := k\<rparr>)"
  "unset_after 2 c \<Longrightarrow> unset_after 2 (c\<lparr>s_wherePreds := ps, s_rank := k\<rparr>)"
  "unset_after 2 c \<Longrightarrow> unset_after 3 (c\<lparr>s_groupBy := gs, s_aggregates := as, s_rank := k\<rparr>)"
  "unset_after 3 c \<Longrightarrow> unset_after 4 (c\<lparr>s_having := p, s_rank := k\<rparr>)"
  "unset_after 4 c \<Longrightarrow> unset_after 5 (c\<lparr>s_order := ts, s_rank := k\<rparr>)"
  "unset_after 5 c \<Longrightarrow> unset_after 6 (c\<lparr>s_cols := items, s_rank := k\<rparr>)"
  "unset_after 6 c \<Longrightarrow> unset_after 7 (c\<lparr>s_distinct := d, s_rank := k\<rparr>)"
  "unset_after 7 c \<Longrightarrow> unset_after 8 (c\<lparr>s_limit := n, s_offset := off, s_hasLimit := h, s_rank := k\<rparr>)"
  by (simp_all add: unset_after_def)

text \<open>The values of a read chain, clause by clause.\<close>

fun join_values :: "expr \<Rightarrow> val list" where
  "join_values (Join e r a on p) = join_values e @ pred_values p"
| "join_values (Select e p) = join_values e"
| "join_values (Project e items) = join_values e"
| "join_values (Aggregate e gs as) = join_values e"
| "join_values (Sort e ts) = join_values e"
| "join_values (Limit e n off) = join_values e"
| "join_values (Having e p) = join_values e"
| "join_values (Distinct e) = join_values e"
| "join_values _ = []"

fun where_values :: "expr \<Rightarrow> val list" where
  "where_values (Select e p) = where_values e @ pred_values p"
| "where_values (Join e r a on p) = where_values e"
| "where_values (Project e items) = where_values e"
| "where_values (Aggregate e gs as) = where_values e"
| "where_values (Sort e ts) = where_values e"
| "where_values (Limit e n off) = where_values e"
| "where_values (Having e p) = where_values e"
| "where_values (Distinct e) = where_values e"
| "where_values _ = []"

fun having_values :: "expr \<Rightarrow> val list" where
  "having_values (Having e p) = pred_values p"
| "having_values (Select e p) = having_values e"
| "having_values (Join e r a on p) = having_values e"
| "having_values (Project e items) = having_values e"
| "having_values (Aggregate e gs as) = having_values e"
| "having_values (Sort e ts) = having_values e"
| "having_values (Limit e n off) = having_values e"
| "having_values (Distinct e) = having_values e"
| "having_values _ = []"

definition flat_inv :: "builder \<Rightarrow> expr \<Rightarrow> selectCtx \<Rightarrow> bool" where
  "flat_inv b e ctx \<longleftrightarrow> s_rank ctx = fst (rankOf e) \<and> unset_after (s_rank ctx) ctx \<and>
     concat (map (\<lambda>(r, a, on, p). pred_values p) (s_joins ctx)) = join_values e \<and>
     concat (map pred_values (s_wherePreds ctx)) = where_values e \<and> pred_values (s_having ctx) = having_values e \<and>
     (\<exists>rel. s_from ctx = qtable b rel \<and> unflatten rel ctx = without_empty e)"

lemma flatten_inv: "flatten e (b, emptyCtx) = Inr (b', ctx) \<Longrightarrow> flat_inv b e ctx"
proof (induction e arbitrary: b' ctx)
  case (Scan r a)
  obtain c0 where node: "flattenNode (Scan r a) (b, emptyCtx) = Inr (b', c0)" and c0: "ctx = c0\<lparr>s_rank := 0\<rparr>"
    using flatten_cases [OF Scan] by auto
  from flattenNode_inv [OF node] show ?case
    by (auto simp: c0 flat_inv_def unset_after_def unflatten_def emptyCtx_def)
next
  case (Join e r a on p)
  obtain c0 where node: "flattenNode (Join e r a on p) (b, emptyCtx) = Inr (b', c0)"
    and c0: "ctx = c0\<lparr>s_rank := 1\<rparr>" "s_rank c0 \<le> 1"
    using flatten_cases [OF Join.prems] by (auto simp: is_Scan_def)
  from flattenNode_inv [OF node] c0 obtain b1 c1 where c1: "flatten e (b, emptyCtx) = Inr (b1, c1)" "s_rank c1 \<le> 1"
    and ctx: "ctx = c1\<lparr>s_joins := s_joins c1 @ [(r, a, on, p)], s_rank := 1\<rparr>"
    by auto
  have "unset_after 1 c1" using Join.IH [OF c1(1)] c1(2) unset_mono by (auto simp: flat_inv_def)
  with Join.IH [OF c1(1)] show ?case
    by (auto simp: flat_inv_def ctx unflatten_update unflatten_update_empty unset_update)
next
  case (Select e p)
  obtain c0 where node: "flattenNode (Select e p) (b, emptyCtx) = Inr (b', c0)"
    and c0: "ctx = c0\<lparr>s_rank := 2\<rparr>" "s_rank c0 \<le> 2"
    using flatten_cases [OF Select.prems] by (auto simp: is_Scan_def)
  from flattenNode_inv [OF node] c0 obtain b1 c1 where c1: "flatten e (b, emptyCtx) = Inr (b1, c1)" "s_rank c1 \<le> 2"
    and ctx: "ctx = c1\<lparr>s_wherePreds := s_wherePreds c1 @ [p], s_rank := 2\<rparr>"
    by auto
  have "unset_after 2 c1" using Select.IH [OF c1(1)] c1(2) unset_mono by (auto simp: flat_inv_def)
  with Select.IH [OF c1(1)] show ?case
    by (auto simp: flat_inv_def ctx unflatten_update unflatten_update_empty unset_update)
next
  case (Aggregate e gs as)
  obtain c0 where node: "flattenNode (Aggregate e gs as) (b, emptyCtx) = Inr (b', c0)"
    and c0: "ctx = c0\<lparr>s_rank := 3\<rparr>" "s_rank c0 \<le> 2"
    using flatten_cases [OF Aggregate.prems] by (auto simp: is_Scan_def)
  from flattenNode_inv [OF node] c0 obtain b1 c1 where c1: "flatten e (b, emptyCtx) = Inr (b1, c1)" "s_rank c1 \<le> 2"
    and ctx: "ctx = c1\<lparr>s_groupBy := gs, s_aggregates := as, s_rank := 3\<rparr>"
    by auto
  have "unset_after 2 c1" using Aggregate.IH [OF c1(1)] c1(2) unset_mono by (auto simp: flat_inv_def)
  with Aggregate.IH [OF c1(1)] show ?case
    by (auto simp: flat_inv_def ctx unflatten_update unflatten_update_empty unset_update)
next
  case (Having e p)
  obtain c0 where node: "flattenNode (Having e p) (b, emptyCtx) = Inr (b', c0)"
    and c0: "ctx = c0\<lparr>s_rank := 4\<rparr>" "s_rank c0 \<le> 3"
    using flatten_cases [OF Having.prems] by (auto simp: is_Scan_def)
  from flattenNode_inv [OF node] c0 obtain b1 c1 where c1: "flatten e (b, emptyCtx) = Inr (b1, c1)" "s_rank c1 \<le> 3"
    and ctx: "ctx = c1\<lparr>s_having := p, s_rank := 4\<rparr>" and p: "p \<noteq> NilPred"
    by auto
  have "unset_after 3 c1" using Having.IH [OF c1(1)] c1(2) unset_mono by (auto simp: flat_inv_def)
  with Having.IH [OF c1(1)] show ?case
    by (auto simp: flat_inv_def ctx unflatten_update unflatten_update_empty unset_update p)
next
  case (Sort e ts)
  obtain c0 where node: "flattenNode (Sort e ts) (b, emptyCtx) = Inr (b', c0)"
    and c0: "ctx = c0\<lparr>s_rank := 5\<rparr>" "s_rank c0 \<le> 4"
    using flatten_cases [OF Sort.prems] by (auto simp: is_Scan_def)
  from flattenNode_inv [OF node] c0 obtain b1 c1 where c1: "flatten e (b, emptyCtx) = Inr (b1, c1)" "s_rank c1 \<le> 4"
    and ctx: "ctx = c1\<lparr>s_order := ts, s_rank := 5\<rparr>"
    by auto
  have "unset_after 4 c1" using Sort.IH [OF c1(1)] c1(2) unset_mono by (auto simp: flat_inv_def)
  with Sort.IH [OF c1(1)] show ?case
    by (auto simp: flat_inv_def ctx unflatten_update unflatten_update_empty unset_update)
next
  case (Project e items)
  obtain c0 where node: "flattenNode (Project e items) (b, emptyCtx) = Inr (b', c0)"
    and c0: "ctx = c0\<lparr>s_rank := 6\<rparr>" "s_rank c0 \<le> 5"
    using flatten_cases [OF Project.prems] by (auto simp: is_Scan_def)
  from flattenNode_inv [OF node] c0 obtain b1 c1 where c1: "flatten e (b, emptyCtx) = Inr (b1, c1)" "s_rank c1 \<le> 5"
    and ctx: "ctx = c1\<lparr>s_cols := items, s_rank := 6\<rparr>"
    by auto
  have "unset_after 5 c1" using Project.IH [OF c1(1)] c1(2) unset_mono by (auto simp: flat_inv_def)
  with Project.IH [OF c1(1)] show ?case
    by (auto simp: flat_inv_def ctx unflatten_update unflatten_update_empty unset_update)
next
  case (Distinct e)
  obtain c0 where node: "flattenNode (Distinct e) (b, emptyCtx) = Inr (b', c0)"
    and c0: "ctx = c0\<lparr>s_rank := 7\<rparr>" "s_rank c0 \<le> 6"
    using flatten_cases [OF Distinct.prems] by (auto simp: is_Scan_def)
  from flattenNode_inv [OF node] c0 obtain b1 c1 where c1: "flatten e (b, emptyCtx) = Inr (b1, c1)" "s_rank c1 \<le> 6"
    and ctx: "ctx = c1\<lparr>s_distinct := True, s_rank := 7\<rparr>"
    by auto
  have "unset_after 6 c1" using Distinct.IH [OF c1(1)] c1(2) unset_mono by (auto simp: flat_inv_def)
  with Distinct.IH [OF c1(1)] show ?case
    by (auto simp: flat_inv_def ctx unflatten_update unflatten_update_empty unset_update)
next
  case (Limit e n off)
  obtain c0 where node: "flattenNode (Limit e n off) (b, emptyCtx) = Inr (b', c0)"
    and c0: "ctx = c0\<lparr>s_rank := 8\<rparr>" "s_rank c0 \<le> 7"
    using flatten_cases [OF Limit.prems] by (auto simp: is_Scan_def)
  from flattenNode_inv [OF node] c0 obtain b1 c1 where c1: "flatten e (b, emptyCtx) = Inr (b1, c1)" "s_rank c1 \<le> 7"
    and ctx: "ctx = c1\<lparr>s_limit := n, s_offset := off, s_hasLimit := True, s_rank := 8\<rparr>"
    by auto
  have "unset_after 7 c1" using Limit.IH [OF c1(1)] c1(2) unset_mono by (auto simp: flat_inv_def)
  with Limit.IH [OF c1(1)] show ?case
    by (auto simp: flat_inv_def ctx unflatten_update unflatten_update_empty unset_update)
qed (simp_all add: flatten.simps)

lemma ctx_values_flat: "flat_inv b e ctx \<Longrightarrow> ctx_values ctx = join_values e @ where_values e @ having_values e"
  by (simp add: flat_inv_def ctx_values_def)

text \<open>Flattening changes nothing in the builder but the join aliases.\<close>

lemma flatten_builder:
  "flatten e st = Inr (b', ctx) \<Longrightarrow> \<exists>js. b' = (fst st)\<lparr>b_joins := js\<rparr>"
  "flattenNode e st = Inr (b', ctx) \<Longrightarrow> \<exists>js. b' = (fst st)\<lparr>b_joins := js\<rparr>"
  "flattenHaving e p st = Inr (b', ctx) \<Longrightarrow> \<exists>js. b' = (fst st)\<lparr>b_joins := js\<rparr>"
  "flattenJoin e j st = Inr (b', ctx) \<Longrightarrow> \<exists>js. b' = (fst st)\<lparr>b_joins := js\<rparr>"
proof (induction e st and e st and e p st and e j st arbitrary: b' ctx and b' ctx and b' ctx and b' ctx
    rule: flatten_flattenNode_flattenHaving_flattenJoin.induct)
  case (1 e st)
  from flatten_cases [OF "1.prems"] obtain c where c: "flattenNode e st = Inr (b', c)"
    and nil: "case e of Select _ p \<Rightarrow> p \<noteq> NilPred | _ \<Rightarrow> True" by blast
  then have "\<not> (case e of Select _ p \<Rightarrow> p = NilPred | _ \<Rightarrow> False)" by (cases e) auto
  from "1.IH" [OF this c] show ?case .
next
  case (2 r a b ctx0)
  then show ?case by (auto intro: exI [of _ "b_joins b"])
qed (fastforce simp: bindR_eq_Inr split_beta split: if_splits)+

section \<open>The arguments of a statement\<close>

lemma binds_clause_update [simp]:
  "binds vs b (b'\<lparr>b_capBase := s\<rparr>) = binds vs b b'" "binds vs b (b'\<lparr>b_capLimit := i\<rparr>) = binds vs b b'"
  "binds vs b (b'\<lparr>b_capOffset := i\<rparr>) = binds vs b b'" "binds vs (b\<lparr>b_joins := js\<rparr>) b' = binds vs b b'"
  "binds vs (b\<lparr>b_root := s\<rparr>) b' = binds vs b b'" "binds vs (b\<lparr>b_readOnly := r\<rparr>) b' = binds vs b b'"
  by (simp_all add: binds_def)

lemma binds_qualify [simp]: "binds vs (qualify ctx b) b' = binds vs b b'"
  by (simp add: qualify_def Let_def)

lemma binds_writeSelectClause: "writeSelectClause ctx b = Inr b' \<Longrightarrow> binds [] b b'"
  by (auto simp: writeSelectClause_def Let_def bindR_eq_Inr split: if_splits)

lemma binds_renderJoins:
  "foldR renderJoin js b = Inr b' \<Longrightarrow> binds (concat (map (\<lambda>(r, a, on, p). pred_values p) js)) b b'"
proof (induction js arbitrary: b)
  case (Cons j js)
  obtain r a on p where j: "j = (r, a, on, p)" by (cases j)
  from Cons.prems obtain b1 where b1: "renderJoin j b = Inr b1" and b': "foldR renderJoin js b1 = Inr b'"
    by (auto simp: bindR_eq_Inr)
  from b1 have "binds (pred_values p) b b1"
    by (auto simp: renderJoin_def j bindR_eq_Inr simp del: renderOn.simps dest!: binds_renderPredicate(3))
  from binds_trans [OF this Cons.IH [OF b']] show ?case by (simp add: j)
qed simp

lemma binds_writeFromClause:
  "writeFromClause ctx b = Inr b' \<Longrightarrow> binds (concat (map (\<lambda>(r, a, on, p). pred_values p) (s_joins ctx))) b b'"
  by (auto simp: writeFromClause_def Let_def dest!: binds_renderJoins split: if_splits)

lemma binds_writeWhereClause:
  "writeWhereClause ctx b = Inr b' \<Longrightarrow> binds (concat (map pred_values (s_wherePreds ctx))) b b'"
  using binds_renderPredicate(1) [of "And (s_wherePreds ctx)" "emit '' WHERE '' b"]
    binds_renderPredicate(1) [of "hd (s_wherePreds ctx)" "emit '' WHERE '' b"]
  by (cases "s_wherePreds ctx"; cases "tl (s_wherePreds ctx)")
    (auto simp: writeWhereClause_def simp del: renderPredicate.simps)

lemma binds_writeGroupByClause [simp]: "binds vs (writeGroupByClause ctx b) b' = binds vs b b'"
  by (simp add: writeGroupByClause_def)

lemma binds_writeOrderByClause [simp]: "binds vs b (writeOrderByClause ctx b') = binds vs b b'"
  by (simp add: writeOrderByClause_def)

lemma binds_writeHavingClause: "writeHavingClause ctx b = Inr b' \<Longrightarrow> binds (pred_values (s_having ctx)) b b'"
  by (auto simp: writeHavingClause_def dest!: binds_renderPredicate(1) split: if_splits)

lemma binds_withOutputs:
  assumes "withOutputs ctx fn b = Inr b'" and "\<And>b b'. fn b = Inr b' \<Longrightarrow> binds vs b b'"
  shows "binds vs b b'"
  using assms(1) by (auto simp: withOutputs_def bindR_eq_Inr dest!: assms(2) split: if_splits)

lemma binds_writeLimit [simp]: "binds vs b (writeLimit ctx b') = binds vs b b'"
  by (simp add: writeLimit_def Let_def)

lemma binds_renderSelect:
  assumes "renderSelect e b = Inr b'"
  shows "binds (join_values e @ where_values e @ having_values e) b b'"
proof -
  let ?tail = "\<lambda>ctx b. bindR (writeHavingClause ctx b) (\<lambda>b'. Inr (writeOrderByClause ctx b'))"
  from assms obtain b1 ctx b2 b3 b4 b5 where flat: "flatten e (b, emptyCtx) = Inr (b1, ctx)"
    and b2: "writeSelectClause ctx (qualify ctx b1) = Inr b2" and b3: "writeFromClause ctx b2 = Inr b3"
    and b4: "writeWhereClause ctx b3 = Inr b4" and b5: "withOutputs ctx (?tail ctx) (writeGroupByClause ctx b4) = Inr b5"
    and b': "b' = writeLimit ctx b5"
    by (auto simp: renderSelect_def bindR_eq_Inr)
  obtain js where js: "b1 = b\<lparr>b_joins := js\<rparr>" using flatten_builder(1) [OF flat] by auto
  have "binds (pred_values (s_having ctx)) (writeGroupByClause ctx b4) b5"
    by (rule binds_withOutputs [OF b5]) (auto simp: bindR_eq_Inr dest!: binds_writeHavingClause)
  then have "binds (pred_values (s_having ctx)) b4 b5" by simp
  moreover have "binds [] b b2" using binds_writeSelectClause [OF b2] by (simp add: js)
  ultimately have "binds (ctx_values ctx) b b5"
    using binds_writeFromClause [OF b3] binds_writeWhereClause [OF b4] by (simp add: binds_def ctx_values_def)
  then show ?thesis using ctx_values_flat [OF flatten_inv [OF flat]] by (simp add: b')
qed

fun expr_values :: "expr \<Rightarrow> val list" where
  "expr_values (Insert t cs tups) = concat tups"
| "expr_values (Update t p items) = map si_Value items @ pred_values p"
| "expr_values (Delete t p) = pred_values p"
| "expr_values (Call proc args) = args"
| "expr_values e = join_values e @ where_values e @ having_values e"

lemma bind_tuples_fields [simp]:
  "b_args (bind_tuples first tups b) = b_args b @ concat tups"
  "b_ph (bind_tuples first tups b) = b_ph b + length (concat tups)"
  by (induction first tups b rule: bind_tuples.induct) auto

lemma bind_sets_fields [simp]:
  "b_args (bind_sets first ss b) = b_args b @ map si_Value ss" "b_ph (bind_sets first ss b) = b_ph b + length ss"
  by (induction first ss b rule: bind_sets.induct) (auto simp: Let_def)

lemma writeReturning_fields [simp]: "b_args (writeReturning b) = b_args b" "b_ph (writeReturning b) = b_ph b"
  by (simp_all add: writeReturning_def)

lemma binds_renderWhere: "renderWhere p b = Inr b' \<Longrightarrow> binds (pred_values p) b b'"
  by (auto simp: renderWhere_def bindR_eq_Inr dest!: binds_renderPredicate(1))

lemma binds_render: "render e b = Inr b' \<Longrightarrow> binds (expr_values e) b b'"
proof (cases e)
  case (Insert t cs tups)
  then show "render e b = Inr b' \<Longrightarrow> binds (expr_values e) b b'"
    by (auto simp: renderInsert_def binds_def Let_def split: if_splits)
next
  case (Update t p items)
  then show "render e b = Inr b' \<Longrightarrow> binds (expr_values e) b b'"
    by (auto simp: renderUpdate_def dest!: binds_renderWhere split: if_splits) (simp add: binds_def)
next
  case (Delete t p)
  then show "render e b = Inr b' \<Longrightarrow> binds (expr_values e) b b'"
    by (auto simp: renderDelete_def dest!: binds_renderWhere split: if_splits)
next
  case (Call proc args)
  then show "render e b = Inr b' \<Longrightarrow> binds (expr_values e) b b'"
    by (auto simp: renderCall_def binds_def)
qed (auto dest!: binds_renderSelect)

end
