(* ===== verification/Codegen_Props.thy ===== *)
theory Codegen_Props
  imports Codegen_Chain
begin

text \<open>
  The properties of code generation: the text of a statement does not depend on the values it binds,
  the arguments are the values in order, the clauses of a SELECT are the read chain, a cap is the
  limit it stands for, a write without a predicate is refused, only validated predicates are
  rendered, and the kind of a statement matches how it was rendered.
\<close>

section \<open>Fields rendering keeps\<close>

text \<open>\<open>kept b b'\<close>: the fields that rendering the clauses of a statement leaves alone.\<close>

definition kept :: "builder \<Rightarrow> builder \<Rightarrow> bool" where
  "kept b b' \<longleftrightarrow> b_readOnly b' = b_readOnly b \<and> b_capBase b' = b_capBase b \<and> b_capLimit b' = b_capLimit b \<and>
     b_capOffset b' = b_capOffset b \<and> b_maxINCardinality b' = b_maxINCardinality b \<and> b_dialect b' = b_dialect b \<and>
     (\<exists>s. b_sql b' = b_sql b @ s)"

lemma kept_refl [simp]: "kept b b"
  by (simp add: kept_def)

lemma kept_trans: "kept b b1 \<Longrightarrow> kept b1 b2 \<Longrightarrow> kept b b2"
  by (auto simp: kept_def)

lemma kept_emit [intro!]: "kept b b' \<Longrightarrow> kept b (emit s b')"
  by (auto simp: kept_def)

lemma kept_bind_arg [intro!]: "kept b b' \<Longrightarrow> kept b (bind_arg v b')"
  by (auto simp: kept_def)

lemma kept_bind_args [intro!]: "kept b b' \<Longrightarrow> kept b (bind_args first vs b')"
proof (induction first vs b' rule: bind_args.induct)
  case (2 first v vs b')
  then show ?case by (cases first) auto
qed simp

lemma kept_from_emit: "kept (emit s b) b' \<Longrightarrow> kept b b'"
  by (auto simp: kept_def)

lemma kept_updates [simp]:
  "kept b (b'\<lparr>b_scope := s\<rparr>) = kept b b'" "kept (b\<lparr>b_scope := s\<rparr>) b' = kept b b'"
  "kept b (b'\<lparr>b_exists := n\<rparr>) = kept b b'" "kept (b\<lparr>b_exists := n\<rparr>) b' = kept b b'"
  "kept b (b'\<lparr>b_outputs := m\<rparr>) = kept b b'" "kept (b\<lparr>b_outputs := m\<rparr>) b' = kept b b'"
  "kept b (b'\<lparr>b_joins := js\<rparr>) = kept b b'" "kept (b\<lparr>b_joins := js\<rparr>) b' = kept b b'"
  "kept b (b'\<lparr>b_root := s\<rparr>) = kept b b'" "kept (b\<lparr>b_root := s\<rparr>) b' = kept b b'"
  by (simp_all add: kept_def)

lemma kept_renderCondition: "renderCondition c b = Inr b' \<Longrightarrow> kept b b'"
  by (cases "c_Op c") (auto simp: renderCondition_def Let_def bindR_eq_Inr split: if_splits)

lemma kept_renderPredicate:
  "renderPredicate p b = Inr b' \<Longrightarrow> kept b b'"
  "renderList sep first ps b = Inr b' \<Longrightarrow> kept b b'"
  "renderOn al on p b = Inr b' \<Longrightarrow> kept b b'"
  "renderExists r on p b = Inr b' \<Longrightarrow> kept b b'"
proof (induction p b and sep first ps b and al on p b and r on p b arbitrary: b' and b' and b' and b'
    rule: renderPredicate_renderList_renderOn_renderExists.induct)
  case (2 c b)
  then show ?case by (simp add: kept_renderCondition)
next
  case (3 ps b)
  from "3.prems" obtain b1 where "renderList '' AND '' True ps (emit ''('' b) = Inr b1" and b': "b' = emit '')'' b1"
    by (auto simp: bindR_eq_Inr)
  from "3.IH" [OF this(1)] show ?case unfolding b' by (auto dest: kept_from_emit)
next
  case (4 ps b)
  from "4.prems" obtain b1 where "renderList '' OR '' True ps (emit ''('' b) = Inr b1" and b': "b' = emit '')'' b1"
    by (auto simp: bindR_eq_Inr)
  from "4.IH" [OF this(1)] show ?case unfolding b' by (auto dest: kept_from_emit)
next
  case (5 p b)
  from "5.IH" "5.prems" show ?case by (auto dest: kept_from_emit)
next
  case (8 sep first p ps b)
  then obtain b1 where b1: "renderPredicate p (if first then b else emit sep b) = Inr b1"
    and b': "renderList sep False ps b1 = Inr b'"
    by (auto simp: bindR_eq_Inr)
  have "kept b (if first then b else emit sep b)" by auto
  from kept_trans [OF kept_trans [OF this "8.IH"(1) [OF b1]] "8.IH"(2) [OF b1 b']] show ?case .
next
  case (9 al on p b)
  show ?case
  proof (cases "p = NilPred")
    case False
    let ?b = "(emit '' AND '' (emit (onText b al on) b))\<lparr>b_scope := al\<rparr>"
    from False "9.prems" obtain b1 where b1: "renderPredicate p ?b = Inr b1" and b': "b' = b1\<lparr>b_scope := b_scope b\<rparr>"
      by (auto simp: bindR_eq_Inr Let_def)
    have "kept b ?b" by auto
    from kept_trans [OF this "9.IH" [OF refl False b1]] show ?thesis by (simp add: b')
  qed (use "9.prems" in \<open>auto simp: Let_def\<close>)
next
  case (10 r on p b)
  let ?al = "''x'' @ show_nat (b_exists b + 1)"
  let ?b = "emit (''EXISTS (SELECT 1 FROM '' @ qtable b r @ '' AS '' @ qident b ?al @ '' WHERE '') (b\<lparr>b_exists := b_exists b + 1\<rparr>)"
  from "10.prems" obtain b1 where scope: "b_scope b = []" and b1: "renderOn ?al on p ?b = Inr b1" and b': "b' = emit '')'' b1"
    by (auto simp: bindR_eq_Inr Let_def simp del: renderOn.simps split: if_splits)
  have "kept b ?b" by auto
  moreover have "kept ?b b1" using "10.IH" [OF _ refl refl refl] scope b1 by (simp del: renderOn.simps)
  ultimately show ?case unfolding b' by (blast intro: kept_trans)
qed simp_all

lemma kept_qualify [simp]: "kept b (qualify ctx b') = kept b b'"
  by (simp add: qualify_def Let_def)

lemma kept_writeSelectClause: "writeSelectClause ctx b = Inr b' \<Longrightarrow> kept (emit ''SELECT '' b) b'"
  by (auto simp: writeSelectClause_def kept_def Let_def bindR_eq_Inr split: if_splits)

lemma kept_renderJoins: "foldR renderJoin js b = Inr b' \<Longrightarrow> kept b b'"
proof (induction js arbitrary: b)
  case (Cons j js)
  obtain r a on p where j: "j = (r, a, on, p)" by (cases j)
  from Cons.prems obtain b1 where b1: "renderJoin j b = Inr b1" and b': "foldR renderJoin js b1 = Inr b'"
    by (auto simp: bindR_eq_Inr)
  from b1 have "kept b b1"
    by (auto simp: renderJoin_def j bindR_eq_Inr simp del: renderOn.simps dest!: kept_renderPredicate(3) kept_from_emit)
  from kept_trans [OF this Cons.IH [OF b']] show ?case .
qed simp

lemma kept_writeFromClause: "writeFromClause ctx b = Inr b' \<Longrightarrow> kept b b'"
  by (auto simp: writeFromClause_def Let_def dest!: kept_renderJoins kept_from_emit split: if_splits)

lemma kept_writeWhereClause: "writeWhereClause ctx b = Inr b' \<Longrightarrow> kept b b'"
  by (auto simp: writeWhereClause_def simp del: renderPredicate.simps
      dest!: kept_renderPredicate(1) kept_from_emit split: list.splits)

lemma kept_writeGroupByClause [intro!]: "kept b b' \<Longrightarrow> kept b (writeGroupByClause ctx b')"
  by (auto simp: writeGroupByClause_def)

lemma kept_writeOrderByClause [intro!]: "kept b b' \<Longrightarrow> kept b (writeOrderByClause ctx b')"
  by (auto simp: writeOrderByClause_def)

lemma kept_writeHavingClause: "writeHavingClause ctx b = Inr b' \<Longrightarrow> kept b b'"
  by (auto simp: writeHavingClause_def dest!: kept_renderPredicate(1) kept_from_emit split: if_splits)

lemma kept_withOutputs:
  assumes "withOutputs ctx fn b = Inr b'" and "\<And>b b'. fn b = Inr b' \<Longrightarrow> kept b b'"
  shows "kept b b'"
  using assms(1) by (auto simp: withOutputs_def bindR_eq_Inr dest!: assms(2) split: if_splits)

text \<open>The clauses before LIMIT, from the context the chain was flattened to.\<close>

definition select_body :: "selectCtx \<Rightarrow> builder \<Rightarrow> codegen_error + builder" where
  "select_body ctx b1 =
     bindR (mapR (\<lambda>p. cg_validate p b1) (s_wherePreds ctx @ [s_having ctx])) (\<lambda>_.
     bindR (writeSelectClause ctx (qualify ctx b1)) (\<lambda>b2.
     bindR (writeFromClause ctx b2) (\<lambda>b3.
     bindR (writeWhereClause ctx b3) (\<lambda>b4.
       withOutputs ctx (\<lambda>b. bindR (writeHavingClause ctx b) (\<lambda>b'. Inr (writeOrderByClause ctx b')))
             (writeGroupByClause ctx b4)))))"

lemma renderSelect_body:
  "renderSelect e b = bindR (flatten e (b, emptyCtx)) (\<lambda>(b1, ctx).
     bindR (select_body ctx b1) (\<lambda>b5. Inr (writeLimit ctx b5)))"
  by (simp add: renderSelect_def select_body_def bindR_assoc split_beta)

lemma select_body_kept:
  assumes "select_body ctx b1 = Inr b5"
  shows "kept (emit ''SELECT '' b1) b5"
proof -
  let ?tail = "\<lambda>ctx b. bindR (writeHavingClause ctx b) (\<lambda>b'. Inr (writeOrderByClause ctx b'))"
  from assms obtain b2 b3 b4 where b2: "writeSelectClause ctx (qualify ctx b1) = Inr b2"
    and b3: "writeFromClause ctx b2 = Inr b3" and b4: "writeWhereClause ctx b3 = Inr b4"
    and b5: "withOutputs ctx (?tail ctx) (writeGroupByClause ctx b4) = Inr b5"
    by (auto simp: select_body_def bindR_eq_Inr)
  have tail: "kept (writeGroupByClause ctx b4) b5"
    by (rule kept_withOutputs [OF b5]) (auto simp: bindR_eq_Inr dest!: kept_writeHavingClause)
  have start: "kept (emit ''SELECT '' b1) (emit ''SELECT '' (qualify ctx b1))"
    by (simp add: kept_def qualify_def Let_def)
  have "kept b4 (writeGroupByClause ctx b4)" by auto
  note kept_trans [OF kept_trans [OF kept_writeWhereClause [OF b4] this] tail]
  from kept_trans [OF kept_trans [OF kept_trans [OF start kept_writeSelectClause [OF b2]] kept_writeFromClause [OF b3]] this]
  show ?thesis .
qed

text \<open>The limit of a context is no part of its body.\<close>

lemma select_body_limit [simp]:
  "select_body (ctx\<lparr>s_limit := n, s_offset := off, s_hasLimit := h, s_rank := k\<rparr>) b = select_body ctx b"
  by (simp add: select_body_def writeSelectClause_def writeFromClause_def writeWhereClause_def writeGroupByClause_def
      writeHavingClause_def writeOrderByClause_def withOutputs_def renderAggregateCols_def qualify_def
      cong: if_cong list.case_cong)

lemma flatten_Limit:
  "flatten (Limit e n off) st =
     bindR (checkLimit n off) (\<lambda>_. bindR (flatten e st) (\<lambda>(b, ctx).
       if 8 \<le> s_rank ctx then Inl ErrUnsupportedExpr
       else Inr (b, ctx\<lparr>s_limit := n, s_offset := off, s_hasLimit := True, s_rank := 8\<rparr>)))"
  by (cases "checkLimit n off"; cases "flatten e st")
    (auto simp: flatten.simps [of "Limit e n off"] checkRank_def is_Scan_def)

lemma renderSelect_Limit:
  assumes "1 \<le> n" and "0 \<le> off" and "flatten e (b, emptyCtx) = Inr (b1, ctx)" and "s_rank ctx < 8"
    and "select_body ctx b1 = Inr b5"
  shows "renderSelect (Limit e n off) b =
    Inr (writeLimit (ctx\<lparr>s_limit := n, s_offset := off, s_hasLimit := True, s_rank := 8\<rparr>) b5)"
  using assms by (simp add: renderSelect_body flatten_Limit checkLimit_def)

text \<open>Whether an expression is rendered as a SELECT.\<close>

definition is_read :: "expr \<Rightarrow> bool" where
  "is_read e \<longleftrightarrow> (case e of NilExpr \<Rightarrow> False | Insert _ _ _ \<Rightarrow> False | Update _ _ _ \<Rightarrow> False | Delete _ _ \<Rightarrow> False
     | Call _ _ \<Rightarrow> False | _ \<Rightarrow> True)"

lemma render_read: "is_read e \<Longrightarrow> render e b = renderSelect e (b\<lparr>b_readOnly := True\<rparr>)"
  by (cases e) (auto simp: is_read_def)

lemma renderSelect_readOnly: "renderSelect e b = Inr b' \<Longrightarrow> b_readOnly b' = b_readOnly b"
proof -
  assume "renderSelect e b = Inr b'"
  then obtain b1 ctx b5 where flat: "flatten e (b, emptyCtx) = Inr (b1, ctx)" and body: "select_body ctx b1 = Inr b5"
    and b': "b' = writeLimit ctx b5" by (auto simp: renderSelect_body bindR_eq_Inr)
  have "b_readOnly b1 = b_readOnly b" using flatten_builder(1) [OF flat] by auto
  then show ?thesis using select_body_kept [OF body] by (simp add: b' kept_def writeLimit_def Let_def)
qed

lemma bind_tuples_kept [intro!]: "kept b b' \<Longrightarrow> kept b (bind_tuples first tups b')"
proof (induction first tups b' rule: bind_tuples.induct)
  case (2 first tup tups b')
  then show ?case by (cases first) auto
qed simp

lemma bind_sets_kept [intro!]: "kept b b' \<Longrightarrow> kept b (bind_sets first ss b')"
proof (induction first ss b' rule: bind_sets.induct)
  case (2 first s ss b')
  then show ?case by (cases first) (auto simp: Let_def)
qed simp

lemma writeReturning_kept [intro!]: "kept b b' \<Longrightarrow> kept b (writeReturning b')"
  by (auto simp: writeReturning_def)

lemma kept_renderWhere: "renderWhere p b = Inr b' \<Longrightarrow> kept b b'"
  by (auto simp: renderWhere_def bindR_eq_Inr dest!: kept_renderPredicate(1) kept_from_emit)

lemma kept_render_write:
  assumes "render e b = Inr b'" and "\<not> is_read e"
  shows "kept b b'"
proof (cases e)
  case (Insert t cs tups)
  with assms show ?thesis by (auto simp: renderInsert_def Let_def split: if_splits)
next
  case (Update t p items)
  let ?b = "bind_sets True items (emit '' SET '' (emit (qtable b t) (emit ''UPDATE '' b)))"
  have "kept b ?b" by auto
  moreover have "renderWhere p ?b = Inr b'" using assms Update by (auto simp: renderUpdate_def split: if_splits)
  ultimately show ?thesis using kept_trans kept_renderWhere by blast
next
  case (Delete t p)
  with assms show ?thesis
    by (auto simp: renderDelete_def dest!: kept_renderWhere kept_from_emit split: if_splits)
next
  case (Call proc args)
  with assms show ?thesis by (auto simp: renderCall_def)
qed (use assms in \<open>simp_all add: is_read_def\<close>)

lemma Compile_Inr:
  assumes "Compile d e opts = Inr c"
  shows "\<exists>b. render e (new_builder d (applyOptions opts)) = Inr b \<and> 0 < cc_maxINCardinality (applyOptions opts) \<and>
    co_Expr c = e \<and> co_Kind c = kindOf e \<and> co_SQL c = b_sql b \<and> co_Args c = b_args b \<and> co_ReadOnly c = b_readOnly b \<and>
    co_capBase c = b_capBase b \<and> co_capLimit c = b_capLimit b \<and> co_capOffset c = b_capOffset b"
  using assms by (auto simp: Compile_def Let_def bindR_eq_Inr split: if_splits)

lemma Compile_ok:
  assumes "render e (new_builder d (applyOptions opts)) = Inr b" and "0 < cc_maxINCardinality (applyOptions opts)"
  shows "\<exists>c. Compile d e opts = Inr c \<and> co_SQL c = b_sql b \<and> co_Args c = b_args b"
  using assms by (simp add: Compile_def Let_def)

lemma Compile_readOnly: "Compile d e opts = Inr c \<Longrightarrow> co_ReadOnly c = is_read e"
proof -
  assume "Compile d e opts = Inr c"
  from Compile_Inr [OF this] obtain b where b: "render e (new_builder d (applyOptions opts)) = Inr b"
    "co_ReadOnly c = b_readOnly b" by blast
  show ?thesis
  proof (cases "is_read e")
    case True
    with b renderSelect_readOnly show ?thesis by (fastforce simp: render_read)
  next
    case False
    from kept_render_write [OF b(1) False] b(2) False show ?thesis by (simp add: kept_def new_builder_def)
  qed
qed

lemma erase_compiled_eqD:
  assumes "erase_compiled c = erase_compiled c'"
  shows "co_SQL c = co_SQL c'" and "co_Kind c = co_Kind c'" and "co_IsKeyPoint c = co_IsKeyPoint c'"
    and "co_ReadOnly c = co_ReadOnly c'" and "length (co_Args c) = length (co_Args c')"
  using arg_cong [OF assms, of co_SQL] arg_cong [OF assms, of co_Kind] arg_cong [OF assms, of co_IsKeyPoint]
    arg_cong [OF assms, of co_ReadOnly] arg_cong [OF assms, of "\<lambda>c. length (co_Args c)"]
  by (simp_all add: erase_compiled_def)

text \<open>A flattened expression is a chain of operators over a scan.\<close>

fun has_aggregate :: "expr \<Rightarrow> bool" where
  "has_aggregate (Aggregate e gs as) = True"
| "has_aggregate (Select e p) = has_aggregate e"
| "has_aggregate (Project e items) = has_aggregate e"
| "has_aggregate (Sort e ts) = has_aggregate e"
| "has_aggregate (Limit e n off) = has_aggregate e"
| "has_aggregate (Distinct e) = has_aggregate e"
| "has_aggregate (Having e p) = has_aggregate e"
| "has_aggregate (Join e r a on p) = has_aggregate e"
| "has_aggregate _ = False"

lemma flatten_child:
  assumes "flatten e (b, emptyCtx) = Inr (b', ctx)"
  shows "is_Scan e \<or> (\<exists>e1 b1 c1. Input e = Some e1 \<and> flatten e1 (b, emptyCtx) = Inr (b1, c1))"
proof -
  from flatten_cases [OF assms] obtain c1 where node: "flattenNode e (b, emptyCtx) = Inr (b', c1)" by blast
  from flattenNode_inv [OF node] show ?thesis by (cases e) (auto simp: is_Scan_def)
qed

lemma kindOf_loop_flat:
  "flatten e (b, emptyCtx) = Inr (b', ctx) \<Longrightarrow> is_Scan (snd (kindOf_loop k e)) \<and>
     fst (kindOf_loop k e) = (if has_aggregate e then KindAggregate else k)"
proof (induction k e arbitrary: b' ctx rule: kindOf_loop.induct)
  case (1 k e)
  let ?k = "if is_Aggregate e then KindAggregate else k"
  from flatten_child [OF "1.prems"] show ?case
  proof (elim disjE exE conjE)
    assume "is_Scan e"
    then show ?thesis by (cases e) (simp_all add: kindOf_loop.simps is_Scan_def is_Aggregate_def)
  next
    fix e1 b1 c1
    assume e1: "Input e = Some e1" and "flatten e1 (b, emptyCtx) = Inr (b1, c1)"
    from "1.IH" [OF refl this] have "is_Scan (snd (kindOf_loop ?k e1))"
      "fst (kindOf_loop ?k e1) = (if has_aggregate e1 then KindAggregate else ?k)" by blast+
    with e1 show ?thesis
      by (subst (1 2) kindOf_loop.simps) (cases e; simp add: Let_def is_Aggregate_def)
  qed
qed

text \<open>The predicates of an expression, those of its joins included.\<close>

fun expr_preds :: "expr \<Rightarrow> predicate set" where
  "expr_preds (Aggregate e gs as) = expr_preds e"
| "expr_preds (Select e p) = insert p (expr_preds e)"
| "expr_preds (Project e items) = expr_preds e"
| "expr_preds (Sort e ts) = expr_preds e"
| "expr_preds (Limit e n off) = expr_preds e"
| "expr_preds (Distinct e) = expr_preds e"
| "expr_preds (Having e p) = insert p (expr_preds e)"
| "expr_preds (Join e r a on p) = insert p (expr_preds e)"
| "expr_preds (Update t p items) = {p}"
| "expr_preds (Delete t p) = {p}"
| "expr_preds _ = {}"

definition ctx_preds :: "selectCtx \<Rightarrow> predicate set" where
  "ctx_preds ctx = insert (s_having ctx) (set (s_wherePreds ctx) \<union> (\<lambda>(r, a, on, p). p) ` set (s_joins ctx))"

lemma flatten_step:
  assumes "flatten e (b, emptyCtx) = Inr (b', ctx)"
  shows "case e of
      Scan r a \<Rightarrow> True
    | Having e1 p \<Rightarrow> \<exists>b1 c1. flatten e1 (b, emptyCtx) = Inr (b1, c1) \<and> s_having c1 = NilPred \<and>
        ctx_preds ctx = insert p (set (s_wherePreds c1) \<union> (\<lambda>(r, a, on, p). p) ` set (s_joins c1))
    | Select e1 p \<Rightarrow> \<exists>b1 c1. flatten e1 (b, emptyCtx) = Inr (b1, c1) \<and> ctx_preds ctx = insert p (ctx_preds c1)
    | Join e1 r a on p \<Rightarrow> \<exists>b1 c1. flatten e1 (b, emptyCtx) = Inr (b1, c1) \<and> ctx_preds ctx = insert p (ctx_preds c1)
    | _ \<Rightarrow> \<exists>e1 b1 c1. Input e = Some e1 \<and> flatten e1 (b, emptyCtx) = Inr (b1, c1) \<and> ctx_preds ctx = ctx_preds c1"
proof -
  from flatten_cases [OF assms] obtain c0 where node: "flattenNode e (b, emptyCtx) = Inr (b', c0)"
    and c0: "ctx = c0\<lparr>s_rank := fst (rankOf e)\<rparr>"
    and rank: "is_Scan e \<or> s_rank c0 < fst (rankOf e) \<or> s_rank c0 = fst (rankOf e) \<and> snd (rankOf e)" by blast
  note inv = flattenNode_inv [OF node]
  show ?thesis
  proof (cases e)
    case (Having e1 p)
    with inv obtain c1 where c1: "flatten e1 (b, emptyCtx) = Inr (b', c1)" "c0 = c1\<lparr>s_having := p\<rparr>" by auto
    with rank Having flatten_inv [OF c1(1)] unset_mono have "unset_after 3 c1" by (auto simp: flat_inv_def is_Scan_def)
    with c1 Having show ?thesis by (auto simp: ctx_preds_def c0 unset_after_def)
  qed (use inv in \<open>auto simp: ctx_preds_def c0\<close>)
qed

lemma flatten_preds: "flatten e (b, emptyCtx) = Inr (b', ctx) \<Longrightarrow> expr_preds e \<subseteq> insert NilPred (ctx_preds ctx)"
proof (induction e arbitrary: b' ctx)
  case (Having e p)
  then obtain c1 b1 where c1: "flatten e (b, emptyCtx) = Inr (b1, c1)" "s_having c1 = NilPred"
      "ctx_preds ctx = insert p (set (s_wherePreds c1) \<union> (\<lambda>(r, a, on, p). p) ` set (s_joins c1))"
    using flatten_step [OF Having.prems] by auto
  with Having.IH [OF c1(1)] show ?case by (auto simp: ctx_preds_def)
next
  case (Select e p)
  then obtain c1 b1 where "flatten e (b, emptyCtx) = Inr (b1, c1)" and "ctx_preds ctx = insert p (ctx_preds c1)"
    using flatten_step [OF Select.prems] by auto
  with Select.IH show ?case by auto
next
  case (Join e r a on p)
  then obtain c1 b1 where "flatten e (b, emptyCtx) = Inr (b1, c1)" and "ctx_preds ctx = insert p (ctx_preds c1)"
    using flatten_step [OF Join.prems] by auto
  with Join.IH show ?case by auto
next
  case (Project e items)
  then obtain c1 b1 where "flatten e (b, emptyCtx) = Inr (b1, c1)" and "ctx_preds ctx = ctx_preds c1"
    using flatten_step [OF Project.prems] by auto
  with Project.IH show ?case by auto
next
  case (Aggregate e gs as)
  then obtain c1 b1 where "flatten e (b, emptyCtx) = Inr (b1, c1)" and "ctx_preds ctx = ctx_preds c1"
    using flatten_step [OF Aggregate.prems] by auto
  with Aggregate.IH show ?case by auto
next
  case (Sort e ts)
  then obtain c1 b1 where "flatten e (b, emptyCtx) = Inr (b1, c1)" and "ctx_preds ctx = ctx_preds c1"
    using flatten_step [OF Sort.prems] by auto
  with Sort.IH show ?case by auto
next
  case (Limit e n off)
  then obtain c1 b1 where "flatten e (b, emptyCtx) = Inr (b1, c1)" and "ctx_preds ctx = ctx_preds c1"
    using flatten_step [OF Limit.prems] by auto
  with Limit.IH show ?case by auto
next
  case (Distinct e)
  then obtain c1 b1 where "flatten e (b, emptyCtx) = Inr (b1, c1)" and "ctx_preds ctx = ctx_preds c1"
    using flatten_step [OF Distinct.prems] by auto
  with Distinct.IH show ?case by auto
qed (use flatten_step in fastforce)+

text \<open>Every predicate of a rendered expression has passed validation.\<close>

abbreviation valid_in :: "builder \<Rightarrow> predicate \<Rightarrow> bool" where
  "valid_in b p \<equiv> ValidatePredicateWithMaxINCardinality p (b_maxINCardinality b) = Inr ()"

lemma cg_validate_Inr: "cg_validate p b = Inr u \<longleftrightarrow> valid_in b p"
  by (auto simp: cg_validate_def split: sum.splits)

lemma renderJoin_valid: "renderJoin (r, a, on, p) b = Inr b' \<Longrightarrow> valid_in b p"
  by (simp add: renderJoin_def bindR_eq_Inr cg_validate_Inr del: renderOn.simps)

lemma renderJoins_valid:
  "foldR renderJoin js b = Inr b' \<Longrightarrow> (r, a, on, p) \<in> set js \<Longrightarrow> valid_in b p"
proof (induction js arbitrary: b)
  case (Cons j js)
  obtain b1 where b1: "renderJoin j b = Inr b1" "foldR renderJoin js b1 = Inr b'"
    using Cons.prems(1) by (auto simp: bindR_eq_Inr)
  have "b_maxINCardinality b1 = b_maxINCardinality b" using kept_renderJoins [of "[j]" b b1] b1(1) by (simp add: kept_def)
  then show ?case using Cons.IH [OF b1(2)] Cons.prems(2) renderJoin_valid b1(1) by auto
qed simp

lemma writeFromClause_valid:
  assumes "writeFromClause ctx b = Inr b'" and "(r, a, on, p) \<in> set (s_joins ctx)"
  shows "valid_in b p"
proof -
  have emit_max: "b_maxINCardinality (if c then emit s1 (emit s2 b) else emit s2 b) = b_maxINCardinality b" for c s1 s2
    by (simp add: emit_def)
  show ?thesis using assms(1) unfolding writeFromClause_def Let_def
    by (auto simp only: emit_max dest!: renderJoins_valid [OF _ assms(2)])
qed

lemma renderSelect_valid:
  assumes "renderSelect e b = Inr b'" and "p \<in> expr_preds e" and "0 < b_maxINCardinality b"
  shows "valid_in b p"
proof -
  obtain b1 ctx b5 where flat: "flatten e (b, emptyCtx) = Inr (b1, ctx)" and sel: "select_body ctx b1 = Inr b5"
    using assms(1) by (auto simp: renderSelect_body bindR_eq_Inr)
  have m: "b_maxINCardinality b1 = b_maxINCardinality b" using flatten_builder(1) [OF flat] by auto
  obtain us b3 b4 where vals: "mapR (\<lambda>p. cg_validate p b1) (s_wherePreds ctx @ [s_having ctx]) = Inr us"
    and b3: "writeSelectClause ctx (qualify ctx b1) = Inr b3" and fc: "writeFromClause ctx b3 = Inr b4"
    using sel by (auto simp: select_body_def bindR_eq_Inr)
  have "b_maxINCardinality b3 = b_maxINCardinality (qualify ctx b1)"
    using kept_writeSelectClause [OF b3] by (simp add: kept_def)
  then have m3: "b_maxINCardinality b3 = b_maxINCardinality b" using m by (simp add: qualify_def Let_def)
  have "valid_in b1 q" if "q \<in> set (s_wherePreds ctx @ [s_having ctx])" for q
    using mapR_Inr_ok [OF vals that] by (auto simp: cg_validate_Inr)
  moreover have "p \<in> insert NilPred (ctx_preds ctx)" using flatten_preds [OF flat] assms(2) by blast
  ultimately show ?thesis using writeFromClause_valid [OF fc] m m3 assms(3)
    by (auto simp: ctx_preds_def ValidatePredicateWithMaxINCardinality.simps)
qed

lemma render_valid:
  assumes "render e b = Inr b'" and "p \<in> expr_preds e" and "0 < b_maxINCardinality b"
  shows "valid_in b p"
proof (cases "is_read e")
  case True
  with assms renderSelect_valid [of e "b\<lparr>b_readOnly := True\<rparr>"] show ?thesis by (auto simp: render_read)
next
  case False
  let ?b = "\<lambda>t items. bind_sets True items (emit '' SET '' (emit (qtable b t) (emit ''UPDATE '' b)))"
  have "kept b (?b t items)" for t items by auto
  then have "b_maxINCardinality (?b t items) = b_maxINCardinality b" for t items by (simp add: kept_def)
  then show ?thesis using False assms
    by (cases e) (auto simp: is_read_def renderUpdate_def renderDelete_def renderWhere_def bindR_eq_Inr cg_validate_Inr
        split: if_splits)
qed

text \<open>The limit a cap stands for: the chain's own one tightened, or one more node on top.\<close>

definition with_cap :: "expr \<Rightarrow> int \<Rightarrow> expr" where
  "with_cap e n = (case e of Limit e1 m off \<Rightarrow> Limit e1 (min m n) off | _ \<Rightarrow> Limit e n 0)"

lemma flatten_Limit_inv:
  assumes "flatten (Limit e m off) (b, emptyCtx) = Inr (b1, ctx)"
  obtains c where "flatten e (b, emptyCtx) = Inr (b1, c)" and "s_rank c < 8" and "1 \<le> m" and "0 \<le> off"
    and "ctx = c\<lparr>s_limit := m, s_offset := off, s_hasLimit := True, s_rank := 8\<rparr>"
  using assms by (auto simp: flatten_Limit bindR_eq_Inr checkLimit_def split: if_splits)

lemma rankOf_less: "(\<nexists>e1 m off. e = Limit e1 m off) \<Longrightarrow> is_read e \<Longrightarrow> fst (rankOf e) < 8"
  by (cases e) (simp_all add: is_read_def)

lemma renderSelect_cap:
  assumes "renderSelect e b = Inr b'" and "is_read e" and "1 \<le> n" and "b_capLimit b = 0" and "b_capOffset b = 0"
  shows "\<exists>b''. renderSelect (with_cap e n) b = Inr b'' \<and> b_capBase b' \<noteq> [] \<and> b_args b'' = b_args b' \<and>
    b_sql b' = b_capBase b' @ limitClause (b_capLimit b') (b_capOffset b') \<and>
    b_sql b'' = b_capBase b' @ limitClause (if 1 \<le> b_capLimit b' \<and> b_capLimit b' \<le> n then b_capLimit b' else n) (b_capOffset b')"
proof -
  obtain b1 ctx b5 where flat: "flatten e (b, emptyCtx) = Inr (b1, ctx)" and body: "select_body ctx b1 = Inr b5"
    and b': "b' = writeLimit ctx b5" using assms(1) by (auto simp: renderSelect_body bindR_eq_Inr)
  have "b_capLimit b1 = 0" "b_capOffset b1 = 0" using flatten_builder(1) [OF flat] assms by auto
  then have b5: "b_capLimit b5 = 0" "b_capOffset b5 = 0" "b_sql b5 \<noteq> []"
    using select_body_kept [OF body] by (auto simp: kept_def emit_def)
  show ?thesis
  proof (cases "\<exists>e1 m off. e = Limit e1 m off")
    case True
    then obtain e1 m off where e: "e = Limit e1 m off" by blast
    from flat [unfolded e] obtain c where c: "flatten e1 (b, emptyCtx) = Inr (b1, c)" "s_rank c < 8" "1 \<le> m" "0 \<le> off"
      "ctx = c\<lparr>s_limit := m, s_offset := off, s_hasLimit := True, s_rank := 8\<rparr>" by (rule flatten_Limit_inv)
    have "select_body c b1 = Inr b5" using body c by simp
    with renderSelect_Limit [OF _ c(4) c(1,2) this, of "min m n"] assms(3) c b5 show ?thesis
      by (simp add: e with_cap_def b' writeLimit_def emit_def min_def)
  next
    case False
    have "s_rank ctx < 8" "unset_after (s_rank ctx) ctx"
      using flatten_inv [OF flat] rankOf_less [OF False assms(2)] by (auto simp: flat_inv_def)
    moreover from this have "\<not> s_hasLimit ctx" by (simp add: unset_after_def)
    moreover have "with_cap e n = Limit e n 0" using False by (cases e) (simp_all add: with_cap_def)
    ultimately show ?thesis using renderSelect_Limit [OF assms(3) order.refl flat _ body] b5
      by (simp add: b' writeLimit_def emit_def)
  qed
qed

lemma kept_text: "kept (emit s b) b' \<Longrightarrow> s \<noteq> [] \<Longrightarrow> \<exists>w. b_sql b' = b_sql b @ w \<and> w \<noteq> []"
  by (auto simp: kept_def)

lemma emit_text: "kept b b1 \<Longrightarrow> s \<noteq> [] \<Longrightarrow> \<exists>w. b_sql (emit s b1) = b_sql b @ w \<and> w \<noteq> []"
  by (auto simp: kept_def)

text \<open>A predicate that is rendered leaves text behind.\<close>

lemma renderCondition_text:
  assumes "renderCondition c b = Inr b'"
  shows "\<exists>w. b_sql b' = b_sql b @ w \<and> w \<noteq> []"
proof (cases "c_Op c = OpIn \<or> c_Op c = OpNotIn")
  case True
  with assms show ?thesis
    by (auto simp: renderCondition_def Let_def bindR_eq_Inr intro!: emit_text split: op.splits if_splits)
next
  case False
  with assms show ?thesis
    by (auto simp: renderCondition_def Let_def emit_def split: op.splits if_splits)
qed

lemma renderPredicate_text:
  assumes "renderPredicate p b = Inr b'" and "p \<noteq> NilPred"
  shows "\<exists>w. b_sql b' = b_sql b @ w \<and> w \<noteq> []"
proof (cases p)
  case (Exists r on q)
  let ?b = "b\<lparr>b_exists := b_exists b + 1\<rparr>"
  obtain al s b2 where b2: "renderOn al on q (emit s ?b) = Inr b2" "b' = emit '')'' b2"
    using assms(1) Exists by (auto simp: Let_def bindR_eq_Inr simp del: renderOn.simps split: if_splits)
  from kept_from_emit [OF kept_renderPredicate(3) [OF b2(1)]] have "kept b b2" by simp
  then show ?thesis unfolding b2(2) by (rule emit_text) simp
qed (use assms in \<open>auto simp: bindR_eq_Inr dest!: renderCondition_text kept_renderPredicate intro!: emit_text intro: kept_from_emit kept_text\<close>)

section \<open>Properties\<close>

text \<open>
  C6: the text of a statement, its kind and its flags depend only on the shape of the expression,
  never on the values it binds: two expressions that differ in values only compile to the same SQL
  and to equally many arguments, or fail alike.
\<close>

theorem Compile_value_free:
  assumes "erase_expr e = erase_expr e'"
  shows "case (Compile d e opts, Compile d e' opts) of
      (Inr c, Inr c') \<Rightarrow> co_SQL c = co_SQL c' \<and> co_Kind c = co_Kind c' \<and> co_IsKeyPoint c = co_IsKeyPoint c' \<and>
        co_ReadOnly c = co_ReadOnly c' \<and> length (co_Args c) = length (co_Args c')
    | (Inl err, Inl err') \<Rightarrow> err = err'
    | _ \<Rightarrow> False"
proof -
  have "map_sum id erase_compiled (Compile d e opts) = map_sum id erase_compiled (Compile d e' opts)"
    using assms erase_Compile [of d e opts] erase_Compile [of d e' opts] by simp
  then show ?thesis
    by (cases "Compile d e opts"; cases "Compile d e' opts") (auto dest: erase_compiled_eqD)
qed

text \<open>
  C8: the arguments of a statement are exactly the values of its expression, in the order the clauses
  are rendered: for a write the tuples, or the assignments and then the predicate, for a read the join
  predicates, then the WHERE predicates, then HAVING.
\<close>

theorem Compile_args:
  assumes "Compile d e opts = Inr c"
  shows "co_Args c = expr_values e"
proof -
  from Compile_Inr [OF assms] obtain b where "render e (new_builder d (applyOptions opts)) = Inr b" "co_Args c = b_args b"
    by blast
  then show ?thesis using binds_render [of e] by (fastforce simp: binds_def new_builder_def)
qed

text \<open>
  C7: flattening a read chain into the clauses of one SELECT loses and reorders no operator that has content: for every
  chain that is accepted, rebuilding it from the clauses and the scanned relation gives the chain back, but for the
  operators with nothing in them (a projection without items, an aggregation without keys and calls, a sort without
  terms), which a SELECT has no clause for. A chain without such an operator comes back unchanged.
\<close>

theorem flatten_lossless:
  assumes "flatten e (b, emptyCtx) = Inr (b', ctx)"
  shows "\<exists>rel. s_from ctx = qtable b rel \<and> unflatten rel ctx = without_empty e"
  using flatten_inv [OF assms] by (auto simp: flat_inv_def)

lemma CapRows_with_cap:
  assumes "Compile d e opts = Inr c" and "co_ReadOnly c" and "1 \<le> n"
  shows "\<exists>c'. Compile d (with_cap e n) opts = Inr c' \<and> snd (CapRows c n) \<and>
    co_SQL (fst (CapRows c n)) = co_SQL c' \<and> co_Args (fst (CapRows c n)) = co_Args c'"
proof -
  let ?b0 = "new_builder d (applyOptions opts)"
  from Compile_Inr [OF assms(1)] obtain b where b: "render e ?b0 = Inr b" "0 < cc_maxINCardinality (applyOptions opts)"
    "co_SQL c = b_sql b" "co_Args c = b_args b" "co_capBase c = b_capBase b" "co_capLimit c = b_capLimit b"
    "co_capOffset c = b_capOffset b" by blast
  have read: "is_read e" "is_read (with_cap e n)"
    using Compile_readOnly [OF assms(1)] assms(2) by (auto simp: with_cap_def is_read_def split: expr.splits)
  from renderSelect_cap [of e "?b0\<lparr>b_readOnly := True\<rparr>" b n] b read assms(3)
  obtain b'' where b'': "render (with_cap e n) ?b0 = Inr b''" "b_capBase b \<noteq> []" "b_args b'' = b_args b"
    "b_sql b = b_capBase b @ limitClause (b_capLimit b) (b_capOffset b)"
    "b_sql b'' = b_capBase b @ limitClause (if 1 \<le> b_capLimit b \<and> b_capLimit b \<le> n then b_capLimit b else n) (b_capOffset b)"
    by (auto simp: render_read new_builder_def)
  from Compile_ok [OF b''(1) b(2)] b''(2-5) b assms(3) show ?thesis by (auto simp: CapRows_def)
qed

text \<open>
  Capping a compiled read at \<open>n\<close> rows gives the statement that compiling the read under a limit
  would give: the chain's own limit tightened to \<open>n\<close>, or a limit of \<open>n\<close> on top of it.
\<close>

theorem CapRows_is_Limit:
  assumes "Compile d e opts = Inr c" and "co_ReadOnly c" and "1 \<le> n"
  shows "\<exists>c'. Compile d (with_cap e n) opts = Inr c' \<and> snd (CapRows c n) \<and>
    co_SQL (fst (CapRows c n)) = co_SQL c' \<and> co_Args (fst (CapRows c n)) = co_Args c'"
  using assms by (rule CapRows_with_cap)

lemma Compile_kindOf:
  assumes "Compile d e opts = Inr c"
  shows "co_ReadOnly c = is_read e \<and>
    co_Kind c = (if is_read e then if has_aggregate e then KindAggregate else KindRead
                 else case e of Call _ _ \<Rightarrow> KindCall | _ \<Rightarrow> KindWrite)"
proof -
  from Compile_Inr [OF assms] obtain b where b: "render e (new_builder d (applyOptions opts)) = Inr b" "co_Kind c = kindOf e"
    by blast
  show ?thesis
  proof (cases "is_read e")
    case True
    with b obtain b1 ctx where "flatten e ((new_builder d (applyOptions opts))\<lparr>b_readOnly := True\<rparr>, emptyCtx) = Inr (b1, ctx)"
      by (auto simp: render_read renderSelect_body bindR_eq_Inr)
    from kindOf_loop_flat [OF this, of KindRead] True b(2) show ?thesis
      by (cases e) (auto simp: Compile_readOnly [OF assms] kindOf_def is_read_def split_beta Let_def)
  next
    case False
    with b show ?thesis
      by (cases e) (auto simp: Compile_readOnly [OF assms] kindOf_def is_read_def)
  qed
qed

text \<open>
  The kind of a compiled statement says how it was rendered: it is marked read-only exactly when it
  is a SELECT, which is an aggregation when the chain aggregates and a read otherwise; a call is a call and
  everything else is a write.
\<close>

theorem Compile_kind:
  assumes "Compile d e opts = Inr c"
  shows "co_ReadOnly c = is_read e \<and>
    co_Kind c = (if is_read e then if has_aggregate e then KindAggregate else KindRead
                 else case e of Call _ _ \<Rightarrow> KindCall | _ \<Rightarrow> KindWrite)"
  using assms by (rule Compile_kindOf)

text \<open>
  C9: an UPDATE or a DELETE without a predicate, and an UPDATE that assigns nothing, never compile; one
  that compiles ends in a WHERE clause that holds exactly the rendered predicate, which is not empty.
\<close>

theorem Compile_bounded_writes:
  assumes "Compile d e opts = Inr c" and "e = Update t p items \<or> e = Delete t p"
  shows "p \<noteq> NilPred \<and> (e = Update t p items \<longrightarrow> items \<noteq> []) \<and>
    (\<exists>b0 b1 w. renderPredicate p b0 = Inr b1 \<and> b_sql b1 = b_sql b0 @ w \<and> w \<noteq> [] \<and>
       (\<exists>pre. b_sql b0 = pre @ '' WHERE '') \<and> co_SQL c = b_sql b1)"
proof -
  from Compile_Inr [OF assms(1)] obtain b where b: "render e (new_builder d (applyOptions opts)) = Inr b" "co_SQL c = b_sql b"
    by blast
  with assms(2) have p: "p \<noteq> NilPred" "e = Update t p items \<longrightarrow> items \<noteq> []" and "\<exists>b0. renderWhere p b0 = Inr b"
    by (auto simp: renderUpdate_def renderDelete_def split: if_splits)
  then obtain b0 where w: "renderPredicate p (emit '' WHERE '' b0) = Inr b" by (auto simp: renderWhere_def bindR_eq_Inr)
  from renderPredicate_text [OF w p(1)] obtain w where "b_sql b = b_sql (emit '' WHERE '' b0) @ w" "w \<noteq> []" by blast
  moreover have "\<exists>pre. b_sql (emit '' WHERE '' b0) = pre @ '' WHERE ''" by (simp add: emit_def)
  ultimately show ?thesis using p w b(2) by blast
qed

text \<open>
  Nothing is rendered that has not been validated: in a statement that compiles, every predicate, those of the
  joins included, is well formed at every node (operators have the operands they need, lists are neither
  empty nor longer than the limit, no operand of AND, OR or NOT is missing, a related relation has a name and join
  columns) and EXISTS does not nest.
\<close>

theorem Compile_validated:
  assumes "Compile d e opts = Inr c" and "p \<in> expr_preds e"
  shows "(\<forall>q\<in>nodes p. node_ok (cc_maxINCardinality (applyOptions opts)) q) \<and> exists_depth p \<le> 1"
proof -
  from Compile_Inr [OF assms(1)] obtain b where "render e (new_builder d (applyOptions opts)) = Inr b"
    and m: "0 < cc_maxINCardinality (applyOptions opts)" by blast
  from render_valid [OF this(1) assms(2)] m show ?thesis
    using validate_nodes(1) [OF m, of p] by (simp add: new_builder_def)
qed

section \<open>Witnesses\<close>

definition ex_t :: relation_ref where
  "ex_t = \<lparr>rr_Schema = ''app'', rr_Name = ''t''\<rparr>"

definition ex_read :: "val \<Rightarrow> expr" where
  "ex_read v = Sort (Select (Scan ex_t [])
       (And [Condition \<lparr>c_Field = ''a'', c_Op = OpEq, c_Value = v\<rparr>,
             Condition \<lparr>c_Field = ''b'', c_Op = OpIn, c_Value = VList [v, VInt 2]\<rparr>]))
       [\<lparr>ot_Field = ''a'', ot_Dir = ''desc'', ot_Nullable = True\<rparr>]"

definition ex_pred :: predicate where
  "ex_pred = Condition \<lparr>c_Field = ''a'', c_Op = OpEq, c_Value = VInt 1\<rparr>"

definition ex_delete :: expr where
  "ex_delete = Delete ex_t ex_pred"

definition compiles :: "dialect \<Rightarrow> expr \<Rightarrow> bool \<Rightarrow> bool" where
  "compiles d e ro \<longleftrightarrow> (case Compile d e [] of Inr c \<Rightarrow> co_ReadOnly c = ro | Inl _ \<Rightarrow> False)"

lemma compilesD: "compiles d e ro \<Longrightarrow> \<exists>c. Compile d e [] = Inr c \<and> co_ReadOnly c = ro"
  by (auto simp: compiles_def split: sum.splits)

lemma ex_read_compiles: "compiles postgres (ex_read (VInt 1)) True"
  by code_simp

lemma ex_delete_compiles: "compiles mysql ex_delete False"
  by code_simp

theorem Compile_value_free_witness:
  "erase_expr (ex_read (VInt 1)) = erase_expr (ex_read (VStr ''x; DROP TABLE t'')) \<and>
   (case (Compile mysql (ex_read (VInt 1)) [], Compile mysql (ex_read (VStr ''x; DROP TABLE t'')) []) of
      (Inr c, Inr c') \<Rightarrow> co_SQL c = co_SQL c' \<and> co_Kind c = co_Kind c' \<and> co_IsKeyPoint c = co_IsKeyPoint c' \<and>
        co_ReadOnly c = co_ReadOnly c' \<and> length (co_Args c) = length (co_Args c')
    | (Inl err, Inl err') \<Rightarrow> err = err'
    | _ \<Rightarrow> False)"
proof -
  have "erase_expr (ex_read (VInt 1)) = erase_expr (ex_read (VStr ''x; DROP TABLE t''))" by code_simp
  then show ?thesis using Compile_value_free by blast
qed

theorem Compile_args_witness: "\<exists>c. Compile postgres (ex_read (VInt 1)) [] = Inr c \<and> co_Args c = [VInt 1, VInt 1, VInt 2]"
proof -
  have "expr_values (ex_read (VInt 1)) = [VInt 1, VInt 1, VInt 2]" by code_simp
  then show ?thesis using compilesD [OF ex_read_compiles] Compile_args by fastforce
qed

definition ex_builder :: builder where
  "ex_builder = new_builder postgres (applyOptions [])"

lemma ex_read_flattens: "(case flatten (ex_read (VInt 1)) (ex_builder, emptyCtx) of Inl _ \<Rightarrow> False | Inr _ \<Rightarrow> True) \<and>
    without_empty (ex_read (VInt 1)) = ex_read (VInt 1)"
  by code_simp

theorem flatten_lossless_witness:
  "\<exists>b' ctx rel. flatten (ex_read (VInt 1)) (ex_builder, emptyCtx) = Inr (b', ctx) \<and> s_from ctx = qtable ex_builder rel \<and>
     unflatten rel ctx = ex_read (VInt 1)"
  using ex_read_flattens flatten_lossless [of "ex_read (VInt 1)" ex_builder]
  by (cases "flatten (ex_read (VInt 1)) (ex_builder, emptyCtx)") auto

theorem CapRows_is_Limit_witness:
  "\<exists>c c'. Compile postgres (ex_read (VInt 1)) [] = Inr c \<and> Compile postgres (Limit (ex_read (VInt 1)) 50 0) [] = Inr c' \<and>
     co_SQL (fst (CapRows c 50)) = co_SQL c'"
proof -
  have "with_cap (ex_read (VInt 1)) 50 = Limit (ex_read (VInt 1)) 50 0" by (simp add: with_cap_def ex_read_def)
  then show ?thesis using compilesD [OF ex_read_compiles] CapRows_is_Limit [of postgres "ex_read (VInt 1)" "[]" _ 50] by auto
qed

theorem Compile_kind_witness: "\<exists>c. Compile postgres (ex_read (VInt 1)) [] = Inr c \<and> co_Kind c = KindRead"
  using compilesD [OF ex_read_compiles] Compile_kind [of postgres "ex_read (VInt 1)" "[]"]
  by (auto simp: ex_read_def is_read_def)

theorem Compile_bounded_writes_witness:
  "\<exists>c b0 b1 w. Compile mysql ex_delete [] = Inr c \<and> renderPredicate ex_pred b0 = Inr b1 \<and>
     b_sql b1 = b_sql b0 @ w \<and> w \<noteq> [] \<and> co_SQL c = b_sql b1"
  using compilesD [OF ex_delete_compiles] Compile_bounded_writes [of mysql ex_delete "[]" _ ex_t ex_pred "[]"]
  by (fastforce simp: ex_delete_def)

theorem Compile_validated_witness:
  "\<exists>c. Compile mysql ex_delete [] = Inr c \<and> (\<forall>q\<in>nodes ex_pred. node_ok DefaultMaxINCardinality q)"
  using compilesD [OF ex_delete_compiles] Compile_validated [of mysql ex_delete "[]" _ ex_pred]
  by (auto simp: ex_delete_def applyOptions_def)

end
