(* ===== verification/Codegen_Keys.thy ===== *)
theory Codegen_Keys
  imports Interp_Check Codegen_Props
begin

text \<open>
  What the key-point flag of a compiled statement means for its rows: the reference semantics of
  \<^verbatim>\<open>src/core/relalg/interp\<close> selects at most one row of a table when \<^verbatim>\<open>isKeyPoint\<close> of
  \<^verbatim>\<open>src/core/codegen/codegen.go\<close> holds of the predicate and of a unique key of the table.
\<close>

text \<open>Two rows hold equal values in a column, as the comparison of the interpreter sees it.\<close>

definition same_at :: "relation \<Rightarrow> string \<Rightarrow> val list \<Rightarrow> val list \<Rightarrow> bool" where
  "same_at rel k x y \<longleftrightarrow>
     (case bindR (colIndex rel k) (\<lambda>i. bindR (cell x i) (\<lambda>a. bindR (cell y i) (\<lambda>b. compareValues a b))) of
        Inr c \<Rightarrow> c = 0 | Inl _ \<Rightarrow> False)"

definition unique_key :: "relation \<Rightarrow> string list \<Rightarrow> bool" where
  "unique_key rel pk \<longleftrightarrow> sorted_wrt (\<lambda>x y. list_ex (\<lambda>k. \<not> same_at rel k x y) pk) (r_Rows rel)"

lemma compareValues_euclid:
  "compareValues a v = Inr 0 \<Longrightarrow> compareValues b v = Inr 0 \<Longrightarrow> compareValues a b = Inr 0"
  by (auto simp: compareValues_def three_way_def boolCmp_def split: option.splits val.splits if_splits)

lemma flattenAnd_true:
  "flattenAnd p = Some cs \<Longrightarrow> evalPredicate rel row p = Inr triTrue \<Longrightarrow> c \<in> set cs \<Longrightarrow>
     evalCondition rel row c = Inr triTrue"
  "flattenAnd_loop ps = Some cs \<Longrightarrow> \<forall>p\<in>set ps. evalPredicate rel row p = Inr triTrue \<Longrightarrow> c \<in> set cs \<Longrightarrow>
     evalCondition rel row c = Inr triTrue"
  by (induction p and ps arbitrary: cs and cs rule: flattenAnd_flattenAnd_loop.induct)
    (auto dest: evalAnd_loop_true split: option.splits)

text \<open>The conditions on the key columns are equalities, and those columns are the ones seen.\<close>

lemma keyPoint_seen_eq:
  "keyPoint_seen pk cs seen = Some seen' \<Longrightarrow>
     seen' = seen \<union> {c_Field c |c. c \<in> set cs \<and> c_Field c \<in> pk} \<and>
     (\<forall>c\<in>set cs. c_Field c \<in> pk \<longrightarrow> c_Op c = OpEq)"
  by (induction pk cs seen rule: keyPoint_seen.induct) (auto split: if_splits)

lemma isKeyPoint_conds:
  assumes "isKeyPoint p pk" and "k \<in> set pk"
  shows "\<exists>cs c. flattenAnd p = Some cs \<and> c \<in> set cs \<and> c_Field c = k \<and> c_Op c = OpEq"
proof -
  from assms(1) obtain cs seen where cs: "flattenAnd p = Some cs" "keyPoint_seen (set pk) cs {} = Some seen"
    "card seen = length pk" by (auto simp: isKeyPoint_def split: if_splits option.splits)
  note seen = keyPoint_seen_eq [OF cs(2)]
  have "seen \<subseteq> set pk" using seen by auto
  moreover have "card (set pk) \<le> card seen" using cs(3) card_length [of pk] by simp
  ultimately have "seen = set pk" by (simp add: card_subset_eq card_mono order.antisym)
  with assms(2) have "k \<in> {c_Field c |c. c \<in> set cs \<and> c_Field c \<in> set pk}" using seen by simp
  with seen cs(1) show ?thesis by blast
qed

lemma evalCondition_eq:
  assumes "evalCondition rel row c = Inr triTrue" and "c_Op c = OpEq"
  shows "\<exists>i a. colIndex rel (c_Field c) = Inr i \<and> cell row i = Inr a \<and> compareValues a (c_Value c) = Inr 0"
  using assms by (auto simp: evalCondition_def evalOp_def evalComparison_def boolTri_def bindR_eq_Inr split: if_splits)

lemma isKeyPoint_same_at:
  assumes "isKeyPoint p pk" and "k \<in> set pk"
    and "evalPredicate rel x p = Inr triTrue" and "evalPredicate rel y p = Inr triTrue"
  shows "same_at rel k x y"
proof -
  obtain cs c where c: "flattenAnd p = Some cs" "c \<in> set cs" "c_Field c = k" "c_Op c = OpEq"
    using isKeyPoint_conds [OF assms(1,2)] by blast
  obtain i a where x: "colIndex rel k = Inr i" "cell x i = Inr a" "compareValues a (c_Value c) = Inr 0"
    using evalCondition_eq [OF flattenAnd_true(1) [OF c(1) assms(3) c(2)] c(4)] c(3) by blast
  obtain b where y: "cell y i = Inr b" "compareValues b (c_Value c) = Inr 0"
    using evalCondition_eq [OF flattenAnd_true(1) [OF c(1) assms(4) c(2)] c(4)] c(3) x(1) by auto
  show ?thesis using compareValues_euclid [OF x(3) y(2)] x y by (simp add: same_at_def)
qed

lemma length_filter_le_one: "sorted_wrt (\<lambda>x y. \<not> (P x \<and> P y)) xs \<Longrightarrow> length (filter P xs) \<le> 1"
  by (induction xs) (auto simp: filter_empty_conv)

lemma isKeyPoint_le_one:
  assumes "isKeyPoint p pk" and "unique_key rel pk" and "evalSelect db p rel = Inr out"
  shows "length (r_Rows out) \<le> 1"
proof -
  let ?rel = "rel\<lparr>r_db := db\<rparr>" and ?P = "\<lambda>row. bindR (evalPredicate (rel\<lparr>r_db := db\<rparr>) row p) (\<lambda>v. Inr (v = triTrue))"
  have out: "r_Rows out = filter (\<lambda>row. ?P row = Inr True) (r_Rows rel)"
    using assms(3) by (auto simp: evalSelect_def bindR_eq_Inr filterR_eq_Inr split: sum.splits)
  have col: "same_at ?rel = same_at rel" by (simp add: same_at_def colIndex_def fun_eq_iff)
  have "sorted_wrt (\<lambda>x y. \<not> (?P x = Inr True \<and> ?P y = Inr True)) (r_Rows rel)"
    by (rule sorted_wrt_mono_rel [OF _ assms(2) [unfolded unique_key_def]])
      (use isKeyPoint_same_at [OF assms(1), of _ ?rel] in \<open>auto simp: col list_ex_iff bindR_eq_Inr\<close>)
  from length_filter_le_one [OF this] show ?thesis by (simp add: out)
qed

section \<open>Properties\<close>

text \<open>
  The key-point flag is sound: when it holds of a predicate and the columns of a key, the predicate
  selects at most one row of any relation in which the key is unique.
\<close>

theorem isKeyPoint_at_most_one:
  assumes "isKeyPoint p pk" and "unique_key rel pk" and "evalSelect db p rel = Inr out"
  shows "length (r_Rows out) \<le> 1"
  using assms by (rule isKeyPoint_le_one)

section \<open>Witnesses\<close>

definition ex_users :: relation where
  "ex_users = \<lparr>r_Cols = [''tenant'', ''id'', ''name''],
     r_Rows = [[VInt 1, VInt 1, VStr ''a''], [VInt 1, VInt 2, VStr ''a''], [VInt 2, VInt 1, VStr ''b'']],
     r_db = Map.empty, r_hidden = 0\<rparr>"

definition ex_point :: predicate where
  "ex_point = And [Condition \<lparr>c_Field = ''tenant'', c_Op = OpEq, c_Value = VInt 1\<rparr>,
     And [Condition \<lparr>c_Field = ''id'', c_Op = OpEq, c_Value = VInt 2\<rparr>,
          Condition \<lparr>c_Field = ''name'', c_Op = OpIsNotNull, c_Value = VNull\<rparr>]]"

definition ex_points :: bool where
  "ex_points \<longleftrightarrow> isKeyPoint ex_point [''tenant'', ''id''] \<and> unique_key ex_users [''tenant'', ''id''] \<and>
     (case evalSelect Map.empty ex_point ex_users of Inr out \<Rightarrow> r_Rows out \<noteq> [] | Inl _ \<Rightarrow> False)"

lemma ex_points: ex_points
  by code_simp

theorem isKeyPoint_at_most_one_witness:
  "\<exists>out. evalSelect Map.empty ex_point ex_users = Inr out \<and> length (r_Rows out) = 1"
proof -
  obtain out where out: "evalSelect Map.empty ex_point ex_users = Inr out" "r_Rows out \<noteq> []"
    using ex_points by (auto simp: ex_points_def split: sum.splits)
  from isKeyPoint_at_most_one [OF _ _ out(1), of "[''tenant'', ''id'']"] ex_points have "length (r_Rows out) \<le> 1"
    by (simp add: ex_points_def)
  with out show ?thesis by (cases "r_Rows out") auto
qed

end
