(* ===== verification/Entity.thy ===== *)
theory Entity
  imports Relalg
begin

text \<open>
  Entities and their registry: \<^verbatim>\<open>src/core/entity/entity.go\<close> and
  \<^verbatim>\<open>src/core/entity/registry.go\<close>. An entity describes an exposed relation; the registry finds an
  entity by its name or by any reference that names it alone, with the excluded attributes removed.

  A map whose missing key reads as an empty list (\<^verbatim>\<open>RoleAccess\<close>, \<^verbatim>\<open>byRef\<close>, \<^verbatim>\<open>visible\<close>) is a total
  function; a map the code iterates over (\<^verbatim>\<open>FieldAccess\<close>, \<^verbatim>\<open>RowPolicies\<close>, \<^verbatim>\<open>JoinOn\<close>) is an association list
  in the order of one iteration. A nil predicate is \<open>NilPred\<close>.
\<close>

section \<open>Data\<close>

datatype entity_kind = KindTable | KindView | KindProcedure

datatype action = ActionRead | ActionCreate | ActionUpdate | ActionDelete | ActionExecute | ActionAggregate

fun action_String :: "action \<Rightarrow> string" where
  "action_String ActionRead = ''read''"
| "action_String ActionCreate = ''create''"
| "action_String ActionUpdate = ''update''"
| "action_String ActionDelete = ''delete''"
| "action_String ActionExecute = ''execute''"
| "action_String ActionAggregate = ''aggregate''"

definition Actions :: "action list" where
  "Actions = [ActionRead, ActionCreate, ActionUpdate, ActionDelete, ActionExecute, ActionAggregate]"

definition ActionNames :: "string list" where
  "ActionNames = map action_String Actions"

definition ParseAction :: "string \<Rightarrow> action option" where
  "ParseAction name = find (\<lambda>a. action_String a = name) Actions"

record domain =
  dm_Type :: string
  dm_Nullable :: bool
  dm_Default :: bool
  dm_Generated :: bool
  dm_AutoIncrement :: bool

definition Writable :: "domain \<Rightarrow> bool" where
  "Writable d \<longleftrightarrow> \<not> dm_Generated d"

definition Required :: "domain \<Rightarrow> bool" where
  "Required d \<longleftrightarrow> \<not> dm_Nullable d \<and> \<not> dm_Default d \<and> \<not> dm_Generated d"

record attribute =
  at_Name :: string
  at_Alias :: string
  at_Description :: string
  at_Domain :: domain
  at_Excluded :: bool
  at_Mask :: string

record ekey =
  k_Name :: string
  k_Columns :: "string list"
  k_Primary :: bool
  k_Declared :: bool
  k_Deferrable :: bool
  k_Reason :: string

record index =
  ix_Name :: string
  ix_Method :: string
  ix_Parts :: "string list"
  ix_Unique :: bool
  ix_Primary :: bool
  ix_Where :: string

record foreign_key =
  fk_Name :: string
  fk_Columns :: "string list"
  fk_RefSchema :: string
  fk_RefRelation :: string
  fk_RefColumns :: "string list"
  fk_OnDelete :: string
  fk_OnUpdate :: string

record cascade =
  cs_Schema :: string
  cs_Table :: string
  cs_Relation :: string
  cs_Entity :: string
  cs_Columns :: "string list"
  cs_ForeignColumns :: "string list"
  cs_OnDelete :: string
  cs_OnUpdate :: string

definition ReferentialWrite :: "string \<Rightarrow> bool" where
  "ReferentialWrite act \<longleftrightarrow> act = ''cascade'' \<or> act = ''set_null'' \<or> act = ''set_default''"

type_synonym role_access = "action \<Rightarrow> string list"

record field_permissions =
  fp_Read :: "string list"
  fp_Write :: "string list"

type_synonym field_access = "(string \<times> field_permissions) list"

record mcp_flags =
  mf_DMLTools :: bool
  mf_CustomTool :: bool
  mf_TrustedProcedure :: bool

type_synonym row_policies = "(string \<times> predicate) list"

record relationship =
  rl_Name :: string
  rl_Target :: string
  rl_Cardinality :: string
  rl_JoinOn :: "(string \<times> string) list"

definition Single :: "relationship \<Rightarrow> bool" where
  "Single r \<longleftrightarrow> rl_Cardinality r \<in> {''one'', ''one-to-one'', ''belongs-to''}"

record entity =
  e_Name :: string
  e_Local :: string
  e_Source :: string
  e_DataSource :: string
  e_Schema :: string
  e_Description :: string
  e_Kind :: entity_kind
  e_Attributes :: "attribute list"
  e_Keys :: "ekey list"
  e_ForeignKeys :: "foreign_key list"
  e_Indexes :: "index list"
  e_Role :: role_access
  e_FieldAccess :: field_access
  e_MCP :: mcp_flags
  e_RowPolicies :: row_policies
  e_TenantPolicy :: predicate
  e_Relations :: "relationship list"
  e_Derived :: bool
  e_Unavailable :: string
  e_Absent :: "string list"
  e_Relation :: string
  e_Affects :: "string list"
  e_Cascades :: "cascade list"
  e_AllowCascade :: bool
  e_AllowKeyUpdate :: bool
  e_RowColumns :: "string list"
  e_SideEffects :: bool
  e_Params :: "string list"

section \<open>Operations of an entity\<close>

definition ActionsFor :: "entity_kind \<Rightarrow> action list" where
  "ActionsFor k =
     (if k = KindProcedure then [ActionExecute]
      else [ActionRead, ActionAggregate, ActionCreate, ActionUpdate, ActionDelete])"

definition DatasourceName :: "entity \<Rightarrow> string" where
  "DatasourceName e = (if e_DataSource e = [] then ''default'' else e_DataSource e)"

definition ID :: "string \<Rightarrow> string \<Rightarrow> string \<Rightarrow> string" where
  "ID datasource schema name =
     (let ds = (if datasource = [] then ''default'' else datasource) in
      if schema = [] then ds @ ''.'' @ name else ds @ ''.'' @ schema @ ''.'' @ name)"

definition ReferencesOf :: "string \<Rightarrow> string \<Rightarrow> string \<Rightarrow> string list" where
  "ReferencesOf datasource schema loc =
     (let ds = (if datasource = [] then ''default'' else datasource) in
      if schema = [] then [loc, ds @ ''.'' @ loc]
      else if schema = ds then [loc, schema @ ''.'' @ loc, ID ds schema loc]
      else [loc, schema @ ''.'' @ loc, ds @ ''.'' @ loc, ID ds schema loc])"

definition References :: "entity \<Rightarrow> string list" where
  "References e =
     (if e_Local e = [] then [e_Name e] else ReferencesOf (e_DataSource e) (e_Schema e) (e_Local e))"

definition RelationKey :: "entity \<Rightarrow> string" where
  "RelationKey e =
     (if e_Relation e \<noteq> [] then e_Relation e
      else
        let source = (if e_Source e = [] then e_Name e else e_Source e) in
        ''datasource:'' @ DatasourceName e @ [CHR 0x00, CHR 0x00] @ e_Schema e @ [CHR 0x00] @ source)"

definition Ref :: "entity \<Rightarrow> relation_ref" where
  "Ref e = \<lparr>rr_Schema = e_Schema e, rr_Name = e_Source e\<rparr>"

definition PrimaryKey :: "entity \<Rightarrow> string list" where
  "PrimaryKey e = (case find k_Primary (e_Keys e) of Some k \<Rightarrow> k_Columns k | None \<Rightarrow> [])"

definition IdentityKeys :: "entity \<Rightarrow> bool \<Rightarrow> bool \<Rightarrow> string list list" where
  "IdentityKeys e enforced inTransaction =
     concat (map (\<lambda>primary. map k_Columns (filter (\<lambda>k.
       \<not> (k_Primary k \<noteq> primary \<or> k_Reason k \<noteq> [] \<or> enforced \<and> k_Declared k \<or> inTransaction \<and> k_Deferrable k))
       (e_Keys e))) [True, False])"

definition CursorKey :: "entity \<Rightarrow> string list" where
  "CursorKey e = (case IdentityKeys e False False of k # _ \<Rightarrow> k | [] \<Rightarrow> [])"

definition AttributeByName :: "entity \<Rightarrow> string \<Rightarrow> attribute option" where
  "AttributeByName e name =
     (if name = [] then None
      else find (\<lambda>a. at_Name a = name \<or> at_Alias a = name) (e_Attributes e))"

definition OrderedNames :: "entity \<Rightarrow> string set \<Rightarrow> string list" where
  "OrderedNames e S = filter (\<lambda>n. n \<in> S) (map at_Name (e_Attributes e))"

record resolved =
  rs_Entity :: entity
  rs_Attributes :: "attribute list"

section \<open>The registry\<close>

datatype entity_error = ErrDuplicateEntity string | ErrEmptyName

record registry =
  rg_byName :: "string \<Rightarrow> entity option"
  rg_byRef :: "string \<Rightarrow> string list"
  rg_entities :: "entity list"
  rg_visible :: "string \<Rightarrow> attribute list"
  rg_procedures :: "nat list"

definition empty_registry :: registry where
  "empty_registry = \<lparr>rg_byName = Map.empty, rg_byRef = (\<lambda>_. []), rg_entities = [], rg_visible = (\<lambda>_. []), rg_procedures = []\<rparr>"

definition addRef :: "string \<Rightarrow> string \<Rightarrow> (string \<Rightarrow> string list) \<Rightarrow> string \<Rightarrow> string list" where
  "addRef name ref m = m(ref := m ref @ [name])"

text \<open>One iteration of the loop of \<^verbatim>\<open>NewRegistry\<close>.\<close>

definition register :: "entity \<Rightarrow> registry \<Rightarrow> entity_error + registry" where
  "register e r =
     (if e_Name e = [] then Inl ErrEmptyName
      else if rg_byName r (e_Name e) \<noteq> None then Inl (ErrDuplicateEntity (e_Name e))
      else Inr \<lparr>rg_byName = (rg_byName r)(e_Name e \<mapsto> e),
                rg_byRef = fold (addRef (e_Name e)) (References e) (rg_byRef r),
                rg_entities = rg_entities r @ [e],
                rg_visible = (rg_visible r)(e_Name e := filter (\<lambda>a. \<not> at_Excluded a) (e_Attributes e)),
                rg_procedures = (if e_Kind e = KindProcedure then rg_procedures r @ [length (rg_entities r)]
                                 else rg_procedures r)\<rparr>)"

definition NewRegistry :: "entity list \<Rightarrow> entity_error + registry" where
  "NewRegistry es = foldR register es empty_registry"

text \<open>\<^verbatim>\<open>r.byName[name]\<close> of a name taken from \<^verbatim>\<open>byRef\<close>: a missing one would be the zero entity.\<close>

definition zero_entity :: entity where
  "zero_entity = \<lparr>e_Name = [], e_Local = [], e_Source = [], e_DataSource = [], e_Schema = [], e_Description = [],
     e_Kind = KindTable, e_Attributes = [], e_Keys = [], e_ForeignKeys = [], e_Indexes = [], e_Role = (\<lambda>_. []),
     e_FieldAccess = [], e_MCP = \<lparr>mf_DMLTools = False, mf_CustomTool = False, mf_TrustedProcedure = False\<rparr>,
     e_RowPolicies = [], e_TenantPolicy = NilPred, e_Relations = [], e_Derived = False, e_Unavailable = [],
     e_Absent = [], e_Relation = [], e_Affects = [], e_Cascades = [], e_AllowCascade = False,
     e_AllowKeyUpdate = False, e_RowColumns = [], e_SideEffects = False, e_Params = []\<rparr>"

definition byName_or_zero :: "registry \<Rightarrow> string \<Rightarrow> entity" where
  "byName_or_zero r name = (case rg_byName r name of Some e \<Rightarrow> e | None \<Rightarrow> zero_entity)"

definition Resolve :: "registry \<Rightarrow> string \<Rightarrow> resolved option" where
  "Resolve r ref =
     (let found = (\<lambda>e. Some \<lparr>rs_Entity = e, rs_Attributes = rg_visible r (e_Name e)\<rparr>) in
      case rg_byName r ref of
        Some e \<Rightarrow> found e
      | None \<Rightarrow>
          (case rg_byRef r ref of
             [name] \<Rightarrow> found (byName_or_zero r name)
           | _ \<Rightarrow> None))"

definition Entities :: "registry \<Rightarrow> entity list" where
  "Entities r = rg_entities r"

definition Procedures :: "registry \<Rightarrow> entity list" where
  "Procedures r = map (\<lambda>i. rg_entities r ! i) (rg_procedures r)"

definition All :: "registry \<Rightarrow> entity list" where
  "All r = rg_entities r"

definition Match :: "registry \<Rightarrow> string \<Rightarrow> entity list" where
  "Match r ref =
     (case rg_byName r ref of
        Some e \<Rightarrow> [e]
      | None \<Rightarrow> map (byName_or_zero r) (rg_byRef r ref))"

text \<open>A nil \<^verbatim>\<open>visible\<close> is \<open>None\<close>.\<close>

definition sees :: "(entity \<Rightarrow> bool) option \<Rightarrow> entity \<Rightarrow> bool" where
  "sees vis e = (case vis of None \<Rightarrow> True | Some f \<Rightarrow> f e)"

definition uniqueAmong :: "registry \<Rightarrow> string \<Rightarrow> string \<Rightarrow> (entity \<Rightarrow> bool) option \<Rightarrow> bool" where
  "uniqueAmong r ref name vis =
     (if rg_byName r ref \<noteq> None \<and> ref \<noteq> name then False
      else \<not> list_ex (\<lambda>other. other \<noteq> name \<and> sees vis (byName_or_zero r other)) (rg_byRef r ref))"

definition ShortName :: "registry \<Rightarrow> entity \<Rightarrow> (entity \<Rightarrow> bool) option \<Rightarrow> string" where
  "ShortName r e vis =
     (let refs = References e in
      case find (\<lambda>ref. uniqueAmong r ref (e_Name e) vis) (butlast refs) of
        Some ref \<Rightarrow> ref
      | None \<Rightarrow> last refs)"

section \<open>The invariant of the registry\<close>

text \<open>\<open>named es ref\<close>: the entities a reference may name, the entity of that name before all others.\<close>

definition named :: "entity list \<Rightarrow> string \<Rightarrow> entity list" where
  "named es ref =
     (case find (\<lambda>e. e_Name e = ref) es of
        Some e \<Rightarrow> [e]
      | None \<Rightarrow> filter (\<lambda>e. ref \<in> set (References e)) es)"

definition shown :: "entity \<Rightarrow> attribute list" where
  "shown e = filter (\<lambda>a. \<not> at_Excluded a) (e_Attributes e)"

text \<open>A field names an attribute by its name or by its alias.\<close>

definition names_field :: "attribute \<Rightarrow> string \<Rightarrow> bool" where
  "names_field a f \<longleftrightarrow> at_Name a = f \<or> at_Alias a \<noteq> [] \<and> at_Alias a = f"

definition registry_of :: "entity list \<Rightarrow> registry \<Rightarrow> bool" where
  "registry_of es r \<longleftrightarrow> distinct (map e_Name es) \<and> [] \<notin> e_Name ` set es \<and> rg_entities r = es \<and>
     (\<forall>n. rg_byName r n = find (\<lambda>e. e_Name e = n) es) \<and>
     (\<forall>ref. rg_byRef r ref = map e_Name (filter (\<lambda>e. ref \<in> set (References e)) es)) \<and>
     (\<forall>e\<in>set es. rg_visible r (e_Name e) = shown e) \<and>
     rg_procedures r = filter (\<lambda>i. e_Kind (es ! i) = KindProcedure) [0..<length es]"

lemma ReferencesOf_distinct: "distinct (ReferencesOf ds schema loc)"
  by (auto simp: ReferencesOf_def ID_def Let_def dest: arg_cong [where f = length])

lemma References_distinct: "distinct (References e)"
  by (simp add: References_def ReferencesOf_distinct)

lemma fold_addRef:
  "distinct refs \<Longrightarrow> fold (addRef name) refs m ref = m ref @ (if ref \<in> set refs then [name] else [])"
  by (induction refs arbitrary: m) (auto simp: addRef_def)

lemma find_snoc_name:
  "e_Name e \<notin> e_Name ` set es \<Longrightarrow>
     find (\<lambda>e. e_Name e = n) (es @ [e]) = (if n = e_Name e then Some e else find (\<lambda>e. e_Name e = n) es)"
  by (induction es) auto

lemma find_name_None: "find (\<lambda>e. e_Name e = n) es = None \<longleftrightarrow> n \<notin> e_Name ` set es"
  by (induction es) auto

lemma filter_eq_single: "distinct xs \<Longrightarrow> x \<in> set xs \<Longrightarrow> filter (\<lambda>y. y = x) xs = [x]"
  by (induction xs) (auto simp: filter_empty_conv)

lemma find_name: "distinct (map e_Name es) \<Longrightarrow> e \<in> set es \<Longrightarrow> find (\<lambda>e'. e_Name e' = e_Name e) es = Some e"
  by (induction es) auto

lemma filter_kind_snoc:
  "filter (\<lambda>i. P ((xs @ [x]) ! i)) [0..<Suc (length xs)] =
     filter (\<lambda>i. P (xs ! i)) [0..<length xs] @ (if P x then [length xs] else [])"
proof -
  have "filter (\<lambda>i. P ((xs @ [x]) ! i)) [0..<length xs] = filter (\<lambda>i. P (xs ! i)) [0..<length xs]"
    by (rule filter_cong) (auto simp: nth_append)
  then show ?thesis by simp
qed

lemma register_step:
  assumes "registry_of es r" and "register e r = Inr r'"
  shows "registry_of (es @ [e]) r'"
proof -
  have new: "e_Name e \<noteq> []" "rg_byName r (e_Name e) = None"
    and r': "r' = \<lparr>rg_byName = (rg_byName r)(e_Name e \<mapsto> e), rg_byRef = fold (addRef (e_Name e)) (References e) (rg_byRef r),
      rg_entities = rg_entities r @ [e], rg_visible = (rg_visible r)(e_Name e := shown e),
      rg_procedures = (if e_Kind e = KindProcedure then rg_procedures r @ [length (rg_entities r)] else rg_procedures r)\<rparr>"
    using assms(2) by (auto simp: register_def shown_def split: if_splits)
  have fresh: "e_Name e \<notin> e_Name ` set es" using assms(1) new(2) by (simp add: registry_of_def find_name_None)
  have "\<forall>x\<in>set es. e_Name x \<noteq> e_Name e" using fresh by (metis imageI)
  with assms(1) new fresh show ?thesis
    by (auto simp: registry_of_def r' fold_addRef References_distinct find_snoc_name
        filter_kind_snoc [where P = "\<lambda>e. e_Kind e = KindProcedure"]
        simp del: upt_Suc)
qed

lemma NewRegistry_of: "NewRegistry es = Inr r \<Longrightarrow> registry_of es r"
proof -
  have "foldR register es' r0 = Inr r \<Longrightarrow> registry_of es r0 \<Longrightarrow> registry_of (es @ es') r" for es es' r0
  proof (induction es' arbitrary: es r0)
    case (Cons e es')
    then obtain r1 where "register e r0 = Inr r1" "foldR register es' r1 = Inr r" by (auto simp: bindR_eq_Inr)
    with Cons.IH [of r1 "es @ [e]"] register_step [OF Cons.prems(2)] show ?case by simp
  qed simp
  from this [of es empty_registry "[]"] show "NewRegistry es = Inr r \<Longrightarrow> registry_of es r"
    by (simp add: NewRegistry_def registry_of_def empty_registry_def)
qed

lemma byName_or_zero_mem: "registry_of es r \<Longrightarrow> e \<in> set es \<Longrightarrow> byName_or_zero r (e_Name e) = e"
  by (simp add: byName_or_zero_def registry_of_def find_name)

lemma Match_named: "registry_of es r \<Longrightarrow> Match r ref = named es ref"
  by (auto simp: Match_def named_def registry_of_def byName_or_zero_def find_name intro!: map_idI
      split: option.splits)

lemma named_subset: "set (named es ref) \<subseteq> set es"
  by (auto simp: named_def find_Some_iff split: option.splits)

lemma Resolve_named:
  assumes "registry_of es r"
  shows "Resolve r ref = (case named es ref of [e] \<Rightarrow> Some \<lparr>rs_Entity = e, rs_Attributes = shown e\<rparr> | _ \<Rightarrow> None)"
proof -
  have vis: "rg_visible r (e_Name e) = shown e" if "e \<in> set (named es ref)" for e
    using assms named_subset that by (fastforce simp: registry_of_def)
  show ?thesis
  proof (cases "find (\<lambda>e. e_Name e = ref) es")
    case (Some e)
    with assms vis show ?thesis by (simp add: Resolve_def registry_of_def named_def)
  next
    case None
    let ?es = "filter (\<lambda>e. ref \<in> set (References e)) es"
    have "byName_or_zero r (e_Name e) = e" if "e \<in> set ?es" for e using byName_or_zero_mem [OF assms] that by simp
    with None assms vis show ?thesis
      by (cases ?es rule: list.exhaust; cases "tl ?es") (auto simp: Resolve_def registry_of_def named_def)
  qed
qed

lemma NewRegistry_total:
  "(\<exists>r. NewRegistry es = Inr r) \<longleftrightarrow> distinct (map e_Name es) \<and> [] \<notin> e_Name ` set es"
proof
  assume "\<exists>r. NewRegistry es = Inr r"
  then obtain r where "registry_of es r" using NewRegistry_of by blast
  then show "distinct (map e_Name es) \<and> [] \<notin> e_Name ` set es" by (simp add: registry_of_def)
next
  assume ok: "distinct (map e_Name es) \<and> [] \<notin> e_Name ` set es"
  have "distinct (map e_Name (es @ es')) \<Longrightarrow> [] \<notin> e_Name ` set es' \<Longrightarrow> registry_of es r0 \<Longrightarrow>
      \<exists>r. foldR register es' r0 = Inr r" for es es' r0
  proof (induction es' arbitrary: es r0)
    case (Cons e es')
    have "rg_byName r0 (e_Name e) = None" using Cons.prems by (auto simp: registry_of_def find_name_None)
    moreover have "e_Name e \<noteq> []" using Cons.prems(2) by force
    ultimately obtain r1 where r1: "register e r0 = Inr r1" by (simp add: register_def)
    from Cons.IH [of "es @ [e]" r1] register_step [OF Cons.prems(3) r1] Cons.prems r1 show ?case by simp
  qed simp
  from this [of "[]" es empty_registry] ok show "\<exists>r. NewRegistry es = Inr r"
    by (simp add: NewRegistry_def registry_of_def empty_registry_def)
qed

text \<open>The name of an entity with a local name is its identity, as the configuration assembles it.\<close>

definition canonical :: "entity \<Rightarrow> bool" where
  "canonical e \<longleftrightarrow> (e_Local e \<noteq> [] \<longrightarrow> e_Name e = ID (e_DataSource e) (e_Schema e) (e_Local e))"

lemma last_References: "canonical e \<Longrightarrow> References e \<noteq> [] \<and> last (References e) = e_Name e"
  by (auto simp: canonical_def References_def ReferencesOf_def ID_def Let_def)

text \<open>A reference that is unique among the entities a caller sees names one of them.\<close>

lemma uniqueAmong_named:
  assumes r: "registry_of es r" and e: "e \<in> set es" "sees vis e" and ref: "ref \<in> set (References e)"
    and u: "uniqueAmong r ref (e_Name e) vis"
  shows "filter (sees vis) (named es ref) = [e]"
proof (cases "find (\<lambda>e. e_Name e = ref) es")
  case (Some e')
  then have "e_Name e' = ref" "e' \<in> set es" by (auto simp: find_Some_iff)
  moreover have "ref = e_Name e" using u r Some by (auto simp: uniqueAmong_def registry_of_def split: if_splits)
  ultimately have "e' = e" using Some r find_name [OF _ e(1)] by (simp add: registry_of_def)
  with Some e(2) show ?thesis by (simp add: named_def)
next
  case None
  let ?es = "filter (\<lambda>e. ref \<in> set (References e)) es"
  have other: "\<not> sees vis x" if "x \<in> set ?es" "x \<noteq> e" for x
  proof -
    have "e_Name x \<noteq> e_Name e" using that e(1) r by (auto simp: registry_of_def distinct_map inj_on_def)
    moreover have "e_Name x \<in> set (rg_byRef r ref)" using that r by (auto simp: registry_of_def)
    ultimately show ?thesis using u that byName_or_zero_mem [OF r]
      by (auto simp: uniqueAmong_def list_ex_iff split: if_splits)
  qed
  have "filter (sees vis) ?es = filter (\<lambda>x. x = e) ?es"
    by (rule filter_cong [OF refl]) (use other e(2) in blast)
  also have "\<dots> = [e]"
    by (rule filter_eq_single) (use e(1) ref r in \<open>auto simp: registry_of_def distinct_map\<close>)
  finally show ?thesis using None by (simp add: named_def)
qed

lemma ShortName_named:
  assumes r: "registry_of es r" and e: "e \<in> set es" "sees vis e" "canonical e"
  shows "filter (sees vis) (Match r (ShortName r e vis)) = [e]"
proof (cases "find (\<lambda>ref. uniqueAmong r ref (e_Name e) vis) (butlast (References e))")
  case None
  have "find (\<lambda>x. e_Name x = e_Name e) es = Some e" using r find_name [OF _ e(1)] by (simp add: registry_of_def)
  then show ?thesis using None e last_References [OF e(3)] by (simp add: ShortName_def Match_named [OF r] named_def)
next
  case (Some ref)
  then have "ref \<in> set (References e)" "uniqueAmong r ref (e_Name e) vis"
    by (auto dest: find_SomeD in_set_butlastD)
  from uniqueAmong_named [OF r e(1,2) this] Some show ?thesis by (simp add: ShortName_def Match_named [OF r])
qed

section \<open>The interface of the registry\<close>

text \<open>
  What authorization and the tools rely on: an entity is found by its name and by the names it is shown
  under, and only attributes that are not excluded come with it.
\<close>

locale entity_source =
  fixes built :: "entity list \<Rightarrow> 'r \<Rightarrow> bool"
    and resolve :: "'r \<Rightarrow> string \<Rightarrow> resolved option"
    and short :: "'r \<Rightarrow> entity \<Rightarrow> string"
  assumes resolve_member: "built es r \<Longrightarrow> resolve r ref = Some res \<Longrightarrow> rs_Entity res \<in> set es"
    and resolve_shown: "built es r \<Longrightarrow> resolve r ref = Some res \<Longrightarrow> rs_Attributes res = shown (rs_Entity res)"
    and resolve_name: "built es r \<Longrightarrow> e \<in> set es \<Longrightarrow> \<exists>res. resolve r (e_Name e) = Some res \<and> rs_Entity res = e"
    and resolve_short: "built es r \<Longrightarrow> e \<in> set es \<Longrightarrow> canonical e \<Longrightarrow>
      \<exists>res. resolve r (short r e) = Some res \<and> rs_Entity res = e"
begin

lemma resolve_not_excluded:
  "built es r \<Longrightarrow> resolve r ref = Some res \<Longrightarrow> a \<in> set (rs_Attributes res) \<Longrightarrow>
     a \<in> set (e_Attributes (rs_Entity res)) \<and> \<not> at_Excluded a"
  using resolve_shown [of es r ref res] by (auto simp: shown_def)

lemma resolve_idem:
  assumes "built es r" and "resolve r ref = Some res"
  shows "resolve r (e_Name (rs_Entity res)) = Some res"
proof -
  obtain res' where res': "resolve r (e_Name (rs_Entity res)) = Some res'" "rs_Entity res' = rs_Entity res"
    using resolve_name [OF assms(1) resolve_member [OF assms]] by blast
  have "res' = res"
    by (rule resolved.equality) (simp_all add: res'(2) resolve_shown [OF assms] resolve_shown [OF assms(1) res'(1)])
  with res'(1) show ?thesis by simp
qed

lemma short_inj:
  "built es r \<Longrightarrow> e \<in> set es \<Longrightarrow> e' \<in> set es \<Longrightarrow> canonical e \<Longrightarrow> canonical e' \<Longrightarrow> short r e = short r e' \<Longrightarrow> e = e'"
  using resolve_short [of es r e] resolve_short [of es r e'] by (metis option.inject)

end

interpretation reg: entity_source "\<lambda>es r. NewRegistry es = Inr r" Resolve "\<lambda>r e. ShortName r e None"
proof
  fix es r ref res e
  assume new: "NewRegistry es = Inr r"
  note r = NewRegistry_of [OF new]
  show "rs_Entity res \<in> set es" if "Resolve r ref = Some res"
    using that named_subset [of es ref] by (auto simp: Resolve_named [OF r] split: list.splits)
  show "rs_Attributes res = shown (rs_Entity res)" if "Resolve r ref = Some res"
    using that by (auto simp: Resolve_named [OF r] split: list.splits)
  assume e: "e \<in> set es"
  show "\<exists>res. Resolve r (e_Name e) = Some res \<and> rs_Entity res = e"
    using r find_name [OF _ e] by (simp add: Resolve_named [OF r] named_def registry_of_def)
  show "\<exists>res. Resolve r (ShortName r e None) = Some res \<and> rs_Entity res = e" if "canonical e"
    using ShortName_named [OF r e _ that, of None]
    by (simp add: Resolve_named [OF r] Match_named [OF r] sees_def)
qed

section \<open>Properties\<close>

text \<open>
  The registry accepts exactly the entity lists with non-empty, distinct names, and then resolves a
  reference exactly when it names one entity: the entity of that name, else the only one among whose references
  it is; an ambiguous reference resolves to nothing. Excluded attributes never come with it.
\<close>

theorem Resolve_unique:
  "(case NewRegistry es of
      Inl _ \<Rightarrow> \<not> (distinct (map e_Name es) \<and> [] \<notin> e_Name ` set es)
    | Inr r \<Rightarrow> Resolve r ref =
        (case named es ref of
           [e] \<Rightarrow> Some \<lparr>rs_Entity = e, rs_Attributes = filter (\<lambda>a. \<not> at_Excluded a) (e_Attributes e)\<rparr>
         | _ \<Rightarrow> None))"
proof (cases "NewRegistry es")
  case (Inl err)
  with NewRegistry_total [of es] show ?thesis by auto
next
  case (Inr r)
  show ?thesis unfolding Inr sum.case Resolve_named [OF NewRegistry_of [OF Inr]] shown_def ..
qed

text \<open>
  The short name of an entity names it alone among the entities the caller sees: looked up again and
  restricted to those, it gives back the entity.
\<close>

theorem ShortName_roundtrip:
  assumes "NewRegistry es = Inr r" and "e \<in> set es" and "canonical e" and "sees vis e"
  shows "filter (sees vis) (Match r (ShortName r e vis)) = [e]"
  using ShortName_named [OF NewRegistry_of [OF assms(1)] assms(2,4,3)] .

text \<open>
  The identity of an entity determines its datasource, schema and local name, since none of them
  contains a dot: two configured entities never share an identity.
\<close>

theorem ID_injective:
  assumes "ID ds schema name = ID ds' schema' name'"
    and "CHR ''.'' \<notin> set ds \<union> set schema \<union> set name" and "CHR ''.'' \<notin> set ds' \<union> set schema' \<union> set name'"
  shows "(if ds = [] then ''default'' else ds) = (if ds' = [] then ''default'' else ds') \<and> schema = schema' \<and> name = name'"
proof -
  let ?d = "if ds = [] then ''default'' else ds" and ?d' = "if ds' = [] then ''default'' else ds'"
  have dots: "CHR ''.'' \<notin> set ?d" "CHR ''.'' \<notin> set ?d'" using assms(2,3) by auto
  have "?d @ CHR ''.'' # (if schema = [] then name else schema @ CHR ''.'' # name) =
      ?d' @ CHR ''.'' # (if schema' = [] then name' else schema' @ CHR ''.'' # name')"
    using assms(1) unfolding ID_def Let_def by (simp split: if_splits)
  then have "?d = ?d'" and rest: "(if schema = [] then name else schema @ CHR ''.'' # name) =
      (if schema' = [] then name' else schema' @ CHR ''.'' # name')"
    by (simp_all add: append_sep_inj [OF dots])
  moreover from rest assms(2,3) have "schema = schema' \<and> name = name'"
    by (auto simp: append_sep_inj split: if_splits)
  ultimately show ?thesis by blast
qed

section \<open>Witnesses\<close>

definition ex_entity :: "string \<Rightarrow> string \<Rightarrow> entity" where
  "ex_entity schema loc = zero_entity\<lparr>e_Name := ID [] schema loc, e_Local := loc, e_Schema := schema,
     e_Attributes := [\<lparr>at_Name = ''id'', at_Alias = [], at_Description = [],
       at_Domain = \<lparr>dm_Type = ''int'', dm_Nullable = False, dm_Default = False, dm_Generated = False, dm_AutoIncrement = False\<rparr>,
       at_Excluded = False, at_Mask = []\<rparr>]\<rparr>"

definition ex_entities :: "entity list" where
  "ex_entities = [ex_entity ''sales'' ''orders'', ex_entity ''audit'' ''orders'']"

lemma ex_registry: "\<exists>r. NewRegistry ex_entities = Inr r"
proof -
  have "map e_Name ex_entities = [''default.sales.orders'', ''default.audit.orders'']" by code_simp
  then show ?thesis unfolding NewRegistry_total by (simp flip: set_map)
qed

theorem ShortName_roundtrip_witness:
  "\<exists>r. NewRegistry ex_entities = Inr r \<and>
     Match r (ShortName r (ex_entity ''sales'' ''orders'') None) = [ex_entity ''sales'' ''orders'']"
proof -
  obtain r where r: "NewRegistry ex_entities = Inr r" using ex_registry by blast
  have "canonical (ex_entity ''sales'' ''orders'')" by code_simp
  moreover have "ex_entity ''sales'' ''orders'' \<in> set ex_entities" by (simp add: ex_entities_def)
  ultimately show ?thesis using ShortName_roundtrip [OF r, of _ None] r by (simp add: sees_def)
qed

theorem ID_injective_witness: "ID [] ''sales'' ''orders'' = ID ''default'' ''sales'' ''orders'' \<and> ''sales'' = ''sales''"
  using ID_injective [of "[]" "''sales''" "''orders''" "''default''" "''sales''" "''orders''"] by (simp add: ID_def)

end
