(* ===== verification/Rbac.thy ===== *)
theory Rbac
  imports Entity
begin

text \<open>
  Authorization: \<^verbatim>\<open>src/core/rbac/rbac.go\<close>. A grant allows actions on an entity for some fields and
  rows; a request is allowed when a single grant covers every field it uses, on the rows of the covering grants, within
  the tenant boundary of the entity.

  Maps are association lists in the order of one iteration. The text of a denial is the datatype
  \<open>deny_reason\<close>. \<^verbatim>\<open>acls\<close> is keyed by the field lists themselves, where the source keys it by
  the pointer to them: the lists are immutable, so a pointer stands for one value. The memos \<^verbatim>\<open>granted\<close> and
  \<^verbatim>\<open>usable\<close> are state that \<^verbatim>\<open>Authorize\<close> and \<^verbatim>\<open>Usable\<close> pass on. Role names are ASCII (lowering and
  trimming of other letters is that of the Unicode tables).
\<close>

section \<open>Data\<close>

record request =
  rq_Role :: string
  rq_Entity :: string
  rq_Action :: action
  rq_Fields :: "string list"
  rq_ReadFields :: "string list"
  rq_WriteFields :: "string list"
  rq_Subject :: "string \<Rightarrow> val option"
  rq_Predicate :: predicate

datatype deny_reason =
    NoReason
  | EntityNotFound string
  | NotPermitted string action string
  | NoReadableFields string
  | NotReadable string string
  | NotWritable string string
  | NoSingleGrant string string

record decision =
  d_Allowed :: bool
  d_Reason :: deny_reason
  d_Fields :: "string list"
  d_RowFilter :: predicate
  d_Grants :: "string list"
  d_FieldScopes :: "string list list"

definition denied :: "deny_reason \<Rightarrow> decision" where
  "denied reason = \<lparr>d_Allowed = False, d_Reason = reason, d_Fields = [], d_RowFilter = NilPred, d_Grants = [], d_FieldScopes = []\<rparr>"

definition Scopes :: "decision \<Rightarrow> string list list" where
  "Scopes d = filter (\<lambda>scope. scope \<noteq> []) (d_FieldScopes d)"

definition Reachable :: "decision \<Rightarrow> bool" where
  "Reachable d \<longleftrightarrow> d_Allowed d \<or> Scopes d \<noteq> []"

record grant =
  g_ID :: string
  g_Actions :: "action list"
  g_Fields :: "field_permissions option"
  g_Rows :: predicate

definition allows :: "grant \<Rightarrow> action \<Rightarrow> bool" where
  "allows g act \<longleftrightarrow> list_ex (\<lambda>a. a = act) (g_Actions g)"

record principal =
  p_Roles :: "string list"
  p_Grants :: "(string \<times> grant list) list"
  p_Permissions :: "string list"

record policy =
  po_Roles :: "(string \<times> (string \<times> grant list) list) list"
  po_RolePermissions :: "(string \<times> string list) list"
  po_Principals :: "(string \<times> principal) list"

text \<open>A map of lists: a missing key reads as nil.\<close>

definition lookup :: "('k \<times> 'v list) list \<Rightarrow> 'k \<Rightarrow> 'v list" where
  "lookup m k = (case map_of m k of Some v \<Rightarrow> v | None \<Rightarrow> [])"

definition NormalizeRole :: "string \<Rightarrow> string" where
  "NormalizeRole role = to_lower (trim_space role)"

definition HasPermission :: "policy \<Rightarrow> string \<Rightarrow> string \<Rightarrow> bool" where
  "HasPermission po pr permission =
     (case map_of (po_Principals po) (NormalizeRole pr) of
        None \<Rightarrow> False
      | Some user \<Rightarrow>
          permission \<in> set (p_Permissions user) \<or>
          list_ex (\<lambda>role. permission \<in> set (lookup (po_RolePermissions po) role)) (p_Roles user))"

record acl_set =
  acl_read :: "string set"
  acl_write :: "string set"

definition newACLSet :: "field_permissions \<Rightarrow> acl_set" where
  "newACLSet f = \<lparr>acl_read = set (fp_Read f), acl_write = set (fp_Write f)\<rparr>"

record authorizer =
  a_registry :: registry
  a_policy :: policy
  a_entityGrants :: "(string \<times> (string \<times> grant) list) list"
  a_usable :: "string \<times> string \<Rightarrow> bool option"
  a_known :: "string set"
  a_granted :: "string \<times> string \<times> action \<Rightarrow> grant list option"
  a_acls :: "field_permissions \<Rightarrow> acl_set option"

definition acl :: "authorizer \<Rightarrow> field_permissions \<Rightarrow> acl_set" where
  "acl a f = (case a_acls a f of Some s \<Rightarrow> s | None \<Rightarrow> newACLSet f)"

section \<open>Fields\<close>

definition projectFields :: "attribute list \<Rightarrow> string list \<Rightarrow> string list" where
  "projectFields visible requested =
     (if requested = [] then map at_Name visible
      else if length requested * length visible \<le> 256 then
        filter (\<lambda>f. list_ex (\<lambda>a. at_Name a = f \<or> at_Alias a = f \<and> f \<noteq> []) visible) requested
      else
        let allowed = set (map at_Name visible) \<union> set (filter (\<lambda>al. al \<noteq> []) (map at_Alias visible))
        in filter (\<lambda>f. f \<in> allowed) requested)"

definition fieldAllowed :: "string \<Rightarrow> string set \<Rightarrow> attribute list \<Rightarrow> bool" where
  "fieldAllowed field allowed visible \<longleftrightarrow>
     field \<in> allowed \<or>
     list_ex (\<lambda>a. (at_Name a = field \<or> at_Alias a \<noteq> [] \<and> at_Alias a = field) \<and>
       (at_Name a \<in> allowed \<or> at_Alias a \<noteq> [] \<and> at_Alias a \<in> allowed)) visible"

definition projectFieldsForACL :: "attribute list \<Rightarrow> string list \<Rightarrow> string set \<Rightarrow> string list" where
  "projectFieldsForACL visible requested allowed =
     filter (\<lambda>f. fieldAllowed f allowed visible) (projectFields visible requested)"

text \<open>The first field that is not allowed, and the empty string when all are.\<close>

fun firstDenied :: "string list \<Rightarrow> string set \<Rightarrow> attribute list \<Rightarrow> string" where
  "firstDenied [] allowed visible = []"
| "firstDenied (f # fs) allowed visible =
     (if \<not> fieldAllowed f allowed visible then f else firstDenied fs allowed visible)"

definition grantProjection :: "authorizer \<Rightarrow> attribute list \<Rightarrow> string list \<Rightarrow> grant \<Rightarrow> string list" where
  "grantProjection a visible requested g =
     (case g_Fields g of
        None \<Rightarrow> projectFields visible requested
      | Some f \<Rightarrow> projectFieldsForACL visible requested (acl_read (acl a f)))"

definition unionProjection :: "authorizer \<Rightarrow> attribute list \<Rightarrow> string list \<Rightarrow> grant list \<Rightarrow> string list" where
  "unionProjection a visible requested grants =
     (let seen = set (concat (map (grantProjection a visible requested) grants))
      in filter (\<lambda>f. f \<in> seen) (projectFields visible requested))"

definition allRestricted :: "grant list \<Rightarrow> bool" where
  "allRestricted grants \<longleftrightarrow> \<not> list_ex (\<lambda>g. g_Fields g = None) grants"

definition covers :: "authorizer \<Rightarrow> string list \<Rightarrow> string list \<Rightarrow> attribute list \<Rightarrow> grant \<Rightarrow> bool" where
  "covers a rd wr visible g =
     (case g_Fields g of
        None \<Rightarrow> True
      | Some f \<Rightarrow>
          firstDenied rd (acl_read (acl a f)) visible = [] \<and> firstDenied wr (acl_write (acl a f)) visible = [])"

definition coveringGrants :: "authorizer \<Rightarrow> grant list \<Rightarrow> string list \<Rightarrow> string list \<Rightarrow> attribute list \<Rightarrow> grant list" where
  "coveringGrants a grants rd wr visible = filter (covers a rd wr visible) grants"

section \<open>Entity-level roles\<close>

definition fieldAccessForRole :: "field_access \<Rightarrow> string \<Rightarrow> field_permissions option" where
  "fieldAccessForRole access role =
     (case map_of access role of
        Some f \<Rightarrow> Some f
      | None \<Rightarrow> map_option snd (find (\<lambda>(configured, _). NormalizeRole configured = role) access))"

definition rowPolicyForRole :: "row_policies \<Rightarrow> string \<Rightarrow> predicate" where
  "rowPolicyForRole policies role =
     (case map_of policies role of
        Some p \<Rightarrow> p
      | None \<Rightarrow>
          (case find (\<lambda>(configured, _). NormalizeRole configured = role) policies of
             Some (_, p) \<Rightarrow> p
           | None \<Rightarrow> NilPred))"

definition entityRoleGrant :: "entity \<Rightarrow> string \<Rightarrow> grant option" where
  "entityRoleGrant e role =
     (let actions = filter (\<lambda>act. list_ex (\<lambda>r. NormalizeRole r = role) (e_Role e act)) Actions in
      if actions = [] then None
      else Some \<lparr>g_ID = ''entity:'' @ e_Name e @ '':'' @ role, g_Actions = actions,
                 g_Fields = fieldAccessForRole (e_FieldAccess e) role,
                 g_Rows = rowPolicyForRole (e_RowPolicies e) role\<rparr>)"

text \<open>The loop of \<^verbatim>\<open>NewGrantAuthorizer\<close> over the roles an entity lists.\<close>

definition addRole :: "entity \<Rightarrow> string \<Rightarrow> (string \<times> grant) list \<Rightarrow> (string \<times> grant) list" where
  "addRole e r byRole =
     (let role = NormalizeRole r in
      if map_of byRole role \<noteq> None then byRole
      else case entityRoleGrant e role of Some g \<Rightarrow> byRole @ [(role, g)] | None \<Rightarrow> byRole)"

definition byRole_of :: "entity \<Rightarrow> (string \<times> grant) list" where
  "byRole_of e = fold (addRole e) (concat (map (e_Role e) Actions)) []"

definition all_grants :: "policy \<Rightarrow> (string \<times> (string \<times> grant) list) list \<Rightarrow> grant list" where
  "all_grants po eg =
     concat (map (\<lambda>(_, byEntity). concat (map snd byEntity)) (po_Roles po)) @
     concat (map (\<lambda>(_, p). concat (map snd (p_Grants p))) (po_Principals po)) @
     concat (map (\<lambda>(_, byRole). map snd byRole) eg)"

definition indexACLs :: "grant list \<Rightarrow> field_permissions \<Rightarrow> acl_set option" where
  "indexACLs grants =
     fold (\<lambda>g m. case g_Fields g of None \<Rightarrow> m | Some f \<Rightarrow> m(f \<mapsto> newACLSet f)) grants Map.empty"

definition NewGrantAuthorizer :: "registry \<Rightarrow> policy \<Rightarrow> authorizer" where
  "NewGrantAuthorizer reg po =
     (let eg = filter (\<lambda>(_, byRole). byRole \<noteq> []) (map (\<lambda>e. (e_Name e, byRole_of e)) (Entities reg))
      in \<lparr>a_registry = reg, a_policy = po, a_entityGrants = eg, a_usable = Map.empty,
          a_known = NormalizeRole ` set (map fst (po_Principals po)) \<union> NormalizeRole ` set (map fst (po_Roles po)) \<union>
            set (concat (map (\<lambda>(_, byRole). map fst byRole) eg)),
          a_granted = Map.empty, a_acls = indexACLs (all_grants po eg)\<rparr>)"

definition NewRoleAuthorizer :: "registry \<Rightarrow> authorizer" where
  "NewRoleAuthorizer reg = NewGrantAuthorizer reg \<lparr>po_Roles = [], po_RolePermissions = [], po_Principals = []\<rparr>"

section \<open>Candidates\<close>

definition findCandidates :: "authorizer \<Rightarrow> string \<Rightarrow> string \<Rightarrow> action \<Rightarrow> grant list" where
  "findCandidates a name pr act =
     (let direct = (case map_of (po_Principals (a_policy a)) pr of
            Some p \<Rightarrow> filter (\<lambda>g. allows g act) (lookup (p_Grants p) name)
          | None \<Rightarrow> []);
          roles = (case map_of (po_Principals (a_policy a)) pr of Some p \<Rightarrow> p_Roles p | None \<Rightarrow> [pr])
      in direct @ concat (map (\<lambda>role.
           filter (\<lambda>g. allows g act) (lookup (lookup (po_Roles (a_policy a)) role) name) @
           (case map_of (lookup (a_entityGrants a) name) role of
              Some g \<Rightarrow> if allows g act then [g] else []
            | None \<Rightarrow> [])) roles))"

text \<open>\<open>candidates\<close> takes the name of the entity, the only part of it the source uses.\<close>

definition candidates :: "authorizer \<Rightarrow> string \<Rightarrow> string \<Rightarrow> action \<Rightarrow> grant list \<times> authorizer" where
  "candidates a name pr act =
     (if pr = [] then ([], a)
      else if pr \<notin> a_known a then (findCandidates a name pr act, a)
      else
        case a_granted a (pr, name, act) of
          Some found \<Rightarrow> (found, a)
        | None \<Rightarrow>
            let found = findCandidates a name pr act
            in (found, a\<lparr>a_granted := (a_granted a)((pr, name, act) \<mapsto> found)\<rparr>))"

section \<open>Row filters\<close>

definition orPredicates :: "predicate list \<Rightarrow> predicate" where
  "orPredicates preds = (case preds of [p] \<Rightarrow> p | _ \<Rightarrow> Or preds)"

definition andPredicates :: "predicate \<Rightarrow> predicate \<Rightarrow> predicate" where
  "andPredicates tenant flt = (if flt = NilPred then tenant else And [tenant, flt])"

definition effectiveRowFilter :: "grant list \<Rightarrow> predicate \<Rightarrow> predicate \<times> string list" where
  "effectiveRowFilter covering tenant =
     (let rows = filter (\<lambda>p. p \<noteq> NilPred) (map g_Rows covering);
          unrestricted = list_ex (\<lambda>g. g_Rows g = NilPred) covering;
          flt = (if \<not> unrestricted then orPredicates rows else NilPred)
      in (if tenant \<noteq> NilPred then andPredicates tenant flt else flt, map g_ID covering))"

definition subject_prefix :: string where
  "subject_prefix = ''${subject.''"

definition SubjectPlaceholder :: "string \<Rightarrow> string option" where
  "SubjectPlaceholder s =
     (if take (length subject_prefix) s = subject_prefix \<and> s \<noteq> [] \<and> last s = CHR ''}''
      then Some (drop (length subject_prefix) (butlast s)) else None)"

definition subject_value :: "(string \<Rightarrow> val option) \<Rightarrow> string \<Rightarrow> val" where
  "subject_value subject attr = (case subject attr of Some v \<Rightarrow> v | None \<Rightarrow> VNull)"

definition resolveSubjectList :: "val list \<Rightarrow> (string \<Rightarrow> val option) \<Rightarrow> val list" where
  "resolveSubjectList items subject =
     concat (map (\<lambda>item.
       case item of
         VStr s \<Rightarrow>
           (case SubjectPlaceholder s of
              None \<Rightarrow> [item]
            | Some attr \<Rightarrow> (case subject_value subject attr of VList vs \<Rightarrow> vs | v \<Rightarrow> [v]))
       | _ \<Rightarrow> [item]) items)"

definition resolveCondition :: "(string \<Rightarrow> val option) \<Rightarrow> condition \<Rightarrow> condition" where
  "resolveCondition subject c =
     (case c_Value c of
        VStr s \<Rightarrow>
          (case SubjectPlaceholder s of Some attr \<Rightarrow> c\<lparr>c_Value := subject_value subject attr\<rparr> | None \<Rightarrow> c)
      | VList vs \<Rightarrow> c\<lparr>c_Value := VList (resolveSubjectList vs subject)\<rparr>
      | _ \<Rightarrow> c)"

definition resolveSubject :: "predicate \<Rightarrow> (string \<Rightarrow> val option) \<Rightarrow> predicate" where
  "resolveSubject p subject = MapConditions p (resolveCondition subject)"

section \<open>Authorization\<close>

definition returnsRows :: "action \<Rightarrow> bool" where
  "returnsRows act \<longleftrightarrow> act \<notin> {ActionCreate, ActionUpdate, ActionDelete}"

definition ambiguousFieldScope :: "authorizer \<Rightarrow> request \<Rightarrow> grant list \<Rightarrow> attribute list \<Rightarrow> decision" where
  "ambiguousFieldScope a req grants visible =
     (denied (NoSingleGrant (rq_Role req) (rq_Entity req)))
       \<lparr>d_FieldScopes := map (grantProjection a visible []) grants\<rparr>"

definition deniedFieldScope ::
  "authorizer \<Rightarrow> request \<Rightarrow> grant list \<Rightarrow> string list \<Rightarrow> string list \<Rightarrow> attribute list \<Rightarrow> decision" where
  "deniedFieldScope a req grants rd wr visible =
     (case find (\<lambda>f. coveringGrants a grants [f] [] visible = []) rd of
        Some f \<Rightarrow> denied (NotReadable f (rq_Role req))
      | None \<Rightarrow>
          (case find (\<lambda>f. coveringGrants a grants [] [f] visible = []) wr of
             Some f \<Rightarrow> denied (NotWritable f (rq_Role req))
           | None \<Rightarrow> ambiguousFieldScope a req grants visible))"

text \<open>\<open>project\<close> returns the projection and the grants that serve it, or the denial.\<close>

definition project :: "authorizer \<Rightarrow> request \<Rightarrow> resolved \<Rightarrow> grant list \<Rightarrow> decision + string list \<times> grant list" where
  "project a req res covering =
     (if \<not> returnsRows (rq_Action req) then Inr ([], covering)
      else
        let projected = unionProjection a (rs_Attributes res) (rq_Fields req) covering in
        if rq_Action req \<noteq> ActionRead then Inr (projected, covering)
        else if projected = [] then Inl (denied (NoReadableFields (rq_Role req)))
        else
          let serving = coveringGrants a covering projected [] (rs_Attributes res) in
          if serving = [] then Inl (ambiguousFieldScope a req covering (rs_Attributes res))
          else Inr (projected, serving))"

text \<open>The fields a request reads and writes.\<close>

definition readsWrites :: "request \<Rightarrow> string list \<times> string list" where
  "readsWrites req =
     (if rq_ReadFields req = [] \<and> rq_WriteFields req = [] then
        (if rq_Action req \<in> {ActionCreate, ActionUpdate} then ([], rq_Fields req) else (rq_Fields req, []))
      else (rq_ReadFields req, rq_WriteFields req))"

text \<open>The decision once the entity and the candidates are known.\<close>

definition decide :: "authorizer \<Rightarrow> request \<Rightarrow> resolved \<Rightarrow> grant list \<Rightarrow> decision" where
  "decide a req res cands =
     (if cands = [] then denied (NotPermitted (rq_Role req) (rq_Action req) (rq_Entity req))
      else
        let (rd, wr) = readsWrites req in
        if rq_Action req = ActionRead \<and> rq_Fields req = [] \<and> allRestricted cands \<and>
           unionProjection a (rs_Attributes res) [] cands = []
        then denied (NoReadableFields (rq_Role req))
        else
          let covering = coveringGrants a cands rd wr (rs_Attributes res) in
          if covering = [] then deniedFieldScope a req cands rd wr (rs_Attributes res)
          else
            case project a req res covering of
              Inl d \<Rightarrow> d
            | Inr (projected, serving) \<Rightarrow>
                let (flt, ids) = effectiveRowFilter serving (e_TenantPolicy (rs_Entity res))
                in \<lparr>d_Allowed = True, d_Reason = NoReason, d_Fields = projected,
                    d_RowFilter = resolveSubject flt (rq_Subject req), d_Grants = ids, d_FieldScopes = []\<rparr>)"

definition Authorize :: "authorizer \<Rightarrow> request \<Rightarrow> decision \<times> authorizer" where
  "Authorize a req0 =
     (let req = req0\<lparr>rq_Role := NormalizeRole (rq_Role req0)\<rparr> in
      case Resolve (a_registry a) (rq_Entity req) of
        None \<Rightarrow> (denied (EntityNotFound (rq_Entity req)), a)
      | Some res \<Rightarrow>
          let (cands, a') = candidates a (e_Name (rs_Entity res)) (rq_Role req) (rq_Action req)
          in (decide a req res cands, a'))"

definition bare_request :: "string \<Rightarrow> string \<Rightarrow> action \<Rightarrow> request" where
  "bare_request role name act =
     \<lparr>rq_Role = role, rq_Entity = name, rq_Action = act, rq_Fields = [], rq_ReadFields = [], rq_WriteFields = [],
      rq_Subject = Map.empty, rq_Predicate = NilPred\<rparr>"

fun usable_loop :: "string \<Rightarrow> string \<Rightarrow> action list \<Rightarrow> authorizer \<Rightarrow> bool \<times> authorizer" where
  "usable_loop role name [] a = (False, a)"
| "usable_loop role name (act # acts) a =
     (let (dec, a') = Authorize a (bare_request role name act)
      in if Reachable dec then (True, a') else usable_loop role name acts a')"

definition Usable :: "authorizer \<Rightarrow> string \<Rightarrow> string \<Rightarrow> bool \<times> authorizer" where
  "Usable a role name =
     (let key = (NormalizeRole role, name) in
      case a_usable a key of
        Some ok \<Rightarrow> (ok, a)
      | None \<Rightarrow>
          (case Resolve (a_registry a) name of
             None \<Rightarrow> (False, a)
           | Some e \<Rightarrow>
               let (ok, a') = usable_loop role name (ActionsFor (e_Kind (rs_Entity e))) a
               in (ok, if fst key \<in> a_known a then a'\<lparr>a_usable := (a_usable a')(key \<mapsto> ok)\<rparr> else a')))"

end
