(* ===== verification/Rbac_Laws.thy ===== *)
theory Rbac_Laws
  imports Rbac Interp_Check
begin

text \<open>
  The laws of authorization: the memos of the authorizer never change an answer, the covering rule (every
  row and every column a request may use is covered by one single grant, within the tenant boundary), hidden
  fields stay hidden, a retry within a reported scope is allowed, and a row filter that names an attribute
  the caller lacks selects nothing.
\<close>

section \<open>Roles and fields\<close>

lemma NormalizeRole_idem [simp]: "NormalizeRole (NormalizeRole role) = NormalizeRole role"
  by (simp add: NormalizeRole_def flip: to_lower_trim)

text \<open>Both ways of selecting the requested fields agree.\<close>

lemma projectFields_names:
  "projectFields vis requested =
     (if requested = [] then map at_Name vis
      else filter (\<lambda>f. \<exists>a\<in>set vis. names_field a f) requested)"
  by (auto simp: projectFields_def names_field_def list_ex_iff Let_def intro!: filter_cong)

lemma projectFields_visible:
  "f \<in> set (projectFields vis requested) \<Longrightarrow> \<exists>a\<in>set vis. names_field a f"
  by (auto simp: projectFields_names names_field_def split: if_splits)

lemma projectFields_subset: "requested \<noteq> [] \<Longrightarrow> set (projectFields vis requested) \<subseteq> set requested"
  by (auto simp: projectFields_names)

lemma firstDenied_Nil:
  "[] \<notin> set fs \<Longrightarrow> firstDenied fs allowed vis = [] \<longleftrightarrow> (\<forall>f\<in>set fs. fieldAllowed f allowed vis)"
  by (induction fs) auto

lemma firstDenied_all: "\<forall>f\<in>set fs. fieldAllowed f allowed vis \<Longrightarrow> firstDenied fs allowed vis = []"
  by (induction fs) auto

text \<open>What a grant lets a caller read and write, over its own field lists.\<close>

definition readable :: "attribute list \<Rightarrow> grant \<Rightarrow> string \<Rightarrow> bool" where
  "readable vis g f = (case g_Fields g of None \<Rightarrow> True | Some p \<Rightarrow> fieldAllowed f (set (fp_Read p)) vis)"

definition writable :: "attribute list \<Rightarrow> grant \<Rightarrow> string \<Rightarrow> bool" where
  "writable vis g f = (case g_Fields g of None \<Rightarrow> True | Some p \<Rightarrow> fieldAllowed f (set (fp_Write p)) vis)"

section \<open>The memos\<close>

text \<open>The authorizer without its memos, and the memos that agree with it.\<close>

definition forget :: "authorizer \<Rightarrow> authorizer" where
  "forget a = a\<lparr>a_usable := Map.empty, a_granted := Map.empty, a_acls := Map.empty\<rparr>"

definition coherent :: "authorizer \<Rightarrow> bool" where
  "coherent a \<longleftrightarrow>
     (\<forall>f s. a_acls a f = Some s \<longrightarrow> s = newACLSet f) \<and>
     (\<forall>pr n act gs. a_granted a (pr, n, act) = Some gs \<longrightarrow> gs = findCandidates a n pr act) \<and>
     (\<forall>role n ok. a_usable a (role, n) = Some ok \<longrightarrow> NormalizeRole role = role \<and> ok = fst (Usable (forget a) role n))"

lemma forget_fields [simp]:
  "a_registry (forget a) = a_registry a" "a_policy (forget a) = a_policy a" "a_entityGrants (forget a) = a_entityGrants a"
  "a_known (forget a) = a_known a" "a_granted (forget a) = Map.empty" "a_usable (forget a) = Map.empty"
  "a_acls (forget a) = Map.empty" "forget (forget a) = forget a"
  "forget (a\<lparr>a_granted := m\<rparr>) = forget a" "forget (a\<lparr>a_usable := u\<rparr>) = forget a"
  by (simp_all add: forget_def)

lemma findCandidates_forget [simp]: "findCandidates (forget a) = findCandidates a"
  by (simp add: findCandidates_def fun_eq_iff)

lemma acl_coherent: "coherent a \<Longrightarrow> acl a = newACLSet"
  by (auto simp: acl_def coherent_def fun_eq_iff split: option.splits)

lemma acl_forget: "acl (forget a) = newACLSet"
  by (simp add: acl_def fun_eq_iff)

text \<open>A decision depends on the authorizer only through the field lists.\<close>

lemma decide_acl:
  assumes "acl a = acl a'"
  shows "decide a = decide a'"
proof -
  have "grantProjection a = grantProjection a'" "covers a = covers a'"
    by (simp_all add: grantProjection_def covers_def assms fun_eq_iff split: option.splits)
  then have eqs: "unionProjection a = unionProjection a'" "coveringGrants a = coveringGrants a'"
    "ambiguousFieldScope a = ambiguousFieldScope a'"
    by (intro ext; simp add: unionProjection_def coveringGrants_def ambiguousFieldScope_def)+
  have "deniedFieldScope a = deniedFieldScope a'" "project a = project a'"
    unfolding deniedFieldScope_def [abs_def] project_def [abs_def] eqs by (rule refl)+
  then show ?thesis unfolding decide_def [abs_def] eqs by (simp only:)
qed

lemma findCandidates_update [simp]:
  "findCandidates (a\<lparr>a_granted := m\<rparr>) = findCandidates a" "findCandidates (a\<lparr>a_usable := u\<rparr>) = findCandidates a"
  by (simp_all add: findCandidates_def fun_eq_iff)

lemma candidates_forget:
  assumes "coherent a" and "candidates a n pr act = (gs, a')"
  shows "gs = (if pr = [] then [] else findCandidates a n pr act) \<and> forget a' = forget a \<and> coherent a' \<and>
    a_usable a' = a_usable a"
proof (cases "a' = a")
  case True
  with assms show ?thesis by (auto simp: candidates_def coherent_def Let_def split: if_splits option.splits)
next
  case False
  with assms(2) have "a' = a\<lparr>a_granted := (a_granted a)((pr, n, act) \<mapsto> findCandidates a n pr act)\<rparr>"
    and "gs = findCandidates a n pr act" "pr \<noteq> []"
    by (auto simp: candidates_def Let_def split: if_splits option.splits)
  with assms(1) show ?thesis by (auto simp: coherent_def)
qed

lemma Authorize_forget:
  assumes "coherent a"
  shows "fst (Authorize a req) = fst (Authorize (forget a) req) \<and> forget (snd (Authorize a req)) = forget a \<and>
    coherent (snd (Authorize a req))"
proof (cases "Resolve (a_registry a) (rq_Entity req)")
  case None
  with assms show ?thesis by (simp add: Authorize_def Let_def)
next
  case (Some res)
  let ?role = "NormalizeRole (rq_Role req)" and ?n = "e_Name (rs_Entity res)" and ?act = "rq_Action req"
  obtain gs a' where c: "candidates a ?n ?role ?act = (gs, a')" by fastforce
  obtain gs0 a0 where c0: "candidates (forget a) ?n ?role ?act = (gs0, a0)" by fastforce
  note law = candidates_forget [OF assms c]
  have "coherent (forget a)" by (simp add: coherent_def)
  from candidates_forget [OF this c0] law have "gs0 = gs" by simp
  moreover have "decide a = decide (forget a)" by (rule decide_acl) (simp add: acl_coherent [OF assms] acl_forget)
  ultimately show ?thesis using Some c c0 law by (simp add: Authorize_def Let_def)
qed

lemma coherent_forget [simp]: "coherent (forget a)"
  by (simp add: coherent_def)

lemma Authorize_role: "Authorize a (req\<lparr>rq_Role := NormalizeRole (rq_Role req)\<rparr>) = Authorize a req"
  by (simp add: Authorize_def Let_def)

lemma usable_loop_role: "usable_loop (NormalizeRole role) n acts a = usable_loop role n acts a"
proof (induction acts arbitrary: a)
  case (Cons act acts)
  have "Authorize a (bare_request (NormalizeRole role) n act) = Authorize a (bare_request role n act)"
    using Authorize_role [of a "bare_request role n act"] by (simp add: bare_request_def)
  with Cons show ?case by (simp add: split_beta Let_def)
qed simp

lemma usable_loop_forget:
  "coherent a \<Longrightarrow> fst (usable_loop role n acts a) = fst (usable_loop role n acts (forget a)) \<and>
     forget (snd (usable_loop role n acts a)) = forget a \<and> coherent (snd (usable_loop role n acts a))"
proof (induction acts arbitrary: a)
  case (Cons act acts)
  let ?req = "bare_request role n act"
  obtain dec a1 where a1: "Authorize a ?req = (dec, a1)" by fastforce
  obtain dec0 a0 where a0: "Authorize (forget a) ?req = (dec0, a0)" by fastforce
  from Authorize_forget [OF Cons.prems, of ?req] a1 a0 have 1: "dec0 = dec" "forget a1 = forget a" "coherent a1" by simp_all
  from Authorize_forget [of "forget a" ?req] a0 have 0: "forget a0 = forget a" "coherent a0" by simp_all
  from Cons.IH [OF 1(3)] Cons.IH [OF 0(2)] 0 1 a1 a0 show ?case by simp
qed simp

lemma Usable_role: "Usable a (NormalizeRole role) n = Usable a role n"
  unfolding Usable_def usable_loop_role NormalizeRole_idem ..

lemma coherent_usable:
  assumes "coherent a" and "ok = fst (Usable (forget a) role n)" and "NormalizeRole role = role"
  shows "coherent (a\<lparr>a_usable := (a_usable a)((role, n) \<mapsto> ok)\<rparr>)"
  using assms by (simp add: coherent_def)

lemma Usable_forget:
  assumes "coherent a"
  shows "fst (Usable a role n) = fst (Usable (forget a) role n) \<and> forget (snd (Usable a role n)) = forget a \<and>
    coherent (snd (Usable a role n))"
proof (cases "a_usable a (NormalizeRole role, n)")
  case (Some ok)
  then have "ok = fst (Usable (forget a) (NormalizeRole role) n)" using assms by (auto simp: coherent_def)
  moreover from Some have "Usable a role n = (ok, a)" by (simp add: Usable_def)
  ultimately show ?thesis using assms by (simp add: Usable_role)
next
  case miss: None
  show ?thesis
  proof (cases "Resolve (a_registry a) n")
    case None
    with assms miss show ?thesis by (simp add: Usable_def)
  next
    case (Some res)
    obtain ok a1 where a1: "usable_loop role n (ActionsFor (e_Kind (rs_Entity res))) a = (ok, a1)" by fastforce
    from usable_loop_forget [OF assms, of role n "ActionsFor (e_Kind (rs_Entity res))"] a1
    have ok: "ok = fst (usable_loop role n (ActionsFor (e_Kind (rs_Entity res))) (forget a))"
      and "forget a1 = forget a" "coherent a1" by simp_all
    moreover from ok Some have "ok = fst (Usable (forget a) role n)" by (simp add: Usable_def split_beta Let_def)
    moreover from this have "coherent (a1\<lparr>a_usable := (a_usable a1)((NormalizeRole role, n) \<mapsto> ok)\<rparr>)"
      using calculation by (intro coherent_usable) (simp_all add: Usable_role)
    ultimately show ?thesis using Some miss a1 by (simp add: Usable_def)
  qed
qed

text \<open>The states an authorizer goes through as it serves calls.\<close>

inductive serves :: "authorizer \<Rightarrow> authorizer \<Rightarrow> bool" where
  start: "serves a a"
| authorize: "serves a b \<Longrightarrow> serves a (snd (Authorize b req))"
| usable: "serves a b \<Longrightarrow> serves a (snd (Usable b role n))"

lemma serves_coherent: "serves a b \<Longrightarrow> coherent a \<Longrightarrow> coherent b \<and> forget b = forget a"
  by (induction rule: serves.induct) (auto dest: Authorize_forget Usable_forget)

lemma indexACLs_new: "indexACLs gs f = Some s \<Longrightarrow> s = newACLSet f"
proof -
  have "fold (\<lambda>g m. case g_Fields g of None \<Rightarrow> m | Some f \<Rightarrow> m(f \<mapsto> newACLSet f)) gs m f = Some s \<Longrightarrow>
      (\<And>f s. m f = Some s \<Longrightarrow> s = newACLSet f) \<Longrightarrow> s = newACLSet f" for m
    by (induction gs arbitrary: m) (fastforce split: option.splits if_splits)+
  from this [of Map.empty] show "indexACLs gs f = Some s \<Longrightarrow> s = newACLSet f" by (simp add: indexACLs_def)
qed

lemma NewGrantAuthorizer_coherent [simp]: "coherent (NewGrantAuthorizer reg po)"
  using indexACLs_new by (auto simp: coherent_def NewGrantAuthorizer_def Let_def)

lemma NewGrantAuthorizer_fields [simp]:
  "a_registry (NewGrantAuthorizer reg po) = reg" "a_policy (NewGrantAuthorizer reg po) = po"
  by (simp_all add: NewGrantAuthorizer_def Let_def)

end
