(* ===== verification/Rbac_Props.thy ===== *)
theory Rbac_Props
  imports Rbac_Laws
begin

text \<open>
  The properties of authorization, over the reference semantics of predicates of
  \<^verbatim>\<open>src/core/relalg/interp\<close>.
\<close>

section \<open>The covering rule\<close>

lemma covers_iff:
  assumes "acl a = newACLSet" and "[] \<notin> set rd \<union> set wr"
  shows "covers a rd wr vis g \<longleftrightarrow> (\<forall>f\<in>set rd. readable vis g f) \<and> (\<forall>f\<in>set wr. writable vis g f)"
  using assms by (auto simp: covers_def readable_def writable_def newACLSet_def firstDenied_Nil split: option.splits)

text \<open>An allowed request is served by grants among the candidates that cover it.\<close>

definition served :: "authorizer \<Rightarrow> request \<Rightarrow> resolved \<Rightarrow> grant list \<Rightarrow> decision \<Rightarrow> bool" where
  "served a req res gs d \<longleftrightarrow> gs \<noteq> [] \<and>
     (\<forall>g\<in>set gs. covers a (fst (readsWrites req)) (snd (readsWrites req)) (rs_Attributes res) g \<and>
        (rq_Action req = ActionRead \<longrightarrow> covers a (d_Fields d) [] (rs_Attributes res) g)) \<and>
     (\<forall>f\<in>set (d_Fields d). f \<in> set (projectFields (rs_Attributes res) (rq_Fields req))) \<and>
     d_Grants d = map g_ID gs \<and>
     d_RowFilter d = resolveSubject (fst (effectiveRowFilter gs (e_TenantPolicy (rs_Entity res)))) (rq_Subject req)"

lemma project_Inr:
  assumes "project a req res covering = Inr (fs, gs)" and "covering \<noteq> []"
  shows "gs \<noteq> [] \<and> set gs \<subseteq> set covering \<and> set fs \<subseteq> set (projectFields (rs_Attributes res) (rq_Fields req)) \<and>
    (rq_Action req = ActionRead \<longrightarrow> (\<forall>g\<in>set gs. covers a fs [] (rs_Attributes res) g))"
  using assms by (auto simp: project_def Let_def returnsRows_def unionProjection_def coveringGrants_def split: if_splits)

lemma denied_fields [simp]: "\<not> d_Allowed (denied r)" "\<not> d_Allowed (ambiguousFieldScope a req gs vis)"
    "\<not> d_Allowed (deniedFieldScope a req gs rd wr vis)"
  by (simp_all add: denied_def ambiguousFieldScope_def deniedFieldScope_def split: option.splits)

lemma project_Inl: "project a req res covering = Inl d \<Longrightarrow> \<not> d_Allowed d"
  by (auto simp: project_def Let_def split: if_splits)

lemma decide_allowed:
  assumes "d_Allowed (decide a req res cands)"
  shows "\<exists>gs. set gs \<subseteq> set cands \<and> served a req res gs (decide a req res cands)"
proof -
  obtain rd wr where rw: "readsWrites req = (rd, wr)" by fastforce
  let ?cov = "coveringGrants a cands rd wr (rs_Attributes res)"
  have cov: "?cov \<noteq> []" and ok: "\<not> (rq_Action req = ActionRead \<and> rq_Fields req = [] \<and> allRestricted cands \<and>
      unionProjection a (rs_Attributes res) [] cands = [])" and cands: "cands \<noteq> []"
    using assms rw by (auto simp: decide_def Let_def split: if_splits)
  obtain fs gs where p: "project a req res ?cov = Inr (fs, gs)"
    using assms rw cov ok cands project_Inl by (cases "project a req res ?cov") (auto simp: decide_def Let_def)
  obtain flt ids where f: "effectiveRowFilter gs (e_TenantPolicy (rs_Entity res)) = (flt, ids)" by fastforce
  have d: "decide a req res cands = \<lparr>d_Allowed = True, d_Reason = NoReason, d_Fields = fs,
      d_RowFilter = resolveSubject flt (rq_Subject req), d_Grants = ids, d_FieldScopes = []\<rparr>"
    using cov ok cands p f rw by (simp add: decide_def Let_def) blast
  have "ids = map g_ID gs" using f by (auto simp: effectiveRowFilter_def Let_def)
  moreover have "set gs \<subseteq> set ?cov" using project_Inr [OF p cov] by simp
  ultimately have "served a req res gs (decide a req res cands)" "set gs \<subseteq> set cands"
    using project_Inr [OF p cov] rw f by (auto simp: served_def d coveringGrants_def)
  then show ?thesis by blast
qed

text \<open>A row that passes the filter lies within the tenant boundary and within the rows of one of the grants.\<close>

abbreviation passes :: "relation \<Rightarrow> val list \<Rightarrow> (string \<Rightarrow> val option) \<Rightarrow> predicate \<Rightarrow> bool" where
  "passes rel row subj p \<equiv> evalPredicate rel row (resolveSubject p subj) = Inr triTrue"

lemma passes_Nil [simp]: "passes rel row subj NilPred"
  by (simp add: resolveSubject_def)

lemma passes_orPredicates: "passes rel row subj (orPredicates ps) \<Longrightarrow> \<exists>p\<in>set ps. passes rel row subj p"
proof (cases "\<exists>p. ps = [p]")
  case False
  then have "orPredicates ps = Or ps" by (auto simp: orPredicates_def split: list.splits)
  then show "passes rel row subj (orPredicates ps) \<Longrightarrow> ?thesis" by (auto simp: resolveSubject_def dest!: evalOr_loop_true)
qed (auto simp: orPredicates_def)

lemma passes_andPredicates:
  "passes rel row subj (andPredicates tenant flt) \<Longrightarrow> passes rel row subj tenant \<and> passes rel row subj flt"
  using passes_Nil [of rel row subj]
  by (cases "flt = NilPred") (auto simp: andPredicates_def resolveSubject_def simp del: evalAnd_loop.simps dest!: evalAnd_loop_true)

lemma effectiveRowFilter_true:
  assumes "passes rel row subj (fst (effectiveRowFilter gs tenant))" and "gs \<noteq> []"
  shows "passes rel row subj tenant \<and> (\<exists>g\<in>set gs. passes rel row subj (g_Rows g))"
proof -
  let ?flt = "if \<not> list_ex (\<lambda>g. g_Rows g = NilPred) gs then orPredicates (filter (\<lambda>p. p \<noteq> NilPred) (map g_Rows gs)) else NilPred"
  have flt: "fst (effectiveRowFilter gs tenant) = (if tenant \<noteq> NilPred then andPredicates tenant ?flt else ?flt)"
    by (simp add: effectiveRowFilter_def Let_def)
  then have both: "passes rel row subj tenant" "passes rel row subj ?flt"
    using assms(1) passes_andPredicates [of rel row tenant ?flt subj] by (auto split: if_splits)
  have "\<exists>p\<in>set (map g_Rows gs). passes rel row subj p"
  proof (cases "list_ex (\<lambda>g. g_Rows g = NilPred) gs")
    case True
    then have "NilPred \<in> set (map g_Rows gs)" by (metis (mono_tags) list_ex_iff list.set_map imageI)
    with passes_Nil show ?thesis by blast
  next
    case False
    with both(2) have "passes rel row subj (orPredicates (filter (\<lambda>p. p \<noteq> NilPred) (map g_Rows gs)))" by simp
    then obtain p where "p \<in> set (filter (\<lambda>p. p \<noteq> NilPred) (map g_Rows gs))" and p: "passes rel row subj p"
      by (blast dest: passes_orPredicates)
    from this(1) have "p \<in> set (map g_Rows gs)" by simp
    with p show ?thesis ..
  qed
  then obtain g where "g \<in> set gs" "passes rel row subj (g_Rows g)" by auto
  with both(1) show ?thesis by blast
qed

lemma findCandidates_allows: "g \<in> set (findCandidates a n pr act) \<Longrightarrow> allows g act"
  by (auto simp: findCandidates_def Let_def split: option.splits if_splits)

lemma Authorize_decide:
  assumes "coherent a" and "Resolve (a_registry a) (rq_Entity req) = Some res" and "NormalizeRole (rq_Role req) \<noteq> []"
  shows "fst (Authorize a req) = decide a (req\<lparr>rq_Role := NormalizeRole (rq_Role req)\<rparr>) res
    (findCandidates a (e_Name (rs_Entity res)) (NormalizeRole (rq_Role req)) (rq_Action req))"
proof -
  obtain gs a' where c: "candidates a (e_Name (rs_Entity res)) (NormalizeRole (rq_Role req)) (rq_Action req) = (gs, a')" by fastforce
  from candidates_forget [OF assms(1) c] assms(3)
  have "gs = findCandidates a (e_Name (rs_Entity res)) (NormalizeRole (rq_Role req)) (rq_Action req)" by simp
  with assms(2) c show ?thesis by (simp add: Authorize_def Let_def)
qed

lemma Authorize_denies:
  assumes "coherent a" and "Resolve (a_registry a) (rq_Entity req) = None \<or> NormalizeRole (rq_Role req) = []"
  shows "\<not> d_Allowed (fst (Authorize a req))" and "d_FieldScopes (fst (Authorize a req)) = []"
  using assms by (auto simp: Authorize_def Let_def candidates_def decide_def denied_def split: option.splits)

lemma readsWrites_role [simp]: "readsWrites (req\<lparr>rq_Role := r\<rparr>) = readsWrites req"
  by (simp add: readsWrites_def)

text \<open>An allowed request names an entity and a role, and grants of that role serve it.\<close>

lemma Authorize_served:
  assumes "coherent a" and "d_Allowed (fst (Authorize a req))"
  shows "\<exists>res gs. Resolve (a_registry a) (rq_Entity req) = Some res \<and> served a req res gs (fst (Authorize a req)) \<and>
    set gs \<subseteq> set (findCandidates a (e_Name (rs_Entity res)) (NormalizeRole (rq_Role req)) (rq_Action req))"
proof -
  obtain res where res: "Resolve (a_registry a) (rq_Entity req) = Some res" and role: "NormalizeRole (rq_Role req) \<noteq> []"
    using Authorize_denies(1) [OF assms(1), of req] assms(2) by (cases "Resolve (a_registry a) (rq_Entity req)") auto
  let ?req = "req\<lparr>rq_Role := NormalizeRole (rq_Role req)\<rparr>"
  let ?cands = "findCandidates a (e_Name (rs_Entity res)) (NormalizeRole (rq_Role req)) (rq_Action req)"
  note d = Authorize_decide [OF assms(1) res role]
  from decide_allowed [of a ?req res ?cands] assms(2) obtain gs where "set gs \<subseteq> set ?cands"
    "served a ?req res gs (fst (Authorize a req))" by (auto simp: d)
  then show ?thesis using res by (auto simp: served_def)
qed

text \<open>The scopes of an ambiguous denial are the readable fields of single candidates.\<close>

lemma decide_scopes:
  assumes "scope \<in> set (d_FieldScopes (decide a req res cands))"
  shows "\<exists>g\<in>set cands. scope = grantProjection a (rs_Attributes res) [] g"
proof -
  obtain rd wr where rw: "readsWrites req = (rd, wr)" by fastforce
  let ?cov = "coveringGrants a cands rd wr (rs_Attributes res)"
  have nil: "d_FieldScopes (denied r) = []" for r by (simp add: denied_def)
  have amb: "d_FieldScopes (ambiguousFieldScope a req gs vis) = map (grantProjection a vis []) gs" for gs vis
    by (simp add: ambiguousFieldScope_def)
  have field: "set (d_FieldScopes (deniedFieldScope a req cands rd wr vis)) \<subseteq> grantProjection a vis [] ` set cands" for vis
    by (simp add: deniedFieldScope_def nil amb split: option.splits)
  have proj: "set (d_FieldScopes d) \<subseteq> grantProjection a (rs_Attributes res) [] ` set ?cov" if "project a req res ?cov = Inl d" for d
    using that by (auto simp: project_def Let_def nil amb split: if_splits)
  have "set ?cov \<subseteq> set cands" by (simp add: coveringGrants_def)
  then show ?thesis using assms rw field proj
    by (fastforce simp: decide_def Let_def nil split: if_splits sum.splits prod.splits)
qed

lemma projectFields_own: "set fs \<subseteq> at_Name ` set vis \<Longrightarrow> fs \<noteq> [] \<Longrightarrow> projectFields vis fs = fs"
  by (force simp: projectFields_names names_field_def intro!: filter_True)

lemma grantProjection_scope:
  assumes "scope = grantProjection a vis [] g" and "scope \<noteq> []"
  shows "covers a scope [] vis g" and "grantProjection a vis scope g = scope" and "set scope \<subseteq> at_Name ` set vis"
proof -
  show own: "set scope \<subseteq> at_Name ` set vis"
    by (auto simp: assms(1) grantProjection_def projectFieldsForACL_def projectFields_def split: option.splits)
  have allowed: "\<forall>f\<in>set scope. fieldAllowed f (acl_read (acl a p)) vis" if "g_Fields g = Some p" for p
    using that by (simp add: assms(1) grantProjection_def projectFieldsForACL_def)
  then show "covers a scope [] vis g" by (auto simp: covers_def firstDenied_all split: option.splits)
  show "grantProjection a vis scope g = scope"
    using allowed by (simp add: grantProjection_def projectFieldsForACL_def projectFields_own [OF own assms(2)] split: option.splits)
qed

lemma coveringGrants_idem: "coveringGrants a (coveringGrants a gs rd wr vis) rd wr vis = coveringGrants a gs rd wr vis"
  by (simp add: coveringGrants_def)

text \<open>A request for the readable fields of one candidate is allowed.\<close>

lemma decide_scope:
  assumes g: "g \<in> set cands" "scope = grantProjection a (rs_Attributes res) [] g" and scope: "scope \<noteq> []"
    and rw: "readsWrites req = (scope, [])" and fs: "rq_Fields req = scope"
  shows "d_Allowed (decide a req res cands) \<and> (returnsRows (rq_Action req) \<longrightarrow> d_Fields (decide a req res cands) = scope)"
proof -
  let ?vis = "rs_Attributes res"
  define cov where "cov = coveringGrants a cands scope [] ?vis"
  note own = grantProjection_scope [OF g(2) scope]
  have mem: "g \<in> set cov" using g(1) own(1) by (simp add: cov_def coveringGrants_def)
  have "set scope \<subseteq> set (concat (map (grantProjection a ?vis scope) cov))" using mem own(2) by auto
  then have proj: "unionProjection a ?vis scope cov = scope"
    using projectFields_own [OF own(3) scope] by (auto simp: unionProjection_def Let_def intro!: filter_True)
  have serving: "coveringGrants a cov scope [] ?vis = cov" by (simp add: cov_def coveringGrants_idem)
  have "project a req res cov = Inr (if returnsRows (rq_Action req) then scope else [], cov)"
    using mem scope by (auto simp: project_def fs proj serving Let_def)
  with g(1) mem scope show ?thesis
    by (auto simp: decide_def rw fs Let_def split_beta simp flip: cov_def)
qed

lemma decide_fields: "d_Fields (decide a req res cands) \<noteq> [] \<Longrightarrow> d_Allowed (decide a req res cands)"
proof -
  have nil: "d_Fields (denied r) = []" "d_Fields (ambiguousFieldScope a req gs vis) = []"
    "d_Fields (deniedFieldScope a req gs rd wr vis) = []" for r gs rd wr vis
    by (simp_all add: denied_def ambiguousFieldScope_def deniedFieldScope_def split: option.splits)
  have "d_Fields d = []" if "project a req res gs = Inl d" for gs d
    using that by (auto simp: project_def Let_def nil split: if_splits)
  then show "d_Fields (decide a req res cands) \<noteq> [] \<Longrightarrow> d_Allowed (decide a req res cands)"
    by (auto simp: decide_def Let_def nil split: if_splits sum.splits prod.splits)
qed

lemma Authorize_fields: "d_Fields (fst (Authorize a req)) \<noteq> [] \<Longrightarrow> d_Allowed (fst (Authorize a req))"
  using decide_fields by (fastforce simp: Authorize_def Let_def denied_def split: option.splits prod.splits)

lemma decide_covered:
  assumes "g \<in> set cands" and "covers a (fst (readsWrites req)) (snd (readsWrites req)) (rs_Attributes res) g"
    and "rq_Action req \<noteq> ActionRead"
  shows "d_Allowed (decide a req res cands)"
proof -
  let ?cov = "coveringGrants a cands (fst (readsWrites req)) (snd (readsWrites req)) (rs_Attributes res)"
  have "g \<in> set ?cov" using assms(1,2) by (simp add: coveringGrants_def)
  moreover have "\<exists>r. project a req res ?cov = Inr r" using assms(3) by (simp add: project_def Let_def)
  ultimately show ?thesis using assms(1,3)
    by (auto simp: decide_def Let_def split_beta split: if_splits)
qed

text \<open>A condition that compares with NULL is neither true nor false.\<close>

lemma evalCondition_null:
  assumes "evalCondition rel row (c\<lparr>c_Value := VNull\<rparr>) = Inr v" and "c_Op c \<notin> {OpIsNull, OpIsNotNull}"
  shows "v = triUnknown"
  using assms
  by (cases "c_Op c") (auto simp: evalCondition_def evalOp_def evalComparison_def evalIn_def evalLike_def bindR_eq_Inr)

section \<open>Properties\<close>

text \<open>
  C1: the covering rule. When a request is allowed, there are grants of the caller's role (each allowing the
  action on the entity) such that every one of them covers every field the request reads or writes and, for a
  read, every field it returns; and each row that passes the row filter lies within the tenant boundary and
  within the rows of one of these grants. So every row and column returned is covered by one single grant.
\<close>

theorem Authorize_covering:
  assumes "NewRegistry es = Inr reg" and "serves (NewGrantAuthorizer reg po) a" and "d = fst (Authorize a req)" and "d_Allowed d"
    and "[] \<notin> set (rq_Fields req) \<union> set (rq_ReadFields req) \<union> set (rq_WriteFields req)"
    and "\<forall>e\<in>set es. \<forall>att\<in>set (e_Attributes e). at_Name att \<noteq> []"
  shows "\<exists>res gs. Resolve reg (rq_Entity req) = Some res \<and> gs \<noteq> [] \<and> d_Grants d = map g_ID gs \<and>
    (\<forall>g\<in>set gs.
       g \<in> set (findCandidates (NewGrantAuthorizer reg po) (e_Name (rs_Entity res)) (NormalizeRole (rq_Role req)) (rq_Action req)) \<and>
       allows g (rq_Action req) \<and>
       (\<forall>f\<in>set (fst (readsWrites req)). readable (rs_Attributes res) g f) \<and>
       (\<forall>f\<in>set (snd (readsWrites req)). writable (rs_Attributes res) g f) \<and>
       (rq_Action req = ActionRead \<longrightarrow> (\<forall>f\<in>set (d_Fields d). readable (rs_Attributes res) g f))) \<and>
    (\<forall>rel row. evalPredicate rel row (d_RowFilter d) = Inr triTrue \<longrightarrow>
       passes rel row (rq_Subject req) (e_TenantPolicy (rs_Entity res)) \<and>
       (\<exists>g\<in>set gs. passes rel row (rq_Subject req) (g_Rows g)))"
proof -
  let ?a0 = "NewGrantAuthorizer reg po"
  have a: "coherent a" "forget a = forget ?a0" using serves_coherent [OF assms(2)] by simp_all
  have reg: "a_registry a = reg" using arg_cong [OF a(2), of a_registry] by simp
  have cands: "findCandidates a = findCandidates ?a0" by (metis a(2) findCandidates_forget)
  obtain res gs where res: "Resolve reg (rq_Entity req) = Some res" and served: "served a req res gs d"
    and sub: "set gs \<subseteq> set (findCandidates ?a0 (e_Name (rs_Entity res)) (NormalizeRole (rq_Role req)) (rq_Action req))"
    using Authorize_served [OF a(1), of req] assms(3,4) by (auto simp: reg cands)
  note cov = covers_iff [OF acl_coherent [OF a(1)]]
  have rw: "[] \<notin> set (fst (readsWrites req)) \<union> set (snd (readsWrites req))"
    using assms(5) by (simp add: readsWrites_def)
  have "at_Name att \<noteq> []" if "att \<in> set (rs_Attributes res)" for att
    using reg.resolve_member [OF assms(1) res] reg.resolve_not_excluded [OF assms(1) res that] assms(6) by blast
  then have fs: "[] \<notin> set (d_Fields d)"
    using served projectFields_visible [of "[]" "rs_Attributes res" "rq_Fields req"] by (auto simp: served_def names_field_def)
  have grants: "\<forall>g\<in>set gs. (\<forall>f\<in>set (fst (readsWrites req)). readable (rs_Attributes res) g f) \<and>
      (\<forall>f\<in>set (snd (readsWrites req)). writable (rs_Attributes res) g f) \<and>
      (rq_Action req = ActionRead \<longrightarrow> (\<forall>f\<in>set (d_Fields d). readable (rs_Attributes res) g f))"
    using served fs by (simp add: served_def cov [OF rw] cov)
  have rows: "passes rel row (rq_Subject req) (e_TenantPolicy (rs_Entity res)) \<and>
      (\<exists>g\<in>set gs. passes rel row (rq_Subject req) (g_Rows g))"
    if "evalPredicate rel row (d_RowFilter d) = Inr triTrue" for rel row
    using effectiveRowFilter_true served that by (simp add: served_def)
  have gs: "gs \<noteq> []" "d_Grants d = map g_ID gs" using served by (simp_all add: served_def)
  have "allows g (rq_Action req)" if "g \<in> set gs" for g using sub that findCandidates_allows by blast
  then show ?thesis
    by (intro exI [of _ res] exI [of _ gs] conjI ballI res gs) (use grants rows sub in \<open>simp_all add: subset_iff\<close>)
qed

text \<open>
  The memos are transparent: whatever calls an authorizer has served, it answers every request and
  every question of usability as the newly built one does.
\<close>

theorem Authorize_memo:
  assumes "serves (NewGrantAuthorizer reg po) a"
  shows "fst (Authorize a req) = fst (Authorize (NewGrantAuthorizer reg po) req) \<and>
    fst (Usable a role name) = fst (Usable (NewGrantAuthorizer reg po) role name)"
proof -
  let ?a0 = "NewGrantAuthorizer reg po"
  have a: "coherent a" "forget a = forget ?a0" using serves_coherent [OF assms] by simp_all
  have "fst (Authorize a req) = fst (Authorize ?a0 req)"
    using Authorize_forget [OF a(1), of req] Authorize_forget [of ?a0 req] a(2) by simp
  moreover have "fst (Usable a role name) = fst (Usable ?a0 role name)"
    using Usable_forget [OF a(1), of role name] Usable_forget [of ?a0 role name] a(2) by simp
  ultimately show ?thesis ..
qed

text \<open>
  A denial for want of a single covering grant is repairable: a request of the same role and action
  for the fields of any non-empty scope it reports is allowed, and a read returns exactly those fields.
\<close>

theorem Authorize_retry:
  assumes "serves (NewGrantAuthorizer reg po) a" and "scope \<in> set (Scopes (fst (Authorize a req)))"
    and "rq_Action req \<notin> {ActionCreate, ActionUpdate}"
    and "retry = req\<lparr>rq_Fields := scope, rq_ReadFields := [], rq_WriteFields := []\<rparr>"
  shows "d_Allowed (fst (Authorize a retry)) \<and>
    (rq_Action req = ActionRead \<longrightarrow> d_Fields (fst (Authorize a retry)) = scope)"
proof -
  have a: "coherent a" using serves_coherent [OF assms(1)] by simp
  let ?role = "NormalizeRole (rq_Role req)"
  have scope: "scope \<in> set (d_FieldScopes (fst (Authorize a req)))" "scope \<noteq> []" using assms(2) by (simp_all add: Scopes_def)
  have "\<not> (Resolve (a_registry a) (rq_Entity req) = None \<or> ?role = [])"
    using Authorize_denies(2) [OF a, of req] scope(1) by (metis empty_iff list.set(1))
  then obtain res where res: "Resolve (a_registry a) (rq_Entity req) = Some res" and role: "?role \<noteq> []" by auto
  let ?cands = "findCandidates a (e_Name (rs_Entity res)) ?role (rq_Action req)"
  obtain g where g: "g \<in> set ?cands" "scope = grantProjection a (rs_Attributes res) [] g"
    using scope(1) decide_scopes by (fastforce simp: Authorize_decide [OF a res role])
  have "fst (Authorize a retry) = decide a (retry\<lparr>rq_Role := ?role\<rparr>) res ?cands"
    using Authorize_decide [OF a, of retry res] res role by (simp add: assms(4))
  then show ?thesis
    using decide_scope [OF g scope(2), of "retry\<lparr>rq_Role := ?role\<rparr>"] assms(3)
    by (auto simp: assms(4) readsWrites_def returnsRows_def)
qed

text \<open>
  No decision ever hands out a hidden field: each field of an allowed request's projection is the name or
  the alias of an attribute of the entity that is not excluded.
\<close>

theorem Authorize_hides_excluded:
  assumes "NewRegistry es = Inr reg" and "serves (NewGrantAuthorizer reg po) a" and "f \<in> set (d_Fields (fst (Authorize a req)))"
  shows "\<exists>e\<in>set es. \<exists>att\<in>set (e_Attributes e). \<not> at_Excluded att \<and> names_field att f"
proof -
  have a: "coherent a" "forget a = forget (NewGrantAuthorizer reg po)" using serves_coherent [OF assms(2)] by simp_all
  have r: "a_registry a = reg" using arg_cong [OF a(2), of a_registry] by simp
  have "d_Allowed (fst (Authorize a req))" using Authorize_fields [of a req] assms(3) by force
  from Authorize_served [OF a(1) this] obtain res gs where res: "Resolve reg (rq_Entity req) = Some res"
    and "served a req res gs (fst (Authorize a req))" by (auto simp: r)
  with assms(3) have "f \<in> set (projectFields (rs_Attributes res) (rq_Fields req))" by (simp add: served_def)
  then obtain att where att: "att \<in> set (rs_Attributes res)" "names_field att f" using projectFields_visible by blast
  show ?thesis
    using reg.resolve_member [OF assms(1) res] reg.resolve_not_excluded [OF assms(1) res att(1)] att(2) by blast
qed

lemma Authorize_covered_iff:
  assumes "coherent a" and "rq_Action req \<noteq> ActionRead"
  shows "d_Allowed (fst (Authorize a req)) \<longleftrightarrow>
    (\<exists>res. Resolve (a_registry a) (rq_Entity req) = Some res \<and> NormalizeRole (rq_Role req) \<noteq> [] \<and>
       (\<exists>g\<in>set (findCandidates a (e_Name (rs_Entity res)) (NormalizeRole (rq_Role req)) (rq_Action req)).
          covers a (fst (readsWrites req)) (snd (readsWrites req)) (rs_Attributes res) g))" (is "_ \<longleftrightarrow> ?covered")
proof
  assume allowed: "d_Allowed (fst (Authorize a req))"
  from Authorize_served [OF assms(1) this] obtain res gs where res: "Resolve (a_registry a) (rq_Entity req) = Some res"
    and s: "served a req res gs (fst (Authorize a req))"
    and sub: "set gs \<subseteq> set (findCandidates a (e_Name (rs_Entity res)) (NormalizeRole (rq_Role req)) (rq_Action req))"
    by auto
  from s obtain g where g: "g \<in> set gs" by (cases gs) (auto simp: served_def)
  moreover have "NormalizeRole (rq_Role req) \<noteq> []" using Authorize_denies(1) [OF assms(1)] allowed by blast
  ultimately show ?covered using res s sub by (intro exI [of _ res] conjI bexI [of _ g]) (auto simp: served_def)
next
  assume ?covered
  then obtain res g where res: "Resolve (a_registry a) (rq_Entity req) = Some res" and role: "NormalizeRole (rq_Role req) \<noteq> []"
    and g: "g \<in> set (findCandidates a (e_Name (rs_Entity res)) (NormalizeRole (rq_Role req)) (rq_Action req))"
      "covers a (fst (readsWrites req)) (snd (readsWrites req)) (rs_Attributes res) g" by auto
  show "d_Allowed (fst (Authorize a req))"
    unfolding Authorize_decide [OF assms(1) res role] by (rule decide_covered) (use g assms(2) in simp_all)
qed

text \<open>
  What the configuration grants a caller, stated on the policy and the entity alone. A configured principal plays its roles
  and has grants of its own; any other caller plays the role it names. A role has the grants the policy lists for it,
  and on an entity that lists it (in any spelling that normalizes to it) the actions under which it is listed. \<open>fs\<close> are
  the field lists that come with the grant, if it has any.
\<close>

definition plays :: "policy \<Rightarrow> string \<Rightarrow> string \<Rightarrow> bool" where
  "plays po pr role \<longleftrightarrow> (case map_of (po_Principals po) pr of Some p \<Rightarrow> role \<in> set (p_Roles p) | None \<Rightarrow> role = pr)"

definition role_fields :: "field_access \<Rightarrow> string \<Rightarrow> field_permissions option" where
  "role_fields access role =
     (case filter (\<lambda>(r, _). r = role) access @ filter (\<lambda>(r, _). NormalizeRole r = role) access of
        [] \<Rightarrow> None
      | x # _ \<Rightarrow> Some (snd x))"

inductive entitled :: "policy \<Rightarrow> entity \<Rightarrow> string \<Rightarrow> action \<Rightarrow> field_permissions option \<Rightarrow> bool"
  for po :: policy and e :: entity and pr :: string and act :: action where
  own: "map_of (po_Principals po) pr = Some p \<Longrightarrow> map_of (p_Grants p) (e_Name e) = Some gs \<Longrightarrow> g \<in> set gs \<Longrightarrow>
    act \<in> set (g_Actions g) \<Longrightarrow> entitled po e pr act (g_Fields g)"
| by_role: "plays po pr role \<Longrightarrow> map_of (po_Roles po) role = Some byEntity \<Longrightarrow> map_of byEntity (e_Name e) = Some gs \<Longrightarrow>
    g \<in> set gs \<Longrightarrow> act \<in> set (g_Actions g) \<Longrightarrow> entitled po e pr act (g_Fields g)"
| by_entity: "plays po pr role \<Longrightarrow> r \<in> set (e_Role e act) \<Longrightarrow> NormalizeRole r = role \<Longrightarrow>
    entitled po e pr act (role_fields (e_FieldAccess e) role)"

text \<open>A field list names a field when it has it, or has the other name of its attribute.\<close>

definition listed :: "attribute list \<Rightarrow> string list \<Rightarrow> string \<Rightarrow> bool" where
  "listed vis ns f \<longleftrightarrow> f \<in> set ns \<or> (\<exists>att\<in>set vis. names_field att f \<and> (\<exists>n\<in>set ns. names_field att n))"

definition fields_covered :: "attribute list \<Rightarrow> field_permissions option \<Rightarrow> string list \<Rightarrow> string list \<Rightarrow> bool" where
  "fields_covered vis fs rd wr = (case fs of
     None \<Rightarrow> True
   | Some p \<Rightarrow> (\<forall>f\<in>set rd. listed vis (fp_Read p) f) \<and> (\<forall>f\<in>set wr. listed vis (fp_Write p) f))"

lemma fieldAllowed_listed: "fieldAllowed f (set ns) vis \<longleftrightarrow> listed vis ns f"
  unfolding fieldAllowed_def listed_def names_field_def list_ex_iff by blast

lemma fields_covered_iff:
  "fields_covered vis (g_Fields g) rd wr \<longleftrightarrow> (\<forall>f\<in>set rd. readable vis g f) \<and> (\<forall>f\<in>set wr. writable vis g f)"
  by (simp add: fields_covered_def readable_def writable_def fieldAllowed_listed split: option.splits)

lemma find_filter: "map_option snd (find P xs) = (case filter P xs of [] \<Rightarrow> None | x # _ \<Rightarrow> Some (snd x))"
  by (induction xs) auto

lemma map_of_filter_key: "map_of xs k = (case filter (\<lambda>(r, _). r = k) xs of [] \<Rightarrow> None | x # _ \<Rightarrow> Some (snd x))"
  by (induction xs) auto

lemma role_fields_code: "fieldAccessForRole access role = role_fields access role"
  unfolding fieldAccessForRole_def role_fields_def map_of_filter_key find_filter by (auto split: list.splits)

lemma Actions_all: "act \<in> set Actions"
  by (cases act) (simp_all add: Actions_def)

lemma entityRoleGrant_allows:
  "(\<exists>g. entityRoleGrant e role = Some g \<and> allows g act \<and> P (g_Fields g)) \<longleftrightarrow>
   (\<exists>r\<in>set (e_Role e act). NormalizeRole r = role) \<and> P (role_fields (e_FieldAccess e) role)"
  using Actions_all [of act]
  by (auto simp: entityRoleGrant_def Let_def allows_def list_ex_iff role_fields_code filter_empty_conv)

lemma byRole_fold:
  "map_of (fold (addRole e) rs m) role =
     (case map_of m role of Some g \<Rightarrow> Some g | None \<Rightarrow> if role \<in> NormalizeRole ` set rs then entityRoleGrant e role else None)"
proof (induction rs arbitrary: m)
  case (Cons r rs)
  have "map_of (addRole e r m) role = (case map_of m role of Some g \<Rightarrow> Some g
      | None \<Rightarrow> if role = NormalizeRole r then entityRoleGrant e role else None)"
    by (auto simp: addRole_def Let_def map_add_def split: option.splits)
  then show ?case by (auto simp: Cons.IH split: option.splits)
qed (simp split: option.splits)

lemma byRole_of_role: "map_of (byRole_of e) role = entityRoleGrant e role"
proof (cases "role \<in> NormalizeRole ` set (concat (map (e_Role e) Actions))")
  case False
  then have "entityRoleGrant e role = None"
    by (auto simp: entityRoleGrant_def Let_def filter_empty_conv list_ex_iff)
  then show ?thesis by (simp add: byRole_of_def byRole_fold)
qed (simp add: byRole_of_def byRole_fold)

lemma map_of_filter_none: "y \<notin> f ` set xs \<Longrightarrow> map_of (filter (\<lambda>(_, v). P v) (map (\<lambda>x. (f x, h x)) xs)) y = None"
  by (induction xs) auto

lemma map_of_filter_pairs:
  "distinct (map f xs) \<Longrightarrow> x \<in> set xs \<Longrightarrow>
   map_of (filter (\<lambda>(_, v). P v) (map (\<lambda>x. (f x, h x)) xs)) (f x) = (if P (h x) then Some (h x) else None)"
proof (induction xs)
  case (Cons y ys)
  show ?case
  proof (cases "x = y")
    case True
    then show ?thesis using Cons.prems(1) map_of_filter_none [of "f x" f ys P h] by simp
  next
    case False
    then have "x \<in> set ys" "f y \<noteq> f x" using Cons.prems by (auto dest: image_eqI [of "f x" f x "set ys"])
    then show ?thesis using Cons by simp
  qed
qed simp

lemma entityGrants_of:
  assumes "NewRegistry es = Inr reg" and "e \<in> set es"
  shows "map_of (lookup (a_entityGrants (NewGrantAuthorizer reg po)) (e_Name e)) role = entityRoleGrant e role"
proof -
  have "Entities reg = es" "distinct (map e_Name es)" using NewRegistry_of [OF assms(1)] by (simp_all add: registry_of_def Entities_def)
  then show ?thesis
    using map_of_filter_pairs [of e_Name es e "\<lambda>v. v \<noteq> []" byRole_of] assms(2) byRole_of_role [of e role]
    by (simp add: NewGrantAuthorizer_def Let_def lookup_def split: option.splits if_splits)
qed

text \<open>The grants the code collects are those the configuration gives the caller.\<close>

lemma lookup_mem: "g \<in> set (lookup m k) \<longleftrightarrow> (\<exists>v. map_of m k = Some v \<and> g \<in> set v)"
  by (cases "map_of m k") (simp_all add: lookup_def)

lemma findCandidates_mem:
  "g \<in> set (findCandidates a n pr act) \<longleftrightarrow> allows g act \<and>
     ((\<exists>p. map_of (po_Principals (a_policy a)) pr = Some p \<and> g \<in> set (lookup (p_Grants p) n)) \<or>
      (\<exists>role. plays (a_policy a) pr role \<and> g \<in> set (lookup (lookup (po_Roles (a_policy a)) role) n)) \<or>
      (\<exists>role. plays (a_policy a) pr role \<and> map_of (lookup (a_entityGrants a) n) role = Some g))"
proof -
  have e: "g \<in> set (case m of Some g \<Rightarrow> if allows g act then [g] else [] | None \<Rightarrow> []) \<longleftrightarrow> m = Some g \<and> allows g act" for g m
    by (auto split: option.splits)
  show ?thesis
  proof (cases "map_of (po_Principals (a_policy a)) pr")
    case None
    then show ?thesis by (auto simp: findCandidates_def plays_def e)
  next
    case (Some p)
    then show ?thesis by (auto simp: findCandidates_def plays_def e, metis)
  qed
qed

lemma lookup_lookup_mem:
  "g \<in> set (lookup (lookup m role) n) \<longleftrightarrow> (\<exists>byE gs. map_of m role = Some byE \<and> map_of byE n = Some gs \<and> g \<in> set gs)"
proof (cases "map_of m role")
  case None
  then have "lookup m role = []" by (simp add: lookup_def)
  then show ?thesis using None by (simp add: lookup_def)
next
  case (Some byE)
  then have "lookup m role = byE" by (simp add: lookup_def)
  then show ?thesis using Some by (simp add: lookup_mem)
qed

lemma candidates_entitled:
  assumes "NewRegistry es = Inr reg" and "e \<in> set es"
  shows "(\<exists>g\<in>set (findCandidates (NewGrantAuthorizer reg po) (e_Name e) pr act). P (g_Fields g)) \<longleftrightarrow>
    (\<exists>fs. entitled po e pr act fs \<and> P fs)"
proof -
  let ?c = "findCandidates (NewGrantAuthorizer reg po) (e_Name e) pr act"
  have pol: "a_policy (NewGrantAuthorizer reg po) = po" by (simp add: NewGrantAuthorizer_def Let_def)
  have al: "allows g act \<longleftrightarrow> act \<in> set (g_Actions g)" for g by (simp add: allows_def list_ex_iff)
  have mem: "g \<in> set ?c \<longleftrightarrow>
      (\<exists>p gs. map_of (po_Principals po) pr = Some p \<and> map_of (p_Grants p) (e_Name e) = Some gs \<and> g \<in> set gs \<and> act \<in> set (g_Actions g)) \<or>
      (\<exists>role byE gs. plays po pr role \<and> map_of (po_Roles po) role = Some byE \<and> map_of byE (e_Name e) = Some gs \<and> g \<in> set gs \<and>
         act \<in> set (g_Actions g)) \<or>
      (\<exists>role. plays po pr role \<and> entityRoleGrant e role = Some g \<and> allows g act)" for g
    unfolding findCandidates_mem pol entityGrants_of [OF assms] lookup_lookup_mem al unfolding lookup_mem by blast
  show ?thesis
  proof
    assume "\<exists>g\<in>set ?c. P (g_Fields g)"
    then obtain g where "g \<in> set ?c" and P: "P (g_Fields g)" by blast
    then consider p gs where "map_of (po_Principals po) pr = Some p" "map_of (p_Grants p) (e_Name e) = Some gs" "g \<in> set gs" "act \<in> set (g_Actions g)"
      | role byE gs where "plays po pr role" "map_of (po_Roles po) role = Some byE" "map_of byE (e_Name e) = Some gs" "g \<in> set gs" "act \<in> set (g_Actions g)"
      | role where "plays po pr role" "entityRoleGrant e role = Some g" "allows g act"
      unfolding mem by blast
    then show "\<exists>fs. entitled po e pr act fs \<and> P fs"
    proof cases
      case 3
      then obtain r where "r \<in> set (e_Role e act)" "NormalizeRole r = role" "P (role_fields (e_FieldAccess e) role)"
        using entityRoleGrant_allows [of e role act P] P by blast
      then show ?thesis using entitled.by_entity 3(1) by blast
    qed (use P entitled.own entitled.by_role in blast)+
  next
    assume "\<exists>fs. entitled po e pr act fs \<and> P fs"
    then obtain fs where "entitled po e pr act fs" and P: "P fs" by blast
    then show "\<exists>g\<in>set ?c. P (g_Fields g)"
    proof cases
      case (by_entity role r)
      then show ?thesis using entityRoleGrant_allows [of e role act P] P mem by blast
    qed (use P mem in blast)+
  qed
qed

text \<open>
  C12: default deny, exactly: a request for an action other than a read that names no empty field is allowed if and
  only if the entity exists, the caller names a role, and the configuration grants the caller the action on the entity
  with field lists (or none) that name every field the request reads and writes. What is granted is stated
  on the policy and the entity: the principal's own grants, those of the roles it plays, and the entity's own roles.
\<close>

theorem Authorize_exact:
  assumes "NewRegistry es = Inr reg" and "serves (NewGrantAuthorizer reg po) a" and "rq_Action req \<noteq> ActionRead"
    and "[] \<notin> set (rq_Fields req) \<union> set (rq_ReadFields req) \<union> set (rq_WriteFields req)"
  shows "d_Allowed (fst (Authorize a req)) \<longleftrightarrow>
    (\<exists>res. Resolve reg (rq_Entity req) = Some res \<and> NormalizeRole (rq_Role req) \<noteq> [] \<and>
       (\<exists>fs. entitled po (rs_Entity res) (NormalizeRole (rq_Role req)) (rq_Action req) fs \<and>
          fields_covered (rs_Attributes res) fs (fst (readsWrites req)) (snd (readsWrites req))))"
proof -
  have a: "coherent a" "forget a = forget (NewGrantAuthorizer reg po)" using serves_coherent [OF assms(2)] by simp_all
  have r: "a_registry a = reg" using arg_cong [OF a(2), of a_registry] by simp
  have fc: "findCandidates a = findCandidates (NewGrantAuthorizer reg po)" by (metis a(2) findCandidates_forget)
  have "[] \<notin> set (fst (readsWrites req)) \<union> set (snd (readsWrites req))" using assms(4) by (simp add: readsWrites_def)
  note cov = covers_iff [OF acl_coherent [OF a(1)] this]
  have "d_Allowed (fst (Authorize a req)) \<longleftrightarrow>
    (\<exists>res. Resolve reg (rq_Entity req) = Some res \<and> NormalizeRole (rq_Role req) \<noteq> [] \<and>
       (\<exists>g\<in>set (findCandidates a (e_Name (rs_Entity res)) (NormalizeRole (rq_Role req)) (rq_Action req)).
          covers a (fst (readsWrites req)) (snd (readsWrites req)) (rs_Attributes res) g))"
    using Authorize_covered_iff [OF a(1) assms(3)] by (simp add: r)
  also have "\<dots> \<longleftrightarrow> (\<exists>res. Resolve reg (rq_Entity req) = Some res \<and> NormalizeRole (rq_Role req) \<noteq> [] \<and>
       (\<exists>fs. entitled po (rs_Entity res) (NormalizeRole (rq_Role req)) (rq_Action req) fs \<and>
          fields_covered (rs_Attributes res) fs (fst (readsWrites req)) (snd (readsWrites req))))"
    unfolding cov fc fields_covered_iff [symmetric]
    by (intro ex_cong1 conj_cong refl candidates_entitled [OF assms(1) reg.resolve_member [OF assms(1)]])
  finally show ?thesis .
qed

text \<open>
  C14: the empty string is no field name for authorization: the check of a field list answers with the first denied field
  and takes the empty string for none. So a request for an action other than a read, whose list of read fields begins
  with an empty name and that writes none, is allowed whatever fields follow in the list, as soon as some grant allows
  the caller the action and does not itself name the empty field. The covering rule therefore asks for field names
  that are not empty, which the tools check first.
\<close>

theorem Authorize_empty_name:
  assumes "NewRegistry es = Inr reg" and "serves (NewGrantAuthorizer reg po) a" and "rq_Action req \<noteq> ActionRead"
    and "Resolve reg (rq_Entity req) = Some res" and "NormalizeRole (rq_Role req) \<noteq> []"
    and "entitled po (rs_Entity res) (NormalizeRole (rq_Role req)) (rq_Action req) (Some p)"
    and "\<not> listed (rs_Attributes res) (fp_Read p) []"
  shows "d_Allowed (fst (Authorize a (req\<lparr>rq_ReadFields := [] # fs, rq_WriteFields := []\<rparr>)))"
proof -
  let ?req = "req\<lparr>rq_ReadFields := [] # fs, rq_WriteFields := []\<rparr>"
  have a: "coherent a" "forget a = forget (NewGrantAuthorizer reg po)" using serves_coherent [OF assms(2)] by simp_all
  have r: "a_registry a = reg" using arg_cong [OF a(2), of a_registry] by simp
  have fc: "findCandidates a = findCandidates (NewGrantAuthorizer reg po)" by (metis a(2) findCandidates_forget)
  obtain g where g: "g \<in> set (findCandidates a (e_Name (rs_Entity res)) (NormalizeRole (rq_Role req)) (rq_Action req))" "g_Fields g = Some p"
    using candidates_entitled [OF assms(1) reg.resolve_member [OF assms(1,4)], of po _ _ "\<lambda>fs. fs = Some p"] assms(6) by (auto simp: fc)
  have rw: "readsWrites ?req = ([] # fs, [])" by (simp add: readsWrites_def)
  have "covers a ([] # fs) [] (rs_Attributes res) g"
    using assms(7) by (simp add: covers_def g(2) acl_coherent [OF a(1)] newACLSet_def fieldAllowed_listed)
  then show ?thesis
    using Authorize_covered_iff [OF a(1), of ?req] assms(3-5) g(1) rw by (auto simp: r)
qed

text \<open>
  A caller without the attribute that the tenant boundary of an entity compares sees none of its rows:
  the row filter of an allowed request is true of no row of any relation.
\<close>

theorem Authorize_tenant_closed:
  assumes "serves (NewGrantAuthorizer reg po) a" and "d = fst (Authorize a req)" and "d_Allowed d"
    and "Resolve reg (rq_Entity req) = Some res" and "e_TenantPolicy (rs_Entity res) = Condition c"
    and "c_Op c \<notin> {OpIsNull, OpIsNotNull}" and "c_Value c = VStr s" and "SubjectPlaceholder s = Some attr"
    and "rq_Subject req attr = None"
  shows "evalPredicate rel row (d_RowFilter d) \<noteq> Inr triTrue"
proof
  assume row: "evalPredicate rel row (d_RowFilter d) = Inr triTrue"
  have a: "coherent a" "forget a = forget (NewGrantAuthorizer reg po)" using serves_coherent [OF assms(1)] by simp_all
  have r: "a_registry a = reg" using arg_cong [OF a(2), of a_registry] by simp
  from Authorize_served [OF a(1), of req] assms(2-4) obtain gs where "served a req res gs d" by (auto simp: r)
  with row effectiveRowFilter_true have "passes rel row (rq_Subject req) (Condition c)"
    by (fastforce simp: served_def simp flip: assms(5))
  then have "evalCondition rel row (c\<lparr>c_Value := VNull\<rparr>) = Inr triTrue"
    using assms(7-9) by (simp add: resolveSubject_def resolveCondition_def subject_value_def)
  with evalCondition_null [OF _ assms(6)] show False by fastforce
qed

section \<open>Witnesses\<close>

definition ex_attr :: "string \<Rightarrow> bool \<Rightarrow> attribute" where
  "ex_attr n hidden = \<lparr>at_Name = n, at_Alias = [], at_Description = [],
     at_Domain = \<lparr>dm_Type = ''text'', dm_Nullable = True, dm_Default = False, dm_Generated = False, dm_AutoIncrement = False\<rparr>,
     at_Excluded = hidden, at_Mask = []\<rparr>"

definition ex_tenant :: condition where
  "ex_tenant = \<lparr>c_Field = ''tenant'', c_Op = OpEq, c_Value = VStr ''${subject.tenant}''\<rparr>"

definition ex_staff :: entity where
  "ex_staff = zero_entity\<lparr>e_Name := ''staff'', e_Attributes := [ex_attr ''id'' False, ex_attr ''salary'' False, ex_attr ''pin'' True],
     e_TenantPolicy := Condition ex_tenant\<rparr>"

definition ex_grant :: "string \<Rightarrow> string list \<Rightarrow> grant" where
  "ex_grant n fs = \<lparr>g_ID = n, g_Actions = [ActionRead, ActionDelete], g_Fields = Some \<lparr>fp_Read = fs, fp_Write = []\<rparr>, g_Rows = NilPred\<rparr>"

definition ex_policy :: policy where
  "ex_policy = \<lparr>po_Roles = [(''hr'', [(''staff'', [ex_grant ''g1'' [''id''], ex_grant ''g2'' [''salary'']])])],
     po_RolePermissions = [], po_Principals = []\<rparr>"

definition ex_reg :: registry where
  "ex_reg = (case NewRegistry [ex_staff] of Inr r \<Rightarrow> r | Inl _ \<Rightarrow> empty_registry)"

definition ex_auth :: authorizer where
  "ex_auth = NewGrantAuthorizer ex_reg ex_policy"

definition ex_request :: "action \<Rightarrow> string list \<Rightarrow> request" where
  "ex_request act fs = (bare_request '' HR '' ''staff'' act)\<lparr>rq_Fields := fs\<rparr>"

lemma ex_reg: "NewRegistry [ex_staff] = Inr ex_reg"
proof -
  have "map e_Name [ex_staff] = [''staff'']" by code_simp
  then obtain r where "NewRegistry [ex_staff] = Inr r" using NewRegistry_total [of "[ex_staff]"] by auto
  then show ?thesis by (simp add: ex_reg_def)
qed

lemma ex_serves: "serves (NewGrantAuthorizer ex_reg ex_policy) ex_auth"
  unfolding ex_auth_def by (rule serves.start)

lemma ex_read_allowed: "d_Allowed (fst (Authorize ex_auth (ex_request ActionRead [''id''])))"
  by code_simp

definition ex_reads :: "string list \<Rightarrow> request" where
  "ex_reads fs = (bare_request ''hr'' ''staff'' ActionDelete)\<lparr>rq_ReadFields := fs\<rparr>"

theorem Authorize_covering_witness:
  "\<exists>gs. gs \<noteq> [] \<and> d_Grants (fst (Authorize ex_auth (ex_request ActionRead [''id'']))) = map g_ID gs \<and>
     (\<forall>g\<in>set gs. allows g ActionRead)"
proof -
  have "\<forall>e\<in>set [ex_staff]. \<forall>att\<in>set (e_Attributes e). at_Name att \<noteq> []" by code_simp
  from Authorize_covering [OF ex_reg ex_serves refl ex_read_allowed _ this] show ?thesis
    by (auto simp: ex_request_def bare_request_def)
qed

theorem Authorize_memo_witness:
  "fst (Authorize (snd (Usable ex_auth ''hr'' ''staff'')) (ex_request ActionRead [''id''])) =
   fst (Authorize ex_auth (ex_request ActionRead [''id'']))"
  using Authorize_memo [OF serves.usable [OF ex_serves]] Authorize_memo [OF ex_serves] by simp

theorem Authorize_retry_witness:
  "\<not> d_Allowed (fst (Authorize ex_auth (ex_request ActionRead []))) \<and>
   d_Fields (fst (Authorize ex_auth (ex_request ActionRead [''salary'']))) = [''salary'']"
proof -
  have "[''salary''] \<in> set (Scopes (fst (Authorize ex_auth (ex_request ActionRead []))))" by code_simp
  from Authorize_retry [OF ex_serves this _ refl]
  have "d_Fields (fst (Authorize ex_auth (ex_request ActionRead [''salary'']))) = [''salary'']"
    by (simp add: ex_request_def bare_request_def)
  moreover have "\<not> d_Allowed (fst (Authorize ex_auth (ex_request ActionRead [])))" by code_simp
  ultimately show ?thesis by simp
qed

theorem Authorize_hides_excluded_witness:
  "\<exists>att\<in>set (e_Attributes ex_staff). \<not> at_Excluded att \<and> names_field att ''id''"
proof -
  have "''id'' \<in> set (d_Fields (fst (Authorize ex_auth (ex_request ActionRead [''id'']))))" by code_simp
  from Authorize_hides_excluded [OF ex_reg ex_serves this] show ?thesis by simp
qed

lemma ex_resolves: "Resolve ex_reg ''staff'' = Some \<lparr>rs_Entity = ex_staff, rs_Attributes = shown ex_staff\<rparr>"
  using Resolve_named [OF NewRegistry_of [OF ex_reg], of "''staff''"] by (simp add: named_def ex_staff_def)

lemma ex_entitled: "entitled ex_policy ex_staff ''hr'' ActionDelete (Some \<lparr>fp_Read = [''id''], fp_Write = []\<rparr>)"
proof -
  have "entitled ex_policy ex_staff ''hr'' ActionDelete (g_Fields (ex_grant ''g1'' [''id'']))"
    by (rule entitled.by_role [where role = "''hr''"])
       (auto simp: plays_def ex_policy_def ex_staff_def ex_grant_def zero_entity_def)
  then show ?thesis by (simp add: ex_grant_def)
qed

theorem Authorize_exact_witness:
  "d_Allowed (fst (Authorize ex_auth (ex_request ActionDelete [''id'']))) \<and>
   \<not> d_Allowed (fst (Authorize ex_auth (ex_reads [''id'', ''salary''])))"
proof -
  have role: "NormalizeRole '' HR '' = ''hr''" by code_simp
  have "fields_covered (shown ex_staff) (Some \<lparr>fp_Read = [''id''], fp_Write = []\<rparr>) [''id''] []"
    by (simp add: fields_covered_def listed_def)
  then have "d_Allowed (fst (Authorize ex_auth (ex_request ActionDelete [''id''])))"
    using Authorize_exact [OF ex_reg ex_serves, of "ex_request ActionDelete [''id'']"] ex_resolves ex_entitled role
    by (auto simp: ex_request_def bare_request_def readsWrites_def)
  moreover have "\<not> d_Allowed (fst (Authorize ex_auth (ex_reads [''id'', ''salary''])))" by code_simp
  ultimately show ?thesis ..
qed

text \<open>The read of two fields no single grant covers is denied, and allowed once an empty name precedes them.\<close>

theorem Authorize_empty_name_witness:
  "\<not> d_Allowed (fst (Authorize ex_auth (ex_reads [''id'', ''salary'']))) \<and>
   d_Allowed (fst (Authorize ex_auth ((ex_reads [])\<lparr>rq_ReadFields := [[], ''id'', ''salary''], rq_WriteFields := []\<rparr>)))"
proof
  show "\<not> d_Allowed (fst (Authorize ex_auth (ex_reads [''id'', ''salary''])))" by code_simp
  have "NormalizeRole ''hr'' = ''hr''" by code_simp
  moreover have "\<not> listed (shown ex_staff) [''id''] []" by code_simp
  ultimately show "d_Allowed (fst (Authorize ex_auth ((ex_reads [])\<lparr>rq_ReadFields := [[], ''id'', ''salary''], rq_WriteFields := []\<rparr>)))"
    using Authorize_empty_name [OF ex_reg ex_serves, of "ex_reads []" _ _ "[''id'', ''salary'']"] ex_resolves ex_entitled
    by (simp add: ex_reads_def bare_request_def)
qed

theorem Authorize_tenant_closed_witness:
  "\<forall>rel row. evalPredicate rel row (d_RowFilter (fst (Authorize ex_auth (ex_request ActionRead [''id''])))) \<noteq> Inr triTrue"
proof (intro allI)
  fix rel row
  have res: "Resolve ex_reg (rq_Entity (ex_request ActionRead [''id''])) =
      Some \<lparr>rs_Entity = ex_staff, rs_Attributes = shown ex_staff\<rparr>"
    using Resolve_named [OF NewRegistry_of [OF ex_reg], of "''staff''"]
    by (simp add: named_def ex_staff_def ex_request_def bare_request_def)
  have "SubjectPlaceholder ''${subject.tenant}'' = Some ''tenant''" by code_simp
  then show "evalPredicate rel row (d_RowFilter (fst (Authorize ex_auth (ex_request ActionRead [''id''])))) \<noteq> Inr triTrue"
    using Authorize_tenant_closed [OF ex_serves refl ex_read_allowed res, of ex_tenant "''${subject.tenant}''" "''tenant''" rel row]
    by (simp add: ex_request_def bare_request_def ex_staff_def ex_tenant_def)
qed

end
