(* ===== verification/Field_Uses.thy ===== *)
theory Field_Uses
  imports Entity
begin

text \<open>
  The fields a tool call uses: \<^verbatim>\<open>src/core/tool/field_uses.go\<close> and \<^verbatim>\<open>src/core/tool/alias.go\<close>. A call names
  fields by column or by alias; before it is authorized, every field it uses must be visible, every one it compares
  unmasked, and every one it writes written once and writable. The text of an error is a constructor: a masked field
  answers as an unknown one does.
\<close>

section \<open>Columns\<close>

definition columnOf :: "entity \<Rightarrow> string \<Rightarrow> string" where
  "columnOf e field = (case AttributeByName e field of Some a \<Rightarrow> at_Name a | None \<Rightarrow> field)"

definition columnsOf :: "entity \<Rightarrow> string list \<Rightarrow> string list" where
  "columnsOf e fs = map (columnOf e) fs"

definition columnsPredicate :: "entity \<Rightarrow> predicate \<Rightarrow> predicate" where
  "columnsPredicate e p = MapConditions p (\<lambda>c. c\<lparr>c_Field := columnOf e (c_Field c)\<rparr>)"

definition projectItems :: "entity \<Rightarrow> string list \<Rightarrow> project_item list" where
  "projectItems e fs =
     map (\<lambda>f. \<lparr>pi_Field = columnOf e f, pi_Alias = (if columnOf e f \<noteq> f then f else [])\<rparr>) fs"

datatype field_error = UnknownField string | NamedTwice string | Computed string

fun distinct_columns_loop :: "string set \<Rightarrow> string list \<Rightarrow> field_error + unit" where
  "distinct_columns_loop seen [] = Inr ()"
| "distinct_columns_loop seen (c # cs) =
     (if c \<in> seen then Inl (NamedTwice c) else distinct_columns_loop (insert c seen) cs)"

definition distinctColumns :: "entity \<Rightarrow> string list \<Rightarrow> field_error + unit" where
  "distinctColumns e fs = distinct_columns_loop {} (columnsOf e fs)"

section \<open>The rules of a use\<close>

record field_uses =
  fu_read :: "string list"
  fu_compared :: "string list"
  fu_written :: "string list"

definition validateFields :: "resolved \<Rightarrow> string list \<Rightarrow> field_error + unit" where
  "validateFields res fs =
     (if fs = [] then Inr ()
      else
        let allowed = set (map at_Name (rs_Attributes res)) \<union>
              set (filter (\<lambda>al. al \<noteq> []) (map at_Alias (rs_Attributes res)))
        in case find (\<lambda>f. f \<notin> allowed) fs of Some f \<Rightarrow> Inl (UnknownField f) | None \<Rightarrow> Inr ())"

definition validateUnmaskedFields :: "resolved \<Rightarrow> string list \<Rightarrow> field_error + unit" where
  "validateUnmaskedFields res fs =
     (case find (\<lambda>f. list_ex (\<lambda>a. (at_Name a = f \<or> at_Alias a \<noteq> [] \<and> at_Alias a = f) \<and> at_Mask a \<noteq> []) (rs_Attributes res)) fs of
        Some f \<Rightarrow> Inl (UnknownField f)
      | None \<Rightarrow> Inr ())"

definition validateWritable :: "resolved \<Rightarrow> string list \<Rightarrow> field_error + unit" where
  "validateWritable res fs =
     (case find (\<lambda>f. case AttributeByName (rs_Entity res) f of Some a \<Rightarrow> \<not> Writable (at_Domain a) | None \<Rightarrow> False) fs of
        Some f \<Rightarrow> Inl (Computed f)
      | None \<Rightarrow> Inr ())"

definition fieldUses_check :: "field_uses \<Rightarrow> resolved \<Rightarrow> field_error + unit" where
  "fieldUses_check u res =
     bindR (validateFields res (fu_read u @ fu_compared u @ fu_written u)) (\<lambda>_.
     bindR (validateUnmaskedFields res (fu_compared u)) (\<lambda>_.
       if fu_written u = [] then Inr ()
       else bindR (distinctColumns (rs_Entity res) (fu_written u)) (\<lambda>_. validateWritable res (fu_written u))))"

section \<open>Laws\<close>

lemma find_all: "(case find P xs of Some x \<Rightarrow> Inl (f x) | None \<Rightarrow> Inr ()) = Inr () \<longleftrightarrow> (\<forall>x\<in>set xs. \<not> P x)"
  by (auto simp: find_None_iff dest: find_SomeD split: option.splits)

lemma allowed_names:
  "f \<in> set (map at_Name attrs) \<union> set (filter (\<lambda>al. al \<noteq> []) (map at_Alias attrs)) \<longleftrightarrow> (\<exists>a\<in>set attrs. names_field a f)"
  by (auto simp: names_field_def)

lemma validateFields_ok:
  "validateFields res fs = Inr () \<longleftrightarrow> (\<forall>f\<in>set fs. \<exists>a\<in>set (rs_Attributes res). names_field a f)"
  unfolding validateFields_def Let_def allowed_names by (simp add: find_all)

lemma validateUnmaskedFields_ok:
  "validateUnmaskedFields res fs = Inr () \<longleftrightarrow>
     (\<forall>f\<in>set fs. \<forall>a\<in>set (rs_Attributes res). names_field a f \<longrightarrow> at_Mask a = [])"
  unfolding validateUnmaskedFields_def find_all names_field_def list_ex_iff by blast

lemma validateWritable_ok:
  "validateWritable res fs = Inr () \<longleftrightarrow>
     (\<forall>f\<in>set fs. \<forall>a. AttributeByName (rs_Entity res) f = Some a \<longrightarrow> Writable (at_Domain a))"
  unfolding validateWritable_def find_all by (simp split: option.splits)

lemma distinct_columns_loop_ok: "distinct_columns_loop seen cs = Inr () \<longleftrightarrow> distinct cs \<and> set cs \<inter> seen = {}"
  by (induction seen cs rule: distinct_columns_loop.induct) auto

lemma fieldUses_check_ok:
  "fieldUses_check u res = Inr () \<longleftrightarrow>
     (\<forall>f\<in>set (fu_read u) \<union> set (fu_compared u) \<union> set (fu_written u). \<exists>a\<in>set (rs_Attributes res). names_field a f) \<and>
     (\<forall>f\<in>set (fu_compared u). \<forall>a\<in>set (rs_Attributes res). names_field a f \<longrightarrow> at_Mask a = []) \<and>
     distinct (columnsOf (rs_Entity res) (fu_written u)) \<and>
     (\<forall>f\<in>set (fu_written u). \<forall>a. AttributeByName (rs_Entity res) f = Some a \<longrightarrow> Writable (at_Domain a))"
  by (auto simp: fieldUses_check_def bindR_eq_Inr validateFields_ok validateUnmaskedFields_ok validateWritable_ok
      distinctColumns_def distinct_columns_loop_ok columnsOf_def)

text \<open>No two attributes of an entity share a name or an alias, and none has an empty name.\<close>

definition unambiguous :: "entity \<Rightarrow> bool" where
  "unambiguous e \<longleftrightarrow>
     (\<forall>a\<in>set (e_Attributes e). at_Name a \<noteq> []) \<and>
     (\<forall>a\<in>set (e_Attributes e). \<forall>b\<in>set (e_Attributes e). \<forall>f. names_field a f \<longrightarrow> names_field b f \<longrightarrow> a = b)"

lemma AttributeByName_unambiguous:
  assumes "unambiguous e" and "a \<in> set (e_Attributes e)" and "names_field a f"
  shows "AttributeByName e f = Some a"
proof -
  have f: "f \<noteq> []" using assms by (auto simp: unambiguous_def names_field_def)
  let ?P = "\<lambda>b. at_Name b = f \<or> at_Alias b = f"
  have P: "?P b \<longleftrightarrow> names_field b f" for b using f by (auto simp: names_field_def)
  obtain b where b: "find ?P (e_Attributes e) = Some b"
    using assms(2,3) by (cases "find ?P (e_Attributes e)") (auto simp: find_None_iff P)
  then have "b = a" using find_SomeD [OF b] assms by (auto simp: P unambiguous_def)
  with b f show ?thesis by (simp add: AttributeByName_def)
qed

section \<open>Properties\<close>

text \<open>
  The fields of a call that passes the check reach the database as what they were checked to be: each field
  it uses is the name of one attribute of the entity that is not excluded (never an empty name), and the column SQL names is
  that attribute's; a compared one is unmasked; no column is written twice, and none the database computes.
\<close>

theorem fieldUses_check_sound:
  assumes "NewRegistry es = Inr r" and "Resolve r ref = Some res" and "unambiguous (rs_Entity res)"
    and "fieldUses_check u res = Inr ()"
  shows "(\<forall>f\<in>set (fu_read u) \<union> set (fu_compared u) \<union> set (fu_written u). f \<noteq> [] \<and>
      (\<exists>a\<in>set (e_Attributes (rs_Entity res)). \<not> at_Excluded a \<and> names_field a f \<and> columnOf (rs_Entity res) f = at_Name a \<and>
        (f \<in> set (fu_compared u) \<longrightarrow> at_Mask a = []) \<and> (f \<in> set (fu_written u) \<longrightarrow> Writable (at_Domain a)))) \<and>
    distinct (map (columnOf (rs_Entity res)) (fu_written u))"
proof -
  note ok = assms(4) [unfolded fieldUses_check_ok]
  have "f \<noteq> [] \<and> (\<exists>a\<in>set (e_Attributes (rs_Entity res)). \<not> at_Excluded a \<and> names_field a f \<and>
      columnOf (rs_Entity res) f = at_Name a \<and> (f \<in> set (fu_compared u) \<longrightarrow> at_Mask a = []) \<and>
      (f \<in> set (fu_written u) \<longrightarrow> Writable (at_Domain a)))"
    if f: "f \<in> set (fu_read u) \<union> set (fu_compared u) \<union> set (fu_written u)" for f
  proof -
    obtain a where a: "a \<in> set (rs_Attributes res)" "names_field a f" using ok f by blast
    note hid = reg.resolve_not_excluded [OF assms(1,2) a(1)]
    have attr: "AttributeByName (rs_Entity res) f = Some a" using AttributeByName_unambiguous [OF assms(3)] hid a(2) by blast
    then have "f \<noteq> []" "columnOf (rs_Entity res) f = at_Name a"
      by (auto simp: AttributeByName_def columnOf_def split: if_splits)
    then show ?thesis using ok f a hid attr by blast
  qed
  then show ?thesis using ok by (simp add: columnsOf_def)
qed

section \<open>Witnesses\<close>

definition ex_uses :: field_uses where
  "ex_uses = \<lparr>fu_read = [''id''], fu_compared = [''id''], fu_written = [''id'']\<rparr>"

theorem fieldUses_check_sound_witness:
  "\<exists>r res. NewRegistry ex_entities = Inr r \<and> Resolve r ''default.sales.orders'' = Some res \<and>
     fieldUses_check ex_uses res = Inr () \<and> columnOf (rs_Entity res) ''id'' = ''id''"
proof -
  let ?e = "ex_entity ''sales'' ''orders''" and ?ref = "''default.sales.orders''"
  obtain r where r: "NewRegistry ex_entities = Inr r" using ex_registry by blast
  have names: "e_Name ?e = ?ref" by code_simp
  have "?e \<in> set ex_entities" by (simp add: ex_entities_def)
  from reg.resolve_name [OF r this] obtain res where res: "Resolve r ?ref = Some res" "rs_Entity res = ?e"
    by (auto simp: names)
  have attrs: "rs_Attributes res = e_Attributes ?e"
    using reg.resolve_shown [OF r res(1)] by (simp add: res(2) shown_def ex_entity_def)
  have "unambiguous (rs_Entity res)" by (simp add: res(2) unambiguous_def ex_entity_def)
  moreover have ok: "fieldUses_check ex_uses res = Inr ()"
    by (simp add: fieldUses_check_ok attrs res(2) ex_uses_def ex_entity_def names_field_def columnsOf_def
        AttributeByName_def Writable_def)
  ultimately have "columnOf (rs_Entity res) ''id'' = ''id''"
    using fieldUses_check_sound [OF r res(1)] by (auto simp: ex_uses_def res(2) ex_entity_def)
  with r res(1) ok show ?thesis by blast
qed

end
