(* ===== verification/Gostd.thy ===== *)
theory Gostd
  imports Prelude "HOL-Library.Word" "HOL-Library.Char_ord" "HOL-Library.List_Lexorder"
begin

text \<open>
  More of Go's language and standard library, used by the components that guard a statement: the
  truncating division, the order of strings (bytewise lexicographic, from the library's orders on
  characters and lists, with \<^verbatim>\<open>sort.Strings\<close> as its \<open>sort\<close>), the prefix test and field splitting of \<^verbatim>\<open>strings\<close>, the quoting of
  \<^verbatim>\<open>%q\<close>, and \<^verbatim>\<open>crypto/sha256\<close> with \<^verbatim>\<open>encoding/hex\<close> over 32-bit words.
\<close>

unbundle bit_operations_syntax

section \<open>Arithmetic\<close>

text \<open>Go's integer division truncates towards zero.\<close>

definition tdiv :: "int \<Rightarrow> int \<Rightarrow> int" where
  "tdiv a b = (if (a < 0) = (b < 0) then \<bar>a\<bar> div \<bar>b\<bar> else - (\<bar>a\<bar> div \<bar>b\<bar>))"

definition tmod :: "int \<Rightarrow> int \<Rightarrow> int" where
  "tmod a b = a - b * tdiv a b"

lemma tdiv_nonneg: "0 \<le> a \<Longrightarrow> 0 < b \<Longrightarrow> tdiv a b = a div b"
  by (simp add: tdiv_def)

lemma tmod_nonneg: "0 \<le> a \<Longrightarrow> 0 < b \<Longrightarrow> tmod a b = a mod b"
  by (simp add: tmod_def tdiv_nonneg minus_mult_div_eq_mod)

lemma tdiv_bound: "0 < b \<Longrightarrow> \<bar>tdiv a b\<bar> \<le> \<bar>a\<bar>"
proof -
  assume "0 < b"
  then have "\<bar>a\<bar> div b \<le> \<bar>a\<bar>" by (metis abs_ge_zero div_by_1 int_one_le_iff_zero_less zdiv_mono2 zero_less_one)
  moreover have "0 \<le> \<bar>a\<bar> div b" using \<open>0 < b\<close> by (simp add: pos_imp_zdiv_nonneg_iff)
  ultimately show ?thesis using \<open>0 < b\<close> by (auto simp: tdiv_def)
qed

section \<open>Strings\<close>

definition has_prefix :: "string \<Rightarrow> string \<Rightarrow> bool" where
  "has_prefix s p \<longleftrightarrow> take (length p) s = p"

lemma has_prefix_append [simp]: "has_prefix (p @ s) p"
  by (simp add: has_prefix_def)

lemma dropWhile_Cons_length: "dropWhile P s = c # cs \<Longrightarrow> length cs < length s"
  by (metis impossible_Cons length_dropWhile_le linorder_not_less order_trans)

text \<open>\<^verbatim>\<open>strings.Fields\<close>: the maximal runs of bytes that are not white space.\<close>

function str_fields :: "string \<Rightarrow> string list" where
  "str_fields s =
     (case dropWhile is_space s of
        [] \<Rightarrow> []
      | c # cs \<Rightarrow> (c # takeWhile (\<lambda>x. \<not> is_space x) cs) # str_fields (dropWhile (\<lambda>x. \<not> is_space x) cs))"
  by auto

termination
  by (relation "measure length")
    (auto intro: le_less_trans [OF length_dropWhile_le] dest!: sym [of "_ # _"] dest: dropWhile_Cons_length)

declare str_fields.simps [simp del]

text \<open>
  \<^verbatim>\<open>strconv.Quote\<close> (the verb \<^verbatim>\<open>%q\<close>) of ASCII text; a byte past ASCII, part of a printable
  character, is kept.
\<close>

definition hex_digit :: "nat \<Rightarrow> char" where
  "hex_digit d = ''0123456789abcdef'' ! d"

definition quote_char :: "char \<Rightarrow> string" where
  "quote_char c =
     (let n = (of_char c :: nat) in
      if n = 34 then [CHR 0x5C, CHR 0x22]
      else if n = 92 then [CHR 0x5C, CHR 0x5C]
      else if n = 7 then CHR 0x5C # ''a''
      else if n = 8 then CHR 0x5C # ''b''
      else if n = 9 then CHR 0x5C # ''t''
      else if n = 10 then CHR 0x5C # ''n''
      else if n = 11 then CHR 0x5C # ''v''
      else if n = 12 then CHR 0x5C # ''f''
      else if n = 13 then CHR 0x5C # ''r''
      else if n < 32 \<or> n = 127 then CHR 0x5C # CHR ''x'' # [hex_digit (n div 16), hex_digit (n mod 16)]
      else [c])"

definition go_quote :: "string \<Rightarrow> string" where
  "go_quote s = [CHR 0x22] @ concat (map quote_char s) @ [CHR 0x22]"

section \<open>SHA-256\<close>

type_synonym w32 = "32 word"

definition rotr :: "nat \<Rightarrow> w32 \<Rightarrow> w32" where
  "rotr n x = drop_bit n x OR push_bit (32 - n) x"

text \<open>
  The constants are what the standard defines them to be: the first 32 bits of the fractional parts of the cube
  roots of the first 64 primes, and of the square roots of the first eight. The integer root of a number is found
  bit by bit; scaled by \<open>2\<^sup>3\<^sup>2\<close> and truncated to a word it is the fraction.
\<close>

definition sha_primes :: "int list" where
  "sha_primes = filter (\<lambda>n. list_all (\<lambda>d. n mod d \<noteq> 0) [2..n - 1]) [2..311]"

fun int_root :: "nat \<Rightarrow> nat \<Rightarrow> int \<Rightarrow> int \<Rightarrow> int" where
  "int_root e 0 n r = r"
| "int_root e (Suc b) n r = int_root e b n (if (r + 2 ^ b) ^ e \<le> n then r + 2 ^ b else r)"

definition sha_K :: "w32 list" where
  "sha_K = map (\<lambda>p. word_of_int (int_root 3 36 (p * 2 ^ 96) 0)) sha_primes"

definition sha_H :: "w32 list" where
  "sha_H = map (\<lambda>p. word_of_int (int_root 2 36 (p * 2 ^ 64) 0)) (take 8 sha_primes)"

text \<open>The message schedule, newest word first.\<close>

fun sha_schedule :: "nat \<Rightarrow> w32 list \<Rightarrow> w32 list" where
  "sha_schedule 0 ws = ws"
| "sha_schedule (Suc k) ws =
     (let x = ws ! 14; y = ws ! 1;
          s0 = rotr 7 x XOR rotr 18 x XOR drop_bit 3 x;
          s1 = rotr 17 y XOR rotr 19 y XOR drop_bit 10 y
      in sha_schedule k ((ws ! 15 + s0 + ws ! 6 + s1) # ws))"

fun sha_round :: "w32 list \<Rightarrow> w32 \<times> w32 \<Rightarrow> w32 list" where
  "sha_round [a, b, c, d, e, f, g, h] (k, w) =
     (let t1 = h + (rotr 6 e XOR rotr 11 e XOR rotr 25 e) + ((e AND f) XOR (NOT e AND g)) + k + w;
          t2 = (rotr 2 a XOR rotr 13 a XOR rotr 22 a) + ((a AND b) XOR (a AND c) XOR (b AND c))
      in [t1 + t2, a, b, c, d + t1, e, f, g])"
| "sha_round s _ = s"

definition sha_block :: "w32 list \<Rightarrow> w32 list \<Rightarrow> w32 list" where
  "sha_block st ws =
     map2 (+) st (foldl sha_round st (zip sha_K (rev (sha_schedule 48 (rev ws)))))"

definition be_word :: "int list \<Rightarrow> w32" where
  "be_word bs = word_of_int (foldl (\<lambda>a b. a * 256 + b) 0 bs)"

fun be_bytes :: "nat \<Rightarrow> int \<Rightarrow> int list" where
  "be_bytes 0 n = []"
| "be_bytes (Suc k) n = be_bytes k (n div 256) @ [n mod 256]"

definition sha_pad :: "int list \<Rightarrow> int list" where
  "sha_pad m =
     m @ 128 # replicate ((119 - length m mod 64) mod 64) 0 @ be_bytes 8 (8 * int (length m))"

fun chunks :: "nat \<Rightarrow> nat \<Rightarrow> 'a list \<Rightarrow> 'a list list" where
  "chunks 0 n xs = []"
| "chunks (Suc k) n xs = take n xs # chunks k n (drop n xs)"

definition sha256 :: "int list \<Rightarrow> int list" where
  "sha256 m =
     (let p = sha_pad m in
      concat (map (\<lambda>w. be_bytes 4 (uint w))
        (foldl (\<lambda>st blk. sha_block st (map be_word (chunks 16 4 blk))) sha_H (chunks (length p div 64) 64 p))))"

definition hex_encode :: "int list \<Rightarrow> string" where
  "hex_encode bs = concat (map (\<lambda>b. [hex_digit (nat (b div 16)), hex_digit (nat (b mod 16))]) bs)"

definition sha256_hex :: "string \<Rightarrow> string" where
  "sha256_hex s = hex_encode (sha256 (map of_char s))"

end
