(* ===== verification/Cost.thy ===== *)
theory Cost
  imports Codegen Gostd "HOL-Library.AList"
begin

text \<open>
  The cost gate of \<^verbatim>\<open>src/core/cost\<close>: plans and their scores, thresholds and their tightening, the
  chain of layers and the gate it assembles (\<^verbatim>\<open>cost.go\<close>), the layers (\<^verbatim>\<open>layers.go\<close>), statement
  fingerprints and template matching (\<^verbatim>\<open>fingerprint.go\<close>), the sampling policy (\<^verbatim>\<open>analyze.go\<close>) and
  the feedback store (\<^verbatim>\<open>feedback.go\<close>). A layer is a record of its phase and its check; of the
  context a check reads only the caller's tightening, which it takes as an argument. EXPLAIN is the
  database's: the explainer is a field of the estimate layer. Costs and factors, which the source
  keeps in \<^verbatim>\<open>float64\<close>, are rationals. \<open>tn\<close> names the Go type of a bound value whose type the
  values of the representation do not keep (the integer widths and \<open>VOther\<close>).
\<close>

section \<open>Plans and scores\<close>

datatype scan_type = ScanUnknown | ScanSeq | ScanIndex | ScanPoint | ScanFull | OtherScan nat

fun risk :: "scan_type \<Rightarrow> int" where
  "risk ScanPoint = 0"
| "risk ScanIndex = 1"
| "risk ScanSeq = 2"
| "risk ScanUnknown = 3"
| "risk ScanFull = 4"
| "risk (OtherScan _) = 3"

definition Worse :: "scan_type \<Rightarrow> scan_type \<Rightarrow> bool" where
  "Worse a b \<longleftrightarrow> risk a > risk b"

record plan =
  p_TotalCost :: rat
  p_EstimatedRows :: int
  p_EstimatedBytes :: int
  p_ActualRows :: int
  p_ExecutionTime :: int
  p_ScanType :: scan_type
  p_PartitionPruned :: bool
  p_HasSort :: bool
  p_HasTempTable :: bool
  p_StatsFresh :: bool
  p_TableRows :: int
  p_TableSized :: bool
  p_Raw :: string

definition zero_plan :: plan where
  "zero_plan = \<lparr>p_TotalCost = 0, p_EstimatedRows = 0, p_EstimatedBytes = 0, p_ActualRows = 0,
     p_ExecutionTime = 0, p_ScanType = ScanUnknown, p_PartitionPruned = False, p_HasSort = False,
     p_HasTempTable = False, p_StatsFresh = False, p_TableRows = 0, p_TableSized = False, p_Raw = []\<rparr>"

record score =
  sc_Value :: int
  sc_Factors :: "string list"

definition rowPenalty :: "int \<Rightarrow> int" where
  "rowPenalty rows =
     (if rows > 10000000 then 45
      else if rows > 1000000 then 35
      else if rows > 100000 then 25
      else if rows > 10000 then 15
      else 0)"

definition ScorePlan :: "plan \<Rightarrow> score" where
  "ScorePlan p =
     (let (v, factors) =
        (case p_ScanType p of
           ScanPoint \<Rightarrow> (100, [])
         | ScanIndex \<Rightarrow> (85, [])
         | ScanSeq \<Rightarrow> (60, [])
         | ScanFull \<Rightarrow> (20, [''full table scan''])
         | _ \<Rightarrow> (50, [''unknown scan type'']));
      (v, factors) = (if p_HasSort p then (v - 5, factors @ [''sort required'']) else (v, factors));
      (v, factors) = (if p_HasTempTable p then (v - 10, factors @ [''temporary table'']) else (v, factors));
      (v, factors) = (if \<not> p_StatsFresh p then (v - 15, factors @ [''stale statistics'']) else (v, factors));
      penalty = rowPenalty (p_EstimatedRows p);
      (v, factors) = (if penalty > 0 then (v - penalty, factors @ [''high row estimate'']) else (v, factors));
      v = (if v < 0 then 0 else v);
      v = (if v > 100 then 100 else v)
      in \<lparr>sc_Value = v, sc_Factors = factors\<rparr>)"

definition ScannedRowsKnown :: "plan \<Rightarrow> int \<times> bool" where
  "ScannedRowsKnown p =
     (if p_TableSized p then (max (p_EstimatedRows p) (p_TableRows p), True)
      else (p_EstimatedRows p, p_ScanType p \<noteq> ScanFull))"

definition ScannedRows :: "plan \<Rightarrow> int" where
  "ScannedRows p = fst (ScannedRowsKnown p)"

definition OverScanLimit :: "plan \<Rightarrow> int \<Rightarrow> bool" where
  "OverScanLimit p limit =
     (let (rows, known) = ScannedRowsKnown p in limit > 0 \<and> (\<not> known \<or> rows > limit))"

section \<open>Thresholds\<close>

record threshold =
  th_Datasource :: string
  th_DialectName :: string
  th_SoftScore :: int
  th_HardScore :: int
  th_MaxRows :: int
  th_MaxBytes :: int
  th_MaxScannedRows :: int
  th_RejectFullScan :: bool
  th_FullScanMaxRows :: int
  th_WhitelistPKPoint :: bool
  th_RequirePKForWrite :: bool
  th_RequireAggregatePredicate :: bool
  th_ExplainFailClosed :: bool
  th_RequireKnownScan :: bool
  th_RequireFreshStats :: bool
  th_LegacyExactSQL :: bool
  th_AllowTemplates :: "string list"
  th_RejectTemplates :: "string list"

definition zero_threshold :: threshold where
  "zero_threshold = \<lparr>th_Datasource = [], th_DialectName = [], th_SoftScore = 0, th_HardScore = 0,
     th_MaxRows = 0, th_MaxBytes = 0, th_MaxScannedRows = 0, th_RejectFullScan = False,
     th_FullScanMaxRows = 0, th_WhitelistPKPoint = False, th_RequirePKForWrite = False,
     th_RequireAggregatePredicate = False, th_ExplainFailClosed = False, th_RequireKnownScan = False,
     th_RequireFreshStats = False, th_LegacyExactSQL = False, th_AllowTemplates = [], th_RejectTemplates = []\<rparr>"

record tightening =
  ti_SoftScore :: int
  ti_HardScore :: int
  ti_RejectFullScan :: bool
  ti_MaxScannedRows :: int

definition zero_tightening :: tightening where
  "zero_tightening = \<lparr>ti_SoftScore = 0, ti_HardScore = 0, ti_RejectFullScan = False, ti_MaxScannedRows = 0\<rparr>"

definition Tighten :: "threshold \<Rightarrow> tightening \<Rightarrow> threshold" where
  "Tighten th t =
     (let th = th\<lparr>th_SoftScore := max (th_SoftScore th) (ti_SoftScore t)\<rparr>;
          th = th\<lparr>th_HardScore := max (th_HardScore th) (ti_HardScore t)\<rparr>;
          th = th\<lparr>th_RejectFullScan := (th_RejectFullScan th \<or> ti_RejectFullScan t)\<rparr>
      in if ti_MaxScannedRows t > 0 \<and>
            (th_MaxScannedRows th \<le> 0 \<or> ti_MaxScannedRows t < th_MaxScannedRows th)
         then th\<lparr>th_MaxScannedRows := ti_MaxScannedRows t\<rparr> else th)"

text \<open>
  The tightening a context carries: \<open>None\<close> is a context with no value under the key.
\<close>

definition WithTightening :: "tightening option \<Rightarrow> tightening \<Rightarrow> tightening option" where
  "WithTightening ctx t = (if t = zero_tightening then ctx else Some t)"

definition tighteningOf :: "tightening option \<Rightarrow> tightening" where
  "tighteningOf ctx = (case ctx of Some t \<Rightarrow> t | None \<Rightarrow> zero_tightening)"

definition Hints :: "plan \<Rightarrow> threshold \<Rightarrow> string list" where
  "Hints p th =
     (let (scanned, known) = ScannedRowsKnown p in
      (if OverScanLimit p (th_MaxScannedRows th) then
         if known then
           [''estimated to read '' @ show_int scanned @ '' rows, over the limit of '' @
            show_int (th_MaxScannedRows th) @ '': narrow the filter '' @
            ''(a shorter time range, a more selective condition) or split the work into smaller ranges'']
         else
           [''reads a whole table whose row count is unknown, so it may exceed the '' @
            ''limit of '' @ show_int (th_MaxScannedRows th) @
            '' rows: filter on an indexed column, or ask an administrator to run ANALYZE '' @ ''on the table'']
       else []) @
      (if p_ScanType p = ScanFull then [''add a filter on an indexed column or add LIMIT''] else []) @
      (if th_MaxRows th > 0 \<and> p_EstimatedRows p > th_MaxRows th then [''add LIMIT or narrow the filter''] else []) @
      (if th_MaxBytes th > 0 \<and> p_EstimatedBytes p > th_MaxBytes th then [''reduce selected columns''] else []) @
      (if p_HasSort p then [''ensure an index covers the ORDER BY''] else []) @
      (if \<not> p_StatsFresh p then [''statistics may be stale; consider ANALYZE''] else []) @
      [''rewrite the query and retry''])"

section \<open>Decisions and the chain of layers\<close>

record cost_decision =
  cd_Allow :: bool
  cd_Soft :: bool
  cd_Bypass :: bool
  cd_Plan :: "plan option"
  cd_Score :: "score option"
  cd_Hints :: "string list"
  cd_Rewritten :: "compiled option"
  cd_Threshold :: threshold

definition zero_decision :: cost_decision where
  "zero_decision = \<lparr>cd_Allow = False, cd_Soft = False, cd_Bypass = False, cd_Plan = None, cd_Score = None,
     cd_Hints = [], cd_Rewritten = None, cd_Threshold = zero_threshold\<rparr>"

definition allowed :: cost_decision where
  "allowed = zero_decision\<lparr>cd_Allow := True\<rparr>"

definition decision_Estimate :: "cost_decision \<Rightarrow> plan \<times> score" where
  "decision_Estimate d =
     (case cd_Plan d of Some p \<Rightarrow> p | None \<Rightarrow> zero_plan,
      case cd_Score d of Some s \<Rightarrow> s | None \<Rightarrow> \<lparr>sc_Value = 0, sc_Factors = []\<rparr>)"

text \<open>
  The errors an EXPLAIN returns, told apart as the gate does: the connection's breaker or limit,
  a relation or a column the database no longer has, and any other.
\<close>

datatype explain_error = ErrCircuitOpen | ErrRateLimited | ErrMissingRelation | ErrMissingColumn | OtherErr string

datatype phase = PhaseSafety | PhaseEstimate | PhaseEnforcement

text \<open>\<open>l_Phase\<close> is \<open>None\<close> for a layer that does not implement \<^verbatim>\<open>PhasedLayer\<close>.\<close>

record layer =
  l_Phase :: "phase option"
  l_Check :: "tightening option \<Rightarrow> compiled \<Rightarrow> explain_error + cost_decision"

definition layerPhase :: "layer \<Rightarrow> phase" where
  "layerPhase l = (case l_Phase l of Some p \<Rightarrow> p | None \<Rightarrow> PhaseEnforcement)"

text \<open>The variables of the loop of \<^verbatim>\<open>ChainGate.Check\<close>.\<close>

record chain_state =
  cs_result :: cost_decision
  cs_c :: compiled
  cs_rewritten :: bool
  cs_bypassEstimate :: bool
  cs_soft :: "cost_decision option"

definition add_hint :: "string \<Rightarrow> string list \<Rightarrow> string list" where
  "add_hint h hs = (if h \<in> set hs then hs else hs @ [h])"

definition applyLayerDecision :: "cost_decision \<Rightarrow> chain_state \<Rightarrow> chain_state" where
  "applyLayerDecision d s =
     (let s = (case cd_Rewritten d of Some c \<Rightarrow> s\<lparr>cs_c := c, cs_rewritten := True\<rparr> | None \<Rightarrow> s);
          s = (if cd_Bypass d
               then s\<lparr>cs_bypassEstimate := True, cs_result := (cs_result s)\<lparr>cd_Bypass := True\<rparr>\<rparr> else s);
          s = (if cd_Plan d \<noteq> None then s\<lparr>cs_result := (cs_result s)\<lparr>cd_Plan := cd_Plan d\<rparr>\<rparr> else s);
          s = (if cd_Score d \<noteq> None then s\<lparr>cs_result := (cs_result s)\<lparr>cd_Score := cd_Score d\<rparr>\<rparr> else s);
          s = s\<lparr>cs_result := (cs_result s)\<lparr>cd_Hints := fold add_hint (cd_Hints d) (cd_Hints (cs_result s))\<rparr>\<rparr>
      in if \<not> cd_Allow d \<and> cd_Soft d then s\<lparr>cs_soft := Some d\<rparr> else s)"

definition hardDenyDecision :: "cost_decision \<Rightarrow> compiled \<Rightarrow> bool \<Rightarrow> cost_decision" where
  "hardDenyDecision d c rewritten = d\<lparr>cd_Rewritten := if rewritten then Some c else None\<rparr>"

definition attachRewritten :: "cost_decision \<Rightarrow> compiled \<Rightarrow> bool \<Rightarrow> cost_decision" where
  "attachRewritten d c rewritten = (if rewritten then d\<lparr>cd_Rewritten := Some c\<rparr> else d)"

fun Check_loop :: "tightening option \<Rightarrow> layer list \<Rightarrow> chain_state \<Rightarrow> explain_error + cost_decision" where
  "Check_loop ctx [] s =
     (let result = (case cs_soft s of
          None \<Rightarrow> cs_result s
        | Some d \<Rightarrow> (cs_result s)\<lparr>cd_Allow := False, cd_Soft := True, cd_Threshold := cd_Threshold d\<rparr>)
      in Inr (attachRewritten result (cs_c s) (cs_rewritten s)))"
| "Check_loop ctx (l # ls) s =
     (if cs_bypassEstimate s \<and> layerPhase l = PhaseEstimate then Check_loop ctx ls s
      else bindR (l_Check l ctx (cs_c s)) (\<lambda>d.
        let s' = applyLayerDecision d s in
        if \<not> cd_Allow d \<and> \<not> cd_Soft d then Inr (hardDenyDecision d (cs_c s') (cs_rewritten s'))
        else Check_loop ctx ls s'))"

definition ChainGate_Check :: "layer list \<Rightarrow> tightening option \<Rightarrow> compiled \<Rightarrow> explain_error + cost_decision" where
  "ChainGate_Check layers ctx c =
     Check_loop ctx layers \<lparr>cs_result = allowed, cs_c = c, cs_rewritten = False,
       cs_bypassEstimate = False, cs_soft = None\<rparr>"

section \<open>Fingerprints and templates\<close>

definition fingerprintPrefix :: string where
  "fingerprintPrefix = ''fp:v4:''"

definition argType :: "(val \<Rightarrow> string) \<Rightarrow> val \<Rightarrow> string" where
  "argType tn arg =
     (case arg of
        VNull \<Rightarrow> ''<nil>''
      | VStr _ \<Rightarrow> ''/string''
      | VFloat _ \<Rightarrow> ''/float64''
      | VBool _ \<Rightarrow> ''/bool''
      | _ \<Rightarrow> tn arg)"

definition Fingerprint :: "(val \<Rightarrow> string) \<Rightarrow> string \<Rightarrow> string \<Rightarrow> compiled \<Rightarrow> string" where
  "Fingerprint tn datasource dialectName c =
     fingerprintPrefix @ sha256_hex
       (to_lower (trim_space datasource) @ [CHR 0x0A] @
        to_lower (trim_space dialectName) @ [CHR 0x0A] @
        join_strs '' '' (str_fields (co_SQL c)) @
        concat (map (\<lambda>arg. CHR 0x0A # argType tn arg) (co_Args c)))"

text \<open>\<^verbatim>\<open>matchesTemplates\<close>: the fingerprint is a function in the source so that it is computed once, on demand.\<close>

definition matchesTemplates :: "string list \<Rightarrow> string \<Rightarrow> compiled \<Rightarrow> bool \<Rightarrow> string \<Rightarrow> bool" where
  "matchesTemplates values datasource c allowLegacyExactSQL fp =
     (if values = [] then False
      else let scopedSQL = trim_space datasource @ '':'' @ co_SQL c in
        list_ex (\<lambda>v. v = fp \<or> v = scopedSQL \<or> allowLegacyExactSQL \<and> v = co_SQL c) values)"

definition matchesBaseline ::
  "(val \<Rightarrow> string) \<Rightarrow> string list \<Rightarrow> string \<Rightarrow> string \<Rightarrow> compiled \<Rightarrow> bool \<Rightarrow> bool" where
  "matchesBaseline tn values datasource dialectName c allowLegacyExactSQL =
     matchesTemplates values datasource c allowLegacyExactSQL (Fingerprint tn datasource dialectName c)"

datatype template_error =
    ErrNotBare string string
  | ErrEarlierVersion string string
  | ErrBareSQL string string string

definition hasDatasourceScope :: "string \<Rightarrow> string list \<Rightarrow> bool" where
  "hasDatasourceScope v datasources \<longleftrightarrow>
     list_ex (\<lambda>ds. let prefix = trim_space ds @ '':'' in has_prefix v prefix \<and> length v > length prefix) datasources"

text \<open>The fingerprint an entry names: without the datasource scope when what follows it is one.\<close>

definition bareFingerprint :: "string \<Rightarrow> string" where
  "bareFingerprint v =
     (let fp = trim_space v in
      case cut (CHR '':'') fp of
        None \<Rightarrow> fp
      | Some (_, scoped) \<Rightarrow>
          if \<not> has_prefix fp ''fp:'' \<and> has_prefix (trim_space scoped) ''fp:'' then trim_space scoped else fp)"

fun validateFingerprintVersion :: "string \<Rightarrow> string list \<Rightarrow> template_error + unit" where
  "validateFingerprintVersion name [] = Inr ()"
| "validateFingerprintVersion name (v # vs) =
     (let fp = bareFingerprint v in
      if \<not> has_prefix fp ''fp:'' then validateFingerprintVersion name vs
      else if fp \<noteq> v then Inl (ErrNotBare name v)
      else if \<not> has_prefix fp fingerprintPrefix then Inl (ErrEarlierVersion name v)
      else validateFingerprintVersion name vs)"

fun validateScopes :: "string list \<Rightarrow> string \<Rightarrow> string list \<Rightarrow> template_error + unit" where
  "validateScopes names name [] = Inr ()"
| "validateScopes names name (v # vs) =
     (if has_prefix v fingerprintPrefix \<or> hasDatasourceScope v names then validateScopes names name vs
      else Inl (ErrBareSQL name v (hd names @ '':'' @ v)))"

definition ValidateTemplateScopes ::
  "string list \<Rightarrow> string list \<Rightarrow> string list \<Rightarrow> template_error + unit" where
  "ValidateTemplateScopes datasources allowTemplates rejectTemplates =
     bindR (validateFingerprintVersion ''allowTemplates'' allowTemplates) (\<lambda>_.
     bindR (validateFingerprintVersion ''rejectTemplates'' rejectTemplates) (\<lambda>_.
     if length datasources \<le> 1 then Inr ()
     else let names = sort datasources in
       bindR (validateScopes names ''allowTemplates'' allowTemplates) (\<lambda>_.
       validateScopes names ''rejectTemplates'' rejectTemplates)))"

section \<open>The layers\<close>

record static_rule =
  sr_PKWhitelist :: bool
  sr_Datasource :: string
  sr_DialectName :: string
  sr_LegacyExactSQL :: bool
  sr_AllowTemplates :: "string list"
  sr_RejectTemplates :: "string list"

definition StaticRule_Check ::
  "(val \<Rightarrow> string) \<Rightarrow> static_rule \<Rightarrow> tightening option \<Rightarrow> compiled \<Rightarrow> explain_error + cost_decision" where
  "StaticRule_Check tn s ctx c =
     (let fp = Fingerprint tn (sr_Datasource s) (sr_DialectName s) c in
      if matchesTemplates (sr_RejectTemplates s) (sr_Datasource s) c (sr_LegacyExactSQL s) fp
      then Inr (zero_decision\<lparr>cd_Hints := [''query matches a rejected template'']\<rparr>)
      else if sr_PKWhitelist s \<and> co_IsKeyPoint c
      then let p = zero_plan\<lparr>p_ScanType := ScanPoint, p_StatsFresh := True\<rparr> in
        Inr (zero_decision\<lparr>cd_Allow := True, cd_Bypass := True, cd_Plan := Some p, cd_Score := Some (ScorePlan p)\<rparr>)
      else if matchesTemplates (sr_AllowTemplates s) (sr_Datasource s) c (sr_LegacyExactSQL s) fp
      then Inr (zero_decision\<lparr>cd_Allow := True, cd_Bypass := True\<rparr>)
      else Inr (zero_decision\<lparr>cd_Allow := True\<rparr>))"

record statistics =
  st_Samples :: int
  st_AverageRows :: int
  st_AverageTime :: int
  st_LatestRows :: int
  st_LatestTime :: int
  st_EstimatedRows :: int

text \<open>
  The estimate layer: \<open>es_Feedback\<close> is the \<^verbatim>\<open>Stats\<close> method of the store, \<open>None\<close> for none or the
  one that discards everything.
\<close>

record estimate =
  es_Explainer :: "string \<Rightarrow> val list \<Rightarrow> explain_error + plan"
  es_Threshold :: threshold
  es_Feedback :: "(string \<Rightarrow> statistics option) option"
  es_FailClosed :: bool

definition smallTable :: "plan \<Rightarrow> threshold \<Rightarrow> plan" where
  "smallTable p th =
     (if p_ScanType p = ScanFull \<and> th_FullScanMaxRows th > 0 \<and> p_TableSized p \<and>
         p_TableRows p \<le> th_FullScanMaxRows th
      then p\<lparr>p_ScanType := ScanIndex\<rparr> else p)"

definition unavailable :: "explain_error option \<Rightarrow> bool" where
  "unavailable err \<longleftrightarrow> err = Some ErrCircuitOpen \<or> err = Some ErrRateLimited"

definition schemaChanged :: "explain_error option \<Rightarrow> bool" where
  "schemaChanged err \<longleftrightarrow> err = Some ErrMissingRelation \<or> err = Some ErrMissingColumn"

definition explainPlan :: "(val \<Rightarrow> string) \<Rightarrow> estimate \<Rightarrow> compiled \<Rightarrow> plan \<times> explain_error option" where
  "explainPlan tn e c =
     (let (p, err) = (case es_Explainer e (co_SQL c) (co_Args c) of
            Inr p \<Rightarrow> (p, None)
          | Inl err \<Rightarrow> (zero_plan\<lparr>p_ScanType := ScanUnknown, p_StatsFresh := False\<rparr>, Some err));
          p = (case es_Feedback e of
            None \<Rightarrow> p
          | Some Stats \<Rightarrow>
              let key = Fingerprint tn (th_Datasource (es_Threshold e)) (th_DialectName (es_Threshold e)) c in
              (case Stats key of
                 None \<Rightarrow> p
               | Some stats \<Rightarrow>
                   if st_AverageRows stats > p_EstimatedRows p
                   then p\<lparr>p_EstimatedRows := st_AverageRows stats\<rparr> else p))
      in (p, err))"

definition deny :: "plan \<Rightarrow> score \<Rightarrow> threshold \<Rightarrow> bool \<Rightarrow> cost_decision" where
  "deny p sc th soft = zero_decision\<lparr>cd_Allow := False, cd_Soft := soft, cd_Plan := Some p,
     cd_Score := Some sc, cd_Hints := Hints p th, cd_Threshold := th\<rparr>"

definition evaluatePlan :: "bool \<Rightarrow> plan \<Rightarrow> explain_error option \<Rightarrow> score \<Rightarrow> threshold \<Rightarrow> cost_decision" where
  "evaluatePlan failClosed p err sc th =
     (if failClosed \<and> (err \<noteq> None \<or> p_ScanType p = ScanUnknown) then deny p sc th False
      else if p_ScanType p = ScanFull \<and> th_RejectFullScan th then deny p sc th False
      else if OverScanLimit p (th_MaxScannedRows th) then deny p sc th False
      else if p_ScanType p = ScanUnknown \<and> th_RequireKnownScan th then deny p sc th False
      else if \<not> p_StatsFresh p \<and> th_RequireFreshStats th then deny p sc th False
      else if th_HardScore th > 0 \<and> sc_Value sc < th_HardScore th then deny p sc th False
      else if th_SoftScore th > 0 \<and> sc_Value sc < th_SoftScore th then deny p sc th True
      else zero_decision\<lparr>cd_Allow := True, cd_Plan := Some p, cd_Score := Some sc\<rparr>)"

definition Estimate_Check ::
  "(val \<Rightarrow> string) \<Rightarrow> estimate \<Rightarrow> tightening option \<Rightarrow> compiled \<Rightarrow> explain_error + cost_decision" where
  "Estimate_Check tn e ctx c =
     (if co_Kind c \<noteq> KindUnset \<and> co_Kind c \<noteq> KindRead \<and> co_Kind c \<noteq> KindAggregate then Inr allowed
      else let th = Tighten (es_Threshold e) (tighteningOf ctx); (p, err) = explainPlan tn e c in
        (case err of
           Some er \<Rightarrow>
             if unavailable err \<or> schemaChanged err then Inl er
             else let p = smallTable p th in Inr (evaluatePlan (es_FailClosed e) p err (ScorePlan p) th)
         | None \<Rightarrow>
             let p = smallTable p th in Inr (evaluatePlan (es_FailClosed e) p err (ScorePlan p) th)))"

definition Estimate_Evaluate :: "estimate \<Rightarrow> plan \<Rightarrow> explain_error option \<Rightarrow> cost_decision" where
  "Estimate_Evaluate e p err =
     (let th = es_Threshold e;
          p = (if err \<noteq> None then zero_plan\<lparr>p_ScanType := ScanUnknown, p_StatsFresh := False\<rparr> else p);
          p = smallTable p th
      in evaluatePlan (es_FailClosed e) p err (ScorePlan p) th)"

definition EnforceCap_Check :: "int \<Rightarrow> tightening option \<Rightarrow> compiled \<Rightarrow> explain_error + cost_decision" where
  "EnforceCap_Check hardRows ctx c =
     (if hardRows \<le> 0 \<or> co_Kind c = KindCall then Inr allowed
      else let isRead = (co_Kind c = KindRead \<or> co_Kind c = KindAggregate \<or>
                         (co_Kind c = KindUnset \<and> co_ReadOnly c)) in
        if \<not> isRead then Inr allowed
        else (case CapRows c hardRows of
                (capped, True) \<Rightarrow>
                  if co_SQL capped = co_SQL c then Inr allowed
                  else Inr (allowed\<lparr>cd_Rewritten := Some capped\<rparr>)
              | (_, False) \<Rightarrow>
                  Inr (allowed\<lparr>cd_Rewritten := Some (c\<lparr>co_SQL :=
                    ''SELECT * FROM ('' @ co_SQL c @ '') AS sub LIMIT '' @ show_int hardRows\<rparr>)\<rparr>)))"

text \<open>A nil expression is \<open>NilExpr\<close>.\<close>

definition WriteGuard_Check :: "tightening option \<Rightarrow> compiled \<Rightarrow> explain_error + cost_decision" where
  "WriteGuard_Check ctx c =
     (if co_Kind c \<noteq> KindUnset \<and> co_Kind c \<noteq> KindWrite then Inr allowed
      else if co_Kind c = KindUnset \<and> co_ReadOnly c then Inr allowed
      else if (case co_Expr c of NilExpr \<Rightarrow> False | Update _ _ _ \<Rightarrow> False | Delete _ _ \<Rightarrow> False | _ \<Rightarrow> True)
      then Inr allowed
      else if co_IsKeyPoint c then Inr allowed
      else Inr (zero_decision\<lparr>cd_Hints :=
        [''scope the write with an equality filter on a primary or unique key (e.g. id = ...)'']\<rparr>))"

record call_guard =
  cg_Datasource :: string
  cg_DialectName :: string
  cg_LegacyExactSQL :: bool
  cg_AllowTemplates :: "string list"

definition CallGuard_Check ::
  "(val \<Rightarrow> string) \<Rightarrow> call_guard \<Rightarrow> tightening option \<Rightarrow> compiled \<Rightarrow> explain_error + cost_decision" where
  "CallGuard_Check tn g ctx c =
     (if co_Kind c \<noteq> KindCall then Inr allowed
      else if matchesBaseline tn (cg_AllowTemplates g) (cg_Datasource g) (cg_DialectName g) c (cg_LegacyExactSQL g)
      then Inr allowed
      else Inr (zero_decision\<lparr>cd_Hints := [''add the reviewed CALL fingerprint to allowTemplates'']\<rparr>))"

definition aggregatePredicateHint :: "compiled \<Rightarrow> string" where
  "aggregatePredicateHint c =
     (case co_PrimaryKey c of
        k # _ \<Rightarrow> ''aggregate queries require a filter; the narrowest always-true predicate is '' @
          ''{'' @ go_quote ''field'' @ '':'' @ go_quote k @ '','' @ go_quote ''op'' @ '':'' @
          go_quote ''is_not_null'' @ ''} on the primary key''
      | [] \<Rightarrow> ''aggregate queries require a filter; add one, e.g. '' @
          ''{'' @ go_quote ''field'' @ '':'' @ go_quote ''<any allowed field>'' @ '','' @ go_quote ''op'' @ '':'' @
          go_quote ''is_not_null'' @ ''}'')"

definition AggregateGuard_Check :: "bool \<Rightarrow> tightening option \<Rightarrow> compiled \<Rightarrow> explain_error + cost_decision" where
  "AggregateGuard_Check requirePredicate ctx c =
     (if \<not> requirePredicate \<or> co_Kind c \<noteq> KindAggregate then Inr allowed
      else let p = PredicateOf (co_Expr c) in
        if p \<noteq> NilPred \<and> ValidatePredicateWithMaxINCardinality p (2 ^ 63 - 1) = Inr () then Inr allowed
        else Inr (zero_decision\<lparr>cd_Hints := [aggregatePredicateHint c]\<rparr>))"

section \<open>The gate of a datasource\<close>

definition StaticRule :: "(val \<Rightarrow> string) \<Rightarrow> static_rule \<Rightarrow> layer" where
  "StaticRule tn s = \<lparr>l_Phase = Some PhaseSafety, l_Check = StaticRule_Check tn s\<rparr>"

definition Estimate :: "(val \<Rightarrow> string) \<Rightarrow> estimate \<Rightarrow> layer" where
  "Estimate tn e = \<lparr>l_Phase = Some PhaseEstimate, l_Check = Estimate_Check tn e\<rparr>"

definition EnforceCap :: "int \<Rightarrow> layer" where
  "EnforceCap hardRows = \<lparr>l_Phase = Some PhaseEnforcement, l_Check = EnforceCap_Check hardRows\<rparr>"

definition WriteGuard :: layer where
  "WriteGuard = \<lparr>l_Phase = Some PhaseEnforcement, l_Check = WriteGuard_Check\<rparr>"

definition CallGuard :: "(val \<Rightarrow> string) \<Rightarrow> call_guard \<Rightarrow> layer" where
  "CallGuard tn g = \<lparr>l_Phase = Some PhaseEnforcement, l_Check = CallGuard_Check tn g\<rparr>"

definition AggregateGuard :: "bool \<Rightarrow> layer" where
  "AggregateGuard requirePredicate =
     \<lparr>l_Phase = Some PhaseEnforcement, l_Check = AggregateGuard_Check requirePredicate\<rparr>"

definition NewGateFromCapabilities ::
  "(val \<Rightarrow> string) \<Rightarrow> profile \<Rightarrow> (string \<Rightarrow> val list \<Rightarrow> explain_error + plan) option \<Rightarrow> threshold \<Rightarrow>
   (string \<Rightarrow> statistics option) option \<Rightarrow> layer list" where
  "NewGateFromCapabilities tn caps ex th feedback =
     [StaticRule tn \<lparr>sr_PKWhitelist = th_WhitelistPKPoint th, sr_Datasource = th_Datasource th,
        sr_DialectName = th_DialectName th, sr_LegacyExactSQL = th_LegacyExactSQL th,
        sr_AllowTemplates = th_AllowTemplates th, sr_RejectTemplates = th_RejectTemplates th\<rparr>] @
     (if th_RequirePKForWrite th then [WriteGuard] else []) @
     [CallGuard tn \<lparr>cg_Datasource = th_Datasource th, cg_DialectName = th_DialectName th,
        cg_LegacyExactSQL = th_LegacyExactSQL th, cg_AllowTemplates = th_AllowTemplates th\<rparr>] @
     (if th_RequireAggregatePredicate th then [AggregateGuard True] else []) @
     (case ex of
        Some explain \<Rightarrow>
          if profile_Has caps Explain \<and> (profile_Enforced caps ExplainAccurate \<or> th_ExplainFailClosed th)
          then [Estimate tn \<lparr>es_Explainer = explain, es_Threshold = th, es_Feedback = feedback,
                  es_FailClosed = th_ExplainFailClosed th\<rparr>] else []
      | None \<Rightarrow> []) @
     (if th_MaxRows th > 0 then [EnforceCap (th_MaxRows th)] else [])"

text \<open>
  The optional sampling: what \<^verbatim>\<open>Sample\<close> decides before it calls the sampler (\<open>random\<close> is the number
  drawn); the timeout only bounds the call.
\<close>

record analyze_config =
  an_Enabled :: bool
  an_SampleRate :: rat
  an_ReadOnly :: bool
  an_Timeout :: int

definition AnalyzePolicy_Sample ::
  "analyze_config \<Rightarrow> (compiled \<Rightarrow> explain_error + plan) option \<Rightarrow> rat \<Rightarrow> compiled \<Rightarrow> (explain_error + plan) option" where
  "AnalyzePolicy_Sample cfg sampler random c =
     (case sampler of
        None \<Rightarrow> None
      | Some analyze \<Rightarrow>
          if \<not> an_Enabled cfg \<or> \<not> an_ReadOnly cfg \<or> \<not> co_ReadOnly c \<or> an_SampleRate cfg \<le> 0 then None
          else if an_SampleRate cfg < 1 \<and> random \<ge> an_SampleRate cfg then None
          else Some (analyze c))"

end
