(* ===== verification/Feedback.thy ===== *)
theory Feedback
  imports Cost
begin

text \<open>
  The feedback store of \<^verbatim>\<open>src/core/cost/feedback.go\<close>: a bounded window of the latest executions of each
  statement fingerprint, for at most \<^verbatim>\<open>maxKeys\<close> fingerprints. The map is an association list (its length
  is Go's \<^verbatim>\<open>len\<close>), \<open>None\<close> the nil map of the zero value. \<open>ms_invalidator\<close> tells whether a plan
  invalidator is set; \<open>Record\<close> returns the fingerprint it invalidates. The window refines the list of the
  last samples: it is a ring buffer whose \<open>next\<close> is the oldest one once it is full.
\<close>

definition defaultMaxFingerprintKeys :: int where
  "defaultMaxFingerprintKeys = 4096"

record feedback =
  fb_Template :: string
  fb_EstimatedRows :: int
  fb_ActualRows :: int
  fb_Duration :: int

record window =
  w_samples :: "feedback list"
  w_next :: nat

record memory_store =
  ms_windowSize :: int
  ms_anomalyFactor :: rat
  ms_anomalyMinSamples :: int
  ms_invalidator :: bool
  ms_maxKeys :: int
  ms_m :: "(string \<times> window) list option"
  ms_keys :: "string list"

definition window_add :: "feedback \<Rightarrow> int \<Rightarrow> window \<Rightarrow> window" where
  "window_add f sz w =
     (if int (length (w_samples w)) < sz then w\<lparr>w_samples := w_samples w @ [f]\<rparr>
      else w\<lparr>w_samples := (w_samples w)[w_next w := f], w_next := (w_next w + 1) mod length (w_samples w)\<rparr>)"

definition window_latest :: "window \<Rightarrow> feedback" where
  "window_latest w = w_samples w ! ((w_next w + length (w_samples w) - 1) mod length (w_samples w))"

definition NewAdaptiveMemoryStoreWithBounds :: "int \<Rightarrow> int \<Rightarrow> rat \<Rightarrow> int \<Rightarrow> bool \<Rightarrow> memory_store" where
  "NewAdaptiveMemoryStoreWithBounds sz maxKeys factor minSamples invalidator =
     \<lparr>ms_windowSize = (if sz \<le> 0 then 32 else sz),
      ms_anomalyFactor = (if factor \<le> 1 then 3 else factor),
      ms_anomalyMinSamples = (if minSamples \<le> 0 then 5 else minSamples),
      ms_invalidator = invalidator,
      ms_maxKeys = (if maxKeys \<le> 0 then defaultMaxFingerprintKeys else maxKeys),
      ms_m = Some [], ms_keys = []\<rparr>"

definition NewMemoryStore :: memory_store where
  "NewMemoryStore = NewAdaptiveMemoryStoreWithBounds 32 defaultMaxFingerprintKeys 3 5 False"

definition sum64 :: "int list \<Rightarrow> int" where
  "sum64 = foldl (\<lambda>t x. wrap64 (t + x)) 0"

text \<open>The store before a sample: with the default bounds when it is the zero value.\<close>

definition initialized :: "memory_store \<Rightarrow> memory_store \<times> (string \<times> window) list" where
  "initialized s =
     (case ms_m s of
        Some m \<Rightarrow> (s, m)
      | None \<Rightarrow> (s\<lparr>ms_windowSize := 32, ms_maxKeys := defaultMaxFingerprintKeys, ms_anomalyFactor := 3,
                   ms_anomalyMinSamples := 5, ms_m := Some []\<rparr>, []))"

text \<open>
  The window of a fingerprint, a new one when it is not known: the oldest fingerprint makes room. The
  source would panic if the key list were empty while the map is full, which the invariant below excludes.
\<close>

definition window_of ::
  "string \<Rightarrow> memory_store \<times> (string \<times> window) list \<Rightarrow> window \<times> memory_store \<times> (string \<times> window) list" where
  "window_of key sm = (case sm of (s, m) \<Rightarrow>
     (case map_of m key of
        Some w \<Rightarrow> (w, s, m)
      | None \<Rightarrow>
          let (s, m) = (if int (length m) \<ge> ms_maxKeys s
                        then (s\<lparr>ms_keys := tl (ms_keys s)\<rparr>, AList.delete (hd (ms_keys s)) m) else (s, m));
              w = \<lparr>w_samples = [], w_next = 0\<rparr>
          in (w, s\<lparr>ms_keys := ms_keys s @ [key]\<rparr>, AList.update key w m)))"

definition anomalous_sample :: "memory_store \<Rightarrow> window \<Rightarrow> feedback \<Rightarrow> bool" where
  "anomalous_sample s w f =
     (if int (length (w_samples w)) \<ge> ms_anomalyMinSamples s \<and> length (w_samples w) > 0
      then let average = tdiv (sum64 (map fb_ActualRows (w_samples w))) (int (length (w_samples w))) in
        average > 0 \<and> of_int (fb_ActualRows f) > of_int average * ms_anomalyFactor s
      else False)"

definition Record :: "feedback \<Rightarrow> memory_store \<Rightarrow> string option \<times> memory_store" where
  "Record f s0 =
     (let (w, s, m) = window_of (fb_Template f) (initialized s0);
          anomalous = anomalous_sample s w f;
          s = s\<lparr>ms_m := Some (AList.update (fb_Template f) (window_add f (ms_windowSize s) w) m)\<rparr>
      in (if anomalous \<and> ms_invalidator s then Some (fb_Template f) else None, s))"

definition Stats :: "memory_store \<Rightarrow> string \<Rightarrow> statistics option" where
  "Stats s template =
     (case ms_m s of
        None \<Rightarrow> None
      | Some m \<Rightarrow>
          (case map_of m template of
             None \<Rightarrow> None
           | Some w \<Rightarrow>
               if w_samples w = [] then None
               else let n = int (length (w_samples w)); latest = window_latest w in
                 Some \<lparr>st_Samples = n,
                       st_AverageRows = tdiv (sum64 (map fb_ActualRows (w_samples w))) n,
                       st_AverageTime = tdiv (sum64 (map fb_Duration (w_samples w))) n,
                       st_LatestRows = fb_ActualRows latest,
                       st_LatestTime = fb_Duration latest,
                       st_EstimatedRows = fb_EstimatedRows latest\<rparr>))"

definition Anomalous :: "memory_store \<Rightarrow> string \<Rightarrow> rat \<Rightarrow> int \<Rightarrow> bool" where
  "Anomalous s template factor minSamples =
     (case Stats s template of
        None \<Rightarrow> False
      | Some stats \<Rightarrow>
          if st_Samples stats < minSamples \<or> st_AverageRows stats \<le> 0 then False
          else let factor = (if factor \<le> 1 then 3 else factor) in
            of_int (st_LatestRows stats) > of_int (st_AverageRows stats) * factor)"

section \<open>The window refines the list of the last samples\<close>

text \<open>
  \<open>window_abs\<close> is the content of a window from the oldest to the newest sample; a window is well formed
  for a size when it is not full and has not wrapped, or it is full and its next place is inside.
\<close>

definition window_abs :: "window \<Rightarrow> feedback list" where
  "window_abs w = rotate (w_next w) (w_samples w)"

definition window_ok :: "int \<Rightarrow> window \<Rightarrow> bool" where
  "window_ok sz w \<longleftrightarrow> 0 < sz \<and> int (length (w_samples w)) \<le> sz \<and>
     (if int (length (w_samples w)) < sz then w_next w = 0 else w_next w < length (w_samples w))"

definition last_n :: "int \<Rightarrow> 'a list \<Rightarrow> 'a list" where
  "last_n sz xs = drop (length xs - nat sz) xs"

lemma rotate_update:
  assumes "k < length xs"
  shows "rotate (Suc k mod length xs) (xs[k := x]) = tl (rotate k xs) @ [x]"
proof -
  have "rotate (Suc k mod length xs) (xs[k := x]) = rotate (Suc k) (xs[k := x])"
    by (metis length_list_update rotate_conv_mod)
  also have "\<dots> = rotate1 (rotate k (xs[k := x]))" by simp
  also have "rotate k (xs[k := x]) = drop k (xs[k := x]) @ take k (xs[k := x])"
    using assms by (simp add: rotate_drop_take)
  also have "\<dots> = x # drop (Suc k) xs @ take k xs"
    using assms by (simp add: Cons_nth_drop_Suc [symmetric])
  finally show ?thesis using assms by (simp add: rotate_drop_take Cons_nth_drop_Suc [symmetric])
qed

lemma window_add_ok: "window_ok sz w \<Longrightarrow> window_ok sz (window_add f sz w)"
  by (auto simp: window_ok_def window_add_def split: if_splits)

lemma window_add_abs:
  assumes "window_ok sz w"
  shows "window_abs (window_add f sz w) = last_n sz (window_abs w @ [f])"
proof (cases "int (length (w_samples w)) < sz")
  case True
  with assms have "w_next w = 0" "Suc (length (w_samples w)) \<le> nat sz" by (auto simp: window_ok_def)
  with True show ?thesis by (simp add: window_add_def window_abs_def last_n_def)
next
  case False
  with assms have n: "w_next w < length (w_samples w)" "nat sz = length (w_samples w)"
    by (auto simp: window_ok_def)
  then have "rotate (w_next w) (w_samples w) \<noteq> []" by auto
  with False n show ?thesis
    by (simp add: window_add_def window_abs_def last_n_def rotate_update tl_append drop_Suc)
qed

lemma window_latest_abs:
  assumes "window_ok sz w" and "w_samples w \<noteq> []"
  shows "window_latest w = last (window_abs w)"
proof -
  let ?n = "length (w_samples w)"
  have "0 < ?n" using assms(2) by simp
  then have "last (window_abs w) = window_abs w ! (?n - 1)"
    by (simp add: window_abs_def last_conv_nth)
  also have "\<dots> = w_samples w ! ((w_next w + (?n - 1)) mod ?n)"
    using \<open>0 < ?n\<close> by (simp add: window_abs_def nth_rotate)
  finally show ?thesis using \<open>0 < ?n\<close> by (simp add: window_latest_def)
qed

section \<open>The invariant of the store\<close>

definition store_ok :: "memory_store \<Rightarrow> bool" where
  "store_ok s \<longleftrightarrow> 0 < ms_windowSize s \<and> 0 < ms_maxKeys s \<and>
     (case ms_m s of
        None \<Rightarrow> False
      | Some m \<Rightarrow> distinct (map fst m) \<and> distinct (ms_keys s) \<and> set (ms_keys s) = fst ` set m \<and>
          int (length m) \<le> ms_maxKeys s \<and> list_all (\<lambda>(k, w). window_ok (ms_windowSize s) w) m)"

lemma store_okE:
  assumes "store_ok s"
  obtains m where "ms_m s = Some m" "0 < ms_windowSize s" "0 < ms_maxKeys s" "distinct (map fst m)"
    "distinct (ms_keys s)" "set (ms_keys s) = fst ` set m" "int (length m) \<le> ms_maxKeys s"
    "\<And>k w. map_of m k = Some w \<Longrightarrow> window_ok (ms_windowSize s) w"
  using assms by (cases "ms_m s") (auto simp: store_ok_def list_all_iff dest!: map_of_SomeD)

lemma distinct_fst_length: "distinct (map fst m) \<Longrightarrow> length m = card (fst ` set m)"
  by (metis distinct_card length_map set_map)

lemma card_replace: "finite A \<Longrightarrow> a \<in> A \<Longrightarrow> card (insert b (A - {a})) \<le> card A"
  by (metis card_Suc_Diff1 card_insert_le_m1 diff_Suc_1 order_refl zero_less_Suc)

lemma store_okI:
  assumes "ms_m s = Some m" "0 < ms_windowSize s" "0 < ms_maxKeys s" "distinct (map fst m)"
    "distinct (ms_keys s)" "set (ms_keys s) = fst ` set m" "int (card (fst ` set m)) \<le> ms_maxKeys s"
    "\<And>k w. map_of m k = Some w \<Longrightarrow> window_ok (ms_windowSize s) w"
  shows "store_ok s"
  using assms by (auto simp: store_ok_def list_all_iff distinct_fst_length dest: map_of_is_SomeI)

lemma new_window_ok: "0 < sz \<Longrightarrow> window_ok sz \<lparr>w_samples = [], w_next = 0\<rparr>"
  by (simp add: window_ok_def)

lemma store_ok_new: "store_ok (NewAdaptiveMemoryStoreWithBounds sz mk factor n iv)"
  by (simp add: store_ok_def NewAdaptiveMemoryStoreWithBounds_def defaultMaxFingerprintKeys_def)

text \<open>The fingerprint that a sample evicts, and the windows of the others, are as before it.\<close>

definition evicts :: "memory_store \<Rightarrow> string \<Rightarrow> string \<Rightarrow> bool" where
  "evicts s key k \<longleftrightarrow> (case ms_m s of
     None \<Rightarrow> False
   | Some m \<Rightarrow> map_of m key = None \<and> int (length m) \<ge> ms_maxKeys s \<and> k = hd (ms_keys s))"

definition window_at :: "memory_store \<Rightarrow> string \<Rightarrow> window option" where
  "window_at s k = (case ms_m s of None \<Rightarrow> None | Some m \<Rightarrow> map_of m k)"

lemma Record_ok:
  fixes f :: feedback
  assumes "store_ok s"
  defines "s' \<equiv> snd (Record f s)"
  shows "store_ok s'" and "ms_windowSize s' = ms_windowSize s" and "ms_maxKeys s' = ms_maxKeys s"
    and "window_at s' k =
      (if k = fb_Template f
       then Some (window_add f (ms_windowSize s)
              (case window_at s k of Some w \<Rightarrow> w | None \<Rightarrow> \<lparr>w_samples = [], w_next = 0\<rparr>))
       else if evicts s (fb_Template f) k then None else window_at s k)"
proof -
  obtain m where m: "ms_m s = Some m" "0 < ms_windowSize s" "0 < ms_maxKeys s" "distinct (map fst m)"
    "distinct (ms_keys s)" "set (ms_keys s) = fst ` set m" "int (length m) \<le> ms_maxKeys s"
    "\<And>k w. map_of m k = Some w \<Longrightarrow> window_ok (ms_windowSize s) w"
    using store_okE [OF assms(1)] by metis
  let ?key = "fb_Template f" and ?w0 = "\<lparr>w_samples = [], w_next = 0\<rparr>"
  have "store_ok s' \<and> ms_windowSize s' = ms_windowSize s \<and> ms_maxKeys s' = ms_maxKeys s \<and>
    (\<forall>k. window_at s' k =
      (if k = ?key then Some (window_add f (ms_windowSize s) (case window_at s k of Some w \<Rightarrow> w | None \<Rightarrow> ?w0))
       else if evicts s ?key k then None else window_at s k))"
  proof (cases "map_of m ?key")
    case (Some w)
    then have key: "?key \<in> fst ` set m" by (metis domI dom_map_of_conv_image_fst)
    have s': "s' = s\<lparr>ms_m := Some (AList.update ?key (window_add f (ms_windowSize s) w) m)\<rparr>"
      using Some m(1) by (simp add: s'_def Record_def initialized_def window_of_def Let_def)
    have "store_ok s'"
      by (rule store_okI [of _ "AList.update ?key (window_add f (ms_windowSize s) w) m"])
        (use m key Some in \<open>auto simp: s' distinct_update dom_update insert_absorb update_conv distinct_fst_length
          window_add_ok split: if_splits\<close>)
    then show ?thesis using Some m(1) by (simp add: s' window_at_def update_conv evicts_def)
  next
    case None
    let ?full = "int (length m) \<ge> ms_maxKeys s"
    let ?m1 = "if ?full then AList.delete (hd (ms_keys s)) m else m"
      and ?keys1 = "if ?full then tl (ms_keys s) else ms_keys s"
    let ?m' = "AList.update ?key (window_add f (ms_windowSize s) ?w0) (AList.update ?key ?w0 ?m1)"
    have s': "s' = s\<lparr>ms_keys := ?keys1 @ [?key], ms_m := Some ?m'\<rparr>"
      using None m(1) by (auto simp: s'_def Record_def initialized_def window_of_def Let_def)
    have new: "?key \<notin> fst ` set m" using None by (simp add: map_of_eq_None_iff)
    have keys: "ms_keys s \<noteq> [] " if ?full using that m by (cases m) auto
    have m1: "distinct (map fst ?m1)" "fst ` set ?m1 = (if ?full then fst ` set m - {hd (ms_keys s)} else fst ` set m)"
      using m(4) by (simp_all add: delete_keys distinct_removeAll set_map [symmetric] del: set_map)
    have k1: "distinct ?keys1" "set ?keys1 = fst ` set ?m1"
      unfolding m1(2) m(6) [symmetric] using m(5) keys by (cases "ms_keys s"; force)+
    have dom': "fst ` set ?m' = insert ?key (fst ` set ?m1)" by (simp add: dom_update)
    have card: "int (card (fst ` set ?m')) \<le> ms_maxKeys s"
    proof (cases ?full)
      case True
      have "hd (ms_keys s) \<in> fst ` set m" using hd_in_set [OF keys [OF True]] by (simp only: m(6))
      then have "card (insert ?key (fst ` set m - {hd (ms_keys s)})) \<le> card (fst ` set m)"
        by (intro card_replace) simp_all
      with True m(7) show ?thesis unfolding dom' m1(2) by (simp add: distinct_fst_length [OF m(4)])
    next
      case False
      then show ?thesis unfolding dom' m1(2) using new by (simp add: distinct_fst_length [OF m(4)])
    qed
    have "store_ok s'"
    proof (rule store_okI)
      show "ms_m s' = Some ?m'" by (simp add: s')
      show "distinct (map fst ?m')" using m1(1) by (simp only: distinct_update)
      show "distinct (ms_keys s')" using k1 new m1(2) by (auto simp: s' split: if_splits)
      show "set (ms_keys s') = fst ` set ?m'" unfolding dom' k1(2) [symmetric] by (simp add: s')
      show "int (card (fst ` set ?m')) \<le> ms_maxKeys s'" using card by (simp add: s')
      show "window_ok (ms_windowSize s') w" if "map_of ?m' k = Some w" for k w
        using that m(2,8) by (auto simp: s' update_conv delete_conv' window_add_ok new_window_ok split: if_splits)
    qed (use m in \<open>simp_all add: s'\<close>)
    then show ?thesis using None m(1)
      by (simp add: s' window_at_def update_conv' evicts_def delete_conv' restrict_map_def)
  qed
  then show "store_ok s'" "ms_windowSize s' = ms_windowSize s" "ms_maxKeys s' = ms_maxKeys s"
    "window_at s' k =
      (if k = ?key then Some (window_add f (ms_windowSize s) (case window_at s k of Some w \<Rightarrow> w | None \<Rightarrow> ?w0))
       else if evicts s ?key k then None else window_at s k)" by blast+
qed

end
