(* ===== verification/Feedback_Laws.thy ===== *)
theory Feedback_Laws
  imports Feedback
begin

text \<open>
  The statistics of the feedback store are those of the last executions of the fingerprint: the run of
  \<^const>\<open>Record\<close> over any sequence of executions refines the list of them, as long as the store does not have
  to evict a fingerprint. The store stays within its bounds in any case.
\<close>

definition recorded :: "feedback list \<Rightarrow> memory_store \<Rightarrow> memory_store" where
  "recorded fs s = fold (\<lambda>f s. snd (Record f s)) fs s"

definition of_template :: "string \<Rightarrow> feedback list \<Rightarrow> feedback list" where
  "of_template k fs = filter (\<lambda>f. fb_Template f = k) fs"

text \<open>The statistics of a list of executions, the newest last.\<close>

definition summary :: "feedback list \<Rightarrow> statistics option" where
  "summary fs =
     (if fs = [] then None
      else let n = int (length fs) in
        Some \<lparr>st_Samples = n,
              st_AverageRows = tdiv (wrap64 (sum_list (map fb_ActualRows fs))) n,
              st_AverageTime = tdiv (wrap64 (sum_list (map fb_Duration fs))) n,
              st_LatestRows = fb_ActualRows (last fs),
              st_LatestTime = fb_Duration (last fs),
              st_EstimatedRows = fb_EstimatedRows (last fs)\<rparr>)"


lemma sum64_aux: "foldl (\<lambda>t x. wrap64 (t + x)) (wrap64 a) xs = wrap64 (a + sum_list xs)"
  by (induction xs arbitrary: a) (simp_all add: wrap64_add add.assoc)

lemma sum64_sum: "sum64 xs = wrap64 (sum_list xs)"
  using sum64_aux [of 0 xs] by (simp add: sum64_def wrap64_def)

lemma sum_list_rotate1: "sum_list (map f (rotate1 xs)) = (sum_list (map f xs) :: int)"
  by (cases xs) simp_all

lemma sum_list_rotate: "sum_list (map f (rotate n xs)) = (sum_list (map f xs) :: int)"
  by (induction n) (simp_all add: sum_list_rotate1)

lemma Stats_abs:
  assumes "store_ok s"
  shows "Stats s k = (case window_at s k of None \<Rightarrow> None | Some w \<Rightarrow> summary (window_abs w))"
proof -
  obtain m where m: "ms_m s = Some m" "\<And>k w. map_of m k = Some w \<Longrightarrow> window_ok (ms_windowSize s) w"
    using store_okE [OF assms] by metis
  show ?thesis
  proof (cases "map_of m k")
    case None
    with m(1) show ?thesis by (simp add: Stats_def window_at_def)
  next
    case (Some w)
    from window_latest_abs [OF m(2) [OF this]] have "w_samples w \<noteq> [] \<Longrightarrow> window_latest w = last (window_abs w)" .
    with m(1) Some show ?thesis
      by (auto simp: Stats_def window_at_def summary_def sum64_sum Let_def sum_list_rotate window_abs_def)
  qed
qed

lemma last_n_last_n: "0 < n \<Longrightarrow> last_n n (last_n n xs @ [x]) = last_n n (xs @ [x])"
  by (cases "length xs \<le> nat n") (auto simp: last_n_def Suc_diff_le)

lemma last_n_Nil [simp]: "last_n n [] = []" by (simp add: last_n_def)

lemma recorded_bounds:
  "store_ok s \<Longrightarrow> store_ok (recorded fs s) \<and> ms_windowSize (recorded fs s) = ms_windowSize s \<and>
     ms_maxKeys (recorded fs s) = ms_maxKeys s"
  by (induction fs arbitrary: s) (simp_all add: recorded_def Record_ok)

text \<open>What the store holds after the executions \<open>fs\<close>, none evicted.\<close>

definition holds :: "feedback list \<Rightarrow> memory_store \<Rightarrow> bool" where
  "holds fs s \<longleftrightarrow> store_ok s \<and>
     (\<forall>k. map_option window_abs (window_at s k) =
        (if of_template k fs = [] then None else Some (last_n (ms_windowSize s) (of_template k fs))))"

lemma of_template_Nil: "of_template k fs = [] \<longleftrightarrow> k \<notin> fb_Template ` set fs"
  by (auto simp: of_template_def filter_empty_conv)

lemma holds_length:
  assumes "holds fs s" and "ms_m s = Some m"
  shows "length m = card (fb_Template ` set fs)"
proof -
  have "k \<in> fst ` set m \<longleftrightarrow> k \<in> fb_Template ` set fs" for k
  proof -
    have "map_option window_abs (map_of m k) = None \<longleftrightarrow> of_template k fs = []"
      using assms by (simp add: holds_def window_at_def)
    then show ?thesis by (simp add: of_template_Nil map_of_eq_None_iff)
  qed
  then have "fst ` set m = fb_Template ` set fs" by blast
  moreover have "distinct (map fst m)" using assms store_okE [of s] unfolding holds_def by (metis option.inject)
  ultimately show ?thesis by (simp add: distinct_fst_length)
qed

lemma holds_Record:
  assumes "holds fs s" and "int (card (fb_Template ` set (fs @ [f]))) \<le> ms_maxKeys s"
  shows "holds (fs @ [f]) (snd (Record f s))"
proof -
  let ?ws = "ms_windowSize s"
  have ok: "store_ok s" using assms(1) by (simp add: holds_def)
  then obtain m where m: "ms_m s = Some m" "0 < ?ws" "\<And>k w. map_of m k = Some w \<Longrightarrow> window_ok ?ws w"
    using store_okE by metis
  have stays: "\<not> evicts s (fb_Template f) k" for k
  proof
    assume ev: "evicts s (fb_Template f) k"
    then have "fb_Template f \<notin> fb_Template ` set fs"
      using assms(1) m(1) by (simp add: holds_def evicts_def window_at_def of_template_Nil split: if_splits)
        (metis option.distinct(1) option.map_disc_iff)
    then show False using ev assms(2) holds_length [OF assms(1) m(1)] m(1) by (simp add: evicts_def)
  qed
  have "map_option window_abs (window_at (snd (Record f s)) k) =
    (if of_template k (fs @ [f]) = [] then None else Some (last_n ?ws (of_template k (fs @ [f]))))" for k
  proof (cases "k = fb_Template f")
    case False
    then show ?thesis using assms(1) by (simp add: Record_ok(4) [OF ok] stays holds_def of_template_def)
  next
    case True
    have abs: "map_option window_abs (window_at s k) = (if of_template k fs = [] then None else Some (last_n ?ws (of_template k fs)))"
      using assms(1) by (simp add: holds_def)
    show ?thesis
    proof (cases "window_at s k")
      case None
      then have "of_template k fs = []" using abs by (simp split: if_splits)
      then show ?thesis using True None m(2)
        by (simp add: Record_ok(4) [OF ok] of_template_def window_add_abs new_window_ok) (simp add: window_abs_def)
    next
      case (Some w)
      then have "window_ok ?ws w" using m by (simp add: window_at_def)
      then show ?thesis using True Some abs m(2)
        by (simp add: Record_ok(4) [OF ok] of_template_def window_add_abs last_n_last_n split: if_splits)
    qed
  qed
  then show ?thesis by (simp add: holds_def Record_ok [OF ok])
qed

lemma holds_recorded:
  assumes "holds [] s" and "int (card (fb_Template ` set fs)) \<le> ms_maxKeys s"
  shows "holds fs (recorded fs s)"
  using assms(2)
proof (induction fs rule: rev_induct)
  case Nil
  then show ?case using assms(1) by (simp add: recorded_def)
next
  case (snoc f fs)
  have "card (fb_Template ` set fs) \<le> card (fb_Template ` set (fs @ [f]))" by (rule card_mono) auto
  with snoc have "holds fs (recorded fs s)" by simp
  moreover have "store_ok s" using assms(1) by (simp add: holds_def)
  ultimately show ?case using holds_Record [of fs "recorded fs s" f] snoc.prems
    by (simp add: recorded_def recorded_bounds [unfolded recorded_def])
qed

lemma holds_new: "holds [] (NewAdaptiveMemoryStoreWithBounds sz mk factor n iv)"
  by (simp add: holds_def store_ok_new of_template_def window_at_def) (simp add: NewAdaptiveMemoryStoreWithBounds_def)

section \<open>Properties\<close>

text \<open>
  As long as the executions recorded are of no more fingerprints than the store may keep, the
  statistics of a fingerprint are those of its last executions, as many as the window holds.
\<close>

theorem Stats_refines_history:
  assumes "0 < sz" and "0 < mk" and "int (card (fb_Template ` set fs)) \<le> mk"
  shows "Stats (recorded fs (NewAdaptiveMemoryStoreWithBounds sz mk factor n iv)) k =
    summary (last_n sz (of_template k fs))"
proof -
  let ?s0 = "NewAdaptiveMemoryStoreWithBounds sz mk factor n iv"
  have b: "ms_windowSize ?s0 = sz" "ms_maxKeys ?s0 = mk"
    using assms by (simp_all add: NewAdaptiveMemoryStoreWithBounds_def)
  then have h: "holds fs (recorded fs ?s0)" using holds_recorded [OF holds_new] assms(3) by simp
  then have "map_option window_abs (window_at (recorded fs ?s0) k) =
      (if of_template k fs = [] then None else Some (last_n sz (of_template k fs)))"
    using recorded_bounds [OF store_ok_new] b by (simp add: holds_def)
  then show ?thesis using Stats_abs [of "recorded fs ?s0" k] h
    by (auto simp: holds_def summary_def split: option.splits if_splits)
qed

definition ex_runs :: "feedback list" where
  "ex_runs = [\<lparr>fb_Template = ''q'', fb_EstimatedRows = 1, fb_ActualRows = 10, fb_Duration = 5\<rparr>,
     \<lparr>fb_Template = ''r'', fb_EstimatedRows = 1, fb_ActualRows = 7, fb_Duration = 1\<rparr>,
     \<lparr>fb_Template = ''q'', fb_EstimatedRows = 2, fb_ActualRows = 20, fb_Duration = 5\<rparr>,
     \<lparr>fb_Template = ''q'', fb_EstimatedRows = 3, fb_ActualRows = 40, fb_Duration = 7\<rparr>]"

theorem Stats_refines_history_witness:
  "map_option st_AverageRows (Stats (recorded ex_runs (NewAdaptiveMemoryStoreWithBounds 2 2 3 5 False)) ''q'') = Some 30"
  by (subst Stats_refines_history)
    (simp_all add: ex_runs_def of_template_def last_n_def summary_def tdiv_def wrap64_def card_insert_if)

end
