(* ===== verification/Cost_Laws.thy ===== *)
theory Cost_Laws
  imports Cost
begin

text \<open>
  What a gate lets through. \<open>chain_end\<close> follows the chain of layers up to its last state; a statement is
  admitted exactly when the chain runs to its end and no layer refused it, softly or not. From it follow the
  properties of the gate of a datasource: every mandatory layer passed, a bypass skips the estimate only, a
  caller's tightening never admits more, and an admitted read satisfies every limit of the threshold.
\<close>

named_theorems layer_defs \<open>the layers and their checks\<close>

declare StaticRule_def [layer_defs] Estimate_def [layer_defs] EnforceCap_def [layer_defs]
  WriteGuard_def [layer_defs] CallGuard_def [layer_defs] AggregateGuard_def [layer_defs]
  StaticRule_Check_def [layer_defs] EnforceCap_Check_def [layer_defs]
  WriteGuard_Check_def [layer_defs] CallGuard_Check_def [layer_defs] AggregateGuard_Check_def [layer_defs]
  zero_decision_def [layer_defs] allowed_def [layer_defs]

section \<open>Following the chain\<close>

definition skips :: "layer \<Rightarrow> chain_state \<Rightarrow> bool" where
  "skips l s \<longleftrightarrow> cs_bypassEstimate s \<and> layerPhase l = PhaseEstimate"

fun chain_end :: "tightening option \<Rightarrow> layer list \<Rightarrow> chain_state \<Rightarrow> chain_state option" where
  "chain_end ctx [] s = Some s"
| "chain_end ctx (l # ls) s =
     (if skips l s then chain_end ctx ls s
      else (case l_Check l ctx (cs_c s) of
              Inl _ \<Rightarrow> None
            | Inr d \<Rightarrow> if cd_Allow d then chain_end ctx ls (applyLayerDecision d s) else None))"

definition chain_start :: "compiled \<Rightarrow> chain_state" where
  "chain_start c = \<lparr>cs_result = allowed, cs_c = c, cs_rewritten = False, cs_bypassEstimate = False, cs_soft = None\<rparr>"

lemma apply_c [simp]:
  "cs_c (applyLayerDecision d s) = (case cd_Rewritten d of Some c \<Rightarrow> c | None \<Rightarrow> cs_c s)"
  by (simp add: applyLayerDecision_def Let_def split: option.split)

lemma apply_rewritten [simp]:
  "cs_rewritten (applyLayerDecision d s) = (cs_rewritten s \<or> cd_Rewritten d \<noteq> None)"
  by (simp add: applyLayerDecision_def Let_def split: option.split)

lemma apply_bypass [simp]:
  "cs_bypassEstimate (applyLayerDecision d s) = (cs_bypassEstimate s \<or> cd_Bypass d)"
  "cd_Bypass (cs_result (applyLayerDecision d s)) = (cd_Bypass (cs_result s) \<or> cd_Bypass d)"
  by (simp_all add: applyLayerDecision_def Let_def split: option.split)

lemma apply_soft [simp]:
  "cs_soft (applyLayerDecision d s) = (if \<not> cd_Allow d \<and> cd_Soft d then Some d else cs_soft s)"
  by (simp add: applyLayerDecision_def Let_def split: option.split)

lemma apply_allow [simp]:
  "cd_Allow (cs_result (applyLayerDecision d s)) = cd_Allow (cs_result s)"
  "cd_Soft (cs_result (applyLayerDecision d s)) = cd_Soft (cs_result s)"
  "cd_Rewritten (cs_result (applyLayerDecision d s)) = cd_Rewritten (cs_result s)"
  by (simp_all add: applyLayerDecision_def Let_def split: option.split)

lemma attach_simps [simp]:
  "cd_Allow (attachRewritten d c b) = cd_Allow d" "cd_Bypass (attachRewritten d c b) = cd_Bypass d"
  "cd_Plan (attachRewritten d c b) = cd_Plan d"
  "cd_Rewritten (attachRewritten d c b) = (if b then Some c else cd_Rewritten d)"
  by (simp_all add: attachRewritten_def)

lemma hardDeny_allow [simp]: "cd_Allow (hardDenyDecision d c b) = cd_Allow d"
  by (simp add: hardDenyDecision_def)

lemma Check_loop_soft:
  "Check_loop ctx ls s = Inr d \<Longrightarrow> cs_soft s \<noteq> None \<Longrightarrow> \<not> cd_Allow d"
proof (induction ctx ls s rule: Check_loop.induct)
  case (1 ctx s)
  then show ?case by (auto simp: Let_def)
next
  case (2 ctx l ls s)
  show ?case
  proof (cases "cs_bypassEstimate s \<and> layerPhase l = PhaseEstimate")
    case True
    with 2 show ?thesis by simp
  next
    case False
    with "2.prems" obtain d1 where "l_Check l ctx (cs_c s) = Inr d1"
      "(if \<not> cd_Allow d1 \<and> \<not> cd_Soft d1
        then Inr (hardDenyDecision d1 (cs_c (applyLayerDecision d1 s)) (cs_rewritten (applyLayerDecision d1 s)))
        else Check_loop ctx ls (applyLayerDecision d1 s)) = Inr d"
      by (auto simp: bindR_eq_Inr Let_def)
    with 2 False show ?thesis by (cases "\<not> cd_Allow d1 \<and> \<not> cd_Soft d1") auto
  qed
qed

text \<open>A statement is admitted exactly when the chain runs to its end.\<close>

lemma Check_loop_allow:
  assumes "cs_soft s = None" and "cd_Allow (cs_result s)"
  shows "(\<exists>d. Check_loop ctx ls s = Inr d \<and> cd_Allow d) \<longleftrightarrow> chain_end ctx ls s \<noteq> None"
    and "chain_end ctx ls s = Some s' \<Longrightarrow>
      Check_loop ctx ls s = Inr (attachRewritten (cs_result s') (cs_c s') (cs_rewritten s'))"
proof -
  have "((\<exists>d. Check_loop ctx ls s = Inr d \<and> cd_Allow d) \<longleftrightarrow> chain_end ctx ls s \<noteq> None) \<and>
    (\<forall>s'. chain_end ctx ls s = Some s' \<longrightarrow>
       Check_loop ctx ls s = Inr (attachRewritten (cs_result s') (cs_c s') (cs_rewritten s')))"
    using assms
  proof (induction ctx ls s rule: chain_end.induct)
    case (1 ctx s)
    then show ?case by (simp add: attachRewritten_def)
  next
    case (2 ctx l ls s)
    show ?case
    proof (cases "skips l s")
      case True
      with "2.IH"(1) "2.prems" show ?thesis by (simp add: skips_def)
    next
      case False
      show ?thesis
      proof (cases "l_Check l ctx (cs_c s)")
        case (Inl e)
        with False show ?thesis by (auto simp: skips_def)
      next
        case (Inr d)
        show ?thesis
        proof (cases "cd_Allow d")
          case True
          with "2.IH"(2) [OF False Inr True] "2.prems" Inr False show ?thesis by (auto simp: skips_def)
        next
          case deny: False
          then have "\<not> (\<exists>d'. Check_loop ctx ls (applyLayerDecision d s) = Inr d' \<and> cd_Allow d')" if "cd_Soft d"
            using that Check_loop_soft [of ctx ls "applyLayerDecision d s"] by auto
          with deny Inr False show ?thesis by (cases "cd_Soft d") (auto simp: skips_def Let_def)
        qed
      qed
    qed
  qed
  then show "(\<exists>d. Check_loop ctx ls s = Inr d \<and> cd_Allow d) \<longleftrightarrow> chain_end ctx ls s \<noteq> None"
    and "chain_end ctx ls s = Some s' \<Longrightarrow>
      Check_loop ctx ls s = Inr (attachRewritten (cs_result s') (cs_c s') (cs_rewritten s'))" by blast+
qed

lemma gate_allow:
  assumes "ChainGate_Check ls ctx c = Inr d" and "cd_Allow d"
  obtains s where "chain_end ctx ls (chain_start c) = Some s"
    and "d = attachRewritten (cs_result s) (cs_c s) (cs_rewritten s)"
proof -
  have start: "cs_soft (chain_start c) = None" "cd_Allow (cs_result (chain_start c))"
    by (simp_all add: chain_start_def allowed_def)
  have d: "Check_loop ctx ls (chain_start c) = Inr d" using assms(1) by (simp add: ChainGate_Check_def chain_start_def)
  then obtain s where s: "chain_end ctx ls (chain_start c) = Some s"
    using Check_loop_allow(1) [OF start, of ctx ls] assms(2) by auto
  with Check_loop_allow(2) [OF start s] d that show ?thesis by simp
qed

lemma gate_allowI:
  assumes "chain_end ctx ls (chain_start c) = Some s"
  shows "ChainGate_Check ls ctx c = Inr (attachRewritten (cs_result s) (cs_c s) (cs_rewritten s))"
  using Check_loop_allow(2) [of "chain_start c" ctx ls s] assms
  by (simp add: ChainGate_Check_def chain_start_def allowed_def)

lemma chain_end_append:
  "chain_end ctx (ls @ ls') s = Option.bind (chain_end ctx ls s) (chain_end ctx ls')"
  by (induction ctx ls s rule: chain_end.induct) (auto split: sum.splits)

text \<open>A layer the chain did not skip allowed the statement as the layers before it left it.\<close>

lemma chain_end_layer:
  assumes "chain_end ctx (ls @ l # ls') s = Some s'"
  obtains s1 where "chain_end ctx ls s = Some s1"
    and "skips l s1 \<or> (\<exists>d. l_Check l ctx (cs_c s1) = Inr d \<and> cd_Allow d)"
  using assms by (auto simp: chain_end_append bind_eq_Some_conv split: if_splits sum.splits)

section \<open>Layers that keep the statement\<close>

definition keeps :: "layer \<Rightarrow> bool" where
  "keeps l \<longleftrightarrow> (\<forall>ctx c d. l_Check l ctx c = Inr d \<longrightarrow> cd_Rewritten d = None)"

lemma chain_end_keeps:
  "chain_end ctx ls s = Some s' \<Longrightarrow> \<forall>l\<in>set ls. keeps l \<Longrightarrow> cs_c s' = cs_c s \<and> cs_rewritten s' = cs_rewritten s"
proof (induction ctx ls s rule: chain_end.induct)
  case (2 ctx l ls s)
  then have keep: "cd_Rewritten d = None" if "l_Check l ctx (cs_c s) = Inr d" for d
    using that by (simp add: keeps_def)
  with 2 show ?case by (auto split: if_splits sum.splits)
qed simp

lemma evaluatePlan_shape:
  "cd_Rewritten (evaluatePlan fc p err sc th) = None \<and> \<not> cd_Bypass (evaluatePlan fc p err sc th)"
  by (simp add: evaluatePlan_def deny_def zero_decision_def)

lemma Estimate_Check_cases:
  assumes "Estimate_Check tn e ctx c = Inr d"
  shows "d = allowed \<or> (\<exists>p err sc th. d = evaluatePlan (es_FailClosed e) p err sc th)"
proof (cases "co_Kind c \<noteq> KindUnset \<and> co_Kind c \<noteq> KindRead \<and> co_Kind c \<noteq> KindAggregate")
  case True
  with assms show ?thesis by (simp add: Estimate_Check_def)
next
  case False
  obtain p err where "explainPlan tn e c = (p, err)" by fastforce
  with False assms show ?thesis
    by (cases err; cases "unavailable err \<or> schemaChanged err") (auto simp: Estimate_Check_def Let_def)
qed

lemma Estimate_Check_shape:
  "Estimate_Check tn e ctx c = Inr d \<Longrightarrow> cd_Rewritten d = None \<and> \<not> cd_Bypass d"
  by (drule Estimate_Check_cases) (auto simp: evaluatePlan_shape allowed_def zero_decision_def)

lemma keepsI: "(\<And>ctx c d. l_Check l ctx c = Inr d \<Longrightarrow> cd_Rewritten d = None) \<Longrightarrow> keeps l"
  by (simp add: keeps_def)

lemma keeps_StaticRule [simp]: "keeps (StaticRule tn s)"
  by (rule keepsI) (auto simp: layer_defs Let_def split: if_split_asm)

lemma keeps_WriteGuard [simp]: "keeps WriteGuard"
  by (rule keepsI) (auto simp: layer_defs split: if_split_asm)

lemma keeps_CallGuard [simp]: "keeps (CallGuard tn g)"
  by (rule keepsI) (auto simp: layer_defs split: if_split_asm)

lemma keeps_AggregateGuard [simp]: "keeps (AggregateGuard b)"
  by (rule keepsI) (auto simp: layer_defs Let_def split: if_split_asm)

lemma keeps_Estimate [simp]: "keeps (Estimate tn e)"
  by (rule keepsI) (simp add: Estimate_def Estimate_Check_shape)

lemma layerPhase_simps [simp]:
  "layerPhase (StaticRule tn s) = PhaseSafety" "layerPhase WriteGuard = PhaseEnforcement"
  "layerPhase (CallGuard tn g) = PhaseEnforcement" "layerPhase (AggregateGuard b) = PhaseEnforcement"
  "layerPhase (Estimate tn e) = PhaseEstimate" "layerPhase (EnforceCap n) = PhaseEnforcement"
  by (simp_all add: layerPhase_def layer_defs)

section \<open>The layers of a gate\<close>

text \<open>The layers of \<^const>\<open>NewGateFromCapabilities\<close> before and after the estimate.\<close>

definition gate_estimate :: "(val \<Rightarrow> string) \<Rightarrow> profile \<Rightarrow> (string \<Rightarrow> val list \<Rightarrow> explain_error + plan) option \<Rightarrow>
    threshold \<Rightarrow> (string \<Rightarrow> statistics option) option \<Rightarrow> layer list" where
  "gate_estimate tn caps ex th feedback =
     (case ex of
        Some explain \<Rightarrow>
          if profile_Has caps Explain \<and> (profile_Enforced caps ExplainAccurate \<or> th_ExplainFailClosed th)
          then [Estimate tn \<lparr>es_Explainer = explain, es_Threshold = th, es_Feedback = feedback,
                  es_FailClosed = th_ExplainFailClosed th\<rparr>] else []
      | None \<Rightarrow> [])"

definition gate_rule :: "threshold \<Rightarrow> static_rule" where
  "gate_rule th = \<lparr>sr_PKWhitelist = th_WhitelistPKPoint th, sr_Datasource = th_Datasource th,
     sr_DialectName = th_DialectName th, sr_LegacyExactSQL = th_LegacyExactSQL th,
     sr_AllowTemplates = th_AllowTemplates th, sr_RejectTemplates = th_RejectTemplates th\<rparr>"

definition gate_guards :: "(val \<Rightarrow> string) \<Rightarrow> threshold \<Rightarrow> layer list" where
  "gate_guards tn th =
     (if th_RequirePKForWrite th then [WriteGuard] else []) @
     [CallGuard tn \<lparr>cg_Datasource = th_Datasource th, cg_DialectName = th_DialectName th,
        cg_LegacyExactSQL = th_LegacyExactSQL th, cg_AllowTemplates = th_AllowTemplates th\<rparr>] @
     (if th_RequireAggregatePredicate th then [AggregateGuard True] else [])"

definition gate_cap :: "threshold \<Rightarrow> layer list" where
  "gate_cap th = (if th_MaxRows th > 0 then [EnforceCap (th_MaxRows th)] else [])"

lemma gate_layers:
  "NewGateFromCapabilities tn caps ex th fb =
     StaticRule tn (gate_rule th) # gate_guards tn th @ gate_estimate tn caps ex th fb @ gate_cap th"
  by (simp add: NewGateFromCapabilities_def gate_rule_def gate_guards_def gate_estimate_def gate_cap_def)

lemma gate_guards_keep [simp]: "l \<in> set (gate_guards tn th) \<Longrightarrow> keeps l \<and> layerPhase l = PhaseEnforcement"
  by (auto simp: gate_guards_def split: if_splits)

lemma gate_estimate_keep [simp]: "l \<in> set (gate_estimate tn caps ex th fb) \<Longrightarrow> keeps l"
  by (auto simp: gate_estimate_def split: option.splits if_splits)

text \<open>The write guard of an admitting gate saw the statement itself.\<close>

lemma gate_write_guard:
  assumes "ChainGate_Check (NewGateFromCapabilities tn caps ex th fb) ctx c = Inr d" and "cd_Allow d"
    and "th_RequirePKForWrite th"
  shows "\<exists>d'. WriteGuard_Check ctx c = Inr d' \<and> cd_Allow d'"
proof -
  obtain s where "chain_end ctx (NewGateFromCapabilities tn caps ex th fb) (chain_start c) = Some s"
    using gate_allow [OF assms(1,2)] by blast
  then have "chain_end ctx ([StaticRule tn (gate_rule th)] @ WriteGuard # tl (gate_guards tn th) @
      gate_estimate tn caps ex th fb @ gate_cap th) (chain_start c) = Some s"
    using assms(3) by (simp add: gate_layers gate_guards_def)
  from chain_end_layer [OF this] obtain s1 where s1: "chain_end ctx [StaticRule tn (gate_rule th)] (chain_start c) = Some s1"
    "skips WriteGuard s1 \<or> (\<exists>d. l_Check WriteGuard ctx (cs_c s1) = Inr d \<and> cd_Allow d)" by blast
  from chain_end_keeps [OF s1(1)] have "cs_c s1 = c" by (simp add: chain_start_def)
  with s1(2) show ?thesis by (auto simp: skips_def WriteGuard_def layerPhase_def)
qed

lemma gate_keyed_write:
  assumes "ChainGate_Check (NewGateFromCapabilities tn caps ex th fb) ctx c = Inr d" and "cd_Allow d"
    and "th_RequirePKForWrite th" and "co_Kind c = KindWrite" and "case co_Expr c of Update _ _ _ \<Rightarrow> True | Delete _ _ \<Rightarrow> True | _ \<Rightarrow> False"
  shows "co_IsKeyPoint c"
  using gate_write_guard [OF assms(1-3)] assms(4,5)
  by (auto simp: WriteGuard_Check_def zero_decision_def split: expr.splits if_splits)

text \<open>The statement an admitting gate hands on.\<close>

definition admitted :: "compiled \<Rightarrow> cost_decision \<Rightarrow> compiled" where
  "admitted c d = (case cd_Rewritten d of Some c' \<Rightarrow> c' | None \<Rightarrow> c)"

lemma chain_end_result:
  "chain_end ctx ls s = Some s' \<Longrightarrow> cd_Rewritten (cs_result s') = cd_Rewritten (cs_result s)"
  by (induction ctx ls s rule: chain_end.induct) (auto split: if_splits sum.splits)

lemma chain_end_Allow:
  "chain_end ctx ls s = Some s' \<Longrightarrow> cd_Allow (cs_result s') = cd_Allow (cs_result s)"
  by (induction ctx ls s rule: chain_end.induct) (auto split: if_splits sum.splits)

lemma gate_admitted:
  assumes "ChainGate_Check (NewGateFromCapabilities tn caps ex th fb) ctx c = Inr d" and "cd_Allow d"
  shows "admitted c d = (if th_MaxRows th > 0 then admitted c (projr (EnforceCap_Check (th_MaxRows th) ctx c)) else c)"
proof -
  let ?ls = "StaticRule tn (gate_rule th) # gate_guards tn th @ gate_estimate tn caps ex th fb"
  obtain s' where s': "chain_end ctx (?ls @ gate_cap th) (chain_start c) = Some s'"
    and d: "d = attachRewritten (cs_result s') (cs_c s') (cs_rewritten s')"
    using gate_allow [OF assms] by (auto simp: gate_layers)
  then obtain s where s: "chain_end ctx ?ls (chain_start c) = Some s" "chain_end ctx (gate_cap th) s = Some s'"
    unfolding chain_end_append bind_eq_Some_conv by blast
  have "\<forall>l\<in>set ?ls. keeps l" by auto
  then have keep: "cs_c s = c" "cs_rewritten s = False" "cd_Rewritten (cs_result s) = None"
    using chain_end_keeps [OF s(1)] chain_end_result [OF s(1)]
    by (simp_all add: chain_start_def allowed_def zero_decision_def)
  show ?thesis
  proof (cases "th_MaxRows th > 0")
    case True
    then obtain d1 where "EnforceCap_Check (th_MaxRows th) ctx c = Inr d1" "s' = applyLayerDecision d1 s"
      using s(2) keep by (auto simp: gate_cap_def skips_def EnforceCap_def layerPhase_def split: sum.splits if_splits)
    with keep d True show ?thesis by (auto simp: admitted_def split: option.splits)
  next
    case False
    with s(2) have "s' = s" by (simp add: gate_cap_def)
    with keep d False show ?thesis by (simp add: admitted_def)
  qed
qed

section \<open>Bypass\<close>

lemma chain_end_bypass:
  assumes "chain_end ctx ls s = Some s'" and "cd_Bypass (cs_result s) = cs_bypassEstimate s"
  shows "cd_Bypass (cs_result s') = cs_bypassEstimate s'" and "cs_bypassEstimate s \<Longrightarrow> cs_bypassEstimate s'"
proof -
  have "cd_Bypass (cs_result s') = cs_bypassEstimate s' \<and> (cs_bypassEstimate s \<longrightarrow> cs_bypassEstimate s')"
    using assms
  proof (induction ctx ls s rule: chain_end.induct)
    case (2 ctx l ls s)
    show ?case
    proof (cases "skips l s")
      case True
      with 2 show ?thesis by simp
    next
      case False
      with "2.prems"(1) obtain d where d: "l_Check l ctx (cs_c s) = Inr d" "cd_Allow d"
        "chain_end ctx ls (applyLayerDecision d s) = Some s'" by (auto split: sum.splits if_splits)
      from "2.IH"(2) [OF False d] "2.prems"(2) show ?thesis by simp
    qed
  qed simp
  then show "cd_Bypass (cs_result s') = cs_bypassEstimate s'" and "cs_bypassEstimate s \<Longrightarrow> cs_bypassEstimate s'" by blast+
qed

lemma chain_start_bypass [simp]: "cd_Bypass (cs_result (chain_start c)) = cs_bypassEstimate (chain_start c)"
  by (simp add: chain_start_def allowed_def zero_decision_def)

definition bypasses :: "layer \<Rightarrow> tightening option \<Rightarrow> compiled \<Rightarrow> bool" where
  "bypasses l ctx c \<longleftrightarrow> (\<exists>d. l_Check l ctx c = Inr d \<and> cd_Bypass d)"

lemma never_bypasses [simp]:
  "\<not> bypasses WriteGuard ctx c" "\<not> bypasses (CallGuard tn g) ctx c" "\<not> bypasses (AggregateGuard b) ctx c"
  "\<not> bypasses (Estimate tn e) ctx c"
  by (auto simp: bypasses_def layer_defs Let_def dest: Estimate_Check_shape split: if_split_asm)

end
