(* ===== verification/Cost_Props.thy ===== *)
theory Cost_Props
  imports Cost_Laws
begin

text \<open>
  The properties of the cost gate: the scale of the scores, what a read that passed the gate satisfies, and
  that a caller's own limits only ever tighten it.
\<close>

section \<open>Scores\<close>

lemma ScorePlan_Value:
  "sc_Value (ScorePlan p) =
     max 0 ((case p_ScanType p of ScanPoint \<Rightarrow> 100 | ScanIndex \<Rightarrow> 85 | ScanSeq \<Rightarrow> 60 | ScanFull \<Rightarrow> 20 | _ \<Rightarrow> 50) -
       (if p_HasSort p then 5 else 0) - (if p_HasTempTable p then 10 else 0) -
       (if p_StatsFresh p then 0 else 15) - rowPenalty (p_EstimatedRows p))"
  by (cases "p_ScanType p") (auto simp: ScorePlan_def Let_def rowPenalty_def)

lemma ScorePlan_bounds: "0 \<le> sc_Value (ScorePlan p)" "sc_Value (ScorePlan p) \<le> 100"
  by (auto simp: ScorePlan_Value rowPenalty_def split: scan_type.split)

text \<open>\<open>riskier q p\<close>: the plan \<open>q\<close> is at least as risky as \<open>p\<close> in every factor.\<close>

definition riskier :: "plan \<Rightarrow> plan \<Rightarrow> bool" where
  "riskier q p \<longleftrightarrow> risk (p_ScanType p) \<le> risk (p_ScanType q) \<and> (p_HasSort p \<le> p_HasSort q) \<and>
     (p_HasTempTable p \<le> p_HasTempTable q) \<and> (p_StatsFresh q \<le> p_StatsFresh p) \<and>
     p_EstimatedRows p \<le> p_EstimatedRows q"

lemma scan_score_risk:
  "risk a \<le> risk b \<Longrightarrow>
    (case b of ScanPoint \<Rightarrow> 100 | ScanIndex \<Rightarrow> 85 | ScanSeq \<Rightarrow> 60 | ScanFull \<Rightarrow> 20 | _ \<Rightarrow> 50) \<le>
    (case a of ScanPoint \<Rightarrow> 100 | ScanIndex \<Rightarrow> 85 | ScanSeq \<Rightarrow> 60 | ScanFull \<Rightarrow> 20 | _ \<Rightarrow> (50::int))"
  by (cases a; cases b) simp_all

lemma rowPenalty_mono: "r \<le> r' \<Longrightarrow> rowPenalty r \<le> rowPenalty r'"
  by (simp add: rowPenalty_def)

lemma if_mono: "(b \<Longrightarrow> b') \<Longrightarrow> 0 \<le> x \<Longrightarrow> (if b then x else 0) \<le> (if b' then x else (0::int))"
  by auto

text \<open>
  The score of a plan is on the scale of 0 to 100 and falls with risk: a plan that is at least as
  risky in its scan, its sort, its temporary table, its statistics and its row estimate has no higher score.
\<close>

theorem ScorePlan_antitone:
  "0 \<le> sc_Value (ScorePlan p) \<and> sc_Value (ScorePlan p) \<le> 100 \<and>
   (riskier q p \<longrightarrow> sc_Value (ScorePlan q) \<le> sc_Value (ScorePlan p))"
proof -
  have "sc_Value (ScorePlan q) \<le> sc_Value (ScorePlan p)" if r: "riskier q p"
  proof -
    have "(if p_HasSort p then 5 else 0) \<le> (if p_HasSort q then 5 else (0::int))"
      and "(if p_HasTempTable p then 10 else 0) \<le> (if p_HasTempTable q then 10 else (0::int))"
      and "(if p_StatsFresh p then 0 else 15) \<le> (if p_StatsFresh q then 0 else (15::int))"
      and "rowPenalty (p_EstimatedRows p) \<le> rowPenalty (p_EstimatedRows q)"
      using r by (auto simp: riskier_def intro: rowPenalty_mono)
    moreover note scan_score_risk [of "p_ScanType p" "p_ScanType q"]
    ultimately show ?thesis using r unfolding ScorePlan_Value riskier_def by linarith
  qed
  then show ?thesis by (simp add: ScorePlan_bounds)
qed

section \<open>Tightening\<close>

lemma Tighten_simps [simp]:
  "th_SoftScore (Tighten th t) = max (th_SoftScore th) (ti_SoftScore t)"
  "th_HardScore (Tighten th t) = max (th_HardScore th) (ti_HardScore t)"
  "th_RejectFullScan (Tighten th t) = (th_RejectFullScan th \<or> ti_RejectFullScan t)"
  "th_MaxScannedRows (Tighten th t) =
     (if ti_MaxScannedRows t > 0 \<and> (th_MaxScannedRows th \<le> 0 \<or> ti_MaxScannedRows t < th_MaxScannedRows th)
      then ti_MaxScannedRows t else th_MaxScannedRows th)"
  "th_FullScanMaxRows (Tighten th t) = th_FullScanMaxRows th"
  "th_RequireKnownScan (Tighten th t) = th_RequireKnownScan th"
  "th_RequireFreshStats (Tighten th t) = th_RequireFreshStats th"
  by (auto simp: Tighten_def Let_def)

lemma smallTable_Tighten [simp]: "smallTable p (Tighten th t) = smallTable p th"
  by (simp add: smallTable_def)

lemma OverScanLimit_not: "\<not> OverScanLimit p n \<longleftrightarrow> n \<le> 0 \<or> snd (ScannedRowsKnown p) \<and> ScannedRows p \<le> n"
  by (auto simp: OverScanLimit_def ScannedRows_def split_beta Let_def)

text \<open>The stricter of two tightenings.\<close>

definition stricter :: "tightening \<Rightarrow> tightening \<Rightarrow> bool" where
  "stricter t' t \<longleftrightarrow> ti_SoftScore t \<le> ti_SoftScore t' \<and> ti_HardScore t \<le> ti_HardScore t' \<and>
     (ti_RejectFullScan t \<longrightarrow> ti_RejectFullScan t') \<and>
     (0 < ti_MaxScannedRows t \<longrightarrow> 0 < ti_MaxScannedRows t' \<and> ti_MaxScannedRows t' \<le> ti_MaxScannedRows t)"

text \<open>The plan passes every test of \<^const>\<open>evaluatePlan\<close>.\<close>

lemma evaluatePlan_Allow:
  "cd_Allow (evaluatePlan fc p err (ScorePlan p) th) \<longleftrightarrow>
     (fc \<longrightarrow> err = None \<and> p_ScanType p \<noteq> ScanUnknown) \<and>
     (p_ScanType p = ScanFull \<longrightarrow> \<not> th_RejectFullScan th) \<and>
     \<not> OverScanLimit p (th_MaxScannedRows th) \<and>
     (p_ScanType p = ScanUnknown \<longrightarrow> \<not> th_RequireKnownScan th) \<and>
     (th_RequireFreshStats th \<longrightarrow> p_StatsFresh p) \<and>
     th_HardScore th \<le> sc_Value (ScorePlan p) \<and> th_SoftScore th \<le> sc_Value (ScorePlan p)"
  using ScorePlan_bounds(1) [of p] by (auto simp: evaluatePlan_def deny_def zero_decision_def)

lemma evaluatePlan_Plan [simp]: "cd_Plan (evaluatePlan fc p err sc th) = Some p"
  by (simp add: evaluatePlan_def deny_def zero_decision_def)

lemma OverScanLimit_Tighten:
  "\<not> OverScanLimit p (th_MaxScannedRows (Tighten th t)) \<longleftrightarrow>
     \<not> OverScanLimit p (th_MaxScannedRows th) \<and> \<not> OverScanLimit p (ti_MaxScannedRows t)"
  by (auto simp: OverScanLimit_not)

lemma OverScanLimit_stricter:
  "stricter t' t \<Longrightarrow> \<not> OverScanLimit p (ti_MaxScannedRows t') \<Longrightarrow> \<not> OverScanLimit p (ti_MaxScannedRows t)"
  by (auto simp: OverScanLimit_not stricter_def)

lemma evaluatePlan_stricter:
  assumes "stricter t' t" and "cd_Allow (evaluatePlan fc p err (ScorePlan p) (Tighten th t'))"
  shows "cd_Allow (evaluatePlan fc p err (ScorePlan p) (Tighten th t))"
  using assms OverScanLimit_stricter [OF assms(1)]
  unfolding evaluatePlan_Allow OverScanLimit_Tighten by (auto simp: stricter_def)

lemma Estimate_Check_read:
  fixes e :: estimate and tn :: "val \<Rightarrow> string"
  assumes "co_Kind c = KindRead \<or> co_Kind c = KindAggregate \<or> co_Kind c = KindUnset"
  defines "p \<equiv> smallTable (fst (explainPlan tn e c)) (es_Threshold e)" and "err \<equiv> snd (explainPlan tn e c)"
  shows "Estimate_Check tn e ctx c =
    (if unavailable err \<or> schemaChanged err then Inl (the err)
     else Inr (evaluatePlan (es_FailClosed e) p err (ScorePlan p) (Tighten (es_Threshold e) (tighteningOf ctx))))"
  using assms(1) unfolding p_def err_def
  by (cases "snd (explainPlan tn e c)")
    (auto simp: Estimate_Check_def Let_def split_beta unavailable_def schemaChanged_def)

text \<open>What one layer does under a looser context when it admits a statement under a stricter one.\<close>

definition loosens :: "tightening option \<Rightarrow> tightening option \<Rightarrow> layer \<Rightarrow> bool" where
  "loosens ctx' ctx l \<longleftrightarrow> (\<forall>c d'. l_Check l ctx' c = Inr d' \<longrightarrow> cd_Allow d' \<longrightarrow>
     (\<exists>d. l_Check l ctx c = Inr d \<and> cd_Allow d \<and> cd_Rewritten d = cd_Rewritten d' \<and> cd_Bypass d = cd_Bypass d'))"

lemma loosens_layers [simp]:
  "loosens ctx' ctx (StaticRule tn s)" "loosens ctx' ctx WriteGuard" "loosens ctx' ctx (CallGuard tn g)"
  "loosens ctx' ctx (AggregateGuard b)" "loosens ctx' ctx (EnforceCap n)"
  by (simp_all add: loosens_def StaticRule_def WriteGuard_def CallGuard_def AggregateGuard_def EnforceCap_def
      StaticRule_Check_def WriteGuard_Check_def CallGuard_Check_def AggregateGuard_Check_def EnforceCap_Check_def)

lemma loosens_Estimate:
  assumes "stricter (tighteningOf ctx') (tighteningOf ctx)"
  shows "loosens ctx' ctx (Estimate tn e)"
  unfolding loosens_def Estimate_def layer.simps
proof (intro allI impI)
  fix c d' assume d': "Estimate_Check tn e ctx' c = Inr d'" "cd_Allow d'"
  show "\<exists>d. Estimate_Check tn e ctx c = Inr d \<and> cd_Allow d \<and> cd_Rewritten d = cd_Rewritten d' \<and> cd_Bypass d = cd_Bypass d'"
  proof (cases "co_Kind c = KindRead \<or> co_Kind c = KindAggregate \<or> co_Kind c = KindUnset")
    case False
    with d' show ?thesis by (auto simp: Estimate_Check_def)
  next
    case True
    from d' obtain "\<not> (unavailable (snd (explainPlan tn e c)) \<or> schemaChanged (snd (explainPlan tn e c)))"
      unfolding Estimate_Check_read [OF True] by (auto split: if_splits)
    with d' evaluatePlan_stricter [OF assms] obtain d where "Estimate_Check tn e ctx c = Inr d" "cd_Allow d"
      unfolding Estimate_Check_read [OF True] by auto
    with d' Estimate_Check_shape show ?thesis by metis
  qed
qed

lemma chain_end_loosens:
  assumes "chain_end ctx' ls s' = Some e'" and "\<forall>l\<in>set ls. loosens ctx' ctx l"
    and "cs_c s = cs_c s'" "cs_rewritten s = cs_rewritten s'" "cs_bypassEstimate s = cs_bypassEstimate s'"
  shows "\<exists>e. chain_end ctx ls s = Some e \<and> cs_c e = cs_c e' \<and> cs_rewritten e = cs_rewritten e'"
  using assms
proof (induction ctx' ls s' arbitrary: s rule: chain_end.induct)
  case (2 ctx' l ls s')
  show ?case
  proof (cases "skips l s'")
    case True
    with 2 show ?thesis by (simp add: skips_def)
  next
    case False
    with "2.prems"(1) obtain d' where d': "l_Check l ctx' (cs_c s') = Inr d'" "cd_Allow d'"
      "chain_end ctx' ls (applyLayerDecision d' s') = Some e'" by (auto split: sum.splits if_splits)
    with "2.prems"(2) obtain d where d: "l_Check l ctx (cs_c s') = Inr d" "cd_Allow d"
      "cd_Rewritten d = cd_Rewritten d'" "cd_Bypass d = cd_Bypass d'" unfolding loosens_def by (metis list.set_intros(1))
    have "cs_c (applyLayerDecision d s) = cs_c (applyLayerDecision d' s')"
      using d(3) "2.prems"(3) by (simp split: option.split)
    with "2.IH"(2) [OF False d', of "applyLayerDecision d s"] "2.prems"(2-) d
    obtain e where "chain_end ctx ls (applyLayerDecision d s) = Some e" "cs_c e = cs_c e'" "cs_rewritten e = cs_rewritten e'"
      by auto
    moreover have "\<not> skips l s" using False "2.prems"(5) by (simp add: skips_def)
    ultimately show ?thesis using d "2.prems"(3) by simp
  qed
qed simp

lemma gate_loosens:
  assumes "stricter (tighteningOf ctx') (tighteningOf ctx)"
  shows "\<forall>l\<in>set (NewGateFromCapabilities tn caps ex th fb). loosens ctx' ctx l"
proof -
  have "\<forall>l\<in>set (gate_estimate tn caps ex th fb). loosens ctx' ctx l"
    by (cases ex) (simp_all add: gate_estimate_def loosens_Estimate [OF assms])
  moreover have "\<forall>l\<in>set (gate_guards tn th @ gate_cap th). loosens ctx' ctx l"
    by (auto simp: gate_guards_def gate_cap_def)
  ultimately show ?thesis unfolding gate_layers by auto
qed

text \<open>
  A caller's own limits never loosen the gate: a statement that a gate admits under a tightening it
  also admits under any less strict one, and under none, and hands on the same statement.
\<close>

theorem gate_antitone:
  assumes "ChainGate_Check (NewGateFromCapabilities tn caps ex th fb) (WithTightening None t') c = Inr d'"
    and "cd_Allow d'" and "stricter t' t"
  shows "\<exists>d. ChainGate_Check (NewGateFromCapabilities tn caps ex th fb) (WithTightening None t) c = Inr d \<and>
    cd_Allow d \<and> admitted c d = admitted c d'"
proof -
  let ?ls = "NewGateFromCapabilities tn caps ex th fb"
    and ?ctx' = "WithTightening None t'" and ?ctx = "WithTightening None t"
  have t: "tighteningOf ?ctx' = t'" "tighteningOf ?ctx = t"
    by (simp_all add: WithTightening_def tighteningOf_def)
  have l: "\<forall>l\<in>set ?ls. loosens ?ctx' ?ctx l" by (rule gate_loosens) (simp add: t assms(3))
  obtain s' where s': "chain_end ?ctx' ?ls (chain_start c) = Some s'"
    "d' = attachRewritten (cs_result s') (cs_c s') (cs_rewritten s')" by (rule gate_allow [OF assms(1,2)])
  from chain_end_loosens [OF s'(1) l refl refl refl] obtain s where s: "chain_end ?ctx ?ls (chain_start c) = Some s"
    "cs_c s = cs_c s'" "cs_rewritten s = cs_rewritten s'" by blast
  have allow: "cd_Allow (cs_result s) \<and> cd_Rewritten (cs_result s) = None \<and> cd_Rewritten (cs_result s') = None"
    using chain_end_result [OF s(1)] chain_end_result [OF s'(1)] chain_end_Allow [OF s(1)]
    by (simp add: chain_start_def allowed_def zero_decision_def)
  with gate_allowI [OF s(1)] s s'(2) show ?thesis by (auto simp: admitted_def)
qed

section \<open>Admitted reads\<close>

text \<open>
  What the plan of a read satisfies: the limits of the threshold and those of the caller's tightening.
\<close>

definition within_limits :: "threshold \<Rightarrow> tightening \<Rightarrow> plan \<Rightarrow> bool" where
  "within_limits th t p \<longleftrightarrow>
     (p_ScanType p = ScanFull \<longrightarrow> \<not> th_RejectFullScan th \<and> \<not> ti_RejectFullScan t) \<and>
     \<not> OverScanLimit p (th_MaxScannedRows th) \<and> \<not> OverScanLimit p (ti_MaxScannedRows t) \<and>
     (th_RequireKnownScan th \<longrightarrow> p_ScanType p \<noteq> ScanUnknown) \<and> (th_RequireFreshStats th \<longrightarrow> p_StatsFresh p) \<and>
     (\<forall>cutoff\<in>{th_HardScore th, th_SoftScore th, ti_HardScore t, ti_SoftScore t}. cutoff \<le> sc_Value (ScorePlan p))"

lemma evaluatePlan_within:
  "cd_Allow (evaluatePlan fc p err (ScorePlan p) (Tighten th t)) \<longleftrightarrow>
     (fc \<longrightarrow> err = None \<and> p_ScanType p \<noteq> ScanUnknown) \<and> within_limits th t p"
  unfolding evaluatePlan_Allow OverScanLimit_Tighten within_limits_def by auto

text \<open>The rule of the gate: it bypasses the estimate for a key point or an allowed template only.\<close>

lemma StaticRule_bypass:
  assumes "StaticRule_Check tn s ctx c = Inr d" and "cd_Bypass d"
  shows "sr_PKWhitelist s \<and> co_IsKeyPoint c \<or>
    matchesTemplates (sr_AllowTemplates s) (sr_Datasource s) c (sr_LegacyExactSQL s)
      (Fingerprint tn (sr_Datasource s) (sr_DialectName s) c)"
  using assms by (auto simp: StaticRule_Check_def Let_def zero_decision_def split: if_split_asm)

lemma chain_end_no_bypass:
  assumes "chain_end ctx ls s = Some s'" and "\<forall>l\<in>set ls. keeps l \<and> \<not> bypasses l ctx (cs_c s)"
  shows "cs_bypassEstimate s' = cs_bypassEstimate s"
  using assms
proof (induction ctx ls s rule: chain_end.induct)
  case (2 ctx l ls s)
  show ?case
  proof (cases "skips l s")
    case True
    with 2 show ?thesis by simp
  next
    case False
    with "2.prems"(1) obtain d where d: "l_Check l ctx (cs_c s) = Inr d" "cd_Allow d"
      "chain_end ctx ls (applyLayerDecision d s) = Some s'" by (auto split: sum.splits if_splits)
    with "2.prems"(2) have "\<not> cd_Bypass d" "cd_Rewritten d = None" by (auto simp: bypasses_def keeps_def)
    with "2.IH"(2) [OF False d] "2.prems"(2) show ?thesis by simp
  qed
qed simp

lemma gate_rule_bypass:
  assumes "chain_end ctx (StaticRule tn r # gate_guards tn th) (chain_start c) = Some s" and "cs_bypassEstimate s"
  shows "sr_PKWhitelist r \<and> co_IsKeyPoint c \<or>
    matchesTemplates (sr_AllowTemplates r) (sr_Datasource r) c (sr_LegacyExactSQL r)
      (Fingerprint tn (sr_Datasource r) (sr_DialectName r) c)"
proof -
  have "\<not> skips (StaticRule tn r) (chain_start c)" by (simp add: skips_def)
  with assms(1) obtain d where d: "StaticRule_Check tn r ctx c = Inr d"
    "chain_end ctx (gate_guards tn th) (applyLayerDecision d (chain_start c)) = Some s"
    by (auto simp: StaticRule_def chain_start_def split: sum.splits if_splits)
  have "\<forall>l\<in>set (gate_guards tn th). \<not> bypasses l ctx c'" for c'
    by (auto simp: gate_guards_def)
  with chain_end_no_bypass [OF d(2)] assms(2) have "cd_Bypass d" by (simp add: chain_start_def)
  from StaticRule_bypass [OF d(1) this] show ?thesis .
qed

text \<open>
  A read that the gate admits is a point lookup the threshold whitelists, matches an allowed
  template, or its plan, as EXPLAIN and the feedback store estimate it, is within every limit of the threshold
  and of the caller; with \<open>ExplainFailClosed\<close> it was explained and its access path is known.
\<close>

theorem gate_read_within_limits:
  assumes "ChainGate_Check (NewGateFromCapabilities tn caps (Some explain) th fb) ctx c = Inr d" and "cd_Allow d"
    and "co_Kind c = KindRead \<or> co_Kind c = KindAggregate \<or> co_Kind c = KindUnset"
    and "profile_Has caps Explain" and "profile_Enforced caps ExplainAccurate \<or> th_ExplainFailClosed th"
  defines "e \<equiv> \<lparr>es_Explainer = explain, es_Threshold = th, es_Feedback = fb, es_FailClosed = th_ExplainFailClosed th\<rparr>"
  shows "th_WhitelistPKPoint th \<and> co_IsKeyPoint c \<or>
    matchesBaseline tn (th_AllowTemplates th) (th_Datasource th) (th_DialectName th) c (th_LegacyExactSQL th) \<or>
    (let (q, err) = explainPlan tn e c; p = smallTable q th in
       within_limits th (tighteningOf ctx) p \<and> (th_ExplainFailClosed th \<longrightarrow> err = None \<and> p_ScanType p \<noteq> ScanUnknown))"
proof -
  let ?pre = "StaticRule tn (gate_rule th) # gate_guards tn th"
  obtain s where "chain_end ctx (NewGateFromCapabilities tn caps (Some explain) th fb) (chain_start c) = Some s"
    by (rule gate_allow [OF assms(1,2)])
  then have "chain_end ctx (?pre @ Estimate tn e # gate_cap th) (chain_start c) = Some s"
    using assms(4,5) by (simp add: gate_layers gate_estimate_def e_def)
  from chain_end_layer [OF this] obtain s1 where s1: "chain_end ctx ?pre (chain_start c) = Some s1"
    "skips (Estimate tn e) s1 \<or> (\<exists>d. l_Check (Estimate tn e) ctx (cs_c s1) = Inr d \<and> cd_Allow d)" by blast
  have c: "cs_c s1 = c" using chain_end_keeps [OF s1(1)] by (simp add: chain_start_def)
  show ?thesis
  proof (cases "cs_bypassEstimate s1")
    case True
    from gate_rule_bypass [OF s1(1) this] show ?thesis by (auto simp: gate_rule_def matchesBaseline_def)
  next
    case False
    with s1(2) c obtain d' where "Estimate_Check tn e ctx c = Inr d'" "cd_Allow d'" by (auto simp: skips_def Estimate_def)
    then show ?thesis unfolding Estimate_Check_read [OF assms(3)]
      by (auto simp: evaluatePlan_within split_beta Let_def e_def split: if_splits)
  qed
qed

section \<open>Witnesses\<close>

definition ex_stmt :: compiled where
  "ex_stmt = \<lparr>co_Expr = NilExpr, co_Kind = KindRead, co_SQL = ''SELECT id FROM users'', co_Args = [],
     co_IsKeyPoint = False, co_PrimaryKey = [], co_ReadOnly = True, co_capBase = ''SELECT id FROM users'',
     co_capLimit = 0, co_capOffset = 0\<rparr>"

definition ex_plan :: plan where
  "ex_plan = zero_plan\<lparr>p_ScanType := ScanIndex, p_EstimatedRows := 20, p_StatsFresh := True\<rparr>"

definition ex_threshold :: threshold where
  "ex_threshold = zero_threshold\<lparr>th_HardScore := 30, th_SoftScore := 50, th_MaxRows := 100,
     th_RequirePKForWrite := True, th_ExplainFailClosed := True\<rparr>"

definition ex_strict :: tightening where
  "ex_strict = \<lparr>ti_SoftScore = 60, ti_HardScore = 0, ti_RejectFullScan = True, ti_MaxScannedRows = 1000\<rparr>"

definition ex_gate :: "layer list" where
  "ex_gate = NewGateFromCapabilities (\<lambda>_. []) postgres_Capabilities (Some (\<lambda>_ _. Inr ex_plan)) ex_threshold None"

lemma matchesTemplates_Nil [simp]: "\<not> matchesTemplates [] ds c b fp"
  by (simp add: matchesTemplates_def)

lemma ex_plan_within: "within_limits ex_threshold ex_strict ex_plan"
  by (simp add: within_limits_def ex_threshold_def ex_strict_def ex_plan_def zero_plan_def zero_threshold_def
      OverScanLimit_def ScannedRowsKnown_def ScorePlan_def rowPenalty_def)

lemma ex_estimate:
  "Estimate_Check tn \<lparr>es_Explainer = \<lambda>_ _. Inr ex_plan, es_Threshold = ex_threshold, es_Feedback = None, es_FailClosed = fc\<rparr>
     (Some ex_strict) ex_stmt = Inr (evaluatePlan fc ex_plan None (ScorePlan ex_plan) (Tighten ex_threshold ex_strict))"
  by (simp add: Estimate_Check_def explainPlan_def ex_stmt_def tighteningOf_def smallTable_def ex_plan_def Let_def)

lemma ex_estimate_allows: "cd_Allow (evaluatePlan fc ex_plan None (ScorePlan ex_plan) (Tighten ex_threshold ex_strict))"
  by (simp add: evaluatePlan_within ex_plan_within) (simp add: ex_plan_def)

lemma EnforceCap_allows: "\<exists>d. EnforceCap_Check n ctx c = Inr d \<and> cd_Allow d"
  by (auto simp: EnforceCap_Check_def allowed_def Let_def split: prod.splits bool.splits)

lemma ex_gate_layers:
  "ex_gate = [StaticRule (\<lambda>_. []) (gate_rule ex_threshold), WriteGuard,
     CallGuard (\<lambda>_. []) \<lparr>cg_Datasource = [], cg_DialectName = [], cg_LegacyExactSQL = False, cg_AllowTemplates = []\<rparr>,
     Estimate (\<lambda>_. []) \<lparr>es_Explainer = \<lambda>_ _. Inr ex_plan, es_Threshold = ex_threshold, es_Feedback = None, es_FailClosed = True\<rparr>,
     EnforceCap 100]"
  by (simp add: ex_gate_def gate_layers gate_guards_def gate_estimate_def gate_cap_def ex_threshold_def zero_threshold_def
      profile_Has_def profile_Claim_def enforced_def)

lemma ex_gate_safe:
  "l_Check (StaticRule (\<lambda>_. []) (gate_rule ex_threshold)) ctx ex_stmt = Inr allowed"
  "l_Check WriteGuard ctx ex_stmt = Inr allowed"
  "l_Check (CallGuard tn g) ctx ex_stmt = Inr allowed"
  by (simp_all add: StaticRule_def StaticRule_Check_def gate_rule_def ex_threshold_def zero_threshold_def WriteGuard_def
      WriteGuard_Check_def CallGuard_def CallGuard_Check_def ex_stmt_def allowed_def)

lemma ex_gate_allows: "\<exists>d. ChainGate_Check ex_gate (Some ex_strict) ex_stmt = Inr d \<and> cd_Allow d"
proof -
  have shape: "cd_Allow allowed" "cd_Rewritten allowed = None" "cs_c (chain_start ex_stmt) = ex_stmt"
    by (simp_all add: allowed_def zero_decision_def chain_start_def)
  have "\<exists>s. chain_end (Some ex_strict) ex_gate (chain_start ex_stmt) = Some s"
    using ex_estimate_allows [of True] EnforceCap_allows [of 100 "Some ex_strict" ex_stmt]
    by (auto simp: ex_gate_layers skips_def ex_gate_safe shape Estimate_def EnforceCap_def layerPhase_def ex_estimate
        evaluatePlan_shape allowed_def zero_decision_def chain_start_def)
  then obtain s where s: "chain_end (Some ex_strict) ex_gate (chain_start ex_stmt) = Some s" by blast
  from gate_allowI [OF s] chain_end_Allow [OF s] show ?thesis by (simp add: chain_start_def allowed_def)
qed

theorem ScorePlan_antitone_witness: "sc_Value (ScorePlan (ex_plan\<lparr>p_HasSort := True\<rparr>)) \<le> sc_Value (ScorePlan ex_plan)"
  using ScorePlan_antitone [of ex_plan "ex_plan\<lparr>p_HasSort := True\<rparr>"] by (simp add: riskier_def)

theorem gate_antitone_witness:
  "\<exists>d. ChainGate_Check ex_gate (WithTightening None zero_tightening) ex_stmt = Inr d \<and> cd_Allow d"
proof -
  obtain d' where "ChainGate_Check ex_gate (WithTightening None ex_strict) ex_stmt = Inr d'" "cd_Allow d'"
    using ex_gate_allows by (auto simp: WithTightening_def ex_strict_def zero_tightening_def)
  from gate_antitone [OF this [unfolded ex_gate_def], of zero_tightening] show ?thesis
    by (auto simp: ex_gate_def stricter_def ex_strict_def zero_tightening_def)
qed

theorem gate_read_within_limits_witness: "p_ScanType ex_plan \<noteq> ScanUnknown \<and> within_limits ex_threshold ex_strict ex_plan"
proof -
  obtain d where "ChainGate_Check ex_gate (Some ex_strict) ex_stmt = Inr d" "cd_Allow d" using ex_gate_allows by blast
  from gate_read_within_limits [OF this [unfolded ex_gate_def]] show ?thesis
    by (auto simp: ex_stmt_def ex_threshold_def zero_threshold_def profile_Has_def profile_Claim_def enforced_def
        matchesBaseline_def explainPlan_def smallTable_def tighteningOf_def ex_plan_def Let_def)
qed

end
