(* ===== verification/Governed.thy ===== *)
theory Governed
  imports Codegen_Keys Cost_Props
begin

text \<open>
  Statements that are compiled and pass the cost gate: code generation, the gate and the reference
  interpreter taken together.
\<close>

section \<open>Statements\<close>

text \<open>The keys \<^const>\<open>Compile\<close> looks for a point lookup on.\<close>

definition identity_keys :: "(compileConfig \<Rightarrow> compileConfig) option list \<Rightarrow> string list list" where
  "identity_keys opts =
     (let cfg = applyOptions opts in
      if \<not> cc_identitySet cfg \<and> cc_pkCols cfg \<noteq> [] then [cc_pkCols cfg] else cc_identityKeys cfg)"

lemma Compile_keyPoint:
  "Compile d e opts = Inr c \<Longrightarrow> co_IsKeyPoint c = list_ex (isKeyPoint (PredicateOf e)) (identity_keys opts)"
  by (auto simp: Compile_def identity_keys_def Let_def bindR_eq_Inr split: if_splits)

lemma PredicateOf_write [simp]:
  "PredicateOf (Update r p sets) = p" "PredicateOf (Delete r p) = p"
  by (simp_all add: PredicateOf_def PredicateOf_loop.simps)

text \<open>
  C15: an UPDATE or DELETE that a gate with \<open>RequirePKForWrite\<close> admits touches at most one row: in any
  relation in which the identity keys are unique, its predicate selects no more than one.
\<close>

theorem gated_write_one_row:
  assumes "Compile dl e opts = Inr c" and "e = Update r p sets \<or> e = Delete r p"
    and "th_RequirePKForWrite th"
    and "ChainGate_Check (NewGateFromCapabilities tn caps ex th fb) ctx c = Inr d" and "cd_Allow d"
    and "\<forall>key\<in>set (identity_keys opts). unique_key rel key" and "evalSelect db p rel = Inr out"
  shows "length (r_Rows out) \<le> 1"
proof -
  from Compile_Inr [OF assms(1)] have c: "co_Expr c = e" "co_Kind c = kindOf e" by auto
  have "co_IsKeyPoint c"
    by (rule gate_keyed_write [OF assms(4,5,3)]) (use c assms(2) in \<open>auto simp: kindOf_def\<close>)
  moreover have "PredicateOf e = p" using assms(2) by auto
  ultimately obtain key where "key \<in> set (identity_keys opts)" "isKeyPoint p key"
    using Compile_keyPoint [OF assms(1)] by (auto simp: list_ex_iff)
  with assms(6) isKeyPoint_le_one [OF _ _ assms(7)] show ?thesis by blast
qed

lemma EnforceCap_read:
  assumes "Compile dl e opts = Inr c" and "co_ReadOnly c" and "0 < n" and "snd (CapRows c n)"
  shows "co_SQL (admitted c (projr (EnforceCap_Check n ctx c))) = co_SQL (fst (CapRows c n))"
    and "co_Args (admitted c (projr (EnforceCap_Check n ctx c))) = co_Args (fst (CapRows c n))"
proof -
  have "co_Kind c = KindRead \<or> co_Kind c = KindAggregate" using Compile_kindOf [OF assms(1)] assms(2) by auto
  moreover obtain capped where "CapRows c n = (capped, True)" using assms(4) by (cases "CapRows c n") auto
  moreover have "co_Args (fst (CapRows c n)) = co_Args c" by (simp add: CapRows_def)
  ultimately show "co_SQL (admitted c (projr (EnforceCap_Check n ctx c))) = co_SQL (fst (CapRows c n))"
    and "co_Args (admitted c (projr (EnforceCap_Check n ctx c))) = co_Args (fst (CapRows c n))"
    using assms(3) by (auto simp: EnforceCap_Check_def admitted_def allowed_def zero_decision_def)
qed

text \<open>
  A read that passes a gate with a row cap is handed on as the statement that compiling the read
  under that limit gives: the gate bounds its rows whatever the estimate says, and changes nothing else.
\<close>

theorem gated_read_capped:
  assumes "Compile dl e opts = Inr c" and "co_ReadOnly c" and "0 < th_MaxRows th"
    and "ChainGate_Check (NewGateFromCapabilities tn caps ex th fb) ctx c = Inr d" and "cd_Allow d"
  shows "\<exists>c'. Compile dl (with_cap e (th_MaxRows th)) opts = Inr c' \<and>
    co_SQL (admitted c d) = co_SQL c' \<and> co_Args (admitted c d) = co_Args c'"
proof -
  from CapRows_with_cap [OF assms(1,2), of "th_MaxRows th"] assms(3) obtain c' where
    c': "Compile dl (with_cap e (th_MaxRows th)) opts = Inr c'" "snd (CapRows c (th_MaxRows th))"
    "co_SQL (fst (CapRows c (th_MaxRows th))) = co_SQL c'" "co_Args (fst (CapRows c (th_MaxRows th))) = co_Args c'"
    by auto
  have "admitted c d = admitted c (projr (EnforceCap_Check (th_MaxRows th) ctx c))"
    using gate_admitted [OF assms(4,5)] assms(3) by simp
  with EnforceCap_read [OF assms(1-3) c'(2)] c' show ?thesis by auto
qed

section \<open>Witnesses\<close>

definition ex_rows_gate :: "layer list" where
  "ex_rows_gate = NewGateFromCapabilities (\<lambda>_. []) mysql_Capabilities None ex_threshold None"

lemma ex_rows_gate_layers:
  "ex_rows_gate = [StaticRule (\<lambda>_. []) (gate_rule ex_threshold), WriteGuard,
     CallGuard (\<lambda>_. []) \<lparr>cg_Datasource = [], cg_DialectName = [], cg_LegacyExactSQL = False, cg_AllowTemplates = []\<rparr>,
     EnforceCap 100]"
  by (simp add: ex_rows_gate_def gate_layers gate_guards_def gate_estimate_def gate_cap_def ex_threshold_def zero_threshold_def)

lemma ex_rows_gate_allows:
  assumes "WriteGuard_Check None c = Inr allowed" and "co_Kind c \<noteq> KindCall"
  shows "\<exists>d. ChainGate_Check ex_rows_gate None c = Inr d \<and> cd_Allow d"
proof -
  have safe: "l_Check (StaticRule (\<lambda>_. []) (gate_rule ex_threshold)) None c = Inr allowed"
    "l_Check WriteGuard None c = Inr allowed" "l_Check (CallGuard tn g) None c = Inr allowed" for tn g
    using assms by (simp_all add: StaticRule_def StaticRule_Check_def gate_rule_def ex_threshold_def zero_threshold_def
      WriteGuard_def CallGuard_def CallGuard_Check_def allowed_def)
  have "\<exists>s. chain_end None ex_rows_gate (chain_start c) = Some s"
    using EnforceCap_allows [of 100 None c]
    by (auto simp: ex_rows_gate_layers skips_def safe EnforceCap_def layerPhase_def chain_start_def allowed_def zero_decision_def)
  then obtain s where s: "chain_end None ex_rows_gate (chain_start c) = Some s" by blast
  from gate_allowI [OF s] chain_end_Allow [OF s] show ?thesis by (simp add: chain_start_def allowed_def)
qed

definition ex_opts :: "(compileConfig \<Rightarrow> compileConfig) option list" where
  "ex_opts = [Some (WithPrimaryKey [''tenant'', ''id''])]"

definition ex_keyed :: expr where
  "ex_keyed = Delete ex_t ex_point"

definition ex_keyed_ok :: bool where
  "ex_keyed_ok \<longleftrightarrow> (case Compile mysql ex_keyed ex_opts of Inr c \<Rightarrow> co_IsKeyPoint c | Inl _ \<Rightarrow> False) \<and>
     list_all (unique_key ex_users) (identity_keys ex_opts)"

lemma ex_keyed_ok: ex_keyed_ok
  by code_simp

theorem gated_write_one_row_witness:
  "\<exists>c d out. Compile mysql ex_keyed ex_opts = Inr c \<and> ChainGate_Check ex_rows_gate None c = Inr d \<and> cd_Allow d \<and>
     evalSelect Map.empty ex_point ex_users = Inr out \<and> length (r_Rows out) \<le> 1"
proof -
  obtain c where c: "Compile mysql ex_keyed ex_opts = Inr c" "co_IsKeyPoint c"
    using ex_keyed_ok by (auto simp: ex_keyed_ok_def split: sum.splits)
  then have "WriteGuard_Check None c = Inr allowed" "co_Kind c \<noteq> KindCall"
    using Compile_Inr [OF c(1)] by (auto simp: WriteGuard_Check_def ex_keyed_def kindOf_def)
  then obtain d where d: "ChainGate_Check ex_rows_gate None c = Inr d" "cd_Allow d" using ex_rows_gate_allows by blast
  obtain out where out: "evalSelect Map.empty ex_point ex_users = Inr out"
    using ex_points by (auto simp: ex_points_def split: sum.splits)
  have "length (r_Rows out) \<le> 1"
    by (rule gated_write_one_row [OF c(1) _ _ d(1) [unfolded ex_rows_gate_def] d(2) _ out, of ex_t "[]"])
      (use ex_keyed_ok in \<open>auto simp: ex_keyed_def ex_threshold_def ex_keyed_ok_def list_all_iff\<close>)
  with c d out show ?thesis by blast
qed

theorem gated_read_capped_witness:
  "\<exists>c d c'. Compile postgres (ex_read (VInt 1)) [] = Inr c \<and> ChainGate_Check ex_rows_gate None c = Inr d \<and> cd_Allow d \<and>
     Compile postgres (with_cap (ex_read (VInt 1)) 100) [] = Inr c' \<and> co_SQL (admitted c d) = co_SQL c'"
proof -
  obtain c where c: "Compile postgres (ex_read (VInt 1)) [] = Inr c" "co_ReadOnly c"
    using compilesD [OF ex_read_compiles] by blast
  then have "WriteGuard_Check None c = Inr allowed" "co_Kind c \<noteq> KindCall"
    using Compile_kindOf [OF c(1)] by (auto simp: WriteGuard_Check_def)
  then obtain d where d: "ChainGate_Check ex_rows_gate None c = Inr d" "cd_Allow d" using ex_rows_gate_allows by blast
  from gated_read_capped [OF c _ d(1) [unfolded ex_rows_gate_def] d(2)] c d show ?thesis
    by (auto simp: ex_threshold_def)
qed

end
