(* ===== verification/Budget.thy ===== *)
theory Budget
  imports Prelude "HOL-Library.AList" "HOL-Library.Monad_Syntax"
begin

text \<open>
  The execution budgets of \<^verbatim>\<open>src/core/budget/budget.go\<close>: a manager that hands out leases per scope, within
  the limits of the caller's role and tenant. The manager is passed as state; its maps of sessions and holders
  are association lists in iteration order, and the two linked lists of idle states are lists of scopes, a
  state knowing by \<open>bs_idle\<close> whether it is listed. A nil dereference, which would panic, is \<open>None\<close>; the laws show
  that none happens. Times are integers (\<^verbatim>\<open>time.Now\<close> is an argument), a lease has no context of its own.
\<close>

section \<open>Types\<close>

record scope =
  s_Role :: string
  s_Tenant :: string
  s_Session :: string

record limits =
  li_MaxConcurrent :: int
  li_MaxExecution :: int
  li_MaxEstimatedScannedRows :: int
  li_MaxReturnedRows :: int
  li_MaxReturnedBytes :: int
  li_MaxSessionCost :: int

definition zero_limits :: limits where
  "zero_limits = \<lparr>li_MaxConcurrent = 0, li_MaxExecution = 0, li_MaxEstimatedScannedRows = 0,
     li_MaxReturnedRows = 0, li_MaxReturnedBytes = 0, li_MaxSessionCost = 0\<rparr>"

record usage =
  us_EstimatedScannedRows :: int
  us_ReturnedRows :: int
  us_ReturnedBytes :: int
  us_Duration :: int
  us_Cost :: int

record reservation =
  rs_Cost :: int
  rs_EstimatedScannedRows :: int

record bstate =
  bs_inflight :: int
  bs_cost :: int
  bs_reserved :: int
  bs_touched :: int
  bs_closed :: bool
  bs_idle :: bool

type_synonym principal_key = "string \<times> string"

definition principalOf :: "scope \<Rightarrow> principal_key" where
  "principalOf sc = (s_Role sc, s_Tenant sc)"

record holder =
  h_states :: int
  h_idle :: "scope list"

record memory_manager =
  mm_roles :: "string \<Rightarrow> limits option"
  mm_tenants :: "string \<Rightarrow> limits option"
  mm_sessions :: "(scope \<times> bstate) list"
  mm_inflight :: "string \<Rightarrow> int"
  mm_ttl :: int
  mm_maxStates :: int
  mm_idle :: "scope list"
  mm_holders :: "(principal_key \<times> holder) list"

record lease =
  le_scope :: scope
  le_limits :: limits
  le_reservedCost :: int
  le_done :: bool
  le_exceeded :: bool

section \<open>Construction and limits\<close>

definition NewWithBounds ::
  "(string \<Rightarrow> limits option) \<Rightarrow> (string \<Rightarrow> limits option) \<Rightarrow> int \<Rightarrow> int \<Rightarrow> memory_manager" where
  "NewWithBounds roles tenants ttl maxStates =
     \<lparr>mm_roles = roles, mm_tenants = tenants, mm_sessions = [], mm_inflight = (\<lambda>_. 0),
      mm_ttl = (if ttl \<le> 0 then 30 * 60 * 1000000000 else ttl),
      mm_maxStates = (if maxStates \<le> 0 then 4096 else maxStates), mm_idle = [], mm_holders = []\<rparr>"

definition budget_New :: "(string \<Rightarrow> limits option) \<Rightarrow> (string \<Rightarrow> limits option) \<Rightarrow> memory_manager" where
  "budget_New roles tenants = NewWithBounds roles tenants (30 * 60 * 1000000000) 4096"

definition UpdateLimits ::
  "(string \<Rightarrow> limits option) \<Rightarrow> (string \<Rightarrow> limits option) \<Rightarrow> memory_manager \<Rightarrow> memory_manager" where
  "UpdateLimits roles tenants m = m\<lparr>mm_roles := roles, mm_tenants := tenants\<rparr>"

definition ConfiguredLimits ::
  "memory_manager \<Rightarrow> (string \<Rightarrow> limits option) \<times> (string \<Rightarrow> limits option)" where
  "ConfiguredLimits m = (mm_roles m, mm_tenants m)"

definition Stricter :: "int \<Rightarrow> int \<Rightarrow> int" where
  "Stricter a b = (if b \<le> 0 then a else if a \<le> 0 then b else min a b)"

definition limits_of :: "memory_manager \<Rightarrow> scope \<Rightarrow> limits" where
  "limits_of m sc =
     (let l = (case mm_roles m (s_Role sc) of Some l \<Rightarrow> l | None \<Rightarrow> zero_limits) in
      case mm_tenants m (s_Tenant sc) of
        None \<Rightarrow> l
      | Some t \<Rightarrow>
          if s_Tenant sc = [] then l
          else \<lparr>li_MaxConcurrent = li_MaxConcurrent l,
                li_MaxExecution = Stricter (li_MaxExecution l) (li_MaxExecution t),
                li_MaxEstimatedScannedRows =
                  Stricter (li_MaxEstimatedScannedRows l) (li_MaxEstimatedScannedRows t),
                li_MaxReturnedRows = Stricter (li_MaxReturnedRows l) (li_MaxReturnedRows t),
                li_MaxReturnedBytes = Stricter (li_MaxReturnedBytes l) (li_MaxReturnedBytes t),
                li_MaxSessionCost = Stricter (li_MaxSessionCost l) (li_MaxSessionCost t)\<rparr>)"

definition tenantConcurrency :: "memory_manager \<Rightarrow> string \<Rightarrow> int" where
  "tenantConcurrency m tenant =
     (if tenant = [] then 0
      else case mm_tenants m tenant of Some l \<Rightarrow> li_MaxConcurrent l | None \<Rightarrow> 0)"

definition normalizeReservation :: "reservation \<Rightarrow> reservation" where
  "normalizeReservation r =
     (let r = (if rs_Cost r < 0 then r\<lparr>rs_Cost := 0\<rparr> else r)
      in if rs_EstimatedScannedRows r < 0 then r\<lparr>rs_EstimatedScannedRows := 0\<rparr> else r)"

text \<open>\<open>True\<close> when the check passes; the differences are of 64-bit integers.\<close>

definition checkReservationLimits :: "limits \<Rightarrow> bstate \<Rightarrow> reservation \<Rightarrow> bool" where
  "checkReservationLimits l st r =
     (if li_MaxConcurrent l > 0 \<and> bs_inflight st \<ge> li_MaxConcurrent l then False
      else if li_MaxEstimatedScannedRows l > 0 \<and> rs_EstimatedScannedRows r > li_MaxEstimatedScannedRows l then False
      else if li_MaxSessionCost l > 0 \<and>
         (bs_cost st \<ge> li_MaxSessionCost l \<or>
          bs_reserved st \<ge> wrap64 (li_MaxSessionCost l - bs_cost st) \<or>
          rs_Cost r > wrap64 (wrap64 (li_MaxSessionCost l - bs_cost st) - bs_reserved st)) then False
      else True)"

section \<open>The table of states\<close>

definition idleLocked :: "scope \<Rightarrow> bstate \<Rightarrow> memory_manager \<Rightarrow> memory_manager option" where
  "idleLocked sc st m = do {
     h \<leftarrow> map_of (mm_holders m) (principalOf sc);
     Some (m\<lparr>mm_idle := mm_idle m @ [sc],
             mm_holders := AList.update (principalOf sc) (h\<lparr>h_idle := h_idle h @ [sc]\<rparr>) (mm_holders m),
             mm_sessions := AList.update sc (st\<lparr>bs_idle := True\<rparr>) (mm_sessions m)\<rparr>) }"

definition busyLocked :: "scope \<Rightarrow> bstate \<Rightarrow> memory_manager \<Rightarrow> memory_manager option" where
  "busyLocked sc st m =
     (if bs_idle st then do {
        h \<leftarrow> map_of (mm_holders m) (principalOf sc);
        Some (m\<lparr>mm_idle := remove1 sc (mm_idle m),
                mm_holders := AList.update (principalOf sc) (h\<lparr>h_idle := remove1 sc (h_idle h)\<rparr>) (mm_holders m),
                mm_sessions := AList.update sc (st\<lparr>bs_idle := False\<rparr>) (mm_sessions m)\<rparr>) }
      else Some m)"

definition dropLocked :: "scope \<Rightarrow> memory_manager \<Rightarrow> memory_manager option" where
  "dropLocked sc m =
     (case map_of (mm_sessions m) sc of
        None \<Rightarrow> Some m
      | Some st \<Rightarrow> do {
          m \<leftarrow> busyLocked sc st m;
          h \<leftarrow> map_of (mm_holders m) (principalOf sc);
          Some (m\<lparr>mm_sessions := AList.delete sc (mm_sessions m),
                  mm_holders :=
                    (if h_states h \<le> 1 then AList.delete (principalOf sc) (mm_holders m)
                     else AList.update (principalOf sc) (h\<lparr>h_states := h_states h - 1\<rparr>) (mm_holders m))\<rparr>) })"

lemma map_of_keyD: "map_of m k = Some v \<Longrightarrow> k \<in> fst ` set m"
  by (force dest: map_of_SomeD)

lemma busyLocked_keys:
  "busyLocked sc st m = Some m' \<Longrightarrow> map_of (mm_sessions m) sc = Some st \<Longrightarrow>
     map fst (mm_sessions m') = map fst (mm_sessions m)"
  by (auto simp: busyLocked_def update_keys bind_eq_Some_conv split: if_splits dest: map_of_keyD)

lemma dropLocked_length:
  assumes "dropLocked sc m = Some m'" and "map_of (mm_sessions m) sc = Some st"
  shows "length (mm_sessions m') < length (mm_sessions m)"
proof -
  from assms obtain m1 where m1: "busyLocked sc st m = Some m1" "mm_sessions m' = AList.delete sc (mm_sessions m1)"
    by (auto simp: dropLocked_def bind_eq_Some_conv split: if_splits)
  have keys: "map fst (mm_sessions m1) = map fst (mm_sessions m)" using busyLocked_keys [OF m1(1) assms(2)] .
  then have "sc \<in> fst ` set (mm_sessions m1)"
    using map_of_keyD [OF assms(2)] by (simp only: set_map [symmetric])
  then have "length (AList.delete sc (mm_sessions m1)) < length (mm_sessions m1)"
    by (auto simp: AList.delete_eq intro: length_filter_less)
  then show ?thesis using m1(2) keys by (metis length_map)
qed

text \<open>The loop drops the states at the front of the idle list; each round shortens the table.\<close>

function pruneLocked :: "int \<Rightarrow> memory_manager \<Rightarrow> memory_manager option" where
  "pruneLocked now m =
     (case mm_idle m of
        [] \<Rightarrow> Some m
      | sc # _ \<Rightarrow>
          (case map_of (mm_sessions m) sc of
             None \<Rightarrow> None
           | Some st \<Rightarrow>
               if now - bs_touched st < mm_ttl m then Some m
               else (case dropLocked sc m of None \<Rightarrow> None | Some m' \<Rightarrow> pruneLocked now m')))"
  by auto

termination
  by (relation "measure (\<lambda>(now, m). length (mm_sessions m))") (auto dest: dropLocked_length)

declare pruneLocked.simps [simp del]

definition lruLocked :: "memory_manager \<Rightarrow> holder \<Rightarrow> int option" where
  "lruLocked m h = map_option bs_touched (map_of (mm_sessions m) (hd (h_idle h)))"

text \<open>The loop over the holders: \<open>most\<close> is the largest with an idle state so far.\<close>

fun most_holder :: "memory_manager \<Rightarrow> (principal_key \<times> holder) list \<Rightarrow> holder option \<Rightarrow> holder option option" where
  "most_holder m [] most = Some most"
| "most_holder m ((_, h) # hs) most =
     (if h_idle h = [] then most_holder m hs most
      else case most of
        None \<Rightarrow> most_holder m hs (Some h)
      | Some b \<Rightarrow>
          if h_states h > h_states b then most_holder m hs (Some h)
          else if h_states h = h_states b then do {
            t \<leftarrow> lruLocked m h;
            t' \<leftarrow> lruLocked m b;
            most_holder m hs (if t < t' then Some h else most) }
          else most_holder m hs most)"

text \<open>\<open>Some None\<close>: there is no state the table may drop.\<close>

definition victimLocked :: "principal_key \<Rightarrow> memory_manager \<Rightarrow> scope option option" where
  "victimLocked p m =
     (let own = map_of (mm_holders m) p in
      if (case own of Some h \<Rightarrow> h_idle h \<noteq> [] | None \<Rightarrow> False) then Some (Some (hd (h_idle (the own))))
      else do {
        most \<leftarrow> most_holder m (mm_holders m) None;
        (case most of
           None \<Rightarrow> Some None
         | Some b \<Rightarrow>
             if (case own of Some h \<Rightarrow> h_states b \<le> h_states h | None \<Rightarrow> False) then Some None
             else Some (Some (hd (h_idle b)))) })"

text \<open>The state of a scope, and whether it was granted.\<close>

definition acquireStateLocked :: "scope \<Rightarrow> int \<Rightarrow> memory_manager \<Rightarrow> (bool \<times> memory_manager) option" where
  "acquireStateLocked sc now m =
     (if map_of (mm_sessions m) sc \<noteq> None then Some (True, m)
      else do {
        let p = principalOf sc;
        room \<leftarrow> (if int (length (mm_sessions m)) \<ge> mm_maxStates m
                 then do {
                   victim \<leftarrow> victimLocked p m;
                   (case victim of None \<Rightarrow> Some None | Some v \<Rightarrow> map_option Some (dropLocked v m)) }
                 else Some (Some m));
        (case room of
           None \<Rightarrow> Some (False, m)
         | Some m \<Rightarrow> do {
             let h = (case map_of (mm_holders m) p of Some h \<Rightarrow> h | None \<Rightarrow> \<lparr>h_states = 0, h_idle = []\<rparr>);
             let st = \<lparr>bs_inflight = 0, bs_cost = 0, bs_reserved = 0, bs_touched = now, bs_closed = False, bs_idle = False\<rparr>;
             m \<leftarrow> idleLocked sc st
               (m\<lparr>mm_holders := AList.update p (h\<lparr>h_states := h_states h + 1\<rparr>) (mm_holders m),
                  mm_sessions := AList.update sc st (mm_sessions m)\<rparr>);
             Some (True, m) }) })"

section \<open>Leases\<close>

text \<open>\<open>None\<close> for the lease is the error \<^verbatim>\<open>ErrExceeded\<close>.\<close>

definition AcquireWithReservation ::
  "scope \<Rightarrow> reservation \<Rightarrow> int \<Rightarrow> memory_manager \<Rightarrow> (lease option \<times> memory_manager) option" where
  "AcquireWithReservation sc r now m = do {
     m \<leftarrow> pruneLocked now m;
     let l = limits_of m sc;
     let r = normalizeReservation r;
     (granted, m) \<leftarrow> acquireStateLocked sc now m;
     if \<not> granted then Some (None, m)
     else do {
       st \<leftarrow> map_of (mm_sessions m) sc;
       if \<not> checkReservationLimits l st r then Some (None, m)
       else if tenantConcurrency m (s_Tenant sc) > 0 \<and>
               mm_inflight m (s_Tenant sc) \<ge> tenantConcurrency m (s_Tenant sc) then Some (None, m)
       else do {
         let m = (if s_Tenant sc \<noteq> []
                  then m\<lparr>mm_inflight := (mm_inflight m)(s_Tenant sc := mm_inflight m (s_Tenant sc) + 1)\<rparr> else m);
         m \<leftarrow> busyLocked sc st m;
         Some (Some \<lparr>le_scope = sc, le_limits = l, le_reservedCost = rs_Cost r, le_done = False, le_exceeded = False\<rparr>,
           m\<lparr>mm_sessions := AList.update sc
              (st\<lparr>bs_idle := False, bs_inflight := bs_inflight st + 1,
                  bs_reserved := wrap64 (bs_reserved st + rs_Cost r), bs_touched := now\<rparr>) (mm_sessions m)\<rparr>) } } }"

definition Acquire :: "scope \<Rightarrow> int \<Rightarrow> memory_manager \<Rightarrow> (lease option \<times> memory_manager) option" where
  "Acquire sc now m = AcquireWithReservation sc \<lparr>rs_Cost = 0, rs_EstimatedScannedRows = 0\<rparr> now m"

text \<open>
  What a completed lease changes: the count of its tenant, and the counters of its state (\<open>completed\<close> is the
  state after the lease's usage).
\<close>

definition released :: "lease \<Rightarrow> memory_manager \<Rightarrow> memory_manager" where
  "released l m = (let tenant = s_Tenant (le_scope l) in
     if tenant \<noteq> [] then m\<lparr>mm_inflight := (mm_inflight m)(tenant :=
       (if mm_inflight m tenant - 1 \<le> 0 then 0 else mm_inflight m tenant - 1))\<rparr> else m)"

definition completed :: "usage \<Rightarrow> int \<Rightarrow> lease \<Rightarrow> bstate \<Rightarrow> bstate" where
  "completed u now l st =
     (let st = st\<lparr>bs_inflight := bs_inflight st - 1\<rparr>;
          st = st\<lparr>bs_reserved := wrap64 (bs_reserved st - le_reservedCost l)\<rparr>;
          st = (if us_Cost u > 0 then st\<lparr>bs_cost := wrap64 (bs_cost st + us_Cost u)\<rparr> else st)
      in st\<lparr>bs_touched := now\<rparr>)"

definition exceeds :: "limits \<Rightarrow> usage \<Rightarrow> int \<Rightarrow> bool" where
  "exceeds lims u sessionCost \<longleftrightarrow>
     li_MaxEstimatedScannedRows lims > 0 \<and> us_EstimatedScannedRows u > li_MaxEstimatedScannedRows lims \<or>
     li_MaxReturnedRows lims > 0 \<and> us_ReturnedRows u > li_MaxReturnedRows lims \<or>
     li_MaxReturnedBytes lims > 0 \<and> us_ReturnedBytes u > li_MaxReturnedBytes lims \<or>
     li_MaxSessionCost lims > 0 \<and> sessionCost > li_MaxSessionCost lims"

text \<open>Completing a lease; a second call returns the first one's answer (\<^verbatim>\<open>sync.Once\<close>).\<close>

definition Complete :: "usage \<Rightarrow> int \<Rightarrow> lease \<Rightarrow> memory_manager \<Rightarrow> (lease \<times> memory_manager) option" where
  "Complete u now l m =
     (if le_done l then Some (l, m)
      else do {
        st \<leftarrow> map_of (mm_sessions m) (le_scope l);
        let st = completed u now l st;
        let m = (released l m)\<lparr>mm_sessions := AList.update (le_scope l) st (mm_sessions m)\<rparr>;
        m \<leftarrow> (if bs_inflight st > 0 then Some m
              else if bs_closed st then dropLocked (le_scope l) m
              else idleLocked (le_scope l) st m);
        Some (l\<lparr>le_done := True, le_exceeded := exceeds (le_limits l) u (bs_cost st)\<rparr>, m) })"

text \<open>Closing a session: the loop over the scopes the map had.\<close>

fun closeScopes :: "string \<Rightarrow> scope list \<Rightarrow> memory_manager \<Rightarrow> memory_manager option" where
  "closeScopes session [] m = Some m"
| "closeScopes session (sc # scs) m =
     (if s_Session sc \<noteq> session then closeScopes session scs m
      else do {
        st \<leftarrow> map_of (mm_sessions m) sc;
        let st = st\<lparr>bs_cost := 0\<rparr>;
        m \<leftarrow> (if bs_inflight st = 0
              then dropLocked sc (m\<lparr>mm_sessions := AList.update sc st (mm_sessions m)\<rparr>)
              else Some (m\<lparr>mm_sessions := AList.update sc (st\<lparr>bs_closed := True\<rparr>) (mm_sessions m)\<rparr>));
        closeScopes session scs m })"

definition CloseSession :: "string \<Rightarrow> memory_manager \<Rightarrow> memory_manager option" where
  "CloseSession session m =
     (if session = [] then Some m else closeScopes session (map fst (mm_sessions m)) m)"

end
