(* ===== verification/Budget_Laws.thy ===== *)
theory Budget_Laws
  imports Budget
begin

text \<open>
  The invariant of the budget manager. \<open>table_ok\<close> relates the table of states to its indexes: the idle list
  holds exactly the idle states, and a principal's holder counts its states and lists its idle ones in the
  order of the idle list. \<open>accounts\<close> relates the table to the outstanding leases: a state counts its leases and
  sums what they reserve. Every operation keeps both and never panics.
\<close>

section \<open>The table and its indexes\<close>

definition scopes_of :: "principal_key \<Rightarrow> scope list \<Rightarrow> scope list" where
  "scopes_of p scs = filter (\<lambda>sc. principalOf sc = p) scs"

definition holder_of :: "memory_manager \<Rightarrow> principal_key \<Rightarrow> holder option" where
  "holder_of m p =
     (let own = scopes_of p (map fst (mm_sessions m)) in
      if own = [] then None
      else Some \<lparr>h_states = int (length own), h_idle = scopes_of p (mm_idle m)\<rparr>)"

definition is_idle :: "memory_manager \<Rightarrow> scope \<Rightarrow> bool" where
  "is_idle m sc \<longleftrightarrow> (case map_of (mm_sessions m) sc of Some st \<Rightarrow> bs_idle st | None \<Rightarrow> False)"

definition table_ok :: "memory_manager \<Rightarrow> bool" where
  "table_ok m \<longleftrightarrow> distinct (map fst (mm_sessions m)) \<and> distinct (mm_idle m) \<and>
     (\<forall>sc. sc \<in> set (mm_idle m) \<longleftrightarrow> is_idle m sc) \<and>
     distinct (map fst (mm_holders m)) \<and> map_of (mm_holders m) = holder_of m"

text \<open>What the operations on the table leave alone.\<close>

definition same_env :: "memory_manager \<Rightarrow> memory_manager \<Rightarrow> bool" where
  "same_env m m' \<longleftrightarrow> mm_roles m' = mm_roles m \<and> mm_tenants m' = mm_tenants m \<and> mm_inflight m' = mm_inflight m \<and>
     mm_ttl m' = mm_ttl m \<and> mm_maxStates m' = mm_maxStates m"

lemma same_env_refl [simp]: "same_env m m"
  by (simp add: same_env_def)

lemma same_env_trans: "same_env a b \<Longrightarrow> same_env b c \<Longrightarrow> same_env a c"
  by (simp add: same_env_def)

lemma scopes_of_simps [simp]:
  "scopes_of p [] = []" "scopes_of p (sc # scs) = (if principalOf sc = p then sc # scopes_of p scs else scopes_of p scs)"
  "scopes_of p (xs @ ys) = scopes_of p xs @ scopes_of p ys"
  by (simp_all add: scopes_of_def)

lemma in_scopes_of: "sc \<in> set (scopes_of p scs) \<longleftrightarrow> sc \<in> set scs \<and> principalOf sc = p"
  by (auto simp: scopes_of_def)

lemma scopes_of_remove1: "scopes_of p (remove1 sc scs) = (if principalOf sc = p then remove1 sc (scopes_of p scs) else scopes_of p scs)"
  by (induction scs) (auto simp: remove1_idem in_scopes_of)

lemma scopes_of_removeAll: "scopes_of p (removeAll sc scs) = removeAll sc (scopes_of p scs)"
  by (induction scs) auto

lemma removeAll_idem: "principalOf sc \<noteq> p \<Longrightarrow> removeAll sc (scopes_of p scs) = scopes_of p scs"
  by (simp add: removeAll_id in_scopes_of)

lemma length_removeAll_distinct: "distinct xs \<Longrightarrow> x \<in> set xs \<Longrightarrow> length (removeAll x xs) = length xs - 1"
  by (simp add: distinct_remove1_removeAll [symmetric] length_remove1)

lemma map_of_key: "map_of m k = Some v \<Longrightarrow> k \<in> set (map fst m)"
  by (drule map_of_keyD) (simp only: set_map)

lemma keys_update: "map_of m k = Some v \<Longrightarrow> map fst (AList.update k w m) = map fst m"
  using map_of_keyD [of m k v] by (simp add: update_keys)

lemma holder_exists:
  "table_ok m \<Longrightarrow> map_of (mm_sessions m) sc = Some st \<Longrightarrow>
     map_of (mm_holders m) (principalOf sc) =
       Some \<lparr>h_states = int (length (scopes_of (principalOf sc) (map fst (mm_sessions m)))),
             h_idle = scopes_of (principalOf sc) (mm_idle m)\<rparr>"
proof -
  assume ok: "table_ok m" and sc: "map_of (mm_sessions m) sc = Some st"
  have "sc \<in> set (scopes_of (principalOf sc) (map fst (mm_sessions m)))"
    unfolding in_scopes_of using map_of_key [OF sc] by simp
  then have "scopes_of (principalOf sc) (map fst (mm_sessions m)) \<noteq> []" by auto
  with ok show ?thesis by (simp add: table_ok_def holder_of_def Let_def)
qed

lemma length_update: "map_of m k = Some v \<Longrightarrow> length (AList.update k w m) = length m"
  using arg_cong [OF keys_update [of m k v w], of length] by simp

text \<open>Writing a state that is idle exactly when the old one is.\<close>

lemma table_set:
  assumes "table_ok m" and "map_of (mm_sessions m) sc = Some st" and "bs_idle st' = bs_idle st"
  shows "table_ok (m\<lparr>mm_sessions := AList.update sc st' (mm_sessions m)\<rparr>)"
proof -
  have "is_idle (m\<lparr>mm_sessions := AList.update sc st' (mm_sessions m)\<rparr>) = is_idle m"
    using assms(2,3) by (auto simp: is_idle_def update_conv fun_eq_iff)
  moreover have "holder_of (m\<lparr>mm_sessions := AList.update sc st' (mm_sessions m)\<rparr>) = holder_of m"
    using keys_update [OF assms(2)] by (simp add: holder_of_def fun_eq_iff Let_def)
  ultimately show ?thesis using assms(1) keys_update [OF assms(2)] by (simp add: table_ok_def)
qed

lemma idleLocked_ok:
  assumes "table_ok m" and "map_of (mm_sessions m) sc = Some st0" and "\<not> bs_idle st0"
  obtains m' where "idleLocked sc st m = Some m'" "table_ok m'" "same_env m m'"
    "map_of (mm_sessions m') = (map_of (mm_sessions m))(sc \<mapsto> st\<lparr>bs_idle := True\<rparr>)"
    "length (mm_sessions m') = length (mm_sessions m)"
proof -
  let ?p = "principalOf sc" and ?S = "AList.update sc (st\<lparr>bs_idle := True\<rparr>) (mm_sessions m)"
  let ?h = "\<lparr>h_states = int (length (scopes_of ?p (map fst (mm_sessions m)))), h_idle = scopes_of ?p (mm_idle m)\<rparr>"
  define m' where "m' = m\<lparr>mm_idle := mm_idle m @ [sc],
    mm_holders := AList.update ?p (?h\<lparr>h_idle := h_idle ?h @ [sc]\<rparr>) (mm_holders m), mm_sessions := ?S\<rparr>"
  have run: "idleLocked sc st m = Some m'"
    using holder_exists [OF assms(1,2)] by (simp add: idleLocked_def m'_def)
  have keys: "map fst ?S = map fst (mm_sessions m)" using keys_update [OF assms(2)] .
  have new: "sc \<notin> set (mm_idle m)" using assms by (simp add: table_ok_def is_idle_def)
  have idle: "x \<in> set (mm_idle m') \<longleftrightarrow> is_idle m' x" for x
    using assms(1) by (auto simp: m'_def table_ok_def is_idle_def update_conv)
  have "map_of (mm_holders m') = holder_of m'"
  proof
    fix p
    show "map_of (mm_holders m') p = holder_of m' p"
      using assms(1) holder_exists [OF assms(1,2)]
      by (auto simp: m'_def table_ok_def holder_of_def update_conv keys Let_def)
  qed
  then have "table_ok m'" using assms(1) new idle keys
    by (simp add: table_ok_def m'_def distinct_update)
  with run show ?thesis using length_update [OF assms(2)]
    by (intro that [of m']) (simp_all add: m'_def same_env_def update_conv')
qed

lemma busyLocked_ok:
  assumes "table_ok m" and "map_of (mm_sessions m) sc = Some st"
  obtains m' where "busyLocked sc st m = Some m'" "table_ok m'" "same_env m m'"
    "map_of (mm_sessions m') = (map_of (mm_sessions m))(sc \<mapsto> st\<lparr>bs_idle := False\<rparr>)"
    "map fst (mm_sessions m') = map fst (mm_sessions m)" "sc \<notin> set (mm_idle m')"
proof (cases "bs_idle st")
  case False
  then have "(map_of (mm_sessions m))(sc \<mapsto> st\<lparr>bs_idle := False\<rparr>) = map_of (mm_sessions m)"
    using assms(2) by (auto simp: fun_eq_iff)
  with False assms show ?thesis
    by (intro that [of m]) (auto simp: busyLocked_def table_ok_def is_idle_def)
next
  case True
  let ?p = "principalOf sc" and ?S = "AList.update sc (st\<lparr>bs_idle := False\<rparr>) (mm_sessions m)"
  let ?h = "\<lparr>h_states = int (length (scopes_of ?p (map fst (mm_sessions m)))), h_idle = scopes_of ?p (mm_idle m)\<rparr>"
  define m' where "m' = m\<lparr>mm_idle := remove1 sc (mm_idle m),
    mm_holders := AList.update ?p (?h\<lparr>h_idle := remove1 sc (h_idle ?h)\<rparr>) (mm_holders m), mm_sessions := ?S\<rparr>"
  have run: "busyLocked sc st m = Some m'"
    using True holder_exists [OF assms] by (simp add: busyLocked_def m'_def)
  have keys: "map fst ?S = map fst (mm_sessions m)" using keys_update [OF assms(2)] .
  have idle: "x \<in> set (mm_idle m') \<longleftrightarrow> is_idle m' x" for x
    using assms(1) by (auto simp: m'_def table_ok_def is_idle_def update_conv)
  have "map_of (mm_holders m') = holder_of m'"
  proof
    fix p
    show "map_of (mm_holders m') p = holder_of m' p"
      using assms(1) holder_exists [OF assms]
      by (auto simp: m'_def table_ok_def holder_of_def update_conv keys Let_def scopes_of_remove1)
  qed
  then have ok: "table_ok m'" using assms(1) idle keys
    by (simp add: table_ok_def m'_def distinct_update)
  have "sc \<notin> set (mm_idle m')" using idle [of sc] by (simp add: is_idle_def m'_def update_conv)
  with run ok keys show ?thesis
    by (intro that [of m']) (simp_all add: m'_def same_env_def update_conv')
qed

lemma dropLocked_ok:
  assumes "table_ok m" and "map_of (mm_sessions m) sc = Some st"
  obtains m' where "dropLocked sc m = Some m'" "table_ok m'" "same_env m m'"
    "map_of (mm_sessions m') = (map_of (mm_sessions m))(sc := None)"
    "map fst (mm_sessions m') = removeAll sc (map fst (mm_sessions m))"
proof -
  let ?p = "principalOf sc"
  obtain m1 where m1: "busyLocked sc st m = Some m1" "table_ok m1" "same_env m m1"
    "map_of (mm_sessions m1) = (map_of (mm_sessions m))(sc \<mapsto> st\<lparr>bs_idle := False\<rparr>)"
    "map fst (mm_sessions m1) = map fst (mm_sessions m)" "sc \<notin> set (mm_idle m1)"
    using busyLocked_ok [OF assms] by metis
  have sc1: "map_of (mm_sessions m1) sc = Some (st\<lparr>bs_idle := False\<rparr>)" using m1(4) by simp
  note h = holder_exists [OF m1(2) sc1]
  let ?own = "scopes_of ?p (map fst (mm_sessions m1))"
  have own: "sc \<in> set ?own" "distinct ?own" "sc \<in> set (map fst (mm_sessions m1))"
    using map_of_key [OF sc1] m1(2) by (auto simp: in_scopes_of table_ok_def scopes_of_def)
  define m' where "m' = m1\<lparr>mm_sessions := AList.delete sc (mm_sessions m1),
    mm_holders := (if int (length ?own) \<le> 1 then AList.delete ?p (mm_holders m1)
      else AList.update ?p \<lparr>h_states = int (length ?own) - 1, h_idle = scopes_of ?p (mm_idle m1)\<rparr> (mm_holders m1))\<rparr>"
  have run: "dropLocked sc m = Some m'"
    using assms(2) m1(1) h by (simp add: dropLocked_def m'_def)
  have keys: "map fst (mm_sessions m') = removeAll sc (map fst (mm_sessions m1))"
    by (simp add: m'_def delete_keys)
  have idle': "mm_idle m' = mm_idle m1" by (simp add: m'_def)
  have len: "length (removeAll sc ?own) = length ?own - 1" "length ?own \<ge> 1"
    using length_removeAll_distinct [OF own(2,1)] own(1) by (auto simp: Suc_le_eq)
  have "map_of (mm_holders m') p = holder_of m' p" for p
  proof (cases "p = ?p")
    case False
    then have "map_of (mm_holders m') p = holder_of m1 p"
      using m1(2) by (simp add: m'_def update_conv delete_conv table_ok_def)
    then show ?thesis using False by (simp add: holder_of_def keys idle' scopes_of_removeAll removeAll_idem Let_def)
  next
    case True
    have nil: "removeAll sc ?own = [] \<longleftrightarrow> length ?own \<le> 1" unfolding length_0_conv [symmetric] len(1) by simp
    have "holder_of m' p = (if length ?own \<le> 1 then None
      else Some \<lparr>h_states = int (length ?own) - 1, h_idle = scopes_of ?p (mm_idle m1)\<rparr>)"
      using True len(2) by (simp add: holder_of_def keys idle' scopes_of_removeAll nil len(1) of_nat_diff Let_def)
    then show ?thesis using True by (simp add: m'_def update_conv delete_conv)
  qed
  then have hs: "map_of (mm_holders m') = holder_of m'" by (rule ext)
  have idle: "x \<in> set (mm_idle m') \<longleftrightarrow> is_idle m' x" for x
    using m1(2,6) sc1 by (auto simp: m'_def table_ok_def is_idle_def delete_conv)
  have "table_ok m'" using m1(2) hs idle
    by (simp add: table_ok_def keys distinct_removeAll) (simp add: m'_def distinct_update distinct_delete)
  moreover have "map_of (mm_sessions m') = (map_of (mm_sessions m))(sc := None)"
    by (simp add: m'_def delete_conv' m1(4))
  moreover have "same_env m m'" using m1(3) by (simp add: same_env_def m'_def)
  ultimately show ?thesis using run keys m1(5) by (intro that [of m']) simp_all
qed

lemma dropLocked_length_eq:
  assumes "table_ok m" and "map_of (mm_sessions m) sc = Some st"
    and "map fst (mm_sessions m') = removeAll sc (map fst (mm_sessions m))"
  shows "length (mm_sessions m') + 1 = length (mm_sessions m)"
proof -
  have "length (map fst (mm_sessions m')) = length (map fst (mm_sessions m)) - 1"
    unfolding assms(3) by (rule length_removeAll_distinct) (use assms(1) map_of_key [OF assms(2)] in \<open>auto simp: table_ok_def\<close>)
  moreover have "mm_sessions m \<noteq> []" using assms(2) by auto
  ultimately show ?thesis by (cases "mm_sessions m") auto
qed

section \<open>Pruning\<close>

text \<open>Pruning drops idle states only.\<close>

definition drops_idle :: "memory_manager \<Rightarrow> memory_manager \<Rightarrow> bool" where
  "drops_idle m m' \<longleftrightarrow> same_env m m' \<and> table_ok m' \<and> length (mm_sessions m') \<le> length (mm_sessions m) \<and>
     (\<forall>sc. map_of (mm_sessions m') sc = map_of (mm_sessions m) sc \<or>
           map_of (mm_sessions m') sc = None \<and> is_idle m sc)"

lemma drops_idle_trans:
  assumes "drops_idle a b" "drops_idle b c"
  shows "drops_idle a c"
proof -
  have "map_of (mm_sessions c) sc = map_of (mm_sessions a) sc \<or> map_of (mm_sessions c) sc = None \<and> is_idle a sc" for sc
    using assms unfolding drops_idle_def is_idle_def by metis
  with assms show ?thesis by (auto simp: drops_idle_def intro: same_env_trans)
qed

lemma drop_idle:
  assumes "table_ok m" and "sc \<in> set (mm_idle m)"
  obtains m' where "dropLocked sc m = Some m'" "drops_idle m m'" "length (mm_sessions m') + 1 = length (mm_sessions m)"
    "map_of (mm_sessions m') sc = None"
proof -
  have i: "is_idle m sc" using assms by (simp add: table_ok_def)
  then obtain st where st: "map_of (mm_sessions m) sc = Some st" by (auto simp: is_idle_def split: option.splits)
  obtain m' where m': "dropLocked sc m = Some m'" "table_ok m'" "same_env m m'"
    "map_of (mm_sessions m') = (map_of (mm_sessions m))(sc := None)"
    "map fst (mm_sessions m') = removeAll sc (map fst (mm_sessions m))" using dropLocked_ok [OF assms(1) st] by metis
  have len: "length (mm_sessions m') + 1 = length (mm_sessions m)" by (rule dropLocked_length_eq [OF assms(1) st m'(5)])
  with m' i have "drops_idle m m'" by (simp add: drops_idle_def)
  with m' len show ?thesis by (intro that [of m']) simp_all
qed

lemma pruneLocked_ok:
  "table_ok m \<Longrightarrow> \<exists>m'. pruneLocked now m = Some m' \<and> drops_idle m m'"
proof (induction now m rule: pruneLocked.induct)
  case (1 now m)
  have refl: "drops_idle m m" using 1 by (simp add: drops_idle_def)
  show ?case
  proof (cases "mm_idle m")
    case Nil
    then show ?thesis using refl by (simp add: pruneLocked.simps)
  next
    case (Cons sc rest)
    then have i: "is_idle m sc" "sc \<in> set (mm_idle m)" using "1.prems" by (auto simp: table_ok_def)
    then obtain st where st: "map_of (mm_sessions m) sc = Some st" by (auto simp: is_idle_def split: option.splits)
    show ?thesis
    proof (cases "now - bs_touched st < mm_ttl m")
      case True
      then show ?thesis using refl Cons st by (simp add: pruneLocked.simps)
    next
      case False
      obtain m1 where m1: "dropLocked sc m = Some m1" "drops_idle m m1" using drop_idle [OF "1.prems" i(2)] by metis
      with "1.IH" [OF Cons st False m1(1)] obtain m' where "pruneLocked now m1 = Some m'" "drops_idle m1 m'"
        by (auto simp: drops_idle_def)
      with m1 Cons st False show ?thesis by (subst pruneLocked.simps) (auto intro: drops_idle_trans)
    qed
  qed
qed

section \<open>Making room\<close>

lemma table_holder:
  assumes "table_ok m" and "(p, h) \<in> set (mm_holders m)"
  shows "h_idle h = scopes_of p (mm_idle m)" and "h_states h = int (length (scopes_of p (map fst (mm_sessions m))))"
proof -
  have "map_of (mm_holders m) p = Some h" using assms by (intro map_of_is_SomeI) (simp_all add: table_ok_def)
  then have "holder_of m p = Some h" using assms(1) by (simp add: table_ok_def)
  then show "h_idle h = scopes_of p (mm_idle m)" and "h_states h = int (length (scopes_of p (map fst (mm_sessions m))))"
    by (auto simp: holder_of_def Let_def split: if_splits)
qed

lemma idle_front:
  assumes "table_ok m" and "scopes_of p (mm_idle m) \<noteq> []"
  shows "hd (scopes_of p (mm_idle m)) \<in> set (mm_idle m)" and "principalOf (hd (scopes_of p (mm_idle m))) = p"
    and "\<exists>st. map_of (mm_sessions m) (hd (scopes_of p (mm_idle m))) = Some st"
proof -
  have "hd (scopes_of p (mm_idle m)) \<in> set (scopes_of p (mm_idle m))" using assms(2) by simp
  then show *: "hd (scopes_of p (mm_idle m)) \<in> set (mm_idle m)" and "principalOf (hd (scopes_of p (mm_idle m))) = p"
    unfolding in_scopes_of by blast+
  from * assms(1) show "\<exists>st. map_of (mm_sessions m) (hd (scopes_of p (mm_idle m))) = Some st"
    by (auto simp: table_ok_def is_idle_def split: option.splits)
qed

lemma table_lru:
  assumes "table_ok m" and "(p, h) \<in> set (mm_holders m)" and "h_idle h \<noteq> []"
  shows "\<exists>t. lruLocked m h = Some t"
  using idle_front(3) [OF assms(1), of p] assms(3) table_holder(1) [OF assms(1,2)] by (auto simp: lruLocked_def)

text \<open>The loop picks a holder with an idle state, and one with the most states among them.\<close>

definition best :: "memory_manager \<Rightarrow> (principal_key \<times> holder) list \<Rightarrow> holder option \<Rightarrow> bool" where
  "best m hs r \<longleftrightarrow> (\<forall>(p, h)\<in>set hs. h_idle h \<noteq> [] \<longrightarrow> (\<exists>b. r = Some b \<and> h_states h \<le> h_states b)) \<and>
     (case r of None \<Rightarrow> True | Some b \<Rightarrow> h_idle b \<noteq> [] \<and> b \<in> snd ` set hs)"

lemma most_holder_best:
  assumes "\<forall>(p, h)\<in>set (done @ hs). h_idle h \<noteq> [] \<longrightarrow> (\<exists>t. lruLocked m h = Some t)" and "best m done most"
  shows "\<exists>r. most_holder m hs most = Some r \<and> best m (done @ hs) r"
  using assms
proof (induction hs arbitrary: "done" most)
  case Nil
  then show ?case by simp
next
  case (Cons ph hs)
  obtain p h where ph: "ph = (p, h)" by fastforce
  have step: "\<exists>r. most_holder m hs most' = Some r \<and> best m (done @ ph # hs) r" if "best m (done @ [ph]) most'" for most'
    using Cons.IH [of "done @ [ph]" most'] Cons.prems(1) that by simp
  show ?case
  proof (cases "h_idle h = []")
    case True
    then have "best m (done @ [ph]) most" using Cons.prems(2) ph by (auto simp: best_def split: option.splits)
    with step True ph show ?thesis by simp
  next
    case False
    have new: "best m (done @ [ph]) (Some h)" if "\<And>b. most = Some b \<Longrightarrow> h_states b \<le> h_states h"
      using that Cons.prems(2) False ph unfolding best_def by (fastforce split: option.splits)
    have old: "best m (done @ [ph]) most" if "most = Some b" "h_states h \<le> h_states b" for b
      using that Cons.prems(2) False ph unfolding best_def by (auto split: option.splits)
    show ?thesis
    proof (cases most)
      case None
      with new step False ph show ?thesis by simp
    next
      case (Some b)
      obtain t where t: "lruLocked m h = Some t" using Cons.prems(1) ph False by auto
      from Some Cons.prems(2) obtain q where "(q, b) \<in> set done" "h_idle b \<noteq> []" by (auto simp: best_def)
      then obtain t' where t': "lruLocked m b = Some t'" using Cons.prems(1) by force
      consider "h_states h > h_states b" | "h_states h = h_states b" | "h_states h < h_states b" by linarith
      then show ?thesis
      proof cases
        case 1
        with new step False ph Some show ?thesis by simp
      next
        case 2
        then have "best m (done @ [ph]) (if t < t' then Some h else most)" using new old Some by auto
        with step False ph Some 2 t t' show ?thesis by (cases "t < t'") simp_all
      next
        case 3
        with old step False ph Some show ?thesis by simp
      qed
    qed
  qed
qed

definition states_of :: "memory_manager \<Rightarrow> principal_key \<Rightarrow> nat" where
  "states_of m p = length (scopes_of p (map fst (mm_sessions m)))"

lemma states_pos:
  assumes "table_ok m" and "scopes_of q (mm_idle m) \<noteq> []"
  shows "0 < states_of m q"
proof -
  obtain st where "map_of (mm_sessions m) (hd (scopes_of q (mm_idle m))) = Some st" using idle_front(3) [OF assms] by blast
  from map_of_key [OF this] have "hd (scopes_of q (mm_idle m)) \<in> set (scopes_of q (map fst (mm_sessions m)))"
    unfolding in_scopes_of using idle_front(2) [OF assms] by simp
  then show ?thesis unfolding states_of_def by (rule length_pos_if_in_set)
qed

text \<open>
  The state a full table drops: an idle one, of the principal itself when it has one, otherwise of a
  principal that holds more states and as many as any with an idle one.
\<close>

definition fair_victim :: "memory_manager \<Rightarrow> principal_key \<Rightarrow> scope \<Rightarrow> bool" where
  "fair_victim m p v \<longleftrightarrow> v \<in> set (mm_idle m) \<and>
     (principalOf v = p \<or> scopes_of p (mm_idle m) = [] \<and> states_of m p < states_of m (principalOf v) \<and>
       (\<forall>q. scopes_of q (mm_idle m) \<noteq> [] \<longrightarrow> states_of m q \<le> states_of m (principalOf v)))"

lemma victimLocked_ok:
  assumes "table_ok m"
  shows "\<exists>r. victimLocked p m = Some r \<and> (\<forall>v. r = Some v \<longrightarrow> fair_victim m p v)"
proof (cases "scopes_of p (mm_idle m) = []")
  case False
  from idle_front [OF assms False] obtain st where f: "hd (scopes_of p (mm_idle m)) \<in> set (mm_idle m)"
    "principalOf (hd (scopes_of p (mm_idle m))) = p" "map_of (mm_sessions m) (hd (scopes_of p (mm_idle m))) = Some st" by blast
  then have "map_of (mm_holders m) p = Some \<lparr>h_states = int (states_of m p), h_idle = scopes_of p (mm_idle m)\<rparr>"
    using holder_exists [OF assms f(3)] by (simp add: states_of_def)
  with False f show ?thesis by (auto simp: victimLocked_def fair_victim_def)
next
  case True
  let ?own = "map_of (mm_holders m) p"
  have own: "h_idle h = [] \<and> h_states h = int (states_of m p)" if "?own = Some h" for h
    using that table_holder [OF assms map_of_SomeD [OF that]] True by (simp add: states_of_def)
  have none: "states_of m p = 0" if "?own = None"
    using that assms by (auto simp: table_ok_def holder_of_def Let_def states_of_def split: if_splits)
  have "\<forall>(p, h)\<in>set (mm_holders m). h_idle h \<noteq> [] \<longrightarrow> (\<exists>t. lruLocked m h = Some t)"
    using table_lru [OF assms] by blast
  then obtain r where r: "most_holder m (mm_holders m) None = Some r" "best m (mm_holders m) r"
    using most_holder_best [of "[]" "mm_holders m" m None] by (auto simp: best_def)
  have fair: "fair_victim m p (hd (h_idle b))" if b: "r = Some b" "\<forall>h. ?own = Some h \<longrightarrow> h_states h < h_states b" for b
  proof -
    from b(1) r(2) obtain q where q: "(q, b) \<in> set (mm_holders m)" "h_idle b \<noteq> []" by (auto simp: best_def)
    note th = table_holder [OF assms q(1)]
    then have pv: "principalOf (hd (h_idle b)) = q" "hd (h_idle b) \<in> set (mm_idle m)"
      using idle_front [OF assms, of q] q(2) by auto
    have pos: "0 < states_of m q" using states_pos [OF assms, of q] q(2) th(1) by simp
    have less: "states_of m p < states_of m q"
      using b(2) own none pos th(2) by (cases ?own) (auto simp: states_of_def)
    have "states_of m q' \<le> states_of m q" if "scopes_of q' (mm_idle m) \<noteq> []" for q'
    proof -
      from idle_front [OF assms that] obtain st' where i: "map_of (mm_sessions m) (hd (scopes_of q' (mm_idle m))) = Some st'"
        "principalOf (hd (scopes_of q' (mm_idle m))) = q'" by blast
      from map_of_SomeD [OF holder_exists [OF assms i(1)]] have "(q', \<lparr>h_states = int (states_of m q'), h_idle = scopes_of q' (mm_idle m)\<rparr>) \<in> set (mm_holders m)"
        by (simp add: i(2) states_of_def)
      with r(2) b(1) that th(2) show ?thesis by (fastforce simp: best_def states_of_def)
    qed
    with pv less True show ?thesis by (simp add: fair_victim_def)
  qed
  have "(case ?own of Some h \<Rightarrow> h_idle h \<noteq> [] | None \<Rightarrow> False) = False" using own by (auto split: option.split)
  then have run: "victimLocked p m = (case r of None \<Rightarrow> Some None
      | Some b \<Rightarrow> if (case ?own of Some h \<Rightarrow> h_states b \<le> h_states h | None \<Rightarrow> False) then Some None
                  else Some (Some (hd (h_idle b))))"
    by (simp add: victimLocked_def Let_def r(1))
  show ?thesis
  proof (cases r)
    case (Some b)
    then show ?thesis using fair [of b]
      by (cases "case ?own of Some h \<Rightarrow> h_states b \<le> h_states h | None \<Rightarrow> False") (auto simp: run split: option.splits)
  qed (simp add: run)
qed

section \<open>The state of a scope\<close>

definition new_state :: "int \<Rightarrow> bstate" where
  "new_state now = \<lparr>bs_inflight = 0, bs_cost = 0, bs_reserved = 0, bs_touched = now, bs_closed = False, bs_idle = True\<rparr>"

text \<open>The table after a scope got its state: idle states of other scopes may have made room.\<close>

definition admits :: "scope \<Rightarrow> int \<Rightarrow> memory_manager \<Rightarrow> memory_manager \<Rightarrow> bool" where
  "admits sc now m m' \<longleftrightarrow> same_env m m' \<and> table_ok m' \<and>
     (int (length (mm_sessions m)) \<le> mm_maxStates m \<longrightarrow> int (length (mm_sessions m')) \<le> mm_maxStates m') \<and>
     map_of (mm_sessions m') sc = (case map_of (mm_sessions m) sc of Some st \<Rightarrow> Some st | None \<Rightarrow> Some (new_state now)) \<and>
     (\<forall>x. x \<noteq> sc \<longrightarrow> map_of (mm_sessions m') x = map_of (mm_sessions m) x \<or>
        map_of (mm_sessions m') x = None \<and> is_idle m x)"

text \<open>A new state at the end of the table.\<close>

definition own_holder :: "memory_manager \<Rightarrow> principal_key \<Rightarrow> holder" where
  "own_holder m p = (case map_of (mm_holders m) p of Some h \<Rightarrow> h | None \<Rightarrow> \<lparr>h_states = 0, h_idle = []\<rparr>)"

definition add_state :: "scope \<Rightarrow> int \<Rightarrow> memory_manager \<Rightarrow> memory_manager" where
  "add_state sc now m = (let p = principalOf sc in
     m\<lparr>mm_holders := AList.update p ((own_holder m p)\<lparr>h_states := h_states (own_holder m p) + 1\<rparr>) (mm_holders m),
       mm_sessions := AList.update sc ((new_state now)\<lparr>bs_idle := False\<rparr>) (mm_sessions m)\<rparr>)"

lemma add_state_ok:
  fixes now :: int
  assumes "table_ok m" and "map_of (mm_sessions m) sc = None"
  defines "p \<equiv> principalOf sc" and "h \<equiv> own_holder m (principalOf sc)" and "m1 \<equiv> add_state sc now m"
  shows "table_ok m1" and "length (mm_sessions m1) = length (mm_sessions m) + 1"
proof -
  have m1_def: "m1 = m\<lparr>mm_holders := AList.update p (h\<lparr>h_states := h_states h + 1\<rparr>) (mm_holders m),
    mm_sessions := AList.update sc ((new_state now)\<lparr>bs_idle := False\<rparr>) (mm_sessions m)\<rparr>"
    by (simp add: m1_def add_state_def p_def h_def Let_def)
  have new: "sc \<notin> fst ` set (mm_sessions m)" using assms(2) by (simp add: map_of_eq_None_iff)
  then have keys: "map fst (mm_sessions m1) = map fst (mm_sessions m) @ [sc]" by (simp add: m1_def update_keys)
  then show "length (mm_sessions m1) = length (mm_sessions m) + 1" by (metis length_append_singleton length_map Suc_eq_plus1)
  have idle1: "mm_idle m1 = mm_idle m" by (simp add: m1_def)
  have noidle: "sc \<notin> set (mm_idle m)" using assms(1,2) by (simp add: table_ok_def is_idle_def)
  have own_def: "h = (case map_of (mm_holders m) p of Some h \<Rightarrow> h | None \<Rightarrow> \<lparr>h_states = 0, h_idle = []\<rparr>)"
    by (simp add: h_def own_holder_def p_def)
  have hp: "h = \<lparr>h_states = int (length (scopes_of p (map fst (mm_sessions m)))), h_idle = scopes_of p (mm_idle m)\<rparr>"
  proof (cases "scopes_of p (map fst (mm_sessions m)) = []")
    case True
    have "scopes_of p (mm_idle m) = []"
      using states_pos [OF assms(1), of p] True by (auto simp: states_of_def)
    moreover have "map_of (mm_holders m) p = None" using True assms(1) by (simp add: table_ok_def holder_of_def)
    ultimately show ?thesis using True by (simp add: own_def)
  next
    case False
    then show ?thesis using assms(1) by (simp add: own_def table_ok_def holder_of_def Let_def)
  qed
  have "map_of (mm_holders m1) q = holder_of m1 q" for q
  proof (cases "q = p")
    case True
    then show ?thesis by (simp add: holder_of_def keys idle1 p_def [symmetric] Let_def) (simp add: m1_def update_conv hp)
  next
    case False
    then have "holder_of m1 q = holder_of m q" by (simp add: holder_of_def keys idle1 p_def [symmetric] Let_def)
    with False assms(1) show ?thesis by (simp add: m1_def update_conv table_ok_def)
  qed
  then have "map_of (mm_holders m1) = holder_of m1" by (rule ext)
  moreover have "x \<in> set (mm_idle m1) \<longleftrightarrow> is_idle m1 x" for x
    using assms(1) noidle by (auto simp: idle1 table_ok_def is_idle_def m1_def update_conv assms(2))
  ultimately show "table_ok m1" using assms(1) new
    by (simp add: table_ok_def keys idle1) (simp add: m1_def distinct_update)
qed

lemma acquireStateLocked_ok:
  assumes "table_ok m" and "0 < mm_maxStates m"
  shows "acquireStateLocked sc now m = Some (False, m) \<or>
    (\<exists>m'. acquireStateLocked sc now m = Some (True, m') \<and> admits sc now m m')"
proof (cases "map_of (mm_sessions m) sc")
  case (Some st)
  then show ?thesis using assms(1) by (simp add: acquireStateLocked_def admits_def)
next
  case None
  let ?p = "principalOf sc" and ?st = "(new_state now)\<lparr>bs_idle := False\<rparr>"
  let ?full = "int (length (mm_sessions m)) \<ge> mm_maxStates m"
  have insert_ok: "\<exists>m'. idleLocked sc ?st (add_state sc now m0) = Some m' \<and> admits sc now m m'"
    if m0: "drops_idle m m0" and sz: "int (length (mm_sessions m)) \<le> mm_maxStates m \<longrightarrow> int (length (mm_sessions m0)) < mm_maxStates m"
    for m0
  proof -
    have none: "map_of (mm_sessions m0) sc = None" using m0 None unfolding drops_idle_def by metis
    have t0: "table_ok m0" using m0 by (simp add: drops_idle_def)
    have add: "table_ok (add_state sc now m0)" "length (mm_sessions (add_state sc now m0)) = length (mm_sessions m0) + 1"
      using add_state_ok [OF t0 none] by simp_all
    have sess: "map_of (mm_sessions (add_state sc now m0)) = (map_of (mm_sessions m0))(sc \<mapsto> ?st)" by (simp add: add_state_def Let_def update_conv')
    obtain m' where m': "idleLocked sc ?st (add_state sc now m0) = Some m'" "table_ok m'" "same_env (add_state sc now m0) m'"
      "map_of (mm_sessions m') = (map_of (mm_sessions (add_state sc now m0)))(sc \<mapsto> ?st\<lparr>bs_idle := True\<rparr>)"
      "length (mm_sessions m') = length (mm_sessions (add_state sc now m0))"
      using idleLocked_ok [OF add(1), of sc ?st ?st] sess by auto
    have "same_env m m'" using m0 m'(3) by (simp add: drops_idle_def same_env_def add_state_def Let_def)
    then have "admits sc now m m'"
      using m0 m'(2,4,5) add(2) sz None sess by (auto simp: admits_def drops_idle_def new_state_def same_env_def)
    with m'(1) show ?thesis by blast
  qed
  have st_eq: "?st = \<lparr>bs_inflight = 0, bs_cost = 0, bs_reserved = 0, bs_touched = now, bs_closed = False, bs_idle = False\<rparr>"
    by (simp add: new_state_def)
  have run: "acquireStateLocked sc now m =
    Option.bind (if ?full then Option.bind (victimLocked ?p m)
        (\<lambda>v. case v of None \<Rightarrow> Some None | Some v \<Rightarrow> map_option Some (dropLocked v m)) else Some (Some m))
      (\<lambda>room. case room of None \<Rightarrow> Some (False, m)
        | Some m0 \<Rightarrow> Option.bind (idleLocked sc ?st (add_state sc now m0)) (\<lambda>m. Some (True, m)))"
    using None unfolding acquireStateLocked_def add_state_def own_holder_def Let_def st_eq by simp
  show ?thesis
  proof (cases ?full)
    case False
    have "drops_idle m m" using assms(1) by (simp add: drops_idle_def)
    from insert_ok [OF this] False show ?thesis by (auto simp: run)
  next
    case True
    obtain r where r: "victimLocked ?p m = Some r" "\<And>v. r = Some v \<Longrightarrow> v \<in> set (mm_idle m)"
      using victimLocked_ok [OF assms(1), of ?p] unfolding fair_victim_def by blast
    show ?thesis
    proof (cases r)
      case None
      with True r show ?thesis by (simp add: run)
    next
      case (Some v)
      obtain m0 where m0: "dropLocked v m = Some m0" "drops_idle m m0" "length (mm_sessions m0) + 1 = length (mm_sessions m)"
        using drop_idle [OF assms(1) r(2) [OF Some]] by metis
      from insert_ok [OF m0(2)] m0(3) obtain m' where "idleLocked sc ?st (add_state sc now m0) = Some m'" "admits sc now m m'" by auto
      with True r Some m0(1) show ?thesis by (simp add: run)
    qed
  qed
qed

end
