(* ===== verification/Budget_Props.thy ===== *)
theory Budget_Props
  imports Budget_Laws
begin

text \<open>
  The budget manager as a system: its state and the outstanding leases, with one step per call. In every
  reachable state the table accounts for the outstanding leases exactly, no call can panic, and a lease is
  granted only within the limits in force.
\<close>

section \<open>Accounts\<close>

definition leases_in :: "lease list \<Rightarrow> scope \<Rightarrow> lease list" where
  "leases_in ls sc = filter (\<lambda>l. le_scope l = sc) ls"

definition tenant_leases :: "lease list \<Rightarrow> string \<Rightarrow> lease list" where
  "tenant_leases ls t = filter (\<lambda>l. s_Tenant (le_scope l) = t) ls"

definition accounts_for :: "lease list \<Rightarrow> scope \<Rightarrow> bstate \<Rightarrow> bool" where
  "accounts_for ls sc st \<longleftrightarrow> bs_inflight st = int (length (leases_in ls sc)) \<and>
     bs_reserved st = wrap64 (sum_list (map le_reservedCost (leases_in ls sc))) \<and>
     (bs_idle st \<longleftrightarrow> leases_in ls sc = [])"

definition accounts :: "memory_manager \<Rightarrow> lease list \<Rightarrow> bool" where
  "accounts m ls \<longleftrightarrow>
     (\<forall>sc st. map_of (mm_sessions m) sc = Some st \<longrightarrow> accounts_for ls sc st) \<and>
     (\<forall>l\<in>set ls. map_of (mm_sessions m) (le_scope l) \<noteq> None \<and> \<not> le_done l) \<and>
     (\<forall>t. t \<noteq> [] \<longrightarrow> mm_inflight m t = int (length (tenant_leases ls t))) \<and>
     0 < mm_maxStates m \<and> int (length (mm_sessions m)) \<le> mm_maxStates m"

lemma leases_in_simps [simp]:
  "leases_in [] sc = []" "leases_in (l # ls) sc = (if le_scope l = sc then l # leases_in ls sc else leases_in ls sc)"
  by (simp_all add: leases_in_def)

lemma tenant_leases_simps [simp]:
  "tenant_leases [] t = []"
  "tenant_leases (l # ls) t = (if s_Tenant (le_scope l) = t then l # tenant_leases ls t else tenant_leases ls t)"
  by (simp_all add: tenant_leases_def)

lemma leases_in_Nil: "leases_in ls sc = [] \<longleftrightarrow> (\<forall>l\<in>set ls. le_scope l \<noteq> sc)"
  by (auto simp: leases_in_def filter_empty_conv)

lemma accounts_no_leases:
  "accounts m ls \<Longrightarrow> map_of (mm_sessions m) sc = None \<Longrightarrow> leases_in ls sc = []"
  by (auto simp: accounts_def leases_in_Nil)

lemma accounts_idle: "accounts m ls \<Longrightarrow> is_idle m sc \<Longrightarrow> leases_in ls sc = []"
  by (auto simp: accounts_def accounts_for_def is_idle_def split: option.splits)

lemma accounts_new_state: "leases_in ls sc = [] \<Longrightarrow> accounts_for ls sc (new_state now)"
  by (simp add: accounts_for_def new_state_def wrap64_def)

lemma table_ok_fields [simp]:
  "table_ok (m\<lparr>mm_inflight := f\<rparr>) = table_ok m" "table_ok (m\<lparr>mm_roles := a\<rparr>) = table_ok m"
  "table_ok (m\<lparr>mm_tenants := a\<rparr>) = table_ok m"
  by (simp_all add: table_ok_def is_idle_def holder_of_def [abs_def] Let_def cong: if_cong)

lemma same_env_limits:
  "same_env m m' \<Longrightarrow> limits_of m' = limits_of m" "same_env m m' \<Longrightarrow> tenantConcurrency m' = tenantConcurrency m"
  by (simp_all add: same_env_def limits_of_def tenantConcurrency_def fun_eq_iff)

text \<open>Dropping idle states keeps the accounts.\<close>

lemma accounts_drops:
  assumes "accounts m ls" and "drops_idle m m'"
  shows "accounts m' ls"
proof -
  have *: "map_of (mm_sessions m') sc = map_of (mm_sessions m) sc \<or> map_of (mm_sessions m') sc = None \<and> leases_in ls sc = []" for sc
    using assms accounts_idle [OF assms(1)] unfolding drops_idle_def by blast
  have "accounts_for ls sc st" if "map_of (mm_sessions m') sc = Some st" for sc st
    using that * [of sc] assms(1) by (auto simp: accounts_def)
  moreover have "map_of (mm_sessions m') (le_scope l) \<noteq> None \<and> \<not> le_done l" if "l \<in> set ls" for l
    using that * [of "le_scope l"] assms(1) leases_in_Nil [of ls "le_scope l"] unfolding accounts_def by metis
  ultimately show ?thesis using assms by (auto simp: accounts_def drops_idle_def same_env_def)
qed

lemma accounts_admits:
  assumes "accounts m ls" and "admits sc now m m'"
  shows "accounts m' ls"
proof -
  have *: "map_of (mm_sessions m') x = map_of (mm_sessions m) x \<or> map_of (mm_sessions m') x = None \<and> leases_in ls x = []"
    if "x \<noteq> sc" for x
    using that assms accounts_idle [OF assms(1)] unfolding admits_def by blast
  have sc: "\<exists>st. map_of (mm_sessions m') sc = Some st \<and> accounts_for ls sc st"
  proof (cases "map_of (mm_sessions m) sc")
    case None
    with accounts_new_state [OF accounts_no_leases [OF assms(1) None]] assms(2) show ?thesis by (simp add: admits_def)
  next
    case (Some st)
    with assms show ?thesis by (auto simp: admits_def accounts_def)
  qed
  have "accounts_for ls x st" if "map_of (mm_sessions m') x = Some st" for x st
    using that * [of x] sc assms(1) by (cases "x = sc") (auto simp: accounts_def)
  moreover have "map_of (mm_sessions m') (le_scope l) \<noteq> None \<and> \<not> le_done l" if "l \<in> set ls" for l
  proof -
    have l: "map_of (mm_sessions m) (le_scope l) \<noteq> None" "\<not> le_done l" using that assms(1) by (auto simp: accounts_def)
    have "leases_in ls (le_scope l) \<noteq> []" using that by (auto simp: leases_in_Nil)
    with l sc * [of "le_scope l"] show ?thesis by (cases "le_scope l = sc") auto
  qed
  ultimately show ?thesis using assms by (auto simp: accounts_def admits_def same_env_def)
qed

definition inv_ok :: "memory_manager \<Rightarrow> lease list \<Rightarrow> bool" where
  "inv_ok m ls \<longleftrightarrow> table_ok m \<and> accounts m ls"

text \<open>Writing the state of one scope with the accounts of the leases after a call.\<close>

lemma accounts_set:
  assumes "accounts m ls" and "map_of (mm_sessions m') = (map_of (mm_sessions m))(sc \<mapsto> st)"
    and "accounts_for ls' sc st" and "\<And>x. x \<noteq> sc \<Longrightarrow> leases_in ls' x = leases_in ls x"
    and "\<forall>l\<in>set ls'. \<not> le_done l" and "\<And>t. t \<noteq> [] \<Longrightarrow> mm_inflight m' t = int (length (tenant_leases ls' t))"
    and "mm_maxStates m' = mm_maxStates m" and "length (mm_sessions m') = length (mm_sessions m)"
  shows "accounts m' ls'"
proof -
  have "accounts_for ls' x st'" if "map_of (mm_sessions m') x = Some st'" for x st'
    using that assms(1-4) by (cases "x = sc") (auto simp: accounts_def accounts_for_def)
  moreover have "map_of (mm_sessions m') (le_scope l) \<noteq> None" if l: "l \<in> set ls'" for l
  proof (cases "le_scope l = sc")
    case True
    then show ?thesis by (simp add: assms(2))
  next
    case False
    then have "leases_in ls (le_scope l) \<noteq> []" using assms(4) [OF False] leases_in_Nil [of ls' "le_scope l"] l by auto
    then show ?thesis using accounts_no_leases [OF assms(1)] False by (auto simp: assms(2))
  qed
  ultimately show ?thesis using assms(1,5-8) by (simp add: accounts_def)
qed

section \<open>Granting a lease\<close>

text \<open>
  The reservation check is the comparison of the exact sum, which the 64-bit differences never overflow in.
\<close>

lemma checkReservation_cost:
  assumes "checkReservationLimits l st r" and "0 < li_MaxSessionCost l" and "is_int64 (li_MaxSessionCost l)"
    and "0 \<le> bs_cost st" and "0 \<le> bs_reserved st"
  shows "bs_cost st + bs_reserved st + rs_Cost r \<le> li_MaxSessionCost l"
proof -
  have c: "bs_cost st < li_MaxSessionCost l" using assms(1,2) by (auto simp: checkReservationLimits_def split: if_splits)
  then have w: "wrap64 (li_MaxSessionCost l - bs_cost st) = li_MaxSessionCost l - bs_cost st"
    using assms(3,4) by (intro wrap64_id) (auto simp: is_int64_def)
  then have r: "bs_reserved st < li_MaxSessionCost l - bs_cost st"
    using assms(1,2) by (auto simp: checkReservationLimits_def split: if_splits)
  then have "wrap64 (li_MaxSessionCost l - bs_cost st - bs_reserved st) = li_MaxSessionCost l - bs_cost st - bs_reserved st"
    using assms(3-5) by (intro wrap64_id) (auto simp: is_int64_def)
  then show ?thesis using assms(1,2) w by (auto simp: checkReservationLimits_def split: if_splits)
qed

text \<open>What one call of \<^const>\<open>AcquireWithReservation\<close> does.\<close>

definition grants :: "scope \<Rightarrow> reservation \<Rightarrow> int \<Rightarrow> memory_manager \<Rightarrow> lease list \<Rightarrow> lease \<Rightarrow> memory_manager \<Rightarrow> bool" where
  "grants sc r now m ls l m' \<longleftrightarrow>
     le_scope l = sc \<and> \<not> le_done l \<and> le_limits l = limits_of m sc \<and> le_reservedCost l = rs_Cost (normalizeReservation r) \<and>
     (\<exists>st. accounts_for ls sc st \<and> checkReservationLimits (limits_of m sc) st (normalizeReservation r) \<and>
        map_of (mm_sessions m') sc = Some (st\<lparr>bs_idle := False, bs_inflight := bs_inflight st + 1,
          bs_reserved := wrap64 (bs_reserved st + le_reservedCost l), bs_touched := now\<rparr>)) \<and>
     (0 < tenantConcurrency m (s_Tenant sc) \<longrightarrow>
        int (length (tenant_leases ls (s_Tenant sc))) < tenantConcurrency m (s_Tenant sc))"

lemma accounts_for_grant:
  assumes "accounts_for ls sc st" and "le_scope l = sc"
  shows "accounts_for (l # ls) sc (st\<lparr>bs_idle := False, bs_inflight := bs_inflight st + 1,
    bs_reserved := wrap64 (bs_reserved st + le_reservedCost l), bs_touched := now\<rparr>)"
  using assms wrap64_add [of "sum_list (map le_reservedCost (leases_in ls sc))" "le_reservedCost l"]
  by (simp add: accounts_for_def add.commute)

lemma Acquire_grants:
  assumes "inv_ok m ls"
  obtains (refused) m' where "AcquireWithReservation sc r now m = Some (None, m')" "inv_ok m' ls"
  | (granted) l m' where "AcquireWithReservation sc r now m = Some (Some l, m')" "inv_ok m' (l # ls)"
      "grants sc r now m ls l m'"
proof -
  obtain m1 where m1: "pruneLocked now m = Some m1" "drops_idle m m1"
    using pruneLocked_ok assms by (auto simp: inv_ok_def)
  then have ok1: "table_ok m1" "accounts m1 ls" using accounts_drops assms by (auto simp: inv_ok_def drops_idle_def)
  have env: "limits_of m1 sc = limits_of m sc" "tenantConcurrency m1 = tenantConcurrency m"
    using m1(2) same_env_limits by (auto simp: drops_idle_def)
  let ?r = "normalizeReservation r" and ?t = "s_Tenant sc"
  have "0 < mm_maxStates m1" using ok1(2) by (simp add: accounts_def)
  from acquireStateLocked_ok [OF ok1(1) this, of sc now] show ?thesis
  proof (elim disjE exE conjE)
    assume "acquireStateLocked sc now m1 = Some (False, m1)"
    then have "AcquireWithReservation sc r now m = Some (None, m1)"
      using m1(1) by (simp add: AcquireWithReservation_def Let_def)
    then show ?thesis using ok1 by (intro refused [of m1]) (simp_all add: inv_ok_def)
  next
    fix m2 assume m2: "acquireStateLocked sc now m1 = Some (True, m2)" "admits sc now m1 m2"
    have ok2: "table_ok m2" "accounts m2 ls" using m2(2) accounts_admits [OF ok1(2) m2(2)] by (auto simp: admits_def)
    have env2: "tenantConcurrency m2 = tenantConcurrency m"
      using m2(2) env(2) same_env_limits(2) unfolding admits_def by metis
    obtain st where st: "map_of (mm_sessions m2) sc = Some st"
      using m2(2) by (auto simp: admits_def split: option.splits)
    have acc: "accounts_for ls sc st" using ok2(2) st by (simp add: accounts_def)
    let ?full = "tenantConcurrency m ?t > 0 \<and> mm_inflight m2 ?t \<ge> tenantConcurrency m ?t"
    show ?thesis
    proof (cases "checkReservationLimits (limits_of m sc) st ?r \<and> \<not> ?full")
      case False
      then have "AcquireWithReservation sc r now m = Some (None, m2)"
        using m1(1) m2(1) st env by (auto simp: AcquireWithReservation_def Let_def env2)
      then show ?thesis using ok2 by (intro refused [of m2]) (simp_all add: inv_ok_def)
    next
      case True
      define m3 where "m3 = (if ?t \<noteq> [] then m2\<lparr>mm_inflight := (mm_inflight m2)(?t := mm_inflight m2 ?t + 1)\<rparr> else m2)"
      have m3: "table_ok m3" "map_of (mm_sessions m3) sc = Some st" "mm_sessions m3 = mm_sessions m2"
        using ok2(1) st by (auto simp: m3_def)
      obtain m4 where m4: "busyLocked sc st m3 = Some m4" "table_ok m4" "same_env m3 m4"
        "map_of (mm_sessions m4) = (map_of (mm_sessions m3))(sc \<mapsto> st\<lparr>bs_idle := False\<rparr>)"
        "map fst (mm_sessions m4) = map fst (mm_sessions m3)" using busyLocked_ok [OF m3(1,2)] by metis
      define l where "l = \<lparr>le_scope = sc, le_limits = limits_of m sc, le_reservedCost = rs_Cost ?r, le_done = False, le_exceeded = False\<rparr>"
      let ?st = "st\<lparr>bs_idle := False, bs_inflight := bs_inflight st + 1,
        bs_reserved := wrap64 (bs_reserved st + rs_Cost ?r), bs_touched := now\<rparr>"
      define m5 where "m5 = m4\<lparr>mm_sessions := AList.update sc ?st (mm_sessions m4)\<rparr>"
      have run: "AcquireWithReservation sc r now m = Some (Some l, m5)"
        using m1(1) m2(1) st env True m4(1)
        by (simp add: AcquireWithReservation_def Let_def env2 m3_def [symmetric] l_def m5_def)
      have sc4: "map_of (mm_sessions m4) sc = Some (st\<lparr>bs_idle := False\<rparr>)" using m4(4) by simp
      have t5: "table_ok m5" unfolding m5_def by (rule table_set [OF m4(2) sc4]) simp
      have sess: "map_of (mm_sessions m5) = (map_of (mm_sessions m2))(sc \<mapsto> ?st)"
        by (simp add: m5_def update_conv' m4(4) m3(3))
      have "length (map fst (mm_sessions m5)) = length (map fst (mm_sessions m2))"
        using keys_update [OF sc4] m4(5) m3(3) by (simp add: m5_def)
      then have len: "length (mm_sessions m5) = length (mm_sessions m2)" by simp
      have infl: "mm_inflight m5 t = int (length (tenant_leases (l # ls) t))" if "t \<noteq> []" for t
        using that ok2(2) m4(3) by (auto simp: m5_def same_env_def m3_def accounts_def l_def)
      have "accounts m5 (l # ls)"
        by (rule accounts_set [OF ok2(2) sess])
          (use accounts_for_grant [OF acc, of l now] ok2(2) m4(3) len infl in
            \<open>auto simp: l_def accounts_def m5_def same_env_def m3_def\<close>)
      moreover have "grants sc r now m ls l m5"
        using True acc sess ok2(2) by (auto simp: grants_def l_def accounts_def tenantConcurrency_def split: if_splits)
      ultimately show ?thesis using run t5 by (intro granted [of l m5]) (simp_all add: inv_ok_def)
    qed
  qed
qed

section \<open>Completing a lease\<close>

lemma length_remove1_in: "x \<in> set xs \<Longrightarrow> length xs = length (remove1 x xs) + 1"
  by (induction xs) auto

lemma leases_in_remove1: "leases_in (remove1 l ls) sc = remove1 l (leases_in ls sc)"
  by (simp add: leases_in_def filter_remove1)

lemma tenant_leases_remove1: "tenant_leases (remove1 l ls) t = remove1 l (tenant_leases ls t)"
  by (simp add: tenant_leases_def filter_remove1)

lemma in_leases: "l \<in> set (leases_in ls sc) \<longleftrightarrow> l \<in> set ls \<and> le_scope l = sc"
  "l \<in> set (tenant_leases ls t) \<longleftrightarrow> l \<in> set ls \<and> s_Tenant (le_scope l) = t"
  by (auto simp: leases_in_def tenant_leases_def)

lemma other_leases_remove1:
  "le_scope l \<noteq> sc \<Longrightarrow> leases_in (remove1 l ls) sc = leases_in ls sc"
  by (simp add: leases_in_remove1 remove1_idem in_leases)

text \<open>Deleting the state of a scope that has no lease.\<close>

lemma accounts_del:
  assumes "accounts m ls" and "map_of (mm_sessions m') = (map_of (mm_sessions m))(sc := None)"
    and "leases_in ls' sc = []" and "\<And>x. x \<noteq> sc \<Longrightarrow> leases_in ls' x = leases_in ls x"
    and "\<forall>l\<in>set ls'. \<not> le_done l" and "\<And>t. t \<noteq> [] \<Longrightarrow> mm_inflight m' t = int (length (tenant_leases ls' t))"
    and "mm_maxStates m' = mm_maxStates m" and "length (mm_sessions m') \<le> length (mm_sessions m)"
  shows "accounts m' ls'"
proof -
  have "accounts_for ls' x st'" if "map_of (mm_sessions m') x = Some st'" for x st'
    using that assms(1,2,4) by (cases "x = sc") (auto simp: accounts_def accounts_for_def)
  moreover have "map_of (mm_sessions m') (le_scope l) \<noteq> None" if l: "l \<in> set ls'" for l
  proof -
    have other: "le_scope l \<noteq> sc" using assms(3) l by (auto simp: leases_in_Nil)
    then have "leases_in ls (le_scope l) \<noteq> []" using assms(4) [OF other] leases_in_Nil [of ls' "le_scope l"] l by auto
    then show ?thesis using accounts_no_leases [OF assms(1)] other by (auto simp: assms(2))
  qed
  ultimately show ?thesis using assms(1,5-8) by (auto simp: accounts_def)
qed

lemma completed_simps [simp]:
  "bs_inflight (completed u now l st) = bs_inflight st - 1" "bs_idle (completed u now l st) = bs_idle st"
  "bs_reserved (completed u now l st) = wrap64 (bs_reserved st - le_reservedCost l)"
  by (simp_all add: completed_def Let_def)

lemma released_simps [simp]:
  "mm_sessions (released l m) = mm_sessions m" "table_ok (released l m) = table_ok m"
  "mm_maxStates (released l m) = mm_maxStates m"
  by (simp_all add: released_def Let_def)

lemma released_inflight:
  assumes "accounts m ls" and "l \<in> set ls" and "t \<noteq> []"
  shows "mm_inflight (released l m) t = int (length (tenant_leases (remove1 l ls) t))"
proof (cases "t = s_Tenant (le_scope l)")
  case False
  then have "remove1 l (tenant_leases ls t) = tenant_leases ls t" by (intro remove1_idem) (auto simp: in_leases)
  with False assms(1,3) show ?thesis by (auto simp: released_def Let_def accounts_def tenant_leases_remove1)
next
  case True
  then have l: "l \<in> set (tenant_leases ls t)" using assms(2) by (simp add: in_leases)
  then have "length (remove1 l (tenant_leases ls t)) = length (tenant_leases ls t) - 1" "0 < length (tenant_leases ls t)"
    using length_remove1_in [of l] by fastforce+
  with True assms(1,3) show ?thesis by (auto simp: released_def Let_def accounts_def tenant_leases_remove1)
qed

lemma completed_accounts:
  assumes "accounts_for ls sc st" and "l \<in> set ls" and "le_scope l = sc"
  shows "bs_inflight (completed u now l st) = int (length (leases_in (remove1 l ls) sc))"
    and "bs_reserved (completed u now l st) = wrap64 (sum_list (map le_reservedCost (leases_in (remove1 l ls) sc)))"
proof -
  have l: "l \<in> set (leases_in ls sc)" using assms(2,3) by (simp add: in_leases)
  from length_remove1_in [OF this] show "bs_inflight (completed u now l st) = int (length (leases_in (remove1 l ls) sc))"
    using assms(1) by (simp add: leases_in_remove1 accounts_for_def)
  have "sum_list (map le_reservedCost (leases_in ls sc)) =
      le_reservedCost l + sum_list (map le_reservedCost (remove1 l (leases_in ls sc)))"
    by (rule sum_list_map_remove1 [OF l])
  then show "bs_reserved (completed u now l st) = wrap64 (sum_list (map le_reservedCost (leases_in (remove1 l ls) sc)))"
    using assms(1) wrap64_add [of _ "- le_reservedCost l"] by (simp add: leases_in_remove1 accounts_for_def)
qed

lemma Complete_ok:
  assumes "inv_ok m ls" and "l \<in> set ls"
  shows "\<exists>l' m'. Complete u now l m = Some (l', m') \<and> le_done l' \<and> inv_ok m' (remove1 l ls)"
proof -
  let ?sc = "le_scope l" and ?ls = "remove1 l ls"
  have ok: "table_ok m" "accounts m ls" using assms(1) by (simp_all add: inv_ok_def)
  obtain st where st: "map_of (mm_sessions m) ?sc = Some st" "\<not> le_done l" using ok(2) assms(2) by (auto simp: accounts_def)
  have acc: "accounts_for ls ?sc st" using ok(2) st(1) by (simp add: accounts_def)
  have busy: "\<not> bs_idle st" using acc assms(2) by (auto simp: accounts_for_def leases_in_Nil)
  let ?st = "completed u now l st"
  define m1 where "m1 = (released l m)\<lparr>mm_sessions := AList.update ?sc ?st (mm_sessions m)\<rparr>"
  have t1: "table_ok m1"
    using table_set [of "released l m" ?sc st ?st] ok(1) st(1) by (simp add: m1_def)
  have s1: "map_of (mm_sessions m1) = (map_of (mm_sessions m))(?sc \<mapsto> ?st)" "length (mm_sessions m1) = length (mm_sessions m)"
    using length_update [OF st(1)] by (simp_all add: m1_def update_conv')
  have sc1: "map_of (mm_sessions m1) ?sc = Some ?st" "\<not> bs_idle ?st" using s1 busy by simp_all
  have inf: "mm_inflight m1 t = int (length (tenant_leases ?ls t))" if "t \<noteq> []" for t
    using released_inflight [OF ok(2) assms(2) that] by (simp add: m1_def)
  have max1: "mm_maxStates m1 = mm_maxStates m" by (simp add: m1_def)
  have undone: "\<forall>l\<in>set ?ls. \<not> le_done l" using ok(2) by (auto simp: accounts_def dest: notin_set_remove1 in_set_remove1 [THEN iffD1, rotated])
  note c = completed_accounts [OF acc assms(2) refl, of u now]
  have "\<exists>m'. (if bs_inflight ?st > 0 then Some m1 else if bs_closed ?st then dropLocked ?sc m1 else idleLocked ?sc ?st m1) = Some m' \<and>
    inv_ok m' ?ls"
  proof (cases "bs_inflight ?st > 0")
    case True
    then have "accounts_for ?ls ?sc ?st" using c busy by (auto simp: accounts_for_def)
    then have "accounts m1 ?ls"
      by (rule accounts_set [OF ok(2) s1(1)]) (use other_leases_remove1 undone inf max1 s1(2) in auto)
    with t1 True show ?thesis by (simp add: inv_ok_def)
  next
    case False
    then have "length (leases_in ?ls ?sc) = 0" unfolding c(1) by linarith
    then have none: "leases_in ?ls ?sc = []" by simp
    show ?thesis
    proof (cases "bs_closed ?st")
      case True
      obtain m' where m': "dropLocked ?sc m1 = Some m'" "table_ok m'" "same_env m1 m'"
        "map_of (mm_sessions m') = (map_of (mm_sessions m1))(?sc := None)"
        "map fst (mm_sessions m') = removeAll ?sc (map fst (mm_sessions m1))" by (rule dropLocked_ok [OF t1 sc1(1)])
      have "accounts m' ?ls"
        by (rule accounts_del [OF ok(2) _ none])
          (use m' s1 other_leases_remove1 undone inf max1 dropLocked_length_eq [OF t1 sc1(1) m'(5)] in \<open>auto simp: same_env_def\<close>)
      with m' True False show ?thesis by (simp add: inv_ok_def)
    next
      case open': False
      obtain m' where m': "idleLocked ?sc ?st m1 = Some m'" "table_ok m'" "same_env m1 m'"
        "map_of (mm_sessions m') = (map_of (mm_sessions m1))(?sc \<mapsto> ?st\<lparr>bs_idle := True\<rparr>)"
        "length (mm_sessions m') = length (mm_sessions m1)" by (rule idleLocked_ok [OF t1 sc1, of ?st])
      have "accounts_for ?ls ?sc (?st\<lparr>bs_idle := True\<rparr>)" using c none by (simp add: accounts_for_def)
      then have "accounts m' ?ls"
        by (rule accounts_set [OF ok(2), rotated])
          (use m' s1 other_leases_remove1 undone inf max1 in \<open>auto simp: same_env_def\<close>)
      with m' open' False show ?thesis by (simp add: inv_ok_def)
    qed
  qed
  then obtain m' where m': "(if bs_inflight ?st > 0 then Some m1 else if bs_closed ?st then dropLocked ?sc m1
    else idleLocked ?sc ?st m1) = Some m'" "inv_ok m' ?ls" by blast
  have "\<exists>l'. Complete u now l m = Some (l', m') \<and> le_done l'"
    using st m'(1) by (simp add: Complete_def Let_def m1_def [symmetric] split del: if_split del: completed_simps cong: if_cong)
  with m'(2) show ?thesis by blast
qed

section \<open>Closing a session\<close>

lemma closeScopes_ok:
  assumes "inv_ok m ls" and "distinct scs" and "\<forall>sc\<in>set scs. map_of (mm_sessions m) sc \<noteq> None"
  shows "\<exists>m'. closeScopes session scs m = Some m' \<and> inv_ok m' ls"
  using assms
proof (induction scs arbitrary: m)
  case Nil
  then show ?case by simp
next
  case (Cons sc scs)
  show ?case
  proof (cases "s_Session sc = session")
    case False
    with Cons show ?thesis by simp
  next
    case True
    have ok: "table_ok m" "accounts m ls" using Cons.prems(1) by (simp_all add: inv_ok_def)
    obtain st where st: "map_of (mm_sessions m) sc = Some st" using Cons.prems(3) by auto
    have acc: "accounts_for ls sc st" using ok(2) st by (simp add: accounts_def)
    have step: "inv_ok m1 ls \<and> (\<forall>sc'\<in>set scs. map_of (mm_sessions m1) sc' \<noteq> None) \<Longrightarrow> ?thesis"
      if "(if bs_inflight st = 0 then dropLocked sc (m\<lparr>mm_sessions := AList.update sc (st\<lparr>bs_cost := 0\<rparr>) (mm_sessions m)\<rparr>)
        else Some (m\<lparr>mm_sessions := AList.update sc (st\<lparr>bs_cost := 0, bs_closed := True\<rparr>) (mm_sessions m)\<rparr>)) = Some m1" for m1
      using Cons.IH [of m1] Cons.prems(2) that st True by (simp split: if_splits)
    define upd where "upd = (\<lambda>st'. m\<lparr>mm_sessions := AList.update sc st' (mm_sessions m)\<rparr>)"
    have upd: "table_ok (upd st')" "map_of (mm_sessions (upd st')) = (map_of (mm_sessions m))(sc \<mapsto> st')"
      "length (mm_sessions (upd st')) = length (mm_sessions m)" "same_env m (upd st')"
      if "bs_idle st' = bs_idle st" for st'
      using table_set [OF ok(1) st that] length_update [OF st]
      by (simp_all add: upd_def update_conv' same_env_def)
    show ?thesis
    proof (cases "bs_inflight st = 0")
      case False
      let ?st = "st\<lparr>bs_cost := 0, bs_closed := True\<rparr>"
      have "accounts_for ls sc ?st" using acc by (simp add: accounts_for_def)
      then have "accounts (upd ?st) ls"
        by (rule accounts_set [OF ok(2), rotated]) (use upd [of ?st] ok(2) in \<open>auto simp: accounts_def same_env_def\<close>)
      moreover have "\<forall>sc'\<in>set scs. map_of (mm_sessions (upd ?st)) sc' \<noteq> None"
        using Cons.prems(2,3) upd(2) [of ?st] by auto
      ultimately show ?thesis using step [of "upd ?st"] False upd(1) [of ?st] by (simp add: upd_def inv_ok_def)
    next
      case zero: True
      then have none: "leases_in ls sc = []" using acc by (simp add: accounts_for_def)
      let ?st = "st\<lparr>bs_cost := 0\<rparr>"
      have sc': "map_of (mm_sessions (upd ?st)) sc = Some ?st" using upd(2) [of ?st] by simp
      obtain m1 where m1: "dropLocked sc (upd ?st) = Some m1" "table_ok m1" "same_env (upd ?st) m1"
        "map_of (mm_sessions m1) = (map_of (mm_sessions (upd ?st)))(sc := None)"
        "map fst (mm_sessions m1) = removeAll sc (map fst (mm_sessions (upd ?st)))"
        by (rule dropLocked_ok [OF upd(1) [of ?st] sc']) simp
      have sess: "map_of (mm_sessions m1) = (map_of (mm_sessions m))(sc := None)" using m1(4) upd(2) [of ?st] by simp
      have len: "length (mm_sessions m1) \<le> length (mm_sessions m)"
        using dropLocked_length_eq [OF upd(1) [of ?st] sc' m1(5)] upd(3) [of ?st] by simp
      have env: "same_env m m1" using m1(3) upd(4) [of ?st] by (auto intro: same_env_trans)
      have "accounts m1 ls"
        by (rule accounts_del [OF ok(2) sess none]) (use env len ok(2) in \<open>auto simp: accounts_def same_env_def\<close>)
      moreover have "\<forall>sc'\<in>set scs. map_of (mm_sessions m1) sc' \<noteq> None"
        using Cons.prems(2,3) sess by auto
      ultimately show ?thesis using step [of m1] m1(1,2) zero by (simp add: upd_def inv_ok_def)
    qed
  qed
qed

lemma CloseSession_ok: "inv_ok m ls \<Longrightarrow> \<exists>m'. CloseSession session m = Some m' \<and> inv_ok m' ls"
  using closeScopes_ok [of m ls "map fst (mm_sessions m)" session]
  by (auto simp: CloseSession_def inv_ok_def table_ok_def map_of_eq_None_iff)

section \<open>The system\<close>

text \<open>The calls a manager serves, with the leases it has handed out and that are not completed.\<close>

inductive budget_step :: "memory_manager \<times> lease list \<Rightarrow> memory_manager \<times> lease list \<Rightarrow> bool" where
  grant: "AcquireWithReservation sc r now m = Some (Some l, m') \<Longrightarrow> budget_step (m, ls) (m', l # ls)"
| refuse: "AcquireWithReservation sc r now m = Some (None, m') \<Longrightarrow> budget_step (m, ls) (m', ls)"
| complete: "l \<in> set ls \<Longrightarrow> Complete u now l m = Some (l', m') \<Longrightarrow> budget_step (m, ls) (m', remove1 l ls)"
| close: "CloseSession session m = Some m' \<Longrightarrow> budget_step (m, ls) (m', ls)"
| update: "budget_step (m, ls) (UpdateLimits roles tenants m, ls)"

abbreviation budget_served :: "memory_manager \<Rightarrow> memory_manager \<Rightarrow> lease list \<Rightarrow> bool" where
  "budget_served m0 m ls \<equiv> budget_step\<^sup>*\<^sup>* (m0, []) (m, ls)"

lemma inv_ok_new: "inv_ok (NewWithBounds roles tenants ttl maxStates) []"
  by (simp add: inv_ok_def table_ok_def accounts_def NewWithBounds_def is_idle_def holder_of_def Let_def fun_eq_iff)

lemma inv_ok_step:
  assumes "budget_step (m, ls) (m', ls')" and "inv_ok m ls"
  shows "inv_ok m' ls'"
  using assms(1)
proof cases
  case (grant sc r now l)
  with Acquire_grants [OF assms(2), of sc r now] show ?thesis by auto
next
  case (refuse sc r now)
  with Acquire_grants [OF assms(2), of sc r now] show ?thesis by auto
next
  case (complete l u now l')
  with Complete_ok [OF assms(2) complete(2), of u now] show ?thesis by auto
next
  case (close session)
  with CloseSession_ok [OF assms(2), of session] show ?thesis by auto
next
  case (update roles tenants)
  with assms(2) show ?thesis by (simp add: inv_ok_def UpdateLimits_def accounts_def)
qed

lemma inv_ok_served:
  "budget_served (NewWithBounds roles tenants ttl maxStates) m ls \<Longrightarrow> inv_ok m ls"
  by (induction "(m, ls)" arbitrary: m ls rule: rtranclp_induct) (auto simp: inv_ok_new dest: inv_ok_step)

section \<open>Properties\<close>

text \<open>
  C19: in every state a manager reaches by any sequence of calls, its table accounts for the leases it
  has handed out: a scope's state counts its outstanding leases and holds the sum they reserve, a tenant's
  counter counts the leases of all its scopes, a state is idle exactly when it has none, and the table stays
  within its bound. No call dereferences a missing state: every call returns.
\<close>

theorem budget_accounts:
  assumes "budget_served (NewWithBounds roles tenants ttl maxStates) m ls"
  shows "(\<forall>sc st. map_of (mm_sessions m) sc = Some st \<longrightarrow> accounts_for ls sc st) \<and>
    (\<forall>t. t \<noteq> [] \<longrightarrow> mm_inflight m t = int (length (tenant_leases ls t))) \<and>
    int (length (mm_sessions m)) \<le> mm_maxStates m \<and>
    AcquireWithReservation sc r now m \<noteq> None \<and> CloseSession session m \<noteq> None \<and>
    (\<forall>l\<in>set ls. Complete u now l m \<noteq> None)"
proof -
  have ok: "inv_ok m ls" by (rule inv_ok_served [OF assms])
  have "AcquireWithReservation sc r now m \<noteq> None" by (rule Acquire_grants [OF ok, of sc r now]) simp_all
  moreover have "CloseSession session m \<noteq> None" using CloseSession_ok [OF ok, of session] by auto
  moreover have "\<forall>l\<in>set ls. Complete u now l m \<noteq> None" using Complete_ok [OF ok] by fastforce
  ultimately show ?thesis using ok by (simp add: inv_ok_def accounts_def)
qed

text \<open>
  A lease is granted only within the limits in force: with it, the scope has no more outstanding
  leases than its role's \<open>MaxConcurrent\<close> and the tenant no more than its own, its estimate is within the scan
  limit, and what its session has spent and reserves is within \<open>MaxSessionCost\<close>, computed in 64 bits without
  overflow.
\<close>

theorem Acquire_within_limits:
  assumes "budget_served (NewWithBounds roles tenants ttl maxStates) m ls"
    and "AcquireWithReservation sc r now m = Some (Some l, m')"
  shows "(0 < li_MaxConcurrent (limits_of m sc) \<longrightarrow>
      int (length (leases_in (l # ls) sc)) \<le> li_MaxConcurrent (limits_of m sc)) \<and>
    (0 < tenantConcurrency m (s_Tenant sc) \<longrightarrow>
      int (length (tenant_leases (l # ls) (s_Tenant sc))) \<le> tenantConcurrency m (s_Tenant sc)) \<and>
    (0 < li_MaxEstimatedScannedRows (limits_of m sc) \<longrightarrow>
      rs_EstimatedScannedRows r \<le> li_MaxEstimatedScannedRows (limits_of m sc)) \<and>
    (\<exists>st. map_of (mm_sessions m') sc = Some st \<and>
      (0 < li_MaxSessionCost (limits_of m sc) \<and> is_int64 (li_MaxSessionCost (limits_of m sc)) \<and> 0 \<le> bs_cost st \<and>
       0 \<le> sum_list (map le_reservedCost (leases_in ls sc)) \<and> is_int64 (sum_list (map le_reservedCost (leases_in ls sc))) \<longrightarrow>
       bs_cost st + bs_reserved st \<le> li_MaxSessionCost (limits_of m sc) \<and>
       bs_reserved st = sum_list (map le_reservedCost (leases_in (l # ls) sc))))"
proof -
  have ok: "inv_ok m ls" by (rule inv_ok_served [OF assms(1)])
  have g: "grants sc r now m ls l m'" using Acquire_grants [OF ok, of sc r now] assms(2) by auto
  let ?L = "limits_of m sc" and ?r = "normalizeReservation r"
  obtain st where st: "accounts_for ls sc st" "checkReservationLimits ?L st ?r"
    "map_of (mm_sessions m') sc = Some (st\<lparr>bs_idle := False, bs_inflight := bs_inflight st + 1,
       bs_reserved := wrap64 (bs_reserved st + le_reservedCost l), bs_touched := now\<rparr>)"
    using g by (auto simp: grants_def)
  have l: "le_scope l = sc" "le_reservedCost l = rs_Cost ?r" using g by (auto simp: grants_def)
  have nonneg: "0 \<le> rs_Cost ?r" "rs_EstimatedScannedRows r \<le> rs_EstimatedScannedRows ?r"
    by (auto simp: normalizeReservation_def Let_def)
  have conc: "0 < li_MaxConcurrent ?L \<longrightarrow> int (length (leases_in (l # ls) sc)) \<le> li_MaxConcurrent ?L"
    using st(1,2) l by (auto simp: checkReservationLimits_def accounts_for_def split: if_splits)
  have scan: "0 < li_MaxEstimatedScannedRows ?L \<longrightarrow> rs_EstimatedScannedRows r \<le> li_MaxEstimatedScannedRows ?L"
    using st(2) nonneg(2) by (auto simp: checkReservationLimits_def split: if_splits)
  have tenant: "0 < tenantConcurrency m (s_Tenant sc) \<longrightarrow>
      int (length (tenant_leases (l # ls) (s_Tenant sc))) \<le> tenantConcurrency m (s_Tenant sc)"
    using g l by (auto simp: grants_def)
  have cost: "bs_cost st + wrap64 (bs_reserved st + le_reservedCost l) \<le> li_MaxSessionCost ?L \<and>
      wrap64 (bs_reserved st + le_reservedCost l) = sum_list (map le_reservedCost (leases_in (l # ls) sc))"
    if "0 < li_MaxSessionCost ?L" "is_int64 (li_MaxSessionCost ?L)" "0 \<le> bs_cost st"
      "0 \<le> sum_list (map le_reservedCost (leases_in ls sc))" "is_int64 (sum_list (map le_reservedCost (leases_in ls sc)))"
  proof -
    have res: "bs_reserved st = sum_list (map le_reservedCost (leases_in ls sc))"
      using st(1) wrap64_id [OF that(5)] by (simp add: accounts_for_def)
    from checkReservation_cost [OF st(2) that(1-3)] that(4) res
    have "bs_cost st + bs_reserved st + rs_Cost ?r \<le> li_MaxSessionCost ?L" by simp
    moreover from this have "wrap64 (bs_reserved st + rs_Cost ?r) = bs_reserved st + rs_Cost ?r"
      using that(2-4) nonneg(1) res by (intro wrap64_id) (simp add: is_int64_def)
    ultimately show ?thesis using l res by simp
  qed
  show ?thesis using conc tenant scan st(3) cost by auto
qed

section \<open>Witnesses\<close>

definition ex_manager :: memory_manager where
  "ex_manager = NewWithBounds
     [''analyst'' \<mapsto> zero_limits\<lparr>li_MaxConcurrent := 2, li_MaxSessionCost := 100\<rparr>]
     [''acme'' \<mapsto> zero_limits\<lparr>li_MaxConcurrent := 1\<rparr>] 0 1"

definition ex_scope :: scope where
  "ex_scope = \<lparr>s_Role = ''analyst'', s_Tenant = ''acme'', s_Session = ''s1''\<rparr>"

definition ex_reservation :: reservation where
  "ex_reservation = \<lparr>rs_Cost = 40, rs_EstimatedScannedRows = -1\<rparr>"

definition ex_granted :: bool where
  "ex_granted \<longleftrightarrow> (case AcquireWithReservation ex_scope ex_reservation 5 ex_manager of
     Some (Some l, m) \<Rightarrow> le_reservedCost l = 40 \<and>
       map_option bs_cost (map_of (mm_sessions m) ex_scope) = Some 0 \<and> length (mm_sessions m) = 1
   | _ \<Rightarrow> False)"

lemma ex_granted: ex_granted
  by code_simp

lemma ex_grant:
  obtains l m where "AcquireWithReservation ex_scope ex_reservation 5 ex_manager = Some (Some l, m)"
    "le_reservedCost l = 40" "le_scope l = ex_scope" "map_option bs_cost (map_of (mm_sessions m) ex_scope) = Some 0"
proof -
  obtain l m where g: "AcquireWithReservation ex_scope ex_reservation 5 ex_manager = Some (Some l, m)"
    "le_reservedCost l = 40" "map_option bs_cost (map_of (mm_sessions m) ex_scope) = Some 0"
    using ex_granted by (auto simp: ex_granted_def split: option.splits prod.splits)
  have "inv_ok ex_manager []" unfolding ex_manager_def by (rule inv_ok_new)
  from Acquire_grants [OF this, of ex_scope ex_reservation 5] g(1) have "le_scope l = ex_scope"
    by (auto simp: grants_def)
  with g that show ?thesis by blast
qed

theorem budget_accounts_witness:
  "\<exists>l m. budget_served ex_manager m [l] \<and> (\<forall>sc st. map_of (mm_sessions m) sc = Some st \<longrightarrow> accounts_for [l] sc st) \<and>
     mm_inflight m ''acme'' = int (length (tenant_leases [l] ''acme''))"
proof -
  obtain l m where g: "AcquireWithReservation ex_scope ex_reservation 5 ex_manager = Some (Some l, m)"
    by (rule ex_grant)
  then have s: "budget_served ex_manager m [l]" by (intro r_into_rtranclp) (rule budget_step.grant)
  from budget_accounts [OF this [unfolded ex_manager_def]] s show ?thesis by blast
qed

theorem Acquire_within_limits_witness:
  "\<exists>l m st. AcquireWithReservation ex_scope ex_reservation 5 ex_manager = Some (Some l, m) \<and>
     map_of (mm_sessions m) ex_scope = Some st \<and> bs_cost st + bs_reserved st \<le> 100 \<and> bs_reserved st = 40"
proof -
  obtain l m where g: "AcquireWithReservation ex_scope ex_reservation 5 ex_manager = Some (Some l, m)"
    "le_reservedCost l = 40" "le_scope l = ex_scope" "map_option bs_cost (map_of (mm_sessions m) ex_scope) = Some 0"
    by (rule ex_grant)
  have lims: "li_MaxSessionCost (limits_of ex_manager ex_scope) = 100"
    by (simp add: ex_manager_def NewWithBounds_def limits_of_def ex_scope_def Stricter_def zero_limits_def)
  have "budget_served (NewWithBounds [''analyst'' \<mapsto> zero_limits\<lparr>li_MaxConcurrent := 2, li_MaxSessionCost := 100\<rparr>]
     [''acme'' \<mapsto> zero_limits\<lparr>li_MaxConcurrent := 1\<rparr>] 0 1) ex_manager []" by (simp add: ex_manager_def)
  from Acquire_within_limits [OF this g(1)] g lims show ?thesis
    by (auto simp: is_int64_def split: if_splits)
qed

end
