(* ===== verification/Heap.thy ===== *)
theory Heap
  imports Main "HOL-Library.Multiset"
begin

text \<open>
  Go's \<^verbatim>\<open>container/heap\<close> on a slice whose elements are ordered by a key: \<^verbatim>\<open>Push\<close>, \<^verbatim>\<open>Remove\<close> and the sifting
  loops \<^verbatim>\<open>up\<close> and \<^verbatim>\<open>down\<close>. They permute the elements, and keep a heap a heap: no element has a smaller key
  than its parent, so the first one has the smallest of all.
\<close>

definition swap :: "nat \<Rightarrow> nat \<Rightarrow> 'a list \<Rightarrow> 'a list" where
  "swap i j xs = xs[i := xs ! j, j := xs ! i]"

function heap_up :: "('a \<Rightarrow> int) \<Rightarrow> nat \<Rightarrow> 'a list \<Rightarrow> 'a list" where
  "heap_up key j xs =
     (let i = (j - 1) div 2 in
      if i = j \<or> \<not> key (xs ! j) < key (xs ! i) then xs else heap_up key i (swap i j xs))"
  by auto

termination
  by (relation "measure (\<lambda>(key, j, xs). j)") auto

text \<open>\<open>heap_down\<close> also tells whether it moved the element.\<close>

function heap_down_loop :: "('a \<Rightarrow> int) \<Rightarrow> nat \<Rightarrow> nat \<Rightarrow> 'a list \<Rightarrow> nat \<times> 'a list" where
  "heap_down_loop key i n xs =
     (let j1 = 2 * i + 1 in
      if j1 \<ge> n then (i, xs)
      else let j2 = j1 + 1; j = (if j2 < n \<and> key (xs ! j2) < key (xs ! j1) then j2 else j1) in
        if \<not> key (xs ! j) < key (xs ! i) then (i, xs)
        else heap_down_loop key j n (swap i j xs))"
  by auto

termination
  by (relation "measure (\<lambda>(key, i, n, xs). n - i)") (auto split: if_splits)

declare heap_up.simps [simp del] heap_down_loop.simps [simp del]

definition heap_push :: "('a \<Rightarrow> int) \<Rightarrow> 'a \<Rightarrow> 'a list \<Rightarrow> 'a list" where
  "heap_push key x xs = heap_up key (length xs) (xs @ [x])"

definition heap_remove :: "('a \<Rightarrow> int) \<Rightarrow> nat \<Rightarrow> 'a list \<Rightarrow> 'a list" where
  "heap_remove key i xs =
     (let n = length xs - 1 in
      butlast (if n \<noteq> i
               then let (i', ys) = heap_down_loop key i n (swap i n xs) in
                 if \<not> i' > i then heap_up key i ys else ys
               else xs))"

section \<open>Permutations\<close>

lemma swap_length [simp]: "length (swap i j xs) = length xs"
  by (simp add: swap_def)

lemma swap_nth: "k < length xs \<Longrightarrow> i < length xs \<Longrightarrow> j < length xs \<Longrightarrow>
    swap i j xs ! k = (if k = j then xs ! i else if k = i then xs ! j else xs ! k)"
  by (auto simp: swap_def nth_list_update)

lemma swap_mset: "i < length xs \<Longrightarrow> j < length xs \<Longrightarrow> mset (swap i j xs) = mset xs"
  by (simp add: swap_def mset_swap)

lemma heap_up_mset: "j < length xs \<Longrightarrow> mset (heap_up key j xs) = mset xs"
proof (induction key j xs rule: heap_up.induct)
  case (1 key j xs)
  show ?case
  proof (cases "(j - 1) div 2 = j \<or> \<not> key (xs ! j) < key (xs ! ((j - 1) div 2))")
    case True
    then show ?thesis by (subst heap_up.simps) (simp add: Let_def)
  next
    case False
    have "(j - 1) div 2 < length xs" using 1(2) by (meson div_le_dividend diff_le_self le_less_trans order_trans)
    with 1 False show ?thesis by (subst heap_up.simps) (simp add: Let_def swap_mset)
  qed
qed

lemma heap_down_mset:
  "i < length xs \<Longrightarrow> n \<le> length xs \<Longrightarrow> mset (snd (heap_down_loop key i n xs)) = mset xs"
proof (induction key i n xs rule: heap_down_loop.induct)
  case (1 key i n xs)
  let ?j = "if 2 * i + 1 + 1 < n \<and> key (xs ! (2 * i + 1 + 1)) < key (xs ! (2 * i + 1)) then 2 * i + 1 + 1 else 2 * i + 1"
  show ?case
  proof (cases "2 * i + 1 \<ge> n \<or> \<not> key (xs ! ?j) < key (xs ! i)")
    case True
    then show ?thesis by (subst heap_down_loop.simps) (auto simp: Let_def)
  next
    case False
    then have j: "?j < length xs" using 1(3) by auto
    from False 1(1) [OF refl _ refl refl] j 1(2,3) have "mset (snd (heap_down_loop key ?j n (swap i ?j xs))) = mset xs"
      by (simp add: swap_mset)
    with False show ?thesis by (subst heap_down_loop.simps) (auto simp: Let_def)
  qed
qed

lemma heap_down_length: "length (snd (heap_down_loop key i n xs)) = length xs"
proof (induction key i n xs rule: heap_down_loop.induct)
  case (1 key i n xs)
  then show ?case by (subst heap_down_loop.simps) (auto simp: Let_def)
qed

lemma heap_up_length: "length (heap_up key j xs) = length xs"
proof (induction key j xs rule: heap_up.induct)
  case (1 key j xs)
  then show ?case by (subst heap_up.simps) (auto simp: Let_def)
qed

section \<open>The heap order\<close>

definition par :: "nat \<Rightarrow> nat" where
  "par k = (k - 1) div 2"

text \<open>Element \<open>k\<close> is not below its parent; all elements of the first \<open>n\<close> but those of a set are so.\<close>

definition heap_kept :: "('a \<Rightarrow> int) \<Rightarrow> 'a list \<Rightarrow> nat \<Rightarrow> bool" where
  "heap_kept key xs k \<longleftrightarrow> k = 0 \<or> key (xs ! par k) \<le> key (xs ! k)"

definition heap_ok :: "('a \<Rightarrow> int) \<Rightarrow> 'a list \<Rightarrow> nat \<Rightarrow> bool" where
  "heap_ok key xs n \<longleftrightarrow> (\<forall>k < n. heap_kept key xs k)"

text \<open>The grandparent condition: the children of \<open>i\<close> are not below the parent of \<open>i\<close>.\<close>

definition bridged :: "('a \<Rightarrow> int) \<Rightarrow> 'a list \<Rightarrow> nat \<Rightarrow> nat \<Rightarrow> bool" where
  "bridged key xs i n \<longleftrightarrow> (\<forall>k < n. 0 < i \<longrightarrow> 0 < k \<longrightarrow> par k = i \<longrightarrow> key (xs ! par i) \<le> key (xs ! k))"

lemma par_less: "0 < k \<Longrightarrow> par k < k"
  by (simp add: par_def)

lemma par_eq: "0 < k \<Longrightarrow> par k = i \<longleftrightarrow> k = 2 * i + 1 \<or> k = 2 * i + 2"
  unfolding par_def by presburger

lemma heap_up_par: "heap_up key j xs =
    (if par j = j \<or> \<not> key (xs ! j) < key (xs ! par j) then xs else heap_up key (par j) (swap (par j) j xs))"
  by (subst heap_up.simps) (simp only: Let_def par_def)

lemma heap_up_ok:
  assumes "j < n" "n \<le> length xs"
    and "\<And>k. k < n \<Longrightarrow> k \<noteq> j \<Longrightarrow> heap_kept key xs k" "bridged key xs j n"
  shows "heap_ok key (heap_up key j xs) n"
  using assms
proof (induction key j xs rule: heap_up.induct)
  case (1 key j xs)
  show ?case
  proof (cases "par j = j \<or> \<not> key (xs ! j) < key (xs ! par j)")
    case True
    then have "heap_kept key xs j" using par_less [of j] by (auto simp: heap_kept_def)
    with 1(4) have "heap_ok key xs n" unfolding heap_ok_def by blast
    with True show ?thesis by (subst heap_up_par) simp
  next
    case False
    then have pos: "0 < j" by (auto simp: par_def)
    let ?i = "par j" let ?ys = "swap ?i j xs"
    have i: "?i < j" using pos by (rule par_less)
    have nth: "?ys ! k = (if k = j then xs ! ?i else if k = ?i then xs ! j else xs ! k)" if "k < n" for k
      using that i 1(2,3) by (simp add: swap_nth)
    have old: "key (xs ! par k) \<le> key (xs ! k)" if "k < n" "k \<noteq> j" "0 < k" for k
      using 1(4) [OF that(1,2)] that(3) by (simp add: heap_kept_def)
    have br: "key (xs ! ?i) \<le> key (xs ! k)" if "k < n" "0 < k" "par k = j" for k
      using 1(5) that pos by (auto simp: bridged_def)
    have lt: "key (xs ! j) < key (xs ! ?i)" using False by simp
    have "heap_kept key ?ys k" if k: "k < n" "k \<noteq> ?i" for k
    proof (cases "k = 0")
      case False
      then have p: "par k < n" "par k < k" using k par_less [of k] by auto
      show ?thesis
      proof (cases "k = j")
        case True
        then show ?thesis using nth [OF k(1)] nth [OF p(1)] i lt by (simp add: heap_kept_def)
      next
        case kj: False
        consider "par k = j" | "par k = ?i" | "par k \<noteq> j" "par k \<noteq> ?i" by blast
        then show ?thesis
          using nth [OF k(1)] nth [OF p(1)] old [OF k(1) kj] br [OF k(1)] k(2) kj False lt i
          by cases (auto simp: heap_kept_def)
      qed
    qed (simp add: heap_kept_def)
    moreover have "bridged key ?ys ?i n"
      unfolding bridged_def
    proof (intro allI impI)
      fix k assume k: "k < n" "0 < ?i" "0 < k" "par k = ?i"
      have p: "par ?i < ?i" using k(2) by (rule par_less)
      have a: "key (xs ! par ?i) \<le> key (xs ! ?i)" using old [of ?i] i 1(2) k(2) by simp
      have b: "key (xs ! ?i) \<le> key (xs ! k)" if "k \<noteq> j" using old [OF k(1) that k(3)] k(4) by simp
      show "key (?ys ! par ?i) \<le> key (?ys ! k)"
        using nth [OF k(1)] nth [of "par ?i"] p i 1(2) a b par_less [OF k(3)] k(4) by (cases "k = j") auto
    qed
    ultimately have "heap_ok key (heap_up key ?i ?ys) n"
      using 1(1) [OF refl, folded par_def] False i 1(2,3) by simp
    with False show ?thesis by (subst heap_up_par) simp
  qed
qed

text \<open>The smaller child of \<open>i\<close> among the first \<open>n\<close> elements.\<close>

definition child :: "('a \<Rightarrow> int) \<Rightarrow> nat \<Rightarrow> nat \<Rightarrow> 'a list \<Rightarrow> nat" where
  "child key i n xs =
     (if 2 * i + 2 < n \<and> key (xs ! (2 * i + 2)) < key (xs ! (2 * i + 1)) then 2 * i + 2 else 2 * i + 1)"

lemma heap_down_child: "heap_down_loop key i n xs =
    (if 2 * i + 1 \<ge> n \<or> \<not> key (xs ! child key i n xs) < key (xs ! i) then (i, xs)
     else heap_down_loop key (child key i n xs) n (swap i (child key i n xs) xs))"
  by (subst heap_down_loop.simps) (auto simp: Let_def child_def)

lemma child_less: "2 * i + 1 < n \<Longrightarrow> child key i n xs < n"
  by (simp add: child_def)

lemma child_par [simp]: "par (child key i n xs) = i"
  by (simp add: child_def par_def)

lemma child_greater: "i < child key i n xs"
  by (simp add: child_def)

lemma child_least:
  assumes "k < n" "0 < k" "par k = i"
  shows "key (xs ! child key i n xs) \<le> key (xs ! k)"
  using assms(1) assms(3) [unfolded par_eq [OF assms(2)]] by (auto simp: child_def)

lemma heap_down_ge: "i \<le> fst (heap_down_loop key i n xs)"
proof (induction key i n xs rule: heap_down_loop.induct)
  case (1 key i n xs)
  show ?case
  proof (cases "2 * i + 1 \<ge> n \<or> \<not> key (xs ! child key i n xs) < key (xs ! i)")
    case False
    then show ?thesis
      using 1 [OF refl _ refl refl] by (subst heap_down_child) (auto simp: child_def split: if_splits)
  qed (subst heap_down_child, simp)
qed

lemma heap_down_stay:
  assumes "fst (heap_down_loop key i n xs) = i"
  shows "snd (heap_down_loop key i n xs) = xs"
    and "\<And>k. k < n \<Longrightarrow> 0 < k \<Longrightarrow> par k = i \<Longrightarrow> key (xs ! i) \<le> key (xs ! k)"
proof -
  let ?j = "child key i n xs"
  have "2 * i + 1 \<ge> n \<or> \<not> key (xs ! ?j) < key (xs ! i)"
    using assms heap_down_ge [of ?j key n "swap i ?j xs"] child_greater [of i key n xs]
    by (subst (asm) heap_down_child) (auto split: if_splits)
  then have stop: "2 * i + 1 \<ge> n \<or> \<not> key (xs ! ?j) < key (xs ! i)" .
  then show "snd (heap_down_loop key i n xs) = xs" by (subst heap_down_child) simp
  fix k assume k: "k < n" "0 < k" "par k = i"
  then have "2 * i + 1 < n" by (auto simp: par_eq)
  with stop child_least [OF k, of key xs] show "key (xs ! i) \<le> key (xs ! k)" by linarith
qed

lemma heap_down_ok:
  assumes "i < n" "n \<le> length xs"
    and "\<And>k. k < n \<Longrightarrow> k \<noteq> i \<Longrightarrow> 0 < k \<Longrightarrow> par k \<noteq> i \<Longrightarrow> heap_kept key xs k" "bridged key xs i n"
    and "heap_kept key xs i \<or> i < fst (heap_down_loop key i n xs)"
  shows "heap_ok key (snd (heap_down_loop key i n xs)) n"
  using assms
proof (induction "n - i" arbitrary: i xs rule: less_induct)
  case (less i xs)
  note 1 = less
  let ?j = "child key i n xs" let ?ys = "swap i ?j xs"
  show ?case
  proof (cases "2 * i + 1 \<ge> n \<or> \<not> key (xs ! ?j) < key (xs ! i)")
    case True
    then have eq: "heap_down_loop key i n xs = (i, xs)" by (subst heap_down_child) simp
    have "heap_kept key xs k" if "k < n" for k
    proof -
      have kid: "key (xs ! i) \<le> key (xs ! k)" if "0 < k" "par k = i"
        using heap_down_stay(2) [of key i n xs k] that \<open>k < n\<close> eq by simp
      have top: "heap_kept key xs i" using 1(6) eq by simp
      consider "k = i" | "k = 0" | "k \<noteq> i" "0 < k" "par k = i" | "k \<noteq> i" "0 < k" "par k \<noteq> i" by blast
      then show ?thesis using kid top 1(4) [OF that] by cases (simp_all add: heap_kept_def)
    qed
    then show ?thesis by (simp add: eq heap_ok_def)
  next
    case False
    then have j: "?j < n" "i < ?j" "key (xs ! ?j) < key (xs ! i)" by (auto intro: child_less child_greater)
    have nth: "?ys ! k = (if k = ?j then xs ! i else if k = i then xs ! ?j else xs ! k)" if "k < n" for k
      using that j 1(2,3) by (simp add: swap_nth)
    have old: "key (xs ! par k) \<le> key (xs ! k)" if "k < n" "k \<noteq> i" "0 < k" "par k \<noteq> i" for k
      using 1(4) [OF that] that(3) by (simp add: heap_kept_def)
    have "heap_kept key ?ys k" if k: "k < n" "0 < k" "par k \<noteq> ?j" for k
    proof -
      have p: "par k < n" "par k < k" using k par_less [of k] by auto
      have up: "key (xs ! par i) \<le> key (xs ! ?j)" if "0 < i"
        using 1(5) that j by (auto simp: bridged_def)
      consider "k = i" | "k \<noteq> i" "par k = i" | "k \<noteq> i" "par k \<noteq> i" by blast
      then show ?thesis
        using nth [OF k(1)] nth [OF p(1)] up old [OF k(1)] child_least [of k n i key xs] k p j
        by cases (auto simp: heap_kept_def)
    qed
    moreover have "bridged key ?ys ?j n"
      unfolding bridged_def
    proof (intro allI impI)
      fix k assume k: "k < n" "0 < ?j" "0 < k" "par k = ?j"
      have "?j < k" using par_less [OF k(3)] k(4) by simp
      with old [OF k(1) _ k(3)] nth [OF k(1)] nth [of i] k j 1(2)
      show "key (?ys ! par ?j) \<le> key (?ys ! k)" by simp
    qed
    moreover have "heap_kept key ?ys ?j" using j nth by (simp add: heap_kept_def)
    ultimately have "heap_ok key (snd (heap_down_loop key ?j n ?ys)) n"
      using 1(1) [of ?j ?ys] j 1(3) by simp
    with False show ?thesis by (subst heap_down_child) simp
  qed
qed

section \<open>The operations\<close>

lemma heap_up_nth: "j < k \<Longrightarrow> heap_up key j xs ! k = xs ! k"
proof (induction j arbitrary: xs rule: less_induct)
  case (less j xs)
  show ?case
  proof (cases "par j = j \<or> \<not> key (xs ! j) < key (xs ! par j)")
    case False
    then have "par j < j" using par_less [of j] by (cases "j = 0") (auto simp: par_def)
    with less False show ?thesis by (subst heap_up_par) (simp add: swap_def)
  qed (subst heap_up_par, simp)
qed

lemma heap_down_nth: "n \<le> k \<Longrightarrow> i < n \<Longrightarrow> snd (heap_down_loop key i n xs) ! k = xs ! k"
proof (induction "n - i" arbitrary: i xs rule: less_induct)
  case (less i xs)
  show ?case
  proof (cases "2 * i + 1 \<ge> n \<or> \<not> key (xs ! child key i n xs) < key (xs ! i)")
    case False
    then have "child key i n xs < n" "i < child key i n xs" by (auto intro: child_less child_greater)
    with less False show ?thesis by (subst heap_down_child) (simp add: swap_def)
  qed (subst heap_down_child, simp)
qed

lemma heap_push_mset [simp]: "mset (heap_push key x xs) = add_mset x (mset xs)"
  by (simp add: heap_push_def heap_up_mset)

lemma heap_push_ok:
  assumes "heap_ok key xs (length xs)"
  shows "heap_ok key (heap_push key x xs) (length (heap_push key x xs))"
proof -
  have "heap_kept key (xs @ [x]) k" if "k < Suc (length xs)" "k \<noteq> length xs" for k
  proof (cases "k = 0")
    case False
    then have "par k < k" "k < length xs" using that par_less [of k] by auto
    with False assms show ?thesis by (auto simp: heap_ok_def heap_kept_def nth_append)
  qed (simp add: heap_kept_def)
  moreover have "bridged key (xs @ [x]) (length xs) (Suc (length xs))"
    by (auto simp: bridged_def dest: par_less)
  ultimately show ?thesis
    using heap_up_ok [of "length xs" "Suc (length xs)" "xs @ [x]" key] by (simp add: heap_push_def heap_up_length)
qed

text \<open>The list \<open>heap_remove\<close> takes the last element from.\<close>

definition sifted :: "('a \<Rightarrow> int) \<Rightarrow> nat \<Rightarrow> 'a list \<Rightarrow> 'a list" where
  "sifted key i xs =
     (let n = length xs - 1; (i', ys) = heap_down_loop key i n (swap i n xs) in
      if \<not> i' > i then heap_up key i ys else ys)"

lemma heap_remove_sifted:
  "heap_remove key i xs = butlast (if length xs - 1 \<noteq> i then sifted key i xs else xs)"
  by (simp add: heap_remove_def sifted_def Let_def split: prod.splits)

lemma sifted_props:
  assumes "i < length xs - 1"
  shows "mset (sifted key i xs) = mset xs" "length (sifted key i xs) = length xs" "last (sifted key i xs) = xs ! i"
proof -
  let ?n = "length xs - 1" let ?ys = "swap i ?n xs" let ?d = "heap_down_loop key i ?n ?ys"
  have eq: "sifted key i xs = (if \<not> fst ?d > i then heap_up key i (snd ?d) else snd ?d)"
    by (simp add: sifted_def Let_def split: prod.splits)
  have n: "?n < length xs" "i < length xs" using assms by auto
  have d: "mset (snd ?d) = mset xs" "length (snd ?d) = length xs"
    using n by (simp_all add: heap_down_mset heap_down_length swap_mset)
  show m: "mset (sifted key i xs) = mset xs" and l: "length (sifted key i xs) = length xs"
    using d n by (simp_all add: eq heap_up_mset heap_up_length)
  have "snd ?d ! ?n = xs ! i" using assms n by (simp add: heap_down_nth swap_nth)
  then have "sifted key i xs ! ?n = xs ! i" using assms by (simp add: eq heap_up_nth)
  then show "last (sifted key i xs) = xs ! i" using l n by (subst last_conv_nth) auto
qed

lemma mset_butlast: "xs \<noteq> [] \<Longrightarrow> mset (butlast xs) = mset xs - {#last xs#}"
  by (cases xs rule: rev_cases) auto

lemma heap_remove_mset:
  assumes "i < length xs"
  shows "mset (heap_remove key i xs) = mset xs - {#xs ! i#}"
proof (cases "length xs - 1 = i")
  case True
  have "xs \<noteq> []" using assms by auto
  then show ?thesis using True by (simp add: heap_remove_sifted mset_butlast last_conv_nth)
next
  case False
  then have i: "i < length xs - 1" using assms by simp
  then have "sifted key i xs \<noteq> []" using sifted_props(2) [OF i, of key] by auto
  then show ?thesis using False sifted_props [OF i] by (simp add: heap_remove_sifted mset_butlast)
qed

lemma heap_ok_butlast:
  assumes "heap_ok key xs (length xs - 1)"
  shows "heap_ok key (butlast xs) (length (butlast xs))"
proof -
  have "heap_kept key (butlast xs) k" if "k < length xs - 1" for k
    using assms that par_less [of k] by (cases "k = 0") (auto simp: heap_ok_def heap_kept_def nth_butlast)
  then show ?thesis by (simp add: heap_ok_def)
qed

lemma heap_ok_mono: "heap_ok key xs n \<Longrightarrow> m \<le> n \<Longrightarrow> heap_ok key xs m"
  by (simp add: heap_ok_def)

lemma sifted_ok:
  assumes "heap_ok key xs (length xs)" "i < length xs - 1"
  shows "heap_ok key (sifted key i xs) (length xs - 1)"
proof -
  let ?n = "length xs - 1" let ?ys = "swap i ?n xs" let ?d = "heap_down_loop key i ?n ?ys"
  have eq: "sifted key i xs = (if \<not> fst ?d > i then heap_up key i (snd ?d) else snd ?d)"
    by (simp add: sifted_def Let_def split: prod.splits)
  have old: "key (xs ! par k) \<le> key (xs ! k)" if "k < ?n" "0 < k" for k
    using assms(1) that by (auto simp: heap_ok_def heap_kept_def dest: spec [of _ k])
  have nth: "?ys ! k = (if k = i then xs ! ?n else xs ! k)" if "k < ?n" for k
    using that assms(2) by (simp add: swap_nth)
  have heap_kept: "heap_kept key ?ys k" if k: "k < ?n" "k \<noteq> i" "0 < k" "par k \<noteq> i" for k
    using k old [OF k(1,3)] nth [OF k(1)] nth [of "par k"] par_less [OF k(3)] by (simp add: heap_kept_def)
  have br: "bridged key ?ys i ?n"
    unfolding bridged_def
  proof (intro allI impI)
    fix k assume k: "k < ?n" "0 < i" "0 < k" "par k = i"
    have "par i < i" "i < k" using par_less k by auto
    with old [OF k(1,3)] old [OF assms(2) k(2)] k nth [OF k(1)] nth [of "par i"] assms(2)
    show "key (?ys ! par i) \<le> key (?ys ! k)" by simp
  qed
  show ?thesis
  proof (cases "fst ?d > i")
    case True
    then show ?thesis using heap_down_ok [OF assms(2) _ heap_kept br] by (simp add: eq)
  next
    case False
    then have stay: "fst ?d = i" using heap_down_ge [of i key ?n ?ys] by simp
    have "heap_kept key ?ys k" if k: "k < ?n" "k \<noteq> i" for k
    proof -
      consider "k = 0" | "0 < k" "par k = i" | "0 < k" "par k \<noteq> i" by blast
      then show ?thesis using heap_kept [OF k] heap_down_stay(2) [OF stay k(1)] by cases (simp_all add: heap_kept_def)
    qed
    with heap_up_ok [OF assms(2) _ _ br] stay show ?thesis by (simp add: eq heap_down_stay(1))
  qed
qed

lemma heap_remove_ok:
  assumes "heap_ok key xs (length xs)" "i < length xs"
  shows "heap_ok key (heap_remove key i xs) (length (heap_remove key i xs))"
proof (cases "length xs - 1 = i")
  case True
  then show ?thesis using heap_ok_butlast [OF heap_ok_mono [OF assms(1)]] by (simp add: heap_remove_sifted)
next
  case False
  then have i: "i < length xs - 1" using assms by simp
  then show ?thesis
    using heap_ok_butlast [of key "sifted key i xs"] sifted_ok [OF assms(1) i] False
    by (simp add: heap_remove_sifted sifted_props)
qed

text \<open>The first element of a heap has the smallest key.\<close>

lemma heap_ok_least:
  assumes "heap_ok key xs (length xs)" "x \<in> set xs"
  shows "key (hd xs) \<le> key x"
proof -
  have "key (xs ! 0) \<le> key (xs ! k)" if "k < length xs" for k
    using that
  proof (induction k rule: less_induct)
    case (less k)
    show ?case
    proof (cases "k = 0")
      case False
      then have "key (xs ! 0) \<le> key (xs ! par k)" using less par_less [of k] by simp
      also have "\<dots> \<le> key (xs ! k)" using assms(1) less(2) False by (auto simp: heap_ok_def heap_kept_def)
      finally show ?thesis .
    qed simp
  qed
  moreover obtain k where "k < length xs" "x = xs ! k" using assms(2) by (auto simp: in_set_conv_nth)
  moreover have "hd xs = xs ! 0" using assms(2) by (cases xs) auto
  ultimately show ?thesis by simp
qed

lemma heap_ok_Nil [simp]: "heap_ok key [] 0"
  by (simp add: heap_ok_def)

end
