(* ===== verification/Cache.thy ===== *)
theory Cache
  imports Prelude Heap "HOL-Library.AList" "HOL-Library.Monad_Syntax"
begin

text \<open>
  The read cache of \<^verbatim>\<open>core/cache/cache.go\<close>: entries with a lifetime, indexed by the database and the relation
  they read and kept in a heap by expiry, with a count of the invalidations of every database. The clock is an
  argument of the operations that read it, in nanoseconds; sizes and counts are unbounded, since they are bounded
  by the memory the entries take. An operation is \<^const>\<open>None\<close> where the code would panic: on the removal of an
  entry that is not in the map or not in the heap.

  A Go map is an association list, so that ranging over it is a fold; a set of keys is a list. The position \<open>at\<close>
  an entry records is the one it has in the heap.
\<close>

record ckey =
  k_Database :: string
  k_Relation :: string
  k_Datasource :: string
  k_Generation :: nat
  k_SQL :: string
  k_Args :: string
  k_Scope :: string

record 'v centry =
  e_key :: ckey
  e_v :: 'v
  e_exp :: int
  e_size :: int

type_synonym cindex = "(string \<times> (string \<times> ckey list) list) list"

record 'v ttl_cache =
  c_ttl :: int
  c_maxSize :: int
  c_maxBytes :: int
  c_bytes :: int
  c_m :: "(ckey \<times> 'v centry) list"
  c_byDatabase :: cindex
  c_expiry :: "'v centry list"
  c_stamps :: "(string \<times> nat) list"

definition defaultMaxSize :: int where
  "defaultMaxSize = 1024"

definition entry_at :: "ckey \<Rightarrow> 'v centry list \<Rightarrow> nat" where
  "entry_at k h = length (takeWhile (\<lambda>e. e_key e \<noteq> k) h)"

definition unindex :: "ckey \<Rightarrow> cindex \<Rightarrow> cindex" where
  "unindex k by =
     (case map_of by (k_Database k) of
        None \<Rightarrow> by
      | Some relations \<Rightarrow>
          let relations' = (case map_of relations (k_Relation k) of
                              None \<Rightarrow> relations
                            | Some keys \<Rightarrow> let keys' = removeAll k keys in
                                if keys' = [] then AList.delete (k_Relation k) relations
                                else AList.update (k_Relation k) keys' relations)
          in if relations' = [] then AList.delete (k_Database k) by
             else AList.update (k_Database k) relations' by)"

definition removeLocked :: "'v centry \<Rightarrow> 'v ttl_cache \<Rightarrow> 'v ttl_cache option" where
  "removeLocked e c =
     (let at' = entry_at (e_key e) (c_expiry c) in
      if at' \<ge> length (c_expiry c) then None
      else Some (c\<lparr>c_bytes := c_bytes c - e_size e, c_m := AList.delete (e_key e) (c_m c),
                   c_expiry := heap_remove e_exp at' (c_expiry c),
                   c_byDatabase := unindex (e_key e) (c_byDatabase c)\<rparr>))"

lemma removeLocked_shrinks:
  "removeLocked e c = Some c' \<Longrightarrow> length (c_expiry c') = length (c_expiry c) - 1 \<and> c_expiry c \<noteq> []"
  using arg_cong [OF heap_remove_mset [of "entry_at (e_key e) (c_expiry c)" "c_expiry c" e_exp], of size]
  by (auto simp: removeLocked_def Let_def size_Diff_singleton split: if_splits)

definition over_caps :: "int \<Rightarrow> int \<Rightarrow> 'v ttl_cache \<Rightarrow> bool" where
  "over_caps extra sz c \<longleftrightarrow>
     int (length (c_m c)) + extra > c_maxSize c \<or> c_maxBytes c > 0 \<and> c_bytes c + sz > c_maxBytes c"

function evictLocked :: "int \<Rightarrow> int \<Rightarrow> 'v ttl_cache \<Rightarrow> 'v ttl_cache option" where
  "evictLocked extra sz c =
     (if length (c_expiry c) > 0 \<and> over_caps extra sz c
      then (case removeLocked (hd (c_expiry c)) c of
              None \<Rightarrow> None | Some c' \<Rightarrow> evictLocked extra sz c')
      else Some c)"
  by auto

termination
  by (relation "measure (\<lambda>(extra, sz, c). length (c_expiry c))") (auto dest: removeLocked_shrinks)

function expireLocked :: "int \<Rightarrow> 'v ttl_cache \<Rightarrow> 'v ttl_cache option" where
  "expireLocked now c =
     (if length (c_expiry c) > 0 \<and> now > e_exp (hd (c_expiry c))
      then (case removeLocked (hd (c_expiry c)) c of
              None \<Rightarrow> None | Some c' \<Rightarrow> expireLocked now c')
      else Some c)"
  by auto

termination
  by (relation "measure (\<lambda>(now, c). length (c_expiry c))") (auto dest: removeLocked_shrinks)

declare evictLocked.simps [simp del] expireLocked.simps [simp del]

definition cache_UpdateLimits :: "int \<Rightarrow> int \<Rightarrow> int \<Rightarrow> 'v ttl_cache \<Rightarrow> 'v ttl_cache option" where
  "cache_UpdateLimits ttl maxSize maxBytes c =
     evictLocked 0 0 (c\<lparr>c_ttl := ttl, c_maxSize := (if maxSize \<le> 0 then defaultMaxSize else maxSize),
                        c_maxBytes := max maxBytes 0\<rparr>)"

definition NewTTLCache :: "int \<Rightarrow> int \<Rightarrow> 'v ttl_cache option" where
  "NewTTLCache ttl maxSize =
     cache_UpdateLimits ttl maxSize 0
       \<lparr>c_ttl = 0, c_maxSize = 0, c_maxBytes = 0, c_bytes = 0, c_m = [], c_byDatabase = [], c_expiry = [], c_stamps = []\<rparr>"

definition GetSized :: "int \<Rightarrow> ckey \<Rightarrow> 'v ttl_cache \<Rightarrow> (('v \<times> int) option \<times> 'v ttl_cache) option" where
  "GetSized now k c =
     (case map_of (c_m c) k of
        None \<Rightarrow> Some (None, c)
      | Some e \<Rightarrow> if now > e_exp e then map_option (Pair None) (removeLocked e c)
                  else Some (Some (e_v e, e_size e), c))"

definition cache_Get :: "int \<Rightarrow> ckey \<Rightarrow> 'v ttl_cache \<Rightarrow> ('v option \<times> 'v ttl_cache) option" where
  "cache_Get now k c = map_option (\<lambda>(r, c'). (map_option fst r, c')) (GetSized now k c)"

definition Stamp :: "string \<Rightarrow> 'v ttl_cache \<Rightarrow> nat" where
  "Stamp database c = (case map_of (c_stamps c) database of None \<Rightarrow> 0 | Some n \<Rightarrow> n)"

definition index_key :: "ckey \<Rightarrow> cindex \<Rightarrow> cindex" where
  "index_key k by =
     (let relations = (case map_of by (k_Database k) of None \<Rightarrow> [] | Some relations \<Rightarrow> relations);
          keys = (case map_of relations (k_Relation k) of None \<Rightarrow> [] | Some keys \<Rightarrow> keys)
      in AList.update (k_Database k) (AList.update (k_Relation k) (List.insert k keys) relations) by)"

definition SetSized :: "int \<Rightarrow> ckey \<Rightarrow> 'v \<Rightarrow> nat \<Rightarrow> int \<Rightarrow> 'v ttl_cache \<Rightarrow> 'v ttl_cache option" where
  "SetSized now k v stamp sz c =
     (if Stamp (k_Database k) c \<noteq> stamp \<or> c_maxBytes c > 0 \<and> sz > c_maxBytes c then Some c
      else do {
        c1 \<leftarrow> expireLocked now c;
        c2 \<leftarrow> (case map_of (c_m c1) k of Some e \<Rightarrow> removeLocked e c1 | None \<Rightarrow> Some c1);
        c3 \<leftarrow> evictLocked 1 sz c2;
        let e = \<lparr>e_key = k, e_v = v, e_exp = now + c_ttl c3, e_size = sz\<rparr>;
        Some (c3\<lparr>c_bytes := c_bytes c3 + sz, c_m := AList.update k e (c_m c3),
                 c_expiry := heap_push e_exp e (c_expiry c3),
                 c_byDatabase := index_key k (c_byDatabase c3)\<rparr>)
      })"

definition cache_Set :: "int \<Rightarrow> ckey \<Rightarrow> 'v \<Rightarrow> nat \<Rightarrow> 'v ttl_cache \<Rightarrow> 'v ttl_cache option" where
  "cache_Set now k v stamp = SetSized now k v stamp 0"

primrec removeKeysLocked :: "ckey list \<Rightarrow> 'v ttl_cache \<Rightarrow> 'v ttl_cache option" where
  "removeKeysLocked [] c = Some c"
| "removeKeysLocked (k # ks) c =
     do { e \<leftarrow> map_of (c_m c) k; c' \<leftarrow> removeLocked e c; removeKeysLocked ks c' }"

primrec removeRelations :: "(string \<times> ckey list) list \<Rightarrow> 'v ttl_cache \<Rightarrow> 'v ttl_cache option" where
  "removeRelations [] c = Some c"
| "removeRelations (r # rs) c = do { c' \<leftarrow> removeKeysLocked (snd r) c; removeRelations rs c' }"

definition relation_keys :: "string \<Rightarrow> string \<Rightarrow> cindex \<Rightarrow> ckey list" where
  "relation_keys database relation by =
     (case map_of by database of None \<Rightarrow> []
      | Some relations \<Rightarrow> (case map_of relations relation of None \<Rightarrow> [] | Some keys \<Rightarrow> keys))"

definition Invalidate :: "string \<Rightarrow> string \<Rightarrow> 'v ttl_cache \<Rightarrow> 'v ttl_cache option" where
  "Invalidate database relation c =
     (let c0 = c\<lparr>c_stamps := AList.update database (Stamp database c + 1) (c_stamps c)\<rparr> in
      if relation = '''' then
        removeRelations (case map_of (c_byDatabase c0) database of None \<Rightarrow> [] | Some relations \<Rightarrow> relations) c0
      else do {
        c1 \<leftarrow> removeKeysLocked (relation_keys database relation (c_byDatabase c0)) c0;
        removeKeysLocked (relation_keys database '''' (c_byDatabase c1)) c1
      })"

primrec drop_entries :: "(ckey \<times> 'v centry) list \<Rightarrow> nat \<Rightarrow> 'v ttl_cache \<Rightarrow> 'v ttl_cache option" where
  "drop_entries [] generation c = Some c"
| "drop_entries (ke # kes) generation c =
     do { c' \<leftarrow> (if k_Generation (fst ke) = generation then removeLocked (snd ke) c else Some c);
          drop_entries kes generation c' }"

definition DropGeneration :: "nat \<Rightarrow> 'v ttl_cache \<Rightarrow> 'v ttl_cache option" where
  "DropGeneration generation c = drop_entries (c_m c) generation c"

end
