(* ===== verification/Cache_Laws.thy ===== *)
theory Cache_Laws
  imports Cache
begin

text \<open>
  What the cache keeps: the heap holds the entries of the map, ordered by expiry; the index lists the keys of
  every database and relation; the byte count is that of the entries. Under this invariant no removal panics, and
  every operation is a restriction of the map or the insertion of one entry.
\<close>

section \<open>The index\<close>

lemma delete_Nil: "AList.delete k m = [] \<Longrightarrow> r \<noteq> k \<Longrightarrow> map_of m r = None"
  by (metis delete_conv' fun_upd_other map_of.simps(1))

lemma unindex_keys: "relation_keys d r (unindex k by) =
    (if d = k_Database k \<and> r = k_Relation k then removeAll k (relation_keys d r by) else relation_keys d r by)"
  by (auto simp: relation_keys_def unindex_def Let_def delete_conv' update_conv' dest: delete_Nil split: option.splits)

lemma index_key_keys: "relation_keys d r (index_key k by) =
    (if d = k_Database k \<and> r = k_Relation k then List.insert k (relation_keys d r by) else relation_keys d r by)"
  by (auto simp: relation_keys_def index_key_def Let_def update_conv' split: option.splits)

definition index_shape :: "cindex \<Rightarrow> bool" where
  "index_shape by \<longleftrightarrow> (\<forall>d relations. map_of by d = Some relations \<longrightarrow> distinct (map fst relations))"

lemma index_shape_unindex [simp]: "index_shape by \<Longrightarrow> index_shape (unindex k by)"
  by (auto simp: index_shape_def unindex_def Let_def delete_conv' update_conv' distinct_update distinct_delete
      split: option.splits if_splits)

lemma index_shape_index_key [simp]: "index_shape by \<Longrightarrow> index_shape (index_key k by)"
  by (auto simp: index_shape_def index_key_def Let_def update_conv' distinct_update split: option.splits if_splits)

definition index_ok :: "cindex \<Rightarrow> ckey set \<Rightarrow> bool" where
  "index_ok by K \<longleftrightarrow> index_shape by \<and>
     (\<forall>d r. distinct (relation_keys d r by) \<and>
        set (relation_keys d r by) = {k \<in> K. k_Database k = d \<and> k_Relation k = r})"

lemma index_ok_unindex: "index_ok by K \<Longrightarrow> index_ok (unindex k by) (K - {k})"
  by (auto simp: index_ok_def unindex_keys distinct_removeAll)

lemma index_ok_index_key: "index_ok by K \<Longrightarrow> index_ok (index_key k by) (insert k K)"
  by (auto simp: index_ok_def index_key_keys)

section \<open>The invariant\<close>

definition cache_ok :: "'v ttl_cache \<Rightarrow> bool" where
  "cache_ok c \<longleftrightarrow>
     distinct (map fst (c_m c)) \<and> (\<forall>(k, e) \<in> set (c_m c). e_key e = k \<and> 0 \<le> e_size e) \<and>
     mset (c_expiry c) = mset (map snd (c_m c)) \<and> heap_ok e_exp (c_expiry c) (length (c_expiry c)) \<and>
     c_bytes c = sum_list (map (e_size \<circ> snd) (c_m c)) \<and>
     index_ok (c_byDatabase c) (fst ` set (c_m c)) \<and> c_maxSize c > 0"

lemma mset_delete: "distinct (map fst m) \<Longrightarrow> map_of m k = Some e \<Longrightarrow>
    mset (map snd m) = add_mset e (mset (map snd (AList.delete k m)))"
  by (induction m) (auto simp: delete_notin_dom split: if_splits)

lemma sum_delete: "distinct (map fst m) \<Longrightarrow> map_of m k = Some e \<Longrightarrow>
    sum_list (map (f \<circ> snd) m) = f e + (sum_list (map (f \<circ> snd) (AList.delete k m)) :: int)"
  by (induction m) (auto simp: delete_notin_dom split: if_splits)

lemma cache_ok_entry: "cache_ok c \<Longrightarrow> map_of (c_m c) k = Some e \<Longrightarrow> e_key e = k"
  by (auto simp: cache_ok_def dest: map_of_SomeD)

lemma cache_ok_mset: "cache_ok c \<Longrightarrow> mset (c_expiry c) = mset (map snd (c_m c))"
  by (simp add: cache_ok_def)

lemma cache_ok_distinct: "cache_ok c \<Longrightarrow> distinct (map fst (c_m c))"
  by (simp add: cache_ok_def)

lemma cache_ok_expiry: "cache_ok c \<Longrightarrow> set (c_expiry c) = snd ` set (c_m c)"
  using arg_cong [OF cache_ok_mset, of c set_mset] by simp

lemma cache_ok_expiry_iff:
  assumes "cache_ok c"
  shows "e \<in> set (c_expiry c) \<longleftrightarrow> map_of (c_m c) (e_key e) = Some e"
proof
  assume "e \<in> set (c_expiry c)"
  then obtain k where "(k, e) \<in> set (c_m c)" using cache_ok_expiry [OF assms] by auto
  moreover from this have "e_key e = k" using assms by (auto simp: cache_ok_def)
  ultimately show "map_of (c_m c) (e_key e) = Some e" using assms by (simp add: cache_ok_def)
next
  assume "map_of (c_m c) (e_key e) = Some e"
  then show "e \<in> set (c_expiry c)" using cache_ok_expiry [OF assms] by (force dest: map_of_SomeD)
qed

lemma entry_at_nth:
  assumes "e \<in> set h" "\<And>e'. e' \<in> set h \<Longrightarrow> e_key e' = e_key e \<Longrightarrow> e' = e"
  shows "entry_at (e_key e) h < length h" "h ! entry_at (e_key e) h = e"
proof -
  show l: "entry_at (e_key e) h < length h"
    using assms(1) unfolding entry_at_def
    by (metis (mono_tags, lifting) length_takeWhile_le nat_less_le set_takeWhileD takeWhile_eq_all_conv takeWhile_eq_take take_all_iff order_refl)
  then have "e_key (h ! entry_at (e_key e) h) = e_key e"
    unfolding entry_at_def using nth_length_takeWhile by blast
  with assms(2) l show "h ! entry_at (e_key e) h = e" by simp
qed

text \<open>The operations that only remove keep the configuration and the stamps and restrict the map.\<close>

definition same_caps :: "'v ttl_cache \<Rightarrow> 'v ttl_cache \<Rightarrow> bool" where
  "same_caps c c' \<longleftrightarrow> c_ttl c' = c_ttl c \<and> c_maxSize c' = c_maxSize c \<and> c_maxBytes c' = c_maxBytes c \<and>
     c_stamps c' = c_stamps c"

definition drops :: "ckey set \<Rightarrow> 'v ttl_cache \<Rightarrow> 'v ttl_cache \<Rightarrow> bool" where
  "drops K c c' \<longleftrightarrow> cache_ok c' \<and> same_caps c c' \<and> map_of (c_m c') = map_of (c_m c) |` (- K)"

lemma drops_ok: "drops K c c' \<Longrightarrow> cache_ok c'"
  by (simp add: drops_def)

lemma drops_map: "drops K c c' \<Longrightarrow> map_of (c_m c') = map_of (c_m c) |` (- K)"
  by (simp add: drops_def)

lemma drops_refl: "cache_ok c \<Longrightarrow> drops {} c c"
  by (auto simp: drops_def same_caps_def restrict_map_def)

lemma drops_trans: "drops K c c' \<Longrightarrow> drops L c' c'' \<Longrightarrow> drops (K \<union> L) c c''"
  by (auto simp: drops_def same_caps_def)

lemma removeLocked_ok:
  assumes "cache_ok c" "map_of (c_m c) k = Some e"
  obtains c' where "removeLocked e c = Some c'" "drops {k} c c'" "c_m c' = AList.delete k (c_m c)"
proof -
  have key: "e_key e = k" using cache_ok_entry [OF assms] .
  have mem: "e \<in> set (c_expiry c)" using assms cache_ok_expiry_iff key by blast
  have uniq: "e' = e" if "e' \<in> set (c_expiry c)" "e_key e' = e_key e" for e'
    using that mem assms(1) by (simp add: cache_ok_expiry_iff)
  note at' = entry_at_nth [OF mem uniq]
  let ?c = "c\<lparr>c_bytes := c_bytes c - e_size e, c_m := AList.delete (e_key e) (c_m c),
      c_expiry := heap_remove e_exp (entry_at (e_key e) (c_expiry c)) (c_expiry c),
      c_byDatabase := unindex (e_key e) (c_byDatabase c)\<rparr>"
  have d: "distinct (map fst (c_m c))" "mset (c_expiry c) = mset (map snd (c_m c))"
    "c_bytes c = sum_list (map (e_size \<circ> snd) (c_m c))" using assms(1) by (simp_all add: cache_ok_def)
  have dom: "fst ` set (AList.delete k (c_m c)) = fst ` set (c_m c) - {k}" by (simp add: delete_keys flip: set_map)
  have "mset (heap_remove e_exp (entry_at k (c_expiry c)) (c_expiry c)) = mset (map snd (AList.delete k (c_m c)))"
    using heap_remove_mset [OF at'(1), of e_exp] at'(2) key d(2) mset_delete [OF d(1) assms(2)] by simp
  moreover have "index_ok (unindex k (c_byDatabase c)) (fst ` set (AList.delete k (c_m c)))"
    unfolding dom using assms(1) by (auto simp: cache_ok_def intro: index_ok_unindex)
  moreover have "\<forall>(k', e) \<in> set (AList.delete k (c_m c)). e_key e = k' \<and> 0 \<le> e_size e"
    using assms(1) by (auto simp: cache_ok_def AList.delete_eq)
  ultimately have "cache_ok ?c"
    using assms(1) sum_delete [OF d(1) assms(2), of e_size] heap_remove_ok [OF _ at'(1)] key
    by (simp add: cache_ok_def distinct_delete)
  then have "drops {k} c ?c" by (simp add: drops_def same_caps_def key delete_conv' restrict_complement_singleton_eq)
  with at'(1) key that show thesis by (simp add: removeLocked_def)
qed

section \<open>The loops\<close>

lemma cache_ok_length: "cache_ok c \<Longrightarrow> length (c_expiry c) = length (c_m c)"
  using mset_eq_length [OF cache_ok_mset, of c] by simp

lemma cache_ok_head: "cache_ok c \<Longrightarrow> c_expiry c \<noteq> [] \<Longrightarrow> map_of (c_m c) (e_key (hd (c_expiry c))) = Some (hd (c_expiry c))"
  using cache_ok_expiry_iff [of c "hd (c_expiry c)"] by simp

text \<open>The head of the heap expires no later than any entry.\<close>

lemma cache_ok_least:
  assumes "cache_ok c" "map_of (c_m c) k = Some e"
  shows "e_exp (hd (c_expiry c)) \<le> e_exp e"
  using assms heap_ok_least [of e_exp "c_expiry c" e] cache_ok_entry [OF assms] cache_ok_expiry_iff [OF assms(1), of e]
  by (simp add: cache_ok_def)

text \<open>A loop that takes the head of the heap drops entries that expire no later than those it keeps.\<close>

definition earliest :: "'v ttl_cache \<Rightarrow> 'v ttl_cache \<Rightarrow> bool" where
  "earliest c c' \<longleftrightarrow>
     (\<forall>k e k' e'. map_of (c_m c) k = Some e \<longrightarrow> map_of (c_m c') k = None \<longrightarrow> map_of (c_m c') k' = Some e' \<longrightarrow>
        e_exp e \<le> e_exp e')"

lemma take_head:
  assumes "cache_ok c" "c_expiry c \<noteq> []"
  obtains c' where "removeLocked (hd (c_expiry c)) c = Some c'" "drops {e_key (hd (c_expiry c))} c c'" "earliest c c'"
    "\<And>c'' K. drops K c' c'' \<Longrightarrow> earliest c' c'' \<Longrightarrow> earliest c c''"
proof (rule removeLocked_ok [OF assms(1) cache_ok_head [OF assms]])
  fix c' assume c': "removeLocked (hd (c_expiry c)) c = Some c'" "drops {e_key (hd (c_expiry c))} c c'"
  have m: "map_of (c_m c') = map_of (c_m c) |` (- {e_key (hd (c_expiry c))})" using c' by (simp add: drops_def)
  have first: "e = hd (c_expiry c)" if "map_of (c_m c) k = Some e" "map_of (c_m c') k = None" for k e
    using that m cache_ok_head [OF assms] by (auto simp: restrict_map_def split: if_splits)
  have old: "map_of (c_m c) k = Some e" if "map_of (c_m c') k = Some e" for k e
    using that m by (auto simp: restrict_map_def split: if_splits)
  have "earliest c c'" unfolding earliest_def using first old cache_ok_least [OF assms(1)] by blast
  moreover have "earliest c c''" if "drops K c' c''" "earliest c' c''" for c'' K
    unfolding earliest_def
  proof (intro allI impI)
    fix k e k' e' assume k: "map_of (c_m c) k = Some e" "map_of (c_m c'') k = None" "map_of (c_m c'') k' = Some e'"
    have k': "map_of (c_m c') k' = Some e'"
      using k(3) that(1) by (auto simp: drops_def restrict_map_def split: if_splits)
    show "e_exp e \<le> e_exp e'"
    proof (cases "map_of (c_m c') k")
      case None
      then show ?thesis using first [OF k(1)] cache_ok_least [OF assms(1) old [OF k']] by simp
    next
      case (Some e2)
      then show ?thesis using that(2) k k' old [OF Some] by (auto simp: earliest_def)
    qed
  qed
  ultimately show thesis using c' that by blast
qed

lemma evictLocked_ok:
  assumes "cache_ok c"
  obtains c' K where "evictLocked extra sz c = Some c'" "drops K c c'" "earliest c c'"
    "c_m c' = [] \<or> \<not> over_caps extra sz c'" "over_caps extra sz c \<or> c' = c"
  using assms
proof (induction extra sz c arbitrary: thesis rule: evictLocked.induct)
  case (1 extra sz c)
  show ?case
  proof (cases "c_expiry c \<noteq> [] \<and> over_caps extra sz c")
    case False
    then have "evictLocked extra sz c = Some c" by (subst evictLocked.simps) auto
    with False show ?thesis
      using 1(2) drops_refl [OF 1(3)] cache_ok_length [OF 1(3)] by (auto simp: earliest_def)
  next
    case True
    then have ne: "c_expiry c \<noteq> []" by simp
    show ?thesis
    proof (rule take_head [OF 1(3) ne])
      fix c1 assume c1: "removeLocked (hd (c_expiry c)) c = Some c1" "drops {e_key (hd (c_expiry c))} c c1"
        "\<And>c'' K. drops K c1 c'' \<Longrightarrow> earliest c1 c'' \<Longrightarrow> earliest c c''"
      have ok: "cache_ok c1" using c1 by (simp add: drops_def)
      have g: "0 < length (c_expiry c) \<and> over_caps extra sz c" using True by simp
      have step: "evictLocked extra sz c = evictLocked extra sz c1"
        using g c1(1) by (subst evictLocked.simps) simp
      show ?thesis
      proof (rule 1(1) [OF g c1(1) _ ok])
        fix c' K assume c': "evictLocked extra sz c1 = Some c'" "drops K c1 c'" "earliest c1 c'"
          "c_m c' = [] \<or> \<not> over_caps extra sz c'"
        show ?thesis
          using 1(2) [OF _ drops_trans [OF c1(2) c'(2)] c1(3) [OF c'(2,3)] c'(4)] step c'(1) g by simp
      qed
    qed
  qed
qed

lemma expireLocked_ok:
  assumes "cache_ok c"
  obtains c' K where "expireLocked now c = Some c'" "drops K c c'"
    "\<forall>k e. map_of (c_m c') k = Some e \<longrightarrow> now \<le> e_exp e"
    "\<forall>k e. map_of (c_m c) k = Some e \<longrightarrow> now \<le> e_exp e \<longrightarrow> map_of (c_m c') k = Some e"
  using assms
proof (induction now c arbitrary: thesis rule: expireLocked.induct)
  case (1 now c)
  show ?case
  proof (cases "c_expiry c \<noteq> [] \<and> now > e_exp (hd (c_expiry c))")
    case False
    then have "expireLocked now c = Some c" by (subst expireLocked.simps) auto
    moreover have "now \<le> e_exp e" if "map_of (c_m c) k = Some e" for k e
      using False cache_ok_least [OF 1(3) that] cache_ok_length [OF 1(3)] that by (cases "c_expiry c = []") auto
    ultimately show ?thesis using 1(2) drops_refl [OF 1(3)] by blast
  next
    case True
    then have ne: "c_expiry c \<noteq> []" by simp
    show ?thesis
    proof (rule take_head [OF 1(3) ne])
      fix c1 assume c1: "removeLocked (hd (c_expiry c)) c = Some c1" "drops {e_key (hd (c_expiry c))} c c1"
      have ok: "cache_ok c1" using c1 by (simp add: drops_def)
      have g: "0 < length (c_expiry c) \<and> now > e_exp (hd (c_expiry c))" using True by simp
      have step: "expireLocked now c = expireLocked now c1"
        using g c1(1) by (subst expireLocked.simps) simp
      have keep: "map_of (c_m c1) k = Some e" if "map_of (c_m c) k = Some e" "now \<le> e_exp e" for k e
        using c1(2) that cache_ok_head [OF 1(3) ne] True by (auto simp: drops_def restrict_map_def)
      show ?thesis
      proof (rule 1(1) [OF g c1(1) _ ok])
        fix c' K assume c': "expireLocked now c1 = Some c'" "drops K c1 c'"
          "\<forall>k e. map_of (c_m c') k = Some e \<longrightarrow> now \<le> e_exp e"
          "\<forall>k e. map_of (c_m c1) k = Some e \<longrightarrow> now \<le> e_exp e \<longrightarrow> map_of (c_m c') k = Some e"
        show ?thesis
          using 1(2) [OF _ drops_trans [OF c1(2) c'(2)] c'(3)] step c'(1,4) keep by simp
      qed
    qed
  qed
qed

section \<open>The caps\<close>

definition capped :: "'v ttl_cache \<Rightarrow> bool" where
  "capped c \<longleftrightarrow> int (length (c_m c)) \<le> c_maxSize c \<and> (c_maxBytes c > 0 \<longrightarrow> c_bytes c \<le> c_maxBytes c)"

lemma drops_subset:
  assumes "cache_ok c" "drops K c c'"
  shows "set (c_m c') \<subseteq> set (c_m c)"
proof
  fix x assume "x \<in> set (c_m c')"
  then have "map_of (c_m c') (fst x) = Some (snd x)"
    using cache_ok_distinct [OF drops_ok [OF assms(2)]] by (simp add: map_of_is_SomeI)
  moreover note drops_map [OF assms(2)]
  ultimately have "map_of (c_m c) (fst x) = Some (snd x)" by (simp add: restrict_map_def split: if_splits)
  then show "x \<in> set (c_m c)" by (auto dest: map_of_SomeD)
qed

lemma cache_ok_bytes: "cache_ok c \<Longrightarrow> c_bytes c = (\<Sum>x \<in> set (c_m c). e_size (snd x))"
  by (simp add: cache_ok_def sum_list_distinct_conv_sum_set distinct_map o_def)

lemma drops_capped:
  assumes "cache_ok c" "drops K c c'" "capped c"
  shows "capped c'"
proof -
  note sub = drops_subset [OF assms(1,2)]
  have ok: "cache_ok c'" using assms(2) by (simp add: drops_def)
  have "card (set (c_m c')) \<le> card (set (c_m c))" using sub by (simp add: card_mono)
  moreover have "card (set (c_m x)) = length (c_m x)" if "cache_ok x" for x :: "'a ttl_cache"
    using that by (simp add: cache_ok_def distinct_map distinct_card)
  ultimately have "length (c_m c') \<le> length (c_m c)" using assms(1) ok by simp
  moreover have "c_bytes c' \<le> c_bytes c"
    unfolding cache_ok_bytes [OF ok] cache_ok_bytes [OF assms(1)]
    using assms(1) sub by (intro sum_mono2) (auto simp: cache_ok_def)
  ultimately show ?thesis using assms(2,3) by (auto simp: capped_def drops_def same_caps_def)
qed

lemma over_caps_capped: "cache_ok c \<Longrightarrow> c_m c = [] \<or> \<not> over_caps 0 0 c \<Longrightarrow> capped c"
  by (auto simp: capped_def over_caps_def cache_ok_def)

section \<open>The operations\<close>

lemma removeKeysLocked_ok:
  assumes "cache_ok c" "distinct ks" "set ks \<subseteq> dom (map_of (c_m c))"
  obtains c' where "removeKeysLocked ks c = Some c'" "drops (set ks) c c'"
  using assms
proof (induction ks arbitrary: c thesis)
  case Nil
  then show ?case by (simp add: drops_refl)
next
  case (Cons k ks)
  then obtain e where e: "map_of (c_m c) k = Some e" by auto
  show ?case
  proof (rule removeLocked_ok [OF Cons.prems(2) e])
    fix c1 assume c1: "removeLocked e c = Some c1" "drops {k} c c1"
    then have ok: "cache_ok c1" "set ks \<subseteq> dom (map_of (c_m c1))" using Cons.prems by (auto simp: drops_def)
    show ?thesis
    proof (rule Cons.IH [OF _ ok(1) _ ok(2)])
      fix c' assume "removeKeysLocked ks c1 = Some c'" "drops (set ks) c1 c'"
      then show ?thesis using Cons.prems(1) drops_trans [OF c1(2)] e c1(1) by simp
    qed (use Cons.prems in simp)
  qed
qed

lemma removeKeysLocked_append:
  "removeKeysLocked (ks @ ks') c = Option.bind (removeKeysLocked ks c) (removeKeysLocked ks')"
  by (induction ks arbitrary: c) (auto split: Option.bind_split)

lemma removeRelations_concat: "removeRelations rs c = removeKeysLocked (concat (map snd rs)) c"
  by (induction rs arbitrary: c) (simp_all add: removeKeysLocked_append)

text \<open>The keys an invalidation reaches: those of the relation and those derived from no one relation.\<close>

definition reaches :: "string \<Rightarrow> string \<Rightarrow> ckey \<Rightarrow> bool" where
  "reaches database relation k \<longleftrightarrow>
     k_Database k = database \<and> (relation = '''' \<or> k_Relation k = relation \<or> k_Relation k = '''')"

lemma index_concat:
  assumes "distinct (map fst rels)" "\<And>r ks. (r, ks) \<in> set rels \<Longrightarrow> distinct ks \<and> (\<forall>k \<in> set ks. k_Relation k = r)"
  shows "distinct (concat (map snd rels))"
  using assms
proof (induction rels)
  case (Cons x rels)
  have "False" if "k \<in> set (snd x)" "(r, ks) \<in> set rels" "k \<in> set ks" for k r ks
  proof -
    have "k_Relation k = fst x" "k_Relation k = r"
      using Cons.prems(2) [of "fst x" "snd x"] Cons.prems(2) [of r ks] that by auto
    with that(2) Cons.prems(1) show False by (auto intro: rev_image_eqI)
  qed
  then have "set (snd x) \<inter> set (concat (map snd rels)) = {}" by auto
  moreover have "distinct (snd x)" using Cons.prems(2) [of "fst x" "snd x"] by simp
  moreover have "distinct (concat (map snd rels))" 
    by (rule Cons.IH) (use Cons.prems(1) Cons.prems(2) in auto)
  ultimately show ?case by simp
qed simp

lemma database_keys:
  fixes d :: string
  assumes "index_ok by K"
  defines "rels \<equiv> (case map_of by d of None \<Rightarrow> [] | Some relations \<Rightarrow> relations)"
  shows "distinct (concat (map snd rels))" "set (concat (map snd rels)) = {k \<in> K. k_Database k = d}"
proof -
  have dist: "distinct (map fst rels)" using assms by (auto simp: index_ok_def index_shape_def split: option.splits)
  have lookup: "relation_keys d r by = (case map_of rels r of None \<Rightarrow> [] | Some ks \<Rightarrow> ks)" for r
    by (simp add: rels_def relation_keys_def split: option.splits)
  have keys: "relation_keys d r by = ks" if "(r, ks) \<in> set rels" for r ks
    using that dist by (simp add: lookup)
  have ok: "distinct (relation_keys d r by)"
    "set (relation_keys d r by) = {k \<in> K. k_Database k = d \<and> k_Relation k = r}" for r
    using assms(1) by (simp_all add: index_ok_def)
  show "distinct (concat (map snd rels))"
    using index_concat [OF dist] keys ok by blast
  show "set (concat (map snd rels)) = {k \<in> K. k_Database k = d}" (is "?l = ?r")
  proof (rule set_eqI)
    fix k
    have "k \<in> ?l \<longleftrightarrow> (\<exists>r. k \<in> set (relation_keys d r by))"
    proof
      assume "k \<in> ?l"
      then obtain r ks where "(r, ks) \<in> set rels" "k \<in> set ks" by auto
      then show "\<exists>r. k \<in> set (relation_keys d r by)" using keys by blast
    next
      assume "\<exists>r. k \<in> set (relation_keys d r by)"
      then obtain r where r: "k \<in> set (relation_keys d r by)" by blast
      then obtain ks where "map_of rels r = Some ks" "k \<in> set ks" by (cases "map_of rels r") (simp_all add: lookup)
      then show "k \<in> ?l" by (force dest: map_of_SomeD)
    qed
    then show "k \<in> ?l \<longleftrightarrow> k \<in> ?r" by (auto simp: ok)
  qed
qed

definition stamped :: "string \<Rightarrow> 'v ttl_cache \<Rightarrow> 'v ttl_cache" where
  "stamped d c = c\<lparr>c_stamps := AList.update d (Stamp d c + 1) (c_stamps c)\<rparr>"

lemma stamped_simps [simp]:
  "cache_ok (stamped d c) = cache_ok c" "c_m (stamped d c) = c_m c" "c_byDatabase (stamped d c) = c_byDatabase c"
  "capped (stamped d c) = capped c" "Stamp d' (stamped d c) = (if d' = d then Stamp d c + 1 else Stamp d' c)"
  by (simp_all add: stamped_def cache_ok_def capped_def Stamp_def update_conv')

lemma cache_ok_dom: "cache_ok c \<Longrightarrow> index_ok (c_byDatabase c) (dom (map_of (c_m c)))"
  by (simp add: cache_ok_def dom_map_of_conv_image_fst)

lemma drops_Int: "drops K c c' \<Longrightarrow> K \<inter> dom (map_of (c_m c)) = L \<inter> dom (map_of (c_m c)) \<Longrightarrow> drops L c c'"
  unfolding drops_def restrict_map_def by (force simp: dom_def set_eq_iff)

text \<open>An invalidation returns, drops the entries it reaches and no other, and counts.\<close>

lemma Invalidate_ok:
  assumes "cache_ok c"
  obtains c' where "Invalidate d r c = Some c'" "drops {k. reaches d r k} (stamped d c) c'"
proof (cases "r = ''''")
  case True
  let ?rels = "case map_of (c_byDatabase c) d of None \<Rightarrow> [] | Some relations \<Rightarrow> relations"
  note keys = database_keys [OF cache_ok_dom [OF assms], of d]
  show thesis
  proof (rule removeKeysLocked_ok [of "stamped d c" "concat (map snd ?rels)"])
    fix c' assume c': "removeKeysLocked (concat (map snd ?rels)) (stamped d c) = Some c'"
      "drops (set (concat (map snd ?rels))) (stamped d c) c'"
    have "drops {k. reaches d r k} (stamped d c) c'"
      by (rule drops_Int [OF c'(2)]) (unfold keys(2), auto simp: reaches_def True)
    with c'(1) True that show thesis by (simp add: Invalidate_def removeRelations_concat stamped_def)
  qed (use assms keys in auto)
next
  case False
  have ok: "distinct (relation_keys d r' by)" "set (relation_keys d r' by) = {k \<in> K. k_Database k = d \<and> k_Relation k = r'}"
    if "index_ok by K" for r' K and "by" :: cindex using that by (simp_all add: index_ok_def)
  note k1 = ok [OF cache_ok_dom [OF assms], of r]
  show thesis
  proof (rule removeKeysLocked_ok [of "stamped d c" "relation_keys d r (c_byDatabase c)"])
    fix c1 assume c1: "removeKeysLocked (relation_keys d r (c_byDatabase c)) (stamped d c) = Some c1"
      "drops (set (relation_keys d r (c_byDatabase c))) (stamped d c) c1"
    note k2 = ok [OF cache_ok_dom [OF drops_ok [OF c1(2)]], of "''''"]
    show thesis
    proof (rule removeKeysLocked_ok [OF drops_ok [OF c1(2)] k2(1)])
      fix c' assume c': "removeKeysLocked (relation_keys d '''' (c_byDatabase c1)) c1 = Some c'"
        "drops (set (relation_keys d '''' (c_byDatabase c1))) c1 c'"
      have "drops {k. reaches d r k} (stamped d c) c'"
        by (rule drops_Int [OF drops_trans [OF c1(2) c'(2)]])
          (unfold k1(2) k2(2), auto simp: reaches_def False drops_map [OF c1(2)] k1(2))
      with c1(1) c'(1) False that show thesis by (simp add: Invalidate_def stamped_def)
    qed (unfold k2(2), auto)
  qed (use assms k1 in auto)
qed

lemma drop_entries_ok:
  assumes "cache_ok c" "distinct (map fst kes)" "\<And>k e. (k, e) \<in> set kes \<Longrightarrow> map_of (c_m c) k = Some e"
  obtains c' where "drop_entries kes g c = Some c'" "drops {k \<in> fst ` set kes. k_Generation k = g} c c'"
  using assms
proof (induction kes arbitrary: c thesis)
  case Nil
  then show ?case by (simp add: drops_refl)
next
  case (Cons x kes)
  obtain k e where x: "x = (k, e)" by (cases x)
  have e: "map_of (c_m c) k = Some e" using Cons.prems(4) by (simp add: x)
  show ?case
  proof (cases "k_Generation k = g")
    case False
    have "{k \<in> fst ` set (x # kes). k_Generation k = g} = {k \<in> fst ` set kes. k_Generation k = g}"
      using False x by auto
    then show ?thesis
      using Cons.prems Cons.IH [of c thesis] False x by simp
  next
    case True
    have eq: "{k \<in> fst ` set (x # kes). k_Generation k = g} = {k} \<union> {k \<in> fst ` set kes. k_Generation k = g}"
      using True x by auto
    show ?thesis
    proof (rule removeLocked_ok [OF Cons.prems(2) e])
      fix c1 assume c1: "removeLocked e c = Some c1" "drops {k} c c1"
      have rest: "map_of (c_m c1) k' = Some e'" if "(k', e') \<in> set kes" for k' e'
      proof -
        have "k' \<noteq> k" using that Cons.prems(3) x by (auto intro: rev_image_eqI)
        then show ?thesis using Cons.prems(4) [of k' e'] that drops_map [OF c1(2)] by simp
      qed
      show ?thesis
      proof (rule Cons.IH [OF _ drops_ok [OF c1(2)] _ rest])
        fix c' assume "drop_entries kes g c1 = Some c'" "drops {k \<in> fst ` set kes. k_Generation k = g} c1 c'"
        then show ?thesis using Cons.prems(1) drops_trans [OF c1(2)] c1(1) True x eq by simp
      qed (use Cons.prems in auto)
    qed
  qed
qed

lemma DropGeneration_ok:
  assumes "cache_ok c"
  obtains c' where "DropGeneration g c = Some c'" "drops {k. k_Generation k = g} c c'"
proof (rule drop_entries_ok [OF assms cache_ok_distinct [OF assms], of g])
  fix c' assume c': "drop_entries (c_m c) g c = Some c'" "drops {k \<in> fst ` set (c_m c). k_Generation k = g} c c'"
  have "drops {k. k_Generation k = g} c c'"
    by (rule drops_Int [OF c'(2)]) (auto simp: dom_map_of_conv_image_fst)
  with c'(1) that show thesis by (simp add: DropGeneration_def)
qed (simp add: cache_ok_distinct [OF assms])

text \<open>New limits and the empty cache.\<close>

definition limited :: "int \<Rightarrow> int \<Rightarrow> int \<Rightarrow> 'v ttl_cache \<Rightarrow> 'v ttl_cache" where
  "limited ttl maxSize maxBytes c =
     c\<lparr>c_ttl := ttl, c_maxSize := (if maxSize \<le> 0 then defaultMaxSize else maxSize), c_maxBytes := max maxBytes 0\<rparr>"

lemma limited_simps [simp]:
  "c_m (limited ttl maxSize maxBytes c) = c_m c" "c_stamps (limited ttl maxSize maxBytes c) = c_stamps c"
  "cache_ok c \<Longrightarrow> cache_ok (limited ttl maxSize maxBytes c)"
  by (simp_all add: limited_def cache_ok_def defaultMaxSize_def)

lemma cache_UpdateLimits_ok:
  assumes "cache_ok c"
  obtains c' K where "cache_UpdateLimits ttl maxSize maxBytes c = Some c'"
    "drops K (limited ttl maxSize maxBytes c) c'" "capped c'" "earliest c c'"
    "over_caps 0 0 (limited ttl maxSize maxBytes c) \<or> c' = limited ttl maxSize maxBytes c"
proof (rule evictLocked_ok [of "limited ttl maxSize maxBytes c" 0 0])
  fix c' K assume c': "evictLocked 0 0 (limited ttl maxSize maxBytes c) = Some c'"
    "drops K (limited ttl maxSize maxBytes c) c'" "earliest (limited ttl maxSize maxBytes c) c'"
    "c_m c' = [] \<or> \<not> over_caps 0 0 c'"
    "over_caps 0 0 (limited ttl maxSize maxBytes c) \<or> c' = limited ttl maxSize maxBytes c"
  have "earliest c c'" using c'(3) by (simp add: earliest_def)
  with that c' over_caps_capped [OF drops_ok [OF c'(2)] c'(4)] show thesis
    by (simp add: cache_UpdateLimits_def limited_def)
qed (use assms in simp)

lemma NewTTLCache_ok:
  obtains c' where "NewTTLCache ttl maxSize = Some c'" "cache_ok c'" "capped c'" "c_m c' = []"
    "\<And>d. Stamp d c' = 0"
proof -
  let ?c = "limited ttl maxSize 0 \<lparr>c_ttl = 0, c_maxSize = 0, c_maxBytes = 0, c_bytes = 0, c_m = [], c_byDatabase = [],
      c_expiry = [], c_stamps = []\<rparr>"
  have ok: "cache_ok ?c"
    by (simp add: cache_ok_def limited_def index_ok_def index_shape_def relation_keys_def defaultMaxSize_def)
  have "NewTTLCache ttl maxSize = Some ?c"
    by (simp add: NewTTLCache_def cache_UpdateLimits_def limited_def evictLocked.simps)
  moreover have "capped ?c" using over_caps_capped [OF ok] by simp
  ultimately show thesis using that [of ?c] ok by (simp add: Stamp_def)
qed

text \<open>A lookup drops at most the expired entry.\<close>

lemma GetSized_ok:
  assumes "cache_ok c"
  obtains r c' K where "GetSized now k c = Some (r, c')" "drops K c c'"
    "\<And>v sz. r = Some (v, sz) \<Longrightarrow> \<exists>e. map_of (c_m c) k = Some e \<and> e_v e = v \<and> now \<le> e_exp e"
proof (cases "map_of (c_m c) k")
  case None
  then show thesis using that [of None c] drops_refl [OF assms] by (simp add: GetSized_def)
next
  case (Some e)
  show thesis
  proof (cases "now > e_exp e")
    case True
    show thesis by (rule removeLocked_ok [OF assms Some]) (use that True Some in \<open>auto simp: GetSized_def\<close>)
  next
    case False
    then show thesis using that [of "Some (e_v e, e_size e)" c] drops_refl [OF assms] Some by (simp add: GetSized_def)
  qed
qed

text \<open>A store: refused under an old stamp or over the byte cap; otherwise the entry is in, what else is in was in
  before, and the caps hold.\<close>

definition refused :: "ckey \<Rightarrow> nat \<Rightarrow> int \<Rightarrow> 'v ttl_cache \<Rightarrow> bool" where
  "refused k stamp sz c \<longleftrightarrow> Stamp (k_Database k) c \<noteq> stamp \<or> c_maxBytes c > 0 \<and> sz > c_maxBytes c"

definition put :: "'v centry \<Rightarrow> 'v ttl_cache \<Rightarrow> 'v ttl_cache" where
  "put e c = c\<lparr>c_bytes := c_bytes c + e_size e, c_m := AList.update (e_key e) e (c_m c),
               c_expiry := heap_push e_exp e (c_expiry c), c_byDatabase := index_key (e_key e) (c_byDatabase c)\<rparr>"

lemma update_new: "k \<notin> fst ` set m \<Longrightarrow> AList.update k v m = m @ [(k, v)]"
  by (induction m) auto

lemma put_ok:
  assumes "cache_ok c" "map_of (c_m c) (e_key e) = None" "0 \<le> e_size e"
  shows "cache_ok (put e c)" "same_caps c (put e c)" "map_of (c_m (put e c)) = (map_of (c_m c))(e_key e \<mapsto> e)"
    "c_m (put e c) = c_m c @ [(e_key e, e)]"
proof -
  have new: "e_key e \<notin> fst ` set (c_m c)" using assms(2) by (simp add: map_of_eq_None_iff)
  show m: "c_m (put e c) = c_m c @ [(e_key e, e)]" by (simp add: put_def update_new [OF new])
  show "same_caps c (put e c)" by (simp add: same_caps_def put_def)
  show "map_of (c_m (put e c)) = (map_of (c_m c))(e_key e \<mapsto> e)" by (simp add: put_def update_conv')
  have "heap_ok e_exp (c_expiry (put e c)) (length (c_expiry (put e c)))"
    using assms(1) by (simp add: put_def cache_ok_def heap_push_ok)
  moreover have "index_ok (c_byDatabase (put e c)) (fst ` set (c_m (put e c)))"
    using assms(1) unfolding m by (simp add: put_def cache_ok_def index_ok_index_key)
  moreover have "mset (c_expiry (put e c)) = mset (map snd (c_m (put e c)))"
    unfolding m using cache_ok_mset [OF assms(1)] by (simp add: put_def)
  moreover have "c_bytes (put e c) = sum_list (map (e_size \<circ> snd) (c_m (put e c)))"
    unfolding m using assms(1) by (simp add: put_def cache_ok_def)
  moreover have "c_maxSize (put e c) > 0" using assms(1) by (simp add: put_def cache_ok_def)
  moreover have "distinct (map fst (c_m (put e c)))"
    unfolding m using cache_ok_distinct [OF assms(1)] new by simp
  moreover have "\<forall>(k, e) \<in> set (c_m (put e c)). e_key e = k \<and> 0 \<le> e_size e"
    unfolding m using assms by (auto simp: cache_ok_def)
  ultimately show "cache_ok (put e c)" unfolding cache_ok_def by blast
qed

lemma SetSized_refused: "refused k stamp sz c \<Longrightarrow> SetSized now k v stamp sz c = Some c"
  by (auto simp: SetSized_def refused_def)

definition room :: "int \<Rightarrow> ckey \<Rightarrow> int \<Rightarrow> 'v ttl_cache \<Rightarrow> 'v ttl_cache option" where
  "room now k sz c =
     do { c1 \<leftarrow> expireLocked now c;
          c2 \<leftarrow> (case map_of (c_m c1) k of Some e \<Rightarrow> removeLocked e c1 | None \<Rightarrow> Some c1);
          evictLocked 1 sz c2 }"

lemma bind_eq_SomeE: "Option.bind x f = Some y \<Longrightarrow> (\<And>z. x = Some z \<Longrightarrow> f z = Some y \<Longrightarrow> P) \<Longrightarrow> P"
  by (cases x) auto

lemma SetSized_room: "\<not> refused k stamp sz c \<Longrightarrow> room now k sz c = Some c3 \<Longrightarrow>
    SetSized now k v stamp sz c = Some (put \<lparr>e_key = k, e_v = v, e_exp = now + c_ttl c3, e_size = sz\<rparr> c3)"
  unfolding room_def
  by (erule bind_eq_SomeE, erule bind_eq_SomeE) (auto simp: SetSized_def refused_def put_def Let_def)

lemma make_room:
  assumes "cache_ok c"
  obtains c3 K where "room now k sz c = Some c3" "drops K c c3" "map_of (c_m c3) k = None"
    "c_m c3 = [] \<or> \<not> over_caps 1 sz c3"
proof (rule expireLocked_ok [OF assms, of now])
  fix c1 K1 assume c1: "expireLocked now c = Some c1" "drops K1 c c1"
  obtain c2 K2 where c2: "(case map_of (c_m c1) k of Some e \<Rightarrow> removeLocked e c1 | None \<Rightarrow> Some c1) = Some c2"
    "drops K2 c1 c2" "map_of (c_m c2) k = None"
  proof (cases "map_of (c_m c1) k")
    case None
    then show thesis using that drops_refl [OF drops_ok [OF c1(2)]] by simp
  next
    case (Some e)
    show thesis
      by (rule removeLocked_ok [OF drops_ok [OF c1(2)] Some]) (use that Some drops_map in fastforce)
  qed
  show thesis
  proof (rule evictLocked_ok [OF drops_ok [OF c2(2)], of 1 sz])
    fix c3 K3 assume c3: "evictLocked 1 sz c2 = Some c3" "drops K3 c2 c3" "c_m c3 = [] \<or> \<not> over_caps 1 sz c3"
    have "map_of (c_m c3) k = None" using c2(3) drops_map [OF c3(2)] by (simp add: restrict_map_def)
    then show thesis
      using that [OF _ drops_trans [OF drops_trans [OF c1(2) c2(2)] c3(2)]] c1(1) c2(1) c3 by (simp add: room_def)
  qed
qed

lemma SetSized_ok:
  assumes "cache_ok c" "\<not> refused k stamp sz c" "0 \<le> sz"
  obtains c3 K where "SetSized now k v stamp sz c = Some (put \<lparr>e_key = k, e_v = v, e_exp = now + c_ttl c, e_size = sz\<rparr> c3)"
    "drops K c c3" "map_of (c_m c3) k = None" "capped (put \<lparr>e_key = k, e_v = v, e_exp = now + c_ttl c, e_size = sz\<rparr> c3)"
proof (rule make_room [OF assms(1), of now k sz])
  fix c3 K assume c3: "room now k sz c = Some c3" "drops K c c3" "map_of (c_m c3) k = None"
    "c_m c3 = [] \<or> \<not> over_caps 1 sz c3"
  let ?e = "\<lparr>e_key = k, e_v = v, e_exp = now + c_ttl c, e_size = sz\<rparr>"
  have ttl: "c_ttl c3 = c_ttl c" "c_maxBytes c3 = c_maxBytes c" using c3(2) by (simp_all add: drops_def same_caps_def)
  have set: "SetSized now k v stamp sz c = Some (put ?e c3)"
    using SetSized_room [OF assms(2) c3(1)] ttl by simp
  have m: "c_m (put ?e c3) = c_m c3 @ [(k, ?e)]" using put_ok(4) [OF drops_ok [OF c3(2)], of ?e] c3(3) assms(3) by simp
  have z: "c_m c3 = [] \<Longrightarrow> c_bytes c3 = 0" "c_maxSize c3 > 0" using drops_ok [OF c3(2)] by (simp_all add: cache_ok_def)
  have "capped (put ?e c3)"
    unfolding capped_def m using c3(4) z assms(2,3) ttl by (auto simp: over_caps_def put_def refused_def)
  with that set c3 show thesis by blast
qed

end
