(* ===== verification/Cache_Props.thy ===== *)
theory Cache_Props
  imports Cache_Laws
begin

text \<open>
  The cache beside the database it reads. Readers take the stamp of the database, run their query and store its
  result with that stamp; a writer changes what some queries return and then invalidates the relation it wrote.
  The steps interleave in any order. What the cache may not do is return a result the database no longer gives,
  unless the write that changed it has not been followed by its invalidation yet.
\<close>

section \<open>Readers and writers\<close>

record 'v reader =
  r_key :: ckey
  r_stamp :: nat
  r_result :: "'v option"

record 'v system =
  s_cache :: "'v ttl_cache"
  s_content :: "ckey \<Rightarrow> 'v"
  s_pending :: "(string \<times> string) list"
  s_readers :: "nat \<Rightarrow> 'v reader option"

inductive cache_step :: "'v system \<Rightarrow> 'v system \<Rightarrow> bool" where
  written: "(\<And>k. \<not> reaches d r k \<Longrightarrow> content k = s_content s k) \<Longrightarrow>
    cache_step s (s\<lparr>s_content := content, s_pending := (d, r) # s_pending s\<rparr>)"
| invalidate: "Invalidate d r (s_cache s) = Some c \<Longrightarrow>
    cache_step s (s\<lparr>s_cache := c, s_pending := remove1 (d, r) (s_pending s)\<rparr>)"
| stamp: "cache_step s (s\<lparr>s_readers := (s_readers s)
    (i \<mapsto> \<lparr>r_key = k, r_stamp = Stamp (k_Database k) (s_cache s), r_result = None\<rparr>)\<rparr>)"
| query: "s_readers s i = Some rd \<Longrightarrow>
    cache_step s (s\<lparr>s_readers := (s_readers s)(i \<mapsto> rd\<lparr>r_result := Some (s_content s (r_key rd))\<rparr>)\<rparr>)"
| store: "s_readers s i = Some rd \<Longrightarrow> r_result rd = Some v \<Longrightarrow> 0 \<le> sz \<Longrightarrow>
    SetSized now (r_key rd) v (r_stamp rd) sz (s_cache s) = Some c \<Longrightarrow>
    cache_step s (s\<lparr>s_cache := c, s_readers := (s_readers s)(i := None)\<rparr>)"
| lookup: "GetSized now k (s_cache s) = Some (res, c) \<Longrightarrow> cache_step s (s\<lparr>s_cache := c\<rparr>)"
| limits: "cache_UpdateLimits ttl maxSize maxBytes (s_cache s) = Some c \<Longrightarrow> cache_step s (s\<lparr>s_cache := c\<rparr>)"
| generation: "DropGeneration g (s_cache s) = Some c \<Longrightarrow> cache_step s (s\<lparr>s_cache := c\<rparr>)"

definition started :: "int \<Rightarrow> int \<Rightarrow> 'v system \<Rightarrow> bool" where
  "started ttl maxSize s \<longleftrightarrow> NewTTLCache ttl maxSize = Some (s_cache s) \<and> s_pending s = [] \<and> s_readers s = Map.empty"

text \<open>A result is current, or a write that changed it is still to invalidate.\<close>

definition current :: "'v system \<Rightarrow> ckey \<Rightarrow> 'v \<Rightarrow> bool" where
  "current s k v \<longleftrightarrow> v = s_content s k \<or> (\<exists>(d, r) \<in> set (s_pending s). reaches d r k)"

definition coherent_system :: "'v system \<Rightarrow> bool" where
  "coherent_system s \<longleftrightarrow> cache_ok (s_cache s) \<and> capped (s_cache s) \<and>
     (\<forall>k e. map_of (c_m (s_cache s)) k = Some e \<longrightarrow> current s k (e_v e)) \<and>
     (\<forall>i rd v. s_readers s i = Some rd \<longrightarrow> r_stamp rd \<le> Stamp (k_Database (r_key rd)) (s_cache s) \<and>
        (r_result rd = Some v \<longrightarrow> r_stamp rd = Stamp (k_Database (r_key rd)) (s_cache s) \<longrightarrow> current s (r_key rd) v))"

lemma coherentD:
  assumes "coherent_system s"
  shows "cache_ok (s_cache s)" "capped (s_cache s)"
    "\<And>k e. map_of (c_m (s_cache s)) k = Some e \<Longrightarrow> current s k (e_v e)"
    "\<And>i rd. s_readers s i = Some rd \<Longrightarrow> r_stamp rd \<le> Stamp (k_Database (r_key rd)) (s_cache s)"
    "\<And>i rd v. s_readers s i = Some rd \<Longrightarrow> r_result rd = Some v \<Longrightarrow>
       r_stamp rd = Stamp (k_Database (r_key rd)) (s_cache s) \<Longrightarrow> current s (r_key rd) v"
  using assms unfolding coherent_system_def by blast+

lemma coherentI:
  assumes "cache_ok (s_cache s)" "capped (s_cache s)"
    "\<And>k e. map_of (c_m (s_cache s)) k = Some e \<Longrightarrow> current s k (e_v e)"
    "\<And>i rd. s_readers s i = Some rd \<Longrightarrow> r_stamp rd \<le> Stamp (k_Database (r_key rd)) (s_cache s)"
    "\<And>i rd v. s_readers s i = Some rd \<Longrightarrow> r_result rd = Some v \<Longrightarrow>
       r_stamp rd = Stamp (k_Database (r_key rd)) (s_cache s) \<Longrightarrow> current s (r_key rd) v"
  shows "coherent_system s"
  using assms unfolding coherent_system_def by blast

text \<open>Steps that only remove entries.\<close>

lemma coherent_drops:
  assumes "coherent_system s" "drops K c0 c" "c_m c0 = c_m (s_cache s)" "c_stamps c0 = c_stamps (s_cache s)" "capped c"
  shows "coherent_system (s\<lparr>s_cache := c\<rparr>)"
proof -
  have st: "Stamp d c = Stamp d (s_cache s)" for d
    using assms(2,4) by (simp add: Stamp_def drops_def same_caps_def)
  have cur: "current (s\<lparr>s_cache := c\<rparr>) = current s" by (simp add: current_def fun_eq_iff)
  have old: "map_of (c_m (s_cache s)) k = Some e" if "map_of (c_m c) k = Some e" for k e
    using that drops_map [OF assms(2)] assms(3) by (simp add: restrict_map_def split: if_splits)
  show ?thesis
    by (rule coherentI) (use assms(5) drops_ok [OF assms(2)] coherentD [OF assms(1)] st cur old in auto)
qed

lemma coherent_drops_self: "coherent_system s \<Longrightarrow> drops K (s_cache s) c \<Longrightarrow> coherent_system (s\<lparr>s_cache := c\<rparr>)"
  using coherent_drops [of s K "s_cache s" c] drops_capped coherentD(1,2) by blast

lemma coherent_invalidate:
  assumes "coherent_system s" "Invalidate d r (s_cache s) = Some c"
  shows "coherent_system (s\<lparr>s_cache := c, s_pending := remove1 (d, r) (s_pending s)\<rparr>)" (is "coherent_system ?s")
proof -
  have ok: "drops {k. reaches d r k} (stamped d (s_cache s)) c"
    by (rule Invalidate_ok [OF coherentD(1) [OF assms(1)], of d r]) (use assms(2) in simp)
  have st: "Stamp d' c = Stamp d' (stamped d (s_cache s))" for d'
    using ok by (simp add: Stamp_def drops_def same_caps_def)
  have cur: "current ?s k v" if "current s k v" "\<not> reaches d r k" for k v
  proof -
    have "(a, b) \<in> set (remove1 (d, r) (s_pending s))" if "(a, b) \<in> set (s_pending s)" "reaches a b k" for a b
      using that \<open>\<not> reaches d r k\<close> in_set_remove1 [of "(a, b)" "(d, r)" "s_pending s"] by blast
    with that(1) show ?thesis by (auto simp: current_def)
  qed
  show ?thesis
  proof (rule coherentI)
    show "capped (s_cache ?s)" using drops_capped [OF _ ok] coherentD(1,2) [OF assms(1)] by simp
    show "current ?s k (e_v e)" if "map_of (c_m (s_cache ?s)) k = Some e" for k e
      using that drops_map [OF ok] coherentD(3) [OF assms(1)] cur by (simp add: restrict_map_def split: if_splits)
    show "r_stamp rd \<le> Stamp (k_Database (r_key rd)) (s_cache ?s)" if "s_readers ?s i = Some rd" for i rd
      using that coherentD(4) [OF assms(1), of i rd] by (auto simp: st)
    show "current ?s (r_key rd) v" if "s_readers ?s i = Some rd" "r_result rd = Some v"
      "r_stamp rd = Stamp (k_Database (r_key rd)) (s_cache ?s)" for i rd v
    proof -
      have "k_Database (r_key rd) \<noteq> d" "r_stamp rd = Stamp (k_Database (r_key rd)) (s_cache s)"
        using that coherentD(4) [OF assms(1), of i rd] by (auto simp: st split: if_splits)
      then show ?thesis using that cur coherentD(5) [OF assms(1), of i rd v] by (simp add: reaches_def)
    qed
  qed (use drops_ok [OF ok] in simp)
qed

lemma coherent_store:
  assumes "coherent_system s" "s_readers s i = Some rd" "r_result rd = Some v" "0 \<le> sz"
    "SetSized now (r_key rd) v (r_stamp rd) sz (s_cache s) = Some c"
  shows "coherent_system (s\<lparr>s_cache := c, s_readers := (s_readers s)(i := None)\<rparr>)" (is "coherent_system ?s")
proof (cases "refused (r_key rd) (r_stamp rd) sz (s_cache s)")
  case True
  have cur: "current ?s = current s" by (simp add: current_def fun_eq_iff)
  show ?thesis
    by (rule coherentI) (use SetSized_refused [OF True] assms(5) coherentD [OF assms(1)] cur in \<open>auto split: if_splits\<close>)
next
  case False
  let ?e = "\<lparr>e_key = r_key rd, e_v = v, e_exp = now + c_ttl (s_cache s), e_size = sz\<rparr>"
  show ?thesis
  proof (rule SetSized_ok [OF coherentD(1) [OF assms(1)] False assms(4), of now v])
    fix c3 K assume c3: "SetSized now (r_key rd) v (r_stamp rd) sz (s_cache s) = Some (put ?e c3)"
      "drops K (s_cache s) c3" "map_of (c_m c3) (r_key rd) = None" "capped (put ?e c3)"
    have c: "c = put ?e c3" using assms(5) c3(1) by simp
    note p = put_ok [OF drops_ok [OF c3(2)], of ?e]
    have st: "Stamp d c = Stamp d (s_cache s)" for d
      using p(2) c3 assms(4) unfolding c by (simp add: Stamp_def drops_def same_caps_def)
    have cur: "current ?s = current s" by (simp add: current_def fun_eq_iff)
    have new: "current s (r_key rd) v"
      using coherentD(5) [OF assms(1-3)] False by (simp add: refused_def)
    have old: "map_of (c_m (s_cache s)) k = Some e" if "map_of (c_m c3) k = Some e" for k e
      using that drops_map [OF c3(2)] by (simp add: restrict_map_def split: if_splits)
    show ?thesis
    proof (rule coherentI)
      show "cache_ok (s_cache ?s)" "capped (s_cache ?s)" using p(1) c3 c assms(4) by simp_all
      show "current ?s k (e_v e)" if "map_of (c_m (s_cache ?s)) k = Some e" for k e
        using that p(3) c3(3) assms(4) new old coherentD(3) [OF assms(1)] cur c by (auto split: if_splits)
    qed (use coherentD(4,5) [OF assms(1)] cur st in \<open>auto split: if_splits\<close>)
  qed
qed

lemma coherent_step:
  assumes "cache_step s s'" "coherent_system s"
  shows "coherent_system s'"
  using assms
proof (induction rule: cache_step.induct)
  case (written d r content s)
  let ?s = "s\<lparr>s_content := content, s_pending := (d, r) # s_pending s\<rparr>"
  have "current ?s k v" if "current s k v" for k v
    using that written(1) [of k] by (cases "reaches d r k") (auto simp: current_def)
  with coherentD [OF written(2)] show ?case by (intro coherentI) auto
next
  case (stamp s i k)
  then show ?case
    by (intro coherentI) (auto simp: current_def dest: coherentD split: if_splits)
next
  case (query s i rd)
  then show ?case
    by (intro coherentI) (auto simp: current_def dest: coherentD split: if_splits)
next
  case (lookup now k s res c)
  show ?case
  proof (rule GetSized_ok [OF coherentD(1) [OF lookup(2)], of now k])
    fix r c' K assume "GetSized now k (s_cache s) = Some (r, c')" "drops K (s_cache s) c'"
    then show ?thesis using lookup coherent_drops_self [OF lookup(2)] by simp
  qed
next
  case (limits ttl maxSize maxBytes s c)
  show ?case
  proof (rule cache_UpdateLimits_ok [OF coherentD(1) [OF limits(2)], of ttl maxSize maxBytes])
    fix c' K assume "cache_UpdateLimits ttl maxSize maxBytes (s_cache s) = Some c'"
      "drops K (limited ttl maxSize maxBytes (s_cache s)) c'" "capped c'"
    then show ?thesis using limits coherent_drops [OF limits(2)] by simp
  qed
next
  case (generation g s c)
  show ?case
  proof (rule DropGeneration_ok [OF coherentD(1) [OF generation(2)], of g])
    fix c' assume "DropGeneration g (s_cache s) = Some c'" "drops {k. k_Generation k = g} (s_cache s) c'"
    then show ?thesis using generation coherent_drops_self [OF generation(2)] by simp
  qed
qed (simp_all add: coherent_invalidate coherent_store)

lemma coherent_started:
  assumes "started ttl maxSize s"
  shows "coherent_system s"
proof (rule NewTTLCache_ok [of ttl maxSize])
  fix c' :: "'a ttl_cache" assume "NewTTLCache ttl maxSize = Some c'" "cache_ok c'" "capped c'" "c_m c' = []"
  then show ?thesis using assms by (intro coherentI) (auto simp: started_def)
qed

interpretation caching: transition_system "\<lambda>s. \<exists>ttl maxSize. started ttl maxSize s" cache_step coherent_system
  by unfold_locales (auto intro: coherent_started coherent_step)

lemma coherent_reachable: "started ttl maxSize s \<Longrightarrow> cache_step\<^sup>*\<^sup>* s s' \<Longrightarrow> coherent_system s'"
  by (rule caching.reached_ok) blast

section \<open>Properties\<close>

definition ex_ckey :: ckey where
  "ex_ckey = \<lparr>k_Database = ''db'', k_Relation = ''orders'', k_Datasource = ''main'', k_Generation = 1,
     k_SQL = ''SELECT'', k_Args = '''', k_Scope = ''reader''\<rparr>"

definition ex_cache0 :: "nat ttl_cache" where
  "ex_cache0 = \<lparr>c_ttl = 10, c_maxSize = 2, c_maxBytes = 0, c_bytes = 0, c_m = [], c_byDatabase = [], c_expiry = [],
     c_stamps = []\<rparr>"

definition ex_system :: "nat system" where
  "ex_system = \<lparr>s_cache = ex_cache0, s_content = (\<lambda>k. 7), s_pending = [], s_readers = Map.empty\<rparr>"

definition ex_centry :: "nat centry" where
  "ex_centry = \<lparr>e_key = ex_ckey, e_v = 7, e_exp = 15, e_size = 1\<rparr>"

definition ex_cache1 :: "nat ttl_cache" where
  "ex_cache1 = ex_cache0\<lparr>c_bytes := 1, c_m := [(ex_ckey, ex_centry)],
     c_byDatabase := [(''db'', [(''orders'', [ex_ckey])])], c_expiry := [ex_centry]\<rparr>"

lemma ex_started: "started 10 2 ex_system"
  by (simp add: started_def ex_system_def ex_cache0_def NewTTLCache_def cache_UpdateLimits_def evictLocked.simps)

lemma ex_stored: "SetSized 5 ex_ckey 7 0 1 ex_cache0 = Some ex_cache1"
  by (simp add: SetSized_def Stamp_def ex_cache0_def ex_cache1_def ex_centry_def ex_ckey_def expireLocked.simps
      evictLocked.simps over_caps_def heap_push_def heap_up.simps index_key_def Let_def)

lemma ex_cached: "cache_step\<^sup>*\<^sup>* ex_system (ex_system\<lparr>s_cache := ex_cache1\<rparr>)"
proof -
  let ?rd = "\<lparr>r_key = ex_ckey, r_stamp = 0, r_result = None\<rparr>"
  let ?s1 = "ex_system\<lparr>s_readers := [0 \<mapsto> ?rd]\<rparr>"
  let ?s2 = "ex_system\<lparr>s_readers := [0 \<mapsto> ?rd\<lparr>r_result := Some 7\<rparr>]\<rparr>"
  have "cache_step ex_system ?s1"
    using cache_step.stamp [of ex_system 0 ex_ckey] by (simp add: ex_system_def Stamp_def ex_cache0_def)
  moreover have "cache_step ?s1 ?s2"
    using cache_step.query [of ?s1 0 ?rd] by (simp add: ex_system_def)
  moreover have "cache_step ?s2 (ex_system\<lparr>s_cache := ex_cache1\<rparr>)"
    using cache_step.store [of ?s2 0 "?rd\<lparr>r_result := Some 7\<rparr>" 7 1 5 ex_cache1] ex_stored
    by (simp add: ex_system_def)
  ultimately show ?thesis by (meson converse_rtranclp_into_rtranclp rtranclp.rtrancl_refl)
qed

text \<open>C20: the cache is coherent. In every state that readers, writers, lookups, changes of the limits and drops of
  a configuration generation lead to, in any interleaving, a hit returns what the database returns for that key
  now, unless a write covering the key has not been followed by its invalidation yet. In particular a result
  queried before a write is not stored after the write's invalidation.\<close>

theorem cache_coherent:
  assumes "started ttl maxSize s0" "cache_step\<^sup>*\<^sup>* s0 s"
    and "GetSized now k (s_cache s) = Some (Some (v, sz), c)"
    and "\<forall>(d, r) \<in> set (s_pending s). \<not> reaches d r k"
  shows "v = s_content s k"
proof -
  note coh = coherent_reachable [OF assms(1,2)]
  show ?thesis
  proof (rule GetSized_ok [OF coherentD(1) [OF coh], of now k])
    fix r c' K assume "GetSized now k (s_cache s) = Some (r, c')"
      "\<And>v sz. r = Some (v, sz) \<Longrightarrow> \<exists>e. map_of (c_m (s_cache s)) k = Some e \<and> e_v e = v \<and> now \<le> e_exp e"
    then obtain e where "map_of (c_m (s_cache s)) k = Some e" "e_v e = v" using assms(3) by auto
    then show ?thesis using coherentD(3) [OF coh] assms(4) by (fastforce simp: current_def)
  qed
qed

theorem cache_coherent_witness:
  "\<exists>s c. cache_step\<^sup>*\<^sup>* ex_system s \<and> GetSized 9 ex_ckey (s_cache s) = Some (Some (7, 1), c) \<and> s_content s ex_ckey = 7"
proof -
  let ?s = "ex_system\<lparr>s_cache := ex_cache1\<rparr>"
  have "GetSized 9 ex_ckey (s_cache ?s) = Some (Some (7, 1), ex_cache1)"
    by (simp add: GetSized_def ex_cache1_def ex_cache0_def ex_centry_def)
  moreover from cache_coherent [OF ex_started ex_cached this] have "7 = s_content ?s ex_ckey"
    by (simp add: ex_system_def)
  ultimately show ?thesis using ex_cached by metis
qed

text \<open>The cache stays within its caps and evicts in order. In every reachable state the entries are at most
  \<open>maxSize\<close> and their bytes, which the counter holds exactly, at most \<open>maxBytes\<close> when that is set. Setting new
  limits returns, within them, and drops only entries that expire no later than every entry it keeps, none of them
  if the cache fits the new limits.\<close>

theorem cache_evicts:
  assumes "started ttl maxSize s0" "cache_step\<^sup>*\<^sup>* s0 s"
  shows "capped (s_cache s) \<and> c_bytes (s_cache s) = sum_list (map (e_size \<circ> snd) (c_m (s_cache s))) \<and>
    (\<exists>c. cache_UpdateLimits ttl' maxSize' maxBytes' (s_cache s) = Some c \<and> capped c \<and> earliest (s_cache s) c \<and>
       (over_caps 0 0 (limited ttl' maxSize' maxBytes' (s_cache s)) \<or> c_m c = c_m (s_cache s)))"
proof -
  note coh = coherentD [OF coherent_reachable [OF assms]]
  have "\<exists>c. cache_UpdateLimits ttl' maxSize' maxBytes' (s_cache s) = Some c \<and> capped c \<and> earliest (s_cache s) c \<and>
      (over_caps 0 0 (limited ttl' maxSize' maxBytes' (s_cache s)) \<or> c_m c = c_m (s_cache s))"
    by (rule cache_UpdateLimits_ok [OF coh(1), of ttl' maxSize' maxBytes']) auto
  moreover have "c_bytes (s_cache s) = sum_list (map (e_size \<circ> snd) (c_m (s_cache s)))"
    using coh(1) by (simp add: cache_ok_def)
  ultimately show ?thesis using coh(2) by blast
qed

theorem cache_evicts_witness:
  "capped ex_cache1 \<and> c_bytes ex_cache1 = 1 \<and>
   (\<exists>c. cache_UpdateLimits 10 1 0 ex_cache1 = Some c \<and> capped c \<and> c_m c = [(ex_ckey, ex_centry)])"
  using cache_evicts [OF ex_started ex_cached, of 10 1 0]
  by (auto simp: ex_cache1_def ex_cache0_def ex_centry_def over_caps_def limited_def)

end
