(* ===== verification/Merge.thy ===== *)
theory Merge
  imports Prelude Gostd "HOL-Library.AList"
begin

text \<open>
  The values of \<^verbatim>\<open>core/workspace/merge.go\<close>: decoded JSON, paths into it, the schema of the lists whose elements
  are keyed, the comparison of values, the three-way merge, and reading, setting and listing values by path.

  A JSON object is an association list with distinct keys (\<open>wf_json\<close>), a number its text. \<open>JMissing\<close> is the value
  that is not there. Comparing the canonical JSON of two values is comparing the normalized values with the keys
  sorted, since \<^verbatim>\<open>json.Marshal\<close> writes two such values alike only when they are equal; it writes the missing
  value, an empty structure, as an empty object. The memo of the comparer and the comparison of addresses only
  save work, values being never written to once built, so neither is part of the model.
\<close>

datatype jval =
    JMissing
  | JNull
  | JBool bool
  | JNum string
  | JStr string
  | JList "jval list"
  | JObj "(string \<times> jval) list"

fun IsMissing :: "jval \<Rightarrow> bool" where
  "IsMissing JMissing = True"
| "IsMissing _ = False"

record schema =
  sc_Lists :: "string \<rightharpoonup> string"
  sc_Unset :: "string \<Rightarrow> bool"

section \<open>Paths\<close>

record step =
  st_Field :: string
  st_Element :: string
  st_List :: bool

definition FieldStep :: "string \<Rightarrow> step" where
  "FieldStep k = \<lparr>st_Field = k, st_Element = '''', st_List = False\<rparr>"

definition ElementStep :: "string \<Rightarrow> step" where
  "ElementStep k = \<lparr>st_Field = '''', st_Element = k, st_List = True\<rparr>"

definition IsElement :: "step \<Rightarrow> bool" where
  "IsElement s \<longleftrightarrow> st_List s \<or> st_Element s \<noteq> ''''"

text \<open>The JSON form of a step: an optional field and an element.\<close>

definition step_MarshalJSON :: "step \<Rightarrow> string option \<times> string" where
  "step_MarshalJSON s = (if IsElement s then (None, st_Element s) else (Some (st_Field s), ''''))"

definition step_UnmarshalJSON :: "string option \<times> string \<Rightarrow> step" where
  "step_UnmarshalJSON j = (case fst j of Some f \<Rightarrow> FieldStep f | None \<Rightarrow> ElementStep (snd j))"

type_synonym path = "step list"

definition patternStep :: "bool \<Rightarrow> step \<Rightarrow> string" where
  "patternStep first s =
     (if IsElement s then ''[]'' else if first then st_Field s else ''.'' @ st_Field s)"

definition Pattern :: "path \<Rightarrow> string" where
  "Pattern p = foldl (\<lambda>b s. b @ patternStep (b = '''') s) '''' p"

definition field_at :: "string \<Rightarrow> string \<Rightarrow> string" where
  "field_at p k = (if p = '''' then k else p @ ''.'' @ k)"

fun path_String :: "path \<Rightarrow> string" where
  "path_String [] = ''''"
| "path_String (s # p) =
     (if IsElement s then ''['' @ st_Element s @ '']'' else st_Field s) @
     concat (map (\<lambda>s. if IsElement s then ''['' @ st_Element s @ '']'' else ''.'' @ st_Field s) p)"

definition path_within :: "path \<Rightarrow> path \<Rightarrow> bool" where
  "path_within p q \<longleftrightarrow> length p \<ge> length q \<and> take (length q) p = q"

record value_conflict =
  vc_Path :: path
  vc_Mine :: jval
  vc_Theirs :: jval

section \<open>Comparing\<close>

fun object :: "jval \<Rightarrow> (string \<times> jval) list option" where
  "object (JObj m) = Some m"
| "object _ = None"

lemma size_obj_elem: "(k, v) \<in> set m \<Longrightarrow> size v < size (JObj m)"
  by (induction m) auto

lemma size_list_elem: "v \<in> set xs \<Longrightarrow> size v < size (JList xs)"
  by (induction xs) auto

text \<open>The zero values: empty text, false, null.\<close>

definition is_zero :: "jval \<Rightarrow> bool" where
  "is_zero v \<longleftrightarrow> v = JStr '''' \<or> v = JBool False \<or> v = JNull"

function normalize :: "schema \<Rightarrow> jval \<Rightarrow> string \<Rightarrow> jval" where
  "normalize s v p =
     (if sc_Unset s p \<and> is_zero v then JMissing
      else case v of
          JList xs \<Rightarrow> JList (map (\<lambda>el. normalize s el (p @ ''[]'')) xs)
        | JObj m \<Rightarrow> JObj (filter (\<lambda>kv. \<not> IsMissing (snd kv)) (map (\<lambda>kv. (fst kv, normalize s (snd kv) (field_at p (fst kv)))) m))
        | _ \<Rightarrow> v)"
  by auto

termination
  by (relation "measure (\<lambda>(s, v, p). size v)") (auto dest: size_list_elem size_obj_elem)

declare normalize.simps [simp del]

text \<open>What \<^verbatim>\<open>json.Marshal\<close> writes, as a value: keys sorted, a missing element as an empty object.\<close>

function marshal :: "jval \<Rightarrow> jval" where
  "marshal v =
     (case v of
        JMissing \<Rightarrow> JObj []
      | JList xs \<Rightarrow> JList (map marshal xs)
      | JObj m \<Rightarrow> JObj (sort_key fst (map (\<lambda>kv. (fst kv, marshal (snd kv))) m))
      | _ \<Rightarrow> v)"
  by auto

termination
  by (relation "measure size") (auto dest: size_list_elem size_obj_elem)

declare marshal.simps [simp del]

definition canonicalAt :: "schema \<Rightarrow> string \<Rightarrow> jval \<Rightarrow> jval" where
  "canonicalAt s p v = (let n = normalize s v p in marshal (if IsMissing n then JNull else n))"

definition Canonical :: "schema \<Rightarrow> jval \<Rightarrow> jval" where
  "Canonical s v = canonicalAt s '''' v"

definition Same :: "schema \<Rightarrow> jval \<Rightarrow> jval \<Rightarrow> bool" where
  "Same s a b \<longleftrightarrow> Canonical s a = Canonical s b"

definition trim_suffix :: "string \<Rightarrow> string \<Rightarrow> string" where
  "trim_suffix p x = (if length x \<le> length p \<and> drop (length p - length x) p = x then take (length p - length x) p else p)"

definition element_canonical :: "schema \<Rightarrow> path \<Rightarrow> jval \<Rightarrow> jval" where
  "element_canonical s path v =
     (let p = Pattern path in
      case v of JList els \<Rightarrow> canonicalAt s (trim_suffix p ''[]'') (JList els) | _ \<Rightarrow> canonicalAt s p v)"

definition sameElements :: "schema \<Rightarrow> path \<Rightarrow> jval \<Rightarrow> jval \<Rightarrow> bool" where
  "sameElements s path a b \<longleftrightarrow> element_canonical s path a = element_canonical s path b"

definition sameAt :: "schema \<Rightarrow> path \<Rightarrow> jval \<Rightarrow> jval \<Rightarrow> bool" where
  "sameAt s path a b =
     (if path \<noteq> [] \<and> IsElement (last path) then sameElements s path a b
      else let p = Pattern path in canonicalAt s p a = canonicalAt s p b)"

section \<open>Keyed lists\<close>

definition elementKey :: "schema \<Rightarrow> jval \<Rightarrow> string \<Rightarrow> string option" where
  "elementKey s el p =
     (case sc_Lists s (p @ ''[]'') of
        None \<Rightarrow> None
      | Some prop \<Rightarrow> (case object el of
            None \<Rightarrow> None
          | Some m \<Rightarrow> (case map_of m prop of Some (JStr key) \<Rightarrow> Some key | _ \<Rightarrow> None)))"

record keyed_list =
  kl_order :: "string list"
  kl_byKey :: "string \<rightharpoonup> jval"

fun keyed_loop :: "schema \<Rightarrow> string \<Rightarrow> jval list \<Rightarrow> string list \<Rightarrow> (string \<rightharpoonup> jval list) \<Rightarrow>
    (string list \<times> (string \<rightharpoonup> jval list)) option" where
  "keyed_loop s p [] order groups = Some (order, groups)"
| "keyed_loop s p (el # els) order groups =
     (case elementKey s el p of
        None \<Rightarrow> None
      | Some key \<Rightarrow>
          keyed_loop s p els (if groups key = None then order @ [key] else order)
            (groups(key \<mapsto> (case groups key of None \<Rightarrow> [] | Some g \<Rightarrow> g) @ [el])))"

definition as_group :: "jval list \<Rightarrow> jval" where
  "as_group els = (case els of [el] \<Rightarrow> el | _ \<Rightarrow> JList els)"

definition keyed :: "schema \<Rightarrow> jval \<Rightarrow> string \<Rightarrow> keyed_list option" where
  "keyed s v p =
     (case v of
        JList xs \<Rightarrow> map_option (\<lambda>(order, groups). \<lparr>kl_order = order, kl_byKey = map_option as_group \<circ> groups\<rparr>)
                      (keyed_loop s p xs [] Map.empty)
      | _ \<Rightarrow> None)"

definition kl_get :: "keyed_list \<Rightarrow> string \<Rightarrow> jval" where
  "kl_get k key = (case kl_byKey k key of Some v \<Rightarrow> v | None \<Rightarrow> JMissing)"

definition get :: "(string \<times> jval) list \<Rightarrow> string \<Rightarrow> jval" where
  "get m key = (case map_of m key of Some v \<Rightarrow> v | None \<Rightarrow> JMissing)"

fun isGroup :: "jval \<Rightarrow> bool" where
  "isGroup (JList _) = True"
| "isGroup _ = False"

section \<open>The merge\<close>

definition key_union :: "(string \<times> jval) list \<Rightarrow> (string \<times> jval) list \<Rightarrow> (string \<times> jval) list \<Rightarrow> string list" where
  "key_union local next base = remdups (map fst local @ map fst next @ map fst base)"

definition sortConflicts :: "value_conflict list \<Rightarrow> value_conflict list" where
  "sortConflicts cs = sort_key (\<lambda>c. path_String (vc_Path c)) cs"

definition whole :: "schema \<Rightarrow> jval \<Rightarrow> jval \<Rightarrow> jval \<Rightarrow> path \<Rightarrow> jval \<times> value_conflict list" where
  "whole s base local next path =
     (if sameElements s path local base then (next, [])
      else if sameElements s path next base \<or> sameElements s path next local then (local, [])
      else (local, [\<lparr>vc_Path = path, vc_Mine = local, vc_Theirs = next\<rparr>]))"

text \<open>The three objects to merge key by key, and the three keyed lists to merge element by element.\<close>

definition merge_objects :: "jval \<Rightarrow> jval \<Rightarrow> jval \<Rightarrow>
    ((string \<times> jval) list \<times> (string \<times> jval) list \<times> (string \<times> jval) list) option" where
  "merge_objects base local next =
     (case (object local, object next) of
        (Some lo, Some no) \<Rightarrow>
          if IsMissing base then Some ([], lo, no) else map_option (\<lambda>bo. (bo, lo, no)) (object base)
      | _ \<Rightarrow> None)"

definition merge_lists :: "schema \<Rightarrow> jval \<Rightarrow> jval \<Rightarrow> jval \<Rightarrow> string \<Rightarrow> (keyed_list \<times> keyed_list \<times> keyed_list) option" where
  "merge_lists s base local next p =
     (let base' = (if IsMissing base then JList [] else base) in
      case (keyed s base' p, keyed s local p, keyed s next p) of
        (Some b, Some l, Some n) \<Rightarrow> Some (b, l, n)
      | _ \<Rightarrow> None)"

definition list_order :: "keyed_list \<Rightarrow> keyed_list \<Rightarrow> string list" where
  "list_order local next = kl_order local @ filter (\<lambda>k. kl_byKey local k = None) (kl_order next)"

definition collect_object :: "(string \<times> jval \<times> value_conflict list) list \<Rightarrow> jval \<times> value_conflict list" where
  "collect_object rs =
     (JObj (map (\<lambda>(k, v, cs). (k, v)) (filter (\<lambda>(k, v, cs). \<not> IsMissing v) rs)),
      sortConflicts (concat (map (\<lambda>(k, v, cs). cs) rs)))"

definition spread :: "jval \<Rightarrow> jval list" where
  "spread v = (case v of JList els \<Rightarrow> els | JMissing \<Rightarrow> [] | _ \<Rightarrow> [v])"

definition collect_list :: "(jval \<times> value_conflict list) list \<Rightarrow> jval \<times> value_conflict list" where
  "collect_list rs = (JList (concat (map (spread \<circ> fst) rs)), concat (map snd rs))"

text \<open>A keyed list by its elements: the keys in order of first appearance, and the elements of each.\<close>

fun firsts :: "'a list \<Rightarrow> 'a list" where
  "firsts [] = []"
| "firsts (k # ks) = k # filter (\<lambda>x. x \<noteq> k) (firsts ks)"

lemma set_firsts [simp]: "set (firsts ks) = set ks"
  by (induction ks) auto

lemma distinct_firsts [simp]: "distinct (firsts ks)"
  by (induction ks) auto

definition group_of :: "schema \<Rightarrow> string \<Rightarrow> string \<Rightarrow> jval list \<Rightarrow> jval list" where
  "group_of s p key xs = filter (\<lambda>x. elementKey s x p = Some key) xs"

definition all_keyed :: "schema \<Rightarrow> string \<Rightarrow> jval list \<Rightarrow> bool" where
  "all_keyed s p xs \<longleftrightarrow> (\<forall>x \<in> set xs. elementKey s x p \<noteq> None)"

lemma keyed_loop_spec:
  "keyed_loop s p xs order groups =
     (if all_keyed s p xs
      then Some (order @ filter (\<lambda>k. groups k = None) (firsts (map (\<lambda>x. the (elementKey s x p)) xs)),
        \<lambda>k. if group_of s p k xs = [] then groups k
             else Some ((case groups k of None \<Rightarrow> [] | Some g \<Rightarrow> g) @ group_of s p k xs))
      else None)"
proof (induction s p xs order groups rule: keyed_loop.induct)
  case (2 s p el els order groups)
  show ?case
  proof (cases "elementKey s el p")
    case None
    then show ?thesis by (simp add: all_keyed_def)
  next
    case (Some key)
    let ?g = "groups(key \<mapsto> (case groups key of None \<Rightarrow> [] | Some g \<Rightarrow> g) @ [el])"
    let ?fs = "firsts (map (\<lambda>x. the (elementKey s x p)) els)"
    have o: "(if groups key = None then order @ [key] else order) @ filter (\<lambda>k. ?g k = None) ?fs =
        order @ filter (\<lambda>k. groups k = None) (key # filter (\<lambda>x. x \<noteq> key) ?fs)"
      by (auto intro!: filter_cong)
    have g: "(if group_of s p k els = [] then ?g k else Some ((case ?g k of None \<Rightarrow> [] | Some g \<Rightarrow> g) @ group_of s p k els)) =
        (if group_of s p k (el # els) = [] then groups k
         else Some ((case groups k of None \<Rightarrow> [] | Some g \<Rightarrow> g) @ group_of s p k (el # els)))" for k
      using Some by (auto simp: group_of_def)
    show ?thesis
      unfolding keyed_loop.simps Some option.case 2 [OF Some] o g
      using Some by (simp add: all_keyed_def)
  qed
qed (simp add: all_keyed_def group_of_def)

lemma keyed_spec:
  "keyed s v p =
     (case v of
        JList xs \<Rightarrow> if all_keyed s p xs
          then Some \<lparr>kl_order = firsts (map (\<lambda>x. the (elementKey s x p)) xs),
            kl_byKey = (\<lambda>k. if group_of s p k xs = [] then None else Some (as_group (group_of s p k xs)))\<rparr>
          else None
      | _ \<Rightarrow> None)"
  by (auto simp: keyed_def keyed_loop_spec fun_eq_iff split: jval.splits)

text \<open>A group of elements is no element: what is not a group is an element of the list, so smaller.\<close>

lemma kl_get_size:
  assumes "keyed s v p = Some k" "\<not> isGroup (kl_get k key)"
  shows "size (kl_get k key) < size v"
proof -
  obtain xs where v: "v = JList xs" "all_keyed s p xs" using assms(1) by (auto simp: keyed_spec split: jval.splits if_splits)
  have get: "kl_get k key = (if group_of s p key xs = [] then JMissing else as_group (group_of s p key xs))"
    using assms(1) v by (auto simp: keyed_spec kl_get_def)
  show ?thesis
  proof (cases "group_of s p key xs = []")
    case True
    then show ?thesis by (simp add: get v)
  next
    case False
    then obtain x where "group_of s p key xs = [x]"
      using assms(2) get by (cases "group_of s p key xs" rule: remdups_adj.cases) (auto simp: as_group_def)
    moreover from this have "x \<in> set xs" unfolding group_of_def by (metis filter_is_subset list.set_intros(1) subsetD)
    ultimately show ?thesis using size_list_elem [of x xs] by (simp add: get v as_group_def)
  qed
qed

lemma get_size: "size (get m k) < size (JObj m)"
proof (cases "map_of m k")
  case (Some v)
  then show ?thesis using size_obj_elem [OF map_of_SomeD [OF Some]] by (simp add: get_def)
qed (simp add: get_def)

lemma merge_objects_size:
  assumes "merge_objects base loc nxt = Some (bo, lo, no)"
  shows "size (get bo k) + size (get lo k) + size (get no k) < size base + size loc + size nxt"
proof -
  have o: "loc = JObj lo" "nxt = JObj no" "base = JMissing \<and> bo = [] \<or> base = JObj bo"
    using assms by (cases loc; cases nxt; cases base; auto simp: merge_objects_def)+
  then have "size (get bo k) \<le> size base"
    using get_size [of bo k] by (auto simp: get_def)
  with o get_size [of lo k] get_size [of no k] show ?thesis by simp
qed

lemma merge_lists_keyed:
  assumes "merge_lists s base loc nxt p = Some (b, l, n)"
  shows "keyed s loc p = Some l" "keyed s nxt p = Some n" "keyed s (if IsMissing base then JList [] else base) p = Some b"
  using assms by (auto simp: merge_lists_def Let_def split: option.splits)

lemma merge_lists_size:
  assumes "merge_lists s base loc nxt p = Some (b, l, n)"
    and "\<not> (isGroup (kl_get b key) \<or> isGroup (kl_get l key) \<or> isGroup (kl_get n key))"
  shows "size (kl_get b key) + size (kl_get l key) + size (kl_get n key) < size base + size loc + size nxt"
proof -
  note k = merge_lists_keyed [OF assms(1)]
  have "size (kl_get l key) < size loc" "size (kl_get n key) < size nxt"
    "size (kl_get b key) < size (if IsMissing base then JList [] else base)"
    using assms(2) kl_get_size [OF k(1)] kl_get_size [OF k(2)] kl_get_size [OF k(3)] by auto
  then show ?thesis by (cases base) auto
qed

function merge :: "schema \<Rightarrow> jval \<Rightarrow> jval \<Rightarrow> jval \<Rightarrow> path \<Rightarrow> jval \<times> value_conflict list" where
  "merge s base local next path =
     (if sameAt s path local base then (next, [])
      else if sameAt s path next base \<or> sameAt s path next local then (local, [])
      else case merge_objects base local next of
          Some (bo, lo, no) \<Rightarrow>
            collect_object (map (\<lambda>k. (k, merge s (get bo k) (get lo k) (get no k) (path @ [FieldStep k]))) (key_union lo no bo))
        | None \<Rightarrow> (case merge_lists s base local next (Pattern path) of
              Some (b, l, n) \<Rightarrow>
                collect_list (map (\<lambda>key.
                    if isGroup (kl_get b key) \<or> isGroup (kl_get l key) \<or> isGroup (kl_get n key)
                    then whole s (kl_get b key) (kl_get l key) (kl_get n key) (path @ [ElementStep key])
                    else merge s (kl_get b key) (kl_get l key) (kl_get n key) (path @ [ElementStep key])) (list_order l n))
            | None \<Rightarrow> (local, [\<lparr>vc_Path = path, vc_Mine = local, vc_Theirs = next\<rparr>])))"
  by auto

termination
  by (relation "measure (\<lambda>(s, base, local, next, path). size base + size local + size next)")
    (auto dest: merge_objects_size merge_lists_size)

declare merge.simps [simp del]

definition Merge :: "schema \<Rightarrow> jval \<Rightarrow> jval \<Rightarrow> jval \<Rightarrow> path \<Rightarrow> jval \<times> value_conflict list" where
  "Merge s base local next path = merge s base local next path"

section \<open>Values by path\<close>

fun GetAt_from :: "schema \<Rightarrow> path \<Rightarrow> jval \<Rightarrow> path \<Rightarrow> jval" where
  "GetAt_from s at' v [] = v"
| "GetAt_from s at' v (st # path) =
     (if \<not> IsElement st then
        (case object v of
           None \<Rightarrow> JMissing
         | Some m \<Rightarrow> GetAt_from s (at' @ [st]) (get m (st_Field st)) path)
      else
        (case keyed s v (Pattern at') of
           None \<Rightarrow> JMissing
         | Some k \<Rightarrow> GetAt_from s (at' @ [st]) (kl_get k (st_Element st)) path))"

definition GetAt :: "schema \<Rightarrow> jval \<Rightarrow> path \<Rightarrow> jval" where
  "GetAt s rt path = GetAt_from s [] rt path"

fun elements :: "jval \<Rightarrow> jval list" where
  "elements (JList xs) = xs"
| "elements _ = []"

definition current_of :: "jval list \<Rightarrow> jval" where
  "current_of mine = (case mine of [] \<Rightarrow> JMissing | [el] \<Rightarrow> el | _ \<Rightarrow> JList mine)"

definition replace_elements :: "schema \<Rightarrow> jval list \<Rightarrow> string \<Rightarrow> string \<Rightarrow> jval \<Rightarrow> jval" where
  "replace_elements s xs p key v =
     (let others = filter (\<lambda>el. elementKey s el p \<noteq> Some key) xs;
          at' = (if group_of s p key xs = [] then length others
                 else length (takeWhile (\<lambda>el. elementKey s el p \<noteq> Some key) xs))
      in JList (take at' others @ spread v @ drop at' others))"

fun setAt :: "schema \<Rightarrow> jval \<Rightarrow> string \<Rightarrow> path \<Rightarrow> jval \<Rightarrow> jval" where
  "setAt s rt p [] v = v"
| "setAt s rt p (st # rest) v =
     (if \<not> IsElement st then
        (let obj = (case object rt of Some m \<Rightarrow> m | None \<Rightarrow> []);
             v' = setAt s (get obj (st_Field st)) (field_at p (st_Field st)) rest v
         in JObj (if IsMissing v' then AList.delete (st_Field st) obj else AList.update (st_Field st) v' obj))
      else
        (let mine = group_of s p (st_Element st) (elements rt);
             v' = setAt s (current_of mine) (p @ ''[]'') rest v
         in replace_elements s (elements rt) p (st_Element st) v'))"

definition SetAt :: "schema \<Rightarrow> jval \<Rightarrow> path \<Rightarrow> jval \<Rightarrow> jval" where
  "SetAt s rt path v = setAt s rt '''' path v"

definition addressable :: "schema \<Rightarrow> path \<Rightarrow> jval list \<Rightarrow> path" where
  "addressable s path items =
     (case List.find (\<lambda>i. IsElement (path ! i) \<and> (\<exists>item \<in> set items. isGroup (GetAt s item (take (i + 1) path))))
        [0..<length path - 1] of
        Some i \<Rightarrow> take (i + 1) path
      | None \<Rightarrow> path)"

section \<open>Differences\<close>

record change =
  ch_Path :: path
  ch_Value :: jval

definition both :: "'a option \<Rightarrow> 'a option \<Rightarrow> ('a \<times> 'a) option" where
  "both x y = (case (x, y) of (Some a, Some b) \<Rightarrow> Some (a, b) | _ \<Rightarrow> None)"

lemma both_Some: "both x y = Some (a, b) \<longleftrightarrow> x = Some a \<and> y = Some b"
  by (auto simp: both_def split: option.splits)

lemma object_Some [simp]: "object v = Some m \<longleftrightarrow> v = JObj m"
  by (cases v) auto

lemma diff_objects_size:
  "both (object a) (object b) = Some (ao, bo) \<Longrightarrow> size (get ao k) + size (get bo k) < size a + size b"
  using get_size [of ao k] get_size [of bo k] by (simp add: both_Some)

lemma diff_lists_size:
  "both (keyed s a p) (keyed s b p) = Some (ka, kb) \<Longrightarrow> \<not> (isGroup (kl_get ka k) \<or> isGroup (kl_get kb k)) \<Longrightarrow>
   size (kl_get ka k) + size (kl_get kb k) < size a + size b"
  using kl_get_size [of s a p ka k] kl_get_size [of s b p kb k] by (simp add: both_Some)

function diff :: "schema \<Rightarrow> jval \<Rightarrow> jval \<Rightarrow> path \<Rightarrow> change list" where
  "diff s a b path =
     (if sameAt s path a b then []
      else case both (object a) (object b) of
          Some (ao, bo) \<Rightarrow>
            concat (map (\<lambda>k. diff s (get ao k) (get bo k) (path @ [FieldStep k])) (sort (remdups (map fst ao @ map fst bo))))
        | None \<Rightarrow> (case both (keyed s a (Pattern path)) (keyed s b (Pattern path)) of
              Some (ka, kb) \<Rightarrow>
                concat (map (\<lambda>k.
                    if isGroup (kl_get ka k) \<or> isGroup (kl_get kb k) then
                      (if \<not> sameElements s (path @ [ElementStep k]) (kl_get ka k) (kl_get kb k)
                       then [\<lparr>ch_Path = path @ [ElementStep k], ch_Value = kl_get kb k\<rparr>] else [])
                    else diff s (kl_get ka k) (kl_get kb k) (path @ [ElementStep k]))
                  (kl_order ka @ filter (\<lambda>k. k \<notin> set (kl_order ka)) (kl_order kb)))
            | None \<Rightarrow> [\<lparr>ch_Path = path, ch_Value = b\<rparr>]))"
  by auto

termination
  by (relation "measure (\<lambda>(s, a, b, path). size a + size b)") (auto dest: diff_objects_size diff_lists_size)

declare diff.simps [simp del]

definition Diff :: "schema \<Rightarrow> jval \<Rightarrow> jval \<Rightarrow> change list" where
  "Diff s a b = diff s a b []"

end
