(* ===== verification/Workspace.thy ===== *)
theory Workspace
  imports Merge
begin

text \<open>
  Workspaces: \<^verbatim>\<open>core/workspace/workspace.go\<close>, \<^verbatim>\<open>conflicts.go\<close> and \<^verbatim>\<open>memory.go\<close>. A configuration is a list of
  items; changes made to one are replayed onto another, item by item, with the three-way merge, and what both
  sides changed differently is kept as conflicts until resolved. The random IDs of conflicts are an argument of
  \<open>Replay\<close>, the clock of the store an argument of its write.
\<close>

section \<open>Snapshots\<close>

record ref =
  rf_Kind :: string
  rf_Key :: string

record item =
  it_Ref :: ref
  it_Value :: jval

type_synonym snapshot = "item list"

definition snap_Get :: "snapshot \<Rightarrow> ref \<Rightarrow> jval" where
  "snap_Get s r = (case List.find (\<lambda>it. it_Ref it = r) s of Some it \<Rightarrow> it_Value it | None \<Rightarrow> JMissing)"

text \<open>The index maps a ref to the last item with it.\<close>

definition snap_Index :: "snapshot \<Rightarrow> ref \<rightharpoonup> jval" where
  "snap_Index s = foldl (\<lambda>m it. m(it_Ref it \<mapsto> it_Value it)) Map.empty s"

definition index_at :: "(ref \<rightharpoonup> jval) \<Rightarrow> ref \<Rightarrow> jval" where
  "index_at m r = (case m r of Some v \<Rightarrow> v | None \<Rightarrow> JMissing)"

definition present_value :: "jval \<Rightarrow> bool" where
  "present_value v \<longleftrightarrow> v \<noteq> JNull \<and> \<not> IsMissing v"

definition apply_item :: "(ref \<rightharpoonup> jval) \<Rightarrow> item \<Rightarrow> item list" where
  "apply_item values' it =
     (case values' (it_Ref it) of
        Some v \<Rightarrow> if present_value v then [\<lparr>it_Ref = it_Ref it, it_Value = v\<rparr>] else []
      | None \<Rightarrow> [it])"

fun apply_order :: "(ref \<rightharpoonup> jval) \<Rightarrow> ref list \<Rightarrow> ref set \<Rightarrow> item list" where
  "apply_order values' [] present = []"
| "apply_order values' (r # rs) present =
     (if r \<in> present then apply_order values' rs present
      else case values' r of
          Some v \<Rightarrow>
            if present_value v then \<lparr>it_Ref = r, it_Value = v\<rparr> # apply_order values' rs (insert r present)
            else apply_order values' rs present
        | None \<Rightarrow> apply_order values' rs present)"

definition snap_Apply :: "snapshot \<Rightarrow> (ref \<rightharpoonup> jval) \<Rightarrow> ref list \<Rightarrow> snapshot" where
  "snap_Apply s values' order = concat (map (apply_item values') s) @ apply_order values' order (it_Ref ` set s)"

definition snap_With :: "snapshot \<Rightarrow> ref \<Rightarrow> jval \<Rightarrow> snapshot" where
  "snap_With s r v = snap_Apply s [r \<mapsto> v] [r]"

definition Changes :: "schema \<Rightarrow> snapshot \<Rightarrow> snapshot \<Rightarrow> ref list" where
  "Changes sc a b =
     map it_Ref (filter (\<lambda>it. \<not> Same sc (index_at (snap_Index a) (it_Ref it)) (it_Value it)) b) @
     map it_Ref (filter (\<lambda>it. snap_Index b (it_Ref it) = None) a)"

section \<open>Conflicts\<close>

record source =
  so_Kind :: string
  so_ID :: string
  so_By :: string

record conflict =
  cf_ID :: string
  cf_Ref :: ref
  cf_Path :: path
  cf_Source :: source
  cf_Pinned :: bool
  cf_Theirs :: jval
  cf_TheirsGone :: bool

record open_conflict =
  op_Conflict :: conflict
  op_Mine :: jval
  op_TheirsValue :: jval

definition view :: "schema \<Rightarrow> (ref \<Rightarrow> jval) \<Rightarrow> (ref \<Rightarrow> jval) \<Rightarrow> conflict \<Rightarrow> open_conflict option" where
  "view s nowAt baseAt c =
     (let item' = nowAt (cf_Ref c);
          theirsItem = (if cf_Pinned c then JMissing else baseAt (cf_Ref c));
          path = (if cf_Pinned c then cf_Path c else addressable s (cf_Path c) [item', theirsItem])
      in if \<exists>i \<in> set [0..<length path]. IsMissing (GetAt s item' (take i path)) then None
         else let mine = GetAt s item' path;
                  theirs = (if \<not> cf_Pinned c then GetAt s theirsItem path
                            else if cf_TheirsGone c then JMissing else cf_Theirs c)
              in if sameAt s path mine theirs then None
                 else Some \<lparr>op_Conflict = c\<lparr>cf_Path := path\<rparr>, op_Mine = mine, op_TheirsValue = theirs\<rparr>)"

definition View :: "schema \<Rightarrow> snapshot \<Rightarrow> snapshot \<Rightarrow> conflict \<Rightarrow> open_conflict option" where
  "View s now base c = view s (snap_Get now) (snap_Get base) c"

definition lookup_of :: "snapshot \<Rightarrow> nat \<Rightarrow> ref \<Rightarrow> jval" where
  "lookup_of snap n = (if n \<le> 1 then snap_Get snap else index_at (snap_Index snap))"

definition OpenConflicts :: "schema \<Rightarrow> snapshot \<Rightarrow> snapshot \<Rightarrow> conflict list \<Rightarrow> open_conflict list" where
  "OpenConflicts s now base cs =
     List.map_filter (view s (lookup_of now (length cs)) (lookup_of base (length cs))) cs"

definition conflict_within :: "conflict \<Rightarrow> conflict \<Rightarrow> bool" where
  "conflict_within c outer \<longleftrightarrow> cf_Ref c = cf_Ref outer \<and> path_within (cf_Path c) (cf_Path outer)"

definition found_conflict :: "source \<Rightarrow> bool \<Rightarrow> ref \<Rightarrow> string \<Rightarrow> value_conflict \<Rightarrow> conflict" where
  "found_conflict src pinned r newID vc =
     \<lparr>cf_ID = newID, cf_Ref = r, cf_Path = vc_Path vc, cf_Source = src, cf_Pinned = pinned,
      cf_Theirs = (if pinned \<and> \<not> IsMissing (vc_Theirs vc) then vc_Theirs vc else JNull),
      cf_TheirsGone = (pinned \<and> IsMissing (vc_Theirs vc))\<rparr>"

text \<open>The conflicts found so far are numbered: \<open>newID k\<close> is the ID of the \<open>k\<close>th.\<close>

fun replay_loop :: "schema \<Rightarrow> (ref \<Rightarrow> jval) \<Rightarrow> (ref \<Rightarrow> jval) \<Rightarrow> (ref \<Rightarrow> jval) \<Rightarrow> source \<Rightarrow> bool \<Rightarrow> (nat \<Rightarrow> string) \<Rightarrow>
    ref list \<Rightarrow> (ref \<rightharpoonup> jval) \<Rightarrow> conflict list \<Rightarrow> (ref \<rightharpoonup> jval) \<times> conflict list" where
  "replay_loop s oldAt localAt nextAt src pinned newID [] values' found = (values', found)"
| "replay_loop s oldAt localAt nextAt src pinned newID (r # rs) values' found =
     (let (v, conflicts) = Merge s (oldAt r) (localAt r) (nextAt r) [];
          new = map (\<lambda>(i, vc). found_conflict src pinned r (newID (length found + i)) vc) (enumerate 0 conflicts)
      in replay_loop s oldAt localAt nextAt src pinned newID rs (values'(r \<mapsto> v)) (found @ new))"

definition Replay :: "schema \<Rightarrow> snapshot \<Rightarrow> snapshot \<Rightarrow> snapshot \<Rightarrow> source \<Rightarrow> bool \<Rightarrow> (nat \<Rightarrow> string) \<Rightarrow>
    snapshot \<times> conflict list" where
  "Replay s old local next src pinned newID =
     (let changed = Changes s old local;
          (values', found) = replay_loop s (index_at (snap_Index old)) (index_at (snap_Index local))
            (index_at (snap_Index next)) src pinned newID changed Map.empty []
      in (snap_Apply next values' changed, found))"

definition carried_of :: "schema \<Rightarrow> (ref \<Rightarrow> jval) \<Rightarrow> (ref \<Rightarrow> jval) \<Rightarrow> conflict list \<Rightarrow> source option \<Rightarrow> conflict \<Rightarrow> conflict option" where
  "carried_of s nowAt baseAt found src p =
     (let p' = (case src of Some x \<Rightarrow> if \<not> cf_Pinned p then p\<lparr>cf_Source := x\<rparr> else p | None \<Rightarrow> p) in
      if list_ex (conflict_within p) found then None
      else map_option op_Conflict (view s nowAt baseAt p'))"

definition Carry :: "schema \<Rightarrow> conflict list \<Rightarrow> conflict list \<Rightarrow> snapshot \<Rightarrow> snapshot \<Rightarrow> source option \<Rightarrow> conflict list" where
  "Carry s pending found now base src =
     (let n = length pending;
          carried = List.map_filter (carried_of s (lookup_of now n) (lookup_of base n) found src) pending
      in carried @ filter (\<lambda>f. \<not> list_ex (conflict_within f) carried) found)"

datatype resolve_error = ErrNotOpen | ErrUnplaceable

fun chosen_of :: "schema \<Rightarrow> snapshot \<Rightarrow> snapshot \<Rightarrow> string \<Rightarrow> conflict list \<Rightarrow> open_conflict option \<Rightarrow> open_conflict option" where
  "chosen_of s now base id' [] chosen = chosen"
| "chosen_of s now base id' (c # cs) chosen =
     chosen_of s now base id' cs (if cf_ID c = id' then View s now base c else chosen)"

definition ws_Resolve :: "schema \<Rightarrow> snapshot \<Rightarrow> snapshot \<Rightarrow> conflict list \<Rightarrow> string \<Rightarrow> bool \<Rightarrow>
    resolve_error + (snapshot \<times> conflict list)" where
  "ws_Resolve s now base cs id' theirs =
     (case chosen_of s now base id' cs None of
        None \<Rightarrow> Inl ErrNotOpen
      | Some chosen \<Rightarrow>
          let c = op_Conflict chosen; item' = snap_Get now (cf_Ref c) in
          if theirs \<and> cf_Pinned c \<and> length (addressable s (cf_Path c) [item']) < length (cf_Path c)
          then Inl ErrUnplaceable
          else let now' = (if theirs then snap_With now (cf_Ref c) (SetAt s item' (cf_Path c) (op_TheirsValue chosen)) else now);
                   decided = (\<lambda>x. cf_ID x = id' \<or>
                     conflict_within x c \<and> length (cf_Path x) > length (cf_Path c) \<and> cf_Source x = cf_Source c)
               in Inr (now', filter (\<lambda>x. \<not> decided x \<and>
                    view s (lookup_of now' (length cs)) (lookup_of base (length cs)) x \<noteq> None) cs))"

section \<open>The store\<close>

record wnote =
  no_Source :: string
  no_By :: string
  no_Text :: string

record workspace =
  w_Username :: string
  w_Base :: int
  w_Items :: "snapshot option"
  w_Conflicts :: "conflict list"
  w_Notes :: "wnote list"
  w_Taken :: "int list"
  w_Checkpoint :: int
  w_CheckpointAt :: int
  w_Version :: int
  w_UpdatedAt :: int
  w_UpdatedBy :: string

record log_entry =
  lg_Version :: int
  lg_At :: int
  lg_By :: string
  lg_Op :: string
  lg_Items :: "ref list"
  lg_Note :: string

record ws_store =
  ms_ws :: "string \<rightharpoonup> workspace"
  ms_logs :: "string \<Rightarrow> log_entry list"

definition ws_NewMemoryStore :: ws_store where
  "ws_NewMemoryStore = \<lparr>ms_ws = Map.empty, ms_logs = (\<lambda>_. [])\<rparr>"

text \<open>A copy through JSON: the values, which are decoded JSON, come back as they are; the steps of the paths of
  conflicts through their own JSON form.\<close>

definition copyWorkspace :: "workspace \<Rightarrow> workspace" where
  "copyWorkspace w = w\<lparr>w_Conflicts :=
     map (\<lambda>c. c\<lparr>cf_Path := map (step_UnmarshalJSON \<circ> step_MarshalJSON) (cf_Path c)\<rparr>) (w_Conflicts w)\<rparr>"

definition store_Workspace :: "ws_store \<Rightarrow> string \<Rightarrow> workspace option" where
  "store_Workspace m username = map_option copyWorkspace (ms_ws m username)"

definition stored_version :: "ws_store \<Rightarrow> string \<Rightarrow> int" where
  "stored_version m username = (case ms_ws m username of Some w \<Rightarrow> w_Version w | None \<Rightarrow> 0)"

text \<open>\<open>None\<close> is \<^verbatim>\<open>ErrChanged\<close>; the time is that of the clock, truncated to microseconds.\<close>

definition PutWorkspace :: "int \<Rightarrow> workspace \<Rightarrow> int \<Rightarrow> log_entry \<Rightarrow> ws_store \<Rightarrow> (workspace \<times> ws_store) option" where
  "PutWorkspace now w expected entry m =
     (if stored_version m (w_Username w) \<noteq> expected then None
      else let w' = w\<lparr>w_Version := wrap64 (expected + 1), w_UpdatedAt := now\<rparr>;
               entry' = entry\<lparr>lg_Version := w_Version w', lg_At := w_UpdatedAt w'\<rparr>
           in Some (w', \<lparr>ms_ws = (ms_ws m)(w_Username w \<mapsto> copyWorkspace w'),
                         ms_logs = (ms_logs m)(w_Username w := ms_logs m (w_Username w) @ [entry'])\<rparr>))"

definition WorkspaceLog :: "ws_store \<Rightarrow> string \<Rightarrow> int \<Rightarrow> log_entry list" where
  "WorkspaceLog m username limit =
     (let out = rev (ms_logs m username) in
      if limit > 0 \<and> int (length out) > limit then take (nat limit) out else out)"

end
