(* ===== verification/Merge_Laws.thy ===== *)
theory Merge_Laws
  imports Merge "HOL-Library.Multiset"
begin

text \<open>
  The comparison of values goes down: values that are the same at a path have the same values at every path under
  it. With that, what the merge does at one path decides what it does under it.
\<close>

section \<open>Well-formed values and schemas\<close>

text \<open>A Go map has each key once.\<close>

inductive wf_json :: "jval \<Rightarrow> bool" where
  "wf_json JMissing" | "wf_json JNull" | "wf_json (JBool b)" | "wf_json (JNum n)" | "wf_json (JStr x)"
| "(\<And>x. x \<in> set xs \<Longrightarrow> wf_json x) \<Longrightarrow> wf_json (JList xs)"
| "distinct (map fst m) \<Longrightarrow> (\<And>k v. (k, v) \<in> set m \<Longrightarrow> wf_json v) \<Longrightarrow> wf_json (JObj m)"

inductive_cases wf_json_JListE: "wf_json (JList xs)"
inductive_cases wf_json_JObjE: "wf_json (JObj m)"

text \<open>The key of an element is never unset, and the elements of a list are no keyed lists themselves.\<close>

definition schema_ok :: "schema \<Rightarrow> bool" where
  "schema_ok s \<longleftrightarrow> (\<forall>p pr. sc_Lists s p = Some pr \<longrightarrow> \<not> sc_Unset s (field_at p pr)) \<and>
     (\<forall>p. sc_Lists s (p @ ''[][]'') = None)"

section \<open>Patterns\<close>

lemma Pattern_Nil [simp]: "Pattern [] = ''''"
  by (simp add: Pattern_def)

lemma Pattern_snoc: "Pattern (p @ [st]) = Pattern p @ patternStep (Pattern p = '''') st"
  by (simp add: Pattern_def)

lemma IsElement_simps [simp]: "IsElement (ElementStep k)" "\<not> IsElement (FieldStep k)"
  by (simp_all add: IsElement_def ElementStep_def FieldStep_def)

lemma step_simps [simp]: "st_Field (FieldStep k) = k" "st_Element (ElementStep k) = k"
  by (simp_all add: FieldStep_def ElementStep_def)

lemma Pattern_field: "\<not> IsElement st \<Longrightarrow> Pattern (p @ [st]) = field_at (Pattern p) (st_Field st)"
  by (simp add: Pattern_snoc patternStep_def field_at_def)

lemma Pattern_element: "IsElement st \<Longrightarrow> Pattern (p @ [st]) = Pattern p @ ''[]''"
  by (simp add: Pattern_snoc patternStep_def)

lemma trim_suffix_append [simp]: "trim_suffix (p @ x) x = p"
  by (simp add: trim_suffix_def)

section \<open>Canonical forms\<close>

lemma normalize_obj: "normalize s (JObj m) p =
    JObj (filter (\<lambda>kv. \<not> IsMissing (snd kv)) (map (\<lambda>kv. (fst kv, normalize s (snd kv) (field_at p (fst kv)))) m))"
  by (subst normalize.simps) (simp add: is_zero_def)

lemma normalize_list: "normalize s (JList xs) p = JList (map (\<lambda>el. normalize s el (p @ ''[]'')) xs)"
  by (subst normalize.simps) (simp add: is_zero_def)

lemma normalize_other: "object v = None \<Longrightarrow> \<not> isGroup v \<Longrightarrow> normalize s v p = v \<or> normalize s v p = JMissing"
  by (cases v) (simp_all add: normalize.simps)

lemma marshal_simps [simp]:
  "marshal JMissing = JObj []" "marshal JNull = JNull" "marshal (JList xs) = JList (map marshal xs)"
  "marshal (JObj m) = JObj (sort_key fst (map (\<lambda>kv. (fst kv, marshal (snd kv))) m))"
  "marshal (JStr x) = JStr x" "marshal (JBool b) = JBool b" "marshal (JNum n) = JNum n"
  by (simp_all add: marshal.simps)

text \<open>The field \<open>k\<close> of the canonical form of an object.\<close>

definition canon_field :: "schema \<Rightarrow> string \<Rightarrow> (string \<times> jval) list \<Rightarrow> string \<Rightarrow> jval option" where
  "canon_field s p m k =
     (case map_of m k of None \<Rightarrow> None
      | Some v \<Rightarrow> (let n = normalize s v (field_at p k) in if IsMissing n then None else Some (marshal n)))"

lemma map_of_sort_key:
  assumes "distinct (map fst m)"
  shows "map_of (sort_key fst m) = map_of m"
proof -
  have "mset (map fst (sort_key fst m)) = mset (map fst m)" by simp
  then have "distinct (map fst (sort_key fst m))" using assms mset_eq_imp_distinct_iff by blast
  with assms show ?thesis by (simp add: map_of_inject_set)
qed

lemma normalized_fields:
  assumes "distinct (map fst m)"
  shows "distinct (map fst (filter (\<lambda>kv. \<not> IsMissing (snd kv)) (map (\<lambda>kv. (fst kv, f kv)) m)))"
    and "map_of (filter (\<lambda>kv. \<not> IsMissing (snd kv)) (map (\<lambda>kv. (fst kv, f kv)) m)) k =
      (case map_of m k of None \<Rightarrow> None | Some v \<Rightarrow> if IsMissing (f (k, v)) then None else Some (f (k, v)))"
  using assms
  by (induction m) (auto simp: image_iff split: option.splits if_splits dest: map_of_SomeD)

lemma map_of_map_snd: "map_of (map (\<lambda>kv. (fst kv, f (snd kv))) xs) = map_option f \<circ> map_of xs"
  by (induction xs) (auto simp: fun_eq_iff)

lemma canonicalAt_obj:
  assumes "distinct (map fst m)"
  obtains c where "canonicalAt s p (JObj m) = JObj c" "map_of c = canon_field s p m"
proof -
  let ?n = "filter (\<lambda>kv. \<not> IsMissing (snd kv)) (map (\<lambda>kv. (fst kv, normalize s (snd kv) (field_at p (fst kv)))) m)"
  note n = normalized_fields [OF assms, of "\<lambda>kv. normalize s (snd kv) (field_at p (fst kv))"]
  let ?c = "sort_key fst (map (\<lambda>kv. (fst kv, marshal (snd kv))) ?n)"
  have "canonicalAt s p (JObj m) = JObj ?c" by (simp add: canonicalAt_def normalize_obj)
  moreover have "map_of ?c = canon_field s p m"
  proof -
    have "map_of ?c = map_of (map (\<lambda>kv. (fst kv, marshal (snd kv))) ?n)"
      using n(1) by (intro map_of_sort_key) (simp add: comp_def)
    also have "\<dots> = map_option marshal \<circ> map_of ?n" by (rule map_of_map_snd)
    finally show ?thesis by (simp add: fun_eq_iff n(2) canon_field_def Let_def split: option.splits)
  qed
  ultimately show thesis by (rule that)
qed

lemma canon_field_get: "canonicalAt s (field_at p k) (get m k) = (case canon_field s p m k of None \<Rightarrow> JNull | Some c \<Rightarrow> c)"
  by (auto simp: canonicalAt_def canon_field_def get_def Let_def normalize.simps is_zero_def split: option.splits)

lemma canonicalAt_shape:
  "canonicalAt s p v = JObj c \<Longrightarrow> \<exists>m. v = JObj m" "canonicalAt s p v = JList cs \<Longrightarrow> \<exists>xs. v = JList xs"
  by (cases v; auto simp: canonicalAt_def Let_def normalize.simps is_zero_def split: if_splits)+

lemma canonicalAt_list: "canonicalAt s p (JList xs) = JList (map (\<lambda>x. marshal (normalize s x (p @ ''[]''))) xs)"
  by (simp add: canonicalAt_def normalize_list)

text \<open>What \<open>sameAt\<close> compares.\<close>

definition canon_of :: "schema \<Rightarrow> path \<Rightarrow> jval \<Rightarrow> jval" where
  "canon_of s path v = (if path \<noteq> [] \<and> IsElement (last path) then element_canonical s path v else canonicalAt s (Pattern path) v)"

lemma sameAt_canon: "sameAt s path a b \<longleftrightarrow> canon_of s path a = canon_of s path b"
  by (simp add: sameAt_def canon_of_def sameElements_def Let_def)

lemma sameElements_canon: "IsElement st \<Longrightarrow> sameElements s (path @ [st]) a b \<longleftrightarrow> canon_of s (path @ [st]) a = canon_of s (path @ [st]) b"
  by (simp add: canon_of_def sameElements_def)

lemma sameAt_refl [simp]: "sameAt s path a a"
  by (simp add: sameAt_canon)

lemma sameAt_sym: "sameAt s path a b \<longleftrightarrow> sameAt s path b a"
  by (auto simp: sameAt_canon)

lemma sameAt_trans: "sameAt s path a b \<Longrightarrow> sameAt s path b c \<Longrightarrow> sameAt s path a c"
  by (simp add: sameAt_canon)

lemma canon_of_not_list: "\<not> isGroup v \<Longrightarrow> canon_of s path v = canonicalAt s (Pattern path) v"
  by (cases v) (auto simp: canon_of_def element_canonical_def Let_def)

lemma canon_of_shape:
  "canon_of s path v = JObj c \<Longrightarrow> \<exists>m. v = JObj m" "canon_of s path v = JList cs \<Longrightarrow> \<exists>xs. v = JList xs"
  by (auto simp: canon_of_def element_canonical_def Let_def dest: canonicalAt_shape split: if_splits jval.splits)

lemma canon_of_list: "\<not> (path \<noteq> [] \<and> IsElement (last path)) \<Longrightarrow>
    canon_of s path (JList xs) = JList (map (\<lambda>x. marshal (normalize s x (Pattern path @ ''[]''))) xs)"
  by (auto simp: canon_of_def canonicalAt_list)

lemma canon_of_group: "IsElement st \<Longrightarrow>
    canon_of s (path @ [st]) (JList xs) = JList (map (\<lambda>x. marshal (normalize s x (Pattern path @ ''[]''))) xs)"
  by (simp add: canon_of_def element_canonical_def Pattern_element canonicalAt_list)

section \<open>One step down\<close>

definition get1 :: "schema \<Rightarrow> path \<Rightarrow> jval \<Rightarrow> step \<Rightarrow> jval" where
  "get1 s path v st = GetAt_from s path v [st]"

lemma get1_field: "\<not> IsElement st \<Longrightarrow> get1 s path v st = (case object v of None \<Rightarrow> JMissing | Some m \<Rightarrow> get m (st_Field st))"
  by (simp add: get1_def split: option.split)

lemma get1_element: "IsElement st \<Longrightarrow>
    get1 s path v st = (case keyed s v (Pattern path) of None \<Rightarrow> JMissing | Some k \<Rightarrow> kl_get k (st_Element st))"
  by (simp add: get1_def split: option.split)

lemma GetAt_from_step: "GetAt_from s path v (st # q) = GetAt_from s (path @ [st]) (get1 s path v st) q"
proof -
  have miss: "GetAt_from s p JMissing q = JMissing" for p q by (cases q) (simp_all add: keyed_def)
  show ?thesis by (simp add: get1_def miss split: option.split)
qed

lemma wf_get: "wf_json (JObj m) \<Longrightarrow> wf_json (get m k)"
  by (auto simp: get_def intro: wf_json.intros elim!: wf_json_JObjE dest: map_of_SomeD split: option.splits)

lemma wf_group: "wf_json (JList xs) \<Longrightarrow> wf_json (as_group (group_of s p key xs))"
proof -
  assume "wf_json (JList xs)"
  then have "wf_json x" if "x \<in> set (group_of s p key xs)" for x using that by (auto simp: group_of_def elim: wf_json_JListE)
  then show ?thesis by (auto simp: as_group_def intro!: wf_json.intros split: list.splits)
qed

lemma kl_get_keyed: "keyed s (JList xs) p = Some k \<Longrightarrow>
    kl_get k key = (if group_of s p key xs = [] then JMissing else as_group (group_of s p key xs))"
  by (auto simp: keyed_spec kl_get_def split: if_splits)

lemma keyed_list: "keyed s v p = Some k \<Longrightarrow> \<exists>xs. v = JList xs"
  by (auto simp: keyed_spec split: jval.splits)

lemma wf_kl_get: "wf_json v \<Longrightarrow> keyed s v p = Some k \<Longrightarrow> wf_json (kl_get k key)"
  using keyed_list [of s v p k] by (auto simp: kl_get_keyed wf_group intro: wf_json.intros)

lemma wf_get1: "wf_json v \<Longrightarrow> wf_json (get1 s path v st)"
  by (cases "IsElement st")
    (auto simp: get1_field get1_element wf_get wf_kl_get intro: wf_json.intros split: option.splits)

lemma down_field:
  assumes "wf_json a" "wf_json b" "canon_of s path a = canon_of s path b" "\<not> IsElement st"
  shows "canon_of s (path @ [st]) (get1 s path a st) = canon_of s (path @ [st]) (get1 s path b st)"
proof -
  have last: "canon_of s (path @ [st]) v = canonicalAt s (field_at (Pattern path) (st_Field st)) v" for v
    using assms(4) by (simp add: canon_of_def Pattern_field)
  show ?thesis
  proof (cases "object a")
    case (Some m)
    then have a: "a = JObj m" by simp
    obtain c where c: "canonicalAt s (Pattern path) (JObj m) = JObj c" "map_of c = canon_field s (Pattern path) m"
      by (rule canonicalAt_obj) (use assms(1) a in \<open>auto elim: wf_json_JObjE\<close>)
    have "canon_of s path b = JObj c" using assms(3) c(1) a by (simp add: canon_of_not_list)
    then obtain m' where b: "b = JObj m'" using canon_of_shape(1) by blast
    obtain c' where c': "canonicalAt s (Pattern path) (JObj m') = JObj c'" "map_of c' = canon_field s (Pattern path) m'"
      by (rule canonicalAt_obj) (use assms(2) b in \<open>auto elim: wf_json_JObjE\<close>)
    have "canon_field s (Pattern path) m = canon_field s (Pattern path) m'"
      using c c' assms(3) a b by (simp add: canon_of_not_list)
    then show ?thesis unfolding last using assms(4) by (simp add: get1_field a b canon_field_get)
  next
    case None
    have "object b = None"
    proof (rule ccontr)
      assume "object b \<noteq> None"
      then obtain m where b: "b = JObj m" by auto
      obtain c where "canonicalAt s (Pattern path) (JObj m) = JObj c"
        by (rule canonicalAt_obj [of m]) (use assms(2) b in \<open>auto elim: wf_json_JObjE\<close>)
      then have "canon_of s path a = JObj c" using assms(3) b by (simp add: canon_of_not_list)
      with None show False by (auto dest: canon_of_shape(1))
    qed
    with None assms(4) show ?thesis by (simp add: get1_field)
  qed
qed

text \<open>An element of a keyed list has its key in its canonical form.\<close>

lemma elementKey_canon:
  assumes "schema_ok s" "wf_json x" "wf_json y" "elementKey s x p = Some key"
    and "marshal (normalize s x (p @ ''[]'')) = marshal (normalize s y (p @ ''[]''))"
  shows "elementKey s y p = Some key"
proof -
  obtain pr m where m: "sc_Lists s (p @ ''[]'') = Some pr" "x = JObj m" "map_of m pr = Some (JStr key)"
    using assms(4) by (auto simp: elementKey_def split: option.splits jval.splits)
  have unset: "\<not> sc_Unset s (field_at (p @ ''[]'') pr)" using assms(1) m(1) by (auto simp: schema_ok_def)
  have can: "canonicalAt s (p @ ''[]'') (JObj m'') = marshal (normalize s (JObj m'') (p @ ''[]''))" for m''
    by (simp add: canonicalAt_def normalize_obj)
  obtain c where c: "canonicalAt s (p @ ''[]'') (JObj m) = JObj c" "map_of c = canon_field s (p @ ''[]'') m"
    by (rule canonicalAt_obj) (use assms(2) m in \<open>auto elim: wf_json_JObjE\<close>)
  have key: "map_of c pr = Some (JStr key)"
    using m(3) unset c(2) by (simp add: canon_field_def normalize.simps)
  have y: "marshal (normalize s y (p @ ''[]'')) = JObj c" using assms(5) c(1) m(2) can by simp
  then obtain m' where y': "y = JObj m'"
    using key by (cases y) (auto simp: normalize.simps split: if_splits)
  obtain c' where c': "canonicalAt s (p @ ''[]'') (JObj m') = JObj c'" "map_of c' = canon_field s (p @ ''[]'') m'"
    by (rule canonicalAt_obj) (use assms(3) y' in \<open>auto elim: wf_json_JObjE\<close>)
  have "canon_field s (p @ ''[]'') m' pr = Some (JStr key)" using c' key y y' can by simp
  then obtain v where v: "map_of m' pr = Some v" "marshal (normalize s v (field_at (p @ ''[]'') pr)) = JStr key"
    by (auto simp: canon_field_def Let_def split: option.splits if_splits)
  then have "v = JStr key" by (cases v) (auto simp: normalize.simps split: if_splits)
  with v(1) y' m(1) show ?thesis by (simp add: elementKey_def)
qed

text \<open>Lists with the same canonical form have the same keys in the same places.\<close>

definition same_elem :: "schema \<Rightarrow> string \<Rightarrow> jval \<Rightarrow> jval \<Rightarrow> bool" where
  "same_elem s p x y \<longleftrightarrow> marshal (normalize s x (p @ ''[]'')) = marshal (normalize s y (p @ ''[]'')) \<and>
     elementKey s x p = elementKey s y p"

lemma same_elemI:
  assumes "schema_ok s" "wf_json x" "wf_json y" "marshal (normalize s x (p @ ''[]'')) = marshal (normalize s y (p @ ''[]''))"
  shows "same_elem s p x y"
  using elementKey_canon [OF assms(1,2,3) _ assms(4)] elementKey_canon [OF assms(1,3,2) _ assms(4) [symmetric]] assms(4)
  by (cases "elementKey s x p"; cases "elementKey s y p") (auto simp: same_elem_def)

lemma same_lists:
  assumes "schema_ok s" "wf_json (JList xs)" "wf_json (JList ys)"
    "map (\<lambda>x. marshal (normalize s x (p @ ''[]''))) xs = map (\<lambda>x. marshal (normalize s x (p @ ''[]''))) ys"
  shows "list_all2 (same_elem s p) xs ys"
proof -
  have "list_all2 (\<lambda>x y. marshal (normalize s x (p @ ''[]'')) = marshal (normalize s y (p @ ''[]''))) xs ys"
    using assms(4) by (simp add: list_all2_conv_all_nth list_eq_iff_nth_eq)
  then show ?thesis
    by (rule list.rel_mono_strong) (use assms(1-3) in \<open>auto intro: same_elemI elim!: wf_json_JListE\<close>)
qed

lemma same_lists_keyed:
  assumes "list_all2 (same_elem s p) xs ys"
  shows "all_keyed s p xs = all_keyed s p ys" "list_all2 (same_elem s p) (group_of s p key xs) (group_of s p key ys)"
  using assms by (induction xs ys) (auto simp: all_keyed_def group_of_def same_elem_def)

lemma canon_of_as_group:
  assumes "IsElement st" "list_all2 (same_elem s (Pattern path)) xs ys"
    "\<And>x. x \<in> set xs \<union> set ys \<Longrightarrow> elementKey s x (Pattern path) \<noteq> None"
  shows "canon_of s (path @ [st]) (as_group xs) = canon_of s (path @ [st]) (as_group ys)"
proof -
  have m: "map (\<lambda>x. marshal (normalize s x (Pattern path @ ''[]''))) xs = map (\<lambda>x. marshal (normalize s x (Pattern path @ ''[]''))) ys"
    using assms(2) by (induction xs ys) (auto simp: same_elem_def)
  have single: "canon_of s (path @ [st]) x = marshal (normalize s x (Pattern path @ ''[]''))"
    if x: "x \<in> set xs \<union> set ys" for x
  proof -
    obtain m where "x = JObj m" using assms(3) [OF x] by (auto simp: elementKey_def split: option.splits)
    then show ?thesis using assms(1) by (simp add: canon_of_not_list Pattern_element canonicalAt_def normalize_obj)
  qed
  show ?thesis
    using m single canon_of_group [OF assms(1)]
    by (cases xs rule: remdups_adj.cases; cases ys rule: remdups_adj.cases) (auto simp: as_group_def)
qed

lemma get1_group:
  assumes "schema_ok s" "path \<noteq> []" "IsElement (last path)" "IsElement st"
  shows "get1 s path v st = JMissing"
proof -
  obtain p0 st0 where p: "path = p0 @ [st0]" using assms(2) by (cases path rule: rev_cases) auto
  have none: "elementKey s x (Pattern path) = None" for x
    using assms p by (simp add: elementKey_def Pattern_element schema_ok_def)
  show ?thesis
  proof (cases "keyed s v (Pattern path)")
    case (Some k)
    then obtain xs where v: "v = JList xs" using keyed_list by blast
    have "group_of s (Pattern path) key xs = []" for key by (simp add: group_of_def none)
    then show ?thesis using Some assms(4) by (simp add: get1_element v kl_get_keyed)
  qed (simp add: get1_element [OF assms(4)])
qed

lemma get1_list: "IsElement st \<Longrightarrow> get1 s path (JList xs) st =
    (if all_keyed s (Pattern path) xs \<and> group_of s (Pattern path) (st_Element st) xs \<noteq> []
     then as_group (group_of s (Pattern path) (st_Element st) xs) else JMissing)"
  by (simp add: get1_element keyed_spec kl_get_def)

lemma down_element:
  assumes "schema_ok s" "wf_json a" "wf_json b" "canon_of s path a = canon_of s path b" "IsElement st"
  shows "canon_of s (path @ [st]) (get1 s path a st) = canon_of s (path @ [st]) (get1 s path b st)"
proof (cases "path \<noteq> [] \<and> IsElement (last path)")
  case True
  then show ?thesis using get1_group [OF assms(1) _ _ assms(5)] by simp
next
  case False
  have other: "get1 s path v st = JMissing" if "\<not> isGroup v" for v
    using that assms(5) by (cases v) (simp_all add: get1_element keyed_def)
  show ?thesis
  proof (cases "isGroup a \<or> isGroup b")
    case True
    then obtain xs ys where l: "a = JList xs" "b = JList ys"
      using assms(4) canon_of_list [OF False] canon_of_shape(2) by (metis isGroup.elims(2))
    have rel: "list_all2 (same_elem s (Pattern path)) xs ys"
      using same_lists [OF assms(1)] assms(2,3,4) l canon_of_list [OF False] by simp
    note k = same_lists_keyed [OF rel]
    have emp: "group_of s (Pattern path) key xs = [] \<longleftrightarrow> group_of s (Pattern path) key ys = []" for key
      using k(2) [of key] by auto
    have keys: "elementKey s x (Pattern path) \<noteq> None"
      if "x \<in> set (group_of s (Pattern path) key xs) \<union> set (group_of s (Pattern path) key ys)" for x key
      using that by (auto simp: group_of_def)
    show ?thesis
      using canon_of_as_group [OF assms(5) k(2) keys] k(1) emp by (simp add: l get1_list [OF assms(5)])
  next
    case False
    then show ?thesis using other by simp
  qed
qed

text \<open>The comparison goes down any path.\<close>

lemma down1: "schema_ok s \<Longrightarrow> wf_json a \<Longrightarrow> wf_json b \<Longrightarrow> sameAt s path a b \<Longrightarrow>
    sameAt s (path @ [st]) (get1 s path a st) (get1 s path b st)"
  using down_field down_element unfolding sameAt_canon by (cases "IsElement st") blast+

lemma down:
  "schema_ok s \<Longrightarrow> wf_json a \<Longrightarrow> wf_json b \<Longrightarrow> sameAt s path a b \<Longrightarrow>
   sameAt s (path @ q) (GetAt_from s path a q) (GetAt_from s path b q)"
proof (induction q arbitrary: path a b)
  case (Cons st q)
  from Cons.IH [OF Cons.prems(1) wf_get1 wf_get1 down1] Cons.prems show ?case by (simp add: GetAt_from_step del: GetAt_from.simps)
qed simp

end
