(* ===== verification/Merge_Props.thy ===== *)
theory Merge_Props
  imports Merge_Laws
begin

text \<open>
  What the three-way merge keeps: a change of one side where the other changed nothing, the local value where both
  changed, which is then a conflict, and nothing else.
\<close>

section \<open>Induction over the merge\<close>

definition changed :: "schema \<Rightarrow> jval \<Rightarrow> jval \<Rightarrow> jval \<Rightarrow> path \<Rightarrow> bool" where
  "changed s b l n path \<longleftrightarrow> \<not> sameAt s path l b \<and> \<not> sameAt s path n b \<and> \<not> sameAt s path n l"

definition merge_element :: "schema \<Rightarrow> keyed_list \<Rightarrow> keyed_list \<Rightarrow> keyed_list \<Rightarrow> path \<Rightarrow> string \<Rightarrow> jval \<times> value_conflict list" where
  "merge_element s kb kl kn path key =
     (if isGroup (kl_get kb key) \<or> isGroup (kl_get kl key) \<or> isGroup (kl_get kn key)
      then whole s (kl_get kb key) (kl_get kl key) (kl_get kn key) (path @ [ElementStep key])
      else merge s (kl_get kb key) (kl_get kl key) (kl_get kn key) (path @ [ElementStep key]))"

lemma merge_unfold:
  "merge s b l n path =
     (if sameAt s path l b then (n, [])
      else if sameAt s path n b \<or> sameAt s path n l then (l, [])
      else case merge_objects b l n of
          Some (bo, lo, no) \<Rightarrow>
            collect_object (map (\<lambda>k. (k, merge s (get bo k) (get lo k) (get no k) (path @ [FieldStep k]))) (key_union lo no bo))
        | None \<Rightarrow> (case merge_lists s b l n (Pattern path) of
              Some (kb, kl, kn) \<Rightarrow> collect_list (map (merge_element s kb kl kn path) (list_order kl kn))
            | None \<Rightarrow> (l, [\<lparr>vc_Path = path, vc_Mine = l, vc_Theirs = n\<rparr>])))"
  unfolding merge_element_def by (subst merge.simps) (rule refl)

lemma merge_induct [case_names theirs mine obj lst conflict]:
  assumes "\<And>b l n path. sameAt s path l b \<Longrightarrow> P b l n path (n, [])"
    and "\<And>b l n path. \<not> sameAt s path l b \<Longrightarrow> sameAt s path n b \<or> sameAt s path n l \<Longrightarrow> P b l n path (l, [])"
    and "\<And>b l n path bo lo no. changed s b l n path \<Longrightarrow> merge_objects b l n = Some (bo, lo, no) \<Longrightarrow>
      (\<And>k. k \<in> set (key_union lo no bo) \<Longrightarrow>
        P (get bo k) (get lo k) (get no k) (path @ [FieldStep k]) (merge s (get bo k) (get lo k) (get no k) (path @ [FieldStep k]))) \<Longrightarrow>
      P b l n path (collect_object
        (map (\<lambda>k. (k, merge s (get bo k) (get lo k) (get no k) (path @ [FieldStep k]))) (key_union lo no bo)))"
    and "\<And>b l n path kb kl kn. changed s b l n path \<Longrightarrow> merge_objects b l n = None \<Longrightarrow>
      merge_lists s b l n (Pattern path) = Some (kb, kl, kn) \<Longrightarrow>
      (\<And>key. key \<in> set (list_order kl kn) \<Longrightarrow>
        \<not> (isGroup (kl_get kb key) \<or> isGroup (kl_get kl key) \<or> isGroup (kl_get kn key)) \<Longrightarrow>
        P (kl_get kb key) (kl_get kl key) (kl_get kn key) (path @ [ElementStep key])
          (merge s (kl_get kb key) (kl_get kl key) (kl_get kn key) (path @ [ElementStep key]))) \<Longrightarrow>
      P b l n path (collect_list (map (merge_element s kb kl kn path) (list_order kl kn)))"
    and "\<And>b l n path. changed s b l n path \<Longrightarrow> merge_objects b l n = None \<Longrightarrow> merge_lists s b l n (Pattern path) = None \<Longrightarrow>
      P b l n path (l, [\<lparr>vc_Path = path, vc_Mine = l, vc_Theirs = n\<rparr>])"
  shows "P b l n path (merge s b l n path)"
proof (induction "size b + size l + size n" arbitrary: b l n path rule: less_induct)
  case less
  show ?case
  proof (cases "changed s b l n path")
    case False
    then show ?thesis using assms(1,2) by (subst merge_unfold) (auto simp: changed_def)
  next
    case ch: True
    then have g: "\<not> sameAt s path l b" "\<not> (sameAt s path n b \<or> sameAt s path n l)" by (auto simp: changed_def)
    show ?thesis
    proof (cases "merge_objects b l n")
      case (Some x)
      then obtain bo lo no where o: "merge_objects b l n = Some (bo, lo, no)" by (cases x) auto
      have "P (get bo k) (get lo k) (get no k) (path @ [FieldStep k]) (merge s (get bo k) (get lo k) (get no k) (path @ [FieldStep k]))" for k
        by (rule less) (rule merge_objects_size [OF o])
      from assms(3) [OF ch o this] show ?thesis using g o by (subst merge_unfold) simp
    next
      case no: None
      show ?thesis
      proof (cases "merge_lists s b l n (Pattern path)")
        case (Some x)
        then obtain kb kl kn where k: "merge_lists s b l n (Pattern path) = Some (kb, kl, kn)" by (cases x) auto
        have "P (kl_get kb key) (kl_get kl key) (kl_get kn key) (path @ [ElementStep key])
            (merge s (kl_get kb key) (kl_get kl key) (kl_get kn key) (path @ [ElementStep key]))"
          if "\<not> (isGroup (kl_get kb key) \<or> isGroup (kl_get kl key) \<or> isGroup (kl_get kn key))" for key
          by (rule less) (rule merge_lists_size [OF k that])
        from assms(4) [OF ch no k this] show ?thesis using g no k by (subst merge_unfold) simp
      next
        case None
        then show ?thesis using assms(5) [OF ch no None] g no by (subst merge_unfold) simp
      qed
    qed
  qed
qed

section \<open>Reading the merged value\<close>

lemma map_of_collect: "map_of (map (\<lambda>(k, v, cs). (k, v)) (filter (\<lambda>(k, v, cs). \<not> IsMissing v) (map (\<lambda>k. (k, F k)) ks))) k =
    (if k \<in> set ks \<and> \<not> IsMissing (fst (F k)) then Some (fst (F k)) else None)"
  by (induction ks) (auto split: prod.splits)

lemma get_collect: "get (map (\<lambda>(k, v, cs). (k, v)) (filter (\<lambda>(k, v, cs). \<not> IsMissing v) (map (\<lambda>k. (k, F k)) ks))) k =
    (if k \<in> set ks then fst (F k) else JMissing)"
  by (cases "fst (F k)") (auto simp: get_def map_of_collect)

lemma get_outside: "k \<notin> set (key_union lo no bo) \<Longrightarrow> get lo k = JMissing \<and> get no k = JMissing \<and> get bo k = JMissing"
  by (auto simp: key_union_def get_def map_of_eq_None_iff [symmetric] split: option.splits)

lemma merge_objects_eq: "merge_objects b l n = Some (bo, lo, no) \<Longrightarrow>
    l = JObj lo \<and> n = JObj no \<and> (b = JMissing \<and> bo = [] \<or> b = JObj bo)"
  by (cases l; cases n; cases b) (auto simp: merge_objects_def)

lemma get_Nil [simp]: "get [] k = JMissing"
  by (simp add: get_def)

lemma read_object:
  assumes "merge_objects b l n = Some (bo, lo, no)"
  shows "get1 s path l (FieldStep k) = get lo k" "get1 s path n (FieldStep k) = get no k"
    "get1 s path b (FieldStep k) = get bo k"
    "get1 s path l (ElementStep k) = JMissing" "get1 s path n (ElementStep k) = JMissing"
  using merge_objects_eq [OF assms] by (auto simp: get1_field get1_element keyed_def)

lemma read_collect:
  "get1 s path (fst (collect_object (map (\<lambda>k. (k, F k)) ks))) (FieldStep k) = (if k \<in> set ks then fst (F k) else JMissing)"
  "get1 s path (fst (collect_object (map (\<lambda>k. (k, F k)) ks))) (ElementStep k) = JMissing"
  by (simp_all add: get1_field get1_element keyed_def collect_object_def get_collect)

lemma set_sortConflicts [simp]: "set (sortConflicts cs) = set cs"
  by (simp add: sortConflicts_def)

lemma conflicts_collect: "set (snd (collect_object (map (\<lambda>k. (k, F k)) ks))) = (\<Union>k \<in> set ks. set (snd (F k)))"
  by (simp add: collect_object_def case_prod_beta comp_def)

lemma conflicts_list: "set (snd (collect_list (map F ks))) = (\<Union>k \<in> set ks. set (snd (F k)))"
  by (simp add: collect_list_def)

text \<open>What a key of a keyed list stands for: nothing, one element with the key, or two or more.\<close>

definition key_piece :: "schema \<Rightarrow> string \<Rightarrow> string \<Rightarrow> jval \<Rightarrow> bool" where
  "key_piece s p key v \<longleftrightarrow> v = JMissing \<or> elementKey s v p = Some key \<or>
     (\<exists>els. v = JList els \<and> 2 \<le> length els \<and> (\<forall>x \<in> set els. elementKey s x p = Some key))"

lemma elementKey_obj: "elementKey s v p = Some key \<Longrightarrow> \<exists>m. v = JObj m"
  by (auto simp: elementKey_def split: option.splits)

lemma piece_kl_get:
  assumes "keyed s v p = Some k"
  shows "key_piece s p key (kl_get k key)"
proof -
  obtain xs where v: "v = JList xs" using keyed_list [OF assms] by blast
  have g: "\<forall>x \<in> set (group_of s p key xs). elementKey s x p = Some key" by (simp add: group_of_def)
  show ?thesis
  proof (cases "group_of s p key xs" rule: remdups_adj.cases)
    case 1
    then show ?thesis using assms by (simp add: v kl_get_keyed key_piece_def)
  next
    case (2 x)
    then show ?thesis using assms g by (simp add: v kl_get_keyed key_piece_def as_group_def)
  next
    case (3 x y zs)
    then show ?thesis using assms g by (auto simp: v kl_get_keyed key_piece_def as_group_def)
  qed
qed

lemma piece_spread:
  assumes "key_piece s p key v"
  shows "\<forall>x \<in> set (spread v). elementKey s x p = Some key"
    "(if spread v = [] then JMissing else as_group (spread v)) = v"
  using assms elementKey_obj [of s v p key]
  by (auto simp: key_piece_def spread_def as_group_def Suc_le_length_iff numeral_2_eq_2 split: jval.splits)

text \<open>A list put together from the pieces of distinct keys has these pieces.\<close>

lemma group_of_concat:
  assumes "distinct keys" "\<And>key. key \<in> set keys \<Longrightarrow> \<forall>x \<in> set (F key). elementKey s x p = Some key"
  shows "group_of s p k (concat (map F keys)) = (if k \<in> set keys then F k else [])"
  using assms
proof (induction keys)
  case (Cons key keys)
  have a: "filter (\<lambda>x. elementKey s x p = Some k) (F key) = (if k = key then F key else [])"
    using Cons.prems(2) [of key] by (auto simp: filter_id_conv filter_empty_conv)
  then show ?case using Cons by (auto simp: group_of_def)
qed (simp add: group_of_def)

lemma keyed_pieces:
  assumes "distinct keys" "\<And>key. key \<in> set keys \<Longrightarrow> key_piece s p key (F key)"
  obtains k where "keyed s (JList (concat (map (\<lambda>key. spread (F key)) keys))) p = Some k"
    "\<And>key. kl_get k key = (if key \<in> set keys then F key else JMissing)"
proof -
  let ?xs = "concat (map (\<lambda>key. spread (F key)) keys)"
  have sp: "\<forall>x \<in> set (spread (F key)). elementKey s x p = Some key" if "key \<in> set keys" for key
    by (rule piece_spread(1) [OF assms(2) [OF that]])
  then have "all_keyed s p ?xs" by (force simp: all_keyed_def)
  then obtain k where k: "keyed s (JList ?xs) p = Some k" by (simp add: keyed_spec)
  have "kl_get k key = (if key \<in> set keys then F key else JMissing)" for key
  proof -
    have "group_of s p key ?xs = (if key \<in> set keys then spread (F key) else [])"
      by (rule group_of_concat [OF assms(1) sp])
    then show ?thesis using kl_get_keyed [OF k, of key] piece_spread(2) [OF assms(2), of key]
      by (cases "key \<in> set keys"; cases "spread (F key) = []") simp_all
  qed
  with k that show thesis by blast
qed

lemma piece_whole:
  assumes "key_piece s p key l" "key_piece s p key n"
  shows "key_piece s p key (fst (whole s b l n path))"
  using assms by (simp add: whole_def)

lemma merge_same_str: "fst (merge s b (JStr x) (JStr x) path) = JStr x"
  by (subst merge_unfold) auto

text \<open>Merging elements with one key gives an element with that key, or none.\<close>

lemma piece_merge:
  assumes "key_piece s p key l" "key_piece s p key n" "\<not> isGroup l" "\<not> isGroup n"
  shows "key_piece s p key (fst (merge s b l n path))"
proof -
  have lists: "merge_lists s b l n (Pattern path) = None"
    using assms(3) by (cases l) (auto simp: merge_lists_def keyed_def Let_def split: option.splits)
  show ?thesis
  proof (cases "changed s b l n path")
    case False
    then show ?thesis using assms(1,2) by (subst merge_unfold) (auto simp: changed_def)
  next
    case True
    then have g: "\<not> sameAt s path l b" "\<not> (sameAt s path n b \<or> sameAt s path n l)" by (auto simp: changed_def)
    show ?thesis
    proof (cases "merge_objects b l n")
      case None
      then show ?thesis using assms(1) g lists by (subst merge_unfold) simp
    next
      case (Some x)
      then obtain bo lo no where o: "merge_objects b l n = Some (bo, lo, no)" by (cases x) auto
      note eq = merge_objects_eq [OF o]
      obtain pr where pr: "sc_Lists s (p @ ''[]'') = Some pr" "map_of lo pr = Some (JStr key)" "map_of no pr = Some (JStr key)"
        using assms(1,2) eq by (auto simp: key_piece_def elementKey_def split: option.splits jval.splits)
      let ?F = "\<lambda>k. merge s (get bo k) (get lo k) (get no k) (path @ [FieldStep k])"
      have "pr \<in> set (key_union lo no bo)"
        using pr(2) by (force simp: key_union_def dest: map_of_SomeD)
      moreover have "fst (?F pr) = JStr key" using pr by (simp add: get_def merge_same_str)
      ultimately have "map_of (map (\<lambda>(k, v, cs). (k, v)) (filter (\<lambda>(k, v, cs). \<not> IsMissing v)
          (map (\<lambda>k. (k, ?F k)) (key_union lo no bo)))) pr = Some (JStr key)"
        by (simp add: map_of_collect)
      then show ?thesis
        using g o pr(1) by (subst merge_unfold) (simp add: collect_object_def key_piece_def elementKey_def)
    qed
  qed
qed

lemma distinct_order: "keyed s v p = Some k \<Longrightarrow> distinct (kl_order k) \<and> (\<forall>key. key \<in> set (kl_order k) \<longleftrightarrow> kl_byKey k key \<noteq> None)"
  using keyed_list [of s v p k]
  by (auto simp: keyed_spec all_keyed_def group_of_def filter_empty_conv image_iff split: if_splits) force+

lemma list_order_props:
  assumes "keyed s l p = Some kl" "keyed s n p = Some kn"
  shows "distinct (list_order kl kn)" "key \<notin> set (list_order kl kn) \<Longrightarrow> kl_get kl key = JMissing \<and> kl_get kn key = JMissing"
  using distinct_order [OF assms(1)] distinct_order [OF assms(2)]
  by (auto simp: list_order_def kl_get_def)

text \<open>The merged list, read by key.\<close>

lemma merged_list:
  assumes "merge_lists s b l n (Pattern path) = Some (kb, kl, kn)"
  obtains k where "keyed s (fst (collect_list (map (merge_element s kb kl kn path) (list_order kl kn)))) (Pattern path) = Some k"
    "\<And>key. kl_get k key = (if key \<in> set (list_order kl kn) then fst (merge_element s kb kl kn path key) else JMissing)"
proof -
  note k = merge_lists_keyed [OF assms]
  have p: "key_piece s (Pattern path) key (fst (merge_element s kb kl kn path key))" for key
    using piece_kl_get [OF k(1)] piece_kl_get [OF k(2)] by (simp add: merge_element_def piece_whole piece_merge)
  show thesis
  proof (rule keyed_pieces [OF list_order_props(1) [OF k(1,2)]])
    fix k' assume k': "keyed s (JList (concat (map (\<lambda>key. spread (fst (merge_element s kb kl kn path key))) (list_order kl kn)))) (Pattern path) = Some k'"
      "\<And>key. kl_get k' key = (if key \<in> set (list_order kl kn) then fst (merge_element s kb kl kn path key) else JMissing)"
    show thesis by (rule that [OF _ k'(2)]) (use k'(1) in \<open>simp add: collect_list_def comp_def\<close>)
  qed (rule p)
qed

lemma read_list:
  assumes "merge_lists s b l n (Pattern path) = Some (kb, kl, kn)"
  shows "get1 s path l (ElementStep k) = kl_get kl k" "get1 s path n (ElementStep k) = kl_get kn k"
    "get1 s path b (ElementStep k) = kl_get kb k"
    "get1 s path l (FieldStep k) = JMissing" "get1 s path n (FieldStep k) = JMissing"
proof -
  note kk = merge_lists_keyed [OF assms]
  show "get1 s path l (ElementStep k) = kl_get kl k" "get1 s path n (ElementStep k) = kl_get kn k"
    using kk by (simp_all add: get1_element)
  show "get1 s path b (ElementStep k) = kl_get kb k"
    using kk(3) by (cases b) (auto simp: get1_element keyed_spec all_keyed_def group_of_def kl_get_def)
  show "get1 s path l (FieldStep k) = JMissing" "get1 s path n (FieldStep k) = JMissing"
    using keyed_list [OF kk(1)] keyed_list [OF kk(2)] by (auto simp: get1_field)
qed

lemma read_merged_list:
  assumes "merge_lists s b l n (Pattern path) = Some (kb, kl, kn)"
  shows "get1 s path (fst (collect_list (map (merge_element s kb kl kn path) (list_order kl kn)))) (ElementStep k) =
      (if k \<in> set (list_order kl kn) then fst (merge_element s kb kl kn path k) else JMissing)"
    "get1 s path (fst (collect_list (map (merge_element s kb kl kn path) (list_order kl kn)))) (FieldStep k) = JMissing"
  by (rule merged_list [OF assms]; simp add: get1_element) (simp add: get1_field collect_list_def)

section \<open>What the merge keeps\<close>

text \<open>A path built with \<^verbatim>\<open>FieldStep\<close> and \<^verbatim>\<open>ElementStep\<close>.\<close>

definition built :: "path \<Rightarrow> bool" where
  "built q \<longleftrightarrow> (\<forall>st \<in> set q. st = FieldStep (st_Field st) \<or> st = ElementStep (st_Element st))"

lemma built_Cons: "built (st # q) \<longleftrightarrow> ((\<exists>k. st = FieldStep k) \<or> (\<exists>k. st = ElementStep k)) \<and> built q"
  by (auto simp: built_def)

text \<open>
  The merge keeps a side's change: under a path that is in no conflict, where the local side did not change the
  value is that of the other side, and where the other side did not change it is the local one.
\<close>

definition keeps_at :: "schema \<Rightarrow> jval \<Rightarrow> jval \<Rightarrow> jval \<Rightarrow> path \<Rightarrow> jval \<times> value_conflict list \<Rightarrow> path \<Rightarrow> bool" where
  "keeps_at s b l n path r q \<longleftrightarrow>
     ((\<forall>c \<in> set (snd r). \<not> path_within (path @ q) (vc_Path c)) \<longrightarrow>
      sameAt s (path @ q) (GetAt_from s path l q) (GetAt_from s path b q) \<longrightarrow>
      sameAt s (path @ q) (GetAt_from s path (fst r) q) (GetAt_from s path n q)) \<and>
     (sameAt s (path @ q) (GetAt_from s path n q) (GetAt_from s path b q) \<longrightarrow>
      sameAt s (path @ q) (GetAt_from s path (fst r) q) (GetAt_from s path l q))"

definition keeps_sides :: "schema \<Rightarrow> jval \<Rightarrow> jval \<Rightarrow> jval \<Rightarrow> path \<Rightarrow> jval \<times> value_conflict list \<Rightarrow> bool" where
  "keeps_sides s b l n path r \<longleftrightarrow> (wf_json b \<longrightarrow> wf_json l \<longrightarrow> wf_json n \<longrightarrow> (\<forall>q. built q \<longrightarrow> keeps_at s b l n path r q))"

lemma keeps_theirs:
  assumes "schema_ok s" "sameAt s path l b"
  shows "keeps_sides s b l n path (n, [])"
  unfolding keeps_sides_def keeps_at_def using down [OF assms(1) _ _ assms(2)] by (auto simp: sameAt_canon)

lemma keeps_mine:
  assumes "schema_ok s" "sameAt s path n b \<or> sameAt s path n l"
  shows "keeps_sides s b l n path (l, [])"
  using assms(2)
proof
  assume "sameAt s path n b"
  from down [OF assms(1) _ _ this] show ?thesis unfolding keeps_sides_def keeps_at_def by (auto simp: sameAt_canon)
next
  assume "sameAt s path n l"
  from down [OF assms(1) _ _ this] show ?thesis unfolding keeps_sides_def keeps_at_def by (auto simp: sameAt_canon)
qed

lemma path_within_append [simp]: "path_within (p @ q) p"
  by (simp add: path_within_def)

lemma keeps_conflict: "keeps_sides s b l n path (l, [\<lparr>vc_Path = path, vc_Mine = l, vc_Theirs = n\<rparr>])"
  by (simp add: keeps_sides_def keeps_at_def)

lemma keeps_whole:
  assumes "schema_ok s" "IsElement st"
  shows "keeps_sides s b l n (path @ [st]) (whole s b l n (path @ [st]))"
  using keeps_theirs [OF assms(1), of "path @ [st]"] keeps_mine [OF assms(1), of "path @ [st]"] keeps_conflict
  unfolding whole_def sameAt_canon sameElements_canon [OF assms(2)] by auto

lemma keeps_step:
  assumes "keeps_sides s (get1 s path b st) (get1 s path l st) (get1 s path n st) (path @ [st]) (get1 s path v st, cs')"
    "wf_json b" "wf_json l" "wf_json n" "built q" "set cs' \<subseteq> set cs"
  shows "keeps_at s b l n path (v, cs) (st # q)"
  using assms unfolding keeps_sides_def keeps_at_def by (auto simp: GetAt_from_step wf_get1 simp del: GetAt_from.simps)

lemma keeps_none:
  assumes "get1 s path l st = JMissing" "get1 s path n st = JMissing" "get1 s path v st = JMissing"
  shows "keeps_at s b l n path (v, cs) (st # q)"
proof -
  have miss: "GetAt_from s p JMissing q = JMissing" for p q by (cases q) (simp_all add: keyed_def)
  show ?thesis unfolding keeps_at_def by (simp add: GetAt_from_step assms miss del: GetAt_from.simps)
qed

lemma keeps_object:
  assumes "changed s b l n path" "merge_objects b l n = Some (bo, lo, no)"
    and IH: "\<And>k. k \<in> set (key_union lo no bo) \<Longrightarrow> keeps_sides s (get bo k) (get lo k) (get no k) (path @ [FieldStep k])
      (merge s (get bo k) (get lo k) (get no k) (path @ [FieldStep k]))"
  shows "keeps_sides s b l n path (collect_object
    (map (\<lambda>k. (k, merge s (get bo k) (get lo k) (get no k) (path @ [FieldStep k]))) (key_union lo no bo)))"
    (is "keeps_sides s b l n path (collect_object (map (\<lambda>k. (k, ?F k)) ?ks))")
proof -
  let ?r = "collect_object (map (\<lambda>k. (k, ?F k)) ?ks)"
  note g = read_object [OF assms(2), of s path] read_collect [of s path "\<lambda>k. ?F k" ?ks]
  show ?thesis
    unfolding keeps_sides_def
  proof (intro impI allI)
    fix q assume w: "wf_json b" "wf_json l" "wf_json n" "built q"
    show "keeps_at s b l n path ?r q"
    proof (cases q)
      case Nil
      then show ?thesis using assms(1) by (simp add: keeps_at_def changed_def)
    next
      case (Cons st q')
      then have q': "built q'" using w(4) by (simp add: built_Cons)
      consider k where "st = FieldStep k" | k where "st = ElementStep k" using w(4) Cons by (auto simp: built_Cons)
      then show ?thesis
      proof cases
        case (1 k)
        show ?thesis
        proof (cases "k \<in> set ?ks")
          case True
          have "keeps_at s b l n path (fst ?r, snd ?r) (st # q')"
            by (rule keeps_step [where cs' = "snd (?F k)"])
              (use IH [OF True] True w q' in \<open>auto simp: g 1 conflicts_collect\<close>)
          then show ?thesis by (simp add: Cons)
        next
          case False
          then have "keeps_at s b l n path (fst ?r, snd ?r) (st # q')"
            using get_outside [OF False] by (intro keeps_none) (simp_all add: g 1)
          then show ?thesis by (simp add: Cons)
        qed
      next
        case (2 k)
        have "keeps_at s b l n path (fst ?r, snd ?r) (st # q')"
          by (rule keeps_none) (simp_all add: 2 g)
        then show ?thesis by (simp add: Cons)
      qed
    qed
  qed
qed

lemma keeps_list:
  assumes "schema_ok s" "changed s b l n path" "merge_lists s b l n (Pattern path) = Some (kb, kl, kn)"
    and IH: "\<And>key. key \<in> set (list_order kl kn) \<Longrightarrow>
        \<not> (isGroup (kl_get kb key) \<or> isGroup (kl_get kl key) \<or> isGroup (kl_get kn key)) \<Longrightarrow>
        keeps_sides s (kl_get kb key) (kl_get kl key) (kl_get kn key) (path @ [ElementStep key])
          (merge s (kl_get kb key) (kl_get kl key) (kl_get kn key) (path @ [ElementStep key]))"
  shows "keeps_sides s b l n path (collect_list (map (merge_element s kb kl kn path) (list_order kl kn)))"
proof -
  let ?r = "collect_list (map (merge_element s kb kl kn path) (list_order kl kn))"
  note g = read_list [OF assms(3)] read_merged_list [OF assms(3)]
  have el: "keeps_sides s (kl_get kb key) (kl_get kl key) (kl_get kn key) (path @ [ElementStep key]) (merge_element s kb kl kn path key)"
    if "key \<in> set (list_order kl kn)" for key
    using IH [OF that] keeps_whole [OF assms(1)] by (simp add: merge_element_def)
  show ?thesis
    unfolding keeps_sides_def
  proof (intro impI allI)
    fix q assume w: "wf_json b" "wf_json l" "wf_json n" "built q"
    show "keeps_at s b l n path ?r q"
    proof (cases q)
      case Nil
      then show ?thesis using assms(2) by (simp add: keeps_at_def changed_def)
    next
      case (Cons st q')
      then have q': "built q'" using w(4) by (simp add: built_Cons)
      consider k where "st = FieldStep k" | k where "st = ElementStep k" using w(4) Cons by (auto simp: built_Cons)
      then have "keeps_at s b l n path (fst ?r, snd ?r) (st # q')"
      proof cases
        case (1 k)
        show ?thesis by (rule keeps_none) (simp_all add: 1 g)
      next
        case (2 k)
        show ?thesis
        proof (cases "k \<in> set (list_order kl kn)")
          case True
          show ?thesis
            by (rule keeps_step [where cs' = "snd (merge_element s kb kl kn path k)"])
              (use el [OF True] True w q' in \<open>auto simp: g 2 conflicts_list\<close>)
        next
          case False
          then show ?thesis
            using list_order_props(2) [OF merge_lists_keyed(1,2) [OF assms(3)] False]
            by (intro keeps_none) (simp_all add: g 2)
        qed
      qed
      then show ?thesis by (simp add: Cons)
    qed
  qed
qed

lemma merge_keeps:
  assumes "schema_ok s"
  shows "keeps_sides s b l n path (merge s b l n path)"
  by (induction rule: merge_induct)
    (use assms in \<open>auto intro: keeps_theirs keeps_mine keeps_conflict keeps_object keeps_list\<close>)

section \<open>Conflicts\<close>

text \<open>A conflict holds the two sides' values at its path, which differ from each other and from the base, and the
  merged value keeps the local one.\<close>

definition reports :: "schema \<Rightarrow> jval \<Rightarrow> jval \<Rightarrow> jval \<Rightarrow> path \<Rightarrow> jval \<Rightarrow> value_conflict \<Rightarrow> bool" where
  "reports s b l n path v c \<longleftrightarrow>
     (\<exists>q. vc_Path c = path @ q \<and> built q \<and> vc_Mine c = GetAt_from s path l q \<and> vc_Theirs c = GetAt_from s path n q \<and>
        GetAt_from s path v q = vc_Mine c \<and> \<not> sameAt s (path @ q) (vc_Mine c) (vc_Theirs c) \<and>
        \<not> sameAt s (path @ q) (vc_Mine c) (GetAt_from s path b q) \<and>
        \<not> sameAt s (path @ q) (vc_Theirs c) (GetAt_from s path b q))"

lemma reports_here: "changed s b l n path \<Longrightarrow> reports s b l n path l \<lparr>vc_Path = path, vc_Mine = l, vc_Theirs = n\<rparr>"
  unfolding reports_def by (rule exI [of _ "[]"]) (auto simp: changed_def built_def sameAt_canon)

lemma reports_step:
  assumes "reports s (get1 s path b st) (get1 s path l st) (get1 s path n st) (path @ [st]) (get1 s path v st) c"
    "\<exists>k. st = FieldStep k \<or> st = ElementStep k"
  shows "reports s b l n path v c"
proof -
  obtain q where "vc_Path c = (path @ [st]) @ q" "built q"
    "vc_Mine c = GetAt_from s path l (st # q)" "vc_Theirs c = GetAt_from s path n (st # q)"
    "GetAt_from s path v (st # q) = vc_Mine c" "\<not> sameAt s (path @ st # q) (vc_Mine c) (vc_Theirs c)"
    "\<not> sameAt s (path @ st # q) (vc_Mine c) (GetAt_from s path b (st # q))"
    "\<not> sameAt s (path @ st # q) (vc_Theirs c) (GetAt_from s path b (st # q))"
    using assms(1) unfolding reports_def GetAt_from_step by auto
  then show ?thesis unfolding reports_def using assms(2) by (intro exI [of _ "st # q"]) (auto simp: built_Cons)
qed

lemma reports_whole:
  assumes "c \<in> set (snd (whole s b l n (path @ [st])))" "IsElement st"
  shows "reports s b l n (path @ [st]) (fst (whole s b l n (path @ [st]))) c"
  using assms reports_here [of s b l n "path @ [st]"]
  by (auto simp: whole_def changed_def sameElements_canon sameAt_canon split: if_splits)

lemma merge_reports: "\<forall>c \<in> set (snd (merge s b l n path)). reports s b l n path (fst (merge s b l n path)) c"
proof (induct rule: merge_induct [where s = s and P = "\<lambda>b l n path r. \<forall>c \<in> set (snd r). reports s b l n path (fst r) c"])
  case (obj b l n path bo lo no)
  let ?F = "\<lambda>k. merge s (get bo k) (get lo k) (get no k) (path @ [FieldStep k])"
  note g = read_object [OF obj(2), of s path] read_collect [of s path ?F]
  show ?case
  proof
    fix c assume "c \<in> set (snd (collect_object (map (\<lambda>k. (k, ?F k)) (key_union lo no bo))))"
    then obtain k where k: "k \<in> set (key_union lo no bo)" "c \<in> set (snd (?F k))" by (auto simp: conflicts_collect)
    show "reports s b l n path (fst (collect_object (map (\<lambda>k. (k, ?F k)) (key_union lo no bo)))) c"
      by (rule reports_step [of s path _ "FieldStep k"]) (use obj(3) k in \<open>auto simp: g\<close>)
  qed
next
  case (lst b l n path kb kl kn)
  note g = read_list [OF lst(3)] read_merged_list [OF lst(3)]
  show ?case
  proof
    fix c assume "c \<in> set (snd (collect_list (map (merge_element s kb kl kn path) (list_order kl kn))))"
    then obtain k where k: "k \<in> set (list_order kl kn)" "c \<in> set (snd (merge_element s kb kl kn path k))"
      by (auto simp: conflicts_list)
    show "reports s b l n path (fst (collect_list (map (merge_element s kb kl kn path) (list_order kl kn)))) c"
      by (rule reports_step [of s path _ "ElementStep k"])
        (use lst(4) k reports_whole in \<open>auto simp: g merge_element_def split: if_splits\<close>)
  qed
qed (auto intro: reports_here)

definition swapped :: "value_conflict \<Rightarrow> value_conflict" where
  "swapped c = c\<lparr>vc_Mine := vc_Theirs c, vc_Theirs := vc_Mine c\<rparr>"

lemma whole_swap: "set (snd (whole s b n l path)) = swapped ` set (snd (whole s b l n path))"
  by (auto simp: whole_def sameElements_def swapped_def)

lemma merge_unchanged: "\<not> changed s b l n path \<Longrightarrow> snd (merge s b n l path) = []"
  by (subst merge_unfold) (auto simp: changed_def sameAt_canon)

lemma changed_swap: "changed s b n l path = changed s b l n path"
  by (auto simp: changed_def sameAt_canon)

lemma merge_objects_swap: "merge_objects b n l = map_option (\<lambda>(bo, lo, no). (bo, no, lo)) (merge_objects b l n)"
  by (cases b) (auto simp: merge_objects_def split: option.split)

lemma merge_lists_swap: "merge_lists s b n l p = map_option (\<lambda>(kb, kl, kn). (kb, kn, kl)) (merge_lists s b l n p)"
proof -
  obtain b' where b': "b' = (if IsMissing b then JList [] else b)" by blast
  show ?thesis unfolding merge_lists_def Let_def b' [symmetric] by (simp split: option.split)
qed

lemma set_list_order:
  assumes "keyed s v p = Some k"
  shows "set (list_order k k') = set (kl_order k) \<union> set (kl_order k')"
proof -
  have "kl_byKey k key = None \<longleftrightarrow> key \<notin> set (kl_order k)" for key using distinct_order [OF assms] by simp
  then show ?thesis by (auto simp: list_order_def)
qed

lemma merge_swap: "set (snd (merge s b n l path)) = swapped ` set (snd (merge s b l n path))"
proof (induct rule: merge_induct [where s = s and P = "\<lambda>b l n path r. set (snd (merge s b n l path)) = swapped ` set (snd r)"])
  case (obj b l n path bo lo no)
  have "merge_objects b n l = Some (bo, no, lo)" using obj(2) by (simp add: merge_objects_swap [of b n l])
  moreover have "set (key_union no lo bo) = set (key_union lo no bo)" by (auto simp: key_union_def)
  moreover have "\<not> sameAt s path n b" "\<not> (sameAt s path l b \<or> sameAt s path l n)"
    using obj(1) by (auto simp: changed_def sameAt_canon)
  ultimately show ?case using obj(3) by (subst merge_unfold) (simp add: conflicts_collect image_UN)
next
  case (lst b l n path kb kl kn)
  note k = merge_lists_keyed [OF lst(3)]
  have o: "merge_objects b n l = None" using lst(2) by (simp add: merge_objects_swap [of b n l])
  have m: "merge_lists s b n l (Pattern path) = Some (kb, kn, kl)"
    using lst(3) by (simp add: merge_lists_swap [of s b n l])
  have "set (list_order kn kl) = set (list_order kl kn)"
    using set_list_order [OF k(1), of kn] set_list_order [OF k(2), of kl] by blast
  moreover have "set (snd (merge_element s kb kn kl path key)) = swapped ` set (snd (merge_element s kb kl kn path key))"
    if key: "key \<in> set (list_order kl kn)" for key
  proof (cases "isGroup (kl_get kb key) \<or> isGroup (kl_get kl key) \<or> isGroup (kl_get kn key)")
    case True
    then have "merge_element s kb kn kl path key = whole s (kl_get kb key) (kl_get kn key) (kl_get kl key) (path @ [ElementStep key])"
      "merge_element s kb kl kn path key = whole s (kl_get kb key) (kl_get kl key) (kl_get kn key) (path @ [ElementStep key])"
      by (auto simp: merge_element_def)
    then show ?thesis by (simp only: whole_swap [of s "kl_get kb key" "kl_get kn key" "kl_get kl key"])
  next
    case False
    then have "merge_element s kb kn kl path key = merge s (kl_get kb key) (kl_get kn key) (kl_get kl key) (path @ [ElementStep key])"
      "merge_element s kb kl kn path key = merge s (kl_get kb key) (kl_get kl key) (kl_get kn key) (path @ [ElementStep key])"
      by (auto simp: merge_element_def)
    then show ?thesis by (simp only: lst(4) [OF key False])
  qed
  moreover have "\<not> sameAt s path n b" "\<not> (sameAt s path l b \<or> sameAt s path l n)"
    using lst(1) by (auto simp: changed_def sameAt_canon)
  ultimately show ?case using o m by (subst merge_unfold) (simp add: conflicts_list image_UN)
next
  case (conflict b l n path)
  have "merge_objects b n l = None" "merge_lists s b n l (Pattern path) = None"
    using conflict(2,3) by (simp_all add: merge_objects_swap [of b n l] merge_lists_swap [of s b n l])
  moreover have "\<not> sameAt s path n b" "\<not> (sameAt s path l b \<or> sameAt s path l n)"
    using conflict(1) by (auto simp: changed_def sameAt_canon)
  ultimately show ?case by (subst merge_unfold) (simp add: swapped_def)
qed (simp_all add: merge_unchanged changed_def)

section \<open>Setting a value\<close>

text \<open>A value can be set at a path through objects and the elements of keyed lists that stand alone under their
  key: the last step may be to any element, given a value with its key, and none is into the key of an element.\<close>

fun settable :: "schema \<Rightarrow> path \<Rightarrow> jval \<Rightarrow> path \<Rightarrow> jval \<Rightarrow> bool" where
  "settable s at' v [] x = True"
| "settable s at' v (st # q) x =
     (if \<not> IsElement st then
        (case object v of None \<Rightarrow> False | Some m \<Rightarrow> settable s (at' @ [st]) (get m (st_Field st)) q x)
      else
        (case keyed s v (Pattern at') of
           None \<Rightarrow> False
         | Some k \<Rightarrow>
             (case q of
                [] \<Rightarrow> key_piece s (Pattern at') (st_Element st) x
              | st2 # _ \<Rightarrow> object (kl_get k (st_Element st)) \<noteq> None \<and> \<not> IsElement st2 \<and>
                  sc_Lists s (Pattern at' @ ''[]'') \<noteq> Some (st_Field st2) \<and>
                  settable s (at' @ [st]) (kl_get k (st_Element st)) q x)))"

lemma setAt_key:
  assumes "elementKey s (JObj m) p = Some key" "\<not> IsElement st" "sc_Lists s (p @ ''[]'') \<noteq> Some (st_Field st)"
  shows "elementKey s (setAt s (JObj m) p' (st # q) x) p = Some key"
proof -
  obtain pr where pr: "sc_Lists s (p @ ''[]'') = Some pr" "map_of m pr = Some (JStr key)" "pr \<noteq> st_Field st"
    using assms(1,3) by (auto simp: elementKey_def split: option.splits jval.splits)
  let ?v = "setAt s (get m (st_Field st)) (field_at p' (st_Field st)) q x"
  have "map_of (if IsMissing ?v then AList.delete (st_Field st) m else AList.update (st_Field st) ?v m) pr = map_of m pr"
    using pr(3) by (simp add: update_conv' delete_conv')
  then show ?thesis using assms(2) pr(1,2) by (simp add: elementKey_def Let_def)
qed

lemma replace_elements_keyed:
  assumes "all_keyed s p xs" "key_piece s p key v"
  obtains ys where "replace_elements s xs p key v = JList ys" "all_keyed s p ys" "group_of s p key ys = spread v"
proof -
  let ?others = "filter (\<lambda>el. elementKey s el p \<noteq> Some key) xs"
  let ?at = "if group_of s p key xs = [] then length ?others else length (takeWhile (\<lambda>el. elementKey s el p \<noteq> Some key) xs)"
  let ?ys = "take ?at ?others @ spread v @ drop ?at ?others"
  note sp = piece_spread(1) [OF assms(2)]
  have o: "elementKey s x p \<noteq> Some key \<and> elementKey s x p \<noteq> None" if "x \<in> set (take k ?others) \<union> set (drop k ?others)" for x k
    using that assms(1) by (auto simp: all_keyed_def dest: in_set_takeD in_set_dropD)
  have all: "all_keyed s p (take k ?others @ spread v @ drop k ?others)" for k
    unfolding all_keyed_def
  proof
    fix x assume "x \<in> set (take k ?others @ spread v @ drop k ?others)"
    then consider "x \<in> set (take k ?others) \<union> set (drop k ?others)" | "x \<in> set (spread v)" by auto
    then show "elementKey s x p \<noteq> None" by cases (use o [of x k] sp in auto)
  qed
  have grp: "group_of s p key (take k ?others @ spread v @ drop k ?others) = spread v" for k
  proof -
    have "filter (\<lambda>x. elementKey s x p = Some key) (take k ?others) = []"
      "filter (\<lambda>x. elementKey s x p = Some key) (drop k ?others) = []"
      unfolding filter_empty_conv using o [of _ k] by blast+
    moreover have "filter (\<lambda>x. elementKey s x p = Some key) (spread v) = spread v" using sp by (simp add: filter_id_conv)
    ultimately show ?thesis by (simp add: group_of_def)
  qed
  show thesis using that [of ?ys] all [of ?at] grp [of ?at] by (simp only: replace_elements_def Let_def)
qed

lemma current_of_kl_get: "keyed s (JList xs) p = Some k \<Longrightarrow> current_of (group_of s p key xs) = kl_get k key"
  by (auto simp: kl_get_keyed current_of_def as_group_def split: list.split)

lemma GetAt_setAt:
  "settable s at' v q x \<Longrightarrow> GetAt_from s at' (setAt s v (Pattern at') q x) q = x"
proof (induction s at' v q x rule: settable.induct)
  case (2 s at' v st q x)
  show ?case
  proof (cases "IsElement st")
    case False
    then obtain m where m: "v = JObj m" "settable s (at' @ [st]) (get m (st_Field st)) q x"
      using 2(3) by (auto split: option.splits)
    have IH: "GetAt_from s (at' @ [st]) (setAt s (get m (st_Field st)) (field_at (Pattern at') (st_Field st)) q x) q = x"
      using 2(1) [OF False _ m(2)] m(1) by (simp add: Pattern_field [OF False])
    let ?v = "setAt s (get m (st_Field st)) (field_at (Pattern at') (st_Field st)) q x"
    have "get (if IsMissing ?v then AList.delete (st_Field st) m else AList.update (st_Field st) ?v m) (st_Field st) = ?v"
      by (cases ?v) (simp_all add: get_def delete_conv' update_conv')
    then show ?thesis using IH False m(1) by (simp add: Let_def)
  next
    case True
    then obtain k where k: "keyed s v (Pattern at') = Some k" using 2(3) by (auto split: option.splits)
    obtain xs where xs: "v = JList xs" using keyed_list [OF k] by blast
    let ?key = "st_Element st" let ?P = "Pattern at'"
    let ?v = "setAt s (kl_get k ?key) (?P @ ''[]'') q x"
    have all: "all_keyed s ?P xs" using k xs by (simp add: keyed_spec split: if_splits)
    have step: "setAt s v ?P (st # q) x = replace_elements s xs ?P ?key ?v"
      using True k by (simp add: xs current_of_kl_get)
    have p: "key_piece s ?P ?key ?v"
    proof (cases q)
      case Nil
      then show ?thesis using 2(3) True k by simp
    next
      case (Cons st2 q2)
      then obtain m where m: "kl_get k ?key = JObj m" "\<not> IsElement st2" "sc_Lists s (?P @ ''[]'') \<noteq> Some (st_Field st2)"
        using 2(3) True k by auto
      have "elementKey s (JObj m) ?P = Some ?key" using piece_kl_get [OF k, of ?key] m(1) by (simp add: key_piece_def)
      then show ?thesis using setAt_key [OF _ m(2,3)] m(1) Cons by (simp add: key_piece_def del: setAt.simps)
    qed
    have IH: "GetAt_from s (at' @ [st]) ?v q = x"
    proof (cases q)
      case (Cons st2 q2)
      have "settable s (at' @ [st]) (kl_get k ?key) q x" using 2(3) True k Cons by auto
      from 2(2) [OF _ k Cons this] True show ?thesis by (simp add: Pattern_element [OF True])
    qed simp
    obtain ys where ys: "replace_elements s xs ?P ?key ?v = JList ys" "all_keyed s ?P ys" "group_of s ?P ?key ys = spread ?v"
      by (rule replace_elements_keyed [OF all p])
    obtain k' where k': "keyed s (JList ys) ?P = Some k'" using ys(2) by (simp add: keyed_spec)
    have "kl_get k' ?key = ?v" unfolding kl_get_keyed [OF k'] ys(3) by (rule piece_spread(2) [OF p])
    then show ?thesis using step ys(1) k' True IH by simp
  qed
qed simp

section \<open>Properties\<close>

text \<open>The conflicts of a merge. Each holds the values of the two sides at its path, which differ from each other
  and from the base's, and the merged value has the local one there. Merging the other way around finds the same
  conflicts with the sides swapped.\<close>

theorem Merge_conflicts:
  "(\<forall>c \<in> set (snd (Merge s b l n [])).
      vc_Mine c = GetAt s l (vc_Path c) \<and> vc_Theirs c = GetAt s n (vc_Path c) \<and>
      GetAt s (fst (Merge s b l n [])) (vc_Path c) = vc_Mine c \<and>
      \<not> sameAt s (vc_Path c) (vc_Mine c) (vc_Theirs c) \<and>
      \<not> sameAt s (vc_Path c) (vc_Mine c) (GetAt s b (vc_Path c)) \<and>
      \<not> sameAt s (vc_Path c) (vc_Theirs c) (GetAt s b (vc_Path c))) \<and>
   set (snd (Merge s b n l [])) = swapped ` set (snd (Merge s b l n []))"
  using merge_reports [of s b l n "[]"] merge_swap [of s b n l "[]"]
  by (auto simp: Merge_def reports_def GetAt_def)

theorem Merge_conflicts_witness:
  "snd (Merge \<lparr>sc_Lists = Map.empty, sc_Unset = (\<lambda>_. False)\<rparr> (JNum ''1'') (JNum ''2'') (JNum ''3'') []) =
     [\<lparr>vc_Path = [], vc_Mine = JNum ''2'', vc_Theirs = JNum ''3''\<rparr>] \<and>
   GetAt \<lparr>sc_Lists = Map.empty, sc_Unset = (\<lambda>_. False)\<rparr>
     (fst (Merge \<lparr>sc_Lists = Map.empty, sc_Unset = (\<lambda>_. False)\<rparr> (JNum ''1'') (JNum ''2'') (JNum ''3'') [])) [] = JNum ''2''"
proof -
  let ?s = "\<lparr>sc_Lists = Map.empty, sc_Unset = (\<lambda>_. False)\<rparr>"
  have m: "snd (Merge ?s (JNum ''1'') (JNum ''2'') (JNum ''3'') []) = [\<lparr>vc_Path = [], vc_Mine = JNum ''2'', vc_Theirs = JNum ''3''\<rparr>]"
    unfolding Merge_def
    by (subst merge_unfold) (simp add: sameAt_def canonicalAt_def normalize.simps is_zero_def merge_objects_def merge_lists_def keyed_def)
  with Merge_conflicts [of ?s "JNum ''1''" "JNum ''2''" "JNum ''3''"] show ?thesis by simp
qed

end
