(* ===== verification/Workspace_Props.thy ===== *)
theory Workspace_Props
  imports Workspace Merge_Props
begin

text \<open>
  Replaying changes onto another configuration loses none of them, and taking the other side of a conflict puts
  its value in place; a store of workspaces refuses a write made on an older version.
\<close>

section \<open>Snapshots\<close>

text \<open>The items of a snapshot have distinct names and well-formed values.\<close>

definition snapshot_ok :: "snapshot \<Rightarrow> bool" where
  "snapshot_ok s \<longleftrightarrow> distinct (map it_Ref s) \<and> (\<forall>it \<in> set s. wf_json (it_Value it))"

lemma snap_Get_Nil [simp]: "snap_Get [] r = JMissing"
  by (simp add: snap_Get_def)

lemma snap_Get_Cons: "snap_Get (it # s) r = (if it_Ref it = r then it_Value it else snap_Get s r)"
  by (simp add: snap_Get_def)

lemma snap_Get_notin: "r \<notin> it_Ref ` set s \<Longrightarrow> snap_Get s r = JMissing"
  by (induction s) (auto simp: snap_Get_Cons)

lemma snap_Get_append: "snap_Get (s @ t) r = (if r \<in> it_Ref ` set s then snap_Get s r else snap_Get t r)"
  by (induction s) (auto simp: snap_Get_Cons)

lemma snap_Get_in: "distinct (map it_Ref s) \<Longrightarrow> it \<in> set s \<Longrightarrow> snap_Get s (it_Ref it) = it_Value it"
  by (induction s) (auto simp: snap_Get_Cons rev_image_eqI)

lemma wf_snap_Get: "snapshot_ok s \<Longrightarrow> wf_json (snap_Get s r)"
  by (auto simp: snapshot_ok_def snap_Get_def find_Some_iff intro: wf_json.intros split: option.splits)

lemma snap_Index_foldl:
  "foldl (\<lambda>m it. m(it_Ref it \<mapsto> it_Value it)) m s r =
     (if r \<in> it_Ref ` set s then Some (snap_Get (rev s) r) else m r)"
proof (induction s arbitrary: m)
  case (Cons it s)
  then show ?case by (auto simp: snap_Get_append snap_Get_Cons)
qed simp

lemma snap_Get_rev: "distinct (map it_Ref s) \<Longrightarrow> snap_Get (rev s) r = snap_Get s r"
  by (induction s) (auto simp: snap_Get_append snap_Get_Cons snap_Get_notin)

lemma snap_Index: "snapshot_ok s \<Longrightarrow> snap_Index s r = (if r \<in> it_Ref ` set s then Some (snap_Get s r) else None)"
  by (simp add: snap_Index_def snap_Index_foldl snap_Get_rev snapshot_ok_def)

lemma index_at_Get: "snapshot_ok s \<Longrightarrow> index_at (snap_Index s) r = snap_Get s r"
  by (simp add: index_at_def snap_Index snap_Get_notin)

lemma Same_sameAt: "Same s a b \<longleftrightarrow> sameAt s [] a b"
  by (simp add: Same_def Canonical_def sameAt_def)

lemma Changes_none:
  assumes "snapshot_ok a" "snapshot_ok b" "r \<notin> set (Changes s a b)"
  shows "sameAt s [] (snap_Get a r) (snap_Get b r)"
proof (cases "r \<in> it_Ref ` set b")
  case True
  then obtain it where it: "it \<in> set b" "r = it_Ref it" by blast
  have "snap_Get b r = it_Value it" using assms(2) it by (simp add: snapshot_ok_def snap_Get_in)
  with assms(3) it show ?thesis
    by (auto simp: Changes_def Same_sameAt [symmetric] index_at_Get [OF assms(1)])
next
  case False
  then have "r \<notin> it_Ref ` set a" using assms(3) by (auto simp: Changes_def snap_Index [OF assms(2)])
  with False show ?thesis by (simp add: snap_Get_notin)
qed

lemma snap_Get_apply:
  "distinct (map it_Ref s) \<Longrightarrow> r \<in> it_Ref ` set s \<Longrightarrow> snap_Get (concat (map (apply_item vs) s)) r =
     (case vs r of Some v \<Rightarrow> if present_value v then v else JMissing | None \<Rightarrow> snap_Get s r)"
proof (induction s)
  case (Cons it s)
  have "r \<notin> it_Ref ` set (concat (map (apply_item vs) s))" if "r = it_Ref it"
    using Cons.prems(1) that by (auto simp: apply_item_def split: option.splits if_splits)
  then show ?case
    using Cons by (auto simp: snap_Get_append snap_Get_Cons apply_item_def snap_Get_notin split: option.splits if_splits)
qed simp

lemma snap_Get_order:
  "r \<notin> present \<Longrightarrow> snap_Get (apply_order vs order present) r =
     (case vs r of Some v \<Rightarrow> if present_value v \<and> r \<in> set order then v else JMissing | None \<Rightarrow> JMissing)"
  by (induction vs order present rule: apply_order.induct)
    (auto simp: snap_Get_Cons split: option.splits if_splits)

lemma apply_refs: "it_Ref ` set (concat (map (apply_item vs) s)) \<subseteq> it_Ref ` set s"
  by (auto simp: apply_item_def split: option.splits if_splits)

lemma snap_Get_Apply:
  assumes "distinct (map it_Ref s)" "dom vs \<subseteq> set order"
  shows "snap_Get (snap_Apply s vs order) r =
    (case vs r of Some v \<Rightarrow> if present_value v then v else JMissing | None \<Rightarrow> snap_Get s r)"
proof -
  have refs: "it_Ref ` set (apply_order vs order P) \<inter> P = {}" for P
    by (induction vs order P rule: apply_order.induct) (auto split: option.splits)
  show ?thesis
  proof (cases "r \<in> it_Ref ` set s")
    case True
    have "snap_Get (apply_order vs order (it_Ref ` set s)) r = JMissing"
      using True refs [of "it_Ref ` set s"] by (intro snap_Get_notin) blast
    then show ?thesis
      using snap_Get_apply [OF assms(1) True, of vs] snap_Get_notin [of r "concat (map (apply_item vs) s)"]
      by (auto simp: snap_Apply_def snap_Get_append)
  next
    case False
    then have "r \<notin> it_Ref ` set (concat (map (apply_item vs) s))" using apply_refs by blast
    then show ?thesis
      using snap_Get_order [OF False, of vs order] assms(2) snap_Get_notin [OF False]
      by (auto simp: snap_Apply_def snap_Get_append split: option.splits)
  qed
qed

section \<open>Replaying\<close>

definition new_conflicts :: "source \<Rightarrow> bool \<Rightarrow> (nat \<Rightarrow> string) \<Rightarrow> nat \<Rightarrow> ref \<Rightarrow> value_conflict list \<Rightarrow> conflict list" where
  "new_conflicts src pinned newID n r vcs = map (\<lambda>(i, vc). found_conflict src pinned r (newID (n + i)) vc) (enumerate 0 vcs)"

lemma new_conflicts_in: "vc \<in> set vcs \<Longrightarrow>
    \<exists>c \<in> set (new_conflicts src pinned newID n r vcs). cf_Ref c = r \<and> cf_Path c = vc_Path vc"
proof -
  assume "vc \<in> set vcs"
  then obtain i where i: "i < length vcs" "vc = vcs ! i" by (auto simp: in_set_conv_nth)
  then have "(i, vc) \<in> set (enumerate 0 vcs)" by (simp add: in_set_enumerate_eq)
  then have "found_conflict src pinned r (newID (n + i)) vc \<in> set (new_conflicts src pinned newID n r vcs)"
    by (force simp: new_conflicts_def)
  then show ?thesis by (force simp: found_conflict_def)
qed

lemma replay_loop_step:
  "replay_loop s oldAt localAt nextAt src pinned newID (r # rs) vs found =
     (let m = Merge s (oldAt r) (localAt r) (nextAt r) [] in
      replay_loop s oldAt localAt nextAt src pinned newID rs (vs(r \<mapsto> fst m))
        (found @ new_conflicts src pinned newID (length found) r (snd m)))"
  by (simp add: new_conflicts_def Let_def split: prod.split)

lemma replay_loop_values:
  "fst (replay_loop s oldAt localAt nextAt src pinned newID rs vs found) r =
     (if r \<in> set rs then Some (fst (Merge s (oldAt r) (localAt r) (nextAt r) [])) else vs r)"
  by (induction rs arbitrary: vs found) (auto simp: replay_loop_step Let_def simp del: replay_loop.simps(2))

lemma replay_loop_keeps: "set found \<subseteq> set (snd (replay_loop s oldAt localAt nextAt src pinned newID rs vs found))"
proof (induction rs arbitrary: vs found)
  case (Cons r rs)
  let ?m = "Merge s (oldAt r) (localAt r) (nextAt r) []"
  from Cons [of "found @ new_conflicts src pinned newID (length found) r (snd ?m)" "vs(r \<mapsto> fst ?m)"]
  show ?case unfolding replay_loop_step Let_def set_append by blast
qed simp

lemma replay_loop_found:
  "r \<in> set rs \<Longrightarrow> vc \<in> set (snd (Merge s (oldAt r) (localAt r) (nextAt r) [])) \<Longrightarrow>
   \<exists>c \<in> set (snd (replay_loop s oldAt localAt nextAt src pinned newID rs vs found)). cf_Ref c = r \<and> cf_Path c = vc_Path vc"
proof (induction rs arbitrary: vs found)
  case (Cons r' rs)
  let ?m = "Merge s (oldAt r') (localAt r') (nextAt r') []"
  let ?f = "found @ new_conflicts src pinned newID (length found) r' (snd ?m)"
  show ?case
  proof (cases "r = r'")
    case True
    then obtain c where "c \<in> set ?f" "cf_Ref c = r" "cf_Path c = vc_Path vc"
      using new_conflicts_in [of vc "snd ?m"] Cons.prems(2) by fastforce
    then show ?thesis
      using replay_loop_keeps [of ?f s oldAt localAt nextAt src pinned newID rs "vs(r' \<mapsto> fst ?m)"]
      unfolding replay_loop_step Let_def by blast
  next
    case False
    then have "r \<in> set rs" using Cons.prems(1) by simp
    from Cons.IH [OF this Cons.prems(2), of "vs(r' \<mapsto> fst ?m)" ?f] show ?thesis
      unfolding replay_loop_step Let_def .
  qed
qed simp

lemma GetAt_Missing [simp]: "GetAt_from s p JMissing q = JMissing"
  by (cases q) (simp_all add: keyed_def)

lemma null_as_missing:
  assumes "\<not> present_value v"
  shows "sameAt s q (GetAt s v q) (GetAt s JMissing q)"
proof (cases q)
  case Nil
  then show ?thesis
    using assms by (cases v) (auto simp: present_value_def GetAt_def sameAt_def canonicalAt_def normalize.simps is_zero_def Let_def)
next
  case (Cons st q')
  have "GetAt_from s [] v (st # q') = JMissing" using assms by (cases v) (auto simp: present_value_def keyed_def)
  then show ?thesis unfolding Cons GetAt_def GetAt_Missing by simp
qed

text \<open>At an item that is merged the replayed value is the merged one, at any other it is the other side's.\<close>

lemma Replay_item:
  fixes s :: schema
  assumes "snapshot_ok old" "snapshot_ok local" "snapshot_ok nxt"
  defines "m r \<equiv> Merge s (snap_Get old r) (snap_Get local r) (snap_Get nxt r) []"
  shows "r \<notin> set (Changes s old local) \<Longrightarrow> snap_Get (fst (Replay s old local nxt src pinned newID)) r = snap_Get nxt r"
    and "r \<in> set (Changes s old local) \<Longrightarrow> snap_Get (fst (Replay s old local nxt src pinned newID)) r =
      (if present_value (fst (m r)) then fst (m r) else JMissing)"
    and "r \<in> set (Changes s old local) \<Longrightarrow> vc \<in> set (snd (m r)) \<Longrightarrow>
      \<exists>c \<in> set (snd (Replay s old local nxt src pinned newID)). cf_Ref c = r \<and> cf_Path c = vc_Path vc"
proof -
  let ?l = "replay_loop s (index_at (snap_Index old)) (index_at (snap_Index local))
      (index_at (snap_Index nxt)) src pinned newID (Changes s old local) Map.empty []"
  define vs where "vs = fst ?l"
  note idx = index_at_Get [OF assms(1)] index_at_Get [OF assms(2)] index_at_Get [OF assms(3)]
  have val: "vs r = (if r \<in> set (Changes s old local) then Some (fst (m r)) else None)" for r
    by (simp add: vs_def replay_loop_values idx m_def)
  have R: "Replay s old local nxt src pinned newID = (snap_Apply nxt vs (Changes s old local), snd ?l)"
    by (simp add: Replay_def Let_def vs_def split: prod.split)
  have get: "snap_Get (snap_Apply nxt vs (Changes s old local)) r =
      (case vs r of Some v \<Rightarrow> if present_value v then v else JMissing | None \<Rightarrow> snap_Get nxt r)" for r
    by (rule snap_Get_Apply) (use assms(3) val in \<open>auto simp: snapshot_ok_def split: if_splits\<close>)
  show "r \<notin> set (Changes s old local) \<Longrightarrow> snap_Get (fst (Replay s old local nxt src pinned newID)) r = snap_Get nxt r"
    and "r \<in> set (Changes s old local) \<Longrightarrow> snap_Get (fst (Replay s old local nxt src pinned newID)) r =
      (if present_value (fst (m r)) then fst (m r) else JMissing)"
    and "r \<in> set (Changes s old local) \<Longrightarrow> vc \<in> set (snd (m r)) \<Longrightarrow>
      \<exists>c \<in> set (snd (Replay s old local nxt src pinned newID)). cf_Ref c = r \<and> cf_Path c = vc_Path vc"
    using replay_loop_found [of r "Changes s old local" vc s "index_at (snap_Index old)" "index_at (snap_Index local)"
        "index_at (snap_Index nxt)" src pinned newID]
    by (simp_all add: R get val m_def idx)
qed

section \<open>Properties\<close>

definition ex_schema :: schema where
  "ex_schema = \<lparr>sc_Lists = [''fields[]'' \<mapsto> ''name''], sc_Unset = (\<lambda>p. p = ''description'')\<rparr>"

definition ex_wref :: ref where
  "ex_wref = \<lparr>rf_Kind = ''entity'', rf_Key = ''orders''\<rparr>"

definition ex_item :: "string \<Rightarrow> string \<Rightarrow> snapshot" where
  "ex_item m a = [\<lparr>it_Ref = ex_wref, it_Value =
     JObj [(''fields'', JList [JObj [(''name'', JStr ''email''), (''mask'', JStr m), (''alias'', JStr a)]])]\<rparr>]"

lemma not_suffix_twice: "p @ ''[][]'' \<noteq> ''fields[]''"
proof
  assume "p @ ''[][]'' = ''fields[]''"
  then have "rev (p @ ''[][]'') = rev ''fields[]''" by simp
  then show False by simp
qed

lemma ex_schema_ok: "schema_ok ex_schema"
  using not_suffix_twice by (auto simp: schema_ok_def ex_schema_def field_at_def split: if_splits)

lemma ex_item_ok: "snapshot_ok (ex_item m a)"
  by (auto simp: snapshot_ok_def ex_item_def intro!: wf_json.intros)

definition ex_path :: path where
  "ex_path = [FieldStep ''fields'', ElementStep ''email'', FieldStep ''mask'']"

lemma ex_path_built: "built ex_path"
  by (simp add: built_def ex_path_def)

definition ex_source :: source where
  "ex_source = \<lparr>so_Kind = ''published'', so_ID = ''2'', so_By = []\<rparr>"

text \<open>The value of an item at a path.\<close>

definition value_at :: "schema \<Rightarrow> snapshot \<Rightarrow> ref \<Rightarrow> path \<Rightarrow> jval" where
  "value_at s snap r q = GetAt s (snap_Get snap r) q"

text \<open>C28: replaying changes loses none. Replay the changes from \<open>old\<close> to \<open>local\<close> onto \<open>nxt\<close>, and read any value
  of any item of the result, at any path that is in no conflict found. Where \<open>local\<close> did not change the value it is
  that of \<open>nxt\<close>, so what the other side wrote is kept; where \<open>nxt\<close> did not change it, it is that of \<open>local\<close>, in
  conflict or not, so no local change is lost.\<close>

theorem Replay_keeps:
  assumes "schema_ok s" "snapshot_ok old" "snapshot_ok local" "snapshot_ok nxt" "built q"
  shows "((\<forall>c \<in> set (snd (Replay s old local nxt src pinned newID)). cf_Ref c = r \<longrightarrow> \<not> path_within q (cf_Path c)) \<longrightarrow>
      sameAt s q (value_at s local r q) (value_at s old r q) \<longrightarrow>
      sameAt s q (value_at s (fst (Replay s old local nxt src pinned newID)) r q) (value_at s nxt r q)) \<and>
    (sameAt s q (value_at s nxt r q) (value_at s old r q) \<longrightarrow>
      sameAt s q (value_at s (fst (Replay s old local nxt src pinned newID)) r q) (value_at s local r q))"
    (is "(?free \<longrightarrow> _) \<and> _")
proof (cases "r \<in> set (Changes s old local)")
  case False
  have "sameAt s ([] @ q) (GetAt_from s [] (snap_Get old r) q) (GetAt_from s [] (snap_Get local r) q)"
    by (rule down [OF assms(1) wf_snap_Get [OF assms(2)] wf_snap_Get [OF assms(3)] Changes_none [OF assms(2,3) False]])
  then show ?thesis
    using Replay_item(1) [OF assms(2-4) False] by (auto simp: value_at_def GetAt_def sameAt_canon)
next
  case True
  let ?out = "Replay s old local nxt src pinned newID"
  let ?m = "Merge s (snap_Get old r) (snap_Get local r) (snap_Get nxt r) []"
  have k: "keeps_at s (snap_Get old r) (snap_Get local r) (snap_Get nxt r) [] ?m q"
    using merge_keeps [OF assms(1)] wf_snap_Get [OF assms(2)] wf_snap_Get [OF assms(3)] wf_snap_Get [OF assms(4)] assms(5)
    by (simp add: keeps_sides_def Merge_def)
  have v: "sameAt s q (value_at s (fst ?out) r q) (GetAt s (fst ?m) q)"
    using Replay_item(2) [OF assms(2-4) True] null_as_missing [of "fst ?m" s q]
    by (simp add: value_at_def sameAt_sym)
  have c: "\<forall>vc \<in> set (snd ?m). \<not> path_within q (vc_Path vc)" if ?free
    using that Replay_item(3) [OF assms(2-4) True, of _ src pinned newID] by metis
  show ?thesis
    using k v c unfolding keeps_at_def value_at_def GetAt_def append_Nil by (auto simp: sameAt_canon)
qed

theorem Replay_keeps_witness:
  "value_at ex_schema (ex_item ''b'' ''x'') ex_wref ex_path = JStr ''b'' \<and>
   sameAt ex_schema ex_path (value_at ex_schema (fst (Replay ex_schema (ex_item ''a'' ''x'') (ex_item ''b'' ''x'')
     (ex_item ''a'' ''y'') ex_source False (\<lambda>n. ''id''))) ex_wref ex_path) (JStr ''b'')"
proof -
  have v: "value_at ex_schema (ex_item m a) ex_wref ex_path = JStr m" for m a
    by (simp add: value_at_def ex_item_def snap_Get_Cons GetAt_def ex_path_def get_def keyed_spec all_keyed_def
        group_of_def elementKey_def kl_get_def as_group_def Pattern_def patternStep_def ex_schema_def)
  show ?thesis
    using Replay_keeps [OF ex_schema_ok, of "ex_item ''a'' ''x''" "ex_item ''b'' ''x''" "ex_item ''a'' ''y''" ex_path
        ex_source False "\<lambda>n. ''id''" ex_wref] ex_item_ok ex_path_built
    by (simp add: v)
qed

section \<open>Resolving\<close>

lemma chosen_of_View: "chosen_of s now base id' cs None = Some o' \<Longrightarrow> \<exists>c \<in> set cs. cf_ID c = id' \<and> View s now base c = Some o'"
proof -
  have "chosen_of s now base id' cs ch = Some o' \<Longrightarrow> ch = Some o' \<or> (\<exists>c \<in> set cs. cf_ID c = id' \<and> View s now base c = Some o')" for ch
    by (induction cs arbitrary: ch) (auto split: if_splits)
  from this [of None] show "chosen_of s now base id' cs None = Some o' \<Longrightarrow> ?thesis" by simp
qed

lemma snap_Get_With: "snapshot_ok s \<Longrightarrow> snap_Get (snap_With s r v) r' =
    (if r' = r then if present_value v then v else JMissing else snap_Get s r')"
  by (simp add: snap_With_def snapshot_ok_def snap_Get_Apply)

text \<open>Taking the other side of a conflict. Resolving an open conflict for the other side puts that side's value
  where the conflict is, leaves every other item as it is, and leaves only conflicts that were there and are not
  the resolved one; keeping one's own changes no item.\<close>

theorem ws_Resolve_takes:
  assumes "ws_Resolve s now base cs id' theirs = Inr (now', left)" "snapshot_ok now"
    and "chosen_of s now base id' cs None = Some ch"
    and "settable s [] (snap_Get now (cf_Ref (op_Conflict ch))) (cf_Path (op_Conflict ch)) (op_TheirsValue ch)"
  shows "(if theirs
     then sameAt s (cf_Path (op_Conflict ch)) (value_at s now' (cf_Ref (op_Conflict ch)) (cf_Path (op_Conflict ch))) (op_TheirsValue ch) \<and>
       (\<forall>r. r \<noteq> cf_Ref (op_Conflict ch) \<longrightarrow> snap_Get now' r = snap_Get now r)
     else now' = now) \<and> set left \<subseteq> {c \<in> set cs. cf_ID c \<noteq> id'}"
proof -
  let ?c = "op_Conflict ch" let ?item = "snap_Get now (cf_Ref ?c)"
  let ?set = "SetAt s ?item (cf_Path ?c) (op_TheirsValue ch)"
  have left: "set left \<subseteq> {c \<in> set cs. cf_ID c \<noteq> id'}"
    using assms(1,3) by (auto simp: ws_Resolve_def Let_def split: if_splits)
  show ?thesis
  proof (cases theirs)
    case False
    then show ?thesis using left assms(1,3) by (simp add: ws_Resolve_def Let_def)
  next
    case True
    then have now': "now' = snap_With now (cf_Ref ?c) ?set"
      using assms(1,3) by (auto simp: ws_Resolve_def Let_def split: if_splits)
    have "GetAt s ?set (cf_Path ?c) = op_TheirsValue ch"
      using GetAt_setAt [OF assms(4)] by (simp add: GetAt_def SetAt_def)
    then have "sameAt s (cf_Path ?c) (value_at s now' (cf_Ref ?c) (cf_Path ?c)) (op_TheirsValue ch)"
      using null_as_missing [of ?set s "cf_Path ?c"] snap_Get_With [OF assms(2)]
      by (simp add: value_at_def now' sameAt_sym)
    then show ?thesis using True left snap_Get_With [OF assms(2)] by (simp add: now')
  qed
qed

definition ex_conflict :: conflict where
  "ex_conflict = \<lparr>cf_ID = ''c1'', cf_Ref = ex_wref, cf_Path = ex_path, cf_Source = ex_source, cf_Pinned = False,
     cf_Theirs = JNull, cf_TheirsGone = False\<rparr>"

definition ex_open :: open_conflict where
  "ex_open = \<lparr>op_Conflict = ex_conflict, op_Mine = JStr ''b'', op_TheirsValue = JStr ''c''\<rparr>"

lemma ex_chosen: "chosen_of ex_schema (ex_item ''b'' ''x'') (ex_item ''c'' ''x'') ''c1'' [ex_conflict] None = Some ex_open"
  by code_simp

lemma ex_settable: "settable ex_schema [] (snap_Get (ex_item ''b'' ''x'') ex_wref) ex_path (JStr ''c'')"
  by (simp add: ex_item_def snap_Get_Cons ex_path_def get_def keyed_spec all_keyed_def
        group_of_def elementKey_def kl_get_def as_group_def Pattern_def patternStep_def ex_schema_def)

theorem ws_Resolve_takes_witness:
  "\<exists>now' left. ws_Resolve ex_schema (ex_item ''b'' ''x'') (ex_item ''c'' ''x'') [ex_conflict] ''c1'' True = Inr (now', left) \<and>
     sameAt ex_schema ex_path (value_at ex_schema now' ex_wref ex_path) (JStr ''c'') \<and> left = []"
proof -
  have "\<exists>now' left. ws_Resolve ex_schema (ex_item ''b'' ''x'') (ex_item ''c'' ''x'') [ex_conflict] ''c1'' True = Inr (now', left)"
    unfolding ws_Resolve_def ex_chosen by (simp add: ex_open_def ex_conflict_def Let_def)
  then obtain now' left where r: "ws_Resolve ex_schema (ex_item ''b'' ''x'') (ex_item ''c'' ''x'') [ex_conflict] ''c1'' True = Inr (now', left)"
    by blast
  have t: "sameAt ex_schema ex_path (value_at ex_schema now' ex_wref ex_path) (JStr ''c'')"
    "set left \<subseteq> {c \<in> set [ex_conflict]. cf_ID c \<noteq> ''c1''}"
    using ws_Resolve_takes [OF r ex_item_ok ex_chosen] ex_settable by (simp_all add: ex_open_def ex_conflict_def)
  have none: "{c \<in> set [ex_conflict]. cf_ID c \<noteq> ''c1''} = {}" by (auto simp: ex_conflict_def)
  have "set left = {}" using t(2) unfolding none by simp
  then have "left = []" by simp
  with r t(1) show ?thesis by blast
qed

section \<open>The store\<close>

inductive store_step :: "ws_store \<Rightarrow> ws_store \<Rightarrow> bool" where
  "PutWorkspace now w expected entry m = Some (w', m') \<Longrightarrow> store_step m m'"

text \<open>C29: the store serializes the writes of a workspace. In every store that writes lead to, and as long as the
  version does not overflow, the version kept is the number of writes, the log holds one entry for each, numbered
  from 1 in order, and a write made on any other version than the one kept is refused: of two writes based on one
  reading the second fails.\<close>

theorem PutWorkspace_serializes:
  assumes "store_step\<^sup>*\<^sup>* ws_NewMemoryStore m" "int (length (ms_logs m u)) < 2 ^ 63"
  shows "stored_version m u = int (length (ms_logs m u)) \<and>
    map lg_Version (ms_logs m u) = map (\<lambda>i. int i + 1) [0..<length (ms_logs m u)] \<and>
    (w_Username w = u \<longrightarrow> (PutWorkspace now w expected entry m = None \<longleftrightarrow> expected \<noteq> int (length (ms_logs m u))))"
proof -
  have inv: "stored_version m u = int (length (ms_logs m u)) \<and>
      map lg_Version (ms_logs m u) = map (\<lambda>i. int i + 1) [0..<length (ms_logs m u)]"
    using assms
  proof (induction rule: rtranclp_induct)
    case base
    then show ?case by (simp add: ws_NewMemoryStore_def stored_version_def)
  next
    case (step m m')
    from step(2) obtain now w expected entry w' where p: "PutWorkspace now w expected entry m = Some (w', m')"
      by (auto elim: store_step.cases)
    show ?case
    proof (cases "w_Username w = u")
      case False
      then have "ms_logs m' u = ms_logs m u" "ms_ws m' u = ms_ws m u"
        using p by (auto simp: PutWorkspace_def Let_def split: if_splits)
      then show ?thesis using step(3,4) by (simp add: stored_version_def)
    next
      case True
      let ?n = "length (ms_logs m u)"
      have len: "length (ms_logs m' u) = Suc ?n" "stored_version m u = expected"
        using p True by (auto simp: PutWorkspace_def Let_def split: if_splits)
      then have IH: "stored_version m u = int ?n" "map lg_Version (ms_logs m u) = map (\<lambda>i. int i + 1) [0..<?n]"
        using step(3,4) by auto
      have w: "wrap64 (int ?n + 1) = int ?n + 1"
        using step(4) len by (intro wrap64_id) (simp add: is_int64_def)
      have "stored_version m' u = int ?n + 1" "map lg_Version (ms_logs m' u) = map lg_Version (ms_logs m u) @ [int ?n + 1]"
        using p True IH(1) len(2) w by (auto simp: PutWorkspace_def Let_def stored_version_def copyWorkspace_def split: if_splits)
      then show ?thesis using IH(2) len(1) by simp
    qed
  qed
  then show ?thesis by (auto simp: PutWorkspace_def Let_def)
qed

definition ex_workspace :: workspace where
  "ex_workspace = \<lparr>w_Username = ''ann'', w_Base = 1, w_Items = None, w_Conflicts = [], w_Notes = [], w_Taken = [],
     w_Checkpoint = 0, w_CheckpointAt = 0, w_Version = 0, w_UpdatedAt = 0, w_UpdatedBy = ''ann''\<rparr>"

definition ex_entry :: log_entry where
  "ex_entry = \<lparr>lg_Version = 0, lg_At = 0, lg_By = ''ann'', lg_Op = ''edit'', lg_Items = [], lg_Note = []\<rparr>"

theorem PutWorkspace_serializes_witness:
  "\<exists>m. store_step\<^sup>*\<^sup>* ws_NewMemoryStore m \<and> length (ms_logs m ''ann'') = 1 \<and> stored_version m ''ann'' = 1 \<and>
     PutWorkspace 6 ex_workspace 0 ex_entry m = None"
proof -
  obtain w' m where p: "PutWorkspace 5 ex_workspace 0 ex_entry ws_NewMemoryStore = Some (w', m)" "length (ms_logs m ''ann'') = 1"
    by (simp add: PutWorkspace_def stored_version_def ws_NewMemoryStore_def ex_workspace_def Let_def)
  have m: "store_step\<^sup>*\<^sup>* ws_NewMemoryStore m" using store_step.intros [OF p(1)] by simp
  from PutWorkspace_serializes [OF m, of "''ann''" ex_workspace 6 0 ex_entry] p(2) m show ?thesis
    by (auto simp: ex_workspace_def)
qed

end
