(* ===== verification/Semaphore.thy ===== *)
theory Semaphore
  imports Prelude
begin

text \<open>
  The semaphore of \<^verbatim>\<open>core/bus/semaphore.go\<close>: slots whose number can change, granted in arrival order. A waiter is
  the channel it waits on, here a number; the channels an operation closes are part of its result. \<^verbatim>\<open>Acquire\<close> is
  two operations under the lock, entering, and leaving when the context ends, with the wait for the channel in
  between; every operation holds the lock, so they interleave as whole steps.
\<close>

record semaphore =
  sm_size :: int
  sm_used :: int
  sm_waiters :: "nat list"

definition NewSemaphore :: "int \<Rightarrow> semaphore" where
  "NewSemaphore n = \<lparr>sm_size = n, sm_used = 0, sm_waiters = []\<rparr>"

function sem_grantLocked :: "semaphore \<Rightarrow> semaphore \<times> nat list" where
  "sem_grantLocked s =
     (if sm_used s < sm_size s \<and> length (sm_waiters s) > 0
      then let (s', cs) = sem_grantLocked (s\<lparr>sm_used := sm_used s + 1, sm_waiters := tl (sm_waiters s)\<rparr>)
           in (s', hd (sm_waiters s) # cs)
      else (s, []))"
  by auto

termination
  by (relation "measure (\<lambda>s. length (sm_waiters s))") auto

declare sem_grantLocked.simps [simp del]

definition sem_Resize :: "int \<Rightarrow> semaphore \<Rightarrow> semaphore \<times> nat list" where
  "sem_Resize n s = sem_grantLocked (s\<lparr>sm_size := n\<rparr>)"

definition sem_TryAcquire :: "semaphore \<Rightarrow> bool \<times> semaphore" where
  "sem_TryAcquire s =
     (if sm_used s < sm_size s \<and> length (sm_waiters s) = 0 then (True, s\<lparr>sm_used := sm_used s + 1\<rparr>) else (False, s))"

text \<open>Entering takes a slot at once or queues the new channel.\<close>

definition sem_Acquire_enter :: "nat \<Rightarrow> semaphore \<Rightarrow> bool \<times> semaphore" where
  "sem_Acquire_enter granted s =
     (if sm_used s < sm_size s \<and> length (sm_waiters s) = 0 then (True, s\<lparr>sm_used := sm_used s + 1\<rparr>)
      else (False, s\<lparr>sm_waiters := sm_waiters s @ [granted]\<rparr>))"

text \<open>Leaving as the context ends: out of the queue, or, when the slot was granted meanwhile, handing it back.\<close>

definition sem_Acquire_leave :: "nat \<Rightarrow> semaphore \<Rightarrow> semaphore \<times> nat list" where
  "sem_Acquire_leave granted s =
     (if granted \<in> set (sm_waiters s) then (s\<lparr>sm_waiters := remove1 granted (sm_waiters s)\<rparr>, [])
      else sem_grantLocked (s\<lparr>sm_used := sm_used s - 1\<rparr>))"

definition sem_Release :: "semaphore \<Rightarrow> semaphore \<times> nat list" where
  "sem_Release s = sem_grantLocked (s\<lparr>sm_used := sm_used s - 1\<rparr>)"

record slot_stats =
  ss_Size :: int
  ss_Used :: int
  ss_Waiting :: int

definition sem_Stats :: "semaphore \<Rightarrow> slot_stats" where
  "sem_Stats s = \<lparr>ss_Size = sm_size s, ss_Used = sm_used s, ss_Waiting = int (length (sm_waiters s))\<rparr>"

section \<open>Granting\<close>

text \<open>Granting closes the channels of the first waiters, as many as there are slots free and waiters.\<close>

lemma sem_grantLocked_spec:
  "sem_grantLocked s = (s', cs) \<Longrightarrow>
     sm_waiters s = cs @ sm_waiters s' \<and> sm_used s' = sm_used s + int (length cs) \<and> sm_size s' = sm_size s \<and>
     (sm_waiters s' \<noteq> [] \<longrightarrow> sm_size s' \<le> sm_used s') \<and> (cs \<noteq> [] \<longrightarrow> sm_used s' \<le> sm_size s')"
proof (induction s arbitrary: s' cs rule: sem_grantLocked.induct)
  case (1 s)
  let ?s = "s\<lparr>sm_used := sm_used s + 1, sm_waiters := tl (sm_waiters s)\<rparr>"
  show ?case
  proof (cases "sm_used s < sm_size s \<and> length (sm_waiters s) > 0")
    case True
    obtain s'' cl where r: "sem_grantLocked ?s = (s'', cl)" by fastforce
    have eq: "s' = s''" "cs = hd (sm_waiters s) # cl"
      using "1.prems" True r by (simp_all add: sem_grantLocked.simps [of s])
    have "sm_waiters s = hd (sm_waiters s) # tl (sm_waiters s)" using True by (cases "sm_waiters s") auto
    then show ?thesis using "1.IH" [OF True r] True eq by (cases "cl = []") auto
  next
    case False
    then have "s' = s \<and> cs = []" using "1.prems" by (auto simp: sem_grantLocked.simps [of s] split: if_splits)
    then show ?thesis using False by auto
  qed
qed

section \<open>Callers and the semaphore\<close>

text \<open>
  A semaphore with its callers. Every call is a number of its own, also that of its channel: it holds a slot, waits in
  the queue, or is granted, its channel closed and the caller not yet awake. The order in which the calls queued and
  were granted is kept beside, without those that left the queue.
\<close>

record sem_system =
  sys_sem :: semaphore
  sys_holders :: "nat set"
  sys_granted :: "nat set"
  sys_calls :: "nat set"
  sys_queued :: "nat list"
  sys_served :: "nat list"

definition sem_grants :: "semaphore \<times> nat list \<Rightarrow> sem_system \<Rightarrow> sem_system" where
  "sem_grants r S = S\<lparr>sys_sem := fst r, sys_granted := sys_granted S \<union> set (snd r), sys_served := sys_served S @ snd r\<rparr>"

definition takes :: "nat \<Rightarrow> semaphore \<Rightarrow> sem_system \<Rightarrow> sem_system" where
  "takes c s S = S\<lparr>sys_sem := s, sys_holders := insert c (sys_holders S), sys_calls := insert c (sys_calls S)\<rparr>"

inductive sem_step :: "sem_system \<Rightarrow> sem_system \<Rightarrow> bool" where
  resized: "sem_step S (sem_grants (sem_Resize n (sys_sem S)) S)"
| tried: "sem_TryAcquire (sys_sem S) = (True, s) \<Longrightarrow> c \<notin> sys_calls S \<Longrightarrow> sem_step S (takes c s S)"
| entered: "sem_Acquire_enter c (sys_sem S) = (True, s) \<Longrightarrow> c \<notin> sys_calls S \<Longrightarrow> sem_step S (takes c s S)"
| queued: "sem_Acquire_enter c (sys_sem S) = (False, s) \<Longrightarrow> c \<notin> sys_calls S \<Longrightarrow>
     sem_step S (S\<lparr>sys_sem := s, sys_calls := insert c (sys_calls S), sys_queued := sys_queued S @ [c]\<rparr>)"
| woken: "c \<in> sys_granted S \<Longrightarrow>
     sem_step S (S\<lparr>sys_granted := sys_granted S - {c}, sys_holders := insert c (sys_holders S)\<rparr>)"
| left: "c \<in> set (sm_waiters (sys_sem S)) \<Longrightarrow>
     sem_step S (sem_grants (sem_Acquire_leave c (sys_sem S)) (S\<lparr>sys_queued := remove1 c (sys_queued S)\<rparr>))"
| handed_back: "c \<in> sys_granted S \<Longrightarrow>
     sem_step S (sem_grants (sem_Acquire_leave c (sys_sem S)) (S\<lparr>sys_granted := sys_granted S - {c}\<rparr>))"
| released: "c \<in> sys_holders S \<Longrightarrow>
     sem_step S (sem_grants (sem_Release (sys_sem S)) (S\<lparr>sys_holders := sys_holders S - {c}\<rparr>))"

definition sem_start :: "int \<Rightarrow> sem_system" where
  "sem_start n = \<lparr>sys_sem = NewSemaphore n, sys_holders = {}, sys_granted = {}, sys_calls = {}, sys_queued = [],
     sys_served = []\<rparr>"

text \<open>
  What holds at every moment: the slots in use are those held and those granted, the calls are served in the order
  they queued, and nobody waits while a slot is free. The last part is what granting restores.
\<close>

definition sem_owed :: "sem_system \<Rightarrow> semaphore \<Rightarrow> bool" where
  "sem_owed S s \<longleftrightarrow> finite (sys_holders S) \<and> finite (sys_granted S) \<and> sys_holders S \<inter> sys_granted S = {} \<and>
     (sys_holders S \<union> sys_granted S) \<inter> set (sm_waiters s) = {} \<and>
     sys_holders S \<union> sys_granted S \<union> set (sys_queued S) \<subseteq> sys_calls S \<and> distinct (sys_queued S) \<and>
     sm_used s = int (card (sys_holders S)) + int (card (sys_granted S)) \<and>
     sys_queued S = sys_served S @ sm_waiters s"

definition sem_ok :: "sem_system \<Rightarrow> bool" where
  "sem_ok S \<longleftrightarrow> sem_owed S (sys_sem S) \<and>
     (sm_waiters (sys_sem S) \<noteq> [] \<longrightarrow> sm_size (sys_sem S) \<le> sm_used (sys_sem S))"

lemma int_card_insert: "finite A \<Longrightarrow> c \<notin> A \<Longrightarrow> int (card (insert c A)) = int (card A) + 1"
  by simp

lemma int_card_remove: "finite A \<Longrightarrow> c \<in> A \<Longrightarrow> int (card (A - {c})) = int (card A) - 1"
  using card_Suc_Diff1 [of A c] by simp

lemma sem_owed_grants:
  assumes "sem_owed S s"
  shows "sem_ok (sem_grants (sem_grantLocked s) S)"
proof -
  obtain s' cs where g: "sem_grantLocked s = (s', cs)" by fastforce
  note w = sem_grantLocked_spec [OF g]
  have d: "distinct (cs @ sm_waiters s')" using assms w by (auto simp: sem_owed_def)
  have "card (sys_granted S \<union> set cs) = card (sys_granted S) + length cs"
    using assms w d by (subst card_Un_disjoint) (auto simp: sem_owed_def distinct_card)
  then show ?thesis using assms w d by (auto simp: sem_ok_def sem_owed_def sem_grants_def g)
qed

lemma sem_ok_takes:
  assumes "sem_ok S" "c \<notin> sys_calls S" "sm_waiters (sys_sem S) = []"
  shows "sem_ok (takes c ((sys_sem S)\<lparr>sm_used := sm_used (sys_sem S) + 1\<rparr>) S)"
proof -
  have "c \<notin> sys_holders S" "finite (sys_holders S)" using assms by (auto simp: sem_ok_def sem_owed_def)
  from int_card_insert [OF this(2,1)] show ?thesis using assms by (auto simp: sem_ok_def sem_owed_def takes_def)
qed

lemma sem_step_ok:
  assumes "sem_step S S'" "sem_ok S"
  shows "sem_ok S'"
  using assms
proof (induction rule: sem_step.induct)
  case (resized S n)
  then show ?case unfolding sem_Resize_def by (intro sem_owed_grants) (auto simp: sem_owed_def sem_ok_def)
next
  case (tried S s c)
  then show ?case by (auto simp: sem_TryAcquire_def intro: sem_ok_takes split: if_splits)
next
  case (entered c S s)
  then show ?case by (auto simp: sem_Acquire_enter_def intro: sem_ok_takes split: if_splits)
next
  case (queued c S s)
  then show ?case by (auto simp: sem_Acquire_enter_def sem_ok_def sem_owed_def split: if_splits)
next
  case (woken c S)
  then have "c \<notin> sys_holders S" "finite (sys_holders S)" "finite (sys_granted S)" by (auto simp: sem_ok_def sem_owed_def)
  then show ?case
    using woken int_card_insert [of "sys_holders S" c] int_card_remove [of "sys_granted S" c]
    by (auto simp: sem_ok_def sem_owed_def)
next
  case (left c S)
  let ?w = "sm_waiters (sys_sem S)"
  have c: "c \<notin> set (sys_served S)" "distinct ?w" "sys_queued S = sys_served S @ ?w"
    using left by (auto simp: sem_ok_def sem_owed_def)
  have "remove1 c ?w \<noteq> [] \<Longrightarrow> ?w \<noteq> []" by auto
  then show ?case
    using left c by (auto simp: sem_ok_def sem_owed_def sem_Acquire_leave_def sem_grants_def remove1_append)
next
  case (handed_back c S)
  then have "c \<notin> set (sm_waiters (sys_sem S))" by (auto simp: sem_ok_def sem_owed_def)
  moreover have "sem_owed (S\<lparr>sys_granted := sys_granted S - {c}\<rparr>) ((sys_sem S)\<lparr>sm_used := sm_used (sys_sem S) - 1\<rparr>)"
    using handed_back int_card_remove [of "sys_granted S" c] by (auto simp: sem_owed_def sem_ok_def)
  ultimately show ?case by (simp add: sem_Acquire_leave_def sem_owed_grants)
next
  case (released c S)
  then have "sem_owed (S\<lparr>sys_holders := sys_holders S - {c}\<rparr>) ((sys_sem S)\<lparr>sm_used := sm_used (sys_sem S) - 1\<rparr>)"
    using int_card_remove [of "sys_holders S" c] by (auto simp: sem_owed_def sem_ok_def)
  then show ?case by (simp add: sem_Release_def sem_owed_grants)
qed

lemma sem_start_ok: "sem_ok (sem_start n)"
  by (simp add: sem_start_def sem_ok_def sem_owed_def NewSemaphore_def)

interpretation sems: transition_system "\<lambda>S. \<exists>n. S = sem_start n" sem_step sem_ok
  by unfold_locales (auto intro: sem_start_ok sem_step_ok)

lemma sem_reachable_ok: "sem_step\<^sup>*\<^sup>* (sem_start n) S \<Longrightarrow> sem_ok S"
  by (rule sems.reached_ok) blast

lemma grants_within:
  "sm_used (sys_sem (sem_grants (sem_grantLocked s) S)) \<le> max (sm_used s) (sm_size (sys_sem (sem_grants (sem_grantLocked s) S)))"
proof -
  obtain s' cs where g: "sem_grantLocked s = (s', cs)" by fastforce
  show ?thesis using sem_grantLocked_spec [OF g] by (cases "cs = []") (auto simp: sem_grants_def g)
qed

lemma sem_step_within:
  assumes "sem_step S S'"
  shows "sm_used (sys_sem S') \<le> max (sm_used (sys_sem S)) (sm_size (sys_sem S'))"
  using assms
proof cases
  case (resized n)
  then show ?thesis using grants_within [of "(sys_sem S)\<lparr>sm_size := n\<rparr>" S] by (simp add: sem_Resize_def)
next
  case (tried s c)
  then show ?thesis by (auto simp: sem_TryAcquire_def takes_def split: if_splits)
next
  case (entered c s)
  then show ?thesis by (auto simp: sem_Acquire_enter_def takes_def split: if_splits)
next
  case (queued c s)
  then show ?thesis by (auto simp: sem_Acquire_enter_def split: if_splits)
next
  case (woken c)
  then show ?thesis by simp
next
  case (left c)
  then show ?thesis by (auto simp: sem_Acquire_leave_def sem_grants_def)
next
  case (handed_back c)
  then show ?thesis
    using grants_within [of "(sys_sem S)\<lparr>sm_used := sm_used (sys_sem S) - 1\<rparr>" "S\<lparr>sys_granted := sys_granted S - {c}\<rparr>"]
    by (auto simp: sem_Acquire_leave_def sem_grants_def)
next
  case (released c)
  then show ?thesis
    using grants_within [of "(sys_sem S)\<lparr>sm_used := sm_used (sys_sem S) - 1\<rparr>" "S\<lparr>sys_holders := sys_holders S - {c}\<rparr>"]
    by (auto simp: sem_Release_def)
qed

text \<open>In every interleaving of resizes, tries, acquisitions, ends of contexts and releases, the slots in use are
  exactly those held and those granted to a caller not yet awake, so none is lost when a context ends as its slot is
  granted; nobody waits while a slot is free; the calls are granted their slots in the order they queued; and no step
  takes the slots in use past the size, so only a shrink leaves more in use.\<close>

theorem Semaphore_slots:
  assumes "sem_step\<^sup>*\<^sup>* (sem_start n) S" "sem_step S S'"
  shows "ss_Used (sem_Stats (sys_sem S)) = int (card (sys_holders S)) + int (card (sys_granted S)) \<and>
    (ss_Waiting (sem_Stats (sys_sem S)) > 0 \<longrightarrow> ss_Size (sem_Stats (sys_sem S)) \<le> ss_Used (sem_Stats (sys_sem S))) \<and>
    sys_queued S = sys_served S @ sm_waiters (sys_sem S) \<and>
    sm_used (sys_sem S') \<le> max (sm_used (sys_sem S)) (sm_size (sys_sem S'))"
  using sem_reachable_ok [OF assms(1)] sem_step_within [OF assms(2)] by (auto simp: sem_ok_def sem_owed_def sem_Stats_def)

definition ex_sem_one :: sem_system where
  "ex_sem_one = takes 1 (snd (sem_Acquire_enter 1 (NewSemaphore 1))) (sem_start 1)"

definition ex_sem_two :: sem_system where
  "ex_sem_two = ex_sem_one\<lparr>sys_sem := snd (sem_Acquire_enter 2 (sys_sem ex_sem_one)), sys_calls := {2, 1}, sys_queued := [2]\<rparr>"

lemma ex_sem_reached: "sem_step\<^sup>*\<^sup>* (sem_start 1) ex_sem_two"
proof -
  have "sem_step (sem_start 1) ex_sem_one"
    unfolding ex_sem_one_def
    by (rule sem_step.entered) (simp_all add: sem_start_def NewSemaphore_def sem_Acquire_enter_def)
  moreover have "sem_step ex_sem_one (ex_sem_one\<lparr>sys_sem := snd (sem_Acquire_enter 2 (sys_sem ex_sem_one)),
      sys_calls := insert 2 (sys_calls ex_sem_one), sys_queued := sys_queued ex_sem_one @ [2]\<rparr>)"
    by (rule sem_step.queued)
      (simp_all add: ex_sem_one_def takes_def sem_start_def NewSemaphore_def sem_Acquire_enter_def)
  then have "sem_step ex_sem_one ex_sem_two"
    by (simp add: ex_sem_two_def ex_sem_one_def takes_def sem_start_def)
  ultimately show ?thesis by auto
qed

theorem Semaphore_slots_witness:
  "sm_used (sys_sem ex_sem_two) = 1 \<and> sys_queued ex_sem_two = [2] \<and>
   sm_used (sys_sem (sem_grants (sem_Resize 2 (sys_sem ex_sem_two)) ex_sem_two)) \<le> 2"
  using Semaphore_slots [OF ex_sem_reached sem_step.resized [where n = 2]]
  by (simp add: ex_sem_two_def ex_sem_one_def takes_def sem_start_def NewSemaphore_def sem_Acquire_enter_def sem_Resize_def
      sem_grants_def sem_grantLocked.simps sem_Stats_def)

end
