(* ===== verification/Lane.thy ===== *)
theory Lane
  imports Semaphore "HOL-Library.Multiset"
begin

text \<open>
  The bus of \<^verbatim>\<open>core/bus/bus.go\<close> and its lanes, \<^verbatim>\<open>core/bus/lane.go\<close>. The lanes share atomic counters and
  semaphores without a lock of their own, so a method is a program of atomic steps, one per atomic operation of the
  source, in the order of the source: what it reads is the argument of what follows. Any number of programs run
  interleaved. A context may end whenever a program waits for a slot; the error it then returns is \<^verbatim>\<open>ctx.Err()\<close>.
\<close>

section \<open>Buses and lanes\<close>

datatype lane_name = Serve | Admin | Scan | Background

record lane_limits =
  MaxConcurrent :: int
  MaxQueue :: int

record lane =
  ln_slots :: semaphore
  ln_maxQueue :: int
  ln_queued :: int
  ln_ioWait :: int
  ln_inflight :: int
  ln_rejected :: int
  ln_completed :: int

definition lane_update :: "lane_limits \<Rightarrow> lane \<Rightarrow> lane" where
  "lane_update limits l =
     l\<lparr>ln_slots := fst (sem_Resize (max 1 (MaxConcurrent limits)) (ln_slots l)), ln_maxQueue := max 0 (MaxQueue limits)\<rparr>"

definition newLane :: "lane_limits \<Rightarrow> lane" where
  "newLane limits = lane_update limits
     \<lparr>ln_slots = NewSemaphore 0, ln_maxQueue = 0, ln_queued = 0, ln_ioWait = 0, ln_inflight = 0, ln_rejected = 0,
      ln_completed = 0\<rparr>"

record bus =
  bs_ioSlots :: semaphore
  bs_aux :: semaphore
  bs_lanes :: "lane_name \<Rightarrow> lane"
  bs_closed :: bool

fun DefaultLimits :: "lane_name \<Rightarrow> lane_limits" where
  "DefaultLimits Serve = \<lparr>MaxConcurrent = 256, MaxQueue = 0\<rparr>"
| "DefaultLimits Admin = \<lparr>MaxConcurrent = 4, MaxQueue = 16\<rparr>"
| "DefaultLimits Scan = \<lparr>MaxConcurrent = 2, MaxQueue = 8\<rparr>"
| "DefaultLimits Background = \<lparr>MaxConcurrent = 2, MaxQueue = 64\<rparr>"

definition laneLimits :: "lane_name \<Rightarrow> (lane_name \<rightharpoonup> lane_limits) \<Rightarrow> lane_limits" where
  "laneLimits name lims =
     (case lims name of Some l \<Rightarrow> if MaxConcurrent l > 0 then l else DefaultLimits name | None \<Rightarrow> DefaultLimits name)"

definition DefaultIO :: int where
  "DefaultIO = 16"

definition ioSize :: "int \<Rightarrow> int" where
  "ioSize io = (if io \<le> 0 then DefaultIO else io)"

definition resizeIO :: "int \<Rightarrow> bus \<Rightarrow> bus" where
  "resizeIO io b = b\<lparr>bs_ioSlots := fst (sem_Resize (ioSize io) (bs_ioSlots b)),
     bs_aux := fst (sem_Resize (max 1 (ioSize io div 2)) (bs_aux b))\<rparr>"

definition bus_New :: "int \<Rightarrow> (lane_name \<rightharpoonup> lane_limits) \<Rightarrow> bus" where
  "bus_New io lims = resizeIO io
     \<lparr>bs_ioSlots = NewSemaphore 0, bs_aux = NewSemaphore 0, bs_lanes = (\<lambda>name. newLane (laneLimits name lims)),
      bs_closed = False\<rparr>"

section \<open>Programs of atomic steps\<close>

datatype counter = Queued | IoWait | Inflight
datatype tally = Rejected | Completed
datatype sem_key = Slots lane_name | Aux | IOSlots

type_synonym ticket = "lane_name \<times> nat"

datatype outcome = Done | ErrOverloaded | ErrClosed | Canceled | CtxErr

datatype prog =
    PReturn outcome
  | PIsClosed "bool \<Rightarrow> prog"
  | PTryAcquire sem_key "bool \<Rightarrow> prog"
  | PAcquire sem_key "bool \<Rightarrow> prog"
  | PWaiting sem_key "bool \<Rightarrow> prog"
  | PRelease sem_key prog
  | PResize sem_key int prog
  | PAdd lane_name counter int "int \<Rightarrow> prog"
  | PLoad lane_name counter "int \<Rightarrow> prog"
  | PTally lane_name tally prog
  | PMaxQueue lane_name "int \<Rightarrow> prog"
  | PSetMaxQueue lane_name int prog
  | PSize lane_name "int \<Rightarrow> prog"
  | PWork prog
  | PTicket lane_name prog
  | PLeft ticket "bool \<Rightarrow> prog"
  | PSwapLeft ticket "bool \<Rightarrow> prog"
  | PClose prog

text \<open>The methods of a lane, with what runs under the admission, and the release that ends it.\<close>

definition lane_leave :: "lane_name \<Rightarrow> prog" where
  "lane_leave l = PAdd l Inflight (- 1) (\<lambda>_. PTally l Completed (PRelease (Slots l) (PReturn Done)))"

definition TryEnter :: "lane_name \<Rightarrow> prog" where
  "TryEnter l = PIsClosed (\<lambda>c. if c then PReturn ErrClosed else
     PTryAcquire (Slots l) (\<lambda>ok. if \<not> ok then PTally l Rejected (PReturn ErrOverloaded) else
     PAdd l Inflight 1 (\<lambda>_. PWork (lane_leave l))))"

definition io_release :: "bool \<Rightarrow> prog \<Rightarrow> prog" where
  "io_release aux k = PRelease IOSlots (if aux then PRelease Aux k else k)"

definition bus_io :: "bool \<Rightarrow> (bool \<Rightarrow> prog) \<Rightarrow> prog" where
  "bus_io aux k =
     (let io = PAcquire IOSlots (\<lambda>ok. if ok then k True else if aux then PRelease Aux (k False) else k False)
      in if aux then PAcquire Aux (\<lambda>ok. if ok then io else k False) else io)"

definition admit :: "lane_name \<Rightarrow> prog" where
  "admit l = bus_io (l \<noteq> Serve) (\<lambda>ok.
     if ok then PAdd l Inflight 1 (\<lambda>_. PAdd l IoWait (- 1) (\<lambda>_. PWork (io_release (l \<noteq> Serve) (lane_leave l))))
     else PAdd l IoWait (- 1) (\<lambda>_. PRelease (Slots l) (PReturn CtxErr)))"

definition lane_run :: "lane_name \<Rightarrow> bool \<Rightarrow> prog" where
  "lane_run l bounded =
     (let rejected = PAdd l Queued (- 1) (\<lambda>_. PTally l Rejected (PReturn ErrOverloaded));
          waits = PAcquire (Slots l) (\<lambda>ok. if \<not> ok then PAdd l Queued (- 1) (\<lambda>_. PReturn CtxErr)
            else PAdd l IoWait 1 (\<lambda>_. PAdd l Queued (- 1) (\<lambda>_. admit l)))
      in PIsClosed (\<lambda>c. if c then PReturn ErrClosed else
         PTryAcquire (Slots l) (\<lambda>ok. if \<not> ok then
           PAdd l Queued 1 (\<lambda>q. if bounded then PMaxQueue l (\<lambda>m. if q > m then rejected else waits) else waits)
         else PAdd l IoWait 1 (\<lambda>_. admit l))))"

definition lane_Queue :: "lane_name \<Rightarrow> prog" where
  "lane_Queue l = PIsClosed (\<lambda>c. if c then PReturn ErrClosed else
     PSize l (\<lambda>sz. PMaxQueue l (\<lambda>m. PAdd l Queued 1 (\<lambda>q. PLoad l IoWait (\<lambda>w. PLoad l Inflight (\<lambda>f.
       if q + w + f > sz + m then PAdd l Queued (- 1) (\<lambda>_. PTally l Rejected (PReturn ErrOverloaded))
       else PTicket l (PReturn Done)))))))"

definition ticket_leave :: "ticket \<Rightarrow> (bool \<Rightarrow> prog) \<Rightarrow> prog" where
  "ticket_leave t k = PSwapLeft t (\<lambda>ok. if \<not> ok then k False else PAdd (fst t) Queued (- 1) (\<lambda>_. k True))"

definition ticket_Acquire :: "ticket \<Rightarrow> prog" where
  "ticket_Acquire t = PLeft t (\<lambda>left. if left then PReturn Canceled else
     PAcquire (Slots (fst t)) (\<lambda>ok. if \<not> ok then ticket_leave t (\<lambda>_. PReturn CtxErr) else
     PAdd (fst t) IoWait 1 (\<lambda>_. ticket_leave t (\<lambda>ok.
       if \<not> ok then PAdd (fst t) IoWait (- 1) (\<lambda>_. PRelease (Slots (fst t)) (PReturn Canceled))
       else admit (fst t)))))"

definition ticket_Cancel :: "ticket \<Rightarrow> prog" where
  "ticket_Cancel t = ticket_leave t (\<lambda>_. PReturn Done)"

text \<open>The update of a bus goes over its lanes in the order Go's map gives them, the argument \<open>names\<close>.\<close>

fun update_lanes :: "(lane_name \<rightharpoonup> lane_limits) \<Rightarrow> lane_name list \<Rightarrow> prog" where
  "update_lanes lims [] = PReturn Done"
| "update_lanes lims (l # names) = PResize (Slots l) (max 1 (MaxConcurrent (laneLimits l lims)))
     (PSetMaxQueue l (max 0 (MaxQueue (laneLimits l lims))) (update_lanes lims names))"

definition bus_Update :: "int \<Rightarrow> (lane_name \<rightharpoonup> lane_limits) \<Rightarrow> lane_name list \<Rightarrow> prog" where
  "bus_Update io lims names = PResize IOSlots (ioSize io) (PResize Aux (max 1 (ioSize io div 2)) (update_lanes lims names))"

text \<open>
  What draws on the bus's IO semaphore directly, as \<^verbatim>\<open>IO\<close> hands it out: an engine's execution, which takes a slot
  without a lane's and runs under it, and the update of the quota built on it.
\<close>

definition io_end :: prog where
  "io_end = PRelease IOSlots (PReturn Done)"

definition quota_execute :: prog where
  "quota_execute = PAcquire IOSlots (\<lambda>ok. if ok then PWork io_end else PReturn CtxErr)"

definition quota_Update :: "int \<Rightarrow> prog" where
  "quota_Update io = PResize IOSlots io (PReturn Done)"

definition bus_Close :: prog where
  "bus_Close = PClose (PReturn Done)"

section \<open>The steps\<close>

fun get_sem :: "sem_key \<Rightarrow> bus \<Rightarrow> semaphore" where
  "get_sem (Slots l) b = ln_slots (bs_lanes b l)"
| "get_sem Aux b = bs_aux b"
| "get_sem IOSlots b = bs_ioSlots b"

definition put_lane :: "lane_name \<Rightarrow> (lane \<Rightarrow> lane) \<Rightarrow> bus \<Rightarrow> bus" where
  "put_lane l g b = b\<lparr>bs_lanes := (bs_lanes b)(l := g (bs_lanes b l))\<rparr>"

fun put_sem :: "sem_key \<Rightarrow> semaphore \<Rightarrow> bus \<Rightarrow> bus" where
  "put_sem (Slots l) s b = put_lane l (\<lambda>ln. ln\<lparr>ln_slots := s\<rparr>) b"
| "put_sem Aux s b = b\<lparr>bs_aux := s\<rparr>"
| "put_sem IOSlots s b = b\<lparr>bs_ioSlots := s\<rparr>"

fun get_counter :: "lane_name \<Rightarrow> counter \<Rightarrow> bus \<Rightarrow> int" where
  "get_counter l Queued b = ln_queued (bs_lanes b l)"
| "get_counter l IoWait b = ln_ioWait (bs_lanes b l)"
| "get_counter l Inflight b = ln_inflight (bs_lanes b l)"

fun add_counter :: "lane_name \<Rightarrow> counter \<Rightarrow> int \<Rightarrow> bus \<Rightarrow> bus" where
  "add_counter l Queued d b = put_lane l (\<lambda>ln. ln\<lparr>ln_queued := ln_queued ln + d\<rparr>) b"
| "add_counter l IoWait d b = put_lane l (\<lambda>ln. ln\<lparr>ln_ioWait := ln_ioWait ln + d\<rparr>) b"
| "add_counter l Inflight d b = put_lane l (\<lambda>ln. ln\<lparr>ln_inflight := ln_inflight ln + d\<rparr>) b"

fun add_tally :: "lane_name \<Rightarrow> tally \<Rightarrow> bus \<Rightarrow> bus" where
  "add_tally l Rejected b = put_lane l (\<lambda>ln. ln\<lparr>ln_rejected := ln_rejected ln + 1\<rparr>) b"
| "add_tally l Completed b = put_lane l (\<lambda>ln. ln\<lparr>ln_completed := ln_completed ln + 1\<rparr>) b"

text \<open>
  A bus with the programs running on it, each a number of its own, which is also that of the channel it waits on. A
  program whose channel is closed and which is not yet awake is granted. A ticket is its lane with a number of its own.
\<close>

record bus_system =
  by_bus :: bus
  by_progs :: "nat \<rightharpoonup> prog"
  by_tickets :: "ticket \<rightharpoonup> bool"
  by_granted :: "sem_key \<Rightarrow> nat set"

definition goes :: "nat \<Rightarrow> prog \<Rightarrow> bus \<Rightarrow> bus_system \<Rightarrow> bus_system" where
  "goes i p b S = S\<lparr>by_bus := b, by_progs := (by_progs S)(i \<mapsto> p)\<rparr>"

definition gives :: "sem_key \<Rightarrow> nat set \<Rightarrow> semaphore \<times> nat list \<Rightarrow> nat \<Rightarrow> prog \<Rightarrow> bus_system \<Rightarrow> bus_system" where
  "gives k G r i p S = goes i p (put_sem k (fst r) (by_bus S)) S
     \<lparr>by_granted := (by_granted S)(k := (by_granted S k - G) \<union> set (snd r))\<rparr>"

inductive prog_step :: "nat \<Rightarrow> prog \<Rightarrow> bus_system \<Rightarrow> bus_system \<Rightarrow> bool" where
  returns: "prog_step i (PReturn r) S (S\<lparr>by_progs := (by_progs S)(i := None)\<rparr>)"
| is_closed: "prog_step i (PIsClosed f) S (goes i (f (bs_closed (by_bus S))) (by_bus S) S)"
| tries: "sem_TryAcquire (get_sem k (by_bus S)) = (ok, s) \<Longrightarrow>
     prog_step i (PTryAcquire k f) S (goes i (f ok) (put_sem k s (by_bus S)) S)"
| enters: "sem_Acquire_enter i (get_sem k (by_bus S)) = (True, s) \<Longrightarrow>
     prog_step i (PAcquire k f) S (goes i (f True) (put_sem k s (by_bus S)) S)"
| waits: "sem_Acquire_enter i (get_sem k (by_bus S)) = (False, s) \<Longrightarrow>
     prog_step i (PAcquire k f) S (goes i (PWaiting k f) (put_sem k s (by_bus S)) S)"
| wakes: "i \<in> by_granted S k \<Longrightarrow>
     prog_step i (PWaiting k f) S (gives k {i} (get_sem k (by_bus S), []) i (f True) S)"
| ends: "prog_step i (PWaiting k f) S (gives k {i} (sem_Acquire_leave i (get_sem k (by_bus S))) i (f False) S)"
| releases: "prog_step i (PRelease k p) S (gives k {} (sem_Release (get_sem k (by_bus S))) i p S)"
| resizes: "prog_step i (PResize k n p) S (gives k {} (sem_Resize n (get_sem k (by_bus S))) i p S)"
| adds: "prog_step i (PAdd l c d f) S (goes i (f (get_counter l c (by_bus S) + d)) (add_counter l c d (by_bus S)) S)"
| loads: "prog_step i (PLoad l c f) S (goes i (f (get_counter l c (by_bus S))) (by_bus S) S)"
| tallies: "prog_step i (PTally l t p) S (goes i p (add_tally l t (by_bus S)) S)"
| max_queue: "prog_step i (PMaxQueue l f) S (goes i (f (ln_maxQueue (bs_lanes (by_bus S) l))) (by_bus S) S)"
| set_queue: "prog_step i (PSetMaxQueue l n p) S (goes i p (put_lane l (\<lambda>ln. ln\<lparr>ln_maxQueue := n\<rparr>) (by_bus S)) S)"
| sizes: "prog_step i (PSize l f) S (goes i (f (sm_size (get_sem (Slots l) (by_bus S)))) (by_bus S) S)"
| works: "prog_step i (PWork p) S (goes i p (by_bus S) S)"
| makes: "by_tickets S (l, j) = None \<Longrightarrow>
     prog_step i (PTicket l p) S ((goes i p (by_bus S) S)\<lparr>by_tickets := (by_tickets S)((l, j) \<mapsto> False)\<rparr>)"
| is_left: "by_tickets S t = Some b \<Longrightarrow> prog_step i (PLeft t f) S (goes i (f b) (by_bus S) S)"
| swaps: "by_tickets S t = Some b \<Longrightarrow>
     prog_step i (PSwapLeft t f) S ((goes i (f (\<not> b)) (by_bus S) S)\<lparr>by_tickets := (by_tickets S)(t \<mapsto> True)\<rparr>)"
| closes: "prog_step i (PClose p) S (goes i p ((by_bus S)\<lparr>bs_closed := True\<rparr>) S)"

text \<open>The update of the quota is that of a configuration, whose pool is at least one.\<close>

definition methods :: "bus_system \<Rightarrow> prog set" where
  "methods S = range TryEnter \<union> range lane_Queue \<union> range (\<lambda>(l, bounded). lane_run l bounded) \<union>
     ticket_Acquire ` dom (by_tickets S) \<union> ticket_Cancel ` dom (by_tickets S) \<union>
     range (\<lambda>(io, lims, names). bus_Update io lims names) \<union> {bus_Close, quota_execute} \<union>
     quota_Update ` {io. 1 \<le> io}"

inductive bus_step :: "bus_system \<Rightarrow> bus_system \<Rightarrow> bool" where
  called: "by_progs S i = None \<Longrightarrow> p \<in> methods S \<Longrightarrow> bus_step S (S\<lparr>by_progs := (by_progs S)(i \<mapsto> p)\<rparr>)"
| ran: "by_progs S i = Some p \<Longrightarrow> prog_step i p S S' \<Longrightarrow> bus_step S S'"

definition bus_start :: "int \<Rightarrow> (lane_name \<rightharpoonup> lane_limits) \<Rightarrow> bus_system" where
  "bus_start io lims = \<lparr>by_bus = bus_New io lims, by_progs = Map.empty, by_tickets = Map.empty, by_granted = (\<lambda>_. {})\<rparr>"

section \<open>Background tasks\<close>

text \<open>The tasks of a bus, under its mutex: how many of each name run, and the wait group that \<^verbatim>\<open>Close\<close> waits for.\<close>

record bus_tasks =
  tk_closed :: bool
  tk_tasks :: "string \<rightharpoonup> int"
  tk_wg :: int

definition task_count :: "bus_tasks \<Rightarrow> string \<Rightarrow> int" where
  "task_count b name = (case tk_tasks b name of None \<Rightarrow> 0 | Some n \<Rightarrow> n)"

definition bus_enter :: "string \<Rightarrow> bus_tasks \<Rightarrow> bool \<times> bus_tasks" where
  "bus_enter name b =
     (if tk_closed b then (False, b)
      else (True, b\<lparr>tk_tasks := (tk_tasks b)(name \<mapsto> task_count b name + 1), tk_wg := tk_wg b + 1\<rparr>))"

definition bus_exit :: "string \<Rightarrow> bus_tasks \<Rightarrow> bus_tasks" where
  "bus_exit name b =
     (let n = task_count b name - 1
      in b\<lparr>tk_tasks := (if n = 0 then (tk_tasks b)(name := None) else (tk_tasks b)(name \<mapsto> n)), tk_wg := tk_wg b - 1\<rparr>)"

text \<open>\<^verbatim>\<open>Close\<close> marks the bus closed and returns nil once the wait group is at zero.\<close>

definition close_tasks :: "bus_tasks \<Rightarrow> bus_tasks" where
  "close_tasks b = b\<lparr>tk_closed := True\<rparr>"

definition close_done :: "bus_tasks \<Rightarrow> bool" where
  "close_done b = (tk_wg b = 0)"

text \<open>The tasks running, as a multiset of names, and the steps of \<^verbatim>\<open>Go\<close>, of a task that ends and of \<^verbatim>\<open>Close\<close>.\<close>

inductive task_step :: "bus_tasks \<times> string multiset \<Rightarrow> bus_tasks \<times> string multiset \<Rightarrow> bool" where
  started: "bus_enter name b = (True, b') \<Longrightarrow> task_step (b, R) (b', add_mset name R)"
| refused: "bus_enter name b = (False, b') \<Longrightarrow> task_step (b, R) (b', R)"
| ended: "name \<in># R \<Longrightarrow> task_step (b, R) (bus_exit name b, R - {#name#})"
| closing: "task_step (b, R) (close_tasks b, R)"

end
