(* ===== verification/Lane_Laws.thy ===== *)
theory Lane_Laws
  imports Lane
begin

text \<open>
  What the counters and semaphores of a bus count. A program owes what it has yet to undo; a program is proper when it
  owes the same whatever the steps ahead return, never holds an IO slot without an auxiliary slot or one of the serving
  lane unless it is an execution that took it from the IO semaphore itself, and takes its slots in one order. Every method is proper, and every step of a proper program keeps the books.
\<close>

section \<open>What a program owes\<close>

datatype res = Cnt lane_name counter | Slot sem_key

definition one :: "res \<Rightarrow> res \<Rightarrow> int" where
  "one r r' = (if r = r' then 1 else 0)"

primrec owes :: "prog \<Rightarrow> res \<Rightarrow> int" where
  "owes (PReturn x) r = 0"
| "owes (PIsClosed f) r = owes (f False) r"
| "owes (PTryAcquire k f) r = owes (f False) r"
| "owes (PAcquire k f) r = owes (f False) r"
| "owes (PWaiting k f) r = owes (f False) r"
| "owes (PRelease k p) r = owes p r + one (Slot k) r"
| "owes (PResize k n p) r = owes p r"
| "owes (PAdd l c d f) r = owes (f 0) r - d * one (Cnt l c) r"
| "owes (PLoad l c f) r = owes (f 0) r"
| "owes (PTally l t p) r = owes p r"
| "owes (PMaxQueue l f) r = owes (f 0) r"
| "owes (PSetMaxQueue l n p) r = owes p r"
| "owes (PSize l f) r = owes (f 0) r"
| "owes (PWork p) r = owes p r"
| "owes (PTicket l p) r = owes p r + one (Cnt l Queued) r"
| "owes (PLeft t f) r = owes (f False) r"
| "owes (PSwapLeft t f) r = owes (f False) r"
| "owes (PClose p) r = owes p r"

fun steady :: "prog \<Rightarrow> bool" where
  "steady (PIsClosed f) = (\<forall>v r. owes (f v) r = owes (f False) r)"
| "steady (PTryAcquire k f) = (\<forall>r. owes (f True) r = owes (f False) r + one (Slot k) r)"
| "steady (PAcquire k f) = (\<forall>r. owes (f True) r = owes (f False) r + one (Slot k) r)"
| "steady (PWaiting k f) = False"
| "steady (PAdd l c d f) = (\<forall>v r. owes (f v) r = owes (f 0) r)"
| "steady (PLoad l c f) = (\<forall>v r. owes (f v) r = owes (f 0) r)"
| "steady (PMaxQueue l f) = (\<forall>v r. owes (f v) r = owes (f 0) r)"
| "steady (PSize l f) = (\<forall>v r. owes (f v) r = owes (f 0) r)"
| "steady (PLeft t f) = (\<forall>v r. owes (f v) r = owes (f False) r)"
| "steady (PSwapLeft t f) = (\<forall>r. owes (f True) r = owes (f False) r + one (Cnt (fst t) Queued) r)"
| "steady _ = True"

text \<open>The order of the slots: a lane's first, the auxiliary one next, IO last; nothing is waited for under a later one.\<close>

fun ordered :: "prog \<Rightarrow> bool" where
  "ordered (PAcquire (Slots l) f) = (\<forall>k. owes (f False) (Slot k) = 0)"
| "ordered (PAcquire Aux f) = (owes (f False) (Slot Aux) = 0 \<and> owes (f False) (Slot IOSlots) = 0)"
| "ordered (PAcquire IOSlots f) = (owes (f False) (Slot IOSlots) = 0)"
| "ordered (PResize k n p) = (1 \<le> n)"
| "ordered _ = True"

text \<open>An execution with an IO slot taken from the semaphore itself.\<close>

definition executes :: "prog \<Rightarrow> bool" where
  "executes p \<longleftrightarrow> p = PWork io_end \<or> p = io_end"

definition held_ok :: "prog \<Rightarrow> bool" where
  "held_ok p \<longleftrightarrow> (\<forall>r. 0 \<le> owes p r) \<and> (\<forall>l. owes p (Cnt l Inflight) \<le> owes p (Slot (Slots l))) \<and>
     (owes p (Slot IOSlots) \<le> owes p (Slot Aux) + owes p (Slot (Slots Serve)) \<or> executes p)"

fun names_in :: "ticket set \<Rightarrow> prog \<Rightarrow> bool" where
  "names_in T (PLeft t f) = (t \<in> T)"
| "names_in T (PSwapLeft t f) = (t \<in> T)"
| "names_in T _ = True"

definition point_ok :: "ticket set \<Rightarrow> prog \<Rightarrow> bool" where
  "point_ok T p \<longleftrightarrow> steady p \<and> ordered p \<and> held_ok p \<and> names_in T p"

primrec proper_prog :: "ticket set \<Rightarrow> prog \<Rightarrow> bool" where
  "proper_prog T (PReturn x) = point_ok T (PReturn x)"
| "proper_prog T (PIsClosed f) = (point_ok T (PIsClosed f) \<and> (\<forall>v. proper_prog T (f v)))"
| "proper_prog T (PTryAcquire k f) = (point_ok T (PTryAcquire k f) \<and> (\<forall>v. proper_prog T (f v)))"
| "proper_prog T (PAcquire k f) = (point_ok T (PAcquire k f) \<and> (\<forall>v. proper_prog T (f v)))"
| "proper_prog T (PWaiting k f) = (point_ok T (PWaiting k f) \<and> (\<forall>v. proper_prog T (f v)))"
| "proper_prog T (PRelease k p) = (point_ok T (PRelease k p) \<and> proper_prog T p)"
| "proper_prog T (PResize k n p) = (point_ok T (PResize k n p) \<and> proper_prog T p)"
| "proper_prog T (PAdd l c d f) = (point_ok T (PAdd l c d f) \<and> (\<forall>v. proper_prog T (f v)))"
| "proper_prog T (PLoad l c f) = (point_ok T (PLoad l c f) \<and> (\<forall>v. proper_prog T (f v)))"
| "proper_prog T (PTally l t p) = (point_ok T (PTally l t p) \<and> proper_prog T p)"
| "proper_prog T (PMaxQueue l f) = (point_ok T (PMaxQueue l f) \<and> (\<forall>v. proper_prog T (f v)))"
| "proper_prog T (PSetMaxQueue l n p) = (point_ok T (PSetMaxQueue l n p) \<and> proper_prog T p)"
| "proper_prog T (PSize l f) = (point_ok T (PSize l f) \<and> (\<forall>v. proper_prog T (f v)))"
| "proper_prog T (PWork p) = (point_ok T (PWork p) \<and> proper_prog T p)"
| "proper_prog T (PTicket l p) = (point_ok T (PTicket l p) \<and> proper_prog T p)"
| "proper_prog T (PLeft t f) = (point_ok T (PLeft t f) \<and> (\<forall>v. proper_prog T (f v)))"
| "proper_prog T (PSwapLeft t f) = (point_ok T (PSwapLeft t f) \<and> (\<forall>v. proper_prog T (f v)))"
| "proper_prog T (PClose p) = (point_ok T (PClose p) \<and> proper_prog T p)"

lemma proper_point: "proper_prog T p \<Longrightarrow> point_ok T p"
  by (cases p) simp_all

lemma names_in_mono: "names_in T p \<Longrightarrow> T \<subseteq> T' \<Longrightarrow> names_in T' p"
  by (cases "(T, p)" rule: names_in.cases) auto

lemma point_ok_mono: "point_ok T p \<Longrightarrow> T \<subseteq> T' \<Longrightarrow> point_ok T' p"
  using names_in_mono by (auto simp: point_ok_def)

lemma proper_mono: "proper_prog T p \<Longrightarrow> T \<subseteq> T' \<Longrightarrow> proper_prog T' p"
  by (induction p) (auto intro: point_ok_mono)

section \<open>The methods are proper\<close>

lemma res_all: "(\<forall>r. P r) \<longleftrightarrow> (\<forall>l c. P (Cnt l c)) \<and> (\<forall>k. P (Slot k))"
  by (metis res.exhaust)

lemmas point_defs = point_ok_def held_ok_def one_def res_all

lemma lane_leave_owes [simp]: "owes (lane_leave l) r = one (Cnt l Inflight) r + one (Slot (Slots l)) r"
  by (simp add: lane_leave_def)

lemma lane_leave_proper [simp]: "proper_prog T (lane_leave l)"
  by (auto simp: lane_leave_def point_defs)

lemma TryEnter_proper: "proper_prog T (TryEnter l)" "owes (TryEnter l) r = 0"
  by (auto simp: TryEnter_def point_defs)

lemma admit_owes [simp]: "owes (admit l) r = one (Cnt l IoWait) r + one (Slot (Slots l)) r"
  by (simp add: admit_def bus_io_def Let_def one_def)

lemma admit_proper [simp]: "proper_prog T (admit l)"
  by (cases "l = Serve") (auto simp: admit_def bus_io_def io_release_def Let_def point_defs split: if_splits)

lemma lane_run_proper: "proper_prog T (lane_run l bounded)" "owes (lane_run l bounded) r = 0"
  by (auto simp: lane_run_def Let_def point_defs)

lemma lane_Queue_proper: "proper_prog T (lane_Queue l)" "owes (lane_Queue l) r = 0"
  by (auto simp: lane_Queue_def Let_def point_defs)

lemma ticket_Acquire_proper: "t \<in> T \<Longrightarrow> proper_prog T (ticket_Acquire t)" "owes (ticket_Acquire t) r = 0"
  by (auto simp: ticket_Acquire_def ticket_leave_def point_defs)

lemma ticket_Cancel_proper: "t \<in> T \<Longrightarrow> proper_prog T (ticket_Cancel t)" "owes (ticket_Cancel t) r = 0"
  by (auto simp: ticket_Cancel_def ticket_leave_def point_defs)

lemma update_lanes_proper [simp]: "proper_prog T (update_lanes lims names)" "owes (update_lanes lims names) r = 0"
  by (induction names arbitrary: r) (auto simp: point_ok_def held_ok_def)

lemma bus_Update_proper: "proper_prog T (bus_Update io lims names)" "owes (bus_Update io lims names) r = 0"
  by (auto simp: bus_Update_def point_ok_def held_ok_def ioSize_def DefaultIO_def)

lemma bus_Close_proper: "proper_prog T bus_Close" "owes bus_Close r = 0"
  by (auto simp: bus_Close_def point_ok_def held_ok_def)

lemma quota_execute_proper: "proper_prog T quota_execute" "owes quota_execute r = 0"
  by (auto simp: quota_execute_def io_end_def executes_def point_defs)

lemma quota_Update_proper: "1 \<le> io \<Longrightarrow> proper_prog T (quota_Update io)" "owes (quota_Update io) r = 0"
  by (auto simp: quota_Update_def point_ok_def held_ok_def)

lemma methods_proper: "p \<in> methods S \<Longrightarrow> proper_prog (dom (by_tickets S)) p \<and> (\<forall>r. owes p r = 0)"
  unfolding methods_def
  using TryEnter_proper lane_run_proper lane_Queue_proper ticket_Acquire_proper ticket_Cancel_proper bus_Update_proper
    bus_Close_proper quota_execute_proper quota_Update_proper
  by (elim UnE imageE insertE emptyE) (simp_all add: split_beta)

end
