(* ===== verification/Lane_Props.thy ===== *)
theory Lane_Props
  imports Lane_Laws
begin

text \<open>
  The books of a bus: in every reachable state the counters and the slots in use are what the running programs owe, and
  some program can always go on without a context ending.
\<close>

section \<open>One semaphore\<close>

text \<open>A semaphore of which the programs hold \<open>n\<close> slots, the programs \<open>W\<close> wait for one and those of \<open>G\<close> are granted it.\<close>

definition sem_at :: "semaphore \<Rightarrow> int \<Rightarrow> nat set \<Rightarrow> nat set \<Rightarrow> bool" where
  "sem_at s n G W \<longleftrightarrow> finite W \<and> G \<subseteq> W \<and> sm_used s = n + int (card G) \<and> distinct (sm_waiters s) \<and>
     set (sm_waiters s) = W - G \<and> (sm_waiters s \<noteq> [] \<longrightarrow> sm_size s \<le> sm_used s) \<and> 1 \<le> sm_size s"

lemma sem_at_grants:
  assumes g: "sem_grantLocked s = (s', cs)" and "finite W" "G \<subseteq> W" "sm_used s = n + int (card G)"
    and "distinct (sm_waiters s)" "set (sm_waiters s) = W - G" "1 \<le> sm_size s"
  shows "sem_at s' n (G \<union> set cs) W"
proof -
  note w = sem_grantLocked_spec [OF g]
  have d: "distinct (cs @ sm_waiters s')" "set (cs @ sm_waiters s') = W - G" using assms w by auto
  have "finite G" using assms finite_subset by blast
  then have "card (G \<union> set cs) = card G + length cs"
    using d by (subst card_Un_disjoint) (auto simp: distinct_card)
  then show ?thesis using assms w d by (auto simp: sem_at_def)
qed

lemma sem_at_Try:
  assumes "sem_at s n G W" "sem_TryAcquire s = (ok, s')"
  shows "sem_at s' (n + of_bool ok) G W"
  using assms by (auto simp: sem_at_def sem_TryAcquire_def split: if_splits)

lemma sem_at_enter:
  assumes "sem_at s n G W" "sem_Acquire_enter i s = (ok, s')" "i \<notin> W"
  shows "sem_at s' (n + of_bool ok) G (if ok then W else insert i W)"
  using assms by (auto simp: sem_at_def sem_Acquire_enter_def split: if_splits)

lemma sem_at_wake:
  assumes "sem_at s n G W" "i \<in> G"
  shows "sem_at s (n + 1) (G - {i}) (W - {i})"
proof -
  have "finite G" using assms finite_subset by (auto simp: sem_at_def)
  then show ?thesis using assms int_card_remove [of G i] by (auto simp: sem_at_def)
qed

lemma sem_at_leave:
  assumes s: "sem_at s n G W" and i: "i \<in> W"
  shows "sem_at (fst (sem_Acquire_leave i s)) n (G - {i} \<union> set (snd (sem_Acquire_leave i s))) (W - {i})"
proof (cases "i \<in> set (sm_waiters s)")
  case True
  then have "i \<notin> G" using s by (auto simp: sem_at_def)
  moreover have "remove1 i (sm_waiters s) \<noteq> [] \<Longrightarrow> sm_waiters s \<noteq> []" by auto
  ultimately show ?thesis using s True by (auto simp: sem_at_def sem_Acquire_leave_def)
next
  case False
  then have g: "i \<in> G" using s i by (auto simp: sem_at_def)
  have "finite G" using s finite_subset by (auto simp: sem_at_def)
  then have c: "int (card (G - {i})) = int (card G) - 1" using g by (rule int_card_remove)
  obtain s' cs where r: "sem_grantLocked (s\<lparr>sm_used := sm_used s - 1\<rparr>) = (s', cs)" by fastforce
  have "sem_at s' n (G - {i} \<union> set cs) (W - {i})"
    by (rule sem_at_grants [OF r]) (use s c g in \<open>auto simp: sem_at_def\<close>)
  then show ?thesis using False by (simp add: sem_Acquire_leave_def r)
qed

lemma sem_at_Release:
  assumes s: "sem_at s n G W"
  shows "sem_at (fst (sem_Release s)) (n - 1) (G \<union> set (snd (sem_Release s))) W"
proof -
  obtain s' cs where r: "sem_grantLocked (s\<lparr>sm_used := sm_used s - 1\<rparr>) = (s', cs)" by fastforce
  have "sem_at s' (n - 1) (G \<union> set cs) W" by (rule sem_at_grants [OF r]) (use s in \<open>auto simp: sem_at_def\<close>)
  then show ?thesis by (simp add: sem_Release_def r)
qed

lemma sem_at_Resize:
  assumes s: "sem_at s n G W" and m: "1 \<le> m"
  shows "sem_at (fst (sem_Resize m s)) n (G \<union> set (snd (sem_Resize m s))) W"
proof -
  obtain s' cs where r: "sem_grantLocked (s\<lparr>sm_size := m\<rparr>) = (s', cs)" by fastforce
  have "sem_at s' n (G \<union> set cs) W" by (rule sem_at_grants [OF r]) (use s m in \<open>auto simp: sem_at_def\<close>)
  then show ?thesis by (simp add: sem_Resize_def r)
qed

section \<open>The books\<close>

definition owed :: "(nat \<rightharpoonup> prog) \<Rightarrow> res \<Rightarrow> int" where
  "owed ps r = (\<Sum>i\<in>dom ps. owes (the (ps i)) r)"

definition waiting_at :: "(nat \<rightharpoonup> prog) \<Rightarrow> sem_key \<Rightarrow> nat set" where
  "waiting_at ps k = {i. \<exists>f. ps i = Some (PWaiting k f)}"

definition open_tickets :: "(ticket \<rightharpoonup> bool) \<Rightarrow> lane_name \<Rightarrow> ticket set" where
  "open_tickets ts l = {t. ts t = Some False \<and> fst t = l}"

fun entering :: "prog \<Rightarrow> prog" where
  "entering (PWaiting k f) = PAcquire k f"
| "entering p = p"

definition tickets_of :: "(ticket \<rightharpoonup> bool) \<Rightarrow> lane_name \<Rightarrow> counter \<Rightarrow> int" where
  "tickets_of ts l c = (if c = Queued then int (card (open_tickets ts l)) else 0)"

definition books :: "bus_system \<Rightarrow> bool" where
  "books S \<longleftrightarrow> finite (dom (by_progs S)) \<and> finite (dom (by_tickets S)) \<and>
     (\<forall>i p. by_progs S i = Some p \<longrightarrow> proper_prog (dom (by_tickets S)) (entering p)) \<and>
     (\<forall>l c. get_counter l c (by_bus S) = owed (by_progs S) (Cnt l c) + tickets_of (by_tickets S) l c) \<and>
     (\<forall>k. sem_at (get_sem k (by_bus S)) (owed (by_progs S) (Slot k)) (by_granted S k) (waiting_at (by_progs S) k))"

lemma books_proper: "books S \<Longrightarrow> by_progs S i = Some p \<Longrightarrow> proper_prog (dom (by_tickets S)) (entering p)"
  by (simp add: books_def)

lemma books_sem_at:
  "books S \<Longrightarrow> sem_at (get_sem k (by_bus S)) (owed (by_progs S) (Slot k)) (by_granted S k) (waiting_at (by_progs S) k)"
  by (simp add: books_def)

lemma owed_update:
  assumes "ps i = Some p" "finite (dom ps)"
  shows "owed (ps(i \<mapsto> p')) r = owed ps r - owes p r + owes p' r"
proof -
  have i: "i \<in> dom ps" using assms by auto
  have "(\<Sum>j\<in>dom ps - {i}. owes (the ((ps(i \<mapsto> p')) j)) r) = (\<Sum>j\<in>dom ps - {i}. owes (the (ps j)) r)"
    by (rule sum.cong) auto
  then show ?thesis
    using assms sum.remove [OF assms(2) i, of "\<lambda>j. owes (the (ps j)) r"]
      sum.remove [OF assms(2) i, of "\<lambda>j. owes (the ((ps(i \<mapsto> p')) j)) r"]
    by (simp add: owed_def insert_absorb i)
qed

lemma owed_new:
  assumes "ps i = None" "finite (dom ps)"
  shows "owed (ps(i \<mapsto> p)) r = owed ps r + owes p r"
proof -
  have i: "i \<notin> dom ps" using assms by auto
  have "(\<Sum>j\<in>dom ps. owes (the ((ps(i \<mapsto> p)) j)) r) = (\<Sum>j\<in>dom ps. owes (the (ps j)) r)"
    using i by (intro sum.cong) auto
  then show ?thesis using assms i by (simp add: owed_def)
qed

lemma owed_drop:
  assumes "ps i = Some p" "finite (dom ps)"
  shows "owed (ps(i := None)) r = owed ps r - owes p r"
proof -
  have i: "i \<in> dom ps" using assms by auto
  have "(\<Sum>j\<in>dom ps - {i}. owes (the ((ps(i := None)) j)) r) = (\<Sum>j\<in>dom ps - {i}. owes (the (ps j)) r)"
    by (rule sum.cong) auto
  then show ?thesis
    using assms sum.remove [OF assms(2) i, of "\<lambda>j. owes (the (ps j)) r"] by (simp add: owed_def)
qed

lemma waiting_at_update:
  "waiting_at (ps(i \<mapsto> p)) k = (if \<exists>f. p = PWaiting k f then insert i (waiting_at ps k) else waiting_at ps k - {i})"
  by (auto simp: waiting_at_def)

lemma waiting_at_drop: "waiting_at (ps(i := None)) k = waiting_at ps k - {i}"
  by (auto simp: waiting_at_def)

lemma get_put_sem: "get_sem k (put_sem k' s b) = (if k = k' then s else get_sem k b)"
  by (cases k; cases k') (auto simp: put_lane_def)

lemma get_counter_put_sem [simp]: "get_counter l c (put_sem k s b) = get_counter l c b"
  by (cases c; cases k) (auto simp: put_lane_def)

lemma get_counter_add: "get_counter l c (add_counter l' c' d b) = get_counter l c b + d * one (Cnt l' c') (Cnt l c)"
  by (cases c; cases c') (auto simp: put_lane_def one_def)

lemma get_sem_add [simp]: "get_sem k (add_counter l c d b) = get_sem k b"
  by (cases k; cases c) (auto simp: put_lane_def)

lemma get_tally [simp]: "get_sem k (add_tally l t b) = get_sem k b" "get_counter l' c (add_tally l t b) = get_counter l' c b"
  by (cases k; cases t; auto simp: put_lane_def) (cases c; cases t; auto simp: put_lane_def)

lemma get_set_queue [simp]:
  "get_sem k (put_lane l (\<lambda>ln. ln\<lparr>ln_maxQueue := n\<rparr>) b) = get_sem k b"
  "get_counter l' c (put_lane l (\<lambda>ln. ln\<lparr>ln_maxQueue := n\<rparr>) b) = get_counter l' c b"
  by (cases k; auto simp: put_lane_def) (cases c; auto simp: put_lane_def)

lemma get_set_closed [simp]:
  "get_sem k (b\<lparr>bs_closed := x\<rparr>) = get_sem k b" "get_counter l c (b\<lparr>bs_closed := x\<rparr>) = get_counter l c b"
  by (cases k; auto) (cases c; auto)

lemma books_change:
  assumes "books S" "by_progs S i = Some p" "dom (by_tickets S) \<subseteq> dom ts" "finite (dom ts)" "proper_prog (dom ts) (entering p')"
    and "\<And>l c. get_counter l c b + owes p (Cnt l c) + tickets_of (by_tickets S) l c =
        get_counter l c (by_bus S) + owes p' (Cnt l c) + tickets_of ts l c"
    and "\<And>k. sem_at (get_sem k b) (owed (by_progs S) (Slot k) - owes p (Slot k) + owes p' (Slot k)) (G k)
        (waiting_at ((by_progs S)(i \<mapsto> p')) k)"
  shows "books (S\<lparr>by_bus := b, by_progs := (by_progs S)(i \<mapsto> p'), by_tickets := ts, by_granted := G\<rparr>)"
proof -
  have f: "finite (dom (by_progs S))" using assms(1) by (simp add: books_def)
  have "proper_prog (dom ts) (entering q)" if "((by_progs S)(i \<mapsto> p')) j = Some q" for j q
    using that assms(5) proper_mono [OF books_proper [OF assms(1)] assms(3)] by (auto split: if_splits)
  moreover have "get_counter l c b = owed ((by_progs S)(i \<mapsto> p')) (Cnt l c) + tickets_of ts l c" for l c
    using assms(1) assms(6) [of l c] by (simp add: owed_update [OF assms(2) f] books_def)
  moreover have "sem_at (get_sem k b) (owed ((by_progs S)(i \<mapsto> p')) (Slot k)) (G k) (waiting_at ((by_progs S)(i \<mapsto> p')) k)" for k
    using assms(7) by (simp add: owed_update [OF assms(2) f])
  ultimately show ?thesis using f assms(4) by (simp add: books_def)
qed

text \<open>What a step leaves alone of a semaphore, and a step that changes one semaphore only.\<close>

lemma books_sem_same:
  assumes "books S" "by_progs S i = Some p" "\<nexists>f. p = PWaiting k f" "\<nexists>f. p' = PWaiting k f"
    and "owes p' (Slot k) = owes p (Slot k)"
  shows "sem_at (get_sem k (by_bus S)) (owed (by_progs S) (Slot k) - owes p (Slot k) + owes p' (Slot k)) (by_granted S k)
    (waiting_at ((by_progs S)(i \<mapsto> p')) k)"
proof -
  have "i \<notin> waiting_at (by_progs S) k" using assms by (auto simp: waiting_at_def)
  then show ?thesis using assms by (simp add: waiting_at_update books_def)
qed

lemma books_goes:
  assumes "books S" "by_progs S i = Some p" "\<And>k f. p \<noteq> PWaiting k f" "proper_prog (dom (by_tickets S)) p'"
    and "\<And>k. get_sem k b = get_sem k (by_bus S)" "\<And>k. owes p' (Slot k) = owes p (Slot k)"
    and "\<And>l c. get_counter l c b + owes p (Cnt l c) = get_counter l c (by_bus S) + owes p' (Cnt l c)"
  shows "books (goes i p' b S)"
proof -
  have w: "p' \<noteq> PWaiting k f" for k f using proper_point [OF assms(4)] by (auto simp: point_ok_def)
  have e: "entering p' = p'" using w by (cases p') auto
  have f: "finite (dom (by_tickets S))" using assms(1) by (simp add: books_def)
  have "goes i p' b S = S\<lparr>by_bus := b, by_progs := (by_progs S)(i \<mapsto> p'), by_tickets := by_tickets S, by_granted := by_granted S\<rparr>"
    by (simp add: goes_def)
  also have "books \<dots>"
    by (rule books_change [OF assms(1,2)])
      (use assms w e f books_sem_same [OF assms(1,2), of _ p'] in \<open>simp_all\<close>)
  finally show ?thesis .
qed

lemma books_sem:
  assumes "books S" "by_progs S i = Some p" "proper_prog (dom (by_tickets S)) (entering p')"
    and "\<And>k'. k' \<noteq> k \<Longrightarrow> \<nexists>f. p = PWaiting k' f" "\<And>k'. k' \<noteq> k \<Longrightarrow> \<nexists>f. p' = PWaiting k' f"
    and "\<And>k'. k' \<noteq> k \<Longrightarrow> owes p' (Slot k') = owes p (Slot k')" "\<And>l c. owes p' (Cnt l c) = owes p (Cnt l c)"
    and "sem_at s (owed (by_progs S) (Slot k) - owes p (Slot k) + owes p' (Slot k)) G (waiting_at ((by_progs S)(i \<mapsto> p')) k)"
  shows "books (S\<lparr>by_bus := put_sem k s (by_bus S), by_progs := (by_progs S)(i \<mapsto> p'),
    by_granted := (by_granted S)(k := G)\<rparr>)"
proof -
  have f: "finite (dom (by_tickets S))" using assms(1) by (simp add: books_def)
  have "S\<lparr>by_bus := put_sem k s (by_bus S), by_progs := (by_progs S)(i \<mapsto> p'), by_granted := (by_granted S)(k := G)\<rparr> =
      S\<lparr>by_bus := put_sem k s (by_bus S), by_progs := (by_progs S)(i \<mapsto> p'), by_tickets := by_tickets S,
        by_granted := (by_granted S)(k := G)\<rparr>" by simp
  also have "books \<dots>"
    by (rule books_change [OF assms(1,2)])
      (use assms f books_sem_same [OF assms(1,2), of _ p'] in \<open>auto simp: get_put_sem\<close>)
  finally show ?thesis .
qed

text \<open>The same in the shapes of the steps.\<close>

lemma books_sem_goes:
  assumes "books S" "by_progs S i = Some p" "proper_prog (dom (by_tickets S)) (entering p')"
    and "\<And>k' f. p \<noteq> PWaiting k' f" "\<And>k'. k' \<noteq> k \<Longrightarrow> \<nexists>f. p' = PWaiting k' f"
    and "\<And>k'. k' \<noteq> k \<Longrightarrow> owes p' (Slot k') = owes p (Slot k')" "\<And>l c. owes p' (Cnt l c) = owes p (Cnt l c)"
    and "sem_at s (owed (by_progs S) (Slot k) - owes p (Slot k) + owes p' (Slot k)) (by_granted S k)
      (waiting_at ((by_progs S)(i \<mapsto> p')) k)"
  shows "books (goes i p' (put_sem k s (by_bus S)) S)"
  using books_sem [OF assms(1-3) _ assms(5-8)] assms(4) by (simp add: goes_def)

lemma books_gives:
  assumes "books S" "by_progs S i = Some p" "proper_prog (dom (by_tickets S)) p'"
    and "\<And>k'. k' \<noteq> k \<Longrightarrow> \<nexists>f. p = PWaiting k' f"
    and "\<And>k'. k' \<noteq> k \<Longrightarrow> owes p' (Slot k') = owes p (Slot k')" "\<And>l c. owes p' (Cnt l c) = owes p (Cnt l c)"
    and "sem_at (fst r) (owed (by_progs S) (Slot k) - owes p (Slot k) + owes p' (Slot k)) (by_granted S k - G \<union> set (snd r))
      (waiting_at (by_progs S) k - {i})"
  shows "books (gives k G r i p' S)"
proof -
  have w: "p' \<noteq> PWaiting k f" for k f using proper_point [OF assms(3)] by (auto simp: point_ok_def)
  then have e: "entering p' = p'" by (cases p') auto
  have "waiting_at ((by_progs S)(i \<mapsto> p')) k = waiting_at (by_progs S) k - {i}" using w by (simp add: waiting_at_update)
  then show ?thesis
    using books_sem [OF assms(1,2), of p' k "fst r" "by_granted S k - G \<union> set (snd r)"] assms w e
    by (simp add: gives_def goes_def)
qed

section \<open>Every step keeps the books\<close>

lemma open_tickets_finite: "finite (dom ts) \<Longrightarrow> finite (open_tickets ts l)"
  by (rule finite_subset [of _ "dom ts"]) (auto simp: open_tickets_def)

lemma tickets_of_new:
  assumes "ts (l, j) = None" "finite (dom ts)"
  shows "tickets_of (ts((l, j) \<mapsto> False)) l' c = tickets_of ts l' c + one (Cnt l Queued) (Cnt l' c)"
proof -
  have "open_tickets (ts((l, j) \<mapsto> False)) l' = (if l' = l then insert (l, j) (open_tickets ts l') else open_tickets ts l')"
    by (auto simp: open_tickets_def)
  moreover have "(l, j) \<notin> open_tickets ts l" using assms by (simp add: open_tickets_def)
  ultimately show ?thesis using open_tickets_finite [OF assms(2)] by (auto simp: tickets_of_def one_def)
qed

lemma tickets_of_swap:
  assumes "ts t = Some b" "finite (dom ts)"
  shows "tickets_of (ts(t \<mapsto> True)) l c = tickets_of ts l c - of_bool (\<not> b) * one (Cnt (fst t) Queued) (Cnt l c)"
proof (cases b)
  case True
  then have "ts(t \<mapsto> True) = ts" using assms(1) by auto
  then show ?thesis using True by simp
next
  case False
  then have "open_tickets (ts(t \<mapsto> True)) l = (if l = fst t then open_tickets ts l - {t} else open_tickets ts l)"
    using assms by (auto simp: open_tickets_def)
  moreover have "int (card (open_tickets ts (fst t) - {t})) = int (card (open_tickets ts (fst t))) - 1"
    by (rule int_card_remove [OF open_tickets_finite [OF assms(2)]]) (use assms False in \<open>simp add: open_tickets_def\<close>)
  ultimately show ?thesis using False by (auto simp: tickets_of_def one_def)
qed

lemma books_tickets:
  assumes "books S" "by_progs S i = Some p" "\<And>k f. p \<noteq> PWaiting k f" "proper_prog (dom (by_tickets S)) p'"
    and "\<And>k. owes p' (Slot k) = owes p (Slot k)" "dom (by_tickets S) \<subseteq> dom ts" "finite (dom ts)"
    and "\<And>l c. owes p (Cnt l c) + tickets_of (by_tickets S) l c = owes p' (Cnt l c) + tickets_of ts l c"
  shows "books ((goes i p' (by_bus S) S)\<lparr>by_tickets := ts\<rparr>)"
proof -
  have w: "p' \<noteq> PWaiting k f" for k f using proper_point [OF assms(4)] by (auto simp: point_ok_def)
  then have e: "entering p' = p'" by (cases p') auto
  have "(goes i p' (by_bus S) S)\<lparr>by_tickets := ts\<rparr> =
      S\<lparr>by_bus := by_bus S, by_progs := (by_progs S)(i \<mapsto> p'), by_tickets := ts, by_granted := by_granted S\<rparr>"
    by (simp add: goes_def)
  also have "books \<dots>"
    by (rule books_change [OF assms(1,2)])
      (use assms w e proper_mono [OF assms(4,6)] books_sem_same [OF assms(1,2), of _ p'] in \<open>simp_all add: add.assoc\<close>)
  finally show ?thesis .
qed

lemma not_waiting: "by_progs S i = Some p \<Longrightarrow> (\<And>k f. p \<noteq> PWaiting k f) \<Longrightarrow> i \<notin> waiting_at (by_progs S) k"
  by (auto simp: waiting_at_def)

text \<open>What the next program owes, whatever the step returned.\<close>

lemma proper_reads:
  "proper_prog T (PIsClosed f) \<Longrightarrow> proper_prog T (f v) \<and> owes (f v) r = owes (PIsClosed f) r"
  "proper_prog T (PLoad l c g) \<Longrightarrow> proper_prog T (g n) \<and> owes (g n) r = owes (PLoad l c g) r"
  "proper_prog T (PMaxQueue l g) \<Longrightarrow> proper_prog T (g n) \<and> owes (g n) r = owes (PMaxQueue l g) r"
  "proper_prog T (PSize l g) \<Longrightarrow> proper_prog T (g n) \<and> owes (g n) r = owes (PSize l g) r"
  "proper_prog T (PLeft t f) \<Longrightarrow> proper_prog T (f v) \<and> owes (f v) r = owes (PLeft t f) r"
  "proper_prog T (PAdd l c d g) \<Longrightarrow> proper_prog T (g n) \<and> owes (g n) r = owes (PAdd l c d g) r + d * one (Cnt l c) r"
  unfolding proper_prog.simps point_ok_def steady.simps owes.simps by (blast, blast, blast, blast, blast, force)

lemma proper_takes:
  "proper_prog T (PTryAcquire k f) \<Longrightarrow> proper_prog T (f v) \<and> owes (f v) r = owes (PTryAcquire k f) r + of_bool v * one (Slot k) r"
  "proper_prog T (PAcquire k f) \<Longrightarrow> proper_prog T (f v) \<and> owes (f v) r = owes (PAcquire k f) r + of_bool v * one (Slot k) r"
  "proper_prog T (PSwapLeft t f) \<Longrightarrow>
     proper_prog T (f v) \<and> owes (f v) r = owes (PSwapLeft t f) r + of_bool v * one (Cnt (fst t) Queued) r"
  by (cases v; simp add: point_ok_def)+

lemma proper_waiting: "proper_prog T p \<Longrightarrow> p \<noteq> PWaiting k f"
  using proper_point [of T p] by (auto simp: point_ok_def)

lemma proper_entering: "proper_prog T p \<Longrightarrow> entering p = p"
  using proper_waiting [of T p] by (cases p) auto

lemma books_reads:
  assumes "books S" "by_progs S i = Some p" "\<And>k f. p \<noteq> PWaiting k f" "\<And>r. proper_prog (dom (by_tickets S)) p' \<and> owes p' r = owes p r"
  shows "books (goes i p' (by_bus S) S)"
  by (rule books_goes [OF assms(1,2)]) (use assms in auto)

text \<open>A step that takes a slot of \<open>k\<close> when \<open>v\<close>, and one that frees one or resizes.\<close>

lemma books_takes:
  assumes "books S" "by_progs S i = Some p" "\<And>k f. p \<noteq> PWaiting k f"
    and "\<And>r. proper_prog (dom (by_tickets S)) p' \<and> owes p' r = owes p r + of_bool v * one (Slot k) r"
    and "sem_at s (owed (by_progs S) (Slot k) + of_bool v) (by_granted S k) (waiting_at (by_progs S) k)"
  shows "books (goes i p' (put_sem k s (by_bus S)) S)"
proof -
  have n: "i \<notin> waiting_at (by_progs S) k" by (rule not_waiting [OF assms(2,3)])
  have w: "p' \<noteq> PWaiting k f" for k f using assms(4) proper_waiting by blast
  have "entering p' = p'" using assms(4) proper_entering by blast
  then show ?thesis
    using n w assms by (intro books_sem_goes [OF assms(1,2)]) (auto simp: one_def waiting_at_update)
qed

lemma prog_step_books:
  assumes "prog_step i p S S'" "by_progs S i = Some p" "books S"
  shows "books S'"
  using assms
proof (induction rule: prog_step.induct)
  case (returns i r S)
  then have f: "finite (dom (by_progs S))" by (simp add: books_def)
  have "i \<notin> waiting_at (by_progs S) k" for k by (rule not_waiting [OF returns(1)]) simp
  then show ?case
    using returns f by (auto simp: books_def owed_drop [OF returns(1) f] waiting_at_drop split: if_splits)
next
  case (is_closed i f S)
  then show ?case using books_proper [OF is_closed(2,1)] by (intro books_reads [OF is_closed(2,1)]) (simp_all only: entering.simps proper_reads prog.distinct simp_thms)
next
  case (tries k S ok s i f)
  show ?case
    by (rule books_takes [OF tries(3,2)])
      (use books_proper [OF tries(3,2)] sem_at_Try [OF books_sem_at [OF tries(3)] tries(1)] in
        \<open>simp_all only: entering.simps proper_takes prog.distinct simp_thms\<close>)
next
  case (enters i k S s f)
  have n: "i \<notin> waiting_at (by_progs S) k" by (rule not_waiting [OF enters(2)]) simp
  show ?case
    by (rule books_takes [OF enters(3,2), where v = True])
      (use books_proper [OF enters(3,2)] sem_at_enter [OF books_sem_at [OF enters(3)] enters(1) n] in
        \<open>simp_all only: entering.simps proper_takes prog.distinct simp_thms if_True\<close>)
next
  case (waits i k S s f)
  have n: "i \<notin> waiting_at (by_progs S) k" by (rule not_waiting [OF waits(2)]) simp
  show ?case
    by (rule books_sem_goes [OF waits(3,2)])
      (use books_proper [OF waits(3,2)] sem_at_enter [OF books_sem_at [OF waits(3)] waits(1) n] in
        \<open>auto simp: waiting_at_update\<close>)
next
  case (wakes i S k f)
  have p: "proper_prog (dom (by_tickets S)) (PAcquire k f)" using books_proper [OF wakes(3,2)] by simp
  show ?case
    by (rule books_gives [OF wakes(3,2)])
      (use p proper_takes(2) [OF p, of True] sem_at_wake [OF books_sem_at [OF wakes(3)] wakes(1)] in
        \<open>auto simp: one_def\<close>)
next
  case (ends i k f S)
  have p: "proper_prog (dom (by_tickets S)) (PAcquire k f)" using books_proper [OF ends(2,1)] by simp
  have i: "i \<in> waiting_at (by_progs S) k" using ends by (simp add: waiting_at_def)
  show ?case
    by (rule books_gives [OF ends(2,1)])
      (use p proper_takes(2) [OF p, of False] sem_at_leave [OF books_sem_at [OF ends(2)] i] in \<open>auto simp: one_def\<close>)
next
  case (releases i k p S)
  have n: "i \<notin> waiting_at (by_progs S) k" by (rule not_waiting [OF releases(1)]) simp
  show ?case
    by (rule books_gives [OF releases(2,1)])
      (use books_proper [OF releases(2,1)] sem_at_Release [OF books_sem_at [OF releases(2)]] n in \<open>auto simp: one_def\<close>)
next
  case (resizes i k n p S)
  have n: "i \<notin> waiting_at (by_progs S) k" by (rule not_waiting [OF resizes(1)]) simp
  have g: "1 \<le> n" "proper_prog (dom (by_tickets S)) p" using books_proper [OF resizes(2,1)] by (simp_all add: point_ok_def)
  show ?case
    by (rule books_gives [OF resizes(2,1)])
      (use g sem_at_Resize [OF books_sem_at [OF resizes(2)] g(1)] n in \<open>auto simp: one_def\<close>)
next
  case (adds i l c d f S)
  have p: "proper_prog (dom (by_tickets S)) (PAdd l c d f)" using books_proper [OF adds(2,1)] by simp
  have a: "proper_prog (dom (by_tickets S)) (f v)" "owes (f v) r = owes (PAdd l c d f) r + d * one (Cnt l c) r" for v r
    using proper_reads(6) [OF p] by blast+
  show ?case
    by (rule books_goes [OF adds(2,1)]) (simp, rule a(1), simp, unfold a(2), simp add: one_def, simp add: get_counter_add)
next
  case (loads i l c f S)
  then show ?case using books_proper [OF loads(2,1)] by (intro books_reads [OF loads(2,1)]) (simp_all only: entering.simps proper_reads prog.distinct simp_thms)
next
  case (tallies i l t p S)
  then show ?case using books_proper [OF tallies(2,1)] by (intro books_goes [OF tallies(2,1)]) auto
next
  case (max_queue i l f S)
  then show ?case using books_proper [OF max_queue(2,1)] by (intro books_reads [OF max_queue(2,1)]) (simp_all only: entering.simps proper_reads prog.distinct simp_thms)
next
  case (set_queue i l n p S)
  then show ?case using books_proper [OF set_queue(2,1)] by (intro books_goes [OF set_queue(2,1)]) auto
next
  case (sizes i l f S)
  then show ?case using books_proper [OF sizes(2,1)] by (intro books_reads [OF sizes(2,1)]) (simp_all only: entering.simps proper_reads prog.distinct simp_thms)
next
  case (works i p S)
  then show ?case using books_proper [OF works(2,1)] by (intro books_goes [OF works(2,1)]) auto
next
  case (makes S l j i p)
  then have f: "finite (dom (by_tickets S))" by (simp add: books_def)
  show ?case using books_proper [OF makes(3,2)] f
    by (intro books_tickets [OF makes(3,2)]) (auto simp: tickets_of_new [OF makes(1) f] one_def)
next
  case (is_left S t b i f)
  then show ?case using books_proper [OF is_left(3,2)] by (intro books_reads [OF is_left(3,2)]) (simp_all only: entering.simps proper_reads prog.distinct simp_thms)
next
  case (swaps S t b i f)
  then have f: "finite (dom (by_tickets S))" by (simp add: books_def)
  have p: "proper_prog (dom (by_tickets S)) (PSwapLeft t f)" using books_proper [OF swaps(3,2)] by simp
  show ?case
    by (rule books_tickets [OF swaps(3,2)])
      (use proper_takes(3) [OF p, of "\<not> b"] f in \<open>auto simp: tickets_of_swap [OF swaps(1) f] one_def\<close>)
next
  case (closes i p S)
  then show ?case using books_proper [OF closes(2,1)] by (intro books_goes [OF closes(2,1)]) auto
qed

lemma bus_step_books:
  assumes "bus_step S S'" "books S"
  shows "books S'"
  using assms
proof (induction rule: bus_step.induct)
  case (called S i p)
  have f: "finite (dom (by_progs S))" using called by (simp add: books_def)
  have p: "proper_prog (dom (by_tickets S)) p" "\<And>r. owes p r = 0" using methods_proper [OF called(2)] by auto
  have "i \<notin> waiting_at (by_progs S) k" for k using called by (simp add: waiting_at_def)
  then show ?case
    using called p proper_entering [OF p(1)] proper_waiting [OF p(1)]
    by (auto simp: books_def owed_new [OF called(1) f] waiting_at_update)
next
  case (ran S i p S')
  then show ?case using prog_step_books by blast
qed

lemma sem_at_start: "1 \<le> m \<Longrightarrow> sem_at (fst (sem_Resize m (NewSemaphore 0))) 0 {} {}"
  by (simp add: sem_at_def sem_Resize_def NewSemaphore_def sem_grantLocked.simps)

lemma bus_start_books: "books (bus_start io lims)"
proof -
  have "get_counter l c (bus_New io lims) = 0" for l c
    by (cases c) (simp_all add: bus_New_def resizeIO_def newLane_def lane_update_def)
  moreover have "sem_at (get_sem k (bus_New io lims)) 0 {} {}" for k
    using sem_at_start by (cases k) (simp_all add: bus_New_def resizeIO_def newLane_def lane_update_def ioSize_def DefaultIO_def)
  ultimately show ?thesis
    by (simp add: books_def bus_start_def owed_def tickets_of_def open_tickets_def waiting_at_def)
qed

interpretation buses: transition_system "\<lambda>S. \<exists>io lims. S = bus_start io lims" bus_step books
  by unfold_locales (auto intro: bus_start_books bus_step_books)

lemma reachable_books: "bus_step\<^sup>*\<^sup>* (bus_start io lims) S \<Longrightarrow> books S"
  by (rule buses.reached_ok) blast

section \<open>What the books show\<close>

lemma proper_held: "proper_prog T (entering p) \<Longrightarrow> held_ok p"
proof -
  assume "proper_prog T (entering p)"
  then have "held_ok (entering p)" using proper_point by (simp add: point_ok_def)
  moreover have "owes (entering p) r = owes p r" for r by (cases p) simp_all
  moreover have "executes (entering p) \<Longrightarrow> executes p" by (cases p) (simp_all add: executes_def io_end_def)
  ultimately show "held_ok p" unfolding held_ok_def by metis
qed

lemma books_held: "books S \<Longrightarrow> i \<in> dom (by_progs S) \<Longrightarrow> held_ok (the (by_progs S i))"
  by (auto dest!: books_proper intro!: proper_held)

lemma owed_mono: "books S \<Longrightarrow> (\<And>p. held_ok p \<Longrightarrow> owes p r \<le> owes p r') \<Longrightarrow> owed (by_progs S) r \<le> owed (by_progs S) r'"
  unfolding owed_def by (intro sum_mono) (simp add: books_held)

lemma inflight_within:
  assumes "books S"
  shows "get_counter l Inflight (by_bus S) \<le> sm_used (get_sem (Slots l) (by_bus S))"
proof -
  have "owed (by_progs S) (Cnt l Inflight) \<le> owed (by_progs S) (Slot (Slots l))"
    by (rule owed_mono [OF assms]) (simp add: held_ok_def)
  moreover have "get_counter l Inflight (by_bus S) = owed (by_progs S) (Cnt l Inflight)"
    using assms by (simp add: books_def tickets_of_def)
  moreover have "sm_used (get_sem (Slots l) (by_bus S)) \<ge> owed (by_progs S) (Slot (Slots l))"
    using books_sem_at [OF assms, of "Slots l"] by (simp add: sem_at_def)
  ultimately show ?thesis by simp
qed

text \<open>The executions that hold an IO slot taken from the semaphore itself, those just granted it included.\<close>

definition executing :: "bus_system \<Rightarrow> nat set" where
  "executing S = {i. \<exists>p. by_progs S i = Some p \<and>
     (executes p \<or> i \<in> by_granted S IOSlots \<and> (\<exists>f. p = PWaiting IOSlots f \<and> executes (f True)))}"

lemma executes_owes: "executes p \<Longrightarrow> owes p (Slot k) = one (Slot IOSlots) (Slot k)"
  by (auto simp: executes_def io_end_def)

text \<open>Also a program granted an IO slot holds an auxiliary slot or one of the serving lane already, or executes.\<close>

lemma granted_IO:
  assumes "books S" "i \<in> by_granted S IOSlots"
  shows "i \<in> dom (by_progs S) \<and>
    owes (the (by_progs S i)) (Slot IOSlots) + 1 \<le>
    owes (the (by_progs S i)) (Slot Aux) + owes (the (by_progs S i)) (Slot (Slots Serve)) + of_bool (i \<in> executing S)"
proof -
  have "i \<in> waiting_at (by_progs S) IOSlots" using books_sem_at [OF assms(1)] assms(2) by (auto simp: sem_at_def)
  then obtain f where p: "by_progs S i = Some (PWaiting IOSlots f)" by (auto simp: waiting_at_def)
  have g: "proper_prog (dom (by_tickets S)) (PAcquire IOSlots f)" using books_proper [OF assms(1) p] by simp
  have t: "proper_prog (dom (by_tickets S)) (f True)" "\<And>r. owes (f True) r = owes (f False) r + one (Slot IOSlots) r"
    using proper_takes(2) [OF g, of True] by simp_all
  have h: "held_ok (f True)" using proper_point [OF t(1)] by (simp add: point_ok_def)
  show ?thesis
  proof (cases "executes (f True)")
    case True
    then have "i \<in> executing S" using p assms(2) by (auto simp: executing_def)
    then show ?thesis using p executes_owes [OF True] t(2) by (simp add: one_def domI)
  next
    case False
    then show ?thesis using p h by (auto simp: held_ok_def t(2) one_def)
  qed
qed

lemma holds_IO:
  assumes b: "books S" and i: "i \<in> dom (by_progs S)"
  shows "owes (the (by_progs S i)) (Slot IOSlots) + of_bool (i \<in> by_granted S IOSlots) \<le>
    owes (the (by_progs S i)) (Slot Aux) + owes (the (by_progs S i)) (Slot (Slots Serve)) + of_bool (i \<in> executing S)"
proof (cases "i \<in> by_granted S IOSlots")
  case True
  then show ?thesis using granted_IO [OF b True] by simp
next
  case False
  obtain p where p: "by_progs S i = Some p" using i by blast
  have h: "held_ok p" using books_held [OF b i] p by simp
  show ?thesis
  proof (cases "executes p")
    case True
    then have "i \<in> executing S" using p by (auto simp: executing_def)
    then show ?thesis using p False executes_owes [OF True] by (simp add: one_def)
  next
    case F: False
    then show ?thesis using p False h by (simp add: held_ok_def)
  qed
qed

lemma IO_within:
  assumes b: "books S"
  shows "sm_used (get_sem IOSlots (by_bus S)) \<le>
    sm_used (get_sem Aux (by_bus S)) + sm_used (get_sem (Slots Serve) (by_bus S)) + int (card (executing S))"
proof -
  let ?D = "dom (by_progs S)" and ?G = "by_granted S IOSlots" and ?o = "\<lambda>i. owes (the (by_progs S i))"
  have f: "finite ?D" using b by (simp add: books_def)
  have G: "?G \<subseteq> ?D" using granted_IO [OF b] by blast
  have E: "executing S \<subseteq> ?D" by (auto simp: executing_def)
  have count: "(\<Sum>i\<in>?D. of_bool (i \<in> A)) = int (card A)" if "A \<subseteq> ?D" for A
    using f that by (simp add: of_bool_def sum.If_cases Int_absorb1)
  have "sm_used (get_sem IOSlots (by_bus S)) = (\<Sum>i\<in>?D. ?o i (Slot IOSlots) + of_bool (i \<in> ?G))"
    using books_sem_at [OF b, of IOSlots] count [OF G] by (simp add: sem_at_def owed_def sum.distrib)
  also have "\<dots> \<le> (\<Sum>i\<in>?D. ?o i (Slot Aux) + ?o i (Slot (Slots Serve)) + of_bool (i \<in> executing S))"
    by (rule sum_mono) (rule holds_IO [OF b])
  also have "\<dots> = owed (by_progs S) (Slot Aux) + owed (by_progs S) (Slot (Slots Serve)) + int (card (executing S))"
    using count [OF E] by (simp add: owed_def sum.distrib)
  also have "\<dots> \<le> sm_used (get_sem Aux (by_bus S)) + sm_used (get_sem (Slots Serve) (by_bus S)) + int (card (executing S))"
    using books_sem_at [OF b, of Aux] books_sem_at [OF b, of "Slots Serve"] by (simp add: sem_at_def)
  finally show ?thesis .
qed

lemma books_idle:
  assumes "books S" "by_progs S = Map.empty"
  shows "get_counter l Inflight (by_bus S) = 0" "get_counter l IoWait (by_bus S) = 0"
    "get_counter l Queued (by_bus S) = int (card (open_tickets (by_tickets S) l))" "sm_used (get_sem k (by_bus S)) = 0"
  using assms by (auto simp: books_def owed_def tickets_of_def sem_at_def waiting_at_def)

section \<open>No deadlock\<close>

text \<open>A program not waiting goes on, and one waiting does when granted.\<close>

lemma program_goes_on:
  assumes b: "books S" and p: "by_progs S i = Some p" and w: "\<And>k f. p = PWaiting k f \<Longrightarrow> i \<in> by_granted S k"
  shows "\<exists>S'. prog_step i p S S'"
proof -
  have e: "proper_prog (dom (by_tickets S)) (entering p)" using books_proper [OF b p] .
  show ?thesis
  proof (cases p)
    case (PTryAcquire k f)
    obtain ok s where "sem_TryAcquire (get_sem k (by_bus S)) = (ok, s)" by fastforce
    from prog_step.tries [OF this] show ?thesis unfolding PTryAcquire ..
  next
    case (PAcquire k f)
    obtain ok s where a: "sem_Acquire_enter i (get_sem k (by_bus S)) = (ok, s)" by fastforce
    have "prog_step i (PAcquire k f) S (goes i (if ok then f True else PWaiting k f) (put_sem k s (by_bus S)) S)"
      using a prog_step.enters [of i k S s] prog_step.waits [of i k S s] by (cases ok) simp_all
    then show ?thesis unfolding PAcquire ..
  next
    case (PTicket l q)
    have "finite (dom (by_tickets S))" using b by (simp add: books_def)
    then have "finite {j. (l, j) \<in> dom (by_tickets S)}" by (rule finite_vimageI [of _ "Pair l", unfolded vimage_def]) (simp add: inj_on_def)
    from ex_new_if_finite [OF infinite_UNIV_nat this] obtain j where "(l, j) \<notin> dom (by_tickets S)" by auto
    then have "by_tickets S (l, j) = None" by blast
    from prog_step.makes [OF this] show ?thesis unfolding PTicket ..
  next
    case (PLeft t f)
    then obtain v where "by_tickets S t = Some v" using e by (auto simp: point_ok_def)
    from prog_step.is_left [OF this] show ?thesis unfolding PLeft ..
  next
    case (PSwapLeft t f)
    then obtain v where "by_tickets S t = Some v" using e by (auto simp: point_ok_def)
    from prog_step.swaps [OF this] show ?thesis unfolding PSwapLeft ..
  next
    case (PWaiting k f)
    then have "i \<in> by_granted S k" by (rule w)
    from prog_step.wakes [OF this] show ?thesis unfolding PWaiting ..
  qed (blast intro: prog_step.intros)+
qed

definition blocked :: "bus_system \<Rightarrow> nat \<Rightarrow> bool" where
  "blocked S i \<longleftrightarrow> (\<exists>k f. by_progs S i = Some (PWaiting k f) \<and> i \<notin> by_granted S k)"

text \<open>When every program is blocked, someone holds what the first of them waits for, and nobody does.\<close>

lemma slot_holder:
  assumes b: "books S" and all: "\<And>i. i \<in> dom (by_progs S) \<Longrightarrow> blocked S i"
    and i: "by_progs S i = Some (PWaiting k f)"
  shows "\<exists>j k' g. by_progs S j = Some (PWaiting k' g) \<and> owes (PWaiting k' g) (Slot k) > 0"
proof -
  note s = books_sem_at [OF b, of k]
  have "by_granted S k = {}"
  proof (rule ccontr)
    assume "by_granted S k \<noteq> {}"
    then obtain j where j: "j \<in> by_granted S k" by blast
    then have "j \<in> waiting_at (by_progs S) k" using s by (auto simp: sem_at_def)
    then obtain g where "by_progs S j = Some (PWaiting k g)" by (auto simp: waiting_at_def)
    then show False using all [of j] j by (auto simp: blocked_def)
  qed
  moreover have "i \<in> waiting_at (by_progs S) k" using i by (simp add: waiting_at_def)
  ultimately have "sm_waiters (get_sem k (by_bus S)) \<noteq> []" using s by (auto simp: sem_at_def)
  then have "0 < owed (by_progs S) (Slot k)" using s \<open>by_granted S k = {}\<close> by (auto simp: sem_at_def)
  then have "\<exists>j\<in>dom (by_progs S). 0 < owes (the (by_progs S j)) (Slot k)"
    unfolding owed_def using sum_nonpos by (metis not_less)
  then show ?thesis using all unfolding blocked_def by fastforce
qed

lemma someone_unblocked:
  assumes b: "books S" and "by_progs S \<noteq> Map.empty"
  shows "\<exists>i\<in>dom (by_progs S). \<not> blocked S i"
proof (rule ccontr)
  assume "\<not> (\<exists>i\<in>dom (by_progs S). \<not> blocked S i)"
  then have all: "\<And>i. i \<in> dom (by_progs S) \<Longrightarrow> blocked S i" by blast
  have o: "ordered (PAcquire k f)" if "by_progs S j = Some (PWaiting k f)" for j k f
    using books_proper [OF b that] by (simp add: point_ok_def)
  have io: "by_progs S j \<noteq> Some (PWaiting IOSlots f)" for j f
  proof
    assume "by_progs S j = Some (PWaiting IOSlots f)"
    from slot_holder [OF b all this] obtain j' k g
      where h: "by_progs S j' = Some (PWaiting k g)" "owes (g False) (Slot IOSlots) > 0" by auto
    then show False using o [OF h(1)] by (cases k) auto
  qed
  have aux: "by_progs S j \<noteq> Some (PWaiting Aux f)" for j f
  proof
    assume "by_progs S j = Some (PWaiting Aux f)"
    from slot_holder [OF b all this] obtain j' k g
      where h: "by_progs S j' = Some (PWaiting k g)" "owes (g False) (Slot Aux) > 0" by auto
    then show False using o [OF h(1)] io by (cases k) auto
  qed
  obtain i where "i \<in> dom (by_progs S)" using assms(2) by fastforce
  then obtain k f where i: "by_progs S i = Some (PWaiting k f)" using all [of i] by (auto simp: blocked_def)
  from slot_holder [OF b all i] obtain j k' g
    where h: "by_progs S j = Some (PWaiting k' g)" "owes (g False) (Slot k) > 0" by auto
  then show False using o [OF h(1)] io aux by (cases k') auto
qed

section \<open>Background tasks\<close>

definition tasks_map :: "string multiset \<Rightarrow> string \<rightharpoonup> int" where
  "tasks_map R = (\<lambda>name. if count R name = 0 then None else Some (int (count R name)))"

definition tasks_ok :: "bus_tasks \<Rightarrow> string multiset \<Rightarrow> bool" where
  "tasks_ok b R \<longleftrightarrow> tk_wg b = int (size R) \<and> tk_tasks b = tasks_map R"

lemma task_count_map: "tk_tasks b = tasks_map R \<Longrightarrow> task_count b name = int (count R name)"
  by (simp add: task_count_def tasks_map_def)

lemma tasks_map_add: "tasks_map (add_mset name R) = (tasks_map R)(name \<mapsto> int (count R name) + 1)"
  by (rule ext) (auto simp: tasks_map_def not_in_iff [symmetric])

lemma tasks_map_add_drop:
  "(if int (count R name) = 0 then (tasks_map (add_mset name R))(name := None)
    else (tasks_map (add_mset name R))(name \<mapsto> int (count R name))) = tasks_map R"
  by (rule ext) (simp add: tasks_map_def not_in_iff)

lemma task_step_ok:
  assumes "task_step (b, R) (b', R')" "tasks_ok b R"
  shows "tasks_ok b' R'"
  using assms(1)
proof cases
  case (started name)
  then show ?thesis
    using assms(2) by (auto simp: bus_enter_def tasks_ok_def task_count_map tasks_map_add split: if_splits)
next
  case (refused name)
  then show ?thesis using assms(2) by (auto simp: bus_enter_def split: if_splits)
next
  case (ended name)
  then obtain Q where R: "R = add_mset name Q" by (auto dest: multi_member_split)
  have "task_count b name = int (count Q name) + 1" using assms(2) R by (simp add: tasks_ok_def task_count_map)
  then have "tk_tasks (bus_exit name b) = tasks_map Q"
    using assms(2) tasks_map_add_drop [of Q name] 
    by (cases "name \<in># Q") (auto simp: bus_exit_def Let_def tasks_ok_def R count_eq_zero_iff)
  then show ?thesis using assms(2) ended by (simp add: tasks_ok_def R bus_exit_def Let_def)
next
  case closing
  then show ?thesis using assms(2) by (simp add: close_tasks_def tasks_ok_def)
qed

lemma tasks_reachable_ok:
  "task_step\<^sup>*\<^sup>* (b, R) (b', R') \<Longrightarrow> tasks_ok b R \<Longrightarrow> tasks_ok b' R'"
  by (induction rule: rtranclp_induct2) (auto intro: task_step_ok)

text \<open>Once the bus is closed and its wait group is at zero, no task runs and none starts.\<close>

lemma close_done_idle:
  assumes "task_step\<^sup>*\<^sup>* (\<lparr>tk_closed = False, tk_tasks = Map.empty, tk_wg = 0\<rparr>, {#}) (b, R)" "tk_closed b" "close_done b"
  shows "R = {#} \<and> fst (bus_enter name b) = False"
  using tasks_reachable_ok [OF assms(1)] assms(2,3) by (auto simp: tasks_ok_def close_done_def bus_enter_def tasks_map_def)

text \<open>C33: in every interleaving of the methods of a bus and its lanes with the engines' executions that draw on its IO
  semaphore directly, with contexts ending and limits changing at any time, the work a lane counts as running holds as
  many of its slots; the IO slots in use are within the auxiliary slots in use, the serving lane's slots in use and the
  slots those executions hold, so the other lanes together take at most the auxiliary share; and once no method and no
  execution runs, nothing counts as running or waiting but the tickets not given up, and every slot is free.\<close>

theorem bus_accounts:
  assumes "bus_step\<^sup>*\<^sup>* (bus_start io lims) S"
  shows "get_counter l Inflight (by_bus S) \<le> sm_used (get_sem (Slots l) (by_bus S)) \<and>
    sm_used (get_sem IOSlots (by_bus S)) \<le>
      sm_used (get_sem Aux (by_bus S)) + sm_used (get_sem (Slots Serve) (by_bus S)) + int (card (executing S)) \<and>
    (by_progs S = Map.empty \<longrightarrow>
      get_counter l Inflight (by_bus S) = 0 \<and> get_counter l IoWait (by_bus S) = 0 \<and>
      get_counter l Queued (by_bus S) = int (card (open_tickets (by_tickets S) l)) \<and> sm_used (get_sem k (by_bus S)) = 0)"
  using reachable_books [OF assms] inflight_within IO_within books_idle by blast

definition ex_bus_one :: bus_system where
  "ex_bus_one = (bus_start 1 Map.empty)\<lparr>by_progs := [0 \<mapsto> lane_run Admin True]\<rparr>"

lemma ex_bus_reached: "bus_step\<^sup>*\<^sup>* (bus_start 1 Map.empty) ex_bus_one"
proof -
  have "bus_step (bus_start 1 Map.empty)
      ((bus_start 1 Map.empty)\<lparr>by_progs := (by_progs (bus_start 1 Map.empty))(0 \<mapsto> lane_run Admin True)\<rparr>)"
    by (rule bus_step.called) (auto simp: bus_start_def methods_def)
  then show ?thesis by (simp add: ex_bus_one_def bus_start_def)
qed

text \<open>An execution in a slot it took while no lane holds one.\<close>

definition ex_bus_executing :: bus_system where
  "ex_bus_executing = goes 0 (PWork io_end) (put_sem IOSlots \<lparr>sm_size = 1, sm_used = 1, sm_waiters = []\<rparr> (bus_New 1 Map.empty))
     ((bus_start 1 Map.empty)\<lparr>by_progs := [0 \<mapsto> quota_execute]\<rparr>)"

lemma ex_bus_executing_reached: "bus_step\<^sup>*\<^sup>* (bus_start 1 Map.empty) ex_bus_executing"
proof -
  let ?S = "(bus_start 1 Map.empty)\<lparr>by_progs := [0 \<mapsto> quota_execute]\<rparr>"
  have "bus_step (bus_start 1 Map.empty) ((bus_start 1 Map.empty)\<lparr>by_progs := (by_progs (bus_start 1 Map.empty))(0 \<mapsto> quota_execute)\<rparr>)"
    by (rule bus_step.called) (auto simp: bus_start_def methods_def)
  then have s: "bus_step (bus_start 1 Map.empty) ?S" by (simp add: bus_start_def)
  have e: "sem_Acquire_enter 0 (get_sem IOSlots (by_bus ?S)) = (True, \<lparr>sm_size = 1, sm_used = 1, sm_waiters = []\<rparr>)"
    by (simp add: bus_start_def bus_New_def resizeIO_def ioSize_def sem_Resize_def NewSemaphore_def sem_grantLocked.simps
        sem_Acquire_enter_def)
  have "prog_step 0 quota_execute ?S ex_bus_executing"
    using prog_step.enters [OF e, of "\<lambda>ok. if ok then PWork io_end else PReturn CtxErr"]
    by (simp add: ex_bus_executing_def quota_execute_def bus_start_def)
  then have "bus_step ?S ex_bus_executing" by (rule bus_step.ran [rotated]) simp
  with s show ?thesis by (simp add: rtranclp.rtrancl_into_rtrancl)
qed

theorem bus_accounts_witness:
  "get_counter Admin Inflight (by_bus ex_bus_one) \<le> sm_used (get_sem (Slots Admin) (by_bus ex_bus_one)) \<and>
   sm_used (get_sem Aux (bus_New 1 Map.empty)) = 0 \<and>
   sm_used (get_sem IOSlots (by_bus ex_bus_executing)) = 1 \<and>
   1 \<le> sm_used (get_sem Aux (by_bus ex_bus_executing)) + sm_used (get_sem (Slots Serve) (by_bus ex_bus_executing)) +
     int (card (executing ex_bus_executing))"
proof -
  have "sm_used (get_sem IOSlots (by_bus ex_bus_executing)) = 1" by (simp add: ex_bus_executing_def goes_def)
  then show ?thesis
    using bus_accounts [OF ex_bus_reached, of Admin] bus_accounts [of 1 Map.empty "bus_start 1 Map.empty" Admin Aux]
      bus_accounts [OF ex_bus_executing_reached, of Serve]
    by (simp add: bus_start_def)
qed

text \<open>C34: the bus does not deadlock: while any method or execution runs, one of them can take its next step without waiting for a
  context to end.\<close>

theorem bus_no_deadlock:
  assumes "bus_step\<^sup>*\<^sup>* (bus_start io lims) S" "by_progs S \<noteq> Map.empty"
  shows "\<exists>i p S'. by_progs S i = Some p \<and> prog_step i p S S' \<and> \<not> blocked S i"
proof -
  have b: "books S" by (rule reachable_books [OF assms(1)])
  obtain i where i: "i \<in> dom (by_progs S)" "\<not> blocked S i" using someone_unblocked [OF b assms(2)] by blast
  then obtain p where p: "by_progs S i = Some p" by blast
  then have "\<exists>S'. prog_step i p S S'" using program_goes_on [OF b p] i by (auto simp: blocked_def)
  then show ?thesis using i p by blast
qed

theorem bus_no_deadlock_witness: "\<exists>i p S'. by_progs ex_bus_one i = Some p \<and> prog_step i p ex_bus_one S' \<and> \<not> blocked ex_bus_one i"
  by (rule bus_no_deadlock [OF ex_bus_reached]) (simp add: ex_bus_one_def)

end
