(* ===== verification/Ratelimit.thy ===== *)
theory Ratelimit
  imports Prelude "HOL-Library.Word"
begin

unbundle bit_operations_syntax

text \<open>
  The limiters of \<^verbatim>\<open>core/ratelimit\<close>: the adaptive concurrency limit and the circuit breaker of
  \<^verbatim>\<open>ratelimit.go\<close>, the token bucket of \<^verbatim>\<open>token_bucket.go\<close> and the limits per caller of \<^verbatim>\<open>keyed.go\<close>. The clock is
  an argument, in nanoseconds. The adaptive limit and the breaker hold atomic variables and no lock: their methods are
  atomic operations, one after the other, and those of any number of calls interleave. The token bucket and the limits
  per caller hold a mutex throughout a call, which is one function. The rates of the token bucket are exact numbers: the
  rounding of \<^verbatim>\<open>float64\<close> is not modelled.
\<close>

section \<open>The adaptive limit\<close>

datatype rate_error = ErrRateLimited | ErrCircuitOpen | ErrKeyRate | ErrKeyInflight

record adaptive =
  ad_concurrency :: int
  ad_limit :: int
  ad_decreased :: int
  ad_min :: int
  ad_max :: int
  ad_rttThreshold :: int

definition NewAdaptive :: "int \<Rightarrow> int \<Rightarrow> int \<Rightarrow> int \<Rightarrow> adaptive" where
  "NewAdaptive initial mn mx rttThreshold =
     \<lparr>ad_concurrency = 0, ad_limit = initial, ad_decreased = 0, ad_min = mn, ad_max = mx, ad_rttThreshold = rttThreshold\<rparr>"

text \<open>
  \<^verbatim>\<open>Acquire\<close> adds itself first, then reads the limit, and takes itself off again when it is past it. A loop over
  a compare-and-swap takes effect at the swap that succeeds, on the value it then finds.
\<close>

definition adaptive_enter :: "adaptive \<Rightarrow> int \<times> adaptive" where
  "adaptive_enter a = (ad_concurrency a + 1, a\<lparr>ad_concurrency := ad_concurrency a + 1\<rparr>)"

definition adaptive_admits :: "int \<Rightarrow> adaptive \<Rightarrow> bool" where
  "adaptive_admits c a \<longleftrightarrow> \<not> c > ad_limit a"

definition adaptive_Release :: "adaptive \<Rightarrow> adaptive" where
  "adaptive_Release a = a\<lparr>ad_concurrency := ad_concurrency a - 1\<rparr>"

text \<open>Go's division truncates towards zero.\<close>

definition half :: "int \<Rightarrow> int" where
  "half l = sgn l * (\<bar>l\<bar> div 2)"

datatype limit_change = Decrease | Increase

text \<open>The first part of \<^verbatim>\<open>OnResult\<close>: what it then changes the limit by, if anything.\<close>

definition adaptive_judge :: "int \<Rightarrow> bool \<Rightarrow> int \<Rightarrow> adaptive \<Rightarrow> limit_change option \<times> adaptive" where
  "adaptive_judge now failed d a =
     (if failed \<or> (ad_rttThreshold a > 0 \<and> d > ad_rttThreshold a)
      then let sent = wrap64 (now - d)
           in if sent < ad_decreased a then (None, a) else (Some Decrease, a\<lparr>ad_decreased := now\<rparr>)
      else (Some Increase, a))"

fun adaptive_update :: "limit_change \<Rightarrow> adaptive \<Rightarrow> adaptive" where
  "adaptive_update Decrease a = a\<lparr>ad_limit := max (half (ad_limit a)) (ad_min a)\<rparr>"
| "adaptive_update Increase a = a\<lparr>ad_limit := min (wrap64 (ad_limit a + 1)) (ad_max a)\<rparr>"

section \<open>The circuit breaker\<close>

record breaker =
  br_failures :: int
  br_threshold :: int
  br_cooldown :: int
  br_openUntil :: int
  br_probe :: "64 word"
  br_probes :: "64 word"
  br_epoch :: "64 word"

definition probeTicket :: "64 word" where
  "probeTicket = push_bit 63 1"

definition NewBreaker :: "int \<Rightarrow> int \<Rightarrow> breaker" where
  "NewBreaker threshold cooldown = \<lparr>br_failures = 0, br_threshold = threshold, br_cooldown = cooldown, br_openUntil = 0,
     br_probe = 0, br_probes = 0, br_epoch = 0\<rparr>"

text \<open>
  A method of the breaker as a program of its atomic operations and its readings of the clock: what one returns is the
  argument of what follows.
\<close>

datatype br_outcome = Passed "64 word" | Refused | Ended

datatype br_prog =
    BReturn br_outcome
  | LoadUntil "int \<Rightarrow> br_prog"
  | LoadEpoch "64 word \<Rightarrow> br_prog"
  | Clock "int \<Rightarrow> br_prog"
  | AddProbes "64 word \<Rightarrow> br_prog"
  | CasProbe "64 word" "64 word" "bool \<Rightarrow> br_prog"
  | StoreProbe "64 word" br_prog
  | StoreFailures int br_prog
  | AddFailures "int \<Rightarrow> br_prog"
  | AddEpoch br_prog
  | StoreUntil int br_prog

definition take_place :: "64 word \<Rightarrow> br_prog" where
  "take_place ticket = CasProbe 0 ticket (\<lambda>ok. if \<not> ok then BReturn Refused else BReturn (Passed ticket))"

definition breaker_Allow :: br_prog where
  "breaker_Allow = LoadUntil (\<lambda>until.
     if until = 0 then LoadEpoch (\<lambda>e. BReturn (Passed e))
     else Clock (\<lambda>now. if now < until then BReturn Refused else AddProbes (\<lambda>n. take_place (n OR probeTicket))))"

definition breaker_Release :: "64 word \<Rightarrow> br_prog" where
  "breaker_Release ticket =
     (if ticket AND probeTicket \<noteq> 0 then CasProbe ticket 0 (\<lambda>_. BReturn Ended) else BReturn Ended)"

text \<open>The threshold and the cooldown are those of the breaker, which never change.\<close>

definition breaker_Record :: "int \<Rightarrow> int \<Rightarrow> 64 word \<Rightarrow> bool \<Rightarrow> br_prog" where
  "breaker_Record threshold cooldown ticket success = LoadUntil (\<lambda>until.
     if until \<noteq> 0 then
       if ticket AND probeTicket = 0 then BReturn Ended
       else CasProbe ticket 0 (\<lambda>ok.
         if \<not> ok then BReturn Ended
         else if success then StoreFailures 0 (AddEpoch (StoreUntil 0 (BReturn Ended)))
         else Clock (\<lambda>now. StoreUntil (now + cooldown) (BReturn Ended)))
     else LoadEpoch (\<lambda>e.
       if ticket \<noteq> e then BReturn Ended
       else if success then StoreFailures 0 (BReturn Ended)
       else AddFailures (\<lambda>n.
         if n \<ge> threshold
         then Clock (\<lambda>now. StoreUntil (now + cooldown) (StoreProbe 0 (AddEpoch (BReturn Ended))))
         else BReturn Ended)))"

text \<open>One operation of a program, at the time \<open>now\<close>.\<close>

fun br_exec :: "int \<Rightarrow> br_prog \<Rightarrow> breaker \<Rightarrow> br_prog \<times> breaker" where
  "br_exec now (BReturn r) b = (BReturn r, b)"
| "br_exec now (LoadUntil f) b = (f (br_openUntil b), b)"
| "br_exec now (LoadEpoch f) b = (f (br_epoch b), b)"
| "br_exec now (Clock f) b = (f now, b)"
| "br_exec now (AddProbes f) b = (f (br_probes b + 1), b\<lparr>br_probes := br_probes b + 1\<rparr>)"
| "br_exec now (CasProbe old new f) b =
     (if br_probe b = old then (f True, b\<lparr>br_probe := new\<rparr>) else (f False, b))"
| "br_exec now (StoreProbe v p) b = (p, b\<lparr>br_probe := v\<rparr>)"
| "br_exec now (StoreFailures n p) b = (p, b\<lparr>br_failures := n\<rparr>)"
| "br_exec now (AddFailures f) b = (f (br_failures b + 1), b\<lparr>br_failures := br_failures b + 1\<rparr>)"
| "br_exec now (AddEpoch p) b = (p, b\<lparr>br_epoch := br_epoch b + 1\<rparr>)"
| "br_exec now (StoreUntil t p) b = (p, b\<lparr>br_openUntil := t\<rparr>)"

definition breaker_IsOpen :: "int \<Rightarrow> breaker \<Rightarrow> bool" where
  "breaker_IsOpen now b = (br_openUntil b \<noteq> 0 \<and> now < br_openUntil b)"

section \<open>The token bucket\<close>

record token_bucket =
  tb_rate :: rat
  tb_burst :: rat
  tb_tokens :: rat
  tb_last :: int

definition NewTokenBucket :: "int \<Rightarrow> rat \<Rightarrow> token_bucket option" where
  "NewTokenBucket now rate =
     (if rate \<le> 0 then None
      else let burst = max 1 (of_int \<lceil>rate\<rceil>)
           in Some \<lparr>tb_rate = rate, tb_burst = burst, tb_tokens = burst, tb_last = now\<rparr>)"

definition seconds :: "int \<Rightarrow> rat" where
  "seconds d = of_int d / 1000000000"

fun bucket_Allow :: "int \<Rightarrow> token_bucket option \<Rightarrow> bool \<times> token_bucket option" where
  "bucket_Allow now None = (True, None)"
| "bucket_Allow now (Some b) =
     (let tokens = min (tb_burst b) (tb_tokens b + seconds (now - tb_last b) * tb_rate b);
          b = b\<lparr>tb_tokens := tokens, tb_last := now\<rparr>
      in if tokens < 1 then (False, Some b) else (True, Some (b\<lparr>tb_tokens := tokens - 1\<rparr>)))"

section \<open>The limits per caller\<close>

text \<open>
  The state of a key is an object: a call that was admitted releases into the object it was admitted by, also after
  an update dropped it. The objects are numbered in a store; the map of the keys holds their numbers.
\<close>

record key_limits =
  kl_RPS :: rat
  kl_MaxInflight :: int

record key_state =
  ks_limits :: key_limits
  ks_bucket :: "token_bucket option"
  ks_inflight :: int

record key_limiter =
  kd_keys :: "string \<rightharpoonup> nat"
  kd_states :: "key_state list"

definition NewKeyed :: key_limiter where
  "NewKeyed = \<lparr>kd_keys = Map.empty, kd_states = []\<rparr>"

definition key_update :: "int \<Rightarrow> (string \<rightharpoonup> nat) \<Rightarrow> string \<times> key_limits \<Rightarrow> key_limiter \<Rightarrow> key_limiter" where
  "key_update now old kl k =
     (let (key, l) = kl
      in if l = \<lparr>kl_RPS = 0, kl_MaxInflight = 0\<rparr> then k
         else case old key of
           None \<Rightarrow> k\<lparr>kd_keys := (kd_keys k)(key \<mapsto> length (kd_states k)),
              kd_states := kd_states k @ [\<lparr>ks_limits = l, ks_bucket = NewTokenBucket now (kl_RPS l), ks_inflight = 0\<rparr>]\<rparr>
         | Some i \<Rightarrow>
            let st = kd_states k ! i;
                st = (if kl_RPS (ks_limits st) \<noteq> kl_RPS l then st\<lparr>ks_bucket := NewTokenBucket now (kl_RPS l)\<rparr> else st)
            in k\<lparr>kd_keys := (kd_keys k)(key \<mapsto> i), kd_states := (kd_states k)[i := st\<lparr>ks_limits := l\<rparr>]\<rparr>)"

definition keyed_Update :: "int \<Rightarrow> (string \<times> key_limits) list \<Rightarrow> key_limiter \<Rightarrow> key_limiter" where
  "keyed_Update now lims k = fold (key_update now (kd_keys k)) lims (k\<lparr>kd_keys := Map.empty\<rparr>)"

text \<open>A call is admitted by the state with the number returned, or, with none, without a limit.\<close>

definition keyed_Acquire :: "int \<Rightarrow> string \<Rightarrow> key_limiter \<Rightarrow> (rate_error + nat option) \<times> key_limiter" where
  "keyed_Acquire now key k =
     (case kd_keys k key of
        None \<Rightarrow> (Inr None, k)
      | Some i \<Rightarrow>
          let st = kd_states k ! i
          in if kl_MaxInflight (ks_limits st) > 0 \<and> ks_inflight st \<ge> kl_MaxInflight (ks_limits st)
             then (Inl ErrKeyInflight, k)
             else let (ok, bucket) = bucket_Allow now (ks_bucket st); st = st\<lparr>ks_bucket := bucket\<rparr>
                  in if \<not> ok then (Inl ErrKeyRate, k\<lparr>kd_states := (kd_states k)[i := st]\<rparr>)
                     else (Inr (Some i), k\<lparr>kd_states := (kd_states k)[i := st\<lparr>ks_inflight := ks_inflight st + 1\<rparr>]\<rparr>))"

text \<open>The release of a call; \<^verbatim>\<open>sync.Once\<close> makes it happen once.\<close>

fun keyed_release :: "nat option \<Rightarrow> key_limiter \<Rightarrow> key_limiter" where
  "keyed_release None k = k"
| "keyed_release (Some i) k =
     k\<lparr>kd_states := (kd_states k)[i := (kd_states k ! i)\<lparr>ks_inflight := ks_inflight (kd_states k ! i) - 1\<rparr>]\<rparr>"

end
