(* ===== verification/Ratelimit_Props.thy ===== *)
theory Ratelimit_Props
  imports Ratelimit
begin

unbundle bit_operations_syntax

text \<open>
  What the limiters guarantee: the outcome of a request that is no longer current never moves a breaker, whatever calls
  interleave; one overload halves the adaptive limit once, and the limit stays within its bounds; a token bucket lets no more through than its burst and
  rate; a caller's calls in flight stay within its limit.
\<close>

section \<open>Tickets\<close>

lemma bit_probeTicket: "bit probeTicket i \<longleftrightarrow> i = 63"
  by (auto simp only: probeTicket_def bit_push_bit_iff bit_1_iff possible_bit_word) auto

lemma bit_small: "n < 2 ^ 63 \<Longrightarrow> \<not> bit (of_nat n :: 64 word) 63"
proof -
  assume "n < 2 ^ 63"
  then have "\<not> bit n 63" by (simp add: bit_iff_odd)
  then show ?thesis by (simp add: bit_simps)
qed

lemma epoch_no_probe: "n < 2 ^ 63 \<Longrightarrow> (of_nat n :: 64 word) AND probeTicket = 0"
  by (rule bit_eqI) (use bit_small in \<open>auto simp: bit_and_iff bit_probeTicket\<close>)

lemma probe_is_probe: "(w OR probeTicket) AND probeTicket \<noteq> 0"
proof
  assume "(w OR probeTicket) AND probeTicket = 0"
  then have "bit ((w OR probeTicket) AND probeTicket) 63 = bit (0 :: 64 word) 63" by simp
  then show False by (simp only: bit_and_iff bit_or_iff bit_probeTicket) simp
qed

lemma probe_nonzero: "w OR probeTicket \<noteq> 0"
proof
  assume "w OR probeTicket = 0"
  then show False using probe_is_probe [of w] by simp
qed

lemma probe_inj:
  assumes "(of_nat n :: 64 word) OR probeTicket = of_nat m OR probeTicket" "n < 2 ^ 63" "m < 2 ^ 63"
  shows "n = m"
proof -
  have "(of_nat n :: 64 word) = of_nat m"
  proof (rule bit_eqI)
    fix i
    have "bit (of_nat n OR probeTicket :: 64 word) i = bit (of_nat m OR probeTicket :: 64 word) i" using assms(1) by simp
    then show "bit (of_nat n :: 64 word) i = bit (of_nat m :: 64 word) i"
      using bit_small [OF assms(2)] bit_small [OF assms(3)] by (cases "i = 63") (simp_all add: bit_or_iff bit_probeTicket del: bit_of_nat_iff)
  qed
  then show ?thesis using assms(2,3) by (simp add: word_of_nat_eq_iff take_bit_nat_eq_self)
qed

lemma epoch_inj: "(of_nat n :: 64 word) = of_nat m \<Longrightarrow> n < 2 ^ 63 \<Longrightarrow> m < 2 ^ 63 \<Longrightarrow> n = m"
  by (simp add: word_of_nat_eq_iff take_bit_nat_eq_self)

section \<open>The breaker and its calls\<close>

text \<open>
  A breaker with the calls on it, each with a number of its own and what it has still to do. A call that returned stays:
  the request it let through ends at most once, with a call of \<^verbatim>\<open>Record\<close> or \<^verbatim>\<open>Release\<close>. Recorded for the proofs only: how
  often the epoch and the number of probes were raised.
\<close>

record br_system =
  sy_b :: breaker
  sy_calls :: "nat \<rightharpoonup> br_prog"
  sy_ended :: "nat set"
  sy_era :: nat
  sy_tried :: nat

definition ends_with :: "breaker \<Rightarrow> 64 word \<Rightarrow> br_prog \<Rightarrow> bool" where
  "ends_with b t p \<longleftrightarrow>
     (\<exists>success. p = breaker_Record (br_threshold b) (br_cooldown b) t success) \<or> p = breaker_Release t"

fun raises_epoch :: "br_prog \<Rightarrow> nat" where
  "raises_epoch (AddEpoch _) = 1"
| "raises_epoch _ = 0"

fun raises_probes :: "br_prog \<Rightarrow> nat" where
  "raises_probes (AddProbes _) = 1"
| "raises_probes _ = 0"

inductive br_step :: "br_system \<Rightarrow> br_system \<Rightarrow> bool" where
  asks: "sy_calls S i = None \<Longrightarrow> br_step S (S\<lparr>sy_calls := (sy_calls S)(i \<mapsto> breaker_Allow)\<rparr>)"
| ends: "sy_calls S r = Some (BReturn (Passed t)) \<Longrightarrow> r \<notin> sy_ended S \<Longrightarrow> sy_calls S i = None \<Longrightarrow> ends_with (sy_b S) t p \<Longrightarrow>
     br_step S (S\<lparr>sy_calls := (sy_calls S)(i \<mapsto> p), sy_ended := insert r (sy_ended S)\<rparr>)"
| runs: "sy_calls S i = Some p \<Longrightarrow> br_exec now p (sy_b S) = (p', b) \<Longrightarrow>
     br_step S (S\<lparr>sy_b := b, sy_calls := (sy_calls S)(i \<mapsto> p'), sy_era := sy_era S + raises_epoch p,
       sy_tried := sy_tried S + raises_probes p\<rparr>)"

definition br_start :: "int \<Rightarrow> int \<Rightarrow> br_system" where
  "br_start threshold cooldown =
     \<lparr>sy_b = NewBreaker threshold cooldown, sy_calls = Map.empty, sy_ended = {}, sy_era = 0, sy_tried = 0\<rparr>"

text \<open>What a call is about to do, or did, with a ticket drawn for a probe.\<close>

fun drawn_ticket :: "br_prog \<Rightarrow> 64 word option" where
  "drawn_ticket (CasProbe old new f) = (if old = 0 then Some new else None)"
| "drawn_ticket (BReturn (Passed t)) = (if t AND probeTicket \<noteq> 0 then Some t else None)"
| "drawn_ticket _ = None"

definition allow_stage :: "br_prog \<Rightarrow> bool" where
  "allow_stage p \<longleftrightarrow> p = breaker_Allow \<or> p = LoadEpoch (\<lambda>e. BReturn (Passed e)) \<or>
     (\<exists>u. p = Clock (\<lambda>now. if now < u then BReturn Refused else AddProbes (\<lambda>n. take_place (n OR probeTicket)))) \<or>
     p = AddProbes (\<lambda>n. take_place (n OR probeTicket)) \<or> (\<exists>t. p = take_place t) \<or> (\<exists>t. p = BReturn (Passed t)) \<or> p = BReturn Refused"

text \<open>A program that neither draws a ticket nor takes the place of the probe.\<close>

primrec quiet :: "br_prog \<Rightarrow> bool" where
  "quiet (BReturn r) = (r = Ended)"
| "quiet (LoadUntil f) = (\<forall>v. quiet (f v))"
| "quiet (LoadEpoch f) = (\<forall>v. quiet (f v))"
| "quiet (Clock f) = (\<forall>v. quiet (f v))"
| "quiet (AddProbes f) = False"
| "quiet (CasProbe old new f) = (old \<noteq> 0 \<and> new = 0 \<and> (\<forall>v. quiet (f v)))"
| "quiet (StoreProbe v p) = (v = 0 \<and> quiet p)"
| "quiet (StoreFailures n p) = quiet p"
| "quiet (AddFailures f) = (\<forall>v. quiet (f v))"
| "quiet (AddEpoch p) = quiet p"
| "quiet (StoreUntil t p) = quiet p"

lemma quiet_ends: "ends_with b t p \<Longrightarrow> quiet p"
  by (auto simp: ends_with_def breaker_Record_def breaker_Release_def)

lemma quiet_exec: "quiet p \<Longrightarrow> br_exec now p b = (p', b') \<Longrightarrow> quiet p' \<and> (br_probe b' = br_probe b \<or> br_probe b' = 0) \<and> br_probes b' = br_probes b"
  by (cases p) (auto split: if_splits)

lemma quiet_drawn: "quiet p \<Longrightarrow> drawn_ticket p = None"
  by (cases p) auto

lemma allow_exec:
  assumes "allow_stage p" "br_exec now p b = (p', b')"
  shows "allow_stage p'"
  using assms by (auto simp: allow_stage_def breaker_Allow_def take_place_def split: if_splits)

lemma exec_epoch: "br_exec now p b = (p', b') \<Longrightarrow> br_epoch b' = br_epoch b + of_nat (raises_epoch p)"
  by (cases p) (auto split: if_splits)

lemma exec_probes: "br_exec now p b = (p', b') \<Longrightarrow> br_probes b' = br_probes b + of_nat (raises_probes p)"
  by (cases p) (auto split: if_splits)

lemma exec_keeps: "br_exec now p b = (p', b') \<Longrightarrow> br_threshold b' = br_threshold b \<and> br_cooldown b' = br_cooldown b"
  by (cases p) (auto split: if_splits)

definition probe_number :: "nat \<Rightarrow> 64 word" where
  "probe_number k = of_nat k OR probeTicket"

definition br_ok :: "br_system \<Rightarrow> bool" where
  "br_ok S \<longleftrightarrow> br_epoch (sy_b S) = of_nat (sy_era S) \<and> br_probes (sy_b S) = of_nat (sy_tried S) \<and>
     (\<forall>i p. sy_calls S i = Some p \<longrightarrow> allow_stage p \<or> quiet p) \<and>
     (\<forall>i p t. sy_calls S i = Some p \<longrightarrow> drawn_ticket p = Some t \<longrightarrow> (\<exists>k\<le> sy_tried S. t = probe_number k)) \<and>
     (\<forall>i t. sy_calls S i = Some (BReturn (Passed t)) \<longrightarrow> t AND probeTicket = 0 \<longrightarrow> (\<exists>e\<le> sy_era S. t = of_nat e)) \<and>
     (\<forall>i j p q t. sy_calls S i = Some p \<longrightarrow> sy_calls S j = Some q \<longrightarrow> drawn_ticket p = Some t \<longrightarrow> drawn_ticket q = Some t \<longrightarrow> i = j)"

lemma br_step_mono: "br_step S S' \<Longrightarrow> sy_era S \<le> sy_era S' \<and> sy_tried S \<le> sy_tried S'"
  by (induction rule: br_step.induct) auto

lemma br_steps_mono: "br_step\<^sup>*\<^sup>* S S' \<Longrightarrow> sy_era S \<le> sy_era S' \<and> sy_tried S \<le> sy_tried S'"
  by (induction rule: rtranclp_induct) (auto dest: br_step_mono)

text \<open>What a ticket drawn by a step is: that of its call before it, or the next number.\<close>

lemma exec_drawn:
  assumes "allow_stage p \<or> quiet p" "br_exec now p b = (p', b')" "drawn_ticket p' = Some t"
    and "br_epoch b AND probeTicket = 0"
  shows "drawn_ticket p = Some t \<or> raises_probes p = 1 \<and> t = (br_probes b + 1) OR probeTicket"
proof (cases "quiet p")
  case True
  then show ?thesis using quiet_exec [OF True assms(2)] quiet_drawn [of p'] assms(3) by simp
next
  case False
  then show ?thesis
    using assms by (auto simp: allow_stage_def breaker_Allow_def take_place_def split: if_splits)
qed

lemma exec_passed:
  assumes "allow_stage p \<or> quiet p" "br_exec now p b = (BReturn (Passed t), b')"
  shows "p = BReturn (Passed t) \<or> t = br_epoch b \<or> drawn_ticket p = Some t"
proof (cases "quiet p")
  case True
  then show ?thesis using quiet_exec [OF True assms(2)] by simp
next
  case False
  then show ?thesis using assms by (auto simp: allow_stage_def breaker_Allow_def take_place_def split: if_splits)
qed

lemma br_run_ok:
  assumes ok: "br_ok S" and i: "sy_calls S i = Some p" and ex: "br_exec now p (sy_b S) = (p', b)"
    and bounds: "sy_era S + raises_epoch p < 2 ^ 63" "sy_tried S + raises_probes p < 2 ^ 63"
  shows "br_ok (S\<lparr>sy_b := b, sy_calls := (sy_calls S)(i \<mapsto> p'), sy_era := sy_era S + raises_epoch p,
    sy_tried := sy_tried S + raises_probes p\<rparr>)"
proof -
  let ?tried = "sy_tried S + raises_probes p"
  have pr: "br_probes (sy_b S) = of_nat (sy_tried S)" and ep: "br_epoch (sy_b S) = of_nat (sy_era S)"
    using ok by (simp_all add: br_ok_def)
  have st: "allow_stage p \<or> quiet p" using ok i by (auto simp: br_ok_def)
  have e0: "br_epoch (sy_b S) AND probeTicket = 0" using ep epoch_no_probe [of "sy_era S"] bounds by simp
  have d: "drawn_ticket p = Some t \<or> raises_probes p = 1 \<and> t = probe_number (Suc (sy_tried S))" if "drawn_ticket p' = Some t" for t
    using exec_drawn [OF st ex that e0] pr by (auto simp: probe_number_def add.commute)
  have known: "\<exists>k\<le> sy_tried S. t = probe_number k" if "sy_calls S j = Some q" "drawn_ticket q = Some t" for j q t
    using ok that unfolding br_ok_def by blast
  have fresh: "drawn_ticket q \<noteq> Some (probe_number (Suc (sy_tried S)))" if f: "sy_calls S j = Some q" "raises_probes p = 1" for j q
  proof
    assume "drawn_ticket q = Some (probe_number (Suc (sy_tried S)))"
    then obtain k where k: "k \<le> sy_tried S" "probe_number (Suc (sy_tried S)) = probe_number k" using known f(1) by blast
    have b: "Suc (sy_tried S) < 2 ^ 63" using bounds(2) f(2) by simp
    moreover have "k < 2 ^ 63" using k(1) b by simp
    ultimately have "Suc (sy_tried S) = k" using probe_inj k(2) unfolding probe_number_def by blast
    then show False using k(1) by simp
  qed
  have unique: "j = k" if "sy_calls S j = Some q" "sy_calls S k = Some r" "drawn_ticket q = Some t" "drawn_ticket r = Some t" for j k q r t
    using ok that unfolding br_ok_def by blast
  have A: "allow_stage q \<or> quiet q" if "((sy_calls S)(i \<mapsto> p')) j = Some q" for j q
    using that ok st allow_exec [OF _ ex] quiet_exec [OF _ ex] by (auto simp: br_ok_def split: if_splits)
  have B: "\<exists>k\<le>?tried. t = probe_number k" if jq: "((sy_calls S)(i \<mapsto> p')) j = Some q" "drawn_ticket q = Some t" for j q t
  proof (cases "j = i")
    case True
    then have "drawn_ticket p = Some t \<or> raises_probes p = 1 \<and> t = probe_number (Suc (sy_tried S))" using jq d by simp
    then show ?thesis
    proof
      assume "drawn_ticket p = Some t"
      then obtain k where "k \<le> sy_tried S" "t = probe_number k" using known [OF i] by blast
      then show ?thesis by (intro exI [of _ k]) simp
    qed (intro exI [of _ "Suc (sy_tried S)"], simp)
  next
    case False
    then obtain k where "k \<le> sy_tried S" "t = probe_number k" using jq known [of j q t] by auto
    then show ?thesis by (intro exI [of _ k]) simp
  qed
  have C: "\<exists>e\<le> sy_era S + raises_epoch p. t = of_nat e"
    if "((sy_calls S)(i \<mapsto> p')) j = Some (BReturn (Passed t))" "t AND probeTicket = 0" for j t
  proof (cases "j = i")
    case True
    then have p': "p' = BReturn (Passed t)" using that by simp
    have "drawn_ticket p \<noteq> Some t" using known [OF i, of t] that(2) probe_is_probe by (auto simp: probe_number_def)
    then have "p = BReturn (Passed t) \<or> t = of_nat (sy_era S)" using exec_passed [OF st ex [unfolded p']] ep by auto
    then show ?thesis using ok i that(2) unfolding br_ok_def by (metis trans_le_add1 le_refl)
  next
    case False
    then have "sy_calls S j = Some (BReturn (Passed t))" using that by simp
    then show ?thesis using ok that(2) unfolding br_ok_def by (metis trans_le_add1)
  qed
  have D: "j = k" if "((sy_calls S)(i \<mapsto> p')) j = Some q" "((sy_calls S)(i \<mapsto> p')) k = Some r"
      "drawn_ticket q = Some t" "drawn_ticket r = Some t" for j k q r t
  proof -
    have own: "m = i" if m: "sy_calls S m = Some u" "drawn_ticket u = Some t" "drawn_ticket p' = Some t" for m u
      using d [OF m(3)]
    proof
      assume "drawn_ticket p = Some t"
      then show ?thesis by (rule unique [OF m(1) i m(2)])
    next
      assume "raises_probes p = 1 \<and> t = probe_number (Suc (sy_tried S))"
      then show ?thesis using fresh [OF m(1)] m(2) by simp
    qed
    show ?thesis
    proof (cases "j = i"; cases "k = i")
      assume "j = i" "k \<noteq> i"
      then show ?thesis using own [of k r] that by simp
    next
      assume "j \<noteq> i" "k = i"
      then show ?thesis using own [of j q] that by simp
    next
      assume "j \<noteq> i" "k \<noteq> i"
      then show ?thesis using unique [of j q k r t] that by simp
    qed simp
  qed
  have E: "br_epoch b = of_nat (sy_era S + raises_epoch p)" "br_probes b = of_nat ?tried"
    using exec_epoch [OF ex] exec_probes [OF ex] ep pr by simp_all
  let ?T = "S\<lparr>sy_b := b, sy_calls := (sy_calls S)(i \<mapsto> p'), sy_era := sy_era S + raises_epoch p, sy_tried := ?tried\<rparr>"
  have T: "sy_b ?T = b" "sy_calls ?T = (sy_calls S)(i \<mapsto> p')" "sy_era ?T = sy_era S + raises_epoch p" "sy_tried ?T = ?tried"
    by simp_all
  show ?thesis
    unfolding br_ok_def T
    by (intro conjI allI impI E; (rule A | rule B | rule C | rule D); assumption)
qed

lemma br_step_ok:
  assumes "br_step S S'" "br_ok S" "sy_era S' < 2 ^ 63" "sy_tried S' < 2 ^ 63"
  shows "br_ok S'"
  using assms
proof (induction rule: br_step.induct)
  case (asks S i)
  have "drawn_ticket breaker_Allow = None" by (simp add: breaker_Allow_def)
  moreover have "breaker_Allow \<noteq> BReturn r" for r by (simp add: breaker_Allow_def)
  ultimately show ?case using asks(2) by (auto simp: br_ok_def allow_stage_def split: if_splits)
next
  case (ends S r t i p)
  have "drawn_ticket p = None" "quiet p" using quiet_ends [OF ends(4)] quiet_drawn by auto
  moreover have "p \<noteq> BReturn (Passed u)" for u using \<open>quiet p\<close> by auto
  ultimately show ?case using ends(5) by (auto simp: br_ok_def split: if_splits)
next
  case (runs S i p now p' b)
  then show ?case using br_run_ok [OF runs(3,1,2)] by simp
qed

lemma br_runs_ok:
  assumes "br_step\<^sup>*\<^sup>* S S'" "br_ok S" "sy_era S' < 2 ^ 63" "sy_tried S' < 2 ^ 63"
  shows "br_ok S'"
  using assms
proof (induction rule: rtranclp_induct)
  case (step T T')
  then show ?case using br_step_mono [OF step(2)] br_step_ok [OF step(2)] by simp
qed

lemma br_start_ok: "br_ok (br_start threshold cooldown)"
  by (simp add: br_start_def br_ok_def NewBreaker_def)

section \<open>Requests that are no longer current\<close>

text \<open>
  A request let through while the breaker was closed is current until the breaker next opens or closes; a probe is as
  long as it has the probe's place.
\<close>

definition out_of_date :: "breaker \<Rightarrow> 64 word \<Rightarrow> bool" where
  "out_of_date b t \<longleftrightarrow> (if t AND probeTicket = 0 then t \<noteq> br_epoch b else t \<noteq> br_probe b)"

text \<open>A program that changes nothing as long as the ticket is out of date.\<close>

primrec harmless :: "64 word \<Rightarrow> br_prog \<Rightarrow> bool" where
  "harmless t (BReturn r) = True"
| "harmless t (LoadUntil f) = (\<forall>v. harmless t (f v))"
| "harmless t (LoadEpoch f) = (\<forall>v. v \<noteq> t \<longrightarrow> harmless t (f v))"
| "harmless t (Clock f) = (\<forall>v. harmless t (f v))"
| "harmless t (AddProbes f) = False"
| "harmless t (CasProbe old new f) = (old = t \<and> t AND probeTicket \<noteq> 0 \<and> harmless t (f False))"
| "harmless t (StoreProbe v p) = False"
| "harmless t (StoreFailures n p) = False"
| "harmless t (AddFailures f) = False"
| "harmless t (AddEpoch p) = False"
| "harmless t (StoreUntil v p) = False"

lemma harmless_ends: "ends_with b t p \<Longrightarrow> harmless t p"
  by (auto simp: ends_with_def breaker_Record_def breaker_Release_def)

lemma harmless_exec:
  assumes "harmless t p" "out_of_date b t" "br_epoch b AND probeTicket = 0" "br_exec now p b = (p', b')"
  shows "b' = b \<and> harmless t p'"
proof -
  have "br_epoch b \<noteq> t" using assms(2,3) by (auto simp: out_of_date_def split: if_splits)
  then show ?thesis using assms by (cases p) (auto simp: out_of_date_def split: if_splits)
qed

definition let_through :: "br_system \<Rightarrow> 64 word \<Rightarrow> bool" where
  "let_through S t \<longleftrightarrow> (\<exists>r. sy_calls S r = Some (BReturn (Passed t)))"

lemma let_through_step:
  assumes "br_step S S'" "let_through S t"
  shows "let_through S' t"
proof -
  obtain r where r: "sy_calls S r = Some (BReturn (Passed t))" using assms(2) by (auto simp: let_through_def)
  have "sy_calls S' r = Some (BReturn (Passed t))" using assms(1) r by cases auto
  then show ?thesis by (auto simp: let_through_def)
qed

text \<open>Once out of date, always so: the epoch only grows, and no ticket is drawn twice.\<close>

lemma out_of_date_step:
  assumes st: "br_step S S'" and ok: "br_ok S" and t: "let_through S t" and old: "out_of_date (sy_b S) t"
    and bounds: "sy_era S' < 2 ^ 63" "sy_tried S' < 2 ^ 63"
  shows "out_of_date (sy_b S') t"
  using st
proof cases
  case (runs i p now p' b)
  obtain r where r: "sy_calls S r = Some (BReturn (Passed t))" using t by (auto simp: let_through_def)
  have ep: "br_epoch (sy_b S) = of_nat (sy_era S)" using ok by (simp add: br_ok_def)
  have stg: "allow_stage p \<or> quiet p" using ok runs(2) by (auto simp: br_ok_def)
  show ?thesis
  proof (cases "t AND probeTicket = 0")
    case True
    then obtain e where e: "e \<le> sy_era S" "t = of_nat e" using ok r unfolding br_ok_def by blast
    have "e \<noteq> sy_era S" using old True e ep by (auto simp: out_of_date_def)
    then have "t \<noteq> of_nat (sy_era S + raises_epoch p)"
      using epoch_inj [of e "sy_era S + raises_epoch p"] e bounds(1) runs(1) by auto
    then show ?thesis using True exec_epoch [OF runs(3)] ep runs(1) by (simp add: out_of_date_def)
  next
    case False
    have "br_probe b \<noteq> t"
    proof
      assume b: "br_probe b = t"
      have n0: "t \<noteq> 0" using False by auto
      have p: "br_probe (sy_b S) \<noteq> t" using old False by (auto simp: out_of_date_def)
      then have "\<not> quiet p" using quiet_exec [OF _ runs(3)] b n0 by auto
      then have "drawn_ticket p = Some t"
        using stg runs(3) b p by (auto simp: allow_stage_def breaker_Allow_def take_place_def split: if_splits)
      moreover have "drawn_ticket (BReturn (Passed t)) = Some t" using False by simp
      ultimately have "r = i" using ok r runs(2) unfolding br_ok_def by blast
      then show False using r runs(2,3) b p by simp
    qed
    then show ?thesis using False runs(1) by (simp add: out_of_date_def)
  qed
qed (use old in simp_all)

lemma stale_call:
  assumes "br_step\<^sup>*\<^sup>* S S'" and "br_ok S" "let_through S t" "out_of_date (sy_b S) t" "sy_calls S i = Some p" "harmless t p"
    and "sy_era S' < 2 ^ 63" "sy_tried S' < 2 ^ 63"
  shows "br_ok S' \<and> let_through S' t \<and> out_of_date (sy_b S') t \<and> (\<exists>q. sy_calls S' i = Some q \<and> harmless t q)"
  using assms
proof (induction rule: rtranclp_induct)
  case base
  then show ?case by simp
next
  case (step T T')
  have le: "sy_era T < 2 ^ 63" "sy_tried T < 2 ^ 63" using br_step_mono [OF step(2)] step.prems by auto
  then obtain q where q: "br_ok T" "let_through T t" "out_of_date (sy_b T) t" "sy_calls T i = Some q" "harmless t q"
    using step.IH step.prems by blast
  have "br_ok T'" by (rule br_step_ok [OF step(2) q(1)]) (use step.prems in simp_all)
  moreover have "let_through T' t" by (rule let_through_step [OF step(2) q(2)])
  moreover have "out_of_date (sy_b T') t" by (rule out_of_date_step [OF step(2) q(1-3)]) (use step.prems in simp_all)
  moreover have "\<exists>q. sy_calls T' i = Some q \<and> harmless t q"
    using step(2)
  proof cases
    case (runs j u now u' b)
    have e0: "br_epoch (sy_b T) AND probeTicket = 0" using q(1) epoch_no_probe [OF le(1)] by (simp add: br_ok_def)
    show ?thesis using runs q(4,5) harmless_exec [OF _ q(3) e0 runs(3)] by (cases "j = i") auto
  qed (use q(4,5) in auto)
  ultimately show ?case by blast
qed

section \<open>A call that runs by itself\<close>

primrec br_alone :: "int \<Rightarrow> br_prog \<Rightarrow> breaker \<Rightarrow> br_outcome \<times> breaker" where
  "br_alone now (BReturn r) b = (r, b)"
| "br_alone now (LoadUntil f) b = br_alone now (f (br_openUntil b)) b"
| "br_alone now (LoadEpoch f) b = br_alone now (f (br_epoch b)) b"
| "br_alone now (Clock f) b = br_alone now (f now) b"
| "br_alone now (AddProbes f) b = br_alone now (f (br_probes b + 1)) (b\<lparr>br_probes := br_probes b + 1\<rparr>)"
| "br_alone now (CasProbe old new f) b =
     (if br_probe b = old then br_alone now (f True) (b\<lparr>br_probe := new\<rparr>) else br_alone now (f False) b)"
| "br_alone now (StoreProbe v p) b = br_alone now p (b\<lparr>br_probe := v\<rparr>)"
| "br_alone now (StoreFailures n p) b = br_alone now p (b\<lparr>br_failures := n\<rparr>)"
| "br_alone now (AddFailures f) b = br_alone now (f (br_failures b + 1)) (b\<lparr>br_failures := br_failures b + 1\<rparr>)"
| "br_alone now (AddEpoch p) b = br_alone now p (b\<lparr>br_epoch := br_epoch b + 1\<rparr>)"
| "br_alone now (StoreUntil t p) b = br_alone now p (b\<lparr>br_openUntil := t\<rparr>)"

lemma br_alone_exec: "br_exec now p b = (p', b') \<Longrightarrow> br_alone now p b = br_alone now p' b'"
  by (cases p) (auto split: if_splits)

lemma br_alone_step:
  assumes "sy_calls S i = Some p" "br_alone now p (sy_b S) = (r, b)" "br_exec now p (sy_b S) = (p', b')"
    and ih: "\<And>S. sy_calls S i = Some p' \<Longrightarrow> br_alone now p' (sy_b S) = (r, b) \<Longrightarrow>
      \<exists>S'. br_step\<^sup>*\<^sup>* S S' \<and> sy_calls S' i = Some (BReturn r) \<and> sy_b S' = b"
  shows "\<exists>S'. br_step\<^sup>*\<^sup>* S S' \<and> sy_calls S' i = Some (BReturn r) \<and> sy_b S' = b"
proof -
  let ?S = "S\<lparr>sy_b := b', sy_calls := (sy_calls S)(i \<mapsto> p'), sy_era := sy_era S + raises_epoch p,
    sy_tried := sy_tried S + raises_probes p\<rparr>"
  have st: "br_step S ?S" by (rule br_step.runs [OF assms(1,3)])
  have "\<exists>S'. br_step\<^sup>*\<^sup>* ?S S' \<and> sy_calls S' i = Some (BReturn r) \<and> sy_b S' = b"
    by (rule ih) (use br_alone_exec [OF assms(3)] assms(2) in simp_all)
  then show ?thesis using converse_rtranclp_into_rtranclp [of br_step, OF st] by blast
qed

lemma br_alone_runs:
  "sy_calls S i = Some p \<Longrightarrow> br_alone now p (sy_b S) = (r, b) \<Longrightarrow>
   \<exists>S'. br_step\<^sup>*\<^sup>* S S' \<and> sy_calls S' i = Some (BReturn r) \<and> sy_b S' = b"
proof (induction p arbitrary: S)
  case (BReturn x)
  then show ?case by auto
next
  case (LoadUntil f)
  show ?case by (rule br_alone_step [OF LoadUntil.prems br_exec.simps(2) LoadUntil.IH [OF rangeI]])
next
  case (LoadEpoch f)
  show ?case by (rule br_alone_step [OF LoadEpoch.prems br_exec.simps(3) LoadEpoch.IH [OF rangeI]])
next
  case (Clock f)
  show ?case by (rule br_alone_step [OF Clock.prems br_exec.simps(4) Clock.IH [OF rangeI]])
next
  case (AddProbes f)
  show ?case by (rule br_alone_step [OF AddProbes.prems br_exec.simps(5) AddProbes.IH [OF rangeI]])
next
  case (CasProbe old new f)
  have ex: "br_exec now (CasProbe old new f) (sy_b S) =
      (f (br_probe (sy_b S) = old), if br_probe (sy_b S) = old then (sy_b S)\<lparr>br_probe := new\<rparr> else sy_b S)" by simp
  show ?case by (rule br_alone_step [OF CasProbe.prems ex CasProbe.IH [OF rangeI]])
next
  case (StoreProbe v p)
  show ?case by (rule br_alone_step [OF StoreProbe.prems br_exec.simps(7) StoreProbe.IH])
next
  case (StoreFailures n p)
  show ?case by (rule br_alone_step [OF StoreFailures.prems br_exec.simps(8) StoreFailures.IH])
next
  case (AddFailures f)
  show ?case by (rule br_alone_step [OF AddFailures.prems br_exec.simps(9) AddFailures.IH [OF rangeI]])
next
  case (AddEpoch p)
  show ?case by (rule br_alone_step [OF AddEpoch.prems br_exec.simps(10) AddEpoch.IH])
next
  case (StoreUntil t p)
  show ?case by (rule br_alone_step [OF StoreUntil.prems br_exec.simps(11) StoreUntil.IH])
qed

text \<open>
  C40: however the atomic operations of any number of calls interleave, the outcome of a request that is no longer current
  when it is recorded or released, because the breaker opened or closed since it was let through or because it lost the
  probe's place, changes nothing, and no two requests let through are the same probe. The outcome of a current request
  does change the breaker: recorded without interference, a success resets the failures and a failure adds to them and
  opens the breaker at the threshold while it is closed, and while it is open the probe's success closes it and its
  failure reopens it.
\<close>

theorem breaker_current:
  assumes reach: "br_step\<^sup>*\<^sup>* (br_start threshold cooldown) S" and run: "br_step\<^sup>*\<^sup>* S S'"
    and bounds: "sy_era S' < 2 ^ 63" "sy_tried S' < 2 ^ 63"
    and r: "sy_calls S r = Some (BReturn (Passed t))" and call: "sy_calls S i = Some p" "ends_with (sy_b S) t p"
  shows "(out_of_date (sy_b S) t \<longrightarrow> (\<exists>q. sy_calls S' i = Some q \<and> snd (br_exec now q (sy_b S')) = sy_b S')) \<and>
    (sy_calls S' j = Some (BReturn (Passed u)) \<and> sy_calls S' k = Some (BReturn (Passed u)) \<and> u AND probeTicket \<noteq> 0 \<longrightarrow> j = k) \<and>
    (\<not> out_of_date (sy_b S) t \<and> p = breaker_Record (br_threshold (sy_b S)) (br_cooldown (sy_b S)) t success \<longrightarrow>
      (\<exists>T. br_step\<^sup>*\<^sup>* S T \<and> sy_calls T i = Some (BReturn Ended) \<and> sy_b T =
        (let b = sy_b S; until = now + br_cooldown b; opens = br_failures b + 1 \<ge> br_threshold b
         in if br_openUntil b = 0 \<and> t AND probeTicket = 0 then
              if success then b\<lparr>br_failures := 0\<rparr>
              else if opens then b\<lparr>br_failures := br_failures b + 1, br_openUntil := until, br_probe := 0, br_epoch := br_epoch b + 1\<rparr>
              else b\<lparr>br_failures := br_failures b + 1\<rparr>
            else if br_openUntil b \<noteq> 0 \<and> t AND probeTicket \<noteq> 0 then
              if success then b\<lparr>br_probe := 0, br_failures := 0, br_epoch := br_epoch b + 1, br_openUntil := 0\<rparr>
              else b\<lparr>br_probe := 0, br_openUntil := until\<rparr>
            else b)))"
proof -
  have le: "sy_era S < 2 ^ 63" "sy_tried S < 2 ^ 63" using br_steps_mono [OF run] bounds by auto
  have ok: "br_ok S" by (rule br_runs_ok [OF reach br_start_ok le])
  have ok': "br_ok S'" by (rule br_runs_ok [OF run ok bounds])
  have t: "let_through S t" using r by (auto simp: let_through_def)
  have e0: "br_epoch (sy_b S) AND probeTicket = 0" "br_epoch (sy_b S') AND probeTicket = 0"
    using ok ok' epoch_no_probe [OF le(1)] epoch_no_probe [OF bounds(1)] by (simp_all add: br_ok_def)
  have stale: "\<exists>q. sy_calls S' i = Some q \<and> snd (br_exec now q (sy_b S')) = sy_b S'" if o: "out_of_date (sy_b S) t"
  proof -
    obtain q where q: "out_of_date (sy_b S') t" "sy_calls S' i = Some q" "harmless t q"
      using stale_call [OF run ok t o call(1) harmless_ends [OF call(2)] bounds] by blast
    obtain q' b where "br_exec now q (sy_b S') = (q', b)" by (rule prod.exhaust)
    then show ?thesis using harmless_exec [OF q(3,1) e0(2)] q(2) by auto
  qed
  have one: "j = k" if "sy_calls S' j = Some (BReturn (Passed u))" "sy_calls S' k = Some (BReturn (Passed u))" "u AND probeTicket \<noteq> 0"
  proof -
    have "drawn_ticket (BReturn (Passed u)) = Some u" using that(3) by simp
    then show ?thesis using ok' that(1,2) unfolding br_ok_def by blast
  qed
  have cur: "\<exists>T. br_step\<^sup>*\<^sup>* S T \<and> sy_calls T i = Some (BReturn Ended) \<and> sy_b T = b"
    if "br_alone now p (sy_b S) = (Ended, b)" for b
    using br_alone_runs [OF call(1) that] .
  have eff: "br_alone now (breaker_Record (br_threshold b) (br_cooldown b) t success) b =
      (Ended, if br_openUntil b = 0 \<and> t AND probeTicket = 0 then
              if success then b\<lparr>br_failures := 0\<rparr>
              else if br_failures b + 1 \<ge> br_threshold b
              then b\<lparr>br_failures := br_failures b + 1, br_openUntil := now + br_cooldown b, br_probe := 0, br_epoch := br_epoch b + 1\<rparr>
              else b\<lparr>br_failures := br_failures b + 1\<rparr>
            else if br_openUntil b \<noteq> 0 \<and> t AND probeTicket \<noteq> 0 then
              if success then b\<lparr>br_probe := 0, br_failures := 0, br_epoch := br_epoch b + 1, br_openUntil := 0\<rparr>
              else b\<lparr>br_probe := 0, br_openUntil := now + br_cooldown b\<rparr>
            else b)" if "\<not> out_of_date b t" "br_epoch b AND probeTicket = 0" for b
    using that by (auto simp: breaker_Record_def out_of_date_def split: if_splits)
  show ?thesis
    unfolding Let_def using stale one cur eff [OF _ e0(1)] by blast
qed

text \<open>The witness: a request let through, about to be recorded as a failure.\<close>

definition ex_br :: br_system where
  "ex_br = \<lparr>sy_b = NewBreaker 2 5, sy_calls = [0 \<mapsto> BReturn (Passed 0), 1 \<mapsto> breaker_Record 2 5 0 False], sy_ended = {0},
     sy_era = 0, sy_tried = 0\<rparr>"

lemma ex_br_reached: "br_step\<^sup>*\<^sup>* (br_start 2 5) ex_br"
proof -
  let ?s = "\<lambda>p. (br_start 2 5)\<lparr>sy_calls := [0 \<mapsto> p]\<rparr>"
  have "br_step (br_start 2 5) (?s breaker_Allow)"
    using br_step.asks [of "br_start 2 5" 0] by (simp add: br_start_def)
  moreover have "br_step (?s breaker_Allow) (?s (LoadEpoch (\<lambda>e. BReturn (Passed e))))"
    using br_step.runs [of "?s breaker_Allow" 0 breaker_Allow 0] by (simp add: br_start_def breaker_Allow_def NewBreaker_def)
  moreover have "br_step (?s (LoadEpoch (\<lambda>e. BReturn (Passed e)))) (?s (BReturn (Passed 0)))"
    using br_step.runs [of "?s (LoadEpoch (\<lambda>e. BReturn (Passed e)))" 0 "LoadEpoch (\<lambda>e. BReturn (Passed e))" 0]
    by (simp add: br_start_def NewBreaker_def)
  moreover have "br_step (?s (BReturn (Passed 0))) ex_br"
  proof -
    have "ends_with (sy_b (?s (BReturn (Passed 0)))) 0 (breaker_Record 2 5 0 False)"
      by (auto simp: ends_with_def br_start_def NewBreaker_def)
    from br_step.ends [of "?s (BReturn (Passed 0))" 0 0 1, OF _ _ _ this] show ?thesis
      by (simp add: ex_br_def br_start_def fun_upd_twist)
  qed
  ultimately show ?thesis by (meson rtranclp.rtrancl_into_rtrancl rtranclp.rtrancl_refl)
qed

theorem breaker_current_witness:
  "\<exists>T. br_step\<^sup>*\<^sup>* ex_br T \<and> sy_calls T 1 = Some (BReturn Ended) \<and> br_failures (sy_b T) = 1 \<and> br_openUntil (sy_b T) = 0"
proof -
  have e: "ends_with (sy_b ex_br) 0 (breaker_Record 2 5 0 False)" by (auto simp: ends_with_def ex_br_def NewBreaker_def)
  have "\<not> out_of_date (sy_b ex_br) 0" by (simp add: out_of_date_def ex_br_def NewBreaker_def)
  then obtain T where "br_step\<^sup>*\<^sup>* ex_br T" "sy_calls T 1 = Some (BReturn Ended)" "sy_b T = (sy_b ex_br)\<lparr>br_failures := 1\<rparr>"
    using breaker_current [OF ex_br_reached rtranclp.rtrancl_refl, of 0 0 1 "breaker_Record 2 5 0 False" 0 0 0 0 False] e
    by (auto simp: ex_br_def NewBreaker_def)
  then show ?thesis by (auto simp: ex_br_def NewBreaker_def)
qed

section \<open>The adaptive limit\<close>

text \<open>
  The limiter with the changes of its limit still to be made, the requests that have added themselves and not yet read
  the limit, with what they counted, and the number of those admitted.
\<close>

record ad_system =
  as_a :: adaptive
  as_pending :: "limit_change list"
  as_entering :: "int list"
  as_admitted :: nat

inductive adaptive_step :: "ad_system \<Rightarrow> ad_system \<Rightarrow> bool" where
  enters: "adaptive_enter (as_a S) = (c, a) \<Longrightarrow> adaptive_step S (S\<lparr>as_a := a, as_entering := c # as_entering S\<rparr>)"
| admitted: "c \<in> set (as_entering S) \<Longrightarrow> adaptive_admits c (as_a S) \<Longrightarrow>
    adaptive_step S (S\<lparr>as_entering := remove1 c (as_entering S), as_admitted := as_admitted S + 1\<rparr>)"
| limited: "c \<in> set (as_entering S) \<Longrightarrow> \<not> adaptive_admits c (as_a S) \<Longrightarrow>
    adaptive_step S (S\<lparr>as_a := adaptive_Release (as_a S), as_entering := remove1 c (as_entering S)\<rparr>)"
| frees: "as_admitted S = Suc n \<Longrightarrow> adaptive_step S (S\<lparr>as_a := adaptive_Release (as_a S), as_admitted := n\<rparr>)"
| judges: "adaptive_judge now failed d (as_a S) = (k, a) \<Longrightarrow>
    adaptive_step S (S\<lparr>as_a := a, as_pending := (case k of None \<Rightarrow> as_pending S | Some k \<Rightarrow> k # as_pending S)\<rparr>)"
| changes: "k \<in> set (as_pending S) \<Longrightarrow>
    adaptive_step S (S\<lparr>as_a := adaptive_update k (as_a S), as_pending := remove1 k (as_pending S)\<rparr>)"

lemma half_bounds: "0 \<le> l \<Longrightarrow> 0 \<le> half l \<and> half l \<le> l"
  by (cases "l = 0") (auto simp: half_def)

definition ad_ok :: "int \<Rightarrow> int \<Rightarrow> ad_system \<Rightarrow> bool" where
  "ad_ok mn mx S \<longleftrightarrow> ad_min (as_a S) = mn \<and> ad_max (as_a S) = mx \<and> mn \<le> ad_limit (as_a S) \<and> ad_limit (as_a S) \<le> mx \<and>
     ad_concurrency (as_a S) = int (as_admitted S) + int (length (as_entering S))"

lemma adaptive_update_bounds:
  assumes "0 \<le> ad_min a" "ad_min a \<le> ad_limit a" "ad_limit a \<le> ad_max a" "ad_max a < 2 ^ 63 - 1"
  shows "ad_min a \<le> ad_limit (adaptive_update k a) \<and> ad_limit (adaptive_update k a) \<le> ad_max a"
proof -
  have "wrap64 (ad_limit a + 1) = ad_limit a + 1" using assms by (intro wrap64_id) (simp add: is_int64_def)
  then show ?thesis using assms half_bounds [of "ad_limit a"] by (cases k) auto
qed

lemma entering_removed: "c \<in> set cs \<Longrightarrow> int (length (remove1 c cs)) = int (length cs) - 1"
  by (induction cs) auto

lemma adaptive_step_ok:
  assumes "adaptive_step S S'" "ad_ok mn mx S" "0 \<le> mn" "mx < 2 ^ 63 - 1"
  shows "ad_ok mn mx S'"
  using assms
proof (induction rule: adaptive_step.induct)
  case (changes k S)
  moreover have "ad_min (adaptive_update k a) = ad_min a" "ad_max (adaptive_update k a) = ad_max a"
    "ad_concurrency (adaptive_update k a) = ad_concurrency a" for a by (cases k; simp)+
  ultimately show ?case using adaptive_update_bounds [of "as_a S" k] by (simp add: ad_ok_def)
next
  case (admitted c S)
  then show ?case using entering_removed [of c "as_entering S"] by (simp add: ad_ok_def)
next
  case (limited c S)
  then show ?case using entering_removed [of c "as_entering S"] by (simp add: ad_ok_def adaptive_Release_def)
qed (auto simp: ad_ok_def adaptive_enter_def adaptive_Release_def adaptive_judge_def Let_def split: if_splits)

text \<open>
  However the calls interleave, the adaptive limit stays between its minimum and maximum, the concurrency counted is that
  of the requests admitted and those just adding themselves, and a failure of a request that was sent before the last
  decrease changes nothing: one overload halves the limit once.
\<close>

theorem adaptive_limits:
  assumes "adaptive_step\<^sup>*\<^sup>* \<lparr>as_a = NewAdaptive initial mn mx rtt, as_pending = [], as_entering = [], as_admitted = 0\<rparr> S"
    and "0 \<le> mn" "mn \<le> initial" "initial \<le> mx" "mx < 2 ^ 63 - 1"
  shows "mn \<le> ad_limit (as_a S) \<and> ad_limit (as_a S) \<le> mx \<and>
    ad_concurrency (as_a S) = int (as_admitted S) + int (length (as_entering S)) \<and>
    (is_int64 (now - d) \<and> now - d < ad_decreased (as_a S) \<longrightarrow> adaptive_judge now True d (as_a S) = (None, as_a S))"
proof -
  have "ad_ok mn mx S"
    using assms(1)
  proof (induction rule: rtranclp_induct)
    case base
    then show ?case using assms(2-5) by (simp add: ad_ok_def NewAdaptive_def)
  next
    case (step S S')
    then show ?case using adaptive_step_ok assms(2,5) by blast
  qed
  then show ?thesis by (auto simp: ad_ok_def adaptive_judge_def wrap64_id)
qed

theorem adaptive_limits_witness:
  "ad_limit (adaptive_update Decrease (snd (adaptive_judge 100 True 10 (NewAdaptive 8 1 16 0)))) = 4 \<and> ad_limit (NewAdaptive 8 1 16 0) \<le> 16"
  using adaptive_limits [of 8 1 16 0, OF rtranclp.rtrancl_refl, of 0 0]
  by (simp add: adaptive_judge_def NewAdaptive_def half_def wrap64_def)

section \<open>The token bucket\<close>

fun bucket_run :: "int list \<Rightarrow> token_bucket option \<Rightarrow> nat \<times> token_bucket option" where
  "bucket_run [] b = (0, b)"
| "bucket_run (t # ts) b =
     (let (ok, b') = bucket_Allow t b; (n, b'') = bucket_run ts b' in ((if ok then 1 else 0) + n, b''))"

lemma seconds_add: "seconds (a + b) = seconds a + seconds b"
  by (simp add: seconds_def add_divide_distrib)

lemma bucket_Allow_step:
  "bucket_Allow t (Some b) =
     (let k = min (tb_burst b) (tb_tokens b + seconds (t - tb_last b) * tb_rate b)
      in (\<not> k < 1, Some (b\<lparr>tb_tokens := if k < 1 then k else k - 1, tb_last := t\<rparr>)))"
  by (cases b) (simp add: Let_def)

declare bucket_Allow.simps(2) [simp del]

text \<open>What is let through is paid from the tokens there and those that come.\<close>

lemma bucket_pays:
  assumes "0 \<le> tb_rate b" "0 \<le> tb_tokens b" "0 \<le> tb_burst b" "sorted (tb_last b # ts)" "bucket_run ts (Some b) = (n, Some b')"
  shows "of_nat n + tb_tokens b' \<le> tb_tokens b + seconds (last (tb_last b # ts) - tb_last b) * tb_rate b \<and> 0 \<le> tb_tokens b'"
  using assms
proof (induction ts arbitrary: b n)
  case Nil
  then show ?case by (simp add: seconds_def)
next
  case (Cons t ts)
  let ?k = "min (tb_burst b) (tb_tokens b + seconds (t - tb_last b) * tb_rate b)"
  let ?b = "b\<lparr>tb_tokens := if ?k < 1 then ?k else ?k - 1, tb_last := t\<rparr>"
  have s: "0 \<le> seconds (t - tb_last b) * tb_rate b"
    using Cons.prems by (intro mult_nonneg_nonneg) (simp_all add: seconds_def)
  obtain m where m: "bucket_run ts (Some ?b) = (m, Some b')" "n = (if ?k < 1 then 0 else 1) + m"
    using Cons.prems(5) by (cases "bucket_run ts (Some ?b)") (simp add: bucket_Allow_step Let_def split: if_splits)
  have k: "0 \<le> tb_tokens ?b" using Cons.prems s by (auto simp: not_less)
  have l: "last (tb_last b # t # ts) - tb_last b = (last (t # ts) - t) + (t - tb_last b)" by simp
  have "of_nat m + tb_tokens b' \<le> tb_tokens ?b + seconds (last (t # ts) - t) * tb_rate b \<and> 0 \<le> tb_tokens b'"
    using Cons.IH [OF _ k _ _ m(1)] Cons.prems by simp
  moreover have "tb_tokens ?b + (if ?k < 1 then 0 else 1) \<le> tb_tokens b + seconds (t - tb_last b) * tb_rate b" by simp
  moreover have "(of_nat n :: rat) = (if ?k < 1 then 0 else 1) + of_nat m" by (simp add: m(2))
  ultimately show ?case unfolding l seconds_add distrib_right by linarith
qed

lemma bucket_run_keeps:
  "bucket_run ts (Some b) = (n, c) \<Longrightarrow> \<exists>b'. c = Some b' \<and> tb_rate b' = tb_rate b \<and> tb_burst b' = tb_burst b \<and>
     tb_last b' = last (tb_last b # ts)"
proof (induction ts arbitrary: b n)
  case (Cons t ts)
  let ?k = "min (tb_burst b) (tb_tokens b + seconds (t - tb_last b) * tb_rate b)"
  let ?b = "b\<lparr>tb_tokens := if ?k < 1 then ?k else ?k - 1, tb_last := t\<rparr>"
  obtain m where "bucket_run ts (Some ?b) = (m, c)"
    using Cons.prems by (cases "bucket_run ts (Some ?b)") (simp add: bucket_Allow_step Let_def split: if_splits)
  from Cons.IH [OF this] show ?case by auto
qed auto

text \<open>Whatever calls came before, a token bucket lets through, of calls that come one after the other within a
  window of time, at most its burst and what its rate gives in that window.\<close>

theorem bucket_bounded:
  assumes "NewTokenBucket t0 rate = Some b0" "bucket_run before (Some b0) = (m, b)" "bucket_run (t # ts) b = (n, b')"
    and "sorted (t0 # before @ t # ts)"
  shows "of_nat n \<le> tb_burst b0 + seconds (last (t # ts) - t) * rate"
proof -
  have r: "0 < rate" "b0 = \<lparr>tb_rate = rate, tb_burst = max 1 (of_int \<lceil>rate\<rceil>), tb_tokens = max 1 (of_int \<lceil>rate\<rceil>), tb_last = t0\<rparr>"
    using assms(1) by (auto simp: NewTokenBucket_def Let_def split: if_splits)
  obtain c where c: "b = Some c" "tb_rate c = rate" "tb_burst c = tb_burst b0" "tb_last c = last (t0 # before)"
    using bucket_run_keeps [OF assms(2)] r by auto
  let ?k = "min (tb_burst c) (tb_tokens c + seconds (t - tb_last c) * tb_rate c)"
  let ?c = "c\<lparr>tb_tokens := if ?k < 1 then ?k else ?k - 1, tb_last := t\<rparr>"
  have so: "sorted (t0 # before)" "tb_last c \<le> t" "sorted (t # ts)"
    using assms(4) c(4) by (auto simp: sorted_append)
  have "0 \<le> tb_tokens c" using bucket_pays [of b0 before m c] assms(2) c(1) r so(1) by simp
  moreover have "0 \<le> seconds (t - tb_last c) * tb_rate c"
    using so(2) c(2) r(1) by (intro mult_nonneg_nonneg) (simp_all add: seconds_def)
  ultimately have k: "0 \<le> tb_tokens ?c" using c(3) r by (auto simp: not_less)
  obtain k d where d: "bucket_run ts (Some ?c) = (k, d)" "n = (if ?k < 1 then 0 else 1) + k"
    using assms(3) c(1) by (cases "bucket_run ts (Some ?c)") (simp add: bucket_Allow_step Let_def split: if_splits)
  obtain e where e: "d = Some e" using bucket_run_keeps [OF d(1)] by auto
  have "of_nat k + tb_tokens e \<le> tb_tokens ?c + seconds (last (t # ts) - t) * rate \<and> 0 \<le> tb_tokens e"
    using bucket_pays [OF _ k _ _ d(1) [unfolded e]] c r so(3) by simp
  moreover have "tb_tokens ?c + (if ?k < 1 then 0 else 1) \<le> tb_burst b0" using c(3) by simp
  moreover have "(of_nat n :: rat) = (if ?k < 1 then 0 else 1) + of_nat k" by (simp add: d(2))
  ultimately show ?thesis by linarith
qed

theorem bucket_bounded_witness:
  "fst (bucket_run [0, 0, 0, 0, 1000000000] (NewTokenBucket 0 2)) = 3 \<and>
   (of_nat (fst (bucket_run [0, 0, 0, 0, 1000000000] (NewTokenBucket 0 2))) :: rat) \<le> 2 + 2"
  using bucket_bounded [of 0 2 "\<lparr>tb_rate = 2, tb_burst = 2, tb_tokens = 2, tb_last = 0\<rparr>" "[]" 0
      "Some \<lparr>tb_rate = 2, tb_burst = 2, tb_tokens = 2, tb_last = 0\<rparr>" 0 "[0, 0, 0, 1000000000]" 3
      "Some \<lparr>tb_rate = 2, tb_burst = 2, tb_tokens = 1, tb_last = 1000000000\<rparr>"]
  by (simp add: NewTokenBucket_def bucket_Allow_step Let_def seconds_def)

section \<open>The limits per caller\<close>

text \<open>The calls admitted and not yet ended, each with the state that admitted it.\<close>

inductive keyed_step :: "key_limiter \<times> nat option list \<Rightarrow> key_limiter \<times> nat option list \<Rightarrow> bool" where
  updates: "keyed_step (k, cs) (keyed_Update now lims k, cs)"
| admits: "keyed_Acquire now key k = (Inr s, k') \<Longrightarrow> keyed_step (k, cs) (k', s # cs)"
| refused_key: "keyed_Acquire now key k = (Inl e, k') \<Longrightarrow> keyed_step (k, cs) (k', cs)"
| released_key: "s \<in> set cs \<Longrightarrow> keyed_step (k, cs) (keyed_release s k, remove1 s cs)"

definition keyed_ok :: "key_limiter \<Rightarrow> nat option list \<Rightarrow> bool" where
  "keyed_ok k cs \<longleftrightarrow> (\<forall>key i. kd_keys k key = Some i \<longrightarrow> i < length (kd_states k)) \<and>
     (\<forall>i. Some i \<in> set cs \<longrightarrow> i < length (kd_states k)) \<and>
     (\<forall>i < length (kd_states k). ks_inflight (kd_states k ! i) = int (count_list cs (Some i)))"

lemma key_update_ok:
  assumes "keyed_ok k cs" "\<forall>key i. old key = Some i \<longrightarrow> i < length (kd_states k)"
  shows "keyed_ok (key_update now old kl k) cs \<and> length (kd_states k) \<le> length (kd_states (key_update now old kl k))"
proof -
  obtain key l where kl: "kl = (key, l)" by (cases kl)
  have "\<not> Some (length (kd_states k)) \<in> set cs" using assms(1) by (auto simp: keyed_ok_def)
  then have z: "count_list cs (Some (length (kd_states k))) = 0" by (simp add: count_list_0_iff)
  show ?thesis
  proof (cases "old key")
    case None
    then show ?thesis using assms(1) z
      by (auto simp: key_update_def kl keyed_ok_def nth_append less_Suc_eq split: if_splits)
  next
    case (Some i)
    then have "i < length (kd_states k)" using assms(2) by blast
    then show ?thesis using assms(1) Some
      by (auto simp: key_update_def kl keyed_ok_def Let_def nth_list_update split: if_splits)
  qed
qed

lemma keyed_Update_ok:
  assumes "keyed_ok k cs"
  shows "keyed_ok (keyed_Update now lims k) cs"
proof -
  have "keyed_ok (fold (key_update now (kd_keys k)) lims k0) cs \<and>
      length (kd_states k0) \<le> length (kd_states (fold (key_update now (kd_keys k)) lims k0))"
    if "keyed_ok k0 cs" "length (kd_states k) \<le> length (kd_states k0)" for k0
    using that
  proof (induction lims arbitrary: k0)
    case (Cons kl lims)
    have "\<forall>key i. kd_keys k key = Some i \<longrightarrow> i < length (kd_states k0)"
      using assms Cons.prems(2) by (fastforce simp: keyed_ok_def)
    from key_update_ok [OF Cons.prems(1) this, of now kl] show ?case using Cons.IH Cons.prems by fastforce
  qed simp
  moreover have "keyed_ok (k\<lparr>kd_keys := Map.empty\<rparr>) cs" using assms by (simp add: keyed_ok_def)
  ultimately show ?thesis by (simp add: keyed_Update_def)
qed

lemma keyed_step_ok:
  assumes "keyed_step (k, cs) (k', cs')" "keyed_ok k cs"
  shows "keyed_ok k' cs'"
  using assms(1)
proof cases
  case (updates now lims)
  then show ?thesis using keyed_Update_ok [OF assms(2)] by simp
next
  case (admits now key s)
  then show ?thesis
    using assms(2) by (auto simp: keyed_Acquire_def keyed_ok_def Let_def nth_list_update split: option.splits if_splits prod.splits)
next
  case (refused_key now key e)
  then show ?thesis
    using assms(2) by (auto simp: keyed_Acquire_def keyed_ok_def Let_def nth_list_update split: option.splits if_splits prod.splits)
next
  case (released_key s)
  have c: "int (count_list (remove1 s cs) x) = int (count_list cs x) - (if x = s then 1 else 0)" for x
    using released_key(3) count_list_remove1 [of s cs] by (induction cs) auto
  show ?thesis
  proof (cases s)
    case None
    then show ?thesis using assms(2) released_key c by (auto simp: keyed_ok_def dest: notin_set_remove1)
  next
    case (Some i)
    then have "i < length (kd_states k)" using assms(2) released_key by (auto simp: keyed_ok_def)
    then show ?thesis
      using assms(2) released_key c c [of "Some i"] Some by (auto simp: keyed_ok_def nth_list_update dest: notin_set_remove1)
  qed
qed

lemma keyed_start_ok: "keyed_ok NewKeyed []"
  by (simp add: keyed_ok_def NewKeyed_def)

lemma keyed_reachable_ok: "keyed_step\<^sup>*\<^sup>* (NewKeyed, []) (k, cs) \<Longrightarrow> keyed_ok k cs"
  by (induction rule: rtranclp_induct2) (auto intro: keyed_step_ok keyed_start_ok)

text \<open>In every sequence of updates, calls and releases, a key's calls in flight are those admitted by its state and
  not ended, and a call of a limited key is admitted only while they are below the limit, so releases that come after
  an update neither free nor hold a place of another key or of a later limit.\<close>

theorem keyed_counts:
  assumes "keyed_step\<^sup>*\<^sup>* (NewKeyed, []) (k, cs)" "keyed_Acquire now key k = (Inr (Some i), k')"
  shows "ks_inflight (kd_states k ! i) = int (count_list cs (Some i)) \<and>
    (kl_MaxInflight (ks_limits (kd_states k ! i)) > 0 \<longrightarrow>
      int (count_list (Some i # cs) (Some i)) \<le> kl_MaxInflight (ks_limits (kd_states k ! i)))"
proof -
  have ok: "keyed_ok k cs" by (rule keyed_reachable_ok [OF assms(1)])
  have i: "kd_keys k key = Some i" "\<not> (kl_MaxInflight (ks_limits (kd_states k ! i)) > 0 \<and>
      ks_inflight (kd_states k ! i) \<ge> kl_MaxInflight (ks_limits (kd_states k ! i)))"
    using assms(2) by (auto simp: keyed_Acquire_def Let_def split: option.splits if_splits prod.splits)
  then have "ks_inflight (kd_states k ! i) = int (count_list cs (Some i))" using ok by (auto simp: keyed_ok_def)
  then show ?thesis using i(2) by auto
qed

definition ex_key_limiter :: key_limiter where
  "ex_key_limiter = keyed_Update 0 [(''a'', \<lparr>kl_RPS = 0, kl_MaxInflight = 1\<rparr>)] NewKeyed"

theorem keyed_counts_witness:
  "fst (keyed_Acquire 0 ''a'' ex_key_limiter) = Inr (Some 0) \<and> ks_inflight (kd_states ex_key_limiter ! 0) = 0 \<and>
   fst (keyed_Acquire 0 ''a'' (snd (keyed_Acquire 0 ''a'' ex_key_limiter))) = Inl ErrKeyInflight"
proof -
  have "keyed_step\<^sup>*\<^sup>* (NewKeyed, []) (ex_key_limiter, [])"
    unfolding ex_key_limiter_def by (rule r_into_rtranclp) (rule keyed_step.updates)
  from keyed_counts [OF this, of 0 "''a''" 0 "snd (keyed_Acquire 0 ''a'' ex_key_limiter)"] show ?thesis
    by (simp add: ex_key_limiter_def keyed_Update_def key_update_def NewKeyed_def keyed_Acquire_def NewTokenBucket_def Let_def)
qed

end
