(* ===== verification/Paging.thy ===== *)
theory Paging
  imports Interp_Reads Field_Uses "HOL-Library.AList"
begin

text \<open>
  The order of a read and its paging, \<^verbatim>\<open>src/core/tool/order.go\<close>: the terms a request names and the key columns added to
  them, the predicate that resumes a read after a cursor, and the cursor of the next read. A cursor is a map from the
  ordered fields to values, an association list without a key twice; the joins of a request count here by how they
  rename the paths across relationships, \<open>rename\<close>. The text of an error is a constructor.
\<close>

section \<open>Paths\<close>

definition relationshipByName :: "entity \<Rightarrow> string \<Rightarrow> relationship option" where
  "relationshipByName e name = find (\<lambda>r. rl_Name r = name) (e_Relations e)"

definition pathOf :: "entity \<Rightarrow> string \<Rightarrow> (relationship \<times> string) option" where
  "pathOf e field =
     (case cut (CHR ''.'') field of
        None \<Rightarrow> None
      | Some (name, rest) \<Rightarrow> map_option (\<lambda>r. (r, rest)) (relationshipByName e name))"

definition related_field :: "(string \<rightharpoonup> string) \<Rightarrow> string \<Rightarrow> string" where
  "related_field rename f = (case rename f of Some to \<Rightarrow> to | None \<Rightarrow> f)"

section \<open>The order of a read\<close>

datatype order_error =
    TooManyTerms | OrderedTwice string | BadDir string | DistinctRelated string | DistinctUnselected string
  | FieldRefused field_error | NotPageable | WrongCursor

definition maxOrderTerms :: nat where
  "maxOrderTerms = 8"

record read_order =
  ro_terms :: "order_term list"
  ro_pageable :: bool
  ro_keyFields :: "string list"

definition order_fields :: "read_order \<Rightarrow> string list" where
  "order_fields o' = map ot_Field (ro_terms o')"

record order_json =
  oj_Field :: string
  oj_Dir :: string

record read_input =
  ri_Fields :: "string list"
  ri_OrderBy :: "order_json list"
  ri_Distinct :: bool
  ri_Limit :: int

definition hasMaskedField :: "resolved \<Rightarrow> string list \<Rightarrow> bool" where
  "hasMaskedField res fs = (validateUnmaskedFields res fs \<noteq> Inr ())"

definition orderTerm :: "resolved \<Rightarrow> read_input \<Rightarrow> order_json \<Rightarrow> (string \<rightharpoonup> string) \<Rightarrow> order_error + (order_term \<times> bool)" where
  "orderTerm res inp t rename =
     (let dir = (if to_lower (oj_Dir t) = [] then ''asc'' else to_lower (oj_Dir t))
      in if dir \<noteq> ''asc'' \<and> dir \<noteq> ''desc'' then Inl (BadDir (oj_Dir t))
         else if pathOf (rs_Entity res) (oj_Field t) \<noteq> None then
           if ri_Distinct inp then Inl (DistinctRelated (oj_Field t))
           else Inr (\<lparr>ot_Field = related_field rename (oj_Field t), ot_Dir = dir, ot_Nullable = True\<rparr>, True)
         else case fieldUses_check \<lparr>fu_read = [], fu_compared = [oj_Field t], fu_written = []\<rparr> res of
             Inl e \<Rightarrow> Inl (FieldRefused e)
           | Inr _ \<Rightarrow>
               (case AttributeByName (rs_Entity res) (oj_Field t) of
                  None \<Rightarrow>
                    if ri_Distinct inp \<and> [] \<notin> set (ri_Fields inp) then Inl (DistinctUnselected (oj_Field t))
                    else Inr (\<lparr>ot_Field = [], ot_Dir = dir, ot_Nullable = False\<rparr>, False)
                | Some a \<Rightarrow>
                    if ri_Distinct inp \<and> \<not> list_ex (\<lambda>f. f = at_Name a \<or> f = at_Alias a) (ri_Fields inp)
                    then Inl (DistinctUnselected (oj_Field t))
                    else Inr (\<lparr>ot_Field = at_Name a, ot_Dir = dir, ot_Nullable = dm_Nullable (at_Domain a)\<rparr>, False)))"

text \<open>The loop of \<^verbatim>\<open>planReadOrder\<close> over the terms asked for, with those taken and whether one is related.\<close>

fun order_terms :: "resolved \<Rightarrow> read_input \<Rightarrow> (string \<rightharpoonup> string) \<Rightarrow> order_json list \<Rightarrow> order_term list \<Rightarrow> bool \<Rightarrow>
    order_error + (order_term list \<times> bool)" where
  "order_terms res inp rename [] terms across = Inr (terms, across)"
| "order_terms res inp rename (t # ts) terms across =
     bindR (orderTerm res inp t rename) (\<lambda>(term', rel).
       if ot_Field term' \<in> set (map ot_Field terms)
       then if rel then order_terms res inp rename ts terms across else Inl (OrderedTwice (oj_Field t))
       else order_terms res inp rename ts (terms @ [term']) (across \<or> rel))"

definition key_term :: "string \<Rightarrow> order_term" where
  "key_term c = \<lparr>ot_Field = c, ot_Dir = ''asc'', ot_Nullable = False\<rparr>"

definition add_key :: "string \<Rightarrow> read_order \<Rightarrow> read_order" where
  "add_key c o' =
     (if c \<in> set (order_fields o') then o'
      else o'\<lparr>ro_terms := ro_terms o' @ [key_term c], ro_keyFields := ro_keyFields o' @ [c]\<rparr>)"

definition planReadOrder :: "resolved \<Rightarrow> read_input \<Rightarrow> (string \<rightharpoonup> string) \<Rightarrow> order_error + read_order" where
  "planReadOrder res inp rename =
     (if ri_OrderBy inp = [] then Inr \<lparr>ro_terms = [], ro_pageable = False, ro_keyFields = []\<rparr>
      else if length (ri_OrderBy inp) > maxOrderTerms then Inl TooManyTerms
      else bindR (order_terms res inp rename (ri_OrderBy inp) [] False) (\<lambda>(terms, across).
        let o' = \<lparr>ro_terms = terms, ro_pageable = False, ro_keyFields = []\<rparr>; key = CursorKey (rs_Entity res)
        in if \<not> ri_Distinct inp \<and> key \<noteq> [] \<and> \<not> hasMaskedField res key
           then Inr ((fold add_key key o')\<lparr>ro_pageable := \<not> across\<rparr>)
           else Inr o'))"

definition withoutKey :: "read_order \<Rightarrow> read_order" where
  "withoutKey o' = \<lparr>ro_terms = filter (\<lambda>t. ot_Field t \<notin> set (ro_keyFields o')) (ro_terms o'), ro_pageable = False,
     ro_keyFields = []\<rparr>"

section \<open>Cursors\<close>

type_synonym cursor = "(string \<times> val) list"

definition afterValue :: "order_term \<Rightarrow> val \<Rightarrow> predicate option" where
  "afterValue t v =
     (if v = VNull then None
      else let past = Condition \<lparr>c_Field = ot_Field t, c_Op = (if ot_Dir t = ''desc'' then OpLt else OpGt), c_Value = v\<rparr>
           in if \<not> ot_Nullable t then Some past
              else Some (Or [past, Condition \<lparr>c_Field = ot_Field t, c_Op = OpIsNull, c_Value = VNull\<rparr>]))"

definition equalsValue :: "string \<Rightarrow> val \<Rightarrow> predicate" where
  "equalsValue field v =
     (if v = VNull then Condition \<lparr>c_Field = field, c_Op = OpIsNull, c_Value = VNull\<rparr>
      else Condition \<lparr>c_Field = field, c_Op = OpEq, c_Value = v\<rparr>)"

definition conjunction :: "predicate list \<Rightarrow> predicate" where
  "conjunction ps = (case ps of [] \<Rightarrow> NilPred | [p] \<Rightarrow> p | _ \<Rightarrow> And ps)"

text \<open>The loop of \<^verbatim>\<open>orderCursor\<close>: the equalities of the terms before, and the disjuncts so far.\<close>

fun cursor_terms :: "order_term list \<Rightarrow> cursor \<Rightarrow> predicate list \<Rightarrow> predicate list \<Rightarrow> order_error + predicate list" where
  "cursor_terms [] cursor ands ors = Inr ors"
| "cursor_terms (t # ts) cursor ands ors =
     (case map_of cursor (ot_Field t) of
        None \<Rightarrow> Inl WrongCursor
      | Some v \<Rightarrow>
          if v = VNull \<and> \<not> ot_Nullable t then Inl WrongCursor
          else cursor_terms ts cursor (ands @ [equalsValue (ot_Field t) v])
            (case afterValue t v of None \<Rightarrow> ors | Some after \<Rightarrow> ors @ [conjunction (ands @ [after])]))"

definition orderCursor :: "read_order \<Rightarrow> cursor \<Rightarrow> order_error + predicate" where
  "orderCursor o' cursor =
     (if \<not> ro_pageable o' then Inl NotPageable
      else if length cursor \<noteq> length (ro_terms o') then Inl WrongCursor
      else bindR (cursor_terms (ro_terms o') cursor [] []) (\<lambda>ors.
        case ors of [] \<Rightarrow> Inl WrongCursor | [p] \<Rightarrow> Inr p | _ \<Rightarrow> Inr (Or ors)))"

text \<open>A row a caller receives, by the name of each field.\<close>

type_synonym named_row = "string \<rightharpoonup> val"

definition cursor_value :: "entity \<Rightarrow> named_row \<Rightarrow> string \<Rightarrow> val option" where
  "cursor_value e row f =
     (case row f of
        Some v \<Rightarrow> Some v
      | None \<Rightarrow> (case AttributeByName e f of
           Some a \<Rightarrow> if at_Alias a \<noteq> [] then row (at_Alias a) else None
         | None \<Rightarrow> None))"

fun cursor_of :: "entity \<Rightarrow> named_row \<Rightarrow> order_term list \<Rightarrow> cursor \<Rightarrow> cursor option" where
  "cursor_of e row [] out = Some out"
| "cursor_of e row (t # ts) out =
     (case cursor_value e row (ot_Field t) of
        None \<Rightarrow> None
      | Some v \<Rightarrow> cursor_of e row ts (AList.update (ot_Field t) v out))"

definition nextCursor :: "read_order \<Rightarrow> resolved \<Rightarrow> read_input \<Rightarrow> named_row list \<Rightarrow> cursor option" where
  "nextCursor o' res inp rs =
     (if \<not> ro_pageable o' \<or> ri_Limit inp \<le> 0 \<or> int (length rs) < ri_Limit inp then None
      else cursor_of (rs_Entity res) (last rs) (ro_terms o') [])"

text \<open>The fields added to a projection to build the cursor are dropped from the rows.\<close>

definition trimmed_fields :: "read_order \<Rightarrow> resolved \<Rightarrow> read_input \<Rightarrow> string list" where
  "trimmed_fields o' res inp =
     (if ri_Fields inp = [] then []
      else filter (\<lambda>f. case AttributeByName (rs_Entity res) f of
             Some a \<Rightarrow> \<not> (at_Name a \<in> set (ri_Fields inp) \<or> at_Alias a \<noteq> [] \<and> at_Alias a \<in> set (ri_Fields inp))
           | None \<Rightarrow> [] \<notin> set (ri_Fields inp)) (order_fields o'))"

definition trimOrderFields :: "read_order \<Rightarrow> resolved \<Rightarrow> read_input \<Rightarrow> named_row list \<Rightarrow> named_row list" where
  "trimOrderFields o' res inp rs = map (\<lambda>row. row |` (- set (trimmed_fields o' res inp))) rs"

end
