(* ===== verification/Paging_Props.thy ===== *)
theory Paging_Props
  imports Paging
begin

text \<open>
  Paging by a cursor loses no row and repeats none: the rows the resumed read selects are, in its order, those that
  follow the row the cursor was taken from.
\<close>

section \<open>The order on values and rows\<close>

definition same :: "val \<Rightarrow> val \<Rightarrow> bool" where
  "same v w \<longleftrightarrow> v = VNull \<and> w = VNull \<or> v \<noteq> VNull \<and> w \<noteq> VNull \<and> compareValues v w = Inr 0"

definition comes_before :: "order_term \<Rightarrow> val \<Rightarrow> val \<Rightarrow> bool" where
  "comes_before t v w \<longleftrightarrow> v \<noteq> VNull \<and>
     (w = VNull \<or> (\<exists>c. compareValues v w = Inr c \<and> (if ot_Dir t = ''desc'' then c > 0 else c < 0)))"

fun row_before :: "(order_term \<times> nat) list \<Rightarrow> val list \<Rightarrow> val list \<Rightarrow> bool" where
  "row_before [] x y = False"
| "row_before ((t, i) # ts) x y = (comes_before t (x ! i) (y ! i) \<or> same (x ! i) (y ! i) \<and> row_before ts x y)"

text \<open>The rows of a typed table: the ordered columns are there, their values comparable, and NULL where nullable.\<close>

definition typed_at :: "(order_term \<times> nat) list \<Rightarrow> val list set \<Rightarrow> bool" where
  "typed_at ts R \<longleftrightarrow> (\<forall>(t, i) \<in> set ts. (ot_Dir t = ''asc'' \<or> ot_Dir t = ''desc'') \<and>
     (\<forall>x\<in>R. i < length x \<and> (\<not> ot_Nullable t \<longrightarrow> x ! i \<noteq> VNull) \<and>
       (\<forall>y\<in>R. x ! i \<noteq> VNull \<longrightarrow> y ! i \<noteq> VNull \<longrightarrow> (\<exists>c. compareValues (x ! i) (y ! i) = Inr c))))"

lemma typed_at_Cons:
  "typed_at ((t, i) # ts) R \<longleftrightarrow> (ot_Dir t = ''asc'' \<or> ot_Dir t = ''desc'') \<and>
     (\<forall>x\<in>R. i < length x \<and> (\<not> ot_Nullable t \<longrightarrow> x ! i \<noteq> VNull) \<and>
       (\<forall>y\<in>R. x ! i \<noteq> VNull \<longrightarrow> y ! i \<noteq> VNull \<longrightarrow> (\<exists>c. compareValues (x ! i) (y ! i) = Inr c))) \<and> typed_at ts R"
  by (auto simp: typed_at_def)

lemma compareValues_cases:
  assumes "compareValues a b = Inr c"
  obtains (rat) p q where "toRat a = Some p" "toRat b = Some q" "c = three_way p q"
  | (str) p q where "a = VStr p" "b = VStr q" "c = three_way p q"
  | (bool) p q where "a = VBool p" "b = VBool q" "c = boolCmp p q"
proof (cases "toRat a")
  case None
  then show ?thesis using assms str bool by (cases a; cases b) (auto simp: compareValues_def)
next
  case (Some p)
  then show ?thesis using assms rat by (cases "toRat b") (auto simp: compareValues_def)
qed

definition chained :: "int \<Rightarrow> int \<Rightarrow> int \<Rightarrow> bool" where
  "chained m n k \<longleftrightarrow> (m \<le> 0 \<and> n \<le> 0 \<longrightarrow> k \<le> 0 \<and> (k = 0 \<longrightarrow> m = 0 \<and> n = 0)) \<and>
     (m \<ge> 0 \<and> n \<ge> 0 \<longrightarrow> k \<ge> 0 \<and> (k = 0 \<longrightarrow> m = 0 \<and> n = 0))"

lemma three_way_chained: "chained (three_way p q) (three_way q r) (three_way p r)"
  by (auto simp: three_way_def chained_def)

lemma boolCmp_chained: "chained (boolCmp p q) (boolCmp q r) (boolCmp p r)"
  by (auto simp: boolCmp_def chained_def)

lemma compare_trans:
  assumes "compareValues a b = Inr m" "compareValues b c = Inr n"
  shows "\<exists>k. compareValues a c = Inr k \<and> chained m n k"
  using assms(1)
proof (cases rule: compareValues_cases)
  case (rat p q)
  from assms(2) rat(2) obtain r where "toRat c = Some r" "n = three_way q r"
    by (cases rule: compareValues_cases) auto
  then show ?thesis using rat three_way_chained by (auto simp: compareValues_def)
next
  case (str p q)
  from assms(2) str(2) obtain r where "c = VStr r" "n = three_way q r"
    by (cases rule: compareValues_cases) auto
  then show ?thesis using str three_way_chained by (auto simp: compareValues_def)
next
  case (bool p q)
  from assms(2) bool(2) obtain r where "c = VBool r" "n = boolCmp q r"
    by (cases rule: compareValues_cases) auto
  then show ?thesis using bool boolCmp_chained by (auto simp: compareValues_def)
qed

lemma compareForSort_nonnull: "v \<noteq> VNull \<Longrightarrow> w \<noteq> VNull \<Longrightarrow> compareForSort v w = compareValues v w"
  by (simp add: compareForSort_def)

lemma equal_fold_dir: "ot_Dir t = ''asc'' \<or> ot_Dir t = ''desc'' \<Longrightarrow> equal_fold (ot_Dir t) ''desc'' \<longleftrightarrow> ot_Dir t = ''desc''"
  by (auto simp: equal_fold_def to_lower_def to_lower_char_def)

text \<open>On typed rows the comparison of the sort is this order, and it never fails.\<close>

lemma sort_less_before:
  assumes "typed_at ts R" "x \<in> R" "y \<in> R"
  shows "sort_less ts x y = (row_before ts x y, [])"
  using assms(1)
proof (induction ts)
  case (Cons ti ts)
  obtain t i where ti: "ti = (t, i)" by (cases ti)
  have ty: "ot_Dir t = ''asc'' \<or> ot_Dir t = ''desc''" "i < length x" "i < length y"
    "x ! i \<noteq> VNull \<Longrightarrow> y ! i \<noteq> VNull \<Longrightarrow> \<exists>c. compareValues (x ! i) (y ! i) = Inr c" "typed_at ts R"
    using Cons.prems assms(2,3) by (auto simp: ti typed_at_Cons)
  note IH = Cons.IH [OF ty(5)]
  show ?case
  proof (cases "x ! i = VNull \<or> y ! i = VNull")
    case True
    then show ?thesis using ty IH by (auto simp: ti comes_before_def same_def compareForSort_def)
  next
    case False
    then obtain c where c: "compareValues (x ! i) (y ! i) = Inr c" using ty(4) by blast
    then show ?thesis
      using False ty IH equal_fold_dir [OF ty(1)]
      by (auto simp: ti comes_before_def same_def compareForSort_nonnull Let_def)
  qed
qed simp

lemma comes_before_trans:
  assumes "comes_before t u v \<and> comes_before t v w \<or> comes_before t u v \<and> same v w \<or> same u v \<and> comes_before t v w"
  shows "comes_before t u w"
proof (cases "w = VNull")
  case True
  then show ?thesis using assms by (auto simp: comes_before_def same_def)
next
  case False
  then have "u \<noteq> VNull" "v \<noteq> VNull" using assms by (auto simp: comes_before_def same_def)
  then obtain m n where mn: "compareValues u v = Inr m" "compareValues v w = Inr n"
    and s: "if ot_Dir t = ''desc'' then m \<ge> 0 \<and> n \<ge> 0 \<and> (m > 0 \<or> n > 0) else m \<le> 0 \<and> n \<le> 0 \<and> (m < 0 \<or> n < 0)"
    using assms False by (auto simp: comes_before_def same_def split: if_splits)
  obtain k where "compareValues u w = Inr k" "chained m n k" using compare_trans [OF mn] by blast
  then show ?thesis using s \<open>u \<noteq> VNull\<close> by (auto simp: comes_before_def chained_def split: if_splits)
qed

lemma same_trans: "same u v \<Longrightarrow> same v w \<Longrightarrow> same u w"
  using compare_trans [of u v 0 w 0] by (auto simp: same_def chained_def)

lemma row_before_trans: "row_before ts x y \<Longrightarrow> row_before ts y z \<Longrightarrow> row_before ts x z"
proof (induction ts)
  case (Cons ti ts)
  obtain t i where ti: "ti = (t, i)" by (cases ti)
  show ?case
    using Cons comes_before_trans [of t "x ! i" "y ! i" "z ! i"] same_trans [of "x ! i" "y ! i" "z ! i"]
    by (auto simp: ti)
qed simp

lemma row_before_irrefl:
  assumes "typed_at ts R" "x \<in> R"
  shows "\<not> row_before ts x x"
  using sort_less_asym [of ts x x] sort_less_before [OF assms(1,2,2)] by auto

lemma row_before_asym:
  assumes "typed_at ts R" "x \<in> R" "y \<in> R" "row_before ts x y"
  shows "\<not> row_before ts y x"
  using sort_less_asym [of ts x y] sort_less_before [OF assms(1-3)] sort_less_before [OF assms(1,3,2)] assms(4) by simp

lemma row_before_total:
  assumes "typed_at ts R" "x \<in> R" "y \<in> R" "\<exists>(t, i) \<in> set ts. \<not> same (x ! i) (y ! i)"
  shows "row_before ts x y \<or> row_before ts y x"
  using assms(1,4)
proof (induction ts)
  case (Cons ti ts)
  obtain t i where ti: "ti = (t, i)" by (cases ti)
  have c: "x ! i \<noteq> VNull \<Longrightarrow> y ! i \<noteq> VNull \<Longrightarrow> \<exists>c. compareValues (x ! i) (y ! i) = Inr c"
    and ty: "typed_at ts R" using Cons.prems assms(2,3) by (auto simp: ti typed_at_Cons)
  have sym: "same (x ! i) (y ! i) \<longleftrightarrow> same (y ! i) (x ! i)"
    using compareValues_swap [of "x ! i" "y ! i"] by (cases "compareValues (y ! i) (x ! i)") (auto simp: same_def)
  show ?case
  proof (cases "same (x ! i) (y ! i)")
    case True
    then show ?thesis using Cons ty sym by (auto simp: ti)
  next
    case False
    then have "comes_before t (x ! i) (y ! i) \<or> comes_before t (y ! i) (x ! i)"
      using c compareValues_swap [of "y ! i" "x ! i"] by (fastforce simp: same_def comes_before_def)
    then show ?thesis by (auto simp: ti)
  qed
qed simp

section \<open>What the cursor's predicate selects\<close>

definition holds_on :: "relation \<Rightarrow> val list \<Rightarrow> predicate \<Rightarrow> bool" where
  "holds_on rel row p \<longleftrightarrow> evalPredicate rel row p = Inr triTrue"

definition total_on :: "relation \<Rightarrow> val list \<Rightarrow> predicate \<Rightarrow> bool" where
  "total_on rel row p \<longleftrightarrow> (\<exists>v. evalPredicate rel row p = Inr v)"

lemma And_total:
  assumes "\<forall>p\<in>set ps. total_on rel row p"
  shows "total_on rel row (And ps) \<and> (holds_on rel row (And ps) \<longleftrightarrow> (\<forall>p\<in>set ps. holds_on rel row p))"
proof -
  have "\<exists>v. evalAnd_loop rel row ps res = Inr v \<and>
      (v = triTrue \<longleftrightarrow> res = triTrue \<and> (\<forall>p\<in>set ps. evalPredicate rel row p = Inr triTrue))" if "res \<noteq> triFalse" for res
    using assms that
  proof (induction ps arbitrary: res)
    case (Cons p ps)
    then obtain v where v: "evalPredicate rel row p = Inr v" by (auto simp: total_on_def)
    show ?case
    proof (cases v)
      case triFalse
      then show ?thesis using v by simp
    next
      case triUnknown
      then show ?thesis using v Cons.IH [of triUnknown] Cons.prems by auto
    next
      case triTrue
      then show ?thesis using v Cons.IH [of res] Cons.prems by auto
    qed
  qed simp
  from this [of triTrue] show ?thesis by (auto simp: total_on_def holds_on_def)
qed

lemma Or_total:
  assumes "\<forall>p\<in>set ps. total_on rel row p"
  shows "total_on rel row (Or ps) \<and> (holds_on rel row (Or ps) \<longleftrightarrow> (\<exists>p\<in>set ps. holds_on rel row p))"
proof -
  have "\<exists>v. evalOr_loop rel row ps res = Inr v \<and>
      (v = triTrue \<longleftrightarrow> (\<exists>p\<in>set ps. evalPredicate rel row p = Inr triTrue))" if "res \<noteq> triTrue" for res
    using assms that
  proof (induction ps arbitrary: res)
    case (Cons p ps)
    then obtain v where v: "evalPredicate rel row p = Inr v" by (auto simp: total_on_def)
    show ?case
    proof (cases v)
      case triTrue
      then show ?thesis using v by simp
    next
      case triUnknown
      then show ?thesis using v Cons.IH [of triUnknown] Cons.prems by auto
    next
      case triFalse
      then show ?thesis using v Cons.IH [of res] Cons.prems by auto
    qed
  qed simp
  from this [of triFalse] show ?thesis by (auto simp: total_on_def holds_on_def)
qed

lemma conjunction_total:
  assumes "\<forall>p\<in>set ps. total_on rel row p" "ps \<noteq> []"
  shows "total_on rel row (conjunction ps) \<and> (holds_on rel row (conjunction ps) \<longleftrightarrow> (\<forall>p\<in>set ps. holds_on rel row p))"
proof (cases "\<exists>p. ps = [p]")
  case True
  then show ?thesis using assms by (auto simp: conjunction_def)
next
  case False
  then have "conjunction ps = And ps" using assms(2) by (auto simp: conjunction_def split: list.splits)
  then show ?thesis using And_total [OF assms(1)] by simp
qed

lemma condition_total:
  assumes "colIndex rel f = Inr i" "i < length row" "evalOp (row ! i) \<lparr>c_Field = f, c_Op = oper, c_Value = v\<rparr> = Inr u"
  shows "total_on rel row (Condition \<lparr>c_Field = f, c_Op = oper, c_Value = v\<rparr>) \<and>
    (holds_on rel row (Condition \<lparr>c_Field = f, c_Op = oper, c_Value = v\<rparr>) \<longleftrightarrow> u = triTrue)"
  using assms by (auto simp: total_on_def holds_on_def evalCondition_def cell_def)

lemma boolTri_True [simp]: "boolTri b = triTrue \<longleftrightarrow> b"
  by (simp add: boolTri_def)

lemma equalsValue_total:
  assumes "colIndex rel f = Inr i" "i < length y" "v \<noteq> VNull \<Longrightarrow> y ! i \<noteq> VNull \<Longrightarrow> \<exists>c. compareValues v (y ! i) = Inr c"
  shows "total_on rel y (equalsValue f v) \<and> (holds_on rel y (equalsValue f v) \<longleftrightarrow> same v (y ! i))"
proof (cases "v = VNull")
  case True
  have "evalOp (y ! i) \<lparr>c_Field = f, c_Op = OpIsNull, c_Value = VNull\<rparr> = Inr (boolTri (y ! i = VNull))"
    by (simp add: evalOp_def)
  from condition_total [OF assms(1,2) this] show ?thesis using True by (simp add: equalsValue_def same_def)
next
  case False
  show ?thesis
  proof (cases "y ! i = VNull")
    case True
    then have "evalOp (y ! i) \<lparr>c_Field = f, c_Op = OpEq, c_Value = v\<rparr> = Inr triUnknown"
      by (simp add: evalOp_def evalComparison_def)
    from condition_total [OF assms(1,2) this] show ?thesis using True False by (simp add: equalsValue_def same_def)
  next
    case n: False
    then obtain c where c: "compareValues v (y ! i) = Inr c" using assms(3) False by blast
    then have "compareValues (y ! i) v = Inr (- c)" using compareValues_swap [of "y ! i" v] by simp
    then have "evalOp (y ! i) \<lparr>c_Field = f, c_Op = OpEq, c_Value = v\<rparr> = Inr (boolTri (- c = 0))"
      using n False by (simp add: evalOp_def evalComparison_def)
    from condition_total [OF assms(1,2) this] show ?thesis using False n c by (simp add: equalsValue_def same_def)
  qed
qed

lemma past_total:
  assumes "colIndex rel (ot_Field t) = Inr i" "i < length y" "v \<noteq> VNull"
    and "y ! i \<noteq> VNull \<Longrightarrow> \<exists>c. compareValues v (y ! i) = Inr c"
  shows "total_on rel y (Condition \<lparr>c_Field = ot_Field t, c_Op = (if ot_Dir t = ''desc'' then OpLt else OpGt), c_Value = v\<rparr>) \<and>
    (holds_on rel y (Condition \<lparr>c_Field = ot_Field t, c_Op = (if ot_Dir t = ''desc'' then OpLt else OpGt), c_Value = v\<rparr>) \<longleftrightarrow>
      y ! i \<noteq> VNull \<and> comes_before t v (y ! i))"
proof (cases "y ! i = VNull")
  case True
  then have "evalOp (y ! i) \<lparr>c_Field = ot_Field t, c_Op = (if ot_Dir t = ''desc'' then OpLt else OpGt), c_Value = v\<rparr> = Inr triUnknown"
    by (simp add: evalOp_def evalComparison_def)
  from condition_total [OF assms(1,2) this] show ?thesis using True by simp
next
  case False
  then obtain c where c: "compareValues v (y ! i) = Inr c" using assms(4) by blast
  then have "compareValues (y ! i) v = Inr (- c)" using compareValues_swap [of "y ! i" v] by simp
  then have "evalOp (y ! i) \<lparr>c_Field = ot_Field t, c_Op = (if ot_Dir t = ''desc'' then OpLt else OpGt), c_Value = v\<rparr> =
      Inr (boolTri (if ot_Dir t = ''desc'' then c > 0 else c < 0))"
    using False assms(3) by (simp add: evalOp_def evalComparison_def)
  from condition_total [OF assms(1,2) this] show ?thesis using False assms(3) c by (simp add: comes_before_def)
qed

lemma afterValue_total:
  assumes "colIndex rel (ot_Field t) = Inr i" "i < length y" "afterValue t v = Some p"
    and "y ! i \<noteq> VNull \<Longrightarrow> \<exists>c. compareValues v (y ! i) = Inr c" "\<not> ot_Nullable t \<Longrightarrow> y ! i \<noteq> VNull"
  shows "total_on rel y p \<and> (holds_on rel y p \<longleftrightarrow> comes_before t v (y ! i))"
proof -
  have v: "v \<noteq> VNull" using assms(3) by (auto simp: afterValue_def)
  note past = past_total [OF assms(1,2) v assms(4)]
  have "evalOp (y ! i) \<lparr>c_Field = ot_Field t, c_Op = OpIsNull, c_Value = VNull\<rparr> = Inr (boolTri (y ! i = VNull))"
    by (simp add: evalOp_def)
  note null = condition_total [OF assms(1,2) this]
  show ?thesis
  proof (cases "ot_Nullable t")
    case True
    then have p: "p = Or [Condition \<lparr>c_Field = ot_Field t, c_Op = (if ot_Dir t = ''desc'' then OpLt else OpGt), c_Value = v\<rparr>,
        Condition \<lparr>c_Field = ot_Field t, c_Op = OpIsNull, c_Value = VNull\<rparr>]"
      using assms(3) v by (simp add: afterValue_def Let_def)
    show ?thesis
      unfolding p using Or_total [of _ rel y] past null v by (auto simp: comes_before_def)
  next
    case False
    then show ?thesis using assms(3,5) v past by (auto simp: afterValue_def Let_def)
  qed
qed

text \<open>The loop: with every equality and disjunct so far evaluating, the disjuncts hold where one of them did or the
  row comes after the cursor's among those that agree with it on the terms before.\<close>

lemma cursor_terms_holds:
  assumes "typed_at (zip ts idx) R" "x \<in> R" "y \<in> R" "mapR (\<lambda>t. colIndex rel (ot_Field t)) ts = Inr idx"
    and "\<forall>(t, i)\<in>set (zip ts idx). map_of cursor (ot_Field t) = Some (x ! i)"
    and "cursor_terms ts cursor ands ors = Inr ors'" "\<forall>p\<in>set ands \<union> set ors. total_on rel y p"
  shows "(\<forall>p\<in>set ors'. total_on rel y p) \<and>
    ((\<exists>p\<in>set ors'. holds_on rel y p) \<longleftrightarrow>
      (\<exists>p\<in>set ors. holds_on rel y p) \<or> (\<forall>p\<in>set ands. holds_on rel y p) \<and> row_before (zip ts idx) x y)"
  using assms(1,4-)
proof (induction ts arbitrary: idx ands ors)
  case Nil
  then show ?case by auto
next
  case (Cons t ts)
  obtain i idx' where i: "colIndex rel (ot_Field t) = Inr i" "mapR (\<lambda>t. colIndex rel (ot_Field t)) ts = Inr idx'" "idx = i # idx'"
    using Cons.prems(2) by (auto simp: bindR_eq_Inr)
  have ty: "i < length x" "i < length y" "\<not> ot_Nullable t \<Longrightarrow> y ! i \<noteq> VNull" "typed_at (zip ts idx') R"
    and cmp: "x ! i \<noteq> VNull \<Longrightarrow> y ! i \<noteq> VNull \<Longrightarrow> \<exists>c. compareValues (x ! i) (y ! i) = Inr c"
    using Cons.prems(1) assms(2,3) by (auto simp: i(3) typed_at_Cons)
  have v: "map_of cursor (ot_Field t) = Some (x ! i)" using Cons.prems(3) by (simp add: i(3))
  note eq = equalsValue_total [OF i(1) ty(2) cmp]
  let ?ands = "ands @ [equalsValue (ot_Field t) (x ! i)]"
  let ?ors = "case afterValue t (x ! i) of None \<Rightarrow> ors | Some after \<Rightarrow> ors @ [conjunction (ands @ [after])]"
  have loop: "cursor_terms ts cursor ?ands ?ors = Inr ors'" using Cons.prems(4) v by (auto split: if_splits)
  have ors: "(\<forall>p\<in>set ?ors. total_on rel y p) \<and> ((\<exists>p\<in>set ?ors. holds_on rel y p) \<longleftrightarrow>
      (\<exists>p\<in>set ors. holds_on rel y p) \<or> (\<forall>p\<in>set ands. holds_on rel y p) \<and> comes_before t (x ! i) (y ! i))"
  proof (cases "afterValue t (x ! i)")
    case None
    then have "x ! i = VNull" by (auto simp: afterValue_def Let_def split: if_splits)
    then show ?thesis using None Cons.prems(5) by (simp add: comes_before_def)
  next
    case (Some p)
    then have "x ! i \<noteq> VNull" by (auto simp: afterValue_def)
    then have "total_on rel y p" "holds_on rel y p \<longleftrightarrow> comes_before t (x ! i) (y ! i)"
      using afterValue_total [OF i(1) ty(2) Some] cmp ty(3) by blast+
    then show ?thesis
      using Some Cons.prems(5) conjunction_total [of "ands @ [p]" rel y] by auto
  qed
  have "\<forall>p\<in>set ?ands \<union> set ?ors. total_on rel y p" using ors eq Cons.prems(5) by auto
  from Cons.IH [OF ty(4) i(2) _ loop this] show ?case
    using Cons.prems(3) ors eq by (auto simp: i(3))
qed

section \<open>The cursor's predicate is valid\<close>

definition cursor_valid :: "predicate \<Rightarrow> bool" where
  "cursor_valid p \<longleftrightarrow> p \<noteq> NilPred \<and> exists_depth p = 0 \<and> (\<forall>q\<in>nodes p. node_ok DefaultMaxINCardinality q)"

lemma cursor_valid_cond:
  "f \<noteq> [] \<Longrightarrow> oper \<in> {OpEq, OpLt, OpGt} \<Longrightarrow> cursor_valid (Condition \<lparr>c_Field = f, c_Op = oper, c_Value = v\<rparr>)"
  "f \<noteq> [] \<Longrightarrow> cursor_valid (Condition \<lparr>c_Field = f, c_Op = OpIsNull, c_Value = VNull\<rparr>)"
  by (auto simp: cursor_valid_def condition_ok_def)

lemma cursor_valid_list:
  assumes "ps \<noteq> []" "\<forall>p\<in>set ps. cursor_valid p"
  shows "cursor_valid (And ps)" "cursor_valid (Or ps)" "cursor_valid (conjunction ps)"
proof -
  have "(\<Union>p\<in>set ps. exists_depth ` {p}) \<subseteq> {0}" using assms by (auto simp: cursor_valid_def)
  then have "Max (insert 0 (exists_depth ` set ps)) = 0" by (intro Max_eqI) auto
  then show a: "cursor_valid (And ps)" and "cursor_valid (Or ps)" using assms by (auto simp: cursor_valid_def)
  from a assms show "cursor_valid (conjunction ps)" by (auto simp: conjunction_def split: list.splits)
qed

lemma cursor_terms_valid:
  assumes "cursor_terms ts cursor ands ors = Inr ors'" "\<forall>t\<in>set ts. ot_Field t \<noteq> []"
    "\<forall>p\<in>set ands \<union> set ors. cursor_valid p"
  shows "(\<forall>p\<in>set ors'. cursor_valid p) \<and> (ors \<noteq> [] \<longrightarrow> ors' \<noteq> []) \<and> ((\<exists>t\<in>set ts. \<not> ot_Nullable t) \<longrightarrow> ors' \<noteq> [])"
  using assms
proof (induction ts cursor ands ors rule: cursor_terms.induct)
  case (2 t ts cursor ands ors)
  from 2(2) obtain v where v: "map_of cursor (ot_Field t) = Some v" "\<not> (v = VNull \<and> \<not> ot_Nullable t)"
    by (auto split: option.splits if_splits)
  let ?ands = "ands @ [equalsValue (ot_Field t) v]"
  let ?ors = "case afterValue t v of None \<Rightarrow> ors | Some after \<Rightarrow> ors @ [conjunction (ands @ [after])]"
  have f: "ot_Field t \<noteq> []" using 2(3) by simp
  have e: "cursor_valid (equalsValue (ot_Field t) v)" using cursor_valid_cond [OF f] by (simp add: equalsValue_def)
  have a: "cursor_valid p" if "afterValue t v = Some p" for p
    using that cursor_valid_cond [OF f] cursor_valid_list(2) by (auto simp: afterValue_def Let_def split: if_splits)
  define ors1 where "ors1 = ?ors"
  have o: "ors \<noteq> [] \<longrightarrow> ors1 \<noteq> []" "\<not> ot_Nullable t \<longrightarrow> ors1 \<noteq> []"
    using v(2) by (auto simp: ors1_def afterValue_def Let_def split: if_splits)
  have h1: "\<forall>p\<in>set ?ands \<union> set ors1. cursor_valid p"
  proof (cases "afterValue t v")
    case None
    then show ?thesis using 2(4) e by (auto simp: ors1_def)
  next
    case (Some p)
    then show ?thesis using 2(4) e a cursor_valid_list(3) [of "ands @ [p]"] by (auto simp: ors1_def)
  qed
  have h2: "cursor_terms ts cursor ?ands ors1 = Inr ors'" using 2(2) v by (auto simp: ors1_def split: if_splits)
  have h3: "\<forall>t\<in>set ts. ot_Field t \<noteq> []" using 2(3) by simp
  from 2(1) [OF v, folded ors1_def, OF h2 h3 h1] show ?case using o by auto
qed auto

lemma cursor_valid_validates: "cursor_valid p \<Longrightarrow> ValidatePredicate p = Inr ()"
  unfolding ValidatePredicate_def by (subst validate_nodes(1)) (auto simp: DefaultMaxINCardinality_def cursor_valid_def)

section \<open>The cursor of a page\<close>

definition named_by :: "relation \<Rightarrow> val list \<Rightarrow> named_row" where
  "named_by rel row = map_of (zip (r_Cols rel) row)"

lemma index_of_named: "index_of cs f = Some i \<Longrightarrow> length cs = length row \<Longrightarrow> map_of (zip cs row) f = Some (row ! i)"
  by (induction cs arbitrary: i row) (auto simp: length_Suc_conv Suc_length_conv split: if_splits)

lemma named_at: "colIndex rel f = Inr i \<Longrightarrow> length row = length (r_Cols rel) \<Longrightarrow> named_by rel row f = Some (row ! i)"
  by (simp add: colIndex_def named_by_def index_of_named split: option.splits)

lemma cursor_of_values:
  assumes "mapR (\<lambda>t. colIndex rel (ot_Field t)) ts = Inr idx" "length row = length (r_Cols rel)" "distinct (map ot_Field ts)"
    "\<forall>t\<in>set ts. ot_Field t \<notin> fst ` set out"
  shows "\<exists>cursor. cursor_of e (named_by rel row) ts out = Some cursor \<and> length cursor = length out + length ts \<and>
    (\<forall>(t, i)\<in>set (zip ts idx). map_of cursor (ot_Field t) = Some (row ! i)) \<and>
    (\<forall>f \<in> fst ` set out. map_of cursor f = map_of out f)"
  using assms
proof (induction ts arbitrary: idx out)
  case (Cons t ts)
  obtain i idx' where i: "colIndex rel (ot_Field t) = Inr i" "mapR (\<lambda>t. colIndex rel (ot_Field t)) ts = Inr idx'" "idx = i # idx'"
    using Cons.prems(1) by (auto simp: bindR_eq_Inr)
  let ?out = "AList.update (ot_Field t) (row ! i) out"
  have u: "fst ` set ?out = insert (ot_Field t) (fst ` set out)" by (simp add: dom_update)
  have l: "length ?out = Suc (length out)" using Cons.prems(4) by (induction out) auto
  have v: "cursor_value e (named_by rel row) (ot_Field t) = Some (row ! i)"
    using named_at [OF i(1) Cons.prems(2)] by (simp add: cursor_value_def)
  have "ot_Field t' \<noteq> ot_Field t" if "t' \<in> set ts" for t'
    using Cons.prems(3) imageI [OF that, of ot_Field] by auto
  then have n: "\<forall>t'\<in>set ts. ot_Field t' \<notin> fst ` set ?out" unfolding u using Cons.prems(4) by auto
  obtain cursor where c: "cursor_of e (named_by rel row) ts ?out = Some cursor" "length cursor = length ?out + length ts"
    "\<forall>(t, i)\<in>set (zip ts idx'). map_of cursor (ot_Field t) = Some (row ! i)" "\<forall>f \<in> fst ` set ?out. map_of cursor f = map_of ?out f"
    using Cons.IH [OF i(2) Cons.prems(2) _ n] Cons.prems(3) by auto
  have "map_of cursor (ot_Field t) = Some (row ! i)" using c(4) u by (simp add: update_conv')
  moreover have "map_of cursor f = map_of out f" if "f \<in> fst ` set out" for f
  proof -
    have "ot_Field t \<notin> fst ` set out" using Cons.prems(4) by simp
    then have "f \<noteq> ot_Field t" using that by blast
    moreover have "f \<in> fst ` set ?out" unfolding u using that by simp
    ultimately show ?thesis using bspec [OF c(4), of f] by (simp add: update_conv')
  qed
  ultimately show ?case using c(1-3) v l by (simp add: i(3))
qed auto

section \<open>Resuming\<close>

lemma strict_sorted_unique:
  assumes "sorted_wrt lt xs" "sorted_wrt lt ys" "mset xs = mset ys" "\<And>x y. x \<in> set xs \<Longrightarrow> y \<in> set xs \<Longrightarrow> lt x y \<Longrightarrow> \<not> lt y x"
  shows "xs = ys"
  using assms
proof (induction xs arbitrary: ys)
  case (Cons x xs)
  obtain y ys' where ys: "ys = y # ys'" using Cons.prems(3) by (cases ys) auto
  have set: "set (x # xs) = set ys" using Cons.prems(3) by (metis set_mset_mset)
  have "x = y"
  proof (rule ccontr)
    assume "x \<noteq> y"
    then have "y \<in> set xs" "x \<in> set ys'" using set ys by auto
    then have "lt x y" "lt y x" using Cons.prems(1,2) ys by auto
    then show False using Cons.prems(4) [of x y] \<open>y \<in> set xs\<close> by auto
  qed
  moreover have "xs = ys'"
    by (rule Cons.IH) (use Cons.prems ys \<open>x = y\<close> in auto)
  ultimately show ?case by (simp add: ys)
qed simp

text \<open>Rows that the ordered fields tell apart, as those of a table do when a key is among the fields.\<close>

definition told_apart :: "(order_term \<times> nat) list \<Rightarrow> val list list \<Rightarrow> bool" where
  "told_apart ts rs \<longleftrightarrow> distinct rs \<and> (\<forall>x\<in>set rs. \<forall>y\<in>set rs. x \<noteq> y \<longrightarrow> (\<exists>(t, i) \<in> set ts. \<not> same (x ! i) (y ! i)))"

lemma sorted_rows:
  assumes ty: "typed_at ts (set rs)" and apart: "told_apart ts rs" and s: "mset ss = mset rs"
    "successively (\<lambda>x y. \<not> fst (sort_less ts y x)) ss"
  shows "sorted_wrt (row_before ts) ss"
proof -
  have set: "set ss = set rs" using s(1) by (metis set_mset_mset)
  have d: "distinct ss" using apart s(1) by (metis told_apart_def mset_eq_imp_distinct_iff)
  have "successively (row_before ts) ss'"
    if "successively (\<lambda>x y. \<not> fst (sort_less ts y x)) ss'" "distinct ss'" "set ss' \<subseteq> set rs" for ss'
    using that
  proof (induction ss' rule: induct_list012)
    case (3 x y zs)
    then have xy: "x \<in> set rs" "y \<in> set rs" "x \<noteq> y" "\<not> fst (sort_less ts y x)" by auto
    then have "\<not> row_before ts y x" using sort_less_before [OF ty xy(2,1)] by simp
    then have "row_before ts x y" using row_before_total [OF ty xy(1,2)] apart xy by (auto simp: told_apart_def)
    then show ?case using 3 by simp
  qed auto
  from this [OF s(2) d] set have "successively (row_before ts) ss" by simp
  then show ?thesis
    by (subst (asm) successively_conv_sorted_wrt) (auto simp: transp_def intro: row_before_trans)
qed

lemma filter_after:
  assumes ty: "typed_at ts R" and s: "sorted_wrt (row_before ts) (pre @ x # post)" and R: "set (pre @ x # post) \<subseteq> R"
  shows "filter (row_before ts x) (pre @ x # post) = post"
proof -
  have "\<not> row_before ts x y" if "y \<in> set pre" for y
    using s that R row_before_asym [OF ty, of y x] by (auto simp: sorted_wrt_append)
  moreover have "\<not> row_before ts x x" using row_before_irrefl [OF ty] R by auto
  moreover have "row_before ts x y" if "y \<in> set post" for y using s that by (auto simp: sorted_wrt_append)
  ultimately show ?thesis by (simp add: filter_empty_conv)
qed

lemma typed_sub: "typed_at ts R \<Longrightarrow> R' \<subseteq> R \<Longrightarrow> typed_at ts R'"
  unfolding typed_at_def by blast

lemma SliceStable_typed:
  assumes "typed_at ts (set rs)" "told_apart ts rs"
  shows "snd (SliceStable (sort_less ts) rs) = [] \<and> sorted_wrt (row_before ts) (fst (SliceStable (sort_less ts) rs))"
proof
  have "set (snd (SliceStable (sort_less ts) rs)) = {}"
    using SliceStable_errors [of _ "sort_less ts" rs] sort_less_before [OF assms(1)] by fastforce
  then show "snd (SliceStable (sort_less ts) rs) = []" by simp
  show "sorted_wrt (row_before ts) (fst (SliceStable (sort_less ts) rs))"
    by (rule sorted_rows [OF assms SliceStable_mset]) (rule SliceStable_sorted, rule sort_less_asym)
qed

lemma cursor_terms_ok:
  assumes "length ts = length idx" "\<forall>(t, i)\<in>set (zip ts idx). map_of cursor (ot_Field t) = Some (x ! i) \<and> (\<not> ot_Nullable t \<longrightarrow> x ! i \<noteq> VNull)"
  shows "\<exists>ors'. cursor_terms ts cursor ands ors = Inr ors'"
  using assms
proof (induction ts arbitrary: idx ands ors)
  case (Cons t ts)
  then obtain i idx' where "idx = i # idx'" by (cases idx) auto
  then show ?case using Cons by auto
qed simp

text \<open>C37: paging by a cursor loses no row and repeats none. Take a read ordered by terms of typed columns, one of them
  never NULL, that tell its rows apart. The cursor taken from the last row of a page resumes the read: its predicate
  is accepted, and the rows it selects, in the read's order, are exactly those after the page.\<close>

theorem orderCursor_resumes:
  assumes "mapR (\<lambda>t. colIndex rel (ot_Field t)) (ro_terms o') = Inr idx" "wf_rel rel"
    and "typed_at (zip (ro_terms o') idx) (set (r_Rows rel))" "told_apart (zip (ro_terms o') idx) (r_Rows rel)"
    and "distinct (order_fields o')" "\<forall>t\<in>set (ro_terms o'). ot_Field t \<noteq> []" "\<exists>t\<in>set (ro_terms o'). \<not> ot_Nullable t"
    and "evalSort (ro_terms o') rel = Inr whole" "r_Rows whole = page @ rest" "page \<noteq> []"
    and "ro_pageable o'" "0 < ri_Limit inp" "ri_Limit inp = int (length page)"
  shows "\<exists>cursor p sel out. nextCursor o' res inp (map (named_by rel) page) = Some cursor \<and> orderCursor o' cursor = Inr p \<and>
    evalSelect db p rel = Inr sel \<and> evalSort (ro_terms o') sel = Inr out \<and> r_Rows out = rest"
proof -
  let ?ts = "zip (ro_terms o') idx" and ?R = "set (r_Rows rel)"
  have sorted: "r_Rows whole = fst (SliceStable (sort_less ?ts) (r_Rows rel))"
    using assms(1,8) by (auto simp: evalSort_Inr)
  obtain pre x where page: "page = pre @ [x]" using assms(10) by (cases page rule: rev_cases) auto
  have set: "set (page @ rest) = ?R" using sorted assms(9) by (metis SliceStable_set(1))
  have x: "x \<in> ?R" "length x = length (r_Cols rel)" using set page assms(2) by (auto simp: wf_rel_def)
  obtain cursor where c: "cursor_of (rs_Entity res) (named_by rel x) (ro_terms o') [] = Some cursor"
    "length cursor = length (ro_terms o')" "\<forall>(t, i)\<in>set ?ts. map_of cursor (ot_Field t) = Some (x ! i)"
    using cursor_of_values [OF assms(1) x(2), of "[]" "rs_Entity res"] assms(5) by (auto simp: order_fields_def)
  have n: "nextCursor o' res inp (map (named_by rel) page) = Some cursor"
    using c(1) assms(11-13) by (simp add: nextCursor_def page)
  have "\<forall>(t, i)\<in>set ?ts. map_of cursor (ot_Field t) = Some (x ! i) \<and> (\<not> ot_Nullable t \<longrightarrow> x ! i \<noteq> VNull)"
  proof clarify
    fix t i assume ti: "(t, i) \<in> set ?ts"
    show "map_of cursor (ot_Field t) = Some (x ! i) \<and> (\<not> ot_Nullable t \<longrightarrow> x ! i \<noteq> VNull)"
      using bspec [OF c(3) ti] bspec [OF assms(3) [unfolded typed_at_def] ti] x(1) by simp
  qed
  then obtain ors where ors: "cursor_terms (ro_terms o') cursor [] [] = Inr ors"
    using cursor_terms_ok [of "ro_terms o'" idx cursor x "[]" "[]"] mapR_length [OF assms(1)] by auto
  have valid: "\<forall>p\<in>set ors. cursor_valid p" "ors \<noteq> []" using cursor_terms_valid [OF ors assms(6)] assms(7) by auto
  define p where "p = (case ors of [p] \<Rightarrow> p | _ \<Rightarrow> Or ors)"
  have p: "orderCursor o' cursor = Inr p" "cursor_valid p"
    using ors valid c(2) assms(11) cursor_valid_list(2) [OF valid(2,1)] by (auto simp: orderCursor_def p_def split: list.splits)
  have sel: "total_on (rel\<lparr>r_db := db\<rparr>) y p \<and> (holds_on (rel\<lparr>r_db := db\<rparr>) y p \<longleftrightarrow> row_before ?ts x y)" if "y \<in> ?R" for y
    using cursor_terms_holds [OF assms(3) x(1) that, of "rel\<lparr>r_db := db\<rparr>" cursor "[]" "[]" ors]
      Or_total [of ors "rel\<lparr>r_db := db\<rparr>" y] assms(1) c(3) ors valid(2)
    by (auto simp: p_def colIndex_def split: list.splits)
  let ?rows = "filter (row_before ?ts x) (r_Rows rel)"
  let ?sel = "\<lparr>r_Cols = r_Cols rel, r_Rows = ?rows, r_db = Map.empty, r_hidden = r_hidden rel\<rparr>"
  have "filterR (\<lambda>row. bindR (evalPredicate (rel\<lparr>r_db := db\<rparr>) row p) (\<lambda>v. Inr (v = triTrue))) (r_Rows rel) = Inr ?rows"
    unfolding filterR_eq_Inr using sel by (auto simp: total_on_def holds_on_def bindR_eq_Inr intro!: filter_cong)
  then have e: "evalSelect db p rel = Inr ?sel"
    using cursor_valid_validates [OF p(2)] by (simp add: evalSelect_def)
  have ty: "typed_at ?ts (set ?rows)" "told_apart ?ts ?rows"
    using typed_sub [OF assms(3)] assms(4) by (auto simp: told_apart_def)
  note st = SliceStable_typed [OF ty] and all = SliceStable_typed [OF assms(3,4)]
  have pr: "fst (SliceStable (sort_less ?ts) (r_Rows rel)) = page @ rest" using sorted assms(9) by simp
  let ?out = "fst (SliceStable (sort_less ?ts) ?rows)"
  have "?out = filter (row_before ?ts x) (page @ rest)"
  proof (rule strict_sorted_unique [of "row_before ?ts"])
    show "sorted_wrt (row_before ?ts) ?out" using st by simp
    show "sorted_wrt (row_before ?ts) (filter (row_before ?ts x) (page @ rest))"
      using all pr by (simp only: sorted_wrt_filter)
    show "mset ?out = mset (filter (row_before ?ts x) (page @ rest))"
      using SliceStable_mset [of "sort_less ?ts" "r_Rows rel"] by (simp only: pr SliceStable_mset mset_filter)
    show "\<not> row_before ?ts v u" if "u \<in> set ?out" "v \<in> set ?out" "row_before ?ts u v" for u v
      by (rule row_before_asym [OF ty(1)]) (use that in \<open>simp_all only: SliceStable_set\<close>)
  qed
  also have "\<dots> = rest"
    using filter_after [OF assms(3), of pre x rest] all set
    unfolding pr page append_assoc append_Cons append_Nil by (metis order_refl)
  finally have out: "?out = rest" .
  have "evalSort (ro_terms o') ?sel = Inr \<lparr>r_Cols = r_Cols rel, r_Rows = rest, r_db = Map.empty, r_hidden = r_hidden rel\<rparr>"
    using st assms(1) by (simp add: evalSort_Inr colIndex_def out)
  from n p(1) e this relation.select_convs(2) show ?thesis by (intro exI conjI)
qed

definition ex_numbers :: relation where
  "ex_numbers = \<lparr>r_Cols = [''id''], r_Rows = [[VInt 2], [VInt 1]], r_db = Map.empty, r_hidden = 0\<rparr>"

definition ex_by_id :: read_order where
  "ex_by_id = \<lparr>ro_terms = [key_term ''id''], ro_pageable = True, ro_keyFields = [''id'']\<rparr>"

definition ex_page :: read_input where
  "ex_page = \<lparr>ri_Fields = [], ri_OrderBy = [], ri_Distinct = False, ri_Limit = 1\<rparr>"

theorem orderCursor_resumes_witness:
  "\<forall>res. \<exists>cursor p sel out. nextCursor ex_by_id res ex_page (map (named_by ex_numbers) [[VInt 1]]) = Some cursor \<and>
    orderCursor ex_by_id cursor = Inr p \<and> evalSelect Map.empty p ex_numbers = Inr sel \<and>
    evalSort (ro_terms ex_by_id) sel = Inr out \<and> r_Rows out = [[VInt 2]]"
proof
  fix res
  have i: "mapR (\<lambda>t. colIndex ex_numbers (ot_Field t)) (ro_terms ex_by_id) = Inr [0]"
    by (simp add: ex_numbers_def ex_by_id_def key_term_def colIndex_def)
  have w: "wf_rel ex_numbers" by (simp add: wf_rel_def ex_numbers_def len_ok_def is_int64_def)
  have t: "typed_at (zip (ro_terms ex_by_id) [0]) (set (r_Rows ex_numbers))"
    by (simp add: typed_at_def ex_numbers_def ex_by_id_def key_term_def compareValues_def)
  have a: "told_apart (zip (ro_terms ex_by_id) [0]) (r_Rows ex_numbers)"
    by (simp add: told_apart_def same_def ex_numbers_def ex_by_id_def key_term_def compareValues_def three_way_def)
  let ?whole = "ex_numbers\<lparr>r_Rows := [[VInt 1], [VInt 2]]\<rparr>"
  have "SliceStable (sort_less (zip (ro_terms ex_by_id) [0])) (r_Rows ex_numbers) = ([[VInt 1], [VInt 2]], [])"
    by code_simp
  then have e: "evalSort (ro_terms ex_by_id) ex_numbers = Inr ?whole"
    using i by (simp add: evalSort_Inr ex_numbers_def)
  show "\<exists>cursor p sel out. nextCursor ex_by_id res ex_page (map (named_by ex_numbers) [[VInt 1]]) = Some cursor \<and>
    orderCursor ex_by_id cursor = Inr p \<and> evalSelect Map.empty p ex_numbers = Inr sel \<and>
    evalSort (ro_terms ex_by_id) sel = Inr out \<and> r_Rows out = [[VInt 2]]"
    by (rule orderCursor_resumes [OF i w t a _ _ _ e])
      (simp_all add: order_fields_def ex_by_id_def key_term_def ex_page_def)
qed

end
