(* ===== verification/Numbers.thy ===== *)
theory Numbers
  imports Relalg Gostd
begin

text \<open>
  The decimal columns of \<^verbatim>\<open>src/core/tool/numbers.go\<close>: a driver takes and returns the numbers of a decimal
  column as text, which the check of a written row compares as the number it holds. The number is read as
  \<^verbatim>\<open>(*big.Rat).SetString\<close> reads it: a fraction of two integers, or digits with a radix point and an exponent,
  in base ten or under a base prefix, with underscores between digits.
\<close>

section \<open>Rational numbers from text\<close>

definition digit_of :: "char \<Rightarrow> nat" where
  "digit_of c =
     (let n = (of_char c :: nat) in
      if 48 \<le> n \<and> n \<le> 57 then n - 48
      else if 97 \<le> n \<and> n \<le> 122 then n - 87
      else if 65 \<le> n \<and> n \<le> 90 then n - 55
      else 63)"

text \<open>
  The digits of a number: its value, their count, their count before the radix point if there is one, and whether an
  underscore is misplaced. \<open>prev\<close> is the character before: a digit \<open>0\<close>, a point or an underscore.
\<close>

record scanned =
  sc_value :: nat
  sc_count :: nat
  sc_point :: "nat option"
  sc_bad :: bool
  sc_prev :: char

fun scan_digits :: "nat \<Rightarrow> bool \<Rightarrow> scanned \<Rightarrow> string \<Rightarrow> scanned \<times> string" where
  "scan_digits b fracOk s [] = (s, [])"
| "scan_digits b fracOk s (c # cs) =
     (if c = CHR ''.'' \<and> fracOk
      then scan_digits b False
        (s\<lparr>sc_bad := sc_bad s \<or> sc_prev s = CHR ''_'', sc_prev := CHR ''.'', sc_point := Some (sc_count s)\<rparr>) cs
      else if c = CHR ''_''
      then scan_digits b fracOk (s\<lparr>sc_bad := sc_bad s \<or> sc_prev s \<noteq> CHR ''0'', sc_prev := CHR ''_''\<rparr>) cs
      else if digit_of c < b
      then scan_digits b fracOk
        (s\<lparr>sc_value := sc_value s * b + digit_of c, sc_count := sc_count s + 1, sc_prev := CHR ''0''\<rparr>) cs
      else (s, c # cs))"

text \<open>
  The base prefix, if any, and what follows it: its base, whether it is the lone \<open>0\<close> of an octal number, the digits
  already read and the rest of the text.
\<close>

definition scan_prefix :: "bool \<Rightarrow> string \<Rightarrow> nat \<times> bool \<times> scanned \<times> string" where
  "scan_prefix fracOk t =
     (let start = \<lparr>sc_value = 0, sc_count = 0, sc_point = None, sc_bad = False, sc_prev = CHR ''.''\<rparr>;
          zero = start\<lparr>sc_prev := CHR ''0''\<rparr>
      in case t of
           CHR ''0'' # c # cs \<Rightarrow>
             if c = CHR ''b'' \<or> c = CHR ''B'' then (2, False, zero, cs)
             else if c = CHR ''o'' \<or> c = CHR ''O'' then (8, False, zero, cs)
             else if c = CHR ''x'' \<or> c = CHR ''X'' then (16, False, zero, cs)
             else if \<not> fracOk then (8, True, zero, c # cs)
             else (10, False, zero\<lparr>sc_count := 1\<rparr>, c # cs)
         | CHR ''0'' # [] \<Rightarrow> (10, False, zero\<lparr>sc_count := 1\<rparr>, [])
         | _ \<Rightarrow> (10, False, start, t))"

text \<open>The number without a sign at the start of a text: its value, base and the digits after its point; and the rest.\<close>

definition scan_nat :: "bool \<Rightarrow> string \<Rightarrow> ((nat \<times> nat \<times> nat) \<times> string) option" where
  "scan_nat fracOk t =
     (let (b, octal, s0, t') = scan_prefix fracOk t;
          (s, rest) = scan_digits b fracOk s0 t'
      in if sc_bad s \<or> sc_prev s = CHR ''_'' then None
         else if sc_count s = 0 then if octal then Some ((0, 10, 0), rest) else None
         else Some ((sc_value s, b, case sc_point s of None \<Rightarrow> 0 | Some dp \<Rightarrow> sc_count s - dp), rest))"

definition scan_sign :: "string \<Rightarrow> bool \<times> string" where
  "scan_sign t = (case t of c # cs \<Rightarrow> if c = CHR ''-'' then (True, cs) else if c = CHR ''+'' then (False, cs) else (False, t) | [] \<Rightarrow> (False, t))"

text \<open>The exponent at the start of a text: its value, its base and the rest; zero where there is none.\<close>

definition scan_exponent :: "string \<Rightarrow> ((int \<times> nat) \<times> string) option" where
  "scan_exponent t =
     (case t of
        [] \<Rightarrow> Some ((0, 10), [])
      | c # cs \<Rightarrow>
          if c \<notin> set ''eEpP'' then Some ((0, 10), t)
          else let (neg, ds) = scan_sign cs;
                   start = \<lparr>sc_value = 0, sc_count = 0, sc_point = None, sc_bad = False, sc_prev = CHR ''.''\<rparr>;
                   (s, rest) = scan_digits 10 False start ds;
                   ex = (if neg then - int (sc_value s) else int (sc_value s))
               in if sc_count s = 0 \<or> \<not> is_int64 ex \<or> sc_bad s \<or> sc_prev s = CHR ''_'' then None
                  else Some ((ex, if c = CHR ''e'' \<or> c = CHR ''E'' then 10 else 2), rest))"

definition signed :: "bool \<Rightarrow> rat \<Rightarrow> rat" where
  "signed neg q = (if neg then - q else q)"

definition scan_fraction :: "string \<Rightarrow> string \<Rightarrow> rat option" where
  "scan_fraction num den =
     (let (neg, n) = scan_sign num in
      case (scan_nat False n, scan_nat False den) of
        (Some ((a, _), []), Some ((b, _), [])) \<Rightarrow> if b = 0 then None else Some (signed neg (of_nat a / of_nat b))
      | _ \<Rightarrow> None)"

definition scan_float :: "string \<Rightarrow> rat option" where
  "scan_float t =
     (let (neg, m) = scan_sign t in
      case scan_nat True m of
        None \<Rightarrow> None
      | Some ((a, b, after), rest) \<Rightarrow>
          (case scan_exponent rest of
             Some ((ex, ebase), []) \<Rightarrow>
               if a = 0 then Some 0
               else
                 let exp5 = (if b = 10 then - int after else 0) + (if ebase = 10 then ex else 0);
                     exp2 = (if b = 10 \<or> b = 2 then - int after else if b = 8 then - int after * 3 else - int after * 4) + ex
                 in if \<bar>exp5\<bar> > 1000000 \<or> \<bar>exp2\<bar> > 10000000 then None
                    else Some (signed neg (of_nat a * 5 powi exp5 * 2 powi exp2))
           | _ \<Rightarrow> None))"

definition SetString :: "string \<Rightarrow> rat option" where
  "SetString s =
     (if s = [] then None
      else case cut (CHR ''/'') s of Some (num, den) \<Rightarrow> scan_fraction num den | None \<Rightarrow> scan_float s)"

section \<open>Decimal columns\<close>

definition isDecimalType :: "string \<Rightarrow> bool" where
  "isDecimalType domainType = (has_prefix (to_lower domainType) ''numeric'' \<or> has_prefix (to_lower domainType) ''decimal'')"

definition exactValue :: "string \<Rightarrow> val \<Rightarrow> val" where
  "exactValue domainType v =
     (case v of
        VStr s \<Rightarrow>
          if \<not> isDecimalType domainType then v
          else (case SetString s of Some r \<Rightarrow> VRat r | None \<Rightarrow> v)
      | _ \<Rightarrow> v)"

section \<open>Laws\<close>

lemma digit_of_digits: "is_digit c \<Longrightarrow> digit_of c = digit_val c \<and> digit_val c < 10 \<and> c \<noteq> CHR ''.'' \<and> c \<noteq> CHR ''_''"
  by (auto simp: is_digit_def digit_of_def digit_val_def)

lemma read_nat_snoc: "read_nat (ds @ [c]) = 10 * read_nat ds + digit_val c"
  by (simp add: read_nat_def)

text \<open>A run of digits adds them to the value.\<close>

lemma scan_digits_run:
  assumes "\<forall>c\<in>set ds. is_digit c" "ds \<noteq> []"
  shows "scan_digits 10 fracOk s (ds @ rest) =
    scan_digits 10 fracOk (s\<lparr>sc_value := sc_value s * 10 ^ length ds + read_nat ds, sc_count := sc_count s + length ds,
      sc_prev := CHR ''0''\<rparr>) rest"
  using assms
proof (induction ds arbitrary: rest rule: rev_induct)
  case (snoc c ds)
  have c: "digit_of c = digit_val c" "digit_val c < 10" "c \<noteq> CHR ''.''" "c \<noteq> CHR ''_''"
    using snoc.prems digit_of_digits [of c] by auto
  show ?case
  proof (cases "ds = []")
    case True
    with c show ?thesis by (simp add: read_nat_def)
  next
    case False
    then show ?thesis using snoc c by (simp add: read_nat_snoc algebra_simps)
  qed
qed simp

definition plain :: "string \<Rightarrow> bool" where
  "plain ds \<longleftrightarrow> ds \<noteq> [] \<and> (\<forall>c\<in>set ds. is_digit c)"

lemma read_nat_Cons0: "read_nat (CHR ''0'' # ds) = read_nat ds"
  by (simp add: read_nat_def digit_val_def)

lemma scan_prefix_digits:
  assumes "plain ds" and "rest = [] \<or> (\<exists>fs. rest = CHR ''.'' # fs)"
  shows "\<exists>z ds'. (z = 0 \<or> z = (1::nat)) \<and> scan_prefix True (ds @ rest) =
      (10, False, \<lparr>sc_value = 0, sc_count = z, sc_point = None, sc_bad = False,
        sc_prev = if z = 0 then CHR ''.'' else CHR ''0''\<rparr>, ds' @ rest) \<and>
    (\<forall>c\<in>set ds'. is_digit c) \<and> read_nat ds' = read_nat ds \<and> z + length ds' = length ds \<and> (ds' = [] \<longrightarrow> z = 1)"
proof (cases "hd ds = CHR ''0''")
  case True
  then obtain ds' where ds: "ds = CHR ''0'' # ds'" using assms(1) by (cases ds) (auto simp: plain_def)
  have "c \<notin> set ''bBoOxX''" if "ds' @ rest = c # cs" for c cs
    using that assms ds by (cases ds') (auto simp: plain_def is_digit_def)
  then show ?thesis using assms(1) ds
    by (intro exI [of _ 1] exI [of _ ds'])
      (cases "ds' @ rest"; auto simp: scan_prefix_def plain_def read_nat_Cons0 Let_def)
next
  case False
  then obtain c cs where "ds = c # cs" "c \<noteq> CHR ''0''" using assms(1) by (cases ds) (auto simp: plain_def)
  then show ?thesis using assms(1)
    by (intro exI [of _ 0] exI [of _ ds]) (auto simp: scan_prefix_def plain_def Let_def split: list.splits char.splits bool.splits)
qed

lemma scan_digits_all:
  assumes "\<forall>c\<in>set ds. is_digit c" "ds = [] \<Longrightarrow> sc_prev s = CHR ''0''"
  shows "scan_digits 10 fracOk s (ds @ rest) =
    scan_digits 10 fracOk (s\<lparr>sc_value := sc_value s * 10 ^ length ds + read_nat ds, sc_count := sc_count s + length ds,
      sc_prev := CHR ''0''\<rparr>) rest"
proof (cases "ds = []")
  case True
  then show ?thesis using assms(2) by (cases s) (simp add: read_nat_def)
qed (use assms scan_digits_run in blast)

lemma read_nat_append: "read_nat (ds @ fs) = read_nat ds * 10 ^ length fs + read_nat fs"
proof (induction fs rule: rev_induct)
  case (snoc c fs)
  have "read_nat (ds @ fs @ [c]) = 10 * read_nat (ds @ fs) + digit_val c" using read_nat_snoc [of "ds @ fs" c] by simp
  then show ?case using snoc by (simp add: read_nat_snoc algebra_simps)
qed (simp add: read_nat_def)

lemma scan_nat_plain:
  assumes "plain ds"
  shows "scan_nat True ds = Some ((read_nat ds, 10, 0), [])"
proof -
  obtain z ds' where z: "z = 0 \<or> z = (1::nat)" "scan_prefix True (ds @ []) = (10, False, \<lparr>sc_value = 0, sc_count = z, sc_point = None,
      sc_bad = False, sc_prev = if z = 0 then CHR ''.'' else CHR ''0''\<rparr>, ds' @ [])"
    and d: "\<forall>c\<in>set ds'. is_digit c" "read_nat ds' = read_nat ds" "z + length ds' = length ds" "ds' = [] \<longrightarrow> z = 1"
    using scan_prefix_digits [OF assms, of "[]"] by blast
  have "length ds \<noteq> 0" using assms by (simp add: plain_def)
  then show ?thesis using z d scan_digits_all [OF d(1), of _ True "[]"] by (auto simp: scan_nat_def)
qed

lemma scan_nat_point:
  assumes "plain ds" "plain fs"
  shows "scan_nat True (ds @ CHR ''.'' # fs) = Some ((read_nat (ds @ fs), 10, length fs), [])"
proof -
  let ?r = "CHR ''.'' # fs"
  obtain z ds' where z: "z = 0 \<or> z = (1::nat)" "scan_prefix True (ds @ ?r) = (10, False, \<lparr>sc_value = 0, sc_count = z, sc_point = None,
      sc_bad = False, sc_prev = if z = 0 then CHR ''.'' else CHR ''0''\<rparr>, ds' @ ?r)"
    and d: "\<forall>c\<in>set ds'. is_digit c" "read_nat ds' = read_nat ds" "z + length ds' = length ds" "ds' = [] \<longrightarrow> z = 1"
    using scan_prefix_digits [OF assms(1), of ?r] by blast
  have f: "\<forall>c\<in>set fs. is_digit c" "fs \<noteq> []" "ds \<noteq> []" using assms by (auto simp: plain_def)
  show ?thesis
    using z d f scan_digits_all [OF d(1), of _ True ?r] scan_digits_run [OF f(1,2), of False _ "[]"]
    by (auto simp: scan_nat_def read_nat_append)
qed

text \<open>
  The text of a decimal number, its digits before and after the point, is read as that number: what a decimal column
  holds is compared exactly.
\<close>

lemma cut_none: "c \<notin> set s \<Longrightarrow> cut c s = None"
  by (induction s) auto

lemma digit_chars: "is_digit c \<Longrightarrow> c \<noteq> CHR ''/'' \<and> c \<noteq> CHR ''-'' \<and> c \<noteq> CHR ''+''"
  by (auto simp: is_digit_def)

lemma plain_chars: "plain ds \<Longrightarrow> c \<in> set ds \<Longrightarrow> c \<noteq> CHR ''/'' \<and> c \<noteq> CHR ''-'' \<and> c \<noteq> CHR ''+''"
  unfolding plain_def using digit_chars by blast

lemma scan_sign_plain: "plain ds \<Longrightarrow> scan_sign (ds @ rest) = (False, ds @ rest)"
  using plain_chars [of ds "hd ds"] by (cases ds) (simp_all add: plain_def scan_sign_def)

lemma powi_10: "(5::rat) powi - int n * 2 powi - int n = 1 / 10 ^ n"
proof -
  have "(10::rat) ^ n = 5 ^ n * 2 ^ n" by (simp add: power_mult_distrib [symmetric])
  then show ?thesis by (simp add: power_int_minus divide_inverse)
qed

lemma SetString_decimal:
  assumes "plain ds" "plain fs" "length fs \<le> 1000000"
  shows "SetString (ds @ CHR ''.'' # fs) = Some (of_nat (read_nat (ds @ fs)) / 10 ^ length fs)"
    and "SetString (CHR ''-'' # ds @ CHR ''.'' # fs) = Some (- of_nat (read_nat (ds @ fs)) / 10 ^ length fs)"
proof -
  have c: "cut CHR ''/'' (ds @ CHR ''.'' # fs) = None"
    using plain_chars [OF assms(1)] plain_chars [OF assms(2)] by (intro cut_none) auto
  have p: "a * 5 powi - int (length fs) * 2 powi - int (length fs) = a / (10::rat) ^ length fs" for a
    unfolding mult.assoc powi_10 by simp
  have "ds \<noteq> []" using assms(1) by (simp add: plain_def)
  then show "SetString (ds @ CHR ''.'' # fs) = Some (of_nat (read_nat (ds @ fs)) / 10 ^ length fs)"
    using c assms(3) p by (simp add: SetString_def scan_float_def scan_sign_plain [OF assms(1)] scan_nat_point [OF assms(1,2)]
        scan_exponent_def Let_def signed_def)
  show "SetString (CHR ''-'' # ds @ CHR ''.'' # fs) = Some (- of_nat (read_nat (ds @ fs)) / 10 ^ length fs)"
    using c assms(3) p by (simp add: SetString_def scan_float_def scan_sign_def scan_nat_point [OF assms(1,2)]
        scan_exponent_def Let_def signed_def)
qed

end
