(* ===== verification/Write_Check.thy ===== *)
theory Write_Check
  imports Interp_Check Field_Uses Numbers "HOL-Library.AList"
begin

text \<open>
  The rows a write leaves, \<^verbatim>\<open>src/core/tool/write_check.go\<close>: a create inserts a row inside the caller's row scope, an
  update takes no row out of it. The values of a call are an association list from its fields, a Go map in the order
  its iteration takes; a row under construction is one from columns, without a column twice.
\<close>

section \<open>The check of a written row\<close>

record row_policy_violation =
  pv_Fields :: "string list"
  pv_cause :: "interp_error option"

definition attribute_of_column :: "entity \<Rightarrow> string \<Rightarrow> attribute option" where
  "attribute_of_column e column = find (\<lambda>a. at_Name a = column) (e_Attributes e)"

definition exactValues :: "entity \<Rightarrow> (string \<times> val) list \<Rightarrow> (string \<times> val) list" where
  "exactValues e row =
     map (\<lambda>(column, v). (column,
       case attribute_of_column e column of Some a \<Rightarrow> exactValue (dm_Type (at_Domain a)) v | None \<Rightarrow> v)) row"

fun pinned_walk :: "predicate \<Rightarrow> (string \<times> val) list \<Rightarrow> (string \<times> val) list" where
  "pinned_walk (And ps) out = fold pinned_walk ps out"
| "pinned_walk (Condition c) out =
     (if c_Op c \<noteq> OpEq \<or> c_Value c = VNull then out
      else case c_Value c of VList _ \<Rightarrow> out | v \<Rightarrow> AList.update (c_Field c) v out)"
| "pinned_walk _ out = out"

definition pinned :: "predicate \<Rightarrow> (string \<times> val) list" where
  "pinned scope = pinned_walk scope []"

definition scopeFields :: "entity \<Rightarrow> predicate \<Rightarrow> string list" where
  "scopeFields e scope =
     sort (fold (\<lambda>column out.
       case attribute_of_column e column of
         None \<Rightarrow> out
       | Some a \<Rightarrow>
           if at_Excluded a then out
           else let name = (if at_Alias a \<noteq> [] then at_Alias a else at_Name a)
                in if name \<in> set out then out else out @ [name])
       (Fields scope) [])"

text \<open>The row a create gives: the caller's values by column, then the values the scope pins of the columns left out.\<close>

definition given_row :: "entity \<Rightarrow> (string \<times> val) list \<Rightarrow> (string \<times> val) list" where
  "given_row e values = fold (\<lambda>(field, v). AList.update (columnOf e field) v) values []"

definition pinned_row :: "predicate \<Rightarrow> (string \<times> val) list \<Rightarrow> (string \<times> val) list" where
  "pinned_row scope row =
     fold (\<lambda>(column, v) row. if map_of row column = None then AList.update column v row else row) (pinned scope) row"

definition insertColumns :: "entity \<Rightarrow> predicate \<Rightarrow> (string \<times> val) list \<Rightarrow> row_policy_violation + (string list \<times> val list)" where
  "insertColumns e scope values =
     (let row = pinned_row scope (given_row e values) in
      case Check scope (map_of (exactValues e row)) of
        (_, Holds, _) \<Rightarrow>
          let columns = sort (map fst row) in Inr (columns, map (\<lambda>c. the (map_of row c)) columns)
      | (_, _, err) \<Rightarrow> Inl \<lparr>pv_Fields = scopeFields e scope, pv_cause = err\<rparr>)"

definition updateCheck :: "entity \<Rightarrow> predicate \<Rightarrow> (string \<times> val) list \<Rightarrow> row_policy_violation + predicate" where
  "updateCheck e scope sets =
     (case Check scope (map_of (exactValues e (given_row e sets))) of
        (_, Holds, _) \<Rightarrow> Inr NilPred
      | (rest, Depends, _) \<Rightarrow> Inr rest
      | (_, Fails, err) \<Rightarrow> Inl \<lparr>pv_Fields = scopeFields e scope, pv_cause = err\<rparr>)"

definition refuseKeyUpdate :: "entity \<Rightarrow> string list \<Rightarrow> string + unit" where
  "refuseKeyUpdate e fs =
     (if e_AllowKeyUpdate e then Inr ()
      else case find (\<lambda>f. columnOf e f \<in> set (CursorKey e)) fs of Some f \<Rightarrow> Inl f | None \<Rightarrow> Inr ())"

definition andPreds :: "predicate \<Rightarrow> predicate \<Rightarrow> predicate" where
  "andPreds a b = (if a = NilPred then b else if b = NilPred then a else And [a, b])"

section \<open>What the rows hold\<close>

declare map_of_update [simp]

lemma given_row_fold:
  assumes "distinct (map (columnOf e) (map fst vs))"
    "\<forall>c\<in>set (map (columnOf e) (map fst vs)). map_of row c = None"
  shows "map_of (fold (\<lambda>(field, v). AList.update (columnOf e field) v) vs row) c =
    (case map_of (map (\<lambda>(f, v). (columnOf e f, v)) vs) c of Some v \<Rightarrow> Some v | None \<Rightarrow> map_of row c)"
  using assms
proof (induction vs arbitrary: row)
  case (Cons fv vs)
  obtain f v where fv: "fv = (f, v)" by (cases fv)
  let ?row = "AList.update (columnOf e f) v row"
  have n: "map_of (map (\<lambda>(f, v). (columnOf e f, v)) vs) (columnOf e f) = None"
    using Cons.prems(1) fv by (force simp: map_of_eq_None_iff)
  have "map_of (fold (\<lambda>(field, v). AList.update (columnOf e field) v) vs ?row) c =
      (case map_of (map (\<lambda>(f, v). (columnOf e f, v)) vs) c of Some v \<Rightarrow> Some v | None \<Rightarrow> map_of ?row c)"
    using Cons.prems fv by (intro Cons.IH) force+
  then show ?case using fv n by (auto split: option.splits)
qed simp

lemma given_row_map:
  assumes "distinct (columnsOf e (map fst vs))"
  shows "map_of (given_row e vs) = map_of (map (\<lambda>(f, v). (columnOf e f, v)) vs)"
proof
  fix c
  show "map_of (given_row e vs) c = map_of (map (\<lambda>(f, v). (columnOf e f, v)) vs) c"
    using assms unfolding given_row_def by (subst given_row_fold) (auto simp: columnsOf_def split: option.splits)
qed

lemma given_row_keys: "distinct (map fst (given_row e vs))"
proof -
  have "distinct (map fst row) \<Longrightarrow> distinct (map fst (fold (\<lambda>(field, v). AList.update (columnOf e field) v) vs row))" for row
    by (induction vs arbitrary: row) (auto simp: distinct_update split: prod.splits)
  then show ?thesis by (simp add: given_row_def)
qed

text \<open>The conjuncts of a predicate: itself, or those of the predicates it is the AND of.\<close>

fun conjuncts :: "predicate \<Rightarrow> predicate list" where
  "conjuncts (And ps) = concat (map conjuncts ps)"
| "conjuncts p = [p]"

lemma pinned_walk_conjuncts:
  "map_of (pinned_walk p out) c = Some v \<Longrightarrow> map_of out c = Some v \<or> Condition \<lparr>c_Field = c, c_Op = OpEq, c_Value = v\<rparr> \<in> set (conjuncts p)"
proof (induction p out arbitrary: c v rule: pinned_walk.induct)
  case (1 ps out)
  have "map_of (fold pinned_walk qs out') c = Some v \<Longrightarrow> set qs \<subseteq> set ps \<Longrightarrow>
      map_of out' c = Some v \<or> (\<exists>q\<in>set qs. Condition \<lparr>c_Field = c, c_Op = OpEq, c_Value = v\<rparr> \<in> set (conjuncts q))" for qs out'
  proof (induction qs arbitrary: out')
    case (Cons q qs)
    then show ?case using "1.IH" [of q out' c v] by auto
  qed simp
  from this [of ps out] show ?case using "1.prems" by auto
next
  case (2 c' out)
  then show ?case by (cases c') (auto split: if_splits val.splits)
qed auto

lemma pinned_conjuncts:
  "map_of (pinned scope) c = Some v \<Longrightarrow> Condition \<lparr>c_Field = c, c_Op = OpEq, c_Value = v\<rparr> \<in> set (conjuncts scope)"
  using pinned_walk_conjuncts [of scope "[]" c v] by (simp add: pinned_def)

lemma pinned_row_fold:
  "map_of (fold (\<lambda>(column, v) row. if map_of row column = None then AList.update column v row else row) ps row) c =
     (case map_of row c of Some v \<Rightarrow> Some v | None \<Rightarrow> map_of ps c)"
  by (induction ps arbitrary: row) (auto split: option.splits prod.splits)

lemma pinned_row_map:
  "map_of (pinned_row scope row) c = (case map_of row c of Some v \<Rightarrow> Some v | None \<Rightarrow> map_of (pinned scope) c)"
  unfolding pinned_row_def by (rule pinned_row_fold)

lemma pinned_row_keys: "distinct (map fst row) \<Longrightarrow> distinct (map fst (pinned_row scope row))"
proof -
  have "distinct (map fst row) \<Longrightarrow> distinct (map fst
      (fold (\<lambda>(column, v) row. if map_of row column = None then AList.update column v row else row) ps row))" for ps row
    by (induction ps arbitrary: row) (auto simp: distinct_update split: prod.splits)
  then show "distinct (map fst row) \<Longrightarrow> distinct (map fst (pinned_row scope row))" by (simp add: pinned_row_def)
qed

section \<open>What the check leaves undecided\<close>

text \<open>The predicates on unknown columns: the value of such a predicate is the same on rows that agree on them.\<close>

fun on_unknown :: "(string \<Rightarrow> val option) \<Rightarrow> predicate \<Rightarrow> bool" where
  "on_unknown known NilPred = True"
| "on_unknown known (Condition c) = (known (c_Field c) = None)"
| "on_unknown known (And ps) = list_all (on_unknown known) ps"
| "on_unknown known (Or ps) = list_all (on_unknown known) ps"
| "on_unknown known (NotP p) = on_unknown known p"
| "on_unknown known (Exists r on p) = False"

lemma partialEval_unknown:
  "partialEval p known = Inr r \<Longrightarrow> on_unknown known (pt_pred r)"
  "partialList ps known d conn res unknown = Inr r \<Longrightarrow> list_all (on_unknown known) res \<Longrightarrow> conn \<in> {And, Or} \<Longrightarrow>
     on_unknown known (pt_pred r)"
proof (induction p known and ps known d conn res unknown arbitrary: r and r rule: partialEval_partialList.induct)
  case (2 c known)
  then show ?case by (auto simp: bindR_eq_Inr decided_def residual_def split: option.splits)
next
  case (7 known d conn res unknown)
  then show ?case
    by (auto simp: partialList_end_def decided_def residual_def list_all_iff split: if_splits)
next
  case (8 p ps known d conn res unknown)
  obtain q where q: "partialEval p known = Inr q" using "8.prems"(1) by (auto simp: bindR_eq_Inr)
  show ?case
    using "8.prems" "8.IH"(1) [OF q] "8.IH"(2,3) [OF q] q by (auto simp: decided_def split: if_splits)
qed (auto simp: bindR_eq_Inr decided_def residual_def split: if_splits)

definition same_unknown :: "relation \<Rightarrow> val list \<Rightarrow> val list \<Rightarrow> (string \<Rightarrow> val option) \<Rightarrow> bool" where
  "same_unknown rel row row' known \<longleftrightarrow> (\<forall>f i. known f = None \<longrightarrow> colIndex rel f = Inr i \<longrightarrow> cell row' i = cell row i)"

lemma evalCondition_same: "known (c_Field c) = None \<Longrightarrow> same_unknown rel row row' known \<Longrightarrow> evalCondition rel row' c = evalCondition rel row c"
  by (cases "colIndex rel (c_Field c)") (auto simp: evalCondition_def same_unknown_def)

lemma conn_loop_same:
  "\<forall>p\<in>set ps. evalPredicate rel' row' p = evalPredicate rel row p \<Longrightarrow> conn_loop d rel' row' ps s = conn_loop d rel row ps s"
  by (induction ps arbitrary: s) (auto intro!: bindR_cong)

lemma eval_same:
  "on_unknown known p \<Longrightarrow> same_unknown rel row row' known \<Longrightarrow> evalPredicate rel row' p = evalPredicate rel row p"
proof (induction known p rule: on_unknown.induct)
  case (3 known ps)
  then show ?case by (simp add: evalAnd_loop_conn list_all_iff conn_loop_same)
next
  case (4 known ps)
  then show ?case by (simp add: evalOr_loop_conn list_all_iff conn_loop_same)
qed (auto simp: evalCondition_same)

lemma andPreds_true:
  assumes "evalPredicate rel row (andPreds a b) = Inr triTrue"
  shows "evalPredicate rel row a = Inr triTrue" "evalPredicate rel row b = Inr triTrue"
  using assms by (auto simp: andPreds_def bindR_eq_Inr split: if_splits) (metis tri.exhaust)+

lemma exactValues_map:
  "map_of (exactValues e row) c = map_option (\<lambda>v. case attribute_of_column e c of
     Some a \<Rightarrow> exactValue (dm_Type (at_Domain a)) v | None \<Rightarrow> v) (map_of row c)"
  unfolding exactValues_def by (induction row) (auto split: option.splits)

lemma keys_exactValues [simp]: "map fst (exactValues e row) = map fst row"
  by (simp add: exactValues_def comp_def split_beta)

section \<open>Properties\<close>

text \<open>The row a create inserts, of which the scope holds by what the columns it names hold.\<close>

lemma insertColumns_row:
  assumes "insertColumns e scope vs = Inr (columns, tuple)" and R: "R = pinned_row scope (given_row e vs)"
  shows "\<exists>r. partialEval scope (map_of (exactValues e R)) = Inr r \<and> pt_pred r = NilPred \<and> pt_v r = triTrue"
    and "columns = sort (map fst R)" and "length tuple = length columns" and "map_of (zip columns tuple) = map_of R"
proof -
  show "\<exists>r. partialEval scope (map_of (exactValues e R)) = Inr r \<and> pt_pred r = NilPred \<and> pt_v r = triTrue"
    and cols: "columns = sort (map fst R)"
    using assms(1) unfolding insertColumns_def R [symmetric] by (auto simp: Let_def Check_def split: sum.splits if_splits)
  have tup: "tuple = map (\<lambda>c. the (map_of R c)) columns"
    using assms(1) unfolding insertColumns_def R [symmetric] by (auto simp: Let_def Check_def split: sum.splits if_splits)
  then show "length tuple = length columns" by simp
  show "map_of (zip columns tuple) = map_of R"
  proof
    fix c
    have "map_of (zip columns tuple) c = (if c \<in> set columns then Some (the (map_of R c)) else None)"
      unfolding tup by (simp add: map_of_zip_map)
    also have "c \<in> set columns \<longleftrightarrow> c \<in> dom (map_of R)" by (simp add: cols dom_map_of_conv_image_fst)
    finally show "map_of (zip columns tuple) c = map_of R c" by (cases "map_of R c") auto
  qed
qed

lemma insertColumns_in_scope:
  assumes "insertColumns e scope vs = Inr (columns, tuple)"
    and "agrees rel row (map_of (exactValues e (zip columns tuple)))" "evalPredicate rel row scope = Inr v"
  shows "v = triTrue"
proof -
  note row = insertColumns_row [OF assms(1) refl]
  obtain r where r: "partialEval scope (map_of (exactValues e (pinned_row scope (given_row e vs)))) = Inr r" "pt_pred r = NilPred" "pt_v r = triTrue"
    using row(1) by blast
  have "map_of (exactValues e (zip columns tuple)) = map_of (exactValues e (pinned_row scope (given_row e vs)))"
    by (rule ext) (simp add: exactValues_map row(4))
  then show ?thesis using partialEval_sound(1) [OF r(1) _ assms(3)] assms(2) r(2,3) by (simp add: evalPartial_def)
qed

text \<open>The columns are the caller's, and beside them only those whose value the scope requires.\<close>

lemma insertColumns_shape:
  assumes "insertColumns e scope vs = Inr (columns, tuple)" "distinct (columnsOf e (map fst vs))"
  shows "distinct columns" and "length tuple = length columns"
    and "\<And>f x. (f, x) \<in> set vs \<Longrightarrow> map_of (zip columns tuple) (columnOf e f) = Some x"
    and "\<And>c x. (c, x) \<in> set (zip columns tuple) \<Longrightarrow> (c, x) \<in> set (map (\<lambda>(f, x). (columnOf e f, x)) vs) \<or>
      Condition \<lparr>c_Field = c, c_Op = OpEq, c_Value = x\<rparr> \<in> set (conjuncts scope)"
proof -
  note row = insertColumns_row [OF assms(1) refl]
  have keys: "distinct (map fst (pinned_row scope (given_row e vs)))" by (intro pinned_row_keys given_row_keys)
  then show d: "distinct columns" by (simp add: row(2))
  show l: "length tuple = length columns" by (rule row(3))
  show "map_of (zip columns tuple) (columnOf e f) = Some y" if "(f, y) \<in> set vs" for f y
  proof -
    have "distinct (map fst (map (\<lambda>(f, v). (columnOf e f, v)) vs))" using assms(2) by (simp add: columnsOf_def comp_def split_beta)
    moreover have "(columnOf e f, y) \<in> set (map (\<lambda>(f, v). (columnOf e f, v)) vs)" using that by force
    ultimately show ?thesis
      unfolding row(4) pinned_row_map given_row_map [OF assms(2)] by (simp add: map_of_is_SomeI)
  qed
  show "(c, y) \<in> set (map (\<lambda>(f, x). (columnOf e f, x)) vs) \<or>
      Condition \<lparr>c_Field = c, c_Op = OpEq, c_Value = y\<rparr> \<in> set (conjuncts scope)" if "(c, y) \<in> set (zip columns tuple)" for c y
  proof -
    have "map_of (pinned_row scope (given_row e vs)) c = Some y"
      using that d l unfolding row(4) [symmetric] by (intro map_of_is_SomeI) simp_all
    then show ?thesis unfolding pinned_row_map given_row_map [OF assms(2)]
      using pinned_conjuncts [of scope c y] by (auto split: option.splits dest: map_of_SomeD)
  qed
qed

text \<open>
  An update takes no row out of the caller's scope. A row the statement selects, once its assigned columns hold
  their new values and its others are as they were, is in scope; and an assignment is refused, where the check gives
  no error, only if no row is in scope after it.
\<close>

lemma updateCheck_keeps_scope:
  assumes "known = map_of (exactValues e (given_row e sets))" "agrees rel row' known" "same_unknown rel row row' known"
    and "evalPredicate rel row' scope = Inr v"
  shows "case updateCheck e scope sets of
      Inr check \<Rightarrow> evalPredicate rel row (andPreds (andPreds pred scope) check) = Inr triTrue \<longrightarrow> v = triTrue
    | Inl refused \<Rightarrow> pv_cause refused = None \<longrightarrow> v \<noteq> triTrue"
proof (cases "partialEval scope known")
  case (Inr r)
  have ev: "evalPartial rel row' r = Inr v" by (rule partialEval_sound(1) [OF Inr assms(2,4)])
  show ?thesis
  proof (cases "pt_pred r = NilPred")
    case True
    then show ?thesis using Inr ev by (auto simp: updateCheck_def assms(1) [symmetric] Check_def evalPartial_def)
  next
    case False
    have "evalPredicate rel row' (pt_pred r) = evalPredicate rel row (pt_pred r)"
      by (rule eval_same [OF partialEval_unknown(1) [OF Inr] assms(3)])
    then have "evalPredicate rel row (pt_pred r) = Inr v" using ev False by (simp add: evalPartial_def)
    moreover have "updateCheck e scope sets = Inr (pt_pred r)"
      using Inr False by (simp add: updateCheck_def assms(1) [symmetric] Check_def)
    ultimately show ?thesis using andPreds_true(2) [of rel row "andPreds pred scope" "pt_pred r"] by auto
  qed
qed (simp add: updateCheck_def assms(1) [symmetric] Check_def)

text \<open>For the witnesses: invoices of a tenant, with a hidden tenant column and a decimal amount of at most 100.\<close>

definition ex_column :: "string \<Rightarrow> string \<Rightarrow> bool \<Rightarrow> attribute" where
  "ex_column name ty hidden = \<lparr>at_Name = name, at_Alias = [], at_Description = [], at_Domain = \<lparr>dm_Type = ty, dm_Nullable = False,
     dm_Default = False, dm_Generated = False, dm_AutoIncrement = False\<rparr>, at_Excluded = hidden, at_Mask = []\<rparr>"

definition ex_invoice :: entity where
  "ex_invoice = zero_entity\<lparr>e_Name := ''invoice'', e_Source := ''invoice'',
     e_Attributes := [ex_column ''id'' ''integer'' False, ex_column ''tenant'' ''integer'' True, ex_column ''amount'' ''Decimal(10,2)'' False],
     e_Keys := [\<lparr>k_Name = ''pk'', k_Columns = [''id''], k_Primary = True, k_Declared = False, k_Deferrable = False, k_Reason = []\<rparr>]\<rparr>"

definition ex_scope_rows :: predicate where
  "ex_scope_rows = And [Condition \<lparr>c_Field = ''tenant'', c_Op = OpEq, c_Value = VInt 7\<rparr>,
     Condition \<lparr>c_Field = ''amount'', c_Op = OpLte, c_Value = VInt 100\<rparr>]"

end
