(* ===== verification/Invalidation.thy ===== *)
theory Invalidation
  imports Entity Cache_Laws "HOL-Library.Char_ord" "HOL-Library.List_Lexorder"
begin

text \<open>
  What a write invalidates, \<^verbatim>\<open>src/core/tool/invalidation.go\<close>: the relations a write through an entity may change,
  worked out from its cascades, and the cached reads dropped after it. A result is \<^const>\<open>None\<close> where the code would
  panic (a relation key without a separator) or not return. A Go map is an association list where it is ranged over.
\<close>

record cache_target =
  ct_Physical :: string
  ct_Relation :: string

definition cacheRelation :: "entity \<Rightarrow> string" where
  "cacheRelation e = (if e_Derived e then [] else RelationKey e)"

definition physicalDatabase :: "entity \<Rightarrow> string option" where
  "physicalDatabase e =
     map_option (\<lambda>(server, rest). server @ [CHR 0x00] @
       (case cut (CHR 0x00) rest of Some (catalog, _) \<Rightarrow> catalog | None \<Rightarrow> rest)) (cut (CHR 0x00) (RelationKey e))"

record write_targets =
  wt_byEntity :: "string \<rightharpoonup> cache_target list"
  wt_datasources :: "string \<rightharpoonup> string list"
  wt_physical :: "string \<rightharpoonup> string"

text \<open>The database of a datasource, with \<open>physical\<close> those of \<^const>\<open>wt_physical\<close>.\<close>

definition wt_database :: "(string \<rightharpoonup> string) \<Rightarrow> string \<Rightarrow> string option" where
  "wt_database physical datasource =
     (case physical datasource of
        Some database \<Rightarrow> Some database
      | None \<Rightarrow> physicalDatabase (zero_entity\<lparr>e_DataSource := datasource\<rparr>))"

definition whole_of :: "(string \<rightharpoonup> string) \<Rightarrow> entity \<Rightarrow> cache_target list option" where
  "whole_of physical e =
     map_option (\<lambda>d. [\<lparr>ct_Physical = d, ct_Relation = []\<rparr>])
       (if e_Kind e = KindProcedure then wt_database physical (DatasourceName e) else physicalDatabase e)"

fun compact_loop :: "(string \<Rightarrow> bool) \<Rightarrow> cache_target list \<Rightarrow> cache_target list \<Rightarrow> cache_target list" where
  "compact_loop whole out [] = out"
| "compact_loop whole out (t # ts) =
     (let t' = (if whole (ct_Physical t) then t\<lparr>ct_Relation := []\<rparr> else t)
      in compact_loop whole (if t' \<in> set out then out else out @ [t']) ts)"

definition compactTargets :: "cache_target list \<Rightarrow> cache_target list" where
  "compactTargets targets = compact_loop (\<lambda>d. \<exists>t\<in>set targets. ct_Relation t = [] \<and> ct_Physical t = d) [] targets"

text \<open>The entities the cascades of an entity write, in order; \<open>None\<close> when one is not exposed.\<close>

fun cascade_children :: "registry \<Rightarrow> cascade list \<Rightarrow> entity list option" where
  "cascade_children reg [] = Some []"
| "cascade_children reg (c # cs) =
     (case Resolve reg (cs_Entity c) of
        None \<Rightarrow> None
      | Some ch \<Rightarrow> map_option ((#) (rs_Entity ch)) (cascade_children reg cs))"

partial_function (option) compute_loop ::
  "(string \<rightharpoonup> string) \<Rightarrow> registry \<Rightarrow> entity list \<Rightarrow> string set \<Rightarrow> cache_target list \<Rightarrow> cache_target list option" where
  "compute_loop physical reg writes seen targets =
     (case writes of
        [] \<Rightarrow> Some (compactTargets targets)
      | e # rest \<Rightarrow>
          if e_Name e \<in> seen then compute_loop physical reg rest seen targets
          else if e_SideEffects e then whole_of physical e
          else Option.bind (physicalDatabase e) (\<lambda>d.
            case cascade_children reg (e_Cascades e) of
              None \<Rightarrow> whole_of physical e
            | Some children \<Rightarrow>
                compute_loop physical reg (rest @ children) (insert (e_Name e) seen)
                  (targets @ [\<lparr>ct_Physical = d, ct_Relation = cacheRelation e\<rparr>])))"

text \<open>The entities a procedure declares it affects; \<open>None\<close> when one is not registered.\<close>

fun affected :: "registry \<Rightarrow> string list \<Rightarrow> entity list option" where
  "affected reg [] = Some []"
| "affected reg (name # names) =
     (case Resolve reg name of
        None \<Rightarrow> None
      | Some a \<Rightarrow> map_option ((#) (rs_Entity a)) (affected reg names))"

definition wt_compute :: "write_targets \<Rightarrow> registry \<Rightarrow> entity \<Rightarrow> cache_target list option" where
  "wt_compute w reg e =
     (if e_Kind e = KindProcedure then
        if e_Affects e = [] then whole_of (wt_physical w) e
        else case affected reg (e_Affects e) of
               None \<Rightarrow> whole_of (wt_physical w) e
             | Some writes \<Rightarrow> compute_loop (wt_physical w) reg writes {} []
      else compute_loop (wt_physical w) reg [e] {} [])"

text \<open>The databases of the datasources: of each entity that is no procedure, then of the datasources left.\<close>

definition add_reaching :: "string \<Rightarrow> string \<Rightarrow> (string \<times> string list) list \<Rightarrow> (string \<times> string list) list" where
  "add_reaching database datasource reaching =
     AList.update database (List.insert datasource (case map_of reaching database of Some ds \<Rightarrow> ds | None \<Rightarrow> [])) reaching"

fun place_tables :: "entity list \<Rightarrow> (string \<rightharpoonup> string) \<Rightarrow> (string \<times> string list) list \<Rightarrow>
    ((string \<rightharpoonup> string) \<times> (string \<times> string list) list) option" where
  "place_tables [] physical reaching = Some (physical, reaching)"
| "place_tables (e # es) physical reaching =
     (if e_Kind e = KindProcedure then place_tables es physical reaching
      else Option.bind (physicalDatabase e) (\<lambda>d.
        place_tables es (physical(DatasourceName e \<mapsto> d)) (add_reaching d (DatasourceName e) reaching)))"

fun place_others :: "entity list \<Rightarrow> (string \<rightharpoonup> string) \<Rightarrow> (string \<times> string list) list \<Rightarrow>
    ((string \<rightharpoonup> string) \<times> (string \<times> string list) list) option" where
  "place_others [] physical reaching = Some (physical, reaching)"
| "place_others (e # es) physical reaching =
     (case physical (DatasourceName e) of
        Some _ \<Rightarrow> place_others es physical reaching
      | None \<Rightarrow> Option.bind (physicalDatabase (zero_entity\<lparr>e_DataSource := DatasourceName e\<rparr>)) (\<lambda>d.
          place_others es (physical(DatasourceName e \<mapsto> d)) (add_reaching d (DatasourceName e) reaching)))"

fun compute_all :: "write_targets \<Rightarrow> registry \<Rightarrow> entity list \<Rightarrow> write_targets option" where
  "compute_all w reg [] = Some w"
| "compute_all w reg (e # es) =
     Option.bind (wt_compute w reg e) (\<lambda>ts. compute_all (w\<lparr>wt_byEntity := (wt_byEntity w)(e_Name e \<mapsto> ts)\<rparr>) reg es)"

definition BuildWriteTargets :: "registry \<Rightarrow> write_targets option" where
  "BuildWriteTargets reg =
     Option.bind (place_tables (Entities reg) Map.empty []) (\<lambda>(physical, reaching).
     Option.bind (place_others (Entities reg) physical reaching) (\<lambda>(physical, reaching).
       compute_all \<lparr>wt_byEntity = Map.empty, wt_datasources = map_of (map (\<lambda>(d, ds). (d, sort ds)) reaching),
         wt_physical = physical\<rparr> reg (Entities reg)))"

primrec invalidate :: "cache_target list \<Rightarrow> 'v ttl_cache \<Rightarrow> 'v ttl_cache option" where
  "invalidate [] c = Some c"
| "invalidate (t # ts) c = Option.bind (Invalidate (ct_Physical t) (ct_Relation t) c) (invalidate ts)"

end
