(* ===== verification/Invalidation_Props.thy ===== *)
theory Invalidation_Props
  imports Invalidation Cache_Props
begin

text \<open>
  What the targets of a write cover. The entities a write may change are those its cascades lead to; the loop over
  them returns, and every cached read of one of them is dropped by the invalidation of its targets.
\<close>

section \<open>The entities a write changes\<close>

inductive may_write :: "registry \<Rightarrow> entity \<Rightarrow> entity \<Rightarrow> bool" for reg where
  self: "e_Kind e \<noteq> KindProcedure \<Longrightarrow> may_write reg e e"
| affects: "e_Kind e = KindProcedure \<Longrightarrow> name \<in> set (e_Affects e) \<Longrightarrow> Resolve reg name = Some res \<Longrightarrow> may_write reg e (rs_Entity res)"
| cascades: "may_write reg e x \<Longrightarrow> c \<in> set (e_Cascades x) \<Longrightarrow> Resolve reg (cs_Entity c) = Some res \<Longrightarrow> may_write reg e (rs_Entity res)"

text \<open>What a write may change besides is not known.\<close>

definition unknown_reach :: "registry \<Rightarrow> entity \<Rightarrow> bool" where
  "unknown_reach reg e \<longleftrightarrow>
     (\<exists>x. may_write reg e x \<and> (e_SideEffects x \<or> (\<exists>c\<in>set (e_Cascades x). Resolve reg (cs_Entity c) = None))) \<or>
     e_Kind e = KindProcedure \<and> (e_Affects e = [] \<or> (\<exists>name\<in>set (e_Affects e). Resolve reg name = None))"

lemma cascade_children_affected: "cascade_children reg cs = affected reg (map cs_Entity cs)"
  by (induction cs) (auto split: option.splits)

lemma affected_None: "affected reg names = None \<longleftrightarrow> (\<exists>n\<in>set names. Resolve reg n = None)"
  by (induction names) (auto split: option.splits)

lemma affected_set:
  "affected reg names = Some ch \<Longrightarrow> x \<in> set ch \<longleftrightarrow> (\<exists>n\<in>set names. \<exists>res. Resolve reg n = Some res \<and> x = rs_Entity res)"
proof (induction names arbitrary: ch)
  case (Cons n names)
  then obtain r ch' where "Resolve reg n = Some r" "affected reg names = Some ch'" "ch = rs_Entity r # ch'"
    by (auto split: option.splits)
  with Cons.IH [of ch'] show ?case by auto
qed simp

section \<open>Compacting\<close>

definition covers :: "string \<Rightarrow> cache_target list \<Rightarrow> entity \<Rightarrow> bool" where
  "covers D ts x \<longleftrightarrow> (\<exists>t\<in>set ts. ct_Physical t = D \<and> (ct_Relation t = [] \<or> ct_Relation t = cacheRelation x))"

lemma compact_loop_set:
  "set (compact_loop whole out ts) = set out \<union> (\<lambda>t. if whole (ct_Physical t) then t\<lparr>ct_Relation := []\<rparr> else t) ` set ts"
  by (induction ts arbitrary: out) (auto simp: Let_def)

lemma compactTargets_covers:
  assumes "\<lparr>ct_Physical = D, ct_Relation = cacheRelation x\<rparr> \<in> set ts"
  shows "covers D (compactTargets ts) x"
proof -
  define whole where "whole = (\<lambda>d. \<exists>t\<in>set ts. ct_Relation t = [] \<and> ct_Physical t = d)"
  let ?t = "\<lparr>ct_Physical = D, ct_Relation = cacheRelation x\<rparr>" and ?f = "\<lambda>t. if whole (ct_Physical t) then t\<lparr>ct_Relation := []\<rparr> else t"
  have "?f ?t \<in> set (compactTargets ts)"
    unfolding compactTargets_def compact_loop_set whole_def [symmetric] using imageI [OF assms, of ?f] by simp
  moreover have "ct_Physical (?f ?t) = D \<and> (ct_Relation (?f ?t) = [] \<or> ct_Relation (?f ?t) = cacheRelation x)" by simp
  ultimately show ?thesis unfolding covers_def by (rule bexI [rotated])
qed

lemma compactTargets_physical:
  "t \<in> set (compactTargets ts) \<Longrightarrow> \<exists>t'\<in>set ts. ct_Physical t' = ct_Physical t"
  unfolding compactTargets_def compact_loop_set by (auto split: if_splits)

section \<open>The loop\<close>

text \<open>The entities it goes through: they stay in one database, and none is a procedure.\<close>

definition confined :: "registry \<Rightarrow> string \<Rightarrow> entity set \<Rightarrow> bool" where
  "confined reg D S \<longleftrightarrow> finite S \<and> inj_on e_Name S \<and>
     (\<forall>x\<in>S. physicalDatabase x = Some D \<and> e_Kind x \<noteq> KindProcedure \<and>
       (\<forall>c\<in>set (e_Cascades x). \<forall>res. Resolve reg (cs_Entity c) = Some res \<longrightarrow> rs_Entity res \<in> S))"

lemma confinedD:
  assumes "confined reg D S" "x \<in> S"
  shows "physicalDatabase x = Some D" "e_Kind x \<noteq> KindProcedure"
    "cascade_children reg (e_Cascades x) = Some ch \<Longrightarrow> set ch \<subseteq> S"
proof -
  show "physicalDatabase x = Some D" "e_Kind x \<noteq> KindProcedure" using assms by (simp_all add: confined_def)
  assume ch: "cascade_children reg (e_Cascades x) = Some ch"
  show "set ch \<subseteq> S"
    using assms affected_set [OF ch [unfolded cascade_children_affected]] by (auto simp: confined_def)
qed

definition done_with :: "registry \<Rightarrow> entity set \<Rightarrow> entity set \<Rightarrow> bool" where
  "done_with reg P Q \<longleftrightarrow> (\<forall>x\<in>P. \<not> e_SideEffects x \<and> (\<exists>ch. cascade_children reg (e_Cascades x) = Some ch \<and> set ch \<subseteq> Q))"

lemma compute_loop_covers:
  assumes "confined reg D S" "set ws \<subseteq> S" "P \<subseteq> S" "done_with reg P (P \<union> set ws)"
    and "\<forall>x\<in>P. \<lparr>ct_Physical = D, ct_Relation = cacheRelation x\<rparr> \<in> set ts" "\<forall>t\<in>set ts. ct_Physical t = D"
  shows "\<exists>ts'. compute_loop physical reg ws (e_Name ` P) ts = Some ts' \<and> (\<forall>t\<in>set ts'. ct_Physical t = D) \<and>
    (ts' = [\<lparr>ct_Physical = D, ct_Relation = []\<rparr>] \<or>
     (\<exists>Q. P \<union> set ws \<subseteq> Q \<and> Q \<subseteq> S \<and> done_with reg Q Q \<and> (\<forall>x\<in>Q. covers D ts' x)))"
  using assms
proof (induction "card (S - P)" arbitrary: P ws ts rule: less_induct)
  case (less P ws ts)
  from less.prems(2,4) show ?case
  proof (induction ws)
    case Nil
    have "compute_loop physical reg [] (e_Name ` P) ts = Some (compactTargets ts)" by (simp add: compute_loop.simps)
    moreover have "\<forall>t\<in>set (compactTargets ts). ct_Physical t = D" using compactTargets_physical less.prems(6) by fastforce
    moreover have "\<forall>x\<in>P. covers D (compactTargets ts) x" using compactTargets_covers less.prems(5) by blast
    ultimately show ?case using Nil(2) less.prems(3) by (intro exI [of _ "compactTargets ts"]) auto
  next
    case (Cons e rest)
    note S = confinedD [OF less.prems(1), of e]
    have e: "e \<in> S" using Cons.prems(1) by simp
    have inj: "e_Name e \<in> e_Name ` P \<longleftrightarrow> e \<in> P"
      using inj_on_image_mem_iff [of e_Name S e P] less.prems(1,3) e by (auto simp: confined_def)
    show ?case
    proof (cases "e \<in> P")
      case True
      then have "compute_loop physical reg (e # rest) (e_Name ` P) ts = compute_loop physical reg rest (e_Name ` P) ts"
        using inj by (subst compute_loop.simps) simp
      moreover have "P \<union> set (e # rest) = P \<union> set rest" using True by auto
      ultimately show ?thesis using Cons by simp
    next
      case False
      show ?thesis
      proof (cases "e_SideEffects e \<or> cascade_children reg (e_Cascades e) = None")
        case True
        then have "compute_loop physical reg (e # rest) (e_Name ` P) ts = Some [\<lparr>ct_Physical = D, ct_Relation = []\<rparr>]"
          using False inj S(1,2) e by (subst compute_loop.simps) (auto simp: whole_of_def)
        then show ?thesis by simp
      next
        case False
        then obtain ch where ch: "\<not> e_SideEffects e" "cascade_children reg (e_Cascades e) = Some ch" by auto
        let ?ts = "ts @ [\<lparr>ct_Physical = D, ct_Relation = cacheRelation e\<rparr>]"
        have step: "compute_loop physical reg (e # rest) (e_Name ` P) ts = compute_loop physical reg (rest @ ch) (e_Name ` insert e P) ?ts"
          using ch inj \<open>e \<notin> P\<close> S(1) e by (subst compute_loop.simps) simp
        have "card (S - insert e P) < card (S - P)"
          using less.prems(1) e \<open>e \<notin> P\<close> by (intro psubset_card_mono) (auto simp: confined_def)
        moreover have "set (rest @ ch) \<subseteq> S" using Cons.prems(1) S(3) [OF e ch(2)] by simp
        moreover have "done_with reg (insert e P) (insert e P \<union> set (rest @ ch))"
          using Cons.prems(2) ch unfolding done_with_def by fastforce
        ultimately have "\<exists>ts'. compute_loop physical reg (rest @ ch) (e_Name ` insert e P) ?ts = Some ts' \<and> (\<forall>t\<in>set ts'. ct_Physical t = D) \<and>
            (ts' = [\<lparr>ct_Physical = D, ct_Relation = []\<rparr>] \<or>
             (\<exists>Q. insert e P \<union> set (rest @ ch) \<subseteq> Q \<and> Q \<subseteq> S \<and> done_with reg Q Q \<and> (\<forall>x\<in>Q. covers D ts' x)))"
          using less.prems e by (intro less.hyps) auto
        then show ?thesis unfolding step by (elim exE conjE disjE) (auto intro!: exI)
      qed
    qed
  qed
qed

lemma Resolve_mem: "registry_of es reg \<Longrightarrow> Resolve reg n = Some res \<Longrightarrow> rs_Entity res \<in> set es"
  using named_subset [of es n] by (auto simp: Resolve_named split: list.splits)

lemma may_write_mem: "may_write reg e x \<Longrightarrow> registry_of es reg \<Longrightarrow> e \<in> set es \<Longrightarrow> x \<in> set es"
  by (induction rule: may_write.induct) (auto intro: Resolve_mem)

lemma done_reaches:
  assumes "done_with reg Q Q" "may_write reg e x" "e_Kind e \<noteq> KindProcedure \<Longrightarrow> e \<in> Q"
    "\<And>n res. e_Kind e = KindProcedure \<Longrightarrow> n \<in> set (e_Affects e) \<Longrightarrow> Resolve reg n = Some res \<Longrightarrow> rs_Entity res \<in> Q"
  shows "x \<in> Q"
  using assms(2,1,3,4)
proof (induction rule: may_write.induct)
  case (cascades e x c res)
  then obtain ch where "cascade_children reg (e_Cascades x) = Some ch" "set ch \<subseteq> Q" by (auto simp: done_with_def)
  then show ?case using cascades.hyps(2,3) affected_set [of reg "map cs_Entity (e_Cascades x)" ch "rs_Entity res"]
    by (auto simp: cascade_children_affected)
qed auto

lemma wt_compute_covers:
  assumes reg: "registry_of es reg" "e \<in> set es"
    and D: "\<And>x. may_write reg e x \<Longrightarrow> physicalDatabase x = Some D \<and> e_Kind x \<noteq> KindProcedure"
      "e_Kind e = KindProcedure \<Longrightarrow> wt_database (wt_physical w) (DatasourceName e) = Some D"
  shows "\<exists>ts. wt_compute w reg e = Some ts \<and> (\<forall>t\<in>set ts. ct_Physical t = D) \<and> (\<forall>x. may_write reg e x \<longrightarrow> covers D ts x) \<and>
    (unknown_reach reg e \<longrightarrow> ts = [\<lparr>ct_Physical = D, ct_Relation = []\<rparr>])"
proof -
  let ?whole = "[\<lparr>ct_Physical = D, ct_Relation = []\<rparr>]" and ?S = "{x. may_write reg e x}"
  have all: "covers D ?whole x" for x by (simp add: covers_def)
  have "finite ?S" "inj_on e_Name ?S"
    using may_write_mem [OF _ reg] reg(1) by (auto simp: registry_of_def distinct_map intro: finite_subset inj_on_subset)
  then have conf: "confined reg D ?S" using D(1) by (auto simp: confined_def intro: may_write.cascades)
  have loop: "\<exists>ts. compute_loop (wt_physical w) reg ws {} [] = Some ts \<and> (\<forall>t\<in>set ts. ct_Physical t = D) \<and>
      (\<forall>x. may_write reg e x \<longrightarrow> covers D ts x) \<and> (unknown_reach reg e \<longrightarrow> ts = ?whole)"
    if ws: "set ws \<subseteq> ?S" "e_Kind e \<noteq> KindProcedure \<Longrightarrow> e \<in> set ws"
      "\<And>n. e_Kind e = KindProcedure \<Longrightarrow> n \<in> set (e_Affects e) \<Longrightarrow> \<exists>res. Resolve reg n = Some res \<and> rs_Entity res \<in> set ws"
      "e_Kind e = KindProcedure \<Longrightarrow> e_Affects e \<noteq> []" for ws
  proof -
    obtain ts where ts: "compute_loop (wt_physical w) reg ws {} [] = Some ts" "\<forall>t\<in>set ts. ct_Physical t = D"
      "ts = ?whole \<or> (\<exists>Q. set ws \<subseteq> Q \<and> Q \<subseteq> ?S \<and> done_with reg Q Q \<and> (\<forall>x\<in>Q. covers D ts x))"
      using compute_loop_covers [OF conf ws(1), of "{}" "[]" "wt_physical w"] unfolding image_empty Un_empty_left
      by (auto simp: done_with_def [of reg "{}"])
    show ?thesis
    proof (cases "ts = ?whole")
      case False
      then obtain Q where Q: "set ws \<subseteq> Q" "done_with reg Q Q" "\<forall>x\<in>Q. covers D ts x" using ts(3) by blast
      have in_Q: "x \<in> Q" if "may_write reg e x" for x
        using done_reaches [OF Q(2) that] ws(2) ws(3) Q(1) by fastforce
      have "\<not> unknown_reach reg e"
      proof
        assume "unknown_reach reg e"
        then obtain x where x: "may_write reg e x" "e_SideEffects x \<or> cascade_children reg (e_Cascades x) = None"
          unfolding unknown_reach_def cascade_children_affected affected_None using ws(3,4) by fastforce
        then show False using Q(2) in_Q [OF x(1)] by (auto simp: done_with_def)
      qed
      with in_Q Q(3) ts(1,2) show ?thesis by auto
    qed (use ts all in auto)
  qed
  show ?thesis
  proof (cases "e_Kind e = KindProcedure")
    case False
    then show ?thesis using loop [of "[e]"] by (simp add: wt_compute_def may_write.self)
  next
    case True
    then have whole: "whole_of (wt_physical w) e = Some ?whole" using D(2) by (simp add: whole_of_def)
    show ?thesis
    proof (cases "e_Affects e = [] \<or> affected reg (e_Affects e) = None")
      case True
      then have "wt_compute w reg e = Some ?whole" using whole \<open>e_Kind e = KindProcedure\<close> by (auto simp: wt_compute_def)
      then show ?thesis using all by simp
    next
      case False
      then obtain ws where ws: "affected reg (e_Affects e) = Some ws" "e_Affects e \<noteq> []" by auto
      have "set ws \<subseteq> ?S" using affected_set [OF ws(1)] True by (auto intro: may_write.affects)
      moreover have "\<exists>res. Resolve reg n = Some res \<and> rs_Entity res \<in> set ws" if "n \<in> set (e_Affects e)" for n
        using that ws(1) affected_None [of reg "e_Affects e"] affected_set [OF ws(1)] by fastforce
      ultimately show ?thesis using loop [of ws] ws True by (simp add: wt_compute_def)
    qed
  qed
qed

section \<open>The targets of a configuration\<close>

text \<open>The datasources and their databases: the entities of one datasource lie in one database, and so do those a write
  cascades to and those a procedure declares it affects, which are no procedures.\<close>

definition located :: "entity list \<Rightarrow> (string \<Rightarrow> string) \<Rightarrow> bool" where
  "located es loc \<longleftrightarrow> (\<forall>x\<in>set es. if e_Kind x \<noteq> KindProcedure then physicalDatabase x = Some (loc (DatasourceName x))
     else (\<forall>y\<in>set es. e_Kind y \<noteq> KindProcedure \<longrightarrow> DatasourceName y \<noteq> DatasourceName x) \<longrightarrow>
       physicalDatabase (zero_entity\<lparr>e_DataSource := DatasourceName x\<rparr>) = Some (loc (DatasourceName x)))"

definition linked :: "registry \<Rightarrow> entity list \<Rightarrow> (string \<Rightarrow> string) \<Rightarrow> bool" where
  "linked reg es loc \<longleftrightarrow> (\<forall>x\<in>set es. \<forall>n\<in>set (e_Affects x) \<union> cs_Entity ` set (e_Cascades x). \<forall>res. Resolve reg n = Some res \<longrightarrow>
     e_Kind (rs_Entity res) \<noteq> KindProcedure \<and> loc (DatasourceName (rs_Entity res)) = loc (DatasourceName x))"

lemma may_write_located:
  assumes "may_write reg e x" "registry_of es reg" "e \<in> set es" "located es loc" "linked reg es loc"
  shows "x \<in> set es \<and> e_Kind x \<noteq> KindProcedure \<and> loc (DatasourceName x) = loc (DatasourceName e)"
  using assms
proof (induction rule: may_write.induct)
  case (affects e name res)
  then show ?case using Resolve_mem [OF affects.prems(1) affects.hyps(3)] by (auto simp: linked_def)
next
  case (cascades e x c res)
  have x: "x \<in> set es" "loc (DatasourceName x) = loc (DatasourceName e)" using cascades.IH [OF cascades.prems] by auto
  have "\<forall>n\<in>set (e_Affects x) \<union> cs_Entity ` set (e_Cascades x). \<forall>res. Resolve reg n = Some res \<longrightarrow>
     e_Kind (rs_Entity res) \<noteq> KindProcedure \<and> loc (DatasourceName (rs_Entity res)) = loc (DatasourceName x)"
    using cascades.prems(4) x(1) unfolding linked_def by (rule bspec)
  then show ?case using cascades.hyps(2,3) x Resolve_mem [OF cascades.prems(1) cascades.hyps(3)] by auto
qed auto

definition places :: "entity list \<Rightarrow> (string \<Rightarrow> string) \<Rightarrow> (string \<rightharpoonup> string) \<Rightarrow> bool" where
  "places es loc physical \<longleftrightarrow> (\<forall>ds d. physical ds = Some d \<longrightarrow> d = loc ds) \<and>
     (\<forall>x\<in>set es. e_Kind x \<noteq> KindProcedure \<longrightarrow> physical (DatasourceName x) \<noteq> None)"

lemma place_tables_ok:
  assumes "\<forall>x\<in>set es. e_Kind x \<noteq> KindProcedure \<longrightarrow> physicalDatabase x = Some (loc (DatasourceName x))"
    "places before loc physical"
  shows "\<exists>physical' reaching'. place_tables es physical reaching = Some (physical', reaching') \<and> places (before @ es) loc physical'"
  using assms
proof (induction es arbitrary: before physical reaching)
  case (Cons e es)
  show ?case
  proof (cases "e_Kind e = KindProcedure")
    case True
    then have "places (before @ [e]) loc physical" using Cons.prems(2) by (auto simp: places_def)
    with Cons.IH [of "before @ [e]" physical reaching] Cons.prems(1) True show ?thesis by simp
  next
    case False
    let ?p = "physical(DatasourceName e \<mapsto> loc (DatasourceName e))"
    have "places (before @ [e]) loc ?p" using Cons.prems(2) by (auto simp: places_def)
    with Cons.IH [of "before @ [e]" ?p] Cons.prems(1) False show ?thesis by (simp del: fun_upd_apply)
  qed
qed simp

lemma place_others_ok:
  assumes "places all loc physical" "set es \<subseteq> set all" "located all loc" "\<forall>x\<in>set all - set es. physical (DatasourceName x) \<noteq> None"
  shows "\<exists>physical' reaching'. place_others es physical reaching = Some (physical', reaching') \<and>
    (\<forall>x\<in>set all. physical' (DatasourceName x) = Some (loc (DatasourceName x)))"
  using assms
proof (induction es arbitrary: physical reaching)
  case Nil
  then show ?case by (fastforce simp: places_def)
next
  case (Cons e es)
  show ?case
  proof (cases "physical (DatasourceName e)")
    case (Some d)
    have "\<forall>x\<in>set all - set es. physical (DatasourceName x) \<noteq> None" using Some Cons.prems(4) by auto
    then show ?thesis using Some Cons.prems(1-3) Cons.IH [of physical reaching] by simp
  next
    case None
    let ?p = "physical(DatasourceName e \<mapsto> loc (DatasourceName e))"
    have e: "e \<in> set all" using Cons.prems(2) by simp
    then have "e_Kind e = KindProcedure" "\<forall>y\<in>set all. e_Kind y \<noteq> KindProcedure \<longrightarrow> DatasourceName y \<noteq> DatasourceName e"
      using Cons.prems(1) None by (auto simp: places_def)
    then have "physicalDatabase (zero_entity\<lparr>e_DataSource := DatasourceName e\<rparr>) = Some (loc (DatasourceName e))"
      using Cons.prems(3) e by (simp add: located_def)
    moreover have "places all loc ?p" using Cons.prems(1) by (auto simp: places_def)
    moreover have "\<forall>x\<in>set all - set es. ?p (DatasourceName x) \<noteq> None" using Cons.prems(4) by auto
    ultimately show ?thesis using None Cons.prems(2,3) Cons.IH [of ?p] by (simp del: fun_upd_apply)
  qed
qed

lemma compute_all_ok:
  assumes "\<forall>e\<in>set es. \<exists>ts. wt_compute w reg e = Some ts" "distinct (map e_Name es)"
  shows "\<exists>w'. compute_all w reg es = Some w' \<and> wt_physical w' = wt_physical w \<and>
    (\<forall>e\<in>set es. wt_byEntity w' (e_Name e) = wt_compute w reg e) \<and> (\<forall>n. n \<notin> e_Name ` set es \<longrightarrow> wt_byEntity w' n = wt_byEntity w n)"
  using assms
proof (induction es arbitrary: w)
  case (Cons e es)
  obtain ts where ts: "wt_compute w reg e = Some ts" using Cons.prems(1) by auto
  let ?w = "w\<lparr>wt_byEntity := (wt_byEntity w)(e_Name e \<mapsto> ts)\<rparr>"
  have same: "wt_compute ?w reg x = wt_compute w reg x" for x by (simp add: wt_compute_def split: option.splits)
  then obtain w' where w': "compute_all ?w reg es = Some w'" "wt_physical w' = wt_physical w"
    "\<forall>e\<in>set es. wt_byEntity w' (e_Name e) = wt_compute w reg e" "\<forall>n. n \<notin> e_Name ` set es \<longrightarrow> wt_byEntity w' n = wt_byEntity ?w n"
    using Cons.IH [of ?w] Cons.prems by auto
  then show ?case using ts Cons.prems(2) by auto
qed simp

lemma BuildWriteTargets_ok:
  assumes "registry_of es reg" "located es loc" "linked reg es loc"
  shows "\<exists>w. BuildWriteTargets reg = Some w \<and> (\<forall>e\<in>set es. \<exists>ts. wt_byEntity w (e_Name e) = Some ts \<and>
    (\<forall>t\<in>set ts. ct_Physical t = loc (DatasourceName e)) \<and>
    (\<forall>x. may_write reg e x \<longrightarrow> covers (loc (DatasourceName e)) ts x) \<and>
    (unknown_reach reg e \<longrightarrow> ts = [\<lparr>ct_Physical = loc (DatasourceName e), ct_Relation = []\<rparr>]))"
proof -
  have es: "Entities reg = es" "distinct (map e_Name es)" using assms(1) by (simp_all add: registry_of_def Entities_def)
  obtain p1 r1 where p1: "place_tables es Map.empty [] = Some (p1, r1)" "places es loc p1"
    using place_tables_ok [of es loc "[]" Map.empty "[]"] assms(2) by (auto simp: located_def places_def split: if_splits)
  obtain p2 r2 where p2: "place_others es p1 r1 = Some (p2, r2)" "\<forall>x\<in>set es. p2 (DatasourceName x) = Some (loc (DatasourceName x))"
    using place_others_ok [OF p1(2) subset_refl assms(2), of r1] by auto
  let ?w = "\<lparr>wt_byEntity = Map.empty, wt_datasources = map_of (map (\<lambda>(d, ds). (d, sort ds)) r2), wt_physical = p2\<rparr>"
  have c: "\<exists>ts. wt_compute ?w reg e = Some ts \<and> (\<forall>t\<in>set ts. ct_Physical t = loc (DatasourceName e)) \<and>
      (\<forall>x. may_write reg e x \<longrightarrow> covers (loc (DatasourceName e)) ts x) \<and>
      (unknown_reach reg e \<longrightarrow> ts = [\<lparr>ct_Physical = loc (DatasourceName e), ct_Relation = []\<rparr>])" if "e \<in> set es" for e
  proof (rule wt_compute_covers [OF assms(1) that])
    fix x assume "may_write reg e x"
    from may_write_located [OF this assms(1) that assms(2,3)] assms(2)
    show "physicalDatabase x = Some (loc (DatasourceName e)) \<and> e_Kind x \<noteq> KindProcedure" by (auto simp: located_def)
  qed (use p2(2) that in \<open>simp add: wt_database_def\<close>)
  then obtain w where w: "compute_all ?w reg es = Some w" "\<forall>e\<in>set es. wt_byEntity w (e_Name e) = wt_compute ?w reg e"
    using compute_all_ok [of es ?w reg] es(2) by blast
  have "BuildWriteTargets reg = Some w" using p1(1) p2(1) w(1) by (simp add: BuildWriteTargets_def es(1))
  then show ?thesis using w(2) c by auto
qed

lemma invalidate_ok:
  assumes "cache_ok c"
  shows "\<exists>c'. invalidate ts c = Some c' \<and> cache_ok c' \<and>
    map_of (c_m c') = map_of (c_m c) |` (- {k. \<exists>t\<in>set ts. reaches (ct_Physical t) (ct_Relation t) k})"
  using assms
proof (induction ts arbitrary: c)
  case (Cons t ts)
  obtain c1 where c1: "Invalidate (ct_Physical t) (ct_Relation t) c = Some c1"
    "drops {k. reaches (ct_Physical t) (ct_Relation t) k} (stamped (ct_Physical t) c) c1"
    by (rule Invalidate_ok [OF Cons.prems])
  have m: "map_of (c_m c1) = map_of (c_m c) |` (- {k. reaches (ct_Physical t) (ct_Relation t) k})"
    using drops_map [OF c1(2)] by (simp add: stamped_def)
  obtain c' where "invalidate ts c1 = Some c'" "cache_ok c'"
    "map_of (c_m c') = map_of (c_m c1) |` (- {k. \<exists>t\<in>set ts. reaches (ct_Physical t) (ct_Relation t) k})"
    using Cons.IH [OF drops_ok [OF c1(2)]] by blast
  moreover have "- {k. reaches (ct_Physical t) (ct_Relation t) k} \<inter> - {k. \<exists>t\<in>set ts. reaches (ct_Physical t) (ct_Relation t) k} =
      - {k. \<exists>t\<in>set (t # ts). reaches (ct_Physical t) (ct_Relation t) k}" by auto
  ultimately show ?case using c1(1) m by simp
qed (simp add: restrict_map_def)

section \<open>Properties\<close>

text \<open>
  C21: no cached read outlives a write that may change it. What each entity's writes invalidate is worked out for the
  whole configuration, however the cascades loop; after the invalidation of an entity's targets the cache holds no
  read of a relation that a write through it may change, by itself, by what a procedure declares or by cascades at any
  depth, and no read at all of its database where what it changes is not known. Reads of other databases are kept.
\<close>

theorem write_drops_reads:
  assumes "NewRegistry es = Inr reg" "located es loc" "linked reg es loc" "e \<in> set es"
    and "started ttl maxSize s0" "cache_step\<^sup>*\<^sup>* s0 s"
  shows "\<exists>w ts c. BuildWriteTargets reg = Some w \<and> wt_byEntity w (e_Name e) = Some ts \<and> invalidate ts (s_cache s) = Some c \<and>
    (\<forall>k en. map_of (c_m c) k = Some en \<longrightarrow> k_Database k = loc (DatasourceName e) \<longrightarrow>
       \<not> unknown_reach reg e \<and> (\<forall>x. may_write reg e x \<longrightarrow> k_Relation k \<noteq> cacheRelation x)) \<and>
    (\<forall>k. k_Database k \<noteq> loc (DatasourceName e) \<longrightarrow> map_of (c_m c) k = map_of (c_m (s_cache s)) k)"
proof -
  let ?D = "loc (DatasourceName e)"
  obtain w ts where w: "BuildWriteTargets reg = Some w" "wt_byEntity w (e_Name e) = Some ts" "\<forall>t\<in>set ts. ct_Physical t = ?D"
    "\<forall>x. may_write reg e x \<longrightarrow> covers ?D ts x" "unknown_reach reg e \<longrightarrow> ts = [\<lparr>ct_Physical = ?D, ct_Relation = []\<rparr>]"
    using BuildWriteTargets_ok [OF NewRegistry_of [OF assms(1)] assms(2,3)] assms(4) by blast
  obtain c where c: "invalidate ts (s_cache s) = Some c"
    "map_of (c_m c) = map_of (c_m (s_cache s)) |` (- {k. \<exists>t\<in>set ts. reaches (ct_Physical t) (ct_Relation t) k})"
    using invalidate_ok [OF coherentD(1) [OF coherent_reachable [OF assms(5,6)]]] by blast
  have kept: "\<not> (\<exists>t\<in>set ts. reaches (ct_Physical t) (ct_Relation t) k)" if "map_of (c_m c) k = Some en" for k en
    using that c(2) by (auto simp: restrict_map_def split: if_splits)
  have "\<not> unknown_reach reg e \<and> (\<forall>x. may_write reg e x \<longrightarrow> k_Relation k \<noteq> cacheRelation x)"
    if k: "map_of (c_m c) k = Some en" "k_Database k = ?D" for k en
  proof (intro conjI allI impI)
    show "\<not> unknown_reach reg e" using kept [OF k(1)] w(5) k(2) by (auto simp: reaches_def)
    fix x assume "may_write reg e x"
    then have "covers ?D ts x" using w(4) by simp
    then show "k_Relation k \<noteq> cacheRelation x" using kept [OF k(1)] k(2) by (auto simp: covers_def reaches_def)
  qed
  moreover have "map_of (c_m c) k = map_of (c_m (s_cache s)) k" if "k_Database k \<noteq> ?D" for k
    using that w(3) c(2) by (auto simp: restrict_map_def reaches_def)
  ultimately show ?thesis using w(1,2) c(1) by blast
qed

text \<open>The witness: orders whose items cascade, and items that cascade back.\<close>

definition ex_cascade :: "string \<Rightarrow> cascade" where
  "ex_cascade name = \<lparr>cs_Schema = [], cs_Table = name, cs_Relation = [], cs_Entity = name, cs_Columns = [''id''],
     cs_ForeignColumns = [''ref''], cs_OnDelete = ''cascade'', cs_OnUpdate = ''cascade''\<rparr>"

definition ex_linked_table :: "string \<Rightarrow> string \<Rightarrow> entity" where
  "ex_linked_table name to = zero_entity\<lparr>e_Name := name, e_Source := name, e_Cascades := [ex_cascade to]\<rparr>"

definition ex_pair :: "entity list" where
  "ex_pair = [ex_linked_table ''orders'' ''items'', ex_linked_table ''items'' ''orders'']"

theorem write_drops_reads_witness:
  "\<exists>reg w ts c. NewRegistry ex_pair = Inr reg \<and> BuildWriteTargets reg = Some w \<and> wt_byEntity w ''orders'' = Some ts \<and>
    invalidate ts (s_cache (ex_system\<lparr>s_cache := ex_cache1\<rparr>)) = Some c \<and> may_write reg (ex_linked_table ''orders'' ''items'') (ex_linked_table ''items'' ''orders'')"
proof -
  let ?loc = "\<lambda>_. ''datasource:default'' @ [CHR 0x00]" and ?e = "ex_linked_table ''orders'' ''items''"
  have "distinct (map e_Name ex_pair)" "[] \<notin> e_Name ` set ex_pair" by (simp_all add: ex_pair_def ex_linked_table_def)
  then obtain reg where reg: "NewRegistry ex_pair = Inr reg" using NewRegistry_total by blast
  have tables: "e_Kind x = KindTable \<and> physicalDatabase x = Some (?loc [])" if "x \<in> set ex_pair" for x
    using that by (auto simp: ex_pair_def ex_linked_table_def physicalDatabase_def RelationKey_def DatasourceName_def zero_entity_def)
  then have "located ex_pair ?loc" by (simp add: located_def)
  moreover have "linked reg ex_pair ?loc"
    using tables Resolve_mem [OF NewRegistry_of [OF reg]] by (auto simp: linked_def)
  moreover have "?e \<in> set ex_pair" by (simp add: ex_pair_def)
  ultimately obtain w ts c where "BuildWriteTargets reg = Some w" "wt_byEntity w (e_Name ?e) = Some ts"
      "invalidate ts (s_cache (ex_system\<lparr>s_cache := ex_cache1\<rparr>)) = Some c"
    using write_drops_reads [OF reg _ _ _ ex_started ex_cached, of ?loc ?e] by blast
  moreover have "may_write reg ?e (ex_linked_table ''items'' ''orders'')"
  proof -
    have "Resolve reg (cs_Entity (ex_cascade ''items'')) =
        Some \<lparr>rs_Entity = ex_linked_table ''items'' ''orders'', rs_Attributes = shown (ex_linked_table ''items'' ''orders'')\<rparr>"
      using NewRegistry_of [OF reg] by (simp add: Resolve_named named_def ex_pair_def ex_linked_table_def ex_cascade_def)
    from may_write.cascades [OF may_write.self [of ?e reg] _ this] show ?thesis by (simp add: ex_linked_table_def zero_entity_def)
  qed
  ultimately show ?thesis using reg by (auto simp: ex_linked_table_def)
qed

end
