(* ===== verification/Routing.thy ===== *)
theory Routing
  imports Invalidation
begin

text \<open>
  The connection a statement uses, \<^verbatim>\<open>src/core/tool/routing.go\<close>: a write goes to the write connection, and for a while
  after it so do the reads of its session. The tracker remembers until when, by session and datasource; times are
  nanoseconds, the clock is an argument, and the zero time of the last sweep is \<^const>\<open>None\<close>. A connection is opaque.
  The writes a committed statement records are those of \<^verbatim>\<open>src/core/tool/invalidation.go\<close>.
\<close>

section \<open>The tracker\<close>

record write_tracker =
  wk_until :: "(string \<times> (string \<times> int) list) list"
  wk_lastPrune :: "int option"

definition maxTrackedWindow :: int where
  "maxTrackedWindow = 3600 * 10 ^ 9"

definition pruneInterval :: int where
  "pruneInterval = 60 * 10 ^ 9"

definition NewWriteTracker :: write_tracker where
  "NewWriteTracker = \<lparr>wk_until = [], wk_lastPrune = None\<rparr>"

definition expire :: "int \<Rightarrow> (string \<times> int) list \<Rightarrow> (string \<times> int) list" where
  "expire now byDatasource = filter (\<lambda>(_, until). now < until) byDatasource"

definition prune_due :: "int \<Rightarrow> write_tracker \<Rightarrow> bool" where
  "prune_due now w = (case wk_lastPrune w of None \<Rightarrow> True | Some t \<Rightarrow> now - t \<ge> pruneInterval)"

definition prune :: "int \<Rightarrow> (string \<times> (string \<times> int) list) list \<Rightarrow> (string \<times> (string \<times> int) list) list" where
  "prune now until = filter (\<lambda>(_, d). d \<noteq> []) (map (\<lambda>(s, d). (s, expire now d)) until)"

definition tracker_Record :: "int \<Rightarrow> string \<Rightarrow> string \<Rightarrow> int \<Rightarrow> write_tracker option \<Rightarrow> write_tracker option" where
  "tracker_Record now session datasource window w' =
     (case w' of
        None \<Rightarrow> None
      | Some w \<Rightarrow>
          if window \<le> 0 then Some w
          else
            let byDatasource = expire now (case map_of (wk_until w) session of Some d \<Rightarrow> d | None \<Rightarrow> []);
                until = AList.update session (AList.update datasource (now + min window maxTrackedWindow) byDatasource) (wk_until w)
            in Some (if prune_due now w then \<lparr>wk_until = prune now until, wk_lastPrune = Some now\<rparr>
                     else w\<lparr>wk_until := until\<rparr>))"

definition Recent :: "int \<Rightarrow> string \<Rightarrow> string \<Rightarrow> write_tracker option \<Rightarrow> bool" where
  "Recent now session datasource w' =
     (case w' of
        None \<Rightarrow> False
      | Some w \<Rightarrow>
          (case Option.bind (map_of (wk_until w) session) (\<lambda>d. map_of d datasource) of
             Some until \<Rightarrow> now < until
           | None \<Rightarrow> False))"

definition Wrote :: "int \<Rightarrow> string \<Rightarrow> write_tracker option \<Rightarrow> bool" where
  "Wrote now session w' =
     (case w' of
        None \<Rightarrow> False
      | Some w \<Rightarrow> list_ex (\<lambda>(_, until). now < until) (case map_of (wk_until w) session of Some d \<Rightarrow> d | None \<Rightarrow> []))"

definition tracker_Forget :: "string \<Rightarrow> write_tracker option \<Rightarrow> write_tracker option" where
  "tracker_Forget session w' = map_option (\<lambda>w. w\<lparr>wk_until := AList.delete session (wk_until w)\<rparr>) w'"

section \<open>Connections\<close>

record 'db data_source =
  ds_DB :: "'db option"
  ds_Write :: "'db option"
  ds_Execute :: "'db option"
  ds_ReadAfterWrite :: int

definition orDB :: "'db option \<Rightarrow> 'db option \<Rightarrow> 'db option" where
  "orDB db fallback = (if db \<noteq> None then db else fallback)"

definition followsWrite :: "int \<Rightarrow> write_tracker option \<Rightarrow> string \<Rightarrow> 'db data_source \<Rightarrow> string \<Rightarrow> bool" where
  "followsWrite now w session source datasource \<longleftrightarrow> ds_ReadAfterWrite source > 0 \<and> Recent now session datasource w"

definition connectionFor :: "int \<Rightarrow> write_tracker option \<Rightarrow> string \<Rightarrow> 'db data_source \<Rightarrow> string \<Rightarrow> action \<Rightarrow> 'db option" where
  "connectionFor now w session source datasource act =
     (if act = ActionCreate \<or> act = ActionUpdate \<or> act = ActionDelete then orDB (ds_Write source) (ds_DB source)
      else if act = ActionExecute then orDB (ds_Execute source) (ds_DB source)
      else if followsWrite now w session source datasource then orDB (ds_Write source) (ds_DB source)
      else ds_DB source)"

section \<open>What a committed write records\<close>

definition record_database ::
  "int \<Rightarrow> string \<Rightarrow> (string \<rightharpoonup> 'db data_source) \<Rightarrow> write_targets \<Rightarrow> string \<Rightarrow> write_tracker option \<Rightarrow> write_tracker option" where
  "record_database now session sources w physical tracker =
     fold (\<lambda>datasource. tracker_Record now session datasource
         (case sources datasource of Some s \<Rightarrow> ds_ReadAfterWrite s | None \<Rightarrow> 0))
       (case wt_datasources w physical of Some ds \<Rightarrow> ds | None \<Rightarrow> []) tracker"

fun record_targets ::
  "int \<Rightarrow> string \<Rightarrow> (string \<rightharpoonup> 'db data_source) \<Rightarrow> write_targets \<Rightarrow> string list \<Rightarrow> cache_target list \<Rightarrow>
   write_tracker option \<Rightarrow> write_tracker option" where
  "record_targets now session sources w recorded [] tracker = tracker"
| "record_targets now session sources w recorded (t # ts) tracker =
     (if ct_Physical t \<in> set recorded then record_targets now session sources w recorded ts tracker
      else record_targets now session sources w (ct_Physical t # recorded) ts
        (record_database now session sources w (ct_Physical t) tracker))"

definition applyWrite ::
  "int \<Rightarrow> string \<Rightarrow> (string \<rightharpoonup> 'db data_source) \<Rightarrow> write_targets \<Rightarrow> cache_target list \<Rightarrow>
   write_tracker option \<Rightarrow> 'v ttl_cache \<Rightarrow> (write_tracker option \<times> 'v ttl_cache) option" where
  "applyWrite now session sources w targets tracker c =
     map_option (Pair (record_targets now session sources w [] targets tracker)) (invalidate targets c)"

end
