(* ===== verification/Routing_Props.thy ===== *)
theory Routing_Props
  imports Routing
begin

text \<open>
  The tracker beside a table that forgets nothing: for every session and datasource, until when its reads follow its
  last write. Sweeping expired windows is not seen, so a session reads its own writes for the whole window.
\<close>

section \<open>The table it implements\<close>

datatype tracker_op = RecordOp int string string int | ForgetOp string

fun tracker_run :: "tracker_op \<Rightarrow> write_tracker option \<Rightarrow> write_tracker option" where
  "tracker_run (RecordOp now s d window) w = tracker_Record now s d window w"
| "tracker_run (ForgetOp s) w = tracker_Forget s w"

type_synonym windows = "string \<Rightarrow> string \<Rightarrow> int option"

fun windows_run :: "tracker_op \<Rightarrow> windows \<Rightarrow> windows" where
  "windows_run (RecordOp now s d window) f = (if window \<le> 0 then f else f(s := (f s)(d \<mapsto> now + min window maxTrackedWindow)))"
| "windows_run (ForgetOp s) f = f(s := Map.empty)"

text \<open>The clock does not go back: every record is at a time from \<open>t\<close> on, not before the one before it.\<close>

fun in_time :: "int \<Rightarrow> tracker_op list \<Rightarrow> bool" where
  "in_time t [] = True"
| "in_time t (RecordOp now s d window # ops) = (t \<le> now \<and> in_time now ops)"
| "in_time t (ForgetOp s # ops) = in_time t ops"

fun latest :: "int \<Rightarrow> tracker_op list \<Rightarrow> int" where
  "latest t [] = t"
| "latest t (RecordOp now s d window # ops) = latest now ops"
| "latest t (ForgetOp s # ops) = latest t ops"

definition open_at :: "int \<Rightarrow> int option \<Rightarrow> bool" where
  "open_at now u = (case u of Some until \<Rightarrow> now < until | None \<Rightarrow> False)"

definition until_of :: "write_tracker \<Rightarrow> string \<Rightarrow> string \<Rightarrow> int option" where
  "until_of w s d = Option.bind (map_of (wk_until w) s) (\<lambda>ds. map_of ds d)"

definition keys_ok :: "write_tracker \<Rightarrow> bool" where
  "keys_ok w \<longleftrightarrow> distinct (map fst (wk_until w)) \<and> (\<forall>(s, ds)\<in>set (wk_until w). distinct (map fst ds))"

text \<open>What the tracker holds is what the table holds, but for windows that have ended.\<close>

definition tracks :: "int \<Rightarrow> write_tracker \<Rightarrow> windows \<Rightarrow> bool" where
  "tracks t w f \<longleftrightarrow> keys_ok w \<and> (\<forall>s d. until_of w s d = f s d \<or> until_of w s d = None \<and> (\<exists>u. f s d = Some u \<and> u \<le> t))"

lemma map_of_expire:
  "distinct (map fst ds) \<Longrightarrow> map_of (expire now ds) d = (case map_of ds d of Some u \<Rightarrow> if now < u then Some u else None | None \<Rightarrow> None)"
proof (induction ds)
  case (Cons x ds)
  obtain k u where x: "x = (k, u)" by (cases x)
  have "map_of ds k = None" using Cons.prems x by (simp add: map_of_eq_None_iff)
  then show ?case using Cons x by (cases "d = k") (simp_all add: expire_def)
qed (simp add: expire_def)

lemma distinct_expire: "distinct (map fst ds) \<Longrightarrow> distinct (map fst (expire now ds))"
  by (simp add: expire_def distinct_map_filter)

lemma prune_keys: "map fst (prune now us) = map fst (filter (\<lambda>(s, d). expire now d \<noteq> []) us)"
  by (induction us) (auto simp: prune_def)

lemma map_of_prune:
  "distinct (map fst us) \<Longrightarrow> map_of (prune now us) s = (case map_of us s of Some d \<Rightarrow> if expire now d \<noteq> [] then Some (expire now d) else None | None \<Rightarrow> None)"
proof (induction us)
  case (Cons x us)
  obtain k d where x: "x = (k, d)" by (cases x)
  have "map_of us k = None" using Cons.prems x by (simp add: map_of_eq_None_iff)
  then show ?case using Cons x by (cases "s = k") (simp_all add: prune_def)
qed (simp add: prune_def)

lemma until_of_prune:
  assumes "keys_ok w"
  shows "until_of (w\<lparr>wk_until := prune now (wk_until w)\<rparr>) s d = (case until_of w s d of Some u \<Rightarrow> if now < u then Some u else None | None \<Rightarrow> None)"
proof (cases "map_of (wk_until w) s")
  case (Some ds)
  then have "distinct (map fst ds)" using assms map_of_SomeD [OF Some] by (auto simp: keys_ok_def)
  from map_of_expire [OF this, of now d] Some assms show ?thesis
    by (auto simp: until_of_def map_of_prune keys_ok_def)
qed (use assms in \<open>simp add: until_of_def map_of_prune keys_ok_def\<close>)

lemma keys_ok_prune:
  assumes "keys_ok w"
  shows "keys_ok (w\<lparr>wk_until := prune now (wk_until w)\<rparr>)"
proof -
  have "distinct (map fst (prune now (wk_until w)))" unfolding prune_keys using assms by (simp add: keys_ok_def distinct_map_filter)
  moreover have "\<forall>(s, ds)\<in>set (prune now (wk_until w)). distinct (map fst ds)"
    using assms distinct_expire by (fastforce simp: prune_def keys_ok_def)
  ultimately show ?thesis by (simp add: keys_ok_def)
qed

lemma tracks_prune: "tracks t w f \<Longrightarrow> t \<le> now \<Longrightarrow> tracks now (w\<lparr>wk_until := prune now (wk_until w)\<rparr>) f"
proof -
  assume a: "tracks t w f" "t \<le> now"
  let ?w = "w\<lparr>wk_until := prune now (wk_until w)\<rparr>"
  have ok: "keys_ok w" using a(1) by (simp add: tracks_def)
  have "until_of ?w s d = f s d \<or> until_of ?w s d = None \<and> (\<exists>u. f s d = Some u \<and> u \<le> now)" for s d
  proof -
    have "until_of w s d = f s d \<or> until_of w s d = None \<and> (\<exists>u. f s d = Some u \<and> u \<le> t)" using a(1) by (simp add: tracks_def)
    then show ?thesis using a(2) until_of_prune [OF ok, of now s d] by (auto split: option.splits if_splits)
  qed
  then show ?thesis using keys_ok_prune [OF ok] by (simp add: tracks_def)
qed

lemma tracks_record:
  fixes w :: write_tracker
  assumes "tracks t w f" "t \<le> now" "until = now + k"
    and "ds = expire now (case map_of (wk_until w) s of Some d \<Rightarrow> d | None \<Rightarrow> [])"
  shows "tracks now (w\<lparr>wk_until := AList.update s (AList.update d until ds) (wk_until w)\<rparr>) (f(s := (f s)(d \<mapsto> until)))" (is "tracks now ?w ?f")
proof -
  have old: "distinct (map fst (case map_of (wk_until w) s of Some d \<Rightarrow> d | None \<Rightarrow> []))"
    using assms(1) map_of_SomeD [of "wk_until w" s] by (force simp: tracks_def keys_ok_def split: option.splits)
  have ds: "distinct (map fst ds)" "map_of ds e = (case until_of w s e of Some u \<Rightarrow> if now < u then Some u else None | None \<Rightarrow> None)" for e
    using old map_of_expire [OF old, of now e] unfolding assms(4)
    by (auto simp: distinct_expire until_of_def split: option.splits)
  have "keys_ok ?w"
  proof -
    have "distinct (map fst (AList.update d until ds))" using ds(1) by (rule distinct_update)
    moreover have "set (AList.update s x us) \<subseteq> insert (s, x) (set us)" for x us
      by (induction us) auto
    ultimately show ?thesis using assms(1) unfolding tracks_def keys_ok_def by (fastforce simp: distinct_update)
  qed
  moreover have "until_of ?w s' e = ?f s' e \<or> until_of ?w s' e = None \<and> (\<exists>u. ?f s' e = Some u \<and> u \<le> now)" for s' e
  proof (cases "s' = s")
    case True
    have "until_of w s e = f s e \<or> until_of w s e = None \<and> (\<exists>u. f s e = Some u \<and> u \<le> t)" using assms(1) by (simp add: tracks_def)
    then show ?thesis using True ds(2) [of e] assms(2) by (auto simp: until_of_def update_conv' split: option.splits)
  next
    case False
    have "until_of w s' e = f s' e \<or> until_of w s' e = None \<and> (\<exists>u. f s' e = Some u \<and> u \<le> t)" using assms(1) by (simp add: tracks_def)
    then show ?thesis using False assms(2) by (auto simp: until_of_def update_conv')
  qed
  ultimately show ?thesis by (simp add: tracks_def)
qed

lemma tracks_later: "tracks t w f \<Longrightarrow> t \<le> t' \<Longrightarrow> tracks t' w f"
  unfolding tracks_def by (meson order_trans)

lemma tracks_forget:
  assumes "tracks t w f"
  shows "tracks t (w\<lparr>wk_until := AList.delete s (wk_until w)\<rparr>) (f(s := Map.empty))"
proof -
  have "keys_ok (w\<lparr>wk_until := AList.delete s (wk_until w)\<rparr>)"
    using assms by (auto simp: tracks_def keys_ok_def distinct_map_filter AList.delete_eq)
  then show ?thesis using assms by (auto simp: tracks_def until_of_def delete_conv')
qed

lemma tracks_run:
  assumes "tracks t w f" "t \<le> (case op of RecordOp now _ _ _ \<Rightarrow> now | ForgetOp _ \<Rightarrow> t)"
  shows "\<exists>w'. tracker_run op (Some w) = Some w' \<and> tracks (case op of RecordOp now _ _ _ \<Rightarrow> now | ForgetOp _ \<Rightarrow> t) w' (windows_run op f)"
proof (cases op)
  case (ForgetOp s)
  then show ?thesis using tracks_forget [OF assms(1)] by (simp add: tracker_Forget_def)
next
  case (RecordOp now s d window)
  let ?ds = "expire now (case map_of (wk_until w) s of Some d \<Rightarrow> d | None \<Rightarrow> [])"
  let ?w = "w\<lparr>wk_until := AList.update s (AList.update d (now + min window maxTrackedWindow) ?ds) (wk_until w)\<rparr>"
  let ?f = "f(s := (f s)(d \<mapsto> now + min window maxTrackedWindow))"
  have t: "t \<le> now" using assms(2) RecordOp by simp
  have tw: "tracks now ?w ?f" by (rule tracks_record [OF assms(1) t refl refl])
  have "tracks now (?w\<lparr>wk_until := prune now (wk_until ?w), wk_lastPrune := Some now\<rparr>) ?f"
    using tracks_prune [OF tw order_refl] by (simp add: tracks_def keys_ok_def until_of_def)
  then show ?thesis using tw tracks_later [OF assms(1) t] RecordOp by (cases w) (auto simp: tracker_Record_def Let_def)
qed

lemma tracks_runs:
  assumes "tracks t w f" "in_time t ops"
  shows "\<exists>w'. fold tracker_run ops (Some w) = Some w' \<and> tracks (latest t ops) w' (fold windows_run ops f)"
  using assms
proof (induction ops arbitrary: t w f)
  case (Cons op ops)
  let ?t = "case op of RecordOp now _ _ _ \<Rightarrow> now | ForgetOp _ \<Rightarrow> t"
  have "t \<le> ?t \<and> in_time ?t ops" using Cons.prems(2) by (cases op) auto
  moreover have "latest t (op # ops) = latest ?t ops" by (cases op) auto
  ultimately show ?case using Cons tracks_run [of t w f op] by fastforce
qed simp

lemma tracks_start: "tracks t NewWriteTracker (\<lambda>_ _. None)"
  by (simp add: tracks_def keys_ok_def until_of_def NewWriteTracker_def)

lemma tracks_Recent:
  assumes "tracks t w f" "t \<le> now"
  shows "Recent now s d (Some w) \<longleftrightarrow> open_at now (f s d)"
proof -
  have "until_of w s d = f s d \<or> until_of w s d = None \<and> (\<exists>u. f s d = Some u \<and> u \<le> t)" using assms(1) by (simp add: tracks_def)
  then show ?thesis using assms(2) by (auto simp: Recent_def open_at_def until_of_def [symmetric] split: option.splits)
qed

lemma tracks_Wrote:
  assumes "tracks t w f" "t \<le> now"
  shows "Wrote now s (Some w) \<longleftrightarrow> (\<exists>d. open_at now (f s d))"
proof -
  have "Wrote now s (Some w) \<longleftrightarrow> (\<exists>d. Recent now s d (Some w))"
  proof (cases "map_of (wk_until w) s")
    case (Some ds)
    then have "distinct (map fst ds)" using assms(1) map_of_SomeD [OF Some] by (auto simp: tracks_def keys_ok_def)
    then have "map_of ds d = Some u \<longleftrightarrow> (d, u) \<in> set ds" for d u by simp
    then have "(\<exists>x\<in>set ds. case x of (_, u) \<Rightarrow> now < u) \<longleftrightarrow> (\<exists>d u. map_of ds d = Some u \<and> now < u)" by auto
    then show ?thesis using Some by (auto simp: Wrote_def Recent_def list_ex_iff split: option.splits)
  qed (simp add: Wrote_def Recent_def)
  then show ?thesis using tracks_Recent [OF assms] by simp
qed

section \<open>The records of a write\<close>

definition write_ops :: "int \<Rightarrow> string \<Rightarrow> (string \<rightharpoonup> 'db data_source) \<Rightarrow> string list \<Rightarrow> tracker_op list" where
  "write_ops now session sources dss =
     map (\<lambda>d. RecordOp now session d (case sources d of Some s \<Rightarrow> ds_ReadAfterWrite s | None \<Rightarrow> 0)) dss"

lemma record_database_ops:
  "record_database now session sources w d tr =
     fold tracker_run (write_ops now session sources (case wt_datasources w d of Some ds \<Rightarrow> ds | None \<Rightarrow> [])) tr"
  unfolding record_database_def
proof -
  have "fold (\<lambda>ds. tracker_Record now session ds (case sources ds of Some s \<Rightarrow> ds_ReadAfterWrite s | None \<Rightarrow> 0)) dss tr =
      fold tracker_run (write_ops now session sources dss) tr" for dss tr
    by (induction dss arbitrary: tr) (simp_all add: write_ops_def)
  then show "fold (\<lambda>ds. tracker_Record now session ds (case sources ds of Some s \<Rightarrow> ds_ReadAfterWrite s | None \<Rightarrow> 0))
      (case wt_datasources w d of Some ds \<Rightarrow> ds | None \<Rightarrow> []) tr =
    fold tracker_run (write_ops now session sources (case wt_datasources w d of Some ds \<Rightarrow> ds | None \<Rightarrow> [])) tr" .
qed

lemma record_targets_ops:
  "\<exists>dss. record_targets now session sources w recorded ts tr = fold tracker_run (write_ops now session sources dss) tr \<and>
     (\<forall>t\<in>set ts. ct_Physical t \<notin> set recorded \<longrightarrow> (\<forall>ds. wt_datasources w (ct_Physical t) = Some ds \<longrightarrow> set ds \<subseteq> set dss))"
proof (induction ts arbitrary: recorded tr)
  case Nil
  show ?case by (rule exI [of _ "[]"]) (simp add: write_ops_def)
next
  case (Cons t ts)
  show ?case
  proof (cases "ct_Physical t \<in> set recorded")
    case True
    then show ?thesis using Cons.IH [of recorded tr] by auto
  next
    case False
    let ?new = "case wt_datasources w (ct_Physical t) of Some ds \<Rightarrow> ds | None \<Rightarrow> []"
    obtain dss where dss: "record_targets now session sources w (ct_Physical t # recorded) ts (record_database now session sources w (ct_Physical t) tr) =
        fold tracker_run (write_ops now session sources dss) (record_database now session sources w (ct_Physical t) tr)"
      "\<forall>t'\<in>set ts. ct_Physical t' \<notin> set (ct_Physical t # recorded) \<longrightarrow> (\<forall>ds. wt_datasources w (ct_Physical t') = Some ds \<longrightarrow> set ds \<subseteq> set dss)"
      using Cons.IH by blast
    show ?thesis
    proof (intro exI [of _ "?new @ dss"] conjI ballI impI allI)
      show "record_targets now session sources w recorded (t # ts) tr = fold tracker_run (write_ops now session sources (?new @ dss)) tr"
        using False dss(1) by (simp add: record_database_ops write_ops_def)
      fix t' ds assume "t' \<in> set (t # ts)" "ct_Physical t' \<notin> set recorded" "wt_datasources w (ct_Physical t') = Some ds"
      then show "set ds \<subseteq> set (?new @ dss)" using dss(2) by (cases "ct_Physical t' = ct_Physical t") auto
    qed
  qed
qed

lemma in_time_write_ops: "in_time t (write_ops t session sources dss)" "latest t (write_ops t session sources dss) = t"
  by (induction dss) (simp_all add: write_ops_def)

text \<open>A window of a session, once recorded, is only moved on by later records of that window.\<close>

definition keeps :: "string \<Rightarrow> string \<Rightarrow> int \<Rightarrow> tracker_op \<Rightarrow> bool" where
  "keeps session ds window op = (case op of ForgetOp s \<Rightarrow> s \<noteq> session | RecordOp _ s d k \<Rightarrow> s = session \<longrightarrow> d = ds \<longrightarrow> k = window)"

lemma windows_kept:
  assumes "f session ds = Some u" "t + min window maxTrackedWindow \<le> u" "\<forall>op\<in>set ops. keeps session ds window op" "in_time t ops" "0 < window"
  shows "\<exists>u. fold windows_run ops f session ds = Some u \<and> t + min window maxTrackedWindow \<le> u"
  using assms
proof (induction ops arbitrary: f u t)
  case (Cons op ops)
  show ?case
  proof (cases op)
    case (ForgetOp s)
    then show ?thesis using Cons by (auto simp: keeps_def)
  next
    case (RecordOp now s d k)
    show ?thesis
    proof (cases "s = session \<and> d = ds")
      case True
      then have "k = window" "t \<le> now" "in_time now ops" using Cons.prems(3,4) RecordOp by (auto simp: keeps_def)
      then show ?thesis
        using True RecordOp Cons.prems(3,5) Cons.IH [of "f(s := (f s)(d \<mapsto> now + min k maxTrackedWindow))" "now + min k maxTrackedWindow" now]
        by fastforce
    next
      case False
      let ?f = "windows_run op f"
      have "?f session ds = Some u" using False RecordOp Cons.prems(1) by auto
      moreover have "in_time t ops" using RecordOp Cons.prems(4) by (induction ops arbitrary: now rule: in_time.induct) auto
      ultimately show ?thesis using Cons by simp
    qed
  qed
qed auto

lemma windows_write_ops:
  "0 < window \<Longrightarrow> sources ds = Some src \<Longrightarrow> window = ds_ReadAfterWrite src \<Longrightarrow> ds \<in> set dss \<or> f session ds = Some (t + min window maxTrackedWindow) \<Longrightarrow>
     fold windows_run (write_ops t session sources dss) f session ds = Some (t + min window maxTrackedWindow)"
proof (induction dss arbitrary: f)
  case (Cons d dss)
  let ?f = "windows_run (RecordOp t session d (case sources d of Some s \<Rightarrow> ds_ReadAfterWrite s | None \<Rightarrow> 0)) f"
  have "ds \<in> set dss \<or> ?f session ds = Some (t + min window maxTrackedWindow)"
    using Cons.prems by (cases "d = ds") auto
  then show ?case using Cons.IH [OF Cons.prems(1-3), of ?f] by (simp only: write_ops_def list.map fold_simps)
qed (simp add: write_ops_def)

lemma in_time_append: "in_time t (xs @ ys) \<longleftrightarrow> in_time t xs \<and> in_time (latest t xs) ys"
  by (induction t xs rule: in_time.induct) auto

lemma latest_append: "latest t (xs @ ys) = latest (latest t xs) ys"
  by (induction t xs rule: latest.induct) auto

lemma in_time_earlier: "in_time t ops \<Longrightarrow> t' \<le> t \<Longrightarrow> in_time t' ops"
  by (induction t ops arbitrary: t' rule: in_time.induct) auto

section \<open>Properties\<close>

text \<open>
  C23: the tracker is the table of every session's windows. After any sequence of records and forgotten sessions, with
  a clock that does not go back, a session's reads of a datasource follow its last write there exactly while the
  window of that write is open; the expired windows the tracker drops on the way are never missed.
\<close>

theorem tracker_refines:
  assumes "in_time t0 ops" "latest t0 ops \<le> now"
  shows "let w = fold tracker_run ops (Some NewWriteTracker); f = fold windows_run ops (\<lambda>_ _. None) in
    (Recent now s d w \<longleftrightarrow> open_at now (f s d)) \<and> (Wrote now s w \<longleftrightarrow> (\<exists>d. open_at now (f s d)))"
proof -
  obtain w where w: "fold tracker_run ops (Some NewWriteTracker) = Some w" "tracks (latest t0 ops) w (fold windows_run ops (\<lambda>_ _. None))"
    using tracks_runs [OF tracks_start assms(1)] by blast
  show ?thesis using tracks_Recent [OF w(2) assms(2)] tracks_Wrote [OF w(2) assms(2)] by (simp add: w(1))
qed

text \<open>
  C22: a session reads its own writes. After a committed write, on every datasource that reaches a database it changed
  and has a window, the session's reads use the write connection until the window ends, whatever other sessions and
  this one write in between, unless the session is forgotten.
\<close>

theorem reads_follow_writes:
  assumes "in_time t0 before" "latest t0 before \<le> t"
    and "applyWrite t session sources w targets (fold tracker_run before (Some NewWriteTracker)) c = Some (tracker, c')"
    and "target \<in> set targets" "wt_datasources w (ct_Physical target) = Some dss" "ds \<in> set dss"
    and "sources ds = Some source" "0 < ds_ReadAfterWrite source"
    and "in_time t after" "\<forall>op\<in>set after. keeps session ds (ds_ReadAfterWrite source) op"
    and "latest t after \<le> now" "now < t + min (ds_ReadAfterWrite source) maxTrackedWindow"
  shows "connectionFor now (fold tracker_run after tracker) session source ds ActionRead = orDB (ds_Write source) (ds_DB source)"
proof -
  let ?k = "ds_ReadAfterWrite source"
  obtain written where wr: "record_targets t session sources w [] targets (fold tracker_run before (Some NewWriteTracker)) =
      fold tracker_run (write_ops t session sources written) (fold tracker_run before (Some NewWriteTracker))"
    "set dss \<subseteq> set written"
    using record_targets_ops [of t session sources w "[]" targets "fold tracker_run before (Some NewWriteTracker)"] assms(4,5) by auto
  let ?ops = "before @ write_ops t session sources written @ after"
  have run: "fold tracker_run after tracker = fold tracker_run ?ops (Some NewWriteTracker)"
    using assms(3) wr(1) by (auto simp: applyWrite_def)
  have "in_time (latest t0 before) (write_ops t session sources written)"
    using in_time_earlier [OF in_time_write_ops(1) assms(2)] .
  moreover have "latest (latest t0 before) (write_ops t session sources written) = t"
    using wr(2) assms(6) by (cases written) (auto simp: write_ops_def in_time_write_ops(2) [unfolded write_ops_def])
  ultimately have ops: "in_time t0 ?ops" "latest t0 ?ops = latest t after"
    using assms(1,9) by (simp_all add: in_time_append latest_append)
  obtain tr where tr: "fold tracker_run ?ops (Some NewWriteTracker) = Some tr" "tracks (latest t0 ?ops) tr (fold windows_run ?ops (\<lambda>_ _. None))"
    using tracks_runs [OF tracks_start ops(1)] by blast
  let ?f = "fold windows_run (write_ops t session sources written) (fold windows_run before (\<lambda>_ _. None))"
  have f: "?f session ds = Some (t + min ?k maxTrackedWindow)"
    using wr(2) assms(6,7,8) by (intro windows_write_ops) auto
  obtain u where "fold windows_run ?ops (\<lambda>_ _. None) session ds = Some u" "t + min ?k maxTrackedWindow \<le> u"
    using windows_kept [where f = ?f, OF f _ assms(10,9,8)] by auto
  then have "Recent now session ds (Some tr)"
    using tracks_Recent [OF tr(2), of now session ds] ops(2) assms(11,12) by (simp add: open_at_def)
  then show ?thesis using run tr(1) assms(8) by (simp add: connectionFor_def followsWrite_def)
qed

text \<open>The witnesses: one datasource with a window of five seconds, written by one session.\<close>

definition ex_source :: "nat data_source" where
  "ex_source = \<lparr>ds_DB = Some 1, ds_Write = Some 2, ds_Execute = None, ds_ReadAfterWrite = 5\<rparr>"

definition ex_placed :: write_targets where
  "ex_placed = \<lparr>wt_byEntity = Map.empty, wt_datasources = [''db'' \<mapsto> [''main'']], wt_physical = [''main'' \<mapsto> ''db'']\<rparr>"

definition ex_ops :: "tracker_op list" where
  "ex_ops = [RecordOp 1 ''alice'' ''main'' 5, RecordOp 3 ''bob'' ''main'' 5, ForgetOp ''alice'']"

theorem tracker_refines_witness:
  "(let w = fold tracker_run ex_ops (Some NewWriteTracker); f = fold windows_run ex_ops (\<lambda>_ _. None) in
    (Recent 4 ''bob'' ''main'' w \<longleftrightarrow> open_at 4 (f ''bob'' ''main'')) \<and> (Wrote 4 ''bob'' w \<longleftrightarrow> (\<exists>d. open_at 4 (f ''bob'' d)))) \<and>
   open_at 4 (fold windows_run ex_ops (\<lambda>_ _. None) ''bob'' ''main'')"
  using tracker_refines [of 0 ex_ops 4 "''bob''" "''main''"] by (simp add: ex_ops_def open_at_def maxTrackedWindow_def Let_def)

theorem reads_follow_writes_witness:
  "\<exists>tracker c. applyWrite 1 ''alice'' [''main'' \<mapsto> ex_source] ex_placed [\<lparr>ct_Physical = ''db'', ct_Relation = ''t''\<rparr>]
      (fold tracker_run [] (Some NewWriteTracker)) (the (NewTTLCache 10 2 :: nat ttl_cache option)) = Some (tracker, c) \<and>
    connectionFor 5 (fold tracker_run [RecordOp 3 ''bob'' ''main'' 5] tracker) ''alice'' ex_source ''main'' ActionRead = Some 2"
proof -
  let ?ts = "[\<lparr>ct_Physical = ''db'', ct_Relation = ''t''\<rparr>]" and ?c = "the (NewTTLCache 10 2 :: nat ttl_cache option)"
  have "cache_ok ?c" by (rule NewTTLCache_ok [of 10 2, where 'a = nat]) simp
  then obtain c where "Invalidate ''db'' ''t'' ?c = Some c" by (rule Invalidate_ok)
  then have "invalidate ?ts ?c = Some c" by simp
  then obtain tracker where a: "applyWrite 1 ''alice'' [''main'' \<mapsto> ex_source] ex_placed ?ts
      (fold tracker_run [] (Some NewWriteTracker)) ?c = Some (tracker, c)"
    by (simp add: applyWrite_def)
  have "connectionFor 5 (fold tracker_run [RecordOp 3 ''bob'' ''main'' 5] tracker) ''alice'' ex_source ''main'' ActionRead =
      orDB (ds_Write ex_source) (ds_DB ex_source)"
    by (rule reads_follow_writes [of 0 "[]", OF _ _ a, of "\<lparr>ct_Physical = ''db'', ct_Relation = ''t''\<rparr>" "[''main'']"])
      (simp_all add: ex_placed_def ex_source_def keeps_def maxTrackedWindow_def)
  with a show ?thesis by (auto simp: orDB_def ex_source_def)
qed

end
