(* ===== verification/Cascade.thy ===== *)
theory Cascade
  imports Rbac Field_Uses
begin

text \<open>
  The writes foreign keys cascade, \<^verbatim>\<open>src/core/tool/cascade.go\<close>: before a delete, or an update of referenced columns,
  the caller must hold the matching permission without a row scope on every entity the database will rewrite. The
  authorizer is an argument, as it is an interface in the code: it answers a request with an error or a decision.

  The walk goes depth first and stops at the first error, so the effects still to do are a list with those of the
  entity just reached in front. It is \<^const>\<open>None\<close> where it would not return.
\<close>

record cascade_effect =
  ce_cascade :: cascade
  ce_action :: action
  ce_columns :: "string list"

definition cascadeEffects :: "entity \<Rightarrow> action \<Rightarrow> string list \<Rightarrow> cascade_effect list" where
  "cascadeEffects e act updated =
     concat (map (\<lambda>c.
       let rule = (if act = ActionUpdate then cs_OnUpdate c else cs_OnDelete c) in
       if act = ActionUpdate \<and> \<not> list_ex (\<lambda>col. col \<in> set updated) (cs_Columns c) then []
       else if \<not> ReferentialWrite rule then []
       else if act = ActionDelete \<and> rule = ''cascade''
       then [\<lparr>ce_cascade = c, ce_action = ActionDelete, ce_columns = []\<rparr>]
       else [\<lparr>ce_cascade = c, ce_action = ActionUpdate, ce_columns = cs_ForeignColumns c\<rparr>]) (e_Cascades e))"

datatype 'err cascade_error =
    CascadeHidden string | CascadeUnregistered string | CascadeFailed 'err | CascadeRefused string action

definition columnNames :: "entity \<Rightarrow> string list \<Rightarrow> string list" where
  "columnNames e fs = map (\<lambda>f. case AttributeByName e f of Some a \<Rightarrow> at_Name a | None \<Rightarrow> f) fs"

definition cascade_key :: "entity \<Rightarrow> action \<Rightarrow> string list \<Rightarrow> string" where
  "cascade_key e act updated = e_Name e @ [CHR 0x00] @ action_String act @ [CHR 0x00] @ join_strs [CHR 0x00] updated"

definition effect_request :: "string \<Rightarrow> (string \<Rightarrow> val option) \<Rightarrow> cascade_effect \<Rightarrow> request" where
  "effect_request role subject eff =
     \<lparr>rq_Role = role, rq_Entity = cs_Entity (ce_cascade eff), rq_Action = ce_action eff, rq_Fields = [], rq_ReadFields = [],
      rq_WriteFields = ce_columns eff, rq_Subject = subject, rq_Predicate = NilPred\<rparr>"

text \<open>The check of one effect: the entity it reaches, or why it is refused.\<close>

definition check_effect ::
  "registry \<Rightarrow> (request \<Rightarrow> 'err + decision) \<Rightarrow> string \<Rightarrow> (string \<Rightarrow> val option) \<Rightarrow> cascade_effect \<Rightarrow> 'err cascade_error + entity" where
  "check_effect reg authz role subject eff =
     (let c = ce_cascade eff in
      if cs_Entity c = [] then Inl (CascadeHidden (cs_Table c))
      else case Resolve reg (cs_Entity c) of
             None \<Rightarrow> Inl (CascadeUnregistered (cs_Entity c))
           | Some res \<Rightarrow>
               (case authz (effect_request role subject eff) of
                  Inl err \<Rightarrow> Inl (CascadeFailed err)
                | Inr dec \<Rightarrow>
                    if \<not> d_Allowed dec \<or> d_RowFilter dec \<noteq> NilPred then Inl (CascadeRefused (cs_Entity c) (ce_action eff))
                    else Inr (rs_Entity res)))"

text \<open>Reaching an entity: the effects it adds in front of the others, unless it is exempt or was seen.\<close>

definition reach_entity ::
  "entity \<Rightarrow> action \<Rightarrow> string list \<Rightarrow> cascade_effect list \<times> string set \<Rightarrow> cascade_effect list \<times> string set" where
  "reach_entity e act updated todo =
     (let key = cascade_key e act updated in
      if e_AllowCascade e \<or> key \<in> snd todo then todo
      else (cascadeEffects e act updated @ fst todo, insert key (snd todo)))"

partial_function (option) walkCascades ::
  "registry \<Rightarrow> (request \<Rightarrow> 'err + decision) \<Rightarrow> string \<Rightarrow> (string \<Rightarrow> val option) \<Rightarrow> cascade_effect list \<times> string set \<Rightarrow>
   ('err cascade_error + unit) option" where
  "walkCascades reg authz role subject todo =
     (case fst todo of
        [] \<Rightarrow> Some (Inr ())
      | eff # rest \<Rightarrow>
          (case check_effect reg authz role subject eff of
             Inl err \<Rightarrow> Some (Inl err)
           | Inr e \<Rightarrow> walkCascades reg authz role subject (reach_entity e (ce_action eff) (ce_columns eff) (rest, snd todo))))"

definition checkCascades ::
  "registry \<Rightarrow> (request \<Rightarrow> 'err + decision) \<Rightarrow> string \<Rightarrow> (string \<Rightarrow> val option) \<Rightarrow> entity \<Rightarrow> action \<Rightarrow> string list \<Rightarrow>
   ('err cascade_error + unit) option" where
  "checkCascades reg authz role subject e act updated =
     walkCascades reg authz role subject (reach_entity e act (columnNames e updated) ([], {}))"

end
