(* ===== verification/Cascade_Props.thy ===== *)
theory Cascade_Props
  imports Cascade
begin

text \<open>
  The walk over the cascades returns, and accepts exactly when every write the database will cascade is covered.
\<close>

type_synonym node = "entity \<times> action \<times> string list"

section \<open>The writes foreign keys make\<close>

text \<open>
  What the referential actions of SQL write. A row that is deleted deletes the rows that reference it under \<open>cascade\<close>, and
  rewrites their referencing columns under \<open>set_null\<close> and \<open>set_default\<close>; an update of a referenced column rewrites the
  referencing columns under each of the three. Every other action only checks.
\<close>

inductive fk_writes :: "entity \<Rightarrow> action \<Rightarrow> string list \<Rightarrow> cascade_effect \<Rightarrow> bool" where
  deletes: "c \<in> set (e_Cascades e) \<Longrightarrow> cs_OnDelete c = ''cascade'' \<Longrightarrow>
    fk_writes e ActionDelete updated \<lparr>ce_cascade = c, ce_action = ActionDelete, ce_columns = []\<rparr>"
| unlinks: "c \<in> set (e_Cascades e) \<Longrightarrow> cs_OnDelete c = ''set_null'' \<or> cs_OnDelete c = ''set_default'' \<Longrightarrow>
    fk_writes e ActionDelete updated \<lparr>ce_cascade = c, ce_action = ActionUpdate, ce_columns = cs_ForeignColumns c\<rparr>"
| updates: "c \<in> set (e_Cascades e) \<Longrightarrow> col \<in> set (cs_Columns c) \<Longrightarrow> col \<in> set updated \<Longrightarrow>
    cs_OnUpdate c = ''cascade'' \<or> cs_OnUpdate c = ''set_null'' \<or> cs_OnUpdate c = ''set_default'' \<Longrightarrow>
    fk_writes e ActionUpdate updated \<lparr>ce_cascade = c, ce_action = ActionUpdate, ce_columns = cs_ForeignColumns c\<rparr>"

text \<open>The writes reached from one, over any number of tables; those of an entity that allows cascades are not followed.\<close>

inductive visits :: "registry \<Rightarrow> node \<Rightarrow> node \<Rightarrow> bool" for reg n where
  start: "visits reg n n"
| step: "visits reg n (e, act, updated) \<Longrightarrow> \<not> e_AllowCascade e \<Longrightarrow> fk_writes e act updated eff \<Longrightarrow>
    Resolve reg (cs_Entity (ce_cascade eff)) = Some res \<Longrightarrow> visits reg n (rs_Entity res, ce_action eff, ce_columns eff)"

definition triggered :: "registry \<Rightarrow> node \<Rightarrow> cascade_effect \<Rightarrow> bool" where
  "triggered reg n eff \<longleftrightarrow> (\<exists>e act updated. visits reg n (e, act, updated) \<and> \<not> e_AllowCascade e \<and> fk_writes e act updated eff)"

section \<open>The writes the code follows\<close>

inductive code_visits :: "registry \<Rightarrow> node \<Rightarrow> node \<Rightarrow> bool" for reg n where
  start: "code_visits reg n n"
| step: "code_visits reg n (e, act, updated) \<Longrightarrow> \<not> e_AllowCascade e \<Longrightarrow> eff \<in> set (cascadeEffects e act updated) \<Longrightarrow>
    Resolve reg (cs_Entity (ce_cascade eff)) = Some res \<Longrightarrow> code_visits reg n (rs_Entity res, ce_action eff, ce_columns eff)"

definition code_triggered :: "registry \<Rightarrow> node \<Rightarrow> cascade_effect \<Rightarrow> bool" where
  "code_triggered reg n eff \<longleftrightarrow> (\<exists>e act updated. code_visits reg n (e, act, updated) \<and> \<not> e_AllowCascade e \<and> eff \<in> set (cascadeEffects e act updated))"

definition node_key :: "node \<Rightarrow> string" where
  "node_key n = (case n of (e, act, updated) \<Rightarrow> cascade_key e act updated)"

text \<open>An effect is settled by a set of nodes when its check passes and the node it leads to is exempt or in the set.\<close>

definition settled :: "(cascade_effect \<Rightarrow> 'err cascade_error + entity) \<Rightarrow> node set \<Rightarrow> cascade_effect \<Rightarrow> bool" where
  "settled chk P eff \<longleftrightarrow> (\<exists>c. chk eff = Inr c \<and> (e_AllowCascade c \<or> (c, ce_action eff, ce_columns eff) \<in> P))"

definition handled :: "(cascade_effect \<Rightarrow> 'err cascade_error + entity) \<Rightarrow> node set \<Rightarrow> cascade_effect list \<Rightarrow> bool" where
  "handled chk P todo \<longleftrightarrow> (\<forall>(e, act, updated)\<in>P. \<not> e_AllowCascade e \<and>
     (\<forall>eff\<in>set (cascadeEffects e act updated). eff \<in> set todo \<or> settled chk P eff))"

lemma settled_mono: "settled chk P eff \<Longrightarrow> P \<subseteq> Q \<Longrightarrow> settled chk Q eff"
  by (auto simp: settled_def)

lemma handledD: "handled chk P todo \<Longrightarrow> (e, act, updated) \<in> P \<Longrightarrow> \<not> e_AllowCascade e"
    "handled chk P todo \<Longrightarrow> (e, act, updated) \<in> P \<Longrightarrow> eff \<in> set (cascadeEffects e act updated) \<Longrightarrow> eff \<in> set todo \<or> settled chk P eff"
  unfolding handled_def by blast+

lemma handledI:
  "(\<And>e act updated. (e, act, updated) \<in> P \<Longrightarrow> \<not> e_AllowCascade e) \<Longrightarrow>
   (\<And>e act updated eff. (e, act, updated) \<in> P \<Longrightarrow> eff \<in> set (cascadeEffects e act updated) \<Longrightarrow> eff \<in> set todo \<or> settled chk P eff) \<Longrightarrow>
   handled chk P todo"
  unfolding handled_def by blast

lemma handled_mono:
  assumes "handled chk P todo" "\<And>eff. eff \<in> set todo \<Longrightarrow> eff \<in> set todo' \<or> settled chk P eff"
  shows "handled chk P todo'"
proof (rule handledI)
  show "\<not> e_AllowCascade e" if "(e, act, updated) \<in> P" for e act updated by (rule handledD(1) [OF assms(1) that])
  show "eff \<in> set todo' \<or> settled chk P eff" if "(e, act, updated) \<in> P" "eff \<in> set (cascadeEffects e act updated)" for e act updated eff
    using handledD(2) [OF assms(1) that] assms(2) by (elim disjE) simp_all
qed

lemma check_effect_Inr: "check_effect reg authz role subject eff = Inr e \<Longrightarrow> \<exists>res. Resolve reg (cs_Entity (ce_cascade eff)) = Some res \<and> e = rs_Entity res"
  by (cases "Resolve reg (cs_Entity (ce_cascade eff))"; cases "authz (effect_request role subject eff)")
    (simp_all add: check_effect_def Let_def split: if_splits)


text \<open>What the walk has shown when it returns.\<close>

definition outcome :: "registry \<Rightarrow> node \<Rightarrow> (cascade_effect \<Rightarrow> 'err cascade_error + entity) \<Rightarrow> node set \<Rightarrow> cascade_effect list \<Rightarrow>
    'err cascade_error + unit \<Rightarrow> bool" where
  "outcome reg n0 chk P todo r \<longleftrightarrow>
     (case r of Inr _ \<Rightarrow> \<exists>Q. P \<subseteq> Q \<and> handled chk Q [] \<and> (\<forall>eff\<in>set todo. settled chk Q eff)
      | Inl err \<Rightarrow> \<exists>eff. code_triggered reg n0 eff \<and> chk eff = Inl err)"

lemma outcome_Nil: "handled chk P [] \<Longrightarrow> outcome reg n0 chk P [] (Inr ())"
  unfolding outcome_def by (simp, rule exI [of _ P]) simp

lemma outcome_Inl: "code_triggered reg n0 eff \<Longrightarrow> chk eff = Inl err \<Longrightarrow> outcome reg n0 chk P todo (Inl err)"
  unfolding outcome_def by (simp, rule exI [of _ eff]) simp

lemma outcome_weaken:
  assumes "outcome reg n0 chk P' todo' r" "P \<subseteq> P'"
    and "\<And>Q eff. P' \<subseteq> Q \<Longrightarrow> \<forall>x\<in>set todo'. settled chk Q x \<Longrightarrow> eff \<in> set todo \<Longrightarrow> settled chk Q eff"
  shows "outcome reg n0 chk P todo r"
proof (cases r)
  case (Inr u)
  then obtain Q where "P' \<subseteq> Q" "handled chk Q []" "\<forall>x\<in>set todo'. settled chk Q x" using assms(1) by (auto simp: outcome_def)
  then have "P \<subseteq> Q \<and> handled chk Q [] \<and> (\<forall>x\<in>set todo. settled chk Q x)" using assms(2,3) by blast
  then show ?thesis using Inr by (simp add: outcome_def) blast
qed (use assms(1) in \<open>simp add: outcome_def\<close>)

lemma walk_settles:
  fixes reg authz role subject
  defines "chk \<equiv> check_effect reg authz role subject"
  assumes N: "N = {n. code_visits reg n0 n}" "finite N" "inj_on node_key N"
    and P: "P \<subseteq> N" "handled chk P todo" "\<forall>eff\<in>set todo. code_triggered reg n0 eff"
  shows "\<exists>r. walkCascades reg authz role subject (todo, node_key ` P) = Some r \<and> outcome reg n0 chk P todo r"
  using P
proof (induction "card (N - P)" arbitrary: P todo rule: less_induct)
  case (less P todo)
  from less.prems(2,3) show ?case
  proof (induction todo)
    case Nil
    have "walkCascades reg authz role subject ([], node_key ` P) = Some (Inr ())" by (subst walkCascades.simps) simp
    then show ?case using outcome_Nil [OF Nil(1)] by blast
  next
    case (Cons eff rest)
    show ?case
    proof (cases "chk eff")
      case (Inl err)
      then have "walkCascades reg authz role subject (eff # rest, node_key ` P) = Some (Inl err)"
        by (subst walkCascades.simps) (simp add: chk_def)
      moreover have "outcome reg n0 chk P (eff # rest) (Inl err)" using outcome_Inl [of reg n0 eff chk err] Cons.prems(2) Inl by simp
      ultimately show ?thesis by blast
    next
      case (Inr c)
      let ?n = "(c, ce_action eff, ce_columns eff)"
      have step: "walkCascades reg authz role subject (eff # rest, node_key ` P) =
          walkCascades reg authz role subject (reach_entity c (ce_action eff) (ce_columns eff) (rest, node_key ` P))"
        using Inr by (subst walkCascades.simps) (simp add: chk_def)
      have n: "?n \<in> N"
        using Cons.prems(2) check_effect_Inr [OF Inr [unfolded chk_def]] by (auto simp: N(1) code_triggered_def intro: code_visits.step)
      have seen: "cascade_key c (ce_action eff) (ce_columns eff) \<in> node_key ` P \<longleftrightarrow> ?n \<in> P"
        using inj_on_image_mem_iff [OF N(3) n less.prems(1)] by (simp add: node_key_def)
      show ?thesis
      proof (cases "e_AllowCascade c \<or> ?n \<in> P")
        case True
        then have st: "settled chk P eff" using Inr by (auto simp: settled_def)
        have "walkCascades reg authz role subject (eff # rest, node_key ` P) = walkCascades reg authz role subject (rest, node_key ` P)"
          unfolding step using True seen by (auto simp: reach_entity_def)
        moreover have "handled chk P rest" by (rule handled_mono [OF Cons.prems(1)]) (use st in auto)
        ultimately obtain r where r: "walkCascades reg authz role subject (eff # rest, node_key ` P) = Some r" "outcome reg n0 chk P rest r"
          using Cons.IH Cons.prems(2) by auto
        have "outcome reg n0 chk P (eff # rest) r"
          by (rule outcome_weaken [OF r(2) subset_refl]) (use settled_mono [OF st] in auto)
        with r(1) show ?thesis by blast
      next
        case False
        let ?effs = "cascadeEffects c (ce_action eff) (ce_columns eff)"
        have go: "walkCascades reg authz role subject (eff # rest, node_key ` P) =
            walkCascades reg authz role subject (?effs @ rest, node_key ` insert ?n P)"
          unfolding step using False seen by (simp add: reach_entity_def node_key_def)
        have st: "settled chk (insert ?n P) eff" using Inr by (auto simp: settled_def)
        have "card (N - insert ?n P) < card (N - P)" using N(2) n False by (intro psubset_card_mono) auto
        moreover have "insert ?n P \<subseteq> N" using n less.prems(1) by simp
        moreover have "handled chk (insert ?n P) (?effs @ rest)"
        proof (rule handledI)
          show "\<not> e_AllowCascade e" if "(e, act, updated) \<in> insert ?n P" for e act updated
            using that False handledD(1) [OF Cons.prems(1)] by auto
          show "x \<in> set (?effs @ rest) \<or> settled chk (insert ?n P) x"
            if "(e, act, updated) \<in> insert ?n P" "x \<in> set (cascadeEffects e act updated)" for e act updated x
            using that st handledD(2) [OF Cons.prems(1), of e act updated x] settled_mono [of chk P x "insert ?n P"] by auto
        qed
        moreover have "\<forall>x\<in>set (?effs @ rest). code_triggered reg n0 x"
          using Cons.prems(2) n False by (auto simp: code_triggered_def N(1))
        ultimately obtain r where r: "walkCascades reg authz role subject (?effs @ rest, node_key ` insert ?n P) = Some r"
          "outcome reg n0 chk (insert ?n P) (?effs @ rest) r"
          using less.hyps [of "insert ?n P" "?effs @ rest"] by blast
        have "outcome reg n0 chk P (eff # rest) r"
          by (rule outcome_weaken [OF r(2)]) (use settled_mono [OF st] in auto)
        with r(1) show ?thesis unfolding go by blast
      qed
    qed
  qed
qed

section \<open>The nodes of a configuration\<close>

text \<open>No name has a NUL, which separates the parts of a key, and a foreign key has columns.\<close>

definition no_nul :: "string \<Rightarrow> bool" where
  "no_nul s \<longleftrightarrow> CHR 0x00 \<notin> set s"

definition named_plainly :: "entity list \<Rightarrow> bool" where
  "named_plainly es \<longleftrightarrow> (\<forall>x\<in>set es. no_nul (e_Name x) \<and>
     (\<forall>c\<in>set (e_Cascades x). cs_ForeignColumns c \<noteq> [] \<and> (\<forall>col\<in>set (cs_ForeignColumns c). no_nul col)))"

definition write_columns :: "action \<Rightarrow> string list \<Rightarrow> bool" where
  "write_columns act updated \<longleftrightarrow>
     (if act = ActionDelete then updated = [] else act = ActionUpdate \<and> updated \<noteq> [] \<and> (\<forall>c\<in>set updated. no_nul c))"

lemma join_strs_Cons: "ss \<noteq> [] \<Longrightarrow> join_strs sep (s # ss) = s @ sep @ join_strs sep ss"
  by (cases ss) auto

lemma join_strs_unique:
  assumes "join_strs [c] ss = join_strs [c] ts" "ss \<noteq> []" "ts \<noteq> []" "\<forall>s\<in>set ss. c \<notin> set s" "\<forall>t\<in>set ts. c \<notin> set t"
  shows "ss = ts"
  using assms
proof (induction ss arbitrary: ts)
  case (Cons s ss)
  then obtain t ts' where ts: "ts = t # ts'" by (cases ts) auto
  show ?case
  proof (cases "ss = [] \<or> ts' = []")
    case True
    then show ?thesis using Cons.prems ts append_sep_notin [of c]
      by (cases "ss = []"; cases "ts' = []") (fastforce simp: join_strs_Cons)+
  next
    case False
    then have "s @ c # join_strs [c] ss = t @ c # join_strs [c] ts'" using Cons.prems(1) ts by (simp add: join_strs_Cons)
    then have "s = t \<and> join_strs [c] ss = join_strs [c] ts'" using Cons.prems(4,5) ts append_sep_inj [of c s t] by simp
    then show ?thesis using Cons.IH [of ts'] Cons.prems(4,5) False ts by simp
  qed
qed simp

lemma effects_columns:
  assumes "eff \<in> set (cascadeEffects x act updated)" "x \<in> set es" "named_plainly es"
  shows "write_columns (ce_action eff) (ce_columns eff)"
    "ce_columns eff = [] \<or> ce_columns eff \<in> cs_ForeignColumns ` set (e_Cascades x)"
proof -
  obtain c where c: "c \<in> set (e_Cascades x)"
    "eff = \<lparr>ce_cascade = c, ce_action = ActionDelete, ce_columns = []\<rparr> \<or>
     eff = \<lparr>ce_cascade = c, ce_action = ActionUpdate, ce_columns = cs_ForeignColumns c\<rparr>"
    using assms(1) by (auto simp: cascadeEffects_def Let_def split: if_splits)
  have "\<forall>c\<in>set (e_Cascades x). cs_ForeignColumns c \<noteq> [] \<and> (\<forall>col\<in>set (cs_ForeignColumns c). no_nul col)"
    using assms(2,3) by (simp add: named_plainly_def)
  with c show "write_columns (ce_action eff) (ce_columns eff)" by (auto simp: write_columns_def)
  show "ce_columns eff = [] \<or> ce_columns eff \<in> cs_ForeignColumns ` set (e_Cascades x)" using c by auto
qed

lemma code_visits_ok:
  assumes "code_visits reg n0 n" "registry_of es reg" "named_plainly es" "fst n0 \<in> set es" "write_columns (fst (snd n0)) (snd (snd n0))"
  shows "fst n \<in> set es \<and> write_columns (fst (snd n)) (snd (snd n)) \<and>
    (snd (snd n) \<in> insert [] (insert (snd (snd n0)) (\<Union>x\<in>set es. cs_ForeignColumns ` set (e_Cascades x))))"
  using assms(1)
proof (induction rule: code_visits.induct)
  case (step e act updated eff res)
  have "rs_Entity res \<in> set es"
    using step.hyps(4) assms(2) named_subset [of es "cs_Entity (ce_cascade eff)"] by (auto simp: Resolve_named split: list.splits)
  moreover have "e \<in> set es" using step.IH by simp
  ultimately show ?case using effects_columns [OF step.hyps(3) _ assms(3)] by auto
qed (use assms in auto)

lemma code_visits_finite:
  assumes "registry_of es reg" "named_plainly es" "fst n0 \<in> set es" "write_columns (fst (snd n0)) (snd (snd n0))"
  shows "finite {n. code_visits reg n0 n}"
proof (rule finite_subset)
  let ?cols = "insert [] (insert (snd (snd n0)) (\<Union>x\<in>set es. cs_ForeignColumns ` set (e_Cascades x)))"
  show "{n. code_visits reg n0 n} \<subseteq> set es \<times> {ActionDelete, ActionUpdate} \<times> ?cols"
  proof
    fix n assume "n \<in> {n. code_visits reg n0 n}"
    then have "fst n \<in> set es" "write_columns (fst (snd n)) (snd (snd n))" "snd (snd n) \<in> ?cols" using code_visits_ok [OF _ assms] by auto
    then show "n \<in> set es \<times> {ActionDelete, ActionUpdate} \<times> ?cols" by (cases n) (auto simp: write_columns_def split: if_splits)
  qed
qed auto

lemma node_key_inj:
  assumes "registry_of es reg" "named_plainly es"
    and "fst n \<in> set es" "write_columns (fst (snd n)) (snd (snd n))" "fst m \<in> set es" "write_columns (fst (snd m)) (snd (snd m))"
    and "node_key n = node_key m"
  shows "n = m"
proof -
  obtain e a u where n: "n = (e, a, u)" by (cases n)
  obtain f b v where m: "m = (f, b, v)" by (cases m)
  let ?z = "CHR 0x00"
  have nn: "?z \<notin> set (e_Name e)" "?z \<notin> set (e_Name f)" using assms(2,3,5) n m by (auto simp: named_plainly_def no_nul_def)
  have act: "?z \<notin> set (action_String a)" "?z \<notin> set (action_String b)" by (cases a; simp) (cases b; simp)
  have "e_Name e = e_Name f" "action_String a @ ?z # join_strs [?z] u = action_String b @ ?z # join_strs [?z] v"
    using assms(7) append_sep_inj [OF nn] by (simp_all add: n m node_key_def cascade_key_def)
  then have eq: "e_Name e = e_Name f" "action_String a = action_String b" "join_strs [?z] u = join_strs [?z] v"
    using append_sep_inj [OF act] by simp_all
  have "e = f" using assms(1,3,5) n m eq(1) by (auto simp: registry_of_def distinct_map inj_on_def)
  moreover have ab: "a = b" using eq(2) by (cases a; cases b) auto
  moreover have "u = v"
  proof (cases "a = ActionDelete")
    case False
    then show ?thesis using assms(4,6) n m ab eq(3) by (intro join_strs_unique [of ?z]) (auto simp: write_columns_def no_nul_def)
  qed (use assms(4,6) n m ab in \<open>auto simp: write_columns_def\<close>)
  ultimately show ?thesis using n m by simp
qed

text \<open>The effects the code lists are the writes of the foreign keys.\<close>

lemma cascadeEffects_fk:
  assumes "act = ActionDelete \<or> act = ActionUpdate"
  shows "eff \<in> set (cascadeEffects e act updated) \<longleftrightarrow> fk_writes e act updated eff"
proof
  assume "eff \<in> set (cascadeEffects e act updated)"
  with assms show "fk_writes e act updated eff"
    by (auto simp: cascadeEffects_def Let_def ReferentialWrite_def list_ex_iff split: if_splits
        intro: fk_writes.deletes fk_writes.unlinks fk_writes.updates)
next
  assume "fk_writes e act updated eff"
  then show "eff \<in> set (cascadeEffects e act updated)"
  proof cases
    case (deletes c)
    then show ?thesis by (auto simp: cascadeEffects_def Let_def ReferentialWrite_def intro!: bexI [of _ c])
  next
    case (unlinks c)
    then show ?thesis by (auto simp: cascadeEffects_def Let_def ReferentialWrite_def intro!: bexI [of _ c])
  next
    case (updates c col)
    then show ?thesis by (auto simp: cascadeEffects_def Let_def ReferentialWrite_def list_ex_iff intro!: bexI [of _ c])
  qed
qed

lemma write_columns_act: "write_columns act updated \<Longrightarrow> act = ActionDelete \<or> act = ActionUpdate"
  by (auto simp: write_columns_def split: if_splits)

lemma code_visits_fk:
  assumes "registry_of es reg" "named_plainly es" "fst n0 \<in> set es" "write_columns (fst (snd n0)) (snd (snd n0))"
    and "code_visits reg n0 (e, act, updated)"
  shows "eff \<in> set (cascadeEffects e act updated) \<longleftrightarrow> fk_writes e act updated eff"
proof -
  have "write_columns act updated" using code_visits_ok [OF assms(5,1-4)] by simp
  then show ?thesis by (rule cascadeEffects_fk [OF write_columns_act])
qed

lemma visits_code:
  assumes "registry_of es reg" "named_plainly es" "fst n0 \<in> set es" "write_columns (fst (snd n0)) (snd (snd n0))"
  shows "visits reg n0 n \<longleftrightarrow> code_visits reg n0 n"
proof
  assume "visits reg n0 n"
  then show "code_visits reg n0 n"
  proof (induction rule: visits.induct)
    case (step e act updated eff res)
    show ?case
      by (rule code_visits.step [OF step.IH step.hyps(2) iffD2 [OF code_visits_fk [OF assms step.IH] step.hyps(3)] step.hyps(4)])
  qed (rule code_visits.start)
next
  assume "code_visits reg n0 n"
  then show "visits reg n0 n"
  proof (induction rule: code_visits.induct)
    case (step e act updated eff res)
    show ?case
      by (rule visits.step [OF step.IH step.hyps(2) iffD1 [OF code_visits_fk [OF assms step.hyps(1)] step.hyps(3)] step.hyps(4)])
  qed (rule visits.start)
qed

lemma triggered_code:
  assumes "registry_of es reg" "named_plainly es" "fst n0 \<in> set es" "write_columns (fst (snd n0)) (snd (snd n0))"
  shows "triggered reg n0 eff \<longleftrightarrow> code_triggered reg n0 eff"
  unfolding triggered_def code_triggered_def visits_code [OF assms]
  by (intro ex_cong1 conj_cong refl code_visits_fk [OF assms, symmetric])

section \<open>Properties\<close>

text \<open>An effect is covered when its entity is registered and the caller is allowed the write there without a row scope.\<close>

definition covered_effect :: "registry \<Rightarrow> (request \<Rightarrow> 'err + decision) \<Rightarrow> string \<Rightarrow> (string \<Rightarrow> val option) \<Rightarrow> cascade_effect \<Rightarrow> bool" where
  "covered_effect reg authz role subject eff \<longleftrightarrow> cs_Entity (ce_cascade eff) \<noteq> [] \<and> Resolve reg (cs_Entity (ce_cascade eff)) \<noteq> None \<and>
     (\<exists>dec. authz \<lparr>rq_Role = role, rq_Entity = cs_Entity (ce_cascade eff), rq_Action = ce_action eff, rq_Fields = [],
          rq_ReadFields = [], rq_WriteFields = ce_columns eff, rq_Subject = subject, rq_Predicate = NilPred\<rparr> = Inr dec \<and>
        d_Allowed dec \<and> d_RowFilter dec = NilPred)"

lemma covered_check: "covered_effect reg authz role subject eff \<longleftrightarrow> (\<exists>e. check_effect reg authz role subject eff = Inr e)"
  by (cases "Resolve reg (cs_Entity (ce_cascade eff))"; cases "authz (effect_request role subject eff)")
    (simp_all add: covered_effect_def check_effect_def effect_request_def Let_def)

lemma settled_code_visits:
  assumes "handled chk Q []" "chk = check_effect reg authz role subject" "code_visits reg n0 n" "n0 \<in> Q"
  shows "\<not> e_AllowCascade (fst n) \<Longrightarrow> n \<in> Q"
  using assms(3)
proof (induction rule: code_visits.induct)
  case (step e act updated eff res)
  have "settled chk Q eff" using handledD(2) [OF assms(1) _ step.hyps(3)] step.IH step.hyps(2) by simp
  then obtain c where c: "check_effect reg authz role subject eff = Inr c" "e_AllowCascade c \<or> (c, ce_action eff, ce_columns eff) \<in> Q"
    by (auto simp: settled_def assms(2))
  have "c = rs_Entity res" using check_effect_Inr [OF c(1)] step.hyps(4) by auto
  then show ?case using c(2) step.prems by simp
qed (use assms(4) in simp)

lemma checkCascades_code:
  fixes authz :: "request \<Rightarrow> 'err + decision"
  assumes "NewRegistry es = Inr reg" "e \<in> set es" "named_plainly es" "write_columns act (columnNames e updated)"
  shows "\<exists>r. checkCascades reg authz role subject e act updated = Some r \<and>
    (r = Inr () \<longleftrightarrow> (\<forall>eff. code_triggered reg (e, act, columnNames e updated) eff \<longrightarrow> covered_effect reg authz role subject eff))"
proof -
  let ?n = "(e, act, columnNames e updated)" and ?chk = "check_effect reg authz role subject"
  let ?effs = "cascadeEffects e act (columnNames e updated)"
  note reg = NewRegistry_of [OF assms(1)]
  have ok: "fst ?n \<in> set es" "write_columns (fst (snd ?n)) (snd (snd ?n))" using assms(2,4) by simp_all
  show ?thesis
  proof (cases "e_AllowCascade e")
    case True
    then have "checkCascades reg authz role subject e act updated = Some (Inr ())"
      unfolding checkCascades_def by (subst walkCascades.simps) (simp add: reach_entity_def)
    moreover have "code_visits reg ?n n \<Longrightarrow> n = ?n" for n by (induction rule: code_visits.induct) (use True in auto)
    then have "\<not> code_triggered reg ?n eff" for eff using True by (auto simp: code_triggered_def)
    ultimately show ?thesis by blast
  next
    case False
    have inj: "inj_on node_key {n. code_visits reg ?n n}"
      using node_key_inj [OF reg assms(3)] code_visits_ok [OF _ reg assms(3) ok] by (intro inj_onI) blast
    have P: "{?n} \<subseteq> {n. code_visits reg ?n n}" by (simp add: code_visits.start)
    have h: "handled ?chk {?n} ?effs" using False by (intro handledI) auto
    have t: "\<forall>eff\<in>set ?effs. code_triggered reg ?n eff" using False code_visits.start [of reg ?n] unfolding code_triggered_def by blast
    obtain r where r: "walkCascades reg authz role subject (?effs, node_key ` {?n}) = Some r" "outcome reg ?n ?chk {?n} ?effs r"
      using walk_settles [OF refl code_visits_finite [OF reg assms(3) ok] inj P h t] by (elim exE conjE)
    have "checkCascades reg authz role subject e act updated = Some r"
      using r(1) False by (simp add: checkCascades_def reach_entity_def node_key_def)
    moreover have "r = Inr () \<longleftrightarrow> (\<forall>eff. code_triggered reg ?n eff \<longrightarrow> covered_effect reg authz role subject eff)"
    proof (cases r)
      case (Inl err)
      then obtain eff where "code_triggered reg ?n eff" "?chk eff = Inl err" using r(2) by (auto simp: outcome_def)
      then have "\<not> covered_effect reg authz role subject eff" by (simp add: covered_check)
      with \<open>code_triggered reg ?n eff\<close> Inl show ?thesis by blast
    next
      case (Inr u)
      then obtain Q where Q: "{?n} \<subseteq> Q" "handled ?chk Q []" using r(2) by (auto simp: outcome_def)
      have "covered_effect reg authz role subject eff" if tr: "code_triggered reg ?n eff" for eff
      proof -
        obtain x a cols where x: "code_visits reg ?n (x, a, cols)" "\<not> e_AllowCascade x" "eff \<in> set (cascadeEffects x a cols)"
          using tr by (auto simp: code_triggered_def)
        have "settled ?chk Q eff"
          using settled_code_visits [OF Q(2) refl x(1)] Q(1) x(2) handledD(2) [OF Q(2) _ x(3)] by simp
        then show ?thesis by (auto simp: covered_check settled_def)
      qed
      then show ?thesis using Inr by simp
    qed
    ultimately show ?thesis by blast
  qed
qed

lemma checkCascades_spec:
  fixes authz :: "request \<Rightarrow> 'err + decision"
  assumes "NewRegistry es = Inr reg" "e \<in> set es" "named_plainly es" "write_columns act (columnNames e updated)"
  shows "\<exists>r. checkCascades reg authz role subject e act updated = Some r \<and>
    (r = Inr () \<longleftrightarrow> (\<forall>eff. triggered reg (e, act, columnNames e updated) eff \<longrightarrow> covered_effect reg authz role subject eff))"
  using checkCascades_code [OF assms] triggered_code [OF NewRegistry_of [OF assms(1)] assms(3), of "(e, act, columnNames e updated)"]
    assms(2,4) by simp


text \<open>The witness: a delete of orders that cascades to items, and back, for a caller allowed everything.\<close>

definition ex_fk :: "string \<Rightarrow> cascade" where
  "ex_fk name = \<lparr>cs_Schema = [], cs_Table = name, cs_Relation = [], cs_Entity = name, cs_Columns = [''id''],
     cs_ForeignColumns = [''ref''], cs_OnDelete = ''cascade'', cs_OnUpdate = ''cascade''\<rparr>"

definition ex_owner :: "string \<Rightarrow> string \<Rightarrow> entity" where
  "ex_owner name to = zero_entity\<lparr>e_Name := name, e_Cascades := [ex_fk to]\<rparr>"

definition ex_owners :: "entity list" where
  "ex_owners = [ex_owner ''orders'' ''items'', ex_owner ''items'' ''orders'']"

definition ex_allow :: "request \<Rightarrow> unit + decision" where
  "ex_allow req = Inr \<lparr>d_Allowed = True, d_Reason = NoReason, d_Fields = [], d_RowFilter = NilPred, d_Grants = [], d_FieldScopes = []\<rparr>"


end
