(* ===== verification/Results.thy ===== *)
theory Results
  imports Prelude "HOL-Library.Multiset"
begin

text \<open>
  The limits on what a call returns, \<^verbatim>\<open>src/core/tool/results.go\<close>: a meter counts the rows and bytes of one call and
  holds the bytes in the memory all calls share. A memory is \<^const>\<open>None\<close> where the code has a nil pointer, which bounds
  nothing; the size of a row's JSON encoding is an argument.

  Each operation holds the mutex of the meter, and inside it that of the memory, so it is one step; the end of a call,
  and of an execution reading rows for it, releases the mutex before the memory is released, so the steps of several
  calls and executions interleave there.
\<close>

section \<open>The memory\<close>

record result_memory =
  rm_used :: int
  rm_capacity :: int

definition NewResultMemory :: "int \<Rightarrow> result_memory" where
  "NewResultMemory capacity = \<lparr>rm_used = 0, rm_capacity = capacity\<rparr>"

definition SetCapacity :: "int \<Rightarrow> result_memory option \<Rightarrow> result_memory option" where
  "SetCapacity capacity r = map_option (rm_capacity_update (\<lambda>_. capacity)) r"

definition InUse :: "result_memory option \<Rightarrow> int" where
  "InUse r = (case r of None \<Rightarrow> 0 | Some m \<Rightarrow> rm_used m)"

definition reserve :: "int \<Rightarrow> result_memory option \<Rightarrow> bool \<times> result_memory option" where
  "reserve n r =
     (case r of
        None \<Rightarrow> (True, None)
      | Some m \<Rightarrow>
          if rm_capacity m > 0 \<and> rm_used m + n > rm_capacity m then (False, Some m)
          else (True, Some (m\<lparr>rm_used := rm_used m + n\<rparr>)))"

definition release_memory :: "int \<Rightarrow> result_memory option \<Rightarrow> result_memory option" where
  "release_memory n r =
     (case r of
        None \<Rightarrow> None
      | Some m \<Rightarrow> if n = 0 then Some m else Some (m\<lparr>rm_used := rm_used m - n\<rparr>))"

section \<open>The meter of a call\<close>

record result_meter =
  mt_rows :: int
  mt_bytes :: int
  mt_held :: int
  mt_maxRows :: int
  mt_maxBytes :: int
  mt_write :: bool
  mt_closed :: bool
  mt_running :: int
  mt_ended :: bool

datatype result_error = ErrRowsExceeded | ErrBytesExceeded int | ErrMemoryExceeded | ErrResultCut

definition minLimit :: "int \<Rightarrow> int \<Rightarrow> int" where
  "minLimit a b = (if a \<le> 0 \<or> b > 0 \<and> b < a then b else a)"

text \<open>The meter of a call with the limits of the caller's budget and of the configuration.\<close>

definition meterCall :: "int \<Rightarrow> int \<Rightarrow> int \<Rightarrow> bool \<Rightarrow> result_meter" where
  "meterCall budgetRows maxBytes budgetBytes readOnly =
     \<lparr>mt_rows = 0, mt_bytes = 0, mt_held = 0, mt_maxRows = budgetRows,
      mt_maxBytes = (if readOnly then minLimit maxBytes budgetBytes else 0), mt_write = \<not> readOnly,
      mt_closed = False, mt_running = 0, mt_ended = False\<rparr>"

definition meter_run :: "result_meter \<Rightarrow> result_meter" where
  "meter_run m = m\<lparr>mt_running := mt_running m + 1, mt_closed := False\<rparr>"

text \<open>The end of an execution, and whether it was the last one of a call that ended.\<close>

definition meter_run_end :: "result_meter \<Rightarrow> bool \<times> result_meter" where
  "meter_run_end m =
     (let m' = m\<lparr>mt_running := mt_running m - 1\<rparr> in (mt_running m' = 0 \<and> mt_ended m', m'))"

definition addSized ::
  "int \<Rightarrow> int \<Rightarrow> result_meter \<times> result_memory option \<Rightarrow> result_error option \<times> result_meter \<times> result_memory option" where
  "addSized rows n s =
     (let m = fst s; mem = snd s; m1 = m\<lparr>mt_rows := mt_rows m + rows\<rparr> in
      if mt_maxRows m1 > 0 \<and> mt_rows m1 > mt_maxRows m1 then
        if mt_write m1 then (Some ErrResultCut, m1\<lparr>mt_rows := mt_rows m1 - rows\<rparr>, mem)
        else (Some ErrRowsExceeded, m1, mem)
      else
        let m2 = m1\<lparr>mt_bytes := mt_bytes m1 + n\<rparr> in
        if mt_maxBytes m2 > 0 \<and> mt_bytes m2 > mt_maxBytes m2 then (Some (ErrBytesExceeded (mt_maxBytes m2)), m2, mem)
        else if mt_closed m2 then (None, m2, mem)
        else case reserve n mem of
               (False, mem') \<Rightarrow>
                 if mt_write m2 then (Some ErrResultCut, m2\<lparr>mt_rows := mt_rows m2 - rows, mt_bytes := mt_bytes m2 - n\<rparr>, mem')
                 else (Some ErrMemoryExceeded, m2, mem')
             | (True, mem') \<Rightarrow> (None, m2\<lparr>mt_held := mt_held m2 + n\<rparr>, mem'))"

text \<open>What an expansion repeats: \<open>n\<close> is the size of all the rows, \<open>before\<close> what was counted before the read.\<close>

definition grow ::
  "int \<Rightarrow> int \<Rightarrow> result_meter \<times> result_memory option \<Rightarrow> result_error option \<times> result_meter \<times> result_memory option" where
  "grow before n s =
     (let bytes = mt_bytes (fst s) in
      if n > bytes - before then addSized 0 (n - (bytes - before)) s else (None, fst s, snd s))"

text \<open>The end of a call, and whether it closes the meter at once.\<close>

definition meter_end :: "result_meter \<Rightarrow> bool \<times> result_meter" where
  "meter_end m = (mt_running m = 0, m\<lparr>mt_ended := True\<rparr>)"

text \<open>Closing takes what the meter holds, to be released from the memory.\<close>

definition meter_close :: "result_meter \<Rightarrow> int \<times> result_meter" where
  "meter_close m = (mt_held m, m\<lparr>mt_held := 0, mt_closed := True\<rparr>)"

section \<open>Calls and executions interleaved\<close>

text \<open>
  \<open>ms_closing\<close> are the calls, with their number, that a thread is about to close, and \<open>ms_releasing\<close> the bytes taken
  from closed meters and not yet released. The memory is not nil.
\<close>

record meters =
  ms_memory :: result_memory
  ms_meters :: "result_meter list"
  ms_closing :: "nat multiset"
  ms_releasing :: "int multiset"

inductive meters_step :: "meters \<Rightarrow> meters \<Rightarrow> bool" where
  call: "meters_step s (s\<lparr>ms_meters := ms_meters s @ [meterCall budgetRows maxBytes budgetBytes readOnly]\<rparr>)"
| capacity: "meters_step s (s\<lparr>ms_memory := (ms_memory s)\<lparr>rm_capacity := c\<rparr>\<rparr>)"
| run: "i < length (ms_meters s) \<Longrightarrow>
    meters_step s (s\<lparr>ms_meters := (ms_meters s)[i := meter_run (ms_meters s ! i)]\<rparr>)"
| run_end: "i < length (ms_meters s) \<Longrightarrow> 0 < mt_running (ms_meters s ! i) \<Longrightarrow>
    meter_run_end (ms_meters s ! i) = (ends, m) \<Longrightarrow>
    meters_step s (s\<lparr>ms_meters := (ms_meters s)[i := m],
      ms_closing := (if ends then add_mset i (ms_closing s) else ms_closing s)\<rparr>)"
| count: "i < length (ms_meters s) \<Longrightarrow> 0 \<le> n \<Longrightarrow>
    addSized rows n (ms_meters s ! i, Some (ms_memory s)) = (err, m, Some mem) \<Longrightarrow>
    meters_step s (s\<lparr>ms_meters := (ms_meters s)[i := m], ms_memory := mem\<rparr>)"
| ends: "i < length (ms_meters s) \<Longrightarrow> meter_end (ms_meters s ! i) = (now, m) \<Longrightarrow>
    meters_step s (s\<lparr>ms_meters := (ms_meters s)[i := m],
      ms_closing := (if now then add_mset i (ms_closing s) else ms_closing s)\<rparr>)"
| close: "i \<in># ms_closing s \<Longrightarrow> i < length (ms_meters s) \<Longrightarrow> meter_close (ms_meters s ! i) = (held, m) \<Longrightarrow>
    meters_step s (s\<lparr>ms_meters := (ms_meters s)[i := m], ms_closing := ms_closing s - {#i#},
      ms_releasing := add_mset held (ms_releasing s)\<rparr>)"
| free: "held \<in># ms_releasing s \<Longrightarrow> release_memory held (Some (ms_memory s)) = Some mem \<Longrightarrow>
    meters_step s (s\<lparr>ms_memory := mem, ms_releasing := ms_releasing s - {#held#}\<rparr>)"

end
