(* ===== verification/Results_Props.thy ===== *)
theory Results_Props
  imports Results
begin

text \<open>
  What the meters promise: the memory holds exactly what the calls hold, nothing once they ended, and a reservation
  never takes it past its capacity.
\<close>

section \<open>One operation\<close>

lemma addSized_cases:
  assumes "addSized rows n (m, Some mem) = (err, m', Some mem')"
  shows "(mem' = mem \<and> mt_held m' = mt_held m \<or>
      \<not> mt_closed m \<and> mt_held m' = mt_held m + n \<and> mem' = mem\<lparr>rm_used := rm_used mem + n\<rparr> \<and>
      (rm_capacity mem \<le> 0 \<or> rm_used mem' \<le> rm_capacity mem)) \<and>
    mt_closed m' = mt_closed m \<and> mt_running m' = mt_running m \<and> mt_ended m' = mt_ended m \<and>
    mt_maxRows m' = mt_maxRows m \<and> mt_maxBytes m' = mt_maxBytes m \<and> mt_write m' = mt_write m"
  using assms by (auto simp: addSized_def reserve_def Let_def split: if_splits)

lemma addSized_limits:
  assumes "addSized rows n (m, mem) = (None, m', mem')"
  shows "mt_rows m' = mt_rows m + rows \<and> mt_bytes m' = mt_bytes m + n \<and>
    (0 < mt_maxRows m \<longrightarrow> mt_rows m' \<le> mt_maxRows m) \<and> (0 < mt_maxBytes m \<longrightarrow> mt_bytes m' \<le> mt_maxBytes m)"
  using assms by (auto simp: addSized_def Let_def split: if_splits prod.splits bool.splits)

lemma sum_list_set: "i < length xs \<Longrightarrow> sum_list (xs[i := x]) = sum_list xs + x - xs ! i" for xs :: "int list"
  by (induction xs arbitrary: i) (auto split: nat.splits)

lemma sum_mset_ge0: "\<forall>x\<in>#M. 0 \<le> x \<Longrightarrow> 0 \<le> sum_mset M" for M :: "int multiset"
  by (induction M) auto

section \<open>The invariant\<close>

definition total_held :: "meters \<Rightarrow> int" where
  "total_held s = sum_list (map mt_held (ms_meters s)) + sum_mset (ms_releasing s)"

definition meters_ok :: "meters \<Rightarrow> bool" where
  "meters_ok s \<longleftrightarrow>
     rm_used (ms_memory s) = total_held s \<and>
     (\<forall>x\<in>#ms_releasing s. 0 \<le> x) \<and>
     (\<forall>i<length (ms_meters s). 0 \<le> mt_held (ms_meters s ! i) \<and> 0 \<le> mt_running (ms_meters s ! i)) \<and>
     (\<forall>i<length (ms_meters s). mt_ended (ms_meters s ! i) \<longrightarrow> mt_running (ms_meters s ! i) = 0 \<longrightarrow> i \<notin># ms_closing s \<longrightarrow>
        mt_held (ms_meters s ! i) = 0 \<and> mt_closed (ms_meters s ! i))"

definition meters_start :: "int \<Rightarrow> meters" where
  "meters_start c = \<lparr>ms_memory = NewResultMemory c, ms_meters = [], ms_closing = {#}, ms_releasing = {#}\<rparr>"

lemma meters_start_ok: "meters_ok (meters_start c)"
  by (simp add: meters_ok_def meters_start_def NewResultMemory_def total_held_def)

lemma total_held_set:
  "i < length (ms_meters s) \<Longrightarrow> total_held (s\<lparr>ms_meters := (ms_meters s)[i := m]\<rparr>) = total_held s + mt_held m - mt_held (ms_meters s ! i)"
  by (simp add: total_held_def map_update sum_list_set)

lemma nth_set: "j < length xs \<Longrightarrow> xs[i := x] ! j = (if i = j then x else xs ! j)"
  by (simp add: nth_list_update)

lemma meters_step_ok:
  assumes "meters_step s s'" "meters_ok s"
  shows "meters_ok s'"
  using assms
proof (induction rule: meters_step.induct)
  case (call s budgetRows maxBytes budgetBytes readOnly)
  then show ?case by (auto simp: meters_ok_def meterCall_def total_held_def nth_append less_Suc_eq)
next
  case (capacity s c)
  then show ?case by (simp add: meters_ok_def total_held_def)
next
  case (run i s)
  then show ?case
    by (auto simp: meters_ok_def total_held_def meter_run_def map_update sum_list_set nth_set)
next
  case (run_end i s ends m)
  then show ?case
    by (auto simp: meters_ok_def total_held_def meter_run_end_def Let_def map_update sum_list_set nth_set)
next
  case (count i s n rows err m mem)
  note c = addSized_cases [OF count(3)]
  show ?case using c count(1,2,4)
    by (auto simp: meters_ok_def total_held_def map_update sum_list_set nth_set)
next
  case (ends i s now m)
  then show ?case
    by (auto simp: meters_ok_def total_held_def meter_end_def map_update sum_list_set nth_set)
next
  case (close i s held m)
  have "j \<in># ms_closing s - {#i#} \<longleftrightarrow> j \<in># ms_closing s" if "i \<noteq> j" for j
    using that by (simp add: in_diff_count count_greater_zero_iff [symmetric] del: count_greater_zero_iff)
  with close show ?case
    by (auto simp: meters_ok_def total_held_def meter_close_def map_update sum_list_set nth_set)
next
  case (free held s mem)
  obtain M where "ms_releasing s = add_mset held M" using free(1) by (meson multi_member_split)
  with free(2,3) show ?case
    by (auto simp: meters_ok_def total_held_def release_memory_def split: if_splits)
qed

interpretation metering: transition_system "\<lambda>s. \<exists>c. s = meters_start c" meters_step meters_ok
  by unfold_locales (auto intro: meters_start_ok meters_step_ok)

lemma meters_reachable_ok: "meters_step\<^sup>*\<^sup>* (meters_start c) s \<Longrightarrow> meters_ok s"
  by (rule metering.reached_ok) blast

text \<open>A step raises what is held only within the capacity.\<close>

lemma meters_step_within:
  assumes "meters_step s s'" "rm_used (ms_memory s) < rm_used (ms_memory s')" "\<forall>x\<in>#ms_releasing s. 0 \<le> x"
  shows "rm_capacity (ms_memory s) \<le> 0 \<or> rm_used (ms_memory s') \<le> rm_capacity (ms_memory s)"
  using assms
proof (induction rule: meters_step.induct)
  case (count i s n rows err m mem)
  then show ?case using addSized_cases [OF count(3)] by auto
next
  case (free held s mem)
  then show ?case by (auto simp: release_memory_def split: if_splits)
qed auto

definition quiet :: "meters \<Rightarrow> bool" where
  "quiet s \<longleftrightarrow> (\<forall>m\<in>set (ms_meters s). mt_ended m \<and> mt_running m = 0) \<and> ms_closing s = {#} \<and> ms_releasing s = {#}"

text \<open>
  C18: the memory accounts for every call. However calls, the executions reading rows for them and changes of the
  capacity interleave, the bytes in use are those the open calls hold and those on their way to be released; once
  every call and execution ended nothing is in use; and no reservation takes the memory past its capacity.
\<close>

theorem results_accounted:
  assumes "meters_step\<^sup>*\<^sup>* (meters_start c) s"
  shows "rm_used (ms_memory s) = total_held s \<and> 0 \<le> rm_used (ms_memory s) \<and>
    (quiet s \<longrightarrow> rm_used (ms_memory s) = 0) \<and>
    (\<forall>s'. meters_step s s' \<longrightarrow> rm_used (ms_memory s) < rm_used (ms_memory s') \<longrightarrow>
       rm_capacity (ms_memory s) \<le> 0 \<or> rm_used (ms_memory s') \<le> rm_capacity (ms_memory s))"
proof (intro conjI impI allI)
  have ok: "meters_ok s" by (rule meters_reachable_ok [OF assms])
  show u: "rm_used (ms_memory s) = total_held s" using ok by (simp add: meters_ok_def)
  have r: "\<forall>x\<in>#ms_releasing s. 0 \<le> x" using ok by (simp add: meters_ok_def)
  have h: "\<forall>m\<in>set (ms_meters s). 0 \<le> mt_held m" using ok by (auto simp: meters_ok_def in_set_conv_nth)
  have "0 \<le> sum_mset (ms_releasing s)" by (rule sum_mset_ge0 [OF r])
  moreover have "0 \<le> sum_list (map mt_held (ms_meters s))" using h by (intro sum_list_nonneg) auto
  ultimately show "0 \<le> rm_used (ms_memory s)" by (simp add: u total_held_def)
  show "rm_used (ms_memory s) = 0" if q: "quiet s"
  proof -
    have "mt_held m = 0" if m: "m \<in> set (ms_meters s)" for m
    proof -
      obtain i where "i < length (ms_meters s)" "m = ms_meters s ! i" using m by (auto simp: in_set_conv_nth)
      then show ?thesis using ok q m unfolding meters_ok_def quiet_def by simp
    qed
    then have "map mt_held (ms_meters s) = map (\<lambda>_. 0) (ms_meters s)" by (intro map_cong) simp_all
    then have "sum_list (map mt_held (ms_meters s)) = 0" by (simp only: sum_list_0)
    then show ?thesis using q by (simp add: u total_held_def quiet_def)
  qed
  show "rm_capacity (ms_memory s) \<le> 0 \<or> rm_used (ms_memory s') \<le> rm_capacity (ms_memory s)"
    if "meters_step s s'" "rm_used (ms_memory s) < rm_used (ms_memory s')" for s'
    by (rule meters_step_within [OF that r])
qed

text \<open>The witness: a call whose execution reads a row, and ends after it.\<close>

definition ex_meter :: result_meter where
  "ex_meter = meterCall 10 0 0 True"

definition ex_reading :: meters where
  "ex_reading = (meters_start 100)\<lparr>ms_meters := [meter_run ex_meter]\<rparr>"

definition ex_counted :: meters where
  "ex_counted = ex_reading\<lparr>ms_meters := [(meter_run ex_meter)\<lparr>mt_rows := 1, mt_bytes := 60, mt_held := 60\<rparr>],
     ms_memory := \<lparr>rm_used = 60, rm_capacity = 100\<rparr>\<rparr>"

lemma ex_counted_reached: "meters_step\<^sup>*\<^sup>* (meters_start 100) ex_counted"
proof -
  have "meters_step (meters_start 100) ((meters_start 100)\<lparr>ms_meters := [ex_meter]\<rparr>)"
    using meters_step.call [of "meters_start 100" 10 0 0 True] by (simp add: meters_start_def ex_meter_def)
  moreover have "meters_step ((meters_start 100)\<lparr>ms_meters := [ex_meter]\<rparr>) ex_reading"
    using meters_step.run [of 0 "(meters_start 100)\<lparr>ms_meters := [ex_meter]\<rparr>"] by (simp add: ex_reading_def)
  moreover have "meters_step ex_reading ex_counted"
    using meters_step.count [of 0 ex_reading 60 1 None "(meter_run ex_meter)\<lparr>mt_rows := 1, mt_bytes := 60, mt_held := 60\<rparr>"
        "\<lparr>rm_used = 60, rm_capacity = 100\<rparr>"]
    by (simp add: ex_reading_def ex_counted_def ex_meter_def meterCall_def meter_run_def meters_start_def NewResultMemory_def
        addSized_def reserve_def minLimit_def)
  ultimately show ?thesis by (meson converse_rtranclp_into_rtranclp r_into_rtranclp)
qed

theorem results_accounted_witness:
  "rm_used (ms_memory ex_counted) = 60 \<and> total_held ex_counted = 60"
  using results_accounted [OF ex_counted_reached] by (simp add: ex_counted_def ex_reading_def)

end
