(* ===== verification/Join_Keys.thy ===== *)
theory Join_Keys
  imports Numbers Interp_Reads "HOL-Library.Signed_Division"
begin

text \<open>
  The keys an expansion joins on, \<^verbatim>\<open>src/core/tool/tools_read_impl.go\<close>: rows of two queries meet when their join
  columns have one key, however the driver typed the values. A number's key is the exact fraction in lowest terms,
  worked out for short decimals in \<^verbatim>\<open>int64\<close>; text is quoted. \<open>sprint\<close> stands for what Go prints of a value that is
  neither NULL, an integer nor text: the name of its type and its text (of a float, the shortest decimal naming it).
\<close>

section \<open>Numbers\<close>

text \<open>Division of \<^verbatim>\<open>int64\<close> values truncates, and so does its remainder.\<close>

function gcd64 :: "int \<Rightarrow> int \<Rightarrow> int" where
  "gcd64 a b = (if b \<noteq> 0 then gcd64 b (a smod b) else if a = 0 then 1 else a)"
  by auto

termination
proof (relation "measure (\<lambda>(a, b). nat \<bar>b\<bar>)", simp)
  fix a b :: int
  assume "b \<noteq> 0"
  then have "\<bar>a smod b\<bar> < \<bar>b\<bar>" using smod_int_range [of b a] by auto
  then show "((b, a smod b), a, b) \<in> measure (\<lambda>(a, b). nat \<bar>b\<bar>)" by auto
qed

declare gcd64.simps [simp del]

fun decimal_num :: "int \<Rightarrow> string \<Rightarrow> int option" where
  "decimal_num num [] = Some num"
| "decimal_num num (c # cs) = (if is_digit c then decimal_num (wrap64 (wrap64 (num * 10) + int (digit_val c))) cs else None)"

primrec decimal_den :: "int \<Rightarrow> string \<Rightarrow> int" where
  "decimal_den den [] = den"
| "decimal_den den (c # cs) = decimal_den (wrap64 (den * 10)) cs"

definition decimalKey :: "string \<Rightarrow> string option" where
  "decimalKey text =
     (let (negative, s) = (case text of c # cs \<Rightarrow> if c = CHR ''-'' \<or> c = CHR ''+'' then (c = CHR ''-'', cs) else (False, text) | [] \<Rightarrow> (False, text));
          (whole, frc) = (case cut (CHR ''.'') s of Some p \<Rightarrow> p | None \<Rightarrow> (s, []));
          digits = whole @ frc
      in if digits = [] \<or> length digits > 18 then None
         else case decimal_num 0 digits of
                None \<Rightarrow> None
              | Some num0 \<Rightarrow>
                  let den0 = decimal_den 1 frc;
                      g = gcd64 num0 den0;
                      num = num0 sdiv g;
                      den = den0 sdiv g;
                      num' = (if negative \<and> num \<noteq> 0 then - num else num)
                  in Some (if den = 1 then ''n:'' @ show_int num' else ''n:'' @ show_int num' @ ''/'' @ show_int den))"

definition numberKey :: "string \<Rightarrow> string \<Rightarrow> string" where
  "numberKey text typ =
     (case decimalKey text of
        Some key \<Rightarrow> key
      | None \<Rightarrow> (case SetString text of None \<Rightarrow> typ @ '':'' @ go_quote text | Some r \<Rightarrow> ''n:'' @ RatString r))"

definition textKey :: "string \<Rightarrow> bool \<Rightarrow> string" where
  "textKey s decimal = (if decimal then numberKey s ''string'' else ''s:'' @ go_quote s)"

section \<open>Keys\<close>

definition join_part :: "(val \<Rightarrow> string \<times> string) \<Rightarrow> val \<Rightarrow> bool \<Rightarrow> string option" where
  "join_part sprint v decimal =
     (case v of
        VNull \<Rightarrow> None
      | VInt n \<Rightarrow> Some (''n:'' @ show_int n)
      | VFloat x \<Rightarrow> Some (numberKey (snd (sprint v)) (fst (sprint v)))
      | VStr s \<Rightarrow> Some (textKey s decimal)
      | _ \<Rightarrow> Some (fst (sprint v) @ '':'' @ go_quote (snd (sprint v))))"

fun join_parts :: "(val \<Rightarrow> string \<times> string) \<Rightarrow> val list \<Rightarrow> bool list \<Rightarrow> string list option" where
  "join_parts sprint [] decimal = Some []"
| "join_parts sprint (v # vs) decimal =
     (case join_part sprint v (decimal \<noteq> [] \<and> hd decimal) of
        None \<Rightarrow> None
      | Some part \<Rightarrow> map_option ((#) part) (join_parts sprint vs (tl decimal)))"

definition joinKeyOf :: "(val \<Rightarrow> string \<times> string) \<Rightarrow> val list \<Rightarrow> bool list \<Rightarrow> string option" where
  "joinKeyOf sprint vs decimal = map_option (join_strs '','') (join_parts sprint vs decimal)"

definition joinKey :: "(val \<Rightarrow> string \<times> string) \<Rightarrow> val list \<Rightarrow> string option" where
  "joinKey sprint vs = joinKeyOf sprint vs []"

section \<open>The short decimals\<close>

lemma scan_nat_decimal:
  assumes "\<forall>c\<in>set (ds @ fs). is_digit c" "ds @ fs \<noteq> []"
  shows "scan_nat True (ds @ CHR ''.'' # fs) = Some ((read_nat (ds @ fs), 10, length fs), [])"
proof (cases "ds = [] \<or> fs = []")
  case False
  then show ?thesis using assms by (intro scan_nat_point) (auto simp: plain_def)
next
  case True
  then show ?thesis
  proof
    assume ds: "ds = []"
    then have fs: "\<forall>c\<in>set fs. is_digit c" "fs \<noteq> []" using assms by auto
    show ?thesis using ds fs scan_digits_run [OF fs, of False _ "[]"] by (simp add: scan_nat_def scan_prefix_def Let_def)
  next
    assume fs: "fs = []"
    then have p: "plain ds" using assms by (auto simp: plain_def)
    let ?r = "''.''"
    obtain z ds' where z: "z = 0 \<or> z = (1::nat)" "scan_prefix True (ds @ ?r) = (10, False, \<lparr>sc_value = 0, sc_count = z, sc_point = None,
        sc_bad = False, sc_prev = if z = 0 then CHR ''.'' else CHR ''0''\<rparr>, ds' @ ?r)"
      and d: "\<forall>c\<in>set ds'. is_digit c" "read_nat ds' = read_nat ds" "z + length ds' = length ds" "ds' = [] \<longrightarrow> z = 1"
      using scan_prefix_digits [OF p, of ?r] by blast
    have "length ds \<noteq> 0" using p by (simp add: plain_def)
    then show ?thesis using fs z d scan_digits_all [OF d(1), of _ True ?r] by (auto simp: scan_nat_def)
  qed
qed

lemma SetString_digits:
  assumes "\<forall>c\<in>set (ds @ fs). is_digit c" "ds @ fs \<noteq> []" "length fs \<le> 18"
    and "t = ds @ CHR ''.'' # fs \<or> t = ds \<and> fs = []"
  shows "SetString t = Some (of_nat (read_nat (ds @ fs)) / 10 ^ length fs)"
    and "SetString (CHR ''+'' # t) = Some (of_nat (read_nat (ds @ fs)) / 10 ^ length fs)"
    and "SetString (CHR ''-'' # t) = Some (- (of_nat (read_nat (ds @ fs)) / 10 ^ length fs))"
proof -
  have n: "scan_nat True t = Some ((read_nat (ds @ fs), 10, length fs), [])"
    using assms scan_nat_decimal [OF assms(1,2)] scan_nat_plain [of ds] by (auto simp: plain_def)
  have c: "CHR ''/'' \<notin> set t" using assms(1,4) digit_chars by fastforce
  have ne: "t \<noteq> []" using assms(2,4) by auto
  have s: "scan_sign t = (False, t)"
    using assms(1,2,4) digit_chars by (cases ds) (auto simp: scan_sign_def)
  have p: "a * 5 powi - int (length fs) * 2 powi - int (length fs) = a / (10::rat) ^ length fs" for a
    unfolding mult.assoc powi_10 by simp
  show "SetString t = Some (of_nat (read_nat (ds @ fs)) / 10 ^ length fs)"
    using n s ne c p assms(3) by (simp add: SetString_def scan_float_def cut_none scan_exponent_def Let_def signed_def)
  show "SetString (CHR ''+'' # t) = Some (of_nat (read_nat (ds @ fs)) / 10 ^ length fs)"
    using n c p assms(3) by (simp add: SetString_def scan_float_def cut_none scan_sign_def scan_exponent_def Let_def signed_def)
  show "SetString (CHR ''-'' # t) = Some (- (of_nat (read_nat (ds @ fs)) / 10 ^ length fs))"
    using n c p assms(3) by (simp add: SetString_def scan_float_def cut_none scan_sign_def scan_exponent_def Let_def signed_def)
qed

lemma gcd64_gcd: "0 \<le> a \<Longrightarrow> 0 < b \<Longrightarrow> gcd64 a b = gcd a b"
proof (induction "nat b" arbitrary: a b rule: less_induct)
  case less
  have m: "a smod b = a mod b" using less.prems by (cases "a = 0") (auto simp: smod_int_alt_def sgn_if)
  have r: "0 \<le> a mod b" "a mod b < b" using less.prems by simp_all
  show ?case
  proof (cases "a mod b = 0")
    case True
    then have "gcd a b = b" using less.prems by (simp add: gcd_proj2_if_dvd dvd_eq_mod_eq_0)
    then show ?thesis using True m less.prems by (simp add: gcd64.simps [of a b] gcd64.simps [of b 0])
  next
    case False
    then have "gcd64 b (a mod b) = gcd b (a mod b)" using less.prems r by (intro less.hyps) auto
    then show ?thesis using m less.prems by (simp add: gcd64.simps [of a b] gcd_red_int [symmetric])
  qed
qed

lemma read_nat_bound: "\<forall>c\<in>set p. is_digit c \<Longrightarrow> read_nat p < 10 ^ length p"
proof (induction p rule: rev_induct)
  case (snoc c p)
  then have "digit_val c < 10" "read_nat p < 10 ^ length p" using digit_of_digits [of c] by auto
  then show ?case by (simp add: read_nat_snoc)
qed (simp add: read_nat_def)

lemma decimal_num_read:
  assumes "length ds + length pre \<le> 18" "\<forall>c\<in>set pre. is_digit c"
  shows "decimal_num (int (read_nat pre)) ds = (if \<forall>c\<in>set ds. is_digit c then Some (int (read_nat (pre @ ds))) else None)"
  using assms
proof (induction ds arbitrary: pre)
  case (Cons c ds)
  show ?case
  proof (cases "is_digit c")
    case True
    have "read_nat (pre @ [c]) < 10 ^ length (pre @ [c])" using Cons.prems(2) True by (intro read_nat_bound) auto
    also have "(10::nat) ^ length (pre @ [c]) \<le> 10 ^ 18" using Cons.prems(1) by (intro power_increasing) auto
    finally have "int (read_nat (pre @ [c])) < int (10 ^ 18)" by (simp only: of_nat_less_iff)
    then have b: "int (read_nat (pre @ [c])) < 10 ^ 18" by simp
    have e: "int (read_nat (pre @ [c])) = int (read_nat pre) * 10 + int (digit_val c)" by (simp add: read_nat_snoc)
    have "wrap64 (int (read_nat pre) * 10) = int (read_nat pre) * 10" using b e by (intro wrap64_id) (simp add: is_int64_def)
    moreover have "wrap64 (int (read_nat pre) * 10 + int (digit_val c)) = int (read_nat (pre @ [c]))"
      using b e by (subst wrap64_id) (simp_all add: is_int64_def)
    ultimately show ?thesis using True Cons.IH [of "pre @ [c]"] Cons.prems by simp
  qed simp
qed simp

lemma decimal_den_pow: "length fs \<le> 18 \<Longrightarrow> decimal_den 1 fs = 10 ^ length fs"
proof -
  have "n + length fs \<le> 18 \<Longrightarrow> decimal_den (10 ^ n) fs = 10 ^ (n + length fs)" for n
  proof (induction fs arbitrary: n)
    case (Cons c fs)
    have "(10::int) ^ Suc n \<le> 10 ^ 18" using Cons.prems by (intro power_increasing) auto
    moreover have "- (2 ^ 63) \<le> (10::int) ^ Suc n" by (rule order_trans [of _ 0]) simp_all
    ultimately have "is_int64 (10 ^ Suc n)" by (simp add: is_int64_def del: power_Suc)
    then have "wrap64 (10 ^ n * 10) = 10 ^ Suc n" using wrap64_id by (simp add: mult.commute)
    then show ?case using Cons.IH [of "Suc n"] Cons.prems by simp
  qed simp
  from this [of 0] show "length fs \<le> 18 \<Longrightarrow> decimal_den 1 fs = 10 ^ length fs" by simp
qed


lemma quotient_of_fraction:
  assumes "0 \<le> n" "0 < d"
  shows "quotient_of (of_int n / of_int d) = (n div gcd n d, d div gcd n d)"
  using assms by (simp add: Fract_of_int_quotient [symmetric] quotient_of_Fract normalize_def Let_def)

lemma sdiv_div: "0 \<le> n \<Longrightarrow> 0 < g \<Longrightarrow> n sdiv g = n div g" for n g :: int
  by (cases "n = 0") (simp_all add: signed_divide_int_def sgn_if)

lemma RatString_reduced:
  assumes "0 \<le> n" "0 < d"
  shows "''n:'' @ RatString (signed negative (of_int n / of_int d)) =
    (let g = gcd64 n d; num = n sdiv g; den = d sdiv g; num' = (if negative \<and> num \<noteq> 0 then - num else num)
     in if den = 1 then ''n:'' @ show_int num' else ''n:'' @ show_int num' @ ''/'' @ show_int den)"
proof -
  have g: "gcd64 n d = gcd n d" "0 < gcd n d" using assms by (simp_all add: gcd64_gcd)
  have "quotient_of (signed negative (of_int n / of_int d)) =
      ((if negative then - (n div gcd n d) else n div gcd n d), d div gcd n d)"
    using quotient_of_fraction [OF assms] by (simp add: signed_def rat_uminus_code)
  then show ?thesis using g assms by (simp add: RatString_def sdiv_div Let_def)
qed

lemma cut_parts: "cut c s = Some (a, b) \<Longrightarrow> s = a @ c # b"
  by (induction s arbitrary: a) (auto split: if_splits)

lemma decimalKey_SetString:
  assumes "decimalKey text = Some k"
  shows "\<exists>r. SetString text = Some r \<and> k = ''n:'' @ RatString r"
proof -
  obtain negative s where sp: "(case text of c # cs \<Rightarrow> if c = CHR ''-'' \<or> c = CHR ''+'' then (c = CHR ''-'', cs) else (False, text) | [] \<Rightarrow> (False, text)) = (negative, s)"
    by (rule prod.exhaust)
  then have sg: "text = s \<and> \<not> negative \<or> text = CHR ''+'' # s \<and> \<not> negative \<or> text = CHR ''-'' # s \<and> negative"
    by (cases "text") (auto split: if_splits)
  obtain ds fs where c: "(case cut (CHR ''.'') s of Some p \<Rightarrow> p | None \<Rightarrow> (s, [])) = (ds, fs)"
    by (cases "case cut (CHR ''.'') s of Some p \<Rightarrow> p | None \<Rightarrow> (s, [])")
  then have t: "s = ds @ CHR ''.'' # fs \<or> s = ds \<and> fs = []" by (auto dest: cut_parts split: option.splits)
  let ?n = "int (read_nat (ds @ fs))"
  have d: "ds @ fs \<noteq> []" "length (ds @ fs) \<le> 18" "decimal_num 0 (ds @ fs) \<noteq> None"
    using assms sp c by (auto simp: decimalKey_def Let_def split: if_splits option.splits)
  have dig: "\<forall>c\<in>set (ds @ fs). is_digit c" and num: "decimal_num 0 (ds @ fs) = Some ?n"
    using d decimal_num_read [of "ds @ fs" "[]"] by (simp_all add: read_nat_def split: if_splits)
  have den: "decimal_den 1 fs = 10 ^ length fs" using d(2) by (intro decimal_den_pow) simp
  have k: "k = ''n:'' @ RatString (signed negative (of_int ?n / of_int (10 ^ length fs)))"
    using assms sp c d(1,2) num den by (subst RatString_reduced; cases "ds = []"; simp add: decimalKey_def Let_def)
  have "SetString text = Some (signed negative (of_int ?n / of_int (10 ^ length fs)))"
    using SetString_digits [OF dig d(1) _ t] d(2) sg by (auto simp: signed_def)
  with k show ?thesis by blast
qed

lemma numberKey_spec:
  "numberKey text typ =
     (case SetString text of Some r \<Rightarrow> ''n:'' @ RatString r | None \<Rightarrow> typ @ '':'' @ go_quote text)"
  using decimalKey_SetString [of "text"] by (auto simp: numberKey_def split: option.splits)

text \<open>
  C39: the short cut of the keys of decimals agrees with exact arithmetic. The key of a number's text is its exact
  fraction in lowest terms, whether the fast path in 64-bit integers worked it out, which never overflows, or the
  big rational; text that is no number keeps its own.
\<close>

theorem numberKey_exact:
  "numberKey text typ =
     (case SetString text of Some r \<Rightarrow> ''n:'' @ RatString r | None \<Rightarrow> typ @ '':'' @ go_quote text)"
  by (rule numberKey_spec)

end
