(* ===== verification/Join_Key_Laws.thy ===== *)
theory Join_Key_Laws
  imports Join_Keys
begin

text \<open>
  When two keys are equal: exactly when the values are the same number, the same text, or print alike under one type.
  The quoted parts of a key cannot run into one another.
\<close>

section \<open>Quoted text\<close>

definition unescape :: "char \<Rightarrow> nat" where
  "unescape c =
     (if c = CHR ''a'' then 7 else if c = CHR ''b'' then 8 else if c = CHR ''t'' then 9 else if c = CHR ''n'' then 10
      else if c = CHR ''v'' then 11 else if c = CHR ''f'' then 12 else if c = CHR ''r'' then 13 else of_char c)"

definition unquote :: "string \<Rightarrow> char \<times> string" where
  "unquote xs =
     (if hd xs = CHR 0x5C then
        if xs ! 1 = CHR ''x'' then (char_of (digit_of (xs ! 2) * 16 + digit_of (xs ! 3)), drop 4 xs)
        else (char_of (unescape (xs ! 1)), drop 2 xs)
      else (hd xs, tl xs))"

lemma digit_of_hex: "d < 16 \<Longrightarrow> digit_of (hex_digit d) = d"
proof -
  have "\<forall>d\<in>set [0..<16]. digit_of (hex_digit d) = d" by code_simp
  then show "d < 16 \<Longrightarrow> ?thesis" by simp
qed

lemma char_of_escapes:
  "char_of (34::nat) = CHR 0x22" "char_of (92::nat) = CHR 0x5C" "char_of (7::nat) = CHR 0x07" "char_of (8::nat) = CHR 0x08"
  "char_of (9::nat) = CHR 0x09" "char_of (10::nat) = CHR 0x0A" "char_of (11::nat) = CHR 0x0B" "char_of (12::nat) = CHR 0x0C"
  "char_of (13::nat) = CHR 0x0D"
  by code_simp+

lemma unquote_quote: "unquote (quote_char c @ xs) = (c, xs)"
proof -
  let ?n = "of_char c :: nat"
  consider (dq) "?n = 34" | (bs) "?n = 92" | (esc) "?n \<in> {7, 8, 9, 10, 11, 12, 13}"
    | (hex) "?n < 32 \<or> ?n = 127" "?n \<notin> {7, 8, 9, 10, 11, 12, 13}"
    | (plain) "\<not> (?n < 32 \<or> ?n = 127)" "?n \<noteq> 34" "?n \<noteq> 92"
    by auto
  then show ?thesis
  proof cases
    case dq
    then have "of_char c = (of_char (CHR 0x22) :: nat)" by simp
    then have "c = CHR 0x22" by (simp only: of_char_eq_iff)
    then show ?thesis by (simp add: quote_char_def unquote_def unescape_def char_of_escapes)
  next
    case bs
    then have "of_char c = (of_char (CHR 0x5C) :: nat)" by simp
    then have "c = CHR 0x5C" by (simp only: of_char_eq_iff)
    then show ?thesis by (simp add: quote_char_def unquote_def unescape_def char_of_escapes)
  next
    case esc
    then have "?n \<in> of_char ` {CHR 0x07, CHR 0x08, CHR 0x09, CHR 0x0A, CHR 0x0B, CHR 0x0C, CHR 0x0D}" by simp
    then have "c \<in> {CHR 0x07, CHR 0x08, CHR 0x09, CHR 0x0A, CHR 0x0B, CHR 0x0C, CHR 0x0D}"
      by (simp only: image_iff of_char_eq_iff bex_simps) blast
    then show ?thesis by (elim insertE emptyE) (simp_all add: quote_char_def unquote_def unescape_def char_of_escapes)
  next
    case hex
    have "?n div 16 < 16" "?n mod 16 < 16" using hex by auto
    moreover have "char_of (?n div 16 * 16 + ?n mod 16) = c" by simp
    moreover have "quote_char c = CHR 0x5C # CHR ''x'' # [hex_digit (?n div 16), hex_digit (?n mod 16)]"
      using hex by (auto simp: quote_char_def Let_def)
    ultimately show ?thesis by (simp add: unquote_def digit_of_hex)
  next
    case plain
    then have "c \<noteq> CHR 0x5C" by auto
    with plain show ?thesis by (simp add: quote_char_def unquote_def)
  qed
qed

lemma quote_char_first: "\<exists>d ds. quote_char c = d # ds \<and> d \<noteq> CHR 0x22"
  by (auto simp: quote_char_def Let_def)

lemma quoted_prefix:
  "concat (map quote_char s) @ CHR 0x22 # xs = concat (map quote_char t) @ CHR 0x22 # ys \<Longrightarrow> s = t \<and> xs = ys"
proof (induction s arbitrary: t)
  case Nil
  show ?case
  proof (cases t)
    case (Cons d t')
    obtain e es where "quote_char d = e # es" "e \<noteq> CHR 0x22" using quote_char_first by blast
    with Nil Cons show ?thesis by simp
  qed (use Nil in simp)
next
  case (Cons c s)
  obtain e es where e: "quote_char c = e # es" "e \<noteq> CHR 0x22" using quote_char_first by blast
  show ?case
  proof (cases t)
    case Nil
    with Cons.prems e show ?thesis by simp
  next
    case t: (Cons d t')
    have "unquote (quote_char c @ concat (map quote_char s) @ CHR 0x22 # xs) = unquote (quote_char d @ concat (map quote_char t') @ CHR 0x22 # ys)"
      using Cons.prems t by simp
    then have "c = d" "concat (map quote_char s) @ CHR 0x22 # xs = concat (map quote_char t') @ CHR 0x22 # ys"
      by (simp_all add: unquote_quote)
    with Cons.IH [of t'] t show ?thesis by simp
  qed
qed

lemma go_quote_prefix: "go_quote s @ xs = go_quote t @ ys \<longleftrightarrow> s = t \<and> xs = ys"
  using quoted_prefix [of s xs t ys] by (auto simp: go_quote_def)

section \<open>The value a part names\<close>

datatype join_value = JNumber rat | JText string | JOther string string

definition number_value :: "string \<Rightarrow> string \<Rightarrow> join_value" where
  "number_value s typ = (case SetString s of Some r \<Rightarrow> JNumber r | None \<Rightarrow> JOther typ s)"

definition join_value_of :: "(val \<Rightarrow> string \<times> string) \<Rightarrow> val \<Rightarrow> bool \<Rightarrow> join_value option" where
  "join_value_of sprint v decimal =
     (case v of
        VNull \<Rightarrow> None
      | VInt n \<Rightarrow> Some (JNumber (of_int n))
      | VFloat x \<Rightarrow> Some (number_value (snd (sprint v)) (fst (sprint v)))
      | VStr s \<Rightarrow> Some (if decimal then number_value s ''string'' else JText s)
      | _ \<Rightarrow> Some (JOther (fst (sprint v)) (snd (sprint v))))"

fun join_values_of :: "(val \<Rightarrow> string \<times> string) \<Rightarrow> val list \<Rightarrow> bool list \<Rightarrow> join_value list option" where
  "join_values_of sprint [] decimal = Some []"
| "join_values_of sprint (v # vs) decimal =
     (case join_value_of sprint v (decimal \<noteq> [] \<and> hd decimal) of
        None \<Rightarrow> None
      | Some part \<Rightarrow> map_option ((#) part) (join_values_of sprint vs (tl decimal)))"

fun part_text :: "join_value \<Rightarrow> string" where
  "part_text (JNumber r) = ''n:'' @ RatString r"
| "part_text (JText s) = ''s:'' @ go_quote s"
| "part_text (JOther typ s) = typ @ '':'' @ go_quote s"

text \<open>The name of a type has no colon, and is not \<^verbatim>\<open>n\<close> or \<^verbatim>\<open>s\<close>.\<close>

definition type_name :: "string \<Rightarrow> bool" where
  "type_name typ \<longleftrightarrow> CHR '':'' \<notin> set typ \<and> typ \<noteq> ''n'' \<and> typ \<noteq> ''s''"

definition prints_types :: "(val \<Rightarrow> string \<times> string) \<Rightarrow> bool" where
  "prints_types sprint \<longleftrightarrow> (\<forall>v. type_name (fst (sprint v)))"

fun typed :: "join_value \<Rightarrow> bool" where
  "typed (JOther typ _) = type_name typ"
| "typed _ = True"

lemma join_part_value:
  "join_part sprint v decimal = map_option part_text (join_value_of sprint v decimal)"
  by (cases v) (auto simp: join_part_def join_value_of_def textKey_def number_value_def numberKey_spec RatString_def split: option.splits)


lemma join_parts_values: "join_parts sprint vs decimal = map_option (map part_text) (join_values_of sprint vs decimal)"
  by (induction vs arbitrary: decimal) (auto simp: join_part_value option.map_comp comp_def split: option.splits)

lemma number_value_typed: "type_name typ \<Longrightarrow> typed (number_value s typ)"
  by (auto simp: number_value_def split: option.splits)

lemma join_values_typed:
  assumes "prints_types sprint"
  shows "join_values_of sprint vs decimal = Some js \<Longrightarrow> \<forall>j\<in>set js. typed j"
proof (induction vs arbitrary: decimal js)
  case (Cons v vs)
  have t: "type_name (fst (sprint u))" for u using assms by (simp add: prints_types_def)
  have "type_name ''string''" by (simp add: type_name_def)
  then have "join_value_of sprint v d = Some j \<Longrightarrow> typed j" for d j
    using t [of v] by (cases v) (auto simp: join_value_of_def intro: number_value_typed)
  with Cons show ?case by (auto split: option.splits)
qed simp

text \<open>What follows a part of a key: nothing, or the separator.\<close>

definition after_part :: "string \<Rightarrow> bool" where
  "after_part xs \<longleftrightarrow> xs = [] \<or> hd xs = CHR '',''"

lemma until_separator:
  "CHR '','' \<notin> set a \<Longrightarrow> CHR '','' \<notin> set b \<Longrightarrow> after_part xs \<Longrightarrow> after_part ys \<Longrightarrow> a @ xs = b @ ys \<Longrightarrow> a = b \<and> xs = ys"
proof (induction a arbitrary: b)
  case Nil
  then show ?case by (cases b) (auto simp: after_part_def)
next
  case (Cons x a)
  then show ?case by (cases b) (auto simp: after_part_def)
qed

lemma RatString_comma: "CHR '','' \<notin> set (RatString r)"
proof -
  have "CHR '','' \<notin> set (show_int i)" for i
    by (auto simp: show_int_def is_digit_def dest: show_nat_digits)
  then show ?thesis by (auto simp: RatString_def split_beta Let_def)
qed

fun part_tag :: "join_value \<Rightarrow> string" where
  "part_tag (JNumber r) = ''n''"
| "part_tag (JText s) = ''s''"
| "part_tag (JOther typ s) = typ"

fun part_body :: "join_value \<Rightarrow> string" where
  "part_body (JNumber r) = RatString r"
| "part_body (JText s) = go_quote s"
| "part_body (JOther typ s) = go_quote s"

lemma part_text_split: "part_text j = part_tag j @ CHR '':'' # part_body j"
  by (cases j) simp_all

lemma part_tag_colon: "typed j \<Longrightarrow> CHR '':'' \<notin> set (part_tag j)"
  by (cases j) (simp_all add: type_name_def)

lemma part_prefix:
  assumes "typed i" "typed j" "after_part xs" "after_part ys" "part_text i @ xs = part_text j @ ys"
  shows "i = j \<and> xs = ys"
proof -
  have t: "part_tag i = part_tag j" "part_body i @ xs = part_body j @ ys"
    using assms(5) append_sep_inj [OF part_tag_colon [OF assms(1)] part_tag_colon [OF assms(2)]] by (simp_all add: part_text_split)
  show ?thesis
  proof (cases i)
    case (JNumber r)
    then obtain r' where "j = JNumber r'" using t(1) assms(2) by (cases j) (auto simp: type_name_def)
    then show ?thesis using JNumber t(2) until_separator [OF RatString_comma RatString_comma assms(3,4)] by (simp add: RatString_inj)
  next
    case (JText s)
    then obtain s' where "j = JText s'" using t(1) assms(2) by (cases j) (auto simp: type_name_def)
    then show ?thesis using JText t(2) by (simp add: go_quote_prefix)
  next
    case (JOther ty s)
    then obtain s' where "j = JOther ty s'" using t(1) assms(1) by (cases j) (auto simp: type_name_def)
    then show ?thesis using JOther t(2) by (simp add: go_quote_prefix)
  qed
qed

lemma join_strs_parts:
  assumes "\<forall>i\<in>set is. typed i" "\<forall>j\<in>set js. typed j" "length is = length js"
    and "join_strs '','' (map part_text is) = join_strs '','' (map part_text js)"
  shows "is = js"
  using assms(3,1,2,4)
proof (induction "is" js rule: list_induct2)
  case (Cons i is' j js')
  have p: "join_strs '','' (map part_text (k # ks)) = part_text k @ (if ks = [] then [] else CHR '','' # join_strs '','' (map part_text ks))" for k ks
    by (cases ks) simp_all
  let ?r = "\<lambda>ks. if ks = [] then [] else CHR '','' # join_strs '','' (map part_text ks)"
  have eq: "part_text i @ ?r is' = part_text j @ ?r js'" using Cons.prems(3) unfolding p .
  have a: "after_part (?r ks)" for ks by (simp add: after_part_def)
  have ty: "typed i" "typed j" using Cons.prems(1,2) by simp_all
  have "i = j \<and> ?r is' = ?r js'" by (rule part_prefix [OF ty a a eq])
  then have "i = j" "?r is' = ?r js'" by blast+
  then have "join_strs '','' (map part_text is') = join_strs '','' (map part_text js')" by (cases "is'"; cases js'; simp)
  then have "is' = js'" using Cons.IH Cons.prems(1,2) by simp
  with \<open>i = j\<close> show ?case by simp
qed simp

text \<open>Two tuples have one key exactly when they name the same values.\<close>

lemma joinKeyOf_same:
  assumes "prints_types sprint" "length vs = length ws" "joinKeyOf sprint vs ds = Some k" "joinKeyOf sprint ws es = Some l"
  shows "k = l \<longleftrightarrow> join_values_of sprint vs ds = join_values_of sprint ws es"
proof -
  obtain is' js' where v: "join_values_of sprint vs ds = Some is'" "join_values_of sprint ws es = Some js'"
    "k = join_strs '','' (map part_text is')" "l = join_strs '','' (map part_text js')"
    using assms(3,4) by (auto simp: joinKeyOf_def join_parts_values)
  have len: "join_values_of sprint us cs = Some ks \<Longrightarrow> length ks = length us" for us cs ks
    by (induction us arbitrary: cs ks) (auto split: option.splits)
  have "is' = js'" if "k = l"
    by (rule join_strs_parts) (use join_values_typed [OF assms(1)] v len [OF v(1)] len [OF v(2)] assms(2) that in auto)
  then show ?thesis using v by auto
qed

lemma joinKeyOf_defined: "(joinKeyOf sprint vs ds = None) = (join_values_of sprint vs ds = None)"
  by (simp add: joinKeyOf_def join_parts_values)

end
