(* ===== verification/Executor.thy ===== *)
theory Executor
  imports Entity Results
begin

text \<open>
  The executor of \<^verbatim>\<open>src/core/tool/pipeline.go\<close>, with the masking of \<^verbatim>\<open>src/core/tool/tool.go\<close>: a statement is admitted,
  run, run again after a stale plan, its rows shaped, masked and counted against the limits of the call as they are
  read, up to the first row past them, and a write is followed by what it makes stale.

  Arguments stand for what the executor calls: the masker, an interface in the code; the encoded size of a row; the
  database, which answers a statement with a cursor or an error and may change as it does; whether an error is that of a
  stale plan; and \<^verbatim>\<open>afterWrite\<close> for the statement's entity, whose parts \<^verbatim>\<open>Invalidation\<close>, \<^verbatim>\<open>Routing\<close> and \<^verbatim>\<open>Transaction\<close>
  model. The classification of an error is not modelled. Every run of a statement and every call of \<^verbatim>\<open>afterWrite\<close> is
  recorded, in order, in the trace of the world.
\<close>

type_synonym row = "string \<rightharpoonup> val"

section \<open>Masking\<close>

definition mask_rule :: "(string \<rightharpoonup> string) \<Rightarrow> attribute \<Rightarrow> string \<rightharpoonup> string" where
  "mask_rule rules a =
     (if at_Mask a = [] then rules
      else let rules' = rules(at_Name a \<mapsto> at_Mask a)
           in if at_Alias a = [] then rules' else rules'(at_Alias a \<mapsto> at_Mask a))"

definition maskRules :: "attribute list \<Rightarrow> string \<rightharpoonup> string" where
  "maskRules attrs = foldl mask_rule Map.empty attrs"

definition maskRow :: "(string \<Rightarrow> val \<Rightarrow> val) \<Rightarrow> (string \<rightharpoonup> string) \<Rightarrow> row \<Rightarrow> row" where
  "maskRow m rules row =
     (\<lambda>f. map_option (\<lambda>v. case rules f of Some rule \<Rightarrow> m rule v | None \<Rightarrow> v) (row f))"

section \<open>Statements\<close>

text \<open>A value as the driver scans it: a float that is not finite, or any other value.\<close>

datatype scanned_value = Scanned val | FloatNaN | FloatInf | FloatNegInf

type_synonym scanned_row = "string \<rightharpoonup> scanned_value"

definition finite_value :: "scanned_value \<Rightarrow> val" where
  "finite_value v =
     (case v of Scanned w \<Rightarrow> w | FloatNaN \<Rightarrow> VStr ''NaN'' | FloatInf \<Rightarrow> VStr ''Infinity'' | FloatNegInf \<Rightarrow> VStr ''-Infinity'')"

record statement =
  st_allowed :: bool
  st_sql :: string
  st_args :: "val list"
  st_transaction :: string
  st_attributes :: "attribute list"
  st_fields :: "string set option"
  st_keep :: "string list option"
  st_columns :: "string list option"
  st_rowCap :: int
  st_write :: bool

text \<open>What the database answers a statement with: its columns, its rows, and the error that may end them.\<close>

record 'err db_rows =
  cu_columns :: "'err + string list"
  cu_rows :: "scanned_value list list"
  cu_err :: "'err option"

record ('d, 'err) executor =
  xc_masker :: "(string \<Rightarrow> val \<Rightarrow> val) option"
  xc_encodedSize :: "row \<Rightarrow> int option"
  xc_query :: "string \<Rightarrow> val list \<Rightarrow> 'd \<Rightarrow> ('err + 'err db_rows) \<times> 'd"
  xc_stale :: "'err \<Rightarrow> bool"
  xc_afterWrite :: "'d \<Rightarrow> 'err option \<times> 'd"

datatype 'err event = Ran string "val list" "'err + 'err db_rows" | Followed "'err option"

record ('d, 'err) world =
  w_state :: 'd
  w_trace :: "'err event list"

definition run_sql :: "('d, 'err) executor \<Rightarrow> statement \<Rightarrow> ('d, 'err) world \<Rightarrow> ('err + 'err db_rows) \<times> ('d, 'err) world" where
  "run_sql x st w =
     (case xc_query x (st_sql st) (st_args st) (w_state w) of
        (answer, d) \<Rightarrow> (answer, \<lparr>w_state = d, w_trace = w_trace w @ [Ran (st_sql st) (st_args st) answer]\<rparr>))"

definition afterWrite :: "('d, 'err) executor \<Rightarrow> ('d, 'err) world \<Rightarrow> 'err option \<times> ('d, 'err) world" where
  "afterWrite x w =
     (case xc_afterWrite x (w_state w) of (err, d) \<Rightarrow> (err, \<lparr>w_state = d, w_trace = w_trace w @ [Followed err]\<rparr>))"

definition st_maskRules :: "('d, 'err) executor \<Rightarrow> statement \<Rightarrow> string \<rightharpoonup> string" where
  "st_maskRules x st = (case xc_masker x of None \<Rightarrow> Map.empty | Some _ \<Rightarrow> maskRules (st_attributes st))"

definition present :: "('d, 'err) executor \<Rightarrow> statement \<Rightarrow> row \<Rightarrow> row" where
  "present x st row =
     (let shaped = (case st_fields st of None \<Rightarrow> row | Some fs \<Rightarrow> row |` fs)
      in case xc_masker x of None \<Rightarrow> shaped | Some m \<Rightarrow> maskRow m (st_maskRules x st) shaped)"

section \<open>Queries\<close>

record queried =
  q_rows :: "row list"
  q_kept :: "row list"
  q_truncated :: bool

datatype 'err query_error =
  QueryUnauthorized | QueryFailed 'err | QueryColumns nat nat | QueryEncoding | QueryExceeded result_error | QueryUnfollowed 'err

definition transactional :: "statement \<Rightarrow> bool" where
  "transactional st \<longleftrightarrow> st_write st \<and> st_transaction st \<noteq> []"

definition st_admitted ::
  "('d, 'err) executor \<Rightarrow> statement \<Rightarrow> ('d, 'err) world \<Rightarrow> 'err query_error option \<times> ('d, 'err) world" where
  "st_admitted x st w =
     (if \<not> st_allowed st \<or> st_sql st = [] then (Some QueryUnauthorized, w)
      else if transactional st then apfst (map_option QueryUnfollowed) (afterWrite x w)
      else (None, w))"

definition retryStalePlan ::
  "('d, 'err) executor \<Rightarrow> statement \<Rightarrow> ('d, 'err) world \<Rightarrow> ('err + 'err db_rows) \<times> ('d, 'err) world" where
  "retryStalePlan x st w =
     (case run_sql x st w of
        (Inl err, w') \<Rightarrow> if st_transaction st = [] \<and> xc_stale x err then run_sql x st w' else (Inl err, w')
      | (Inr rows, w') \<Rightarrow> (Inr rows, w'))"

definition settle ::
  "('d, 'err) executor \<Rightarrow> statement \<Rightarrow> 'err query_error + 'a \<Rightarrow> ('d, 'err) world \<Rightarrow>
   ('err query_error + 'a) \<times> ('d, 'err) world" where
  "settle x st r w =
     (if \<not> st_write st \<or> transactional st then (r, w)
      else case afterWrite x w of
        (followErr, w') \<Rightarrow>
          (case r of
             Inl err \<Rightarrow> (Inl err, w')
           | Inr out \<Rightarrow> (case followErr of None \<Rightarrow> (Inr out, w') | Some err \<Rightarrow> (Inl (QueryUnfollowed err), w'))))"

text \<open>The rows of a cursor by name: of two columns with one name the later one counts.\<close>

definition iter_row :: "string list \<Rightarrow> scanned_value list \<Rightarrow> scanned_row" where
  "iter_row columns values = map_of (rev (zip columns values))"

definition IterNamed :: "string list option \<Rightarrow> 'err db_rows \<Rightarrow> scanned_row list \<times> 'err query_error option" where
  "IterNamed names rows =
     (case cu_columns rows of
        Inl err \<Rightarrow> ([], Some (QueryFailed err))
      | Inr cols \<Rightarrow>
          (case names of
             None \<Rightarrow> (map (iter_row cols) (cu_rows rows), map_option QueryFailed (cu_err rows))
           | Some ns \<Rightarrow>
               if length ns \<noteq> length cols then ([], Some (QueryColumns (length cols) (length ns)))
               else (map (iter_row ns) (cu_rows rows), map_option QueryFailed (cu_err rows))))"

text \<open>The kept values of a row: \<^verbatim>\<open>nil\<close> where it has no such column.\<close>

definition kept_of :: "string list \<Rightarrow> row \<Rightarrow> row" where
  "kept_of keep row = (\<lambda>c. if c \<in> set keep then Some (case row c of Some v \<Rightarrow> v | None \<Rightarrow> VNull) else None)"

text \<open>Counting a row: an encoding that fails, or the error of the meter.\<close>

definition add_row ::
  "('d, 'err) executor \<Rightarrow> row \<Rightarrow> result_meter \<times> result_memory option \<Rightarrow>
   ('err query_error + result_error option) \<times> result_meter \<times> result_memory option" where
  "add_row x row s =
     (case xc_encodedSize x row of
        None \<Rightarrow> (Inl QueryEncoding, s)
      | Some n \<Rightarrow> (case addSized 1 n s of (err, s') \<Rightarrow> (Inr err, s')))"

fun query_rows ::
  "('d, 'err) executor \<Rightarrow> statement \<Rightarrow> scanned_row list \<times> 'err query_error option \<Rightarrow> queried \<Rightarrow>
   result_meter \<times> result_memory option \<Rightarrow> ('err query_error + queried) \<times> result_meter \<times> result_memory option" where
  "query_rows x st ([], fail) out s = (case fail of None \<Rightarrow> (Inr out, s) | Some err \<Rightarrow> (Inl err, s))"
| "query_rows x st (r # rs, fail) out s =
     (let row0 = map_option finite_value \<circ> r;
          kept = (case st_keep st of None \<Rightarrow> [] | Some keep \<Rightarrow> [kept_of keep row0]);
          row = present x st row0
      in if st_rowCap st \<le> 0 \<or> int (length (q_rows out)) < st_rowCap st then
           (case add_row x row s of
              (Inl err, s') \<Rightarrow> (Inl err, s')
            | (Inr None, s') \<Rightarrow> query_rows x st (rs, fail) (out\<lparr>q_rows := q_rows out @ [row], q_kept := q_kept out @ kept\<rparr>) s'
            | (Inr (Some ErrResultCut), s') \<Rightarrow> (Inr (out\<lparr>q_truncated := True\<rparr>), s')
            | (Inr (Some err), s') \<Rightarrow> (Inl (QueryExceeded err), s'))
         else if \<not> st_write st then (Inl (QueryExceeded ErrRowsExceeded), s)
         else (Inr (out\<lparr>q_truncated := True\<rparr>), s))"

abbreviation no_rows :: queried where
  "no_rows \<equiv> \<lparr>q_rows = [], q_kept = [], q_truncated = False\<rparr>"

definition query ::
  "('d, 'err) executor \<Rightarrow> statement \<Rightarrow> result_meter \<times> result_memory option \<Rightarrow> ('d, 'err) world \<Rightarrow>
   ('err query_error + queried) \<times> (result_meter \<times> result_memory option) \<times> ('d, 'err) world" where
  "query x st s w =
     (case st_admitted x st w of
        (Some err, w1) \<Rightarrow> (Inl err, s, w1)
      | (None, w1) \<Rightarrow>
          (case retryStalePlan x st w1 of
             (answer, w2) \<Rightarrow>
               (case (case answer of
                        Inl err \<Rightarrow> (Inl (QueryFailed err), s)
                      | Inr rows \<Rightarrow> query_rows x st (IterNamed (st_columns st) rows) no_rows s) of
                  (r, s') \<Rightarrow> (case settle x st r w2 of (r', w3) \<Rightarrow> (r', s', w3)))))"

section \<open>What a query returns\<close>

text \<open>A masked field of the entity, under its column or its alias.\<close>

definition masks :: "attribute \<Rightarrow> string \<Rightarrow> bool" where
  "masks a f \<longleftrightarrow> at_Mask a \<noteq> [] \<and> (f = at_Name a \<or> at_Alias a \<noteq> [] \<and> f = at_Alias a)"

lemma mask_rule_at: "mask_rule rules a f = (if masks a f then Some (at_Mask a) else rules f)"
  by (auto simp: mask_rule_def masks_def Let_def)

lemma maskRules_from:
  "foldl mask_rule m attrs f = rule \<Longrightarrow>
   rule = m f \<and> (\<forall>a\<in>set attrs. \<not> masks a f) \<or> (\<exists>a\<in>set attrs. masks a f \<and> rule = Some (at_Mask a))"
proof (induction attrs arbitrary: m)
  case (Cons a attrs)
  from Cons.IH [of "mask_rule m a"] Cons.prems show ?case by (simp add: mask_rule_at) (metis)
qed simp

lemma maskRules_masked:
  "a \<in> set attrs \<Longrightarrow> masks a f \<Longrightarrow> \<exists>b\<in>set attrs. masks b f \<and> maskRules attrs f = Some (at_Mask b)"
  using maskRules_from [of Map.empty attrs f] unfolding maskRules_def by blast

definition shown_row :: "('d, 'err) executor \<Rightarrow> statement \<Rightarrow> scanned_row \<Rightarrow> row" where
  "shown_row x st r = present x st (map_option finite_value \<circ> r)"

definition shown_kept :: "statement \<Rightarrow> scanned_row \<Rightarrow> row list" where
  "shown_kept st r = (case st_keep st of None \<Rightarrow> [] | Some keep \<Rightarrow> [kept_of keep (map_option finite_value \<circ> r)])"

definition shown_size :: "('d, 'err) executor \<Rightarrow> statement \<Rightarrow> scanned_row \<Rightarrow> int" where
  "shown_size x st r = (case xc_encodedSize x (shown_row x st r) of Some n \<Rightarrow> n | None \<Rightarrow> 0)"

lemma addSized_cut:
  assumes "addSized rows n s = (Some ErrResultCut, s')"
  shows "mt_write (fst s)" "mt_rows (fst s') = mt_rows (fst s)" "mt_bytes (fst s') = mt_bytes (fst s)"
    "mt_maxRows (fst s') = mt_maxRows (fst s)" "mt_maxBytes (fst s') = mt_maxBytes (fst s)"
  using assms by (auto simp: addSized_def Let_def split: if_splits prod.splits bool.splits)

lemma addSized_done:
  assumes "addSized rows n s = (None, s')"
  shows "mt_write (fst s') = mt_write (fst s)" "mt_rows (fst s') = mt_rows (fst s) + rows"
    "mt_bytes (fst s') = mt_bytes (fst s) + n"
    "mt_maxRows (fst s') = mt_maxRows (fst s)" "mt_maxBytes (fst s') = mt_maxBytes (fst s)"
    "0 < mt_maxRows (fst s) \<Longrightarrow> mt_rows (fst s') \<le> mt_maxRows (fst s)"
    "0 < mt_maxBytes (fst s) \<Longrightarrow> mt_bytes (fst s') \<le> mt_maxBytes (fst s)"
  using assms by (auto simp: addSized_def Let_def split: if_splits prod.splits bool.splits)

text \<open>What reading the rows \<open>rs\<close> gives, from \<open>out\<close> on: \<open>n\<close> of them, counted.\<close>

definition read_so_far ::
  "('d, 'err) executor \<Rightarrow> statement \<Rightarrow> scanned_row list \<Rightarrow> 'err query_error option \<Rightarrow> queried \<Rightarrow> result_meter \<Rightarrow> nat \<Rightarrow> queried \<Rightarrow>
   result_meter \<Rightarrow> bool" where
  "read_so_far x st rs fail out m n q m' \<longleftrightarrow>
     n \<le> length rs \<and> q_rows q = q_rows out @ map (shown_row x st) (take n rs) \<and>
     q_kept q = q_kept out @ concat (map (shown_kept st) (take n rs)) \<and>
     (n < length rs \<longrightarrow> q_truncated q \<and> (st_write st \<or> mt_write m)) \<and>
     (n = length rs \<longrightarrow> q_truncated q = q_truncated out \<and> fail = None) \<and>
     (0 < st_rowCap st \<longrightarrow> int (length (q_rows out)) \<le> st_rowCap st \<longrightarrow> int (length (q_rows q)) \<le> st_rowCap st) \<and>
     mt_rows m' = mt_rows m + int n \<and> mt_bytes m' = mt_bytes m + sum_list (map (shown_size x st) (take n rs)) \<and>
     (0 < mt_maxRows m \<longrightarrow> 0 < n \<longrightarrow> mt_rows m' \<le> mt_maxRows m) \<and>
     (0 < mt_maxBytes m \<longrightarrow> 0 < n \<longrightarrow> mt_bytes m' \<le> mt_maxBytes m)"

lemma query_rows_reads:
  "query_rows x st (rs, fail) out s = (Inr q, s') \<Longrightarrow> \<exists>n. read_so_far x st rs fail out (fst s) n q (fst s')"
proof (induction rs arbitrary: out s)
  case Nil
  then show ?case by (intro exI [of _ 0]) (auto simp: read_so_far_def split: option.splits)
next
  case (Cons r rs)
  show ?case
  proof (cases "st_rowCap st \<le> 0 \<or> int (length (q_rows out)) < st_rowCap st")
    case fits: True
    have "xc_encodedSize x (shown_row x st r) \<noteq> None"
    proof
      assume "xc_encodedSize x (shown_row x st r) = None"
      then show False using Cons.prems fits by (simp add: Let_def shown_row_def add_row_def)
    qed
    then obtain z where z: "xc_encodedSize x (shown_row x st r) = Some z" by blast
    obtain err s1 where add: "addSized 1 z s = (err, s1)" by (cases "addSized 1 z s")
    have a: "add_row x (shown_row x st r) s = (Inr err, s1)" by (simp add: add_row_def z add)
    have size: "shown_size x st r = z" by (simp add: shown_size_def z)
    let ?out = "out\<lparr>q_rows := q_rows out @ [shown_row x st r], q_kept := q_kept out @ shown_kept st r\<rparr>"
    show ?thesis
    proof (cases err)
      case None
      then have "query_rows x st (rs, fail) ?out s1 = (Inr q, s')"
        using Cons.prems fits a by (simp add: Let_def shown_row_def shown_kept_def)
      then obtain n where n: "read_so_far x st rs fail ?out (fst s1) n q (fst s')" using Cons.IH by blast
      note d = addSized_done [OF add [unfolded None]]
      have "read_so_far x st (r # rs) fail out (fst s) (Suc n) q (fst s')"
        using n fits d(1-5) d(6,7) size unfolding read_so_far_def
        by (intro conjI impI; cases n) simp_all
      then show ?thesis by blast
    next
      case (Some e)
      then have "e = ErrResultCut" "q = out\<lparr>q_truncated := True\<rparr>" "s' = s1"
        using Cons.prems fits a by (auto simp: Let_def shown_row_def shown_kept_def split: result_error.splits)
      then have "read_so_far x st (r # rs) fail out (fst s) 0 q (fst s')"
        using addSized_cut [of 1 _ s s1] add Some by (auto simp: read_so_far_def)
      then show ?thesis by blast
    qed
  next
    case False
    then have "st_write st" "q = out\<lparr>q_truncated := True\<rparr>" "s' = s"
      using Cons.prems by (auto simp: Let_def split: if_splits)
    then have "read_so_far x st (r # rs) fail out (fst s) 0 q (fst s')" by (auto simp: read_so_far_def)
    then show ?thesis by blast
  qed
qed

text \<open>
  What a caller may be shown of the value \<open>u\<close> a row has for the field \<open>f\<close>: that value where no attribute of the entity
  masks the field, what the masker makes of it by the rule of one that does otherwise.
\<close>

definition shown_as :: "('d, 'err) executor \<Rightarrow> statement \<Rightarrow> string \<Rightarrow> val \<Rightarrow> val \<Rightarrow> bool" where
  "shown_as x st f u v \<longleftrightarrow>
     (case xc_masker x of
        None \<Rightarrow> v = u
      | Some m \<Rightarrow> if \<exists>a\<in>set (st_attributes st). masks a f
                  then \<exists>a\<in>set (st_attributes st). masks a f \<and> v = m (at_Mask a) u else v = u)"

definition st_names :: "statement \<Rightarrow> string \<Rightarrow> bool" where
  "st_names st f \<longleftrightarrow> (case st_fields st of None \<Rightarrow> True | Some fs \<Rightarrow> f \<in> fs)"

lemma maskRules_None: "\<not> (\<exists>a\<in>set attrs. masks a f) \<Longrightarrow> maskRules attrs f = None"
  using maskRules_from [of Map.empty attrs f] unfolding maskRules_def by auto

lemma shown_row_field:
  "shown_row x st r f =
     (if st_names st f
      then map_option (\<lambda>u. case xc_masker x of
         None \<Rightarrow> finite_value u
       | Some m \<Rightarrow> (case maskRules (st_attributes st) f of Some rule \<Rightarrow> m rule (finite_value u) | None \<Rightarrow> finite_value u)) (r f)
      else None)"
  by (cases "st_fields st"; cases "xc_masker x"; cases "r f")
    (simp_all add: shown_row_def present_def st_names_def maskRow_def st_maskRules_def restrict_map_def Let_def
      split: option.splits)

lemma shown_row_None: "shown_row x st r f = None \<longleftrightarrow> r f = None \<or> \<not> st_names st f"
  by (simp add: shown_row_field)

lemma shown_row_Some:
  assumes "shown_row x st r f = Some v"
  shows "\<exists>u. r f = Some u \<and> shown_as x st f (finite_value u) v"
proof -
  obtain u where u: "r f = Some u" using assms shown_row_None [of x st r f] by (cases "r f") auto
  have n: "st_names st f" using assms shown_row_None [of x st r f] by auto
  have "shown_as x st f (finite_value u) v"
  proof (cases "xc_masker x")
    case None
    then show ?thesis using assms u n by (simp add: shown_row_field shown_as_def)
  next
    case (Some m)
    show ?thesis
    proof (cases "\<exists>a\<in>set (st_attributes st). masks a f")
      case True
      then obtain b where "b \<in> set (st_attributes st)" "masks b f" "maskRules (st_attributes st) f = Some (at_Mask b)"
        using maskRules_masked by blast
      then show ?thesis using assms u n Some True by (auto simp: shown_row_field shown_as_def)
    next
      case False
      then show ?thesis using assms u n Some maskRules_None [OF False] by (auto simp: shown_row_field shown_as_def)
    qed
  qed
  then show ?thesis using u by blast
qed

section \<open>What a query runs\<close>

fun is_run :: "'err event \<Rightarrow> bool" where
  "is_run (Ran sql args answer) = True"
| "is_run (Followed err) = False"

text \<open>
  What a statement may do: nothing unless it is authorized and gated; run its own text and arguments only; run twice
  only where a stale plan refused it, outside a transaction; note what a write of a transaction changes before it runs,
  and follow any other write once it ran.
\<close>

definition st_follows :: "statement \<Rightarrow> 'err event list \<Rightarrow> 'err event list \<Rightarrow> 'err event list \<Rightarrow> bool" where
  "st_follows st before runs after \<longleftrightarrow>
     (if transactional st then (\<exists>err. before = [Followed err] \<and> (runs \<noteq> [] \<longrightarrow> err = None)) \<and> after = []
      else before = [] \<and> (if st_write st \<and> runs \<noteq> [] then \<exists>err. after = [Followed err] else after = []))"

definition reruns :: "('d, 'err) executor \<Rightarrow> statement \<Rightarrow> 'err event list \<Rightarrow> bool" where
  "reruns x st runs \<longleftrightarrow>
     (\<forall>e\<in>set runs. \<exists>answer. e = Ran (st_sql st) (st_args st) answer) \<and>
     (length runs \<le> 1 \<or>
      st_transaction st = [] \<and> (\<exists>err last. runs = [Ran (st_sql st) (st_args st) (Inl err), last] \<and> xc_stale x err))"

definition proper_trace :: "('d, 'err) executor \<Rightarrow> statement \<Rightarrow> 'err event list \<Rightarrow> bool" where
  "proper_trace x st tr \<longleftrightarrow> tr = [] \<or>
     st_allowed st \<and> st_sql st \<noteq> [] \<and>
     (\<exists>before runs after. tr = before @ runs @ after \<and> reruns x st runs \<and> st_follows st before runs after)"

lemma run_sql_trace:
  "run_sql x st w = (answer, w') \<Longrightarrow> w_trace w' = w_trace w @ [Ran (st_sql st) (st_args st) answer]"
  by (auto simp: run_sql_def split: prod.splits)

lemma retryStalePlan_runs:
  assumes "retryStalePlan x st w = (answer, w')"
  shows "\<exists>runs. w_trace w' = w_trace w @ runs @ [Ran (st_sql st) (st_args st) answer] \<and>
    (runs = [] \<or> st_transaction st = [] \<and> (\<exists>err. runs = [Ran (st_sql st) (st_args st) (Inl err)] \<and> xc_stale x err))"
proof -
  obtain a w1 where r: "run_sql x st w = (a, w1)" by fastforce
  show ?thesis
  proof (cases "\<exists>err. a = Inl err \<and> st_transaction st = [] \<and> xc_stale x err")
    case True
    then obtain err where e: "a = Inl err" "st_transaction st = []" "xc_stale x err" by blast
    then have "run_sql x st w1 = (answer, w')" using assms r by (simp add: retryStalePlan_def)
    then show ?thesis using e run_sql_trace [OF r] run_sql_trace by fastforce
  next
    case False
    then have "answer = a \<and> w' = w1" using assms r by (auto simp: retryStalePlan_def split: sum.splits if_splits)
    then show ?thesis using run_sql_trace [OF r] by auto
  qed
qed

lemma afterWrite_trace: "afterWrite x w = (err, w') \<Longrightarrow> w_trace w' = w_trace w @ [Followed err]"
  by (auto simp: afterWrite_def split: prod.splits)

lemma settle_trace:
  assumes "settle x st r w = (r', w')"
  shows "\<exists>after. w_trace w' = w_trace w @ after \<and>
    (if st_write st \<and> \<not> transactional st then \<exists>err. after = [Followed err] else after = [])"
    and "r' = Inr q \<Longrightarrow> r = Inr q"
proof -
  obtain e w1 where a: "afterWrite x w = (e, w1)" by fastforce
  have "w' = (if st_write st \<and> \<not> transactional st then w1 else w)" "r' = Inr q \<Longrightarrow> r = Inr q"
    using assms a by (auto simp: settle_def split: sum.splits option.splits if_splits)
  then show "\<exists>after. w_trace w' = w_trace w @ after \<and>
      (if st_write st \<and> \<not> transactional st then \<exists>err. after = [Followed err] else after = [])"
    and "r' = Inr q \<Longrightarrow> r = Inr q"
    using afterWrite_trace [OF a] by auto
qed

lemma admitted_trace:
  assumes "st_admitted x st w = (e, w')"
  shows "if st_allowed st \<and> st_sql st \<noteq> []
    then \<exists>before. w_trace w' = w_trace w @ before \<and>
      (if transactional st then \<exists>err. before = [Followed err] \<and> (e = None \<longrightarrow> err = None) else before = [] \<and> e = None)
    else e = Some QueryUnauthorized \<and> w_trace w' = w_trace w"
proof (cases "transactional st")
  case True
  obtain err w1 where a: "afterWrite x w = (err, w1)" by fastforce
  then show ?thesis using assms True afterWrite_trace [OF a] by (auto simp: st_admitted_def)
next
  case False
  then show ?thesis using assms by (auto simp: st_admitted_def split: if_splits)
qed

text \<open>The last answer of the database to a statement, of a trace.\<close>

definition answered :: "'err event list \<Rightarrow> 'err db_rows \<Rightarrow> bool" where
  "answered tr rows \<longleftrightarrow> (\<exists>before sql args after. tr = before @ Ran sql args (Inr rows) # after \<and> (\<forall>e\<in>set after. \<not> is_run e))"

lemma query_trace:
  assumes "query x st s w = (r, s', w')"
  shows "\<exists>tr. w_trace w' = w_trace w @ tr \<and> proper_trace x st tr \<and>
    (\<not> (st_allowed st \<and> st_sql st \<noteq> []) \<longrightarrow> r = Inl QueryUnauthorized \<and> tr = [] \<and> s' = s) \<and>
    (\<forall>q. r = Inr q \<longrightarrow> (\<exists>rows. answered tr rows \<and>
       query_rows x st (IterNamed (st_columns st) rows) no_rows s = (Inr q, s')))"
proof -
  obtain e w1 where ad: "st_admitted x st w = (e, w1)" by fastforce
  show ?thesis
  proof (cases e)
    case (Some err)
    have q: "r = Inl err" "s' = s" "w' = w1" using assms ad Some by (simp_all add: query_def)
    show ?thesis
    proof (cases "st_allowed st \<and> st_sql st \<noteq> []")
      case True
      then obtain f where "w_trace w1 = w_trace w @ [Followed f]" "transactional st"
        using admitted_trace [OF ad] Some by (auto split: if_splits)
      moreover have "proper_trace x st [Followed f]" if "transactional st"
      proof -
        have "reruns x st [] \<and> st_follows st [Followed f] [] []" using that by (simp add: reruns_def st_follows_def)
        moreover have "[Followed f] = [Followed f] @ [] @ []" by simp
        ultimately show ?thesis using True unfolding proper_trace_def by blast
      qed
      ultimately show ?thesis using q True by auto
    next
      case False
      have "proper_trace x st []" by (simp add: proper_trace_def)
      then show ?thesis using admitted_trace [OF ad] False q Some by auto
    qed
  next
    case None
    then have ok: "st_allowed st \<and> st_sql st \<noteq> []" using admitted_trace [OF ad] by (auto split: if_splits)
    then obtain before where before: "w_trace w1 = w_trace w @ before"
      "if transactional st then before = [Followed None] else before = []"
      using admitted_trace [OF ad] None by (auto split: if_splits)
    obtain answer w2 where ans: "retryStalePlan x st w1 = (answer, w2)" by fastforce
    obtain r1 s1 where r1: "(case answer of Inl err \<Rightarrow> (Inl (QueryFailed err), s)
        | Inr rows \<Rightarrow> query_rows x st (IterNamed (st_columns st) rows) no_rows s) = (r1, s1)" by (rule prod.exhaust)
    obtain r2 w3 where se: "settle x st r1 w2 = (r2, w3)" by fastforce
    have q: "r = r2" "s' = s1" "w' = w3" using assms ad None ans r1 se by (simp_all add: query_def)
    obtain runs where runs: "w_trace w2 = w_trace w1 @ runs @ [Ran (st_sql st) (st_args st) answer]"
      "runs = [] \<or> st_transaction st = [] \<and> (\<exists>err. runs = [Ran (st_sql st) (st_args st) (Inl err)] \<and> xc_stale x err)"
      using retryStalePlan_runs [OF ans] by blast
    obtain after where after: "w_trace w3 = w_trace w2 @ after"
      "if st_write st \<and> \<not> transactional st then \<exists>err. after = [Followed err] else after = []"
      using settle_trace(1) [OF se] by blast
    let ?last = "Ran (st_sql st) (st_args st) answer"
    let ?tr = "before @ (runs @ [?last]) @ after"
    have "reruns x st (runs @ [?last])" using runs(2) by (auto simp: reruns_def)
    moreover have "st_follows st before (runs @ [?last]) after"
      using before(2) after(2) by (auto simp: st_follows_def split: if_splits)
    ultimately have "proper_trace x st ?tr" using ok unfolding proper_trace_def by blast
    moreover have "w_trace w' = w_trace w @ ?tr" using q(3) after(1) runs(1) before(1) by simp
    moreover have "\<exists>rows. answered ?tr rows \<and> query_rows x st (IterNamed (st_columns st) rows) no_rows s = (Inr y, s')" if y: "r = Inr y" for y
    proof -
      have "r1 = Inr y" using settle_trace(2) [OF se, of y] y q(1) by simp
      then obtain rows where rows: "answer = Inr rows" "query_rows x st (IterNamed (st_columns st) rows) no_rows s = (Inr y, s')"
        using r1 q(2) by (cases answer) simp_all
      have "answered ?tr rows"
        unfolding answered_def rows(1) [symmetric]
        by (intro exI [of _ "before @ runs"] exI [of _ "st_sql st"] exI [of _ "st_args st"] exI [of _ after])
          (use after(2) in \<open>auto split: if_splits\<close>)
      then show ?thesis using rows(2) by blast
    qed
    ultimately show ?thesis using ok by blast
  qed
qed


text \<open>The witness: a row with a masked column, read with a limit of ten rows.\<close>

definition ex_secret :: attribute where
  "ex_secret = \<lparr>at_Name = ''phone'', at_Alias = ''tel'', at_Description = [],
     at_Domain = \<lparr>dm_Type = ''text'', dm_Nullable = True, dm_Default = False, dm_Generated = False, dm_AutoIncrement = False\<rparr>,
     at_Excluded = False, at_Mask = ''secret''\<rparr>"

definition ex_select :: statement where
  "ex_select = \<lparr>st_allowed = True, st_sql = ''SELECT phone AS tel FROM people'', st_args = [], st_transaction = [],
     st_attributes = [ex_secret], st_fields = None, st_keep = None, st_columns = None, st_rowCap = 0, st_write = False\<rparr>"

definition ex_rows :: "unit db_rows" where
  "ex_rows = \<lparr>cu_columns = Inr [''tel''], cu_rows = [[Scanned (VStr ''555'')]], cu_err = None\<rparr>"

definition ex_executor :: "(unit, unit) executor" where
  "ex_executor = \<lparr>xc_masker = Some (\<lambda>_ _. VStr ''***''), xc_encodedSize = (\<lambda>_. Some 20), xc_query = (\<lambda>_ _ d. (Inr ex_rows, d)),
     xc_stale = (\<lambda>_. False), xc_afterWrite = (\<lambda>d. (None, d))\<rparr>"


end
