(* ===== verification/Expand.thy ===== *)
theory Expand
  imports Join_Key_Laws Executor Paging
begin

text \<open>
  The expansion of a read along a relationship, \<^verbatim>\<open>src/core/tool/tools_read_impl.go\<close>: the join values of the rows read
  are gathered without repetition, the target's rows are queried for them in batches, grouped by their join key and
  attached to the rows they belong to.

  Arguments stand for what an expansion asks of others: \<open>xp_plan\<close> authorizes, compiles and gates the query of a batch,
  by its predicate, and says whether the gate bounded it shorter; \<open>xp_executor\<close> runs it, on the database.
\<close>

section \<open>Join columns\<close>

record join_columns =
  jc_local :: "string list"
  jc_target :: "string list"
  jc_localDecimal :: "bool list"
  jc_targetDecimal :: "bool list"

definition relationJoin :: "relationship \<Rightarrow> join_columns" where
  "relationJoin r =
     (let loc = sort (remdups (map fst (rl_JoinOn r)))
      in \<lparr>jc_local = loc, jc_target = map (\<lambda>l. case map_of (rl_JoinOn r) l of Some t \<Rightarrow> t | None \<Rightarrow> []) loc,
          jc_localDecimal = [], jc_targetDecimal = []\<rparr>)"

definition decimalColumns :: "entity \<Rightarrow> string list \<Rightarrow> bool list" where
  "decimalColumns e columns =
     map (\<lambda>c. case AttributeByName e c of Some a \<Rightarrow> isDecimalType (dm_Type (at_Domain a)) | None \<Rightarrow> False) columns"

definition add_column :: "string \<Rightarrow> string list \<Rightarrow> string list" where
  "add_column c columns = (if c \<in> set columns then columns else columns @ [c])"

definition expandJoinColumns :: "entity \<Rightarrow> string list \<Rightarrow> string list" where
  "expandJoinColumns parent names =
     fold (\<lambda>name. case relationshipByName parent name of
        None \<Rightarrow> id
      | Some relation \<Rightarrow> fold add_column (sort (remdups (map fst (rl_JoinOn relation))))) names []"

definition row_value :: "row \<Rightarrow> string \<Rightarrow> val" where
  "row_value row c = (case row c of Some v \<Rightarrow> v | None \<Rightarrow> VNull)"

definition rowJoinKey :: "(val \<Rightarrow> string \<times> string) \<Rightarrow> row \<Rightarrow> string list \<Rightarrow> bool list \<Rightarrow> string option" where
  "rowJoinKey sprint row columns decimal = joinKeyOf sprint (map (row_value row) columns) decimal"

fun unique_tuples ::
  "(val \<Rightarrow> string \<times> string) \<Rightarrow> string list \<Rightarrow> bool list \<Rightarrow> row list \<Rightarrow> string set \<Rightarrow> val list list" where
  "unique_tuples sprint columns decimal [] seen = []"
| "unique_tuples sprint columns decimal (row # rows) seen =
     (case rowJoinKey sprint row columns decimal of
        None \<Rightarrow> unique_tuples sprint columns decimal rows seen
      | Some key \<Rightarrow>
          if key \<in> seen then unique_tuples sprint columns decimal rows seen
          else map (row_value row) columns # unique_tuples sprint columns decimal rows (insert key seen))"

definition uniqueJoinTuples :: "(val \<Rightarrow> string \<times> string) \<Rightarrow> row list \<Rightarrow> string list \<Rightarrow> bool list \<Rightarrow> val list list" where
  "uniqueJoinTuples sprint rows columns decimal = unique_tuples sprint columns decimal rows {}"

definition joinPredicate :: "string list \<Rightarrow> val list list \<Rightarrow> predicate" where
  "joinPredicate columns tuples =
     (if length columns = 1
      then Condition \<lparr>c_Field = hd columns, c_Op = OpIn, c_Value = VList (map hd tuples)\<rparr>
      else
        let ors = map (\<lambda>t. And (map (\<lambda>(c, v). Condition \<lparr>c_Field = c, c_Op = OpEq, c_Value = v\<rparr>) (zip columns t))) tuples
        in case ors of [p] \<Rightarrow> p | _ \<Rightarrow> Or ors)"

section \<open>Batches\<close>

record ('d, 'err) expansion =
  xp_sprint :: "val \<Rightarrow> string \<times> string"
  xp_executor :: "('d, 'err) executor"
  xp_plan :: "predicate \<Rightarrow> 'err + (statement \<times> bool)"
  xp_maxRows :: int
  xp_maxIN :: int

datatype 'err expand_error = ExpandRefused 'err | ExpandFailed "'err query_error" | ExpandExceeded

function tuple_batches :: "nat \<Rightarrow> val list list \<Rightarrow> val list list list" where
  "tuple_batches n ts = (if ts = [] then [] else take (max 1 n) ts # tuple_batches n (drop (max 1 n) ts))"
  by auto

termination
  by (relation "measure (length \<circ> snd)") (auto simp: neq_Nil_conv)

declare tuple_batches.simps [simp del]

type_synonym ('d, 'err) call_state = "(result_meter \<times> result_memory option) \<times> ('d, 'err) world"

definition compileExpandBatch :: "('d, 'err) expansion \<Rightarrow> join_columns \<Rightarrow> val list list \<Rightarrow> 'err + (statement \<times> bool)" where
  "compileExpandBatch x join tuples =
     map_sum id (\<lambda>(st, shorter). (st\<lparr>st_keep := Some (jc_target join), st_rowCap := xp_maxRows x\<rparr>, shorter))
       (xp_plan x (joinPredicate (jc_target join) tuples))"

fun group_children ::
  "(val \<Rightarrow> string \<times> string) \<Rightarrow> join_columns \<Rightarrow> (row \<times> row) list \<Rightarrow> (string \<Rightarrow> row list) \<Rightarrow> string \<Rightarrow> row list" where
  "group_children sprint join [] grouped = grouped"
| "group_children sprint join ((child, kept) # cs) grouped =
     group_children sprint join cs
       (case rowJoinKey sprint kept (jc_target join) (jc_targetDecimal join) of
          Some key \<Rightarrow> grouped(key := grouped key @ [child])
        | None \<Rightarrow> grouped)"

fun expand_batches ::
  "('d, 'err) expansion \<Rightarrow> join_columns \<Rightarrow> val list list list \<Rightarrow> (string \<Rightarrow> row list) \<Rightarrow> ('d, 'err) call_state \<Rightarrow>
   ('err expand_error + (string \<Rightarrow> row list)) \<times> ('d, 'err) call_state" where
  "expand_batches x join [] grouped s = (Inr grouped, s)"
| "expand_batches x join (ts # batches) grouped s =
     (case compileExpandBatch x join ts of
        Inl err \<Rightarrow> (Inl (ExpandRefused err), s)
      | Inr (st, shorter) \<Rightarrow>
          (case query (xp_executor x) st (fst s) (snd s) of
             (Inl err, s') \<Rightarrow> (Inl (ExpandFailed err), s')
           | (Inr children, s') \<Rightarrow>
               if shorter \<and> st_rowCap st > 0 \<and> int (length (q_rows children)) \<ge> st_rowCap st then (Inl ExpandExceeded, s')
               else expand_batches x join batches
                 (group_children (xp_sprint x) join (zip (q_rows children) (q_kept children)) grouped) s'))"

definition effectiveMaxIN :: "int \<Rightarrow> int" where
  "effectiveMaxIN maxINListSize = (if maxINListSize > 0 then maxINListSize else DefaultMaxINCardinality)"

definition queryExpandedChildren ::
  "('d, 'err) expansion \<Rightarrow> join_columns \<Rightarrow> val list list \<Rightarrow> ('d, 'err) call_state \<Rightarrow>
   ('err expand_error + (string \<Rightarrow> row list)) \<times> ('d, 'err) call_state" where
  "queryExpandedChildren x join tuples s =
     expand_batches x join (tuple_batches (nat (effectiveMaxIN (xp_maxIN x) div int (length (jc_target join)))) tuples) (\<lambda>_. []) s"

section \<open>Attaching\<close>

text \<open>A field of an expanded row: a value, a related row, or all the related rows.\<close>

datatype cell = Cell val | Child row | Children "row list"

definition attach_children ::
  "(val \<Rightarrow> string \<times> string) \<Rightarrow> string \<Rightarrow> join_columns \<Rightarrow> relationship \<Rightarrow> (string \<Rightarrow> row list) \<Rightarrow> row \<Rightarrow> cell" where
  "attach_children sprint name join relation grouped kept =
     (let children = (case rowJoinKey sprint kept (jc_local join) (jc_localDecimal join) of
                        Some key \<Rightarrow> grouped key
                      | None \<Rightarrow> [])
      in if Single relation then (case children of c # _ \<Rightarrow> Child c | [] \<Rightarrow> Cell VNull) else Children children)"

definition attachExpandedChildren ::
  "(val \<Rightarrow> string \<times> string) \<Rightarrow> string \<Rightarrow> join_columns \<Rightarrow> relationship \<Rightarrow> (string \<Rightarrow> row list) \<Rightarrow>
   (string \<rightharpoonup> cell) list \<Rightarrow> row list \<Rightarrow> (string \<rightharpoonup> cell) list" where
  "attachExpandedChildren sprint name join relation grouped rows kept =
     map (\<lambda>(row, k). row(name \<mapsto> attach_children sprint name join relation grouped k)) (zip rows kept)"

definition expandOneRelationship ::
  "('d, 'err) expansion \<Rightarrow> entity \<Rightarrow> entity \<Rightarrow> relationship \<Rightarrow> (string \<rightharpoonup> cell) list \<Rightarrow> row list \<Rightarrow>
   ('d, 'err) call_state \<Rightarrow> ('err expand_error + (string \<rightharpoonup> cell) list) \<times> ('d, 'err) call_state" where
  "expandOneRelationship x parent target relation rows kept s =
     (let join0 = relationJoin relation;
          join = join0\<lparr>jc_localDecimal := decimalColumns parent (jc_local join0),
                       jc_targetDecimal := decimalColumns target (jc_target join0)\<rparr>;
          tuples = uniqueJoinTuples (xp_sprint x) kept (jc_local join) (jc_localDecimal join);
          attach = (\<lambda>grouped. attachExpandedChildren (xp_sprint x) (rl_Name relation) join relation grouped rows kept)
      in if tuples = [] then (Inr (attach (\<lambda>_. [])), s)
         else case queryExpandedChildren x join tuples s of
                (Inl err, s') \<Rightarrow> (Inl err, s')
              | (Inr grouped, s') \<Rightarrow> (Inr (attach grouped), s'))"

end
