(* ===== verification/Expand_Props.thy ===== *)
theory Expand_Props
  imports Expand
begin

text \<open>
  What an expansion attaches: to every row, all the rows of the target with the same join values, whatever the batches
  and the limits. Where a limit could have cut a batch short the expansion fails.
\<close>

section \<open>Tuples and batches\<close>

abbreviation tuple_key :: "(val \<Rightarrow> string \<times> string) \<Rightarrow> bool list \<Rightarrow> val list \<Rightarrow> string option" where
  "tuple_key sprint decimal t \<equiv> joinKeyOf sprint t decimal"

lemma unique_tuples_keys:
  "distinct (map (tuple_key sprint decimal) (unique_tuples sprint columns decimal rows seen)) \<and>
   (\<forall>t\<in>set (unique_tuples sprint columns decimal rows seen). length t = length columns \<and>
      (\<exists>k. tuple_key sprint decimal t = Some k \<and> k \<notin> seen)) \<and>
   (\<forall>row\<in>set rows. \<forall>k. rowJoinKey sprint row columns decimal = Some k \<longrightarrow> k \<in> seen \<or>
      Some k \<in> tuple_key sprint decimal ` set (unique_tuples sprint columns decimal rows seen))"
proof (induction rows arbitrary: seen)
  case (Cons row rows)
  show ?case
  proof (cases "rowJoinKey sprint row columns decimal")
    case None
    then show ?thesis using Cons.IH [of seen] by simp
  next
    case (Some key)
    show ?thesis
    proof (cases "key \<in> seen")
      case True
      then show ?thesis using Cons.IH [of seen] Some by simp
    next
      case False
      let ?t = "map (row_value row) columns" and ?r = "unique_tuples sprint columns decimal rows (insert key seen)"
      have k: "tuple_key sprint decimal ?t = Some key" using Some by (simp add: rowJoinKey_def)
      have eq: "unique_tuples sprint columns decimal (row # rows) seen = ?t # ?r" using Some False by simp
      note ih = Cons.IH [of "insert key seen"]
      have "Some key \<notin> tuple_key sprint decimal ` set ?r" using ih by fastforce
      then have d: "distinct (map (tuple_key sprint decimal) (?t # ?r))" using ih k by simp
      have l: "\<forall>t\<in>set (?t # ?r). length t = length columns \<and> (\<exists>k. tuple_key sprint decimal t = Some k \<and> k \<notin> seen)"
        using ih k False by auto
      have "\<forall>row'\<in>set (row # rows). \<forall>k'. rowJoinKey sprint row' columns decimal = Some k' \<longrightarrow> k' \<in> seen \<or>
          Some k' \<in> tuple_key sprint decimal ` set (?t # ?r)"
      proof (intro ballI allI impI)
        fix row' k' assume r: "row' \<in> set (row # rows)" "rowJoinKey sprint row' columns decimal = Some k'"
        show "k' \<in> seen \<or> Some k' \<in> tuple_key sprint decimal ` set (?t # ?r)"
        proof (cases "k' = key")
          case True
          then show ?thesis using k by (metis image_eqI list.set_intros(1))
        next
          case False
          then have "row' \<in> set rows" using r Some by auto
          then have "k' \<in> insert key seen \<or> Some k' \<in> tuple_key sprint decimal ` set ?r" using ih r(2) by blast
          then show ?thesis using False by auto
        qed
      qed
      with d l show ?thesis unfolding eq by blast
    qed
  qed
qed simp

lemma tuple_batches_concat: "concat (tuple_batches n ts) = ts"
proof (induction n ts rule: tuple_batches.induct)
  case (1 n ts)
  then show ?case by (subst tuple_batches.simps) auto
qed

lemma tuple_batches_nonempty: "b \<in> set (tuple_batches n ts) \<Longrightarrow> b \<noteq> []"
proof (induction n ts rule: tuple_batches.induct)
  case (1 n ts)
  show ?case
  proof (cases "ts = []")
    case True
    then show ?thesis using 1 by (simp add: tuple_batches.simps [of n "[]"])
  next
    case False
    then have "b = take (max 1 n) ts \<or> b \<in> set (tuple_batches n (drop (max 1 n) ts))"
      using "1.prems" by (subst (asm) tuple_batches.simps) simp
    then show ?thesis using False "1.IH" by auto
  qed
qed

section \<open>What a batch returns\<close>

text \<open>A row of the target as the executor reads it, and its key.\<close>

definition read_row :: "scanned_row \<Rightarrow> row" where
  "read_row r = map_option finite_value \<circ> r"

definition target_key :: "('d, 'err) expansion \<Rightarrow> join_columns \<Rightarrow> scanned_row \<Rightarrow> string option" where
  "target_key x join r = rowJoinKey (xp_sprint x) (read_row r) (jc_target join) (jc_targetDecimal join)"

definition target_values :: "('d, 'err) expansion \<Rightarrow> join_columns \<Rightarrow> scanned_row \<Rightarrow> join_value list option" where
  "target_values x join r = join_values_of (xp_sprint x) (map (row_value (read_row r)) (jc_target join)) (jc_targetDecimal join)"

definition local_values :: "('d, 'err) expansion \<Rightarrow> join_columns \<Rightarrow> row \<Rightarrow> join_value list option" where
  "local_values x join r = join_values_of (xp_sprint x) (map (row_value r) (jc_local join)) (jc_localDecimal join)"

text \<open>The rows of the target with the values of a tuple of the batch, none of them NULL.\<close>

definition in_batch :: "('d, 'err) expansion \<Rightarrow> join_columns \<Rightarrow> val list list \<Rightarrow> scanned_row \<Rightarrow> bool" where
  "in_batch x join ts r \<longleftrightarrow>
     target_values x join r \<noteq> None \<and>
     (\<exists>t\<in>set ts. join_values_of (xp_sprint x) t (jc_localDecimal join) = target_values x join r)"

lemma kept_key:
  "rowJoinKey sprint (kept_of columns row) columns decimal = rowJoinKey sprint row columns decimal"
proof -
  have "map (row_value (kept_of columns row)) columns = map (row_value row) columns"
    by (intro map_cong) (auto simp: row_value_def kept_of_def split: option.splits)
  then show ?thesis by (simp only: rowJoinKey_def)
qed

lemma group_children_key:
  "group_children sprint join cs grouped k =
     grouped k @ map fst (filter (\<lambda>c. rowJoinKey sprint (snd c) (jc_target join) (jc_targetDecimal join) = Some k) cs)"
  by (induction sprint join cs grouped rule: group_children.induct) (auto split: option.splits)

lemma addSized_write: "addSized rows n s = (err, s') \<Longrightarrow> mt_write (fst s') = mt_write (fst s)"
  by (auto simp: addSized_def Let_def split: if_splits prod.splits bool.splits)

lemma query_rows_write: "query_rows x st (rs, fail) out s = (r, s') \<Longrightarrow> mt_write (fst s') = mt_write (fst s)"
proof (induction rs arbitrary: out s)
  case Nil
  then show ?case by (auto split: option.splits)
next
  case (Cons row rs)
  then show ?case
    by (auto simp: Let_def add_row_def split: if_splits prod.splits option.splits result_error.splits sum.splits dest: addSized_write)
qed

lemma query_write: "query x st s w = (r, s', w') \<Longrightarrow> mt_write (fst s') = mt_write (fst s)"
proof -
  assume q: "query x st s w = (r, s', w')"
  obtain e w1 where ad: "st_admitted x st w = (e, w1)" by fastforce
  obtain answer w2 where ans: "retryStalePlan x st w1 = (answer, w2)" by fastforce
  show ?thesis
  proof (cases "e = None \<and> (\<exists>rows. answer = Inr rows)")
    case True
    then obtain rows where rows: "e = None" "answer = Inr rows" by blast
    obtain rs fail where it: "IterNamed (st_columns st) rows = (rs, fail)" by fastforce
    obtain r1 s1 where r1: "query_rows x st (rs, fail) no_rows s = (r1, s1)" by (rule prod.exhaust)
    have "s' = s1" using q ad ans rows it r1 by (simp add: query_def split: prod.splits)
    then show ?thesis using query_rows_write [OF r1] by simp
  next
    case False
    then have "s' = s" using q ad ans by (auto simp: query_def split: prod.splits option.splits sum.splits)
    then show ?thesis by simp
  qed
qed

lemma run_sql_asks: "run_sql x st w = (answer, w') \<Longrightarrow> \<exists>d d'. xc_query x (st_sql st) (st_args st) d = (answer, d')"
  by (auto simp: run_sql_def split: prod.splits)

lemma retryStalePlan_asks:
  assumes "retryStalePlan x st w = (answer, w')"
  shows "\<exists>d d'. xc_query x (st_sql st) (st_args st) d = (answer, d')"
proof -
  obtain a w1 where r: "run_sql x st w = (a, w1)" by fastforce
  have "run_sql x st w = (answer, w') \<or> run_sql x st w1 = (answer, w')"
    using assms r by (auto simp: retryStalePlan_def split: sum.splits if_splits)
  then show ?thesis using run_sql_asks by blast
qed

lemma query_asks:
  assumes "query x st s w = (Inr q, s', w')" "\<not> st_write st"
  shows "\<exists>rows d d'. xc_query x (st_sql st) (st_args st) d = (Inr rows, d') \<and>
    query_rows x st (IterNamed (st_columns st) rows) no_rows s = (Inr q, s')"
proof -
  obtain e w1 where ad: "st_admitted x st w = (e, w1)" by fastforce
  obtain answer w2 where ans: "retryStalePlan x st w1 = (answer, w2)" by fastforce
  have e: "e = None" using assms(1) ad by (cases e) (simp_all add: query_def)
  obtain rows where rows: "answer = Inr rows"
    using assms ad ans e by (cases answer) (simp_all add: query_def settle_def)
  obtain rs fail where it: "IterNamed (st_columns st) rows = (rs, fail)" by fastforce
  obtain r1 s1 where r1: "query_rows x st (rs, fail) no_rows s = (r1, s1)" by (rule prod.exhaust)
  have "r1 = Inr q" "s1 = s'" using assms ad ans e rows it r1 by (simp_all add: query_def settle_def)
  then have "query_rows x st (IterNamed (st_columns st) rows) no_rows s = (Inr q, s')" using it r1 by simp
  then show ?thesis using retryStalePlan_asks [OF ans] unfolding rows by blast
qed

lemma query_reads_all:
  assumes "query x st s w = (Inr q, s', w')" "\<not> st_write st" "\<not> mt_write (fst s)" "st_keep st = Some keep"
  shows "\<exists>rows rs d d'. xc_query x (st_sql st) (st_args st) d = (Inr rows, d') \<and> IterNamed (st_columns st) rows = (rs, None) \<and>
    q_rows q = map (shown_row x st) rs \<and> q_kept q = map (\<lambda>r. kept_of keep (read_row r)) rs \<and>
    (0 < st_rowCap st \<longrightarrow> int (length rs) \<le> st_rowCap st)"
proof -
  obtain rows d d' where a: "xc_query x (st_sql st) (st_args st) d = (Inr rows, d')"
    "query_rows x st (IterNamed (st_columns st) rows) no_rows s = (Inr q, s')"
    using query_asks [OF assms(1,2)] by blast
  obtain rs fail where it: "IterNamed (st_columns st) rows = (rs, fail)" by fastforce
  obtain n where n: "read_so_far x st rs fail no_rows (fst s) n q (fst s')"
    using query_rows_reads [OF a(2) [unfolded it]] by blast
  have "n = length rs" using n assms(2,3) unfolding read_so_far_def by (metis le_neq_implies_less)
  then have "fail = None" "q_rows q = map (shown_row x st) rs" "q_kept q = concat (map (shown_kept st) rs)"
    "0 < st_rowCap st \<longrightarrow> int (length (q_rows q)) \<le> st_rowCap st"
    using n unfolding read_so_far_def by auto
  moreover have "concat (map (shown_kept st) rs) = map (\<lambda>r. kept_of keep (read_row r)) rs"
    by (induction rs) (simp_all add: shown_kept_def assms(4) read_row_def comp_def)
  ultimately show ?thesis using a(1) it by auto
qed


section \<open>What a database makes of a predicate\<close>

text \<open>
  The meaning of a predicate in SQL, in three values: NULL equals nothing, and a list holds a value when it equals one of
  its members. \<open>same f v w\<close> is whether the database takes the value \<open>v\<close> of the column \<open>f\<close> and the bound value \<open>w\<close>, neither
  NULL, to be equal; \<open>other\<close> is what it makes of the other comparisons.
\<close>

definition db_equal :: "(string \<Rightarrow> scanned_value \<Rightarrow> val \<Rightarrow> bool) \<Rightarrow> string \<Rightarrow> scanned_value option \<Rightarrow> val \<Rightarrow> tri" where
  "db_equal same f left w =
     (case left of
        None \<Rightarrow> triUnknown
      | Some v \<Rightarrow> if v = Scanned VNull \<or> w = VNull then triUnknown else boolTri (same f v w))"

definition db_condition ::
  "(string \<Rightarrow> scanned_value \<Rightarrow> val \<Rightarrow> bool) \<Rightarrow> (scanned_row \<Rightarrow> condition \<Rightarrow> tri) \<Rightarrow> scanned_row \<Rightarrow> condition \<Rightarrow> tri" where
  "db_condition same other r c =
     (let f = c_Field c; left = r f;
          member = (case c_Value c of VList ws \<Rightarrow> fold max (map (db_equal same f left) ws) triFalse | _ \<Rightarrow> other r c)
      in case c_Op c of
           OpEq \<Rightarrow> db_equal same f left (c_Value c)
         | OpNe \<Rightarrow> triNot (db_equal same f left (c_Value c))
         | OpIn \<Rightarrow> member
         | OpNotIn \<Rightarrow> triNot member
         | OpIsNull \<Rightarrow> boolTri (left = None \<or> left = Some (Scanned VNull))
         | OpIsNotNull \<Rightarrow> boolTri (left \<noteq> None \<and> left \<noteq> Some (Scanned VNull))
         | _ \<Rightarrow> other r c)"

definition db_holds ::
  "(string \<Rightarrow> scanned_value \<Rightarrow> val \<Rightarrow> bool) \<Rightarrow> (scanned_row \<Rightarrow> condition \<Rightarrow> tri) \<Rightarrow> predicate \<Rightarrow> scanned_row \<Rightarrow> bool" where
  "db_holds same other p r \<longleftrightarrow> kleene (db_condition same other r) p = triTrue"

text \<open>The database compares the columns of a join as values: numbers by value, text by its characters.\<close>

abbreviation decimal_at :: "bool list \<Rightarrow> nat \<Rightarrow> bool" where
  "decimal_at ds i \<equiv> i < length ds \<and> ds ! i"

definition same_values :: "('d, 'err) expansion \<Rightarrow> join_columns \<Rightarrow> (string \<Rightarrow> scanned_value \<Rightarrow> val \<Rightarrow> bool) \<Rightarrow> bool" where
  "same_values x join same \<longleftrightarrow>
     (\<forall>i v w. i < length (jc_target join) \<longrightarrow> v \<noteq> Scanned VNull \<longrightarrow> w \<noteq> VNull \<longrightarrow>
        same (jc_target join ! i) v w =
          (join_value_of (xp_sprint x) (finite_value v) (decimal_at (jc_targetDecimal join) i) =
           join_value_of (xp_sprint x) w (decimal_at (jc_localDecimal join) i)))"

lemma fold_max_True: "fold max xs a = triTrue \<longleftrightarrow> a = triTrue \<or> triTrue \<in> set xs"
proof (induction xs arbitrary: a)
  case (Cons y xs)
  have "max y a = triTrue \<longleftrightarrow> a = triTrue \<or> y = triTrue" by (cases a; cases y) (auto simp: max_def less_eq_tri_def)
  then show ?case using Cons by auto
qed simp

lemma fold_max_map: "fold max (map g ts) triFalse = triTrue \<longleftrightarrow> (\<exists>t\<in>set ts. g t = triTrue)"
  using fold_max_True [of "map g ts" triFalse] by (force simp: image_iff)

lemma fold_min_True: "fold min xs a = triTrue \<longleftrightarrow> a = triTrue \<and> set xs \<subseteq> {triTrue}"
proof (induction xs arbitrary: a)
  case (Cons y xs)
  have "min y a = triTrue \<longleftrightarrow> a = triTrue \<and> y = triTrue" by (cases a; cases y) (auto simp: min_def less_eq_tri_def)
  then show ?case using Cons by auto
qed simp

lemma join_value_of_None: "join_value_of sprint v d = None \<longleftrightarrow> v = VNull"
  by (cases v) (simp_all add: join_value_of_def)

lemma finite_value_VNull: "finite_value v = VNull \<longleftrightarrow> v = Scanned VNull"
  by (cases v) (simp_all add: finite_value_def)

lemma join_values_same:
  "length vs = length ws \<Longrightarrow>
   join_values_of sprint vs ds \<noteq> None \<and> join_values_of sprint ws es = join_values_of sprint vs ds \<longleftrightarrow>
   (\<forall>i<length vs. vs ! i \<noteq> VNull \<and>
      join_value_of sprint (vs ! i) (decimal_at ds i) = join_value_of sprint (ws ! i) (decimal_at es i))"
proof (induction vs ws arbitrary: ds es rule: list_induct2)
  case (Cons v vs w ws)
  let ?P = "\<lambda>vs ws ds es i. vs ! i \<noteq> VNull \<and>
      join_value_of sprint (vs ! i) (decimal_at ds i) = join_value_of sprint (ws ! i) (decimal_at es i)"
  have d: "decimal_at ds (Suc i) = decimal_at (tl ds) i" "(ds \<noteq> [] \<and> hd ds) = decimal_at ds 0" for ds i
    by (cases ds; simp)+
  have "(\<forall>i<length (v # vs). ?P (v # vs) (w # ws) ds es i) \<longleftrightarrow>
      ?P (v # vs) (w # ws) ds es 0 \<and> (\<forall>i<length vs. ?P vs ws (tl ds) (tl es) i)"
    unfolding d(1) [symmetric] by (simp add: All_less_Suc2)
  also have "\<dots> \<longleftrightarrow> ?P (v # vs) (w # ws) ds es 0 \<and> join_values_of sprint vs (tl ds) \<noteq> None \<and>
      join_values_of sprint ws (tl es) = join_values_of sprint vs (tl ds)"
    using Cons.IH [of "tl ds" "tl es"] by simp
  also have "\<dots> \<longleftrightarrow> join_values_of sprint (v # vs) ds \<noteq> None \<and> join_values_of sprint (w # ws) es = join_values_of sprint (v # vs) ds"
    unfolding join_values_of.simps d(2)
    using join_value_of_None [of sprint v "decimal_at ds 0"] join_value_of_None [of sprint w "decimal_at es 0"]
    by (auto split: option.splits)
  finally show ?case by simp
qed simp

lemma db_equal_values:
  assumes "same_values x join same" "i < length (jc_target join)"
  shows "db_equal same (jc_target join ! i) (r (jc_target join ! i)) w = triTrue \<longleftrightarrow>
    row_value (read_row r) (jc_target join ! i) \<noteq> VNull \<and>
    join_value_of (xp_sprint x) (row_value (read_row r) (jc_target join ! i)) (decimal_at (jc_targetDecimal join) i) =
    join_value_of (xp_sprint x) w (decimal_at (jc_localDecimal join) i)"
proof (cases "r (jc_target join ! i)")
  case None
  then show ?thesis by (simp add: db_equal_def row_value_def read_row_def)
next
  case (Some v)
  have rv: "row_value (read_row r) (jc_target join ! i) = finite_value v" using Some by (simp add: row_value_def read_row_def)
  show ?thesis
  proof (cases "v = Scanned VNull \<or> w = VNull")
    case True
    then have "join_value_of (xp_sprint x) (finite_value v) d \<noteq> join_value_of (xp_sprint x) w e \<or> finite_value v = VNull" for d e
      using finite_value_VNull [of v] join_value_of_None [of "xp_sprint x" w e] join_value_of_None [of "xp_sprint x" "finite_value v" d]
      by metis
    then show ?thesis using Some True rv by (auto simp: db_equal_def)
  next
    case False
    then show ?thesis
      using assms Some rv finite_value_VNull [of v] by (simp add: db_equal_def same_values_def boolTri_def)
  qed
qed

text \<open>The predicate of a batch holds of exactly the rows with the values of one of its tuples.\<close>

lemma joinPredicate_holds:
  assumes sv: "same_values x join same" and len: "\<forall>t\<in>set ts. length t = length (jc_target join)"
  shows "db_holds same other (joinPredicate (jc_target join) ts) r \<longleftrightarrow> in_batch x join ts r"
proof -
  let ?cols = "jc_target join" and ?n = "length (jc_target join)"
  let ?eq = "\<lambda>t. \<forall>i<?n. db_equal same (?cols ! i) (r (?cols ! i)) (t ! i) = triTrue"
  have batch: "in_batch x join ts r \<longleftrightarrow> (\<exists>t\<in>set ts. ?eq t)"
  proof -
    have "target_values x join r \<noteq> None \<and> join_values_of (xp_sprint x) t (jc_localDecimal join) = target_values x join r \<longleftrightarrow> ?eq t"
      if t: "t \<in> set ts" for t
    proof -
      have l: "length (map (row_value (read_row r)) ?cols) = length t" using len t by simp
      show ?thesis
        unfolding target_values_def join_values_same [OF l] by (auto simp: db_equal_values [OF sv])
    qed
    then show ?thesis unfolding in_batch_def by blast
  qed
  show ?thesis
  proof (cases "?n = 1")
    case True
    then obtain c where c: "?cols = [c]" by (auto simp: length_Suc_conv)
    have "db_holds same other (joinPredicate ?cols ts) r \<longleftrightarrow> (\<exists>t\<in>set ts. db_equal same c (r c) (hd t) = triTrue)"
      using fold_max_map [of "\<lambda>t. db_equal same c (r c) (hd t)" ts]
      by (simp add: joinPredicate_def db_holds_def db_condition_def c comp_def)
    also have "\<dots> \<longleftrightarrow> (\<exists>t\<in>set ts. ?eq t)"
      using len by (intro bex_cong refl) (auto simp: c length_Suc_conv)
    finally show ?thesis using batch by simp
  next
    case False
    let ?and = "\<lambda>t. And (map (\<lambda>(c, v). Condition \<lparr>c_Field = c, c_Op = OpEq, c_Value = v\<rparr>) (zip ?cols t))"
    have k: "kleene (db_condition same other r) (?and t) = triTrue \<longleftrightarrow> ?eq t" if "t \<in> set ts" for t
    proof -
      have "length t = ?n" using len that by blast
      then show ?thesis
        by (auto simp: fold_min_True db_condition_def set_zip image_subset_iff)
    qed
    have "db_holds same other (joinPredicate ?cols ts) r \<longleftrightarrow> (\<exists>t\<in>set ts. kleene (db_condition same other r) (?and t) = triTrue)"
    proof (cases "\<exists>t. ts = [t]")
      case True
      then show ?thesis using False by (auto simp: joinPredicate_def db_holds_def)
    next
      case F: False
      then have "joinPredicate ?cols ts = Or (map ?and ts)"
        using False by (cases ts rule: list.exhaust; cases "tl ts") (auto simp: joinPredicate_def Let_def)
      then show ?thesis
        using fold_max_map [of "\<lambda>t. kleene (db_condition same other r) (?and t)" ts] by (simp add: db_holds_def comp_def)
    qed
    then show ?thesis using batch k by simp
  qed
qed

section \<open>Grouping\<close>

text \<open>
  What an expansion asks of its queries. The statement of a batch reads rows of the target, whose attributes are
  \<open>attrs\<close>. The database returns the rows of \<open>table\<close>, those of the target the caller's row filter admits, of which the
  predicate of the batch holds, in some order, bounded as the statement says: at one row past the limit or, where the
  gate bounded it shorter, not below the limit.
\<close>

definition batch_statement :: "attribute list \<Rightarrow> statement \<Rightarrow> bool" where
  "batch_statement attrs st \<longleftrightarrow> st_attributes st = attrs \<and> st_fields st = None \<and> st_columns st = None \<and> \<not> st_write st"

definition bounded_answer :: "int \<Rightarrow> bool \<Rightarrow> scanned_row list \<Rightarrow> scanned_row list \<Rightarrow> bool" where
  "bounded_answer maxRows shorter perm rs \<longleftrightarrow>
     (if shorter then \<exists>l. int l \<ge> maxRows \<and> 0 < maxRows \<and> rs = take l perm
      else if 0 < maxRows then rs = take (nat maxRows + 1) perm
      else rs = perm)"

definition answers_batches ::
  "('d, 'err) expansion \<Rightarrow> join_columns \<Rightarrow> attribute list \<Rightarrow> (predicate \<Rightarrow> scanned_row \<Rightarrow> bool) \<Rightarrow> scanned_row list \<Rightarrow> bool" where
  "answers_batches x join attrs holds table \<longleftrightarrow>
     (\<forall>ts p st shorter rows rs d d'. ts \<noteq> [] \<longrightarrow> (\<forall>t\<in>set ts. length t = length (jc_target join)) \<longrightarrow>
        p = joinPredicate (jc_target join) ts \<longrightarrow> xp_plan x p = Inr (st, shorter) \<longrightarrow>
        batch_statement attrs st \<and>
        (xc_query (xp_executor x) (st_sql st) (st_args st) d = (Inr rows, d') \<longrightarrow> IterNamed None rows = (rs, None) \<longrightarrow>
           (\<exists>perm. mset perm = mset (filter (holds p) table) \<and> bounded_answer (xp_maxRows x) shorter perm rs)))"

definition target_row :: "('d, 'err) expansion \<Rightarrow> attribute list \<Rightarrow> scanned_row \<Rightarrow> row" where
  "target_row x attrs r =
     shown_row (xp_executor x) \<lparr>st_allowed = True, st_sql = [], st_args = [], st_transaction = [], st_attributes = attrs,
       st_fields = None, st_keep = None, st_columns = None, st_rowCap = 0, st_write = False\<rparr> r"

lemma shown_target_row: "batch_statement attrs st \<Longrightarrow> shown_row (xp_executor x) st r = target_row x attrs r"
  by (cases "xc_masker (xp_executor x)")
    (simp_all add: batch_statement_def target_row_def shown_row_def present_def st_maskRules_def Let_def)

lemma bounded_complete:
  assumes "bounded_answer maxRows shorter perm rs" "0 < maxRows \<longrightarrow> int (length rs) \<le> maxRows"
    and "\<not> (shorter \<and> 0 < maxRows \<and> maxRows \<le> int (length rs))"
  shows "rs = perm"
proof (cases shorter)
  case True
  then obtain l where "int l \<ge> maxRows" "0 < maxRows" "rs = take l perm" using assms(1) by (auto simp: bounded_answer_def)
  moreover have "length rs < l" using calculation assms(3) True by linarith
  ultimately show ?thesis by simp
next
  case False
  then show ?thesis using assms(1,2) by (auto simp: bounded_answer_def split: if_splits)
qed

lemma expand_batches_groups:
  assumes "answers_batches x join attrs (db_holds same other) table" "same_values x join same"
  shows "expand_batches x join bs grouped s = (Inr grouped', s') \<Longrightarrow> \<not> mt_write (fst (fst s)) \<Longrightarrow>
    \<forall>ts\<in>set bs. ts \<noteq> [] \<and> (\<forall>t\<in>set ts. length t = length (jc_target join)) \<Longrightarrow>
    \<exists>rss. list_all2 (\<lambda>ts rs. mset rs = mset (filter (in_batch x join ts) table)) bs rss \<and>
      (\<forall>k. grouped' k = grouped k @ map (target_row x attrs) (filter (\<lambda>r. target_key x join r = Some k) (concat rss)))"
proof (induction bs arbitrary: grouped s)
  case Nil
  then show ?case by simp
next
  case (Cons ts bs)
  let ?p = "joinPredicate (jc_target join) ts" and ?fin = "\<lambda>r. kept_of (jc_target join) (read_row r)"
  obtain st0 shorter where plan: "xp_plan x ?p = Inr (st0, shorter)"
    and comp: "compileExpandBatch x join ts = Inr (st0\<lparr>st_keep := Some (jc_target join), st_rowCap := xp_maxRows x\<rparr>, shorter)"
    using Cons.prems(1) by (cases "xp_plan x ?p") (auto simp: compileExpandBatch_def)
  let ?st = "st0\<lparr>st_keep := Some (jc_target join), st_rowCap := xp_maxRows x\<rparr>"
  obtain q s1 where q: "query (xp_executor x) ?st (fst s) (snd s) = (Inr q, s1)"
    and cap: "\<not> (shorter \<and> 0 < xp_maxRows x \<and> xp_maxRows x \<le> int (length (q_rows q)))"
    and rest: "expand_batches x join bs (group_children (xp_sprint x) join (zip (q_rows q) (q_kept q)) grouped) s1 = (Inr grouped', s')"
    using Cons.prems(1) comp by (auto split: prod.splits sum.splits if_splits)
  have ts: "ts \<noteq> []" "\<forall>t\<in>set ts. length t = length (jc_target join)" using Cons.prems(3) by simp_all
  have a: "batch_statement attrs st0 \<and> (\<forall>rows rs d d'. xc_query (xp_executor x) (st_sql st0) (st_args st0) d = (Inr rows, d') \<longrightarrow>
      IterNamed None rows = (rs, None) \<longrightarrow>
      (\<exists>perm. mset perm = mset (filter (db_holds same other ?p) table) \<and> bounded_answer (xp_maxRows x) shorter perm rs))"
    using assms(1) ts plan unfolding answers_batches_def by blast
  have st: "batch_statement attrs ?st" using a by (simp add: batch_statement_def)
  have q': "query (xp_executor x) ?st (fst s) (snd s) = (Inr q, fst s1, snd s1)" using q by simp
  obtain rows rs d d' where rs: "xc_query (xp_executor x) (st_sql st0) (st_args st0) d = (Inr rows, d')"
    "IterNamed None rows = (rs, None)" "q_rows q = map (target_row x attrs) rs" "q_kept q = map ?fin rs"
    "0 < xp_maxRows x \<longrightarrow> int (length rs) \<le> xp_maxRows x"
    using query_reads_all [OF q' _ Cons.prems(2), of "jc_target join"] st
    by (auto simp: shown_target_row [OF st] batch_statement_def)
  obtain perm where perm: "mset perm = mset (filter (db_holds same other ?p) table)" "bounded_answer (xp_maxRows x) shorter perm rs"
    using a rs(1,2) by blast
  have "filter (db_holds same other ?p) table = filter (in_batch x join ts) table"
    by (rule filter_cong [OF refl]) (rule joinPredicate_holds [OF assms(2) ts(2)])
  then have m: "mset rs = mset (filter (in_batch x join ts) table)"
    using bounded_complete [OF perm(2) rs(5)] rs(3) cap perm(1) by simp
  have g: "group_children (xp_sprint x) join (zip (q_rows q) (q_kept q)) grouped k =
      grouped k @ map (target_row x attrs) (filter (\<lambda>r. target_key x join r = Some k) rs)" for k
    unfolding rs(3,4) group_children_key zip_map_map zip_same_conv_map
    by (simp add: filter_map comp_def kept_key target_key_def)
  have "\<not> mt_write (fst (fst s1))" using query_write [OF q'] Cons.prems(2) by simp
  then obtain rss where rss: "list_all2 (\<lambda>ts rs. mset rs = mset (filter (in_batch x join ts) table)) bs rss"
    "\<forall>k. grouped' k = group_children (xp_sprint x) join (zip (q_rows q) (q_kept q)) grouped k @
      map (target_row x attrs) (filter (\<lambda>r. target_key x join r = Some k) (concat rss))"
    using Cons.IH [OF rest] Cons.prems(3) by auto
  show ?case using rss m by (intro exI [of _ "rs # rss"]) (simp add: g)
qed


lemma in_batch_key:
  assumes "prints_types (xp_sprint x)" "\<forall>t\<in>set ts. length t = length (jc_target join)"
  shows "in_batch x join ts r \<longleftrightarrow>
    target_key x join r \<noteq> None \<and> target_key x join r \<in> tuple_key (xp_sprint x) (jc_localDecimal join) ` set ts"
proof -
  have tk: "target_values x join r = None \<longleftrightarrow> target_key x join r = None"
    by (simp add: target_values_def target_key_def rowJoinKey_def joinKeyOf_defined)
  have same: "(join_values_of (xp_sprint x) t (jc_localDecimal join) = target_values x join r) \<longleftrightarrow>
      (target_key x join r = tuple_key (xp_sprint x) (jc_localDecimal join) t)"
    if t: "t \<in> set ts" and tv: "target_values x join r \<noteq> None" for t
  proof (cases "tuple_key (xp_sprint x) (jc_localDecimal join) t")
    case None
    then have "join_values_of (xp_sprint x) t (jc_localDecimal join) = None" by (simp only: joinKeyOf_defined)
    moreover have "target_key x join r \<noteq> None" using tv tk by simp
    ultimately show ?thesis using None tv by auto
  next
    case (Some k)
    obtain l where l: "target_key x join r = Some l" using tv tk by auto
    have "k = l \<longleftrightarrow> join_values_of (xp_sprint x) t (jc_localDecimal join) = target_values x join r"
      unfolding target_values_def
      by (rule joinKeyOf_same [OF assms(1) _ Some]) (use assms(2) t l in \<open>simp_all add: target_key_def rowJoinKey_def\<close>)
    then show ?thesis using Some l by auto
  qed
  show ?thesis
  proof (cases "target_values x join r = None")
    case True
    then show ?thesis using tk by (simp add: in_batch_def)
  next
    case False
    then show ?thesis using tk same unfolding in_batch_def by (auto simp: image_iff)
  qed
qed

text \<open>The rows with one key come from the one batch that has it.\<close>

lemma batches_with_key:
  assumes "prints_types (xp_sprint x)"
  shows "list_all2 (\<lambda>ts rs. mset rs = mset (filter (in_batch x join ts) table)) bs rss \<Longrightarrow>
    \<forall>ts\<in>set bs. \<forall>t\<in>set ts. length t = length (jc_target join) \<Longrightarrow>
    distinct (map (tuple_key (xp_sprint x) (jc_localDecimal join)) (concat bs)) \<Longrightarrow>
    mset (filter (\<lambda>r. target_key x join r = Some k) (concat rss)) =
      (if Some k \<in> tuple_key (xp_sprint x) (jc_localDecimal join) ` set (concat bs)
       then mset (filter (\<lambda>r. target_key x join r = Some k) table) else {#})"
proof (induction bs rss rule: list_all2_induct)
  case (Cons ts bs rs rss)
  let ?key = "tuple_key (xp_sprint x) (jc_localDecimal join)" and ?P = "\<lambda>r. target_key x join r = Some k"
  have len: "\<forall>t\<in>set ts. length t = length (jc_target join)" using Cons.prems(1) by simp
  have "mset (filter ?P rs) = filter_mset ?P (mset (filter (in_batch x join ts) table))"
    using Cons.hyps(1) by (simp add: mset_filter)
  also have "\<dots> = mset (filter (\<lambda>r. in_batch x join ts r \<and> ?P r) table)"
    by (simp add: filter_filter_mset conj_commute)
  also have "filter (\<lambda>r. in_batch x join ts r \<and> ?P r) table = (if Some k \<in> ?key ` set ts then filter ?P table else [])"
    by (auto simp: in_batch_key [OF assms len] filter_empty_conv intro!: filter_cong)
  finally have rs: "mset (filter ?P rs) = (if Some k \<in> ?key ` set ts then mset (filter ?P table) else {#})" by simp
  have ih: "mset (filter ?P (concat rss)) = (if Some k \<in> ?key ` set (concat bs) then mset (filter ?P table) else {#})"
    using Cons.prems by (intro Cons.IH) auto
  have "\<not> (Some k \<in> ?key ` set ts \<and> Some k \<in> ?key ` set (concat bs))"
    using Cons.prems(2) by (auto simp: image_iff)
  then show ?case using rs ih by (auto simp: image_Un)
qed simp

definition expand_join :: "entity \<Rightarrow> entity \<Rightarrow> relationship \<Rightarrow> join_columns" where
  "expand_join parent target relation =
     (relationJoin relation)\<lparr>jc_localDecimal := decimalColumns parent (jc_local (relationJoin relation)),
        jc_targetDecimal := decimalColumns target (jc_target (relationJoin relation))\<rparr>"

text \<open>The rows of the target with the join values of a row read, none of them NULL.\<close>

definition related_rows :: "('d, 'err) expansion \<Rightarrow> join_columns \<Rightarrow> scanned_row list \<Rightarrow> row \<Rightarrow> scanned_row list" where
  "related_rows x join table kept =
     filter (\<lambda>r. target_values x join r \<noteq> None \<and> local_values x join kept = target_values x join r) table"

lemma related_rows_key:
  assumes "prints_types (xp_sprint x)" "length (jc_local join) = length (jc_target join)"
  shows "related_rows x join table kept =
    (case rowJoinKey (xp_sprint x) kept (jc_local join) (jc_localDecimal join) of
       None \<Rightarrow> [] | Some k \<Rightarrow> filter (\<lambda>r. target_key x join r = Some k) table)"
proof -
  let ?ts = "[map (row_value kept) (jc_local join)]"
  have "related_rows x join table kept = filter (in_batch x join ?ts) table"
    unfolding related_rows_def in_batch_def local_values_def by (rule filter_cong) auto
  moreover have "in_batch x join ?ts r \<longleftrightarrow> target_key x join r \<noteq> None \<and>
      target_key x join r = rowJoinKey (xp_sprint x) kept (jc_local join) (jc_localDecimal join)" for r
    using in_batch_key [OF assms(1), of ?ts join r] assms(2) by (simp add: rowJoinKey_def)
  ultimately have "related_rows x join table kept = filter (\<lambda>r. target_key x join r \<noteq> None \<and>
      target_key x join r = rowJoinKey (xp_sprint x) kept (jc_local join) (jc_localDecimal join)) table" by presburger
  then show ?thesis
    by (cases "rowJoinKey (xp_sprint x) kept (jc_local join) (jc_localDecimal join)") (auto simp: filter_empty_conv intro!: filter_cong)
qed

text \<open>
  C38: an expansion is the join it stands for. Whatever the number of batches, each row is given all the rows of the
  target whose join columns hold the same values, numbers compared by value and text by its characters, NULL matching
  nothing, each once; a relationship naming one row gives one of them, or NULL where there is none. Where a row limit
  could have cut a batch short the expansion fails instead. It rests on a database that answers the statement of a
  batch with the rows its predicate holds of, in the meaning SQL gives it, and compares the join's columns by value.
\<close>

theorem expand_complete:
  assumes "prints_types (xp_sprint x)"
    and "answers_batches x (expand_join parent target relation) (e_Attributes target) (db_holds same other) table"
    and "expandOneRelationship x parent target relation rows kept s = (Inr out, s')"
    and "length kept = length rows" "\<not> mt_write (fst (fst s))" "i < length rows"
    and "same_values x (expand_join parent target relation) same"
  shows "length out = length rows \<and> (\<exists>children.
    mset children = mset (map (target_row x (e_Attributes target))
      (related_rows x (expand_join parent target relation) table (kept ! i))) \<and>
    out ! i = (rows ! i)(rl_Name relation \<mapsto>
      (if Single relation then (case children of c # _ \<Rightarrow> Child c | [] \<Rightarrow> Cell VNull) else Children children)))"
proof -
  let ?j = "expand_join parent target relation" and ?T = "target_row x (e_Attributes target)"
  let ?key = "tuple_key (xp_sprint x) (jc_localDecimal ?j)"
  let ?ts = "uniqueJoinTuples (xp_sprint x) kept (jc_local ?j) (jc_localDecimal ?j)"
  let ?attach = "\<lambda>g. attachExpandedChildren (xp_sprint x) (rl_Name relation) ?j relation g rows kept"
  have len: "length (jc_local ?j) = length (jc_target ?j)" by (simp add: expand_join_def relationJoin_def Let_def)
  note u = unique_tuples_keys [of "xp_sprint x" "jc_localDecimal ?j" "jc_local ?j" kept "{}", folded uniqueJoinTuples_def]
  have run: "(if ?ts = [] then (Inr (?attach (\<lambda>_. [])), s)
      else case queryExpandedChildren x ?j ?ts s of (Inl err, s') \<Rightarrow> (Inl err, s') | (Inr g, s') \<Rightarrow> (Inr (?attach g), s')) = (Inr out, s')"
    using assms(3) unfolding expandOneRelationship_def Let_def expand_join_def .
  obtain g where out: "out = ?attach g" and g: "?ts = [] \<or> (\<exists>s1. queryExpandedChildren x ?j ?ts s = (Inr g, s1))"
  proof (cases "?ts = []")
    case True
    then show ?thesis using run that [of "\<lambda>_. []"] by simp
  next
    case False
    then show ?thesis using run that by (cases "queryExpandedChildren x ?j ?ts s") (auto split: sum.splits)
  qed
  have grouped: "mset (g k) = mset (map ?T (filter (\<lambda>r. target_key x ?j r = Some k) table))" if k: "Some k \<in> ?key ` set ?ts" for k
  proof -
    obtain n s1 where run: "expand_batches x ?j (tuple_batches n ?ts) (\<lambda>_. []) s = (Inr g, s1)"
      using g k by (auto simp: queryExpandedChildren_def)
    have sub: "\<forall>ts\<in>set (tuple_batches n ?ts). ts \<noteq> [] \<and> (\<forall>t\<in>set ts. length t = length (jc_target ?j))"
    proof (intro ballI conjI)
      fix ts assume ts: "ts \<in> set (tuple_batches n ?ts)"
      then have "set ts \<subseteq> set (concat (tuple_batches n ?ts))" by auto
      then have "set ts \<subseteq> set ?ts" unfolding tuple_batches_concat .
      then show "length t = length (jc_target ?j)" if "t \<in> set ts" for t using that u len by auto
      show "ts \<noteq> []" by (rule tuple_batches_nonempty [OF ts])
    qed
    obtain rss where rss: "list_all2 (\<lambda>ts rs. mset rs = mset (filter (in_batch x ?j ts) table)) (tuple_batches n ?ts) rss"
      and all: "\<forall>k. g k = [] @ map ?T (filter (\<lambda>r. target_key x ?j r = Some k) (concat rss))"
      using expand_batches_groups [OF assms(2,7) run assms(5) sub] by (elim exE conjE)
    have gk: "g k = map ?T (filter (\<lambda>r. target_key x ?j r = Some k) (concat rss))" using all by simp
    have "mset (filter (\<lambda>r. target_key x ?j r = Some k) (concat rss)) = mset (filter (\<lambda>r. target_key x ?j r = Some k) table)"
      using batches_with_key [OF assms(1) rss, of k] sub u k by (simp add: tuple_batches_concat)
    then show ?thesis unfolding gk mset_map by simp
  qed
  define children where "children =
    (case rowJoinKey (xp_sprint x) (kept ! i) (jc_local ?j) (jc_localDecimal ?j) of Some key \<Rightarrow> g key | None \<Rightarrow> [])"
  have "mset children = mset (map ?T (related_rows x ?j table (kept ! i)))"
  proof (cases "rowJoinKey (xp_sprint x) (kept ! i) (jc_local ?j) (jc_localDecimal ?j)")
    case None
    then show ?thesis by (simp add: children_def related_rows_key [OF assms(1) len])
  next
    case (Some k)
    have "kept ! i \<in> set kept" using assms(4,6) by simp
    then have "Some k \<in> ?key ` set ?ts" using u Some by blast
    with Some show ?thesis by (simp add: children_def related_rows_key [OF assms(1) len] grouped)
  qed
  moreover have "out ! i = (rows ! i)(rl_Name relation \<mapsto>
      (if Single relation then (case children of c # _ \<Rightarrow> Child c | [] \<Rightarrow> Cell VNull) else Children children))"
    using assms(4,6) by (simp add: out attachExpandedChildren_def attach_children_def children_def Let_def)
  moreover have "length out = length rows" using assms(4) by (simp add: out attachExpandedChildren_def)
  ultimately show ?thesis by blast
qed


text \<open>The witness: one order expanded by its items, of which there are two and one is another order's.\<close>

definition ex_items :: relationship where
  "ex_items = \<lparr>rl_Name = ''items'', rl_Target = ''item'', rl_Cardinality = ''many'', rl_JoinOn = [(''id'', ''order_id'')]\<rparr>"

definition ex_item_rows :: "scanned_row list" where
  "ex_item_rows = [[''order_id'' \<mapsto> Scanned (VInt 1), ''n'' \<mapsto> Scanned (VInt 7)], [''order_id'' \<mapsto> Scanned (VInt 2), ''n'' \<mapsto> Scanned (VInt 8)]]"

text \<open>A database that holds the rows, and is sent the values of the list as the arguments of the statement.\<close>

definition ex_same :: "string \<Rightarrow> scanned_value \<Rightarrow> val \<Rightarrow> bool" where
  "ex_same f v w \<longleftrightarrow> join_value_of (\<lambda>_. (''bool'', [])) (finite_value v) False = join_value_of (\<lambda>_. (''bool'', [])) w False"

definition ex_other :: "scanned_row \<Rightarrow> condition \<Rightarrow> tri" where
  "ex_other r c = triUnknown"

definition ex_query :: "val list \<Rightarrow> unit db_rows" where
  "ex_query args = \<lparr>cu_columns = Inr [''order_id'', ''n''],
     cu_rows = map (\<lambda>r. [the (r ''order_id''), the (r ''n'')])
       (filter (\<lambda>r. \<exists>w\<in>set args. db_equal ex_same ''order_id'' (r ''order_id'') w = triTrue) ex_item_rows), cu_err = None\<rparr>"

definition ex_expansion :: "(unit, unit) expansion" where
  "ex_expansion = \<lparr>xp_sprint = (\<lambda>_. (''bool'', [])),
     xp_executor = \<lparr>xc_masker = None, xc_encodedSize = (\<lambda>_. Some 20), xc_query = (\<lambda>_ args d. (Inr (ex_query args), d)),
       xc_stale = (\<lambda>_. False), xc_afterWrite = (\<lambda>d. (None, d))\<rparr>,
     xp_plan = (\<lambda>p. Inr (\<lparr>st_allowed = True, st_sql = ''SELECT'',
        st_args = (case p of Condition c \<Rightarrow> (case c_Value c of VList vs \<Rightarrow> vs | _ \<Rightarrow> []) | _ \<Rightarrow> []), st_transaction = [],
        st_attributes = [], st_fields = None, st_keep = None, st_columns = None, st_rowCap = 0, st_write = False\<rparr>, False)),
     xp_maxRows = 0, xp_maxIN = 0\<rparr>"

lemma ex_items_join:
  "expand_join zero_entity zero_entity ex_items =
     \<lparr>jc_local = [''id''], jc_target = [''order_id''], jc_localDecimal = [False], jc_targetDecimal = [False]\<rparr>"
  by (simp add: expand_join_def relationJoin_def ex_items_def decimalColumns_def zero_entity_def AttributeByName_def Let_def)

lemma ex_same_values: "same_values ex_expansion (expand_join zero_entity zero_entity ex_items) ex_same"
  by (simp add: same_values_def ex_items_join ex_same_def ex_expansion_def)

lemma ex_row_named:
  "r \<in> set ex_item_rows \<Longrightarrow> iter_row [''order_id'', ''n''] [the (r ''order_id''), the (r ''n'')] = r"
  by (auto simp: ex_item_rows_def iter_row_def fun_eq_iff)

lemma ex_query_rows:
  "IterNamed None (ex_query args) =
     (filter (\<lambda>r. \<exists>w\<in>set args. db_equal ex_same ''order_id'' (r ''order_id'') w = triTrue) ex_item_rows, None)"
proof -
  have "map (iter_row [''order_id'', ''n''] \<circ> (\<lambda>r. [the (r ''order_id''), the (r ''n'')])) (filter P ex_item_rows) = filter P ex_item_rows" for P
    by (rule map_idI) (use ex_row_named in auto)
  then show ?thesis by (simp add: IterNamed_def ex_query_def)
qed

lemma ex_expansion_answers:
  "answers_batches ex_expansion (expand_join zero_entity zero_entity ex_items) (e_Attributes zero_entity)
     (db_holds ex_same ex_other) ex_item_rows"
  unfolding answers_batches_def ex_items_join
proof (intro allI impI)
  fix ts p st shorter rows rs d d'
  assume len: "\<forall>t\<in>set ts. length t = length (jc_target \<lparr>jc_local = [''id''], jc_target = [''order_id''],
        jc_localDecimal = [False], jc_targetDecimal = [False]\<rparr>)"
    and p: "p = joinPredicate (jc_target \<lparr>jc_local = [''id''], jc_target = [''order_id''], jc_localDecimal = [False],
        jc_targetDecimal = [False]\<rparr>) ts"
    and plan: "xp_plan ex_expansion p = Inr (st, shorter)"
  have st: "st_args st = map hd ts" "shorter = False" "batch_statement (e_Attributes zero_entity) st"
    using plan by (auto simp: ex_expansion_def p joinPredicate_def batch_statement_def zero_entity_def)
  have "db_holds ex_same ex_other p r \<longleftrightarrow> (\<exists>w\<in>set (map hd ts). db_equal ex_same ''order_id'' (r ''order_id'') w = triTrue)" for r
    using fold_max_map [of "\<lambda>t. db_equal ex_same ''order_id'' (r ''order_id'') (hd t)" ts]
    by (simp add: p joinPredicate_def db_holds_def db_condition_def Let_def comp_def)
  then show "batch_statement (e_Attributes zero_entity) st \<and>
      (xc_query (xp_executor ex_expansion) (st_sql st) (st_args st) d = (Inr rows, d') \<longrightarrow> IterNamed None rows = (rs, None) \<longrightarrow>
        (\<exists>perm. mset perm = mset (filter (db_holds ex_same ex_other p) ex_item_rows) \<and>
          bounded_answer (xp_maxRows ex_expansion) shorter perm rs))"
    using st ex_query_rows [of "map hd ts"] by (auto simp: ex_expansion_def bounded_answer_def)
qed

lemma ex_target_values:
  "r ''order_id'' = Some (Scanned (VInt n)) \<Longrightarrow>
   target_values ex_expansion (expand_join zero_entity zero_entity ex_items) r = Some [JNumber (of_int n)]"
  by (simp add: target_values_def ex_items_join read_row_def row_value_def finite_value_def join_value_of_def)

definition ex_call :: "(unit, unit) call_state" where
  "ex_call = ((meterCall 0 0 0 True, None), \<lparr>w_state = (), w_trace = []\<rparr>)"

lemma ex_expansion_runs:
  "\<exists>out s'. expandOneRelationship ex_expansion zero_entity zero_entity ex_items [Map.empty] [[''id'' \<mapsto> VInt 1]] ex_call = (Inr out, s')"
proof -
  let ?j = "expand_join zero_entity zero_entity ex_items"
  have "uniqueJoinTuples (xp_sprint ex_expansion) [[''id'' \<mapsto> VInt 1]] (jc_local ?j) (jc_localDecimal ?j) = [[VInt 1]]"
    by (simp add: ex_items_join uniqueJoinTuples_def rowJoinKey_def joinKeyOf_def row_value_def join_part_def)
  moreover have "tuple_batches n [[VInt 1]] = [[[VInt 1]]]" for n
    by (simp add: tuple_batches.simps)
  moreover have "\<exists>g s'. expand_batches ex_expansion ?j [[[VInt 1]]] (\<lambda>_. []) ex_call = (Inr g, s')"
  proof -
    have "filter (\<lambda>r. \<exists>w\<in>set [VInt 1]. db_equal ex_same ''order_id'' (r ''order_id'') w = triTrue) ex_item_rows =
        [[''order_id'' \<mapsto> Scanned (VInt 1), ''n'' \<mapsto> Scanned (VInt 7)]]"
      by (simp add: ex_item_rows_def db_equal_def ex_same_def finite_value_def join_value_of_def boolTri_def)
    then have it: "IterNamed None (ex_query [VInt 1]) = ([[''order_id'' \<mapsto> Scanned (VInt 1), ''n'' \<mapsto> Scanned (VInt 7)]], None)"
      using ex_query_rows [of "[VInt 1]"] by simp
    show ?thesis
      by (simp add: compileExpandBatch_def ex_expansion_def joinPredicate_def ex_items_join query_def st_admitted_def transactional_def
          retryStalePlan_def run_sql_def settle_def it add_row_def ex_call_def meterCall_def addSized_def reserve_def minLimit_def Let_def)
  qed
  ultimately show ?thesis
    unfolding expandOneRelationship_def Let_def expand_join_def [symmetric] queryExpandedChildren_def by auto
qed

theorem expand_complete_witness:
  "\<exists>out s'. expandOneRelationship ex_expansion zero_entity zero_entity ex_items [Map.empty] [[''id'' \<mapsto> VInt 1]] ex_call = (Inr out, s') \<and>
     map (\<lambda>row. row ''items'') out = [Some (Children [[''order_id'' \<mapsto> VInt 1, ''n'' \<mapsto> VInt 7]])]"
proof -
  let ?kept = "[''id'' \<mapsto> VInt 1] :: row" and ?j = "expand_join zero_entity zero_entity ex_items"
  let ?r = "[''order_id'' \<mapsto> Scanned (VInt 1), ''n'' \<mapsto> Scanned (VInt 7)] :: scanned_row"
  let ?t = "[''order_id'' \<mapsto> VInt 1, ''n'' \<mapsto> VInt 7] :: row"
  have p: "prints_types (xp_sprint ex_expansion)"
    by (simp add: prints_types_def type_name_def ex_expansion_def)
  have "local_values ex_expansion ?j ?kept = Some [JNumber 1]"
    by (simp add: local_values_def ex_items_join row_value_def join_value_of_def)
  then have rel: "related_rows ex_expansion ?j ex_item_rows ?kept = [?r]"
    by (simp add: related_rows_def ex_item_rows_def ex_target_values)
  obtain out s' where run: "expandOneRelationship ex_expansion zero_entity zero_entity ex_items [Map.empty] [?kept] ex_call = (Inr out, s')"
    using ex_expansion_runs by blast
  have t: "target_row ex_expansion (e_Attributes zero_entity) ?r = ?t"
    by (rule ext) (simp add: target_row_def shown_row_def present_def ex_expansion_def finite_value_def)
  have "length out = 1 \<and> (\<exists>children. mset children = mset [?t] \<and> out ! 0 = Map.empty(''items'' \<mapsto> Children children))"
    using expand_complete [OF p ex_expansion_answers run, of 0] ex_same_values rel t
    by (simp add: ex_call_def meterCall_def ex_items_def Single_def)
  then have "map (\<lambda>row. row ''items'') out = [Some (Children [?t])]"
    by (cases out) auto
  then show ?thesis using run by (intro exI conjI)
qed

end
