(* ===== verification/Tool_Filter.thy ===== *)
theory Tool_Filter
  imports Paging
begin

text \<open>
  The filter of a request, \<^verbatim>\<open>src/core/tool/filter.go\<close>: a list of conditions and of groups of them, turned into a
  predicate of the intermediate representation. An absent list is \<^const>\<open>None\<close>, as a nil slice is not an empty one; a
  condition's value is the normalized one (numbers as Go numbers). Nesting is bounded, and so is the count of
  conditions, which the conversion carries along.
\<close>

datatype cond_json = CondJSON
  (cj_Field: string) (cj_Op: string) (cj_Value: val) (cj_Any: "cond_json list option") (cj_All: "cond_json list option")
  (cj_Not: "cond_json option") (cj_Exists: string) (cj_Filter: "cond_json list option")

datatype filter_error =
    NotOneForm | NestedTooDeep | BadOperator string | ComparesNull string | WantsList string | EmptyGroup | TooManyConditions

text \<open>The text of an operator, and the operator a text names.\<close>

fun op_string :: "op \<Rightarrow> string" where
  "op_string OpEq = ''eq''"
| "op_string OpNe = ''ne''"
| "op_string OpGt = ''gt''"
| "op_string OpGte = ''gte''"
| "op_string OpLt = ''lt''"
| "op_string OpLte = ''lte''"
| "op_string OpIn = ''in''"
| "op_string OpNotIn = ''not_in''"
| "op_string OpLike = ''like''"
| "op_string OpIsNull = ''is_null''"
| "op_string OpIsNotNull = ''is_not_null''"
| "op_string (OtherOp s) = s"

definition op_of :: "string \<Rightarrow> op" where
  "op_of s =
     (case find (\<lambda>o'. op_string o' = s) [OpEq, OpNe, OpGt, OpGte, OpLt, OpLte, OpIn, OpNotIn, OpLike, OpIsNull, OpIsNotNull] of
        Some o' \<Rightarrow> o'
      | None \<Rightarrow> OtherOp s)"

definition maxFilterDepth :: nat where
  "maxFilterDepth = 4"

definition conditionValue :: "op \<Rightarrow> val \<Rightarrow> filter_error + val" where
  "conditionValue oper v =
     (if v = VNull \<and> oper \<noteq> OpIsNull \<and> oper \<noteq> OpIsNotNull then Inl (ComparesNull (op_string oper))
      else if (oper = OpIn \<or> oper = OpNotIn) \<and> (case v of VList vs \<Rightarrow> vs = [] | _ \<Rightarrow> True) then Inl (WantsList (op_string oper))
      else Inr v)"

text \<open>How many forms an entry has: a condition, or one of the groups.\<close>

definition forms :: "cond_json \<Rightarrow> nat" where
  "forms c =
     length (filter id [cj_Field c \<noteq> [] \<or> cj_Op c \<noteq> [] \<or> cj_Value c \<noteq> VNull, cj_Any c \<noteq> None, cj_All c \<noteq> None,
       cj_Not c \<noteq> None, cj_Exists c \<noteq> []])"

definition is_group :: "cond_json \<Rightarrow> bool" where
  "is_group c \<longleftrightarrow> cj_Any c \<noteq> None \<or> cj_All c \<noteq> None \<or> cj_Not c \<noteq> None \<or> cj_Exists c \<noteq> []"

definition list_of :: "'a list option \<Rightarrow> 'a list" where
  "list_of xs = (case xs of Some l \<Rightarrow> l | None \<Rightarrow> [])"

text \<open>The entries of an any or all group.\<close>

definition group_of :: "cond_json \<Rightarrow> cond_json list" where
  "group_of c = (if cj_Any c \<noteq> None then list_of (cj_Any c) else list_of (cj_All c))"

lemma cond_json_sizes:
  "size_list size (group_of c) < size c" "size_list size (list_of (cj_Filter c)) < size c"
  "cj_Not c = Some d \<Longrightarrow> size d < size c"
  by (cases c; auto simp: group_of_def list_of_def split: option.splits)+

function (sequential) filterPredicates :: "cond_json list \<Rightarrow> nat \<Rightarrow> nat \<Rightarrow> filter_error + (predicate list \<times> nat)"
  and filterPredicate :: "cond_json \<Rightarrow> nat \<Rightarrow> nat \<Rightarrow> filter_error + (predicate \<times> nat)"
  and filterGroup :: "cond_json \<Rightarrow> nat \<Rightarrow> nat \<Rightarrow> filter_error + (predicate \<times> nat)" where
  "filterPredicates [] depth n = Inr ([], n)"
| "filterPredicates (c # cs) depth n =
     bindR (filterPredicate c depth n) (\<lambda>(p, n1).
     bindR (filterPredicates cs depth n1) (\<lambda>(ps, n2). Inr (p # ps, n2)))"
| "filterPredicate c depth n =
     (if forms c \<noteq> 1 \<or> cj_Filter c \<noteq> None \<and> cj_Exists c = [] then Inl NotOneForm
      else if is_group c \<and> depth \<ge> maxFilterDepth then Inl NestedTooDeep
      else if cj_Exists c \<noteq> [] then
        bindR (filterPredicates (list_of (cj_Filter c)) (Suc depth) n) (\<lambda>(ps, n').
          Inr (Exists \<lparr>rr_Schema = [], rr_Name = cj_Exists c\<rparr> [] (conjunction ps), n'))
      else case cj_Not c of
             Some d \<Rightarrow> bindR (filterPredicate d (Suc depth) n) (\<lambda>(p, n'). Inr (NotP p, n'))
           | None \<Rightarrow>
               if cj_Any c \<noteq> None \<or> cj_All c \<noteq> None then filterGroup c depth n
               else let oper = op_of (cj_Op c) in
                    if \<not> op_Valid oper then Inl (BadOperator (cj_Op c))
                    else bindR (conditionValue oper (cj_Value c)) (\<lambda>v.
                      Inr (Condition \<lparr>c_Field = cj_Field c, c_Op = oper, c_Value = v\<rparr>, Suc n)))"
| "filterGroup c depth n =
     (if group_of c = [] then Inl EmptyGroup
      else bindR (filterPredicates (group_of c) (Suc depth) n) (\<lambda>(ps, n').
        case ps of
          [p] \<Rightarrow> Inr (p, n')
        | _ \<Rightarrow> Inr (if cj_Any c \<noteq> None then Or ps else And ps, n')))"
  by pat_completeness auto

termination
  by (relation "measure (\<lambda>x. case x of
        Inl (cs, _) \<Rightarrow> 2 * size_list size cs
      | Inr (Inl (c, _)) \<Rightarrow> 2 * size c + 1
      | Inr (Inr (c, _)) \<Rightarrow> 2 * size c)")
    (auto simp: cond_json_sizes less_SucI)

declare filterPredicate.simps [simp del] filterGroup.simps [simp del]

definition filterToPredicate :: "cond_json list \<Rightarrow> nat \<Rightarrow> filter_error + predicate" where
  "filterToPredicate conds maxConds =
     bindR (filterPredicates conds 0 0) (\<lambda>(ps, n).
       if maxConds > 0 \<and> n > maxConds then Inl TooManyConditions
       else Inr (conjunction ps))"


text \<open>The fields a filter names of its own entity, through its groups.\<close>

definition groups_of :: "cond_json \<Rightarrow> cond_json list" where
  "groups_of c = list_of (cj_Any c) @ list_of (cj_All c)"

lemma groups_of_size: "size_list size (groups_of c) < size c"
  by (cases c) (auto simp: groups_of_def list_of_def split: option.splits)

function (sequential) filterFields :: "cond_json list \<Rightarrow> string list" and filterFields_walk :: "cond_json \<Rightarrow> string list" where
  "filterFields [] = []"
| "filterFields (c # cs) = filterFields_walk c @ filterFields cs"
| "filterFields_walk c =
     (if cj_Exists c \<noteq> [] then []
      else case cj_Not c of
             Some d \<Rightarrow> filterFields_walk d
           | None \<Rightarrow>
               if cj_Any c \<noteq> None \<or> cj_All c \<noteq> None then filterFields (groups_of c)
               else [cj_Field c])"
  by pat_completeness auto

termination
  by (relation "measure (\<lambda>x. case x of Inl cs \<Rightarrow> 2 * size_list size cs | Inr c \<Rightarrow> 2 * size c + 1)")
    (auto simp: cond_json_sizes groups_of_size less_SucI)

declare filterFields_walk.simps [simp del]


section \<open>The fields of a filter are those of its predicate\<close>

lemma forms_any_all: "forms c = 1 \<Longrightarrow> cj_Any c \<noteq> None \<Longrightarrow> cj_All c = None"
  by (auto simp: forms_def split: if_splits)

lemma groups_of_form: "forms c = 1 \<Longrightarrow> groups_of c = group_of c"
  using forms_any_all [of c] by (cases "cj_Any c") (auto simp: groups_of_def group_of_def list_of_def)

lemma Fields_And_Or [simp]:
  "set (Fields (And ps)) = (\<Union>p\<in>set ps. set (Fields p))" "set (Fields (Or ps)) = (\<Union>p\<in>set ps. set (Fields p))"
  "set (Fields (NotP p)) = set (Fields p)" "set (Fields (Exists r on p)) = {}" "set (Fields NilPred) = {}"
  "set (Fields (Condition c)) = {c_Field c}"
  by (auto simp: Fields_set)

lemma filterPredicate_fields:
  "filterPredicates cs depth n = Inr (ps, n') \<Longrightarrow> (\<Union>p\<in>set ps. set (Fields p)) = set (filterFields cs)"
  "filterPredicate c depth n = Inr (p, n') \<Longrightarrow> set (Fields p) = set (filterFields_walk c)"
  "filterGroup c depth n = Inr (p, n') \<Longrightarrow> forms c = 1 \<Longrightarrow> set (Fields p) = set (filterFields (groups_of c))"
proof (induction cs depth n and c depth n and c depth n arbitrary: ps n' and p n' and p n'
    rule: filterPredicates_filterPredicate_filterGroup.induct)
  case (1 depth n)
  then show ?case by simp
next
  case (2 c cs depth n)
  obtain p n1 ps' where r: "filterPredicate c depth n = Inr (p, n1)" "filterPredicates cs depth n1 = Inr (ps', n')" "ps = p # ps'"
    using "2.prems" by (auto simp: bindR_eq_Inr)
  show ?case using "2.IH"(1) [OF r(1)] "2.IH"(2) [OF r(1) refl r(2)] r(3) by simp
next
  case (3 c depth n)
  note p = "3.prems" [unfolded filterPredicate.simps [of c]]
  have ok: "forms c = 1" using p by (simp split: if_splits)
  show ?case
  proof (cases "cj_Exists c = []")
    case False
    then show ?thesis using p by (auto simp: filterFields_walk.simps [of c] bindR_eq_Inr Fields_def split: if_splits)
  next
    case ex: True
    show ?thesis
    proof (cases "cj_Not c")
      case (Some d)
      obtain q where q: "filterPredicate d (Suc depth) n = Inr (q, n')" "p = NotP q"
        using p Some ex by (auto simp: bindR_eq_Inr split: if_splits)
      have "set (Fields q) = set (filterFields_walk d)"
        by (rule "3.IH"(3) [OF _ _ _ Some q(1)]) (use p ex in \<open>simp_all split: if_splits\<close>)
      then show ?thesis using q(2) Some ex by (simp add: filterFields_walk.simps [of c])
    next
      case None
      show ?thesis
      proof (cases "cj_Any c \<noteq> None \<or> cj_All c \<noteq> None")
        case True
        then have "filterGroup c depth n = Inr (p, n')" using p None ex by (simp split: if_splits)
        then have "set (Fields p) = set (filterFields (groups_of c))"
          by (intro "3.IH"(2) [OF _ _ _ None True _ ok]) (use p ex in \<open>simp_all split: if_splits\<close>)
        then show ?thesis using True None ex by (simp add: filterFields_walk.simps [of c])
      next
        case False
        then show ?thesis using p None ex
          by (auto simp: filterFields_walk.simps [of c] bindR_eq_Inr Let_def split: if_splits)
      qed
    qed
  qed
next
  case (4 c depth n)
  note p = "4.prems"(1) [unfolded filterGroup.simps [of c]]
  have ne: "group_of c \<noteq> []" using p by (simp split: if_splits)
  obtain ps n1 where ps: "filterPredicates (group_of c) (Suc depth) n = Inr (ps, n1)"
    and q: "(case ps of [q] \<Rightarrow> Inr (q, n1) | _ \<Rightarrow> Inr (if cj_Any c \<noteq> None then Or ps else And ps, n1)) =
      (Inr (p, n') :: filter_error + (predicate \<times> nat))"
    using p ne by (auto simp: bindR_eq_Inr)
  have "(\<Union>q\<in>set ps. set (Fields q)) = set (Fields p)"
  proof (cases ps)
    case (Cons a as)
    then show ?thesis using q by (cases as) (auto split: if_splits)
  qed (use q in \<open>auto simp: Fields_def split: if_splits\<close>)
  then show ?case using "4.IH" [OF ne ps] groups_of_form [OF "4.prems"(2)] by simp
qed

lemma conjunction_fields: "set (Fields (conjunction ps)) = (\<Union>p\<in>set ps. set (Fields p))"
  by (auto simp: conjunction_def split: list.splits)

lemma filterToPredicate_fields:
  "filterToPredicate conds maxConds = Inr p \<Longrightarrow> set (Fields p) = set (filterFields conds)"
  using filterPredicate_fields(1) [of conds 0 0]
  by (auto simp: filterToPredicate_def bindR_eq_Inr conjunction_fields split: if_splits)

end
