(* ===== verification/Read_Plan.thy ===== *)
theory Read_Plan
  imports Write_Check Tool_Filter Expand Rbac
begin

text \<open>
  The plan of a read, \<^verbatim>\<open>src/core/tool/tools_read_impl.go\<close> with \<^verbatim>\<open>src/core/tool/related.go\<close>, the planning of
  \<^verbatim>\<open>src/core/tool/tools_helpers.go\<close> and the authorization of \<^verbatim>\<open>src/core/tool/pipeline.go\<close>: the entity is resolved, the
  filter converted, every field the read uses is checked, the relationships it names are joined or searched under the
  row filter of their target, and the read is authorized; the plan is then an expression of the intermediate
  representation.

  The authorizer is an argument that answers a request with an error or a decision. The routing to a connection
  (\<^verbatim>\<open>routing.go\<close>) and the coercion of JSON fractions are not part of the plan here, and the text of an error is a
  constructor.
\<close>

record 'err plan_context =
  pc_registry :: registry
  pc_authz :: "request \<Rightarrow> 'err + decision"
  pc_role :: string
  pc_subject :: "string \<Rightarrow> val option"
  pc_maxConds :: nat
  pc_maxRows :: int

datatype 'err plan_error =
    EntityUnknown | DMLToolsDisabled | AuthFailed 'err | AuthDenied deny_reason | EntityUnavailable string
  | FilterRefused filter_error | ExistsFiltersReads | FieldsRefused field_error | CrossDatasource string
  | NamesManyRows string | NotOnKey string | UnknownRelationship string | ExistsNests | RelatedField string
  | JoinsNothing string | OrderRefused order_error | DistinctNeedsFields | NoCursorKey string | BadCursor "string list"

definition lift_error :: "('a \<Rightarrow> 'b) \<Rightarrow> 'a + 'c \<Rightarrow> 'b + 'c" where
  "lift_error f r = map_sum f id r"

section \<open>Entities and authorization\<close>

definition resolveDMLEntity :: "registry \<Rightarrow> string \<Rightarrow> 'err plan_error + resolved" where
  "resolveDMLEntity reg name =
     (case Resolve reg name of
        None \<Rightarrow> Inl EntityUnknown
      | Some res \<Rightarrow> if \<not> mf_DMLTools (e_MCP (rs_Entity res)) then Inl DMLToolsDisabled else Inr res)"

definition authorizeRequest :: "'err plan_context \<Rightarrow> request \<Rightarrow> 'err plan_error + decision" where
  "authorizeRequest c req =
     (case pc_authz c req of
        Inl err \<Rightarrow> Inl (AuthFailed err)
      | Inr dec \<Rightarrow>
          if \<not> d_Allowed dec then Inl (AuthDenied (d_Reason dec))
          else if rq_Action req = ActionRead \<and> d_Fields dec = [] then Inl (AuthDenied (NoReadableFields (rq_Role req)))
          else case Resolve (pc_registry c) (rq_Entity req) of
                 Some res \<Rightarrow> if e_Unavailable (rs_Entity res) \<noteq> [] then Inl (EntityUnavailable (e_Unavailable (rs_Entity res))) else Inr dec
               | None \<Rightarrow> Inr dec)"

definition check_uses :: "string list \<Rightarrow> string list \<Rightarrow> resolved \<Rightarrow> 'err plan_error + unit" where
  "check_uses reads compared res =
     lift_error FieldsRefused (fieldUses_check \<lparr>fu_read = reads, fu_compared = compared, fu_written = []\<rparr> res)"

definition read_request :: "'err plan_context \<Rightarrow> string \<Rightarrow> string list \<Rightarrow> string list \<Rightarrow> predicate \<Rightarrow> request" where
  "read_request c name fs reads p =
     \<lparr>rq_Role = pc_role c, rq_Entity = name, rq_Action = ActionRead, rq_Fields = fs, rq_ReadFields = reads,
      rq_WriteFields = [], rq_Subject = pc_subject c, rq_Predicate = p\<rparr>"

section \<open>Relationships\<close>

definition zero_relationship :: relationship where
  "zero_relationship = \<lparr>rl_Name = [], rl_Target = [], rl_Cardinality = [], rl_JoinOn = []\<rparr>"

definition relation_named :: "entity \<Rightarrow> string \<Rightarrow> relationship" where
  "relation_named e name = (case relationshipByName e name of Some r \<Rightarrow> r | None \<Rightarrow> zero_relationship)"

definition splitPaths :: "entity \<Rightarrow> string list \<Rightarrow> string list \<times> string list" where
  "splitPaths e fs = (filter (\<lambda>f. pathOf e f = None) fs, filter (\<lambda>f. pathOf e f \<noteq> None) fs)"

definition relatedTarget ::
  "'err plan_context \<Rightarrow> entity \<Rightarrow> relationship \<Rightarrow> string list \<Rightarrow> 'err plan_error + (resolved \<times> decision)" where
  "relatedTarget c e r fs =
     bindR (resolveDMLEntity (pc_registry c) (rl_Target r)) (\<lambda>target.
       if e_DataSource (rs_Entity target) \<noteq> e_DataSource e then Inl (CrossDatasource (rl_Name r))
       else let used = fs @ jc_target (relationJoin r) in
            bindR (check_uses [] used target) (\<lambda>_.
            bindR (authorizeRequest c (read_request c (e_Name (rs_Entity target)) used used NilPred)) (\<lambda>g.
              Inr (target, g))))"

definition joinPairs :: "join_columns \<Rightarrow> join_pair list" where
  "joinPairs join = map (\<lambda>(l, r). \<lparr>jp_Left = l, jp_Right = r\<rparr>) (zip (jc_local join) (jc_target join))"

record join_plan =
  jn_Right :: relation_ref
  jn_Alias :: string
  jn_On :: "join_pair list"
  jn_RightPredicate :: predicate

record related =
  rel_joins :: "join_plan list"
  rel_locals :: "string list"
  rel_rename :: "string \<rightharpoonup> string"

text \<open>The fields asked for of each relationship, by its name.\<close>

definition add_path :: "entity \<Rightarrow> string \<Rightarrow> (string \<times> string list) list \<Rightarrow> (string \<times> string list) list" where
  "add_path e p byRelation =
     (let (name, field) = (case pathOf e p of Some (r, f) \<Rightarrow> (rl_Name r, f) | None \<Rightarrow> ([], []))
      in AList.update name ((case map_of byRelation name of Some fs \<Rightarrow> fs | None \<Rightarrow> []) @ [field]) byRelation)"

definition on_key :: "entity \<Rightarrow> string list \<Rightarrow> bool" where
  "on_key target columns \<longleftrightarrow>
     list_ex (\<lambda>k. length k = length columns \<and> list_all (\<lambda>c. c \<in> set columns) k) (IdentityKeys target False False)"

definition plan_join :: "'err plan_context \<Rightarrow> resolved \<Rightarrow> string \<times> string list \<Rightarrow> related \<Rightarrow> 'err plan_error + related" where
  "plan_join c res asked out =
     (let name = fst asked; fs = snd asked; r = relation_named (rs_Entity res) name in
      if \<not> Single r then Inl (NamesManyRows name)
      else bindR (relatedTarget c (rs_Entity res) r fs) (\<lambda>(target, g).
        let join = relationJoin r in
        if \<not> on_key (rs_Entity target) (jc_target join) then Inl (NotOnKey name)
        else Inr \<lparr>rel_joins = rel_joins out @ [\<lparr>jn_Right = Ref (rs_Entity target), jn_Alias = name, jn_On = joinPairs join,
                    jn_RightPredicate = d_RowFilter g\<rparr>],
                  rel_locals = rel_locals out @ jc_local join,
                  rel_rename = fold (\<lambda>f m. m(name @ ''.'' @ f \<mapsto> name @ ''.'' @
                    (case AttributeByName (rs_Entity target) f of Some a \<Rightarrow> at_Name a | None \<Rightarrow> []))) fs (rel_rename out)\<rparr>))"

definition planJoins :: "'err plan_context \<Rightarrow> resolved \<Rightarrow> string list \<Rightarrow> 'err plan_error + related" where
  "planJoins c res paths =
     (let byRelation = fold (add_path (rs_Entity res)) paths [];
          names = sort (map fst byRelation)
      in foldR (plan_join c res) (map (\<lambda>name. (name, the (map_of byRelation name))) names)
           \<lparr>rel_joins = [], rel_locals = [], rel_rename = Map.empty\<rparr>)"

definition wrap :: "related \<Rightarrow> expr \<Rightarrow> expr" where
  "wrap r e = fold (\<lambda>j e. Join e (jn_Right j) (jn_Alias j) (jn_On j) (jn_RightPredicate j)) (rel_joins r) e"

definition renamed :: "related \<Rightarrow> predicate \<Rightarrow> predicate" where
  "renamed r p = MapConditions p (\<lambda>c. c\<lparr>c_Field := related_field (rel_rename r) (c_Field c)\<rparr>)"

definition resolve_group ::
  "'err plan_context \<Rightarrow> resolved \<Rightarrow> relation_ref \<Rightarrow> join_pair list \<Rightarrow> predicate \<Rightarrow> 'err plan_error + (predicate \<times> string list)" where
  "resolve_group c res rref on p =
     (case relationshipByName (rs_Entity res) (rr_Name rref) of
        None \<Rightarrow> Inl (UnknownRelationship (rr_Name rref))
      | Some r \<Rightarrow>
          if on \<noteq> [] then Inl (UnknownRelationship (rr_Name rref))
          else if HasExists p then Inl ExistsNests
          else bindR (relatedTarget c (rs_Entity res) r (Fields p)) (\<lambda>(target, g).
            let join = relationJoin r in
            Inr (Exists (Ref (rs_Entity target)) (joinPairs join)
                   (andPreds (columnsPredicate (rs_Entity target) p) (d_RowFilter g)), jc_local join)))"

fun resolveExists :: "'err plan_context \<Rightarrow> resolved \<Rightarrow> predicate \<Rightarrow> 'err plan_error + (predicate \<times> string list)"
  and walkAll :: "'err plan_context \<Rightarrow> resolved \<Rightarrow> predicate list \<Rightarrow> 'err plan_error + (predicate list \<times> string list)" where
  "resolveExists c res (Exists rref on p) = resolve_group c res rref on p"
| "resolveExists c res (And ps) = bindR (walkAll c res ps) (\<lambda>(qs, ls). Inr (And qs, ls))"
| "resolveExists c res (Or ps) = bindR (walkAll c res ps) (\<lambda>(qs, ls). Inr (Or qs, ls))"
| "resolveExists c res (NotP p) = bindR (resolveExists c res p) (\<lambda>(q, ls). Inr (NotP q, ls))"
| "resolveExists c res p = Inr (p, [])"
| "walkAll c res [] = Inr ([], [])"
| "walkAll c res (p # ps) =
     bindR (resolveExists c res p) (\<lambda>(q, ls). bindR (walkAll c res ps) (\<lambda>(qs, ls'). Inr (q # qs, ls @ ls')))"

definition relate ::
  "'err plan_context \<Rightarrow> resolved \<Rightarrow> predicate \<Rightarrow> string list \<Rightarrow> 'err plan_error + (related \<times> predicate \<times> string list)" where
  "relate c res pred paths =
     bindR (planJoins c res paths) (\<lambda>rel.
     bindR (resolveExists c res (renamed rel pred)) (\<lambda>(p, locals).
       Inr (rel, p, rel_locals rel @ locals)))"

section \<open>The request\<close>

record read_call = read_input +
  rd_Entity :: string
  rd_Expand :: "string list"
  rd_Filter :: "cond_json list"
  rd_Offset :: int
  rd_Cursor :: cursor

definition planEntity :: "'err plan_context \<Rightarrow> string \<Rightarrow> action \<Rightarrow> cond_json list \<Rightarrow> 'err plan_error + (resolved \<times> predicate)" where
  "planEntity c name act flt =
     bindR (resolveDMLEntity (pc_registry c) name) (\<lambda>res.
     bindR (lift_error FilterRefused (filterToPredicate flt (pc_maxConds c))) (\<lambda>pred.
       if act \<noteq> ActionRead \<and> act \<noteq> ActionAggregate \<and> HasExists pred then Inl ExistsFiltersReads
       else Inr (res, columnsPredicate (rs_Entity res) pred)))"

definition readFieldNames :: "resolved \<Rightarrow> read_call \<Rightarrow> 'err plan_error + (string list \<times> string list)" where
  "readFieldNames res inp =
     (case find (\<lambda>name. relationshipByName (rs_Entity res) name = None) (rd_Expand inp) of
        Some name \<Rightarrow> Inl (UnknownRelationship name)
      | None \<Rightarrow>
          let locals = expandJoinColumns (rs_Entity res) (rd_Expand inp) in
          Inr (filterFields (rd_Filter inp) @ ri_Fields inp @ locals @ sort (map fst (rd_Cursor inp)),
               if ri_Fields inp = [] then ri_Fields inp else fold add_column locals (ri_Fields inp)))"

fun checkExpansions :: "'err plan_context \<Rightarrow> entity \<Rightarrow> string list \<Rightarrow> 'err plan_error + unit" where
  "checkExpansions c parent [] = Inr ()"
| "checkExpansions c parent (name # names) =
     (let relation = relation_named parent name in
      if rl_JoinOn relation = [] then Inl (JoinsNothing name)
      else bindR (resolveDMLEntity (pc_registry c) (rl_Target relation)) (\<lambda>target.
           bindR (check_uses [] (jc_target (relationJoin relation)) target) (\<lambda>_.
             if e_DataSource (rs_Entity target) \<noteq> e_DataSource parent then Inl (CrossDatasource name)
             else checkExpansions c parent names)))"

definition checkReadUses ::
  "'err plan_context \<Rightarrow> resolved \<Rightarrow> read_call \<Rightarrow> string list \<Rightarrow> string list \<Rightarrow> 'err plan_error + unit" where
  "checkReadUses c res inp readFields locals =
     (let predicateFields = fst (splitPaths (rs_Entity res) (filterFields (rd_Filter inp) @ sort (map fst (rd_Cursor inp)))) @
            locals @ expandJoinColumns (rs_Entity res) (rd_Expand inp)
      in bindR (check_uses readFields predicateFields res) (\<lambda>_. checkExpansions c (rs_Entity res) (rd_Expand inp)))"

definition readsKey :: "'err plan_context \<Rightarrow> request \<Rightarrow> read_order \<Rightarrow> bool" where
  "readsKey c req o' \<longleftrightarrow>
     ro_keyFields o' = [] \<or>
     (case pc_authz c (req\<lparr>rq_ReadFields := rq_ReadFields req @ ro_keyFields o'\<rparr>) of Inr dec \<Rightarrow> d_Allowed dec | Inl _ \<Rightarrow> False)"

definition orderRead ::
  "'err plan_context \<Rightarrow> resolved \<Rightarrow> read_call \<Rightarrow> request \<Rightarrow> related \<Rightarrow> 'err plan_error + (read_order \<times> request)" where
  "orderRead c res inp req rel =
     (if ri_Distinct inp \<and> (ri_Fields inp = [] \<or> rd_Expand inp \<noteq> [] \<or> rd_Cursor inp \<noteq> []) then Inl DistinctNeedsFields
      else bindR (lift_error OrderRefused (planReadOrder res (read_input.truncate inp) (rel_rename rel))) (\<lambda>order.
        let own = fst (splitPaths (rs_Entity res) (order_fields order));
            reads = rq_ReadFields req @ filter (\<lambda>f. f \<notin> set (ro_keyFields order)) own;
            order' = (if readsKey c (req\<lparr>rq_ReadFields := reads\<rparr>) order then order else withoutKey order);
            fs = (if ro_pageable order' \<and> ri_Fields inp \<noteq> []
                  then fold (\<lambda>f fs. if list_ex (\<lambda>x. columnOf (rs_Entity res) x = f) fs then fs else fs @ [f])
                         (order_fields order') (rq_Fields req)
                  else rq_Fields req)
        in Inr (order', req\<lparr>rq_ReadFields := reads @ ro_keyFields order', rq_Fields := fs\<rparr>)))"

definition authorizeRead :: "'err plan_context \<Rightarrow> resolved \<Rightarrow> read_call \<Rightarrow> request \<Rightarrow> 'err plan_error + decision" where
  "authorizeRead c res inp req =
     bindR (authorizeRequest c req) (\<lambda>g.
       if ri_Distinct inp then bindR (check_uses [] (d_Fields g) res) (\<lambda>_. Inr g) else Inr g)"

section \<open>Cursors on the key\<close>

definition keyset_term :: "cursor \<Rightarrow> op \<Rightarrow> string \<Rightarrow> predicate" where
  "keyset_term cursor oper col = Condition \<lparr>c_Field = col, c_Op = oper, c_Value = the (map_of cursor col)\<rparr>"

definition keyset_or :: "cursor \<Rightarrow> string list \<Rightarrow> nat \<Rightarrow> predicate" where
  "keyset_or cursor cols i =
     (let ands = map (keyset_term cursor OpEq) (take i cols) @ [keyset_term cursor OpGt (cols ! i)]
      in if length ands = 1 then hd ands else And ands)"

definition keysetAfter :: "string list \<Rightarrow> cursor \<Rightarrow> predicate \<times> string list" where
  "keysetAfter pks cursor =
     (let cols = takeWhile (\<lambda>pk. map_of cursor pk \<noteq> None) pks;
          ors = map (keyset_or cursor cols) [0..<length cols]
      in if cols = [] then (NilPred, [])
         else (if length ors = 1 then hd ors else Or ors, cols))"

definition cursorPredicate :: "entity \<Rightarrow> cursor \<Rightarrow> 'err plan_error + (predicate \<times> string list)" where
  "cursorPredicate e cursor =
     (if cursor = [] then Inr (NilPred, [])
      else if CursorKey e = [] then Inl (NoCursorKey (e_Name e))
      else let (keyset, cols) = keysetAfter (CursorKey e) cursor
           in if length cols \<noteq> length cursor then Inl (BadCursor (CursorKey e)) else Inr (keyset, cols))"

definition readCursor :: "entity \<Rightarrow> read_order \<Rightarrow> read_call \<Rightarrow> 'err plan_error + (predicate \<times> string list)" where
  "readCursor e order inp =
     (if ri_OrderBy inp = [] then cursorPredicate e (rd_Cursor inp)
      else if rd_Cursor inp = [] then Inr (NilPred, [])
      else bindR (lift_error OrderRefused (orderCursor order (rd_Cursor inp))) (\<lambda>p. Inr (p, [])))"

section \<open>The plan\<close>

record read_plan =
  rp_res :: resolved
  rp_projection :: "string list"
  rp_full :: predicate
  rp_keysetCols :: "string list"
  rp_order :: read_order
  rp_rel :: related
  rp_grant :: decision

definition prepareReadPlan :: "'err plan_context \<Rightarrow> read_call \<Rightarrow> 'err plan_error + read_plan" where
  "prepareReadPlan c inp =
     bindR (planEntity c (rd_Entity inp) ActionRead (rd_Filter inp)) (\<lambda>(res, pred0).
     bindR (readFieldNames res inp) (\<lambda>(readFields0, projectionFields).
     case snd (splitPaths (rs_Entity res) (ri_Fields inp)) of
       f # _ \<Rightarrow> Inl (RelatedField f)
     | [] \<Rightarrow>
         let (own, paths) = splitPaths (rs_Entity res) readFields0;
             orderPaths = snd (splitPaths (rs_Entity res) (map oj_Field (ri_OrderBy inp))) in
         bindR (relate c res pred0 (paths @ orderPaths)) (\<lambda>(rel, pred, locals).
         let readFields = own @ locals in
         bindR (checkReadUses c res inp readFields locals) (\<lambda>_.
         bindR (orderRead c res inp (read_request c (rd_Entity inp) projectionFields readFields pred) rel) (\<lambda>(order, req).
         bindR (authorizeRead c res inp req) (\<lambda>g.
         bindR (readCursor (rs_Entity res) order inp) (\<lambda>(keyset, keysetCols).
           Inr \<lparr>rp_res = res, rp_projection = rq_Fields req, rp_full = andPreds (andPreds pred (d_RowFilter g)) keyset,
                rp_keysetCols = keysetCols, rp_order = order, rp_rel = rel, rp_grant = g\<rparr>)))))))"

definition buildReadExpression :: "read_call \<Rightarrow> read_plan \<Rightarrow> expr" where
  "buildReadExpression inp plan =
     (let e = rs_Entity (rp_res plan);
          e0 = wrap (rp_rel plan) (Scan (Ref e) []);
          e1 = (if rp_full plan \<noteq> NilPred then Select e0 (rp_full plan) else e0);
          e2 = (if ro_terms (rp_order plan) \<noteq> [] then Sort e1 (ro_terms (rp_order plan))
                else if rp_keysetCols plan \<noteq> [] then Sort e1 (map key_term (rp_keysetCols plan))
                else e1);
          e3 = Project e2 (projectItems e (d_Fields (rp_grant plan)));
          e4 = (if ri_Distinct inp then Distinct e3 else e3)
      in if ri_Limit inp > 0 then Limit e4 (ri_Limit inp) (rd_Offset inp) else e4)"

definition capLimit :: "int \<Rightarrow> int \<Rightarrow> int \<times> bool" where
  "capLimit maxRows n =
     (if maxRows \<le> 0 \<or> n < 0 \<or> n > 0 \<and> n \<le> maxRows then (n, False) else (maxRows, True))"

end
