(* ===== verification/Visibility.thy ===== *)
theory Visibility
  imports Interp_Check Write_Check
begin

text \<open>
  What an expression sees of a database: a lemma per operator of the interpreter that rows a condition excludes do not
  show in the result, as long as the condition is a conjunct of every use of the relation. The plan of a read
  (\<^verbatim>\<open>Read_Plan\<close>) puts the row filter of a grant there.
\<close>

definition table_rel :: "table \<Rightarrow> relation" where
  "table_rel t = \<lparr>r_Cols = t_Cols t, r_Rows = t_Rows t, r_db = Map.empty, r_hidden = 0\<rparr>"

definition seen :: "table \<Rightarrow> predicate \<Rightarrow> val list list" where
  "seen t F = filter (\<lambda>row. evalPredicate (table_rel t) row F = Inr triTrue) (t_Rows t)"

definition same_visible :: "db \<Rightarrow> db \<Rightarrow> relation_ref \<Rightarrow> predicate \<Rightarrow> bool" where
  "same_visible db db' r F \<longleftrightarrow>
     (case (db (rr_Name r), db' (rr_Name r)) of
        (Some t, Some t') \<Rightarrow> t_Cols t' = t_Cols t \<and> seen t' F = seen t F
      | _ \<Rightarrow> False)"

text \<open>A row filter names columns of the relation and searches no other.\<close>

definition policy_on :: "db \<Rightarrow> relation_ref \<Rightarrow> predicate \<Rightarrow> bool" where
  "policy_on db r F \<longleftrightarrow>
     \<not> HasExists F \<and> (case db (rr_Name r) of Some t \<Rightarrow> list_all (\<lambda>f. f \<in> set (t_Cols t)) (Fields F) | None \<Rightarrow> False)"

section \<open>Predicates\<close>

lemma colIndex_cols: "r_Cols rel' = r_Cols rel \<Longrightarrow> colIndex rel' n = colIndex rel n"
  by (simp add: colIndex_def)

lemma evalCondition_cols: "r_Cols rel' = r_Cols rel \<Longrightarrow> evalCondition rel' row c = evalCondition rel row c"
  by (simp add: evalCondition_def colIndex_cols [of rel' rel])

lemma evalPredicate_same:
  assumes "\<not> HasExists p" and "\<And>c. c \<in> set (top_conditions p) \<Longrightarrow> evalCondition rel' row' c = evalCondition rel row c"
  shows "evalPredicate rel' row' p = evalPredicate rel row p"
  using assms
proof (induction p)
  case (And ps)
  have "evalPredicate rel' row' p = evalPredicate rel row p" if "p \<in> set ps" for p
    by (rule And.IH [OF that]) (use And.prems that in \<open>auto simp: list_ex_iff\<close>)
  then show ?case by (simp add: evalAnd_loop_conn conn_loop_same [of ps rel' row' rel row])
next
  case (Or ps)
  have "evalPredicate rel' row' p = evalPredicate rel row p" if "p \<in> set ps" for p
    by (rule Or.IH [OF that]) (use Or.prems that in \<open>auto simp: list_ex_iff\<close>)
  then show ?case by (simp add: evalOr_loop_conn conn_loop_same [of ps rel' row' rel row])
next
  case (NotP p)
  then show ?case by simp
qed simp_all

lemma evalPredicate_cols:
  assumes "\<not> HasExists p" and "r_Cols rel' = r_Cols rel"
  shows "evalPredicate rel' row p = evalPredicate rel row p"
  by (rule evalPredicate_same [OF assms(1)]) (rule evalCondition_cols [OF assms(2)])

lemma index_of_append: "n \<in> set cs \<Longrightarrow> index_of (cs @ ds) n = index_of cs n"
  by (induction cs) auto

lemma evalCondition_prefix:
  assumes "r_Cols rel' = r_Cols rel @ ds" and "c_Field c \<in> set (r_Cols rel)" and "length row = length (r_Cols rel)"
  shows "evalCondition rel' (row @ ext) c = evalCondition rel row c"
proof -
  obtain i where i: "index_of (r_Cols rel) (c_Field c) = Some i"
    using assms(2) index_of_None by fastforce
  then have "i < length row" using index_of_less [OF i] assms(3) by simp
  then show ?thesis
    using i assms(1,2) by (simp add: evalCondition_def colIndex_def index_of_append cell_def nth_append)
qed

lemma evalPredicate_prefix:
  assumes "\<not> HasExists p" and "r_Cols rel' = r_Cols rel @ ds" and "set (Fields p) \<subseteq> set (r_Cols rel)"
    and "length row = length (r_Cols rel)"
  shows "evalPredicate rel' (row @ ext) p = evalPredicate rel row p"
  by (rule evalPredicate_same [OF assms(1)])
    (use assms(3) in \<open>auto simp: Fields_set intro!: evalCondition_prefix [OF assms(2) _ assms(4)]\<close>)

lemma andPreds_exists [simp]: "HasExists (andPreds p q) \<longleftrightarrow> HasExists p \<or> HasExists q"
  by (auto simp: andPreds_def)

lemma andPreds_Nil [simp]: "andPreds p q = NilPred \<longleftrightarrow> p = NilPred \<and> q = NilPred"
  by (auto simp: andPreds_def)

section \<open>Matching rows\<close>

lemma joinOn_cols:
  assumes "r_Cols left' = r_Cols left" and "r_Cols right' = r_Cols right"
  shows "joinOn left' row right' m on ok = joinOn left row right m on ok"
  by (induction on arbitrary: ok) (simp_all add: colIndex_cols [OF assms(1)] colIndex_cols [OF assms(2)])

definition matched :: "relation \<Rightarrow> val list \<Rightarrow> relation \<Rightarrow> join_pair list \<Rightarrow> predicate \<Rightarrow> val list \<Rightarrow> bool" where
  "matched left row right on p m \<longleftrightarrow>
     joinOn left row right m on True = Inr True \<and> evalPredicate right m p = Inr triTrue"

lemma matching_loop_filter:
  "matching_loop left row right on p rs = Inr ms \<Longrightarrow> ms = filter (matched left row right on p) rs"
proof (induction rs arbitrary: ms)
  case (Cons r rs)
  obtain ok where ok: "joinOn left row right r on True = Inr ok"
    using Cons.prems by (cases "joinOn left row right r on True") auto
  show ?case
  proof (cases ok)
    case False
    then show ?thesis using Cons ok by (auto simp: matched_def)
  next
    case True
    obtain v where v: "evalPredicate right r p = Inr v"
      using Cons.prems ok True by (cases "evalPredicate right r p") auto
    obtain out where out: "matching_loop left row right on p rs = Inr out"
      using Cons.prems ok True v by (cases "matching_loop left row right on p rs") auto
    show ?thesis using Cons.prems Cons.IH [OF out] ok True v out by (auto simp: matched_def)
  qed
qed simp

lemma matching_same:
  assumes vis: "t_Cols t' = t_Cols t" "seen t' F = seen t F"
    and F: "\<not> HasExists F" and q: "\<not> HasExists q" and left: "r_Cols left' = r_Cols left"
    and right: "r_Cols right = t_Cols t" "r_Cols right' = t_Cols t"
    and ms: "matching_loop left row right on (andPreds q F) (t_Rows t) = Inr ms"
    and ms': "matching_loop left' row right' on (andPreds q F) (t_Rows t') = Inr ms'"
  shows "ms' = ms"
proof -
  have filt: "filter (matched l row rg on (andPreds q F)) (t_Rows u) =
      filter (matched l row rg on (andPreds q F)) (seen u F)" if "r_Cols rg = t_Cols u" for l rg u
  proof -
    have "evalPredicate (table_rel u) m F = Inr triTrue" if "matched l row rg on (andPreds q F) m" for m
    proof -
      have "evalPredicate rg m F = Inr triTrue" using that by (auto simp: matched_def intro: andPreds_true(2))
      moreover have "evalPredicate rg m F = evalPredicate (table_rel u) m F"
        by (rule evalPredicate_cols [OF F]) (simp add: \<open>r_Cols rg = t_Cols u\<close> table_rel_def)
      ultimately show ?thesis by simp
    qed
    then show ?thesis unfolding seen_def filter_filter by (intro filter_cong) auto
  qed
  have same: "matched left' row right' on (andPreds q F) m = matched left row right on (andPreds q F) m" for m
  proof -
    have "evalPredicate right' m (andPreds q F) = evalPredicate right m (andPreds q F)"
      by (rule evalPredicate_cols) (use q F right in simp_all)
    moreover have "joinOn left' row right' m on True = joinOn left row right m on True"
      by (rule joinOn_cols) (use left right in simp_all)
    ultimately show ?thesis by (simp add: matched_def)
  qed
  have "ms' = filter (matched left' row right' on (andPreds q F)) (seen t' F)"
    using matching_loop_filter [OF ms'] filt [of right' t' left'] right vis(1) by simp
  also have "\<dots> = filter (matched left row right on (andPreds q F)) (seen t F)"
    unfolding vis(2) by (rule filter_cong [OF refl same])
  also have "\<dots> = ms" using matching_loop_filter [OF ms] filt [of right t left] right by simp
  finally show ?thesis .
qed

section \<open>EXISTS\<close>

text \<open>Every EXISTS of a predicate searches its relation under one of the row filters \<open>ok\<close> allows.\<close>

fun searches :: "(relation_ref \<Rightarrow> predicate \<Rightarrow> bool) \<Rightarrow> predicate \<Rightarrow> bool" where
  "searches ok (Exists r on p) \<longleftrightarrow> (\<exists>q F. p = andPreds q F \<and> \<not> HasExists q \<and> ok r F)"
| "searches ok (And ps) \<longleftrightarrow> (\<forall>p\<in>set ps. searches ok p)"
| "searches ok (Or ps) \<longleftrightarrow> (\<forall>p\<in>set ps. searches ok p)"
| "searches ok (NotP p) \<longleftrightarrow> searches ok p"
| "searches ok NilPred \<longleftrightarrow> True"
| "searches ok (Condition c) \<longleftrightarrow> True"

lemma searches_without: "\<not> HasExists p \<Longrightarrow> searches ok p"
  by (induction p) (auto simp: list_ex_iff)

lemma searches_andPreds: "searches ok p \<Longrightarrow> searches ok q \<Longrightarrow> searches ok (andPreds p q)"
  by (simp add: andPreds_def)

lemma conn_loop_agree:
  assumes "\<And>p v v'. p \<in> set ps \<Longrightarrow> evalPredicate rel row p = Inr v \<Longrightarrow> evalPredicate rel' row p = Inr v' \<Longrightarrow> v' = v"
    and "conn_loop d rel row ps res = Inr v" and "conn_loop d rel' row ps res = Inr v'"
  shows "v' = v"
  using assms
proof (induction ps arbitrary: res)
  case (Cons p ps)
  obtain u where u: "evalPredicate rel row p = Inr u" using Cons.prems(2) by (cases "evalPredicate rel row p") auto
  obtain u' where u': "evalPredicate rel' row p = Inr u'" using Cons.prems(3) by (cases "evalPredicate rel' row p") auto
  have eq: "u' = u" by (rule Cons.prems(1) [OF _ u u']) simp
  have IH: "conn_loop d rel row ps s = Inr v \<Longrightarrow> conn_loop d rel' row ps s = Inr v' \<Longrightarrow> v' = v" for s
    by (rule Cons.IH, rule Cons.prems(1)) simp_all
  show ?case using Cons.prems(2,3) IH u u' eq by (simp split: if_splits)
qed simp

definition sees_alike :: "db \<Rightarrow> db \<Rightarrow> (relation_ref \<Rightarrow> predicate \<Rightarrow> bool) \<Rightarrow> bool" where
  "sees_alike db db' ok \<longleftrightarrow> (\<forall>r F. ok r F \<longrightarrow> same_visible db db' r F \<and> policy_on db r F)"

lemma sees_alikeD:
  assumes "sees_alike db db' ok" and "ok r F"
  obtains t t' where "db (rr_Name r) = Some t" and "db' (rr_Name r) = Some t'" and "t_Cols t' = t_Cols t"
    and "seen t' F = seen t F" and "\<not> HasExists F" and "set (Fields F) \<subseteq> set (t_Cols t)"
proof -
  have s: "same_visible db db' r F" "policy_on db r F"
    using assms unfolding sees_alike_def by (simp_all only: simp_thms)
  then obtain t where t: "db (rr_Name r) = Some t" by (cases "db (rr_Name r)") (auto simp: same_visible_def)
  with s obtain t' where t': "db' (rr_Name r) = Some t'" by (cases "db' (rr_Name r)") (auto simp: same_visible_def)
  show thesis
    by (rule that [OF t t']) (use s t t' in \<open>auto simp: same_visible_def policy_on_def list_all_iff\<close>)
qed

lemma evalPredicate_agree:
  assumes alike: "sees_alike db db' ok" and "searches ok p"
    and "r_db rel = db" "r_db rel' = db'" "r_Cols rel' = r_Cols rel"
    and "evalPredicate rel row p = Inr v" and "evalPredicate rel' row p = Inr v'"
  shows "v' = v"
  using assms(2-)
proof (induction p arbitrary: v v')
  case (Condition c)
  then show ?case by (simp add: evalCondition_cols [of rel' rel])
next
  case (And ps)
  show ?case
  proof (rule conn_loop_agree)
    show "conn_loop triFalse rel row ps triTrue = Inr v" using And.prems by (simp add: evalAnd_loop_conn)
    show "conn_loop triFalse rel' row ps triTrue = Inr v'" using And.prems by (simp add: evalAnd_loop_conn)
  qed (use And.IH And.prems in auto)
next
  case (Or ps)
  show ?case
  proof (rule conn_loop_agree)
    show "conn_loop triTrue rel row ps triFalse = Inr v" using Or.prems by (simp add: evalOr_loop_conn)
    show "conn_loop triTrue rel' row ps triFalse = Inr v'" using Or.prems by (simp add: evalOr_loop_conn)
  qed (use Or.IH Or.prems in auto)
next
  case (NotP p)
  then show ?case by (auto simp: bindR_eq_Inr)
next
  case (Exists r on p)
  obtain q F where p: "p = andPreds q F" and q: "\<not> HasExists q" and F: "ok r F"
    using Exists.prems(1) unfolding searches.simps by (elim exE conjE)
  obtain t t' where t: "db (rr_Name r) = Some t" "db' (rr_Name r) = Some t'" "t_Cols t' = t_Cols t"
      "seen t' F = seen t F" "\<not> HasExists F"
    by (rule sees_alikeD [OF alike F])
  let ?R = "\<lambda>u b. \<lparr>r_Cols = t_Cols u, r_Rows = t_Rows u, r_db = b, r_hidden = 0\<rparr>"
  obtain ms where ms: "matching_loop rel row (?R t db) on p (t_Rows t) = Inr ms" "v = boolTri (ms \<noteq> [])"
    using Exists.prems t(1) by (auto simp: evalScan_def bindR_eq_Inr)
  obtain ms' where ms': "matching_loop rel' row (?R t' db') on p (t_Rows t') = Inr ms'" "v' = boolTri (ms' \<noteq> [])"
    using Exists.prems t(2) by (auto simp: evalScan_def bindR_eq_Inr)
  have "ms' = ms"
    by (rule matching_same [OF t(3-5) q, where left' = rel' and left = rel and right = "?R t db" and right' = "?R t' db'" and row = row and on = on])
      (use Exists.prems ms ms' t p in simp_all)
  with ms ms' show ?case by simp
qed simp

section \<open>Joins and selections\<close>

lemma mapR_filter:
  assumes "mapR f xs = Inr ys" and "\<And>x y. x \<in> set xs \<Longrightarrow> f x = Inr y \<Longrightarrow> P y = P x"
  shows "mapR f (filter P xs) = Inr (filter P ys)"
  using assms
proof (induction xs arbitrary: ys)
  case (Cons x xs)
  then obtain y zs where y: "f x = Inr y" "mapR f xs = Inr zs" "ys = y # zs" by (auto simp: bindR_eq_Inr)
  have "mapR f (filter P xs) = Inr (filter P zs)" by (rule Cons.IH [OF y(2)], rule Cons.prems(2)) simp_all
  moreover have "P y = P x" by (rule Cons.prems(2)) (simp_all add: y)
  ultimately show ?case by (simp add: y)
qed simp

lemma mapR_agree:
  assumes "mapR f xs = Inr ys" and "mapR f' xs = Inr ys'"
    and "\<And>x y y'. x \<in> set xs \<Longrightarrow> f x = Inr y \<Longrightarrow> f' x = Inr y' \<Longrightarrow> y' = y"
  shows "ys' = ys"
  using assms
proof (induction xs arbitrary: ys ys')
  case (Cons x xs)
  obtain y zs where y: "f x = Inr y" "mapR f xs = Inr zs" "ys = y # zs"
    using Cons.prems(1) by (auto simp: bindR_eq_Inr)
  obtain y' zs' where y': "f' x = Inr y'" "mapR f' xs = Inr zs'" "ys' = y' # zs'"
    using Cons.prems(2) by (auto simp: bindR_eq_Inr)
  have "zs' = zs" by (rule Cons.IH [OF y(2) y'(2)], rule Cons.prems(3)) simp_all
  moreover have "y' = y" by (rule Cons.prems(3) [OF _ y(1) y'(1)]) simp
  ultimately show ?case by (simp add: y y')
qed simp

text \<open>
  Two relations agree on the rows of the base relation (columns \<open>cs\<close>) that \<open>F\<close> holds for: same columns, and the
  same rows once the others are left out. A join extends each row, so it keeps that.
\<close>

definition base_rel :: "string list \<Rightarrow> relation" where
  "base_rel cs = \<lparr>r_Cols = cs, r_Rows = [], r_db = Map.empty, r_hidden = 0\<rparr>"

definition base_sees :: "string list \<Rightarrow> predicate \<Rightarrow> val list \<Rightarrow> bool" where
  "base_sees cs F row \<longleftrightarrow> evalPredicate (base_rel cs) (take (length cs) row) F = Inr triTrue"

definition extends :: "string list \<Rightarrow> relation \<Rightarrow> bool" where
  "extends cs rel \<longleftrightarrow> (\<exists>ds. r_Cols rel = cs @ ds) \<and> (\<forall>row\<in>set (r_Rows rel). length row = length (r_Cols rel)) \<and>
     r_db rel = Map.empty"

definition agree_on :: "string list \<Rightarrow> predicate \<Rightarrow> relation \<Rightarrow> relation \<Rightarrow> bool" where
  "agree_on cs F rel rel' \<longleftrightarrow> extends cs rel \<and> extends cs rel' \<and> r_Cols rel' = r_Cols rel \<and>
     r_hidden rel' = r_hidden rel \<and> filter (base_sees cs F) (r_Rows rel') = filter (base_sees cs F) (r_Rows rel)"

lemma extends_row:
  assumes "extends cs rel" and "row \<in> set (r_Rows rel)"
  obtains ds ext where "r_Cols rel = cs @ ds" and "row = take (length cs) row @ ext"
    and "length (take (length cs) row) = length cs" and "length row = length (r_Cols rel)"
proof -
  obtain ds where ds: "r_Cols rel = cs @ ds" using assms(1) unfolding extends_def by (elim conjE exE)
  have l: "length row = length (r_Cols rel)" using assms by (simp add: extends_def)
  show thesis by (rule that [OF ds append_take_drop_id [symmetric] _ l]) (simp add: l ds)
qed

lemma join_row_agree:
  assumes "t_Cols t' = t_Cols t" "seen t' F = seen t F" "\<not> HasExists F" and "r_Cols rel' = r_Cols rel"
    and "join_row rel (table_rel t) on F row = Inr y" and "join_row rel' (table_rel t') on F row = Inr y'"
  shows "y' = y"
proof -
  obtain ms where ms: "matching rel row (table_rel t) on F = Inr ms"
    using assms(5) by (cases "matching rel row (table_rel t) on F") (auto simp: join_row_def)
  obtain ms' where ms': "matching rel' row (table_rel t') on F = Inr ms'"
    using assms(6) by (cases "matching rel' row (table_rel t') on F") (auto simp: join_row_def)
  have F: "andPreds NilPred F = F" by (simp add: andPreds_def)
  have "ms' = ms"
    by (rule matching_same [OF assms(1-3), where q = NilPred and left = rel and left' = rel' and row = row and on = on
          and right = "table_rel t" and right' = "table_rel t'"])
      (use ms ms' assms(1,4) F in \<open>simp_all add: matching_def table_rel_def\<close>)
  then show ?thesis using assms(1,5,6) ms ms' by (auto simp: join_row_def table_rel_def split: list.splits)
qed

lemma evalScan_table: "db (rr_Name r) = Some t \<Longrightarrow> evalScan db r = Inr (table_rel t)"
  by (simp add: evalScan_def table_rel_def)

lemma evalJoin_extends:
  assumes "extends cs rel" and "db (rr_Name r) = Some t" and wf: "\<forall>row\<in>set (t_Rows t). length row = length (t_Cols t)"
    and ev: "evalJoin db r a on p rel = Inr out"
  shows "extends cs out" and "r_Cols out = r_Cols rel @ map (\<lambda>c. a @ ''.'' @ c) (t_Cols t)"
    and "r_hidden out = r_hidden rel + length (t_Cols t)"
    and "mapR (join_row rel (table_rel t) on p) (r_Rows rel) = Inr (r_Rows out)"
    and "\<And>x y. x \<in> set (r_Rows rel) \<Longrightarrow> join_row rel (table_rel t) on p x = Inr y \<Longrightarrow> base_sees cs F y = base_sees cs F x"
proof -
  show rows: "mapR (join_row rel (table_rel t) on p) (r_Rows rel) = Inr (r_Rows out)"
    and cols: "r_Cols out = r_Cols rel @ map (\<lambda>c. a @ ''.'' @ c) (t_Cols t)"
    and "r_hidden out = r_hidden rel + length (t_Cols t)"
    using ev evalScan_table [of db r t] assms(2) by (auto simp: evalJoin_def bindR_eq_Inr table_rel_def)
  have ext: "\<exists>e. y = x @ e \<and> length e = length (t_Cols t)" if y: "join_row rel (table_rel t) on p x = Inr y" for x y
  proof -
    from y obtain e where e: "y = x @ e" "matching rel x (table_rel t) on p = Inr [] \<and> e = replicate (length (t_Cols t)) VNull \<or>
         matching rel x (table_rel t) on p = Inr [e]"
      unfolding join_row_Inr by (auto simp: table_rel_def)
    have "length e = length (t_Cols t)" using e(2)
    proof
      assume "matching rel x (table_rel t) on p = Inr [e]"
      then have "e \<in> set (t_Rows t)" using matching_subset by (fastforce simp: table_rel_def)
      with wf show ?thesis by blast
    qed simp
    with e(1) show ?thesis by blast
  qed
  have len: "length x = length (r_Cols rel)" if "x \<in> set (r_Rows rel)" for x
    using assms(1) that by (simp add: extends_def)
  obtain ds where ds: "r_Cols rel = cs @ ds" using assms(1) unfolding extends_def by (elim conjE exE)
  show "base_sees cs F y = base_sees cs F x" if "x \<in> set (r_Rows rel)" "join_row rel (table_rel t) on p x = Inr y" for x y
  proof -
    have "length cs \<le> length x" using len [OF that(1)] ds by simp
    with ext [OF that(2)] show ?thesis by (auto simp: base_sees_def)
  qed
  have "\<forall>y\<in>set (r_Rows out). length y = length (r_Cols out)"
    by (rule mapR_Inr_all [OF rows]) (use ext len cols in fastforce)
  moreover have "r_db out = Map.empty" using ev by (auto simp: evalJoin_def bindR_eq_Inr)
  ultimately show "extends cs out" using cols ds by (simp add: extends_def)
qed

lemma evalJoin_agree:
  assumes ag: "agree_on cs B rel rel'"
    and t: "db (rr_Name r) = Some t" "db' (rr_Name r) = Some t'" "t_Cols t' = t_Cols t" "seen t' F = seen t F"
      "\<not> HasExists F"
    and wf: "\<forall>row\<in>set (t_Rows t). length row = length (t_Cols t)" "\<forall>row\<in>set (t_Rows t'). length row = length (t_Cols t')"
    and ev: "evalJoin db r a on F rel = Inr out" "evalJoin db' r a on F rel' = Inr out'"
  shows "agree_on cs B out out'"
proof -
  have ex: "extends cs rel" "extends cs rel'" and cols: "r_Cols rel' = r_Cols rel" "r_hidden rel' = r_hidden rel"
    and rows: "filter (base_sees cs B) (r_Rows rel') = filter (base_sees cs B) (r_Rows rel)"
    using ag by (simp_all only: agree_on_def)
  note j = evalJoin_extends [OF ex(1) t(1) wf(1) ev(1)]
  note j' = evalJoin_extends [OF ex(2) t(2) wf(2) ev(2)]
  have "filter (base_sees cs B) (r_Rows out') = filter (base_sees cs B) (r_Rows out)"
  proof (rule mapR_agree)
    show "mapR (join_row rel (table_rel t) on F) (filter (base_sees cs B) (r_Rows rel)) = Inr (filter (base_sees cs B) (r_Rows out))"
      by (rule mapR_filter [OF j(4) j(5)])
    show "mapR (join_row rel' (table_rel t') on F) (filter (base_sees cs B) (r_Rows rel)) = Inr (filter (base_sees cs B) (r_Rows out'))"
      unfolding rows [symmetric] by (rule mapR_filter [OF j'(4) j'(5)])
    show "y' = y" if "join_row rel (table_rel t) on F x = Inr y" "join_row rel' (table_rel t') on F x = Inr y'" for x y y'
      by (rule join_row_agree [OF t(3-5) cols(1) that])
  qed
  then show ?thesis using j(1-3) j'(1-3) cols t(3) by (simp add: agree_on_def)
qed

lemma evalSelect_agree:
  assumes ag: "agree_on cs F rel rel'" and alike: "sees_alike db db' ok" and "searches ok p"
    and F: "\<not> HasExists F" "set (Fields F) \<subseteq> set cs"
    and implies: "\<And>rel row. evalPredicate rel row p = Inr triTrue \<Longrightarrow> evalPredicate rel row F = Inr triTrue"
    and ev: "evalSelect db p rel = Inr out" "evalSelect db' p rel' = Inr out'"
  shows "out' = out"
proof -
  have ex: "extends cs rel" "extends cs rel'" and cols: "r_Cols rel' = r_Cols rel" "r_hidden rel' = r_hidden rel"
    and rows: "filter (base_sees cs F) (r_Rows rel') = filter (base_sees cs F) (r_Rows rel)"
    using ag by (simp_all only: agree_on_def)
  let ?keep = "\<lambda>db rel row. evalPredicate (rel\<lparr>r_db := db\<rparr>) row p = Inr triTrue"
  have tests: "bindR (evalPredicate r row p) (\<lambda>v. Inr (v = triTrue)) = Inr True \<longleftrightarrow> evalPredicate r row p = Inr triTrue" for r row
    by (cases "evalPredicate r row p") auto
  have out: "r_Rows o' = filter (?keep d r) (r_Rows r) \<and>
      (\<forall>row\<in>set (r_Rows r). \<exists>v. evalPredicate (r\<lparr>r_db := d\<rparr>) row p = Inr v) \<and>
      o' = \<lparr>r_Cols = r_Cols r, r_Rows = r_Rows o', r_db = Map.empty, r_hidden = r_hidden r\<rparr>"
    if "evalSelect d p r = Inr o'" for d r o'
    using that by (auto simp: evalSelect_def bindR_eq_Inr filterR_eq_Inr tests split: sum.splits)
  have sub: "filter (?keep d r) (r_Rows r) = filter (?keep d r) (filter (base_sees cs F) (r_Rows r))"
    if r: "extends cs r" for d r
  proof -
    have "base_sees cs F row" if k: "row \<in> set (r_Rows r)" "?keep d r row" for row
    proof -
      obtain ds e where ds: "r_Cols r = cs @ ds" and row: "row = take (length cs) row @ e"
        and len: "length (take (length cs) row) = length cs"
        by (rule extends_row [OF r k(1)])
      have "evalPredicate (r\<lparr>r_db := d\<rparr>) (take (length cs) row @ e) F = evalPredicate (base_rel cs) (take (length cs) row) F"
        by (rule evalPredicate_prefix [OF F(1), where ds = ds]) (use F(2) ds len in \<open>simp_all add: base_rel_def\<close>)
      with implies [OF k(2)] row show ?thesis by (simp add: base_sees_def)
    qed
    then show ?thesis unfolding filter_filter by (intro filter_cong) auto
  qed
  have same: "?keep db' rel' row = ?keep db rel row"
    if "row \<in> set (filter (base_sees cs F) (r_Rows rel))" for row
  proof -
    have r: "row \<in> set (r_Rows rel)" "row \<in> set (r_Rows rel')"
      using that arg_cong [OF rows, of set] by auto
    obtain v where v: "evalPredicate (rel\<lparr>r_db := db\<rparr>) row p = Inr v" using out [OF ev(1)] r(1) by blast
    obtain v' where v': "evalPredicate (rel'\<lparr>r_db := db'\<rparr>) row p = Inr v'" using out [OF ev(2)] r(2) by blast
    have "v' = v"
      by (rule evalPredicate_agree [OF alike assms(3), where rel = "rel\<lparr>r_db := db\<rparr>" and rel' = "rel'\<lparr>r_db := db'\<rparr>" and row = row])
        (use cols v v' in simp_all)
    with v v' show ?thesis by simp
  qed
  have "r_Rows out' = filter (?keep db' rel') (filter (base_sees cs F) (r_Rows rel'))"
    using out [OF ev(2)] sub [OF ex(2), of db'] by simp
  also have "\<dots> = filter (?keep db rel) (filter (base_sees cs F) (r_Rows rel))"
    unfolding rows by (rule filter_cong [OF refl same])
  also have "\<dots> = r_Rows out" using out [OF ev(1)] sub [OF ex(1), of db] by simp
  finally have "r_Rows out' = r_Rows out" .
  then show ?thesis
    using out [OF ev(1), THEN conjunct2, THEN conjunct2] out [OF ev(2), THEN conjunct2, THEN conjunct2]
    by (simp only: cols)
qed

end
