(* ===== verification/Read_Plan_Props.thy ===== *)
theory Read_Plan_Props
  imports Read_Plan Visibility
begin

text \<open>
  What a planned read reveals: every relation its expression scans, joins or searches carries the row filter of a
  read the authorizer allows the caller, so rows those filters exclude do not show in the result.
\<close>

text \<open>
  A grant of the caller: the authorizer allows one of the actions on the entity behind relation \<open>r\<close> for the caller's
  role and subject, with row filter \<open>F\<close>.
\<close>

definition granted :: "'err plan_context \<Rightarrow> action set \<Rightarrow> relation_ref \<Rightarrow> predicate \<Rightarrow> bool" where
  "granted c acts r F \<longleftrightarrow>
     (\<exists>req dec name res. rq_Role req = pc_role c \<and> rq_Subject req = pc_subject c \<and> rq_Action req \<in> acts \<and>
        Resolve (pc_registry c) name = Some res \<and> (rq_Entity req = name \<or> rq_Entity req = e_Name (rs_Entity res)) \<and>
        Ref (rs_Entity res) = r \<and> pc_authz c req = Inr dec \<and> d_Allowed dec \<and> d_RowFilter dec = F)"

abbreviation read_grant :: "'err plan_context \<Rightarrow> relation_ref \<Rightarrow> predicate \<Rightarrow> bool" where
  "read_grant c \<equiv> granted c {ActionRead}"

lemma grantedI:
  "rq_Role req = pc_role c \<Longrightarrow> rq_Subject req = pc_subject c \<Longrightarrow> rq_Action req \<in> acts \<Longrightarrow>
   Resolve (pc_registry c) name = Some res \<Longrightarrow> rq_Entity req = name \<or> rq_Entity req = e_Name (rs_Entity res) \<Longrightarrow>
   pc_authz c req = Inr dec \<Longrightarrow> d_Allowed dec \<Longrightarrow> granted c acts (Ref (rs_Entity res)) (d_RowFilter dec)"
  unfolding granted_def by (intro exI [of _ req] exI [of _ dec] exI [of _ name] exI [of _ res] conjI) simp_all

lemma granted_mono: "granted c acts r F \<Longrightarrow> acts \<subseteq> acts' \<Longrightarrow> granted c acts' r F"
  unfolding granted_def by (elim exE conjE, intro exI conjI) (assumption | erule (1) subsetD)+

lemma lift_error_Inr [simp]: "lift_error f r = Inr x \<longleftrightarrow> r = Inr x"
  by (cases r) (simp_all add: lift_error_def)

lemma resolveDMLEntity_Inr: "resolveDMLEntity reg name = Inr res \<Longrightarrow> Resolve reg name = Some res"
  by (auto simp: resolveDMLEntity_def split: option.splits if_splits)

lemma authorizeRequest_Inr: "authorizeRequest c req = Inr dec \<Longrightarrow> pc_authz c req = Inr dec \<and> d_Allowed dec"
  by (auto simp: authorizeRequest_def split: sum.splits if_splits option.splits)

lemma relatedTarget_grant:
  assumes "relatedTarget c e r fs = Inr (target, g)"
  shows "read_grant c (Ref (rs_Entity target)) (d_RowFilter g)"
proof -
  obtain req where res: "Resolve (pc_registry c) (rl_Target r) = Some target"
    and "authorizeRequest c req = Inr g" and "req = read_request c (e_Name (rs_Entity target)) (fs @ jc_target (relationJoin r))
        (fs @ jc_target (relationJoin r)) NilPred"
    using assms by (auto simp: relatedTarget_def bindR_eq_Inr Let_def split: if_splits dest!: resolveDMLEntity_Inr)
  then show ?thesis
    by (intro grantedI [of req _ _ "rl_Target r"]) (auto simp: read_request_def dest!: authorizeRequest_Inr)
qed

lemma HasExists_Map [simp]: "HasExists (MapConditions p f) = HasExists p"
  by (simp add: HasExists_depth)

lemma planJoins_grants:
  assumes "planJoins c res paths = Inr rel" and "j \<in> set (rel_joins rel)"
  shows "read_grant c (jn_Right j) (jn_RightPredicate j)"
proof -
  let ?ok = "\<lambda>rel. \<forall>j\<in>set (rel_joins rel). read_grant c (jn_Right j) (jn_RightPredicate j)"
  have step: "?ok out'" if k: "?ok out" "plan_join c res asked out = Inr out'" for asked out out'
  proof -
    obtain target g where g: "relatedTarget c (rs_Entity res) (relation_named (rs_Entity res) (fst asked)) (snd asked) = Inr (target, g)"
      and "\<exists>a on. rel_joins out' = rel_joins out @ [\<lparr>jn_Right = Ref (rs_Entity target), jn_Alias = a, jn_On = on,
                    jn_RightPredicate = d_RowFilter g\<rparr>]"
      using k(2) by (auto simp: plan_join_def bindR_eq_Inr Let_def split: if_splits)
    with k(1) relatedTarget_grant [OF g] show ?thesis by auto
  qed
  have "?ok rel"
    by (rule foldR_invariant [where P = ?ok, OF assms(1) [unfolded planJoins_def Let_def]], simp) (rule step)
  with assms(2) show ?thesis by blast
qed

lemma resolveExists_searches:
  "resolveExists c res p = Inr (q, ls) \<Longrightarrow> searches (read_grant c) q"
  "walkAll c res ps = Inr (qs, ls) \<Longrightarrow> \<forall>q\<in>set qs. searches (read_grant c) q"
proof (induction c res p and c res ps arbitrary: q ls and qs ls rule: resolveExists_walkAll.induct)
  case (1 c res rref on p)
  obtain r target g where t: "\<not> HasExists p" "relatedTarget c (rs_Entity res) r (Fields p) = Inr (target, g)"
    and q: "q = Exists (Ref (rs_Entity target)) (joinPairs (relationJoin r))
              (andPreds (columnsPredicate (rs_Entity target) p) (d_RowFilter g))"
    using 1 by (auto simp: resolve_group_def bindR_eq_Inr Let_def split: option.splits if_splits)
  show ?case
    unfolding q searches.simps
    by (intro exI conjI, rule refl) (use t relatedTarget_grant [OF t(2)] in \<open>simp_all add: columnsPredicate_def\<close>)
next
  case (7 c res p ps)
  then obtain q0 ls0 qs0 ls1 where r: "resolveExists c res p = Inr (q0, ls0)" "walkAll c res ps = Inr (qs0, ls1)"
    "qs = q0 # qs0" by (auto simp: bindR_eq_Inr)
  from 7(1) [OF r(1)] 7(2) [OF r(1) refl r(2)] r(3) show ?case by simp
qed (auto simp: bindR_eq_Inr)

section \<open>Cursors\<close>

lemma equalsValue_exists [simp]: "\<not> HasExists (equalsValue f v)"
  by (simp add: equalsValue_def)

lemma afterValue_exists: "afterValue t v = Some p \<Longrightarrow> \<not> HasExists p"
  by (auto simp: afterValue_def Let_def split: if_splits)

lemma conjunction_exists: "\<forall>p\<in>set ps. \<not> HasExists p \<Longrightarrow> \<not> HasExists (conjunction ps)"
  by (auto simp: conjunction_def list_ex_iff split: list.splits)

lemma cursor_terms_exists:
  assumes "cursor_terms ts cursor ands ors = Inr out" and "\<forall>p\<in>set ands. \<not> HasExists p" and "\<forall>p\<in>set ors. \<not> HasExists p"
  shows "\<forall>p\<in>set out. \<not> HasExists p"
  using assms
proof (induction ts cursor ands ors rule: cursor_terms.induct)
  case (2 t ts cursor ands ors)
  obtain v where v: "map_of cursor (ot_Field t) = Some v" "\<not> (v = VNull \<and> \<not> ot_Nullable t)"
    using "2.prems"(1) by (auto split: option.splits if_splits)
  let ?ors = "case afterValue t v of None \<Rightarrow> ors | Some after \<Rightarrow> ors @ [conjunction (ands @ [after])]"
  have "\<not> HasExists (conjunction (ands @ [after]))" if "afterValue t v = Some after" for after
    by (rule conjunction_exists) (use "2.prems"(2) afterValue_exists [OF that] in simp)
  then have ors: "\<forall>p\<in>set ?ors. \<not> HasExists p" using "2.prems"(3) by (auto split: option.splits)
  have ands: "\<forall>p\<in>set (ands @ [equalsValue (ot_Field t) v]). \<not> HasExists p" using "2.prems"(2) by simp
  have "cursor_terms ts cursor (ands @ [equalsValue (ot_Field t) v]) ?ors = Inr out"
    using "2.prems"(1) v by simp
  then show ?case by (rule "2.IH" [OF v _ ands ors])
qed simp

lemma orderCursor_exists:
  assumes "orderCursor o' cursor = Inr p"
  shows "\<not> HasExists p"
proof -
  obtain ors where ors: "cursor_terms (ro_terms o') cursor [] [] = Inr ors"
    and p: "(case ors of [] \<Rightarrow> Inl WrongCursor | [p] \<Rightarrow> Inr p | _ \<Rightarrow> Inr (Or ors)) = Inr p"
    using assms by (auto simp: orderCursor_def bindR_eq_Inr split: if_splits)
  have "\<forall>p\<in>set ors. \<not> HasExists p" by (rule cursor_terms_exists [OF ors]) simp_all
  with p show ?thesis by (auto simp: list_ex_iff split: list.splits)
qed

lemma one_or_all_exists:
  assumes "\<And>p. p \<in> set ps \<Longrightarrow> \<not> HasExists p" and "ps \<noteq> []"
  shows "\<not> HasExists (if length ps = 1 then hd ps else And ps)" and "\<not> HasExists (if length ps = 1 then hd ps else Or ps)"
  using assms(1) [of "hd ps"] assms by (auto simp: list_ex_iff)

lemma keyset_or_exists: "\<not> HasExists (keyset_or cursor cols i)"
  unfolding keyset_or_def Let_def by (rule one_or_all_exists) (auto simp: keyset_term_def)

lemma keysetAfter_exists: "\<not> HasExists (fst (keysetAfter pks cursor))"
  by (auto simp: keysetAfter_def Let_def keyset_or_exists list_ex_iff hd_map)

lemma readCursor_exists: "readCursor e order inp = Inr (keyset, cols) \<Longrightarrow> \<not> HasExists keyset"
  using keysetAfter_exists [of "CursorKey e" "rd_Cursor inp"]
  by (auto simp: readCursor_def cursorPredicate_def bindR_eq_Inr split: if_splits prod.splits dest!: orderCursor_exists)

section \<open>The plan\<close>

lemma orderRead_request:
  assumes "orderRead c res inp req rel = Inr (order, req')"
  shows "rq_Role req' = rq_Role req \<and> rq_Subject req' = rq_Subject req \<and> rq_Action req' = rq_Action req \<and>
    rq_Entity req' = rq_Entity req"
  using assms unfolding orderRead_def Let_def
  by (auto simp: bindR_eq_Inr split del: if_split split: if_split_asm)

lemma authorizeRead_Inr: "authorizeRead c res inp req = Inr g \<Longrightarrow> pc_authz c req = Inr g \<and> d_Allowed g"
  by (auto simp: authorizeRead_def bindR_eq_Inr split: if_splits dest!: authorizeRequest_Inr)

lemma bindR_ok: "bindR m h = Inr y \<Longrightarrow> \<exists>a. m = Inr a"
  by (cases m) simp_all

lemma bindR_ok2: "bindR m h = Inr y \<Longrightarrow> \<exists>a b. m = Inr (a, b)"
  by (cases m) auto

lemma bindR_ok3: "bindR m h = Inr y \<Longrightarrow> \<exists>a b c. m = Inr (a, b, c)"
  by (cases m) auto

text \<open>What the plan of a read holds, all of it under grants of the caller.\<close>

lemma prepareReadPlan_grants:
  assumes "prepareReadPlan (c :: 'e plan_context) inp = Inr plan"
  obtains pred keyset where
    "read_grant c (Ref (rs_Entity (rp_res plan))) (d_RowFilter (rp_grant plan))"
    and "\<forall>j\<in>set (rel_joins (rp_rel plan)). read_grant c (jn_Right j) (jn_RightPredicate j)"
    and "rp_full plan = andPreds (andPreds pred (d_RowFilter (rp_grant plan))) keyset"
    and "searches (read_grant c) pred" and "\<not> HasExists keyset"
proof -
  note prep = assms [unfolded prepareReadPlan_def]
  obtain res pred0 where p: "planEntity c (rd_Entity inp) ActionRead (rd_Filter inp) = Inr (res, pred0)"
    using bindR_ok2 [OF prep] by (elim exE)
  note prep = prep [unfolded p bindR_simps prod.case]
  obtain rf projection where f: "readFieldNames res inp = (Inr (rf, projection) :: 'e plan_error + _)"
    using bindR_ok2 [OF prep] by (elim exE)
  note prep = prep [unfolded f bindR_simps prod.case]
  have nil: "snd (splitPaths (rs_Entity res) (ri_Fields inp)) = []"
    using prep by (cases "snd (splitPaths (rs_Entity res) (ri_Fields inp))") simp_all
  obtain own ps where sp: "splitPaths (rs_Entity res) rf = (own, ps)" by (cases "splitPaths (rs_Entity res) rf")
  obtain paths where paths: "paths = ps @ snd (splitPaths (rs_Entity res) (map oj_Field (ri_OrderBy inp)))" by simp
  note prep = prep [unfolded nil list.case sp Let_def prod.case, folded paths]
  obtain rel pred locals where rel: "relate c res pred0 paths = Inr (rel, pred, locals)"
    using bindR_ok3 [OF prep] by (elim exE)
  note prep = prep [unfolded rel bindR_simps prod.case]
  obtain u where u: "checkReadUses c res inp (own @ locals) locals = Inr u"
    using bindR_ok [OF prep] by (elim exE)
  note prep = prep [unfolded u bindR_simps]
  obtain order req where ord: "orderRead c res inp (read_request c (rd_Entity inp) projection (own @ locals) pred) rel = Inr (order, req)"
    using bindR_ok2 [OF prep] by (elim exE)
  note prep = prep [unfolded ord bindR_simps prod.case]
  obtain g where auth: "authorizeRead c res inp req = Inr g"
    using bindR_ok [OF prep] by (elim exE)
  note prep = prep [unfolded auth bindR_simps]
  obtain keyset keysetCols where cur: "readCursor (rs_Entity res) order inp = (Inr (keyset, keysetCols) :: 'e plan_error + _)"
    using bindR_ok2 [OF prep] by (elim exE)
  note prep = prep [unfolded cur bindR_simps prod.case sum.inject]
  have pl: "rp_res plan = res" "rp_rel plan = rel" "rp_grant plan = g"
    "rp_full plan = andPreds (andPreds pred (d_RowFilter g)) keyset"
    using prep by (simp_all flip: prep)
  have found: "Resolve (pc_registry c) (rd_Entity inp) = Some res"
    using p by (auto simp: planEntity_def bindR_eq_Inr split: if_splits dest!: resolveDMLEntity_Inr)
  have base: "read_grant c (Ref (rs_Entity res)) (d_RowFilter g)"
    by (rule grantedI [of req _ _ "rd_Entity inp"])
      (use orderRead_request [OF ord] authorizeRead_Inr [OF auth] found in \<open>simp_all add: read_request_def\<close>)
  obtain ls p1 where pj: "planJoins c res paths = Inr rel"
    and ex: "resolveExists c res p1 = Inr (pred, ls)"
    using rel by (auto simp: relate_def bindR_eq_Inr)
  show thesis
    by (rule that [unfolded pl, OF base ballI [OF planJoins_grants [OF pj]] refl resolveExists_searches(1) [OF ex] readCursor_exists [OF cur]])
qed

section \<open>The joined relation\<close>

lemma wf_db_rows: "wf_db db \<Longrightarrow> db n = Some t \<Longrightarrow> \<forall>row\<in>set (t_Rows t). length row = length (t_Cols t)"
  by (simp add: wf_db_def)

definition joined :: "join_plan list \<Rightarrow> expr \<Rightarrow> expr" where
  "joined js e = fold (\<lambda>j e. Join e (jn_Right j) (jn_Alias j) (jn_On j) (jn_RightPredicate j)) js e"

lemma joined_agree:
  assumes alike: "sees_alike db db' ok" and wf: "wf_db db" "wf_db db'"
    and js: "\<forall>j\<in>set js. ok (jn_Right j) (jn_RightPredicate j)"
    and start: "\<And>rel rel'. eval db e = Inr rel \<Longrightarrow> eval db' e = Inr rel' \<Longrightarrow> agree_on cs F rel rel'"
    and ev: "eval db (joined js e) = Inr rel" "eval db' (joined js e) = Inr rel'"
  shows "agree_on cs F rel rel'"
  using js start ev
proof (induction js arbitrary: e)
  case Nil
  then show ?case by (simp add: joined_def)
next
  case (Cons j js)
  let ?e = "Join e (jn_Right j) (jn_Alias j) (jn_On j) (jn_RightPredicate j)"
  have "ok (jn_Right j) (jn_RightPredicate j)" using Cons.prems(1) by simp
  then obtain t t' where t: "db (rr_Name (jn_Right j)) = Some t" "db' (rr_Name (jn_Right j)) = Some t'" "t_Cols t' = t_Cols t"
    "seen t' (jn_RightPredicate j) = seen t (jn_RightPredicate j)" "\<not> HasExists (jn_RightPredicate j)"
    by (rule sees_alikeD [OF alike])
  show ?case
  proof (rule Cons.IH)
    show "agree_on cs F out out'" if out: "eval db ?e = Inr out" "eval db' ?e = Inr out'" for out out'
    proof -
      obtain r where r: "eval db e = Inr r" "evalJoin db (jn_Right j) (jn_Alias j) (jn_On j) (jn_RightPredicate j) r = Inr out"
        using out(1) by (auto simp: bindR_eq_Inr)
      obtain r' where r': "eval db' e = Inr r'" "evalJoin db' (jn_Right j) (jn_Alias j) (jn_On j) (jn_RightPredicate j) r' = Inr out'"
        using out(2) by (auto simp: bindR_eq_Inr)
      show ?thesis
        by (rule evalJoin_agree [OF Cons.prems(2) [OF r(1) r'(1)] t wf_db_rows [OF wf(1) t(1)] wf_db_rows [OF wf(2) t(2)] r(2) r'(2)])
    qed
    show "\<forall>j\<in>set js. ok (jn_Right j) (jn_RightPredicate j)" using Cons.prems(1) by simp
    show "eval db (joined js ?e) = Inr rel" "eval db' (joined js ?e) = Inr rel'"
      using Cons.prems(3,4) by (simp_all add: joined_def)
  qed
qed

lemma scan_agree:
  assumes t: "db (rr_Name r) = Some t" "db' (rr_Name r) = Some t'" "t_Cols t' = t_Cols t" "seen t' F = seen t F"
      "\<not> HasExists F"
    and wf: "wf_db db" "wf_db db'"
  shows "agree_on (t_Cols t) F (table_rel t) (table_rel t')"
proof -
  have same: "evalPredicate (base_rel (t_Cols t)) row F = evalPredicate (table_rel u) row F" if "t_Cols u = t_Cols t" for u row
    by (rule evalPredicate_cols [OF t(5)]) (simp add: base_rel_def table_rel_def that)
  have sees: "filter (base_sees (t_Cols t) F) (t_Rows u) = seen u F"
    if "t_Cols u = t_Cols t" "\<forall>row\<in>set (t_Rows u). length row = length (t_Cols u)" for u
    unfolding seen_def by (rule filter_cong [OF refl]) (use that same [OF that(1)] in \<open>simp add: base_sees_def\<close>)
  show ?thesis
    using wf_db_rows [OF wf(1) t(1)] wf_db_rows [OF wf(2) t(2)] t(3,4) sees [of t] sees [of t']
    by (simp add: agree_on_def extends_def table_rel_def)
qed

lemma agree_everywhere:
  assumes "agree_on cs NilPred rel rel'"
  shows "rel' = rel"
proof -
  have "filter (base_sees cs NilPred) rows = rows" for rows by (simp add: base_sees_def)
  with assms show ?thesis by (cases rel; cases rel') (simp add: agree_on_def extends_def)
qed

section \<open>The read\<close>

text \<open>After the selection, a read is an operation on the relation alone.\<close>

definition finish :: "read_call \<Rightarrow> read_plan \<Rightarrow> expr \<Rightarrow> expr" where
  "finish inp plan e1 =
     (let e2 = (if ro_terms (rp_order plan) \<noteq> [] then Sort e1 (ro_terms (rp_order plan))
                else if rp_keysetCols plan \<noteq> [] then Sort e1 (map key_term (rp_keysetCols plan))
                else e1);
          e3 = Project e2 (projectItems (rs_Entity (rp_res plan)) (d_Fields (rp_grant plan)));
          e4 = (if ri_Distinct inp then Distinct e3 else e3)
      in if ri_Limit inp > 0 then Limit e4 (ri_Limit inp) (rd_Offset inp) else e4)"

definition chosen :: "relation_ref \<Rightarrow> join_plan list \<Rightarrow> predicate \<Rightarrow> expr" where
  "chosen r js full =
     (let e0 = joined js (Scan r []) in if full \<noteq> NilPred then Select e0 full else e0)"

abbreviation selected :: "read_plan \<Rightarrow> expr" where
  "selected plan \<equiv> chosen (Ref (rs_Entity (rp_res plan))) (rel_joins (rp_rel plan)) (rp_full plan)"

lemma buildReadExpression_split: "buildReadExpression inp plan = finish inp plan (selected plan)"
  by (simp add: buildReadExpression_def finish_def chosen_def wrap_def joined_def Let_def)

lemma finish_bind: "\<exists>k. \<forall>db. eval db (finish inp plan e) = bindR (eval db e) k"
proof -
  let ?s = "\<lambda>r. if ro_terms (rp_order plan) \<noteq> [] then evalSort (ro_terms (rp_order plan)) r
                else if rp_keysetCols plan \<noteq> [] then evalSort (map key_term (rp_keysetCols plan)) r else Inr r"
  let ?p = "evalProject (projectItems (rs_Entity (rp_res plan)) (d_Fields (rp_grant plan)))"
  let ?d = "\<lambda>r. if ri_Distinct inp then evalDistinct r else Inr r"
  let ?l = "\<lambda>r. if ri_Limit inp > 0 then evalLimit (ri_Limit inp) (rd_Offset inp) r else Inr r"
  have unit: "bindR m Inr = m" for m :: "interp_error + relation" by (cases m) simp_all
  have "eval db (finish inp plan e) = bindR (eval db e) (\<lambda>r. bindR (?s r) (\<lambda>r. bindR (?p r) (\<lambda>r. bindR (?d r) ?l)))" for db
    by (simp add: finish_def Let_def bindR_assoc unit)
  then show ?thesis by blast
qed

lemma chosen_agree:
  assumes alike: "sees_alike db db' ok" and wf: "wf_db db" "wf_db db'"
    and base: "ok r F" and joins: "\<forall>j\<in>set js. ok (jn_Right j) (jn_RightPredicate j)"
    and full: "full = andPreds (andPreds pred F) keyset" and search: "searches ok pred" and key: "\<not> HasExists keyset"
    and ev: "eval db (chosen r js full) = Inr out" "eval db' (chosen r js full) = Inr out'"
  shows "out' = out"
proof -
  let ?e = "joined js (Scan r [])"
  obtain t t' where t: "db (rr_Name r) = Some t" "db' (rr_Name r) = Some t'" "t_Cols t' = t_Cols t" "seen t' F = seen t F"
    "\<not> HasExists F" and cols: "set (Fields F) \<subseteq> set (t_Cols t)"
    by (rule sees_alikeD [OF alike base])
  have agree: "agree_on (t_Cols t) F rel rel'" if rel: "eval db ?e = Inr rel" "eval db' ?e = Inr rel'" for rel rel'
  proof (rule joined_agree [OF alike wf _ _ rel])
    show "agree_on (t_Cols t) F a b" if "eval db (Scan r []) = Inr a" "eval db' (Scan r []) = Inr b" for a b
      using that scan_agree [where db = db and db' = db', OF t wf] evalScan_table [of db r] evalScan_table [of db' r] t by simp
  qed (rule joins)
  show ?thesis
  proof (cases "full = NilPred")
    case True
    then have F: "F = NilPred" using full by simp
    have "eval db ?e = Inr out" "eval db' ?e = Inr out'" using ev True by (simp_all add: chosen_def)
    then have "agree_on (t_Cols t) NilPred out out'" by (rule agree [unfolded F])
    then show ?thesis by (rule agree_everywhere)
  next
    case False
    obtain rel where rel: "eval db ?e = Inr rel" "evalSelect db full rel = Inr out"
      using ev(1) False by (auto simp: chosen_def bindR_eq_Inr)
    obtain rel' where rel': "eval db' ?e = Inr rel'" "evalSelect db' full rel' = Inr out'"
      using ev(2) False by (auto simp: chosen_def bindR_eq_Inr)
    show ?thesis
    proof (rule evalSelect_agree [OF agree [OF rel(1) rel'(1)] alike _ t(5) cols _ rel(2) rel'(2)])
      show "searches ok full"
        unfolding full by (intro searches_andPreds search searches_without t(5) key)
      show "evalPredicate r row F = Inr triTrue" if "evalPredicate r row full = Inr triTrue" for r row
        using that unfolding full by (rule andPreds_true(2) [OF andPreds_true(1)])
    qed
  qed
qed

lemma selected_agree:
  assumes plan: "prepareReadPlan c inp = Inr plan" and alike: "sees_alike db db' (read_grant c)"
    and wf: "wf_db db" "wf_db db'"
    and ev: "eval db (selected plan) = Inr out" "eval db' (selected plan) = Inr out'"
  shows "out' = out"
proof -
  obtain pred keyset where p: "read_grant c (Ref (rs_Entity (rp_res plan))) (d_RowFilter (rp_grant plan))"
    "\<forall>j\<in>set (rel_joins (rp_rel plan)). read_grant c (jn_Right j) (jn_RightPredicate j)"
    "rp_full plan = andPreds (andPreds pred (d_RowFilter (rp_grant plan))) keyset"
    "searches (read_grant c) pred" "\<not> HasExists keyset"
    by (rule prepareReadPlan_grants [OF plan])
  show ?thesis by (rule chosen_agree [OF alike wf p ev])
qed

text \<open>
  C2: a planned read reveals no row its grants exclude. When two well-formed databases show the caller the same rows
  through every read the authorizer allows the caller (each under the row filter it gives, which names columns of the
  relation), the expression of a read, joins across relationships and EXISTS groups included, evaluates to the same
  result on both.
\<close>

theorem read_noninterference:
  assumes plan: "prepareReadPlan c inp = Inr plan" and wf: "wf_db db" "wf_db db'"
    and visible: "\<And>r F. read_grant c r F \<Longrightarrow> same_visible db db' r F \<and> policy_on db r F"
    and out: "Eval db (buildReadExpression inp plan) = Inr out" "Eval db' (buildReadExpression inp plan) = Inr out'"
  shows "out' = out"
proof -
  have alike: "sees_alike db db' (read_grant c)" unfolding sees_alike_def by (intro allI impI) (rule visible)
  obtain k where k: "\<And>db. eval db (finish inp plan (selected plan)) = bindR (eval db (selected plan)) k"
    using finish_bind by blast
  note out = out [unfolded Eval_def buildReadExpression_split k]
  obtain s where s: "eval db (selected plan) = Inr s"
    using out(1) by (cases "eval db (selected plan)") simp_all
  obtain s' where s': "eval db' (selected plan) = Inr s'"
    using out(2) by (cases "eval db' (selected plan)") simp_all
  have "s' = s" by (rule selected_agree [OF plan alike wf s s'])
  with out s s' show ?thesis by simp
qed

text \<open>
  The witness: posts with notes, both of a tenant; a read of the posts some note of which says hello, on two databases
  that differ in a post and a note of another tenant.
\<close>

definition ex_attr :: "string \<Rightarrow> attribute" where
  "ex_attr n = \<lparr>at_Name = n, at_Alias = [], at_Description = [],
     at_Domain = \<lparr>dm_Type = ''int'', dm_Nullable = False, dm_Default = False, dm_Generated = False, dm_AutoIncrement = False\<rparr>,
     at_Excluded = False, at_Mask = []\<rparr>"

definition ex_table_of :: "string \<Rightarrow> string list \<Rightarrow> relationship list \<Rightarrow> entity" where
  "ex_table_of n cs rs = zero_entity\<lparr>e_Name := n, e_Source := n, e_Attributes := map ex_attr cs, e_Relations := rs,
     e_MCP := \<lparr>mf_DMLTools = True, mf_CustomTool = False, mf_TrustedProcedure = False\<rparr>\<rparr>"

definition ex_posts :: entity where
  "ex_posts = ex_table_of ''posts'' [''id'', ''tenant''] [\<lparr>rl_Name = ''notes'', rl_Target = ''notes'', rl_Cardinality = ''many'', rl_JoinOn = [(''id'', ''post'')]\<rparr>]"

definition ex_notes :: entity where
  "ex_notes = ex_table_of ''notes'' [''post'', ''body'', ''tenant''] []"

definition ex_tenant :: predicate where
  "ex_tenant = Condition \<lparr>c_Field = ''tenant'', c_Op = OpEq, c_Value = VInt 1\<rparr>"

definition ex_context :: "unit plan_context" where
  "ex_context = \<lparr>pc_registry = empty_registry\<lparr>rg_byName := [''posts'' \<mapsto> ex_posts, ''notes'' \<mapsto> ex_notes],
       rg_visible := (\<lambda>n. if n = ''posts'' then e_Attributes ex_posts else e_Attributes ex_notes)\<rparr>,
     pc_authz = (\<lambda>req. Inr ((denied (NoReadableFields []))\<lparr>d_Allowed := True, d_Fields := [''id''], d_RowFilter := ex_tenant\<rparr>)),
     pc_role = ''reader'', pc_subject = Map.empty, pc_maxConds = 0, pc_maxRows = 10\<rparr>"

definition ex_call :: read_call where
  "ex_call = \<lparr>ri_Fields = [''id''], ri_OrderBy = [], ri_Distinct = False, ri_Limit = 10, rd_Entity = ''posts'', rd_Expand = [],
     rd_Filter = [CondJSON [] [] VNull None None None ''notes'' (Some [CondJSON ''body'' ''eq'' (VStr ''hello'') None None None [] None])],
     rd_Offset = 0, rd_Cursor = []\<rparr>"

definition ex_rows :: "int \<Rightarrow> db" where
  "ex_rows n = [''posts'' \<mapsto> \<lparr>t_Cols = [''id'', ''tenant''], t_Rows = [[VInt n, VInt 2], [VInt 5, VInt 1]]\<rparr>,
     ''notes'' \<mapsto> \<lparr>t_Cols = [''post'', ''body'', ''tenant''],
        t_Rows = [[VInt 5, VStr ''hello'', VInt 1], [VInt 5, VStr ''bye'', VInt n]]\<rparr>]"

definition ex_plan_read :: read_plan where
  "ex_plan_read = (case prepareReadPlan ex_context ex_call of Inr p \<Rightarrow> p)"

lemma ex_planned: "prepareReadPlan ex_context ex_call = Inr ex_plan_read"
proof -
  have "isl (prepareReadPlan ex_context ex_call) = False" by code_simp
  then show ?thesis by (auto simp: ex_plan_read_def isl_def split: sum.splits)
qed

lemma ex_rows_wf: "wf_db (ex_rows n)"
  by (auto simp: wf_db_def ex_rows_def len_ok_def is_int64_def split: if_splits)

lemma ex_grants:
  assumes "granted ex_context acts r F"
  shows "F = ex_tenant \<and> (rr_Name r = ''posts'' \<or> rr_Name r = ''notes'')"
  using assms
  by (auto simp: granted_def ex_context_def Resolve_def Ref_def empty_registry_def ex_posts_def ex_notes_def ex_table_of_def
      split: if_splits)

lemma ex_alike: "same_visible (ex_rows 2) (ex_rows 3) r ex_tenant \<and> policy_on (ex_rows 2) r ex_tenant"
  if "rr_Name r = ''posts'' \<or> rr_Name r = ''notes''"
  using that by (auto simp: same_visible_def policy_on_def ex_rows_def ex_tenant_def seen_def table_rel_def Fields_def
      evalCondition_def colIndex_def cell_def evalOp_def evalComparison_def compareValues_def three_way_def boolTri_def)

theorem read_noninterference_witness:
  "Eval (ex_rows 3) (buildReadExpression ex_call ex_plan_read) = Inr \<lparr>res_Cols = [''id''], res_Rows = [[VInt 5]]\<rparr> \<and>
   Eval (ex_rows 2) (buildReadExpression ex_call ex_plan_read) = Inr \<lparr>res_Cols = [''id''], res_Rows = [[VInt 5]]\<rparr>"
proof -
  have "Eval (ex_rows 2) (buildReadExpression ex_call ex_plan_read) = Inr \<lparr>res_Cols = [''id''], res_Rows = [[VInt 5]]\<rparr>"
    by code_simp
  moreover have "isl (Eval (ex_rows 3) (buildReadExpression ex_call ex_plan_read)) = False" by code_simp
  then obtain out where "Eval (ex_rows 3) (buildReadExpression ex_call ex_plan_read) = Inr out"
    by (cases "Eval (ex_rows 3) (buildReadExpression ex_call ex_plan_read)") simp_all
  ultimately show ?thesis
    using read_noninterference [OF ex_planned ex_rows_wf [of 2] ex_rows_wf [of 3] _ _ \<open>Eval (ex_rows 3) _ = Inr out\<close>]
      ex_grants ex_alike by blast
qed

end
