(* ===== verification/Aggregate_Plan.thy ===== *)
theory Aggregate_Plan
  imports Read_Plan
begin

text \<open>
  The plan of an aggregate, \<^verbatim>\<open>src/core/tool/tools_aggregate_impl.go\<close>: the entity, its filter and the relationships it
  groups by as a read plans them, then the aggregates with the names of their columns, the filter of the groups, their
  order and the limit. As in the plan of a read the authorizer is an argument and the text of an error a constructor.
\<close>

record agg_json =
  aj_Func :: string
  aj_Field :: string
  aj_Distinct :: bool

record aggregate_input =
  ai_Entity :: string
  ai_GroupBy :: "string list"
  ai_Aggregates :: "agg_json list"
  ai_Filter :: "cond_json list"
  ai_Having :: "cond_json list"
  ai_OrderBy :: "order_json list"
  ai_Limit :: int

datatype 'err aggregate_error =
    PlanRefused "'err plan_error" | AggregatesRelated string | ComputesNothing | BadAggFunc string | AggregatesField string
  | DistinctCounts | NamedAsGroup string | GivenTwice string | GroupNamesAggregate string | HavingRefused filter_error
  | HavingExists | HavingNames string | TooManyOrderTerms | BadOrderTerm string string | NegativeLimit

text \<open>The function a text names.\<close>

definition agg_of :: "string \<Rightarrow> agg_func" where
  "agg_of s = (case find (\<lambda>f. agg_string f = s) [AggCount, AggSum, AggAvg, AggMin, AggMax] of Some f \<Rightarrow> f | None \<Rightarrow> OtherAgg s)"

definition aggregateFieldNames :: "aggregate_input \<Rightarrow> string list" where
  "aggregateFieldNames inp =
     filterFields (ai_Filter inp) @ ai_GroupBy inp @ filter (\<lambda>f. f \<noteq> []) (map aj_Field (ai_Aggregates inp))"

record aggregate_plan =
  ap_res :: resolved
  ap_full :: predicate
  ap_rel :: related
  ap_grant :: decision

definition prepareAggregate :: "'err plan_context \<Rightarrow> aggregate_input \<Rightarrow> 'err aggregate_error + aggregate_plan" where
  "prepareAggregate c inp =
     bindR (lift_error PlanRefused (planEntity c (ai_Entity inp) ActionAggregate (ai_Filter inp))) (\<lambda>(res, pred0).
       let (own, paths) = splitPaths (rs_Entity res) (aggregateFieldNames inp) in
       case find (\<lambda>a. pathOf (rs_Entity res) (aj_Field a) \<noteq> None) (ai_Aggregates inp) of
         Some a \<Rightarrow> Inl (AggregatesRelated (aj_Field a))
       | None \<Rightarrow>
           bindR (lift_error PlanRefused (relate c res pred0 paths)) (\<lambda>(rel, pred, locals).
           bindR (lift_error PlanRefused (check_uses [] (own @ locals) res)) (\<lambda>_.
           bindR (lift_error PlanRefused (authorizeRequest c
               \<lparr>rq_Role = pc_role c, rq_Entity = ai_Entity inp, rq_Action = ActionAggregate, rq_Fields = [],
                rq_ReadFields = own @ locals, rq_WriteFields = [], rq_Subject = pc_subject c, rq_Predicate = pred\<rparr>)) (\<lambda>g.
             Inr \<lparr>ap_res = res, ap_full = andPreds pred (d_RowFilter g), ap_rel = rel, ap_grant = g\<rparr>))))"

definition aggregateColumn :: "agg_json \<Rightarrow> string" where
  "aggregateColumn a =
     (if aj_Field a = [] then aj_Func a
      else if aj_Distinct a then aj_Func a @ ''_distinct_'' @ aj_Field a
      else aj_Func a @ ''_'' @ aj_Field a)"

definition add_aggregate ::
  "string list \<Rightarrow> agg_json \<Rightarrow> agg_call list \<times> string list \<Rightarrow> 'err aggregate_error + (agg_call list \<times> string list)" where
  "add_aggregate groupBy a out =
     (let (calls, names) = out; f = agg_of (aj_Func a); name = aggregateColumn a in
      if \<not> agg_Valid f then Inl (BadAggFunc (aj_Func a))
      else if aj_Field a = [] \<and> aj_Func a \<noteq> agg_string AggCount then Inl (AggregatesField (aj_Func a))
      else if aj_Distinct a \<and> (aj_Func a \<noteq> agg_string AggCount \<or> aj_Field a = []) then Inl DistinctCounts
      else if name \<in> set groupBy then Inl (NamedAsGroup name)
      else if name \<in> set names then Inl (GivenTwice name)
      else Inr (calls @ [\<lparr>ag_Func = f, ag_Field = aj_Field a, ag_Distinct = aj_Distinct a, ag_Name = name\<rparr>], names @ [name]))"

definition aggregateCalls :: "agg_json list \<Rightarrow> string list \<Rightarrow> 'err aggregate_error + (agg_call list \<times> string list)" where
  "aggregateCalls aggregates groupBy =
     (if aggregates = [] \<and> groupBy = [] then Inl ComputesNothing
      else bindR (foldR (add_aggregate groupBy) aggregates ([], [])) (\<lambda>(calls, names). Inr (calls, groupBy @ names)))"

definition resultNullable :: "resolved \<Rightarrow> agg_call list \<Rightarrow> string \<Rightarrow> bool" where
  "resultNullable res calls name =
     (case find (\<lambda>a. ag_Name a = name) calls of
        Some a \<Rightarrow> ag_Func a \<noteq> AggCount
      | None \<Rightarrow> (case AttributeByName (rs_Entity res) name of Some a \<Rightarrow> dm_Nullable (at_Domain a) | None \<Rightarrow> True))"

definition aggregate_term ::
  "resolved \<Rightarrow> agg_call list \<Rightarrow> string list \<Rightarrow> related \<Rightarrow> order_json \<Rightarrow> 'err aggregate_error + order_term" where
  "aggregate_term res calls columns toIR t =
     (let dir = to_lower (if oj_Dir t = [] then ''asc'' else oj_Dir t); field = related_field (rel_rename toIR) (oj_Field t) in
      if dir \<noteq> ''asc'' \<and> dir \<noteq> ''desc'' \<or> oj_Field t \<notin> set columns then Inl (BadOrderTerm (oj_Field t) (oj_Dir t))
      else Inr \<lparr>ot_Field = field, ot_Dir = dir, ot_Nullable = resultNullable res calls field\<rparr>)"

definition aggregateShape ::
  "resolved \<Rightarrow> aggregate_input \<Rightarrow> expr \<Rightarrow> agg_call list \<Rightarrow> string list \<Rightarrow> related \<Rightarrow> nat \<Rightarrow> 'err aggregate_error + expr" where
  "aggregateShape res inp agg calls columns toIR maxConds =
     bindR (lift_error HavingRefused (filterToPredicate (ai_Having inp) maxConds)) (\<lambda>having.
       if HasExists having then Inl HavingExists
       else case find (\<lambda>f. f \<notin> set columns) (Fields having) of
              Some f \<Rightarrow> Inl (HavingNames f)
            | None \<Rightarrow>
                let e1 = (if having \<noteq> NilPred then Having agg (renamed toIR having) else agg) in
                if length (ai_OrderBy inp) > maxOrderTerms then Inl TooManyOrderTerms
                else bindR (mapR (aggregate_term res calls columns toIR) (ai_OrderBy inp)) (\<lambda>terms.
                  let e2 = (if terms \<noteq> [] then Sort e1 terms else e1) in
                  if ai_Limit inp < 0 then Inl NegativeLimit
                  else Inr (if ai_Limit inp > 0 then Limit e2 (ai_Limit inp) 0 else e2)))"

text \<open>The groups as the IR names them; one that is the name of an aggregate is refused.\<close>

definition group_columns ::
  "aggregate_plan \<Rightarrow> agg_call list \<Rightarrow> string list \<Rightarrow> 'err aggregate_error + (string \<times> string) list" where
  "group_columns plan calls groupBy =
     mapR (\<lambda>g. let column = related_field (rel_rename (ap_rel plan)) (columnOf (rs_Entity (ap_res plan)) g) in
               if list_ex (\<lambda>a. ag_Name a = column) calls then Inl (GroupNamesAggregate g) else Inr (g, column)) groupBy"

text \<open>The expression \<^verbatim>\<open>compileAggregate\<close> compiles, and the names of its columns.\<close>

definition aggregateExpression ::
  "aggregate_input \<Rightarrow> aggregate_plan \<Rightarrow> nat \<Rightarrow> 'err aggregate_error + (expr \<times> string list)" where
  "aggregateExpression inp plan maxConds =
     (let e = rs_Entity (ap_res plan);
          e0 = wrap (ap_rel plan) (Scan (Ref e) []);
          e1 = (if ap_full plan \<noteq> NilPred then Select e0 (ap_full plan) else e0) in
      bindR (aggregateCalls (ai_Aggregates inp) (ai_GroupBy inp)) (\<lambda>(calls, columns).
      bindR (group_columns plan calls (ai_GroupBy inp)) (\<lambda>groups.
        let calls' = map (\<lambda>a. a\<lparr>ag_Field := columnOf e (ag_Field a)\<rparr>) calls;
            toIR = \<lparr>rel_joins = [], rel_locals = [], rel_rename = fold (\<lambda>(g, column) m. m(g \<mapsto> column)) groups Map.empty\<rparr> in
        bindR (aggregateShape (ap_res plan) inp (Aggregate e1 (map snd groups) calls') calls' columns toIR maxConds) (\<lambda>expr.
          Inr (expr, columns)))))"

end
