(* ===== verification/Aggregate_Plan_Props.thy ===== *)
theory Aggregate_Plan_Props
  imports Aggregate_Plan Read_Plan_Props
begin

text \<open>
  What an aggregate reveals: as a read, it counts, sums and groups only rows its grants let the caller see.
\<close>

abbreviation data_grant :: "'err plan_context \<Rightarrow> relation_ref \<Rightarrow> predicate \<Rightarrow> bool" where
  "data_grant c \<equiv> granted c {ActionRead, ActionAggregate}"

lemma searches_mono:
  assumes "\<And>r F. ok r F \<Longrightarrow> ok' r F"
  shows "searches ok p \<Longrightarrow> searches ok' p"
proof (induction p)
  case (Exists r on p)
  then show ?case unfolding searches.simps by (elim exE conjE) (intro exI conjI, assumption+, erule assms)
qed auto

lemma evalSelect_any_db:
  assumes "\<not> HasExists p"
  shows "evalSelect db' p r = evalSelect db p r"
proof -
  have same: "evalPredicate (r\<lparr>r_db := db'\<rparr>) row p = evalPredicate (r\<lparr>r_db := db\<rparr>) row p" for row
    by (rule evalPredicate_cols [OF assms]) simp
  show ?thesis unfolding evalSelect_def same ..
qed

lemma prepareAggregate_grants:
  assumes "prepareAggregate (c :: 'e plan_context) inp = Inr plan"
  obtains pred where
    "data_grant c (Ref (rs_Entity (ap_res plan))) (d_RowFilter (ap_grant plan))"
    and "\<forall>j\<in>set (rel_joins (ap_rel plan)). data_grant c (jn_Right j) (jn_RightPredicate j)"
    and "ap_full plan = andPreds (andPreds pred (d_RowFilter (ap_grant plan))) NilPred"
    and "searches (data_grant c) pred"
proof -
  note prep = assms [unfolded prepareAggregate_def]
  obtain res pred0 where p: "planEntity c (ai_Entity inp) ActionAggregate (ai_Filter inp) = Inr (res, pred0)"
    using bindR_ok2 [OF prep] by (elim exE) simp
  have l: "lift_error PlanRefused (planEntity c (ai_Entity inp) ActionAggregate (ai_Filter inp)) = Inr (res, pred0)" by (simp add: p)
  obtain own paths where sp: "splitPaths (rs_Entity res) (aggregateFieldNames inp) = (own, paths)"
    by (cases "splitPaths (rs_Entity res) (aggregateFieldNames inp)")
  note prep = prep [unfolded l bindR_simps prod.case sp Let_def]
  have none: "find (\<lambda>a. pathOf (rs_Entity res) (aj_Field a) \<noteq> None) (ai_Aggregates inp) = None"
    using prep by (cases "find (\<lambda>a. pathOf (rs_Entity res) (aj_Field a) \<noteq> None) (ai_Aggregates inp)") simp_all
  note prep = prep [unfolded none option.case]
  obtain rel pred locals where rel: "relate c res pred0 paths = Inr (rel, pred, locals)"
    using bindR_ok3 [OF prep] by (elim exE) simp
  have l: "lift_error PlanRefused (relate c res pred0 paths) = Inr (rel, pred, locals)" by (simp add: rel)
  note prep = prep [unfolded l bindR_simps prod.case]
  obtain req where req: "req = \<lparr>rq_Role = pc_role c, rq_Entity = ai_Entity inp, rq_Action = ActionAggregate, rq_Fields = [],
      rq_ReadFields = own @ locals, rq_WriteFields = [], rq_Subject = pc_subject c, rq_Predicate = pred\<rparr>" by simp
  obtain g where g: "authorizeRequest c req = Inr g" and pl: "plan = \<lparr>ap_res = res, ap_full = andPreds pred (d_RowFilter g), ap_rel = rel, ap_grant = g\<rparr>"
    using prep [folded req] by (auto simp: bindR_eq_Inr)
  have found: "Resolve (pc_registry c) (ai_Entity inp) = Some res"
    using p by (auto simp: planEntity_def bindR_eq_Inr split: if_splits dest!: resolveDMLEntity_Inr)
  have base: "data_grant c (Ref (rs_Entity res)) (d_RowFilter g)"
    by (rule grantedI [of req _ _ "ai_Entity inp"]) (use authorizeRequest_Inr [OF g] found in \<open>simp_all add: req\<close>)
  obtain ls p1 where pj: "planJoins c res paths = Inr rel" and ex: "resolveExists c res p1 = Inr (pred, ls)"
    using rel by (auto simp: relate_def bindR_eq_Inr)
  have more: "data_grant c r F" if "read_grant c r F" for r F by (rule granted_mono [OF that]) simp
  show thesis
  proof (rule that)
    show "data_grant c (Ref (rs_Entity (ap_res plan))) (d_RowFilter (ap_grant plan))" using base by (simp add: pl)
    show "\<forall>j\<in>set (rel_joins (ap_rel plan)). data_grant c (jn_Right j) (jn_RightPredicate j)"
      using planJoins_grants [OF pj] by (auto simp: pl intro: more)
    show "ap_full plan = andPreds (andPreds pred (d_RowFilter (ap_grant plan))) NilPred" by (simp add: pl andPreds_def)
    show "searches (data_grant c) pred" by (rule searches_mono [OF more resolveExists_searches(1) [OF ex]])
  qed
qed

text \<open>The shape given to an aggregate is an operation on its relation.\<close>

lemma aggregateShape_bind:
  assumes "aggregateShape res inp (Aggregate e g as) calls columns toIR n = (Inr x :: 'a aggregate_error + expr)"
  shows "\<exists>k. \<forall>db. eval db x = bindR (eval db (Aggregate e g as)) k"
proof -
  note shape = assms [unfolded aggregateShape_def]
  obtain having where f: "filterToPredicate (ai_Having inp) n = Inr having" using bindR_ok [OF shape] by (elim exE) simp
  have l: "lift_error HavingRefused (filterToPredicate (ai_Having inp) n) = Inr having" by (simp add: f)
  note shape = shape [unfolded l bindR_simps]
  have h: "\<not> HasExists having" using shape by (cases "HasExists having") simp_all
  note shape = shape [unfolded if_not_P [OF h]]
  have none: "find (\<lambda>f. f \<notin> set columns) (Fields having) = None"
    using shape by (cases "find (\<lambda>f. f \<notin> set columns) (Fields having)") simp_all
  have len: "\<not> length (ai_OrderBy inp) > maxOrderTerms"
    using shape by (cases "length (ai_OrderBy inp) > maxOrderTerms") (simp_all add: none)
  note shape = shape [unfolded none option.case Let_def if_not_P [OF len]]
  obtain terms where ts: "mapR (aggregate_term res calls columns toIR) (ai_OrderBy inp) = (Inr terms :: 'a aggregate_error + _)"
    using bindR_ok [OF shape] by (elim exE)
  note shape = shape [unfolded ts bindR_simps]
  have neg: "\<not> ai_Limit inp < 0" using shape by (cases "ai_Limit inp < 0") simp_all
  let ?a = "Aggregate e g as"
  let ?e1 = "if having \<noteq> NilPred then Having ?a (renamed toIR having) else ?a"
  let ?e2 = "if terms \<noteq> [] then Sort ?e1 terms else ?e1"
  have x: "x = (if ai_Limit inp > 0 then Limit ?e2 (ai_Limit inp) 0 else ?e2)"
    using shape unfolding if_not_P [OF neg] sum.inject by (rule sym)
  let ?h = "\<lambda>r. if having \<noteq> NilPred then evalSelect Map.empty (renamed toIR having) r else Inr r"
  let ?s = "\<lambda>r. if terms \<noteq> [] then evalSort terms r else Inr r"
  let ?l = "\<lambda>r. if ai_Limit inp > 0 then evalLimit (ai_Limit inp) 0 r else Inr r"
  have unit: "bindR m Inr = m" for m :: "interp_error + relation" by (cases m) simp_all
  have sel: "evalSelect db (renamed toIR having) = evalSelect Map.empty (renamed toIR having)" for db
    by (rule ext, rule evalSelect_any_db) (simp add: renamed_def h)
  have "eval db x = bindR (eval db (Aggregate e g as)) (\<lambda>r. bindR (?h r) (\<lambda>r. bindR (?s r) ?l))" for db
    unfolding x by (simp add: bindR_assoc unit sel [of db])
  then show ?thesis by blast
qed

text \<open>
  C3: an aggregate reveals no row its grants exclude. When two well-formed databases show the caller the same rows
  through every read or aggregate the authorizer allows the caller, the aggregate planned for a call, with its groups,
  having filter, order and limit, evaluates to the same result on both.
\<close>

theorem aggregate_noninterference:
  assumes plan: "prepareAggregate c inp = Inr plan" "aggregateExpression inp plan n = Inr (e, columns)"
    and wf: "wf_db db" "wf_db db'"
    and visible: "\<And>r F. data_grant c r F \<Longrightarrow> same_visible db db' r F \<and> policy_on db r F"
    and out: "Eval db e = Inr out" "Eval db' e = Inr out'"
  shows "out' = out"
proof -
  have alike: "sees_alike db db' (data_grant c)" unfolding sees_alike_def by (intro allI impI) (rule visible)
  let ?sel = "chosen (Ref (rs_Entity (ap_res plan))) (rel_joins (ap_rel plan)) (ap_full plan)"
  obtain pred where p: "data_grant c (Ref (rs_Entity (ap_res plan))) (d_RowFilter (ap_grant plan))"
    "\<forall>j\<in>set (rel_joins (ap_rel plan)). data_grant c (jn_Right j) (jn_RightPredicate j)"
    "ap_full plan = andPreds (andPreds pred (d_RowFilter (ap_grant plan))) NilPred"
    "searches (data_grant c) pred"
    by (rule prepareAggregate_grants [OF plan(1)])
  obtain g as calls cols toIR where shape: "aggregateShape (ap_res plan) inp (Aggregate ?sel g as) calls cols toIR n = (Inr e :: 'b aggregate_error + expr)"
    using plan(2) by (auto simp: aggregateExpression_def chosen_def wrap_def joined_def bindR_eq_Inr Let_def)
  obtain k where k: "\<And>db. eval db e = bindR (eval db (Aggregate ?sel g as)) k"
    using aggregateShape_bind [OF shape] by blast
  note out = out [unfolded Eval_def k eval.simps(4)]
  obtain s where s: "eval db ?sel = Inr s" using out(1) by (cases "eval db ?sel") simp_all
  obtain s' where s': "eval db' ?sel = Inr s'" using out(2) by (cases "eval db' ?sel") simp_all
  have "s' = s" by (rule chosen_agree [OF alike wf p _ s s']) simp
  with out s s' show ?thesis by simp
qed

text \<open>The witness: the count of the posts, on the databases of the read's witness.\<close>

definition ex_count_call :: aggregate_input where
  "ex_count_call = \<lparr>ai_Entity = ''posts'', ai_GroupBy = [], ai_Aggregates = [\<lparr>aj_Func = ''count'', aj_Field = [], aj_Distinct = False\<rparr>],
     ai_Filter = [], ai_Having = [CondJSON ''count'' ''gt'' (VInt 0) None None None [] None], ai_OrderBy = [], ai_Limit = 5\<rparr>"

definition ex_aggregate :: aggregate_plan where
  "ex_aggregate = (case prepareAggregate ex_context ex_count_call of Inr p \<Rightarrow> p)"

definition ex_count_expr :: "expr \<times> string list" where
  "ex_count_expr = (case (aggregateExpression ex_count_call ex_aggregate 0 :: unit aggregate_error + _) of Inr p \<Rightarrow> p)"

lemma ex_aggregated:
  "prepareAggregate ex_context ex_count_call = Inr ex_aggregate"
  "aggregateExpression ex_count_call ex_aggregate 0 = (Inr (fst ex_count_expr, snd ex_count_expr) :: unit aggregate_error + _)"
proof -
  have "isl (prepareAggregate ex_context ex_count_call) = False"
    "isl (aggregateExpression ex_count_call ex_aggregate 0 :: unit aggregate_error + _) = False" by code_simp+
  then show "prepareAggregate ex_context ex_count_call = Inr ex_aggregate"
    "aggregateExpression ex_count_call ex_aggregate 0 = (Inr (fst ex_count_expr, snd ex_count_expr) :: unit aggregate_error + _)"
    by (auto simp: ex_aggregate_def ex_count_expr_def isl_def split: sum.splits)
qed

theorem aggregate_noninterference_witness:
  "Eval (ex_rows 3) (fst ex_count_expr) = Inr \<lparr>res_Cols = [''count''], res_Rows = [[VInt 1]]\<rparr> \<and>
   Eval (ex_rows 2) (fst ex_count_expr) = Inr \<lparr>res_Cols = [''count''], res_Rows = [[VInt 1]]\<rparr>"
proof -
  have "Eval (ex_rows 2) (fst ex_count_expr) = Inr \<lparr>res_Cols = [''count''], res_Rows = [[VInt 1]]\<rparr>"
    by code_simp
  moreover have "isl (Eval (ex_rows 3) (fst ex_count_expr)) = False" by code_simp
  then obtain out where "Eval (ex_rows 3) (fst ex_count_expr) = Inr out"
    by (cases "Eval (ex_rows 3) (fst ex_count_expr)") simp_all
  ultimately show ?thesis
    using aggregate_noninterference [OF ex_aggregated ex_rows_wf [of 2] ex_rows_wf [of 3] _ _ \<open>Eval (ex_rows 3) _ = Inr out\<close>]
      ex_grants ex_alike by blast
qed

end
