(* ===== verification/Write_Plan.thy ===== *)
theory Write_Plan
  imports Read_Plan Cascade
begin

text \<open>
  The plans of the writes, \<^verbatim>\<open>src/core/tool/tools_write_impl.go\<close>: a create, an update and a delete each resolve their
  entity, check the fields they use, are authorized, keep to the caller's row scope and, where foreign keys cascade,
  have the cascaded writes covered; what they give the compiler is an expression of the intermediate representation. A
  call's values are an association list from fields without a field twice (a Go map), normalized as the filter's are and
  without JSON fractions: on such values \<^verbatim>\<open>coerceValues\<close>, which \<^verbatim>\<open>prepareInsert\<close> and \<^verbatim>\<open>checkAssignments\<close> call in the code,
  changes nothing and never fails, and it is left out here.
  The walk over cascades may not return, so a plan is an option.
\<close>

record create_call =
  cr_Entity :: string
  cr_Values :: "(string \<times> val) list"

record update_call =
  up_Entity :: string
  up_Filter :: "cond_json list"
  up_Set :: "(string \<times> val) list"

record delete_call =
  dl_Entity :: string
  dl_Filter :: "cond_json list"

datatype 'err write_error =
    WriteRefused "'err plan_error" | SetsNothing | UnsafeWrite | KeyUpdate string | OutsideScope row_policy_violation
  | CascadesRefused "'err cascade_error"

record planned_write =
  pw_res :: resolved
  pw_grant :: decision
  pw_expr :: expr

definition sorted_fields :: "(string \<times> val) list \<Rightarrow> string list" where
  "sorted_fields values = sort (map fst values)"

definition write_request ::
  "'err plan_context \<Rightarrow> string \<Rightarrow> action \<Rightarrow> string list \<Rightarrow> string list \<Rightarrow> predicate \<Rightarrow> request" where
  "write_request c name act reads writes p =
     \<lparr>rq_Role = pc_role c, rq_Entity = name, rq_Action = act, rq_Fields = [], rq_ReadFields = reads, rq_WriteFields = writes,
      rq_Subject = pc_subject c, rq_Predicate = p\<rparr>"

definition check_write :: "string list \<Rightarrow> string list \<Rightarrow> resolved \<Rightarrow> 'err write_error + unit" where
  "check_write compared written res =
     lift_error (\<lambda>e. WriteRefused (FieldsRefused e))
       (fieldUses_check \<lparr>fu_read = [], fu_compared = compared, fu_written = written\<rparr> res)"

definition prepareInsert :: "'err plan_context \<Rightarrow> create_call \<Rightarrow> 'err write_error + planned_write" where
  "prepareInsert c inp =
     bindR (lift_error WriteRefused (planEntity c (cr_Entity inp) ActionCreate [])) (\<lambda>(res, _).
       let keys = sorted_fields (cr_Values inp) in
       bindR (check_write [] keys res) (\<lambda>_.
       bindR (lift_error WriteRefused (authorizeRequest c (write_request c (cr_Entity inp) ActionCreate [] keys NilPred))) (\<lambda>g.
       bindR (lift_error OutsideScope (insertColumns (rs_Entity res) (d_RowFilter g) (cr_Values inp))) (\<lambda>(columns, tup).
         Inr \<lparr>pw_res = res, pw_grant = g, pw_expr = Insert (Ref (rs_Entity res)) columns [tup]\<rparr>))))"

definition validateUpdateFields :: "resolved \<Rightarrow> update_call \<Rightarrow> 'err write_error + unit" where
  "validateUpdateFields res inp = check_write (filterFields (up_Filter inp)) (sorted_fields (up_Set inp)) res"

definition checkAssignments :: "entity \<Rightarrow> (string \<times> val) list \<Rightarrow> 'err write_error + unit" where
  "checkAssignments e sets = lift_error KeyUpdate (refuseKeyUpdate e (sorted_fields sets))"

text \<open>The check of the cascades, before the plan is made.\<close>

definition after_cascades ::
  "'err plan_context \<Rightarrow> resolved \<Rightarrow> action \<Rightarrow> string list \<Rightarrow> planned_write \<Rightarrow> ('err write_error + planned_write) option" where
  "after_cascades c res act updated w =
     map_option (\<lambda>r. bindR (lift_error CascadesRefused r) (\<lambda>_. Inr w))
       (checkCascades (pc_registry c) (pc_authz c) (pc_role c) (pc_subject c) (rs_Entity res) act updated)"

definition set_items :: "entity \<Rightarrow> (string \<times> val) list \<Rightarrow> set_item list" where
  "set_items e sets = map (\<lambda>k. \<lparr>si_Field = columnOf e k, si_Value = the (map_of sets k)\<rparr>) (sorted_fields sets)"

text \<open>The plan up to the cascades: the write, and what it is planned from.\<close>

definition plan_update :: "'err plan_context \<Rightarrow> update_call \<Rightarrow> 'err write_error + planned_write" where
  "plan_update c inp =
     (if up_Set inp = [] then Inl SetsNothing
      else bindR (lift_error WriteRefused (planEntity c (up_Entity inp) ActionUpdate (up_Filter inp))) (\<lambda>(res, pred).
        let e = rs_Entity res; keys = sorted_fields (up_Set inp) in
        bindR (validateUpdateFields res inp) (\<lambda>_.
        bindR (lift_error WriteRefused (authorizeRequest c
            (write_request c (up_Entity inp) ActionUpdate (filterFields (up_Filter inp)) keys pred))) (\<lambda>g.
        bindR (checkAssignments e (up_Set inp)) (\<lambda>_.
          let full = andPreds pred (d_RowFilter g) in
          if full = NilPred then Inl UnsafeWrite
          else bindR (lift_error OutsideScope (updateCheck e (d_RowFilter g) (up_Set inp))) (\<lambda>check.
            Inr \<lparr>pw_res = res, pw_grant = g, pw_expr = Update (Ref e) (andPreds full check) (set_items e (up_Set inp))\<rparr>))))))"

definition prepareUpdate :: "'err plan_context \<Rightarrow> update_call \<Rightarrow> ('err write_error + planned_write) option" where
  "prepareUpdate c inp =
     (case plan_update c inp of
        Inl err \<Rightarrow> Some (Inl err)
      | Inr w \<Rightarrow> after_cascades c (pw_res w) ActionUpdate (sorted_fields (up_Set inp)) w)"

definition plan_delete :: "'err plan_context \<Rightarrow> delete_call \<Rightarrow> 'err write_error + planned_write" where
  "plan_delete c inp =
     bindR (lift_error WriteRefused (planEntity c (dl_Entity inp) ActionDelete (dl_Filter inp))) (\<lambda>(res, pred).
     bindR (check_write (filterFields (dl_Filter inp)) [] res) (\<lambda>_.
     bindR (lift_error WriteRefused (authorizeRequest c
         (write_request c (dl_Entity inp) ActionDelete (filterFields (dl_Filter inp)) [] pred))) (\<lambda>g.
       let full = andPreds pred (d_RowFilter g) in
       if full = NilPred then Inl UnsafeWrite
       else Inr \<lparr>pw_res = res, pw_grant = g, pw_expr = Delete (Ref (rs_Entity res)) full\<rparr>)))"

definition prepareDelete :: "'err plan_context \<Rightarrow> delete_call \<Rightarrow> ('err write_error + planned_write) option" where
  "prepareDelete c inp =
     (case plan_delete c inp of
        Inl err \<Rightarrow> Some (Inl err)
      | Inr w \<Rightarrow> after_cascades c (pw_res w) ActionDelete [] w)"

text \<open>The key a create without RETURNING reports: the row's values, and the driver's last id for a generated column.\<close>

definition insertedKey :: "entity \<Rightarrow> (string \<times> val) list \<Rightarrow> int \<Rightarrow> (string \<times> val) list" where
  "insertedKey e values lastInsertID =
     (case IdentityKeys e True False of
        [] \<Rightarrow> []
      | key # _ \<Rightarrow> concat (map (\<lambda>column.
          if (case AttributeByName e column of Some a \<Rightarrow> dm_AutoIncrement (at_Domain a) | None \<Rightarrow> False) \<and> lastInsertID \<noteq> 0
          then [(column, VInt lastInsertID)]
          else case map_of values column of Some v \<Rightarrow> [(column, v)] | None \<Rightarrow> []) key))"

end
