(* ===== verification/Write_Plan_Props.thy ===== *)
theory Write_Plan_Props
  imports Write_Plan Cascade_Props Read_Plan_Props
begin

text \<open>
  What the writes of a caller reach: rows inside the caller's row scope, which stay there, and cascades the caller may
  make.
\<close>

text \<open>A row before an update and after it: the assigned columns hold their values, the others are as they were.\<close>

definition assigned :: "entity \<Rightarrow> (string \<times> val) list \<Rightarrow> relation \<Rightarrow> val list \<Rightarrow> val list \<Rightarrow> bool" where
  "assigned e sets rel row row' \<longleftrightarrow>
     agrees rel row' (map_of (exactValues e (given_row e sets))) \<and> same_unknown rel row row' (map_of (exactValues e (given_row e sets)))"

lemma planEntity_found: "planEntity c name act flt = Inr (res, pred) \<Longrightarrow> Resolve (pc_registry c) name = Some res"
  by (auto simp: planEntity_def bindR_eq_Inr split: if_splits dest!: resolveDMLEntity_Inr)

lemma write_granted:
  assumes "Resolve (pc_registry c) name = Some res" and "authorizeRequest c (write_request c name act reads writes p) = Inr g"
  shows "granted c {act} (Ref (rs_Entity res)) (d_RowFilter g)"
  by (rule grantedI [where name = name and req = "write_request c name act reads writes p"])
    (use assms authorizeRequest_Inr [OF assms(2)] in \<open>simp_all add: write_request_def\<close>)

lemma check_write_ok:
  "check_write compared written res = Inr u \<Longrightarrow>
     fieldUses_check \<lparr>fu_read = [], fu_compared = compared, fu_written = written\<rparr> res = Inr ()"
  by (simp add: check_write_def)

lemma check_write_distinct: "check_write compared written res = Inr u \<Longrightarrow> distinct (columnsOf (rs_Entity res) written)"
  using fieldUses_check_ok by (fastforce dest!: check_write_ok)

lemma distinct_columns_sorted:
  "distinct (columnsOf e (sorted_fields values)) \<longleftrightarrow> distinct (columnsOf e (map fst values))"
proof -
  have "mset (columnsOf e (sorted_fields values)) = mset (columnsOf e (map fst values))"
    by (simp add: columnsOf_def sorted_fields_def image_mset.compositionality)
  then show ?thesis by (rule mset_eq_imp_distinct_iff)
qed

lemma sorted_fields_Nil [simp]: "sorted_fields values = [] \<longleftrightarrow> values = []"
  by (simp add: sorted_fields_def flip: length_0_conv)

lemma set_sorted_fields [simp]: "set (sorted_fields values) = fst ` set values"
  by (simp add: sorted_fields_def)

lemma columnNames_columnsOf: "columnNames e fs = columnsOf e fs"
  by (simp add: columnNames_def columnsOf_def columnOf_def)

lemma set_items_columns: "map si_Field (set_items e sets) = columnNames e (sorted_fields sets)"
  by (simp add: set_items_def columnNames_def columnOf_def comp_def)

lemma after_cascades_Inr:
  "after_cascades c res act updated w = Some (Inr w') \<Longrightarrow>
     w' = w \<and> checkCascades (pc_registry c) (pc_authz c) (pc_role c) (pc_subject c) (rs_Entity res) act updated = Some (Inr ())"
  by (auto simp: after_cascades_def bindR_eq_Inr)

section \<open>Creates\<close>

text \<open>
  C5: a create inserts one row, inside the caller's scope. It is authorized on its entity; its columns are distinct and
  hold the caller's values, each of a visible and writable field, and beside them only values the scope itself
  requires; and whatever the database adds in the other columns, the scope holds of the row, if it evaluates on it.
\<close>

theorem insert_confined:
  assumes "prepareInsert c inp = Inr w" and e: "e = rs_Entity (pw_res w)" and F: "F = d_RowFilter (pw_grant w)"
  shows "granted c {ActionCreate} (Ref e) F \<and>
    (\<exists>columns tuple. pw_expr w = Insert (Ref e) columns [tuple] \<and> distinct columns \<and> length tuple = length columns \<and>
      (\<forall>(f, x)\<in>set (cr_Values inp). map_of (zip columns tuple) (columnOf e f) = Some x \<and>
         (\<exists>a\<in>set (rs_Attributes (pw_res w)). names_field a f)) \<and>
      (\<forall>(col, x)\<in>set (zip columns tuple). (col, x) \<in> set (map (\<lambda>(f, x). (columnOf e f, x)) (cr_Values inp)) \<or>
        Condition \<lparr>c_Field = col, c_Op = OpEq, c_Value = x\<rparr> \<in> set (conjuncts F)) \<and>
      (\<forall>rel row v. agrees rel row (map_of (exactValues e (zip columns tuple))) \<longrightarrow> evalPredicate rel row F = Inr v \<longrightarrow> v = triTrue))"
proof -
  let ?keys = "sorted_fields (cr_Values inp)"
  obtain res p0 g u columns tuple where p: "planEntity c (cr_Entity inp) ActionCreate [] = Inr (res, p0)"
    and chk: "check_write [] ?keys res = (Inr u :: 'a write_error + unit)"
    and auth: "authorizeRequest c (write_request c (cr_Entity inp) ActionCreate [] ?keys NilPred) = Inr g"
    and ins: "insertColumns (rs_Entity res) (d_RowFilter g) (cr_Values inp) = Inr (columns, tuple)"
    and w: "w = \<lparr>pw_res = res, pw_grant = g, pw_expr = Insert (Ref (rs_Entity res)) columns [tuple]\<rparr>"
    using assms(1) by (auto simp: prepareInsert_def bindR_eq_Inr Let_def)
  have ef: "e = rs_Entity res" "F = d_RowFilter g" using e F w by simp_all
  have d: "distinct (columnsOf e (map fst (cr_Values inp)))"
    using check_write_distinct [OF chk] by (simp add: distinct_columns_sorted ef)
  note ins = ins [folded ef]
  have vis: "\<exists>a\<in>set (rs_Attributes res). names_field a f" if "(f, x) \<in> set (cr_Values inp)" for f x
    using check_write_ok [OF chk] that unfolding fieldUses_check_ok by (force simp: sorted_fields_def)
  note shape = insertColumns_shape [OF ins d]
  show ?thesis
  proof (intro conjI exI)
    show "granted c {ActionCreate} (Ref e) F" unfolding ef by (rule write_granted [OF planEntity_found [OF p] auth])
    show "pw_expr w = Insert (Ref e) columns [tuple]" by (simp add: w ef)
    show "\<forall>rel row v. agrees rel row (map_of (exactValues e (zip columns tuple))) \<longrightarrow> evalPredicate rel row F = Inr v \<longrightarrow> v = triTrue"
      using insertColumns_in_scope [OF ins] by (intro allI impI)
    show "\<forall>(f, x)\<in>set (cr_Values inp). map_of (zip columns tuple) (columnOf e f) = Some x \<and>
         (\<exists>a\<in>set (rs_Attributes (pw_res w)). names_field a f)"
      using shape(3) vis by (auto simp: w)
    show "\<forall>(col, x)\<in>set (zip columns tuple). (col, x) \<in> set (map (\<lambda>(f, x). (columnOf e f, x)) (cr_Values inp)) \<or>
        Condition \<lparr>c_Field = col, c_Op = OpEq, c_Value = x\<rparr> \<in> set (conjuncts F)"
      unfolding Ball_def split_paired_All prod.case by (intro allI impI) (rule shape(4))
  qed (rule shape(1) shape(2))+
qed

section \<open>Updates and deletes\<close>

lemma plan_update_Inr:
  assumes "plan_update (c :: 'e plan_context) inp = Inr w"
  obtains pred check where
    "granted c {ActionUpdate} (Ref (rs_Entity (pw_res w))) (d_RowFilter (pw_grant w))"
    and "Resolve (pc_registry c) (up_Entity inp) = Some (pw_res w)" and "up_Set inp \<noteq> []"
    and "andPreds pred (d_RowFilter (pw_grant w)) \<noteq> NilPred"
    and "updateCheck (rs_Entity (pw_res w)) (d_RowFilter (pw_grant w)) (up_Set inp) = Inr check"
    and "pw_expr w = Update (Ref (rs_Entity (pw_res w))) (andPreds (andPreds pred (d_RowFilter (pw_grant w))) check)
           (set_items (rs_Entity (pw_res w)) (up_Set inp))"
    and "distinct (columnsOf (rs_Entity (pw_res w)) (sorted_fields (up_Set inp)))"
    and "refuseKeyUpdate (rs_Entity (pw_res w)) (sorted_fields (up_Set inp)) = Inr ()"
proof -
  let ?keys = "sorted_fields (up_Set inp)"
  obtain res pred where p: "planEntity c (up_Entity inp) ActionUpdate (up_Filter inp) = Inr (res, pred)"
    using assms by (auto simp: plan_update_def bindR_eq_Inr split: if_splits)
  let ?req = "write_request c (up_Entity inp) ActionUpdate (filterFields (up_Filter inp)) ?keys pred"
  have ne: "up_Set inp \<noteq> []" using assms by (auto simp: plan_update_def)
  have l: "lift_error WriteRefused (planEntity c (up_Entity inp) ActionUpdate (up_Filter inp)) = Inr (res, pred)" by (simp add: p)
  note pl = assms [unfolded plan_update_def if_not_P [OF ne] l bindR_simps prod.case Let_def]
  obtain u where chk: "validateUpdateFields res inp = (Inr u :: 'e write_error + unit)" using bindR_ok [OF pl] by (elim exE)
  note pl = pl [unfolded chk bindR_simps]
  obtain g where auth: "authorizeRequest c ?req = Inr g" using bindR_ok [OF pl] by (elim exE) simp
  have l: "lift_error WriteRefused (authorizeRequest c ?req) = Inr g" by (simp add: auth)
  note pl = pl [unfolded l bindR_simps]
  obtain u' where ass: "checkAssignments (rs_Entity res) (up_Set inp) = (Inr u' :: 'e write_error + unit)" using bindR_ok [OF pl] by (elim exE)
  note pl = pl [unfolded ass bindR_simps]
  have full: "andPreds pred (d_RowFilter g) \<noteq> NilPred" using pl by (cases "andPreds pred (d_RowFilter g) = NilPred") (simp_all split: if_splits)
  note pl = pl [unfolded if_not_P [OF full]]
  obtain check where upd: "updateCheck (rs_Entity res) (d_RowFilter g) (up_Set inp) = Inr check" using bindR_ok [OF pl] by (elim exE) simp
  have w: "w = \<lparr>pw_res = res, pw_grant = g, pw_expr = Update (Ref (rs_Entity res)) (andPreds (andPreds pred (d_RowFilter g)) check)
      (set_items (rs_Entity res) (up_Set inp))\<rparr>"
    using pl by (simp add: upd lift_error_def)
  show thesis
  proof (rule that [where pred = pred and check = check])
    show "granted c {ActionUpdate} (Ref (rs_Entity (pw_res w))) (d_RowFilter (pw_grant w))"
      using write_granted [OF planEntity_found [OF p] auth] by (simp add: w)
    show "distinct (columnsOf (rs_Entity (pw_res w)) ?keys)"
      using check_write_distinct [OF chk [unfolded validateUpdateFields_def]] by (simp add: w)
    show "refuseKeyUpdate (rs_Entity (pw_res w)) ?keys = Inr ()" using ass by (simp add: w checkAssignments_def)
  qed (use planEntity_found [OF p] ne full upd in \<open>simp_all add: w\<close>)
qed

lemma plan_delete_Inr:
  assumes "plan_delete (c :: 'e plan_context) inp = Inr w"
  obtains pred where
    "granted c {ActionDelete} (Ref (rs_Entity (pw_res w))) (d_RowFilter (pw_grant w))"
    and "Resolve (pc_registry c) (dl_Entity inp) = Some (pw_res w)"
    and "andPreds pred (d_RowFilter (pw_grant w)) \<noteq> NilPred"
    and "pw_expr w = Delete (Ref (rs_Entity (pw_res w))) (andPreds pred (d_RowFilter (pw_grant w)))"
proof -
  obtain res pred where p: "planEntity c (dl_Entity inp) ActionDelete (dl_Filter inp) = Inr (res, pred)"
    using assms by (auto simp: plan_delete_def bindR_eq_Inr)
  let ?req = "write_request c (dl_Entity inp) ActionDelete (filterFields (dl_Filter inp)) [] pred"
  obtain g where auth: "authorizeRequest c ?req = Inr g" and full: "andPreds pred (d_RowFilter g) \<noteq> NilPred"
    and w: "w = \<lparr>pw_res = res, pw_grant = g, pw_expr = Delete (Ref (rs_Entity res)) (andPreds pred (d_RowFilter g))\<rparr>"
    using assms p [THEN lift_error_Inr [THEN iffD2]]
    by (auto simp: plan_delete_def bindR_eq_Inr Let_def split: if_splits)
  show thesis
    by (rule that [where pred = pred])
      (use write_granted [OF planEntity_found [OF p] auth] planEntity_found [OF p] full in \<open>simp_all add: w\<close>)
qed

text \<open>The cascades of a planned write, by what the check of them shows.\<close>

lemma cascades_covered:
  assumes "checkCascades (pc_registry c) (pc_authz c) (pc_role c) (pc_subject c) (rs_Entity res) act updated = Some (Inr ())"
    and "NewRegistry es = Inr (pc_registry c)" and "named_plainly es" and "Resolve (pc_registry c) name = Some res"
    and "write_columns act (columnNames (rs_Entity res) updated)"
    and "triggered (pc_registry c) (rs_Entity res, act, columnNames (rs_Entity res) updated) eff"
  shows "covered_effect (pc_registry c) (pc_authz c) (pc_role c) (pc_subject c) eff"
  using checkCascades_spec [OF assms(2) reg.resolve_member [OF assms(2,4)] assms(3,5), of "pc_authz c" "pc_role c" "pc_subject c"]
    assms(1,6) by auto

definition planned :: "'err plan_context \<Rightarrow> update_call \<Rightarrow> delete_call \<Rightarrow> action \<Rightarrow> planned_write \<Rightarrow> bool" where
  "planned c upd del act w \<longleftrightarrow>
     act = ActionUpdate \<and> prepareUpdate c upd = Some (Inr w) \<or> act = ActionDelete \<and> prepareDelete c del = Some (Inr w)"

text \<open>
  C4: an update or a delete stays in the caller's scope. It is authorized on its entity, and it has a condition; every
  row the condition selects is in the caller's row scope, and an updated row stays in it, if the scope evaluates on
  it; an update assigns distinct columns, none of the row's key unless the entity allows it; and every write that
  foreign keys cascade from it is covered by permissions of the caller.
\<close>

theorem filtered_write_confined:
  assumes "planned c upd del act w" and reg: "NewRegistry es = Inr (pc_registry c)" "named_plainly es"
    and e: "e = rs_Entity (pw_res w)" and F: "F = d_RowFilter (pw_grant w)"
    and sets: "sets = (if act = ActionUpdate then up_Set upd else [])" and cols: "cols = map si_Field (set_items e sets)"
    and plain: "\<forall>col\<in>set cols. no_nul col"
  shows "granted c {act} (Ref e) F \<and>
    (\<exists>full. full \<noteq> NilPred \<and>
       pw_expr w = (if act = ActionUpdate then Update (Ref e) full (set_items e sets) else Delete (Ref e) full) \<and>
       (\<forall>rel row. evalPredicate rel row full = Inr triTrue \<longrightarrow> evalPredicate rel row F = Inr triTrue \<and>
          (\<forall>row' v. assigned e sets rel row row' \<longrightarrow> evalPredicate rel row' F = Inr v \<longrightarrow> act = ActionUpdate \<longrightarrow> v = triTrue))) \<and>
    distinct cols \<and> (e_AllowKeyUpdate e \<or> set cols \<inter> set (CursorKey e) = {}) \<and>
    (\<forall>eff. triggered (pc_registry c) (e, act, cols) eff \<longrightarrow> covered_effect (pc_registry c) (pc_authz c) (pc_role c) (pc_subject c) eff)"
  using assms(1) unfolding planned_def
proof (elim disjE conjE)
  assume act: "act = ActionUpdate" and "prepareUpdate c upd = Some (Inr w)"
  then obtain w0 where w0: "plan_update c upd = Inr w0"
    and "after_cascades c (pw_res w0) ActionUpdate (sorted_fields (up_Set upd)) w0 = Some (Inr w)"
    by (auto simp: prepareUpdate_def split: sum.splits)
  then have pu: "plan_update c upd = Inr w"
    and casc: "checkCascades (pc_registry c) (pc_authz c) (pc_role c) (pc_subject c) (rs_Entity (pw_res w)) ActionUpdate (sorted_fields (up_Set upd)) = Some (Inr ())"
    by (auto dest: after_cascades_Inr)
  obtain pred check where g: "granted c {ActionUpdate} (Ref e) F"
    and res: "Resolve (pc_registry c) (up_Entity upd) = Some (pw_res w)" and ne: "up_Set upd \<noteq> []"
    and full: "andPreds pred F \<noteq> NilPred" and check: "updateCheck e F (up_Set upd) = Inr check"
    and expr: "pw_expr w = Update (Ref e) (andPreds (andPreds pred F) check) (set_items e (up_Set upd))"
    and d: "distinct (columnsOf e (sorted_fields (up_Set upd)))" and key: "refuseKeyUpdate e (sorted_fields (up_Set upd)) = Inr ()"
    unfolding e F by (rule plan_update_Inr [OF pu])
  have s: "sets = up_Set upd" and c': "cols = columnNames e (sorted_fields (up_Set upd))"
    using sets cols act by (simp_all add: set_items_columns)
  have keys: "e_AllowKeyUpdate e \<or> set cols \<inter> set (CursorKey e) = {}"
    using key by (auto simp: refuseKeyUpdate_def c' columnNames_def columnOf_def find_None_iff split: if_splits option.splits)
  have wc: "write_columns ActionUpdate (columnNames e (sorted_fields (up_Set upd)))"
    using plain ne by (auto simp: write_columns_def c' columnNames_def)
  have inside: "evalPredicate rel row F = Inr triTrue" if "evalPredicate rel row (andPreds (andPreds pred F) check) = Inr triTrue" for rel row
    by (rule andPreds_true(2) [OF andPreds_true(1) [OF that]])
  have after: "v = triTrue" if "evalPredicate rel row (andPreds (andPreds pred F) check) = Inr triTrue"
    "assigned e sets rel row row'" "evalPredicate rel row' F = Inr v" for rel row row' v
    using updateCheck_keeps_scope [OF refl _ _ that(3), of e "up_Set upd" row pred] that(1,2) check
    by (simp add: assigned_def s)
  show ?thesis
  proof (intro conjI exI)
    show "granted c {act} (Ref e) F" using g act by simp
    show "andPreds (andPreds pred F) check \<noteq> NilPred" using full by auto
    show "distinct cols" using d by (simp add: c' columnNames_columnsOf)
    show "\<forall>eff. triggered (pc_registry c) (e, act, cols) eff \<longrightarrow> covered_effect (pc_registry c) (pc_authz c) (pc_role c) (pc_subject c) eff"
      using cascades_covered [OF casc reg res] wc by (auto simp: act c' e)
  qed (use inside after expr keys act s in auto)
next
  assume act: "act = ActionDelete" and "prepareDelete c del = Some (Inr w)"
  then obtain w0 where w0: "plan_delete c del = Inr w0"
    and "after_cascades c (pw_res w0) ActionDelete [] w0 = Some (Inr w)"
    by (auto simp: prepareDelete_def split: sum.splits)
  then have pd: "plan_delete c del = Inr w"
    and casc: "checkCascades (pc_registry c) (pc_authz c) (pc_role c) (pc_subject c) (rs_Entity (pw_res w)) ActionDelete [] = Some (Inr ())"
    by (auto dest: after_cascades_Inr)
  obtain pred where g: "granted c {ActionDelete} (Ref e) F" and res: "Resolve (pc_registry c) (dl_Entity del) = Some (pw_res w)"
    and full: "andPreds pred F \<noteq> NilPred" and expr: "pw_expr w = Delete (Ref e) (andPreds pred F)"
    unfolding e F by (rule plan_delete_Inr [OF pd])
  have c': "cols = []" "columnNames e [] = []" using sets cols act by (simp_all add: set_items_def sorted_fields_def columnNames_def)
  show ?thesis
  proof (intro conjI exI)
    show "granted c {act} (Ref e) F" using g act by simp
    show "andPreds pred F \<noteq> NilPred" by (rule full)
    show "\<forall>rel row. evalPredicate rel row (andPreds pred F) = Inr triTrue \<longrightarrow> evalPredicate rel row F = Inr triTrue \<and>
          (\<forall>row' v. assigned e sets rel row row' \<longrightarrow> evalPredicate rel row' F = Inr v \<longrightarrow> act = ActionUpdate \<longrightarrow> v = triTrue)"
      using andPreds_true(2) act by auto
    show "\<forall>eff. triggered (pc_registry c) (e, act, cols) eff \<longrightarrow> covered_effect (pc_registry c) (pc_authz c) (pc_role c) (pc_subject c) eff"
      using cascades_covered [OF casc reg res] by (auto simp: act c' e write_columns_def columnNames_def)
  qed (use expr act c' in auto)
qed

section \<open>Witnesses\<close>

text \<open>The invoices of a tenant, as a registered entity, and a caller allowed every action on them within the scope.\<close>

definition ex_bill :: entity where
  "ex_bill = ex_invoice\<lparr>e_Name := ''default.main.bills'', e_Local := ''bills'', e_Schema := ''main'', e_Source := ''bills'',
     e_MCP := \<lparr>mf_DMLTools = True, mf_CustomTool = False, mf_TrustedProcedure = False\<rparr>\<rparr>"

definition ex_bills :: registry where
  "ex_bills = (case NewRegistry [ex_bill] of Inr r \<Rightarrow> r)"

definition ex_writer :: "unit plan_context" where
  "ex_writer = \<lparr>pc_registry = ex_bills,
     pc_authz = (\<lambda>req. Inr ((denied NoReason)\<lparr>d_Allowed := True, d_RowFilter := ex_scope_rows\<rparr>)),
     pc_role = ''clerk'', pc_subject = Map.empty, pc_maxConds = 0, pc_maxRows = 10\<rparr>"

definition ex_create :: create_call where
  "ex_create = \<lparr>cr_Entity = ''default.main.bills'', cr_Values = [(''amount'', VInt 12)]\<rparr>"

definition ex_update :: update_call where
  "ex_update = \<lparr>up_Entity = ''default.main.bills'', up_Filter = [CondJSON ''id'' ''eq'' (VInt 1) None None None [] None],
     up_Set = [(''amount'', VInt 9)]\<rparr>"

definition ex_remove :: delete_call where
  "ex_remove = \<lparr>dl_Entity = ''default.main.bills'', dl_Filter = []\<rparr>"

lemma ex_bills_new: "NewRegistry [ex_bill] = Inr ex_bills"
proof -
  have "isl (NewRegistry [ex_bill]) = False" by code_simp
  then show ?thesis by (auto simp: ex_bills_def isl_def split: sum.splits)
qed

theorem insert_confined_witness:
  "\<exists>w. prepareInsert ex_writer ex_create = Inr w \<and> granted ex_writer {ActionCreate} (Ref (rs_Entity (pw_res w))) ex_scope_rows"
proof -
  have "isl (prepareInsert ex_writer ex_create) = False" by code_simp
  then obtain w where w: "prepareInsert ex_writer ex_create = Inr w" by (cases "prepareInsert ex_writer ex_create") simp_all
  have "d_RowFilter (pw_grant w) = ex_scope_rows"
    using w by (auto simp: prepareInsert_def bindR_eq_Inr Let_def ex_writer_def dest!: authorizeRequest_Inr)
  with insert_confined [OF w refl refl] w show ?thesis by auto
qed

theorem filtered_write_confined_witness:
  "\<exists>w. prepareUpdate ex_writer ex_update = Some (Inr w) \<and> granted ex_writer {ActionUpdate} (Ref (rs_Entity (pw_res w))) (d_RowFilter (pw_grant w))"
proof -
  have "isl (plan_update ex_writer ex_update) = False" by code_simp
  then obtain w where w: "plan_update ex_writer ex_update = Inr w" by (cases "plan_update ex_writer ex_update") simp_all
  have "(case plan_update ex_writer ex_update of Inr w \<Rightarrow> e_Cascades (rs_Entity (pw_res w)) = [] \<and> columnOf (rs_Entity (pw_res w)) ''amount'' = ''amount'') = True"
    by code_simp
  then have c: "e_Cascades (rs_Entity (pw_res w)) = []" "columnOf (rs_Entity (pw_res w)) ''amount'' = ''amount''" by (simp_all add: w)
  have "checkCascades (pc_registry ex_writer) (pc_authz ex_writer) role sub (rs_Entity (pw_res w)) act cols = Some (Inr ())" for role sub act cols
    unfolding checkCascades_def by (subst walkCascades.simps) (simp add: reach_entity_def cascadeEffects_def c Let_def)
  then have u: "prepareUpdate ex_writer ex_update = Some (Inr w)"
    by (simp add: prepareUpdate_def w after_cascades_def lift_error_def)
  have p: "planned ex_writer ex_update ex_remove ActionUpdate w" by (simp add: planned_def u)
  have reg: "NewRegistry [ex_bill] = Inr (pc_registry ex_writer)" by (simp add: ex_writer_def ex_bills_new)
  have n: "named_plainly [ex_bill]" by (simp add: named_plainly_def no_nul_def ex_bill_def ex_invoice_def zero_entity_def)
  have "\<forall>col\<in>set (map si_Field (set_items (rs_Entity (pw_res w)) (if ActionUpdate = ActionUpdate then up_Set ex_update else []))). no_nul col"
    by (simp add: set_items_def sorted_fields_def ex_update_def c no_nul_def)
  from filtered_write_confined [OF p reg n refl refl refl refl this] u show ?thesis by blast
qed

end
