(* ===== verification/Transaction.thy ===== *)
theory Transaction
  imports Invalidation
begin

text \<open>
  The explicit transactions of \<^verbatim>\<open>src/core/tool/transaction.go\<close>, \<^verbatim>\<open>transaction_end.go\<close> and
  \<^verbatim>\<open>transaction_ended.go\<close>: the manager that owns bounded, expiring handles, and the statements that run in them.
  A handle is an object several goroutines point at, so it lives in a heap, at the number of the database transaction
  it holds. Times and durations are nanoseconds. A method that holds \<^verbatim>\<open>m.mu\<close> is one function on the manager; what
  runs outside of it is a step of its own in the system of the last section, which interleaves them. The subject of a
  caller is the text \<^verbatim>\<open>json.Marshal\<close> writes of it. The lifetime context of a transaction and the bus that runs the
  timers are not modelled: the expiry timer may fire at any time from when it is due, and the check of a
  handle with an idle timeout at any time at all.
\<close>

section \<open>Callers, handles and the manager\<close>

datatype tx_outcome = OutcomeCommitted | OutcomeRolledBack | OutcomeExpired | OutcomeUnknown

datatype tx_error =
  TransactionNotFound
| TransactionScope
| TransactionCapacity
| TransactionStale
| TransactionEnded tx_outcome
| TxContextErr
| TxDBError
| TxOutcomeUnknown

record caller =
  cl_Session :: string
  cl_Role :: string
  cl_Subject :: string

definition scopeKey :: "string \<Rightarrow> string \<Rightarrow> string" where
  "scopeKey role subject = role @ [CHR 0x00] @ subject"

definition caller_scope :: "caller \<Rightarrow> string" where
  "caller_scope c = scopeKey (cl_Role c) (cl_Subject c)"

record transactionHandle =
  h_connection :: nat
  h_session :: string
  h_scope :: string
  h_datasource :: string
  h_dirty :: "cache_target set"
  h_expires :: "int option"
  h_stopTimer :: "int option"
  h_closed :: bool
  h_idle :: int
  h_used :: int
  h_running :: int
  h_stopIdle :: "int option"

text \<open>A tombstone is kept under its token, which the code also keeps in it.\<close>

record tombstone =
  tb_session :: string
  tb_scope :: string
  tb_outcome :: tx_outcome
  tb_at :: int

record tx_manager =
  tm_heap :: "nat \<rightharpoonup> transactionHandle"
  tm_handles :: "string \<rightharpoonup> nat"
  tm_open :: "string \<rightharpoonup> int"
  tm_byConnection :: "nat \<rightharpoonup> int"
  tm_perConnection :: int
  tm_ttl :: int
  tm_idle :: int
  tm_maxOpen :: int
  tm_closed :: bool
  tm_ending :: "string set"
  tm_tombstones :: "string \<rightharpoonup> tombstone"
  tm_buried :: "string list"

definition NewTransactionManager :: "int \<Rightarrow> int \<Rightarrow> tx_manager" where
  "NewTransactionManager ttl maxOpen =
     \<lparr>tm_heap = Map.empty, tm_handles = Map.empty, tm_open = Map.empty, tm_byConnection = Map.empty,
      tm_perConnection = 0, tm_ttl = ttl, tm_idle = 0, tm_maxOpen = maxOpen, tm_closed = False, tm_ending = {},
      tm_tombstones = Map.empty, tm_buried = []\<rparr>"

definition SetConnectionLimit :: "int \<Rightarrow> tx_manager \<Rightarrow> tx_manager" where
  "SetConnectionLimit n m = m\<lparr>tm_perConnection := n\<rparr>"

definition SetIdleTimeout :: "int \<Rightarrow> tx_manager \<Rightarrow> tx_manager" where
  "SetIdleTimeout d m = m\<lparr>tm_idle := d\<rparr>"

definition tx_UpdateLimits :: "int \<Rightarrow> int \<Rightarrow> tx_manager \<Rightarrow> tx_manager" where
  "tx_UpdateLimits ttl maxOpen m = m\<lparr>tm_ttl := ttl, tm_maxOpen := maxOpen\<rparr>"

definition handle_update :: "nat \<Rightarrow> (transactionHandle \<Rightarrow> transactionHandle) \<Rightarrow> tx_manager \<Rightarrow> tx_manager" where
  "handle_update a f m = m\<lparr>tm_heap := (tm_heap m)(a := map_option f (tm_heap m a))\<rparr>"

section \<open>Beginning\<close>

text \<open>The counts are Go maps to integers: an absent key counts zero, and a count that drops to zero is deleted.\<close>

definition count_at :: "('k \<rightharpoonup> int) \<Rightarrow> 'k \<Rightarrow> int" where
  "count_at m k = (case m k of Some n \<Rightarrow> n | None \<Rightarrow> 0)"

definition count_up :: "'k \<Rightarrow> ('k \<rightharpoonup> int) \<Rightarrow> ('k \<rightharpoonup> int)" where
  "count_up k m = m(k \<mapsto> count_at m k + 1)"

definition count_down :: "'k \<Rightarrow> ('k \<rightharpoonup> int) \<Rightarrow> ('k \<rightharpoonup> int)" where
  "count_down k m = (if count_at m k - 1 \<le> 0 then m(k := None) else m(k \<mapsto> count_at m k - 1))"

definition capacityLocked :: "string \<Rightarrow> nat \<Rightarrow> tx_manager \<Rightarrow> tx_error option" where
  "capacityLocked scope connection m =
     (if tm_maxOpen m > 0 \<and> count_at (tm_open m) scope \<ge> tm_maxOpen m then Some TransactionCapacity
      else if tm_perConnection m > 0 \<and> count_at (tm_byConnection m) connection \<ge> tm_perConnection m
      then Some TransactionCapacity
      else None)"

definition checkBeginCapacity :: "string \<Rightarrow> nat \<Rightarrow> tx_manager \<Rightarrow> tx_error option" where
  "checkBeginCapacity scope connection m =
     (if tm_closed m then Some TransactionNotFound else capacityLocked scope connection m)"

text \<open>The handle \<^verbatim>\<open>Begin\<close> makes for a database transaction begun at \<open>now\<close> on \<open>connection\<close>.\<close>

definition newHandle :: "int \<Rightarrow> nat \<Rightarrow> caller \<Rightarrow> string \<Rightarrow> int \<Rightarrow> transactionHandle" where
  "newHandle now connection c datasource ttl =
     \<lparr>h_connection = connection, h_session = cl_Session c, h_scope = caller_scope c, h_datasource = datasource,
      h_dirty = {}, h_expires = (if ttl > 0 then Some (now + ttl) else None), h_stopTimer = None, h_closed = False,
      h_idle = 0, h_used = 0, h_running = 0, h_stopIdle = None\<rparr>"

definition touch :: "int \<Rightarrow> transactionHandle \<Rightarrow> transactionHandle" where
  "touch now h = h\<lparr>h_used := now\<rparr>"

definition statementStarted :: "int \<Rightarrow> transactionHandle \<Rightarrow> transactionHandle" where
  "statementStarted now h = touch now (h\<lparr>h_running := h_running h + 1\<rparr>)"

definition statementEnded :: "int \<Rightarrow> transactionHandle \<Rightarrow> transactionHandle" where
  "statementEnded now h = (touch now h)\<lparr>h_running := h_running h - 1\<rparr>"

definition watchIdleLocked :: "int \<Rightarrow> nat \<Rightarrow> int \<Rightarrow> tx_manager \<Rightarrow> tx_manager" where
  "watchIdleLocked now a d m = handle_update a (\<lambda>h. h\<lparr>h_stopIdle := Some (now + d)\<rparr>) m"

text \<open>The handle registered is in the heap at \<open>a\<close>.\<close>

definition addHandle :: "int \<Rightarrow> string \<Rightarrow> nat \<Rightarrow> transactionHandle \<Rightarrow> tx_manager \<Rightarrow> tx_error + tx_manager" where
  "addHandle now token a h m =
     (if tm_closed m then Inl TransactionNotFound
      else case capacityLocked (h_scope h) (h_connection h) m of
        Some e \<Rightarrow> Inl e
      | None \<Rightarrow>
          let m = m\<lparr>tm_handles := (tm_handles m)(token \<mapsto> a), tm_open := count_up (h_scope h) (tm_open m),
                    tm_byConnection := count_up (h_connection h) (tm_byConnection m)\<rparr>;
              m = handle_update a (\<lambda>h. (touch now (h\<lparr>h_stopTimer := h_expires h\<rparr>))\<lparr>h_idle := tm_idle m\<rparr>) m
          in Inr (if tm_idle m > 0 then watchIdleLocked now a (tm_idle m) m else m))"

section \<open>Ending\<close>

definition tx_removeLocked :: "string \<Rightarrow> transactionHandle \<Rightarrow> tx_manager \<Rightarrow> tx_manager" where
  "tx_removeLocked token h m =
     m\<lparr>tm_handles := (tm_handles m)(token := None), tm_open := count_down (h_scope h) (tm_open m),
       tm_byConnection := count_down (h_connection h) (tm_byConnection m)\<rparr>"

definition endingLocked :: "string \<Rightarrow> nat \<Rightarrow> transactionHandle \<Rightarrow> tx_manager \<Rightarrow> tx_manager" where
  "endingLocked token a h m =
     (let m = handle_update a (\<lambda>h. h\<lparr>h_stopTimer := None, h_stopIdle := None\<rparr>) (tx_removeLocked token h m)
      in m\<lparr>tm_ending := insert token (tm_ending m)\<rparr>)"

definition maxTombstones :: nat where
  "maxTombstones = 4096"

definition tombstoneRetention :: int where
  "tombstoneRetention = 600000000000"

text \<open>A token buried with no tombstone reads as the zero one, whose time is long past.\<close>

fun evict :: "int \<Rightarrow> (string \<rightharpoonup> tombstone) \<Rightarrow> string list \<Rightarrow> (string \<rightharpoonup> tombstone) \<times> string list" where
  "evict now ts [] = (ts, [])"
| "evict now ts (t # buried) =
     (case ts t of
        None \<Rightarrow> evict now ts buried
      | Some oldest \<Rightarrow>
          if length (t # buried) \<le> maxTombstones \<and> now - tb_at oldest < tombstoneRetention then (ts, t # buried)
          else evict now (ts(t := None)) buried)"

definition buryLocked :: "int \<Rightarrow> string \<Rightarrow> transactionHandle \<Rightarrow> tx_outcome \<Rightarrow> tx_manager \<Rightarrow> tx_manager" where
  "buryLocked now token h outcome m =
     (let ts = (tm_tombstones m)(token \<mapsto>
            \<lparr>tb_session = h_session h, tb_scope = h_scope h, tb_outcome = outcome, tb_at = now\<rparr>);
          (ts, buried) = evict now ts (tm_buried m @ [token])
      in m\<lparr>tm_tombstones := ts, tm_buried := buried\<rparr>)"

text \<open>The function \<^const>\<open>endingLocked\<close> returns, which records how the transaction ended.\<close>

definition recordEnd :: "int \<Rightarrow> string \<Rightarrow> transactionHandle \<Rightarrow> tx_outcome \<Rightarrow> tx_manager \<Rightarrow> tx_manager" where
  "recordEnd now token h outcome m =
     buryLocked now token h outcome (m\<lparr>tm_ending := tm_ending m - {token}\<rparr>)"

definition endedError :: "int \<Rightarrow> string \<Rightarrow> caller \<Rightarrow> tx_manager \<Rightarrow> tx_error" where
  "endedError now token c m =
     (case tm_tombstones m token of
        None \<Rightarrow> TransactionNotFound
      | Some t \<Rightarrow>
          if now - tb_at t \<ge> tombstoneRetention \<or> tb_session t \<noteq> cl_Session c \<or> tb_scope t \<noteq> caller_scope c
          then TransactionNotFound else TransactionEnded (tb_outcome t))"

text \<open>
  \<^verbatim>\<open>end\<close>, with which a failed statement and an expiry end a handle still open, and \<^verbatim>\<open>checkIdle\<close>: the manager, and
  whether the caller must now roll the transaction back.
\<close>

definition tx_end :: "string \<Rightarrow> nat \<Rightarrow> transactionHandle \<Rightarrow> tx_manager \<Rightarrow> tx_manager \<times> bool" where
  "tx_end token a h m =
     (if tm_handles m token \<noteq> Some a then (m, False) else (endingLocked token a h m, True))"

definition checkIdle :: "int \<Rightarrow> string \<Rightarrow> nat \<Rightarrow> transactionHandle \<Rightarrow> tx_manager \<Rightarrow> tx_manager \<times> bool" where
  "checkIdle now token a h m =
     (if tm_handles m token \<noteq> Some a then (m, False)
      else
        let left = (if h_running h = 0 then h_idle h - (now - h_used h) else h_idle h)
        in if left > 0 then (watchIdleLocked now a left m, False) else (endingLocked token a h m, True))"

text \<open>
  The loops of \<^verbatim>\<open>RollbackSession\<close> and \<^verbatim>\<open>Close\<close> over the open handles, in the order \<open>tokens\<close> the map is ranged
  over: the manager, and the transactions to roll back.
\<close>

fun endAll :: "(transactionHandle \<Rightarrow> bool) \<Rightarrow> string list \<Rightarrow> tx_manager \<Rightarrow> tx_manager \<times> (string \<times> nat) list" where
  "endAll p [] m = (m, [])"
| "endAll p (token # tokens) m =
     (case tm_handles m token of
        None \<Rightarrow> endAll p tokens m
      | Some a \<Rightarrow>
          (case tm_heap m a of
             None \<Rightarrow> endAll p tokens m
           | Some h \<Rightarrow>
               if p h
               then (let (m', rollbacks) = endAll p tokens (endingLocked token a h m) in (m', (token, a) # rollbacks))
               else endAll p tokens m))"

definition RollbackSession :: "string \<Rightarrow> string list \<Rightarrow> tx_manager \<Rightarrow> tx_manager \<times> (string \<times> nat) list" where
  "RollbackSession session tokens m =
     (if session = [] then (m, []) else endAll (\<lambda>h. h_session h = session) tokens m)"

definition tx_Close :: "string list \<Rightarrow> tx_manager \<Rightarrow> tx_manager \<times> (string \<times> nat) list" where
  "tx_Close tokens m =
     (if tm_closed m then (m, []) else endAll (\<lambda>_. True) tokens (m\<lparr>tm_closed := True\<rparr>))"

section \<open>Lookups\<close>

text \<open>
  The answer of a lookup: it waits for an ending, fails, finds the handle, or finds it expired, when the caller ends
  it (\<^const>\<open>tx_end\<close>) and fails with \<^term>\<open>TransactionEnded OutcomeExpired\<close>. \<open>connections\<close> is \<open>None\<close> where the code
  passes \<^verbatim>\<open>nil\<close>.
\<close>

datatype tx_answer = Waits | Fails tx_error | Found nat | Expires nat

definition tx_lookup ::
  "int \<Rightarrow> string \<Rightarrow> caller \<Rightarrow> string \<Rightarrow> nat list option \<Rightarrow> tx_manager \<Rightarrow> tx_answer" where
  "tx_lookup now token c datasource connections m =
     (case tm_handles m token of
        None \<Rightarrow> if token \<in> tm_ending m then Waits else Fails (endedError now token c m)
      | Some a \<Rightarrow>
          (case tm_heap m a of
             None \<Rightarrow> Fails TransactionNotFound
           | Some h \<Rightarrow>
               if h_session h \<noteq> cl_Session c \<or> h_scope h \<noteq> caller_scope c \<or>
                  datasource \<noteq> [] \<and> h_datasource h \<noteq> datasource then Fails TransactionScope
               else if (case connections of Some cs \<Rightarrow> h_connection h \<notin> set cs | None \<Rightarrow> False)
               then Fails TransactionStale
               else if (case h_expires h of Some e \<Rightarrow> now > e | None \<Rightarrow> False) then Expires a
               else Found a))"

definition MarkDirty :: "nat \<Rightarrow> transactionHandle \<Rightarrow> cache_target list \<Rightarrow> tx_manager \<Rightarrow> tx_error + tx_manager" where
  "MarkDirty a h targets m =
     (if h_closed h then Inl TransactionNotFound
      else Inr (handle_update a (\<lambda>h. h\<lparr>h_dirty := h_dirty h \<union> set targets\<rparr>) m))"

section \<open>The calls on the database\<close>

text \<open>
  An error of the driver is the list of the sentinels \<^verbatim>\<open>errors.Is\<close> and \<^verbatim>\<open>errors.As\<close> find in it. An event is a call on
  the database transaction \<open>a\<close>: a commit with its caller and the error it returned, a statement with its caller.
\<close>

datatype err_mark =
  ErrNotConnected | ErrStatementTimeout | ErrConnectionLost | ErrInterrupted | ErrUnexpectedEOF | DeadlineExceeded
| ContextCanceled | NetError

definition uncertain :: "err_mark list \<Rightarrow> bool" where
  "uncertain e =
     (if ErrNotConnected \<in> set e \<or> ErrStatementTimeout \<in> set e then False
      else ErrConnectionLost \<in> set e \<or> ErrInterrupted \<in> set e \<or> ErrUnexpectedEOF \<in> set e \<or>
        DeadlineExceeded \<in> set e \<or> ContextCanceled \<in> set e \<or> NetError \<in> set e)"

datatype db_event =
  BeginTx nat caller
| Statement nat caller
| StatementEnd nat
| CommitTx nat caller "err_mark list option"
| RollbackTx nat

definition handle_abort :: "nat \<Rightarrow> transactionHandle \<Rightarrow> tx_manager \<Rightarrow> tx_manager \<times> db_event list" where
  "handle_abort a h m =
     (if h_closed h then (m, []) else (handle_update a (\<lambda>h. h\<lparr>h_closed := True\<rparr>) m, [RollbackTx a]))"

text \<open>
  \<^verbatim>\<open>handle.finish\<close>: \<open>canceled\<close> is whether its context ended before it held the handle, \<open>answer\<close> what the database
  answers a commit, \<open>rollbackErr\<close> whether it fails a rollback. The results are the outcome, the targets written (the
  code ranges over a map), the error, and the calls made.
\<close>

definition handle_finish ::
  "nat \<Rightarrow> transactionHandle \<Rightarrow> caller \<Rightarrow> bool \<Rightarrow> bool \<Rightarrow> err_mark list option \<Rightarrow> bool \<Rightarrow> tx_manager \<Rightarrow>
     (tx_outcome \<times> cache_target set \<times> tx_error option) \<times> tx_manager \<times> db_event list" where
  "handle_finish a h c commit canceled answer rollbackErr m =
     (let closed = handle_update a (\<lambda>h. h\<lparr>h_closed := True\<rparr>) m
      in if h_closed h then ((OutcomeRolledBack, {}, Some TransactionNotFound), m, [])
      else if canceled then ((OutcomeRolledBack, {}, Some TxContextErr), closed, [RollbackTx a])
      else if \<not> commit
      then ((OutcomeRolledBack, {}, if rollbackErr then Some TxDBError else None), closed, [RollbackTx a])
      else case answer of
        Some e \<Rightarrow>
          (if uncertain e then (OutcomeUnknown, h_dirty h, Some TxOutcomeUnknown)
           else (OutcomeRolledBack, {}, Some TxDBError), closed, [CommitTx a c answer, RollbackTx a])
      | None \<Rightarrow> ((OutcomeCommitted, h_dirty h, None), closed, [CommitTx a c None]))"

text \<open>
  A statement takes the handle, unless the transaction ended, and a query's rows keep it until they are closed. When
  it ends, the handle is released; a failure then ends the transaction.
\<close>

definition statement_start :: "int \<Rightarrow> nat \<Rightarrow> transactionHandle \<Rightarrow> caller \<Rightarrow> tx_manager \<Rightarrow> tx_error + tx_manager \<times> db_event list" where
  "statement_start now a h c m =
     (if h_closed h then Inl TransactionNotFound
      else Inr (handle_update a (statementStarted now) m, [Statement a c]))"

definition statement_end :: "int \<Rightarrow> nat \<Rightarrow> tx_manager \<Rightarrow> tx_manager \<times> db_event list" where
  "statement_end now a m = (handle_update a (statementEnded now) m, [StatementEnd a])"

section \<open>The system\<close>

text \<open>
  What a goroutine has still to do for a handle, outside of the manager's lock: register it, roll it back
  (\<^verbatim>\<open>endLocked\<close>'s rollback), commit it or roll it back for its caller (\<^verbatim>\<open>finish\<close>), or record how it ended. The
  rollbacks of \<^verbatim>\<open>RollbackSession\<close> and \<^verbatim>\<open>Close\<close> run one after the other; here they run in any order.
\<close>

datatype tx_task =
  Registering string
| Aborting string tx_outcome
| Finishing string caller bool
| Recording string tx_outcome

text \<open>
  The state: \<open>ts_busy\<close> are the handles a running statement holds (\<^verbatim>\<open>handle.mu\<close>), \<open>ts_failing\<close> those a statement that
  failed has yet to end, \<open>ts_found\<close> the handles a lookup returned, with the caller it returned them to. Recorded for
  the proofs only: the calls on the database so far, and for each token drawn its transaction.
\<close>

record tx_system =
  ts_m :: tx_manager
  ts_now :: int
  ts_task :: "nat \<rightharpoonup> tx_task"
  ts_busy :: "nat set"
  ts_failing :: "(string \<times> nat) set"
  ts_found :: "(string \<times> nat \<times> caller) set"
  ts_hist :: "db_event list"
  ts_drawn :: "string \<rightharpoonup> nat"

definition tx_init :: "int \<Rightarrow> int \<Rightarrow> int \<Rightarrow> tx_system" where
  "tx_init now ttl maxOpen =
     \<lparr>ts_m = NewTransactionManager ttl maxOpen, ts_now = now, ts_task = Map.empty, ts_busy = {}, ts_failing = {},
      ts_found = {}, ts_hist = [], ts_drawn = Map.empty\<rparr>"

definition add_aborts :: "(string \<times> nat) list \<Rightarrow> tx_outcome \<Rightarrow> (nat \<rightharpoonup> tx_task) \<Rightarrow> (nat \<rightharpoonup> tx_task)" where
  "add_aborts rollbacks outcome tasks = fold (\<lambda>(token, a) f. f(a \<mapsto> Aborting token outcome)) rollbacks tasks"

text \<open>How a step that ends a handle leaves the system, with \<open>r\<close> the result of \<^const>\<open>tx_end\<close> or \<^const>\<open>checkIdle\<close>.\<close>

definition ended :: "string \<Rightarrow> nat \<Rightarrow> tx_outcome \<Rightarrow> tx_manager \<times> bool \<Rightarrow> tx_system \<Rightarrow> tx_system" where
  "ended token a outcome r s =
     s\<lparr>ts_m := fst r, ts_task := (if snd r then add_aborts [(token, a)] outcome (ts_task s) else ts_task s)\<rparr>"

text \<open>A token is drawn from 32 random bytes: no two draws agree.\<close>

inductive tx_step :: "tx_system \<Rightarrow> tx_system \<Rightarrow> bool" where
  Tick: "ts_now s \<le> now \<Longrightarrow> tx_step s (s\<lparr>ts_now := now\<rparr>)"
| Configure: "tx_step s (s\<lparr>ts_m := SetConnectionLimit n (SetIdleTimeout d (tx_UpdateLimits ttl maxOpen (ts_m s)))\<rparr>)"
| BeginStart: "checkBeginCapacity (caller_scope c) connection (ts_m s) = None \<Longrightarrow>
    tm_heap (ts_m s) a = None \<Longrightarrow> ts_drawn s token = None \<Longrightarrow>
    tx_step s (s\<lparr>ts_m := (ts_m s)\<lparr>tm_heap := (tm_heap (ts_m s))(a \<mapsto> newHandle (ts_now s) connection c datasource ttl)\<rparr>,
      ts_task := (ts_task s)(a \<mapsto> Registering token), ts_hist := ts_hist s @ [BeginTx a c],
      ts_drawn := (ts_drawn s)(token \<mapsto> a)\<rparr>)"
| BeginDone: "ts_task s a = Some (Registering token) \<Longrightarrow> tm_heap (ts_m s) a = Some h \<Longrightarrow>
    addHandle (ts_now s) token a h (ts_m s) = Inr m \<Longrightarrow>
    tx_step s (s\<lparr>ts_m := m, ts_task := (ts_task s)(a := None)\<rparr>)"
| BeginFails: "ts_task s a = Some (Registering token) \<Longrightarrow> tm_heap (ts_m s) a = Some h \<Longrightarrow>
    addHandle (ts_now s) token a h (ts_m s) = Inl e \<or> canceled \<Longrightarrow> handle_abort a h (ts_m s) = (m, es) \<Longrightarrow>
    tx_step s (s\<lparr>ts_m := m, ts_task := (ts_task s)(a := None), ts_hist := ts_hist s @ es\<rparr>)"
| LookupFound: "tx_lookup (ts_now s) token c datasource connections (ts_m s) = Found a \<Longrightarrow>
    tx_step s (s\<lparr>ts_found := insert (token, a, c) (ts_found s)\<rparr>)"
| LookupExpires: "tx_lookup (ts_now s) token c datasource connections (ts_m s) = Expires a \<Longrightarrow>
    tm_heap (ts_m s) a = Some h \<Longrightarrow> tx_step s (ended token a OutcomeExpired (tx_end token a h (ts_m s)) s)"
| TimerFires: "tm_heap (ts_m s) a = Some h \<Longrightarrow> h_expires h = Some e \<Longrightarrow> e \<le> ts_now s \<Longrightarrow>
    tx_step s (ended token a OutcomeExpired (tx_end token a h (ts_m s)) s)"
| IdleFires: "tm_heap (ts_m s) a = Some h \<Longrightarrow> h_idle h > 0 \<Longrightarrow>
    tx_step s (ended token a OutcomeExpired (checkIdle (ts_now s) token a h (ts_m s)) s)"
| StatementStarts: "(token, a, c) \<in> ts_found s \<Longrightarrow> a \<notin> ts_busy s \<Longrightarrow> tm_heap (ts_m s) a = Some h \<Longrightarrow>
    statement_start (ts_now s) a h c (ts_m s) = Inr (m, es) \<Longrightarrow>
    tx_step s (s\<lparr>ts_m := m, ts_busy := insert a (ts_busy s), ts_hist := ts_hist s @ es\<rparr>)"
| StatementEnds: "a \<in> ts_busy s \<Longrightarrow> statement_end (ts_now s) a (ts_m s) = (m, es) \<Longrightarrow>
    tx_step s (s\<lparr>ts_m := m, ts_busy := ts_busy s - {a}, ts_hist := ts_hist s @ es\<rparr>)"
| StatementFails: "a \<in> ts_busy s \<Longrightarrow> (token, a, c) \<in> ts_found s \<Longrightarrow> statement_end (ts_now s) a (ts_m s) = (m, es) \<Longrightarrow>
    tx_step s (s\<lparr>ts_m := m, ts_busy := ts_busy s - {a}, ts_hist := ts_hist s @ es,
      ts_failing := insert (token, a) (ts_failing s)\<rparr>)"
| FailEnds: "(token, a) \<in> ts_failing s \<Longrightarrow> tm_heap (ts_m s) a = Some h \<Longrightarrow>
    tx_step s (ended token a OutcomeRolledBack (tx_end token a h (ts_m s)) (s\<lparr>ts_failing := ts_failing s - {(token, a)}\<rparr>))"
| MarksDirty: "(token, a, c) \<in> ts_found s \<Longrightarrow> a \<notin> ts_busy s \<Longrightarrow> tm_heap (ts_m s) a = Some h \<Longrightarrow>
    MarkDirty a h targets (ts_m s) = Inr m \<Longrightarrow> tx_step s (s\<lparr>ts_m := m\<rparr>)"
| FinishStarts: "(token, a, c) \<in> ts_found s \<Longrightarrow> tm_handles (ts_m s) token = Some a \<Longrightarrow> tm_heap (ts_m s) a = Some h \<Longrightarrow>
    tx_step s (s\<lparr>ts_m := endingLocked token a h (ts_m s), ts_task := (ts_task s)(a \<mapsto> Finishing token c commit)\<rparr>)"
| SessionEnds: "set tokens = dom (tm_handles (ts_m s)) \<Longrightarrow> distinct tokens \<Longrightarrow>
    RollbackSession session tokens (ts_m s) = (m, rollbacks) \<Longrightarrow>
    tx_step s (s\<lparr>ts_m := m, ts_task := add_aborts rollbacks OutcomeRolledBack (ts_task s)\<rparr>)"
| Closes: "set tokens = dom (tm_handles (ts_m s)) \<Longrightarrow> distinct tokens \<Longrightarrow> tx_Close tokens (ts_m s) = (m, rollbacks) \<Longrightarrow>
    tx_step s (s\<lparr>ts_m := m, ts_task := add_aborts rollbacks OutcomeRolledBack (ts_task s)\<rparr>)"
| Aborts: "ts_task s a = Some (Aborting token outcome) \<Longrightarrow> a \<notin> ts_busy s \<Longrightarrow> tm_heap (ts_m s) a = Some h \<Longrightarrow>
    handle_abort a h (ts_m s) = (m, es) \<Longrightarrow>
    tx_step s (s\<lparr>ts_m := m, ts_task := (ts_task s)(a \<mapsto> Recording token outcome), ts_hist := ts_hist s @ es\<rparr>)"
| Finishes: "ts_task s a = Some (Finishing token c commit) \<Longrightarrow> a \<notin> ts_busy s \<Longrightarrow> tm_heap (ts_m s) a = Some h \<Longrightarrow>
    handle_finish a h c commit canceled answer rollbackErr (ts_m s) = ((outcome, targets, err), m, es) \<Longrightarrow>
    tx_step s (s\<lparr>ts_m := m, ts_task := (ts_task s)(a \<mapsto> Recording token outcome), ts_hist := ts_hist s @ es\<rparr>)"
| Records: "ts_task s a = Some (Recording token outcome) \<Longrightarrow> tm_heap (ts_m s) a = Some h \<Longrightarrow>
    tx_step s (s\<lparr>ts_m := recordEnd (ts_now s) token h outcome (ts_m s), ts_task := (ts_task s)(a := None)\<rparr>)"

end
