(* ===== verification/Transaction_Props.thy ===== *)
theory Transaction_Props
  imports Transaction
begin

text \<open>
  What the transactions keep to, whatever their statements, endings and callers interleave to: every database
  transaction goes through the protocol of the first section, what the manager tells of an ended transaction is what
  became of it, its counts are those of the open handles, and closing it leaves no transaction behind.
\<close>

section \<open>The protocol of a database transaction\<close>

datatype tx_phase = TxNone | TxReady caller | TxBusy caller | TxFailed | TxDone

fun tx_of :: "db_event \<Rightarrow> nat" where
  "tx_of (BeginTx a c) = a"
| "tx_of (Statement a c) = a"
| "tx_of (StatementEnd a) = a"
| "tx_of (CommitTx a c r) = a"
| "tx_of (RollbackTx a) = a"

definition same_caller :: "caller \<Rightarrow> caller \<Rightarrow> bool" where
  "same_caller c d \<longleftrightarrow> cl_Session c = cl_Session d \<and> caller_scope c = caller_scope d"

text \<open>
  A transaction is begun once, for a caller; that caller runs its statements, one at a time; it ends once, between
  statements, by a commit of that caller or a rollback; and a failed commit is followed by a rollback.
\<close>

fun protocol :: "db_event \<Rightarrow> tx_phase \<Rightarrow> tx_phase option" where
  "protocol (BeginTx _ c) TxNone = Some (TxReady c)"
| "protocol (Statement _ d) (TxReady c) = (if same_caller c d then Some (TxBusy c) else None)"
| "protocol (StatementEnd _) (TxBusy c) = Some (TxReady c)"
| "protocol (CommitTx _ d r) (TxReady c) =
     (if same_caller c d then Some (if r = None then TxDone else TxFailed) else None)"
| "protocol (RollbackTx _) (TxReady c) = Some TxDone"
| "protocol (RollbackTx _) TxFailed = Some TxDone"
| "protocol _ _ = None"

definition observe :: "nat \<Rightarrow> db_event \<Rightarrow> tx_phase option \<Rightarrow> tx_phase option" where
  "observe a e p = (if tx_of e = a then Option.bind p (protocol e) else p)"

definition tx_phase_of :: "db_event list \<Rightarrow> nat \<Rightarrow> tx_phase option" where
  "tx_phase_of hist a = fold (observe a) hist (Some TxNone)"

text \<open>Whether the answers of the database leave a transaction committed, for certain or perhaps.\<close>

definition committed :: "db_event list \<Rightarrow> nat \<Rightarrow> bool" where
  "committed hist a \<longleftrightarrow> (\<exists>c. CommitTx a c None \<in> set hist)"

definition perhaps_committed :: "db_event list \<Rightarrow> nat \<Rightarrow> bool" where
  "perhaps_committed hist a \<longleftrightarrow> (\<exists>c e. CommitTx a c (Some e) \<in> set hist \<and> uncertain e)"

fun truthful :: "tx_outcome \<Rightarrow> db_event list \<Rightarrow> nat \<Rightarrow> bool" where
  "truthful OutcomeCommitted hist a = committed hist a"
| "truthful OutcomeUnknown hist a = (perhaps_committed hist a \<and> \<not> committed hist a)"
| "truthful _ hist a = (\<not> committed hist a \<and> \<not> perhaps_committed hist a)"

lemma tx_phase_of_Nil [simp]: "tx_phase_of [] a = Some TxNone"
  by (simp add: tx_phase_of_def)

lemma tx_phase_of_append: "tx_phase_of (hist @ es) a = fold (observe a) es (tx_phase_of hist a)"
  by (simp add: tx_phase_of_def)

lemma observe_own: "tx_of e = a \<Longrightarrow> observe a e p = Option.bind p (protocol e)"
  by (simp add: observe_def)

lemma tx_phase_of_other: "\<forall>e\<in>set es. tx_of e \<noteq> a \<Longrightarrow> tx_phase_of (hist @ es) a = tx_phase_of hist a"
proof -
  have "\<forall>e\<in>set es. tx_of e \<noteq> a \<Longrightarrow> fold (observe a) es p = p" for p
    by (induction es) (auto simp: observe_def)
  then show "\<forall>e\<in>set es. tx_of e \<noteq> a \<Longrightarrow> ?thesis" by (simp add: tx_phase_of_append)
qed

lemma protocol_Done [simp]: "protocol e TxDone = None"
  by (cases e) auto

lemma fold_observe_None [simp]: "fold (observe a) es None = None"
  by (induction es) (auto simp: observe_def)

text \<open>An ended transaction is not called again, and one that is not has not been committed.\<close>

lemma tx_phase_of_Done:
  assumes "tx_phase_of hist a = Some TxDone" and "\<forall>e\<in>set es. tx_of e = a" and "tx_phase_of (hist @ es) a \<noteq> None"
  shows "es = []"
  using assms by (cases es) (auto simp: tx_phase_of_append observe_def)

lemma commit_phase:
  "tx_phase_of hist a = Some p \<Longrightarrow> CommitTx a c r \<in> set hist \<Longrightarrow> p = TxFailed \<or> p = TxDone"
proof (induction hist arbitrary: p rule: rev_induct)
  case Nil
  then show ?case by simp
next
  case (snoc e hist)
  show ?case
  proof (cases "tx_of e = a")
    case False
    then show ?thesis using snoc by (auto simp: tx_phase_of_append observe_def)
  next
    case True
    then obtain q where q: "tx_phase_of hist a = Some q" "protocol e q = Some p"
      using snoc.prems(1) by (auto simp: tx_phase_of_append observe_def Option.bind_eq_Some_conv)
    show ?thesis
    proof (cases "CommitTx a c r \<in> set hist")
      case True
      then have "q = TxFailed \<or> q = TxDone" by (rule snoc.IH [OF q(1)])
      then show ?thesis using q(2) by (cases e) auto
    next
      case False
      then have "e = CommitTx a c r" using snoc.prems(2) by simp
      then show ?thesis using q(2) by (cases q) (auto split: if_splits)
    qed
  qed
qed

lemma not_committed:
  assumes "tx_phase_of hist a = Some p" and "p \<noteq> TxFailed" and "p \<noteq> TxDone"
  shows "CommitTx a c r \<notin> set hist"
  using commit_phase [OF assms(1)] assms(2,3) by blast

lemma truthful_other: "\<forall>e\<in>set es. tx_of e \<noteq> a \<Longrightarrow> truthful o' (hist @ es) a = truthful o' hist a"
  by (cases o') (auto simp: committed_def perhaps_committed_def)

section \<open>The stages of a handle\<close>

definition holder :: "transactionHandle \<Rightarrow> caller \<Rightarrow> bool" where
  "holder h c \<longleftrightarrow> cl_Session c = h_session h \<and> caller_scope c = h_scope h"

lemma holder_same: "holder h c \<Longrightarrow> holder h d \<Longrightarrow> same_caller c d"
  by (simp add: holder_def same_caller_def)

definition tx_live :: "tx_system \<Rightarrow> nat \<Rightarrow> transactionHandle \<Rightarrow> bool" where
  "tx_live s a h \<longleftrightarrow> \<not> h_closed h \<and>
     (\<exists>c. holder h c \<and> tx_phase_of (ts_hist s) a = Some (if a \<in> ts_busy s then TxBusy c else TxReady c))"

definition tx_over :: "tx_system \<Rightarrow> nat \<Rightarrow> transactionHandle \<Rightarrow> bool" where
  "tx_over s a h \<longleftrightarrow> h_closed h \<and> a \<notin> ts_busy s \<and> tx_phase_of (ts_hist s) a = Some TxDone"

text \<open>
  The handle \<open>h\<close> of a token drawn is being registered, open, ending before or after its rollback or commit, or
  ended, and the manager's maps and the database agree on which.
\<close>

definition tx_stage :: "tx_system \<Rightarrow> string \<Rightarrow> nat \<Rightarrow> transactionHandle \<Rightarrow> bool" where
  "tx_stage s t a h = (case ts_task s a of
     None \<Rightarrow> t \<notin> tm_ending (ts_m s) \<and>
       (tm_handles (ts_m s) t = Some a \<and> tx_live s a h \<or> tm_handles (ts_m s) t = None \<and> tx_over s a h)
   | Some (Registering u) \<Rightarrow>
       u = t \<and> t \<notin> tm_ending (ts_m s) \<and> tm_handles (ts_m s) t = None \<and> tx_live s a h \<and> a \<notin> ts_busy s
   | Some (Aborting u out) \<Rightarrow>
       u = t \<and> t \<in> tm_ending (ts_m s) \<and> tm_handles (ts_m s) t = None \<and> tx_live s a h \<and>
       (out = OutcomeRolledBack \<or> out = OutcomeExpired)
   | Some (Finishing u c commit) \<Rightarrow>
       u = t \<and> t \<in> tm_ending (ts_m s) \<and> tm_handles (ts_m s) t = None \<and> tx_live s a h \<and> holder h c
   | Some (Recording u out) \<Rightarrow>
       u = t \<and> t \<in> tm_ending (ts_m s) \<and> tm_handles (ts_m s) t = None \<and> tx_over s a h \<and> truthful out (ts_hist s) a)"

definition tomb_ok :: "tx_system \<Rightarrow> string \<Rightarrow> tombstone \<Rightarrow> bool" where
  "tomb_ok s t tb \<longleftrightarrow> (\<exists>a h. ts_drawn s t = Some a \<and> tm_heap (ts_m s) a = Some h \<and> tb_session tb = h_session h \<and>
     tb_scope tb = h_scope h \<and> tx_phase_of (ts_hist s) a = Some TxDone \<and> truthful (tb_outcome tb) (ts_hist s) a)"

definition found_ok :: "tx_system \<Rightarrow> string \<Rightarrow> nat \<Rightarrow> caller \<Rightarrow> bool" where
  "found_ok s t a c \<longleftrightarrow> ts_drawn s t = Some a \<and> (\<forall>u. ts_task s a \<noteq> Some (Registering u)) \<and>
     (\<exists>h. tm_heap (ts_m s) a = Some h \<and> holder h c)"

definition tx_inv :: "tx_system \<Rightarrow> bool" where
  "tx_inv s \<longleftrightarrow>
     (\<forall>t a. ts_drawn s t = Some a \<longrightarrow> (\<exists>h. tm_heap (ts_m s) a = Some h \<and> tx_stage s t a h)) \<and>
     (\<forall>t u a. ts_drawn s t = Some a \<longrightarrow> ts_drawn s u = Some a \<longrightarrow> t = u) \<and>
     (\<forall>a h. tm_heap (ts_m s) a = Some h \<longrightarrow> (\<exists>t. ts_drawn s t = Some a)) \<and>
     (\<forall>a. tm_heap (ts_m s) a = None \<longrightarrow>
        tx_phase_of (ts_hist s) a = Some TxNone \<and> a \<notin> ts_busy s \<and> ts_task s a = None) \<and>
     (\<forall>t a. tm_handles (ts_m s) t = Some a \<longrightarrow> ts_drawn s t = Some a) \<and>
     (\<forall>t\<in>tm_ending (ts_m s). ts_drawn s t \<noteq> None) \<and>
     (\<forall>t a c. (t, a, c) \<in> ts_found s \<longrightarrow> found_ok s t a c) \<and>
     (\<forall>t tb. tm_tombstones (ts_m s) t = Some tb \<longrightarrow> tomb_ok s t tb)"

lemma tx_inv_drawn:
  "tx_inv s \<Longrightarrow> ts_drawn s t = Some a \<Longrightarrow> \<exists>h. tm_heap (ts_m s) a = Some h \<and> tx_stage s t a h"
  by (simp add: tx_inv_def)

lemma tx_inv_stage:
  "tx_inv s \<Longrightarrow> ts_drawn s t = Some a \<Longrightarrow> tm_heap (ts_m s) a = Some h \<Longrightarrow> tx_stage s t a h"
  using tx_inv_drawn by fastforce

lemma tx_inv_inj: "tx_inv s \<Longrightarrow> ts_drawn s t = Some a \<Longrightarrow> ts_drawn s u = Some a \<Longrightarrow> t = u"
  unfolding tx_inv_def by blast

lemma tx_inv_token: "tx_inv s \<Longrightarrow> tm_heap (ts_m s) a = Some h \<Longrightarrow> \<exists>t. ts_drawn s t = Some a"
  unfolding tx_inv_def by blast

lemma tx_inv_fresh:
  "tx_inv s \<Longrightarrow> tm_heap (ts_m s) a = None \<Longrightarrow>
     tx_phase_of (ts_hist s) a = Some TxNone \<and> a \<notin> ts_busy s \<and> ts_task s a = None"
  unfolding tx_inv_def by blast

lemma tx_inv_handles: "tx_inv s \<Longrightarrow> tm_handles (ts_m s) t = Some a \<Longrightarrow> ts_drawn s t = Some a"
  unfolding tx_inv_def by blast

lemma tx_inv_ending: "tx_inv s \<Longrightarrow> t \<in> tm_ending (ts_m s) \<Longrightarrow> ts_drawn s t \<noteq> None"
  unfolding tx_inv_def by blast

lemma tx_inv_found: "tx_inv s \<Longrightarrow> (t, a, c) \<in> ts_found s \<Longrightarrow> found_ok s t a c"
  unfolding tx_inv_def by blast

lemma tx_inv_tomb: "tx_inv s \<Longrightarrow> tm_tombstones (ts_m s) t = Some tb \<Longrightarrow> tomb_ok s t tb"
  unfolding tx_inv_def by blast

lemma tx_stage_phase: "tx_stage s t a h \<Longrightarrow> tx_phase_of (ts_hist s) a \<noteq> None"
  by (auto simp: tx_stage_def tx_live_def tx_over_def split: option.splits tx_task.splits)

lemma tx_inv_accepted:
  assumes "tx_inv s"
  shows "tx_phase_of (ts_hist s) a \<noteq> None"
proof (cases "tm_heap (ts_m s) a")
  case None
  then show ?thesis using tx_inv_fresh [OF assms] by simp
next
  case (Some h)
  then obtain t where "ts_drawn s t = Some a" using tx_inv_token [OF assms] by blast
  then show ?thesis using tx_stage_phase [OF tx_inv_stage [OF assms _ Some]] by blast
qed

text \<open>
  A step at one handle: it changes the handle \<open>a\<close> of the token \<open>t\<close>, or makes it, its task, whether it is busy and the
  entries of \<open>t\<close> in the manager, and calls the transaction \<open>a\<close> only. It keeps the invariant when it leaves \<open>a\<close> at a
  stage.
\<close>

definition steps_at :: "string \<Rightarrow> nat \<Rightarrow> tx_system \<Rightarrow> tx_system \<Rightarrow> bool" where
  "steps_at t a s s' \<longleftrightarrow> (ts_drawn s t = Some a \<or> ts_drawn s t = None \<and> tm_heap (ts_m s) a = None) \<and>
     ts_drawn s' = (ts_drawn s)(t \<mapsto> a) \<and> ts_found s' \<subseteq> ts_found s \<and>
     (\<forall>b. b \<noteq> a \<longrightarrow> tm_heap (ts_m s') b = tm_heap (ts_m s) b \<and> ts_task s' b = ts_task s b \<and>
        (b \<in> ts_busy s' \<longleftrightarrow> b \<in> ts_busy s)) \<and>
     (\<forall>u. u \<noteq> t \<longrightarrow> tm_handles (ts_m s') u = tm_handles (ts_m s) u \<and>
        (u \<in> tm_ending (ts_m s') \<longleftrightarrow> u \<in> tm_ending (ts_m s))) \<and>
     (tm_handles (ts_m s') t = None \<or> tm_handles (ts_m s') t = Some a) \<and>
     (tm_heap (ts_m s) a = None \<or> (\<forall>u. ts_task s' a \<noteq> Some (Registering u))) \<and>
     (\<exists>es. ts_hist s' = ts_hist s @ es \<and> (\<forall>e\<in>set es. tx_of e = a)) \<and>
     (\<exists>h'. tm_heap (ts_m s') a = Some h' \<and> tx_stage s' t a h' \<and>
        (\<forall>h. tm_heap (ts_m s) a = Some h \<longrightarrow> h_session h' = h_session h \<and> h_scope h' = h_scope h))"

lemma steps_at_keeps_drawn:
  assumes "steps_at t a s s'" and "tx_inv s" and "ts_drawn s u = Some b"
  shows "ts_drawn s' u = Some b" and "u \<noteq> t \<Longrightarrow> b \<noteq> a"
proof -
  obtain h where "tm_heap (ts_m s) b = Some h" using tx_inv_drawn [OF assms(2,3)] by blast
  then show "ts_drawn s' u = Some b" "u \<noteq> t \<Longrightarrow> b \<noteq> a"
    using assms(1,3) tx_inv_inj [OF assms(2)] unfolding steps_at_def by (cases "u = t", auto)
qed

lemma steps_at_phase:
  "steps_at t a s s' \<Longrightarrow> b \<noteq> a \<Longrightarrow> tx_phase_of (ts_hist s') b = tx_phase_of (ts_hist s) b"
  unfolding steps_at_def by (metis tx_phase_of_other)

lemma steps_at_truthful:
  "steps_at t a s s' \<Longrightarrow> b \<noteq> a \<Longrightarrow> truthful out (ts_hist s') b = truthful out (ts_hist s) b"
  unfolding steps_at_def by (metis truthful_other)

lemma steps_at_stage:
  assumes st: "steps_at t a s s'" and ne: "b \<noteq> a" "u \<noteq> t"
  shows "tx_stage s' u b h = tx_stage s u b h"
proof -
  have eq: "ts_task s' b = ts_task s b" "b \<in> ts_busy s' \<longleftrightarrow> b \<in> ts_busy s"
    "tm_handles (ts_m s') u = tm_handles (ts_m s) u" "u \<in> tm_ending (ts_m s') \<longleftrightarrow> u \<in> tm_ending (ts_m s)"
    using st ne unfolding steps_at_def by blast+
  show ?thesis
    by (simp add: tx_stage_def tx_live_def tx_over_def eq steps_at_phase [OF st ne(1)] steps_at_truthful [OF st ne(1)]
        split: option.splits tx_task.splits)
qed

lemma steps_at_heap:
  assumes "steps_at t a s s'" and "tm_heap (ts_m s) b = Some h"
  shows "\<exists>h'. tm_heap (ts_m s') b = Some h' \<and> h_session h' = h_session h \<and> h_scope h' = h_scope h"
  using assms unfolding steps_at_def by (cases "b = a") auto

lemma steps_at_tomb:
  assumes st: "steps_at t a s s'" and inv: "tx_inv s" and tb: "tomb_ok s u tb"
  shows "tomb_ok s' u tb"
proof -
  obtain b h where b: "ts_drawn s u = Some b" "tm_heap (ts_m s) b = Some h" "tb_session tb = h_session h"
      "tb_scope tb = h_scope h" "tx_phase_of (ts_hist s) b = Some TxDone" "truthful (tb_outcome tb) (ts_hist s) b"
    using tb unfolding tomb_ok_def by blast
  have "tx_phase_of (ts_hist s') b = Some TxDone \<and> truthful (tb_outcome tb) (ts_hist s') b"
  proof (cases "b = a")
    case True
    obtain es where es: "ts_hist s' = ts_hist s @ es" "\<forall>e\<in>set es. tx_of e = a"
      using st unfolding steps_at_def by blast
    have "tx_phase_of (ts_hist s @ es) a \<noteq> None"
      using st tx_stage_phase unfolding steps_at_def es(1) [symmetric] by blast
    then have "es = []" using tx_phase_of_Done [OF _ es(2)] b(5) True by blast
    then show ?thesis using es(1) b by simp
  next
    case False
    then show ?thesis using b steps_at_phase [OF st False] steps_at_truthful [OF st False] by simp
  qed
  then show ?thesis
    using steps_at_keeps_drawn(1) [OF st inv b(1)] steps_at_heap [OF st b(2)] b(3,4) unfolding tomb_ok_def by metis
qed

lemma steps_at_found:
  assumes st: "steps_at t a s s'" and inv: "tx_inv s" and f: "found_ok s u b c"
  shows "found_ok s' u b c"
proof -
  obtain h where h: "tm_heap (ts_m s) b = Some h" "holder h c" using f unfolding found_ok_def by blast
  then have "\<exists>h'. tm_heap (ts_m s') b = Some h' \<and> holder h' c"
    using steps_at_heap [OF st h(1)] unfolding holder_def by metis
  moreover have "\<forall>v. ts_task s' b \<noteq> Some (Registering v)"
    using st f h(1) unfolding steps_at_def found_ok_def by (cases "b = a") auto
  moreover have "ts_drawn s' u = Some b"
    using steps_at_keeps_drawn(1) [OF st inv] f unfolding found_ok_def by blast
  ultimately show ?thesis unfolding found_ok_def by blast
qed

lemma steps_at_inv:
  assumes st: "steps_at t a s s'" and inv: "tx_inv s"
    and tombs: "\<And>u tb. tm_tombstones (ts_m s') u = Some tb \<Longrightarrow>
      tm_tombstones (ts_m s) u = Some tb \<or> u = t \<and> tomb_ok s' u tb"
  shows "tx_inv s'"
proof -
  have drawn: "ts_drawn s' = (ts_drawn s)(t \<mapsto> a)" and found: "ts_found s' \<subseteq> ts_found s"
    using st unfolding steps_at_def by blast+
  have other: "b \<noteq> a \<and> ts_drawn s u = Some b" if k: "ts_drawn s' u = Some b" "u \<noteq> t" for u b
    using k drawn steps_at_keeps_drawn(2) [OF st inv] by auto
  have stages: "\<exists>h. tm_heap (ts_m s') b = Some h \<and> tx_stage s' u b h" if k: "ts_drawn s' u = Some b" for u b
  proof (cases "u = t")
    case True
    then show ?thesis using st k drawn unfolding steps_at_def by auto
  next
    case False
    then have o: "b \<noteq> a" "ts_drawn s u = Some b" using other k by blast+
    then have "tm_heap (ts_m s') b = tm_heap (ts_m s) b" using st unfolding steps_at_def by blast
    then show ?thesis using tx_inv_drawn [OF inv o(2)] steps_at_stage [OF st o(1) False] by simp
  qed
  have inj: "u = v" if k: "ts_drawn s' u = Some b" "ts_drawn s' v = Some b" for u v b
    using k other [OF k(1)] other [OF k(2)] drawn tx_inv_inj [OF inv] by (cases "u = t"; cases "v = t") auto
  have fresh: "tx_phase_of (ts_hist s') b = Some TxNone \<and> b \<notin> ts_busy s' \<and> ts_task s' b = None"
    if k: "tm_heap (ts_m s') b = None" for b
  proof -
    have ne: "b \<noteq> a" using k st unfolding steps_at_def by auto
    then have eq: "tm_heap (ts_m s) b = None" "ts_task s' b = ts_task s b" "b \<in> ts_busy s' \<longleftrightarrow> b \<in> ts_busy s"
      using k st unfolding steps_at_def by (metis, blast+)
    show ?thesis using tx_inv_fresh [OF inv eq(1)] steps_at_phase [OF st ne] eq by simp
  qed
  have handles: "ts_drawn s' u = Some b" if k: "tm_handles (ts_m s') u = Some b" for u b
    using k st tx_inv_handles [OF inv] drawn unfolding steps_at_def by (cases "u = t") auto
  have ending: "ts_drawn s' u \<noteq> None" if k: "u \<in> tm_ending (ts_m s')" for u
    using k st tx_inv_ending [OF inv] drawn unfolding steps_at_def by (cases "u = t") auto
  have token: "\<exists>u. ts_drawn s' u = Some b" if k: "tm_heap (ts_m s') b = Some h" for b h
  proof (cases "b = a")
    case True
    then show ?thesis using drawn by auto
  next
    case False
    then have "tm_heap (ts_m s) b = Some h" using k st unfolding steps_at_def by metis
    then show ?thesis using tx_inv_token [OF inv] steps_at_keeps_drawn(1) [OF st inv] by blast
  qed
  have tomb: "tomb_ok s' u tb" if k: "tm_tombstones (ts_m s') u = Some tb" for u tb
    using tombs [OF k] steps_at_tomb [OF st inv] tx_inv_tomb [OF inv] by blast
  show ?thesis
    unfolding tx_inv_def
    using stages inj token fresh handles ending tomb steps_at_found [OF st inv tx_inv_found [OF inv]] found by blast
qed

section \<open>Every step keeps the invariant\<close>

named_theorems tx_ops \<open>the operations on handles, unfolded to record updates\<close>

declare handle_update_def [tx_ops] touch_def [tx_ops] statementStarted_def [tx_ops] statementEnded_def [tx_ops]
  watchIdleLocked_def [tx_ops] tx_removeLocked_def [tx_ops] endingLocked_def [tx_ops]

text \<open>An open handle is live and has no task, and a handle with a task or a call is not open.\<close>

lemma open_stage:
  assumes "tx_inv s" and "tm_handles (ts_m s) t = Some a" and "tm_heap (ts_m s) a = Some h"
  shows "ts_task s a = None" and "tx_live s a h" and "t \<notin> tm_ending (ts_m s)" and "ts_drawn s t = Some a"
  using tx_inv_stage [OF assms(1) tx_inv_handles [OF assms(1,2)] assms(3)] assms(2) tx_inv_handles [OF assms(1,2)]
  by (auto simp: tx_stage_def split: option.splits tx_task.splits)

lemma task_token:
  assumes inv: "tx_inv s" and k: "ts_task s a = Some k"
    and "k = Registering t \<or> k = Aborting t out \<or> k = Finishing t c commit \<or> k = Recording t out"
  shows "ts_drawn s t = Some a"
proof -
  have "tm_heap (ts_m s) a \<noteq> None" using tx_inv_fresh [OF inv] k by fastforce
  then obtain h u where "tm_heap (ts_m s) a = Some h" "ts_drawn s u = Some a"
    using tx_inv_token [OF inv] by blast
  moreover from this have "tx_stage s u a h" by (metis tx_inv_stage [OF inv])
  ultimately show ?thesis using assms(2,3) by (auto simp: tx_stage_def)
qed

lemma ends_at:
  assumes inv: "tx_inv s" and hs: "tm_handles (ts_m s) t = Some a" and h: "tm_heap (ts_m s) a = Some h"
    and k: "k = Aborting t out \<and> (out = OutcomeRolledBack \<or> out = OutcomeExpired) \<or> k = Finishing t c commit \<and> holder h c"
  shows "tx_inv (s\<lparr>ts_m := endingLocked t a h (ts_m s), ts_task := (ts_task s)(a \<mapsto> k)\<rparr>)"
proof -
  note st = open_stage [OF inv hs h]
  let ?s = "s\<lparr>ts_m := endingLocked t a h (ts_m s), ts_task := (ts_task s)(a \<mapsto> k)\<rparr>"
  have "tx_live ?s a (h\<lparr>h_stopTimer := None, h_stopIdle := None\<rparr>)"
    using st(2) by (simp add: tx_live_def holder_def)
  then have "tx_stage ?s t a (h\<lparr>h_stopTimer := None, h_stopIdle := None\<rparr>)"
    using k by (auto simp: tx_stage_def tx_ops holder_def)
  then have "steps_at t a s ?s"
    using st(4) h k unfolding steps_at_def by (auto simp: tx_ops fun_upd_idem)
  then show ?thesis by (rule steps_at_inv [OF _ inv]) (simp add: tx_ops)
qed

lemma ended_inv:
  assumes inv: "tx_inv s" and h: "tm_heap (ts_m s) a = Some h" and out: "out = OutcomeRolledBack \<or> out = OutcomeExpired"
    and r: "r = tx_end t a h (ts_m s)"
  shows "tx_inv (ended t a out r s)"
proof (cases "tm_handles (ts_m s) t = Some a")
  case True
  then show ?thesis
    using ends_at [OF inv True h, of "Aborting t out"] out by (simp add: r ended_def tx_end_def add_aborts_def)
next
  case False
  then show ?thesis using inv by (simp add: r ended_def tx_end_def)
qed

text \<open>A step that changes only what the invariant does not read of an open handle, or of one that is ending.\<close>

lemma handle_update_inv:
  assumes inv: "tx_inv s" and t: "ts_drawn s t = Some a" and h: "tm_heap (ts_m s) a = Some h"
    and reg: "\<forall>u. ts_task s a \<noteq> Some (Registering u)"
    and f: "h_session (f h) = h_session h" "h_scope (f h) = h_scope h" "h_closed (f h) = h_closed h"
  shows "tx_inv (s\<lparr>ts_m := handle_update a f (ts_m s)\<rparr>)"
proof -
  let ?s = "s\<lparr>ts_m := handle_update a f (ts_m s)\<rparr>"
  have "tx_stage ?s t a (f h)"
    using tx_inv_stage [OF inv t h] f
    by (auto simp: tx_stage_def tx_live_def tx_over_def holder_def tx_ops split: option.splits tx_task.splits)
  moreover have "tm_handles (ts_m s) t = None \<or> tm_handles (ts_m s) t = Some a"
    using tx_inv_handles [OF inv] t by (cases "tm_handles (ts_m s) t") auto
  ultimately have "steps_at t a s ?s"
    using t h reg f unfolding steps_at_def by (auto simp: tx_ops fun_upd_idem)
  then show ?thesis by (rule steps_at_inv [OF _ inv]) (simp add: tx_ops)
qed

lemma checkIdle_inv:
  assumes inv: "tx_inv s" and h: "tm_heap (ts_m s) a = Some h" and r: "r = checkIdle now t a h (ts_m s)"
  shows "tx_inv (ended t a OutcomeExpired r s)"
proof (cases "tm_handles (ts_m s) t = Some a")
  case True
  note st = open_stage [OF inv True h]
  have "tx_inv (s\<lparr>ts_m := watchIdleLocked now a d (ts_m s)\<rparr>)" for d
    unfolding watchIdleLocked_def by (rule handle_update_inv [OF inv st(4) h]) (simp_all add: st(1))
  then show ?thesis
    using ends_at [OF inv True h, of "Aborting t OutcomeExpired"] True
    by (simp add: r ended_def checkIdle_def Let_def add_aborts_def)
next
  case False
  then show ?thesis using inv by (simp add: r ended_def checkIdle_def)
qed

lemma endAll_inv:
  assumes "tx_inv s" and "endAll p tokens (ts_m s) = (m, rollbacks)"
  shows "tx_inv (s\<lparr>ts_m := m, ts_task := add_aborts rollbacks OutcomeRolledBack (ts_task s)\<rparr>)"
  using assms
proof (induction tokens arbitrary: s m rollbacks)
  case Nil
  then show ?case by (auto simp: add_aborts_def)
next
  case (Cons t tokens)
  show ?case
  proof (cases "\<exists>a h. tm_handles (ts_m s) t = Some a \<and> tm_heap (ts_m s) a = Some h \<and> p h")
    case False
    then have "endAll p tokens (ts_m s) = (m, rollbacks)"
      using Cons.prems(2) by (auto split: option.splits)
    then show ?thesis by (rule Cons.IH [OF Cons.prems(1)])
  next
    case True
    then obtain a h where ah: "tm_handles (ts_m s) t = Some a" "tm_heap (ts_m s) a = Some h" "p h" by blast
    let ?s = "s\<lparr>ts_m := endingLocked t a h (ts_m s), ts_task := (ts_task s)(a \<mapsto> Aborting t OutcomeRolledBack)\<rparr>"
    obtain rs where rs: "endAll p tokens (endingLocked t a h (ts_m s)) = (m, rs)" "rollbacks = (t, a) # rs"
      using Cons.prems(2) ah by (auto split: prod.splits)
    have inv: "tx_inv ?s" by (rule ends_at [OF Cons.prems(1) ah(1,2), where out = OutcomeRolledBack]) simp
    have "tx_inv (?s\<lparr>ts_m := m, ts_task := add_aborts rs OutcomeRolledBack (ts_task ?s)\<rparr>)"
      by (rule Cons.IH [OF inv]) (simp add: rs(1))
    moreover have "add_aborts rollbacks OutcomeRolledBack (ts_task s) = add_aborts rs OutcomeRolledBack (ts_task ?s)"
      by (simp add: rs(2) add_aborts_def)
    ultimately show ?thesis by (simp del: fun_upd_apply)
  qed
qed

text \<open>The invariant does not read the clock, the limits, the counts or the pending failures.\<close>

lemma tx_inv_cong:
  assumes "tx_inv s" and "tm_heap (ts_m s') = tm_heap (ts_m s)" "tm_handles (ts_m s') = tm_handles (ts_m s)"
    "tm_ending (ts_m s') = tm_ending (ts_m s)" "tm_tombstones (ts_m s') = tm_tombstones (ts_m s)"
    "ts_task s' = ts_task s" "ts_busy s' = ts_busy s" "ts_found s' = ts_found s" "ts_hist s' = ts_hist s"
    "ts_drawn s' = ts_drawn s"
  shows "tx_inv s'"
  using assms(1) unfolding tx_inv_def tx_stage_def tx_live_def tx_over_def tomb_ok_def found_ok_def assms(2-) .

lemma begin_start_inv:
  assumes inv: "tx_inv s" and a: "tm_heap (ts_m s) a = None" and t: "ts_drawn s t = None"
  shows "tx_inv (s\<lparr>ts_m := (ts_m s)\<lparr>tm_heap := (tm_heap (ts_m s))(a \<mapsto> newHandle now connection c datasource ttl)\<rparr>,
    ts_task := (ts_task s)(a \<mapsto> Registering t), ts_hist := ts_hist s @ [BeginTx a c],
    ts_drawn := (ts_drawn s)(t \<mapsto> a)\<rparr>)" (is "tx_inv ?s")
proof -
  note fresh = tx_inv_fresh [OF inv a]
  have t': "tm_handles (ts_m s) t = None" "t \<notin> tm_ending (ts_m s)"
    using tx_inv_handles [OF inv] tx_inv_ending [OF inv] t by (metis not_None_eq option.discI)+
  have "tx_stage ?s t a (newHandle now connection c datasource ttl)"
    using fresh t' by (auto simp: tx_stage_def tx_live_def newHandle_def holder_def tx_phase_of_append observe_def)
  then have "steps_at t a s ?s" using a t t' unfolding steps_at_def by auto
  then show ?thesis by (rule steps_at_inv [OF _ inv]) simp
qed

lemma begin_done_inv:
  assumes inv: "tx_inv s" and k: "ts_task s a = Some (Registering t)" and h: "tm_heap (ts_m s) a = Some h"
    and m: "addHandle now t a h (ts_m s) = Inr m"
  shows "tx_inv (s\<lparr>ts_m := m, ts_task := (ts_task s)(a := None)\<rparr>)" (is "tx_inv ?s")
proof -
  have t: "ts_drawn s t = Some a" using task_token [OF inv k] by blast
  have live: "tx_live s a h" "t \<notin> tm_ending (ts_m s)"
    using tx_inv_stage [OF inv t h] k by (auto simp: tx_stage_def)
  obtain h' where h': "tm_heap m = (tm_heap (ts_m s))(a \<mapsto> h')" "h_session h' = h_session h" "h_scope h' = h_scope h"
      "h_closed h' = h_closed h"
    and m': "tm_handles m = (tm_handles (ts_m s))(t \<mapsto> a)" "tm_ending m = tm_ending (ts_m s)"
      "tm_tombstones m = tm_tombstones (ts_m s)"
    using m h by (auto simp: addHandle_def tx_ops Let_def split: if_splits option.splits)
  have "tx_stage ?s t a h'"
    using live h' m' by (simp add: tx_stage_def tx_live_def holder_def)
  then have "steps_at t a s ?s" using t h h' m' unfolding steps_at_def by (auto simp: fun_upd_idem)
  then show ?thesis by (rule steps_at_inv [OF _ inv]) (simp add: m')
qed

text \<open>The calls that end a live transaction, outside of a statement: what the manager records of them is true.\<close>

lemma live_truthful:
  assumes "tx_live s a h" and "a \<notin> ts_busy s" and "\<forall>c r. CommitTx a c r \<notin> set es"
    and "out = OutcomeRolledBack \<or> out = OutcomeExpired"
  shows "truthful out (ts_hist s @ es) a"
proof -
  have "CommitTx a c r \<notin> set (ts_hist s)" for c r
    using assms(1,2) not_committed by (fastforce simp: tx_live_def)
  then show ?thesis using assms(3,4) by (auto simp: committed_def perhaps_committed_def)
qed

lemma abort_ends:
  assumes live: "tx_live s a h" and nb: "a \<notin> ts_busy s" and m: "handle_abort a h (ts_m s) = (m, es)"
  shows "m = handle_update a (\<lambda>h. h\<lparr>h_closed := True\<rparr>) (ts_m s)" and "\<forall>e\<in>set es. tx_of e = a"
    and "tx_phase_of (ts_hist s @ es) a = Some TxDone"
    and "out = OutcomeRolledBack \<or> out = OutcomeExpired \<Longrightarrow> truthful out (ts_hist s @ es) a"
proof -
  have es: "es = [RollbackTx a]" "m = handle_update a (\<lambda>h. h\<lparr>h_closed := True\<rparr>) (ts_m s)"
    using m live by (simp_all add: handle_abort_def tx_live_def)
  then show "m = handle_update a (\<lambda>h. h\<lparr>h_closed := True\<rparr>) (ts_m s)" "\<forall>e\<in>set es. tx_of e = a" by simp_all
  show "tx_phase_of (ts_hist s @ es) a = Some TxDone"
    using live nb by (auto simp: es tx_live_def tx_phase_of_append observe_def)
  show "truthful out (ts_hist s @ es) a" if "out = OutcomeRolledBack \<or> out = OutcomeExpired"
    using live_truthful [OF live nb _ that] es by simp
qed

lemma finish_ends:
  assumes live: "tx_live s a h" and nb: "a \<notin> ts_busy s" and c: "holder h c"
    and m: "handle_finish a h c commit canceled answer rollbackErr (ts_m s) = ((out, targets, err), m, es)"
  shows "m = handle_update a (\<lambda>h. h\<lparr>h_closed := True\<rparr>) (ts_m s)" and "\<forall>e\<in>set es. tx_of e = a"
    and "tx_phase_of (ts_hist s @ es) a = Some TxDone" and "truthful out (ts_hist s @ es) a"
proof -
  obtain d where d: "holder h d" "tx_phase_of (ts_hist s) a = Some (TxReady d)" and open_: "\<not> h_closed h"
    using live nb by (auto simp: tx_live_def)
  have same: "same_caller d c" using d(1) c by (rule holder_same)
  have none: "CommitTx a e r \<notin> set (ts_hist s)" for e r
    using not_committed [OF d(2)] by simp
  show "m = handle_update a (\<lambda>h. h\<lparr>h_closed := True\<rparr>) (ts_m s)" "\<forall>e\<in>set es. tx_of e = a"
    using m open_ by (auto simp: handle_finish_def Let_def split: if_splits option.splits)
  show "tx_phase_of (ts_hist s @ es) a = Some TxDone"
    using m open_ d(2) same
    by (auto simp: handle_finish_def Let_def tx_phase_of_append observe_def split: if_splits option.splits)
  show "truthful out (ts_hist s @ es) a"
    using m open_ none
    by (auto simp: handle_finish_def Let_def committed_def perhaps_committed_def split: if_splits option.splits)
qed

text \<open>Such a call leaves the handle over, with its end still to be recorded, or with nothing to do.\<close>

lemma over_inv:
  assumes inv: "tx_inv s" and t: "ts_drawn s t = Some a" and h: "tm_heap (ts_m s) a = Some h" and nb: "a \<notin> ts_busy s"
    and es: "\<forall>e\<in>set es. tx_of e = a" "tx_phase_of (ts_hist s @ es) a = Some TxDone"
    and hs: "tm_handles (ts_m s) t = None"
    and k: "k = None \<and> t \<notin> tm_ending (ts_m s) \<or>
      k = Some (Recording t out) \<and> t \<in> tm_ending (ts_m s) \<and> truthful out (ts_hist s @ es) a"
  shows "tx_inv (s\<lparr>ts_m := handle_update a (\<lambda>h. h\<lparr>h_closed := True\<rparr>) (ts_m s), ts_task := (ts_task s)(a := k),
    ts_hist := ts_hist s @ es\<rparr>)" (is "tx_inv ?s")
proof -
  have "tx_stage ?s t a (h\<lparr>h_closed := True\<rparr>)"
    using k hs nb es(2) by (auto simp: tx_stage_def tx_over_def tx_ops)
  then have "steps_at t a s ?s"
    using t h hs k es(1) unfolding steps_at_def by (auto simp: tx_ops fun_upd_idem)
  then show ?thesis by (rule steps_at_inv [OF _ inv]) (simp add: tx_ops)
qed

text \<open>Statements, which only the holder of a handle that is not over starts.\<close>

lemma lookup_found:
  assumes inv: "tx_inv s" and f: "tx_lookup now t c datasource connections (ts_m s) = Found a"
  shows "tm_handles (ts_m s) t = Some a" and "found_ok s t a c"
proof -
  obtain h where h: "tm_handles (ts_m s) t = Some a" "tm_heap (ts_m s) a = Some h" "holder h c"
    using f by (auto simp: tx_lookup_def holder_def split: option.splits if_splits)
  then show "tm_handles (ts_m s) t = Some a" "found_ok s t a c"
    using open_stage(1,4) [OF inv h(1,2)] by (auto simp: found_ok_def)
qed

lemma found_inv:
  assumes inv: "tx_inv s" and f: "tx_lookup now t c datasource connections (ts_m s) = Found a"
  shows "tx_inv (s\<lparr>ts_found := insert (t, a, c) (ts_found s)\<rparr>)"
    (is "tx_inv ?s")
proof -
  have eq: "tx_stage ?s = tx_stage s" "tomb_ok ?s = tomb_ok s" "found_ok ?s = found_ok s"
    by (intro ext; simp add: tx_stage_def tx_live_def tx_over_def tomb_ok_def found_ok_def
        split: option.splits tx_task.splits)+
  show ?thesis
    using inv lookup_found(2) [OF inv f] unfolding tx_inv_def eq by simp
qed

text \<open>A statement that starts or ends takes a live handle from one half of the stage to the other.\<close>

lemma busy_inv:
  assumes inv: "tx_inv s" and t: "ts_drawn s t = Some a" and h: "tm_heap (ts_m s) a = Some h"
    and reg: "\<forall>u. ts_task s a \<noteq> Some (Registering u)"
    and f: "h_session (f h) = h_session h" "h_scope (f h) = h_scope h" "h_closed (f h) = h_closed h"
    and busy: "busy = insert a (ts_busy s) \<or> busy = ts_busy s - {a}"
    and es: "\<forall>e\<in>set es. tx_of e = a \<and> (\<forall>c r. e \<noteq> CommitTx a c r)"
    and live: "\<not> h_closed h" "holder h c"
      "tx_phase_of (ts_hist s @ es) a = Some (if a \<in> busy then TxBusy c else TxReady c)"
  shows "tx_inv (s\<lparr>ts_m := handle_update a f (ts_m s), ts_busy := busy, ts_hist := ts_hist s @ es\<rparr>)" (is "tx_inv ?s")
proof -
  have hs: "tm_handles (ts_m s) t = None \<or> tm_handles (ts_m s) t = Some a"
    using tx_inv_handles [OF inv] t by (cases "tm_handles (ts_m s) t") auto
  have "tx_live ?s a (f h)" using live f by (auto simp: tx_live_def holder_def)
  moreover have "\<not> tx_over s a h" using live(1) by (simp add: tx_over_def)
  ultimately have "tx_stage ?s t a (f h)"
    using tx_inv_stage [OF inv t h] reg f
    by (auto simp: tx_stage_def tx_ops holder_def split: option.splits tx_task.splits)
  then have "steps_at t a s ?s"
    using t h reg f hs busy es unfolding steps_at_def by (auto simp: tx_ops fun_upd_idem)
  then show ?thesis by (rule steps_at_inv [OF _ inv]) (simp add: tx_ops)
qed

lemma not_over_live:
  assumes "tx_stage s t a h" and "\<not> h_closed h \<or> a \<in> ts_busy s"
  shows "tx_live s a h"
  using assms by (auto simp: tx_stage_def tx_over_def split: option.splits tx_task.splits)

lemma statement_start_inv:
  assumes inv: "tx_inv s" and f: "(t, a, c) \<in> ts_found s" and nb: "a \<notin> ts_busy s" and h: "tm_heap (ts_m s) a = Some h"
    and m: "statement_start now a h c (ts_m s) = Inr (m, es)"
  shows "tx_inv (s\<lparr>ts_m := m, ts_busy := insert a (ts_busy s), ts_hist := ts_hist s @ es\<rparr>)"
proof -
  have ok: "ts_drawn s t = Some a" "\<forall>u. ts_task s a \<noteq> Some (Registering u)" "holder h c"
    using tx_inv_found [OF inv f] h by (auto simp: found_ok_def)
  have m': "m = handle_update a (statementStarted now) (ts_m s)" "es = [Statement a c]" "\<not> h_closed h"
    using m by (auto simp: statement_start_def split: if_splits)
  have "tx_live s a h" using not_over_live [OF tx_inv_stage [OF inv ok(1) h]] m'(3) by blast
  then obtain d where d: "holder h d" "tx_phase_of (ts_hist s) a = Some (TxReady d)"
    using nb by (auto simp: tx_live_def)
  have "tx_phase_of (ts_hist s @ es) a = Some (TxBusy d)"
    using d(2) holder_same [OF d(1) ok(3)] by (simp add: m' tx_phase_of_append observe_def)
  then show ?thesis
    unfolding m'(1) by (intro busy_inv [OF inv ok(1) h ok(2)]) (simp_all add: tx_ops m' d(1))
qed

lemma statement_end_inv:
  assumes inv: "tx_inv s" and b: "a \<in> ts_busy s" and m: "statement_end now a (ts_m s) = (m, es)"
  shows "tx_inv (s\<lparr>ts_m := m, ts_busy := ts_busy s - {a}, ts_hist := ts_hist s @ es\<rparr>)"
proof -
  have m': "m = handle_update a (statementEnded now) (ts_m s)" "es = [StatementEnd a]"
    using m by (auto simp: statement_end_def)
  obtain h where h: "tm_heap (ts_m s) a = Some h" using tx_inv_fresh [OF inv] b by fastforce
  obtain t where t: "ts_drawn s t = Some a" using tx_inv_token [OF inv h] by blast
  note stage = tx_inv_stage [OF inv t h]
  have "tx_live s a h" using not_over_live [OF stage] b by blast
  then obtain d where d: "holder h d" "tx_phase_of (ts_hist s) a = Some (TxBusy d)" "\<not> h_closed h"
    using b by (auto simp: tx_live_def)
  have "tx_phase_of (ts_hist s @ es) a = Some (TxReady d)"
    using d(2) by (simp add: m' tx_phase_of_append observe_def)
  moreover have "\<forall>u. ts_task s a \<noteq> Some (Registering u)" using stage b by (auto simp: tx_stage_def)
  ultimately show ?thesis
    unfolding m'(1) by (intro busy_inv [OF inv t h]) (simp_all add: tx_ops m' d)
qed

text \<open>Tombstones are only dropped but for the new one.\<close>

lemma evict_subset: "evict now ts buried = (ts', buried') \<Longrightarrow> ts' t = Some tb \<Longrightarrow> ts t = Some tb"
proof (induction now ts buried rule: evict.induct)
  case (1 now ts)
  then show ?case by simp
next
  case (2 now ts u buried)
  show ?case
  proof (cases "ts u")
    case None
    then show ?thesis using 2 by simp
  next
    case (Some oldest)
    then consider "ts' = ts" | "evict now (ts(u := None)) buried = (ts', buried')"
        "\<not> (length (u # buried) \<le> maxTombstones \<and> now - tb_at oldest < tombstoneRetention)"
      using "2.prems"(1) by (auto split: if_splits)
    then show ?thesis
    proof cases
      case 1
      then show ?thesis using "2.prems"(2) by simp
    next
      case c: 2
      then show ?thesis using "2.IH"(2) [OF Some c(2,1) "2.prems"(2)] by (auto split: if_splits)
    qed
  qed
qed

lemma record_inv:
  assumes inv: "tx_inv s" and k: "ts_task s a = Some (Recording t out)" and h: "tm_heap (ts_m s) a = Some h"
  shows "tx_inv (s\<lparr>ts_m := recordEnd now t h out (ts_m s), ts_task := (ts_task s)(a := None)\<rparr>)" (is "tx_inv ?s")
proof -
  have t: "ts_drawn s t = Some a" using task_token [OF inv k] by blast
  have st: "tx_over s a h" "truthful out (ts_hist s) a" "tm_handles (ts_m s) t = None"
    using tx_inv_stage [OF inv t h] k by (auto simp: tx_stage_def)
  let ?tb = "\<lparr>tb_session = h_session h, tb_scope = h_scope h, tb_outcome = out, tb_at = now\<rparr>"
  let ?m = "recordEnd now t h out (ts_m s)"
  have m: "tm_heap ?m = tm_heap (ts_m s)" "tm_handles ?m = tm_handles (ts_m s)" "tm_ending ?m = tm_ending (ts_m s) - {t}"
    by (simp_all add: recordEnd_def buryLocked_def split: prod.splits)
  have tombs: "tm_tombstones ?m u = Some tb \<Longrightarrow> ((tm_tombstones (ts_m s))(t \<mapsto> ?tb)) u = Some tb" for u tb
    by (auto simp: recordEnd_def buryLocked_def Let_def split: prod.splits dest: evict_subset)
  have "tx_stage ?s t a h" using st by (simp add: tx_stage_def m tx_over_def)
  then have at: "steps_at t a s ?s" using t h st(3) unfolding steps_at_def by (auto simp: m fun_upd_idem)
  have new: "tomb_ok ?s t ?tb" using t h st by (auto simp: tomb_ok_def m tx_over_def)
  show ?thesis
  proof (rule steps_at_inv [OF at inv])
    fix u tb
    assume "tm_tombstones (ts_m ?s) u = Some tb"
    then show "tm_tombstones (ts_m s) u = Some tb \<or> u = t \<and> tomb_ok ?s u tb"
      using tombs [of u tb] new by (cases "u = t") auto
  qed
qed

theorem tx_step_inv: "tx_step s s' \<Longrightarrow> tx_inv s \<Longrightarrow> tx_inv s'"
proof (induction rule: tx_step.induct)
  case (Tick s now)
  then show ?case by (elim tx_inv_cong) simp_all
next
  case (Configure s n d ttl maxOpen)
  then show ?case by (elim tx_inv_cong) (simp_all add: SetConnectionLimit_def SetIdleTimeout_def tx_UpdateLimits_def)
next
  case (BeginStart c connection s a token datasource ttl)
  then show ?case by (intro begin_start_inv)
next
  case (BeginDone s a token h m)
  then show ?case by (intro begin_done_inv)
next
  case (BeginFails s a token h e canceled m es)
  have t: "ts_drawn s token = Some a" using task_token [OF BeginFails.prems BeginFails.hyps(1)] by blast
  have st: "tx_live s a h" "a \<notin> ts_busy s" "token \<notin> tm_ending (ts_m s)" "tm_handles (ts_m s) token = None"
    using tx_inv_stage [OF BeginFails.prems t BeginFails.hyps(2)] BeginFails.hyps(1) by (auto simp: tx_stage_def)
  note ends = abort_ends [OF st(1,2) BeginFails.hyps(4)]
  show ?case
    unfolding ends(1) by (rule over_inv [OF BeginFails.prems t BeginFails.hyps(2) st(2) ends(2,3) st(4)]) (simp add: st(3))
next
  case (LookupFound s token c datasource connections a)
  then show ?case by (intro found_inv)
next
  case (LookupExpires s token c datasource connections a h)
  then show ?case by (intro ended_inv) auto
next
  case (TimerFires s a h e token)
  then show ?case by (intro ended_inv) auto
next
  case (IdleFires s a h token)
  then show ?case by (intro checkIdle_inv) auto
next
  case (StatementStarts token a c s h m es)
  then show ?case by (intro statement_start_inv)
next
  case (StatementEnds a s m es)
  then show ?case by (intro statement_end_inv)
next
  case (StatementFails a s token c m es)
  then have "tx_inv (s\<lparr>ts_m := m, ts_busy := ts_busy s - {a}, ts_hist := ts_hist s @ es\<rparr>)" by (intro statement_end_inv)
  then show ?case by (rule tx_inv_cong) simp_all
next
  case (FailEnds token a s h)
  have "tx_inv (s\<lparr>ts_failing := ts_failing s - {(token, a)}\<rparr>)" using FailEnds.prems by (rule tx_inv_cong) simp_all
  then show ?case using FailEnds.hyps(2) by (intro ended_inv) auto
next
  case (MarksDirty token a c s h targets m)
  have "ts_drawn s token = Some a" "\<forall>u. ts_task s a \<noteq> Some (Registering u)"
    using tx_inv_found [OF MarksDirty.prems MarksDirty.hyps(1)] by (auto simp: found_ok_def)
  then show ?case
    using MarksDirty.hyps(4) handle_update_inv [OF MarksDirty.prems _ MarksDirty.hyps(3)]
    by (auto simp: MarkDirty_def split: if_splits)
next
  case (FinishStarts token a c s h commit)
  have "holder h c"
    using tx_inv_found [OF FinishStarts.prems FinishStarts.hyps(1)] FinishStarts.hyps(3) by (auto simp: found_ok_def)
  then show ?case by (intro ends_at [OF FinishStarts.prems FinishStarts.hyps(2,3)]) blast
next
  case (SessionEnds tokens s session m rollbacks)
  then show ?case
    using endAll_inv by (auto simp: RollbackSession_def add_aborts_def split: if_splits)
next
  case (Closes tokens s m rollbacks)
  have "tx_inv (s\<lparr>ts_m := (ts_m s)\<lparr>tm_closed := True\<rparr>\<rparr>)" using Closes.prems by (rule tx_inv_cong) simp_all
  from endAll_inv [OF this, of "\<lambda>_. True" tokens m rollbacks] show ?case
    using Closes by (auto simp: tx_Close_def add_aborts_def split: if_splits)
next
  case (Aborts s a token outcome h m es)
  have t: "ts_drawn s token = Some a" using task_token [OF Aborts.prems Aborts.hyps(1)] by blast
  have st: "tx_live s a h" "token \<in> tm_ending (ts_m s)" "tm_handles (ts_m s) token = None"
      "outcome = OutcomeRolledBack \<or> outcome = OutcomeExpired"
    using tx_inv_stage [OF Aborts.prems t Aborts.hyps(3)] Aborts.hyps(1) by (auto simp: tx_stage_def)
  note ends = abort_ends [OF st(1) Aborts.hyps(2,4)]
  show ?case
    unfolding ends(1) using ends(4) [OF st(4)] st(2)
    by (intro over_inv [OF Aborts.prems t Aborts.hyps(3,2) ends(2,3) st(3)]) blast
next
  case (Finishes s a token c commit h canceled answer rollbackErr outcome targets err m es)
  have t: "ts_drawn s token = Some a" using task_token [OF Finishes.prems Finishes.hyps(1)] by blast
  have st: "tx_live s a h" "token \<in> tm_ending (ts_m s)" "tm_handles (ts_m s) token = None" "holder h c"
    using tx_inv_stage [OF Finishes.prems t Finishes.hyps(3)] Finishes.hyps(1) by (auto simp: tx_stage_def)
  note ends = finish_ends [OF st(1) Finishes.hyps(2) st(4) Finishes.hyps(4)]
  show ?case
    unfolding ends(1) using ends(4) st(2)
    by (intro over_inv [OF Finishes.prems t Finishes.hyps(3,2) ends(2,3) st(3)]) blast
next
  case (Records s a token outcome h)
  then show ?case by (intro record_inv)
qed

lemma tx_init_inv: "tx_inv (tx_init now ttl maxOpen)"
  by (simp add: tx_inv_def tx_init_def NewTransactionManager_def)

interpretation transactions: transition_system "\<lambda>s. \<exists>now ttl maxOpen. s = tx_init now ttl maxOpen" tx_step tx_inv
  by unfold_locales (auto intro: tx_init_inv tx_step_inv)

lemma tx_reach_inv: "tx_step\<^sup>*\<^sup>* (tx_init now ttl maxOpen) s \<Longrightarrow> tx_inv s"
  by (rule transactions.reached_ok) blast

section \<open>The counts\<close>

definition open_by :: "(transactionHandle \<Rightarrow> 'k) \<Rightarrow> tx_manager \<Rightarrow> 'k \<Rightarrow> string set" where
  "open_by f m k = {t. \<exists>a h. tm_handles m t = Some a \<and> tm_heap m a = Some h \<and> f h = k}"

definition tx_counted :: "tx_manager \<Rightarrow> bool" where
  "tx_counted m \<longleftrightarrow> finite (dom (tm_handles m)) \<and>
     (\<forall>k. count_at (tm_open m) k = int (card (open_by h_scope m k))) \<and>
     (\<forall>k. count_at (tm_byConnection m) k = int (card (open_by h_connection m k)))"

lemma count_at_up: "count_at (count_up k m) l = count_at m l + (if l = k then 1 else 0)"
  by (simp add: count_at_def count_up_def)

lemma count_at_down: "count_at m k > 0 \<Longrightarrow> count_at (count_down k m) l = count_at m l - (if l = k then 1 else 0)"
  by (auto simp: count_at_def count_down_def split: option.splits)

lemma open_by_subset: "open_by f m k \<subseteq> dom (tm_handles m)"
  by (auto simp: open_by_def)

lemma open_by_finite: "tx_counted m \<Longrightarrow> finite (open_by f m k)"
  by (rule finite_subset [OF open_by_subset]) (simp add: tx_counted_def)

lemma open_by_update: "(\<And>h. f (g h) = f h) \<Longrightarrow> open_by f (handle_update a g m) k = open_by f m k"
  by (auto simp: open_by_def handle_update_def)

lemma tx_counted_update:
  "(\<And>h. h_scope (g h) = h_scope h) \<Longrightarrow> (\<And>h. h_connection (g h) = h_connection h) \<Longrightarrow>
     tx_counted (handle_update a g m) = tx_counted m"
  unfolding tx_counted_def by (simp add: open_by_update) (simp add: handle_update_def)

lemma open_by_cong:
  "tm_handles m' = tm_handles m \<Longrightarrow> tm_heap m' = tm_heap m \<Longrightarrow> open_by f m' k = open_by f m k"
  by (simp add: open_by_def)

lemma tx_counted_cong:
  assumes "tm_handles m' = tm_handles m" "tm_heap m' = tm_heap m" "tm_open m' = tm_open m"
    "tm_byConnection m' = tm_byConnection m"
  shows "tx_counted m' = tx_counted m"
  using assms by (simp add: tx_counted_def open_by_def)

lemma open_by_ending:
  assumes "tm_handles m t = Some a" and "tm_heap m a = Some h"
    and "\<And>h. f (h\<lparr>h_stopTimer := None, h_stopIdle := None\<rparr>) = f h"
  shows "open_by f (endingLocked t a h m) k = open_by f m k - {t}"
  using assms by (auto simp: open_by_def endingLocked_def tx_removeLocked_def handle_update_def split: if_splits)

lemma count_ending:
  assumes fin: "\<And>l. finite (open_by f m l)" and t: "tm_handles m t = Some a" and h: "tm_heap m a = Some h"
    and n: "\<forall>k. count_at n k = int (card (open_by f m k))"
    and f: "\<And>h. f (h\<lparr>h_stopTimer := None, h_stopIdle := None\<rparr>) = f h"
  shows "count_at (count_down (f h) n) k = int (card (open_by f (endingLocked t a h m) k))"
proof -
  have mem: "t \<in> open_by f m l \<longleftrightarrow> l = f h" for l using t h by (auto simp: open_by_def)
  have pos: "count_at n (f h) > 0" using n fin mem by (metis card_gt_0_iff empty_iff of_nat_0_less_iff)
  show ?thesis
  proof (cases "k = f h")
    case True
    then have "int (card (open_by f m k - {t})) = int (card (open_by f m k)) - 1"
      using card_Suc_Diff1 [OF fin, of t k] mem by simp
    then show ?thesis
      using True n by (simp add: count_at_down [OF pos] open_by_ending [where f = f, OF t h f])
  next
    case False
    then show ?thesis
      using n mem by (simp add: count_at_down [OF pos] open_by_ending [where f = f, OF t h f])
  qed
qed

lemma ending_counted:
  assumes c: "tx_counted m" and t: "tm_handles m t = Some a" and h: "tm_heap m a = Some h"
  shows "tx_counted (endingLocked t a h m)"
proof -
  have m: "tm_open (endingLocked t a h m) = count_down (h_scope h) (tm_open m)"
      "tm_byConnection (endingLocked t a h m) = count_down (h_connection h) (tm_byConnection m)"
      "tm_handles (endingLocked t a h m) = (tm_handles m)(t := None)"
    by (simp_all add: endingLocked_def tx_removeLocked_def handle_update_def)
  have "count_at (count_down (h_scope h) (tm_open m)) k = int (card (open_by h_scope (endingLocked t a h m) k))"
    and "count_at (count_down (h_connection h) (tm_byConnection m)) l =
      int (card (open_by h_connection (endingLocked t a h m) l))" for k l
    by (rule count_ending [OF open_by_finite [OF c] t h]; use c in \<open>simp add: tx_counted_def\<close>)+
  then show ?thesis using c unfolding tx_counted_def m by auto
qed

lemma endAll_counted: "tx_counted m \<Longrightarrow> endAll p tokens m = (m', rollbacks) \<Longrightarrow> tx_counted m'"
proof (induction p tokens m arbitrary: m' rollbacks rule: endAll.induct)
  case (1 p m)
  then show ?case by simp
next
  case (2 p t tokens m)
  then show ?case using ending_counted [OF "2.prems"(1)] by (auto split: option.splits if_splits prod.splits)
qed

text \<open>Registering a handle counts it, and stays within the limits.\<close>

lemma addHandle_fields:
  assumes "addHandle now t a h m = Inr m'" and "tm_heap m a = Some h"
  shows "tm_handles m' = (tm_handles m)(t \<mapsto> a)" and "tm_open m' = count_up (h_scope h) (tm_open m)"
    and "tm_byConnection m' = count_up (h_connection h) (tm_byConnection m)" and "\<not> tm_closed m'"
    and "\<exists>h'. tm_heap m' = (tm_heap m)(a \<mapsto> h') \<and> h_scope h' = h_scope h \<and> h_connection h' = h_connection h"
    and "tm_maxOpen m > 0 \<Longrightarrow> count_at (tm_open m) (h_scope h) < tm_maxOpen m"
    and "tm_perConnection m > 0 \<Longrightarrow> count_at (tm_byConnection m) (h_connection h) < tm_perConnection m"
  using assms
  by (auto simp: addHandle_def capacityLocked_def tx_ops Let_def split: if_splits option.splits)

lemma open_by_add:
  assumes "tm_handles m' = (tm_handles m)(t \<mapsto> a)" and "tm_heap m' = (tm_heap m)(a \<mapsto> h')" and "f h' = f h"
    and "tm_heap m a = Some h" and "tm_handles m t = None"
  shows "open_by f m' k = (if k = f h then insert t (open_by f m k) else open_by f m k)"
proof -
  have iff: "u \<in> open_by f n k \<longleftrightarrow> (\<exists>b. tm_handles n u = Some b \<and> map_option f (tm_heap n b) = Some k)" for u n
    by (auto simp: open_by_def)
  have keys: "map_option f (tm_heap m' b) = map_option f (tm_heap m b)" for b using assms(2-4) by simp
  have "u \<in> open_by f m' k \<longleftrightarrow> u = t \<and> k = f h \<or> u \<in> open_by f m k" for u
    unfolding iff keys assms(1) by (cases "u = t") (simp_all add: assms(4,5) eq_commute [of k])
  then show ?thesis by (simp add: set_eq_iff)
qed

lemma addHandle_counted:
  assumes c: "tx_counted m" and add: "addHandle now t a h m = Inr m'" and h: "tm_heap m a = Some h"
    and t: "tm_handles m t = None"
  shows "tx_counted m'"
proof -
  note f = addHandle_fields [OF add h]
  obtain h' where h': "tm_heap m' = (tm_heap m)(a \<mapsto> h')" "h_scope h' = h_scope h" "h_connection h' = h_connection h"
    using f(5) by blast
  have new: "t \<notin> open_by h_scope m k" "t \<notin> open_by h_connection m l" for k l
    using t by (simp_all add: open_by_def)
  have "count_at (tm_open m') k = int (card (open_by h_scope m' k))" for k
    using c card_insert_disjoint [OF open_by_finite [OF c] new(1)]
    by (simp add: f(2) open_by_add [where f = h_scope, OF f(1) h'(1,2) h t] count_at_up tx_counted_def)
  moreover have "count_at (tm_byConnection m') k = int (card (open_by h_connection m' k))" for k
    using c card_insert_disjoint [OF open_by_finite [OF c] new(2)]
    by (simp add: f(3) open_by_add [where f = h_connection, OF f(1) h'(1,3) h t] count_at_up tx_counted_def)
  ultimately show ?thesis using c f(1) by (simp add: tx_counted_def)
qed

text \<open>Every step keeps the counts exact; only one that registers a handle opens a transaction.\<close>

definition registers :: "tx_system \<Rightarrow> tx_system \<Rightarrow> bool" where
  "registers s s' \<longleftrightarrow> (\<exists>t a h. tm_heap (ts_m s) a = Some h \<and> tm_handles (ts_m s) t = None \<and>
     addHandle (ts_now s) t a h (ts_m s) = Inr (ts_m s'))"

definition closes_handles :: "tx_system \<Rightarrow> tx_system \<Rightarrow> bool" where
  "closes_handles s s' \<longleftrightarrow> tx_counted (ts_m s') \<and>
     (\<forall>k. open_by h_scope (ts_m s') k \<subseteq> open_by h_scope (ts_m s) k) \<and>
     (\<forall>k. open_by h_connection (ts_m s') k \<subseteq> open_by h_connection (ts_m s) k)"

lemma closes_handles_update:
  assumes "tx_counted (ts_m s)" and "ts_m s' = handle_update a g (ts_m s)" and "\<And>h. h_scope (g h) = h_scope h"
    and "\<And>h. h_connection (g h) = h_connection h"
  shows "closes_handles s s'"
  using assms by (simp add: closes_handles_def tx_counted_update open_by_update)

lemma closes_handles_close:
  assumes "tx_counted (ts_m s)" and "ts_m s' = ts_m s \<or> ts_m s' = handle_update a (\<lambda>h. h\<lparr>h_closed := True\<rparr>) (ts_m s)"
  shows "closes_handles s s'"
  using assms(2)
proof
  assume "ts_m s' = ts_m s"
  then show ?thesis using assms(1) by (simp add: closes_handles_def)
next
  assume "ts_m s' = handle_update a (\<lambda>h. h\<lparr>h_closed := True\<rparr>) (ts_m s)"
  then show ?thesis by (rule closes_handles_update [OF assms(1)]) simp_all
qed

lemma closes_handles_cong:
  assumes "tx_counted (ts_m s)" and "tm_handles (ts_m s') = tm_handles (ts_m s)" "tm_heap (ts_m s') = tm_heap (ts_m s)"
    "tm_open (ts_m s') = tm_open (ts_m s)" "tm_byConnection (ts_m s') = tm_byConnection (ts_m s)"
  shows "closes_handles s s'"
  using assms tx_counted_cong [of "ts_m s'" "ts_m s"] by (simp add: closes_handles_def open_by_def)

lemma closes_handles_ending:
  assumes "tx_counted (ts_m s)" and "tm_handles (ts_m s) t = Some a" and "tm_heap (ts_m s) a = Some h"
    and "ts_m s' = endingLocked t a h (ts_m s)"
  shows "closes_handles s s'"
  using assms ending_counted [OF assms(1-3)]
    open_by_ending [OF assms(2,3), of h_scope] open_by_ending [OF assms(2,3), of h_connection]
  by (auto simp: closes_handles_def)

lemma closes_handles_end:
  assumes c: "tx_counted (ts_m s)" and h: "tm_heap (ts_m s) a = Some h" and s: "ts_m s' = fst r"
    and r: "r = tx_end t a h (ts_m s) \<or> r = checkIdle now t a h (ts_m s)"
  shows "closes_handles s s'"
proof (cases "tm_handles (ts_m s) t = Some a \<and> snd r")
  case True
  then have "ts_m s' = endingLocked t a h (ts_m s)"
    using r s by (auto simp: tx_end_def checkIdle_def Let_def split: if_splits)
  then show ?thesis using closes_handles_ending [OF c _ h] True by blast
next
  case False
  then consider "ts_m s' = ts_m s" | d where "ts_m s' = watchIdleLocked now a d (ts_m s)"
    using r s by (auto simp: tx_end_def checkIdle_def Let_def split: if_splits)
  then show ?thesis
  proof cases
    case 1
    then show ?thesis by (intro closes_handles_cong [OF c]) simp_all
  next
    case 2
    then show ?thesis by (intro closes_handles_update [OF c 2 [unfolded watchIdleLocked_def]]) simp_all
  qed
qed

lemma endAll_open: "endAll p tokens m = (m', rollbacks) \<Longrightarrow>
    (\<And>h. f (h\<lparr>h_stopTimer := None, h_stopIdle := None\<rparr>) = f h) \<Longrightarrow> open_by f m' k \<subseteq> open_by f m k"
proof (induction p tokens m arbitrary: m' rollbacks rule: endAll.induct)
  case (1 p m)
  then show ?case by simp
next
  case (2 p t tokens m)
  show ?case
  proof (cases "\<exists>a h. tm_handles m t = Some a \<and> tm_heap m a = Some h \<and> p h")
    case True
    then obtain a h where ah: "tm_handles m t = Some a" "tm_heap m a = Some h" "p h" by blast
    then obtain rs where "endAll p tokens (endingLocked t a h m) = (m', rs)"
      using "2.prems"(1) by (auto split: prod.splits)
    from "2.IH"(3) [OF ah this "2.prems"(2)] show ?thesis
      using open_by_ending [OF ah(1,2), of f] "2.prems"(2) by auto
  next
    case False
    then show ?thesis using 2 by (auto split: option.splits)
  qed
qed

lemma closes_handles_all:
  assumes c: "tx_counted (ts_m s)" and m: "endAll p tokens m = (ts_m s', rollbacks)" and cm: "tx_counted m"
    and eq: "tm_handles m = tm_handles (ts_m s)" "tm_heap m = tm_heap (ts_m s)"
  shows "closes_handles s s'"
  using endAll_counted [OF cm m] endAll_open [OF m, of h_scope] endAll_open [OF m, of h_connection]
  by (simp add: closes_handles_def open_by_cong [OF eq])

lemma open_heap: "tx_inv s \<Longrightarrow> tm_handles (ts_m s) t = Some a \<Longrightarrow> tm_heap (ts_m s) a \<noteq> None"
  using tx_inv_drawn tx_inv_handles by fastforce

lemma open_by_new:
  assumes "\<And>t. tm_handles m t \<noteq> Some a"
  shows "open_by f (m\<lparr>tm_heap := (tm_heap m)(a \<mapsto> h)\<rparr>) k = open_by f m k"
proof -
  have "t \<in> open_by f (m\<lparr>tm_heap := (tm_heap m)(a \<mapsto> h)\<rparr>) k \<longleftrightarrow> t \<in> open_by f m k" for t
    using assms [of t] by (cases "tm_handles m t") (simp_all add: open_by_def)
  then show ?thesis by blast
qed

lemma begin_start_counted:
  assumes inv: "tx_inv s" and c: "tx_counted (ts_m s)" and a: "tm_heap (ts_m s) a = None"
    and s': "ts_m s' = (ts_m s)\<lparr>tm_heap := (tm_heap (ts_m s))(a \<mapsto> h)\<rparr>"
  shows "closes_handles s s'"
proof -
  have "tm_handles (ts_m s) t \<noteq> Some a" for t using open_heap [OF inv] a by blast
  note new = open_by_new [OF this]
  show ?thesis using c by (simp add: closes_handles_def tx_counted_def s' new)
qed

theorem tx_step_counted: "tx_step s s' \<Longrightarrow> tx_inv s \<Longrightarrow> tx_counted (ts_m s) \<Longrightarrow> registers s s' \<or> closes_handles s s'"
proof (induction rule: tx_step.induct)
  case (Tick s now)
  then show ?case by (intro disjI2 closes_handles_cong) simp_all
next
  case (Configure s n d ttl maxOpen)
  then show ?case
    by (intro disjI2 closes_handles_cong) (simp_all add: SetConnectionLimit_def SetIdleTimeout_def tx_UpdateLimits_def)
next
  case (BeginStart c connection s a token datasource ttl)
  show ?case
    by (rule disjI2, rule begin_start_counted [OF BeginStart.prems BeginStart.hyps(2),
          where h = "newHandle (ts_now s) connection c datasource ttl"]) simp
next
  case (BeginDone s a token h m)
  have t: "ts_drawn s token = Some a" using task_token [OF BeginDone.prems(1) BeginDone.hyps(1)] by blast
  have "tm_handles (ts_m s) token = None"
    using tx_inv_stage [OF BeginDone.prems(1) t BeginDone.hyps(2)] BeginDone.hyps(1) by (simp add: tx_stage_def)
  then have "registers s (s\<lparr>ts_m := m, ts_task := (ts_task s)(a := None)\<rparr>)"
    unfolding registers_def using BeginDone.hyps(2,3) by (intro exI conjI) simp_all
  then show ?case ..
next
  case (BeginFails s a token h e canceled m es)
  have "m = ts_m s \<or> m = handle_update a (\<lambda>h. h\<lparr>h_closed := True\<rparr>) (ts_m s)"
    using BeginFails.hyps(4) by (auto simp: handle_abort_def split: if_splits)
  then show ?case using BeginFails.prems(2) closes_handles_close by simp
next
  case (LookupFound s token c datasource connections a)
  then show ?case by (intro disjI2 closes_handles_cong) simp_all
next
  case (LookupExpires s token c datasource connections a h)
  show ?case
    by (rule disjI2, rule closes_handles_end [OF LookupExpires.prems(2) LookupExpires.hyps(2), where r = "tx_end token a h (ts_m s)" and now = "ts_now s"
          and t = token]) (simp_all add: ended_def)
next
  case (TimerFires s a h e token)
  show ?case
    by (rule disjI2, rule closes_handles_end [OF TimerFires.prems(2) TimerFires.hyps(1), where r = "tx_end token a h (ts_m s)" and now = "ts_now s"
          and t = token]) (simp_all add: ended_def)
next
  case (IdleFires s a h token)
  show ?case
    by (rule disjI2, rule closes_handles_end [OF IdleFires.prems(2) IdleFires.hyps(1), where r = "checkIdle (ts_now s) token a h (ts_m s)" and now = "ts_now s"
          and t = token]) (simp_all add: ended_def)
next
  case (StatementStarts token a c s h m es)
  have "m = handle_update a (statementStarted (ts_now s)) (ts_m s)"
    using StatementStarts.hyps(4) by (auto simp: statement_start_def split: if_splits)
  then show ?case
    by (intro disjI2 closes_handles_update [OF StatementStarts.prems(2), where g = "statementStarted (ts_now s)"])
      (auto simp: tx_ops)
next
  case (StatementEnds a s m es)
  show ?case
    by (rule disjI2, rule closes_handles_update [OF StatementEnds.prems(2), where a = a and g = "statementEnded (ts_now s)"])
      (use StatementEnds.hyps(2) in \<open>auto simp: statement_end_def statementEnded_def touch_def\<close>)
next
  case (StatementFails a s token c m es)
  show ?case
    by (rule disjI2, rule closes_handles_update [OF StatementFails.prems(2), where a = a and g = "statementEnded (ts_now s)"])
      (use StatementFails.hyps(3) in \<open>auto simp: statement_end_def statementEnded_def touch_def\<close>)
next
  case (FailEnds token a s h)
  show ?case
    by (rule disjI2, rule closes_handles_end [OF FailEnds.prems(2) FailEnds.hyps(2), where r = "tx_end token a h (ts_m s)" and now = "ts_now s"
          and t = token]) (simp_all add: ended_def)
next
  case (MarksDirty token a c s h targets m)
  have "m = handle_update a (\<lambda>h. h\<lparr>h_dirty := h_dirty h \<union> set targets\<rparr>) (ts_m s)"
    using MarksDirty.hyps(4) by (simp add: MarkDirty_def split: if_splits)
  then show ?case
    by (intro disjI2 closes_handles_update [OF MarksDirty.prems(2), where g = "\<lambda>h. h\<lparr>h_dirty := h_dirty h \<union> set targets\<rparr>"])
      simp_all
next
  case (FinishStarts token a c s h commit)
  show ?case
    by (rule disjI2, rule closes_handles_ending [OF FinishStarts.prems(2) FinishStarts.hyps(2,3)]) simp
next
  case (SessionEnds tokens s session m rollbacks)
  show ?case
  proof (cases "session = []")
    case True
    then show ?thesis using SessionEnds.hyps(3) SessionEnds.prems(2)
      by (intro disjI2 closes_handles_cong) (auto simp: RollbackSession_def)
  next
    case False
    then have "endAll (\<lambda>h. h_session h = session) tokens (ts_m s) = (m, rollbacks)"
      using SessionEnds.hyps(3) by (simp add: RollbackSession_def)
    then show ?thesis
      using SessionEnds.prems(2)
      by (intro disjI2 closes_handles_all [where m = "ts_m s" and p = "\<lambda>h. h_session h = session" and tokens = tokens
            and rollbacks = rollbacks]) simp_all
  qed
next
  case (Closes tokens s m rollbacks)
  show ?case
  proof (cases "tm_closed (ts_m s)")
    case True
    then show ?thesis using Closes.hyps(3) Closes.prems(2)
      by (intro disjI2 closes_handles_cong) (auto simp: tx_Close_def)
  next
    case False
    then have "endAll (\<lambda>_. True) tokens ((ts_m s)\<lparr>tm_closed := True\<rparr>) = (m, rollbacks)"
      using Closes.hyps(3) by (simp add: tx_Close_def)
    then show ?thesis
      using Closes.prems(2) tx_counted_cong [of "(ts_m s)\<lparr>tm_closed := True\<rparr>" "ts_m s"]
      by (intro disjI2 closes_handles_all [where m = "(ts_m s)\<lparr>tm_closed := True\<rparr>" and p = "\<lambda>_. True"
            and tokens = tokens and rollbacks = rollbacks]) simp_all
  qed
next
  case (Aborts s a token outcome h m es)
  have "m = ts_m s \<or> m = handle_update a (\<lambda>h. h\<lparr>h_closed := True\<rparr>) (ts_m s)"
    using Aborts.hyps(4) by (auto simp: handle_abort_def split: if_splits)
  then show ?case using Aborts.prems(2) closes_handles_close by simp
next
  case (Finishes s a token c commit h canceled answer rollbackErr outcome targets err m es)
  have "m = ts_m s \<or> m = handle_update a (\<lambda>h. h\<lparr>h_closed := True\<rparr>) (ts_m s)"
    using Finishes.hyps(4) by (auto simp: handle_finish_def Let_def split: if_splits option.splits)
  then show ?case using Finishes.prems(2) closes_handles_close by simp
next
  case (Records s a token outcome h)
  then show ?case
    by (intro disjI2 closes_handles_cong) (simp_all add: recordEnd_def buryLocked_def split: prod.splits)
qed

lemma registers_within:
  assumes c: "tx_counted (ts_m s)" and r: "registers s s'"
  shows "tx_counted (ts_m s')"
    and "tm_maxOpen (ts_m s) > 0 \<Longrightarrow> card (open_by h_scope (ts_m s) k) < card (open_by h_scope (ts_m s') k) \<Longrightarrow>
      int (card (open_by h_scope (ts_m s') k)) \<le> tm_maxOpen (ts_m s)"
    and "tm_perConnection (ts_m s) > 0 \<Longrightarrow>
      card (open_by h_connection (ts_m s) l) < card (open_by h_connection (ts_m s') l) \<Longrightarrow>
      int (card (open_by h_connection (ts_m s') l)) \<le> tm_perConnection (ts_m s)"
proof -
  obtain t a h where tah: "tm_heap (ts_m s) a = Some h" "tm_handles (ts_m s) t = None"
      "addHandle (ts_now s) t a h (ts_m s) = Inr (ts_m s')"
    using r unfolding registers_def by blast
  note f = addHandle_fields [OF tah(3,1)]
  show c': "tx_counted (ts_m s')" by (rule addHandle_counted [OF c tah(3,1,2)])
  have counts: "int (card (open_by h_scope (ts_m s') k)) = int (card (open_by h_scope (ts_m s) k)) + (if k = h_scope h then 1 else 0)"
    "int (card (open_by h_connection (ts_m s') l)) = int (card (open_by h_connection (ts_m s) l)) + (if l = h_connection h then 1 else 0)"
    for k l
    using c c' f(2,3) count_at_up [of "h_scope h" "tm_open (ts_m s)" k]
      count_at_up [of "h_connection h" "tm_byConnection (ts_m s)" l] unfolding tx_counted_def by metis+
  show "int (card (open_by h_scope (ts_m s') k)) \<le> tm_maxOpen (ts_m s)"
    if "tm_maxOpen (ts_m s) > 0" "card (open_by h_scope (ts_m s) k) < card (open_by h_scope (ts_m s') k)"
    using f(6) [OF that(1)] that(2) counts(1) [of k] c by (auto simp: tx_counted_def split: if_splits)
  show "int (card (open_by h_connection (ts_m s') l)) \<le> tm_perConnection (ts_m s)"
    if "tm_perConnection (ts_m s) > 0" "card (open_by h_connection (ts_m s) l) < card (open_by h_connection (ts_m s') l)"
    using f(7) [OF that(1)] that(2) counts(2) [of l] c by (auto simp: tx_counted_def split: if_splits)
qed

lemma tx_init_counted: "tx_counted (ts_m (tx_init now ttl maxOpen))"
  by (simp add: tx_counted_def tx_init_def NewTransactionManager_def open_by_def count_at_def)

lemma tx_step_keeps_counted:
  assumes st: "tx_step s s'" and ok: "tx_inv s \<and> tx_counted (ts_m s)"
  shows "tx_inv s' \<and> tx_counted (ts_m s')"
  using tx_step_inv [OF st] tx_step_counted [OF st] registers_within(1) [of s s'] ok by (auto simp: closes_handles_def)

interpretation counting: transition_system "\<lambda>s. \<exists>now ttl maxOpen. s = tx_init now ttl maxOpen" tx_step
    "\<lambda>s. tx_inv s \<and> tx_counted (ts_m s)"
  by unfold_locales (auto intro: tx_init_inv tx_init_counted dest: tx_step_keeps_counted)

lemma tx_reach_counted: "tx_step\<^sup>*\<^sup>* (tx_init now ttl maxOpen) s \<Longrightarrow> tx_counted (ts_m s)"
  using counting.reached_ok [of "tx_init now ttl maxOpen" s] by blast

section \<open>Closing ends every transaction\<close>

fun task_weight :: "tx_task \<Rightarrow> nat" where
  "task_weight (Registering _) = 1"
| "task_weight (Aborting _ _) = 2"
| "task_weight (Finishing _ _ _) = 2"
| "task_weight (Recording _ _) = 1"

definition work_left :: "(nat \<rightharpoonup> tx_task) \<Rightarrow> nat" where
  "work_left f = (\<Sum>a\<in>dom f. task_weight (the (f a)))"

lemma work_left_upd:
  assumes fin: "finite (dom f)" and k: "f a = Some k"
  shows "work_left (f(a := x)) + task_weight k = work_left f + (case x of None \<Rightarrow> 0 | Some k' \<Rightarrow> task_weight k')"
proof -
  have rest: "(\<Sum>b\<in>dom f - {a}. task_weight (the ((f(a := x)) b))) = (\<Sum>b\<in>dom f - {a}. task_weight (the (f b)))"
    by (rule sum.cong) auto
  have "work_left f = task_weight k + (\<Sum>b\<in>dom f - {a}. task_weight (the (f b)))"
    using sum.remove [OF fin, of a "\<lambda>b. task_weight (the (f b))"] k by (auto simp: work_left_def)
  moreover have "work_left (f(a := x)) =
      (case x of None \<Rightarrow> 0 | Some k' \<Rightarrow> task_weight k') + (\<Sum>b\<in>dom f - {a}. task_weight (the (f b)))"
  proof (cases x)
    case None
    then show ?thesis using rest by (simp add: work_left_def)
  next
    case (Some k')
    then have "dom (f(a := x)) = insert a (dom f - {a})" by auto
    then show ?thesis
      using rest fin Some sum.insert [of "dom f - {a}" a "\<lambda>b. task_weight (the ((f(a := x)) b))"]
      unfolding work_left_def by simp
  qed
  ultimately show ?thesis by simp
qed

definition closing :: "tx_system \<Rightarrow> bool" where
  "closing s \<longleftrightarrow> tx_inv s \<and> tm_closed (ts_m s) \<and> tm_handles (ts_m s) = Map.empty \<and> ts_busy s = {} \<and> finite (dom (ts_task s))"

text \<open>Whatever is left to do for a handle can be done, and is less afterwards.\<close>

lemma closing_step:
  assumes c: "closing s" and k: "ts_task s a = Some k" and m: "tm_closed m" "tm_handles m = Map.empty"
    and st: "tx_step s (s\<lparr>ts_m := m, ts_task := (ts_task s)(a := x), ts_hist := ts_hist s @ es\<rparr>)" (is "tx_step s ?s")
    and less: "(case x of None \<Rightarrow> 0 | Some k' \<Rightarrow> task_weight k') < task_weight k"
  shows "\<exists>s'. tx_step s s' \<and> closing s' \<and> work_left (ts_task s') < work_left (ts_task s)"
proof (intro exI conjI)
  show "tx_step s ?s" by (rule st)
  have inv: "tx_inv s" and fin: "finite (dom (ts_task s))" and nb: "ts_busy s = {}" using c by (simp_all add: closing_def)
  have "finite (dom ((ts_task s)(a := x)))" by (rule finite_subset [of _ "insert a (dom (ts_task s))"]) (use fin in auto)
  then show "closing ?s" using tx_step_inv [OF st inv] m nb by (simp add: closing_def)
  show "work_left (ts_task ?s) < work_left (ts_task s)" using work_left_upd [OF fin k, of x] less by simp
qed

lemma closing_progress:
  assumes c: "closing s" and k: "ts_task s a = Some k"
  shows "\<exists>s'. tx_step s s' \<and> closing s' \<and> work_left (ts_task s') < work_left (ts_task s)"
proof -
  have inv: "tx_inv s" and cl: "tm_closed (ts_m s)" "tm_handles (ts_m s) = Map.empty" and nb: "a \<notin> ts_busy s"
    using c by (simp_all add: closing_def)
  obtain h where h: "tm_heap (ts_m s) a = Some h" using tx_inv_fresh [OF inv] k by fastforce
  obtain m es where abort: "handle_abort a h (ts_m s) = (m, es)" by (cases "handle_abort a h (ts_m s)")
  then have ma: "tm_closed m" "tm_handles m = Map.empty"
    using cl by (auto simp: handle_abort_def handle_update_def split: if_splits)
  show ?thesis
  proof (cases k)
    case (Registering t)
    have "addHandle (ts_now s) t a h (ts_m s) = Inl TransactionNotFound" using cl by (simp add: addHandle_def)
    then have "tx_step s (s\<lparr>ts_m := m, ts_task := (ts_task s)(a := None), ts_hist := ts_hist s @ es\<rparr>)"
      using BeginFails [OF k [unfolded Registering] h _ abort] by blast
    then show ?thesis by (rule closing_step [OF c k ma]) (simp add: Registering)
  next
    case (Aborting t out)
    have "tx_step s (s\<lparr>ts_m := m, ts_task := (ts_task s)(a \<mapsto> Recording t out), ts_hist := ts_hist s @ es\<rparr>)"
      by (rule Aborts [OF k [unfolded Aborting] nb h abort])
    then show ?thesis by (rule closing_step [OF c k ma]) (simp add: Aborting)
  next
    case (Finishing t d commit)
    obtain out targets err m' es' where f: "handle_finish a h d commit False None False (ts_m s) = ((out, targets, err), m', es')"
      by (metis prod.exhaust)
    have m': "tm_closed m'" "tm_handles m' = Map.empty"
      using f cl by (auto simp: handle_finish_def handle_update_def Let_def split: if_splits)
    have "tx_step s (s\<lparr>ts_m := m', ts_task := (ts_task s)(a \<mapsto> Recording t out), ts_hist := ts_hist s @ es'\<rparr>)"
      by (rule Finishes [OF k [unfolded Finishing] nb h f])
    then show ?thesis by (rule closing_step [OF c k m']) (simp add: Finishing)
  next
    case (Recording t out)
    let ?m = "recordEnd (ts_now s) t h out (ts_m s)"
    have m': "tm_closed ?m" "tm_handles ?m = Map.empty"
      using cl by (simp_all add: recordEnd_def buryLocked_def split: prod.splits)
    have "tx_step s (s\<lparr>ts_m := ?m, ts_task := (ts_task s)(a := None), ts_hist := ts_hist s @ []\<rparr>)"
      using Records [OF k [unfolded Recording] h] by simp
    then show ?thesis by (rule closing_step [OF c k m']) (simp add: Recording)
  qed
qed

lemma closing_drains:
  "closing s \<Longrightarrow> \<exists>s'. tx_step\<^sup>*\<^sup>* s s' \<and> closing s' \<and> ts_task s' = Map.empty"
proof (induction "work_left (ts_task s)" arbitrary: s rule: less_induct)
  case less
  show ?case
  proof (cases "ts_task s = Map.empty")
    case True
    then show ?thesis using less.prems by blast
  next
    case False
    then obtain a k where "ts_task s a = Some k" by (auto simp: fun_eq_iff)
    then obtain s1 where s1: "tx_step s s1" "closing s1" "work_left (ts_task s1) < work_left (ts_task s)"
      using closing_progress [OF less.prems] by blast
    then obtain s' where "tx_step\<^sup>*\<^sup>* s1 s'" "closing s'" "ts_task s' = Map.empty" using less.hyps by blast
    then show ?thesis using s1(1) by (meson converse_rtranclp_into_rtranclp)
  qed
qed

text \<open>Closing takes every open handle, and there are finitely many.\<close>

lemma ending_handles:
  assumes "tm_handles m t = Some a" and "tm_heap m a = Some h"
  shows "tm_handles (endingLocked t a h m) = (tm_handles m)(t := None)" and "tm_closed (endingLocked t a h m) = tm_closed m"
    and "\<forall>u b. tm_handles m u = Some b \<longrightarrow> tm_heap m b \<noteq> None \<Longrightarrow>
      \<forall>u b. tm_handles (endingLocked t a h m) u = Some b \<longrightarrow> tm_heap (endingLocked t a h m) b \<noteq> None"
  using assms by (auto simp: tx_ops)

lemma endAll_handles:
  assumes "endAll (\<lambda>_. True) tokens m = (m', rollbacks)" and "\<forall>t a. tm_handles m t = Some a \<longrightarrow> tm_heap m a \<noteq> None"
  shows "tm_closed m' = tm_closed m \<and> dom (tm_handles m') \<subseteq> dom (tm_handles m) - set tokens"
  using assms
proof (induction tokens arbitrary: m rollbacks)
  case Nil
  then show ?case by auto
next
  case (Cons t tokens)
  show ?case
  proof (cases "tm_handles m t")
    case None
    then have "endAll (\<lambda>_. True) tokens m = (m', rollbacks)" using Cons.prems(1) by simp
    from Cons.IH [OF this Cons.prems(2)] show ?thesis using None by auto
  next
    case (Some a)
    then obtain h where h: "tm_heap m a = Some h" using Cons.prems(2) by blast
    note e = ending_handles [OF Some h]
    obtain rs where "endAll (\<lambda>_. True) tokens (endingLocked t a h m) = (m', rs)"
      using Cons.prems(1) Some h by (auto split: prod.splits)
    from Cons.IH [OF this e(3) [OF Cons.prems(2)]] show ?thesis
      unfolding e(1,2) dom_fun_upd by auto
  qed
qed

lemma add_aborts_finite: "finite (dom f) \<Longrightarrow> finite (dom (add_aborts rollbacks out f))"
proof (induction rollbacks arbitrary: f)
  case Nil
  then show ?case by (simp add: add_aborts_def)
next
  case (Cons r rollbacks)
  have eq: "add_aborts (r # rollbacks) out f = add_aborts rollbacks out (f(snd r \<mapsto> Aborting (fst r) out))"
    by (simp add: add_aborts_def split_beta)
  show ?case unfolding eq by (rule Cons.IH) (simp add: Cons.prems del: fun_upd_apply)
qed

lemma tx_step_finite: "tx_step s s' \<Longrightarrow> finite (dom (ts_task s)) \<Longrightarrow> finite (dom (ts_task s'))"
  by (induction rule: tx_step.induct) (simp_all add: ended_def add_aborts_finite del: fun_upd_apply)

interpretation tasks: transition_system "\<lambda>s. \<exists>now ttl maxOpen. s = tx_init now ttl maxOpen" tx_step
    "\<lambda>s. finite (dom (ts_task s))"
  by unfold_locales (auto simp: tx_init_def intro: tx_step_finite)

lemma tx_reach_finite: "tx_step\<^sup>*\<^sup>* (tx_init now ttl maxOpen) s \<Longrightarrow> finite (dom (ts_task s))"
  by (rule tasks.reached_ok) blast

text \<open>Once closed with no open handle, a manager stays so: nothing begins, and the rollbacks handed out are made.\<close>

definition stays_closed :: "tx_system \<Rightarrow> tx_system \<Rightarrow> bool" where
  "stays_closed s s' \<longleftrightarrow> tm_closed (ts_m s') \<and> tm_handles (ts_m s') = Map.empty \<and>
     (\<forall>b. tm_heap (ts_m s') b = None \<longleftrightarrow> tm_heap (ts_m s) b = None) \<and> (\<exists>es. ts_hist s' = ts_hist s @ es) \<and>
     (\<forall>a t out. ts_task s a = Some (Aborting t out) \<longrightarrow>
        ts_task s' a = Some (Aborting t out) \<or> ts_task s' a = Some (Recording t out)) \<and>
     (\<forall>t a. ts_drawn s t = Some a \<longrightarrow> ts_drawn s' t = Some a)"

lemma endAll_none:
  "tm_handles m = Map.empty \<Longrightarrow> endAll p tokens m = (m, [])"
  by (induction tokens) simp_all

lemma stays_closed_ended:
  assumes "tm_closed (ts_m s)" and "tm_handles (ts_m s) = Map.empty"
  shows "stays_closed s (ended t a out (tx_end t a h (ts_m s)) s)" and "stays_closed s (ended t a out (checkIdle now t a h (ts_m s)) s)"
  using assms by (simp_all add: stays_closed_def ended_def tx_end_def checkIdle_def)

lemma heap_update_None: "tm_heap (handle_update a f m) b = None \<longleftrightarrow> tm_heap m b = None"
  by (simp add: handle_update_def)

lemma handle_update_maps [simp]:
  "tm_closed (handle_update a f m) = tm_closed m" "tm_handles (handle_update a f m) = tm_handles m"
  by (simp_all add: handle_update_def)

lemma stays_closed_update:
  assumes "tm_closed (ts_m s)" and "tm_handles (ts_m s) = Map.empty" and "ts_m s' = ts_m s \<or> (\<exists>a f. ts_m s' = handle_update a f (ts_m s))"
    and "ts_hist s' = ts_hist s @ es" and "ts_drawn s' = ts_drawn s"
    and "\<And>a t out. ts_task s a = Some (Aborting t out) \<Longrightarrow>
      ts_task s' a = Some (Aborting t out) \<or> ts_task s' a = Some (Recording t out)"
  shows "stays_closed s s'"
  using assms(1,2,4-) assms(3) by (auto simp: stays_closed_def heap_update_None)

lemma tx_step_stays_closed:
  assumes "tx_step s s'" and "tm_closed (ts_m s)" and "tm_handles (ts_m s) = Map.empty"
  shows "stays_closed s s'"
  using assms
proof (induction rule: tx_step.induct)
  case (Tick s now)
  then show ?case by (simp add: stays_closed_def)
next
  case (Configure s n d ttl maxOpen)
  then show ?case by (simp add: stays_closed_def SetConnectionLimit_def SetIdleTimeout_def tx_UpdateLimits_def)
next
  case (BeginStart c connection s a token datasource ttl)
  then show ?case by (simp add: checkBeginCapacity_def)
next
  case (BeginDone s a token h m)
  then show ?case by (simp add: addHandle_def)
next
  case (BeginFails s a token h e canceled m es)
  then show ?case by (intro stays_closed_update [where es = es]) (auto simp: handle_abort_def split: if_splits)
next
  case (LookupFound s token c datasource connections a)
  then show ?case by (simp add: stays_closed_def)
next
  case (LookupExpires s token c datasource connections a h)
  then show ?case by (simp add: stays_closed_ended)
next
  case (TimerFires s a h e token)
  then show ?case by (simp add: stays_closed_ended)
next
  case (IdleFires s a h token)
  then show ?case by (simp add: stays_closed_ended)
next
  case (StatementStarts token a c s h m es)
  then show ?case by (intro stays_closed_update [where es = es]) (auto simp: statement_start_def split: if_splits)
next
  case (StatementEnds a s m es)
  then show ?case by (intro stays_closed_update [where es = es]) (auto simp: statement_end_def)
next
  case (StatementFails a s token c m es)
  then show ?case by (intro stays_closed_update [where es = es]) (auto simp: statement_end_def)
next
  case (FailEnds token a s h)
  then show ?case by (simp add: stays_closed_def ended_def tx_end_def)
next
  case (MarksDirty token a c s h targets m)
  then show ?case by (intro stays_closed_update [where es = "[]"]) (auto simp: MarkDirty_def split: if_splits)
next
  case (FinishStarts token a c s h commit)
  then show ?case by simp
next
  case (SessionEnds tokens s session m rollbacks)
  then have "m = ts_m s \<and> rollbacks = []" by (simp add: RollbackSession_def endAll_none split: if_splits)
  then show ?case using SessionEnds by (simp add: stays_closed_def add_aborts_def)
next
  case (Closes tokens s m rollbacks)
  then have "m = ts_m s \<and> rollbacks = []" by (simp add: tx_Close_def)
  then show ?case using Closes by (simp add: stays_closed_def add_aborts_def)
next
  case (Aborts s a token outcome h m es)
  then show ?case by (intro stays_closed_update [where es = es]) (auto simp: handle_abort_def split: if_splits)
next
  case (Finishes s a token c commit h canceled answer rollbackErr outcome targets err m es)
  then have "m = ts_m s \<or> (\<exists>a f. m = handle_update a f (ts_m s))"
    by (auto simp: handle_finish_def Let_def split: if_splits option.splits)
  then show ?case using Finishes by (intro stays_closed_update [where es = es]) auto
next
  case (Records s a token outcome h)
  then show ?case by (auto simp: stays_closed_def recordEnd_def buryLocked_def split: prod.splits)
qed

lemma done_committed:
  assumes "tx_phase_of hist a = Some TxDone" and "tx_phase_of (hist @ es) a \<noteq> None"
  shows "tx_phase_of (hist @ es) a = Some TxDone \<and> committed (hist @ es) a = committed hist a"
proof -
  have "\<forall>e\<in>set es. tx_of e \<noteq> a"
    using assms by (induction es) (auto simp: tx_phase_of_append observe_def split: if_splits)
  then show ?thesis using tx_phase_of_other assms(1) by (auto simp: committed_def)
qed

text \<open>What is so from a close on, of the transaction \<open>a\<close> of the token \<open>t\<close> then open and of every other.\<close>

definition closed_since :: "tx_system \<Rightarrow> tx_system \<Rightarrow> bool" where
  "closed_since s s' \<longleftrightarrow> tx_inv s' \<and> tm_closed (ts_m s') \<and> tm_handles (ts_m s') = Map.empty \<and> finite (dom (ts_task s')) \<and>
     (\<forall>t a. tm_handles (ts_m s) t = Some a \<longrightarrow> ts_drawn s' t = Some a \<and>
        (ts_task s' a = Some (Aborting t OutcomeRolledBack) \<or>
         tx_phase_of (ts_hist s') a = Some TxDone \<and> \<not> committed (ts_hist s') a)) \<and>
     (\<forall>b. tm_heap (ts_m s') b = None \<longleftrightarrow> tm_heap (ts_m s) b = None)"

lemma closed_since_step:
  assumes c: "closed_since s s1" and st: "tx_step s1 s2"
  shows "closed_since s s2"
proof -
  have inv: "tx_inv s1" and cl: "tm_closed (ts_m s1)" "tm_handles (ts_m s1) = Map.empty" and f: "finite (dom (ts_task s1))"
    using c by (simp_all add: closed_since_def)
  have inv2: "tx_inv s2" by (rule tx_step_inv [OF st inv])
  have k: "stays_closed s1 s2" by (rule tx_step_stays_closed [OF st cl])
  then obtain es where es: "ts_hist s2 = ts_hist s1 @ es" by (auto simp: stays_closed_def)
  have "ts_drawn s2 t = Some a \<and> (ts_task s2 a = Some (Aborting t OutcomeRolledBack) \<or>
      tx_phase_of (ts_hist s2) a = Some TxDone \<and> \<not> committed (ts_hist s2) a)" if o: "tm_handles (ts_m s) t = Some a" for t a
  proof -
    have d1: "ts_drawn s1 t = Some a" using c o by (auto simp: closed_since_def)
    then have d2: "ts_drawn s2 t = Some a" using k by (auto simp: stays_closed_def)
    obtain h where h: "tx_stage s2 t a h" using tx_inv_drawn [OF inv2 d2] by blast
    consider "ts_task s1 a = Some (Aborting t OutcomeRolledBack)" |
        "tx_phase_of (ts_hist s1) a = Some TxDone" "\<not> committed (ts_hist s1) a"
      using c o by (auto simp: closed_since_def)
    then show ?thesis
    proof cases
      case 1
      then have "ts_task s2 a = Some (Aborting t OutcomeRolledBack) \<or> ts_task s2 a = Some (Recording t OutcomeRolledBack)"
        using k by (simp add: stays_closed_def)
      then show ?thesis using h d2 by (auto simp: tx_stage_def tx_over_def)
    next
      case 2
      then show ?thesis using d2 done_committed [OF 2(1), of es] tx_inv_accepted [OF inv2, of a] es by simp
    qed
  qed
  then show ?thesis
    using c k inv2 tx_step_finite [OF st f] by (simp add: closed_since_def stays_closed_def)
qed

lemma closed_since_runs: "tx_step\<^sup>*\<^sup>* s1 s2 \<Longrightarrow> closed_since s s1 \<Longrightarrow> closed_since s s2"
  by (induction rule: rtranclp_induct) (auto intro: closed_since_step)

text \<open>A close hands every open handle to a rollback.\<close>

lemma endAll_rollbacks:
  assumes "endAll (\<lambda>_. True) tokens m = (m', rs)" and "\<forall>t a. tm_handles m t = Some a \<longrightarrow> tm_heap m a \<noteq> None"
    and "distinct tokens" and "set tokens \<subseteq> dom (tm_handles m)"
  shows "set rs = {(t, a). t \<in> set tokens \<and> tm_handles m t = Some a}"
  using assms
proof (induction tokens arbitrary: m rs)
  case Nil
  then show ?case by simp
next
  case (Cons t tokens)
  then obtain a where a: "tm_handles m t = Some a" by auto
  then obtain h where h: "tm_heap m a = Some h" using Cons.prems(2) by blast
  note e = ending_handles [OF a h]
  obtain r where r: "endAll (\<lambda>_. True) tokens (endingLocked t a h m) = (m', r)" "rs = (t, a) # r"
    using Cons.prems(1) a h by (auto split: prod.splits)
  have "set r = {(u, b). u \<in> set tokens \<and> tm_handles (endingLocked t a h m) u = Some b}"
    by (rule Cons.IH [OF r(1) e(3) [OF Cons.prems(2)]]) (use Cons.prems(3,4) in \<open>auto simp: e(1)\<close>)
  then show ?case using a Cons.prems(3) by (auto simp: r(2) e(1) split: if_splits)
qed

lemma add_aborts_at:
  assumes "(t, a) \<in> set rs" and "\<And>u. (u, a) \<in> set rs \<Longrightarrow> u = t"
  shows "add_aborts rs out f a = Some (Aborting t out)"
  using assms
proof (induction rs rule: rev_induct)
  case Nil
  then show ?case by simp
next
  case (snoc r rs)
  have eq: "add_aborts (rs @ [r]) out f = (add_aborts rs out f)(snd r \<mapsto> Aborting (fst r) out)"
    by (simp add: add_aborts_def split_beta)
  show ?case
  proof (cases "snd r = a")
    case True
    then have "fst r = t" using snoc.prems(2) [of "fst r"] by (cases r) simp
    then show ?thesis using True by (simp add: eq)
  next
    case False
    then have "(t, a) \<in> set rs" using snoc.prems(1) by (cases r) auto
    then have "add_aborts rs out f a = Some (Aborting t out)" by (rule snoc.IH) (rule snoc.prems(2), simp)
    then show ?thesis using False by (simp add: eq)
  qed
qed

lemma endAll_heap: "endAll p tokens m = (m', rs) \<Longrightarrow> tm_heap m' b = None \<longleftrightarrow> tm_heap m b = None"
proof (induction p tokens m arbitrary: m' rs rule: endAll.induct)
  case (1 p m)
  then show ?case by simp
next
  case (2 p t tokens m)
  show ?case
  proof (cases "\<exists>a h. tm_handles m t = Some a \<and> tm_heap m a = Some h \<and> p h")
    case True
    then obtain a h where ah: "tm_handles m t = Some a" "tm_heap m a = Some h" "p h" by blast
    then obtain r where "endAll p tokens (endingLocked t a h m) = (m', r)"
      using "2.prems"(1) by (auto split: prod.splits)
    from "2.IH"(3) [OF ah this] show ?thesis by (simp add: endingLocked_def tx_removeLocked_def Let_def handle_update_def)
  next
    case False
    then show ?thesis using 2 by (auto split: option.splits)
  qed
qed

lemma close_closed_since:
  assumes reach: "tx_step\<^sup>*\<^sup>* (tx_init now ttl maxOpen) s" and op: "\<not> tm_closed (ts_m s)"
    and tokens: "set tokens = dom (tm_handles (ts_m s))" "distinct tokens"
    and m: "tx_Close tokens (ts_m s) = (m, rollbacks)"
  shows "closed_since s (s\<lparr>ts_m := m, ts_task := add_aborts rollbacks OutcomeRolledBack (ts_task s)\<rparr>)" (is "closed_since s ?s")
proof -
  note inv = tx_reach_inv [OF reach]
  have st: "tx_step s ?s" by (rule Closes [OF tokens m])
  let ?m = "(ts_m s)\<lparr>tm_closed := True\<rparr>"
  have e: "endAll (\<lambda>_. True) tokens ?m = (m, rollbacks)" using m op unfolding tx_Close_def by simp
  have h: "\<forall>t a. tm_handles ?m t = Some a \<longrightarrow> tm_heap ?m a \<noteq> None" using open_heap [OF inv] by fastforce
  have "tm_closed m = tm_closed ?m \<and> dom (tm_handles m) \<subseteq> dom (tm_handles ?m) - set tokens" by (rule endAll_handles [OF e h])
  then have cl: "tm_closed m" "tm_handles m = Map.empty" unfolding tokens(1) by auto
  have rs: "set rollbacks = {(t, a). tm_handles (ts_m s) t = Some a}"
    using endAll_rollbacks [OF e h tokens(2)] tokens(1) by auto
  have "add_aborts rollbacks OutcomeRolledBack (ts_task s) a = Some (Aborting t OutcomeRolledBack)"
    if o: "tm_handles (ts_m s) t = Some a" for t a
  proof (rule add_aborts_at)
    show "(t, a) \<in> set rollbacks" using rs o by simp
    show "u = t" if "(u, a) \<in> set rollbacks" for u
      using that rs o tx_inv_inj [OF inv tx_inv_handles [OF inv] tx_inv_handles [OF inv], of u a t] by simp
  qed
  moreover have "tm_heap m b = None \<longleftrightarrow> tm_heap (ts_m s) b = None" for b using endAll_heap [OF e] by simp
  ultimately show ?thesis
    using cl tx_step_inv [OF st inv] add_aborts_finite [OF tx_reach_finite [OF reach]] tx_inv_handles [OF inv]
    by (simp add: closed_since_def)
qed

lemma phase_None_heap: "tx_inv s \<Longrightarrow> tx_phase_of (ts_hist s) a = Some TxNone \<longleftrightarrow> tm_heap (ts_m s) a = None"
proof (cases "tm_heap (ts_m s) a")
  case None
  then show "tx_inv s \<Longrightarrow> ?thesis" using tx_inv_fresh by simp
next
  case (Some h)
  assume inv: "tx_inv s"
  obtain t where "ts_drawn s t = Some a" using tx_inv_token [OF inv Some] by blast
  from tx_inv_stage [OF inv this Some] have "tx_phase_of (ts_hist s) a \<noteq> Some TxNone"
    by (auto simp: tx_stage_def tx_live_def tx_over_def split: option.splits tx_task.splits if_splits)
  then show ?thesis using Some by simp
qed

lemma no_task_done:
  assumes inv: "tx_inv s" and hs: "tm_handles (ts_m s) = Map.empty" and k: "ts_task s a = None"
  shows "tx_phase_of (ts_hist s) a = Some TxNone \<or> tx_phase_of (ts_hist s) a = Some TxDone"
proof (cases "tm_heap (ts_m s) a")
  case None
  then show ?thesis using tx_inv_fresh [OF inv] by simp
next
  case (Some h)
  obtain t where "ts_drawn s t = Some a" using tx_inv_token [OF inv Some] by blast
  from tx_inv_stage [OF inv this Some] show ?thesis using k hs by (simp add: tx_stage_def tx_over_def)
qed

section \<open>A run\<close>

text \<open>A caller begins a transaction, runs a statement in it, which writes, and commits it.\<close>

definition run_caller :: caller where
  "run_caller = \<lparr>cl_Session = ''s'', cl_Role = ''r'', cl_Subject = ''{}''\<rparr>"

definition run_handle :: "int option \<Rightarrow> int \<Rightarrow> bool \<Rightarrow> transactionHandle" where
  "run_handle timer running over =
     \<lparr>h_connection = 7, h_session = ''s'', h_scope = caller_scope run_caller, h_datasource = ''d'', h_dirty = {},
      h_expires = Some 60, h_stopTimer = timer, h_closed = over, h_idle = 0, h_used = 0, h_running = running,
      h_stopIdle = None\<rparr>"

definition run_manager ::
  "transactionHandle \<Rightarrow> bool \<Rightarrow> string set \<Rightarrow> (string \<rightharpoonup> tombstone) \<Rightarrow> string list \<Rightarrow> tx_manager" where
  "run_manager h listed ending tombs buried =
     \<lparr>tm_heap = [0 \<mapsto> h], tm_handles = (if listed then [''t'' \<mapsto> 0] else Map.empty),
      tm_open = (if listed then [caller_scope run_caller \<mapsto> 1] else Map.empty),
      tm_byConnection = (if listed then [7 \<mapsto> 1] else Map.empty), tm_perConnection = 0, tm_ttl = 60, tm_idle = 0,
      tm_maxOpen = 1, tm_closed = False, tm_ending = ending, tm_tombstones = tombs, tm_buried = buried\<rparr>"

definition run_state :: "tx_manager \<Rightarrow> tx_task option \<Rightarrow> nat set \<Rightarrow> (string \<times> nat \<times> caller) set \<Rightarrow> db_event list \<Rightarrow> tx_system" where
  "run_state m task busy found hist =
     \<lparr>ts_m = m, ts_now = 0, ts_task = Map.empty(0 := task), ts_busy = busy, ts_failing = {}, ts_found = found,
      ts_hist = hist, ts_drawn = [''t'' \<mapsto> 0]\<rparr>"

definition run_begun :: tx_system where
  "run_begun = run_state (run_manager (run_handle None 0 False) False {} Map.empty []) (Some (Registering ''t'')) {} {}
     [BeginTx 0 run_caller]"

definition run_open :: tx_system where
  "run_open = run_state (run_manager (run_handle (Some 60) 0 False) True {} Map.empty []) None {} {} [BeginTx 0 run_caller]"

definition run_found :: tx_system where
  "run_found = run_state (run_manager (run_handle (Some 60) 0 False) True {} Map.empty []) None {}
     {(''t'', 0, run_caller)} [BeginTx 0 run_caller]"

definition run_busy :: tx_system where
  "run_busy = run_state (run_manager (run_handle (Some 60) 1 False) True {} Map.empty []) None {0}
     {(''t'', 0, run_caller)} [BeginTx 0 run_caller, Statement 0 run_caller]"

definition run_idle :: tx_system where
  "run_idle = run_state (run_manager (run_handle (Some 60) 0 False) True {} Map.empty []) None {}
     {(''t'', 0, run_caller)} [BeginTx 0 run_caller, Statement 0 run_caller, StatementEnd 0]"

definition run_finishing :: tx_system where
  "run_finishing = run_state (run_manager (run_handle None 0 False) False {''t''} Map.empty [])
     (Some (Finishing ''t'' run_caller True)) {} {(''t'', 0, run_caller)}
     [BeginTx 0 run_caller, Statement 0 run_caller, StatementEnd 0]"

definition run_finished :: tx_system where
  "run_finished = run_state (run_manager (run_handle None 0 True) False {''t''} Map.empty [])
     (Some (Recording ''t'' OutcomeCommitted)) {} {(''t'', 0, run_caller)}
     [BeginTx 0 run_caller, Statement 0 run_caller, StatementEnd 0, CommitTx 0 run_caller None]"

definition run_over :: tx_system where
  "run_over = run_state (run_manager (run_handle None 0 True) False {}
       [''t'' \<mapsto> \<lparr>tb_session = ''s'', tb_scope = caller_scope run_caller, tb_outcome = OutcomeCommitted, tb_at = 0\<rparr>] [''t''])
     None {} {(''t'', 0, run_caller)}
     [BeginTx 0 run_caller, Statement 0 run_caller, StatementEnd 0, CommitTx 0 run_caller None]"

lemmas run_defs = run_state_def run_manager_def run_handle_def

lemma run_begun_reach: "tx_step\<^sup>*\<^sup>* (tx_init 0 60 1) run_begun"
  using BeginStart [of run_caller 7 "tx_init 0 60 1" 0 "''t''" "''d''" 60]
  by (intro r_into_rtranclp) (simp add: run_begun_def run_defs tx_init_def NewTransactionManager_def newHandle_def
      checkBeginCapacity_def capacityLocked_def count_at_def run_caller_def)

lemma run_open_step: "tx_step run_begun run_open"
  using BeginDone [of run_begun 0 "''t''" "run_handle None 0 False" "ts_m run_open"]
  by (simp add: run_begun_def run_open_def run_defs addHandle_def capacityLocked_def count_at_def count_up_def tx_ops)

lemmas run_open_reach = rtranclp.rtrancl_into_rtrancl [OF run_begun_reach run_open_step]

lemma run_over_reach: "tx_step\<^sup>*\<^sup>* (tx_init 0 60 1) run_over"
proof -
  have "tx_step run_open run_found"
    using LookupFound [of run_open "''t''" run_caller "''d''" "Some [7]" 0]
    by (simp add: run_open_def run_found_def run_defs tx_lookup_def) (simp add: run_caller_def)
  moreover have "tx_step run_found run_busy"
    using StatementStarts [of "''t''" 0 run_caller run_found "run_handle (Some 60) 0 False" "ts_m run_busy" "[Statement 0 run_caller]"]
    by (simp add: run_found_def run_busy_def run_defs statement_start_def tx_ops)
  moreover have "tx_step run_busy run_idle"
    using StatementEnds [of 0 run_busy "ts_m run_idle" "[StatementEnd 0]"]
    by (simp add: run_busy_def run_idle_def run_defs statement_end_def tx_ops)
  moreover have "tx_step run_idle run_finishing"
    using FinishStarts [of "''t''" 0 run_caller run_idle "run_handle (Some 60) 0 False" True]
    by (simp add: run_idle_def run_finishing_def run_defs count_at_def count_down_def tx_ops)
  moreover have "tx_step run_finishing run_finished"
    using Finishes [of run_finishing 0 "''t''" run_caller True "run_handle None 0 False" False None False
        OutcomeCommitted "{}" None "ts_m run_finished" "[CommitTx 0 run_caller None]"]
    by (simp add: run_finishing_def run_finished_def run_defs handle_finish_def tx_ops)
  moreover have "tx_step run_finished run_over"
    using Records [of run_finished 0 "''t''" OutcomeCommitted "run_handle None 0 True"]
    by (simp add: run_finished_def run_over_def run_defs recordEnd_def buryLocked_def maxTombstones_def tombstoneRetention_def)
  ultimately show ?thesis using run_open_reach by (meson rtranclp.rtrancl_into_rtrancl)
qed

section \<open>What the transactions keep to\<close>

text \<open>
  C24: Whatever the interleaving of begins, statements, timers, failures, commits, rollbacks, session ends and the
  close, every database transaction is begun once, runs the statements of the caller it was begun for only, one at a
  time, and none after its end; it ends at most once, outside of a statement, by a rollback or a commit of that
  caller, and a rollback follows every failed commit.
\<close>

theorem transactions_follow_protocol:
  assumes "tx_step\<^sup>*\<^sup>* (tx_init now ttl maxOpen) s"
  shows "tx_phase_of (ts_hist s) a \<noteq> None"
  by (rule tx_inv_accepted [OF tx_reach_inv [OF assms]])

theorem transactions_follow_protocol_witness:
  "tx_phase_of (ts_hist run_over) 0 = Some TxDone \<and>
   ts_hist run_over = [BeginTx 0 run_caller, Statement 0 run_caller, StatementEnd 0, CommitTx 0 run_caller None]"
  using transactions_follow_protocol [OF run_over_reach, of 0]
  by (simp add: run_over_def run_defs tx_phase_of_def observe_def same_caller_def)

text \<open>
  C25: What the manager answers for a token it has returned is so. A handle found is open, of the caller, and its
  transaction not ended. A token not found, or reported ended, is of a transaction that has ended, and the outcome
  reported, to the caller it was begun for only, is the one the database's answers establish: committed when the
  commit succeeded, rolled back or expired when no commit did or may have, unknown when one may have.
\<close>

theorem transaction_answers_truthful:
  assumes reach: "tx_step\<^sup>*\<^sup>* (tx_init now ttl maxOpen) s" and t: "ts_drawn s t = Some a"
    and issued: "\<forall>u. ts_task s a \<noteq> Some (Registering u)"
  shows "\<exists>h. tm_heap (ts_m s) a = Some h \<and>
    (case tx_lookup (ts_now s) t c datasource connections (ts_m s) of
       Found b \<Rightarrow> b = a \<and> holder h c \<and> (datasource = [] \<or> h_datasource h = datasource) \<and>
         (\<exists>d. tx_phase_of (ts_hist s) a = Some (TxReady d) \<or> tx_phase_of (ts_hist s) a = Some (TxBusy d))
     | Fails TransactionNotFound \<Rightarrow> tx_phase_of (ts_hist s) a = Some TxDone
     | Fails (TransactionEnded out) \<Rightarrow>
         tx_phase_of (ts_hist s) a = Some TxDone \<and> holder h c \<and> truthful out (ts_hist s) a
     | _ \<Rightarrow> True)"
proof -
  note inv = tx_reach_inv [OF reach]
  obtain h where h: "tm_heap (ts_m s) a = Some h" "tx_stage s t a h" using tx_inv_drawn [OF inv t] by blast
  show ?thesis
  proof (cases "tm_handles (ts_m s) t")
    case (Some b)
    then have b: "b = a" using tx_inv_handles [OF inv Some] t by simp
    have "tx_live s a h" using open_stage(2) [OF inv] Some b h(1) by blast
    then show ?thesis
      using Some b h(1) by (auto simp: tx_lookup_def tx_live_def holder_def split: if_splits)
  next
    case None
    show ?thesis
    proof (cases "t \<in> tm_ending (ts_m s)")
      case True
      then show ?thesis using None h(1) by (simp add: tx_lookup_def)
    next
      case False
      then have over: "tx_phase_of (ts_hist s) a = Some TxDone"
        using h(2) None issued by (auto simp: tx_stage_def tx_over_def split: option.splits tx_task.splits)
      have "holder h c \<and> truthful (tb_outcome tb) (ts_hist s) a"
        if k: "tm_tombstones (ts_m s) t = Some tb" "tb_session tb = cl_Session c" "tb_scope tb = caller_scope c" for tb
        using tx_inv_tomb [OF inv k(1)] k(2,3) t h(1) by (auto simp: tomb_ok_def holder_def)
      then show ?thesis
        using over h(1) None False by (auto simp: tx_lookup_def endedError_def split: option.splits)
    qed
  qed
qed

theorem transaction_answers_truthful_witness:
  "tx_lookup 0 ''t'' run_caller [] None (ts_m run_over) = Fails (TransactionEnded OutcomeCommitted) \<and>
   committed (ts_hist run_over) 0"
proof -
  have "tx_lookup (ts_now run_over) ''t'' run_caller [] None (ts_m run_over) = Fails (TransactionEnded OutcomeCommitted)"
    by (simp add: run_over_def run_defs tx_lookup_def endedError_def tombstoneRetention_def run_caller_def)
  then show ?thesis
    using transaction_answers_truthful [OF run_over_reach, of "''t''" 0 run_caller "[]" None]
    by (simp add: run_over_def run_defs)
qed

text \<open>
  C26: The manager counts the open transactions of every caller and of every connection exactly, and no step opens one
  beyond the limit in force.
\<close>

theorem transactions_within_limits:
  assumes reach: "tx_step\<^sup>*\<^sup>* (tx_init now ttl maxOpen) s" and st: "tx_step s s'"
  shows "count_at (tm_open (ts_m s')) k = int (card (open_by h_scope (ts_m s') k)) \<and>
    count_at (tm_byConnection (ts_m s')) l = int (card (open_by h_connection (ts_m s') l)) \<and>
    (card (open_by h_scope (ts_m s) k) < card (open_by h_scope (ts_m s') k) \<and> tm_maxOpen (ts_m s) > 0 \<longrightarrow>
      count_at (tm_open (ts_m s')) k \<le> tm_maxOpen (ts_m s)) \<and>
    (card (open_by h_connection (ts_m s) l) < card (open_by h_connection (ts_m s') l) \<and> tm_perConnection (ts_m s) > 0 \<longrightarrow>
      count_at (tm_byConnection (ts_m s')) l \<le> tm_perConnection (ts_m s))"
proof -
  note c = tx_reach_counted [OF reach]
  have c': "tx_counted (ts_m s')"
    by (rule tx_reach_counted [OF rtranclp.rtrancl_into_rtrancl [OF reach st]])
  then have counts: "count_at (tm_open (ts_m s')) k = int (card (open_by h_scope (ts_m s') k))"
      "count_at (tm_byConnection (ts_m s')) l = int (card (open_by h_connection (ts_m s') l))"
    by (simp_all add: tx_counted_def)
  consider "registers s s'" | "closes_handles s s'" using tx_step_counted [OF st tx_reach_inv [OF reach] c] by blast
  then show ?thesis
  proof cases
    case 1
    then show ?thesis using registers_within(2,3) [OF c 1] counts by simp
  next
    case 2
    then have "card (open_by h_scope (ts_m s') k) \<le> card (open_by h_scope (ts_m s) k)"
        "card (open_by h_connection (ts_m s') l) \<le> card (open_by h_connection (ts_m s) l)"
      by (auto simp: closes_handles_def intro!: card_mono open_by_finite [OF c])
    then show ?thesis using counts by simp
  qed
qed

theorem transactions_within_limits_witness:
  "count_at (tm_open (ts_m run_open)) (caller_scope run_caller) = 1 \<and>
   card (open_by h_scope (ts_m run_open) (caller_scope run_caller)) = 1"
  using transactions_within_limits [OF run_begun_reach run_open_step, of "caller_scope run_caller" 7]
  by (simp add: run_open_def run_defs count_at_def)



end
