(* ===== verification/Engine.thy ===== *)
theory Engine
  imports Prelude
begin

text \<open>
  The engine of \<^verbatim>\<open>src/core/engine/engine.go\<close>, which runs the tool calls: the admission of a call, its execution under
  the breaker, the adaptive limit and an IO slot, and the sharing of one execution by the concurrent calls of a key.
  The limiters are models of their own (\<^verbatim>\<open>core/ratelimit\<close>, \<^verbatim>\<open>core/bus\<close>); here their answers are arguments and what
  matters is the order of the calls on them, so an execution is the list of the operations it performs. A function
  returns or panics.
\<close>

section \<open>Executions\<close>

datatype 'e engine_error = ErrOverloaded | ErrClosed | LimitErr | CtxEnded | PanicRecovered | FnError 'e

datatype 'a ran = Returns 'a | Panics

definition runSafe :: "('e engine_error + 'v) ran \<Rightarrow> 'e engine_error + 'v" where
  "runSafe fn = (case fn of Returns r \<Rightarrow> r | Panics \<Rightarrow> Inl PanicRecovered)"

text \<open>The operations on the quota an execution performs; a refused one leaves nothing to release and is not listed.\<close>

datatype quota_op =
  BreakerAllow
| LimiterAcquire
| IOAcquire
| RunFn
| LimiterResult bool
| IORelease
| LimiterRelease
| BreakerRecord bool
| BreakerRelease

text \<open>
  The breaker and the limiter of the quota, where there are any, with whether they let the execution through; whether
  an IO slot is had before the context ends; and the classifier of failures, which may panic.
\<close>

record 'e quota_answers =
  qa_breaker :: "bool option"
  qa_limiter :: "bool option"
  qa_io :: bool
  qa_recordFailure :: "('e engine_error \<Rightarrow> bool ran) option"

text \<open>
  Each resource taken is released when the function returns or panics, in the opposite order (the deferred calls). The
  breaker's ticket is recorded when the outcome counts, otherwise released.
\<close>

definition release_breaker :: "'e quota_answers \<Rightarrow> bool \<Rightarrow> bool \<Rightarrow> quota_op list" where
  "release_breaker q record ok =
     (if qa_breaker q = None then [] else if record then [BreakerRecord ok] else [BreakerRelease])"

definition execute :: "'e quota_answers \<Rightarrow> ('e engine_error + 'v) ran \<Rightarrow> ('e engine_error + 'v) ran \<times> quota_op list" where
  "execute q fn =
     (if qa_breaker q = Some False then (Returns (Inl LimitErr), [])
      else
        let allow = (if qa_breaker q = None then [] else [BreakerAllow])
        in if qa_limiter q = Some False then (Returns (Inl LimitErr), allow @ release_breaker q False False)
        else
          let acquire = (if qa_limiter q = None then [] else [LimiterAcquire]);
              release = (if qa_limiter q = None then [] else [LimiterRelease])
          in if \<not> qa_io q then (Returns (Inl CtxEnded), allow @ acquire @ release @ release_breaker q False False)
          else
            let result = runSafe fn;
                ok = \<not> isl result;
                record = (case result of
                    Inr _ \<Rightarrow> Returns True
                  | Inl e \<Rightarrow> (case qa_recordFailure q of None \<Rightarrow> Returns True | Some classify \<Rightarrow> classify e));
                before = allow @ acquire @ [IOAcquire, RunFn]
            in case record of
                Panics \<Rightarrow> (Panics, before @ IORelease # release @ release_breaker q False False)
              | Returns r \<Rightarrow>
                  (Returns result, before @ (if r \<and> qa_limiter q \<noteq> None then [LimiterResult ok] else []) @
                     IORelease # release @ release_breaker q r ok))"

section \<open>Admission\<close>

record engine =
  en_closed :: bool
  en_active :: int

definition engine_admit :: "bool option \<Rightarrow> engine \<Rightarrow> ('e engine_error + unit) \<times> engine" where
  "engine_admit rps e =
     (if en_closed e then (Inl ErrClosed, e)
      else
        let e = e\<lparr>en_active := en_active e + 1\<rparr>
        in if rps = Some False then (Inl LimitErr, e\<lparr>en_active := en_active e - 1\<rparr>) else (Inr (), e))"

definition engine_done :: "engine \<Rightarrow> engine" where
  "engine_done e = e\<lparr>en_active := en_active e - 1\<rparr>"

definition drain_start :: "engine \<Rightarrow> engine" where
  "drain_start e = e\<lparr>en_closed := True\<rparr>"

datatype lane_answer = Entered | LaneOverloaded | LaneClosed

text \<open>
  A submission: admitted, then on the lane, then executed alone or shared. \<open>work\<close> is what \<^verbatim>\<open>execute\<close> or
  \<^verbatim>\<open>singleflight.Do\<close> answers. The result is \<open>Panics\<close> when a panic leaves the submission, after its deferred calls.
\<close>

definition engine_submit ::
  "bool option \<Rightarrow> lane_answer \<Rightarrow> string \<Rightarrow> ('e engine_error + 'v) ran \<Rightarrow> ('e engine_error + 'v) \<Rightarrow> engine \<Rightarrow>
     ('e engine_error + 'v) ran \<times> engine" where
  "engine_submit rps lane key alone shared e =
     (case engine_admit rps e of
        (Inl err, e) \<Rightarrow> (Returns (Inl err), e)
      | (Inr _, e) \<Rightarrow>
          (case lane of
             LaneOverloaded \<Rightarrow> (Returns (Inl ErrOverloaded), engine_done e)
           | LaneClosed \<Rightarrow> (Returns (Inl ErrClosed), engine_done e)
           | Entered \<Rightarrow> (if key = [] then alone else Returns shared, engine_done e)))"

definition engine_run :: "bool option \<Rightarrow> ('e engine_error + 'v) ran \<Rightarrow> engine \<Rightarrow> ('e engine_error + 'v) \<times> engine" where
  "engine_run rps fn e =
     (case engine_admit rps e of (Inl err, e) \<Rightarrow> (Inl err, e) | (Inr _, e) \<Rightarrow> (runSafe fn, engine_done e))"

section \<open>Shared executions\<close>

text \<open>
  A call is an object its waiters and its goroutine point at, so it lives in a heap. Each function is a section the
  code runs under \<^verbatim>\<open>s.mu\<close>.
\<close>

record 'r sf_call =
  ca_done :: bool
  ca_canceled :: bool
  ca_deadline :: "int option"
  ca_waiters :: int
  ca_result :: "'r option"

record 'r singleflight =
  sf_m :: "string \<rightharpoonup> nat"
  sf_heap :: "nat \<rightharpoonup> 'r sf_call"

definition call_update :: "nat \<Rightarrow> ('r sf_call \<Rightarrow> 'r sf_call) \<Rightarrow> 'r singleflight \<Rightarrow> 'r singleflight" where
  "call_update c f s = s\<lparr>sf_heap := (sf_heap s)(c := map_option f (sf_heap s c))\<rparr>"

text \<open>
  The context an execution runs under is not the caller's: it ends when the call is canceled, and at the deadline of
  the caller that started it, if that has one.
\<close>

definition run_ended :: "int \<Rightarrow> 'r sf_call \<Rightarrow> bool" where
  "run_ended now k \<longleftrightarrow> ca_canceled k \<or> (case ca_deadline k of Some d \<Rightarrow> d \<le> now | None \<Rightarrow> False)"

text \<open>
  \<^verbatim>\<open>Do\<close> joins the call of its key or makes one, at the fresh address \<open>new\<close>: the call, and whether it is new. \<open>deadline\<close>
  is that of the caller's context.
\<close>

definition sf_join :: "string \<Rightarrow> int option \<Rightarrow> nat \<Rightarrow> 'r singleflight \<Rightarrow> 'r singleflight \<times> nat \<times> bool" where
  "sf_join key deadline new s =
     (case sf_m s key of
        Some c \<Rightarrow> (call_update c (\<lambda>k. k\<lparr>ca_waiters := ca_waiters k + 1\<rparr>) s, c, False)
      | None \<Rightarrow>
          (s\<lparr>sf_m := (sf_m s)(key \<mapsto> new),
             sf_heap := (sf_heap s)(new \<mapsto>
               \<lparr>ca_done = False, ca_canceled = False, ca_deadline = deadline, ca_waiters = 1, ca_result = None\<rparr>)\<rparr>,
           new, True))"

text \<open>A waiter whose context ended leaves; the last one cancels the call.\<close>

definition sf_leave :: "string \<Rightarrow> nat \<Rightarrow> 'r sf_call \<Rightarrow> 'r singleflight \<Rightarrow> 'r singleflight" where
  "sf_leave key c k s =
     (if ca_waiters k - 1 = 0
      then (call_update c (\<lambda>k. k\<lparr>ca_waiters := ca_waiters k - 1, ca_canceled := True\<rparr>) s)
        \<lparr>sf_m := (if sf_m s key = Some c then (sf_m s)(key := None) else sf_m s)\<rparr>
      else call_update c (\<lambda>k. k\<lparr>ca_waiters := ca_waiters k - 1\<rparr>) s)"

text \<open>The goroutine of a call: it sets the result, forgets the call, and then wakes the waiters.\<close>

definition sf_ran :: "nat \<Rightarrow> 'r \<Rightarrow> 'r singleflight \<Rightarrow> 'r singleflight" where
  "sf_ran c r s = call_update c (\<lambda>k. k\<lparr>ca_result := Some r\<rparr>) s"

definition sf_forget :: "string \<Rightarrow> nat \<Rightarrow> 'r singleflight \<Rightarrow> 'r singleflight" where
  "sf_forget key c s =
     (call_update c (\<lambda>k. k\<lparr>ca_canceled := True\<rparr>) s)
       \<lparr>sf_m := (if sf_m s key = Some c then (sf_m s)(key := None) else sf_m s)\<rparr>"

definition sf_close :: "nat \<Rightarrow> 'r singleflight \<Rightarrow> 'r singleflight" where
  "sf_close c s = call_update c (\<lambda>k. k\<lparr>ca_done := True\<rparr>) s"

text \<open>
  The system: the state of each caller, for each call the key and the stage of its goroutine, and the time. Recorded for
  the proofs only: what each execution returned, and the deadline of the caller that began it.
\<close>

datatype 'r sf_client = Outside | Waiting string nat | Left string nat | Got string nat 'r

datatype sf_stage = Running | Ran | Forgotten | Finished

record 'r sf_system =
  ss_sf :: "'r singleflight"
  ss_client :: "nat \<Rightarrow> 'r sf_client"
  ss_exec :: "nat \<rightharpoonup> string \<times> sf_stage"
  ss_runs :: "nat \<rightharpoonup> 'r"
  ss_now :: int
  ss_began :: "nat \<rightharpoonup> int option"

definition sf_init :: "int \<Rightarrow> 'r sf_system" where
  "sf_init now = \<lparr>ss_sf = \<lparr>sf_m = Map.empty, sf_heap = Map.empty\<rparr>, ss_client = (\<lambda>_. Outside), ss_exec = Map.empty,
     ss_runs = Map.empty, ss_now = now, ss_began = Map.empty\<rparr>"

inductive sf_step :: "'r sf_system \<Rightarrow> 'r sf_system \<Rightarrow> bool" where
  Joins: "ss_client s i = Outside \<Longrightarrow> sf_heap (ss_sf s) new = None \<Longrightarrow> sf_join key deadline new (ss_sf s) = (sf, c, fresh) \<Longrightarrow>
    sf_step s (s\<lparr>ss_sf := sf, ss_client := (ss_client s)(i := Waiting key c),
      ss_exec := (if fresh then (ss_exec s)(c \<mapsto> (key, Running)) else ss_exec s),
      ss_began := (if fresh then (ss_began s)(c \<mapsto> deadline) else ss_began s)\<rparr>)"
| Ticks: "ss_now s \<le> t \<Longrightarrow> sf_step s (s\<lparr>ss_now := t\<rparr>)"
| Returned: "ss_exec s c = Some (key, Running) \<Longrightarrow>
    sf_step s (s\<lparr>ss_sf := sf_ran c r (ss_sf s), ss_exec := (ss_exec s)(c \<mapsto> (key, Ran)), ss_runs := (ss_runs s)(c \<mapsto> r)\<rparr>)"
| Forgets: "ss_exec s c = Some (key, Ran) \<Longrightarrow>
    sf_step s (s\<lparr>ss_sf := sf_forget key c (ss_sf s), ss_exec := (ss_exec s)(c \<mapsto> (key, Forgotten))\<rparr>)"
| Wakes: "ss_exec s c = Some (key, Forgotten) \<Longrightarrow>
    sf_step s (s\<lparr>ss_sf := sf_close c (ss_sf s), ss_exec := (ss_exec s)(c \<mapsto> (key, Finished))\<rparr>)"
| Receives: "ss_client s i = Waiting key c \<Longrightarrow> sf_heap (ss_sf s) c = Some k \<Longrightarrow> ca_done k \<Longrightarrow> ca_result k = Some r \<Longrightarrow>
    sf_step s (s\<lparr>ss_client := (ss_client s)(i := Got key c r)\<rparr>)"
| Leaves: "ss_client s i = Waiting key c \<Longrightarrow> sf_heap (ss_sf s) c = Some k \<Longrightarrow>
    sf_step s (s\<lparr>ss_sf := sf_leave key c k (ss_sf s), ss_client := (ss_client s)(i := Left key c)\<rparr>)"

end
