(* ===== verification/Engine_Props.thy ===== *)
theory Engine_Props
  imports Engine
begin

text \<open>
  What the engine's executions keep to: whatever they take of the quota they give back, and concurrent calls of a key
  share one execution, whose result they all get and which is only canceled once none of them waits for it.
\<close>

section \<open>What an execution takes it gives back\<close>

text \<open>
  The operations are nested: a stack of what is held, each release matching what was taken last, the function run and
  its outcome reported while the IO slot is held, and nothing held at the end.
\<close>

fun nested :: "quota_op list \<Rightarrow> quota_op list \<Rightarrow> bool" where
  "nested held [] = (held = [])"
| "nested held (BreakerAllow # ops) = nested (BreakerAllow # held) ops"
| "nested held (LimiterAcquire # ops) = nested (LimiterAcquire # held) ops"
| "nested held (IOAcquire # ops) = nested (IOAcquire # held) ops"
| "nested held (RunFn # ops) = (held \<noteq> [] \<and> hd held = IOAcquire \<and> nested held ops)"
| "nested held (LimiterResult _ # ops) = (held \<noteq> [] \<and> hd held = IOAcquire \<and> LimiterAcquire \<in> set held \<and> nested held ops)"
| "nested held (IORelease # ops) = (held \<noteq> [] \<and> hd held = IOAcquire \<and> nested (tl held) ops)"
| "nested held (LimiterRelease # ops) = (held \<noteq> [] \<and> hd held = LimiterAcquire \<and> nested (tl held) ops)"
| "nested held (BreakerRecord _ # ops) = (held \<noteq> [] \<and> hd held = BreakerAllow \<and> nested (tl held) ops)"
| "nested held (BreakerRelease # ops) = (held \<noteq> [] \<and> hd held = BreakerAllow \<and> nested (tl held) ops)"

text \<open>
  C36: An execution gives back everything it takes, in the opposite order, whether the function returns, fails or
  panics, and also when the classification of its failure panics: the breaker's ticket is recorded or released
  exactly once. The function runs exactly when the breaker, the limiter and the IO pool let it, and what the breaker
  records is its success, or a failure the classifier counts.
\<close>

theorem execute_balanced:
  "nested [] (snd (execute q fn)) \<and>
   (RunFn \<in> set (snd (execute q fn)) \<longleftrightarrow> qa_breaker q \<noteq> Some False \<and> qa_limiter q \<noteq> Some False \<and> qa_io q) \<and>
   (BreakerRecord ok \<in> set (snd (execute q fn)) \<longleftrightarrow>
      qa_breaker q = Some True \<and> qa_limiter q \<noteq> Some False \<and> qa_io q \<and>
      (case runSafe fn of
         Inr _ \<Rightarrow> ok
       | Inl e \<Rightarrow> \<not> ok \<and> (case qa_recordFailure q of None \<Rightarrow> True | Some classify \<Rightarrow> classify e = Returns True)))"
  by (cases "qa_breaker q"; cases "qa_limiter q"; cases "runSafe fn"; cases "qa_recordFailure q")
    (auto simp: execute_def release_breaker_def Let_def split: ran.splits)

section \<open>The calls of the singleflight\<close>

definition attached :: "'r sf_system \<Rightarrow> nat \<Rightarrow> nat set" where
  "attached s c = {i. \<exists>key. ss_client s i = Waiting key c \<or> (\<exists>r. ss_client s i = Got key c r)}"

text \<open>A call at each stage of its goroutine.\<close>

definition call_ok :: "'r sf_system \<Rightarrow> nat \<Rightarrow> string \<Rightarrow> sf_stage \<Rightarrow> 'r sf_call \<Rightarrow> bool" where
  "call_ok s c key st k \<longleftrightarrow>
     finite (attached s c) \<and> ca_waiters k = int (card (attached s c)) \<and> ca_result k = ss_runs s c \<and>
     (ss_runs s c = None \<longleftrightarrow> st = Running) \<and> (ca_done k \<longleftrightarrow> st = Finished) \<and>
     (sf_m (ss_sf s) key = Some c \<longrightarrow> (st = Running \<or> st = Ran) \<and> attached s c \<noteq> {}) \<and>
     (st = Running \<longrightarrow> (ca_canceled k \<longleftrightarrow> attached s c = {}) \<and> (sf_m (ss_sf s) key = Some c \<longleftrightarrow> attached s c \<noteq> {}))"

definition sf_inv :: "'r sf_system \<Rightarrow> bool" where
  "sf_inv s \<longleftrightarrow>
     (\<forall>c. sf_heap (ss_sf s) c = None \<longrightarrow> ss_exec s c = None \<and> ss_runs s c = None) \<and>
     (\<forall>c k. sf_heap (ss_sf s) c = Some k \<longrightarrow> (\<exists>key st. ss_exec s c = Some (key, st) \<and> call_ok s c key st k)) \<and>
     (\<forall>i key c. ss_client s i = Waiting key c \<longrightarrow> (\<exists>st. ss_exec s c = Some (key, st))) \<and>
     (\<forall>i key c r. ss_client s i = Got key c r \<longrightarrow> (\<exists>st. ss_exec s c = Some (key, st)) \<and> ss_runs s c = Some r) \<and>
     (\<forall>key c. sf_m (ss_sf s) key = Some c \<longrightarrow> (\<exists>st. ss_exec s c = Some (key, st)))"

lemma sf_inv_fresh: "sf_inv s \<Longrightarrow> sf_heap (ss_sf s) c = None \<Longrightarrow> ss_exec s c = None \<and> ss_runs s c = None"
  unfolding sf_inv_def by blast

lemma sf_inv_call:
  "sf_inv s \<Longrightarrow> sf_heap (ss_sf s) c = Some k \<Longrightarrow> \<exists>key st. ss_exec s c = Some (key, st) \<and> call_ok s c key st k"
  unfolding sf_inv_def by blast

lemma sf_inv_exec:
  assumes "sf_inv s" and "ss_exec s c = Some (key, st)"
  shows "\<exists>k. sf_heap (ss_sf s) c = Some k \<and> call_ok s c key st k"
proof (cases "sf_heap (ss_sf s) c")
  case None
  then show ?thesis using sf_inv_fresh [OF assms(1) None] assms(2) by simp
next
  case (Some k)
  then show ?thesis using sf_inv_call [OF assms(1) Some] assms(2) by auto
qed

lemma sf_inv_waiting: "sf_inv s \<Longrightarrow> ss_client s i = Waiting key c \<Longrightarrow> \<exists>st. ss_exec s c = Some (key, st)"
  unfolding sf_inv_def by blast

lemma sf_inv_got:
  "sf_inv s \<Longrightarrow> ss_client s i = Got key c r \<Longrightarrow> (\<exists>st. ss_exec s c = Some (key, st)) \<and> ss_runs s c = Some r"
  unfolding sf_inv_def by blast

lemma sf_inv_map: "sf_inv s \<Longrightarrow> sf_m (ss_sf s) key = Some c \<Longrightarrow> \<exists>st. ss_exec s c = Some (key, st)"
  unfolding sf_inv_def by blast

text \<open>
  A step at one call \<open>c\<close> of \<open>key\<close>, by its goroutine or by one of its callers \<open>i\<close>: every other call is as before.
\<close>

definition sf_steps_at :: "nat \<Rightarrow> string \<Rightarrow> 'r sf_system \<Rightarrow> 'r sf_system \<Rightarrow> bool" where
  "sf_steps_at c key s s' \<longleftrightarrow>
     (\<forall>d. d \<noteq> c \<longrightarrow> sf_heap (ss_sf s') d = sf_heap (ss_sf s) d \<and> ss_exec s' d = ss_exec s d \<and>
        ss_runs s' d = ss_runs s d \<and> attached s' d = attached s d \<and>
        (\<forall>l. sf_m (ss_sf s') l = Some d \<longleftrightarrow> sf_m (ss_sf s) l = Some d)) \<and>
     (\<forall>l. sf_m (ss_sf s') l = Some c \<longrightarrow> l = key) \<and>
     (\<forall>r. ss_runs s c = Some r \<longrightarrow> ss_runs s' c = Some r) \<and>
     (sf_heap (ss_sf s) c = None \<or> (\<exists>st. ss_exec s c = Some (key, st))) \<and>
     (\<forall>i. ss_client s' i = ss_client s i \<or> ss_client s' i = Left key c \<or> ss_client s' i = Waiting key c \<or>
        (\<exists>r. ss_client s' i = Got key c r \<and> ss_runs s' c = Some r)) \<and>
     (\<exists>k st. sf_heap (ss_sf s') c = Some k \<and> ss_exec s' c = Some (key, st) \<and> call_ok s' c key st k)"

lemma sf_steps_at_exec:
  assumes at: "sf_steps_at c key s s'" and inv: "sf_inv s" and e: "ss_exec s d = Some (l, st)"
  shows "\<exists>st'. ss_exec s' d = Some (l, st')"
proof (cases "d = c")
  case True
  have "sf_heap (ss_sf s) c \<noteq> None" using sf_inv_exec [OF inv e] True by auto
  then have "l = key" using at e True unfolding sf_steps_at_def by auto
  then show ?thesis using at True unfolding sf_steps_at_def by blast
next
  case False
  then show ?thesis using at e unfolding sf_steps_at_def by auto
qed

lemma sf_steps_at_inv:
  assumes at: "sf_steps_at c key s s'" and inv: "sf_inv s"
  shows "sf_inv s'"
proof -
  have other: "sf_heap (ss_sf s') d = sf_heap (ss_sf s) d" "ss_exec s' d = ss_exec s d" "ss_runs s' d = ss_runs s d"
      "attached s' d = attached s d" "\<And>l. sf_m (ss_sf s') l = Some d \<longleftrightarrow> sf_m (ss_sf s) l = Some d" if "d \<noteq> c" for d
    using at that unfolding sf_steps_at_def by blast+
  obtain k st where k: "sf_heap (ss_sf s') c = Some k" "ss_exec s' c = Some (key, st)" "call_ok s' c key st k"
    using at unfolding sf_steps_at_def by blast
  have fresh: "ss_exec s' d = None \<and> ss_runs s' d = None" if h: "sf_heap (ss_sf s') d = None" for d
  proof -
    have "d \<noteq> c" using h k(1) by auto
    then show ?thesis using other [of d] h sf_inv_fresh [OF inv] by simp
  qed
  have calls: "\<exists>l u. ss_exec s' d = Some (l, u) \<and> call_ok s' d l u j" if h: "sf_heap (ss_sf s') d = Some j" for d j
  proof (cases "d = c")
    case True
    then show ?thesis using k h by auto
  next
    case False
    then have "sf_heap (ss_sf s) d = Some j" using other(1) h by simp
    then obtain l u where "ss_exec s d = Some (l, u)" "call_ok s d l u j" using sf_inv_call [OF inv] by blast
    then show ?thesis using other [OF False] by (simp add: call_ok_def)
  qed
  have clients: "ss_client s' i = ss_client s i \<or> ss_client s' i = Left key c \<or> ss_client s' i = Waiting key c \<or>
        (\<exists>r. ss_client s' i = Got key c r \<and> ss_runs s' c = Some r)" for i
    using at unfolding sf_steps_at_def by blast
  have waiting: "\<exists>u. ss_exec s' d = Some (l, u)" if w: "ss_client s' i = Waiting l d" for i l d
  proof (cases "ss_client s' i = ss_client s i")
    case True
    then obtain u where "ss_exec s d = Some (l, u)" using w sf_inv_waiting [OF inv, of i l d] by auto
    then show ?thesis by (rule sf_steps_at_exec [OF at inv])
  next
    case False
    then show ?thesis using clients [of i] w k(2) by auto
  qed
  have runs: "ss_runs s' d = Some r" if "ss_runs s d = Some r" for d r
    using at that other(3) unfolding sf_steps_at_def by (cases "d = c") auto
  have got: "(\<exists>u. ss_exec s' d = Some (l, u)) \<and> ss_runs s' d = Some r" if w: "ss_client s' i = Got l d r" for i l d r
  proof (cases "ss_client s' i = ss_client s i")
    case True
    then obtain u where "ss_exec s d = Some (l, u)" "ss_runs s d = Some r"
      using w sf_inv_got [OF inv, of i l d r] by auto
    then show ?thesis using sf_steps_at_exec [OF at inv] runs by blast
  next
    case False
    then show ?thesis using clients [of i] w k(2) by auto
  qed
  have map: "\<exists>u. ss_exec s' d = Some (l, u)" if m: "sf_m (ss_sf s') l = Some d" for l d
  proof (cases "d = c")
    case True
    then have "l = key" using at m unfolding sf_steps_at_def by blast
    then show ?thesis using k(2) True by simp
  next
    case False
    then show ?thesis using other [OF False] m sf_inv_map [OF inv] by simp
  qed
  show ?thesis unfolding sf_inv_def using fresh calls waiting got map by blast
qed

section \<open>Every step keeps the calls in order\<close>

text \<open>A caller that joins, receives a result or leaves changes who is attached to its own call only.\<close>

lemma attached_upd:
  "attached (s\<lparr>ss_client := (ss_client s)(i := w)\<rparr>) d =
     (if (\<exists>key. w = Waiting key d \<or> (\<exists>r. w = Got key d r)) then insert i (attached s d) else attached s d - {i})"
  by (auto simp: attached_def)

lemma attached_cong: "ss_client s' = ss_client s \<Longrightarrow> attached s' = attached s"
  by (simp add: attached_def fun_eq_iff)

lemma goroutine_step:
  assumes inv: "sf_inv s" and e: "ss_exec s c = Some (key, st)" and st: "st' \<noteq> Running"
    and heap: "sf_heap (ss_sf s') = (sf_heap (ss_sf s))(c := map_option f (sf_heap (ss_sf s) c))"
    and m: "sf_m (ss_sf s') = sf_m (ss_sf s) \<or> sf_m (ss_sf s) key = Some c \<and> sf_m (ss_sf s') = (sf_m (ss_sf s))(key := None)"
    and listed: "sf_m (ss_sf s') key = Some c \<Longrightarrow> st' = Ran"
    and client: "ss_client s' = ss_client s" and exec: "ss_exec s' = (ss_exec s)(c \<mapsto> (key, st'))"
    and runs: "ss_runs s' = (ss_runs s)(c \<mapsto> r)" "\<And>q. ss_runs s c = Some q \<Longrightarrow> q = r"
    and f: "\<And>k. ca_waiters (f k) = ca_waiters k" "\<And>k. ca_result k = ss_runs s c \<Longrightarrow> ca_result (f k) = Some r"
      "\<And>k. call_ok s c key st k \<Longrightarrow> ca_done (f k) \<longleftrightarrow> st' = Finished"
  shows "sf_inv s'"
proof (rule sf_steps_at_inv [OF _ inv])
  obtain k where k: "sf_heap (ss_sf s) c = Some k" "call_ok s c key st k" using sf_inv_exec [OF inv e] by blast
  have att: "attached s' = attached s" by (rule attached_cong [OF client])
  have km: "sf_m (ss_sf s) key = Some c" if "sf_m (ss_sf s') key = Some c" using that m by auto
  have "call_ok s' c key st' (f k)"
    using k(2) st listed km f(1) [of k] f(2) [of k] f(3) [OF k(2)] unfolding call_ok_def att runs(1) by simp
  then have ok: "\<exists>j u. sf_heap (ss_sf s') c = Some j \<and> ss_exec s' c = Some (key, u) \<and> call_ok s' c key u j"
    by (simp add: heap exec k(1))
  have own: "l = key" if "sf_m (ss_sf s') l = Some c" for l
  proof -
    have "sf_m (ss_sf s) l = Some c" using that m by (auto split: if_splits)
    then show ?thesis using sf_inv_map [OF inv] e by fastforce
  qed
  have rest: "sf_m (ss_sf s') l = Some d \<longleftrightarrow> sf_m (ss_sf s) l = Some d" if "d \<noteq> c" for d l
    using m that by (auto split: if_splits)
  have kept: "ss_runs s' c = Some q" if "ss_runs s c = Some q" for q using runs(2) [OF that] by (simp add: runs(1))
  show "sf_steps_at c key s s'"
    unfolding sf_steps_at_def att client using ok own rest kept e by (simp add: heap exec runs(1))
qed

lemma sf_inv_returned:
  assumes inv: "sf_inv s" and e: "ss_exec s c = Some (key, Running)"
  shows "sf_inv (s\<lparr>ss_sf := sf_ran c r (ss_sf s), ss_exec := (ss_exec s)(c \<mapsto> (key, Ran)), ss_runs := (ss_runs s)(c \<mapsto> r)\<rparr>)"
proof -
  have none: "ss_runs s c = None" using sf_inv_exec [OF inv e] by (auto simp: call_ok_def)
  show ?thesis
    by (rule goroutine_step [OF inv e, where st' = Ran and r = r and f = "\<lambda>k. k\<lparr>ca_result := Some r\<rparr>"])
      (simp_all add: sf_ran_def call_update_def none call_ok_def)
qed

lemma sf_runs_some:
  assumes "sf_inv s" and "ss_exec s c = Some (key, st)" and "st \<noteq> Running"
  shows "\<exists>r. ss_runs s c = Some r \<and> (ss_runs s)(c \<mapsto> r) = ss_runs s"
  using sf_inv_exec [OF assms(1,2)] assms(3) by (auto simp: call_ok_def fun_upd_idem)

lemma sf_inv_forgets:
  assumes inv: "sf_inv s" and e: "ss_exec s c = Some (key, Ran)"
  shows "sf_inv (s\<lparr>ss_sf := sf_forget key c (ss_sf s), ss_exec := (ss_exec s)(c \<mapsto> (key, Forgotten))\<rparr>)"
proof -
  obtain r where r: "ss_runs s c = Some r" "(ss_runs s)(c \<mapsto> r) = ss_runs s" using sf_runs_some [OF inv e] by auto
  show ?thesis
    by (rule goroutine_step [OF inv e, where st' = Forgotten and r = r and f = "\<lambda>k. k\<lparr>ca_canceled := True\<rparr>"])
      (simp_all add: sf_forget_def call_update_def r call_ok_def split: if_splits)
qed

lemma sf_inv_wakes:
  assumes inv: "sf_inv s" and e: "ss_exec s c = Some (key, Forgotten)"
  shows "sf_inv (s\<lparr>ss_sf := sf_close c (ss_sf s), ss_exec := (ss_exec s)(c \<mapsto> (key, Finished))\<rparr>)"
proof -
  obtain r where r: "ss_runs s c = Some r" "(ss_runs s)(c \<mapsto> r) = ss_runs s" using sf_runs_some [OF inv e] by auto
  have "sf_m (ss_sf s) key \<noteq> Some c" using sf_inv_exec [OF inv e] by (auto simp: call_ok_def)
  then show ?thesis
    by (intro goroutine_step [OF inv e, where st' = Finished and r = r and f = "\<lambda>k. k\<lparr>ca_done := True\<rparr>"])
      (simp_all add: sf_close_def call_update_def r)
qed

text \<open>A caller that is attached to its call or leaves it, with what it changes of the call.\<close>

lemma client_step:
  assumes inv: "sf_inv s" and k: "sf_heap (ss_sf s) c = Some k" and e: "ss_exec s c = Some (key, st)"
    and s': "s' = s\<lparr>ss_sf := sf, ss_client := (ss_client s)(i := w)\<rparr>"
    and heap: "sf_heap sf = (sf_heap (ss_sf s))(c \<mapsto> k')"
    and m: "sf_m sf = sf_m (ss_sf s) \<or> sf_m (ss_sf s) key = Some c \<and> sf_m sf = (sf_m (ss_sf s))(key := None)"
    and from_: "ss_client s i = Outside \<or> ss_client s i = Waiting key c"
    and w: "w = Left key c \<or> w = Waiting key c \<or> (\<exists>r. w = Got key c r \<and> ss_runs s c = Some r)"
    and ok: "call_ok s' c key st k'"
  shows "sf_inv s'"
proof (rule sf_steps_at_inv [OF _ inv])
  have att: "attached s' d = attached s d" if "d \<noteq> c" for d
    using from_ w that by (auto simp: s' attached_def)
  have own: "l = key" if "sf_m (ss_sf s') l = Some c" for l
  proof -
    have "sf_m (ss_sf s) l = Some c" using that m by (auto simp: s' split: if_splits)
    then show ?thesis using sf_inv_map [OF inv] e by fastforce
  qed
  have rest: "sf_m (ss_sf s') l = Some d \<longleftrightarrow> sf_m (ss_sf s) l = Some d" if "d \<noteq> c" for d l
    using m that by (auto simp: s' split: if_splits)
  have clients: "ss_client s' j = ss_client s j \<or> ss_client s' j = Left key c \<or> ss_client s' j = Waiting key c \<or>
        (\<exists>r. ss_client s' j = Got key c r \<and> ss_runs s' c = Some r)" for j
    using w by (auto simp: s')
  have "\<exists>j u. sf_heap (ss_sf s') c = Some j \<and> ss_exec s' c = Some (key, u) \<and> call_ok s' c key u j"
    using ok e heap by (simp add: s')
  then show "sf_steps_at c key s s'"
    unfolding sf_steps_at_def using att own rest clients e by (simp add: s' heap)
qed

lemma sf_inv_joins:
  assumes inv: "sf_inv s" and i: "ss_client s i = Outside" and m: "sf_m (ss_sf s) key = Some c"
  shows "sf_inv (s\<lparr>ss_sf := call_update c (\<lambda>k. k\<lparr>ca_waiters := ca_waiters k + 1\<rparr>) (ss_sf s),
    ss_client := (ss_client s)(i := Waiting key c)\<rparr>)" (is "sf_inv ?s")
proof -
  obtain st where e: "ss_exec s c = Some (key, st)" using sf_inv_map [OF inv m] by blast
  obtain k where k: "sf_heap (ss_sf s) c = Some k" "call_ok s c key st k" using sf_inv_exec [OF inv e] by blast
  have att: "attached ?s c = insert i (attached s c)" "i \<notin> attached s c"
    using i by (auto simp: attached_def)
  have ok: "call_ok ?s c key st (k\<lparr>ca_waiters := ca_waiters k + 1\<rparr>)"
    using k(2) m att by (simp add: call_ok_def call_update_def)
  show ?thesis
    by (rule client_step [OF inv k(1) e refl _ _ _ _ ok]) (simp_all add: call_update_def k(1) i)
qed

lemma sf_inv_starts:
  assumes inv: "sf_inv s" and i: "ss_client s i = Outside" and m: "sf_m (ss_sf s) key = None"
    and c: "sf_heap (ss_sf s) c = None"
  shows "sf_inv (s\<lparr>ss_sf := (ss_sf s)\<lparr>sf_m := (sf_m (ss_sf s))(key \<mapsto> c), sf_heap := (sf_heap (ss_sf s))(c \<mapsto>
      \<lparr>ca_done = False, ca_canceled = False, ca_deadline = dl, ca_waiters = 1, ca_result = None\<rparr>)\<rparr>,
    ss_client := (ss_client s)(i := Waiting key c), ss_exec := (ss_exec s)(c \<mapsto> (key, Running))\<rparr>)" (is "sf_inv ?s")
proof (rule sf_steps_at_inv [OF _ inv])
  have fresh: "ss_exec s c = None" "ss_runs s c = None" using sf_inv_fresh [OF inv c] by auto
  have none: "j \<notin> attached s c" for j
    using sf_inv_waiting [OF inv, of j _ c] sf_inv_got [OF inv, of j _ c] fresh(1) by (fastforce simp: attached_def)
  have att: "attached ?s c = {i}" using none by (auto simp: attached_def)
  have other: "attached ?s d = attached s d" if "d \<noteq> c" for d using that i by (auto simp: attached_def)
  have unlisted: "sf_m (ss_sf s) l \<noteq> Some c" for l using sf_inv_map [OF inv, of l c] fresh(1) by auto
  have "call_ok ?s c key Running \<lparr>ca_done = False, ca_canceled = False, ca_deadline = dl, ca_waiters = 1, ca_result = None\<rparr>"
    by (simp add: call_ok_def att fresh)
  then have ok: "\<exists>j u. sf_heap (ss_sf ?s) c = Some j \<and> ss_exec ?s c = Some (key, u) \<and> call_ok ?s c key u j" by simp
  have own: "l = key" if "sf_m (ss_sf ?s) l = Some c" for l using that unlisted by (auto split: if_splits)
  have rest: "sf_m (ss_sf ?s) l = Some d \<longleftrightarrow> sf_m (ss_sf s) l = Some d" if "d \<noteq> c" for d l
    using m that by auto
  have clients: "ss_client ?s j = ss_client s j \<or> ss_client ?s j = Left key c \<or> ss_client ?s j = Waiting key c \<or>
        (\<exists>r. ss_client ?s j = Got key c r \<and> ss_runs ?s c = Some r)" for j
    by simp
  show "sf_steps_at c key s ?s"
    unfolding sf_steps_at_def
  proof (intro conjI allI impI)
    fix d l
    assume d: "d \<noteq> c"
    show "sf_heap (ss_sf ?s) d = sf_heap (ss_sf s) d" "ss_exec ?s d = ss_exec s d" "ss_runs ?s d = ss_runs s d"
      using d by simp_all
    show "attached ?s d = attached s d" by (rule other [OF d])
    show "sf_m (ss_sf ?s) l = Some d \<longleftrightarrow> sf_m (ss_sf s) l = Some d" by (rule rest [OF d])
  next
    fix l
    assume "sf_m (ss_sf ?s) l = Some c"
    then show "l = key" by (rule own)
  next
    fix r
    assume "ss_runs s c = Some r"
    then show "ss_runs ?s c = Some r" by simp
  qed (rule disjI1 [OF c] clients ok)+
qed

lemma sf_inv_receives:
  assumes inv: "sf_inv s" and i: "ss_client s i = Waiting key c" and k: "sf_heap (ss_sf s) c = Some k"
    and r: "ca_result k = Some r"
  shows "sf_inv (s\<lparr>ss_client := (ss_client s)(i := Got key c r)\<rparr>)" (is "sf_inv ?s")
proof -
  obtain st where e: "ss_exec s c = Some (key, st)" using sf_inv_waiting [OF inv i] by blast
  have k': "call_ok s c key st k" using sf_inv_exec [OF inv e] k by auto
  have att: "attached ?s c = attached s c" using i by (auto simp: attached_def)
  have "call_ok ?s c key st k" using k' by (simp add: call_ok_def att)
  then show ?thesis
    by (intro client_step [OF inv k e, where sf = "ss_sf s" and i = i and w = "Got key c r" and k' = k])
      (use i r k' in \<open>simp_all add: k fun_upd_idem call_ok_def\<close>)
qed

lemma sf_inv_leaves:
  assumes inv: "sf_inv s" and i: "ss_client s i = Waiting key c" and k: "sf_heap (ss_sf s) c = Some k"
  shows "sf_inv (s\<lparr>ss_sf := sf_leave key c k (ss_sf s), ss_client := (ss_client s)(i := Left key c)\<rparr>)" (is "sf_inv ?s")
proof -
  obtain st where e: "ss_exec s c = Some (key, st)" using sf_inv_waiting [OF inv i] by blast
  have k': "call_ok s c key st k" using sf_inv_exec [OF inv e] k by auto
  have att: "attached ?s c = attached s c - {i}" "i \<in> attached s c" using i by (auto simp: attached_def)
  have fin: "finite (attached s c)" "ca_waiters k = int (card (attached s c))" using k' by (simp_all add: call_ok_def)
  define A where "A = attached s c - {i}"
  have A: "attached ?s c = A" "finite A" "ca_waiters k - 1 = int (card A)" "attached s c \<noteq> {}"
    using fin card_Suc_Diff1 [OF fin(1) att(2)] att by (auto simp: A_def)
  have zero: "ca_waiters k - 1 = 0 \<longleftrightarrow> A = {}" using A(2) unfolding A(3) by simp
  define k1 where "k1 = k\<lparr>ca_waiters := ca_waiters k - 1, ca_canceled := ca_canceled k \<or> A = {}\<rparr>"
  have heap: "sf_heap (sf_leave key c k (ss_sf s)) = (sf_heap (ss_sf s))(c \<mapsto> k1)"
    using zero by (simp add: sf_leave_def call_update_def k k1_def)
  have m: "sf_m (sf_leave key c k (ss_sf s)) =
      (if A = {} \<and> sf_m (ss_sf s) key = Some c then (sf_m (ss_sf s))(key := None) else sf_m (ss_sf s))"
    using zero by (simp add: sf_leave_def call_update_def)
  have listed: "sf_m (ss_sf ?s) key = Some c \<longleftrightarrow> sf_m (ss_sf s) key = Some c \<and> A \<noteq> {}" by (auto simp: m)
  have k1: "ca_waiters k1 = int (card A)" "ca_result k1 = ca_result k" "ca_done k1 = ca_done k"
      "ca_canceled k1 \<longleftrightarrow> ca_canceled k \<or> A = {}"
    by (simp_all add: k1_def A(3))
  have ok: "call_ok ?s c key st k1"
    using k' A(4) unfolding call_ok_def A(1) listed k1 by (simp add: A(2))
  show ?thesis
    by (rule client_step [OF inv k e refl heap _ _ _ ok]) (use i in \<open>simp_all add: m\<close>)
qed

text \<open>The time and the recorded deadlines have no part in the order of the calls.\<close>

lemma sf_inv_frame [simp]: "sf_inv (s\<lparr>ss_now := t\<rparr>) = sf_inv s" "sf_inv (s\<lparr>ss_began := b\<rparr>) = sf_inv s"
  by (simp_all add: sf_inv_def call_ok_def attached_def)

lemma sf_step_inv: "sf_step s s' \<Longrightarrow> sf_inv s \<Longrightarrow> sf_inv s'"
proof (induction rule: sf_step.induct)
  case (Joins s i new key deadline sf c fresh)
  let ?s = "s\<lparr>ss_sf := sf, ss_client := (ss_client s)(i := Waiting key c),
      ss_exec := (if fresh then (ss_exec s)(c \<mapsto> (key, Running)) else ss_exec s)\<rparr>"
  have "sf_inv ?s"
  proof (cases "sf_m (ss_sf s) key")
    case None
    then show ?thesis using Joins.hyps(3) sf_inv_starts [OF Joins.prems Joins.hyps(1) None Joins.hyps(2), of deadline]
      by (auto simp: sf_join_def)
  next
    case (Some d)
    then show ?thesis using Joins.hyps(3) sf_inv_joins [OF Joins.prems Joins.hyps(1) Some]
      by (auto simp: sf_join_def)
  qed
  then have "sf_inv (?s\<lparr>ss_began := (if fresh then (ss_began s)(c \<mapsto> deadline) else ss_began s)\<rparr>)" by (simp only: sf_inv_frame)
  then show ?case by simp
next
  case (Ticks s t)
  then show ?case by simp
next
  case (Receives s i key c k r)
  show ?case by (rule sf_inv_receives [OF Receives.prems Receives.hyps(1,2,4)])
next
  case (Returned s c key r)
  then show ?case by (intro sf_inv_returned)
next
  case (Forgets s c key)
  then show ?case by (intro sf_inv_forgets)
next
  case (Wakes s c key)
  then show ?case by (intro sf_inv_wakes)
next
  case (Leaves s i key c k)
  then show ?case by (intro sf_inv_leaves)
qed

lemma sf_init_inv: "sf_inv (sf_init now)"
  by (simp add: sf_inv_def sf_init_def)

interpretation flights: transition_system "\<lambda>s. \<exists>now. s = sf_init now" sf_step sf_inv
  by unfold_locales (auto intro: sf_init_inv sf_step_inv)

lemma sf_reach_inv: "sf_step\<^sup>*\<^sup>* (sf_init now) s \<Longrightarrow> sf_inv s"
  by (rule flights.reached_ok) blast

text \<open>An execution keeps the deadline of the caller that began it.\<close>

definition deadlines_kept :: "'r sf_system \<Rightarrow> bool" where
  "deadlines_kept s \<longleftrightarrow> (\<forall>c k. sf_heap (ss_sf s) c = Some k \<longrightarrow> ss_began s c = Some (ca_deadline k))"

lemma deadlines_kept_update:
  "deadlines_kept s \<Longrightarrow> sf_heap sf = sf_heap (call_update c f (ss_sf s)) \<Longrightarrow> (\<And>k. ca_deadline (f k) = ca_deadline k) \<Longrightarrow>
   ss_sf s' = sf \<Longrightarrow> ss_began s' = ss_began s \<Longrightarrow> deadlines_kept s'"
  by (auto simp: deadlines_kept_def call_update_def split: if_splits)

lemma deadlines_kept_step: "sf_step s s' \<Longrightarrow> deadlines_kept s \<Longrightarrow> deadlines_kept s'"
proof (induction rule: sf_step.induct)
  case (Joins s i new key deadline sf c fresh)
  show ?case
  proof (cases "sf_m (ss_sf s) key")
    case None
    then show ?thesis using Joins by (auto simp: sf_join_def deadlines_kept_def)
  next
    case (Some d)
    then show ?thesis using Joins.hyps(3)
      by (intro deadlines_kept_update [OF Joins.prems, where c = d and f = "\<lambda>k. k\<lparr>ca_waiters := ca_waiters k + 1\<rparr>" and sf = sf])
        (auto simp: sf_join_def)
  qed
next
  case (Returned s c key r)
  show ?case by (rule deadlines_kept_update [OF Returned.prems, where f = "\<lambda>k. k\<lparr>ca_result := Some r\<rparr>"]) (simp_all add: sf_ran_def)
next
  case (Forgets s c key)
  show ?case by (rule deadlines_kept_update [OF Forgets.prems, where f = "\<lambda>k. k\<lparr>ca_canceled := True\<rparr>"]) (simp_all add: sf_forget_def)
next
  case (Wakes s c key)
  show ?case by (rule deadlines_kept_update [OF Wakes.prems, where f = "\<lambda>k. k\<lparr>ca_done := True\<rparr>"]) (simp_all add: sf_close_def)
next
  case (Leaves s i key c k)
  show ?case
    by (rule deadlines_kept_update [OF Leaves.prems, where c = c and f = "\<lambda>k'. k'\<lparr>ca_waiters := ca_waiters k' - 1,
        ca_canceled := (if ca_waiters k - 1 = 0 then True else ca_canceled k')\<rparr>"]) (simp_all add: sf_leave_def call_update_def)
qed (simp_all add: deadlines_kept_def)

lemma deadlines_kept_init: "deadlines_kept (sf_init now)"
  by (simp add: sf_init_def deadlines_kept_def)

interpretation deadlines: transition_system "\<lambda>s. \<exists>now. s = sf_init now" sf_step deadlines_kept
  by unfold_locales (auto intro: deadlines_kept_init deadlines_kept_step)

lemma sf_reach_deadline: "sf_step\<^sup>*\<^sup>* (sf_init now) s \<Longrightarrow> sf_heap (ss_sf s) c = Some k \<Longrightarrow> ss_began s c = Some (ca_deadline k)"
  using deadlines.reached_ok [of "sf_init now" s] by (auto simp: deadlines_kept_def)

text \<open>Whoever waits can be served: the goroutine's next steps, and then the caller's.\<close>

lemma waiting_served:
  assumes inv: "sf_inv s" and i: "ss_client s i = Waiting key c"
  shows "\<exists>s' r. sf_step\<^sup>*\<^sup>* s s' \<and> ss_client s' i = Got key c r"
proof -
  have finished: "\<exists>s' r. sf_step\<^sup>*\<^sup>* s s' \<and> ss_client s' i = Got key c r"
    if s: "sf_inv s" "ss_client s i = Waiting key c" "ss_exec s c = Some (key, Finished)" for s :: "'a sf_system"
  proof -
    obtain k r where "sf_heap (ss_sf s) c = Some k" "ca_done k" "ca_result k = Some r"
      using sf_inv_exec [OF s(1,3)] by (auto simp: call_ok_def)
    from Receives [OF s(2) this] show ?thesis by (intro exI conjI r_into_rtranclp) auto
  qed
  have forgotten: "\<exists>s' r. sf_step\<^sup>*\<^sup>* s s' \<and> ss_client s' i = Got key c r"
    if s: "sf_inv s" "ss_client s i = Waiting key c" "ss_exec s c = Some (key, Forgotten)" for s :: "'a sf_system"
  proof -
    obtain s' r where "sf_step\<^sup>*\<^sup>* (s\<lparr>ss_sf := sf_close c (ss_sf s), ss_exec := (ss_exec s)(c \<mapsto> (key, Finished))\<rparr>) s'"
        "ss_client s' i = Got key c r"
      using finished [OF sf_step_inv [OF Wakes [OF s(3)] s(1)]] s(2) by auto
    then show ?thesis using converse_rtranclp_into_rtranclp [of sf_step, OF Wakes [OF s(3)]] by blast
  qed
  have ran: "\<exists>s' r. sf_step\<^sup>*\<^sup>* s s' \<and> ss_client s' i = Got key c r"
    if s: "sf_inv s" "ss_client s i = Waiting key c" "ss_exec s c = Some (key, Ran)" for s :: "'a sf_system"
  proof -
    obtain s' r where "sf_step\<^sup>*\<^sup>* (s\<lparr>ss_sf := sf_forget key c (ss_sf s), ss_exec := (ss_exec s)(c \<mapsto> (key, Forgotten))\<rparr>) s'"
        "ss_client s' i = Got key c r"
      using forgotten [OF sf_step_inv [OF Forgets [OF s(3)] s(1)]] s(2) by auto
    then show ?thesis using converse_rtranclp_into_rtranclp [of sf_step, OF Forgets [OF s(3)]] by blast
  qed
  obtain st where e: "ss_exec s c = Some (key, st)" using sf_inv_waiting [OF inv i] by blast
  show ?thesis
  proof (cases st)
    case Running
    note st = Returned [OF e [unfolded Running], of undefined]
    obtain s' r where "sf_step\<^sup>*\<^sup>* (s\<lparr>ss_sf := sf_ran c undefined (ss_sf s), ss_exec := (ss_exec s)(c \<mapsto> (key, Ran)),
        ss_runs := (ss_runs s)(c \<mapsto> undefined)\<rparr>) s'" "ss_client s' i = Got key c r"
      using ran [OF sf_step_inv [OF st inv]] i by auto
    then show ?thesis using converse_rtranclp_into_rtranclp [of sf_step, OF st] by blast
  next
    case Ran
    then show ?thesis using ran [OF inv i] e by simp
  next
    case Forgotten
    then show ?thesis using forgotten [OF inv i] e by simp
  next
    case Finished
    then show ?thesis using finished [OF inv i] e by simp
  qed
qed

text \<open>
  C35: A caller that gets a result gets the one the execution of its key's call returned. At most one execution of a
  key runs that is not canceled. An execution somebody waits for is not canceled while it runs: the context it runs
  under ends then only at the deadline of the caller that started it, if that caller had one. A caller can
  always be served by the execution it waits for.
\<close>

theorem singleflight_shares:
  assumes reach: "sf_step\<^sup>*\<^sup>* (sf_init now) s"
  shows "(ss_client s i = Got key c r \<longrightarrow> ss_runs s c = Some r \<and> (\<exists>st. ss_exec s c = Some (key, st))) \<and>
    (ss_exec s c = Some (key, Running) \<and> ss_exec s d = Some (key, Running) \<and> sf_heap (ss_sf s) c = Some j \<and>
       sf_heap (ss_sf s) d = Some k \<and> \<not> ca_canceled j \<and> \<not> ca_canceled k \<longrightarrow> c = d) \<and>
    (ss_client s i = Waiting key c \<and> ss_exec s c = Some (key, Running) \<and> sf_heap (ss_sf s) c = Some k \<longrightarrow>
       \<not> ca_canceled k \<and> sf_m (ss_sf s) key = Some c \<and>
       (run_ended (ss_now s) k \<longleftrightarrow> (\<exists>t. ss_began s c = Some (Some t) \<and> t \<le> ss_now s))) \<and>
    (ss_client s i = Waiting key c \<longrightarrow> (\<exists>s' r. sf_step\<^sup>*\<^sup>* s s' \<and> ss_client s' i = Got key c r))"
proof (intro conjI impI)
  note inv = sf_reach_inv [OF reach]
  show "ss_runs s c = Some r" "\<exists>st. ss_exec s c = Some (key, st)" if "ss_client s i = Got key c r"
    using sf_inv_got [OF inv that] by auto
  show "c = d" if k: "ss_exec s c = Some (key, Running) \<and> ss_exec s d = Some (key, Running) \<and>
      sf_heap (ss_sf s) c = Some j \<and> sf_heap (ss_sf s) d = Some k \<and> \<not> ca_canceled j \<and> \<not> ca_canceled k"
    using sf_inv_exec [OF inv, of c key Running] sf_inv_exec [OF inv, of d key Running] k by (auto simp: call_ok_def)
  show live: "\<not> ca_canceled k" and "sf_m (ss_sf s) key = Some c"
    if k: "ss_client s i = Waiting key c \<and> ss_exec s c = Some (key, Running) \<and> sf_heap (ss_sf s) c = Some k"
  proof -
    have "i \<in> attached s c" using k by (auto simp: attached_def)
    then show "\<not> ca_canceled k" "sf_m (ss_sf s) key = Some c"
      using sf_inv_exec [OF inv, of c key Running] k by (auto simp: call_ok_def)
  qed
  show "run_ended (ss_now s) k \<longleftrightarrow> (\<exists>t. ss_began s c = Some (Some t) \<and> t \<le> ss_now s)"
    if k: "ss_client s i = Waiting key c \<and> ss_exec s c = Some (key, Running) \<and> sf_heap (ss_sf s) c = Some k"
    using live [OF k] sf_reach_deadline [OF reach, of c k] k by (simp add: run_ended_def split: option.splits)
  show "\<exists>s' r. sf_step\<^sup>*\<^sup>* s s' \<and> ss_client s' i = Got key c r" if "ss_client s i = Waiting key c"
    by (rule waiting_served [OF inv that])
qed

text \<open>Two callers of a key, one execution, which ends with the deadline of the first.\<close>

definition shared_call :: "int \<Rightarrow> nat sf_call" where
  "shared_call waiters =
     \<lparr>ca_done = False, ca_canceled = False, ca_deadline = Some 5, ca_waiters = waiters, ca_result = None\<rparr>"

definition shared_one :: "nat sf_system" where
  "shared_one = \<lparr>ss_sf = \<lparr>sf_m = [''k'' \<mapsto> 0], sf_heap = [0 \<mapsto> shared_call 1]\<rparr>,
     ss_client = (\<lambda>_. Outside)(0 := Waiting ''k'' 0), ss_exec = [0 \<mapsto> (''k'', Running)], ss_runs = Map.empty,
     ss_now = 1, ss_began = [0 \<mapsto> Some 5]\<rparr>"

definition shared_two :: "nat sf_system" where
  "shared_two = \<lparr>ss_sf = \<lparr>sf_m = [''k'' \<mapsto> 0], sf_heap = [0 \<mapsto> shared_call 2]\<rparr>,
     ss_client = (\<lambda>_. Outside)(0 := Waiting ''k'' 0, 1 := Waiting ''k'' 0), ss_exec = [0 \<mapsto> (''k'', Running)],
     ss_runs = Map.empty, ss_now = 1, ss_began = [0 \<mapsto> Some 5]\<rparr>"

lemma shared_reach: "sf_step\<^sup>*\<^sup>* (sf_init 1) shared_two"
proof -
  have "sf_step (sf_init 1) shared_one"
    using Joins [of "sf_init 1" 0 0 "''k''" "Some 5" "ss_sf shared_one" 0 True]
    by (simp add: sf_init_def sf_join_def shared_one_def shared_call_def)
  moreover have "sf_step shared_one shared_two"
    using Joins [of shared_one 1 1 "''k''" None "ss_sf shared_two" 0 False]
    by (simp add: sf_join_def shared_one_def shared_two_def shared_call_def call_update_def)
  ultimately show ?thesis by (meson rtranclp.rtrancl_refl rtranclp.rtrancl_into_rtrancl)
qed

theorem singleflight_shares_witness:
  "(\<exists>s' r. sf_step\<^sup>*\<^sup>* shared_two s' \<and> ss_client s' 1 = Got ''k'' 0 r) \<and> \<not> run_ended 1 (shared_call 2)"
proof -
  have s: "ss_client shared_two 1 = Waiting ''k'' 0" "ss_exec shared_two 0 = Some (''k'', Running)"
    "sf_heap (ss_sf shared_two) 0 = Some (shared_call 2)" "ss_now shared_two = 1" "ss_began shared_two 0 = Some (Some 5)"
    by (simp_all add: shared_two_def)
  then show ?thesis using singleflight_shares [OF shared_reach, of 1 "''k''" 0 _ _ _ "shared_call 2"] by auto
qed

end
