(* ===== verification/Mask.thy ===== *)
theory Mask
  imports Executor
begin

text \<open>
  The mask rules of \<^verbatim>\<open>src/core/mask/mask.go\<close>. Strings are bytes; a character is the bytes \<^verbatim>\<open>unicode/utf8\<close> reads as
  one, and a byte that starts no valid encoding is a character of its own, which a conversion to runes and back
  replaces with the encoding of U+FFFD. A rule is given a value that is not null.
\<close>

section \<open>Characters\<close>

definition byte_in :: "nat \<Rightarrow> nat \<Rightarrow> char \<Rightarrow> bool" where
  "byte_in lo hi c \<longleftrightarrow> lo \<le> (of_char c :: nat) \<and> (of_char c :: nat) \<le> hi"

text \<open>The range of the second byte and the number of bytes of an encoding with the given first byte.\<close>

definition first_byte :: "char \<Rightarrow> (nat \<times> nat \<times> nat) option" where
  "first_byte c =
     (if byte_in 0 127 c then Some (1, 0, 0)
      else if byte_in 194 223 c then Some (2, 128, 191)
      else if byte_in 224 224 c then Some (3, 160, 191)
      else if byte_in 237 237 c then Some (3, 128, 159)
      else if byte_in 225 239 c then Some (3, 128, 191)
      else if byte_in 240 240 c then Some (4, 144, 191)
      else if byte_in 241 243 c then Some (4, 128, 191)
      else if byte_in 244 244 c then Some (4, 128, 143)
      else None)"

text \<open>The bytes of the first character of a string, and whether they encode one.\<close>

fun DecodeRuneInString :: "string \<Rightarrow> nat \<times> bool" where
  "DecodeRuneInString [] = (0, False)"
| "DecodeRuneInString (c # s) =
     (case first_byte c of
        None \<Rightarrow> (1, False)
      | Some (n, lo, hi) \<Rightarrow>
          if n = 1 then (1, True)
          else if length s < n - 1 then (1, False)
          else if byte_in lo hi (hd s) \<and> list_all (byte_in 128 191) (take (n - 2) (tl s)) then (n, True)
          else (1, False))"

definition runeError :: string where
  "runeError = [CHR 0xEF, CHR 0xBF, CHR 0xBD]"

lemma DecodeRuneInString_pos: "fst (DecodeRuneInString (c # s)) > 0"
  by (auto simp: first_byte_def split: option.splits)

text \<open>The characters of a string, each as the bytes \<^verbatim>\<open>string(rune)\<close> writes of it.\<close>

function runes :: "string \<Rightarrow> string list" where
  "runes s =
     (if s = [] then []
      else
        let (n, valid) = DecodeRuneInString s
        in (if valid then take n s else runeError) # runes (drop n s))"
  by auto
termination
proof (relation "measure length")
  fix s :: string and x n valid
  assume "s \<noteq> []" "x = DecodeRuneInString s" "(n, valid) = x"
  then have "n > 0" "length s > 0" using DecodeRuneInString_pos by (metis fst_conv list.exhaust, simp)
  then show "(drop n s, s) \<in> measure length" by simp
qed simp

declare runes.simps [simp del]

section \<open>The rules\<close>

definition redacted :: string where
  "redacted = ''***''"

definition digitsMask :: string where
  "digitsMask = ''****''"

text \<open>\<open>printed\<close> is the text \<^verbatim>\<open>fmt\<close> writes of a float, and of a value of the driver's that has a text.\<close>

fun coerceString :: "(val \<Rightarrow> string option) \<Rightarrow> val \<Rightarrow> string option" where
  "coerceString printed (VStr s) = Some s"
| "coerceString printed (VInt i) = Some (show_int i)"
| "coerceString printed (VFloat x) = printed (VFloat x)"
| "coerceString printed (VOther n) = printed (VOther n)"
| "coerceString printed (VRat r) = printed (VRat r)"
| "coerceString printed _ = None"

definition maskEmail :: "(val \<Rightarrow> string option) \<Rightarrow> val \<Rightarrow> val" where
  "maskEmail printed v =
     (case coerceString printed v of
        None \<Rightarrow> VStr redacted
      | Some s \<Rightarrow>
          if s = [] then VStr s
          else
            let pos = length (takeWhile (\<lambda>c. c \<noteq> CHR ''@'') s)
            in if pos = length s \<or> pos = 0 then VStr redacted
               else VStr (take (fst (DecodeRuneInString s)) s @ redacted @ drop pos s))"

definition maskDigits :: "(val \<Rightarrow> string option) \<Rightarrow> val \<Rightarrow> val" where
  "maskDigits printed v =
     (case coerceString printed v of
        None \<Rightarrow> VStr redacted
      | Some s \<Rightarrow>
          let r = runes s
          in if length r < 8 then VStr redacted
             else if length r < 11 then VStr (concat (take 2 r) @ digitsMask @ concat (drop (length r - 2) r))
             else VStr (concat (take 3 r) @ digitsMask @ concat (drop (length r - 4) r)))"

definition builtins :: "(val \<Rightarrow> string option) \<Rightarrow> string \<rightharpoonup> (val \<Rightarrow> val)" where
  "builtins printed =
     [''email'' \<mapsto> maskEmail printed, ''phone'' \<mapsto> maskDigits printed, ''idcard'' \<mapsto> maskDigits printed,
      ''secret'' \<mapsto> (\<lambda>_. VStr redacted)]"

definition BuiltinRules :: "string list" where
  "BuiltinRules = [''email'', ''idcard'', ''phone'', ''secret'']"

definition mask_Has :: "(string \<rightharpoonup> (val \<Rightarrow> val)) \<Rightarrow> string \<Rightarrow> bool" where
  "mask_Has rules name \<longleftrightarrow> rules name \<noteq> None"

definition rule_Mask :: "(string \<rightharpoonup> (val \<Rightarrow> val)) \<Rightarrow> string \<Rightarrow> val \<Rightarrow> val" where
  "rule_Mask rules rule v =
     (if rule = [] \<or> v = VNull then v
      else case rules rule of None \<Rightarrow> v | Some f \<Rightarrow> f v)"

section \<open>What a masked value shows\<close>

text \<open>The first character of an address never reaches its \<^verbatim>\<open>@\<close>: the later bytes of an encoding are not ASCII.\<close>

lemma first_rune_within:
  assumes l: "l \<noteq> []" and at: "CHR ''@'' \<notin> set l"
  shows "fst (DecodeRuneInString (l @ CHR ''@'' # d)) \<le> length l"
proof -
  obtain c l' where c: "l = c # l'" using l by (cases l) auto
  let ?s = "l' @ CHR ''@'' # d"
  show ?thesis
  proof (cases "DecodeRuneInString (c # ?s)")
    case (Pair n valid)
    show ?thesis
    proof (cases "n \<le> 1")
      case True
      then show ?thesis using Pair c by simp
    next
      case False
      obtain lo hi where fb: "first_byte c = Some (n, lo, hi)" "length ?s \<ge> n - 1"
          "byte_in lo hi (hd ?s)" "list_all (byte_in 128 191) (take (n - 2) (tl ?s))"
        using Pair False by (auto split: option.splits if_splits prod.splits)
      have "lo \<ge> 128" using fb(1) False by (auto simp: first_byte_def split: if_splits)
      then have ne: "hd ?s \<noteq> CHR ''@''" using fb(3) by (auto simp: byte_in_def)
      have "n - 1 \<le> length l'"
      proof (rule ccontr)
        assume long: "\<not> n - 1 \<le> length l'"
        have "l' \<noteq> []" using ne by (cases l') auto
        then obtain c' l'' where l'': "l' = c' # l''" by (cases l') auto
        then have "CHR ''@'' \<in> set (take (n - 2) (tl ?s))" using long by (auto simp: take_Cons')
        then show False using fb(4) by (auto simp: list_all_iff byte_in_def)
      qed
      then show ?thesis using Pair c False by simp
    qed
  qed
qed

text \<open>The characters of a number's two ends a mask shows, if any.\<close>

definition ends_shown :: "string list \<Rightarrow> (string list \<times> string list) option" where
  "ends_shown r =
     (if length r < 8 then None
      else if length r < 11 then Some (take 2 r, drop (length r - 2) r)
      else Some (take 3 r, drop (length r - 4) r))"

text \<open>
  The text a value has: a string's own, an integer's decimal digits, what \<^verbatim>\<open>fmt\<close> prints of the other scalars. A boolean, a
  list and a value the driver gives no text have none.
\<close>

definition value_text :: "(val \<Rightarrow> string option) \<Rightarrow> val \<Rightarrow> string option" where
  "value_text printed v =
     (case v of
        VStr s \<Rightarrow> Some s
      | VInt i \<Rightarrow> Some (show_int i)
      | VFloat _ \<Rightarrow> printed v | VRat _ \<Rightarrow> printed v | VOther _ \<Rightarrow> printed v
      | _ \<Rightarrow> None)"

lemma value_text_simps [simp]:
  "value_text printed (VStr s) = Some s" "value_text printed (VInt i) = Some (show_int i)"
  "value_text printed (VBool b) = None" "value_text printed (VList vs) = None"
  by (simp_all add: value_text_def)

lemma coerceString_text: "coerceString printed v = value_text printed v"
  by (cases v) (simp_all add: value_text_def)

lemma maskDigits_ends:
  "maskDigits printed v = VStr (case value_text printed v of None \<Rightarrow> redacted
     | Some s \<Rightarrow> (case ends_shown (runes s) of None \<Rightarrow> redacted | Some (a, b) \<Rightarrow> concat a @ digitsMask @ concat b))"
  by (simp add: maskDigits_def coerceString_text ends_shown_def Let_def split: option.splits)

lemma maskEmail_at:
  assumes "value_text printed v = Some (l @ CHR ''@'' # d)" and "l \<noteq> []" and "CHR ''@'' \<notin> set l"
  shows "maskEmail printed v =
    VStr (take (fst (DecodeRuneInString (l @ CHR ''@'' # d))) l @ redacted @ CHR ''@'' # d)"
proof -
  have "takeWhile (\<lambda>c. c \<noteq> CHR ''@'') (l @ CHR ''@'' # d) = l" using assms(3) by (induction l) auto
  then show ?thesis using assms first_rune_within [OF assms(2,3), of d] by (simp add: maskEmail_def coerceString_text)
qed

lemma maskEmail_none:
  assumes "value_text printed v = None \<or> (\<exists>s. value_text printed v = Some s \<and> s \<noteq> [] \<and> (CHR ''@'' \<notin> set s \<or> hd s = CHR ''@''))"
  shows "maskEmail printed v = VStr redacted"
proof (cases "value_text printed v")
  case (Some s)
  then have s: "s \<noteq> []" "CHR ''@'' \<notin> set s \<or> hd s = CHR ''@''" using assms by auto
  let ?n = "length (takeWhile (\<lambda>c. c \<noteq> CHR ''@'') s)"
  have "?n = length s \<or> ?n = 0"
  proof (cases "CHR ''@'' \<in> set s")
    case True
    then show ?thesis using s by (cases s) auto
  next
    case False
    then have "takeWhile (\<lambda>c. c \<noteq> CHR ''@'') s = s" by (auto simp: takeWhile_eq_all_conv)
    then show ?thesis by (metis (no_types, lifting))
  qed
  then show ?thesis using Some s(1) by (simp add: maskEmail_def coerceString_text Let_def)
qed (simp add: maskEmail_def coerceString_text)

text \<open>
  C17: A mask shows of a value no more than it says, whatever the type of the value that is not null. A secret shows
  nothing. A telephone or card number, held as text or as a number, is shown as the first and last characters
  of its text with a fixed mask between: two values whose texts have the same ends are masked alike, whatever and however
  long their middles; at most seven characters are kept, at most half of fewer than eleven and none of fewer than
  eight. Of an address the domain and one character are shown, which lies before the \<^verbatim>\<open>@\<close> for every encoding, valid or
  not; a text without \<^verbatim>\<open>@\<close>, or that begins with it, shows nothing. A value that has no text shows nothing.
\<close>

theorem mask_hides:
  assumes "v \<noteq> VNull" and "w \<noteq> VNull" and "rule = ''phone'' \<or> rule = ''idcard''"
  shows "rule_Mask (builtins printed) ''secret'' v = VStr redacted \<and>
   (value_text printed v = None \<longrightarrow>
      rule_Mask (builtins printed) rule v = VStr redacted \<and> rule_Mask (builtins printed) ''email'' v = VStr redacted) \<and>
   (value_text printed v = Some s \<and> value_text printed w = Some t \<and> ends_shown (runes s) = ends_shown (runes t) \<longrightarrow>
      rule_Mask (builtins printed) rule v = rule_Mask (builtins printed) rule w) \<and>
   (value_text printed v = Some s \<and> length (runes s) < 8 \<longrightarrow> rule_Mask (builtins printed) rule v = VStr redacted) \<and>
   (value_text printed v = Some s \<and> ends_shown (runes s) = Some (a, b) \<longrightarrow>
      rule_Mask (builtins printed) rule v = VStr (concat a @ ''****'' @ concat b) \<and>
      length a + length b \<le> 7 \<and> (2 * (length a + length b) \<le> length (runes s) \<or> length (runes s) \<ge> 11)) \<and>
   (value_text printed v = Some s \<and> s \<noteq> [] \<and> (CHR ''@'' \<notin> set s \<or> hd s = CHR ''@'') \<longrightarrow>
      rule_Mask (builtins printed) ''email'' v = VStr redacted) \<and>
   (value_text printed v = Some (l @ CHR ''@'' # d) \<and> l \<noteq> [] \<and> CHR ''@'' \<notin> set l \<longrightarrow>
      fst (DecodeRuneInString (l @ CHR ''@'' # d)) \<le> length l \<and>
      rule_Mask (builtins printed) ''email'' v =
        VStr (take (fst (DecodeRuneInString (l @ CHR ''@'' # d))) l @ ''***'' @ CHR ''@'' # d))"
proof -
  have rules: "rule_Mask (builtins printed) ''secret'' v = VStr redacted"
    "rule_Mask (builtins printed) rule v = maskDigits printed v" "rule_Mask (builtins printed) rule w = maskDigits printed w"
    "rule_Mask (builtins printed) ''email'' v = maskEmail printed v"
    using assms by (auto simp: rule_Mask_def builtins_def)
  show ?thesis
    unfolding rules
  proof (intro conjI impI)
    show "VStr redacted = VStr redacted" ..
    show "maskDigits printed v = VStr redacted" "maskEmail printed v = VStr redacted" if "value_text printed v = None"
      using that maskEmail_none [of printed v] by (simp_all add: maskDigits_ends)
    show "maskDigits printed v = maskDigits printed w"
      if "value_text printed v = Some s \<and> value_text printed w = Some t \<and> ends_shown (runes s) = ends_shown (runes t)"
      using that by (simp add: maskDigits_ends)
    show "maskDigits printed v = VStr redacted" if "value_text printed v = Some s \<and> length (runes s) < 8"
      using that by (simp add: maskDigits_ends ends_shown_def)
    assume ends: "value_text printed v = Some s \<and> ends_shown (runes s) = Some (a, b)"
    then show "maskDigits printed v = VStr (concat a @ ''****'' @ concat b)" by (simp add: maskDigits_ends digitsMask_def)
    show "length a + length b \<le> 7" "2 * (length a + length b) \<le> length (runes s) \<or> length (runes s) \<ge> 11"
      using conjunct2 [OF ends] by (auto simp: ends_shown_def split: if_splits)
  next
    assume "value_text printed v = Some s \<and> s \<noteq> [] \<and> (CHR ''@'' \<notin> set s \<or> hd s = CHR ''@'')"
    then show "maskEmail printed v = VStr redacted" by (intro maskEmail_none) blast
  next
    assume k: "value_text printed v = Some (l @ CHR ''@'' # d) \<and> l \<noteq> [] \<and> CHR ''@'' \<notin> set l"
    show "fst (DecodeRuneInString (l @ CHR ''@'' # d)) \<le> length l" by (rule first_rune_within) (use k in simp_all)
    show "maskEmail printed v = VStr (take (fst (DecodeRuneInString (l @ CHR ''@'' # d))) l @ ''***'' @ CHR ''@'' # d)"
      using maskEmail_at [of printed v l d] k unfolding redacted_def by blast
  qed
qed

theorem mask_hides_witness:
  "rule_Mask (builtins (\<lambda>_. None)) ''phone'' (VInt 13800001234) = rule_Mask (builtins (\<lambda>_. None)) ''phone'' (VStr ''138999991234'') \<and>
   rule_Mask (builtins (\<lambda>_. None)) ''email'' (VStr (''ada'' @ CHR ''@'' # ''x.org'')) = VStr ''a***@x.org''"
proof
  have nn: "VInt i \<noteq> VNull" "VStr s \<noteq> VNull" for i s by simp_all
  have "show_int 13800001234 = ''13800001234''" by (simp add: show_int_def show_nat.simps digit_def)
  moreover have "ends_shown (runes ''13800001234'') = ends_shown (runes ''138999991234'')" by code_simp
  ultimately have "ends_shown (runes (show_int 13800001234)) = ends_shown (runes ''138999991234'')" by (simp only:)
  then have "value_text (\<lambda>_. None) (VInt 13800001234) = Some (show_int 13800001234) \<and>
      value_text (\<lambda>_. None) (VStr ''138999991234'') = Some ''138999991234'' \<and>
      ends_shown (runes (show_int 13800001234)) = ends_shown (runes ''138999991234'')"
    by (intro conjI value_text_simps)
  then show "rule_Mask (builtins (\<lambda>_. None)) ''phone'' (VInt 13800001234) = rule_Mask (builtins (\<lambda>_. None)) ''phone'' (VStr ''138999991234'')"
    by (rule mp [OF conjunct1 [OF conjunct2 [OF conjunct2 [OF mask_hides [OF nn(1) nn(2) disjI1 [OF refl]]]]]])
  have "fst (DecodeRuneInString (''ada'' @ CHR ''@'' # ''x.org'')) = 1" by code_simp
  then show "rule_Mask (builtins (\<lambda>_. None)) ''email'' (VStr (''ada'' @ CHR ''@'' # ''x.org'')) = VStr ''a***@x.org''"
    using mask_hides [of "VStr (''ada'' @ CHR ''@'' # ''x.org'')" "VStr []" "''phone''" "\<lambda>_. None" _ _ _ _ "''ada''" "''x.org''"]
    by (auto simp del: DecodeRuneInString.simps)
qed

end
