(* ===== verification/Revision.thy ===== *)
theory Revision
  imports Gostd
begin

text \<open>
  The revisions of the configuration, \<^verbatim>\<open>src/core/revision\<close>: a revision, its hash and its states (\<^verbatim>\<open>revision.go\<close>), and the
  store in memory that is the reference of its state machine (\<^verbatim>\<open>memory.go\<close>). Every method of the store holds its mutex
  throughout, but for the check of an imported history, which reads only its argument. A time is a number of
  microseconds, \<open>None\<close> the zero time, which comes before every reading of the clock; the reading is an argument.
  The map of revisions is an association list by ID, in the order in which Go ranges over it. A copy of a revision is the
  revision itself, as values are never shared here.
\<close>

section \<open>Revisions\<close>

datatype rev_state = StateDraft | StatePublished | StateSuperseded | StateRolledBack | StateDiscarded | StateUnknown string

definition Unpublished :: "rev_state \<Rightarrow> bool" where
  "Unpublished s \<longleftrightarrow> s = StateDraft \<or> s = StateDiscarded"

definition state_Valid :: "rev_state \<Rightarrow> bool" where
  "state_Valid s = (case s of StateUnknown _ \<Rightarrow> False | _ \<Rightarrow> True)"

datatype rev_error = RevNotFound | NoPublished | RevConflict | InvalidState | HashMismatch | NoRollback | NotEmpty

record revision =
  rv_ID :: int
  rv_ParentID :: int
  rv_ContentHash :: string
  rv_Payload :: string
  rv_State :: rev_state
  rv_Author :: string
  rv_Comment :: string
  rv_CreatedAt :: "int option"
  rv_PublishedAt :: "int option"

definition zero_revision :: revision where
  "zero_revision = \<lparr>rv_ID = 0, rv_ParentID = 0, rv_ContentHash = [], rv_Payload = [], rv_State = StateUnknown [],
     rv_Author = [], rv_Comment = [], rv_CreatedAt = None, rv_PublishedAt = None\<rparr>"

definition Hash :: "string \<Rightarrow> string" where
  "Hash payload = ''sha256:'' @ sha256_hex payload"

definition rev_Verify :: "revision \<Rightarrow> bool" where
  "rev_Verify r \<longleftrightarrow> Hash (rv_Payload r) = rv_ContentHash r"

definition rev_Summary :: "revision \<Rightarrow> revision" where
  "rev_Summary r = r\<lparr>rv_Payload := []\<rparr>"

record rev_draft =
  dr_ParentID :: int
  dr_Payload :: string
  dr_Author :: string
  dr_Comment :: string

text \<open>\<^verbatim>\<open>time.After\<close>: the zero time comes before every other.\<close>

definition time_after :: "int option \<Rightarrow> int option \<Rightarrow> bool" where
  "time_after a b = (case (a, b) of (Some x, Some y) \<Rightarrow> x > y | (Some _, None) \<Rightarrow> True | _ \<Rightarrow> False)"

text \<open>
  The revision a draft builds on: the loop over its ancestors, which remembers those it has seen. \<open>get\<close> reads one
  revision. A getter may answer for ever, so not returning is \<open>None\<close>.
\<close>

partial_function (option) BasedOn_loop ::
  "(int \<Rightarrow> rev_error + revision) \<Rightarrow> int set \<Rightarrow> revision \<Rightarrow> (rev_error + int) option" where
  "BasedOn_loop get seen r =
     (if \<not> Unpublished (rv_State r) then Some (Inr (rv_ID r))
      else if rv_ParentID r = 0 \<or> rv_ParentID r \<in> seen then Some (Inr 0)
      else case get (rv_ParentID r) of
        Inl err \<Rightarrow> Some (Inl err)
      | Inr parent \<Rightarrow> BasedOn_loop get (insert (rv_ParentID r) seen) parent)"

definition BasedOn :: "(int \<Rightarrow> rev_error + revision) \<Rightarrow> revision \<Rightarrow> (rev_error + int) option" where
  "BasedOn get r = BasedOn_loop get {} r"

fun history_loop :: "int set \<Rightarrow> nat \<Rightarrow> revision list \<Rightarrow> rev_error + nat" where
  "history_loop seen published [] = Inr published"
| "history_loop seen published (r # revs) =
     (if rv_ID r \<le> 0 \<or> rv_ID r \<in> seen then Inl InvalidState
      else if \<not> state_Valid (rv_State r) then Inl InvalidState
      else if \<not> rev_Verify r then Inl HashMismatch
      else history_loop (insert (rv_ID r) seen) (if rv_State r = StatePublished then published + 1 else published) revs)"

definition ValidateHistory :: "revision list \<Rightarrow> rev_error + unit" where
  "ValidateHistory revs =
     bindR (history_loop {} 0 revs) (\<lambda>published. if published > 1 then Inl InvalidState else Inr ())"

text \<open>The newest superseded revision with another content than \<open>current\<close>; \<open>best\<close> is the zero revision when there is none yet.\<close>

definition better_target :: "revision \<Rightarrow> revision \<Rightarrow> revision \<Rightarrow> revision" where
  "better_target current r best =
     (if rv_State r \<noteq> StateSuperseded \<or> rv_ContentHash r = rv_ContentHash current then best
      else if rv_ID best = 0 \<or> time_after (rv_PublishedAt r) (rv_PublishedAt best) \<or>
              rv_PublishedAt r = rv_PublishedAt best \<and> rv_ID r > rv_ID best then r
      else best)"

definition RollbackTarget :: "revision list \<Rightarrow> revision \<Rightarrow> int \<Rightarrow> rev_error + revision" where
  "RollbackTarget revs current target =
     (if target \<noteq> 0 then
        (case find (\<lambda>r. rv_ID r = target) revs of
           Some r \<Rightarrow> if Unpublished (rv_State r) then Inl InvalidState else Inr r
         | None \<Rightarrow> Inl RevNotFound)
      else
        let best = fold (better_target current) revs zero_revision
        in if rv_ID best = 0 then Inl NoRollback else Inr best)"

section \<open>The store\<close>

record rev_store =
  rs_revs :: "(int \<times> revision) list"
  rs_nextID :: int
  rs_seq :: int

definition rev_NewMemoryStore :: rev_store where
  "rev_NewMemoryStore = \<lparr>rs_revs = [], rs_nextID = 1, rs_seq = 0\<rparr>"

definition rev_Create :: "int \<Rightarrow> rev_draft \<Rightarrow> rev_store \<Rightarrow> revision \<times> rev_store" where
  "rev_Create now d m =
     (let r = \<lparr>rv_ID = rs_nextID m, rv_ParentID = dr_ParentID d, rv_ContentHash = Hash (dr_Payload d),
               rv_Payload = dr_Payload d, rv_State = StateDraft, rv_Author = dr_Author d, rv_Comment = dr_Comment d,
               rv_CreatedAt = Some now, rv_PublishedAt = None\<rparr>
      in (r, m\<lparr>rs_revs := AList.update (rv_ID r) r (rs_revs m), rs_nextID := wrap64 (rs_nextID m + 1),
               rs_seq := wrap64 (rs_seq m + 1)\<rparr>))"

definition rev_Get :: "rev_store \<Rightarrow> int \<Rightarrow> rev_error + revision" where
  "rev_Get m i = (case map_of (rs_revs m) i of None \<Rightarrow> Inl RevNotFound | Some r \<Rightarrow> Inr r)"

definition rev_List :: "int \<Rightarrow> rev_store \<Rightarrow> revision list" where
  "rev_List limit m =
     (let out = rev (sort_key rv_ID (map (\<lambda>(_, r). rev_Summary r) (rs_revs m)))
      in if limit > 0 \<and> int (length out) > limit then take (nat limit) out else out)"

definition publishedLocked :: "rev_store \<Rightarrow> revision option" where
  "publishedLocked m = find (\<lambda>r. rv_State r = StatePublished) (map snd (rs_revs m))"

definition rev_Published :: "rev_store \<Rightarrow> rev_error + revision" where
  "rev_Published m = (case publishedLocked m of Some r \<Rightarrow> Inr r | None \<Rightarrow> Inl NoPublished)"

definition PublishedSummary :: "rev_store \<Rightarrow> rev_error + revision" where
  "PublishedSummary m = (case publishedLocked m of Some r \<Rightarrow> Inr (rev_Summary r) | None \<Rightarrow> Inl NoPublished)"

definition checkCurrentLocked :: "int \<Rightarrow> rev_store \<Rightarrow> rev_error + revision" where
  "checkCurrentLocked expected m =
     (let current = (case publishedLocked m of Some r \<Rightarrow> r | None \<Rightarrow> zero_revision)
      in if rv_ID current \<noteq> expected then Inl RevConflict else Inr current)"

definition rev_Publish :: "int \<Rightarrow> int \<Rightarrow> int \<Rightarrow> rev_store \<Rightarrow> rev_error + revision \<times> rev_store" where
  "rev_Publish now i expectedCurrent m =
     (case map_of (rs_revs m) i of
        None \<Rightarrow> Inl RevNotFound
      | Some target \<Rightarrow>
          if rv_State target \<noteq> StateDraft then Inl InvalidState
          else bindR (checkCurrentLocked expectedCurrent m) (\<lambda>current.
            let revs = (if rv_ID current \<noteq> 0
                  then AList.update (rv_ID current) (current\<lparr>rv_State := StateSuperseded\<rparr>) (rs_revs m) else rs_revs m);
                target = target\<lparr>rv_State := StatePublished, rv_PublishedAt := Some now\<rparr>
            in Inr (target, m\<lparr>rs_revs := AList.update i target revs, rs_seq := wrap64 (rs_seq m + 1)\<rparr>)))"

definition rev_Discard :: "int \<Rightarrow> rev_store \<Rightarrow> rev_error + revision \<times> rev_store" where
  "rev_Discard i m =
     (case map_of (rs_revs m) i of
        None \<Rightarrow> Inl RevNotFound
      | Some target \<Rightarrow>
          if rv_State target \<noteq> StateDraft then Inl InvalidState
          else
            let target = target\<lparr>rv_State := StateDiscarded\<rparr>
            in Inr (target, m\<lparr>rs_revs := AList.update i target (rs_revs m), rs_seq := wrap64 (rs_seq m + 1)\<rparr>))"

definition rev_Rollback ::
  "int \<Rightarrow> int \<Rightarrow> int \<Rightarrow> string \<Rightarrow> string \<Rightarrow> rev_store \<Rightarrow> rev_error + revision \<times> rev_store" where
  "rev_Rollback now expectedCurrent target author comment m =
     (if expectedCurrent = 0 then Inl NoPublished
      else bindR (checkCurrentLocked expectedCurrent m) (\<lambda>current.
        bindR (RollbackTarget (map snd (rs_revs m)) current target) (\<lambda>source.
          let revs = AList.update (rv_ID current) (current\<lparr>rv_State := StateRolledBack\<rparr>) (rs_revs m);
              r = \<lparr>rv_ID = rs_nextID m, rv_ParentID = rv_ID source, rv_ContentHash = rv_ContentHash source,
                   rv_Payload = rv_Payload source, rv_State = StatePublished, rv_Author = author, rv_Comment = comment,
                   rv_CreatedAt = Some now, rv_PublishedAt = Some now\<rparr>
          in Inr (r, m\<lparr>rs_revs := AList.update (rv_ID r) r revs, rs_nextID := wrap64 (rs_nextID m + 1),
                       rs_seq := wrap64 (rs_seq m + 1)\<rparr>))))"

definition import_revision :: "revision \<Rightarrow> rev_store \<Rightarrow> rev_store" where
  "import_revision r m =
     m\<lparr>rs_revs := AList.update (rv_ID r) r (rs_revs m),
       rs_nextID := (if rv_ID r \<ge> rs_nextID m then wrap64 (rv_ID r + 1) else rs_nextID m)\<rparr>"

definition ImportHistory :: "revision list \<Rightarrow> rev_store \<Rightarrow> rev_error + rev_store" where
  "ImportHistory revs m =
     bindR (ValidateHistory revs) (\<lambda>_.
       if rs_revs m \<noteq> [] then Inl NotEmpty
       else let m = fold import_revision revs m in Inr (m\<lparr>rs_seq := wrap64 (rs_seq m + 1)\<rparr>))"

text \<open>
  The writes of a store, in any order. The counters are \<^verbatim>\<open>int64\<close>: a store is written fewer than \<open>2^63\<close> times, and a
  history with the largest ID leaves no ID for a later revision.
\<close>

inductive rev_step :: "rev_store \<Rightarrow> rev_store \<Rightarrow> bool" where
  creates: "rs_nextID m < 2 ^ 63 - 1 \<Longrightarrow> rs_seq m < 2 ^ 63 - 1 \<Longrightarrow> rev_step m (snd (rev_Create now d m))"
| publishes: "rs_seq m < 2 ^ 63 - 1 \<Longrightarrow> rev_Publish now i expected m = Inr (r, m') \<Longrightarrow> rev_step m m'"
| discards: "rs_seq m < 2 ^ 63 - 1 \<Longrightarrow> rev_Discard i m = Inr (r, m') \<Longrightarrow> rev_step m m'"
| rolls_back: "rs_nextID m < 2 ^ 63 - 1 \<Longrightarrow> rs_seq m < 2 ^ 63 - 1 \<Longrightarrow>
    rev_Rollback now expected target author comment m = Inr (r, m') \<Longrightarrow> rev_step m m'"
| history: "rs_seq m < 2 ^ 63 - 1 \<Longrightarrow> \<forall>r\<in>set revs. rv_ID r < 2 ^ 63 - 1 \<Longrightarrow> ImportHistory revs m = Inr m' \<Longrightarrow> rev_step m m'"

end
