(* ===== verification/Revision_Props.thy ===== *)
theory Revision_Props
  imports Revision
begin

text \<open>
  What the store of revisions keeps: its invariant and the lifecycle of a revision over every sequence of writes, the
  optimistic check that no write is lost to, and the revision a draft builds on.
\<close>

section \<open>The invariant\<close>

definition rev_ok :: "int \<Rightarrow> int \<Rightarrow> revision \<Rightarrow> bool" where
  "rev_ok n i r \<longleftrightarrow> i = rv_ID r \<and> 0 < i \<and> i < n \<and> rev_Verify r \<and> state_Valid (rv_State r)"

definition all_ok :: "int \<Rightarrow> (int \<rightharpoonup> revision) \<Rightarrow> bool" where
  "all_ok n f \<longleftrightarrow> (\<forall>i r. f i = Some r \<longrightarrow> rev_ok n i r)"

definition none_published :: "(int \<rightharpoonup> revision) \<Rightarrow> bool" where
  "none_published f \<longleftrightarrow> (\<forall>i r. f i = Some r \<longrightarrow> rv_State r \<noteq> StatePublished)"

definition one_published :: "(int \<rightharpoonup> revision) \<Rightarrow> bool" where
  "one_published f \<longleftrightarrow> (\<forall>i j r s. f i = Some r \<longrightarrow> f j = Some s \<longrightarrow> rv_State r = StatePublished \<longrightarrow>
     rv_State s = StatePublished \<longrightarrow> i = j)"

definition rev_inv :: "rev_store \<Rightarrow> bool" where
  "rev_inv m \<longleftrightarrow> distinct (map fst (rs_revs m)) \<and> all_ok (rs_nextID m) (map_of (rs_revs m)) \<and>
     one_published (map_of (rs_revs m)) \<and> 0 < rs_nextID m \<and> rs_nextID m < 2 ^ 63 \<and> 0 \<le> rs_seq m \<and> rs_seq m < 2 ^ 63"

text \<open>The states a revision may pass to in one write.\<close>

definition follows :: "rev_state \<Rightarrow> rev_state \<Rightarrow> bool" where
  "follows a b \<longleftrightarrow> a = b \<or> a = StateDraft \<and> (b = StatePublished \<or> b = StateDiscarded) \<or>
     a = StatePublished \<and> (b = StateSuperseded \<or> b = StateRolledBack)"

text \<open>What one write may change of a revision: its state, and with a publication its time.\<close>

definition rev_evolves :: "revision \<Rightarrow> revision \<Rightarrow> bool" where
  "rev_evolves r r' \<longleftrightarrow> r' = r\<lparr>rv_State := rv_State r', rv_PublishedAt := rv_PublishedAt r'\<rparr> \<and>
     follows (rv_State r) (rv_State r') \<and>
     (rv_PublishedAt r' = rv_PublishedAt r \<or> rv_State r = StateDraft \<and> rv_State r' = StatePublished)"

definition revs_evolve :: "(int \<rightharpoonup> revision) \<Rightarrow> (int \<rightharpoonup> revision) \<Rightarrow> bool" where
  "revs_evolve f g \<longleftrightarrow> (\<forall>i r. f i = Some r \<longrightarrow> (\<exists>r'. g i = Some r' \<and> rev_evolves r r'))"

lemma wrap64_suc: "0 \<le> n \<Longrightarrow> n < 2 ^ 63 - 1 \<Longrightarrow> wrap64 (n + 1) = n + 1"
  by (simp add: wrap64_def)

lemma rev_evolves_refl [simp]: "rev_evolves r r"
  by (simp add: rev_evolves_def follows_def)

lemma revs_evolve_refl: "revs_evolve f f"
  by (simp add: revs_evolve_def)

lemma revs_evolve_new: "revs_evolve f g \<Longrightarrow> f i = None \<Longrightarrow> revs_evolve f (g(i \<mapsto> r))"
  by (auto simp: revs_evolve_def)

lemma revs_evolve_upd: "revs_evolve f g \<Longrightarrow> f i = Some r \<Longrightarrow> rev_evolves r r' \<Longrightarrow> revs_evolve f (g(i \<mapsto> r'))"
  by (auto simp: revs_evolve_def)

lemma revs_evolve_self: "f i = Some r \<Longrightarrow> rev_evolves r r' \<Longrightarrow> revs_evolve f (f(i \<mapsto> r'))"
  by (rule revs_evolve_upd[OF revs_evolve_refl])

lemma all_ok_upd: "all_ok n f \<Longrightarrow> rev_ok n i r \<Longrightarrow> all_ok n (f(i \<mapsto> r))"
  by (auto simp: all_ok_def)

lemma all_ok_mono: "all_ok n f \<Longrightarrow> n \<le> k \<Longrightarrow> all_ok k f"
  by (fastforce simp: all_ok_def rev_ok_def)

lemma all_okD: "all_ok n f \<Longrightarrow> f i = Some r \<Longrightarrow> rev_ok n i r"
  by (simp add: all_ok_def)

lemma all_ok_fresh: "all_ok n f \<Longrightarrow> f n = None"
  by (cases "f n") (auto simp: all_ok_def rev_ok_def)

lemma rev_ok_evolves: "rev_ok n i r \<Longrightarrow> rev_evolves r r' \<Longrightarrow> rev_ok n i r'"
  by (cases r, cases r') (auto simp: rev_ok_def rev_evolves_def follows_def rev_Verify_def state_Valid_def)

lemma stored_ok_evolves:
  "rev_inv m \<Longrightarrow> map_of (rs_revs m) i = Some r \<Longrightarrow> rev_evolves r r' \<Longrightarrow> rev_ok (rs_nextID m) i r'"
  by (metis all_okD rev_inv_def rev_ok_evolves)

lemma one_published_upd: "one_published f \<Longrightarrow> rv_State r \<noteq> StatePublished \<Longrightarrow> one_published (f(i \<mapsto> r))"
  unfolding one_published_def by (metis fun_upd_apply option.inject)

lemma none_published_one: "none_published f \<Longrightarrow> one_published (f(i \<mapsto> r))"
  unfolding one_published_def none_published_def by (metis fun_upd_apply)

lemma one_published_retired:
  "one_published f \<Longrightarrow> f i = Some r \<Longrightarrow> rv_State r = StatePublished \<Longrightarrow> rv_State r' \<noteq> StatePublished \<Longrightarrow>
   none_published (f(i \<mapsto> r'))"
  unfolding one_published_def none_published_def by (metis fun_upd_apply option.inject)

lemma rev_inv_new: "rev_inv rev_NewMemoryStore"
  by (simp add: rev_inv_def rev_NewMemoryStore_def one_published_def all_ok_def)

section \<open>The published revision\<close>

lemma publishedLocked_Some:
  assumes "distinct (map fst (rs_revs m))" "publishedLocked m = Some r"
  shows "rv_State r = StatePublished \<and> (\<exists>i. map_of (rs_revs m) i = Some r)"
proof -
  have "r \<in> set (map snd (rs_revs m))" "rv_State r = StatePublished"
    using find_SomeD[OF assms(2)[unfolded publishedLocked_def]] by blast+
  thus ?thesis using assms(1) by (auto intro: map_of_is_SomeI)
qed

lemma publishedLocked_None: "publishedLocked m = None \<Longrightarrow> none_published (map_of (rs_revs m))"
  by (fastforce simp: publishedLocked_def find_None_iff none_published_def dest: map_of_SomeD)

lemma publishedLocked_current:
  assumes "rev_inv m" "publishedLocked m = Some r"
  shows "map_of (rs_revs m) (rv_ID r) = Some r \<and> rv_State r = StatePublished \<and> 0 < rv_ID r"
proof -
  have d: "distinct (map fst (rs_revs m))" and a: "all_ok (rs_nextID m) (map_of (rs_revs m))"
    using assms(1) by (simp_all add: rev_inv_def)
  obtain i where i: "map_of (rs_revs m) i = Some r" and "rv_State r = StatePublished"
    using publishedLocked_Some[OF d assms(2)] by blast
  thus ?thesis using all_okD[OF a i] by (simp add: rev_ok_def)
qed

lemma publishedLocked_unique:
  assumes "rev_inv m" "map_of (rs_revs m) i = Some r" "rv_State r = StatePublished"
  shows "publishedLocked m = Some r"
proof (cases "publishedLocked m")
  case None
  thus ?thesis using publishedLocked_None[OF None] assms by (simp add: none_published_def)
next
  case (Some s)
  note s = publishedLocked_current[OF assms(1) Some]
  have "i = rv_ID s"
    using assms s unfolding rev_inv_def one_published_def by blast
  thus ?thesis using s assms(2) Some by simp
qed

text \<open>What the check of the current revision tells: the expected one is the published one, or there is none.\<close>

lemma checkCurrentLocked_Inr:
  assumes "rev_inv m" "checkCurrentLocked e m = Inr c"
  shows "(e = 0 \<and> rv_ID c = 0 \<and> publishedLocked m = None) \<or>
         (e = rv_ID c \<and> 0 < e \<and> map_of (rs_revs m) e = Some c \<and> rv_State c = StatePublished)"
  using assms(2) publishedLocked_current[OF assms(1)]
  by (auto simp: checkCurrentLocked_def Let_def zero_revision_def split: option.splits if_splits)

section \<open>Every write keeps the invariant\<close>

text \<open>What a write does: it keeps the invariant, lets every revision evolve and raises the sequence.\<close>

definition rev_writes :: "rev_store \<Rightarrow> rev_store \<Rightarrow> bool" where
  "rev_writes m m' \<longleftrightarrow> rev_inv m' \<and> revs_evolve (map_of (rs_revs m)) (map_of (rs_revs m')) \<and> rs_seq m' = rs_seq m + 1"

lemma rev_writesI:
  assumes "rev_inv m" "rs_seq m < 2 ^ 63 - 1" "rs_seq m' = wrap64 (rs_seq m + 1)"
    and "rs_nextID m \<le> rs_nextID m'" "rs_nextID m' < 2 ^ 63" "distinct (map fst (rs_revs m'))"
    and "all_ok (rs_nextID m') (map_of (rs_revs m'))" "one_published (map_of (rs_revs m'))"
    and "revs_evolve (map_of (rs_revs m)) (map_of (rs_revs m'))"
  shows "rev_writes m m'"
  using assms by (simp add: rev_writes_def rev_inv_def wrap64_suc)

lemma Create_writes:
  assumes "rev_inv m" "rs_nextID m < 2 ^ 63 - 1" "rs_seq m < 2 ^ 63 - 1"
  shows "rev_writes m (snd (rev_Create now d m))"
proof (rule rev_writesI[OF assms(1) assms(3)])
  note i = assms(1)[unfolded rev_inv_def]
  have n: "wrap64 (rs_nextID m + 1) = rs_nextID m + 1" using i assms(2) by (simp add: wrap64_suc)
  let ?m = "snd (rev_Create now d m)"
  show "rs_seq ?m = wrap64 (rs_seq m + 1)" "rs_nextID m \<le> rs_nextID ?m" "rs_nextID ?m < 2 ^ 63"
    "distinct (map fst (rs_revs ?m))"
    using i assms(2) n by (simp_all add: rev_Create_def Let_def distinct_update)
  have k: "all_ok (rs_nextID m + 1) (map_of (rs_revs m))" using i by (auto intro: all_ok_mono)
  show "all_ok (rs_nextID ?m) (map_of (rs_revs ?m))"
    using k i n by (simp add: rev_Create_def Let_def map_of_update all_ok_upd rev_ok_def rev_Verify_def state_Valid_def
        del: fun_upd_apply)
  show "one_published (map_of (rs_revs ?m))"
    using i by (simp add: rev_Create_def Let_def map_of_update one_published_upd del: fun_upd_apply)
  have "map_of (rs_revs m) (rs_nextID m) = None" using i by (blast intro: all_ok_fresh)
  thus "revs_evolve (map_of (rs_revs m)) (map_of (rs_revs ?m))"
    by (simp add: rev_Create_def Let_def map_of_update revs_evolve_new revs_evolve_refl del: fun_upd_apply)
qed

lemma Discard_writes:
  assumes "rev_inv m" "rs_seq m < 2 ^ 63 - 1" "rev_Discard i m = Inr (r, m')"
  shows "rev_writes m m'"
proof -
  obtain t where t: "map_of (rs_revs m) i = Some t" "rv_State t = StateDraft"
    and m': "m' = m\<lparr>rs_revs := AList.update i (t\<lparr>rv_State := StateDiscarded\<rparr>) (rs_revs m), rs_seq := wrap64 (rs_seq m + 1)\<rparr>"
    using assms(3) by (auto simp: rev_Discard_def Let_def split: option.splits if_splits)
  have e: "rev_evolves t (t\<lparr>rv_State := StateDiscarded\<rparr>)" using t(2) by (simp add: rev_evolves_def follows_def)
  note iv = assms(1)[unfolded rev_inv_def]
  have k: "rev_ok (rs_nextID m) i (t\<lparr>rv_State := StateDiscarded\<rparr>)"
    by (rule stored_ok_evolves[OF assms(1) t(1) e])
  show ?thesis
    by (rule rev_writesI[OF assms(1,2)])
       (use iv k t e in \<open>simp_all add: m' map_of_update distinct_update all_ok_upd one_published_upd
          revs_evolve_self[where f = "map_of (rs_revs m)", OF t(1)] del: fun_upd_apply\<close>)
qed

text \<open>A publication: the revision that was current is retired, unless there was none, and another takes its place.\<close>

definition retire :: "rev_state \<Rightarrow> revision \<Rightarrow> (int \<times> revision) list \<Rightarrow> (int \<times> revision) list" where
  "retire s c revs = (if rv_ID c \<noteq> 0 then AList.update (rv_ID c) (c\<lparr>rv_State := s\<rparr>) revs else revs)"

lemma retire_facts:
  assumes "rev_inv m" "checkCurrentLocked e m = Inr c" "s = StateSuperseded \<or> s = StateRolledBack"
  shows "distinct (map fst (retire s c (rs_revs m)))" "all_ok (rs_nextID m) (map_of (retire s c (rs_revs m)))"
    "none_published (map_of (retire s c (rs_revs m)))"
    "revs_evolve (map_of (rs_revs m)) (map_of (retire s c (rs_revs m)))"
proof -
  note iv = assms(1)[unfolded rev_inv_def]
  have *: "distinct (map fst (retire s c (rs_revs m))) \<and> all_ok (rs_nextID m) (map_of (retire s c (rs_revs m))) \<and>
    none_published (map_of (retire s c (rs_revs m))) \<and>
    revs_evolve (map_of (rs_revs m)) (map_of (retire s c (rs_revs m)))"
  proof (cases "rv_ID c = 0")
    case True
    hence "publishedLocked m = None" using checkCurrentLocked_Inr[OF assms(1,2)] by auto
    thus ?thesis using True iv publishedLocked_None by (simp add: retire_def revs_evolve_refl)
  next
    case False
    hence c: "map_of (rs_revs m) (rv_ID c) = Some c" "rv_State c = StatePublished"
      using checkCurrentLocked_Inr[OF assms(1,2)] by auto
    let ?c = "c\<lparr>rv_State := s\<rparr>"
    have e: "rev_evolves c ?c" using assms(3) c(2) by (auto simp: rev_evolves_def follows_def)
    have k: "rev_ok (rs_nextID m) (rv_ID c) ?c" by (rule stored_ok_evolves[OF assms(1) c(1) e])
    have u: "rv_State ?c \<noteq> StatePublished" using assms(3) by auto
    show ?thesis
      using False iv all_ok_upd[OF _ k] one_published_retired[where f = "map_of (rs_revs m)", OF _ c u] revs_evolve_self[where f = "map_of (rs_revs m)", OF c(1) e]
      by (simp add: retire_def map_of_update distinct_update del: fun_upd_apply)
  qed
  show "distinct (map fst (retire s c (rs_revs m)))" "all_ok (rs_nextID m) (map_of (retire s c (rs_revs m)))"
    "none_published (map_of (retire s c (rs_revs m)))"
    "revs_evolve (map_of (rs_revs m)) (map_of (retire s c (rs_revs m)))"
    using * by blast+
qed

lemma Publish_cases:
  assumes "rev_Publish now i e m = Inr (r, m')"
  obtains t c where "map_of (rs_revs m) i = Some t" "rv_State t = StateDraft" "checkCurrentLocked e m = Inr c"
    "r = t\<lparr>rv_State := StatePublished, rv_PublishedAt := Some now\<rparr>"
    "m' = m\<lparr>rs_revs := AList.update i r (retire StateSuperseded c (rs_revs m)), rs_seq := wrap64 (rs_seq m + 1)\<rparr>"
proof -
  obtain t where t: "map_of (rs_revs m) i = Some t" "rv_State t = StateDraft"
    using assms by (auto simp: rev_Publish_def split: option.splits if_splits)
  obtain c where c: "checkCurrentLocked e m = Inr c"
    using assms t by (cases "checkCurrentLocked e m") (simp_all add: rev_Publish_def)
  show thesis
    by (rule that[OF t c]) (use assms t c in \<open>auto simp: rev_Publish_def retire_def Let_def\<close>)
qed

lemma Publish_writes:
  assumes "rev_inv m" "rs_seq m < 2 ^ 63 - 1" "rev_Publish now i e m = Inr (r, m')"
  shows "rev_writes m m'"
  using assms(3)
proof (cases rule: Publish_cases)
  case (1 t c)
  note iv = assms(1)[unfolded rev_inv_def]
  note rt = retire_facts[OF assms(1) 1(3), of StateSuperseded, simplified]
  have e: "rev_evolves t r" using 1 by (simp add: rev_evolves_def follows_def)
  have k: "rev_ok (rs_nextID m) i r" by (rule stored_ok_evolves[OF assms(1) 1(1) e])
  show ?thesis
    by (rule rev_writesI[OF assms(1,2)])
       (use iv in \<open>simp_all add: 1(5) map_of_update distinct_update rt all_ok_upd[OF rt(2) k]
          none_published_one[OF rt(3)] revs_evolve_upd[where f = "map_of (rs_revs m)", OF rt(4) 1(1) e] del: fun_upd_apply\<close>)
qed

lemma better_target_either: "better_target c r b = b \<or> better_target c r b = r"
  by (simp add: better_target_def)

lemma better_target_among: "fold (better_target c) revs b \<in> insert b (set revs)"
proof (induction revs arbitrary: b)
  case (Cons r revs)
  show ?case using Cons[of "better_target c r b"] better_target_either[of c r b] by auto
qed simp

lemma RollbackTarget_among: "RollbackTarget revs c t = Inr r \<Longrightarrow> r \<in> set revs"
  using better_target_among[of c revs zero_revision]
  by (auto simp: RollbackTarget_def Let_def zero_revision_def dest: find_SomeD split: if_splits option.splits)

lemma Rollback_cases:
  assumes "rev_Rollback now e target author comment m = Inr (r, m')"
  obtains c q where "checkCurrentLocked e m = Inr c" "e \<noteq> 0" "RollbackTarget (map snd (rs_revs m)) c target = Inr q"
    "r = \<lparr>rv_ID = rs_nextID m, rv_ParentID = rv_ID q, rv_ContentHash = rv_ContentHash q,
          rv_Payload = rv_Payload q, rv_State = StatePublished, rv_Author = author, rv_Comment = comment,
          rv_CreatedAt = Some now, rv_PublishedAt = Some now\<rparr>"
    "m' = m\<lparr>rs_revs := AList.update (rs_nextID m) r (AList.update (rv_ID c) (c\<lparr>rv_State := StateRolledBack\<rparr>) (rs_revs m)),
           rs_nextID := wrap64 (rs_nextID m + 1), rs_seq := wrap64 (rs_seq m + 1)\<rparr>"
proof -
  have e: "e \<noteq> 0" using assms by (auto simp: rev_Rollback_def)
  obtain c where c: "checkCurrentLocked e m = Inr c"
    using assms e by (cases "checkCurrentLocked e m") (simp_all add: rev_Rollback_def)
  obtain q where q: "RollbackTarget (map snd (rs_revs m)) c target = Inr q"
    using assms e c by (cases "RollbackTarget (map snd (rs_revs m)) c target") (simp_all add: rev_Rollback_def)
  show thesis
    by (rule that[OF c e q]) (use assms c e q in \<open>auto simp: rev_Rollback_def Let_def\<close>)
qed

lemma stored_verifies:
  assumes "rev_inv m" "r \<in> set (map snd (rs_revs m))"
  shows "rev_Verify r"
proof -
  obtain i where "(i, r) \<in> set (rs_revs m)" using assms(2) by auto
  hence "map_of (rs_revs m) i = Some r" using assms(1) by (simp add: rev_inv_def)
  thus ?thesis using stored_ok_evolves[OF assms(1) _ rev_evolves_refl] by (auto simp: rev_ok_def)
qed

lemma Rollback_writes:
  assumes "rev_inv m" "rs_nextID m < 2 ^ 63 - 1" "rs_seq m < 2 ^ 63 - 1"
    and "rev_Rollback now e target author comment m = Inr (r, m')"
  shows "rev_writes m m'"
  using assms(4)
proof (cases rule: Rollback_cases)
  case (1 c q)
  note iv = assms(1)[unfolded rev_inv_def]
  have n: "wrap64 (rs_nextID m + 1) = rs_nextID m + 1" using iv assms(2) by (simp add: wrap64_suc)
  have "rv_ID c \<noteq> 0" using checkCurrentLocked_Inr[OF assms(1) 1(1)] 1(2) by auto
  hence m': "m' = m\<lparr>rs_revs := AList.update (rs_nextID m) r (retire StateRolledBack c (rs_revs m)),
      rs_nextID := rs_nextID m + 1, rs_seq := wrap64 (rs_seq m + 1)\<rparr>"
    using 1(5) n by (simp add: retire_def)
  note rt = retire_facts[OF assms(1) 1(1), of StateRolledBack, simplified]
  have "rev_Verify q" by (rule stored_verifies[OF assms(1) RollbackTarget_among[OF 1(3)]])
  hence k: "rev_ok (rs_nextID m + 1) (rs_nextID m) r"
    using iv 1(4) by (simp add: rev_ok_def rev_Verify_def state_Valid_def)
  have a: "all_ok (rs_nextID m + 1) (map_of (retire StateRolledBack c (rs_revs m)))"
    by (rule all_ok_mono[OF rt(2)]) simp
  have f: "map_of (rs_revs m) (rs_nextID m) = None" using iv by (blast intro: all_ok_fresh)
  show ?thesis
    by (rule rev_writesI[OF assms(1,3)])
       (use iv assms(2) in \<open>simp_all add: m' map_of_update distinct_update rt all_ok_upd[OF a k]
          none_published_one[OF rt(3)] revs_evolve_new[where f = "map_of (rs_revs m)", OF rt(4) f] del: fun_upd_apply\<close>)
qed

lemma history_loop_Inr:
  "history_loop seen p revs = Inr q \<Longrightarrow> distinct (map rv_ID revs) \<and> rv_ID ` set revs \<inter> seen = {} \<and>
     (\<forall>r\<in>set revs. 0 < rv_ID r \<and> rev_Verify r \<and> state_Valid (rv_State r)) \<and>
     q = p + length (filter (\<lambda>r. rv_State r = StatePublished) revs)"
  by (induction seen p revs rule: history_loop.induct) (auto split: if_splits)

lemma ValidateHistory_Inr:
  assumes "ValidateHistory revs = Inr u"
  shows "distinct (map rv_ID revs)" "\<forall>r\<in>set revs. 0 < rv_ID r \<and> rev_Verify r \<and> state_Valid (rv_State r)"
    "length (filter (\<lambda>r. rv_State r = StatePublished) revs) \<le> 1"
proof -
  obtain q where q: "history_loop {} 0 revs = Inr q" "q \<le> 1"
    using assms by (auto simp: ValidateHistory_def bindR_eq_Inr split: if_splits)
  show "distinct (map rv_ID revs)" "\<forall>r\<in>set revs. 0 < rv_ID r \<and> rev_Verify r \<and> state_Valid (rv_State r)"
    "length (filter (\<lambda>r. rv_State r = StatePublished) revs) \<le> 1"
    using history_loop_Inr[OF q(1)] q(2) by auto
qed

lemma update_fresh: "k \<notin> fst ` set xs \<Longrightarrow> AList.update k v xs = xs @ [(k, v)]"
  by (induction xs) auto

lemma import_fold:
  assumes "distinct (map rv_ID revs)" "rv_ID ` set revs \<inter> fst ` set (rs_revs m) = {}"
    and "\<forall>r\<in>set revs. 0 < rv_ID r \<and> rv_ID r < 2 ^ 63 - 1" "rs_nextID m < 2 ^ 63"
  shows "rs_revs (fold import_revision revs m) = rs_revs m @ map (\<lambda>r. (rv_ID r, r)) revs \<and>
    rs_nextID m \<le> rs_nextID (fold import_revision revs m) \<and> rs_nextID (fold import_revision revs m) < 2 ^ 63 \<and>
    (\<forall>r\<in>set revs. rv_ID r < rs_nextID (fold import_revision revs m)) \<and>
    rs_seq (fold import_revision revs m) = rs_seq m"
  using assms
proof (induction revs arbitrary: m)
  case Nil
  thus ?case by simp
next
  case (Cons r revs)
  let ?m = "import_revision r m"
  have "rs_revs ?m = rs_revs m @ [(rv_ID r, r)]"
    using Cons.prems(2) by (simp add: import_revision_def update_fresh)
  moreover have "rs_nextID m \<le> rs_nextID ?m" "rv_ID r < rs_nextID ?m" "rs_nextID ?m < 2 ^ 63" "rs_seq ?m = rs_seq m"
    using Cons.prems(3,4) by (auto simp: import_revision_def wrap64_suc)
  moreover have "rv_ID ` set revs \<inter> fst ` set (rs_revs ?m) = {}"
    using Cons.prems(1,2) calculation(1) by auto
  ultimately show ?case using Cons.IH[of ?m] Cons.prems(1,3) by auto
qed

lemma single_published:
  assumes "length (filter (\<lambda>r. rv_State r = StatePublished) revs) \<le> 1"
  shows "one_published (map_of (map (\<lambda>r. (rv_ID r, r)) revs))"
  unfolding one_published_def
proof (intro allI impI)
  fix i j r s
  assume r: "map_of (map (\<lambda>r. (rv_ID r, r)) revs) i = Some r" "rv_State r = StatePublished"
    and s: "map_of (map (\<lambda>r. (rv_ID r, r)) revs) j = Some s" "rv_State s = StatePublished"
  let ?p = "filter (\<lambda>r. rv_State r = StatePublished) revs"
  have "r \<in> set ?p" "s \<in> set ?p" "rv_ID r = i" "rv_ID s = j"
    using map_of_SomeD[OF r(1)] map_of_SomeD[OF s(1)] r(2) s(2) by auto
  moreover have "?p = [] \<or> (\<exists>x. ?p = [x])" using assms by (cases ?p) auto
  ultimately show "i = j" by (metis empty_iff list.set(1) set_ConsD)
qed

lemma ImportHistory_writes:
  assumes "rev_inv m" "rs_seq m < 2 ^ 63 - 1" "\<forall>r\<in>set revs. rv_ID r < 2 ^ 63 - 1" "ImportHistory revs m = Inr m'"
  shows "rs_revs m = []" "rev_writes m m'"
proof -
  let ?m = "fold import_revision revs m"
  obtain u where v: "ValidateHistory revs = Inr u"
    using assms(4) by (cases "ValidateHistory revs") (simp_all add: ImportHistory_def)
  show e: "rs_revs m = []" using assms(4) v by (simp add: ImportHistory_def split: if_splits)
  have m': "m' = ?m\<lparr>rs_seq := wrap64 (rs_seq ?m + 1)\<rparr>"
    using assms(4) v by (simp add: ImportHistory_def Let_def split: if_splits)
  note vh = ValidateHistory_Inr[OF v]
  have f: "rs_revs ?m = map (\<lambda>r. (rv_ID r, r)) revs \<and> rs_nextID m \<le> rs_nextID ?m \<and> rs_nextID ?m < 2 ^ 63 \<and>
      (\<forall>r\<in>set revs. rv_ID r < rs_nextID ?m) \<and> rs_seq ?m = rs_seq m"
    using import_fold[OF vh(1), of m] vh(2) assms(1,3) e by (simp add: rev_inv_def)
  have d: "distinct (map fst (rs_revs ?m))" using vh(1) f by (simp add: comp_def)
  have a: "all_ok (rs_nextID ?m) (map_of (rs_revs ?m))"
    unfolding all_ok_def
  proof (intro allI impI)
    fix i r assume "map_of (rs_revs ?m) i = Some r"
    hence "r \<in> set revs" "i = rv_ID r" using map_of_SomeD[of "rs_revs ?m" i r] f by auto
    thus "rev_ok (rs_nextID ?m) i r" using vh(2) f by (simp add: rev_ok_def)
  qed
  show "rev_writes m m'"
    by (rule rev_writesI[OF assms(1,2)])
       (use f d a single_published[OF vh(3)] e in \<open>simp_all add: m' revs_evolve_def\<close>)
qed

lemma rev_step_writes: "rev_step m m' \<Longrightarrow> rev_inv m \<Longrightarrow> rev_writes m m'"
  by (induction rule: rev_step.induct)
     (blast intro: Create_writes Publish_writes Discard_writes Rollback_writes ImportHistory_writes(2))+

interpretation revisions: transition_system "\<lambda>m. m = rev_NewMemoryStore" rev_step rev_inv
  by unfold_locales (use rev_inv_new rev_step_writes rev_writes_def in blast)+

lemma rev_reach_inv: "rev_step\<^sup>*\<^sup>* rev_NewMemoryStore m \<Longrightarrow> rev_inv m"
  by (rule revisions.reached_ok) simp_all

lemma rev_Get_Inr: "rev_Get m i = Inr r \<longleftrightarrow> map_of (rs_revs m) i = Some r"
  by (simp add: rev_Get_def split: option.splits)

lemma rev_Get_Inl: "rev_Get m i = Inl err \<longleftrightarrow> map_of (rs_revs m) i = None \<and> err = RevNotFound"
  by (auto simp: rev_Get_def split: option.splits)

text \<open>
  C30: the lifecycle of a revision. Over every sequence of creations, publications, discards, rollbacks and imports, no
  write loses a revision or changes its content: only its state changes, from draft to published or discarded and from
  published to superseded or rolled back, and its time only when it is published. Every stored revision is found under
  its own ID and verifies against its hash, at most one is published, and each write raises the sequence.
\<close>

theorem revisions_follow_lifecycle:
  assumes "rev_step\<^sup>*\<^sup>* rev_NewMemoryStore m" "rev_step m m'"
  shows "(\<forall>i r. rev_Get m i = Inr r \<longrightarrow> (\<exists>r'. rev_Get m' i = Inr r' \<and> rev_evolves r r')) \<and>
    (\<forall>i r. rev_Get m' i = Inr r \<longrightarrow> rv_ID r = i \<and> rev_Verify r) \<and>
    (\<forall>i j r s. rev_Get m' i = Inr r \<and> rv_State r = StatePublished \<and> rev_Get m' j = Inr s \<and> rv_State s = StatePublished \<longrightarrow>
       i = j) \<and>
    rs_seq m < rs_seq m'"
proof -
  have w: "rev_writes m m'" by (rule rev_step_writes[OF assms(2) rev_reach_inv[OF assms(1)]])
  hence "all_ok (rs_nextID m') (map_of (rs_revs m'))" "one_published (map_of (rs_revs m'))"
    by (simp_all add: rev_writes_def rev_inv_def)
  thus ?thesis using w
    unfolding rev_Get_Inr rev_writes_def revs_evolve_def one_published_def all_ok_def rev_ok_def by auto
qed

section \<open>Stale writes\<close>

text \<open>The revision \<open>e\<close> a writer saw as the published one has been replaced; \<open>0\<close> when it saw none.\<close>

definition replaced :: "int \<Rightarrow> rev_store \<Rightarrow> bool" where
  "replaced e m \<longleftrightarrow> (if e = 0 then \<not> none_published (map_of (rs_revs m))
     else \<exists>r. map_of (rs_revs m) e = Some r \<and> (rv_State r = StateSuperseded \<or> rv_State r = StateRolledBack))"

lemma published_now: "rv_State r = StatePublished \<Longrightarrow> \<not> none_published (f(i \<mapsto> r))"
  unfolding none_published_def by (metis fun_upd_same)

lemma published_upd: "\<not> none_published f \<Longrightarrow> f i = None \<or> f i = Some r \<and> rv_State r \<noteq> StatePublished \<Longrightarrow>
    \<not> none_published (f(i \<mapsto> r'))"
  unfolding none_published_def by (metis fun_upd_other option.distinct(1) option.inject)

lemma Publish_published: "rev_Publish now i e m = Inr (r, m') \<Longrightarrow> \<not> none_published (map_of (rs_revs m'))"
  by (erule Publish_cases) (simp add: map_of_update published_now del: fun_upd_apply)

lemma Rollback_published: "rev_Rollback now e t author comment m = Inr (r, m') \<Longrightarrow> \<not> none_published (map_of (rs_revs m'))"
  by (erule Rollback_cases) (simp add: map_of_update published_now del: fun_upd_apply)

lemma Discard_published:
  assumes "rev_Discard i m = Inr (r, m')" "\<not> none_published (map_of (rs_revs m))"
  shows "\<not> none_published (map_of (rs_revs m'))"
proof -
  obtain t where t: "map_of (rs_revs m) i = Some t" "rv_State t = StateDraft"
    "rs_revs m' = AList.update i (t\<lparr>rv_State := StateDiscarded\<rparr>) (rs_revs m)"
    using assms(1) by (auto simp: rev_Discard_def Let_def split: option.splits if_splits)
  show ?thesis using published_upd[OF assms(2), of i t] t by (simp add: map_of_update del: fun_upd_apply)
qed

lemma Create_published:
  assumes "rev_inv m" "\<not> none_published (map_of (rs_revs m))"
  shows "\<not> none_published (map_of (rs_revs (snd (rev_Create now d m))))"
  using published_upd[OF assms(2), of "rs_nextID m"] all_ok_fresh[of "rs_nextID m" "map_of (rs_revs m)"] assms(1)
  by (simp add: rev_inv_def rev_Create_def Let_def map_of_update del: fun_upd_apply)

lemma step_published:
  assumes "rev_step m m'" "rev_inv m" "\<not> none_published (map_of (rs_revs m))"
  shows "\<not> none_published (map_of (rs_revs m'))"
  using assms
proof (cases rule: rev_step.cases)
  case (history revs)
  hence "rs_revs m = []" using ImportHistory_writes(1)[OF assms(2)] by blast
  thus ?thesis using assms(3) by (simp add: none_published_def)
qed (auto simp: Create_published dest: Publish_published Discard_published Rollback_published)

lemma step_replaced:
  assumes "rev_step m m'" "rev_inv m" "replaced e m"
  shows "replaced e m'"
proof (cases "e = 0")
  case True
  thus ?thesis using step_published[OF assms(1,2)] assms(3) by (simp add: replaced_def)
next
  case False
  then obtain r where r: "map_of (rs_revs m) e = Some r" "rv_State r = StateSuperseded \<or> rv_State r = StateRolledBack"
    using assms(3) by (auto simp: replaced_def)
  have "revs_evolve (map_of (rs_revs m)) (map_of (rs_revs m'))"
    using rev_step_writes[OF assms(1,2)] by (simp add: rev_writes_def)
  then obtain r' where "map_of (rs_revs m') e = Some r'" "rev_evolves r r'"
    using r(1) unfolding revs_evolve_def by blast
  thus ?thesis using False r(2) by (auto simp: replaced_def rev_evolves_def follows_def)
qed

interpretation stale: transition_system "\<lambda>m. rev_inv m \<and> replaced e m" rev_step "\<lambda>m. rev_inv m \<and> replaced e m" for e
  by unfold_locales (use revisions.moves_ok step_replaced in blast)+

lemma replaced_conflict:
  assumes "rev_inv m" "replaced e m"
  shows "checkCurrentLocked e m = Inl RevConflict"
proof (cases "checkCurrentLocked e m")
  case (Inl err)
  thus ?thesis by (auto simp: checkCurrentLocked_def Let_def split: if_splits)
next
  case (Inr c)
  thus ?thesis using checkCurrentLocked_Inr[OF assms(1) Inr] assms(2) publishedLocked_None
    by (auto simp: replaced_def split: if_splits)
qed

text \<open>A revision is retired under its own ID, which the new current one does not share.\<close>

lemma retire_replaces:
  assumes "rev_inv m" "checkCurrentLocked e m = Inr c" "s = StateSuperseded \<or> s = StateRolledBack" "i \<noteq> e"
    and "rs_revs m' = AList.update i r (retire s c (rs_revs m))" "rv_State r = StatePublished"
  shows "replaced e m'"
  using checkCurrentLocked_Inr[OF assms(1,2)] assms(3-6)
  by (auto simp: replaced_def retire_def map_of_update published_now)

lemma Publish_replaces:
  assumes "rev_inv m" "rev_Publish now i e m = Inr (r, m')"
  shows "replaced e m'"
  using assms(2)
proof (cases rule: Publish_cases)
  case (1 t c)
  have "i \<noteq> e"
    using checkCurrentLocked_Inr[OF assms(1) 1(3)] 1(1,2) stored_ok_evolves[OF assms(1) 1(1) rev_evolves_refl]
    by (auto simp: rev_ok_def)
  thus ?thesis using 1 by (intro retire_replaces[OF assms(1) 1(3), of StateSuperseded i m' r]) simp_all
qed

lemma Rollback_replaces:
  assumes "rev_inv m" "rev_Rollback now e t author comment m = Inr (r, m')"
  shows "replaced e m'"
  using assms(2)
proof (cases rule: Rollback_cases)
  case (1 c q)
  have e: "rv_ID c = e" "map_of (rs_revs m) e = Some c" using checkCurrentLocked_Inr[OF assms(1) 1(1)] 1(2) by auto
  hence "rs_nextID m \<noteq> e" using stored_ok_evolves[OF assms(1) e(2) rev_evolves_refl] by (simp add: rev_ok_def)
  thus ?thesis using 1 e by (intro retire_replaces[OF assms(1) 1(1), of StateRolledBack "rs_nextID m" m' r]) (simp_all add: retire_def)
qed

text \<open>
  C31: no update is lost. Once a publication or a rollback that expected \<open>e\<close> as the published revision has been
  written, every later publication of a draft and every later rollback that still expects \<open>e\<close> is refused, however
  many writes come between.
\<close>

theorem stale_writes_refused:
  assumes "rev_step\<^sup>*\<^sup>* rev_NewMemoryStore m" "rev_step m m1" "rev_step\<^sup>*\<^sup>* m1 m2"
    and "rev_Publish now i e m = Inr (r, m1) \<or> rev_Rollback now e t author comment m = Inr (r, m1)"
  shows "(\<forall>j d now'. rev_Get m2 j = Inr d \<and> rv_State d = StateDraft \<longrightarrow> rev_Publish now' j e m2 = Inl RevConflict) \<and>
    (\<forall>now' t' author' comment'. rev_Rollback now' e t' author' comment' m2 =
       Inl (if e = 0 then NoPublished else RevConflict))"
proof -
  have iv: "rev_inv m" by (rule rev_reach_inv[OF assms(1)])
  have "rev_inv m1 \<and> replaced e m1"
    using revisions.moves_ok[OF assms(2) iv] assms(4) Publish_replaces[OF iv] Rollback_replaces[OF iv] by blast
  hence "rev_inv m2 \<and> replaced e m2" by (rule stale.runs_ok[OF assms(3)])
  hence "checkCurrentLocked e m2 = Inl RevConflict" by (blast intro: replaced_conflict)
  thus ?thesis by (simp add: rev_Publish_def rev_Rollback_def rev_Get_Inr)
qed

section \<open>What a draft builds on\<close>

text \<open>The parent of an unpublished revision: one turn of the loop.\<close>

definition builds_on :: "rev_store \<Rightarrow> revision \<Rightarrow> revision \<Rightarrow> bool" where
  "builds_on m r p \<longleftrightarrow> Unpublished (rv_State r) \<and> rev_Get m (rv_ParentID r) = Inr p"

text \<open>
  What the loop has seen on its way to \<open>r\<close>: stored, unpublished revisions, each with a parent that was seen,
  but for \<open>r\<close> itself.
\<close>

definition seen_ok :: "rev_store \<Rightarrow> int set \<Rightarrow> revision \<Rightarrow> bool" where
  "seen_ok m seen r \<longleftrightarrow> seen \<subseteq> fst ` set (rs_revs m) \<and>
     (\<forall>i\<in>seen. \<forall>x. rev_Get m i = Inr x \<longrightarrow> x = r \<or> Unpublished (rv_State x) \<and> rv_ParentID x \<in> seen)"

lemma seen_closed:
  assumes "(builds_on m)\<^sup>*\<^sup>* r x" "Unpublished (rv_State r)" "rv_ParentID r \<in> seen" "seen_ok m seen r"
  shows "Unpublished (rv_State x) \<and> rv_ParentID x \<in> seen"
  using assms(1)
proof (induction rule: rtranclp_induct)
  case base
  show ?case using assms(2,3) ..
next
  case (step y z)
  hence "z = r \<or> Unpublished (rv_State z) \<and> rv_ParentID z \<in> seen"
    using assms(4) unfolding seen_ok_def builds_on_def by blast
  thus ?case using assms(2,3) by blast
qed

lemma rootless:
  assumes "(builds_on m)\<^sup>*\<^sup>* r x" "Unpublished (rv_State r)" "rev_Get m (rv_ParentID r) = Inl err"
  shows "x = r"
  using assms by (auto elim: converse_rtranclpE simp: builds_on_def)

text \<open>What the loop returns from \<open>r\<close>.\<close>

definition based_ok :: "rev_store \<Rightarrow> revision \<Rightarrow> rev_error + int \<Rightarrow> bool" where
  "based_ok m r out = (case out of
     Inl err \<Rightarrow> err = RevNotFound \<and> (\<exists>x. (builds_on m)\<^sup>*\<^sup>* r x \<and> Unpublished (rv_State x) \<and> rev_Get m (rv_ParentID x) = Inl err)
   | Inr b \<Rightarrow> (\<exists>x. (builds_on m)\<^sup>*\<^sup>* r x \<and> \<not> Unpublished (rv_State x) \<and> rv_ID x = b) \<or>
       b = 0 \<and> (\<forall>x. (builds_on m)\<^sup>*\<^sup>* r x \<longrightarrow> Unpublished (rv_State x)))"

lemma builds_on_trans: "builds_on m r p \<Longrightarrow> (builds_on m)\<^sup>*\<^sup>* p x \<Longrightarrow> (builds_on m)\<^sup>*\<^sup>* r x"
  by (rule converse_rtranclp_into_rtranclp)

lemma based_ok_step:
  assumes "builds_on m r p" "based_ok m p out"
  shows "based_ok m r out"
proof (cases out)
  case (Inl err)
  thus ?thesis using assms by (auto simp: based_ok_def intro: builds_on_trans[OF assms(1)])
next
  case (Inr b)
  have u: "Unpublished (rv_State r)" using assms(1) by (simp add: builds_on_def)
  have d: "p' = p" if "builds_on m r p'" for p' using that assms(1) by (simp add: builds_on_def)
  have "Unpublished (rv_State x)" if "(builds_on m)\<^sup>*\<^sup>* r x" "\<forall>x. (builds_on m)\<^sup>*\<^sup>* p x \<longrightarrow> Unpublished (rv_State x)" for x
    using that(1) by (cases rule: converse_rtranclpE) (use u that(2) d in blast)+
  thus ?thesis using assms(2) Inr by (auto simp: based_ok_def intro: builds_on_trans[OF assms(1)])
qed

lemma BasedOn_loop_returns:
  assumes "rev_Get m 0 = Inl RevNotFound" "seen_ok m seen r" "card (fst ` set (rs_revs m) - seen) = n"
  shows "\<exists>out. BasedOn_loop (rev_Get m) seen r = Some out \<and> based_ok m r out"
  using assms(2,3)
proof (induction n arbitrary: seen r rule: less_induct)
  case (less n)
  let ?i = "rv_ParentID r"
  consider "\<not> Unpublished (rv_State r)" | "Unpublished (rv_State r)" "?i = 0" | "Unpublished (rv_State r)" "?i \<noteq> 0" "?i \<in> seen"
    | err where "Unpublished (rv_State r)" "?i \<noteq> 0" "?i \<notin> seen" "rev_Get m ?i = Inl err"
    | p where "Unpublished (rv_State r)" "?i \<noteq> 0" "?i \<notin> seen" "rev_Get m ?i = Inr p"
    by (cases "rev_Get m ?i") blast+
  thus ?case
  proof cases
    case 1
    thus ?thesis by (subst BasedOn_loop.simps) (auto simp: based_ok_def)
  next
    case 2
    hence "x = r" if "(builds_on m)\<^sup>*\<^sup>* r x" for x using rootless[OF that] assms(1) by simp
    thus ?thesis using 2 by (subst BasedOn_loop.simps) (auto simp: based_ok_def)
  next
    case 3
    have "Unpublished (rv_State x)" if "(builds_on m)\<^sup>*\<^sup>* r x" for x
      using seen_closed[OF that 3(1,3) less.prems(1)] ..
    thus ?thesis using 3 by (subst BasedOn_loop.simps) (auto simp: based_ok_def)
  next
    case 4
    have "err = RevNotFound" using 4(4) by (simp add: rev_Get_Inl)
    thus ?thesis using 4 by (subst BasedOn_loop.simps) (auto simp: based_ok_def)
  next
    case 5
    have i: "?i \<in> fst ` set (rs_revs m)" using 5(4) by (force simp: rev_Get_Inr dest: map_of_SomeD)
    have "fst ` set (rs_revs m) - insert ?i seen \<subset> fst ` set (rs_revs m) - seen" using i 5(3) by blast
    hence c: "card (fst ` set (rs_revs m) - insert ?i seen) < n"
      using less.prems(2) psubset_card_mono[of "fst ` set (rs_revs m) - seen"] by simp
    have s: "seen_ok m (insert ?i seen) p"
      using less.prems(1) i 5 by (auto simp: seen_ok_def)
    have "BasedOn_loop (rev_Get m) seen r = BasedOn_loop (rev_Get m) (insert ?i seen) p"
      by (subst BasedOn_loop.simps) (simp add: 5)
    moreover have "builds_on m r p" using 5 by (simp add: builds_on_def)
    ultimately show ?thesis using less.IH[OF c s refl] based_ok_step[of m r p] by metis
  qed
qed

text \<open>
  C32: the revision a draft builds on is found. For every revision in a store any writes have reached, the walk over its
  ancestors ends, cycles of imported parents included. It returns the ID of the nearest ancestor that was published, the
  revision itself if it was; 0 only if no ancestor was published; and the error of a missing parent only if one is missing.
\<close>

theorem BasedOn_nearest_published:
  assumes "rev_step\<^sup>*\<^sup>* rev_NewMemoryStore m"
  shows "\<exists>out. BasedOn (rev_Get m) r = Some out \<and>
    (case out of
       Inl err \<Rightarrow> err = RevNotFound \<and>
         (\<exists>x. (builds_on m)\<^sup>*\<^sup>* r x \<and> Unpublished (rv_State x) \<and> rev_Get m (rv_ParentID x) = Inl err)
     | Inr b \<Rightarrow> (\<exists>x. (builds_on m)\<^sup>*\<^sup>* r x \<and> \<not> Unpublished (rv_State x) \<and> rv_ID x = b) \<or>
         b = 0 \<and> (\<forall>x. (builds_on m)\<^sup>*\<^sup>* r x \<longrightarrow> Unpublished (rv_State x)))"
proof -
  have "map_of (rs_revs m) 0 = None"
    using rev_reach_inv[OF assms] unfolding rev_inv_def all_ok_def rev_ok_def by (metis less_irrefl not_None_eq)
  hence "rev_Get m 0 = Inl RevNotFound" by (simp add: rev_Get_Inl)
  from BasedOn_loop_returns[OF this, of "{}" r] show ?thesis
    by (simp add: BasedOn_def seen_ok_def based_ok_def)
qed

section \<open>A run of the store\<close>

text \<open>
  Two drafts, the second built on the first; the first is published, then the second. The stores are written out, the
  hashes kept as they are.
\<close>

definition run_draft :: "int \<Rightarrow> string \<Rightarrow> rev_draft" where
  "run_draft parent payload = \<lparr>dr_ParentID = parent, dr_Payload = payload, dr_Author = ''ann'', dr_Comment = []\<rparr>"

definition run_rev :: "int \<Rightarrow> int \<Rightarrow> string \<Rightarrow> rev_state \<Rightarrow> int option \<Rightarrow> revision" where
  "run_rev i parent payload state published =
     \<lparr>rv_ID = i, rv_ParentID = parent, rv_ContentHash = Hash payload, rv_Payload = payload, rv_State = state,
      rv_Author = ''ann'', rv_Comment = [], rv_CreatedAt = Some i, rv_PublishedAt = published\<rparr>"

definition run_store :: "revision list \<Rightarrow> int \<Rightarrow> int \<Rightarrow> rev_store" where
  "run_store revs n s = \<lparr>rs_revs = map (\<lambda>r. (rv_ID r, r)) revs, rs_nextID = n, rs_seq = s\<rparr>"

definition drafted :: rev_store where
  "drafted = run_store [run_rev 1 0 ''a'' StateDraft None, run_rev 2 1 ''b'' StateDraft None] 3 2"

definition published_first :: rev_store where
  "published_first = run_store [run_rev 1 0 ''a'' StatePublished (Some 5), run_rev 2 1 ''b'' StateDraft None] 3 3"

definition published_second :: rev_store where
  "published_second =
     run_store [run_rev 1 0 ''a'' StateSuperseded (Some 5), run_rev 2 1 ''b'' StatePublished (Some 6)] 3 4"

lemmas rev_run_defs = run_draft_def run_rev_def run_store_def drafted_def published_first_def published_second_def

lemma drafted_reached: "rev_step\<^sup>*\<^sup>* rev_NewMemoryStore drafted"
proof -
  let ?a = "snd (rev_Create 1 (run_draft 0 ''a'') rev_NewMemoryStore)"
  have "rev_step rev_NewMemoryStore ?a" by (rule rev_step.creates) (simp_all add: rev_NewMemoryStore_def)
  moreover have "rev_step ?a (snd (rev_Create 2 (run_draft 1 ''b'') ?a))"
    by (rule rev_step.creates) (simp_all add: rev_NewMemoryStore_def rev_Create_def Let_def wrap64_def)
  moreover have "snd (rev_Create 2 (run_draft 1 ''b'') ?a) = drafted"
    by (simp add: rev_NewMemoryStore_def rev_Create_def Let_def wrap64_def rev_run_defs)
  ultimately show ?thesis by (metis rtranclp.rtrancl_into_rtrancl rtranclp.rtrancl_refl)
qed

lemma publish_first: "rev_Publish 5 1 0 drafted = Inr (run_rev 1 0 ''a'' StatePublished (Some 5), published_first)"
  by (simp add: rev_Publish_def checkCurrentLocked_def Let_def publishedLocked_def zero_revision_def wrap64_def rev_run_defs)

lemma publish_second: "rev_Publish 6 2 1 published_first = Inr (run_rev 2 1 ''b'' StatePublished (Some 6), published_second)"
  by (simp add: rev_Publish_def checkCurrentLocked_def Let_def publishedLocked_def wrap64_def rev_run_defs)

lemma first_step: "rev_step drafted published_first"
  by (rule rev_step.publishes[OF _ publish_first]) (simp add: rev_run_defs)

lemma second_step: "rev_step published_first published_second"
  by (rule rev_step.publishes[OF _ publish_second]) (simp add: rev_run_defs)

lemma first_reached: "rev_step\<^sup>*\<^sup>* rev_NewMemoryStore published_first"
  by (rule rtranclp.rtrancl_into_rtrancl[OF drafted_reached first_step])

lemma get_first: "rev_Get published_first 1 = Inr (run_rev 1 0 ''a'' StatePublished (Some 5))"
  by (simp add: rev_Get_def rev_run_defs)

text \<open>Publishing the second revision supersedes the first and keeps its content.\<close>

theorem revisions_follow_lifecycle_witness:
  "rev_step\<^sup>*\<^sup>* rev_NewMemoryStore published_first \<and> rev_step published_first published_second \<and>
   (\<exists>r'. rev_Get published_second 1 = Inr r' \<and> rev_evolves (run_rev 1 0 ''a'' StatePublished (Some 5)) r' \<and>
      rv_State r' = StateSuperseded) \<and>
   rs_seq published_first < rs_seq published_second"
proof -
  note t = revisions_follow_lifecycle[OF first_reached second_step]
  obtain r' where r': "rev_Get published_second 1 = Inr r'" "rev_evolves (run_rev 1 0 ''a'' StatePublished (Some 5)) r'"
    using t get_first by blast
  have "rv_State r' = StateSuperseded" using r'(1) by (auto simp: rev_Get_def rev_run_defs)
  thus ?thesis using r' t first_reached second_step by blast
qed

text \<open>The writer who also saw no published revision, and comes second, is refused.\<close>

theorem stale_writes_refused_witness:
  "rev_step\<^sup>*\<^sup>* rev_NewMemoryStore drafted \<and> rev_step drafted published_first \<and>
   rev_Publish 5 1 0 drafted = Inr (run_rev 1 0 ''a'' StatePublished (Some 5), published_first) \<and>
   rev_Publish 6 2 0 published_first = Inl RevConflict"
proof -
  have "rev_Get published_first 2 = Inr (run_rev 2 1 ''b'' StateDraft None)"
    "rv_State (run_rev 2 1 ''b'' StateDraft None) = StateDraft"
    by (simp_all add: rev_Get_def rev_run_defs)
  hence "rev_Publish 6 2 0 published_first = Inl RevConflict"
    using stale_writes_refused[OF drafted_reached first_step rtranclp.rtrancl_refl disjI1[OF publish_first]] by blast
  thus ?thesis using drafted_reached first_step publish_first by blast
qed

text \<open>The second draft builds on the first revision once that is published.\<close>

theorem BasedOn_nearest_published_witness:
  "rev_step\<^sup>*\<^sup>* rev_NewMemoryStore published_first \<and>
   (\<exists>out. BasedOn (rev_Get published_first) (run_rev 2 1 ''b'' StateDraft None) = Some out) \<and>
   BasedOn (rev_Get published_first) (run_rev 2 1 ''b'' StateDraft None) = Some (Inr 1)"
proof -
  have "BasedOn (rev_Get published_first) (run_rev 2 1 ''b'' StateDraft None) = Some (Inr 1)"
    by (simp add: BasedOn_def BasedOn_loop.simps rev_Get_def Unpublished_def rev_run_defs)
  thus ?thesis using first_reached BasedOn_nearest_published[OF first_reached, of "run_rev 2 1 ''b'' StateDraft None"] by blast
qed

end
