(* ===== verification/Spec2Isabelle.thy ===== *)
theory Spec2Isabelle
  imports Codegen_Keys Rbac_Props Field_Uses Feedback_Laws Governed Budget_Props Cache_Props Workspace_Props
    Lane_Props Ratelimit_Props Paging_Props Write_Check Invalidation_Props Routing_Props Cascade_Props
    Results_Props Expand_Props Read_Plan_Props Aggregate_Plan_Props Write_Plan_Props Transaction_Props
    Engine_Props Mask Revision_Props
begin

text \<open>
  A verification development of sql-mcp-server, a server that gives agents access to SQL databases through tools
  (\<^verbatim>\<open>read_records\<close>, \<^verbatim>\<open>aggregate_records\<close>, \<^verbatim>\<open>create_record\<close>, \<^verbatim>\<open>update_record\<close>, \<^verbatim>\<open>delete_record\<close> and the transaction tools) under
  authorization, cost limits and budgets. Each theory names the files under \<^verbatim>\<open>src/\<close> it models; a definition has the name of
  the Go function, method or type it models, with a prefix where two packages use one name.

  \<^bold>\<open>How a call goes through the program, and what models it.\<close>

  \<^item> A call names an entity. \<^verbatim>\<open>Entity\<close> models \<^verbatim>\<open>core/entity\<close>: entities, attributes and the registry that resolves names.
  \<^item> Its filter, fields and relationships are planned. \<^verbatim>\<open>Tool_Filter\<close>, \<^verbatim>\<open>Field_Uses\<close>, \<^verbatim>\<open>Paging\<close>, \<^verbatim>\<open>Read_Plan\<close>, \<^verbatim>\<open>Aggregate_Plan\<close>,
    \<^verbatim>\<open>Write_Plan\<close>, \<^verbatim>\<open>Write_Check\<close>, \<^verbatim>\<open>Numbers\<close> and \<^verbatim>\<open>Cascade\<close> model the planning in \<^verbatim>\<open>core/tool\<close> (\<^verbatim>\<open>filter.go\<close>, \<^verbatim>\<open>field_uses.go\<close>, \<^verbatim>\<open>alias.go\<close>,
    \<^verbatim>\<open>order.go\<close>, \<^verbatim>\<open>related.go\<close>, \<^verbatim>\<open>tools_read_impl.go\<close>, \<^verbatim>\<open>tools_aggregate_impl.go\<close>, \<^verbatim>\<open>tools_write_impl.go\<close>, \<^verbatim>\<open>write_check.go\<close>, \<^verbatim>\<open>numbers.go\<close>,
    \<^verbatim>\<open>cascade.go\<close>). A plan is a function into an error or the plan, with every refusal of the code as an error value.
  \<^item> The plan asks for authorization. \<^verbatim>\<open>Rbac\<close> models \<^verbatim>\<open>core/rbac\<close>: grants, the covering rule, row filters, and the memos of the
    authorizer as explicit state.
  \<^item> The plan becomes an expression of \<^verbatim>\<open>Relalg\<close> (\<^verbatim>\<open>core/relalg\<close>), whose meaning is the reference interpreter of \<^verbatim>\<open>Interp\<close>
    (\<^verbatim>\<open>core/relalg/interp\<close>): relations of rows, three-valued predicates, every operator.
  \<^item> \<^verbatim>\<open>Codegen\<close> (\<^verbatim>\<open>core/codegen\<close>) compiles the expression to SQL with bound arguments, in a dialect of \<^verbatim>\<open>Dialects\<close> (\<^verbatim>\<open>core/dialect\<close>
    and the dialects of \<^verbatim>\<open>x/providers\<close>).
  \<^item> \<^verbatim>\<open>Cost\<close> and \<^verbatim>\<open>Feedback\<close> (\<^verbatim>\<open>core/cost\<close>) gate the statement: static rules, the database's estimate, thresholds, and what
    earlier executions of the same shape showed. \<^verbatim>\<open>Budget\<close> (\<^verbatim>\<open>core/budget\<close>) leases the session's and the tenant's budget.
  \<^item> \<^verbatim>\<open>Engine\<close> (\<^verbatim>\<open>core/engine\<close>), \<^verbatim>\<open>Lane\<close> and \<^verbatim>\<open>Semaphore\<close> (\<^verbatim>\<open>core/bus\<close>) and \<^verbatim>\<open>Ratelimit\<close> (\<^verbatim>\<open>core/ratelimit\<close>) admit and run it.
  \<^item> \<^verbatim>\<open>Executor\<close>, \<^verbatim>\<open>Results\<close> and \<^verbatim>\<open>Mask\<close> (\<^verbatim>\<open>pipeline.go\<close>, \<^verbatim>\<open>results.go\<close>, \<^verbatim>\<open>core/mask\<close>) admit and run the query, again after a stale plan,
    mask its rows, meter what is returned and follow a write, with every run in a trace; \<^verbatim>\<open>Join_Keys\<close> and \<^verbatim>\<open>Expand\<close> attach the rows of relationships.
  \<^item> \<^verbatim>\<open>Cache\<close> with \<^verbatim>\<open>Heap\<close> (\<^verbatim>\<open>core/cache\<close>), \<^verbatim>\<open>Invalidation\<close> and \<^verbatim>\<open>Routing\<close> (\<^verbatim>\<open>invalidation.go\<close>, \<^verbatim>\<open>routing.go\<close>) keep reads fresh after
    writes; \<^verbatim>\<open>Transaction\<close> (\<^verbatim>\<open>transaction.go\<close>, \<^verbatim>\<open>transaction_end.go\<close>, \<^verbatim>\<open>transaction_ended.go\<close>) holds the explicit transactions.
  \<^item> Beside the calls, \<^verbatim>\<open>Merge\<close> and \<^verbatim>\<open>Workspace\<close> (\<^verbatim>\<open>core/workspace\<close>) model the editing of configurations: the three-way merge, its
    conflicts, and the store of workspaces. \<^verbatim>\<open>Revision\<close> (\<^verbatim>\<open>core/revision\<close>) is the history of published configurations: the states of a
    revision and the store in memory, the reference of its state machine.

  \<^verbatim>\<open>Prelude\<close> and \<^verbatim>\<open>Gostd\<close> hold what of Go the models share: results, 64-bit integers with their wrap-around, strings as bytes,
  number formatting and parsing, sorting, quoting and SHA-256.

  \<^bold>\<open>How code becomes definitions.\<close> A struct is a record, an enum a datatype, a Go error an \<open>Inl\<close> or a constructor of an
  error type. A Go map is a HOL map, or an association list where its order or its updates matter. State is passed
  explicitly. Where methods run under one mutex, a call is one function; where they do not, the component is a step
  relation in which every section that is atomic in the code is one step (the lanes, tickets and executions on the bus and the calls
  of the breaker are programs of atomic operations), and any number of callers interleave
  (\<^verbatim>\<open>budget_step\<close>, \<^verbatim>\<open>cache_step\<close>, \<^verbatim>\<open>bus_step\<close>, \<^verbatim>\<open>sem_step\<close>, \<^verbatim>\<open>br_step\<close>, \<^verbatim>\<open>keyed_step\<close>, \<^verbatim>\<open>meters_step\<close>, \<^verbatim>\<open>store_step\<close>, \<^verbatim>\<open>tx_step\<close>,
  \<^verbatim>\<open>sf_step\<close>, \<^verbatim>\<open>rev_step\<close>). Objects that several goroutines point at are in a heap. The clock, random tokens, the database, the EXPLAIN of a
  database, the masker and the encoding of a row are arguments. Floating-point numbers are exact rationals. The byte and row counts of
  results and the stamps of the cache are unbounded where the code has 64 bits. The values of a call hold no JSON number with a
  fraction, which the code converts to its column's type before the plan (\<^verbatim>\<open>coerceValues\<close>, \<^verbatim>\<open>coercePredicate\<close>): other values
  pass that conversion unchanged.

  \<^bold>\<open>What the groups of lemmas show.\<close>

  \<^item> Confinement. \<^verbatim>\<open>Rbac_Laws\<close> and \<^verbatim>\<open>Rbac_Props\<close>: an allowed request is covered by one grant, field by field and row by row, and what is
    allowed is what the policy entitles the caller to, which is stated on the policy alone.
    \<^verbatim>\<open>Visibility\<close>, \<^verbatim>\<open>Read_Plan_Props\<close> and \<^verbatim>\<open>Aggregate_Plan_Props\<close>: the planned expression evaluates alike on two databases that
    agree on the rows the caller's grants select, joins and searches included. \<^verbatim>\<open>Write_Plan_Props\<close> with \<^verbatim>\<open>Write_Check\<close> and
    \<^verbatim>\<open>Cascade_Props\<close>: writes touch rows of the caller's scope only, leave them in it, and cascade, by the referential actions of SQL, only where the
    caller may write.
    \<^verbatim>\<open>Mask\<close>: what a masked value shows.
  \<^item> Compilation. \<^verbatim>\<open>Codegen_Laws\<close>, \<^verbatim>\<open>Codegen_Chain\<close>, \<^verbatim>\<open>Codegen_Keys\<close>, \<^verbatim>\<open>Codegen_Props\<close>: the text of a statement does not depend on
    the values it binds, the clauses are the expression, but for operators with nothing in them, a key
    point reaches at most one row, and no write is unbounded.
  \<^item> Semantics. \<^verbatim>\<open>Interp_Laws\<close>, \<^verbatim>\<open>Interp_Reads\<close>, \<^verbatim>\<open>Interp_Check\<close>: the operators do what they say, reads of a well-formed database do
    not panic, and the check of a partly known row is sound.
  \<^item> Governance. \<^verbatim>\<open>Cost_Laws\<close>, \<^verbatim>\<open>Cost_Props\<close>, \<^verbatim>\<open>Feedback_Laws\<close>, \<^verbatim>\<open>Governed\<close>, \<^verbatim>\<open>Executor\<close>, \<^verbatim>\<open>Results_Props\<close>, \<^verbatim>\<open>Budget_Laws\<close>, \<^verbatim>\<open>Budget_Props\<close>: what
    passes the gate is within its limits, what is returned is within the meters, and the books of budgets and of
    result memory balance under every interleaving.
  \<^item> Freshness. \<^verbatim>\<open>Cache_Laws\<close>, \<^verbatim>\<open>Cache_Props\<close>, \<^verbatim>\<open>Invalidation_Props\<close>, \<^verbatim>\<open>Routing_Props\<close>: the cache returns no result a finished write
    made stale, a write drops every read it may change, and a session reads its own writes.
  \<^item> Concurrency. \<^verbatim>\<open>Lane_Laws\<close>, \<^verbatim>\<open>Lane_Props\<close>, \<^verbatim>\<open>Ratelimit_Props\<close>, \<^verbatim>\<open>Engine_Props\<close>, \<^verbatim>\<open>Transaction_Props\<close>: counters are exact, nothing
    deadlocks, executions give back what they take and are shared until the deadline of the caller that began them, an outcome
    that is out of date leaves the breaker alone, every database transaction follows its protocol, and closing ends them all.
  \<^item> Reads in pieces. \<^verbatim>\<open>Paging_Props\<close>, \<^verbatim>\<open>Expand_Props\<close>, \<^verbatim>\<open>Join_Key_Laws\<close>: pages and expansions lose no row and add none, on a
    database that answers the predicate of a batch in SQL's meaning and compares join columns by value.
  \<^item> Editing. \<^verbatim>\<open>Merge_Laws\<close>, \<^verbatim>\<open>Merge_Props\<close>, \<^verbatim>\<open>Workspace_Props\<close>: a merge keeps both sides' changes or reports the conflict.
    \<^verbatim>\<open>Revision_Props\<close>: a revision keeps its content and follows its lifecycle, a publication on a stale view is refused, and what a draft builds on is found.

  \<^bold>\<open>Interfaces.\<close> \<^verbatim>\<open>transition_system\<close> (\<^verbatim>\<open>Prelude\<close>) is the invariant rule of the step relations, interpreted on them;
  \<^verbatim>\<open>quoting_dialect\<close> is what code generation relies on of a dialect, interpreted on the three dialects; \<^verbatim>\<open>entity_source\<close> is what
  callers rely on of a registry; \<^verbatim>\<open>rel_operator\<close> is the contract of a relational operator, interpreted on every operator of the
  interpreter.

  \<^bold>\<open>Bounds and termination.\<close> No definition uses fuel. Loops are structural or have a termination proof; the two walks
  over cascades (\<^verbatim>\<open>walkCascades\<close>, \<^verbatim>\<open>compute_loop\<close>) and the walk over the ancestors of a draft (\<^verbatim>\<open>BasedOn_loop\<close>), which need not be bounded for an
  arbitrary registry or store, are partial functions into an option, and are proved to return for every registry and store
  the code can build. The counters of revisions are 64-bit; their steps stop short of the largest value. The step relations allow every
  finite interleaving.

  \<^bold>\<open>Not modelled.\<close> Transport, assembly and administration (\<^verbatim>\<open>x/mcpserver\<close>, \<^verbatim>\<open>x/bootstrap\<close>, \<^verbatim>\<open>x/catalog\<close>, \<^verbatim>\<open>x/providerregistry\<close>, \<^verbatim>\<open>x/admin\<close>,
  \<^verbatim>\<open>cmd\<close>) are input, output and wiring, and most of \<^verbatim>\<open>x/admin\<close> is generated. \<^verbatim>\<open>core/config\<close>, \<^verbatim>\<open>x/configplan\<close> and the other
  configuration packages decode and validate files; the models take configurations as values. \<^verbatim>\<open>core/introspect\<close> and the drivers in
  \<^verbatim>\<open>x/providers\<close> depend on the catalogs of live databases. \<^verbatim>\<open>x/configstore\<close>, \<^verbatim>\<open>x/revisionops\<close>, \<^verbatim>\<open>x/workspaceops\<close> and \<^verbatim>\<open>x/leasing\<close> are
  operations over shared SQL stores, whose isolation they rely on. Observability and audit (\<^verbatim>\<open>core/audit\<close>, \<^verbatim>\<open>core/hook\<close>, \<^verbatim>\<open>x/otel\<close>,
  \<^verbatim>\<open>x/telemetry\<close>) do not affect results. Of \<^verbatim>\<open>core/tool\<close>, the descriptions and hints for agents, stored procedures and raw SQL are
  left out, and so are statements that return no rows (\<^verbatim>\<open>exec\<close>) and the classification of database errors. What makes the statement of a batch
  of an expansion (its authorization, compilation and gate) and what follows a write (\<^verbatim>\<open>afterWrite\<close>) are arguments of the executor and the
  expansion; their parts are modelled in their own theories. The tools of the repository itself (\<^verbatim>\<open>internal\<close>,
  \<^verbatim>\<open>eval\<close>) are not part of the server.
\<close>

end
